(* ===== verification/Prelude.thy ===== *)
theory Prelude
  imports Main "HOL-Library.Word" "HOL-Library.Multiset"
begin

text \<open>
  Shared vocabulary of the development: Rust's machine integers and its checked and
  saturating arithmetic, results with an error side, positions in vectors, sums over the
  records of a ledger, and exhaustive evaluation over the 64 bit positions of a word.

  Two renderings of machine integers are used. Code that works on bits or relies on
  wrap-around uses words (\<open>u32\<close>, \<open>u64\<close>). Accounting code, whose additions are all
  guarded by \<open>checked_add\<close>, uses natural numbers with the width written out in the guard.
\<close>

unbundle bit_operations_syntax

type_synonym u8 = "8 word"
type_synonym u16 = "16 word"
type_synonym u32 = "32 word"
type_synonym u64 = "64 word"
type_synonym u128 = "128 word"

named_theorems width_defs "the maxima of the unsigned machine types"

definition u16_max :: nat where [width_defs]: "u16_max = 2 ^ 16 - 1"
definition u32_max :: nat where [width_defs]: "u32_max = 2 ^ 32 - 1"
definition u64_max :: nat where [width_defs]: "u64_max = 2 ^ 64 - 1"
definition u128_max :: nat where [width_defs]: "u128_max = 2 ^ 128 - 1"

section \<open>Outcomes\<close>

text \<open>
  The outcome of a fallible Rust operation: a value, a typed refusal, or a panic (\<open>expect\<close> on
  a failed check, a failed assertion, an index out of range).
\<close>

datatype ('e, 'a) outcome = Ok (the_ok: 'a) | Err (the_err: 'e) | Panicked

section \<open>Checked and saturating arithmetic at a width\<close>

text \<open>The first argument is the maximum of the type (\<open>u64::MAX\<close> and its siblings).\<close>

definition checked_add :: "nat \<Rightarrow> nat \<Rightarrow> nat \<Rightarrow> nat option" where
  "checked_add m a b = (if a + b \<le> m then Some (a + b) else None)"

definition checked_mul :: "nat \<Rightarrow> nat \<Rightarrow> nat \<Rightarrow> nat option" where
  "checked_mul m a b = (if a * b \<le> m then Some (a * b) else None)"

definition checked_sub :: "nat \<Rightarrow> nat \<Rightarrow> nat option" where
  "checked_sub a b = (if b \<le> a then Some (a - b) else None)"

definition saturating_add :: "nat \<Rightarrow> nat \<Rightarrow> nat \<Rightarrow> nat" where
  "saturating_add m a b = min (a + b) m"

definition div_ceil :: "nat \<Rightarrow> nat \<Rightarrow> nat" where
  "div_ceil a b = (if a mod b = 0 then a div b else a div b + 1)"

lemma checked_add_Some [simp]:
  "checked_add m a b = Some c \<longleftrightarrow> c = a + b \<and> a + b \<le> m"
  by (auto simp: checked_add_def)

lemma checked_add_None [simp]: "checked_add m a b = None \<longleftrightarrow> m < a + b"
  by (auto simp: checked_add_def)

lemma checked_sub_Some [simp]:
  "checked_sub a b = Some c \<longleftrightarrow> c = a - b \<and> b \<le> a"
  by (auto simp: checked_sub_def)

lemma checked_sub_None [simp]: "checked_sub a b = None \<longleftrightarrow> a < b"
  by (auto simp: checked_sub_def)

lemma checked_mul_Some [simp]:
  "checked_mul m a b = Some c \<longleftrightarrow> c = a * b \<and> a * b \<le> m"
  by (auto simp: checked_mul_def)

lemma checked_mul_None [simp]: "checked_mul m a b = None \<longleftrightarrow> m < a * b"
  by (auto simp: checked_mul_def)

lemma saturating_add_le [simp]: "saturating_add m a b \<le> m"
  by (simp add: saturating_add_def)

lemma div_ceil_covers: "0 < b \<Longrightarrow> a \<le> div_ceil a b * b"
proof -
  assume "0 < b"
  then have lt: "a mod b < b" by simp
  have eq: "a = a div b * b + a mod b" by simp
  show ?thesis
  proof (cases "a mod b = 0")
    case True
    with eq show ?thesis by (simp add: div_ceil_def)
  next
    case False
    have "div_ceil a b * b = a div b * b + b"
      using False by (simp add: div_ceil_def)
    with eq lt show ?thesis by linarith
  qed
qed

lemma div_ceil_gt: "i < a \<Longrightarrow> 0 < b \<Longrightarrow> i div b < div_ceil a b"
  by (metis div_ceil_covers less_mult_imp_div_less order_less_le_trans)

section \<open>Vectors\<close>

text \<open>\<open>Iterator::position\<close>: the index of the first element satisfying a predicate.\<close>

fun position :: "('a \<Rightarrow> bool) \<Rightarrow> 'a list \<Rightarrow> nat option" where
  "position P [] = None"
| "position P (x # xs) = (if P x then Some 0 else map_option Suc (position P xs))"

lemma position_Some_D:
  "position P xs = Some i \<Longrightarrow> i < length xs \<and> P (xs ! i) \<and> (\<forall>j<i. \<not> P (xs ! j))"
proof (induction xs arbitrary: i)
  case Nil
  then show ?case by simp
next
  case (Cons x xs)
  then show ?case
    by (fastforce split: if_splits simp: less_Suc_eq_0_disj)
qed

lemma position_None [simp]: "position P xs = None \<longleftrightarrow> (\<forall>x\<in>set xs. \<not> P x)"
  by (induction xs) auto

lemma position_eq_Some_iff:
  "position P xs = Some i \<longleftrightarrow> i < length xs \<and> P (xs ! i) \<and> (\<forall>j<i. \<not> P (xs ! j))"
proof
  assume "position P xs = Some i"
  then show "i < length xs \<and> P (xs ! i) \<and> (\<forall>j<i. \<not> P (xs ! j))"
    by (rule position_Some_D)
next
  assume a: "i < length xs \<and> P (xs ! i) \<and> (\<forall>j<i. \<not> P (xs ! j))"
  then obtain k where k: "position P xs = Some k"
    using position_None [of P xs] nth_mem by (metis not_Some_eq)
  have "k = i"
    using position_Some_D [OF k] a by (metis linorder_neqE_nat)
  with k show "position P xs = Some i" by simp
qed

text \<open>Totals over the records of a ledger, and how updating one record moves them.\<close>

definition total :: "('a \<Rightarrow> nat) \<Rightarrow> 'a list \<Rightarrow> nat" where
  "total f xs = sum_list (map f xs)"

lemma total_Nil [simp]: "total f [] = 0"
  by (simp add: total_def)

lemma total_Cons [simp]: "total f (x # xs) = f x + total f xs"
  by (simp add: total_def)

lemma total_append [simp]: "total f (xs @ ys) = total f xs + total f ys"
  by (simp add: total_def)

lemma total_split: "i < length xs \<Longrightarrow> total f xs = f (xs ! i) + total f (take i xs @ drop (Suc i) xs)"
  by (subst id_take_nth_drop [of i xs]) auto

lemma total_update:
  "i < length xs \<Longrightarrow> total f (xs[i := y]) + f (xs ! i) = total f xs + f y"
  by (induction xs arbitrary: i) (auto split: nat.splits)

lemma total_ge_nth: "i < length xs \<Longrightarrow> f (xs ! i) \<le> total f xs"
  by (subst total_split [of i]) auto

lemma total_cong: "(\<And>x. x \<in> set xs \<Longrightarrow> f x = g x) \<Longrightarrow> total f xs = total g xs"
  by (induction xs) auto

lemma total_perm: "mset xs = mset ys \<Longrightarrow> total f xs = total f ys"
  by (metis mset_map sum_mset_sum_list total_def)

lemma total_zero_iff: "total f xs = 0 \<longleftrightarrow> (\<forall>x\<in>set xs. f x = 0)"
  by (induction xs) auto

lemma total_update_same:
  "i < length xs \<Longrightarrow> f y = f (xs ! i) \<Longrightarrow> total f (xs[i := y]) = total f xs"
  using total_update [of i xs f y] by simp

lemma total_update_add:
  "i < length xs \<Longrightarrow> f y = f (xs ! i) + d \<Longrightarrow> total f (xs[i := y]) = total f xs + d"
  using total_update [of i xs f y] by simp

lemma total_update_sub:
  "i < length xs \<Longrightarrow> f y = f (xs ! i) - d \<Longrightarrow> d \<le> f (xs ! i) \<Longrightarrow>
   total f (xs[i := y]) = total f xs - d"
  using total_update [of i xs f y] by simp

lemma total_ge_mem: "x \<in> set xs \<Longrightarrow> f x \<le> total f xs"
  by (metis in_set_conv_nth total_ge_nth)

lemma total_remove1: "x \<in> set xs \<Longrightarrow> total f (remove1 x xs) = total f xs - f x"
  by (induction xs) (auto simp: total_ge_mem)

lemma total_mono: "(\<And>x. x \<in> set xs \<Longrightarrow> f x \<le> g x) \<Longrightarrow> total f xs \<le> total g xs"
  by (induction xs) (auto simp: add_mono)

lemma total_mono_at:
  assumes "\<And>x. x \<in> set xs \<Longrightarrow> f x \<le> g x" "i < length xs" "f (xs ! i) + d \<le> g (xs ! i)"
  shows "total f xs + d \<le> total g xs"
proof -
  have "total f (take i xs @ drop (Suc i) xs) \<le> total g (take i xs @ drop (Suc i) xs)"
    by (rule total_mono) (use assms(1) in \<open>auto dest: in_set_takeD in_set_dropD\<close>)
  then show ?thesis
    using total_split [OF assms(2), of f] total_split [OF assms(2), of g] assms(3) by simp
qed

lemma total_pos_iff: "0 < total f xs \<longleftrightarrow> (\<exists>x\<in>set xs. 0 < f x)"
  using total_zero_iff [of f xs] by auto

lemma total_through:
  assumes "\<And>x. f (e x) = f x" "map e ys = map e xs"
  shows "total f ys = total f xs"
proof -
  have "total f zs = total f (map e zs)" for zs
    by (induction zs) (simp_all add: assms(1))
  then show ?thesis by (metis assms(2))
qed

lemma ball_through:
  assumes "\<And>x. P (e x) = P x" "map e ys = map e xs"
  shows "(\<forall>y\<in>set ys. P y) \<longleftrightarrow> (\<forall>x\<in>set xs. P x)"
proof -
  have "(\<forall>z\<in>set zs. P z) \<longleftrightarrow> (\<forall>z\<in>set (map e zs). P z)" for zs
    by (simp add: assms(1))
  then show ?thesis by (metis assms(2))
qed

text \<open>A vector whose elements have distinct keys, updated at one index without changing the key.\<close>

lemma ball_keyed_update:
  assumes "distinct (map key xs)" "i < length xs" "P y"
    and "\<And>x. x \<in> set xs \<Longrightarrow> key x \<noteq> key (xs ! i) \<Longrightarrow> P x"
  shows "\<forall>x\<in>set (xs[i := y]). P x"
proof
  fix x assume "x \<in> set (xs[i := y])"
  then obtain k where k: "k < length xs" "x = xs[i := y] ! k" by (auto simp: in_set_conv_nth)
  show "P x"
  proof (cases "k = i")
    case True
    then show ?thesis using k assms(2,3) by simp
  next
    case False
    then have "key (xs ! k) \<noteq> key (xs ! i)"
      using assms(1,2) k(1) by (auto simp: distinct_conv_nth)
    then show ?thesis using k False assms(4) by simp
  qed
qed

lemma map_keyed_update [simp]:
  "i < length xs \<Longrightarrow> key y = key (xs ! i) \<Longrightarrow> map key (xs[i := y]) = map key xs"
  by (metis list_update_id map_update)

lemma total_unique_key:
  assumes "distinct (map key xs)" "i < length xs"
    and "\<And>x. x \<in> set xs \<Longrightarrow> key x \<noteq> key (xs ! i) \<Longrightarrow> f x = 0"
  shows "total f xs = f (xs ! i)"
proof -
  have "total f (xs[i := xs ! i]) = f (xs ! i)"
    using assms
  proof (induction xs arbitrary: i)
    case (Cons a xs)
    show ?case
    proof (cases i)
      case 0
      then have "total f xs = 0"
        using Cons.prems by (force simp: total_zero_iff image_iff)
      then show ?thesis using 0 by simp
    next
      case (Suc j)
      then have "f a = 0" using Cons.prems by (force simp: in_set_conv_nth)
      moreover have "total f (xs[j := xs ! j]) = f (xs ! j)"
        using Cons.prems Suc by (intro Cons.IH) auto
      ultimately show ?thesis using Suc by simp
    qed
  qed simp
  then show ?thesis by simp
qed

section \<open>Evaluating a predicate on every bit position\<close>

text \<open>
  A statement about all bits of a \<open>u64\<close> becomes 64 ground instances, which the
  simplifier decides one by one.
\<close>

lemma upt64: "[0..<64] =
  [0, 1, 2, 3, 4, 5, 6, 7, 8, 9, 10, 11, 12, 13, 14, 15, 16, 17, 18, 19, 20, 21, 22, 23, 24,
   25, 26, 27, 28, 29, 30, 31, 32, 33, 34, 35, 36, 37, 38, 39, 40, 41, 42, 43, 44, 45, 46, 47,
   48, 49, 50, 51, 52, 53, 54, 55, 56, 57, 58, 59, 60, 61, 62, 63 :: nat]"
  by code_simp

lemma all_bits64: "(\<forall>n<64. P n) \<longleftrightarrow> list_all P
  [0, 1, 2, 3, 4, 5, 6, 7, 8, 9, 10, 11, 12, 13, 14, 15, 16, 17, 18, 19, 20, 21, 22, 23, 24,
   25, 26, 27, 28, 29, 30, 31, 32, 33, 34, 35, 36, 37, 38, 39, 40, 41, 42, 43, 44, 45, 46, 47,
   48, 49, 50, 51, 52, 53, 54, 55, 56, 57, 58, 59, 60, 61, 62, 63 :: nat]"
  by (simp only: upt64 [symmetric]) (auto simp: list_all_iff)

lemma Suc_Suc_0_eq: "Suc (Suc 0) = 2"
  by simp

lemmas bits64_unfold = all_bits64 list.pred_inject

end
