(* ===== verification/Morton.thy ===== *)
theory Morton
  imports Prelude
begin

text \<open>
  The 3D Morton (Z-order) codec of \<open>crates/fs-substrate/src/morton\<close>: the portable
  magic-bits backend (\<open>part1by2\<close>, \<open>compact1by2\<close>, \<open>encode_magic\<close>, \<open>decode_magic\<close>) and the
  BMI2 backend (\<open>bmi2/mod.rs\<close>), whose two machine instructions PDEP and PEXT are modelled by
  the bit loops that define them.

  The lemmas give each backend its bit-level meaning (bit \<open>3i\<close> of a code is bit \<open>i\<close> of x, and
  so on), from which follow the round trips, the range of a code, and the equality of the two
  backends on every input.
\<close>

definition MORTON_BITS :: nat where
  "MORTON_BITS = 21"

definition MORTON_COORD_LIMIT :: nat where
  "MORTON_COORD_LIMIT = 2 ^ MORTON_BITS"

section \<open>The magic-bits backend\<close>

definition part1by2 :: "u64 \<Rightarrow> u64" where
  "part1by2 v =
    (let v = v AND 0x1fffff;
         v = (v OR push_bit 32 v) AND 0x1f00000000ffff;
         v = (v OR push_bit 16 v) AND 0x1f0000ff0000ff;
         v = (v OR push_bit 8 v) AND 0x100f00f00f00f00f;
         v = (v OR push_bit 4 v) AND 0x10c30c30c30c30c3;
         v = (v OR push_bit 2 v) AND 0x1249249249249249
     in v)"

definition compact1by2 :: "u64 \<Rightarrow> u64" where
  "compact1by2 v =
    (let v = v AND 0x1249249249249249;
         v = (v XOR drop_bit 2 v) AND 0x10c30c30c30c30c3;
         v = (v XOR drop_bit 4 v) AND 0x100f00f00f00f00f;
         v = (v XOR drop_bit 8 v) AND 0x1f0000ff0000ff;
         v = (v XOR drop_bit 16 v) AND 0x1f00000000ffff;
         v = (v XOR drop_bit 32 v) AND 0x1fffff
     in v)"

definition encode_magic :: "u32 \<Rightarrow> u32 \<Rightarrow> u32 \<Rightarrow> u64" where
  "encode_magic x y z =
     part1by2 (ucast x) OR push_bit 1 (part1by2 (ucast y)) OR push_bit 2 (part1by2 (ucast z))"

definition decode_magic :: "u64 \<Rightarrow> u32 \<times> u32 \<times> u32" where
  "decode_magic code =
     (ucast (compact1by2 code), ucast (compact1by2 (drop_bit 1 code)),
      ucast (compact1by2 (drop_bit 2 code)))"

text \<open>
  After the step with shift \<open>2c\<close> the word holds the low 21 bits of the input in chunks of
  \<open>c\<close> bits, one chunk every \<open>3c\<close> positions: \<open>spread c v n\<close> says what bit \<open>n\<close> is then.
\<close>

definition spread :: "nat \<Rightarrow> u64 \<Rightarrow> nat \<Rightarrow> bool" where
  "spread c v n \<longleftrightarrow>
     n mod (3 * c) < c \<and> (n div (3 * c)) * c + n mod (3 * c) < 21 \<and>
     bit v ((n div (3 * c)) * c + n mod (3 * c))"

lemmas spread_eval = Suc_Suc_0_eq bit_and_iff bit_or_iff bit_xor_iff bit_push_bit_iff
  bit_drop_bit_eq spread_def

lemma spread_start: "\<forall>n<64. bit (v AND 0x1fffff :: u64) n = spread 32 v n"
  unfolding bits64_unfold by (simp add: spread_eval)

lemma spread_16:
  "\<forall>n<64. bit w n = spread 32 v n \<Longrightarrow>
   \<forall>n<64. bit ((w OR push_bit 32 w) AND 0x1f00000000ffff :: u64) n = spread 16 v n"
  unfolding bits64_unfold by (simp add: spread_eval)

lemma spread_8:
  "\<forall>n<64. bit w n = spread 16 v n \<Longrightarrow>
   \<forall>n<64. bit ((w OR push_bit 16 w) AND 0x1f0000ff0000ff :: u64) n = spread 8 v n"
  unfolding bits64_unfold by (simp add: spread_eval)

lemma spread_4:
  "\<forall>n<64. bit w n = spread 8 v n \<Longrightarrow>
   \<forall>n<64. bit ((w OR push_bit 8 w) AND 0x100f00f00f00f00f :: u64) n = spread 4 v n"
  unfolding bits64_unfold by (simp add: spread_eval)

lemma spread_2:
  "\<forall>n<64. bit w n = spread 4 v n \<Longrightarrow>
   \<forall>n<64. bit ((w OR push_bit 4 w) AND 0x10c30c30c30c30c3 :: u64) n = spread 2 v n"
  unfolding bits64_unfold by (simp add: spread_eval)

lemma spread_1:
  "\<forall>n<64. bit w n = spread 2 v n \<Longrightarrow>
   \<forall>n<64. bit ((w OR push_bit 2 w) AND 0x1249249249249249 :: u64) n = spread 1 v n"
  unfolding bits64_unfold by (simp add: spread_eval)

lemma part1by2_spread: "\<forall>n<64. bit (part1by2 v) n = spread 1 v n"
  unfolding part1by2_def Let_def
  by (intro spread_1 spread_2 spread_4 spread_8 spread_16 spread_start)

lemma bit_beyond_u64: "64 \<le> n \<Longrightarrow> \<not> bit (w :: u64) n"
  by (auto dest: bit_imp_le_length)

lemma bit_part1by2:
  "bit (part1by2 v) n \<longleftrightarrow> n mod 3 = 0 \<and> n div 3 < 21 \<and> bit v (n div 3)"
proof (cases "n < 64")
  case True
  then have "bit (part1by2 v) n = spread 1 v n" using part1by2_spread by blast
  then show ?thesis by (auto simp: spread_def)
next
  case False
  then have "64 \<le> n" by simp
  moreover from this have "21 \<le> n div 3" by linarith
  ultimately show ?thesis by (simp add: bit_beyond_u64)
qed

text \<open>The gathering steps are the mirror image, reading every third bit of the code.\<close>

definition gathered :: "nat \<Rightarrow> u64 \<Rightarrow> nat \<Rightarrow> bool" where
  "gathered c v n \<longleftrightarrow>
     n mod (3 * c) < c \<and> (n div (3 * c)) * c + n mod (3 * c) < 21 \<and>
     bit v (3 * ((n div (3 * c)) * c + n mod (3 * c)))"

lemmas gather_eval = Suc_Suc_0_eq bit_and_iff bit_or_iff bit_xor_iff bit_push_bit_iff
  bit_drop_bit_eq gathered_def bit_beyond_u64

lemma gathered_start: "\<forall>n<64. bit (v AND 0x1249249249249249 :: u64) n = gathered 1 v n"
  unfolding bits64_unfold by (simp add: gather_eval)

lemma gathered_2:
  "\<forall>n<64. bit w n = gathered 1 v n \<Longrightarrow>
   \<forall>n<64. bit ((w XOR drop_bit 2 w) AND 0x10c30c30c30c30c3 :: u64) n = gathered 2 v n"
  unfolding bits64_unfold by (simp add: gather_eval)

lemma gathered_4:
  "\<forall>n<64. bit w n = gathered 2 v n \<Longrightarrow>
   \<forall>n<64. bit ((w XOR drop_bit 4 w) AND 0x100f00f00f00f00f :: u64) n = gathered 4 v n"
  unfolding bits64_unfold by (simp add: gather_eval)

lemma gathered_8:
  "\<forall>n<64. bit w n = gathered 4 v n \<Longrightarrow>
   \<forall>n<64. bit ((w XOR drop_bit 8 w) AND 0x1f0000ff0000ff :: u64) n = gathered 8 v n"
  unfolding bits64_unfold by (simp add: gather_eval)

lemma gathered_16:
  "\<forall>n<64. bit w n = gathered 8 v n \<Longrightarrow>
   \<forall>n<64. bit ((w XOR drop_bit 16 w) AND 0x1f00000000ffff :: u64) n = gathered 16 v n"
  unfolding bits64_unfold by (simp add: gather_eval)

lemma gathered_32:
  "\<forall>n<64. bit w n = gathered 16 v n \<Longrightarrow>
   \<forall>n<64. bit ((w XOR drop_bit 32 w) AND 0x1fffff :: u64) n = gathered 32 v n"
  unfolding bits64_unfold by (simp add: gather_eval)

lemma compact1by2_gathered: "\<forall>n<64. bit (compact1by2 v) n = gathered 32 v n"
  unfolding compact1by2_def Let_def
  by (intro gathered_32 gathered_16 gathered_8 gathered_4 gathered_2 gathered_start)

lemma bit_compact1by2: "bit (compact1by2 v) n \<longleftrightarrow> n < 21 \<and> bit v (3 * n)"
proof (cases "n < 64")
  case True
  then have "bit (compact1by2 v) n = gathered 32 v n" using compact1by2_gathered by blast
  with True show ?thesis by (auto simp: gathered_def)
next
  case False
  then show ?thesis by (simp add: bit_beyond_u64)
qed

section \<open>The BMI2 backend\<close>

text \<open>
  PDEP deposits the low bits of the source, in order, at the set positions of the mask; PEXT
  collects the source bits at the set positions of the mask into the low bits. Both are
  written as the loop over the mask's 64 positions that defines the instruction; the second
  number counts the mask bits met so far.
\<close>

fun pdep_loop :: "nat \<Rightarrow> nat \<Rightarrow> nat \<Rightarrow> u64 \<Rightarrow> u64 \<Rightarrow> u64" where
  "pdep_loop 0 i k src m = 0"
| "pdep_loop (Suc fuel) i k src m =
     (if bit m i
      then (if bit src k then push_bit i 1 else 0) OR pdep_loop fuel (Suc i) (Suc k) src m
      else pdep_loop fuel (Suc i) k src m)"

fun pext_loop :: "nat \<Rightarrow> nat \<Rightarrow> nat \<Rightarrow> u64 \<Rightarrow> u64 \<Rightarrow> u64" where
  "pext_loop 0 i k src m = 0"
| "pext_loop (Suc fuel) i k src m =
     (if bit m i
      then (if bit src i then push_bit k 1 else 0) OR pext_loop fuel (Suc i) (Suc k) src m
      else pext_loop fuel (Suc i) k src m)"

definition pdep_u64 :: "u64 \<Rightarrow> u64 \<Rightarrow> u64" where
  "pdep_u64 src m = pdep_loop 64 0 0 src m"

definition pext_u64 :: "u64 \<Rightarrow> u64 \<Rightarrow> u64" where
  "pext_u64 src m = pext_loop 64 0 0 src m"

definition MASK_X :: u64 where "MASK_X = 0x1249249249249249"
definition MASK_Y :: u64 where "MASK_Y = push_bit 1 MASK_X"
definition MASK_Z :: u64 where "MASK_Z = push_bit 2 MASK_X"

definition encode_bmi2 :: "u32 \<Rightarrow> u32 \<Rightarrow> u32 \<Rightarrow> u64" where
  "encode_bmi2 x y z =
     pdep_u64 (ucast x) MASK_X OR pdep_u64 (ucast y) MASK_Y OR pdep_u64 (ucast z) MASK_Z"

definition decode_bmi2 :: "u64 \<Rightarrow> u32 \<times> u32 \<times> u32" where
  "decode_bmi2 code =
     (ucast (pext_u64 code MASK_X), ucast (pext_u64 code MASK_Y), ucast (pext_u64 code MASK_Z))"

text \<open>
  \<open>fns()\<close> picks the backend once per process from the detected CPU feature, here the first
  argument of the public entry points.
\<close>

definition morton_backend :: "bool \<Rightarrow> string" where
  "morton_backend bmi2 = (if bmi2 then ''bmi2'' else ''magic-bits'')"

definition morton3_encode :: "bool \<Rightarrow> u32 \<Rightarrow> u32 \<Rightarrow> u32 \<Rightarrow> u64" where
  "morton3_encode bmi2 x y z = (if bmi2 then encode_bmi2 x y z else encode_magic x y z)"

definition morton3_decode :: "bool \<Rightarrow> u64 \<Rightarrow> u32 \<times> u32 \<times> u32" where
  "morton3_decode bmi2 code = (if bmi2 then decode_bmi2 code else decode_magic code)"

section \<open>Bit-level meaning of the two backends\<close>

lemma mod3_cases:
  obtains (0) q where "n = 3 * q" | (1) q where "n = 3 * q + 1" | (2) q where "n = 3 * q + (2::nat)"
proof -
  have eq: "n = 3 * (n div 3) + n mod 3" by simp
  consider (a) "n mod 3 = 0" | (b) "n mod 3 = 1" | (c) "n mod 3 = 2" by linarith
  then show ?thesis
  proof cases
    case a
    with eq have "n = 3 * (n div 3)" by linarith
    then show ?thesis by (rule 0)
  next
    case b
    with eq have "n = 3 * (n div 3) + 1" by linarith
    then show ?thesis by (rule 1)
  next
    case c
    with eq have "n = 3 * (n div 3) + 2" by linarith
    then show ?thesis by (rule 2)
  qed
qed

lemma mod3_eval:
  "(3 * q) mod 3 = (0::nat)" "(3 * q + 1) mod 3 = (1::nat)" "(3 * q + 2) mod 3 = (2::nat)"
  "Suc (3 * q) mod 3 = (1::nat)" "Suc (Suc (3 * q)) mod 3 = (2::nat)"
  "(3 * q + 1) div 3 = (q::nat)" "(3 * q + 2) div 3 = (q::nat)" "Suc (3 * q) div 3 = (q::nat)"
  "Suc (Suc (3 * q)) div 3 = (q::nat)"
  by presburger+

lemmas codec_bits = bit_or_iff bit_push_bit_iff bit_part1by2 bit_unsigned_iff

lemma bit_encode_magic:
  "bit (encode_magic x y z) n \<longleftrightarrow>
     n < 63 \<and> bit (if n mod 3 = 0 then x else if n mod 3 = 1 then y else z) (n div 3)"
proof (cases n rule: mod3_cases)
  case (0 q)
  then show ?thesis
    unfolding encode_magic_def codec_bits
    by (cases q) (auto simp: mod3_eval dest: bit_imp_le_length)
next
  case (1 q)
  then show ?thesis
    unfolding encode_magic_def codec_bits
    by (cases q) (auto simp: mod3_eval dest: bit_imp_le_length)
next
  case (2 q)
  then show ?thesis
    unfolding encode_magic_def codec_bits
    by (auto simp: mod3_eval dest: bit_imp_le_length)
qed

lemma bit_MASK:
  "bit MASK_X n \<longleftrightarrow> n < 63 \<and> n mod 3 = 0"
  "bit MASK_Y n \<longleftrightarrow> n < 63 \<and> n mod 3 = 1"
  "bit MASK_Z n \<longleftrightarrow> n < 63 \<and> n mod 3 = 2"
proof -
  have "\<forall>n<64. bit MASK_X n \<longleftrightarrow> n < 63 \<and> n mod 3 = 0"
    and "\<forall>n<64. bit MASK_Y n \<longleftrightarrow> n < 63 \<and> n mod 3 = 1"
    and "\<forall>n<64. bit MASK_Z n \<longleftrightarrow> n < 63 \<and> n mod 3 = 2"
    unfolding bits64_unfold by (simp_all add: MASK_X_def MASK_Y_def MASK_Z_def)
  then show "bit MASK_X n \<longleftrightarrow> n < 63 \<and> n mod 3 = 0"
    and "bit MASK_Y n \<longleftrightarrow> n < 63 \<and> n mod 3 = 1"
    and "bit MASK_Z n \<longleftrightarrow> n < 63 \<and> n mod 3 = 2"
    using bit_beyond_u64 [of n] by (cases "n < 64"; auto)+
qed

lemma bit_single: "bit (if b then push_bit i 1 else 0 :: u64) n \<longleftrightarrow> b \<and> n = i \<and> n < 64"
  by (auto simp: bit_push_bit_iff bit_exp_iff)

lemma bit_pdep_loop:
  "bit (pdep_loop fuel i k src m) n \<longleftrightarrow>
     i \<le> n \<and> n < i + fuel \<and> n < 64 \<and> bit m n \<and>
     bit src (k + length (filter (bit m) [i..<n]))"
proof (induction fuel arbitrary: i k)
  case 0
  then show ?case by simp
next
  case (Suc fuel)
  show ?case
  proof (cases "i < n")
    case True
    then have "[i..<n] = i # [Suc i..<n]" by (simp add: upt_conv_Cons)
    with True show ?thesis by (auto simp: Suc.IH bit_or_iff bit_single simp del: push_bit_of_1)
  next
    case False
    then show ?thesis by (auto simp: Suc.IH bit_or_iff bit_single simp del: push_bit_of_1)
  qed
qed

lemma bit_pext_loop:
  "bit (pext_loop fuel i k src m) q \<longleftrightarrow>
     q < 64 \<and> (\<exists>n. i \<le> n \<and> n < i + fuel \<and> bit m n \<and> bit src n \<and>
                    q = k + length (filter (bit m) [i..<n]))"
proof (induction fuel arbitrary: i k)
  case 0
  then show ?case by simp
next
  case (Suc fuel)
  have step: "(\<exists>n. i \<le> n \<and> n < i + Suc fuel \<and> bit m n \<and> bit src n \<and>
                    q = k + length (filter (bit m) [i..<n])) \<longleftrightarrow>
    (bit m i \<and> bit src i \<and> q = k) \<or>
    (\<exists>n. Suc i \<le> n \<and> n < Suc i + fuel \<and> bit m n \<and> bit src n \<and>
          q = (if bit m i then Suc k else k) + length (filter (bit m) [Suc i..<n]))"
    (is "?L \<longleftrightarrow> ?R")
  proof
    assume ?L
    then obtain n where n: "i \<le> n" "n < i + Suc fuel" "bit m n" "bit src n"
      "q = k + length (filter (bit m) [i..<n])" by blast
    show ?R
    proof (cases "n = i")
      case False
      with n(1) have "[i..<n] = i # [Suc i..<n]" by (simp add: upt_conv_Cons)
      with n False show ?thesis by (intro disjI2 exI [of _ n]) auto
    qed (use n in auto)
  next
    assume ?R
    then consider "bit m i \<and> bit src i \<and> q = k" |
      n where "Suc i \<le> n" "n < Suc i + fuel" "bit m n" "bit src n"
        "q = (if bit m i then Suc k else k) + length (filter (bit m) [Suc i..<n])" by blast
    then show ?L
    proof cases
      case 1
      then show ?thesis by (intro exI [of _ i]) auto
    next
      case (2 n)
      then have "[i..<n] = i # [Suc i..<n]" by (simp add: upt_conv_Cons)
      with 2 show ?thesis by (intro exI [of _ n]) auto
    qed
  qed
  show ?case unfolding step
    by (auto simp: Suc.IH bit_or_iff bit_single simp del: push_bit_of_1)
qed

lemma filter_residue_length:
  "r < 3 \<Longrightarrow> n \<le> 63 \<Longrightarrow>
   length (filter (\<lambda>j. j < 63 \<and> j mod 3 = r) [0..<n]) = (n + 2 - r) div (3::nat)"
proof (induction n)
  case 0
  then show ?case by simp
next
  case (Suc n)
  have "r = 0 \<or> r = 1 \<or> r = 2" using \<open>r < 3\<close> by linarith
  then have "(if n mod 3 = r then 1 else 0) + (n + 2 - r) div 3 = (Suc n + 2 - r) div 3"
    by (elim disjE; simp; presburger)
  with Suc show ?case by auto
qed

lemma pdep_residue:
  assumes "r < 3" and m: "\<And>j. bit m j \<longleftrightarrow> j < 63 \<and> j mod 3 = r"
  shows "bit (pdep_u64 src m) n \<longleftrightarrow> n < 63 \<and> n mod 3 = r \<and> bit src (n div 3)"
proof -
  have "bit m = (\<lambda>j. j < 63 \<and> j mod 3 = r)" using m by auto
  moreover have "n mod 3 = r \<Longrightarrow> (n + 2 - r) div 3 = n div 3"
    using \<open>r < 3\<close> by presburger
  ultimately show ?thesis
    using filter_residue_length [OF \<open>r < 3\<close>, of n]
    by (auto simp: pdep_u64_def bit_pdep_loop)
qed

lemma pext_residue:
  assumes "r < 3" and m: "\<And>j. bit m j \<longleftrightarrow> j < 63 \<and> j mod 3 = r"
  shows "bit (pext_u64 src m) q \<longleftrightarrow> q < 21 \<and> bit src (3 * q + r)"
proof -
  have bm: "bit m = (\<lambda>j. j < 63 \<and> j mod 3 = r)" using m by auto
  have len: "length (filter (bit m) [0..<n]) = n div 3" if "n < 63" "n mod 3 = r" for n
  proof -
    from that \<open>r < 3\<close> have "(n + 2 - r) div 3 = n div 3" by presburger
    with filter_residue_length [OF \<open>r < 3\<close>, of n] that show ?thesis by (simp add: bm)
  qed
  have low: "(0 \<le> n \<and> n < 0 + 64 \<and> bit m n \<and> bit src n \<and> Q) \<longleftrightarrow>
      (n < 63 \<and> n mod 3 = r \<and> bit src n \<and> Q)" for n Q
    by (auto simp: m)
  have "bit (pext_u64 src m) q \<longleftrightarrow>
    q < 64 \<and> (\<exists>n<63. n mod 3 = r \<and> bit src n \<and> q = length (filter (bit m) [0..<n]))"
    unfolding pext_u64_def bit_pext_loop low by simp
  also have "\<dots> \<longleftrightarrow> q < 64 \<and> (\<exists>n<63. n mod 3 = r \<and> bit src n \<and> q = n div 3)"
    using len by metis
  also have "\<dots> \<longleftrightarrow> q < 21 \<and> bit src (3 * q + r)"
  proof
    assume "q < 64 \<and> (\<exists>n<63. n mod 3 = r \<and> bit src n \<and> q = n div 3)"
    then obtain n where n: "n < 63" "n mod 3 = r" "bit src n" "q = n div 3" by blast
    then have eq: "3 * q + r = n" using mult_div_mod_eq [of 3 n] by linarith
    show "q < 21 \<and> bit src (3 * q + r)" unfolding eq using n(1,3,4) by auto
  next
    assume a: "q < 21 \<and> bit src (3 * q + r)"
    with \<open>r < 3\<close> have "3 * q + r < 63" "(3 * q + r) mod 3 = r" "(3 * q + r) div 3 = q" by auto
    with a show "q < 64 \<and> (\<exists>n<63. n mod 3 = r \<and> bit src n \<and> q = n div 3)"
      by (intro conjI exI [of _ "3 * q + r"]) simp_all
  qed
  finally show ?thesis .
qed

lemma bit_shifted_part1by2:
  assumes "r < 3"
  shows "bit (push_bit r (part1by2 src)) n \<longleftrightarrow> n < 63 \<and> n mod 3 = r \<and> bit src (n div 3)"
proof (cases "n mod 3 = r")
  case True
  then have "r \<le> n" "(n - r) mod 3 = 0" "(n - r) div 3 = n div 3"
    using \<open>r < 3\<close> by presburger+
  moreover from True \<open>r < 3\<close> have "n div 3 < 21 \<longleftrightarrow> n < 63" by presburger
  ultimately show ?thesis
    using True unfolding bit_push_bit_iff bit_part1by2 by auto
next
  case False
  then have "\<not> (r \<le> n \<and> (n - r) mod 3 = 0)" using \<open>r < 3\<close> by presburger
  with False show ?thesis unfolding bit_push_bit_iff bit_part1by2 by auto
qed

lemma pdep_magic:
  "pdep_u64 src MASK_X = part1by2 src"
  "pdep_u64 src MASK_Y = push_bit 1 (part1by2 src)"
  "pdep_u64 src MASK_Z = push_bit 2 (part1by2 src)"
  by (rule bit_eqI; use bit_shifted_part1by2 [of 0 src] bit_shifted_part1by2 [of 1 src]
      bit_shifted_part1by2 [of 2 src] in \<open>simp add: pdep_residue [OF _ bit_MASK(1)]
      pdep_residue [OF _ bit_MASK(2)] pdep_residue [OF _ bit_MASK(3)]\<close>)+

lemma pext_magic:
  "pext_u64 src MASK_X = compact1by2 src"
  "pext_u64 src MASK_Y = compact1by2 (drop_bit 1 src)"
  "pext_u64 src MASK_Z = compact1by2 (drop_bit 2 src)"
  by (rule bit_eqI; simp add: pext_residue [OF _ bit_MASK(1)] pext_residue [OF _ bit_MASK(2)]
      pext_residue [OF _ bit_MASK(3)] bit_compact1by2 bit_drop_bit_eq add.commute)+

lemma encode_backends: "encode_bmi2 x y z = encode_magic x y z"
  by (simp add: encode_bmi2_def encode_magic_def pdep_magic)

lemma decode_backends: "decode_bmi2 code = decode_magic code"
  by (simp add: decode_bmi2_def decode_magic_def pext_magic)

lemma morton3_encode_magic [simp]: "morton3_encode b x y z = encode_magic x y z"
  by (simp add: morton3_encode_def encode_backends)

lemma morton3_decode_magic [simp]: "morton3_decode b code = decode_magic code"
  by (simp add: morton3_decode_def decode_backends)

text \<open>C25. The two backends compute the same codec on every input: the PDEP/PEXT capsule and the
  magic-bits cascade give the same code for all coordinates and the same coordinates for
  all codes, so the dispatch cannot change a tile identity.\<close>

theorem morton_backends_agree:
  "encode_bmi2 x y z = encode_magic x y z \<and> decode_bmi2 code = decode_magic code"
  by (simp add: encode_backends decode_backends)

section \<open>Round trips\<close>

lemma ucast_compact_part:
  "ucast (compact1by2 (drop_bit k code)) = (w :: u32)"
  if "\<And>i. i < 21 \<Longrightarrow> bit code (3 * i + k) \<longleftrightarrow> bit w i" and "\<And>i. 21 \<le> i \<Longrightarrow> \<not> bit w i"
proof (rule bit_eqI)
  fix n
  show "bit (ucast (compact1by2 (drop_bit k code)) :: u32) n = bit w n"
    using that [of n] by (cases "n < 21")
      (auto simp: bit_unsigned_iff bit_compact1by2 bit_drop_bit_eq add.commute)
qed

lemma bit_low21: "bit (x AND 0x1fffff :: u32) i \<longleftrightarrow> i < 21 \<and> bit x i"
proof -
  have "(0x1fffff :: u32) = mask 21" by (simp add: mask_numeral)
  then show ?thesis unfolding bit_and_iff by (simp only: bit_mask_iff) auto
qed

lemma decode_encode:
  "decode_magic (encode_magic x y z) = (x AND 0x1fffff, y AND 0x1fffff, z AND 0x1fffff)"
proof -
  let ?c = "encode_magic x y z"
  have "ucast (compact1by2 (drop_bit 0 ?c)) = (x AND 0x1fffff :: u32)"
    and "ucast (compact1by2 (drop_bit 1 ?c)) = (y AND 0x1fffff :: u32)"
    and "ucast (compact1by2 (drop_bit 2 ?c)) = (z AND 0x1fffff :: u32)"
    by (rule ucast_compact_part; auto simp: bit_encode_magic bit_low21 mod3_eval)+
  then show ?thesis by (simp add: decode_magic_def)
qed

lemma encode_decode:
  "decode_magic code = (x, y, z) \<Longrightarrow> encode_magic x y z = code AND mask 63"
proof (rule bit_eqI)
  fix n assume "decode_magic code = (x, y, z)"
  then have b: "bit x i \<longleftrightarrow> i < 21 \<and> bit code (3 * i)" "bit y i \<longleftrightarrow> i < 21 \<and> bit code (3 * i + 1)"
    "bit z i \<longleftrightarrow> i < 21 \<and> bit code (3 * i + 2)" for i
    by (auto simp: decode_magic_def bit_unsigned_iff bit_compact1by2 bit_drop_bit_eq)
  show "bit (encode_magic x y z) n = bit (code AND mask 63) n"
    by (cases n rule: mod3_cases) (auto simp: bit_encode_magic b bit_and_iff bit_mask_iff mod3_eval)
qed

text \<open>C26. The codec is a bijection between coordinate triples below \<open>MORTON_COORD_LIMIT\<close> and codes
  below \<open>2^63\<close>, and outside that domain it masks exactly as documented: decoding an encoding
  gives each coordinate's low 21 bits, and encoding a decoding gives the code's low 63 bits.\<close>

theorem morton_roundtrip:
  "decode_magic (encode_magic x y z) = (x AND 0x1fffff, y AND 0x1fffff, z AND 0x1fffff) \<and>
   (case decode_magic code of (a, b, c) \<Rightarrow> encode_magic a b c) = code AND mask 63"
  by (auto simp: decode_encode encode_decode split: prod.split)

lemma low21_small: "unat (x :: u32) < MORTON_COORD_LIMIT \<Longrightarrow> x AND 0x1fffff = x"
proof -
  assume "unat x < MORTON_COORD_LIMIT"
  then have "unat (take_bit 21 x) = unat x"
    by (simp add: unsigned_take_bit_eq take_bit_nat_eq_self MORTON_COORD_LIMIT_def MORTON_BITS_def)
  then have "take_bit 21 x = x" by (rule word_unat_eq_iff [THEN iffD2])
  then have "x AND mask 21 = x" by (simp only: take_bit_eq_mask)
  moreover have "mask 21 = (0x1fffff :: u32)" by (simp add: mask_numeral)
  ultimately show ?thesis by metis
qed

section \<open>The interface a tile layout needs from a space-filling curve\<close>

text \<open>
  The tile grid orders tiles by their codes and uses a code as the tile's identity. What it
  relies on is that distinct in-range coordinates have distinct codes.
\<close>

locale space_curve =
  fixes code :: "u32 \<Rightarrow> u32 \<Rightarrow> u32 \<Rightarrow> u64"
    and coord_limit :: nat
  assumes code_inj: "code x y z = code x' y' z' \<Longrightarrow>
    unat x < coord_limit \<Longrightarrow> unat y < coord_limit \<Longrightarrow> unat z < coord_limit \<Longrightarrow>
    unat x' < coord_limit \<Longrightarrow> unat y' < coord_limit \<Longrightarrow> unat z' < coord_limit \<Longrightarrow>
    x = x' \<and> y = y' \<and> z = z'"
begin

lemma code_eq_iff:
  "unat x < coord_limit \<Longrightarrow> unat y < coord_limit \<Longrightarrow> unat z < coord_limit \<Longrightarrow>
   unat x' < coord_limit \<Longrightarrow> unat y' < coord_limit \<Longrightarrow> unat z' < coord_limit \<Longrightarrow>
   code x y z = code x' y' z' \<longleftrightarrow> x = x' \<and> y = y' \<and> z = z'"
  using code_inj by blast

end

interpretation morton: space_curve "morton3_encode bmi2" MORTON_COORD_LIMIT for bmi2
proof
  fix x y z x' y' z'
  assume eq: "morton3_encode bmi2 x y z = morton3_encode bmi2 x' y' z'"
    and lo: "unat x < MORTON_COORD_LIMIT" "unat y < MORTON_COORD_LIMIT" "unat z < MORTON_COORD_LIMIT"
    and lo': "unat x' < MORTON_COORD_LIMIT" "unat y' < MORTON_COORD_LIMIT" "unat z' < MORTON_COORD_LIMIT"
  from eq have "decode_magic (encode_magic x y z) = decode_magic (encode_magic x' y' z')"
    by (simp only: morton3_encode_magic)
  then show "x = x' \<and> y = y' \<and> z = z'"
    unfolding decode_encode lo [THEN low21_small] lo' [THEN low21_small] by blast
qed

end
