(* ===== verification/Blake3.thy ===== *)
theory Blake3
  imports Prelude
begin

text \<open>
  The in-house BLAKE3 hasher (\<open>crates/fs-blake3/src/lib.rs\<close>): the compression function, the
  incremental chunk and tree state, plain and derive-key hashing, and the hexadecimal form of a
  content hash.

  Words are \<open>u32\<close> with wrap-around; the counters of the incremental state (bytes in the block,
  compressed blocks, chunk counter) are natural numbers, which reach the compression function
  through a cast to the word it takes. A panic of the source (an index below zero or past the
  fixed stack) is \<open>None\<close>.
\<close>

definition IV :: "u32 list" where
  "IV = [0x6A09E667, 0xBB67AE85, 0x3C6EF372, 0xA54FF53A, 0x510E527F, 0x9B05688C, 0x1F83D9AB, 0x5BE0CD19]"

definition MSG_PERMUTATION :: "nat list" where
  "MSG_PERMUTATION = [2, 6, 3, 10, 7, 0, 4, 13, 1, 11, 12, 5, 9, 14, 15, 8]"

definition BLOCK_LEN :: nat where "BLOCK_LEN = 64"
definition CHUNK_LEN :: nat where "CHUNK_LEN = 1024"
definition CHUNK_START :: u32 where "CHUNK_START = push_bit 0 1"
definition CHUNK_END :: u32 where "CHUNK_END = push_bit 1 1"
definition PARENT :: u32 where "PARENT = push_bit 2 1"
definition ROOT :: u32 where "ROOT = push_bit 3 1"
definition DERIVE_KEY_CONTEXT :: u32 where "DERIVE_KEY_CONTEXT = push_bit 5 1"
definition DERIVE_KEY_MATERIAL :: u32 where "DERIVE_KEY_MATERIAL = push_bit 6 1"
definition MAX_DEPTH :: nat where "MAX_DEPTH = 54"

section \<open>Compression\<close>

definition g :: "nat \<Rightarrow> nat \<Rightarrow> nat \<Rightarrow> nat \<Rightarrow> u32 \<Rightarrow> u32 \<Rightarrow> u32 list \<Rightarrow> u32 list" where
  "g a b c d mx my state =
    (let state = state[a := state ! a + state ! b + mx];
         state = state[d := word_rotr 16 (state ! d XOR state ! a)];
         state = state[c := state ! c + state ! d];
         state = state[b := word_rotr 12 (state ! b XOR state ! c)];
         state = state[a := state ! a + state ! b + my];
         state = state[d := word_rotr 8 (state ! d XOR state ! a)];
         state = state[c := state ! c + state ! d]
     in state[b := word_rotr 7 (state ! b XOR state ! c)])"

definition mix_round :: "u32 list \<Rightarrow> u32 list \<Rightarrow> u32 list" where
  "mix_round m state =
    (let state = g 0 4 8 12 (m ! 0) (m ! 1) state;
         state = g 1 5 9 13 (m ! 2) (m ! 3) state;
         state = g 2 6 10 14 (m ! 4) (m ! 5) state;
         state = g 3 7 11 15 (m ! 6) (m ! 7) state;
         state = g 0 5 10 15 (m ! 8) (m ! 9) state;
         state = g 1 6 11 12 (m ! 10) (m ! 11) state;
         state = g 2 7 8 13 (m ! 12) (m ! 13) state
     in g 3 4 9 14 (m ! 14) (m ! 15) state)"

definition permute :: "u32 list \<Rightarrow> u32 list" where
  "permute m = map (\<lambda>src. m ! src) MSG_PERMUTATION"

text \<open>The loop \<open>for i in 0..8\<close> at the end reads \<open>state[i + 8]\<close> before overwriting it.\<close>

definition feed_forward :: "u32 list \<Rightarrow> u32 list \<Rightarrow> u32 list" where
  "feed_forward chaining_value state =
     map (\<lambda>i. state ! i XOR state ! (i + 8)) [0..<8]
     @ map (\<lambda>i. state ! (i + 8) XOR chaining_value ! i) [0..<8]"

definition compress :: "u32 list \<Rightarrow> u32 list \<Rightarrow> u64 \<Rightarrow> u32 \<Rightarrow> u32 \<Rightarrow> u32 list" where
  "compress chaining_value block_words counter block_len flags =
    (let state = take 8 chaining_value @ take 4 IV
           @ [ucast counter, ucast (drop_bit 32 counter), block_len, flags];
         block = block_words;
         state = mix_round block state; block = permute block;
         state = mix_round block state; block = permute block;
         state = mix_round block state; block = permute block;
         state = mix_round block state; block = permute block;
         state = mix_round block state; block = permute block;
         state = mix_round block state; block = permute block;
         state = mix_round block state
     in feed_forward chaining_value state)"

definition u32_from_le_bytes :: "u8 list \<Rightarrow> u32" where
  "u32_from_le_bytes bytes = foldr (\<lambda>b w. ucast b OR push_bit 8 w) bytes 0"

definition u32_to_le_bytes :: "u32 \<Rightarrow> u8 list" where
  "u32_to_le_bytes w = map (\<lambda>i. ucast (drop_bit (8 * i) w)) [0..<4]"

fun quads :: "u8 list \<Rightarrow> u8 list list" where
  "quads (a # b # c # d # rest) = [a, b, c, d] # quads rest"
| "quads _ = []"

definition words_from_block :: "u8 list \<Rightarrow> u32 list" where
  "words_from_block block = map u32_from_le_bytes (quads block)"

definition first_8_words :: "u32 list \<Rightarrow> u32 list" where
  "first_8_words compression_output = take 8 compression_output"

section \<open>Pending compressions\<close>

record output_node =
  input_chaining_value :: "u32 list"
  out_block_words :: "u32 list"
  out_counter :: nat
  out_block_len :: nat
  out_flags :: u32

definition chaining_value_of :: "output_node \<Rightarrow> u32 list" where
  "chaining_value_of self = first_8_words (compress (input_chaining_value self) (out_block_words self)
     (of_nat (out_counter self)) (of_nat (out_block_len self)) (out_flags self))"

definition root_hash :: "output_node \<Rightarrow> u8 list" where
  "root_hash self =
    (let words = compress (input_chaining_value self) (out_block_words self) 0
           (of_nat (out_block_len self)) (out_flags self OR ROOT)
     in concat (map u32_to_le_bytes (take 8 words)))"

definition parent_output :: "u32 list \<Rightarrow> u32 \<Rightarrow> u32 list \<Rightarrow> u32 list \<Rightarrow> output_node" where
  "parent_output key_words flags left_child_cv right_child_cv =
    \<lparr>input_chaining_value = key_words, out_block_words = left_child_cv @ right_child_cv,
     out_counter = 0, out_block_len = BLOCK_LEN, out_flags = flags OR PARENT\<rparr>"

section \<open>One chunk\<close>

record chunk_state =
  cs_chaining_value :: "u32 list"
  cs_chunk_counter :: nat
  cs_block :: "u8 list"
  cs_block_len :: nat
  cs_blocks_compressed :: nat
  cs_flags :: u32

definition chunk_new :: "u32 list \<Rightarrow> nat \<Rightarrow> u32 \<Rightarrow> chunk_state" where
  "chunk_new key_words chunk_counter flags =
    \<lparr>cs_chaining_value = key_words, cs_chunk_counter = chunk_counter,
     cs_block = replicate BLOCK_LEN 0, cs_block_len = 0, cs_blocks_compressed = 0, cs_flags = flags\<rparr>"

definition chunk_len :: "chunk_state \<Rightarrow> nat" where
  "chunk_len self = BLOCK_LEN * cs_blocks_compressed self + cs_block_len self"

definition start_flag :: "chunk_state \<Rightarrow> u32" where
  "start_flag self = (if cs_blocks_compressed self = 0 then cs_flags self OR CHUNK_START else cs_flags self)"

definition close_block :: "chunk_state \<Rightarrow> chunk_state" where
  "close_block self = self\<lparr>
     cs_chaining_value := first_8_words (compress (cs_chaining_value self)
        (words_from_block (cs_block self)) (of_nat (cs_chunk_counter self)) (of_nat BLOCK_LEN)
        (start_flag self)),
     cs_blocks_compressed := cs_blocks_compressed self + 1,
     cs_block := replicate BLOCK_LEN 0, cs_block_len := 0\<rparr>"

definition write_block :: "nat \<Rightarrow> u8 list \<Rightarrow> u8 list \<Rightarrow> u8 list" where
  "write_block at bytes block = take at block @ bytes @ drop (at + length bytes) block"

function chunk_update :: "chunk_state \<Rightarrow> u8 list \<Rightarrow> chunk_state option" where
  "chunk_update self input =
    (if input = [] then Some self
     else
       let self = (if cs_block_len self = BLOCK_LEN then close_block self else self)
       in case checked_sub BLOCK_LEN (cs_block_len self) of
            None \<Rightarrow> None
          | Some want \<Rightarrow>
              let n = min want (length input)
              in chunk_update (self\<lparr>
                   cs_block := write_block (cs_block_len self) (take n input) (cs_block self),
                   cs_block_len := cs_block_len self + n\<rparr>) (drop n input))"
  by pat_completeness auto
termination
  by (relation "measure (\<lambda>(s, xs). length xs)")
    (auto simp: close_block_def BLOCK_LEN_def split: if_splits)

declare chunk_update.simps [simp del]

definition chunk_output :: "chunk_state \<Rightarrow> output_node" where
  "chunk_output self =
    \<lparr>input_chaining_value = cs_chaining_value self, out_block_words = words_from_block (cs_block self),
     out_counter = cs_chunk_counter self, out_block_len = cs_block_len self,
     out_flags = start_flag self OR CHUNK_END\<rparr>"

section \<open>The streaming hasher\<close>

text \<open>\<open>cv_stack\<close> holds the first \<open>cv_stack_len\<close> entries of the fixed array.\<close>

record blake3 =
  key_words :: "u32 list"
  flags :: u32
  chunk_state :: chunk_state
  cv_stack :: "u32 list list"

definition new_internal :: "u32 list \<Rightarrow> u32 \<Rightarrow> blake3" where
  "new_internal kw fl = \<lparr>key_words = kw, flags = fl, chunk_state = chunk_new kw 0 fl, cv_stack = []\<rparr>"

definition blake3_new :: blake3 where
  "blake3_new = new_internal IV 0"

definition push_stack :: "u32 list \<Rightarrow> u32 list list \<Rightarrow> u32 list list option" where
  "push_stack cv stack = (if length stack < MAX_DEPTH then Some (stack @ [cv]) else None)"

definition pop_stack :: "u32 list list \<Rightarrow> (u32 list \<times> u32 list list) option" where
  "pop_stack stack = (if stack = [] then None else Some (last stack, butlast stack))"

function add_chunk_chaining_value ::
  "u32 list \<Rightarrow> u32 \<Rightarrow> u32 list \<Rightarrow> nat \<Rightarrow> u32 list list \<Rightarrow> u32 list list option" where
  "add_chunk_chaining_value kw fl new_cv total_chunks stack =
    (if even total_chunks
     then (case pop_stack stack of
             None \<Rightarrow> None
           | Some (left_cv, stack) \<Rightarrow>
               add_chunk_chaining_value kw fl (chaining_value_of (parent_output kw fl left_cv new_cv))
                 (total_chunks div 2) stack)
     else push_stack new_cv stack)"
  by pat_completeness auto
termination
  by (relation "measure (\<lambda>(kw, fl, cv, n, stack). length stack)")
    (auto simp: pop_stack_def split: if_splits)

declare add_chunk_chaining_value.simps [simp del]

definition close_chunk :: "blake3 \<Rightarrow> blake3 option" where
  "close_chunk self =
    (let chunk_cv = chaining_value_of (chunk_output (chunk_state self));
         total_chunks = cs_chunk_counter (chunk_state self) + 1
     in case add_chunk_chaining_value (key_words self) (flags self) chunk_cv total_chunks (cv_stack self) of
          None \<Rightarrow> None
        | Some stack \<Rightarrow> Some (self\<lparr>cv_stack := stack,
            chunk_state := chunk_new (key_words self) total_chunks (flags self)\<rparr>))"

function blake3_update :: "blake3 \<Rightarrow> u8 list \<Rightarrow> blake3 option" where
  "blake3_update self input =
    (if input = [] then Some self
     else case (if chunk_len (chunk_state self) = CHUNK_LEN then close_chunk self else Some self) of
            None \<Rightarrow> None
          | Some self \<Rightarrow>
            (case checked_sub CHUNK_LEN (chunk_len (chunk_state self)) of
               None \<Rightarrow> None
             | Some want \<Rightarrow>
                 let n = min want (length input)
                 in (case chunk_update (chunk_state self) (take n input) of
                       None \<Rightarrow> None
                     | Some chunk \<Rightarrow> blake3_update (self\<lparr>chunk_state := chunk\<rparr>) (drop n input))))"
  by pat_completeness auto
termination
  by (relation "measure (\<lambda>(s, xs). length xs)")
    (auto simp: close_chunk_def chunk_new_def chunk_len_def CHUNK_LEN_def Let_def
      split: if_splits option.splits)

declare blake3_update.simps [simp del]

definition finalize :: "blake3 \<Rightarrow> u8 list" where
  "finalize self = root_hash
     (foldr (\<lambda>cv out. parent_output (key_words self) (flags self) cv (chaining_value_of out))
        (cv_stack self) (chunk_output (chunk_state self)))"

definition hash_bytes_blake3 :: "u8 list \<Rightarrow> u8 list option" where
  "hash_bytes_blake3 bytes = map_option finalize (blake3_update blake3_new bytes)"

section \<open>Domain-separated hashing\<close>

definition derive_key_hasher :: "u8 list \<Rightarrow> blake3 option" where
  "derive_key_hasher domain =
    (case blake3_update (new_internal IV DERIVE_KEY_CONTEXT) domain of
       None \<Rightarrow> None
     | Some context_hasher \<Rightarrow>
         Some (new_internal (map u32_from_le_bytes (quads (finalize context_hasher))) DERIVE_KEY_MATERIAL))"

record domain_hasher =
  inner :: blake3

definition domain_hasher_new :: "u8 list \<Rightarrow> domain_hasher option" where
  "domain_hasher_new domain = map_option (\<lambda>hasher. \<lparr>inner = hasher\<rparr>) (derive_key_hasher domain)"

definition domain_hasher_update :: "domain_hasher \<Rightarrow> u8 list \<Rightarrow> domain_hasher option" where
  "domain_hasher_update self chunk =
     map_option (\<lambda>hasher. self\<lparr>inner := hasher\<rparr>) (blake3_update (inner self) chunk)"

definition domain_hasher_finalize :: "domain_hasher \<Rightarrow> u8 list" where
  "domain_hasher_finalize self = finalize (inner self)"

definition hash_domain :: "u8 list \<Rightarrow> u8 list \<Rightarrow> u8 list option" where
  "hash_domain domain payload =
    (case domain_hasher_new domain of
       None \<Rightarrow> None
     | Some material_hasher \<Rightarrow>
         map_option domain_hasher_finalize (domain_hasher_update material_hasher payload))"

section \<open>Hexadecimal form\<close>

text \<open>Text is its UTF-8 bytes. \<open>{b:02x}\<close> writes the two digits of a byte, most significant first.\<close>

definition DIGITS :: "u8 list" where
  "DIGITS = map of_char ''0123456789abcdef''"

definition to_hex :: "u8 list \<Rightarrow> u8 list" where
  "to_hex hash = concat (map (\<lambda>b. [DIGITS ! (unat b div 16), DIGITS ! (unat b mod 16)]) hash)"

text \<open>\<open>char::to_digit\<close> in base 16.\<close>

definition to_digit16 :: "u8 \<Rightarrow> nat option" where
  "to_digit16 c =
    (if 48 \<le> c \<and> c \<le> 57 then Some (unat c - 48)
     else if 97 \<le> c \<and> c \<le> 102 then Some (unat c - 87)
     else if 65 \<le> c \<and> c \<le> 70 then Some (unat c - 55)
     else None)"

fun hex_pairs :: "u8 list \<Rightarrow> u8 list option" where
  "hex_pairs (p0 # p1 # rest) =
    (case to_digit16 p0 of
       None \<Rightarrow> None
     | Some hi \<Rightarrow> (case to_digit16 p1 of
         None \<Rightarrow> None
       | Some lo \<Rightarrow> map_option (\<lambda>out. of_nat (hi * 16 + lo) # out) (hex_pairs rest)))"
| "hex_pairs _ = Some []"

definition from_hex :: "u8 list \<Rightarrow> u8 list option" where
  "from_hex s = (if length s \<noteq> 64 then None else hex_pairs s)"

definition from_slice :: "u8 list \<Rightarrow> u8 list option" where
  "from_slice bytes = (if length bytes = 32 then Some bytes else None)"

text \<open>The loop of \<open>write_lower_hex\<close> over the indexed bytes, filling a 64-byte buffer.\<close>

definition write_lower_hex :: "u8 list \<Rightarrow> u8 list" where
  "write_lower_hex hash =
    fold (\<lambda>(i, byte) encoded. encoded
        [i * 2 := DIGITS ! unat (drop_bit 4 byte), i * 2 + 1 := DIGITS ! unat (byte AND 0x0f)])
      (enumerate 0 hash) (replicate 64 0)"

end
