(* ===== verification/Streaming_Hash.thy ===== *)
theory Streaming_Hash
  imports Prelude
begin

text \<open>
  The contract between an incremental hasher and its callers: absorbing more input from the
  state reached by some input is the state reached by the longer input, up to a length limit.
  Callers that feed a hasher in pieces rest on the lemmas of the locale, never on how the
  hasher buffers.
\<close>

text \<open>A sequence of \<open>update\<close> calls; \<open>None\<close> when one of them panics.\<close>

primrec feed :: "('s \<Rightarrow> 'b list \<Rightarrow> 's option) \<Rightarrow> 's \<Rightarrow> 'b list list \<Rightarrow> 's option" where
  "feed upd s [] = Some s"
| "feed upd s (piece # pieces) = Option.bind (upd s piece) (\<lambda>s. feed upd s pieces)"

lemma feed_append: "feed upd s (ps @ qs) = Option.bind (feed upd s ps) (\<lambda>s. feed upd s qs)"
  by (induction ps arbitrary: s) (simp_all split: bind_splits)

locale streaming_hash =
  fixes upd :: "'s \<Rightarrow> 'b list \<Rightarrow> 's option"
    and fin :: "'s \<Rightarrow> 'd"
    and state_of :: "'b list \<Rightarrow> 's"
    and limit :: nat
  assumes upd_state: "length (xs @ ys) \<le> limit \<Longrightarrow> upd (state_of xs) ys = Some (state_of (xs @ ys))"
begin

lemma feed_state:
  "length (xs @ concat pieces) \<le> limit \<Longrightarrow>
   feed upd (state_of xs) pieces = Some (state_of (xs @ concat pieces))"
proof (induction pieces arbitrary: xs)
  case (Cons piece pieces)
  then show ?case using upd_state [of xs piece] Cons.IH [of "xs @ piece"] by simp
qed simp

lemma feed_split_independent:
  assumes "length (xs @ concat ps) \<le> limit" "concat ps = concat qs"
  shows "feed upd (state_of xs) ps = feed upd (state_of xs) qs"
  using assms feed_state [of xs ps] feed_state [of xs qs] by simp

lemma feed_one_shot:
  assumes "length (concat ps) \<le> limit"
  shows "map_option fin (feed upd (state_of []) ps) = map_option fin (upd (state_of []) (concat ps))"
  using assms feed_state [of "[]" ps] upd_state [of "[]" "concat ps"] by simp

end

end
