(* ===== verification/Blake3_Tree.thy ===== *)
theory Blake3_Tree
  imports Blake3 Streaming_Hash
begin

text \<open>
  The BLAKE3 specification as a recursive function on the whole input, and the proof that the
  streaming hasher computes it for every way of splitting the input into updates.
\<close>

section \<open>The specification\<close>

definition zero_pad :: "u8 list \<Rightarrow> u8 list" where
  "zero_pad bytes = bytes @ replicate (BLOCK_LEN - length bytes) 0"

text \<open>The pending output of one chunk: blocks chained left to right, the last one left open.\<close>

function chunk_spec :: "nat \<Rightarrow> u32 \<Rightarrow> bool \<Rightarrow> u32 list \<Rightarrow> u8 list \<Rightarrow> output_node" where
  "chunk_spec counter fl first cv bytes =
    (let start = (if first then fl OR CHUNK_START else fl)
     in if length bytes \<le> BLOCK_LEN
        then \<lparr>input_chaining_value = cv, out_block_words = words_from_block (zero_pad bytes),
              out_counter = counter, out_block_len = length bytes, out_flags = start OR CHUNK_END\<rparr>
        else chunk_spec counter fl False
          (first_8_words (compress cv (words_from_block (take BLOCK_LEN bytes)) (of_nat counter)
             (of_nat BLOCK_LEN) start))
          (drop BLOCK_LEN bytes))"
  by pat_completeness auto
termination
  by (relation "measure (\<lambda>(c, f, b, cv, xs). length xs)") (auto simp: BLOCK_LEN_def)

declare chunk_spec.simps [simp del]

text \<open>The largest power of two not above a positive number.\<close>

fun floor_pow2 :: "nat \<Rightarrow> nat" where
  "floor_pow2 n = (if n < 2 then 1 else 2 * floor_pow2 (n div 2))"

declare floor_pow2.simps [simp del]

lemma floor_pow2_bounds: "0 < n \<Longrightarrow> floor_pow2 n \<le> n \<and> n < 2 * floor_pow2 n"
proof (induction n rule: floor_pow2.induct)
  case (1 n)
  show ?case
  proof (cases "n < 2")
    case True
    then show ?thesis using 1 by (simp add: floor_pow2.simps [of n])
  next
    case False
    then have "floor_pow2 (n div 2) \<le> n div 2 \<and> n div 2 < 2 * floor_pow2 (n div 2)" using 1 by simp
    then show ?thesis using False by (subst (1 2) floor_pow2.simps) auto
  qed
qed

lemma floor_pow2_eq: "r < 2 ^ k \<Longrightarrow> floor_pow2 (2 ^ k + r) = 2 ^ k"
proof (induction k arbitrary: r)
  case 0
  then show ?case by (simp add: floor_pow2.simps)
next
  case (Suc k)
  have "(2 ^ Suc k + r) div 2 = 2 ^ k + r div 2" by simp
  moreover have "r div 2 < 2 ^ k" using Suc.prems by (simp add: less_mult_imp_div_less)
  moreover have "\<not> 2 ^ Suc k + r < 2"
  proof -
    have "1 \<le> (2::nat) ^ k" by simp
    then show ?thesis unfolding power_Suc by linarith
  qed
  ultimately show ?case using Suc.IH [of "r div 2"] by (subst floor_pow2.simps) simp
qed

lemma floor_pow2_power: "\<exists>k. floor_pow2 n = 2 ^ k"
proof (induction n rule: floor_pow2.induct)
  case (1 n)
  then show ?case by (cases "n < 2") (auto simp: floor_pow2.simps [of n] intro: exI [of _ 0] exI [of _ "Suc _"])
qed

text \<open>The tree over the input: the left subtree takes the largest power of two of chunks that leaves
  the right one nonempty.\<close>

definition left_chunks :: "u8 list \<Rightarrow> nat" where
  "left_chunks bytes = floor_pow2 ((length bytes - 1) div CHUNK_LEN)"

lemma left_chunks_bounds:
  assumes "CHUNK_LEN < length bytes"
  shows "0 < left_chunks bytes" "left_chunks bytes * CHUNK_LEN < length bytes"
proof -
  let ?m = "(length bytes - 1) div CHUNK_LEN"
  have m: "0 < ?m" using assms by (simp add: CHUNK_LEN_def div_greater_zero_iff)
  note b = floor_pow2_bounds [OF m]
  then show "0 < left_chunks bytes" by (cases "floor_pow2 ?m") (auto simp: left_chunks_def)
  have "left_chunks bytes * CHUNK_LEN \<le> ?m * CHUNK_LEN" using b by (simp add: left_chunks_def)
  also have "\<dots> \<le> length bytes - 1" by simp
  finally show "left_chunks bytes * CHUNK_LEN < length bytes" using assms by simp
qed

function tree_spec :: "u32 list \<Rightarrow> u32 \<Rightarrow> nat \<Rightarrow> u8 list \<Rightarrow> output_node" where
  "tree_spec kw fl counter bytes =
    (if length bytes \<le> CHUNK_LEN then chunk_spec counter fl True kw bytes
     else let n = left_chunks bytes
          in parent_output kw fl
               (chaining_value_of (tree_spec kw fl counter (take (n * CHUNK_LEN) bytes)))
               (chaining_value_of (tree_spec kw fl (counter + n) (drop (n * CHUNK_LEN) bytes))))"
  by pat_completeness auto

termination
proof (relation "measure (\<lambda>(kw, fl, c, xs). length xs)", goal_cases)
  case (2 kw fl c bytes n)
  then show ?case using left_chunks_bounds [of bytes] by simp
next
  case (3 kw fl c bytes n)
  then show ?case using left_chunks_bounds [of bytes] by (simp add: CHUNK_LEN_def)
qed simp

declare tree_spec.simps [simp del]

section \<open>A chunk, byte by byte\<close>

definition absorb_byte :: "u8 \<Rightarrow> chunk_state \<Rightarrow> chunk_state" where
  "absorb_byte b self =
    (let self = (if cs_block_len self = BLOCK_LEN then close_block self else self)
     in self\<lparr>cs_block := write_block (cs_block_len self) [b] (cs_block self),
             cs_block_len := cs_block_len self + 1\<rparr>)"

lemma absorb_run:
  assumes "cs_block_len s + length xs \<le> BLOCK_LEN" "cs_block_len s + length xs \<le> length (cs_block s)"
  shows "fold absorb_byte xs s = s\<lparr>cs_block := write_block (cs_block_len s) xs (cs_block s),
     cs_block_len := cs_block_len s + length xs\<rparr>"
  using assms
proof (induction xs arbitrary: s)
  case Nil
  then show ?case by (simp add: write_block_def)
next
  case (Cons x xs)
  let ?s = "absorb_byte x s"
  have ab: "?s = s\<lparr>cs_block := write_block (cs_block_len s) [x] (cs_block s),
      cs_block_len := cs_block_len s + 1\<rparr>"
    using Cons.prems by (simp add: absorb_byte_def Let_def)
  have "fold absorb_byte xs ?s = ?s\<lparr>cs_block := write_block (cs_block_len ?s) xs (cs_block ?s),
     cs_block_len := cs_block_len ?s + length xs\<rparr>"
    by (rule Cons.IH) (use Cons.prems in \<open>simp_all add: ab write_block_def\<close>)
  then show ?case using Cons.prems by (simp add: ab write_block_def min_def add.commute)
qed

definition block_ok :: "chunk_state \<Rightarrow> bool" where
  "block_ok s \<longleftrightarrow> cs_block_len s \<le> BLOCK_LEN \<and> length (cs_block s) = BLOCK_LEN"

lemma block_ok_new [simp]: "block_ok (chunk_new kw c fl)"
  by (simp add: block_ok_def chunk_new_def)

lemma block_ok_close [simp]: "block_ok (close_block s)"
  by (simp add: block_ok_def close_block_def)

lemma block_ok_absorb: "block_ok s \<Longrightarrow> block_ok (absorb_byte b s)"
  by (auto simp: block_ok_def absorb_byte_def Let_def write_block_def close_block_def BLOCK_LEN_def)

lemma block_ok_fold: "block_ok s \<Longrightarrow> block_ok (fold absorb_byte xs s)"
  by (induction xs arbitrary: s) (simp_all add: block_ok_absorb)

lemma chunk_update_bytes: "block_ok s \<Longrightarrow> chunk_update s xs = Some (fold absorb_byte xs s)"
proof (induction s xs rule: chunk_update.induct)
  case (1 s xs)
  show ?case
  proof (cases "xs = []")
    case True
    then show ?thesis by (simp add: chunk_update.simps)
  next
    case False
    define s' where "s' = (if cs_block_len s = BLOCK_LEN then close_block s else s)"
    define n where "n = min (BLOCK_LEN - cs_block_len s') (length xs)"
    have ok: "block_ok s'" using 1(2) by (simp add: s'_def)
    have lt: "cs_block_len s' < BLOCK_LEN"
      using 1(2) by (auto simp: s'_def block_ok_def close_block_def BLOCK_LEN_def)
    define t where "t = s'\<lparr>cs_block := write_block (cs_block_len s') (take n xs) (cs_block s'),
        cs_block_len := cs_block_len s' + n\<rparr>"
    have len: "length (take n xs) = n" by (simp add: n_def)
    have t: "t = fold absorb_byte (take n xs) s'"
      using absorb_run [of s' "take n xs"] ok lt unfolding len
      by (simp add: t_def block_ok_def n_def)
    have "absorb_byte b s' = absorb_byte b s" for b
      using lt by (auto simp: s'_def absorb_byte_def Let_def)
    then have s: "fold absorb_byte zs s' = fold absorb_byte zs s" if "zs \<noteq> []" for zs
      using that by (cases zs) simp_all
    have n0: "0 < n" using lt False by (simp add: n_def)
    then have ne: "take n xs \<noteq> []" using False by simp
    have ih: "chunk_update t (drop n xs) = Some (fold absorb_byte (drop n xs) t)"
      unfolding t_def n_def
      by (rule 1(1) [OF False s'_def, unfolded checked_sub_Some, OF _ refl])
        (use lt block_ok_fold [OF ok, of "take n xs"] t in \<open>simp_all add: t_def n_def\<close>)
    have "chunk_update s xs = chunk_update t (drop n xs)"
      using False lt by (simp add: chunk_update.simps [of s xs] s'_def [symmetric] Let_def checked_sub_def
          t_def n_def)
    also have "\<dots> = Some (fold absorb_byte (drop n xs) (fold absorb_byte (take n xs) s))"
      using ih t s [OF ne] by simp
    also have "\<dots> = Some (fold absorb_byte xs s)"
      by (metis append_take_drop_id fold_append comp_apply)
    finally show ?thesis .
  qed
qed

lemma chunk_len_absorb: "block_ok s \<Longrightarrow> chunk_len (absorb_byte b s) = chunk_len s + 1"
  by (auto simp: block_ok_def absorb_byte_def Let_def chunk_len_def close_block_def)

lemma chunk_len_fold: "block_ok s \<Longrightarrow> chunk_len (fold absorb_byte xs s) = chunk_len s + length xs"
  by (induction xs arbitrary: s) (simp_all add: block_ok_absorb chunk_len_absorb)

lemma absorb_counter [simp]:
  "cs_chunk_counter (absorb_byte b s) = cs_chunk_counter s" "cs_flags (absorb_byte b s) = cs_flags s"
  by (simp_all add: absorb_byte_def close_block_def Let_def)

lemma fold_absorb_counter [simp]:
  "cs_chunk_counter (fold absorb_byte xs s) = cs_chunk_counter s"
  by (induction xs arbitrary: s) simp_all

text \<open>A state whose open block holds \<open>R\<close>, followed by \<open>xs\<close>, is the specified chunk over \<open>R @ xs\<close>.\<close>

lemma chunk_fold_spec:
  assumes "cs_block s = zero_pad R" "cs_block_len s = length R" "length R \<le> BLOCK_LEN"
    and "cs_blocks_compressed s = 0 \<or> R \<noteq> []"
  shows "chunk_output (fold absorb_byte xs s) =
     chunk_spec (cs_chunk_counter s) (cs_flags s) (cs_blocks_compressed s = 0) (cs_chaining_value s) (R @ xs)"
  using assms
proof (induction xs arbitrary: s R)
  case Nil
  then show ?case by (simp add: chunk_spec.simps chunk_output_def start_flag_def Let_def)
next
  case (Cons x xs)
  show ?case
  proof (cases "length R = BLOCK_LEN")
    case True
    let ?s = "absorb_byte x s"
    have zp: "zero_pad R = R" using True by (simp add: zero_pad_def)
    have s: "cs_block ?s = zero_pad [x]" "cs_block_len ?s = length [x]" "cs_blocks_compressed ?s \<noteq> 0"
      "cs_chaining_value ?s = first_8_words (compress (cs_chaining_value s) (words_from_block R)
         (of_nat (cs_chunk_counter s)) (of_nat BLOCK_LEN) (start_flag s))"
      using True Cons.prems zp
      by (simp_all add: absorb_byte_def Let_def close_block_def write_block_def zero_pad_def BLOCK_LEN_def)
    have "chunk_output (fold absorb_byte xs ?s) = chunk_spec (cs_chunk_counter s) (cs_flags s) False
        (cs_chaining_value ?s) ([x] @ xs)"
      using Cons.IH [OF s(1,2)] s(3) by (simp add: BLOCK_LEN_def)
    also have "\<dots> = chunk_spec (cs_chunk_counter s) (cs_flags s) (cs_blocks_compressed s = 0)
        (cs_chaining_value s) (R @ x # xs)"
      using True by (simp add: chunk_spec.simps [of _ _ _ _ "R @ x # xs"] s(4) start_flag_def Let_def)
    finally show ?thesis by simp
  next
    case False
    let ?s = "absorb_byte x s"
    have "cs_block_len s \<noteq> BLOCK_LEN" using False Cons.prems by simp
    moreover have "replicate (BLOCK_LEN - length R) (0::u8) = 0 # replicate (BLOCK_LEN - Suc (length R)) 0"
      using False Cons.prems by (metis Suc_diff_Suc le_neq_implies_less replicate_Suc)
    ultimately have s: "cs_block ?s = zero_pad (R @ [x])" "cs_block_len ?s = length (R @ [x])"
      "cs_blocks_compressed ?s = cs_blocks_compressed s" "cs_chaining_value ?s = cs_chaining_value s"
      using Cons.prems by (simp_all add: absorb_byte_def Let_def write_block_def zero_pad_def)
    show ?thesis using Cons.IH [OF s(1,2)] s False Cons.prems by simp
  qed
qed

lemma chunk_bytes_spec:
  "chunk_output (fold absorb_byte xs (chunk_new kw c fl)) = chunk_spec c fl True kw xs"
  using chunk_fold_spec [of "chunk_new kw c fl" "[]" xs]
  by (simp add: chunk_new_def zero_pad_def)

section \<open>Completed subtrees\<close>

text \<open>The chunk at an index, and the chaining value of the complete subtree number \<open>j\<close> among those of
  \<open>2 ^ i\<close> chunks.\<close>

definition chunk_at :: "nat \<Rightarrow> u8 list \<Rightarrow> u8 list" where
  "chunk_at j bytes = take CHUNK_LEN (drop (j * CHUNK_LEN) bytes)"

fun subtree_cv :: "u32 list \<Rightarrow> u32 \<Rightarrow> u8 list \<Rightarrow> nat \<Rightarrow> nat \<Rightarrow> u32 list" where
  "subtree_cv kw fl bytes 0 j = chaining_value_of (chunk_spec j fl True kw (chunk_at j bytes))"
| "subtree_cv kw fl bytes (Suc i) j = chaining_value_of
     (parent_output kw fl (subtree_cv kw fl bytes i (2 * j)) (subtree_cv kw fl bytes i (2 * j + 1)))"

lemma subtree_cv_append:
  "(j + 1) * 2 ^ i * CHUNK_LEN \<le> length bytes \<Longrightarrow>
   subtree_cv kw fl (bytes @ suffix) i j = subtree_cv kw fl bytes i j"
proof (induction i arbitrary: j)
  case 0
  then show ?case by (simp add: chunk_at_def)
next
  case (Suc i)
  have "(2 * j + 1 + 1) * 2 ^ i * CHUNK_LEN \<le> length bytes" using Suc.prems by (simp add: algebra_simps)
  moreover from this have "(2 * j + 1) * 2 ^ i * CHUNK_LEN \<le> length bytes" by (simp add: algebra_simps)
  ultimately show ?case using Suc.IH by simp
qed

text \<open>The stack after \<open>n\<close> complete chunks starting at chunk \<open>start\<close>: one subtree per binary digit.\<close>

function peaks :: "u32 list \<Rightarrow> u32 \<Rightarrow> u8 list \<Rightarrow> nat \<Rightarrow> nat \<Rightarrow> nat \<Rightarrow> u32 list list" where
  "peaks kw fl bytes i start n =
    (if n = 0 then []
     else peaks kw fl bytes (Suc i) (start div 2) (n div 2)
       @ (if odd n then [subtree_cv kw fl bytes i (start + n - 1)] else []))"
  by pat_completeness auto
termination by (relation "measure (\<lambda>(kw, fl, b, i, s, n). n)") auto

declare peaks.simps [simp del]

lemma peaks_0 [simp]: "peaks kw fl bytes i start 0 = []"
  by (simp add: peaks.simps)

lemma peaks_append:
  "n * 2 ^ i * CHUNK_LEN \<le> length bytes \<Longrightarrow>
   peaks kw fl (bytes @ suffix) i 0 n = peaks kw fl bytes i 0 n"
proof (induction n arbitrary: i rule: less_induct)
  case (less n)
  show ?case
  proof (cases "n = 0")
    case False
    have "n div 2 * 2 ^ Suc i * CHUNK_LEN = (n div 2 * 2) * 2 ^ i * CHUNK_LEN" by simp
    also have "\<dots> \<le> n * 2 ^ i * CHUNK_LEN" by (intro mult_right_mono) auto
    also note less.prems
    finally have "peaks kw fl (bytes @ suffix) (Suc i) 0 (n div 2) = peaks kw fl bytes (Suc i) 0 (n div 2)"
      using less.IH [of "n div 2" "Suc i"] False by simp
    moreover have "subtree_cv kw fl (bytes @ suffix) i (n - 1) = subtree_cv kw fl bytes i (n - 1)"
      by (rule subtree_cv_append) (use less.prems False in simp)
    ultimately show ?thesis using False by (simp add: peaks.simps [of _ _ _ i 0 n])
  qed simp
qed

text \<open>The number of peaks is at most the number of binary digits.\<close>

lemma length_peaks: "n < 2 ^ d \<Longrightarrow> length (peaks kw fl bytes i start n) \<le> d"
proof (induction d arbitrary: n i start)
  case (Suc d)
  have "n div 2 < 2 ^ d" using Suc.prems by (simp add: less_mult_imp_div_less)
  then show ?case using Suc.IH [of "n div 2" "Suc i" "start div 2"]
    by (subst peaks.simps) (auto simp: le_Suc_eq)
qed simp

text \<open>Merging the chaining value of the next subtree is a binary increment of the stack.\<close>

lemma add_chunk_peaks:
  assumes "n + 1 < 2 ^ MAX_DEPTH"
  shows "add_chunk_chaining_value kw fl (subtree_cv kw fl bytes i n) (n + 1) (peaks kw fl bytes i 0 n)
     = Some (peaks kw fl bytes i 0 (n + 1))"
  using assms
proof (induction n arbitrary: i rule: less_induct)
  case (less n)
  show ?case
  proof (cases "even n")
    case True
    have p: "peaks kw fl bytes i 0 (n + 1) = peaks kw fl bytes i 0 n @ [subtree_cv kw fl bytes i n]"
      using True by (cases "n = 0")
        (simp_all add: peaks.simps [of _ _ _ i 0 "Suc n"] peaks.simps [of _ _ _ i 0 n]
          peaks.simps [of _ _ _ i 0 "Suc 0"])
    have "length (peaks kw fl bytes i 0 (n + 1)) \<le> MAX_DEPTH" by (rule length_peaks [OF less.prems])
    then show ?thesis using True
      by (simp add: add_chunk_chaining_value.simps [of _ _ _ "Suc n"] push_stack_def p [simplified])
  next
    case False
    have n0: "n \<noteq> 0" using odd_pos [OF False] by simp
    then have p: "peaks kw fl bytes i 0 n = peaks kw fl bytes (Suc i) 0 (n div 2) @ [subtree_cv kw fl bytes i (n - 1)]"
      using False n0 by (subst peaks.simps) simp
    have half: "(n + 1) div 2 = n div 2 + 1" using False by presburger
    have e: "2 * (n div 2) = n - 1" "n - 1 + 1 = n" using False n0 by presburger+
    then have sub: "subtree_cv kw fl bytes (Suc i) (n div 2) = chaining_value_of
        (parent_output kw fl (subtree_cv kw fl bytes i (n - 1)) (subtree_cv kw fl bytes i n))"
      by (simp only: subtree_cv.simps e)
    have p': "peaks kw fl bytes i 0 (n + 1) = peaks kw fl bytes (Suc i) 0 (n div 2 + 1)"
      using False half by (simp add: peaks.simps [of _ _ _ i 0 "Suc n"])
    have "add_chunk_chaining_value kw fl (subtree_cv kw fl bytes i n) (n + 1) (peaks kw fl bytes i 0 n)
        = add_chunk_chaining_value kw fl (subtree_cv kw fl bytes (Suc i) (n div 2)) (n div 2 + 1)
            (peaks kw fl bytes (Suc i) 0 (n div 2))"
      unfolding sub
      by (subst add_chunk_chaining_value.simps) (use False half in \<open>simp add: p pop_stack_def\<close>)
    also have "\<dots> = Some (peaks kw fl bytes (Suc i) 0 (n div 2 + 1))"
      by (rule less.IH) (use n0 less.prems in auto)
    finally show ?thesis unfolding p' .
  qed
qed

section \<open>The streaming state\<close>

definition full_chunks :: "u8 list \<Rightarrow> nat" where
  "full_chunks bytes = (length bytes - 1) div CHUNK_LEN"

definition open_chunk :: "u8 list \<Rightarrow> u8 list" where
  "open_chunk bytes = drop (full_chunks bytes * CHUNK_LEN) bytes"

definition after :: "u32 list \<Rightarrow> u32 \<Rightarrow> u8 list \<Rightarrow> blake3" where
  "after kw fl bytes = \<lparr>key_words = kw, flags = fl,
     chunk_state = fold absorb_byte (open_chunk bytes) (chunk_new kw (full_chunks bytes) fl),
     cv_stack = peaks kw fl bytes 0 0 (full_chunks bytes)\<rparr>"

lemma after_Nil: "after kw fl [] = new_internal kw fl"
  by (simp add: after_def new_internal_def full_chunks_def open_chunk_def)

lemma open_chunk_length:
  "length (open_chunk bytes) = length bytes - full_chunks bytes * CHUNK_LEN"
  "length (open_chunk bytes) \<le> CHUNK_LEN"
proof -
  show l: "length (open_chunk bytes) = length bytes - full_chunks bytes * CHUNK_LEN"
    by (simp add: open_chunk_def)
  have "(length bytes - 1) mod CHUNK_LEN < CHUNK_LEN" by (simp add: CHUNK_LEN_def)
  then show "length (open_chunk bytes) \<le> CHUNK_LEN"
    using div_mult_mod_eq [of "length bytes - 1" CHUNK_LEN] unfolding l full_chunks_def by linarith
qed

lemma after_chunk_len: "chunk_len (chunk_state (after kw fl bytes)) = length (open_chunk bytes)"
  by (simp add: after_def chunk_len_fold) (simp add: chunk_len_def chunk_new_def)

definition absorb :: "u8 \<Rightarrow> blake3 \<Rightarrow> blake3 option" where
  "absorb b self =
    (case (if chunk_len (chunk_state self) = CHUNK_LEN then close_chunk self else Some self) of
       None \<Rightarrow> None
     | Some self \<Rightarrow> Some (self\<lparr>chunk_state := absorb_byte b (chunk_state self)\<rparr>))"

lemma chunks_below:
  assumes "length bytes \<le> 2 ^ 64" shows "full_chunks bytes < 2 ^ MAX_DEPTH"
proof -
  have "length bytes - 1 < 2 ^ MAX_DEPTH * CHUNK_LEN" using assms by (simp add: MAX_DEPTH_def CHUNK_LEN_def)
  then show ?thesis unfolding full_chunks_def by (rule less_mult_imp_div_less)
qed

lemma absorb_after:
  assumes "length bytes < 2 ^ 64"
  shows "absorb b (after kw fl bytes) = Some (after kw fl (bytes @ [b]))"
proof (cases "length (open_chunk bytes) = CHUNK_LEN")
  case True
  let ?n = "full_chunks bytes"
  have len: "length bytes = (?n + 1) * CHUNK_LEN"
    using True open_chunk_length(1) [of bytes] by (simp add: CHUNK_LEN_def)
  have n': "full_chunks (bytes @ [b]) = ?n + 1" using len by (simp add: full_chunks_def CHUNK_LEN_def)
  have op: "open_chunk (bytes @ [b]) = [b]" unfolding open_chunk_def n' using len by simp
  have "chunk_at ?n bytes = open_chunk bytes" using len by (simp add: chunk_at_def open_chunk_def)
  then have cv: "chaining_value_of (chunk_output (chunk_state (after kw fl bytes))) = subtree_cv kw fl bytes 0 ?n"
    by (simp add: after_def chunk_bytes_spec)
  have "full_chunks (bytes @ [b]) < 2 ^ MAX_DEPTH" by (rule chunks_below) (use assms in simp)
  then have add: "add_chunk_chaining_value kw fl (subtree_cv kw fl bytes 0 ?n) (?n + 1) (peaks kw fl bytes 0 0 ?n)
      = Some (peaks kw fl bytes 0 0 (?n + 1))" using add_chunk_peaks n' by metis
  have "peaks kw fl (bytes @ [b]) 0 0 (?n + 1) = peaks kw fl bytes 0 0 (?n + 1)"
    by (rule peaks_append) (use len in simp)
  moreover have "cs_chunk_counter (chunk_state (after kw fl bytes)) = ?n"
    by (simp add: after_def chunk_new_def)
  moreover have "key_words (after kw fl bytes) = kw" "flags (after kw fl bytes) = fl"
    "cv_stack (after kw fl bytes) = peaks kw fl bytes 0 0 ?n" by (simp_all add: after_def)
  ultimately have "close_chunk (after kw fl bytes) = Some ((after kw fl bytes)
      \<lparr>cv_stack := peaks kw fl (bytes @ [b]) 0 0 (?n + 1), chunk_state := chunk_new kw (?n + 1) fl\<rparr>)"
    using add cv by (simp add: close_chunk_def Let_def)
  then show ?thesis using True n' op
    by (simp add: absorb_def after_chunk_len) (simp add: after_def)
next
  case False
  let ?n = "full_chunks bytes"
  have "length bytes - ?n * CHUNK_LEN < CHUNK_LEN"
    using False open_chunk_length [of bytes] by linarith
  moreover have "?n * CHUNK_LEN \<le> length bytes"
  proof -
    have "?n * CHUNK_LEN \<le> length bytes - 1" by (simp add: full_chunks_def)
    then show ?thesis by linarith
  qed
  ultimately have n': "full_chunks (bytes @ [b]) = ?n"
    unfolding full_chunks_def [of "bytes @ [b]"]
    by (intro div_nat_eqI) (simp_all add: algebra_simps)
  have op: "open_chunk (bytes @ [b]) = open_chunk bytes @ [b]"
    unfolding open_chunk_def n' using \<open>?n * CHUNK_LEN \<le> length bytes\<close> by simp
  have "peaks kw fl (bytes @ [b]) 0 0 ?n = peaks kw fl bytes 0 0 ?n"
    by (rule peaks_append) (use \<open>?n * CHUNK_LEN \<le> length bytes\<close> in simp)
  then show ?thesis using False
    by (simp add: absorb_def after_chunk_len) (simp add: after_def n' op)
qed

text \<open>One \<open>update\<close> call is its bytes, one at a time.\<close>

primrec absorb_all :: "u8 list \<Rightarrow> blake3 \<Rightarrow> blake3 option" where
  "absorb_all [] self = Some self"
| "absorb_all (b # bs) self = Option.bind (absorb b self) (absorb_all bs)"

lemma absorb_all_append: "absorb_all (xs @ ys) h = Option.bind (absorb_all xs h) (absorb_all ys)"
  by (induction xs arbitrary: h) (simp_all split: bind_splits)

lemma absorb_all_open:
  assumes "block_ok (chunk_state h)" "chunk_len (chunk_state h) + length xs \<le> CHUNK_LEN"
  shows "absorb_all xs h = Some (h\<lparr>chunk_state := fold absorb_byte xs (chunk_state h)\<rparr>)"
  using assms
  by (induction xs arbitrary: h) (simp_all add: absorb_def chunk_len_absorb block_ok_absorb)

lemma block_ok_close_chunk: "close_chunk h = Some h' \<Longrightarrow> block_ok (chunk_state h') \<and> chunk_len (chunk_state h') = 0"
  by (auto simp: close_chunk_def Let_def chunk_new_def block_ok_def chunk_len_def split: option.splits)

lemma blake3_update_bytes:
  assumes "block_ok (chunk_state h)" "chunk_len (chunk_state h) \<le> CHUNK_LEN"
  shows "blake3_update h xs = absorb_all xs h"
  using assms
proof (induction "length xs" arbitrary: h xs rule: less_induct)
  case less
  show ?case
  proof (cases "xs = []")
    case True
    then show ?thesis by (simp add: blake3_update.simps)
  next
    case False
    define c where "c = (if chunk_len (chunk_state h) = CHUNK_LEN then close_chunk h else Some h)"
    obtain x xs' where xs: "xs = x # xs'" using False by (cases xs) auto
    show ?thesis
    proof (cases c)
      case None
      then show ?thesis
        unfolding xs by (subst blake3_update.simps) (simp add: absorb_def c_def [symmetric])
    next
      case (Some h')
      have ok: "block_ok (chunk_state h')" and lt: "chunk_len (chunk_state h') < CHUNK_LEN"
        using less.prems Some block_ok_close_chunk [of h h']
        by (auto simp: c_def CHUNK_LEN_def split: if_splits)
      define n where "n = min (CHUNK_LEN - chunk_len (chunk_state h')) (length xs)"
      define t where "t = h'\<lparr>chunk_state := fold absorb_byte (take n xs) (chunk_state h')\<rparr>"
      have n0: "0 < n" using lt xs by (simp add: n_def)
      have tk: "absorb_all (take n xs) h' = Some t"
        unfolding t_def by (rule absorb_all_open [OF ok]) (use lt in \<open>simp add: n_def\<close>)
      have "absorb b h' = absorb b h" for b using lt Some by (auto simp: absorb_def c_def)
      then have sub: "absorb_all (take n xs) h' = absorb_all (take n xs) h"
        using n0 by (cases n) (simp_all add: xs)
      have "blake3_update h xs = blake3_update t (drop n xs)"
        using False lt chunk_update_bytes [OF ok, of "take n xs"]
        by (subst blake3_update.simps)
          (simp add: c_def [symmetric] Some Let_def checked_sub_def t_def n_def)
      also have "\<dots> = absorb_all (drop n xs) t"
        by (rule less.hyps)
          (use n0 xs ok lt in \<open>auto simp: t_def block_ok_fold chunk_len_fold n_def\<close>)
      also have "\<dots> = absorb_all (take n xs @ drop n xs) h"
        unfolding absorb_all_append using tk sub by simp
      finally show ?thesis by simp
    qed
  qed
qed

lemma after_ok: "block_ok (chunk_state (after kw fl bytes))"
  "chunk_len (chunk_state (after kw fl bytes)) \<le> CHUNK_LEN"
  unfolding after_chunk_len using open_chunk_length(2) by (simp_all add: after_def block_ok_fold)

lemma update_after:
  assumes "length (bytes @ xs) \<le> 2 ^ 64"
  shows "blake3_update (after kw fl bytes) xs = Some (after kw fl (bytes @ xs))"
proof -
  have "absorb_all xs (after kw fl bytes) = Some (after kw fl (bytes @ xs))"
    using assms
    by (induction xs arbitrary: bytes) (simp_all add: absorb_after)
  then show ?thesis using blake3_update_bytes [OF after_ok] by simp
qed

interpretation b3: streaming_hash blake3_update finalize "after kw fl" "2 ^ 64" for kw fl
  by unfold_locales (rule update_after)

section \<open>The digest is the tree hash\<close>

lemma subtree_tree:
  assumes "(j + 1) * 2 ^ i * CHUNK_LEN \<le> length bytes"
  shows "chaining_value_of (tree_spec kw fl (j * 2 ^ i) (take (2 ^ i * CHUNK_LEN) (drop (j * 2 ^ i * CHUNK_LEN) bytes)))
     = subtree_cv kw fl bytes i j"
  using assms
proof (induction i arbitrary: j)
  case 0
  then show ?case by (simp add: tree_spec.simps chunk_at_def)
next
  case (Suc i)
  let ?xs = "take (2 ^ Suc i * CHUNK_LEN) (drop (j * 2 ^ Suc i * CHUNK_LEN) bytes)"
  define xs where "xs = ?xs"
  have room: "2 ^ Suc i * CHUNK_LEN \<le> length bytes - j * 2 ^ Suc i * CHUNK_LEN"
    using Suc.prems by (simp add: algebra_simps)
  then have len: "length xs = 2 ^ Suc i * CHUNK_LEN" by (simp add: xs_def)
  have "(2 ^ Suc i * CHUNK_LEN - 1) div CHUNK_LEN = 2 ^ i + (2 ^ i - 1)"
    by (rule div_nat_eqI) (simp_all add: CHUNK_LEN_def algebra_simps)
  moreover have "floor_pow2 (2 ^ i + (2 ^ i - 1)) = 2 ^ i" by (rule floor_pow2_eq) simp
  ultimately have lc: "left_chunks xs = 2 ^ i" by (simp only: left_chunks_def len)
  have big: "\<not> length xs \<le> CHUNK_LEN"
  proof -
    have "0 < (2::nat) ^ i" by simp
    then show ?thesis unfolding len unfolding power_Suc CHUNK_LEN_def by linarith
  qed
  have tk: "take (2 ^ i * CHUNK_LEN) xs = take (2 ^ i * CHUNK_LEN) (drop (2 * j * 2 ^ i * CHUNK_LEN) bytes)"
    unfolding xs_def by (simp add: min_def ac_simps)
  have dr: "drop (2 ^ i * CHUNK_LEN) xs = take (2 ^ i * CHUNK_LEN) (drop ((2 * j + 1) * 2 ^ i * CHUNK_LEN) bytes)"
    unfolding xs_def by (simp add: drop_take algebra_simps)
  have j: "j * 2 ^ Suc i = 2 * j * 2 ^ i" "j * 2 ^ Suc i + 2 ^ i = (2 * j + 1) * 2 ^ i"
    by (simp_all add: algebra_simps)
  have "(2 * j + 1) * 2 ^ i * CHUNK_LEN \<le> length bytes" "(2 * j + 1 + 1) * 2 ^ i * CHUNK_LEN \<le> length bytes"
    using Suc.prems by (simp_all add: algebra_simps)
  note ih = Suc.IH [OF this(1)] Suc.IH [OF this(2)]
  have "tree_spec kw fl (j * 2 ^ Suc i) xs = parent_output kw fl
      (chaining_value_of (tree_spec kw fl (2 * j * 2 ^ i) (take (2 ^ i * CHUNK_LEN) xs)))
      (chaining_value_of (tree_spec kw fl ((2 * j + 1) * 2 ^ i) (drop (2 ^ i * CHUNK_LEN) xs)))"
    using big unfolding tree_spec.simps [of kw fl _ xs] Let_def lc j(2) unfolding j(1) by (simp only: if_False)
  then show ?case using ih unfolding tk dr unfolding xs_def [symmetric] by (simp only: subtree_cv.simps)
qed

text \<open>Folding the stack onto the open chunk walks the right spine of the tree.\<close>

lemma peaks_high:
  assumes "r < 2 ^ k"
  shows "peaks kw fl bytes i (2 ^ k * c) (2 ^ k + r)
    = subtree_cv kw fl bytes (i + k) c # peaks kw fl bytes i (2 ^ k * c + 2 ^ k) r"
  using assms
proof (induction k arbitrary: i r)
  case 0
  then show ?case by (simp add: peaks.simps [of _ _ _ i c "Suc 0"])
next
  case (Suc k)
  have h: "(2 ^ Suc k + r) div 2 = 2 ^ k + r div 2" "2 ^ Suc k * c div 2 = 2 ^ k * c"
    "(2 ^ Suc k * c + 2 ^ Suc k) div 2 = 2 ^ k * c + 2 ^ k" by simp_all
  have "r div 2 < 2 ^ k" using Suc.prems by (simp add: less_mult_imp_div_less)
  note ih = Suc.IH [OF this, of "Suc i"]
  have o: "odd (2 ^ Suc k + r) \<longleftrightarrow> odd r" by simp
  have last: "2 ^ Suc k * c + (2 ^ Suc k + r) - 1 = 2 ^ Suc k * c + 2 ^ Suc k + r - 1" by simp
  have r: "peaks kw fl bytes i (2 ^ Suc k * c + 2 ^ Suc k) r
      = peaks kw fl bytes (Suc i) (2 ^ k * c + 2 ^ k) (r div 2)
        @ (if odd r then [subtree_cv kw fl bytes i (2 ^ Suc k * c + 2 ^ Suc k + r - 1)] else [])"
    by (subst peaks.simps) (simp add: h(3))
  have "2 ^ Suc k + r \<noteq> 0" by simp
  then show ?case
    unfolding r by (subst peaks.simps) (simp only: if_False h ih o last add_Suc_right add_Suc append_Cons)
qed

lemma spine_tree:
  assumes "n < 2 ^ m" "2 ^ m dvd start" "n = full_chunks (drop (start * CHUNK_LEN) bytes)"
    and "start * CHUNK_LEN \<le> length bytes"
  shows "foldr (\<lambda>cv out. parent_output kw fl cv (chaining_value_of out)) (peaks kw fl bytes 0 start n)
      (chunk_spec (start + n) fl True kw (drop ((start + n) * CHUNK_LEN) bytes))
    = tree_spec kw fl start (drop (start * CHUNK_LEN) bytes)"
  using assms
proof (induction n arbitrary: m start rule: less_induct)
  case (less n)
  let ?xs = "drop (start * CHUNK_LEN) bytes"
  have len: "length (open_chunk ?xs) = length ?xs - n * CHUNK_LEN" "length (open_chunk ?xs) \<le> CHUNK_LEN"
    using open_chunk_length [of ?xs] less.prems(3) by simp_all
  have nlen: "n * CHUNK_LEN \<le> length ?xs - 1" using less.prems(3) by (simp add: full_chunks_def)
  show ?case
  proof (cases "n = 0")
    case True
    then have "length ?xs \<le> CHUNK_LEN" using len by simp
    then show ?thesis using True by (simp add: tree_spec.simps)
  next
    case False
    define p where "p = floor_pow2 n"
    have pb: "p \<le> n" "n < 2 * p" using floor_pow2_bounds [of n] False by (simp_all add: p_def)
    obtain k where k: "p = 2 ^ k" using floor_pow2_power [of n] by (auto simp: p_def)
    have km: "k < m" using pb(1) less.prems(1) unfolding k
      by (metis le_less_trans nat_power_less_imp_less zero_less_numeral)
    obtain c where c: "start = 2 ^ k * c" using less.prems(2) km
      by (metis dvd_def le_imp_power_dvd less_imp_le dvd_trans)
    define r where "r = n - p"
    have n: "n = 2 ^ k + r" and rk: "r < 2 ^ k" using pb k by (simp_all add: r_def)
    have rn: "r < n" using n by simp
    have big: "CHUNK_LEN < length ?xs"
    proof -
      have "CHUNK_LEN \<le> n * CHUNK_LEN" using False by simp
      then show ?thesis using nlen by (simp add: CHUNK_LEN_def)
    qed
    have lc: "left_chunks ?xs = p" using less.prems(3) by (simp add: left_chunks_def full_chunks_def p_def)
    have full: "(start + p) * CHUNK_LEN \<le> length bytes"
    proof -
      have "p * CHUNK_LEN \<le> n * CHUNK_LEN" using pb by (intro mult_le_mono1)
      moreover have "length ?xs = length bytes - start * CHUNK_LEN" by simp
      ultimately show ?thesis using nlen less.prems(4) unfolding add_mult_distrib by linarith
    qed
    have dvd: "2 ^ k dvd start + p" unfolding c k by simp
    have rc: "r = full_chunks (drop ((start + p) * CHUNK_LEN) bytes)"
    proof -
      have "length (drop ((start + p) * CHUNK_LEN) bytes) - 1 = (length ?xs - 1) - p * CHUNK_LEN"
        by (simp add: add_mult_distrib)
      moreover have "p * CHUNK_LEN \<le> length ?xs - 1"
        using nlen pb(1) by (meson le_trans mult_le_mono1)
      then have "(length ?xs - 1) div CHUNK_LEN = (length ?xs - 1 - p * CHUNK_LEN) div CHUNK_LEN + p"
        using div_mult_self1 [of CHUNK_LEN "length ?xs - 1 - p * CHUNK_LEN" p] by (simp add: CHUNK_LEN_def)
      ultimately show ?thesis using less.prems(3) unfolding full_chunks_def r_def by simp
    qed
    note ih = less.IH [OF rn rk dvd rc full]
    have left: "chaining_value_of (tree_spec kw fl start (take (p * CHUNK_LEN) ?xs)) = subtree_cv kw fl bytes k c"
      using subtree_tree [of c k bytes kw fl] full unfolding c k by (simp add: algebra_simps)
    have pk: "peaks kw fl bytes 0 start n = subtree_cv kw fl bytes k c # peaks kw fl bytes 0 (start + p) r"
      using peaks_high [OF rk, of kw fl bytes 0 c] unfolding n c k by simp
    have "drop (p * CHUNK_LEN) ?xs = drop ((start + p) * CHUNK_LEN) bytes"
      by (simp add: algebra_simps)
    moreover have "start + n = start + p + r" using pb by (simp add: r_def)
    ultimately show ?thesis
      using ih big unfolding pk tree_spec.simps [of kw fl start ?xs]
      by (simp only: lc Let_def left if_False not_le [symmetric] foldr.simps comp_apply)
  qed
qed

text \<open>C15. The streaming hasher computes the BLAKE3 tree hash: whatever the split of the input into
  updates, up to the largest input the format allows the hasher never panics and its digest is
  that of the recursively specified tree over the concatenated input.\<close>

theorem blake3_streams_tree_hash:
  assumes "length (concat pieces) \<le> 2 ^ 64"
  shows "\<exists>h. feed blake3_update (new_internal kw fl) pieces = Some h
     \<and> finalize h = root_hash (tree_spec kw fl 0 (concat pieces))"
proof -
  let ?bs = "concat pieces"
  have h: "feed blake3_update (new_internal kw fl) pieces = Some (after kw fl ?bs)"
    using b3.feed_state [of "[]" pieces kw fl] assms by (simp add: after_Nil)
  have "tree_spec kw fl 0 ?bs
      = foldr (\<lambda>cv out. parent_output kw fl cv (chaining_value_of out)) (peaks kw fl ?bs 0 0 (full_chunks ?bs))
          (chunk_spec (full_chunks ?bs) fl True kw (open_chunk ?bs))"
    using spine_tree [OF chunks_below [OF assms], of 0 ?bs kw fl] by (simp add: open_chunk_def)
  then have "finalize (after kw fl ?bs) = root_hash (tree_spec kw fl 0 ?bs)"
    by (simp add: finalize_def after_def chunk_bytes_spec)
  with h show ?thesis by blast
qed

theorem blake3_streams_tree_hash_witness:
  "\<exists>h. feed blake3_update (new_internal IV 0) [[97], [98, 99]] = Some h
     \<and> finalize h = root_hash (tree_spec IV 0 0 [97, 98, 99])"
  using blake3_streams_tree_hash [of "[[97], [98, 99]]" IV 0] by simp

end
