(* ===== verification/Blake3_Hash.thy ===== *)
theory Blake3_Hash
  imports Blake3_Tree
begin

text \<open>
  What the rest of the program relies on when it names content by a hash: the one-shot and the
  streaming interfaces agree, hashing never panics within the size limit, the machine-integer
  counters of the hasher never wrap, and the hexadecimal form is faithful.
\<close>

section \<open>Digests are 32 bytes\<close>

lemma length_root_hash [simp]: "length (root_hash out) = 32"
  by (simp add: root_hash_def Let_def compress_def feed_forward_def u32_to_le_bytes_def
      length_concat comp_def sum_list_triv)

lemma length_finalize [simp]: "length (finalize h) = 32"
  by (simp add: finalize_def)

section \<open>Domain-separated hashing\<close>

definition domain_state :: "u8 list \<Rightarrow> u8 list \<Rightarrow> domain_hasher" where
  "domain_state domain payload = \<lparr>inner =
     after (map u32_from_le_bytes (quads (finalize (after IV DERIVE_KEY_CONTEXT domain))))
       DERIVE_KEY_MATERIAL payload\<rparr>"

interpretation domain: streaming_hash domain_hasher_update domain_hasher_finalize "domain_state d" "2 ^ 64" for d
  by unfold_locales (simp add: domain_hasher_update_def domain_state_def update_after)

lemma domain_hasher_new_state:
  assumes "length d \<le> 2 ^ 64" shows "domain_hasher_new d = Some (domain_state d [])"
  using update_after [of "[]" d IV DERIVE_KEY_CONTEXT] assms
  by (simp add: domain_hasher_new_def derive_key_hasher_def after_Nil domain_state_def)

text \<open>A domain hasher fed a payload in any number of chunks, empty ones included, has the digest
  that the one-shot domain hash gives for the concatenated payload, a digest of 32 bytes; neither
  panics while domain and payload are within the format's size limit.\<close>

theorem domain_hasher_matches_one_shot:
  assumes "length domain \<le> 2 ^ 64" "length (concat chunks) \<le> 2 ^ 64"
  shows "\<exists>start state digest. domain_hasher_new domain = Some start
     \<and> feed domain_hasher_update start chunks = Some state
     \<and> hash_domain domain (concat chunks) = Some digest
     \<and> domain_hasher_finalize state = digest \<and> length digest = 32"
  using assms domain_hasher_new_state [OF assms(1)] domain.feed_state [of "[]" chunks domain]
    domain.upd_state [of "[]" "concat chunks" domain]
  by (simp add: hash_domain_def domain_hasher_finalize_def)

theorem domain_hasher_matches_one_shot_witness:
  "\<exists>start state digest. domain_hasher_new [100, 111] = Some start
     \<and> feed domain_hasher_update start [[1, 2], [], [3]] = Some state
     \<and> hash_domain [100, 111] (concat [[1, 2], [], [3]]) = Some digest
     \<and> domain_hasher_finalize state = digest \<and> length digest = 32"
  using domain_hasher_matches_one_shot [of "[100, 111]" "[[1, 2], [], [3]]"] by simp

section \<open>No counter of the hasher wraps\<close>

definition counters_ok :: "chunk_state \<Rightarrow> bool" where
  "counters_ok s \<longleftrightarrow> cs_block_len s \<le> BLOCK_LEN \<and> (0 < cs_block_len s \<or> cs_blocks_compressed s = 0)"

lemma counters_ok_absorb: "counters_ok s \<Longrightarrow> counters_ok (absorb_byte b s)"
  by (auto simp: counters_ok_def absorb_byte_def Let_def close_block_def BLOCK_LEN_def)

lemma counters_ok_fold: "counters_ok s \<Longrightarrow> counters_ok (fold absorb_byte xs s)"
  by (induction xs arbitrary: s) (simp_all add: counters_ok_absorb)

lemma counters_ok_new: "counters_ok (chunk_new kw c fl)"
  by (simp add: counters_ok_def chunk_new_def)

lemma counters_ok_after: "counters_ok (chunk_state (after kw fl bytes))"
  unfolding after_def by (simp add: counters_ok_fold counters_ok_new)

text \<open>In every state the hasher reaches within the size limit the integers it keeps fit their
  machine types with room to spare: at most 64 bytes in the open block, at most 15 compressed
  blocks in the open chunk, a chunk counter below 2 to the 54, and a chaining stack within its
  fixed array; so the additions of the source never wrap and no index leaves the array.\<close>

theorem hasher_counters_fit:
  assumes "length (concat pieces) \<le> 2 ^ 64"
  shows "\<exists>h. feed blake3_update (new_internal kw fl) pieces = Some h
     \<and> cs_block_len (chunk_state h) \<le> 64 \<and> cs_blocks_compressed (chunk_state h) \<le> 15
     \<and> cs_chunk_counter (chunk_state h) < 2 ^ 54 \<and> length (cv_stack h) \<le> MAX_DEPTH"
proof -
  let ?h = "after kw fl (concat pieces)"
  note ok = counters_ok_after [of kw fl "concat pieces"]
  have "chunk_len (chunk_state ?h) \<le> CHUNK_LEN" by (rule after_ok)
  then have "cs_block_len (chunk_state ?h) \<le> 64" "cs_blocks_compressed (chunk_state ?h) \<le> 15"
    using ok by (auto simp: counters_ok_def chunk_len_def BLOCK_LEN_def CHUNK_LEN_def)
  moreover have n: "full_chunks (concat pieces) < 2 ^ MAX_DEPTH" by (rule chunks_below [OF assms])
  moreover have "length (cv_stack ?h) \<le> MAX_DEPTH" unfolding after_def by (simp add: length_peaks [OF n])
  ultimately show ?thesis using b3.feed_state [of "[]" pieces kw fl] assms
    by (simp add: after_Nil) (simp add: after_def chunk_new_def MAX_DEPTH_def)
qed

theorem hasher_counters_fit_witness:
  "\<exists>h. feed blake3_update (new_internal IV 0) [[1], [2, 3]] = Some h
     \<and> cs_block_len (chunk_state h) \<le> 64 \<and> cs_blocks_compressed (chunk_state h) \<le> 15
     \<and> cs_chunk_counter (chunk_state h) < 2 ^ 54 \<and> length (cv_stack h) \<le> MAX_DEPTH"
  using hasher_counters_fit [of "[[1], [2, 3]]" IV 0] by simp

section \<open>Hexadecimal round trip\<close>

definition hex_digit_byte :: "u8 \<Rightarrow> bool" where
  "hex_digit_byte c \<longleftrightarrow> 48 \<le> c \<and> c \<le> 57 \<or> 97 \<le> c \<and> c \<le> 102 \<or> 65 \<le> c \<and> c \<le> 70"

definition to_lower :: "u8 \<Rightarrow> u8" where
  "to_lower c = (if 65 \<le> c \<and> c \<le> 70 then c + 32 else c)"

lemma to_digit16_DIGITS: "n < 16 \<Longrightarrow> to_digit16 (DIGITS ! n) = Some n"
proof -
  have "list_all (\<lambda>n. to_digit16 (DIGITS ! n) = Some n) [0..<16]"
    by code_simp
  then show "n < 16 \<Longrightarrow> ?thesis" by (simp add: list_all_iff)
qed

lemma to_digit16_Some:
  assumes "to_digit16 c = Some d"
  shows "d < 16 \<and> hex_digit_byte c \<and> DIGITS ! d = to_lower c"
proof -
  let ?codes = "[48..<58] @ [97..<103] @ [65..<71]"
  have "list_all (\<lambda>n. case to_digit16 (of_nat n) of None \<Rightarrow> True
     | Some d \<Rightarrow> d < 16 \<and> hex_digit_byte (of_nat n) \<and> DIGITS ! d = to_lower (of_nat n)) ?codes"
    by code_simp
  moreover have "unat c \<in> set ?codes"
    unfolding set_append set_upt Un_iff atLeastLessThan_iff
    using assms by (simp add: to_digit16_def word_le_nat_alt split: if_splits)
  ultimately have "case to_digit16 (of_nat (unat c)) of None \<Rightarrow> True
     | Some d \<Rightarrow> d < 16 \<and> hex_digit_byte (of_nat (unat c)) \<and> DIGITS ! d = to_lower (of_nat (unat c))"
    unfolding list_all_iff by (rule bspec)
  then show ?thesis using assms by simp
qed

lemma to_digit16_None: "to_digit16 c = None \<longleftrightarrow> \<not> hex_digit_byte c"
  by (simp add: to_digit16_def hex_digit_byte_def)

lemma byte_split: "of_nat (unat (b :: u8) div 16 * 16 + unat b mod 16) = b"
  by (simp add: div_mult_mod_eq)

lemma length_to_hex [simp]: "length (to_hex hash) = 2 * length hash"
  by (induction hash) (simp_all add: to_hex_def)

lemma hex_pairs_to_hex: "hex_pairs (to_hex hash) = Some hash"
proof (induction hash)
  case (Cons b hash)
  have "unat b < 256" using unsigned_less [of b] by simp
  then have "unat b div 16 < 16" by simp
  then show ?case using Cons byte_split [of b]
    by (simp add: to_hex_def to_digit16_DIGITS)
qed (simp add: to_hex_def)

lemma pair_back:
  assumes "hi < 16" "lo < 16"
  shows "unat (of_nat (hi * 16 + lo) :: u8) = hi * 16 + lo"
  using assms by (simp add: unsigned_of_nat take_bit_eq_mod del: of_nat_add of_nat_mult)

lemma hex_pairs_Some:
  "even (length s) \<Longrightarrow> hex_pairs s = Some hash \<Longrightarrow>
   to_hex hash = map to_lower s \<and> list_all hex_digit_byte s"
proof (induction s arbitrary: hash rule: hex_pairs.induct)
  case (1 p0 p1 rest)
  then obtain hi lo out where h: "to_digit16 p0 = Some hi" "to_digit16 p1 = Some lo"
    "hex_pairs rest = Some out" "hash = of_nat (hi * 16 + lo) # out"
    by (auto split: option.splits)
  note d = to_digit16_Some [OF h(1)] to_digit16_Some [OF h(2)]
  have "to_hex out = map to_lower rest \<and> list_all hex_digit_byte rest"
    using "1.IH" [OF h(1,2) _ h(3)] "1.prems" by simp
  moreover have "unat (of_nat (hi * 16 + lo) :: u8) = hi * 16 + lo" by (rule pair_back) (use d in auto)
  ultimately show ?case using d unfolding h(4) to_hex_def by simp
qed (simp_all add: to_hex_def)

lemma hex_pairs_accepts: "list_all hex_digit_byte s \<Longrightarrow> \<exists>hash. hex_pairs s = Some hash"
proof (induction s rule: hex_pairs.induct)
  case (1 p0 p1 rest)
  then obtain hi lo where "to_digit16 p0 = Some hi" "to_digit16 p1 = Some lo"
    using to_digit16_None [of p0] to_digit16_None [of p1] by auto
  with 1 show ?case by auto
qed simp_all

text \<open>Parsing the hexadecimal form of a content hash gives the hash back, and parsing accepts exactly
  the 64-character strings of hexadecimal digits of either case: an accepted text is, up to
  letter case, the form of the hash it parses to.\<close>

theorem hex_roundtrip:
  "(length hash = 32 \<longrightarrow> from_hex (to_hex hash) = Some hash)
   \<and> (from_hex shown = Some hash \<longrightarrow> length hash = 32 \<and> to_hex hash = map to_lower shown)
   \<and> ((\<exists>parsed. from_hex shown = Some parsed) \<longleftrightarrow> length shown = 64 \<and> list_all hex_digit_byte shown)"
proof (intro conjI impI)
  show "length hash = 32 \<Longrightarrow> from_hex (to_hex hash) = Some hash"
    by (simp add: from_hex_def hex_pairs_to_hex)
next
  assume h: "from_hex shown = Some hash"
  then have "length shown = 64" and p: "hex_pairs shown = Some hash"
    by (auto simp: from_hex_def split: if_splits)
  then show "to_hex hash = map to_lower shown" using hex_pairs_Some [of shown hash] by simp
  then have "length (to_hex hash) = 64" using \<open>length shown = 64\<close> by simp
  then show "length hash = 32" by simp
next
  show "(\<exists>parsed. from_hex shown = Some parsed) \<longleftrightarrow> length shown = 64 \<and> list_all hex_digit_byte shown"
    using hex_pairs_Some [of shown] hex_pairs_accepts [of shown] by (auto simp: from_hex_def)
qed

theorem hex_roundtrip_witness:
  "from_hex (to_hex (replicate 32 0xAB)) = Some (replicate 32 0xAB)"
  using hex_roundtrip [of "replicate 32 0xAB" "[]"] by simp

section \<open>The allocation-free rendering\<close>

lemma digits_of_byte:
  "unat (drop_bit 4 (b :: u8)) = unat b div 16" "unat (b AND 0x0f) = unat b mod 16"
proof -
  show "unat (drop_bit 4 b) = unat b div 16" by (simp add: drop_bit_eq_div unat_div)
  have "b AND 0x0f = take_bit 4 b" by (simp add: take_bit_eq_mask mask_eq_exp_minus_1)
  then show "unat (b AND 0x0f) = unat b mod 16" by (simp add: take_bit_eq_mod unat_mod)
qed

lemma take_two_updates:
  "Suc k < length xs \<Longrightarrow> take (Suc (Suc k)) (xs[k := a, Suc k := b]) = take k xs @ [a, b]"
  by (simp add: take_Suc_conv_app_nth)

lemma write_lower_hex_run:
  "2 * (length pre + length hash) \<le> length (buf :: u8 list) \<Longrightarrow> take (2 * length pre) buf = to_hex pre \<Longrightarrow>
   take (2 * (length pre + length hash))
     (fold (\<lambda>(i, byte) encoded. encoded
        [i * 2 := DIGITS ! unat (drop_bit 4 byte), i * 2 + 1 := DIGITS ! unat (byte AND 0x0f)])
      (enumerate (length pre) hash) buf) = to_hex (pre @ hash)"
proof (induction hash arbitrary: pre buf)
  case (Cons b hash)
  let ?i = "length pre"
  let ?buf = "buf[?i * 2 := DIGITS ! unat (drop_bit 4 b), ?i * 2 + 1 := DIGITS ! unat (b AND 0x0f)]"
  have "take (2 * (?i + 1)) ?buf = take (2 * ?i) buf @ [DIGITS ! (unat b div 16), DIGITS ! (unat b mod 16)]"
    using Cons.prems(1) take_two_updates [of "?i * 2" buf] by (simp add: digits_of_byte mult.commute)
  then have "take (2 * length (pre @ [b])) ?buf = to_hex (pre @ [b])"
    using Cons.prems(2) by (simp add: to_hex_def)
  then show ?case using Cons.IH [of "pre @ [b]" ?buf] Cons.prems(1) by simp
qed simp

text \<open>The allocation-free rendering used by formatting writes exactly the text of \<open>to_hex\<close>.\<close>

theorem write_lower_hex_is_to_hex:
  assumes "length hash = 32" shows "write_lower_hex hash = to_hex hash"
proof -
  have len: "length (fold (\<lambda>(i, byte) encoded. encoded
        [i * 2 := DIGITS ! unat (drop_bit 4 byte), i * 2 + 1 := DIGITS ! unat (byte AND 0x0f)]) ps buf) = length buf"
    for ps and buf :: "u8 list"
    by (induction ps arbitrary: buf) auto
  have "length (write_lower_hex hash) = 64" unfolding write_lower_hex_def len by simp
  moreover have "take 64 (write_lower_hex hash) = to_hex hash"
    using write_lower_hex_run [of "[]" hash "replicate 64 0"] assms
    by (simp add: write_lower_hex_def to_hex_def)
  ultimately show ?thesis by simp
qed

theorem write_lower_hex_is_to_hex_witness:
  "write_lower_hex (replicate 32 0x5A) = to_hex (replicate 32 0x5A)"
  by (rule write_lower_hex_is_to_hex) simp

end
