(* ===== verification/Framing.thy ===== *)
theory Framing
  imports Prelude
begin

text \<open>
  Byte encodings shared by the hashed formats: little-endian integers, the bytes of a string
  literal, length-prefixed byte strings, and the locale of self-delimiting encodings, of which
  concatenated fields can be read back one after the other.
\<close>

section \<open>Little-endian bytes\<close>

primrec le_bytes :: "nat \<Rightarrow> nat \<Rightarrow> u8 list" where
  "le_bytes 0 v = []"
| "le_bytes (Suc n) v = of_nat v # le_bytes n (v div 256)"

lemma length_le_bytes [simp]: "length (le_bytes n v) = n"
  by (induction n arbitrary: v) auto

lemma le_bytes_inj:
  assumes "le_bytes n v = le_bytes n w" "v < 256 ^ n" "w < 256 ^ n"
  shows "v = w"
  using assms
proof (induction n arbitrary: v w)
  case 0
  then show ?case by simp
next
  case (Suc n)
  have "(of_nat v :: u8) = of_nat w" and t: "le_bytes n (v div 256) = le_bytes n (w div 256)"
    using Suc.prems(1) by auto
  then have m: "v mod 256 = w mod 256"
    by (simp add: word_unat_eq_iff unsigned_of_nat take_bit_eq_mod)
  have "v div 256 < 256 ^ n" "w div 256 < 256 ^ n"
    using Suc.prems(2,3) by (auto simp: div_less_iff_less_mult mult.commute)
  with t have "v div 256 = w div 256" by (rule Suc.IH)
  with m show ?case by (metis div_mult_mod_eq)
qed

definition str_bytes :: "string \<Rightarrow> u8 list" where
  "str_bytes s = map of_char s"

section \<open>Self-delimiting encodings\<close>

locale framing =
  fixes enc :: "'a \<Rightarrow> 'b list" and ok :: "'a \<Rightarrow> bool"
  assumes delimited: "ok a \<Longrightarrow> ok b \<Longrightarrow> enc a @ x = enc b @ y \<Longrightarrow> a = b \<and> x = y"
begin

lemma enc_inj: "ok a \<Longrightarrow> ok b \<Longrightarrow> enc a = enc b \<Longrightarrow> a = b"
  using delimited [of a b "[]" "[]"] by simp

lemma delimited_list:
  "length as = length bs \<Longrightarrow> list_all ok as \<Longrightarrow> list_all ok bs \<Longrightarrow>
   concat (map enc as) @ x = concat (map enc bs) @ y \<Longrightarrow> as = bs \<and> x = y"
proof (induction as bs rule: list_induct2)
  case (Cons a as b bs)
  then have "enc a @ concat (map enc as) @ x = enc b @ concat (map enc bs) @ y" by simp
  moreover have "ok a" "ok b" "list_all ok as" "list_all ok bs" using Cons.prems by simp_all
  ultimately show ?case using delimited Cons.IH by blast
qed simp

end

lemma same_length_append:
  "length a = length b \<Longrightarrow> a @ x = b @ y \<longleftrightarrow> a = b \<and> x = y"
  by simp

text \<open>An integer of at most \<open>n\<close> bytes.\<close>

interpretation le_frame: framing "le_bytes n" "\<lambda>v. v < 256 ^ n" for n
  by unfold_locales (auto dest: le_bytes_inj simp: same_length_append)

text \<open>A byte string after its 64-bit length.\<close>

definition len_bytes :: "u8 list \<Rightarrow> u8 list" where
  "len_bytes bs = le_bytes 8 (length bs) @ bs"

lemma u64_max_bytes: "v \<le> u64_max \<Longrightarrow> v < 256 ^ 8"
  by (simp add: u64_max_def)

interpretation len_frame: framing len_bytes "\<lambda>bs. length bs \<le> u64_max"
proof
  fix a b x y assume ok: "length a \<le> u64_max" "length b \<le> u64_max" and "len_bytes a @ x = len_bytes b @ y"
  then have "le_bytes 8 (length a) @ a @ x = le_bytes 8 (length b) @ b @ y" by (simp add: len_bytes_def)
  then have "length a = length b" and "a @ x = b @ y"
    using le_frame.delimited [OF u64_max_bytes u64_max_bytes, OF ok] by blast+
  then show "a = b \<and> x = y" by simp
qed

end
