(* ===== verification/Identity_Schema.thy ===== *)
theory Identity_Schema
  imports Blake3_Hash Framing
begin

text \<open>
  The static schemas of the strong identities (\<open>crates/fs-blake3/src/identity.rs\<close>): field
  specifications with their child bindings, the check that a child identity matches the binding
  its parent declares, and the recursive schema descriptor whose hash is the schema id.

  Strings are their UTF-8 bytes. The recursion of the source over child bindings is cut at 16
  edges; here it is recursion on the number of edges that remain.
\<close>

section \<open>Tags\<close>

datatype presence = Required | Optional

fun presence_tag :: "presence \<Rightarrow> u8" where
  "presence_tag Required = 1"
| "presence_tag Optional = 2"

datatype wire_type = Utf8 | Bytes | U64 | I64 | Bool | FiniteF64 | Variant | OrderedBytes
  | CanonicalSet | Child | OrderedChildren

fun wire_tag :: "wire_type \<Rightarrow> u8" where
  "wire_tag Utf8 = 1"
| "wire_tag Bytes = 2"
| "wire_tag U64 = 3"
| "wire_tag I64 = 4"
| "wire_tag Bool = 5"
| "wire_tag FiniteF64 = 6"
| "wire_tag Variant = 7"
| "wire_tag OrderedBytes = 8"
| "wire_tag CanonicalSet = 9"
| "wire_tag Child = 10"
| "wire_tag OrderedChildren = 11"

datatype identity_role = Semantic | WireContent | EvidenceNode | Entity | SourceBytes | Source
  | Model | Checker | Schema | Verifier | KeyPolicy | ProblemSemantic

fun role_tag :: "identity_role \<Rightarrow> u8" where
  "role_tag Semantic = 1"
| "role_tag WireContent = 2"
| "role_tag EvidenceNode = 3"
| "role_tag Entity = 4"
| "role_tag SourceBytes = 5"
| "role_tag Source = 6"
| "role_tag Model = 7"
| "role_tag Checker = 8"
| "role_tag Schema = 9"
| "role_tag Verifier = 10"
| "role_tag KeyPolicy = 11"
| "role_tag ProblemSemantic = 12"

section \<open>Schemas\<close>

datatype field_spec = FieldSpec (spec_name: "u8 list") (spec_wire: wire_type)
    (spec_presence: presence) (spec_child: "child_spec option")
  and child_spec = ChildSpec (child_role: identity_role) (child_domain: "u8 list")
    (child_name: "u8 list") (child_version: u32) (child_context: "u8 list")
    (child_fields: "field_spec list")

text \<open>The associated constants of a \<open>CanonicalSchema\<close>; \<open>SchemaDescriptorSource\<close> holds the same five.\<close>

record canonical_schema =
  domain_of :: "u8 list"
  name_of :: "u8 list"
  version_of :: u32
  context_of :: "u8 list"
  fields_of :: "field_spec list"

text \<open>A strong identity: its nominal role and schema, and the digest.\<close>

record strong_identity =
  id_role :: identity_role
  id_schema :: canonical_schema
  id_digest :: "u8 list"

text \<open>\<open>FieldSpec::required\<close> panics at compile time on a child wire type.\<close>

definition field_required :: "u8 list \<Rightarrow> wire_type \<Rightarrow> field_spec option" where
  "field_required name wire =
    (case wire of
       Child \<Rightarrow> None
     | OrderedChildren \<Rightarrow> None
     | _ \<Rightarrow> Some (FieldSpec name wire Required None))"

definition field_child_of :: "u8 list \<Rightarrow> child_spec \<Rightarrow> field_spec" where
  "field_child_of name spec = FieldSpec name Child Required (Some spec)"

definition field_ordered_children_of :: "u8 list \<Rightarrow> child_spec \<Rightarrow> field_spec" where
  "field_ordered_children_of name spec = FieldSpec name OrderedChildren Required (Some spec)"

definition field_optional_bytes :: "u8 list \<Rightarrow> field_spec" where
  "field_optional_bytes name = FieldSpec name Bytes Optional None"

definition child_for_identity :: "identity_role \<Rightarrow> canonical_schema \<Rightarrow> child_spec" where
  "child_for_identity role D =
     ChildSpec role (domain_of D) (name_of D) (version_of D) (context_of D) (fields_of D)"

definition child_source :: "child_spec \<Rightarrow> canonical_schema" where
  "child_source child = \<lparr>domain_of = child_domain child, name_of = child_name child,
     version_of = child_version child, context_of = child_context child, fields_of = child_fields child\<rparr>"

section \<open>Matching a child identity against its binding\<close>

definition MAX_SCHEMA_CHILD_DEPTH :: nat where "MAX_SCHEMA_CHILD_DEPTH = 16"

text \<open>
  \<open>same_place\<close> stands for \<open>core::ptr::eq\<close> on the two slices, which says nothing but that equal
  addresses hold equal fields. \<open>deeper\<close> compares across one child edge; it is absent when no edge
  remains.
\<close>

definition field_matches ::
  "(field_spec list \<Rightarrow> field_spec list \<Rightarrow> bool) option \<Rightarrow> field_spec \<Rightarrow> field_spec \<Rightarrow> bool" where
  "field_matches deeper left right \<longleftrightarrow>
     spec_name left = spec_name right
   \<and> spec_wire left = spec_wire right
   \<and> spec_presence left = spec_presence right
   \<and> (case (spec_child left, spec_child right) of
        (None, None) \<Rightarrow> True
      | (Some lc, Some rc) \<Rightarrow>
          (case deeper of
             None \<Rightarrow> False
           | Some deeper \<Rightarrow>
               role_tag (child_role lc) = role_tag (child_role rc)
             \<and> child_domain lc = child_domain rc
             \<and> child_name lc = child_name rc
             \<and> child_version lc = child_version rc
             \<and> child_context lc = child_context rc
             \<and> deeper (child_fields lc) (child_fields rc))
      | _ \<Rightarrow> False)"

definition fields_match_at ::
  "(field_spec list \<Rightarrow> field_spec list \<Rightarrow> bool) \<Rightarrow> (field_spec list \<Rightarrow> field_spec list \<Rightarrow> bool) option
    \<Rightarrow> field_spec list \<Rightarrow> field_spec list \<Rightarrow> bool" where
  "fields_match_at same_place deeper a b =
    (if same_place a b then True
     else if length a \<noteq> length b then False
     else list_all (\<lambda>(left, right). field_matches deeper left right) (zip a b))"

primrec fields_schema_match ::
  "(field_spec list \<Rightarrow> field_spec list \<Rightarrow> bool) \<Rightarrow> nat \<Rightarrow> field_spec list \<Rightarrow> field_spec list \<Rightarrow> bool" where
  "fields_schema_match same_place 0 = fields_match_at same_place None"
| "fields_schema_match same_place (Suc remaining_edges) =
     fields_match_at same_place (Some (fields_schema_match same_place remaining_edges))"

definition child_matches ::
  "(field_spec list \<Rightarrow> field_spec list \<Rightarrow> bool) \<Rightarrow> child_spec \<Rightarrow> identity_role \<Rightarrow> canonical_schema \<Rightarrow> string + unit" where
  "child_matches same_place self role D =
    (if role_tag (child_role self) \<noteq> role_tag role then Inl ''child role''
     else if child_domain self \<noteq> domain_of D then Inl ''child schema domain''
     else if child_name self \<noteq> name_of D then Inl ''child schema name''
     else if child_version self \<noteq> version_of D then Inl ''child schema version''
     else if child_context self \<noteq> context_of D then Inl ''child schema context''
     else if \<not> fields_schema_match same_place MAX_SCHEMA_CHILD_DEPTH (child_fields self) (fields_of D)
       then Inl ''child field schema''
     else Inr ())"

section \<open>The schema descriptor\<close>

definition CANONICAL_FRAME_VERSION :: u32 where "CANONICAL_FRAME_VERSION = 1"
definition SCHEMA_MAGIC :: "u8 list" where "SCHEMA_MAGIC = str_bytes ''FSSCHEM'' @ [2]"

definition SCHEMA_ID_HASH_DOMAIN :: "u8 list" where
  "SCHEMA_ID_HASH_DOMAIN = str_bytes ''org.frankensim.fs-blake3.schema-id.v1''"

text \<open>The byte strings handed to \<open>update\<close>, in the order of the calls.\<close>

definition hash_len_bytes :: "u8 list \<Rightarrow> u8 list list" where
  "hash_len_bytes value = [le_bytes 8 (length value), value]"

definition field_descriptor :: "(canonical_schema \<Rightarrow> u8 list list) option \<Rightarrow> field_spec \<Rightarrow> u8 list list" where
  "field_descriptor deeper field =
     hash_len_bytes (spec_name field) @ [[wire_tag (spec_wire field), presence_tag (spec_presence field)]]
     @ (case spec_child field of
          None \<Rightarrow> [[0]]
        | Some child \<Rightarrow>
            (case deeper of
               None \<Rightarrow> [[2]]
             | Some deeper \<Rightarrow> [1, role_tag (child_role child)] # deeper (child_source child)))"

definition schema_descriptor_at :: "(canonical_schema \<Rightarrow> u8 list list) option \<Rightarrow> canonical_schema \<Rightarrow> u8 list list" where
  "schema_descriptor_at deeper source =
     [SCHEMA_MAGIC, le_bytes 4 (unat CANONICAL_FRAME_VERSION)]
     @ hash_len_bytes (domain_of source) @ hash_len_bytes (name_of source)
     @ [le_bytes 4 (unat (version_of source))] @ hash_len_bytes (context_of source)
     @ [le_bytes 8 (length (fields_of source))]
     @ concat (map (field_descriptor deeper) (fields_of source))"

primrec write_schema_descriptor_at :: "nat \<Rightarrow> canonical_schema \<Rightarrow> u8 list list" where
  "write_schema_descriptor_at 0 = schema_descriptor_at None"
| "write_schema_descriptor_at (Suc remaining_edges) =
     schema_descriptor_at (Some (write_schema_descriptor_at remaining_edges))"

definition write_schema_descriptor :: "canonical_schema \<Rightarrow> u8 list list" where
  "write_schema_descriptor = write_schema_descriptor_at MAX_SCHEMA_CHILD_DEPTH"

definition schema_id_for_schema :: "canonical_schema \<Rightarrow> u8 list option" where
  "schema_id_for_schema D =
    (case derive_key_hasher SCHEMA_ID_HASH_DOMAIN of
       None \<Rightarrow> None
     | Some hasher \<Rightarrow> map_option finalize (feed blake3_update hasher (write_schema_descriptor D)))"

text \<open>\<open>remaining_edges\<close> counts down from the cap of 16 where the source counts the depth up.\<close>

primrec promotion_charter_schema_depth_is_admissible :: "nat \<Rightarrow> field_spec list \<Rightarrow> bool" where
  "promotion_charter_schema_depth_is_admissible 0 fs =
     list_all (\<lambda>field. spec_child field = None) fs"
| "promotion_charter_schema_depth_is_admissible (Suc remaining_edges) fs =
     list_all (\<lambda>field. case spec_child field of
         None \<Rightarrow> True
       | Some child \<Rightarrow> promotion_charter_schema_depth_is_admissible remaining_edges (child_fields child)) fs"

end
