(* ===== verification/Identity_Encoder.thy ===== *)
theory Identity_Encoder
  imports Identity_Schema
begin

text \<open>
  The transactional streaming encoder of canonical identities (\<open>CanonicalEncoder\<close> in
  \<open>crates/fs-blake3/src/identity.rs\<close>): limits and errors, the encoder state, the appending loop
  that feeds both hashers in strides between cancellation polls, schema validation, and the
  frame header.

  A fallible method of the encoder is a computation that takes the encoder and returns its
  outcome together with the encoder it leaves, so that what was absorbed before a failure stays
  visible. \<open>Panicked\<close> covers panics and, in the two loops that advance by the polling stride, a
  stride of zero, with which they would not return; \<open>validate_limits\<close> refuses it first.
  \<open>u64\<close> and \<open>u32\<close> quantities of the accounting are natural numbers under the source's
  checked arithmetic. The cancellation probe is the sequence of the answers it gives.
\<close>

section \<open>Limits and errors\<close>

record canonical_limits =
  max_canonical_bytes :: nat
  max_field_bytes :: nat
  max_fields :: nat
  max_collection_items :: nat
  cancellation_poll_bytes :: nat

definition default_limits :: canonical_limits where
  "default_limits = \<lparr>max_canonical_bytes = 2 ^ 20, max_field_bytes = 2 ^ 18, max_fields = 256,
     max_collection_items = 16384, cancellation_poll_bytes = 4096\<rparr>"

datatype limit_kind = CanonicalBytes | FieldBytes | Fields | CollectionItems | StreamChunks

datatype schema_descriptor_kind = Domain | Name | Context | FieldName

datatype canonical_error =
    InvalidLimits string
  | MaxFieldBytesBelowSchemaFloor schema_descriptor_kind nat nat
  | InvalidSchemaDescriptor string
  | LengthOverflow
  | LimitExceeded limit_kind nat nat
  | FieldOrder nat nat
  | FieldNameMismatch
  | WireTypeMismatch
  | PresenceMismatch
  | MissingFields nat nat
  | DeclaredLengthMismatch nat nat
  | NonFiniteFloat u64
  | DuplicateSetItem nat
  | NonCanonicalSetOrder nat
  | Cancelled nat
  | ChildBindingMissing "u8 list"
  | ChildBindingMismatch "u8 list" string

section \<open>The encoder and its computations\<close>

text \<open>\<open>schema\<close> and \<open>role\<close> hold the static type parameter of the encoder; \<open>polls\<close> counts the
  cancellation polls made so far.\<close>

record encoder =
  semantic_hasher :: blake3
  preimage_hasher :: blake3
  schema :: canonical_schema
  role :: identity_role
  schema_id :: "u8 list"
  limits :: canonical_limits
  cancellation :: "nat \<Rightarrow> bool"
  polls :: nat
  canonical_bytes :: nat
  next_field :: nat
  collection_items :: nat

type_synonym 'a computation = "encoder \<Rightarrow> (canonical_error, 'a) outcome \<times> encoder"

definition return_with :: "'a \<Rightarrow> 'a computation" where
  "return_with x self = (Ok x, self)"

definition refuse :: "canonical_error \<Rightarrow> 'a computation" where
  "refuse e self = (Err e, self)"

definition and_then :: "'a computation \<Rightarrow> ('a \<Rightarrow> 'b computation) \<Rightarrow> 'b computation" where
  "and_then c f self =
    (case c self of
       (Ok x, self) \<Rightarrow> f x self
     | (Err e, self) \<Rightarrow> (Err e, self)
     | (Panicked, self) \<Rightarrow> (Panicked, self))"

primrec in_order :: "unit computation list \<Rightarrow> unit computation" where
  "in_order [] = return_with ()"
| "in_order (c # cs) = and_then c (\<lambda>_. in_order cs)"

declare in_order.simps [simp del]

text \<open>A pure check, and an operation that first reads the encoder.\<close>

definition ensuring :: "canonical_error + 'a \<Rightarrow> 'a computation" where
  "ensuring r = (case r of Inl e \<Rightarrow> refuse e | Inr x \<Rightarrow> return_with x)"

definition reading :: "(encoder \<Rightarrow> 'a computation) \<Rightarrow> 'a computation" where
  "reading f self = f self self"

section \<open>Checked arithmetic and limits\<close>

definition attempt :: "'e + 'a \<Rightarrow> ('a \<Rightarrow> 'e + 'b) \<Rightarrow> 'e + 'b" where
  "attempt r f = (case r of Inl e \<Rightarrow> Inl e | Inr x \<Rightarrow> f x)"

definition as_u64 :: "nat \<Rightarrow> canonical_error + nat" where
  "as_u64 value = (if value \<le> u64_max then Inr value else Inl LengthOverflow)"

definition add_u64 :: "nat \<Rightarrow> nat \<Rightarrow> canonical_error + nat" where
  "add_u64 left right = (case checked_add u64_max left right of None \<Rightarrow> Inl LengthOverflow | Some v \<Rightarrow> Inr v)"

definition checked_sum :: "nat list \<Rightarrow> canonical_error + nat" where
  "checked_sum values = fold (\<lambda>value sum. attempt sum (\<lambda>sum. add_u64 sum value)) values (Inr 0)"

definition enforce_limit :: "limit_kind \<Rightarrow> nat \<Rightarrow> nat \<Rightarrow> canonical_error + unit" where
  "enforce_limit kind requested limit =
    (if limit < requested then Inl (LimitExceeded kind requested limit) else Inr ())"

definition validate_limits :: "canonical_limits \<Rightarrow> canonical_error + unit" where
  "validate_limits lim =
    (if cancellation_poll_bytes lim = 0 then Inl (InvalidLimits ''cancellation_poll_bytes must be positive'')
     else Inr ())"

section \<open>Polling, appending, comparing\<close>

definition checkpoint :: "unit computation" where
  "checkpoint self =
    (let cancelled = cancellation self (polls self);
         self = self\<lparr>polls := polls self + 1\<rparr>
     in if cancelled then (Err (Cancelled (canonical_bytes self)), self) else (Ok (), self))"

text \<open>One iteration feeds a chunk to both hashers and counts it.\<close>

definition absorb_chunk :: "u8 list \<Rightarrow> unit computation" where
  "absorb_chunk chunk self =
    (case blake3_update (semantic_hasher self) chunk of
       None \<Rightarrow> (Panicked, self)
     | Some sem \<Rightarrow>
         (case blake3_update (preimage_hasher self) chunk of
            None \<Rightarrow> (Panicked, self)
          | Some pre \<Rightarrow>
              (let self = self\<lparr>semantic_hasher := sem, preimage_hasher := pre\<rparr>
               in case attempt (as_u64 (length chunk)) (add_u64 (canonical_bytes self)) of
                    Inl e \<Rightarrow> (Err e, self)
                  | Inr absorbed \<Rightarrow> (Ok (), self\<lparr>canonical_bytes := absorbed\<rparr>))))"

function append_strides :: "nat \<Rightarrow> u8 list \<Rightarrow> unit computation" where
  "append_strides stride bytes self =
    (if bytes = [] then (Ok (), self)
     else if stride = 0 then (Panicked, self)
     else case checkpoint self of
            (Ok _, self) \<Rightarrow>
              (let n = min stride (length bytes)
               in case absorb_chunk (take n bytes) self of
                    (Ok _, self) \<Rightarrow> append_strides stride (drop n bytes) self
                  | (r, self) \<Rightarrow> (r, self))
          | (r, self) \<Rightarrow> (r, self))"
  by pat_completeness auto
termination by (relation "measure (\<lambda>(stride, bytes, self). length bytes)") auto

declare append_strides.simps [simp del]

definition append_bytes :: "u8 list \<Rightarrow> unit computation" where
  "append_bytes bytes = reading (\<lambda>self.
     and_then (ensuring (attempt (as_u64 (length bytes)) (add_u64 (canonical_bytes self)))) (\<lambda>requested.
     in_order [
       ensuring (enforce_limit CanonicalBytes requested (max_canonical_bytes (limits self))),
       append_strides (cancellation_poll_bytes (limits self)) bytes]))"

definition append_len_bytes :: "u8 list \<Rightarrow> unit computation" where
  "append_len_bytes bytes = in_order [
     and_then (ensuring (as_u64 (length bytes))) (\<lambda>len. append_bytes (le_bytes 8 len)),
     append_bytes bytes]"

text \<open>\<open>auxiliary_update\<close> feeds a third hasher in strides, polling as often.\<close>

function auxiliary_strides :: "nat \<Rightarrow> u8 list \<Rightarrow> blake3 \<Rightarrow> blake3 computation" where
  "auxiliary_strides stride bytes hasher self =
    (if bytes = [] then (Ok hasher, self)
     else if stride = 0 then (Panicked, self)
     else case checkpoint self of
            (Ok _, self) \<Rightarrow>
              (let n = min stride (length bytes)
               in case blake3_update hasher (take n bytes) of
                    None \<Rightarrow> (Panicked, self)
                  | Some hasher \<Rightarrow> auxiliary_strides stride (drop n bytes) hasher self)
          | (Err e, self) \<Rightarrow> (Err e, self)
          | (Panicked, self) \<Rightarrow> (Panicked, self))"
  by pat_completeness auto
termination by (relation "measure (\<lambda>(stride, bytes, hasher, self). length bytes)") auto

declare auxiliary_strides.simps [simp del]

definition auxiliary_update :: "u8 list \<Rightarrow> blake3 \<Rightarrow> blake3 computation" where
  "auxiliary_update bytes hasher = reading (\<lambda>self.
     auxiliary_strides (cancellation_poll_bytes (limits self)) bytes hasher)"

primrec auxiliary_updates :: "u8 list list \<Rightarrow> blake3 \<Rightarrow> blake3 computation" where
  "auxiliary_updates [] hasher = return_with hasher"
| "auxiliary_updates (piece # pieces) hasher =
     and_then (auxiliary_update piece hasher) (auxiliary_updates pieces)"

datatype ordering = Less | Equal | Greater

fun compare_bytes :: "u8 list \<Rightarrow> u8 list \<Rightarrow> ordering" where
  "compare_bytes [] [] = Equal"
| "compare_bytes [] (y # ys) = Less"
| "compare_bytes (x # xs) [] = Greater"
| "compare_bytes (x # xs) (y # ys) =
    (if x < y then Less else if y < x then Greater else compare_bytes xs ys)"

definition compare_nat :: "nat \<Rightarrow> nat \<Rightarrow> ordering" where
  "compare_nat a b = (if a < b then Less else if b < a then Greater else Equal)"

function compare_strides :: "nat \<Rightarrow> nat \<Rightarrow> nat \<Rightarrow> u8 list \<Rightarrow> u8 list \<Rightarrow> ordering computation" where
  "compare_strides stride common_len offset left right self =
    (if offset < common_len
     then if stride = 0 then (Panicked, self)
          else case checkpoint self of
            (Ok _, self) \<Rightarrow>
              (let stop = min (offset + stride) common_len;
                   slice = (\<lambda>xs. take (stop - offset) (drop offset xs))
               in case compare_bytes (slice left) (slice right) of
                    Equal \<Rightarrow> compare_strides stride common_len stop left right self
                  | other \<Rightarrow> (Ok other, self))
          | (Err e, self) \<Rightarrow> (Err e, self)
          | (Panicked, self) \<Rightarrow> (Panicked, self)
     else (Ok (compare_nat (length left) (length right)), self))"
  by pat_completeness auto
termination
  by (relation "measure (\<lambda>(stride, common_len, offset, left, right, self). common_len - offset)") auto

declare compare_strides.simps [simp del]

definition compare_canonical_slices :: "u8 list \<Rightarrow> u8 list \<Rightarrow> ordering computation" where
  "compare_canonical_slices left right = reading (\<lambda>self.
     and_then checkpoint (\<lambda>_.
       compare_strides (cancellation_poll_bytes (limits self)) (min (length left) (length right)) 0 left right))"

section \<open>Schema validation\<close>

text \<open>The entries counted so far and the descriptor floor (binding term, required bytes).\<close>

type_synonym audit = "nat \<times> schema_descriptor_kind \<times> nat"

definition observe_floor :: "schema_descriptor_kind \<Rightarrow> nat \<Rightarrow> audit \<Rightarrow> canonical_error + audit" where
  "observe_floor kind bytes audit = attempt (as_u64 bytes) (\<lambda>required.
     case audit of (entries, bound_kind, bound) \<Rightarrow>
       Inr (if bound < required then (entries, kind, required) else audit))"

definition enforce_floor :: "audit \<Rightarrow> nat \<Rightarrow> canonical_error + unit" where
  "enforce_floor audit supplied =
    (case audit of (entries, kind, required) \<Rightarrow>
       if supplied < required then Inl (MaxFieldBytesBelowSchemaFloor kind required supplied) else Inr ())"

primrec require_unique :: "u8 list \<Rightarrow> u8 list list \<Rightarrow> unit computation" where
  "require_unique name [] = return_with ()"
| "require_unique name (previous # names) =
     and_then (compare_canonical_slices previous name) (\<lambda>ordering.
       if ordering = Equal then refuse (InvalidSchemaDescriptor ''field names must be unique'')
       else require_unique name names)"

definition is_child_wire :: "wire_type \<Rightarrow> bool" where
  "is_child_wire wire \<longleftrightarrow> wire = Child \<or> wire = OrderedChildren"

definition validate_binding ::
  "(canonical_schema \<Rightarrow> audit \<Rightarrow> audit computation) option \<Rightarrow> field_spec \<Rightarrow> audit \<Rightarrow> audit computation" where
  "validate_binding deeper field audit =
    (case (is_child_wire (spec_wire field), spec_child field) of
       (True, Some child) \<Rightarrow>
         (case deeper of
            None \<Rightarrow> refuse (InvalidSchemaDescriptor ''child schema nesting exceeds the supported depth'')
          | Some validate \<Rightarrow> validate (child_source child) audit)
     | (True, None) \<Rightarrow> refuse (InvalidSchemaDescriptor ''child fields must declare an expected child binding'')
     | (False, Some _) \<Rightarrow> refuse (InvalidSchemaDescriptor ''non-child fields cannot declare a child binding'')
     | (False, None) \<Rightarrow> return_with audit)"

primrec validate_fields ::
  "(canonical_schema \<Rightarrow> audit \<Rightarrow> audit computation) option \<Rightarrow> u8 list list \<Rightarrow> field_spec list \<Rightarrow> audit
    \<Rightarrow> audit computation" where
  "validate_fields deeper previous [] audit = return_with audit"
| "validate_fields deeper previous (field # rest) audit =
     and_then checkpoint (\<lambda>_.
     if spec_name field = [] then refuse (InvalidSchemaDescriptor ''field names must be non-empty'')
     else and_then (ensuring (observe_floor FieldName (length (spec_name field)) audit)) (\<lambda>audit.
     and_then (require_unique (spec_name field) previous) (\<lambda>_.
     and_then (validate_binding deeper field audit) (\<lambda>audit.
     validate_fields deeper (previous @ [spec_name field]) rest audit))))"

text \<open>The three string terms, each behind a poll.\<close>

primrec observe_terms :: "(schema_descriptor_kind \<times> u8 list) list \<Rightarrow> audit \<Rightarrow> audit computation" where
  "observe_terms [] audit = return_with audit"
| "observe_terms (term # terms) audit =
     and_then checkpoint (\<lambda>_.
     and_then (ensuring (observe_floor (fst term) (length (snd term)) audit)) (observe_terms terms))"

definition count_fields :: "canonical_schema \<Rightarrow> canonical_limits \<Rightarrow> audit \<Rightarrow> canonical_error + audit" where
  "count_fields source lim audit =
    attempt (as_u64 (length (fields_of source))) (\<lambda>field_count.
    attempt (enforce_limit Fields field_count (max_fields lim)) (\<lambda>_.
    attempt (add_u64 (fst audit) field_count) (\<lambda>entries.
    attempt (case checked_mul u64_max (max_fields lim) (MAX_SCHEMA_CHILD_DEPTH + 1) of
               None \<Rightarrow> Inl LengthOverflow | Some v \<Rightarrow> Inr v) (\<lambda>expansion_limit.
    attempt (enforce_limit Fields entries expansion_limit) (\<lambda>_.
    Inr (entries, snd audit))))))"

definition validate_descriptor_at ::
  "(canonical_schema \<Rightarrow> audit \<Rightarrow> audit computation) option \<Rightarrow> canonical_schema \<Rightarrow> audit \<Rightarrow> audit computation" where
  "validate_descriptor_at deeper source audit =
    and_then checkpoint (\<lambda>_.
    if domain_of source = [] \<or> name_of source = [] \<or> context_of source = []
    then refuse (InvalidSchemaDescriptor ''domain, schema name, and context must be non-empty'')
    else if version_of source = 0 then refuse (InvalidSchemaDescriptor ''semantic version zero is reserved'')
    else reading (\<lambda>self.
    and_then (ensuring (count_fields source (limits self) audit)) (\<lambda>audit.
    and_then (observe_terms [(Domain, domain_of source), (Name, name_of source), (Context, context_of source)] audit)
      (validate_fields deeper [] (fields_of source)))))"

primrec validate_schema_descriptor :: "nat \<Rightarrow> canonical_schema \<Rightarrow> audit \<Rightarrow> audit computation" where
  "validate_schema_descriptor 0 = validate_descriptor_at None"
| "validate_schema_descriptor (Suc remaining_edges) =
     validate_descriptor_at (Some (validate_schema_descriptor remaining_edges))"

definition validate_schema :: "canonical_schema \<Rightarrow> unit computation" where
  "validate_schema D = reading (\<lambda>self.
     and_then (validate_schema_descriptor MAX_SCHEMA_CHILD_DEPTH D (0, Domain, 0)) (\<lambda>audit.
     ensuring (enforce_floor audit (max_field_bytes (limits self)))))"

definition compute_schema_id :: "canonical_schema \<Rightarrow> u8 list computation" where
  "compute_schema_id D =
    (case derive_key_hasher SCHEMA_ID_HASH_DOMAIN of
       None \<Rightarrow> (\<lambda>self. (Panicked, self))
     | Some hasher \<Rightarrow> and_then (auxiliary_updates (write_schema_descriptor D) hasher) (\<lambda>hasher.
         return_with (finalize hasher)))"

section \<open>The frame header\<close>

definition CANONICAL_MAGIC :: "u8 list" where "CANONICAL_MAGIC = str_bytes ''FSID'' @ [0, 0, 0, 1]"
definition FIELD_MARKER :: u8 where "FIELD_MARKER = 0xf0"
definition END_MARKER :: u8 where "END_MARKER = 0xff"
definition FLOAT_POLICY_FINITE_EXACT_BITS :: u8 where "FLOAT_POLICY_FINITE_EXACT_BITS = 1"

definition CANONICAL_IDENTITY_HASH_DOMAIN :: "u8 list" where
  "CANONICAL_IDENTITY_HASH_DOMAIN = str_bytes ''org.frankensim.fs-blake3.canonical-identity-frame.v1''"

primrec header_fields_len :: "field_spec list \<Rightarrow> nat \<Rightarrow> nat computation" where
  "header_fields_len [] len = return_with len"
| "header_fields_len (field # rest) len =
     and_then checkpoint (\<lambda>_.
     and_then (ensuring (attempt (as_u64 (length (spec_name field))) (\<lambda>n.
       attempt (checked_sum [4, 8, n, 2]) (add_u64 len))))
     (header_fields_len rest))"

definition canonical_header_len :: "canonical_schema \<Rightarrow> nat computation" where
  "canonical_header_len source =
    and_then checkpoint (\<lambda>_.
    and_then (ensuring (
      attempt (as_u64 (length CANONICAL_MAGIC)) (\<lambda>magic.
      attempt (as_u64 (length (domain_of source))) (\<lambda>domain.
      attempt (as_u64 (length (name_of source))) (\<lambda>name.
      attempt (as_u64 (length (context_of source))) (\<lambda>context.
      checked_sum [magic, 4, 2, 8, domain, 8, name, 32, 4, 8, context, 4]))))))
    (header_fields_len (fields_of source)))"

definition as_u32 :: "nat \<Rightarrow> canonical_error + nat" where
  "as_u32 value = (if value \<le> u32_max then Inr value else Inl LengthOverflow)"

definition write_header_field :: "nat \<times> field_spec \<Rightarrow> unit computation" where
  "write_header_field = (\<lambda>(ordinal, field). in_order [
     and_then (ensuring (as_u32 ordinal)) (\<lambda>ordinal. append_bytes (le_bytes 4 ordinal)),
     append_len_bytes (spec_name field),
     append_bytes [wire_tag (spec_wire field), presence_tag (spec_presence field)]])"

definition write_header :: "identity_role \<Rightarrow> canonical_schema \<Rightarrow> u8 list \<Rightarrow> unit computation" where
  "write_header r source sid = in_order ([
     append_bytes CANONICAL_MAGIC,
     append_bytes (le_bytes 4 (unat CANONICAL_FRAME_VERSION)),
     append_bytes [role_tag r, FLOAT_POLICY_FINITE_EXACT_BITS],
     append_len_bytes (domain_of source),
     append_len_bytes (name_of source),
     append_bytes sid,
     append_bytes (le_bytes 4 (unat (version_of source))),
     append_len_bytes (context_of source),
     and_then (ensuring (as_u32 (length (fields_of source)))) (\<lambda>n. append_bytes (le_bytes 4 n))]
     @ map write_header_field (enumerate 0 (fields_of source)))"

definition start_encoder :: "identity_role \<Rightarrow> canonical_schema \<Rightarrow> canonical_limits \<Rightarrow> (nat \<Rightarrow> bool) \<Rightarrow> encoder option" where
  "start_encoder r D lim probe = map_option (\<lambda>sem.
     \<lparr>semantic_hasher = sem, preimage_hasher = blake3_new, schema = D, role = r,
      schema_id = replicate 32 0, limits = lim, cancellation = probe, polls = 0,
      canonical_bytes = 0, next_field = 0, collection_items = 0\<rparr>)
     (derive_key_hasher CANONICAL_IDENTITY_HASH_DOMAIN)"

definition prepare_encoder :: "unit computation" where
  "prepare_encoder = reading (\<lambda>self. in_order [
     checkpoint,
     validate_schema (schema self),
     and_then (canonical_header_len (schema self)) (\<lambda>header_bytes.
       ensuring (enforce_limit CanonicalBytes header_bytes (max_canonical_bytes (limits self)))),
     and_then (compute_schema_id (schema self)) (\<lambda>sid self. (Ok (), self\<lparr>schema_id := sid\<rparr>)),
     reading (\<lambda>self. write_header (role self) (schema self) (schema_id self))])"

definition new_encoder :: "identity_role \<Rightarrow> canonical_schema \<Rightarrow> canonical_limits \<Rightarrow> (nat \<Rightarrow> bool)
    \<Rightarrow> (canonical_error, encoder) outcome" where
  "new_encoder r D lim probe =
    (case validate_limits lim of
       Inl e \<Rightarrow> Err e
     | Inr _ \<Rightarrow>
         (case start_encoder r D lim probe of
            None \<Rightarrow> Panicked
          | Some self \<Rightarrow>
              (case prepare_encoder self of
                 (Ok _, self) \<Rightarrow> Ok self
               | (Err e, _) \<Rightarrow> Err e
               | (Panicked, _) \<Rightarrow> Panicked)))"

end
