(* ===== verification/Identity_Fields.thy ===== *)
theory Identity_Fields
  imports Identity_Encoder
begin

text \<open>
  The field methods of the canonical encoder and its \<open>finish\<close> (\<open>crates/fs-blake3/src/identity.rs\<close>).
  Every method consumes the encoder on failure: on \<open>Err\<close> the encoder of the pair is what the
  source has dropped. An \<open>f64\<close> or \<open>i64\<close> is its 64 bits.
\<close>

section \<open>Selecting a field\<close>

record field =
  ordinal :: nat
  field_name :: "u8 list"

definition validate_field :: "field \<Rightarrow> wire_type \<Rightarrow> presence \<Rightarrow> encoder \<Rightarrow> canonical_error + field_spec" where
  "validate_field f wire pres self =
    (if ordinal f \<noteq> next_field self then Inl (FieldOrder (next_field self) (ordinal f))
     else if \<not> ordinal f < length (fields_of (schema self)) then Inl (FieldOrder (next_field self) (ordinal f))
     else
       (let expected = fields_of (schema self) ! ordinal f
        in if spec_name expected \<noteq> field_name f then Inl FieldNameMismatch
           else if spec_wire expected \<noteq> wire then Inl WireTypeMismatch
           else if spec_presence expected \<noteq> pres then Inl PresenceMismatch
           else Inr expected))"

definition validating :: "field \<Rightarrow> wire_type \<Rightarrow> presence \<Rightarrow> (field_spec \<Rightarrow> 'a computation) \<Rightarrow> 'a computation" where
  "validating f wire pres k = reading (\<lambda>self. and_then (ensuring (validate_field f wire pres self)) k)"

definition field_prefix_len :: "field_spec \<Rightarrow> canonical_error + nat" where
  "field_prefix_len spec = attempt (as_u64 (length (spec_name spec))) (\<lambda>n. checked_sum [1, 4, 8, n, 2])"

definition ensure_additional :: "nat \<Rightarrow> unit computation" where
  "ensure_additional additional = reading (\<lambda>self.
     ensuring (attempt (add_u64 (canonical_bytes self) additional) (\<lambda>requested.
       enforce_limit CanonicalBytes requested (max_canonical_bytes (limits self)))))"

definition ensure_field_bytes :: "nat \<Rightarrow> unit computation" where
  "ensure_field_bytes requested = reading (\<lambda>self.
     ensuring (enforce_limit FieldBytes requested (max_field_bytes (limits self))))"

text \<open>\<open>ensure_additional(checked_add(field_prefix_len(spec)?, payload?)?)\<close>\<close>

definition ensure_framed :: "field_spec \<Rightarrow> canonical_error + nat \<Rightarrow> unit computation" where
  "ensure_framed spec payload =
     and_then (ensuring (attempt (field_prefix_len spec) (\<lambda>prefix. attempt payload (add_u64 prefix))))
       ensure_additional"

definition begin_field :: "field \<Rightarrow> wire_type \<Rightarrow> presence \<Rightarrow> unit computation" where
  "begin_field f wire pres = validating f wire pres (\<lambda>spec. in_order [
     append_bytes [FIELD_MARKER],
     append_bytes (le_bytes 4 (ordinal f)),
     append_len_bytes (spec_name spec),
     append_bytes [wire_tag wire, presence_tag pres]])"

definition complete_field :: "unit computation" where
  "complete_field self =
    (case checked_add u32_max (next_field self) 1 of
       None \<Rightarrow> (Err LengthOverflow, self)
     | Some n \<Rightarrow> (Ok (), self\<lparr>next_field := n\<rparr>))"

definition add_collection_items :: "nat \<Rightarrow> unit computation" where
  "add_collection_items added self =
    (case add_u64 (collection_items self) added of
       Inl e \<Rightarrow> (Err e, self)
     | Inr n \<Rightarrow> (Ok (), self\<lparr>collection_items := n\<rparr>))"

section \<open>Scalar fields\<close>

definition encode_utf8 :: "field \<Rightarrow> u8 list \<Rightarrow> unit computation" where
  "encode_utf8 f value = validating f Utf8 Required (\<lambda>spec.
     and_then (ensuring (as_u64 (length value))) (\<lambda>len. in_order [
       ensure_field_bytes len,
       ensure_framed spec (add_u64 8 len),
       begin_field f Utf8 Required,
       append_len_bytes value,
       complete_field]))"

definition fixed_field :: "field \<Rightarrow> wire_type \<Rightarrow> u8 list \<Rightarrow> unit computation" where
  "fixed_field f wire bytes = validating f wire Required (\<lambda>spec.
     and_then (ensuring (as_u64 (length bytes))) (\<lambda>len. in_order [
       ensure_field_bytes len,
       ensure_framed spec (Inr len),
       begin_field f wire Required,
       append_bytes bytes,
       complete_field]))"

definition encode_u64 :: "field \<Rightarrow> u64 \<Rightarrow> unit computation" where
  "encode_u64 f value = fixed_field f U64 (le_bytes 8 (unat value))"

definition encode_i64 :: "field \<Rightarrow> u64 \<Rightarrow> unit computation" where
  "encode_i64 f value = fixed_field f I64 (le_bytes 8 (unat value))"

definition encode_flag :: "field \<Rightarrow> bool \<Rightarrow> unit computation" where
  "encode_flag f value = fixed_field f Bool [if value then 1 else 0]"

text \<open>\<open>f64::is_finite\<close>: the exponent bits are not all ones.\<close>

definition is_finite_bits :: "u64 \<Rightarrow> bool" where
  "is_finite_bits bits \<longleftrightarrow> bits AND 0x7ff0000000000000 \<noteq> 0x7ff0000000000000"

definition encode_finite_f64 :: "field \<Rightarrow> u64 \<Rightarrow> unit computation" where
  "encode_finite_f64 f bits =
    (if \<not> is_finite_bits bits then refuse (NonFiniteFloat bits)
     else fixed_field f FiniteF64 (le_bytes 8 (unat bits)))"

section \<open>Byte fields\<close>

text \<open>The loop over the chunks of \<open>bytes_stream\<close>; it returns the bytes observed.\<close>

primrec stream_chunks_in :: "nat \<Rightarrow> nat \<Rightarrow> nat \<Rightarrow> u8 list list \<Rightarrow> nat computation" where
  "stream_chunks_in declared_len observed chunk_count [] = return_with observed"
| "stream_chunks_in declared_len observed chunk_count (chunk # chunks) = and_then checkpoint (\<lambda>_. reading (\<lambda>self.
     and_then (ensuring (add_u64 chunk_count 1)) (\<lambda>chunk_count.
     and_then (ensuring (enforce_limit StreamChunks chunk_count (max_collection_items (limits self)))) (\<lambda>_.
     and_then (ensuring (attempt (as_u64 (length chunk)) (add_u64 observed))) (\<lambda>observed.
     if declared_len < observed then refuse (DeclaredLengthMismatch declared_len observed)
     else and_then (append_bytes chunk) (\<lambda>_. stream_chunks_in declared_len observed chunk_count chunks))))))"

definition require_declared :: "nat \<Rightarrow> nat \<Rightarrow> unit computation" where
  "require_declared declared observed =
    (if observed \<noteq> declared then refuse (DeclaredLengthMismatch declared observed) else return_with ())"

definition encode_bytes_stream :: "field \<Rightarrow> nat \<Rightarrow> u8 list list \<Rightarrow> unit computation" where
  "encode_bytes_stream f declared_len chunks = validating f Bytes Required (\<lambda>spec. in_order [
     ensure_field_bytes declared_len,
     ensure_framed spec (add_u64 8 declared_len),
     begin_field f Bytes Required,
     append_bytes (le_bytes 8 declared_len),
     and_then (stream_chunks_in declared_len 0 0 chunks) (require_declared declared_len),
     complete_field])"

definition encode_bytes :: "field \<Rightarrow> u8 list \<Rightarrow> unit computation" where
  "encode_bytes f value =
    (if value = [] then encode_bytes_stream f 0 []
     else and_then (ensuring (as_u64 (length value))) (\<lambda>len. encode_bytes_stream f len [value]))"

definition encode_optional_bytes :: "field \<Rightarrow> u8 list option \<Rightarrow> unit computation" where
  "encode_optional_bytes f value = validating f Bytes Optional (\<lambda>spec.
     and_then (ensuring (as_u64 (case value of None \<Rightarrow> 0 | Some bytes \<Rightarrow> length bytes))) (\<lambda>value_len. in_order [
       ensure_field_bytes value_len,
       ensure_framed spec (if value \<noteq> None then checked_sum [1, 8, value_len] else Inr 1),
       begin_field f Bytes Optional,
       (case value of
          None \<Rightarrow> append_bytes [0]
        | Some bytes \<Rightarrow> in_order [append_bytes [1], append_len_bytes bytes]),
       complete_field]))"

definition encode_variant :: "field \<Rightarrow> u32 \<Rightarrow> u8 list \<Rightarrow> unit computation" where
  "encode_variant f variant payload = validating f Variant Required (\<lambda>spec.
     and_then (ensuring (as_u64 (length payload))) (\<lambda>payload_len. in_order [
       ensure_field_bytes payload_len,
       ensure_framed spec (checked_sum [4, 8, payload_len]),
       begin_field f Variant Required,
       append_bytes (le_bytes 4 (unat variant)),
       append_len_bytes payload,
       complete_field]))"

section \<open>Collections\<close>

definition begin_collection :: "field \<Rightarrow> wire_type \<Rightarrow> nat \<Rightarrow> nat computation" where
  "begin_collection f wire declared_count = validating f wire Required (\<lambda>spec. reading (\<lambda>self.
     and_then (in_order [
       ensuring (enforce_limit CollectionItems declared_count (max_collection_items (limits self))),
       ensure_field_bytes 8,
       ensure_framed spec (Inr 8),
       begin_field f wire Required,
       append_bytes (le_bytes 8 declared_count)])
     (\<lambda>_. return_with 8)))"

definition begin_ordered_bytes :: "field \<Rightarrow> nat \<Rightarrow> nat computation" where
  "begin_ordered_bytes f declared_count = begin_collection f OrderedBytes declared_count"

definition begin_ordered_row :: "nat \<Rightarrow> nat \<Rightarrow> nat computation" where
  "begin_ordered_row field_payload declared_len =
     and_then (ensure_field_bytes declared_len) (\<lambda>_.
     and_then (ensuring (add_u64 8 declared_len)) (\<lambda>framed_len.
     and_then (ensuring (add_u64 field_payload framed_len)) (\<lambda>next_field_payload.
     and_then (in_order [
       ensure_field_bytes next_field_payload,
       ensure_additional framed_len,
       append_bytes (le_bytes 8 declared_len)])
     (\<lambda>_. return_with next_field_payload))))"

definition finish_ordered_bytes :: "nat \<Rightarrow> unit computation" where
  "finish_ordered_bytes observed = in_order [add_collection_items observed, complete_field]"

definition count_item :: "nat \<Rightarrow> nat \<Rightarrow> (nat \<Rightarrow> 'a computation) \<Rightarrow> 'a computation" where
  "count_item declared_count observed k =
     and_then (ensuring (add_u64 observed 1)) (\<lambda>observed.
       if declared_count < observed then refuse (DeclaredLengthMismatch declared_count observed) else k observed)"

primrec ordered_rows :: "nat \<Rightarrow> nat \<Rightarrow> nat \<Rightarrow> u8 list list \<Rightarrow> nat computation" where
  "ordered_rows declared_count observed field_payload [] = return_with observed"
| "ordered_rows declared_count observed field_payload (value # values) =
     count_item declared_count observed (\<lambda>observed.
     and_then (ensuring (as_u64 (length value))) (\<lambda>value_len.
     and_then (begin_ordered_row field_payload value_len) (\<lambda>field_payload.
     and_then (append_bytes value) (\<lambda>_.
     ordered_rows declared_count observed field_payload values))))"

definition encode_ordered_bytes :: "field \<Rightarrow> nat \<Rightarrow> u8 list list \<Rightarrow> unit computation" where
  "encode_ordered_bytes f declared_count values =
     and_then (begin_ordered_bytes f declared_count) (\<lambda>field_payload.
     and_then (ordered_rows declared_count 0 field_payload values) (\<lambda>observed. in_order [
       require_declared declared_count observed,
       finish_ordered_bytes observed]))"

definition require_increasing :: "u8 list option \<Rightarrow> u8 list \<Rightarrow> nat \<Rightarrow> unit computation" where
  "require_increasing previous value index =
    (case previous of
       None \<Rightarrow> return_with ()
     | Some before \<Rightarrow> and_then (compare_canonical_slices before value) (\<lambda>ordering.
         case ordering of
           Equal \<Rightarrow> refuse (DuplicateSetItem index)
         | Greater \<Rightarrow> refuse (NonCanonicalSetOrder index)
         | Less \<Rightarrow> return_with ()))"

primrec set_items :: "nat \<Rightarrow> nat \<Rightarrow> nat \<Rightarrow> u8 list option \<Rightarrow> u8 list list \<Rightarrow> nat computation" where
  "set_items declared_count observed field_payload previous [] = return_with observed"
| "set_items declared_count observed field_payload previous (value # values) =
     count_item declared_count observed (\<lambda>observed.
     and_then (ensuring (as_u64 (length value))) (\<lambda>value_len.
     and_then (ensure_field_bytes value_len) (\<lambda>_.
     and_then (ensuring (attempt (add_u64 8 value_len) (add_u64 field_payload))) (\<lambda>next_field_payload.
     and_then (in_order [
       ensure_field_bytes next_field_payload,
       and_then (ensuring (add_u64 8 value_len)) ensure_additional,
       require_increasing previous value (observed - 1),
       append_len_bytes value])
     (\<lambda>_. set_items declared_count observed next_field_payload (Some value) values)))))"

definition encode_canonical_set :: "field \<Rightarrow> nat \<Rightarrow> u8 list list \<Rightarrow> unit computation" where
  "encode_canonical_set f declared_count values =
     and_then (begin_collection f CanonicalSet declared_count) (\<lambda>field_payload.
     and_then (set_items declared_count 0 field_payload None values) (\<lambda>observed. in_order [
       require_declared declared_count observed,
       add_collection_items observed,
       complete_field]))"

section \<open>Child identities\<close>

text \<open>\<open>same_place\<close> is the address comparison of the binding check.\<close>

definition validate_child_binding ::
  "(field_spec list \<Rightarrow> field_spec list \<Rightarrow> bool) \<Rightarrow> field_spec \<Rightarrow> identity_role \<Rightarrow> canonical_schema \<Rightarrow> canonical_error + unit" where
  "validate_child_binding same_place spec r D =
    (case spec_child spec of
       None \<Rightarrow> Inl (ChildBindingMissing (spec_name spec))
     | Some expected \<Rightarrow>
         (case child_matches same_place expected r D of
            Inl what \<Rightarrow> Inl (ChildBindingMismatch (spec_name spec) what)
          | Inr _ \<Rightarrow> Inr ()))"

definition typed_child_descriptor_len :: "canonical_schema \<Rightarrow> canonical_error + nat" where
  "typed_child_descriptor_len D =
     attempt (as_u64 (length (domain_of D))) (\<lambda>domain.
     attempt (as_u64 (length (name_of D))) (\<lambda>name.
     attempt (as_u64 (length (context_of D))) (\<lambda>context.
     checked_sum [1, 8, domain, 8, name, 32, 4, 8, context])))"

definition typed_child_len :: "canonical_schema \<Rightarrow> canonical_error + nat" where
  "typed_child_len D = attempt (typed_child_descriptor_len D) (\<lambda>n. add_u64 n 32)"

definition append_typed_child_descriptor :: "identity_role \<Rightarrow> canonical_schema \<Rightarrow> u8 list \<Rightarrow> unit computation" where
  "append_typed_child_descriptor r D child_schema_id = in_order [
     append_bytes [role_tag r],
     append_len_bytes (domain_of D),
     append_len_bytes (name_of D),
     append_bytes child_schema_id,
     append_bytes (le_bytes 4 (unat (version_of D))),
     append_len_bytes (context_of D)]"

definition append_typed_child :: "strong_identity \<Rightarrow> u8 list \<Rightarrow> unit computation" where
  "append_typed_child child child_schema_id = in_order [
     append_typed_child_descriptor (id_role child) (id_schema child) child_schema_id,
     append_bytes (id_digest child)]"

definition encode_child ::
  "(field_spec list \<Rightarrow> field_spec list \<Rightarrow> bool) \<Rightarrow> field \<Rightarrow> strong_identity \<Rightarrow> unit computation" where
  "encode_child same_place f child = validating f Child Required (\<lambda>spec.
     and_then (validate_schema (id_schema child)) (\<lambda>_.
     and_then (ensuring (validate_child_binding same_place spec (id_role child) (id_schema child))) (\<lambda>_.
     and_then (compute_schema_id (id_schema child)) (\<lambda>child_schema_id.
     and_then (ensuring (typed_child_len (id_schema child))) (\<lambda>child_len. in_order [
       ensure_field_bytes child_len,
       ensure_framed spec (Inr child_len),
       begin_field f Child Required,
       append_typed_child child child_schema_id,
       complete_field])))))"

primrec child_digests :: "nat \<Rightarrow> nat \<Rightarrow> u8 list list \<Rightarrow> nat computation" where
  "child_digests declared_count observed [] = return_with observed"
| "child_digests declared_count observed (child # children) =
     count_item declared_count observed (\<lambda>observed.
     and_then (append_bytes child) (\<lambda>_. child_digests declared_count observed children))"

text \<open>The children have one static role and schema; \<open>children\<close> are their digests.\<close>

definition encode_ordered_children ::
  "(field_spec list \<Rightarrow> field_spec list \<Rightarrow> bool) \<Rightarrow> field \<Rightarrow> nat \<Rightarrow> identity_role \<Rightarrow> canonical_schema \<Rightarrow> u8 list list
    \<Rightarrow> unit computation" where
  "encode_ordered_children same_place f declared_count r D children =
   validating f OrderedChildren Required (\<lambda>spec. reading (\<lambda>self.
     and_then (ensuring (enforce_limit CollectionItems declared_count (max_collection_items (limits self)))) (\<lambda>_.
     and_then (validate_schema D) (\<lambda>_.
     and_then (ensuring (validate_child_binding same_place spec r D)) (\<lambda>_.
     and_then (compute_schema_id D) (\<lambda>child_schema_id.
     and_then (ensuring (attempt (typed_child_descriptor_len D) (\<lambda>descriptor_len.
         attempt (case checked_mul u64_max declared_count 32 of None \<Rightarrow> Inl LengthOverflow | Some v \<Rightarrow> Inr v)
           (\<lambda>digests. checked_sum [8, descriptor_len, digests])))) (\<lambda>payload_len.
     and_then (in_order [
       ensure_field_bytes payload_len,
       ensure_framed spec (Inr payload_len),
       begin_field f OrderedChildren Required,
       append_bytes (le_bytes 8 declared_count),
       append_typed_child_descriptor r D child_schema_id]) (\<lambda>_.
     and_then (child_digests declared_count 0 children) (\<lambda>observed. in_order [
       require_declared declared_count observed,
       add_collection_items observed,
       complete_field])))))))))"

section \<open>Publishing\<close>

record identity_receipt =
  receipt_id :: strong_identity
  receipt_canonical_preimage :: "u8 list"
  receipt_schema_id :: "u8 list"
  receipt_canonical_bytes :: nat
  receipt_field_count :: nat
  receipt_collection_items :: nat
  receipt_limits :: canonical_limits

definition publish :: "encoder \<Rightarrow> identity_receipt" where
  "publish self = \<lparr>
     receipt_id = \<lparr>id_role = role self, id_schema = schema self, id_digest = finalize (semantic_hasher self)\<rparr>,
     receipt_canonical_preimage = finalize (preimage_hasher self),
     receipt_schema_id = schema_id self,
     receipt_canonical_bytes = canonical_bytes self,
     receipt_field_count = next_field self,
     receipt_collection_items = collection_items self,
     receipt_limits = limits self\<rparr>"

definition finish :: "identity_receipt computation" where
  "finish = reading (\<lambda>self.
     and_then (ensuring (as_u32 (length (fields_of (schema self))))) (\<lambda>expected.
     if next_field self \<noteq> expected then refuse (MissingFields expected (next_field self))
     else and_then (in_order [
       and_then (ensuring (checked_sum [1, 4])) ensure_additional,
       append_bytes [END_MARKER],
       append_bytes (le_bytes 4 (next_field self)),
       checkpoint])
     (\<lambda>_. reading (\<lambda>self. return_with (publish self)))))"

end
