(* ===== verification/Identity_Stream.thy ===== *)
theory Identity_Stream
  imports Identity_Fields
begin

text \<open>
  Fallible ordered-row streaming (\<open>ordered_bytes_stream\<close> and \<open>CanonicalRowSink\<close> in
  \<open>crates/fs-blake3/src/identity.rs\<close>). The caller's row producer is the interaction it has with
  the sink: it returns, or writes a chunk and continues with what the write reported.
\<close>

section \<open>Diagnostics\<close>

datatype stream_phase = FieldAdmission | RowBoundary | RowDeclaration | RowAdmission | RowChunk
  | RowProducer | RowCompletion | CollectionCompletion

datatype stream_disposition = EncoderConsumedNoPublication

record stream_diagnostic =
  diag_schema_domain :: "u8 list"
  diag_schema_name :: "u8 list"
  diag_field_ordinal :: nat
  diag_field_name :: "u8 list"
  diag_phase :: stream_phase
  diag_row_index :: "nat option"
  diag_declared_rows :: nat
  diag_completed_rows :: nat
  diag_declared_row_bytes :: "nat option"
  diag_written_row_bytes :: nat
  diag_canonical_bytes :: nat
  diag_prior_collection_items :: nat
  diag_stream_chunks :: nat
  diag_disposition :: stream_disposition

datatype 'e stream_error = CanonicalRefusal canonical_error stream_diagnostic
  | ProducerRefusal 'e stream_diagnostic

record stream_progress =
  phase :: stream_phase
  row_index :: "nat option"
  declared_rows :: nat
  completed_rows :: nat
  declared_row_bytes :: "nat option"
  written_row_bytes :: nat
  prior_collection_items :: nat
  progress_chunks :: nat

definition stream_diagnostic_of :: "field \<Rightarrow> stream_progress \<Rightarrow> encoder \<Rightarrow> stream_diagnostic" where
  "stream_diagnostic_of f progress self = \<lparr>
     diag_schema_domain = domain_of (schema self), diag_schema_name = name_of (schema self),
     diag_field_ordinal = ordinal f, diag_field_name = field_name f,
     diag_phase = phase progress, diag_row_index = row_index progress,
     diag_declared_rows = declared_rows progress, diag_completed_rows = completed_rows progress,
     diag_declared_row_bytes = declared_row_bytes progress,
     diag_written_row_bytes = written_row_bytes progress,
     diag_canonical_bytes = canonical_bytes self,
     diag_prior_collection_items = prior_collection_items progress,
     diag_stream_chunks = progress_chunks progress,
     diag_disposition = EncoderConsumedNoPublication\<rparr>"

definition stream_canonical :: "field \<Rightarrow> stream_progress \<Rightarrow> canonical_error \<Rightarrow> encoder \<Rightarrow> 'e stream_error" where
  "stream_canonical f progress source self = CanonicalRefusal source (stream_diagnostic_of f progress self)"

definition stream_producer :: "field \<Rightarrow> stream_progress \<Rightarrow> 'e \<Rightarrow> encoder \<Rightarrow> 'e stream_error" where
  "stream_producer f progress source self = ProducerRefusal source (stream_diagnostic_of f progress self)"

section \<open>The row sink\<close>

record row_sink =
  declared_bytes :: nat
  written_bytes :: nat
  stream_chunks :: nat
  poisoned :: "canonical_error option"

definition remaining_bytes :: "row_sink \<Rightarrow> nat option" where
  "remaining_bytes sink = checked_sub (declared_bytes sink) (written_bytes sink)"

text \<open>\<open>*self.poisoned = Some(source); return Err(source)\<close>\<close>

definition poison :: "canonical_error \<Rightarrow> row_sink \<Rightarrow> encoder \<Rightarrow> (canonical_error, unit) outcome \<times> row_sink \<times> encoder" where
  "poison source sink self = (Err source, sink\<lparr>poisoned := Some source\<rparr>, self)"

definition sink_absorb :: "u8 list \<Rightarrow> row_sink \<Rightarrow> encoder \<Rightarrow> (canonical_error, unit) outcome \<times> row_sink \<times> encoder" where
  "sink_absorb chunk sink self =
    (case append_bytes chunk self of
       (Panicked, after_append) \<Rightarrow> (Panicked, sink, after_append)
     | (result, after_append) \<Rightarrow>
         (case checked_sub (canonical_bytes after_append) (canonical_bytes self) of
            None \<Rightarrow> (Panicked, sink, after_append)
          | Some absorbed \<Rightarrow>
              (case add_u64 (written_bytes sink) absorbed of
                 Inl source \<Rightarrow> poison source sink after_append
               | Inr written \<Rightarrow>
                   (let sink = sink\<lparr>written_bytes := written\<rparr>
                    in case result of
                         Err source \<Rightarrow> poison source sink after_append
                       | _ \<Rightarrow> (Ok (), sink, after_append)))))"

definition sink_write :: "u8 list \<Rightarrow> row_sink \<Rightarrow> encoder \<Rightarrow> (canonical_error, unit) outcome \<times> row_sink \<times> encoder" where
  "sink_write chunk sink self =
    (case poisoned sink of
       Some source \<Rightarrow> (Err source, sink, self)
     | None \<Rightarrow>
         (case checkpoint self of
            (Panicked, self) \<Rightarrow> (Panicked, sink, self)
          | (Err source, self) \<Rightarrow> poison source sink self
          | (Ok _, self) \<Rightarrow>
              (case add_u64 (stream_chunks sink) 1 of
                 Inl source \<Rightarrow> poison source sink self
               | Inr next_chunks \<Rightarrow>
                   (let sink = sink\<lparr>stream_chunks := next_chunks\<rparr>
                    in case enforce_limit StreamChunks next_chunks (max_collection_items (limits self)) of
                         Inl source \<Rightarrow> poison source sink self
                       | Inr _ \<Rightarrow>
                           (case attempt (as_u64 (length chunk)) (add_u64 (written_bytes sink)) of
                              Inl source \<Rightarrow> poison source sink self
                            | Inr next_written \<Rightarrow>
                                if declared_bytes sink < next_written
                                then poison (DeclaredLengthMismatch (declared_bytes sink) next_written) sink self
                                else sink_absorb chunk sink self)))))"

section \<open>The producer\<close>

text \<open>After a write the producer sees its result and the bytes written so far.\<close>

datatype 'e row_program = Return "'e + unit"
  | Write "u8 list" "canonical_error + unit \<Rightarrow> nat \<Rightarrow> 'e row_program"

primrec run_row :: "'e row_program \<Rightarrow> row_sink \<Rightarrow> encoder \<Rightarrow> ('e, unit) outcome \<times> row_sink \<times> encoder" where
  "run_row (Return r) = (\<lambda>sink self.
     (case r of Inl e \<Rightarrow> Err e | Inr _ \<Rightarrow> Ok (), sink, self))"
| "run_row (Write chunk continue) = (\<lambda>sink self.
     case sink_write chunk sink self of
       (Panicked, sink, self) \<Rightarrow> (Panicked, sink, self)
     | (Ok _, sink, self) \<Rightarrow> run_row (continue (Inr ()) (written_bytes sink)) sink self
     | (Err e, sink, self) \<Rightarrow> run_row (continue (Inl e) (written_bytes sink)) sink self)"

section \<open>The stream\<close>

type_synonym ('e, 'a) stream_outcome = "('e stream_error, 'a) outcome \<times> encoder"

text \<open>Run a canonical step; its failure is reported with the given progress.\<close>

definition canonically ::
  "field \<Rightarrow> stream_progress \<Rightarrow> 'a computation \<Rightarrow> ('a \<Rightarrow> encoder \<Rightarrow> ('e, 'b) stream_outcome) \<Rightarrow> encoder
    \<Rightarrow> ('e, 'b) stream_outcome" where
  "canonically f progress c k self =
    (case c self of
       (Ok x, self) \<Rightarrow> k x self
     | (Err source, self) \<Rightarrow> (Err (stream_canonical f progress source self), self)
     | (Panicked, self) \<Rightarrow> (Panicked, self))"

text \<open>What follows the declaration of a row: admission, production, completion.\<close>

definition stream_row ::
  "field \<Rightarrow> 'e row_program \<Rightarrow> nat \<Rightarrow> stream_progress \<Rightarrow> nat \<Rightarrow> nat
    \<Rightarrow> (stream_progress \<Rightarrow> nat \<Rightarrow> nat \<Rightarrow> encoder \<Rightarrow> ('e, 'b) stream_outcome) \<Rightarrow> encoder \<Rightarrow> ('e, 'b) stream_outcome" where
  "stream_row f program declared_len progress field_payload chunks k self =
    (let progress = progress\<lparr>declared_row_bytes := Some declared_len, phase := RowAdmission\<rparr>
     in canonically f progress (begin_ordered_row field_payload declared_len) (\<lambda>field_payload self.
       (case run_row program \<lparr>declared_bytes = declared_len, written_bytes = 0, stream_chunks = chunks,
              poisoned = None\<rparr> self of
          (produced, sink, self) \<Rightarrow>
            (let progress = progress\<lparr>written_row_bytes := written_bytes sink, progress_chunks := stream_chunks sink\<rparr>
             in case (produced, poisoned sink) of
                  (Panicked, _) \<Rightarrow> (Panicked, self)
                | (_, Some source) \<Rightarrow> (Err (stream_canonical f (progress\<lparr>phase := RowChunk\<rparr>) source self), self)
                | (Err source, None) \<Rightarrow> (Err (stream_producer f (progress\<lparr>phase := RowProducer\<rparr>) source self), self)
                | (Ok _, None) \<Rightarrow>
                    (let progress = progress\<lparr>phase := RowCompletion\<rparr>
                     in if written_bytes sink \<noteq> declared_len
                        then (Err (stream_canonical f progress
                               (DeclaredLengthMismatch declared_len (written_bytes sink)) self), self)
                        else canonically f progress checkpoint (\<lambda>_.
                             canonically f progress (ensuring (add_u64 (completed_rows progress) 1)) (\<lambda>completed.
                             k (progress\<lparr>completed_rows := completed\<rparr>) field_payload (stream_chunks sink)))
                             self)))) self)"

text \<open>\<open>rows\<close> rows remain, from index \<open>row\<close> on; \<open>k\<close> receives the length source left over.\<close>

primrec stream_rows ::
  "field \<Rightarrow> (nat \<Rightarrow> nat \<Rightarrow> 'e row_program)
    \<Rightarrow> (('e + nat) list \<Rightarrow> stream_progress \<Rightarrow> nat \<Rightarrow> encoder \<Rightarrow> ('e, unit) stream_outcome)
    \<Rightarrow> nat \<Rightarrow> nat \<Rightarrow> ('e + nat) list \<Rightarrow> stream_progress \<Rightarrow> nat \<Rightarrow> nat
    \<Rightarrow> encoder \<Rightarrow> ('e, unit) stream_outcome" where
  "stream_rows f produce k 0 row lengths progress field_payload chunks self = k lengths progress chunks self"
| "stream_rows f produce k (Suc rows) row lengths progress field_payload chunks self =
    (let progress = progress\<lparr>phase := RowBoundary, row_index := Some row, declared_row_bytes := None,
           written_row_bytes := 0, progress_chunks := chunks\<rparr>
     in canonically f progress checkpoint (\<lambda>_ self.
       (let progress = progress\<lparr>phase := RowDeclaration\<rparr>
        in case lengths of
             [] \<Rightarrow> (Err (stream_canonical f progress
                     (DeclaredLengthMismatch (declared_rows progress) (completed_rows progress)) self), self)
           | Inl source # _ \<Rightarrow> (Err (stream_producer f progress source self), self)
           | Inr declared_len # lengths \<Rightarrow>
               stream_row f (produce row declared_len) declared_len progress field_payload chunks
                 (stream_rows f produce k rows (row + 1) lengths) self)) self)"

definition stream_end ::
  "field \<Rightarrow> nat \<Rightarrow> ('e + nat) list \<Rightarrow> stream_progress \<Rightarrow> nat \<Rightarrow> encoder \<Rightarrow> ('e, unit) stream_outcome" where
  "stream_end f declared_count lengths progress chunks self =
    (let progress = progress\<lparr>phase := CollectionCompletion, row_index := None, declared_row_bytes := None,
           written_row_bytes := 0, progress_chunks := chunks\<rparr>
     in canonically f progress checkpoint (\<lambda>_ self.
       (case lengths of
          [] \<Rightarrow> canonically f progress checkpoint (\<lambda>_.
                canonically f progress (finish_ordered_bytes (completed_rows progress)) (\<lambda>_ self. (Ok (), self))) self
        | Inl source # _ \<Rightarrow>
            (Err (stream_producer f (progress\<lparr>phase := RowDeclaration, row_index := Some declared_count\<rparr>) source self), self)
        | Inr extra_len # _ \<Rightarrow>
            (let progress = progress\<lparr>row_index := Some declared_count, declared_row_bytes := Some extra_len\<rparr>
             in case add_u64 declared_count 1 of
                  Inl source \<Rightarrow> (Err (stream_canonical f progress source self), self)
                | Inr observed \<Rightarrow>
                    (Err (stream_canonical f progress (DeclaredLengthMismatch declared_count observed) self), self)))) self)"

definition encode_ordered_bytes_stream ::
  "field \<Rightarrow> nat \<Rightarrow> ('e + nat) list \<Rightarrow> (nat \<Rightarrow> nat \<Rightarrow> 'e row_program) \<Rightarrow> encoder \<Rightarrow> ('e, unit) stream_outcome" where
  "encode_ordered_bytes_stream f declared_count row_lengths produce_row self =
    (let progress = \<lparr>phase = FieldAdmission, row_index = None, declared_rows = declared_count,
           completed_rows = 0, declared_row_bytes = None, written_row_bytes = 0,
           prior_collection_items = collection_items self, progress_chunks = 0\<rparr>
     in canonically f progress (begin_ordered_bytes f declared_count) (\<lambda>field_payload.
          stream_rows f produce_row (stream_end f declared_count) declared_count 0 row_lengths progress field_payload 0)
        self)"

end
