(* ===== verification/Identity_Binding.thy ===== *)
theory Identity_Binding
  imports Identity_Schema
begin

text \<open>
  What the schema layer of the strong identities guarantees: the binding check is equality of the complete
  descriptors up to the depth cap, and up to that cap the descriptor hashed into a schema id determines the schema.
\<close>

section \<open>Tags are distinct\<close>

lemma presence_tag_inj [simp]: "presence_tag p = presence_tag q \<longleftrightarrow> p = q"
  by (cases p; cases q) simp_all

lemma wire_tag_inj [simp]: "wire_tag v = wire_tag w \<longleftrightarrow> v = w"
  by (cases v; cases w) simp_all

lemma role_tag_inj [simp]: "role_tag r = role_tag s \<longleftrightarrow> r = s"
  by (cases r; cases s) simp_all

section \<open>The binding check\<close>

lemma fields_match_at_sound:
  assumes "\<And>a b. same_place a b \<Longrightarrow> a = b"
    and "\<And>deep a b. deeper = Some deep \<Longrightarrow> deep a b \<Longrightarrow> a = b"
    and "fields_match_at same_place deeper a b"
  shows "a = b"
proof (cases "same_place a b")
  case False
  have one: "left = right" if "field_matches deeper left right" for left right
    using that assms(2) unfolding field_matches_def
    by (cases left; cases right) (auto split: option.splits intro!: child_spec.expand)
  have "list_all2 (field_matches deeper) a b"
    using assms(3) False by (simp add: fields_match_at_def list_all2_iff list_all_iff split: if_splits)
  then show ?thesis by (simp add: list_all2_conv_all_nth list_eq_iff_nth_eq one)
qed (simp add: assms(1))

lemma fields_schema_match_sound:
  assumes "\<And>a b. same_place a b \<Longrightarrow> a = b"
  shows "fields_schema_match same_place n a b \<Longrightarrow> a = b"
proof (induction n arbitrary: a b)
  case 0
  then show ?case using fields_match_at_sound [of same_place None a b] assms by simp
next
  case (Suc n)
  then show ?case using fields_match_at_sound [of same_place "Some (fields_schema_match same_place n)" a b] assms
    by simp
qed

lemma fields_schema_match_refl:
  "promotion_charter_schema_depth_is_admissible n a \<Longrightarrow> fields_schema_match same_place n a a"
proof (induction n arbitrary: a)
  case 0
  then show ?case by (auto simp: fields_match_at_def field_matches_def list_all_iff set_zip)
next
  case (Suc n)
  then have "field_matches (Some (fields_schema_match same_place n)) f f" if "f \<in> set a" for f
    using that by (fastforce simp: field_matches_def list_all_iff split: option.splits)
  then show ?case by (auto simp: fields_match_at_def list_all_iff set_zip)
qed

lemma child_matches_bound:
  assumes "\<And>a b. same_place a b \<Longrightarrow> a = b" "child_matches same_place self role D = Inr ()"
  shows "self = child_for_identity role D"
  using fields_schema_match_sound [of same_place MAX_SCHEMA_CHILD_DEPTH "child_fields self" "fields_of D"] assms
  by (cases self) (auto simp: child_matches_def child_for_identity_def split: if_splits)

text \<open>A child identity is accepted by a binding whose nesting is within the depth cap exactly when the
  binding is the one declared for that identity's role and complete schema; beyond the cap
  acceptance still implies it, whatever the address comparison finds.\<close>

theorem child_binding_exact:
  assumes "\<And>a b. same_place a b \<Longrightarrow> a = b"
  shows "(child_matches same_place self role D = Inr () \<longrightarrow> self = child_for_identity role D)
    \<and> (promotion_charter_schema_depth_is_admissible MAX_SCHEMA_CHILD_DEPTH (fields_of D) \<longrightarrow>
        child_matches same_place (child_for_identity role D) role D = Inr ())"
proof (intro conjI impI)
  assume "child_matches same_place self role D = Inr ()"
  then show "self = child_for_identity role D"
    by (rule child_matches_bound [where same_place = same_place, rotated]) (rule assms)
next
  assume "promotion_charter_schema_depth_is_admissible MAX_SCHEMA_CHILD_DEPTH (fields_of D)"
  then show "child_matches same_place (child_for_identity role D) role D = Inr ()"
    by (simp add: child_matches_def child_for_identity_def fields_schema_match_refl)
qed

definition demo_schema :: canonical_schema where
  "demo_schema = \<lparr>domain_of = str_bytes ''org.example.demo.v1'', name_of = str_bytes ''demo'', version_of = 1,
     context_of = str_bytes ''example'', fields_of = [FieldSpec (str_bytes ''name'') Utf8 Required None]\<rparr>"

theorem child_binding_exact_witness:
  "child_matches (\<lambda>a b. False) (child_for_identity Model demo_schema) Model demo_schema = Inr ()"
  using child_binding_exact [of "\<lambda>a b. False" _ Model demo_schema]
  by (simp add: demo_schema_def MAX_SCHEMA_CHILD_DEPTH_def eval_nat_numeral)

section \<open>The descriptor determines the schema\<close>

definition field_ok :: "(canonical_schema \<Rightarrow> bool) option \<Rightarrow> field_spec \<Rightarrow> bool" where
  "field_ok deeper f \<longleftrightarrow> length (spec_name f) \<le> u64_max
     \<and> (case spec_child f of None \<Rightarrow> True
        | Some child \<Rightarrow> (case deeper of None \<Rightarrow> False | Some ok \<Rightarrow> ok (child_source child)))"

definition descriptor_ok_at :: "(canonical_schema \<Rightarrow> bool) option \<Rightarrow> canonical_schema \<Rightarrow> bool" where
  "descriptor_ok_at deeper D \<longleftrightarrow> length (domain_of D) \<le> u64_max \<and> length (name_of D) \<le> u64_max
     \<and> length (context_of D) \<le> u64_max \<and> length (fields_of D) \<le> u64_max
     \<and> list_all (field_ok deeper) (fields_of D)"

text \<open>Every string and count fits its length prefix, and child bindings nest at most \<open>n\<close> deep.\<close>

primrec descriptor_ok :: "nat \<Rightarrow> canonical_schema \<Rightarrow> bool" where
  "descriptor_ok 0 = descriptor_ok_at None"
| "descriptor_ok (Suc n) = descriptor_ok_at (Some (descriptor_ok n))"

lemma concat_hash_len_bytes [simp]: "concat (hash_len_bytes v) = len_bytes v"
  by (simp add: hash_len_bytes_def len_bytes_def)

lemma child_source_eq: "child_role a = child_role b \<Longrightarrow> child_source a = child_source b \<Longrightarrow> a = b"
  by (cases a; cases b) (simp add: child_source_def)

lemma field_descriptor_framing:
  assumes "\<And>enc ok. deeper = Some enc \<Longrightarrow> deep_ok = Some ok \<Longrightarrow> framing (\<lambda>D. concat (enc D)) ok"
    and "deeper = None \<longleftrightarrow> deep_ok = None"
  shows "framing (\<lambda>f. concat (field_descriptor deeper f)) (field_ok deep_ok)"
proof
  fix f h x y
  assume ok: "field_ok deep_ok f" "field_ok deep_ok h"
    and eq: "concat (field_descriptor deeper f) @ x = concat (field_descriptor deeper h) @ y"
  define rest where "rest g z = [wire_tag (spec_wire g), presence_tag (spec_presence g)] @
     (case spec_child g of None \<Rightarrow> [0] | Some child \<Rightarrow> (case deeper of None \<Rightarrow> [2]
       | Some enc \<Rightarrow> [1, role_tag (child_role child)] @ concat (enc (child_source child)))) @ z" for g z
  have "len_bytes (spec_name g) @ rest g z = concat (field_descriptor deeper g) @ z" for g z
    by (simp add: field_descriptor_def rest_def split: option.splits)
  with eq have "len_bytes (spec_name f) @ rest f x = len_bytes (spec_name h) @ rest h y" by simp
  moreover have "length (spec_name f) \<le> u64_max" "length (spec_name h) \<le> u64_max"
    using ok unfolding field_ok_def by blast+
  ultimately have name: "spec_name f = spec_name h" and r: "rest f x = rest h y"
    using len_frame.delimited by blast+
  have tags: "spec_wire f = spec_wire h" "spec_presence f = spec_presence h"
    using r by (auto simp: rest_def)
  have "spec_child f = spec_child h \<and> x = y"
  proof (cases "spec_child f")
    case None
    then show ?thesis using r by (cases "spec_child h") (auto simp: rest_def split: option.splits)
  next
    case (Some c)
    with ok obtain dok where dok: "deep_ok = Some dok" "dok (child_source c)"
      by (auto simp: field_ok_def split: option.splits)
    then obtain enc where enc: "deeper = Some enc" using assms(2) by (cases deeper) auto
    then obtain d where d: "spec_child h = Some d"
      using r Some by (cases "spec_child h") (auto simp: rest_def)
    have eq: "concat (enc (child_source c)) @ x = concat (enc (child_source d)) @ y"
      and role: "child_role c = child_role d"
      using r Some d enc by (auto simp: rest_def)
    have "dok (child_source d)" using ok(2) d dok(1) by (simp add: field_ok_def)
    then have "child_source c = child_source d \<and> x = y"
      by (rule framing.delimited [OF assms(1) [OF enc dok(1)] dok(2) _ eq])
    with role show ?thesis using Some d child_source_eq by simp
  qed
  with name tags show "f = h \<and> x = y" by (cases f; cases h) simp
qed

lemma concat_concat_map: "concat (concat (map h xs)) = concat (map (\<lambda>v. concat (h v)) xs)"
  by (induction xs) simp_all

lemma schema_descriptor_framing:
  assumes "framing (\<lambda>f. concat (field_descriptor deeper f)) (field_ok deep_ok)"
  shows "framing (\<lambda>D. concat (schema_descriptor_at deeper D)) (descriptor_ok_at deep_ok)"
proof
  fix D D' x y
  assume ok: "descriptor_ok_at deep_ok D" "descriptor_ok_at deep_ok D'"
    and eq: "concat (schema_descriptor_at deeper D) @ x = concat (schema_descriptor_at deeper D') @ y"
  let ?fields = "\<lambda>E. concat (map (\<lambda>f. concat (field_descriptor deeper f)) (fields_of E))"
  from eq have "len_bytes (domain_of D) @ len_bytes (name_of D) @ le_bytes 4 (unat (version_of D))
        @ len_bytes (context_of D) @ le_bytes 8 (length (fields_of D)) @ ?fields D @ x
      = len_bytes (domain_of D') @ len_bytes (name_of D') @ le_bytes 4 (unat (version_of D'))
        @ len_bytes (context_of D') @ le_bytes 8 (length (fields_of D')) @ ?fields D' @ y"
    by (simp add: schema_descriptor_at_def concat_concat_map)
  moreover note len_frame.delimited
  moreover have "unat (v :: u32) < 256 ^ 4" for v using unsigned_less [of v] by simp
  ultimately have d: "domain_of D = domain_of D'" "name_of D = name_of D'" "context_of D = context_of D'"
      "unat (version_of D) = unat (version_of D')"
    and l: "length (fields_of D) = length (fields_of D')" and f: "?fields D @ x = ?fields D' @ y"
    using ok unfolding descriptor_ok_at_def
    by (metis (no_types, lifting) le_frame.delimited u64_max_bytes)+
  have "fields_of D = fields_of D' \<and> x = y"
    using framing.delimited_list [OF assms l _ _ f] ok by (simp add: descriptor_ok_at_def)
  with d show "D = D' \<and> x = y" by (auto intro!: canonical_schema.equality simp: word_unat_eq_iff)
qed

interpretation descriptor: framing "\<lambda>D. concat (write_schema_descriptor_at n D)" "descriptor_ok n" for n
proof -
  show "framing (\<lambda>D. concat (write_schema_descriptor_at n D)) (descriptor_ok n)"
  proof (induction n)
    case 0
    show ?case using schema_descriptor_framing [OF field_descriptor_framing [of None None]] by simp
  next
    case (Suc n)
    have "framing (\<lambda>f. concat (field_descriptor (Some (write_schema_descriptor_at n)) f))
        (field_ok (Some (descriptor_ok n)))"
      by (rule field_descriptor_framing) (use Suc in simp_all)
    from schema_descriptor_framing [OF this] show ?case by simp
  qed
qed

text \<open>C23. The bytes hashed into a schema id determine the complete schema: domain, name, version, context and
  the recursive structure of all fields with their child bindings, for schemas whose child nesting
  is within the depth cap and whose strings fit their length prefixes.\<close>

theorem schema_descriptor_injective:
  assumes "descriptor_ok MAX_SCHEMA_CHILD_DEPTH D" "descriptor_ok MAX_SCHEMA_CHILD_DEPTH D'"
    and "concat (write_schema_descriptor D) = concat (write_schema_descriptor D')"
  shows "D = D'"
  using descriptor.enc_inj assms unfolding write_schema_descriptor_def by blast

theorem schema_descriptor_injective_witness:
  "concat (write_schema_descriptor demo_schema) \<noteq> concat (write_schema_descriptor (demo_schema\<lparr>version_of := 2\<rparr>))"
proof
  assume "concat (write_schema_descriptor demo_schema)
    = concat (write_schema_descriptor (demo_schema\<lparr>version_of := 2\<rparr>))"
  moreover have "descriptor_ok n (demo_schema\<lparr>version_of := v\<rparr>)" for n v
    by (cases n) (simp_all add: descriptor_ok_at_def field_ok_def demo_schema_def str_bytes_def u64_max_def)
  note this [of MAX_SCHEMA_CHILD_DEPTH]
  moreover have "demo_schema = demo_schema\<lparr>version_of := 1\<rparr>" by (simp add: demo_schema_def)
  ultimately have "demo_schema = demo_schema\<lparr>version_of := 2\<rparr>"
    using schema_descriptor_injective [of demo_schema "demo_schema\<lparr>version_of := 2\<rparr>"] by metis
  then show False by (simp add: demo_schema_def)
qed

end
