(* ===== verification/Identity_Logic.thy ===== *)
theory Identity_Logic
  imports Identity_Stream Identity_Binding
begin

text \<open>
  A program logic for encoder computations. One judgement says of a computation, from a state
  that has absorbed \<open>p\<close>: it never panics; if it succeeds it has absorbed exactly \<open>q\<close> more, moved the
  two counters by \<open>n\<close> and \<open>m\<close>, observed no cancellation, left the configuration alone and returned a
  value satisfying \<open>P\<close>; and if its guarantee \<open>G\<close> holds and the probe never cancels, it succeeds.
\<close>

section \<open>The state of an encoder that has absorbed some bytes\<close>

definition domain_key :: "u8 list \<Rightarrow> u32 list" where
  "domain_key d = map u32_from_le_bytes (quads (finalize (after IV DERIVE_KEY_CONTEXT d)))"

lemma derive_key_hasher_after:
  "length d \<le> 2 ^ 64 \<Longrightarrow> derive_key_hasher d = Some (after (domain_key d) DERIVE_KEY_MATERIAL [])"
  using update_after [of "[]" d IV DERIVE_KEY_CONTEXT]
  by (simp add: derive_key_hasher_def after_Nil domain_key_def)

lemma hash_domain_after:
  "length d \<le> 2 ^ 64 \<Longrightarrow> length p \<le> 2 ^ 64 \<Longrightarrow>
   hash_domain d p = Some (finalize (after (domain_key d) DERIVE_KEY_MATERIAL p))"
  using update_after [of "[]" p "domain_key d" DERIVE_KEY_MATERIAL]
  by (simp add: hash_domain_def domain_hasher_new_def derive_key_hasher_after domain_hasher_update_def
      domain_hasher_finalize_def)

lemma hash_bytes_after: "length p \<le> 2 ^ 64 \<Longrightarrow> hash_bytes_blake3 p = Some (finalize (after IV 0 p))"
  using update_after [of "[]" p IV 0] by (simp add: hash_bytes_blake3_def blake3_new_def after_Nil)

definition enc_ok :: "encoder \<Rightarrow> u8 list \<Rightarrow> bool" where
  "enc_ok s p \<longleftrightarrow>
     semantic_hasher s = after (domain_key CANONICAL_IDENTITY_HASH_DOMAIN) DERIVE_KEY_MATERIAL p
   \<and> preimage_hasher s = after IV 0 p
   \<and> canonical_bytes s = length p \<and> length p \<le> u64_max \<and> length p \<le> max_canonical_bytes (limits s)
   \<and> cancellation_poll_bytes (limits s) \<noteq> 0"

definition same_config :: "encoder \<Rightarrow> encoder \<Rightarrow> bool" where
  "same_config s s' \<longleftrightarrow> schema s' = schema s \<and> role s' = role s \<and> schema_id s' = schema_id s
     \<and> limits s' = limits s \<and> cancellation s' = cancellation s"

lemma same_config_refl [simp]: "same_config s s"
  by (simp add: same_config_def)

lemma same_config_trans: "same_config s s' \<Longrightarrow> same_config s' s'' \<Longrightarrow> same_config s s''"
  by (simp add: same_config_def)

text \<open>The polls made between two states were all answered no.\<close>

definition quiet_between :: "encoder \<Rightarrow> encoder \<Rightarrow> bool" where
  "quiet_between s s' \<longleftrightarrow> polls s \<le> polls s' \<and> (\<forall>i. polls s \<le> i \<longrightarrow> i < polls s' \<longrightarrow> \<not> cancellation s i)"

lemma quiet_between_refl [simp]: "quiet_between s s"
  by (simp add: quiet_between_def)

lemma quiet_between_trans:
  "quiet_between s s' \<Longrightarrow> quiet_between s' s'' \<Longrightarrow> same_config s s' \<Longrightarrow> quiet_between s s''"
  by (auto simp: quiet_between_def same_config_def)

definition never_cancelled :: "encoder \<Rightarrow> bool" where
  "never_cancelled s \<longleftrightarrow> (\<forall>i. \<not> cancellation s i)"

lemma never_cancelled_config: "same_config s s' \<Longrightarrow> never_cancelled s' \<longleftrightarrow> never_cancelled s"
  by (simp add: same_config_def never_cancelled_def)

section \<open>The judgement\<close>

definition yields ::
  "encoder \<Rightarrow> u8 list \<Rightarrow> 'a computation \<Rightarrow> u8 list \<Rightarrow> nat \<Rightarrow> nat \<Rightarrow> ('a \<Rightarrow> bool) \<Rightarrow> bool \<Rightarrow> bool" where
  "yields s p c q n m P G \<longleftrightarrow> (enc_ok s p \<longrightarrow>
     (case c s of
        (Ok x, s') \<Rightarrow> enc_ok s' (p @ q) \<and> same_config s s' \<and> quiet_between s s'
          \<and> next_field s' = next_field s + n \<and> collection_items s' = collection_items s + m \<and> P x
      | (Err e, s') \<Rightarrow> \<not> (G \<and> never_cancelled s) \<and> same_config s s' \<and> (\<exists>q'. enc_ok s' (p @ q'))
      | (Panicked, s') \<Rightarrow> False))"

named_theorems yields_rules "rules of the encoder logic for the primitive computations"

lemma yields_return [yields_rules]: "P x \<Longrightarrow> yields s p (return_with x) [] 0 0 P G"
  by (simp add: yields_def return_with_def)

lemma yields_refuse [yields_rules]: "\<not> G \<Longrightarrow> yields s p (refuse e) q n m P G"
  by (auto simp: yields_def refuse_def intro: exI [of _ "[]"])

lemma yields_ensuring:
  assumes "\<And>x. r = Inr x \<Longrightarrow> P x" "G \<Longrightarrow> \<exists>x. r = Inr x"
  shows "yields s p (ensuring r) [] 0 0 P G"
  using assms by (cases r) (auto simp: ensuring_def yields_def return_with_def refuse_def intro: exI [of _ "[]"])

lemma yields_reading: "yields s p (f s) q n m P G \<Longrightarrow> yields s p (reading f) q n m P G"
  by (simp add: yields_def reading_def)

lemma yields_and_then:
  assumes c: "yields s p c q n m P G"
    and f: "\<And>x s'. P x \<Longrightarrow> enc_ok s' (p @ q) \<Longrightarrow> same_config s s' \<Longrightarrow> next_field s' = next_field s + n \<Longrightarrow>
        collection_items s' = collection_items s + m \<Longrightarrow> yields s' (p @ q) (f x) q' n' m' Q G"
    and "qq = q @ q'" "nn = n + n'" "mm = m + m'"
  shows "yields s p (and_then c f) qq nn mm Q G"
  unfolding yields_def
proof
  assume ok: "enc_ok s p"
  obtain r s' where cs: "c s = (r, s')" by fastforce
  show "case and_then c f s of
        (Ok x, s') \<Rightarrow> enc_ok s' (p @ qq) \<and> same_config s s' \<and> quiet_between s s'
          \<and> next_field s' = next_field s + nn \<and> collection_items s' = collection_items s + mm \<and> Q x
      | (Err e, s') \<Rightarrow> \<not> (G \<and> never_cancelled s) \<and> same_config s s' \<and> (\<exists>q'. enc_ok s' (p @ q'))
      | (Panicked, s') \<Rightarrow> False"
  proof (cases r)
    case (Ok x)
    then have 1: "enc_ok s' (p @ q)" "same_config s s'" "quiet_between s s'" "next_field s' = next_field s + n"
      "collection_items s' = collection_items s + m" "P x"
      using c ok cs by (simp_all add: yields_def)
    have 2: "yields s' (p @ q) (f x) q' n' m' Q G" by (rule f) (use 1 in auto)
    obtain r2 s2 where fs: "f x s' = (r2, s2)" by fastforce
    have at: "and_then c f s = (r2, s2)" using cs Ok fs by (simp add: and_then_def)
    show ?thesis
    proof (cases r2)
      case (Ok y)
      then show ?thesis using 2 fs 1 at assms(3-5)
        by (auto simp: yields_def intro: same_config_trans quiet_between_trans)
    next
      case (Err e)
      then show ?thesis using 2 fs 1 at
        by (auto simp: yields_def never_cancelled_config intro: same_config_trans)
    next
      case Panicked
      then show ?thesis using 2 fs 1 by (simp add: yields_def)
    qed
  next
    case (Err e)
    then show ?thesis using c ok cs by (simp add: yields_def and_then_def)
  next
    case Panicked
    then show ?thesis using c ok cs by (simp add: yields_def)
  qed
qed

lemma yields_weaken:
  "yields s p c q n m P G \<Longrightarrow> (\<And>x. P x \<Longrightarrow> Q x) \<Longrightarrow> (G' \<Longrightarrow> G) \<Longrightarrow> yields s p c q n m Q G'"
  unfolding yields_def by (fastforce split: outcome.splits prod.splits)

lemma yields_in_order_Nil [yields_rules]: "yields s p (in_order []) [] 0 0 (\<lambda>_. True) G"
  by (simp add: in_order.simps yields_return)

lemma yields_in_order_fact:
  assumes "yields s p c q n m (\<lambda>_. A) G"
    and "\<And>s'. A \<Longrightarrow> enc_ok s' (p @ q) \<Longrightarrow> same_config s s' \<Longrightarrow> next_field s' = next_field s + n \<Longrightarrow>
        collection_items s' = collection_items s + m \<Longrightarrow> yields s' (p @ q) (in_order cs) q' n' m' (\<lambda>_. B) G"
    and "qq = q @ q'" "nn = n + n'" "mm = m + m'" "A \<Longrightarrow> B \<Longrightarrow> C"
  shows "yields s p (in_order (c # cs)) qq nn mm (\<lambda>_. C) G"
proof -
  have "yields s p (in_order (c # cs)) qq nn mm (\<lambda>_. A \<and> B) G"
    unfolding in_order.simps
    by (rule yields_and_then [OF assms(1) _ assms(3-5)], rule yields_weaken, rule assms(2)) auto
  then show ?thesis by (rule yields_weaken) (use assms(6) in auto)
qed

lemma yields_in_order_Cons:
  assumes "yields s p c q n m (\<lambda>_. True) G"
    and "\<And>s'. enc_ok s' (p @ q) \<Longrightarrow> same_config s s' \<Longrightarrow> next_field s' = next_field s + n \<Longrightarrow>
        collection_items s' = collection_items s + m \<Longrightarrow> yields s' (p @ q) (in_order cs) q' n' m' (\<lambda>_. B) G"
    and "qq = q @ q'" "nn = n + n'" "mm = m + m'"
  shows "yields s p (in_order (c # cs)) qq nn mm (\<lambda>_. B) G"
  by (rule yields_in_order_fact [OF assms(1) assms(2-5)]) auto

lemma yields_single:
  "yields s p c q n m (\<lambda>_. A) G \<Longrightarrow> yields s p (in_order [c]) q n m (\<lambda>_. A) G"
  by (rule yields_in_order_fact [where q' = "[]" and n' = 0 and m' = 0 and A = A and B = True])
    (simp_all add: yields_in_order_Nil)

section \<open>Polling and appending\<close>

lemma enc_ok_polls [simp]: "enc_ok (s\<lparr>polls := k\<rparr>) p \<longleftrightarrow> enc_ok s p"
  by (simp add: enc_ok_def)

lemma yields_checkpoint [yields_rules]: "yields s p checkpoint [] 0 0 (\<lambda>_. True) G"
  by (auto simp: yields_def checkpoint_def Let_def same_config_def quiet_between_def never_cancelled_def
      less_Suc_eq_le intro: exI [of _ "[]"])

lemma yields_absorb_chunk:
  assumes "length (p @ chunk) \<le> u64_max" "length (p @ chunk) \<le> max_canonical_bytes (limits s)"
  shows "yields s p (absorb_chunk chunk) chunk 0 0 (\<lambda>_. True) G"
proof -
  have "length (p @ chunk) \<le> 2 ^ 64" using assms(1) by (simp add: u64_max_def)
  note up = update_after [OF this]
  show ?thesis using assms
    by (auto simp: yields_def absorb_chunk_def enc_ok_def up as_u64_def add_u64_def attempt_def checked_add_def
        same_config_def quiet_between_def)
qed

lemma and_then_unfold:
  "(case c self of (Ok x, self) \<Rightarrow> f self | (r, self) \<Rightarrow> (r, self)) = and_then c (\<lambda>x self. f self) self"
  by (auto simp: and_then_def split: prod.splits outcome.splits)

lemma append_strides_step:
  "append_strides stride bytes =
    (if bytes = [] then return_with ()
     else if stride = 0 then (\<lambda>self. (Panicked, self))
     else in_order [checkpoint, absorb_chunk (take (min stride (length bytes)) bytes),
       append_strides stride (drop (min stride (length bytes)) bytes)])"
  by (rule ext, subst append_strides.simps)
    (auto simp: in_order.simps return_with_def and_then_def Let_def split: prod.splits outcome.splits)

lemma yields_append_strides:
  assumes "stride \<noteq> 0" "length (p @ bytes) \<le> u64_max" "length (p @ bytes) \<le> max_canonical_bytes (limits s)"
  shows "yields s p (append_strides stride bytes) bytes 0 0 (\<lambda>_. True) G"
  using assms
proof (induction "length bytes" arbitrary: bytes s p rule: less_induct)
  case less
  show ?case
  proof (cases "bytes = []")
    case True
    then show ?thesis by (simp add: append_strides_step yields_return)
  next
    case False
    let ?n = "min stride (length bytes)"
    have n0: "0 < ?n" using False less.prems(1) by simp
    show ?thesis
      unfolding append_strides_step [of stride bytes] if_not_P [OF False] if_not_P [OF less.prems(1)]
    proof (rule yields_in_order_Cons [OF yields_checkpoint])
      fix s1 assume 1: "enc_ok s1 (p @ [])" "same_config s s1" "next_field s1 = next_field s + 0"
      show "yields s1 (p @ []) (in_order [absorb_chunk (take ?n bytes), append_strides stride (drop ?n bytes)])
          bytes 0 0 (\<lambda>_. True) G"
      proof (rule yields_in_order_Cons [where q = "take ?n bytes" and n = 0 and m = 0])
        show "yields s1 (p @ []) (absorb_chunk (take ?n bytes)) (take ?n bytes) 0 0 (\<lambda>_. True) G"
          by (rule yields_absorb_chunk) (use less.prems 1 in \<open>auto simp: same_config_def\<close>)
        fix s2 assume 2: "same_config s1 s2"
        have "yields s2 ((p @ []) @ take ?n bytes) (append_strides stride (drop ?n bytes)) (drop ?n bytes) 0 0
            (\<lambda>_. True) G"
          by (rule less.hyps) (use less.prems 1 2 n0 in \<open>auto simp: same_config_def min_def\<close>)
        then show "yields s2 ((p @ []) @ take ?n bytes) (in_order [append_strides stride (drop ?n bytes)])
            (drop ?n bytes) 0 0 (\<lambda>_. True) G"
          by (rule yields_single)
      qed (simp_all only: append_take_drop_id add_0)
    qed simp_all
  qed
qed

lemma yields_append_bytes [yields_rules]:
  assumes "G \<Longrightarrow> length (p @ bytes) \<le> max_canonical_bytes (limits s) \<and> length (p @ bytes) \<le> u64_max"
  shows "yields s p (append_bytes bytes) bytes 0 0 (\<lambda>_. True) G"
  unfolding append_bytes_def
proof (rule yields_reading, cases "enc_ok s p")
  case ok: True
  show "yields s p (and_then (ensuring (attempt (as_u64 (length bytes)) (add_u64 (canonical_bytes s))))
      (\<lambda>requested. in_order [
        ensuring (enforce_limit CanonicalBytes requested (max_canonical_bytes (limits s))),
        append_strides (cancellation_poll_bytes (limits s)) bytes])) bytes 0 0 (\<lambda>_. True) G"
  proof (rule yields_and_then [where P = "\<lambda>r. r = length (p @ bytes) \<and> r \<le> u64_max" and q = "[]" and n = 0 and m = 0])
    show "yields s p (ensuring (attempt (as_u64 (length bytes)) (add_u64 (canonical_bytes s)))) [] 0 0
        (\<lambda>r. r = length (p @ bytes) \<and> r \<le> u64_max) G"
      by (rule yields_ensuring)
        (use ok assms in \<open>auto simp: attempt_def as_u64_def add_u64_def enc_ok_def checked_add_def split: if_splits\<close>)
    fix r s1 assume r: "r = length (p @ bytes) \<and> r \<le> u64_max" and 1: "same_config s s1"
    show "yields s1 (p @ []) (in_order [ensuring (enforce_limit CanonicalBytes r (max_canonical_bytes (limits s))),
        append_strides (cancellation_poll_bytes (limits s)) bytes]) bytes 0 0 (\<lambda>_. True) G"
    proof (cases "length (p @ bytes) \<le> max_canonical_bytes (limits s)")
      case fit: True
      show ?thesis
      proof (rule yields_in_order_Cons [where q = "[]" and n = 0 and m = 0])
        show "yields s1 (p @ []) (ensuring (enforce_limit CanonicalBytes r (max_canonical_bytes (limits s)))) [] 0 0
            (\<lambda>_. True) G" by (rule yields_ensuring) (use fit r in \<open>auto simp: enforce_limit_def\<close>)
        fix s2 assume 2: "same_config s1 s2"
        have "yields s2 ((p @ []) @ []) (append_strides (cancellation_poll_bytes (limits s)) bytes) bytes 0 0
            (\<lambda>_. True) G"
          by (rule yields_append_strides) (use ok fit r 1 2 in \<open>auto simp: enc_ok_def same_config_def\<close>)
        then show "yields s2 ((p @ []) @ []) (in_order [append_strides (cancellation_poll_bytes (limits s)) bytes])
            bytes 0 0 (\<lambda>_. True) G"
          by (rule yields_single)
      qed simp_all
    next
      case False
      then have "ensuring (enforce_limit CanonicalBytes r (max_canonical_bytes (limits s)))
          = refuse (LimitExceeded CanonicalBytes r (max_canonical_bytes (limits s)))"
        using r by (simp add: enforce_limit_def ensuring_def)
      moreover have "\<not> G" using False assms by blast
      ultimately show ?thesis
        by (auto simp: in_order.simps yields_def and_then_def refuse_def intro: exI [of _ "[]"])
    qed
  qed simp_all
qed (simp add: yields_def)

lemma yields_append_len_bytes [yields_rules]:
  assumes "G \<Longrightarrow> length (p @ len_bytes bytes) \<le> max_canonical_bytes (limits s)
      \<and> length (p @ len_bytes bytes) \<le> u64_max"
  shows "yields s p (append_len_bytes bytes) (len_bytes bytes) 0 0 (\<lambda>_. True) G"
  unfolding append_len_bytes_def
proof (rule yields_in_order_Cons [where q = "le_bytes 8 (length bytes)" and n = 0 and m = 0 and q' = bytes])
  show "yields s p (and_then (ensuring (as_u64 (length bytes))) (\<lambda>len. append_bytes (le_bytes 8 len)))
      (le_bytes 8 (length bytes)) 0 0 (\<lambda>_. True) G"
  proof (rule yields_and_then [where P = "\<lambda>len. len = length bytes" and q = "[]" and n = 0 and m = 0])
    show "yields s p (ensuring (as_u64 (length bytes))) [] 0 0 (\<lambda>len. len = length bytes) G"
      by (rule yields_ensuring) (use assms in \<open>auto simp: as_u64_def len_bytes_def split: if_splits\<close>)
  qed (auto intro!: yields_rules dest: assms simp: same_config_def len_bytes_def)
  fix s1 assume 1: "same_config s s1"
  have "yields s1 (p @ le_bytes 8 (length bytes)) (append_bytes bytes) bytes 0 0 (\<lambda>_. True) G"
    by (rule yields_append_bytes) (use assms 1 in \<open>auto simp: same_config_def len_bytes_def\<close>)
  then show "yields s1 (p @ le_bytes 8 (length bytes)) (in_order [append_bytes bytes]) bytes 0 0 (\<lambda>_. True) G"
    by (rule yields_single)
qed (simp_all add: len_bytes_def)

end
