(* ===== verification/Identity_Frame.thy ===== *)
theory Identity_Frame
  imports Identity_Logic
begin

text \<open>
  The canonical frame of a typed value as a function of role, schema and field values, and the
  calls that put it into an encoder.
\<close>

section \<open>Field values and their bytes\<close>

datatype field_value = VUtf8 "u8 list" | VBytes "u8 list" | VU64 u64 | VI64 u64 | VFlag bool | VFloat u64
  | VOptional "u8 list option" | VVariant u32 "u8 list" | VOrdered "u8 list list" | VSet "u8 list list"
  | VChild strong_identity | VChildren identity_role canonical_schema "u8 list list"

fun wire_of :: "field_value \<Rightarrow> wire_type" where
  "wire_of (VUtf8 _) = Utf8"
| "wire_of (VBytes _) = Bytes"
| "wire_of (VU64 _) = U64"
| "wire_of (VI64 _) = I64"
| "wire_of (VFlag _) = Bool"
| "wire_of (VFloat _) = FiniteF64"
| "wire_of (VOptional _) = Bytes"
| "wire_of (VVariant _ _) = Variant"
| "wire_of (VOrdered _) = OrderedBytes"
| "wire_of (VSet _) = CanonicalSet"
| "wire_of (VChild _) = Child"
| "wire_of (VChildren _ _ _) = OrderedChildren"

fun presence_of :: "field_value \<Rightarrow> presence" where
  "presence_of (VOptional _) = Optional"
| "presence_of _ = Required"

definition schema_id_of :: "canonical_schema \<Rightarrow> u8 list" where
  "schema_id_of D = finalize (after (domain_key SCHEMA_ID_HASH_DOMAIN) DERIVE_KEY_MATERIAL
     (concat (write_schema_descriptor D)))"

text \<open>The descriptor of a schema fits the largest input the hash format allows.\<close>

definition addressable :: "canonical_schema \<Rightarrow> bool" where
  "addressable D \<longleftrightarrow> length (concat (write_schema_descriptor D)) \<le> 2 ^ 64"

definition child_descriptor :: "identity_role \<Rightarrow> canonical_schema \<Rightarrow> u8 list" where
  "child_descriptor r D = [role_tag r] @ len_bytes (domain_of D) @ len_bytes (name_of D) @ schema_id_of D
     @ le_bytes 4 (unat (version_of D)) @ len_bytes (context_of D)"

fun value_bytes :: "field_value \<Rightarrow> u8 list" where
  "value_bytes (VUtf8 b) = len_bytes b"
| "value_bytes (VBytes b) = len_bytes b"
| "value_bytes (VU64 v) = le_bytes 8 (unat v)"
| "value_bytes (VI64 v) = le_bytes 8 (unat v)"
| "value_bytes (VFlag b) = [if b then 1 else 0]"
| "value_bytes (VFloat v) = le_bytes 8 (unat v)"
| "value_bytes (VOptional b) = (case b of None \<Rightarrow> [0] | Some b \<Rightarrow> 1 # len_bytes b)"
| "value_bytes (VVariant v b) = le_bytes 4 (unat v) @ len_bytes b"
| "value_bytes (VOrdered vs) = le_bytes 8 (length vs) @ concat (map len_bytes vs)"
| "value_bytes (VSet vs) = le_bytes 8 (length vs) @ concat (map len_bytes vs)"
| "value_bytes (VChild c) = child_descriptor (id_role c) (id_schema c) @ id_digest c"
| "value_bytes (VChildren r D ds) = le_bytes 8 (length ds) @ child_descriptor r D @ concat ds"

definition field_prefix :: "field \<Rightarrow> wire_type \<Rightarrow> presence \<Rightarrow> u8 list" where
  "field_prefix f wire pres =
     [FIELD_MARKER] @ le_bytes 4 (ordinal f) @ len_bytes (field_name f) @ [wire_tag wire, presence_tag pres]"

definition field_bytes :: "field \<Rightarrow> field_value \<Rightarrow> u8 list" where
  "field_bytes f v = field_prefix f (wire_of v) (presence_of v) @ value_bytes v"

fun items_of :: "field_value \<Rightarrow> nat" where
  "items_of (VOrdered vs) = length vs"
| "items_of (VSet vs) = length vs"
| "items_of (VChildren _ _ ds) = length ds"
| "items_of _ = 0"

section \<open>The frame\<close>

definition header_field :: "nat \<times> field_spec \<Rightarrow> u8 list" where
  "header_field = (\<lambda>(i, spec). le_bytes 4 i @ len_bytes (spec_name spec)
     @ [wire_tag (spec_wire spec), presence_tag (spec_presence spec)])"

definition header_bytes :: "identity_role \<Rightarrow> canonical_schema \<Rightarrow> u8 list" where
  "header_bytes r D = CANONICAL_MAGIC @ le_bytes 4 (unat CANONICAL_FRAME_VERSION)
     @ [role_tag r, FLOAT_POLICY_FINITE_EXACT_BITS] @ len_bytes (domain_of D) @ len_bytes (name_of D)
     @ schema_id_of D @ le_bytes 4 (unat (version_of D)) @ len_bytes (context_of D)
     @ le_bytes 4 (length (fields_of D)) @ concat (map header_field (enumerate 0 (fields_of D)))"

definition field_at :: "nat \<times> field_spec \<Rightarrow> field" where
  "field_at = (\<lambda>(i, spec). \<lparr>ordinal = i, field_name = spec_name spec\<rparr>)"

definition body_bytes :: "(nat \<times> field_spec) list \<Rightarrow> field_value list \<Rightarrow> u8 list" where
  "body_bytes specs vs = concat (map (\<lambda>(spec, v). field_bytes (field_at spec) v) (zip specs vs))"

definition frame :: "identity_role \<Rightarrow> canonical_schema \<Rightarrow> field_value list \<Rightarrow> u8 list" where
  "frame r D vs = header_bytes r D @ body_bytes (enumerate 0 (fields_of D)) vs
     @ [END_MARKER] @ le_bytes 4 (length vs)"

section \<open>Calls\<close>

text \<open>One call of a field method, with everything the caller chooses, declared lengths included.\<close>

datatype field_call = CallUtf8 "u8 list" | CallBytes "u8 list" | CallBytesStream nat "u8 list list"
  | CallU64 u64 | CallI64 u64 | CallFlag bool | CallFloat u64 | CallOptional "u8 list option"
  | CallVariant u32 "u8 list" | CallOrdered nat "u8 list list" | CallSet nat "u8 list list"
  | CallChild strong_identity | CallChildren nat identity_role canonical_schema "u8 list list"

fun value_of_call :: "field_call \<Rightarrow> field_value" where
  "value_of_call (CallUtf8 b) = VUtf8 b"
| "value_of_call (CallBytes b) = VBytes b"
| "value_of_call (CallBytesStream _ chunks) = VBytes (concat chunks)"
| "value_of_call (CallU64 v) = VU64 v"
| "value_of_call (CallI64 v) = VI64 v"
| "value_of_call (CallFlag b) = VFlag b"
| "value_of_call (CallFloat v) = VFloat v"
| "value_of_call (CallOptional b) = VOptional b"
| "value_of_call (CallVariant v b) = VVariant v b"
| "value_of_call (CallOrdered _ vs) = VOrdered vs"
| "value_of_call (CallSet _ vs) = VSet vs"
| "value_of_call (CallChild c) = VChild c"
| "value_of_call (CallChildren _ r D ds) = VChildren r D ds"

fun run_call :: "(field_spec list \<Rightarrow> field_spec list \<Rightarrow> bool) \<Rightarrow> field \<times> field_call \<Rightarrow> unit computation" where
  "run_call same (f, CallUtf8 b) = encode_utf8 f b"
| "run_call same (f, CallBytes b) = encode_bytes f b"
| "run_call same (f, CallBytesStream n chunks) = encode_bytes_stream f n chunks"
| "run_call same (f, CallU64 v) = encode_u64 f v"
| "run_call same (f, CallI64 v) = encode_i64 f v"
| "run_call same (f, CallFlag b) = encode_flag f b"
| "run_call same (f, CallFloat v) = encode_finite_f64 f v"
| "run_call same (f, CallOptional b) = encode_optional_bytes f b"
| "run_call same (f, CallVariant v b) = encode_variant f v b"
| "run_call same (f, CallOrdered n vs) = encode_ordered_bytes f n vs"
| "run_call same (f, CallSet n vs) = encode_canonical_set f n vs"
| "run_call same (f, CallChild c) = encode_child same f c"
| "run_call same (f, CallChildren n r D ds) = encode_ordered_children same f n r D ds"

text \<open>A whole construction: a new encoder, the calls in order, \<open>finish\<close>; the encoder that published
  is kept for its poll count.\<close>

definition build ::
  "(field_spec list \<Rightarrow> field_spec list \<Rightarrow> bool) \<Rightarrow> identity_role \<Rightarrow> canonical_schema \<Rightarrow> canonical_limits
    \<Rightarrow> (nat \<Rightarrow> bool) \<Rightarrow> (field \<times> field_call) list \<Rightarrow> (canonical_error, identity_receipt \<times> encoder) outcome" where
  "build same r D lim probe calls =
    (case new_encoder r D lim probe of
       Ok self \<Rightarrow>
         (case and_then (in_order (map (run_call same) calls)) (\<lambda>_. finish) self of
            (Ok receipt, self) \<Rightarrow> Ok (receipt, self)
          | (Err e, self) \<Rightarrow> Err e
          | (Panicked, self) \<Rightarrow> Panicked)
     | Err e \<Rightarrow> Err e
     | Panicked \<Rightarrow> Panicked)"

end
