(* ===== verification/Identity_Rules.thy ===== *)
theory Identity_Rules
  imports Identity_Frame
begin

text \<open>
  Rules of the encoder logic for selecting a field, framing it, and the scalar and byte fields.
\<close>

section \<open>Room in the frame\<close>

definition room :: "canonical_limits \<Rightarrow> nat \<Rightarrow> bool" where
  "room lim n \<longleftrightarrow> n \<le> max_canonical_bytes lim \<and> n \<le> u64_max"

lemma room_mono: "room lim n \<Longrightarrow> k \<le> n \<Longrightarrow> room lim k"
  by (simp add: room_def)

lemma same_config_limits: "same_config s s' \<Longrightarrow> limits s' = limits s"
  by (simp add: same_config_def)

lemma room_append_bytes:
  "(G \<Longrightarrow> room (limits s) (length p + length bytes)) \<Longrightarrow> yields s p (append_bytes bytes) bytes 0 0 (\<lambda>_. True) G"
  by (rule yields_append_bytes) (simp add: room_def)

lemma room_append_len_bytes:
  "(G \<Longrightarrow> room (limits s) (length p + (8 + length bytes))) \<Longrightarrow>
   yields s p (append_len_bytes bytes) (len_bytes bytes) 0 0 (\<lambda>_. True) G"
  by (rule yields_append_len_bytes) (simp add: room_def len_bytes_def)

lemma length_len_bytes [simp]: "length (len_bytes b) = 8 + length b"
  by (simp add: len_bytes_def)

section \<open>Pure checks leave the state alone\<close>

lemma yields_ensuring_then:
  assumes "\<And>x. r = Inr x \<Longrightarrow> yields s p (f x) q n m P G" "G \<Longrightarrow> \<exists>x. r = Inr x"
  shows "yields s p (and_then (ensuring r) f) q n m P G"
  using assms by (cases r)
    (auto simp: yields_def and_then_def ensuring_def return_with_def refuse_def intro: exI [of _ "[]"])

lemma yields_ensuring_first:
  assumes "\<And>x. r = Inr x \<Longrightarrow> yields s p (in_order cs) q n m (\<lambda>_. True) G" "G \<Longrightarrow> \<exists>x. r = Inr x"
  shows "yields s p (in_order (ensuring r # cs)) q n m (\<lambda>_. True) G"
  using assms by (simp add: in_order.simps yields_ensuring_then)

lemma yields_ensuring_then_first:
  assumes "\<And>x. r = Inr x \<Longrightarrow> yields s p (in_order (f x # cs)) q n m (\<lambda>_. True) G" "G \<Longrightarrow> \<exists>x. r = Inr x"
  shows "yields s p (in_order (and_then (ensuring r) f # cs)) q n m (\<lambda>_. True) G"
  using assms by (cases r) (auto simp: in_order.simps yields_def and_then_def ensuring_def return_with_def refuse_def
      intro: exI [of _ "[]"])

lemma yields_seq:
  assumes "yields s p c q n m (\<lambda>_. True) G"
    and "\<And>s'. enc_ok s' (p @ q) \<Longrightarrow> same_config s s' \<Longrightarrow> next_field s' = next_field s + n \<Longrightarrow>
        collection_items s' = collection_items s + m \<Longrightarrow> yields s' (p @ q) (in_order (d # cs)) q' n' m' (\<lambda>_. B) G"
    and "qq = q @ q'" "nn = n + n'" "mm = m + m'"
  shows "yields s p (in_order (c # d # cs)) qq nn mm (\<lambda>_. B) G"
  by (rule yields_in_order_Cons) (use assms in blast)+

lemma as_u64_Inr [simp]: "as_u64 v = Inr w \<longleftrightarrow> w = v \<and> v \<le> u64_max"
  by (auto simp: as_u64_def)

lemma add_u64_Inr [simp]: "add_u64 a b = Inr c \<longleftrightarrow> c = a + b \<and> a + b \<le> u64_max"
  by (auto simp: add_u64_def split: option.splits)

lemma as_u32_Inr [simp]: "as_u32 v = Inr w \<longleftrightarrow> w = v \<and> v \<le> u32_max"
  by (auto simp: as_u32_def)

lemma attempt_Inr [simp]: "attempt r f = Inr y \<longleftrightarrow> (\<exists>x. r = Inr x \<and> f x = Inr y)"
  by (cases r) (simp_all add: attempt_def)

lemma enforce_limit_Inr [simp]: "enforce_limit kind requested limit = Inr u \<longleftrightarrow> requested \<le> limit"
  by (auto simp: enforce_limit_def)

lemma checked_sum_snoc: "checked_sum (vs @ [v]) = attempt (checked_sum vs) (\<lambda>n. add_u64 n v)"
  by (simp add: checked_sum_def)

lemma checked_sum_Inr [simp]: "checked_sum vs = Inr n \<longleftrightarrow> n = sum_list vs \<and> n \<le> u64_max"
proof (induction vs arbitrary: n rule: rev_induct)
  case Nil
  show ?case by (auto simp: checked_sum_def)
next
  case (snoc v vs)
  then show ?case unfolding checked_sum_snoc attempt_Inr snoc.IH by auto
qed

section \<open>Selecting and framing a field\<close>

definition selects :: "encoder \<Rightarrow> field \<Rightarrow> wire_type \<Rightarrow> presence \<Rightarrow> bool" where
  "selects s f w pr \<longleftrightarrow> (\<exists>spec. validate_field f w pr s = Inr spec)"

lemma validate_field_Inr:
  "validate_field f w pr s = Inr spec \<longleftrightarrow> ordinal f = next_field s \<and> ordinal f < length (fields_of (schema s))
     \<and> spec = fields_of (schema s) ! ordinal f \<and> spec_name spec = field_name f \<and> spec_wire spec = w
     \<and> spec_presence spec = pr"
  by (auto simp: validate_field_def Let_def)

lemma validate_field_name: "validate_field f w pr s = Inr spec \<Longrightarrow> spec_name spec = field_name f"
  unfolding validate_field_Inr by blast

lemma selects_config:
  "same_config s s' \<Longrightarrow> next_field s' = next_field s \<Longrightarrow> selects s' f w pr = selects s f w pr"
  by (simp add: selects_def validate_field_Inr same_config_def)

lemma yields_validating:
  assumes "\<And>spec. validate_field f w pr s = Inr spec \<Longrightarrow> yields s p (k spec) q n m P G"
    and "G \<Longrightarrow> selects s f w pr"
  shows "yields s p (validating f w pr k) q n m P G"
  unfolding validating_def
  by (rule yields_reading, rule yields_ensuring_then) (use assms in \<open>auto simp: selects_def\<close>)

lemma yields_ensure_additional:
  assumes "G \<Longrightarrow> room (limits s) (length p + n)"
  shows "yields s p (ensure_additional n) [] 0 0 (\<lambda>_. True) G"
proof (cases "enc_ok s p")
  case True
  show ?thesis unfolding ensure_additional_def
    by (rule yields_reading, rule yields_ensuring) (use assms True in \<open>auto simp: room_def enc_ok_def\<close>)
qed (simp add: yields_def)

lemma yields_ensure_field_bytes:
  assumes "G \<Longrightarrow> n \<le> max_field_bytes (limits s)"
  shows "yields s p (ensure_field_bytes n) [] 0 0 (\<lambda>_. True) G"
  unfolding ensure_field_bytes_def by (rule yields_reading, rule yields_ensuring) (use assms in auto)

lemma field_prefix_len_Inr [simp]:
  "field_prefix_len spec = Inr n \<longleftrightarrow> n = 15 + length (spec_name spec) \<and> n \<le> u64_max"
  by (auto simp: field_prefix_len_def)

lemma yields_ensure_framed:
  assumes "G \<Longrightarrow> \<exists>n. payload = Inr n \<and> room (limits s) (length p + (15 + length (spec_name spec) + n))"
  shows "yields s p (ensure_framed spec payload) [] 0 0 (\<lambda>_. True) G"
  unfolding ensure_framed_def
proof (rule yields_ensuring_then)
  fix n assume "attempt (field_prefix_len spec) (\<lambda>prefix. attempt payload (add_u64 prefix)) = Inr n"
  then show "yields s p (ensure_additional n) [] 0 0 (\<lambda>_. True) G"
    by (intro yields_ensure_additional) (use assms in auto)
qed (use assms in \<open>auto simp: room_def\<close>)

lemma length_field_prefix [simp]: "length (field_prefix f w pr) = 15 + length (field_name f)"
  by (simp add: field_prefix_def)

lemma yields_begin_field:
  assumes "G \<Longrightarrow> selects s f w pr" "G \<Longrightarrow> room (limits s) (length p + (15 + length (field_name f)))"
  shows "yields s p (begin_field f w pr) (field_prefix f w pr) 0 0 (\<lambda>_. True) G"
  unfolding begin_field_def
proof (rule yields_validating)
  fix spec assume "validate_field f w pr s = Inr spec"
  then have name: "spec_name spec = field_name f" by (rule validate_field_name)
  show "yields s p (in_order [append_bytes [FIELD_MARKER], append_bytes (le_bytes 4 (ordinal f)),
       append_len_bytes (spec_name spec), append_bytes [wire_tag w, presence_tag pr]])
     (field_prefix f w pr) 0 0 (\<lambda>_. True) G"
    unfolding name
    by (rule yields_seq yields_single room_append_bytes room_append_len_bytes
        | (use assms(2) in \<open>auto simp: same_config_limits field_prefix_def elim: room_mono; fail\<close>))+
qed (rule assms(1))

lemma yields_complete_field:
  assumes "G \<Longrightarrow> next_field s + 1 \<le> u32_max"
  shows "yields s p complete_field [] 1 0 (\<lambda>_. True) G"
  using assms by (auto simp: yields_def complete_field_def enc_ok_def same_config_def quiet_between_def
      split: option.splits intro: exI [of _ "[]"])

lemma yields_add_collection_items:
  assumes "G \<Longrightarrow> collection_items s + k \<le> u64_max"
  shows "yields s p (add_collection_items k) [] 0 k (\<lambda>_. True) G"
  using assms by (auto simp: yields_def add_collection_items_def add_u64_def enc_ok_def same_config_def
      quiet_between_def split: option.splits intro: exI [of _ "[]"])

section \<open>A field whose payload is appended in order\<close>

text \<open>Everything a field method does after selecting its field, when the payload is one computation.\<close>

lemma yields_framed_field:
  assumes sel: "validate_field f w pr s = Inr spec"
    and body: "\<And>s' p'. same_config s s' \<Longrightarrow> next_field s' = next_field s \<Longrightarrow> collection_items s' = collection_items s
        \<Longrightarrow> length p' = length p + (15 + length (field_name f)) \<Longrightarrow> yields s' p' payload q 0 0 (\<lambda>_. A) G"
    and fb: "G \<Longrightarrow> fbytes \<le> max_field_bytes (limits s)"
    and room: "G \<Longrightarrow> \<exists>n. len = Inr n \<and> room (limits s) (length p + (15 + length (field_name f) + n))"
    and nf: "G \<Longrightarrow> next_field s + 1 \<le> u32_max"
  shows "yields s p (in_order [ensure_field_bytes fbytes, ensure_framed spec len, begin_field f w pr, payload,
      complete_field]) (field_prefix f w pr @ q) 1 0 (\<lambda>_. A) G"
proof -
  have name: "spec_name spec = field_name f" using sel by (rule validate_field_name)
  have s: "selects s f w pr" using sel by (auto simp: selects_def)
  have r: "room (limits s) (length p + (15 + length (field_name f)))" if G
    using room [OF that] by (auto elim: room_mono)
  have tail: "yields s' p' (in_order [payload, complete_field]) q 1 0 (\<lambda>_. A) G"
    if "same_config s s'" "next_field s' = next_field s" "collection_items s' = collection_items s"
      "length p' = length p + (15 + length (field_name f))" for s' p'
    by (rule yields_in_order_fact [OF body [OF that], where q' = "[]" and B = True], rule yields_single,
        rule yields_complete_field) (use nf that in auto)
  show ?thesis
    by (rule yields_seq yields_ensure_field_bytes yields_ensure_framed yields_begin_field tail
        | (use fb room r s in \<open>auto simp: same_config_limits name selects_config intro: same_config_trans; fail\<close>))+
qed

section \<open>Scalars and byte strings\<close>

text \<open>What success of a field call needs of the limits and the counters.\<close>

definition call_room :: "encoder \<Rightarrow> u8 list \<Rightarrow> field \<Rightarrow> field_value \<Rightarrow> bool" where
  "call_room s p f v \<longleftrightarrow> selects s f (wire_of v) (presence_of v)
     \<and> room (limits s) (length p + length (field_bytes f v)) \<and> next_field s + 1 \<le> u32_max
     \<and> collection_items s + items_of v \<le> u64_max"

lemma call_roomD:
  assumes "call_room s p f v"
  shows "selects s f (wire_of v) (presence_of v)" "next_field s + 1 \<le> u32_max"
    "room (limits s) (length p + (15 + length (field_name f) + length (value_bytes v)))"
    "length (value_bytes v) \<le> u64_max" "collection_items s + items_of v \<le> u64_max"
  using assms by (auto simp: call_room_def field_bytes_def room_def)

lemma yields_absurd: "yields s p c q n m (\<lambda>_. False) G \<Longrightarrow> yields s p c q' n' m' P G"
  unfolding yields_def by (auto split: outcome.splits prod.splits)

lemma and_then_assoc: "and_then (and_then c f) h = and_then c (\<lambda>x. and_then (f x) h)"
  by (rule ext) (auto simp: and_then_def split: prod.splits outcome.splits)

lemma and_then_return [simp]: "and_then (return_with x) f = f x" "and_then c return_with = c"
  by (auto simp: fun_eq_iff and_then_def return_with_def split: prod.splits outcome.splits)

lemma in_order_append: "in_order (xs @ ys) = and_then (in_order xs) (\<lambda>_. in_order ys)"
  by (induction xs) (simp_all add: in_order.simps and_then_assoc)

text \<open>Two payload steps count as one.\<close>

lemma in_order_group2: "in_order [a, b, c, d1, d2, e] = in_order [a, b, c, in_order [d1, d2], e]"
  by (simp add: in_order.simps and_then_assoc)

lemma yields_field_op:
  assumes payload: "\<And>s' p'. same_config s s' \<Longrightarrow> length p' = length p + (15 + length (field_name f)) \<Longrightarrow>
        yields s' p' payload q 0 0 (\<lambda>_. A) G"
    and q: "A \<Longrightarrow> q = value_bytes v"
    and w: "wire_of v = w" "presence_of v = pr"
    and cr: "G \<Longrightarrow> call_room s p f v" and fb: "G \<Longrightarrow> fbytes \<le> max_field_bytes (limits s)"
    and len: "G \<Longrightarrow> len = Inr (length (value_bytes v))"
    and sel: "validate_field f w pr s = Inr spec"
    and C: "A \<Longrightarrow> selects s f w pr \<Longrightarrow> C"
  shows "yields s p (in_order [ensure_field_bytes fbytes, ensure_framed spec len, begin_field f w pr, payload,
      complete_field]) (field_bytes f v) 1 0 (\<lambda>_. C) G"
proof -
  have y: "yields s p (in_order [ensure_field_bytes fbytes, ensure_framed spec len, begin_field f w pr, payload,
      complete_field]) (field_prefix f w pr @ q) 1 0 (\<lambda>_. A) G"
    by (rule yields_framed_field [OF sel])
      (use payload cr fb len call_roomD [of s p f v] in auto)
  show ?thesis
  proof (cases A)
    case True
    then show ?thesis using y q C sel unfolding field_bytes_def w
      by (auto simp: selects_def elim: yields_weaken)
  next
    case False
    then show ?thesis using y by (auto intro: yields_absurd)
  qed
qed

lemma call_room_selects: "call_room s p f v \<Longrightarrow> wire_of v = w \<Longrightarrow> presence_of v = pr \<Longrightarrow> selects s f w pr"
  by (auto simp: call_room_def)

lemma call_room_payload:
  assumes "call_room s p f v" "same_config s s'" "length p' = length p + (15 + length (field_name f))"
    "k \<le> length (value_bytes v)"
  shows "room (limits s') (length p' + k)"
  using call_roomD(3) [OF assms(1)] assms(2-4) by (auto simp: same_config_limits elim: room_mono)

lemma yields_encode_utf8:
  assumes "G \<Longrightarrow> call_room s p f (VUtf8 b)" "G \<Longrightarrow> length b \<le> max_field_bytes (limits s)"
  shows "yields s p (encode_utf8 f b) (field_bytes f (VUtf8 b)) 1 0 (\<lambda>_. selects s f Utf8 Required) G"
  unfolding encode_utf8_def
  by (rule yields_validating yields_ensuring_then yields_field_op room_append_len_bytes
    | (use assms call_roomD [of s p f "VUtf8 b"] in
        \<open>auto simp: same_config_limits intro: room_mono [OF call_roomD(3) [of s p f "VUtf8 b"]] call_room_selects [of s p f "VUtf8 b"]; fail\<close>))+

lemma yields_fixed_field:
  assumes "G \<Longrightarrow> call_room s p f v" "G \<Longrightarrow> length (value_bytes v) \<le> max_field_bytes (limits s)"
    and "presence_of v = Required"
  shows "yields s p (fixed_field f (wire_of v) (value_bytes v)) (field_bytes f v) 1 0
     (\<lambda>_. selects s f (wire_of v) Required) G"
  unfolding fixed_field_def
  by (rule yields_validating yields_ensuring_then yields_field_op room_append_bytes
    | (use assms call_roomD [of s p f v] in
        \<open>auto simp: same_config_limits intro: room_mono [OF call_roomD(3) [of s p f v]] call_room_selects [of s p f v]; fail\<close>))+

lemma yields_encode_finite_f64:
  assumes "G \<Longrightarrow> call_room s p f (VFloat v)" "G \<Longrightarrow> 8 \<le> max_field_bytes (limits s)"
    and "G \<Longrightarrow> is_finite_bits v"
  shows "yields s p (encode_finite_f64 f v) (field_bytes f (VFloat v)) 1 0
     (\<lambda>_. selects s f FiniteF64 Required \<and> is_finite_bits v) G"
proof (cases "is_finite_bits v")
  case True
  then show ?thesis using yields_fixed_field [of G s p f "VFloat v"] assms
    by (auto simp: encode_finite_f64_def elim!: yields_weaken)
next
  case False
  then show ?thesis using assms by (auto simp: encode_finite_f64_def intro: yields_refuse)
qed

lemma yields_encode_optional_bytes:
  assumes "G \<Longrightarrow> call_room s p f (VOptional b)"
    "G \<Longrightarrow> (case b of None \<Rightarrow> 0 | Some b \<Rightarrow> length b) \<le> max_field_bytes (limits s)"
  shows "yields s p (encode_optional_bytes f b) (field_bytes f (VOptional b)) 1 0
     (\<lambda>_. selects s f Bytes Optional) G"
proof (cases b)
  case None
  show ?thesis unfolding encode_optional_bytes_def None option.case
    by (rule yields_validating yields_ensuring_then yields_field_op room_append_bytes
      | (use None assms call_roomD [of s p f "VOptional None"] in
          \<open>auto simp: same_config_limits intro: room_mono [OF call_roomD(3) [of s p f "VOptional None"]] call_room_selects [of s p f "VOptional None"]; fail\<close>))+
next
  case (Some x)
  show ?thesis unfolding encode_optional_bytes_def Some option.case
    by (rule yields_validating yields_ensuring_then yields_field_op yields_seq yields_single room_append_bytes
          room_append_len_bytes
      | (use Some assms call_roomD [of s p f "VOptional (Some x)"] in
          \<open>auto simp: same_config_limits intro: room_mono [OF call_roomD(3) [of s p f "VOptional (Some x)"]] call_room_selects [of s p f "VOptional (Some x)"]; fail\<close>))+
qed

lemma yields_encode_variant:
  assumes "G \<Longrightarrow> call_room s p f (VVariant v b)" "G \<Longrightarrow> length b \<le> max_field_bytes (limits s)"
  shows "yields s p (encode_variant f v b) (field_bytes f (VVariant v b)) 1 0
     (\<lambda>_. selects s f Variant Required) G"
  unfolding encode_variant_def in_order_group2
  by (rule yields_validating yields_ensuring_then yields_field_op yields_seq yields_single room_append_bytes
        room_append_len_bytes
    | (use assms call_roomD [of s p f "VVariant v b"] in
        \<open>auto simp: same_config_limits intro: room_mono [OF call_roomD(3) [of s p f "VVariant v b"]] call_room_selects [of s p f "VVariant v b"]; fail\<close>))+

end
