(* ===== verification/Identity_Collections.thy ===== *)
theory Identity_Collections
  imports Identity_Rules "HOL-Library.List_Lexorder"
begin

text \<open>
  Rules of the encoder logic for the loops: streamed bytes, ordered rows, canonical sets with their
  order check, and digests of children.
\<close>

section \<open>General rules\<close>

lemma yields_checkpoint_then:
  assumes "\<And>s'. enc_ok s' p \<Longrightarrow> same_config s s' \<Longrightarrow> next_field s' = next_field s \<Longrightarrow>
      collection_items s' = collection_items s \<Longrightarrow> yields s' p (f ()) q n m P G"
  shows "yields s p (and_then checkpoint f) q n m P G"
  by (rule yields_and_then [OF yields_checkpoint, where q' = q and n' = n and m' = m]) (use assms in auto)

lemma yields_then:
  assumes "yields s p c q n m P G"
    and "\<And>x s'. P x \<Longrightarrow> same_config s s' \<Longrightarrow> next_field s' = next_field s + n \<Longrightarrow>
      collection_items s' = collection_items s + m \<Longrightarrow> yields s' (p @ q) (f x) q' n' m' Q G"
    and "qq = q @ q'" "nn = n + n'" "mm = m + m'"
  shows "yields s p (and_then c f) qq nn mm Q G"
  by (rule yields_and_then [OF assms(1)]) (use assms(2-5) in auto)

lemma yields_check_then:
  assumes "yields s p c [] 0 0 P G"
    and "\<And>x s'. P x \<Longrightarrow> same_config s s' \<Longrightarrow> next_field s' = next_field s \<Longrightarrow>
      collection_items s' = collection_items s \<Longrightarrow> yields s' p (f x) q n m Q G"
  shows "yields s p (and_then c f) q n m Q G"
  by (rule yields_then [OF assms(1), where q' = q and n' = n and m' = m]) (use assms(2) in auto)

lemma yields_require_declared:
  "(G \<Longrightarrow> observed = declared) \<Longrightarrow> yields s p (require_declared declared observed) [] 0 0 (\<lambda>_. observed = declared) G"
  by (auto simp: require_declared_def intro!: yields_return yields_refuse)

section \<open>Streamed bytes\<close>

lemma yields_stream_chunks_in:
  assumes "G \<Longrightarrow> observed + length (concat chunks) \<le> declared \<and> declared \<le> u64_max"
    and "G \<Longrightarrow> cnt + length chunks \<le> max_collection_items (limits s) \<and> cnt + length chunks \<le> u64_max"
    and "G \<Longrightarrow> room (limits s) (length p + length (concat chunks))"
  shows "yields s p (stream_chunks_in declared observed cnt chunks) (concat chunks) 0 0
     (\<lambda>total. total = observed + length (concat chunks)) G"
  using assms
proof (induction chunks arbitrary: observed cnt s p)
  case Nil
  then show ?case by (simp add: yields_return)
next
  case (Cons chunk chunks)
  show ?case
    unfolding stream_chunks_in.simps
  proof (rule yields_checkpoint_then, rule yields_reading, rule yields_ensuring_then, rule yields_ensuring_then,
      rule yields_ensuring_then)
    fix s' k u n assume s': "same_config s s'" "next_field s' = next_field s"
      and k: "add_u64 cnt 1 = Inr k" and n: "attempt (as_u64 (length chunk)) (add_u64 observed) = Inr n"
    show "yields s' p (if declared < n then refuse (DeclaredLengthMismatch declared n)
        else and_then (append_bytes chunk) (\<lambda>_. stream_chunks_in declared n k chunks))
        (concat (chunk # chunks)) 0 0 (\<lambda>total. total = observed + length (concat (chunk # chunks))) G"
    proof (cases "declared < n")
      case True
      then show ?thesis using Cons.prems n by (auto intro!: yields_refuse)
    next
      case False
      show ?thesis unfolding if_not_P [OF False]
      proof (rule yields_then [where P = "\<lambda>_. True"])
        show "yields s' p (append_bytes chunk) chunk 0 0 (\<lambda>_. True) G"
          by (rule room_append_bytes) (use Cons.prems s' in \<open>auto simp: same_config_limits elim: room_mono\<close>)
        fix x s2 assume s2: "same_config s' s2"
        have "yields s2 (p @ chunk) (stream_chunks_in declared n k chunks) (concat chunks) 0 0
            (\<lambda>total. total = n + length (concat chunks)) G"
          by (rule Cons.IH) (use Cons.prems s' s2 k n in \<open>auto simp: same_config_limits add.assoc\<close>)
        then show "yields s2 (p @ chunk) (stream_chunks_in declared n k chunks) (concat chunks) 0 0
            (\<lambda>total. total = observed + length (concat (chunk # chunks))) G"
          by (rule yields_weaken) (use n in auto)
      qed simp_all
    qed
  qed (use Cons.prems in \<open>auto simp: same_config_limits\<close>)
qed

lemma yields_encode_bytes_stream:
  assumes cr: "G \<Longrightarrow> call_room s p f (VBytes (concat chunks))" and fb: "G \<Longrightarrow> declared \<le> max_field_bytes (limits s)"
    and d: "G \<Longrightarrow> declared = length (concat chunks)"
    and k: "G \<Longrightarrow> length chunks \<le> max_collection_items (limits s) \<and> length chunks \<le> u64_max"
  shows "yields s p (encode_bytes_stream f declared chunks) (field_bytes f (VBytes (concat chunks))) 1 0
     (\<lambda>_. selects s f Bytes Required \<and> declared = length (concat chunks)) G"
proof -
  let ?stream = "and_then (stream_chunks_in declared 0 0 chunks) (require_declared declared)"
  have stream: "yields s2 p2 ?stream (concat chunks) 0 0 (\<lambda>_. declared = length (concat chunks)) G"
    if "limits s2 = limits s" "G \<Longrightarrow> room (limits s) (length p2 + length (concat chunks))" for s2 p2
    by (rule yields_then yields_stream_chunks_in yields_weaken [OF yields_require_declared]
      | (use that d k call_roomD [of s p f "VBytes (concat chunks)"] cr in \<open>auto simp: room_def; fail\<close>))+
  show ?thesis
    unfolding encode_bytes_stream_def in_order_group2
    by (rule yields_validating yields_field_op yields_seq yields_single room_append_bytes stream
      | (use cr d fb call_roomD [of s p f "VBytes (concat chunks)"] in
          \<open>auto simp: same_config_limits len_bytes_def add_u64_Inr [symmetric] intro: call_room_selects
            room_mono [OF call_roomD(3) [of s p f "VBytes (concat chunks)"]]; fail\<close>))+
qed

lemma yields_encode_bytes:
  assumes cr: "G \<Longrightarrow> call_room s p f (VBytes b)" and fb: "G \<Longrightarrow> length b \<le> max_field_bytes (limits s)"
    and k: "G \<Longrightarrow> b = [] \<or> 1 \<le> max_collection_items (limits s)"
  shows "yields s p (encode_bytes f b) (field_bytes f (VBytes b)) 1 0 (\<lambda>_. selects s f Bytes Required) G"
proof (cases "b = []")
  case True
  have "yields s p (encode_bytes_stream f 0 []) (field_bytes f (VBytes (concat []))) 1 0
     (\<lambda>_. selects s f Bytes Required \<and> 0 = length (concat ([] :: u8 list list))) G"
    by (rule yields_encode_bytes_stream) (use cr True in auto)
  then show ?thesis unfolding encode_bytes_def using True by (auto elim: yields_weaken)
next
  case False
  have "yields s p (encode_bytes_stream f (length b) [b]) (field_bytes f (VBytes (concat [b]))) 1 0
     (\<lambda>_. selects s f Bytes Required \<and> length b = length (concat [b])) G"
    by (rule yields_encode_bytes_stream) (use cr fb k False in \<open>auto simp: u64_max_def\<close>)
  then have "yields s p (encode_bytes_stream f (length b) [b]) (field_bytes f (VBytes b)) 1 0
     (\<lambda>_. selects s f Bytes Required) G" by (auto elim: yields_weaken)
  then show ?thesis unfolding encode_bytes_def if_not_P [OF False]
    by (rule_tac yields_ensuring_then) (use cr call_roomD [of s p f "VBytes b"] in auto)
qed

section \<open>Counted items\<close>

lemma yields_count_item:
  assumes "observed + 1 \<le> declared \<Longrightarrow> yields s p (k (observed + 1)) q n m P G"
    and "G \<Longrightarrow> observed + 1 \<le> declared \<and> observed + 1 \<le> u64_max"
  shows "yields s p (count_item declared observed k) q n m P G"
  unfolding count_item_def
  by (rule yields_ensuring_then) (use assms in \<open>auto intro!: yields_refuse\<close>)

lemma yields_begin_ordered_row:
  assumes "G \<Longrightarrow> payload + (8 + n) \<le> max_field_bytes (limits s)" "G \<Longrightarrow> payload + (8 + n) \<le> u64_max"
    and "G \<Longrightarrow> room (limits s) (length p + (8 + n))"
  shows "yields s p (begin_ordered_row payload n) (le_bytes 8 n) 0 0 (\<lambda>r. r = payload + (8 + n)) G"
proof -
  have seq: "yields s' p (in_order [ensure_field_bytes b, ensure_additional a,
      append_bytes (le_bytes 8 n)]) (le_bytes 8 n) 0 0 (\<lambda>_. True) G"
    if "same_config s s'" "a = 8 + n" "b = payload + (8 + n)" for s' a b
    by (rule yields_seq yields_single yields_ensure_field_bytes yields_ensure_additional room_append_bytes
      | (use assms that in \<open>auto simp: same_config_limits elim: room_mono; fail\<close>))+
  show ?thesis unfolding begin_ordered_row_def
    by (rule yields_check_then [OF yields_ensure_field_bytes] yields_ensuring_then yields_then [OF seq] yields_return
      | (use assms in \<open>auto; fail\<close>))+
qed

lemma yields_ordered_rows:
  assumes "G \<Longrightarrow> observed + length vs \<le> declared \<and> declared \<le> u64_max"
    and "G \<Longrightarrow> payload + length (concat (map len_bytes vs)) \<le> max_field_bytes (limits s)
      \<and> payload + length (concat (map len_bytes vs)) \<le> u64_max"
    and "G \<Longrightarrow> room (limits s) (length p + length (concat (map len_bytes vs)))"
  shows "yields s p (ordered_rows declared observed payload vs) (concat (map len_bytes vs)) 0 0
     (\<lambda>r. r = observed + length vs) G"
  using assms
proof (induction vs arbitrary: observed payload s p)
  case Nil
  then show ?case by (simp add: yields_return)
next
  case (Cons v vs)
  have rec: "yields s' p' (ordered_rows declared (observed + 1) a vs)
      (concat (map len_bytes vs)) 0 0 (\<lambda>r. r = observed + length (v # vs)) G"
    if "limits s' = limits s" "length p' = length p + length (len_bytes v)" "a = payload + (8 + length v)" for s' p' a
    by (rule yields_weaken [OF Cons.IH]) (use Cons.prems that in \<open>auto simp: add.assoc\<close>)
  show ?case unfolding ordered_rows.simps
    by (rule yields_count_item yields_ensuring_then yields_then [OF yields_begin_ordered_row]
          yields_then [OF room_append_bytes] rec
      | (use Cons.prems in \<open>auto simp: same_config_limits len_bytes_def room_def; fail\<close>))+
qed

section \<open>The order check\<close>

lemma compare_bytes_append:
  "length xs = length ys \<Longrightarrow>
   compare_bytes (xs @ xs') (ys @ ys') = (case compare_bytes xs ys of Equal \<Rightarrow> compare_bytes xs' ys' | r \<Rightarrow> r)"
  by (induction xs ys rule: list_induct2) auto

lemma compare_bytes_Equal [simp]: "compare_bytes xs ys = Equal \<longleftrightarrow> xs = ys"
  by (induction xs ys rule: compare_bytes.induct) auto

lemma compare_bytes_refl [simp]: "compare_bytes xs xs = Equal"
  by simp

lemma compare_bytes_Less: "compare_bytes xs ys = Less \<longleftrightarrow> xs < ys"
  by (induction xs ys rule: compare_bytes.induct) auto

lemma compare_bytes_Nil: "compare_bytes [] ys = compare_nat 0 (length ys)" "compare_bytes xs [] = compare_nat (length xs) 0"
  by (cases ys; simp add: compare_nat_def) (cases xs; simp add: compare_nat_def)

lemma compare_strides_step:
  "compare_strides stride common offset left right =
    (if offset < common
     then if stride = 0 then (\<lambda>self. (Panicked, self))
          else and_then checkpoint (\<lambda>_.
            (let stop = min (offset + stride) common;
                 slice = (\<lambda>xs. take (stop - offset) (drop offset xs))
             in case compare_bytes (slice left) (slice right) of
                  Equal \<Rightarrow> compare_strides stride common stop left right
                | other \<Rightarrow> return_with other))
     else return_with (compare_nat (length left) (length right)))"
  by (rule ext, subst compare_strides.simps)
    (auto simp: and_then_def return_with_def Let_def split: prod.splits outcome.splits ordering.splits)

lemma yields_compare_strides:
  assumes "stride \<noteq> 0" "offset \<le> min (length left) (length right)" "take offset left = take offset right"
  shows "yields s p (compare_strides stride (min (length left) (length right)) offset left right) [] 0 0
     (\<lambda>r. r = compare_bytes left right) G"
  using assms
proof (induction "min (length left) (length right) - offset" arbitrary: offset s rule: less_induct)
  case less
  let ?common = "min (length left) (length right)"
  have split: "compare_bytes left right = compare_bytes (drop offset left) (drop offset right)"
    using compare_bytes_append [of "take offset left" "take offset right" "drop offset left" "drop offset right"]
      less.prems(2) compare_bytes_Equal [THEN iffD2, OF less.prems(3)] unfolding append_take_drop_id by simp
  show ?case
  proof (cases "offset < ?common")
    case False
    then have "drop offset left = [] \<or> drop offset right = []" by auto
    then have "compare_bytes left right = compare_nat (length left) (length right)"
      unfolding split using less.prems(2) by (auto simp: compare_bytes_Nil compare_nat_def)
    then show ?thesis using False by (auto simp: compare_strides_step intro: yields_return)
  next
    case True
    define stop where "stop = min (offset + stride) ?common"
    let ?l = "take (stop - offset) (drop offset left)" and ?r = "take (stop - offset) (drop offset right)"
    have stop: "offset < stop" "stop \<le> ?common" using True less.prems(1) by (auto simp: stop_def)
    have cut: "take stop xs = take offset xs @ take (stop - offset) (drop offset xs)" for xs :: "u8 list"
      using stop(1) take_add [of offset "stop - offset" xs] by simp
    have "drop offset xs = take (stop - offset) (drop offset xs) @ drop stop xs" for xs :: "u8 list"
      using stop(1) append_take_drop_id [of "stop - offset" "drop offset xs"] by simp
    moreover have "length ?l = length ?r" using stop by auto
    ultimately have seg: "compare_bytes left right = (case compare_bytes ?l ?r of
        Equal \<Rightarrow> compare_bytes (drop stop left) (drop stop right) | r \<Rightarrow> r)"
      unfolding split using compare_bytes_append [of ?l ?r "drop stop left" "drop stop right"] by metis
    have rec: "yields s' p (compare_strides stride ?common stop left right) [] 0 0 (\<lambda>r. r = compare_bytes left right) G"
      if "?l = ?r" for s'
      by (rule less.hyps) (use True stop less.prems that cut in auto)
    have "yields s p (and_then checkpoint (\<lambda>_. case compare_bytes ?l ?r of
          Equal \<Rightarrow> compare_strides stride ?common stop left right | other \<Rightarrow> return_with other)) [] 0 0
        (\<lambda>r. r = compare_bytes left right) G"
      by (rule yields_checkpoint_then)
        (use rec seg in \<open>auto split: ordering.splits intro: yields_return\<close>)
    then show ?thesis using True less.prems(1)
      unfolding compare_strides_step [of stride ?common offset] Let_def stop_def [symmetric] by simp
  qed
qed

lemma yields_compare_canonical_slices:
  "yields s p (compare_canonical_slices left right) [] 0 0 (\<lambda>r. r = compare_bytes left right) G"
proof (cases "enc_ok s p")
  case True
  then show ?thesis unfolding compare_canonical_slices_def
    by (intro yields_reading yields_checkpoint_then yields_compare_strides) (auto simp: enc_ok_def)
qed (simp add: yields_def)

section \<open>Canonical sets\<close>

definition increasing_from :: "u8 list option \<Rightarrow> u8 list list \<Rightarrow> bool" where
  "increasing_from previous vs \<longleftrightarrow> sorted_wrt (<) ((case previous of None \<Rightarrow> [] | Some b \<Rightarrow> [b]) @ vs)"

lemma increasing_from_Cons:
  "increasing_from previous (v # vs) \<longleftrightarrow>
     (case previous of None \<Rightarrow> True | Some b \<Rightarrow> b < v) \<and> increasing_from (Some v) vs"
  by (auto simp: increasing_from_def split: option.splits)

lemma yields_require_increasing:
  assumes "G \<Longrightarrow> case previous of None \<Rightarrow> True | Some b \<Rightarrow> b < v"
  shows "yields s p (require_increasing previous v index) [] 0 0
     (\<lambda>_. case previous of None \<Rightarrow> True | Some b \<Rightarrow> b < v) G"
proof (cases previous)
  case None
  then show ?thesis by (simp add: require_increasing_def yields_return)
next
  case (Some b)
  have "yields s p (and_then (compare_canonical_slices b v) (\<lambda>ordering. case ordering of
         Equal \<Rightarrow> refuse (DuplicateSetItem index) | Greater \<Rightarrow> refuse (NonCanonicalSetOrder index)
       | Less \<Rightarrow> return_with ())) [] 0 0 (\<lambda>_. b < v) G"
  proof (rule yields_check_then [OF yields_compare_canonical_slices])
    fix r s' assume r: "r = compare_bytes b v"
    have "r \<noteq> Less \<Longrightarrow> \<not> G" using r assms Some by (auto simp: compare_bytes_Less)
    moreover have "r = Less \<Longrightarrow> b < v" using r by (simp add: compare_bytes_Less)
    ultimately show "yields s' p (case r of Equal \<Rightarrow> refuse (DuplicateSetItem index)
        | Greater \<Rightarrow> refuse (NonCanonicalSetOrder index) | Less \<Rightarrow> return_with ()) [] 0 0 (\<lambda>_. b < v) G"
      by (cases r) (auto intro: yields_return yields_refuse)
  qed
  then show ?thesis using Some by (simp add: require_increasing_def)
qed

lemma yields_set_items:
  assumes "G \<Longrightarrow> observed + length vs \<le> declared \<and> declared \<le> u64_max"
    and "G \<Longrightarrow> payload + length (concat (map len_bytes vs)) \<le> max_field_bytes (limits s)
      \<and> payload + length (concat (map len_bytes vs)) \<le> u64_max"
    and "G \<Longrightarrow> room (limits s) (length p + length (concat (map len_bytes vs)))"
    and "G \<Longrightarrow> increasing_from previous vs"
  shows "yields s p (set_items declared observed payload previous vs) (concat (map len_bytes vs)) 0 0
     (\<lambda>r. r = observed + length vs \<and> increasing_from previous vs) G"
  using assms
proof (induction vs arbitrary: observed payload previous s p)
  case Nil
  then show ?case by (auto simp: increasing_from_def intro!: yields_return split: option.splits)
next
  case (Cons v vs)
  let ?below = "case previous of None \<Rightarrow> True | Some b \<Rightarrow> b < v"
  have rec: "yields s' p' (set_items declared (observed + 1) a (Some v) vs)
      (concat (map len_bytes vs)) 0 0 (\<lambda>r. r = observed + length (v # vs) \<and> increasing_from previous (v # vs)) G"
    if "limits s' = limits s" "length p' = length p + length (len_bytes v)" ?below "a = payload + (8 + length v)"
    for s' p' a
    by (rule yields_weaken [OF Cons.IH]) (use Cons.prems that in \<open>auto simp: add.assoc increasing_from_Cons\<close>)
  have tail: "yields s' p' (in_order [require_increasing previous v index, append_len_bytes v]) (len_bytes v) 0 0
      (\<lambda>_. ?below) G" if "limits s' = limits s" "length p' = length p" for s' p' index
    by (rule yields_in_order_fact [OF yields_require_increasing], use Cons.prems in \<open>simp add: increasing_from_Cons\<close>,
        rule yields_single, rule room_append_len_bytes)
      (use Cons.prems that in \<open>auto simp: same_config_limits room_def\<close>)
  have step: "yields s' p (in_order [ensure_field_bytes k,
       and_then (ensuring (add_u64 8 c)) ensure_additional, require_increasing previous v index,
       append_len_bytes v]) (len_bytes v) 0 0 (\<lambda>_. ?below) G"
    if "limits s' = limits s" "k = payload + (8 + length v)" "c = length v" for s' index k c
    by (rule tail yields_seq yields_ensure_field_bytes yields_ensuring_then yields_ensure_additional
      | (use Cons.prems that in \<open>auto simp: same_config_limits room_def; fail\<close>))+
  show ?case unfolding set_items.simps
    by (rule yields_count_item yields_ensuring_then yields_check_then [OF yields_ensure_field_bytes]
          yields_then [OF step] rec
      | (simp; fail)
      | (use Cons.prems in \<open>auto simp: same_config_limits increasing_from_Cons room_def; fail\<close>))+
qed

end
