(* ===== verification/Identity_Fields_Rules.thy ===== *)
theory Identity_Fields_Rules
  imports Identity_Collections
begin

text \<open>Rules of the encoder logic for the collection and child fields, and for schema validation.\<close>

section \<open>Collections\<close>

lemma yields_declared:
  assumes "yields s p c (pre @ le_bytes 8 d @ post) n m (\<lambda>_. A \<and> d = k) G"
  shows "yields s p c (pre @ le_bytes 8 k @ post) n m (\<lambda>_. A \<and> d = k) G"
proof (cases "d = k")
  case False
  then show ?thesis using assms by (auto intro: yields_absurd)
qed (use assms in simp)

lemma yields_begin_collection:
  assumes "G \<Longrightarrow> selects s f w Required" "G \<Longrightarrow> d \<le> max_collection_items (limits s)"
    "G \<Longrightarrow> 8 \<le> max_field_bytes (limits s)" "G \<Longrightarrow> room (limits s) (length p + (15 + length (field_name f) + 8))"
  shows "yields s p (begin_collection f w d) (field_prefix f w Required @ le_bytes 8 d) 0 0
     (\<lambda>r. r = 8 \<and> selects s f w Required) G"
  unfolding begin_collection_def
proof (rule yields_validating, rule yields_reading)
  fix spec assume sel: "validate_field f w Required s = Inr spec"
  then have name: "spec_name spec = field_name f" and s: "selects s f w Required"
    by (rule validate_field_name, auto simp: selects_def)
  have seq: "yields s p (in_order [ensuring (enforce_limit CollectionItems d (max_collection_items (limits s))),
       ensure_field_bytes 8, ensure_framed spec (Inr 8), begin_field f w Required, append_bytes (le_bytes 8 d)])
     (field_prefix f w Required @ le_bytes 8 d) 0 0 (\<lambda>_. True) G"
    by (rule yields_ensuring_first yields_seq yields_single yields_ensure_field_bytes yields_ensure_framed
        yields_begin_field room_append_bytes
      | (simp; fail)
      | (use assms(2-4) name s in \<open>auto simp: same_config_limits selects_config elim: room_mono
          intro: same_config_trans; fail\<close>)
      | (use assms(2-4) s in \<open>auto simp: same_config_def selects_def validate_field_Inr\<close>))+
  show "yields s p (and_then (in_order [ensuring (enforce_limit CollectionItems d (max_collection_items (limits s))),
       ensure_field_bytes 8, ensure_framed spec (Inr 8), begin_field f w Required, append_bytes (le_bytes 8 d)])
     (\<lambda>_. return_with 8)) (field_prefix f w Required @ le_bytes 8 d) 0 0 (\<lambda>r. r = 8 \<and> selects s f w Required) G"
    by (rule yields_then [OF seq yields_return]) (use s in auto)
qed (rule assms(1))

lemma yields_finish_ordered_bytes:
  assumes "G \<Longrightarrow> collection_items s + k \<le> u64_max" "G \<Longrightarrow> next_field s + 1 \<le> u32_max"
  shows "yields s p (in_order [add_collection_items k, complete_field]) [] 1 k (\<lambda>_. True) G"
  by (rule yields_seq yields_single yields_add_collection_items yields_complete_field
    | (use assms in \<open>auto; fail\<close>))+

lemma yields_end_collection:
  assumes "G \<Longrightarrow> d = k" "G \<Longrightarrow> collection_items s + k \<le> u64_max" "G \<Longrightarrow> next_field s + 1 \<le> u32_max"
  shows "yields s p (in_order [require_declared d k, add_collection_items k, complete_field]) [] 1 k (\<lambda>_. d = k) G"
  by (rule yields_in_order_fact [OF yields_require_declared, where q' = "[]" and n' = 1 and m' = k and B = True],
      use assms in simp, rule yields_finish_ordered_bytes)
    (use assms in auto)

text \<open>What the limits must admit for a value, beyond room in the frame.\<close>

fun limits_admit :: "canonical_limits \<Rightarrow> field_value \<Rightarrow> bool" where
  "limits_admit lim (VUtf8 b) \<longleftrightarrow> length b \<le> max_field_bytes lim"
| "limits_admit lim (VBytes b) \<longleftrightarrow> length b \<le> max_field_bytes lim \<and> (b = [] \<or> 1 \<le> max_collection_items lim)"
| "limits_admit lim (VOptional b) \<longleftrightarrow> (case b of None \<Rightarrow> 0 | Some b \<Rightarrow> length b) \<le> max_field_bytes lim"
| "limits_admit lim (VVariant v b) \<longleftrightarrow> length b \<le> max_field_bytes lim"
| "limits_admit lim (VOrdered vs) \<longleftrightarrow> length (value_bytes (VOrdered vs)) \<le> max_field_bytes lim
     \<and> length vs \<le> max_collection_items lim"
| "limits_admit lim (VSet vs) \<longleftrightarrow> length (value_bytes (VSet vs)) \<le> max_field_bytes lim
     \<and> length vs \<le> max_collection_items lim"
| "limits_admit lim (VChildren r D ds) \<longleftrightarrow> length (value_bytes (VChildren r D ds)) \<le> max_field_bytes lim
     \<and> length ds \<le> max_collection_items lim"
| "limits_admit lim v \<longleftrightarrow> length (value_bytes v) \<le> max_field_bytes lim"

lemma length_vs_bytes: "length vs \<le> length (concat (map len_bytes vs))"
  by (induction vs) auto

lemma same_config_collection:
  "same_config s s' \<Longrightarrow> limits s' = limits s" "same_config s s' \<Longrightarrow> same_config s' s'' \<Longrightarrow> limits s'' = limits s"
  by (simp_all add: same_config_def)

lemma yields_encode_ordered_bytes:
  assumes cr: "G \<Longrightarrow> call_room s p f (VOrdered vs)" and la: "G \<Longrightarrow> limits_admit (limits s) (VOrdered vs)"
    and d: "G \<Longrightarrow> d = length vs"
  shows "yields s p (encode_ordered_bytes f d vs) (field_bytes f (VOrdered vs)) 1 (length vs)
     (\<lambda>_. selects s f OrderedBytes Required \<and> d = length vs) G"
proof -
  have G: "selects s f OrderedBytes Required" "next_field s + 1 \<le> u32_max"
    "collection_items s + length vs \<le> u64_max" "length (concat (map len_bytes vs)) + 8 \<le> u64_max"
    "length (concat (map len_bytes vs)) + 8 \<le> max_field_bytes (limits s)" "length vs \<le> max_collection_items (limits s)"
    "room (limits s) (length p + (15 + length (field_name f) + (8 + length (concat (map len_bytes vs)))))"
    "length vs \<le> u64_max" "d = length vs" if G
    using call_roomD [OF cr [OF that]] la [OF that] d [OF that] length_vs_bytes [of vs] by auto
  have "yields s p (encode_ordered_bytes f d vs)
     (field_prefix f OrderedBytes Required @ le_bytes 8 d @ concat (map len_bytes vs)) 1 (length vs)
     (\<lambda>_. selects s f OrderedBytes Required \<and> d = length vs) G"
    unfolding encode_ordered_bytes_def begin_ordered_bytes_def
  proof (rule yields_then [OF yields_begin_collection, where q' = "concat (map len_bytes vs)" and n' = 1 and m' = "length vs"])
    fix r :: nat and s1 assume r: "r = 8 \<and> selects s f OrderedBytes Required" and c: "same_config s s1"
      and n: "next_field s1 = next_field s + 0" "collection_items s1 = collection_items s + 0"
    show "yields s1 (p @ field_prefix f OrderedBytes Required @ le_bytes 8 d)
        (and_then (ordered_rows d 0 r vs) (\<lambda>k. in_order [require_declared d k, finish_ordered_bytes k]))
        (concat (map len_bytes vs)) 1 (length vs) (\<lambda>_. selects s f OrderedBytes Required \<and> d = length vs) G"
    proof (rule yields_then [OF yields_ordered_rows, where q' = "[]" and n' = 1 and m' = "length vs"])
      fix k :: nat and s2 assume k: "k = 0 + length vs" and c2: "same_config s1 s2"
        and n2: "next_field s2 = next_field s1 + 0" "collection_items s2 = collection_items s1 + 0"
      have "in_order [require_declared d k, finish_ordered_bytes k]
          = in_order [require_declared d k, add_collection_items k, complete_field]"
        by (simp add: finish_ordered_bytes_def in_order.simps and_then_assoc)
      moreover have "yields s2 ((p @ field_prefix f OrderedBytes Required @ le_bytes 8 d) @ concat (map len_bytes vs))
          (in_order [require_declared d k, add_collection_items k, complete_field]) [] 1 k (\<lambda>_. d = k) G"
        by (rule yields_end_collection) (use G n n2 k in auto)
      ultimately show "yields s2 ((p @ field_prefix f OrderedBytes Required @ le_bytes 8 d) @ concat (map len_bytes vs))
          (in_order [require_declared d k, finish_ordered_bytes k]) [] 1 (length vs)
          (\<lambda>_. selects s f OrderedBytes Required \<and> d = length vs) G"
        using k r by (auto elim: yields_weaken)
    qed (use G c r in \<open>auto simp: same_config_limits add.assoc\<close>)
  qed (use G in \<open>auto elim: room_mono\<close>)
  then show ?thesis
    unfolding field_bytes_def value_bytes.simps wire_of.simps presence_of.simps by (rule yields_declared)
qed

lemma yields_encode_canonical_set:
  assumes cr: "G \<Longrightarrow> call_room s p f (VSet vs)" and la: "G \<Longrightarrow> limits_admit (limits s) (VSet vs)"
    and d: "G \<Longrightarrow> d = length vs" and inc: "G \<Longrightarrow> sorted_wrt (<) vs"
  shows "yields s p (encode_canonical_set f d vs) (field_bytes f (VSet vs)) 1 (length vs)
     (\<lambda>_. (selects s f CanonicalSet Required \<and> sorted_wrt (<) vs) \<and> d = length vs) G"
proof -
  have G: "selects s f CanonicalSet Required" "next_field s + 1 \<le> u32_max"
    "collection_items s + length vs \<le> u64_max" "length (concat (map len_bytes vs)) + 8 \<le> u64_max"
    "length (concat (map len_bytes vs)) + 8 \<le> max_field_bytes (limits s)" "length vs \<le> max_collection_items (limits s)"
    "room (limits s) (length p + (15 + length (field_name f) + (8 + length (concat (map len_bytes vs)))))"
    "length vs \<le> u64_max" "d = length vs" "increasing_from None vs" if G
    using call_roomD [OF cr [OF that]] la [OF that] d [OF that] length_vs_bytes [of vs] inc [OF that]
    by (auto simp: increasing_from_def)
  have "yields s p (encode_canonical_set f d vs)
     (field_prefix f CanonicalSet Required @ le_bytes 8 d @ concat (map len_bytes vs)) 1 (length vs)
     (\<lambda>_. (selects s f CanonicalSet Required \<and> sorted_wrt (<) vs) \<and> d = length vs) G"
    unfolding encode_canonical_set_def
  proof (rule yields_then [OF yields_begin_collection, where q' = "concat (map len_bytes vs)" and n' = 1 and m' = "length vs"])
    fix r :: nat and s1 assume r: "r = 8 \<and> selects s f CanonicalSet Required" and c: "same_config s s1"
      and n: "next_field s1 = next_field s + 0" "collection_items s1 = collection_items s + 0"
    show "yields s1 (p @ field_prefix f CanonicalSet Required @ le_bytes 8 d)
        (and_then (set_items d 0 r None vs) (\<lambda>k. in_order [require_declared d k, add_collection_items k, complete_field]))
        (concat (map len_bytes vs)) 1 (length vs)
        (\<lambda>_. (selects s f CanonicalSet Required \<and> sorted_wrt (<) vs) \<and> d = length vs) G"
    proof (rule yields_then [OF yields_set_items, where q' = "[]" and n' = 1 and m' = "length vs"])
      fix k :: nat and s2 assume k: "k = 0 + length vs \<and> increasing_from None vs" and c2: "same_config s1 s2"
        and n2: "next_field s2 = next_field s1 + 0" "collection_items s2 = collection_items s1 + 0"
      have "yields s2 ((p @ field_prefix f CanonicalSet Required @ le_bytes 8 d) @ concat (map len_bytes vs))
          (in_order [require_declared d k, add_collection_items k, complete_field]) [] 1 k (\<lambda>_. d = k) G"
        by (rule yields_end_collection) (use G n n2 k in auto)
      then show "yields s2 ((p @ field_prefix f CanonicalSet Required @ le_bytes 8 d) @ concat (map len_bytes vs))
          (in_order [require_declared d k, add_collection_items k, complete_field]) [] 1 (length vs)
          (\<lambda>_. (selects s f CanonicalSet Required \<and> sorted_wrt (<) vs) \<and> d = length vs) G"
        using k r by (auto simp: increasing_from_def elim: yields_weaken)
    qed (use G c r in \<open>auto simp: same_config_limits add.assoc\<close>)
  qed (use G in \<open>auto elim: room_mono\<close>)
  then show ?thesis
    unfolding field_bytes_def value_bytes.simps wire_of.simps presence_of.simps by (rule yields_declared)
qed

section \<open>Schema identifiers\<close>

lemma auxiliary_strides_step:
  "auxiliary_strides stride bytes h =
    (if bytes = [] then return_with h
     else if stride = 0 then (\<lambda>self. (Panicked, self))
     else and_then checkpoint (\<lambda>_ self.
       case blake3_update h (take (min stride (length bytes)) bytes) of
         None \<Rightarrow> (Panicked, self)
       | Some h \<Rightarrow> auxiliary_strides stride (drop (min stride (length bytes)) bytes) h self))"
  by (rule ext, subst auxiliary_strides.simps)
    (auto simp: and_then_def return_with_def Let_def split: prod.splits outcome.splits option.splits)

lemma yields_auxiliary_strides:
  assumes "stride \<noteq> 0" "length (absorbed @ bytes) \<le> 2 ^ 64"
  shows "yields s p (auxiliary_strides stride bytes (after kw fl absorbed)) [] 0 0
     (\<lambda>h. h = after kw fl (absorbed @ bytes)) G"
  using assms
proof (induction "length bytes" arbitrary: bytes absorbed s rule: less_induct)
  case less
  show ?case
  proof (cases "bytes = []")
    case True
    then show ?thesis by (simp add: auxiliary_strides_step yields_return)
  next
    case False
    let ?n = "min stride (length bytes)"
    have up: "blake3_update (after kw fl absorbed) (take ?n bytes) = Some (after kw fl (absorbed @ take ?n bytes))"
      by (rule update_after) (use less.prems in auto)
    have "yields s' p (auxiliary_strides stride (drop ?n bytes) (after kw fl (absorbed @ take ?n bytes))) [] 0 0
        (\<lambda>h. h = after kw fl (absorbed @ bytes)) G" for s'
      by (rule yields_weaken [OF less.hyps]) (use False less.prems in \<open>auto simp: min_def\<close>)
    then show ?thesis unfolding auxiliary_strides_step [of stride bytes] if_not_P [OF False] if_not_P [OF less.prems(1)]
      by (intro yields_checkpoint_then) (simp only: up option.case)
  qed
qed

lemma yields_auxiliary_updates:
  assumes "length (absorbed @ concat pieces) \<le> 2 ^ 64"
  shows "yields s p (auxiliary_updates pieces (after kw fl absorbed)) [] 0 0
     (\<lambda>h. h = after kw fl (absorbed @ concat pieces)) G"
  using assms
proof (induction pieces arbitrary: absorbed s)
  case Nil
  then show ?case by (simp add: yields_return)
next
  case (Cons piece pieces)
  have piece: "yields s p (auxiliary_update piece (after kw fl absorbed)) [] 0 0
      (\<lambda>h. h = after kw fl (absorbed @ piece)) G"
  proof (cases "enc_ok s p")
    case True
    then show ?thesis unfolding auxiliary_update_def
      by (intro yields_reading yields_auxiliary_strides) (use Cons.prems in \<open>auto simp: enc_ok_def\<close>)
  qed (simp add: yields_def)
  show ?case unfolding auxiliary_updates.simps
  proof (rule yields_check_then [OF piece])
    fix h s' assume "h = after kw fl (absorbed @ piece)"
    then show "yields s' p (auxiliary_updates pieces h) [] 0 0
        (\<lambda>h. h = after kw fl (absorbed @ concat (piece # pieces))) G"
      using Cons.IH [of "absorbed @ piece" s'] Cons.prems by simp
  qed
qed

lemma domains_fit: "length SCHEMA_ID_HASH_DOMAIN \<le> 2 ^ 64" "length CANONICAL_IDENTITY_HASH_DOMAIN \<le> 2 ^ 64"
  by (simp_all add: SCHEMA_ID_HASH_DOMAIN_def CANONICAL_IDENTITY_HASH_DOMAIN_def str_bytes_def)

lemma yields_compute_schema_id:
  assumes "addressable D"
  shows "yields s p (compute_schema_id D) [] 0 0 (\<lambda>x. x = schema_id_of D) G"
  unfolding compute_schema_id_def derive_key_hasher_after [OF domains_fit(1)] option.case
  by (rule yields_check_then [OF yields_auxiliary_updates])
    (use assms in \<open>auto simp: addressable_def schema_id_of_def intro: yields_return\<close>)

lemma length_schema_id_of [simp]: "length (schema_id_of D) = 32"
  by (simp add: schema_id_of_def)

lemma schema_id_for_schema_of: "addressable D \<Longrightarrow> schema_id_for_schema D = Some (schema_id_of D)"
  using b3.feed_state [of "[]" "write_schema_descriptor D" "domain_key SCHEMA_ID_HASH_DOMAIN" DERIVE_KEY_MATERIAL]
  unfolding schema_id_for_schema_def derive_key_hasher_after [OF domains_fit(1)] option.case
  by (simp add: addressable_def schema_id_of_def)

section \<open>Valid schemas\<close>

text \<open>Structural validity, to a number of child edges.\<close>

definition binding_ok :: "(canonical_schema \<Rightarrow> bool) option \<Rightarrow> field_spec \<Rightarrow> bool" where
  "binding_ok deeper f \<longleftrightarrow> (spec_child f \<noteq> None) = is_child_wire (spec_wire f)
     \<and> (case spec_child f of None \<Rightarrow> True
        | Some c \<Rightarrow> (case deeper of None \<Rightarrow> False | Some ok \<Rightarrow> ok (child_source c)))"

definition schema_valid_at :: "(canonical_schema \<Rightarrow> bool) option \<Rightarrow> canonical_schema \<Rightarrow> bool" where
  "schema_valid_at deeper D \<longleftrightarrow> domain_of D \<noteq> [] \<and> name_of D \<noteq> [] \<and> context_of D \<noteq> [] \<and> version_of D \<noteq> 0
     \<and> [] \<notin> spec_name ` set (fields_of D) \<and> distinct (map spec_name (fields_of D))
     \<and> list_all (binding_ok deeper) (fields_of D)"

primrec schema_valid :: "nat \<Rightarrow> canonical_schema \<Rightarrow> bool" where
  "schema_valid 0 = schema_valid_at None"
| "schema_valid (Suc n) = schema_valid_at (Some (schema_valid n))"

text \<open>The field entries of the recursive expansion, and a bound on every string in it.\<close>

definition child_entries :: "(canonical_schema \<Rightarrow> nat) option \<Rightarrow> field_spec \<Rightarrow> nat" where
  "child_entries deeper f = (case (spec_child f, deeper) of (Some c, Some n) \<Rightarrow> n (child_source c) | _ \<Rightarrow> 0)"

definition entries_at :: "(canonical_schema \<Rightarrow> nat) option \<Rightarrow> canonical_schema \<Rightarrow> nat" where
  "entries_at deeper D = length (fields_of D) + sum_list (map (child_entries deeper) (fields_of D))"

primrec entries :: "nat \<Rightarrow> canonical_schema \<Rightarrow> nat" where
  "entries 0 = entries_at None"
| "entries (Suc n) = entries_at (Some (entries n))"

definition within_child :: "(canonical_schema \<Rightarrow> bool) option \<Rightarrow> field_spec \<Rightarrow> bool" where
  "within_child deeper f = (case (spec_child f, deeper) of (Some c, Some ok) \<Rightarrow> ok (child_source c) | _ \<Rightarrow> True)"

definition strings_within_at :: "nat \<Rightarrow> (canonical_schema \<Rightarrow> bool) option \<Rightarrow> canonical_schema \<Rightarrow> bool" where
  "strings_within_at b deeper D \<longleftrightarrow> length (domain_of D) \<le> b \<and> length (name_of D) \<le> b \<and> length (context_of D) \<le> b
     \<and> list_all (\<lambda>f. length (spec_name f) \<le> b \<and> within_child deeper f) (fields_of D)"

primrec strings_within :: "nat \<Rightarrow> nat \<Rightarrow> canonical_schema \<Rightarrow> bool" where
  "strings_within b 0 = strings_within_at b None"
| "strings_within b (Suc n) = strings_within_at b (Some (strings_within b n))"

definition fields_within_at :: "nat \<Rightarrow> (canonical_schema \<Rightarrow> bool) option \<Rightarrow> canonical_schema \<Rightarrow> bool" where
  "fields_within_at b deeper D \<longleftrightarrow> length (fields_of D) \<le> b \<and> list_all (within_child deeper) (fields_of D)"

primrec fields_within :: "nat \<Rightarrow> nat \<Rightarrow> canonical_schema \<Rightarrow> bool" where
  "fields_within b 0 = fields_within_at b None"
| "fields_within b (Suc n) = fields_within_at b (Some (fields_within b n))"

text \<open>Everything validation asks of a schema under given limits.\<close>

definition schema_admissible :: "canonical_limits \<Rightarrow> canonical_schema \<Rightarrow> bool" where
  "schema_admissible lim D \<longleftrightarrow> schema_valid MAX_SCHEMA_CHILD_DEPTH D
     \<and> fields_within (max_fields lim) MAX_SCHEMA_CHILD_DEPTH D
     \<and> strings_within (max_field_bytes lim) MAX_SCHEMA_CHILD_DEPTH D
     \<and> strings_within u64_max MAX_SCHEMA_CHILD_DEPTH D
     \<and> entries MAX_SCHEMA_CHILD_DEPTH D \<le> max_fields lim * (MAX_SCHEMA_CHILD_DEPTH + 1)
     \<and> max_fields lim * (MAX_SCHEMA_CHILD_DEPTH + 1) \<le> u64_max"

end
