(* ===== verification/Identity_Validation.thy ===== *)
theory Identity_Validation
  imports Identity_Fields_Rules
begin

text \<open>
  Schema validation by the encoder: it succeeds exactly on the structurally valid schemas that the
  limits admit, without absorbing a byte.
\<close>

section \<open>One level of the recursion\<close>

definition below :: "nat \<Rightarrow> (nat \<Rightarrow> 'a) \<Rightarrow> 'a option" where
  "below n h = (case n of 0 \<Rightarrow> None | Suc m \<Rightarrow> Some (h m))"

lemma levels:
  "schema_valid n = schema_valid_at (below n schema_valid)"
  "entries n = entries_at (below n entries)"
  "strings_within b n = strings_within_at b (below n (strings_within b))"
  "fields_within b n = fields_within_at b (below n (fields_within b))"
  "validate_schema_descriptor n = validate_descriptor_at (below n validate_schema_descriptor)"
  by (cases n; simp add: below_def)+

definition expansion_limit :: "canonical_limits \<Rightarrow> nat" where
  "expansion_limit lim = max_fields lim * (MAX_SCHEMA_CHILD_DEPTH + 1)"

text \<open>What validating a descriptor, from an audit state, needs and establishes.\<close>

definition auditable :: "canonical_limits \<Rightarrow> nat \<Rightarrow> canonical_schema \<Rightarrow> audit \<Rightarrow> bool" where
  "auditable lim n D a \<longleftrightarrow> schema_valid n D \<and> fields_within (max_fields lim) n D
     \<and> fst a + entries n D \<le> expansion_limit lim \<and> expansion_limit lim \<le> u64_max \<and> strings_within u64_max n D"

definition audited :: "canonical_limits \<Rightarrow> nat \<Rightarrow> canonical_schema \<Rightarrow> audit \<Rightarrow> audit \<Rightarrow> bool" where
  "audited lim n D a a' \<longleftrightarrow> fst a' = fst a + entries n D
     \<and> (\<forall>b. snd (snd a') \<le> b \<longleftrightarrow> snd (snd a) \<le> b \<and> strings_within b n D)
     \<and> schema_valid n D \<and> fields_within (max_fields lim) n D
     \<and> fst a' \<le> expansion_limit lim \<and> expansion_limit lim \<le> u64_max"

definition child_auditable :: "canonical_limits \<Rightarrow> nat \<Rightarrow> field_spec \<Rightarrow> audit \<Rightarrow> bool" where
  "child_auditable lim n f a \<longleftrightarrow> binding_ok (below n schema_valid) f
     \<and> within_child (below n (fields_within (max_fields lim))) f
     \<and> fst a + child_entries (below n entries) f \<le> expansion_limit lim \<and> expansion_limit lim \<le> u64_max
     \<and> within_child (below n (strings_within u64_max)) f"

definition child_audited :: "canonical_limits \<Rightarrow> nat \<Rightarrow> field_spec \<Rightarrow> audit \<Rightarrow> audit \<Rightarrow> bool" where
  "child_audited lim n f a a' \<longleftrightarrow> fst a' = fst a + child_entries (below n entries) f
     \<and> (\<forall>b. snd (snd a') \<le> b \<longleftrightarrow> snd (snd a) \<le> b \<and> within_child (below n (strings_within b)) f)
     \<and> binding_ok (below n schema_valid) f \<and> within_child (below n (fields_within (max_fields lim))) f
     \<and> (fst a \<le> expansion_limit lim \<longrightarrow> fst a' \<le> expansion_limit lim)"

lemma yields_validate_binding:
  assumes rec: "\<And>m D. n = Suc m \<Longrightarrow> (G \<Longrightarrow> auditable lim m D a) \<Longrightarrow>
      yields s p (validate_schema_descriptor m D a) [] 0 0 (audited lim m D a) G"
    and pre: "G \<Longrightarrow> child_auditable lim n f a"
  shows "yields s p (validate_binding (below n validate_schema_descriptor) f a) [] 0 0 (child_audited lim n f a) G"
proof (cases "spec_child f")
  case None
  show ?thesis
  proof (cases "is_child_wire (spec_wire f)")
    case True
    then have "\<not> G" using pre None by (auto simp: child_auditable_def binding_ok_def)
    then show ?thesis using None True by (auto simp: validate_binding_def intro: yields_refuse)
  next
    case False
    have "child_audited lim n f a a"
      using None False by (simp add: child_audited_def child_entries_def within_child_def binding_ok_def)
    then show ?thesis using None False by (simp add: validate_binding_def yields_return)
  qed
next
  case (Some c)
  show ?thesis
  proof (cases "is_child_wire (spec_wire f)")
    case False
    then have "\<not> G" using pre Some by (auto simp: child_auditable_def binding_ok_def)
    then show ?thesis using Some False by (auto simp: validate_binding_def intro: yields_refuse)
  next
    case wire: True
    show ?thesis
    proof (cases n)
      case 0
      then have "\<not> G" using pre Some by (auto simp: child_auditable_def binding_ok_def below_def)
      then show ?thesis using Some wire 0 by (auto simp: validate_binding_def below_def intro: yields_refuse)
    next
      case (Suc m)
      have "yields s p (validate_schema_descriptor m (child_source c) a) [] 0 0 (audited lim m (child_source c) a) G"
        by (rule rec [OF Suc])
          (use pre Some Suc in \<open>auto simp: child_auditable_def auditable_def binding_ok_def within_child_def
            child_entries_def below_def\<close>)
      then show ?thesis using Some wire Suc
        by (simp add: validate_binding_def below_def)
          (erule yields_weaken, auto simp: child_audited_def audited_def binding_ok_def within_child_def
            child_entries_def below_def)
    qed
  qed
qed

section \<open>The fields of a descriptor\<close>

lemma yields_require_unique:
  assumes "G \<Longrightarrow> name \<notin> set names"
  shows "yields s p (require_unique name names) [] 0 0 (\<lambda>_. name \<notin> set names) G"
  using assms
proof (induction names arbitrary: s)
  case Nil
  then show ?case by (simp add: yields_return)
next
  case (Cons x names)
  show ?case unfolding require_unique.simps
  proof (rule yields_check_then [OF yields_compare_canonical_slices])
    fix r s' assume r: "r = compare_bytes x name"
    show "yields s' p (if r = Equal then refuse (InvalidSchemaDescriptor ''field names must be unique'')
        else require_unique name names) [] 0 0 (\<lambda>_. name \<notin> set (x # names)) G"
    proof (cases "x = name")
      case True
      then show ?thesis using Cons.prems r by (auto intro!: yields_refuse)
    next
      case False
      have "yields s' p (require_unique name names) [] 0 0 (\<lambda>_. name \<notin> set names) G"
        by (rule Cons.IH) (use Cons.prems in auto)
      then show ?thesis using False r by (auto elim: yields_weaken)
    qed
  qed
qed

definition fields_auditable :: "canonical_limits \<Rightarrow> nat \<Rightarrow> u8 list list \<Rightarrow> field_spec list \<Rightarrow> audit \<Rightarrow> bool" where
  "fields_auditable lim n prev fs a \<longleftrightarrow> [] \<notin> spec_name ` set fs \<and> distinct (prev @ map spec_name fs)
     \<and> list_all (binding_ok (below n schema_valid)) fs
     \<and> list_all (within_child (below n (fields_within (max_fields lim)))) fs
     \<and> fst a + sum_list (map (child_entries (below n entries)) fs) \<le> expansion_limit lim
     \<and> expansion_limit lim \<le> u64_max
     \<and> list_all (\<lambda>f. length (spec_name f) \<le> u64_max \<and> within_child (below n (strings_within u64_max)) f) fs"

definition fields_audited :: "canonical_limits \<Rightarrow> nat \<Rightarrow> u8 list list \<Rightarrow> field_spec list \<Rightarrow> audit \<Rightarrow> audit \<Rightarrow> bool" where
  "fields_audited lim n prev fs a a' \<longleftrightarrow> fst a' = fst a + sum_list (map (child_entries (below n entries)) fs)
     \<and> (\<forall>b. snd (snd a') \<le> b \<longleftrightarrow> snd (snd a) \<le> b
          \<and> list_all (\<lambda>f. length (spec_name f) \<le> b \<and> within_child (below n (strings_within b)) f) fs)
     \<and> [] \<notin> spec_name ` set fs \<and> (distinct prev \<longrightarrow> distinct (prev @ map spec_name fs))
     \<and> list_all (binding_ok (below n schema_valid)) fs
     \<and> list_all (within_child (below n (fields_within (max_fields lim)))) fs
     \<and> (fst a \<le> expansion_limit lim \<longrightarrow> fst a' \<le> expansion_limit lim)"

lemma observe_floor_Inr:
  "observe_floor kind k a = Inr a' \<Longrightarrow> fst a' = fst a \<and> (\<forall>b. snd (snd a') \<le> b \<longleftrightarrow> snd (snd a) \<le> b \<and> k \<le> b)"
  by (auto simp: observe_floor_def split: prod.splits if_splits)

lemma observe_floor_ok: "k \<le> u64_max \<Longrightarrow> \<exists>a'. observe_floor kind k a = Inr a'"
  by (auto simp: observe_floor_def attempt_def as_u64_def split: prod.splits)

lemma yields_validate_fields:
  assumes rec: "\<And>m D a s. n = Suc m \<Longrightarrow> limits s = lim \<Longrightarrow> (G \<Longrightarrow> auditable lim m D a) \<Longrightarrow>
      yields s p (validate_schema_descriptor m D a) [] 0 0 (audited lim m D a) G"
    and pre: "G \<Longrightarrow> fields_auditable lim n prev fs a" and "limits s = lim"
  shows "yields s p (validate_fields (below n validate_schema_descriptor) prev fs a) [] 0 0
     (fields_audited lim n prev fs a) G"
  using assms(2,3)
proof (induction fs arbitrary: prev a s)
  case Nil
  then show ?case by (simp add: yields_return fields_audited_def)
next
  case (Cons f fs)
  show ?case unfolding validate_fields.simps
  proof (rule yields_checkpoint_then)
    fix s1 assume s1: "same_config s s1"
    show "yields s1 p (if spec_name f = [] then refuse (InvalidSchemaDescriptor ''field names must be non-empty'')
      else and_then (ensuring (observe_floor FieldName (length (spec_name f)) a)) (\<lambda>audit.
        and_then (require_unique (spec_name f) prev) (\<lambda>_.
        and_then (validate_binding (below n validate_schema_descriptor) f audit) (\<lambda>audit.
        validate_fields (below n validate_schema_descriptor) (prev @ [spec_name f]) fs audit)))) [] 0 0
      (fields_audited lim n prev (f # fs) a) G"
    proof (cases "spec_name f = []")
      case True
      then have "\<not> G" using Cons.prems by (auto simp: fields_auditable_def)
      then show ?thesis using True by (auto intro: yields_refuse)
    next
      case named: False
      show ?thesis unfolding if_not_P [OF named]
      proof (rule yields_ensuring_then)
        fix a1 assume a1: "observe_floor FieldName (length (spec_name f)) a = Inr a1"
        note o = observe_floor_Inr [OF a1]
        show "yields s1 p (and_then (require_unique (spec_name f) prev) (\<lambda>_.
            and_then (validate_binding (below n validate_schema_descriptor) f a1) (\<lambda>audit.
            validate_fields (below n validate_schema_descriptor) (prev @ [spec_name f]) fs audit))) [] 0 0
          (fields_audited lim n prev (f # fs) a) G"
        proof (rule yields_check_then [OF yields_require_unique])
          show "G \<Longrightarrow> spec_name f \<notin> set prev" using Cons.prems by (auto simp: fields_auditable_def)
          fix s2 assume new: "spec_name f \<notin> set prev" and s2: "same_config s1 s2"
          show "yields s2 p (and_then (validate_binding (below n validate_schema_descriptor) f a1) (\<lambda>audit.
              validate_fields (below n validate_schema_descriptor) (prev @ [spec_name f]) fs audit)) [] 0 0
            (fields_audited lim n prev (f # fs) a) G"
          proof (rule yields_check_then [OF yields_validate_binding])
            show "G \<Longrightarrow> child_auditable lim n f a1"
              using Cons.prems o by (auto simp: fields_auditable_def child_auditable_def)
            fix a2 s3 assume a2: "child_audited lim n f a1 a2" and s3: "same_config s2 s3"
            have "yields s3 p (validate_fields (below n validate_schema_descriptor) (prev @ [spec_name f]) fs a2) [] 0 0
                (fields_audited lim n (prev @ [spec_name f]) fs a2) G"
              by (rule Cons.IH) (use Cons.prems o a2 s1 s2 s3 in \<open>auto simp: fields_auditable_def child_audited_def same_config_def\<close>)
            then show "yields s3 p (validate_fields (below n validate_schema_descriptor) (prev @ [spec_name f]) fs a2)
                [] 0 0 (fields_audited lim n prev (f # fs) a) G"
              by (rule yields_weaken)
                (use o a2 new named in \<open>auto simp: fields_audited_def child_audited_def\<close>)
          qed (rule rec, use Cons.prems s1 s2 in \<open>simp_all add: same_config_def\<close>)
        qed
      qed (use Cons.prems observe_floor_ok in \<open>auto simp: fields_auditable_def\<close>)
    qed
  qed
qed

lemma yields_observe_terms:
  assumes "G \<Longrightarrow> list_all (\<lambda>t. length (snd t) \<le> u64_max) terms"
  shows "yields s p (observe_terms terms a) [] 0 0
     (\<lambda>a'. fst a' = fst a \<and> (\<forall>b. snd (snd a') \<le> b \<longleftrightarrow> snd (snd a) \<le> b \<and> list_all (\<lambda>t. length (snd t) \<le> b) terms)) G"
  using assms
proof (induction terms arbitrary: a s)
  case Nil
  then show ?case by (simp add: yields_return)
next
  case (Cons t terms)
  show ?case unfolding observe_terms.simps
  proof (rule yields_checkpoint_then, rule yields_ensuring_then)
    fix s1 a1 assume a1: "observe_floor (fst t) (length (snd t)) a = Inr a1"
    show "yields s1 p (observe_terms terms a1) [] 0 0
     (\<lambda>a'. fst a' = fst a \<and> (\<forall>b. snd (snd a') \<le> b \<longleftrightarrow> snd (snd a) \<le> b
        \<and> list_all (\<lambda>t. length (snd t) \<le> b) (t # terms))) G"
      by (rule yields_weaken [OF Cons.IH]) (use Cons.prems observe_floor_Inr [OF a1] in auto)
  qed (use Cons.prems observe_floor_ok in auto)
qed

lemma count_fields_Inr:
  "count_fields D lim a = Inr a' \<longleftrightarrow> a' = (fst a + length (fields_of D), snd a) \<and> length (fields_of D) \<le> max_fields lim
     \<and> fst a + length (fields_of D) \<le> expansion_limit lim \<and> expansion_limit lim \<le> u64_max
     \<and> length (fields_of D) \<le> u64_max"
  by (auto simp: count_fields_def expansion_limit_def split: option.splits)

section \<open>The whole descriptor\<close>

lemma auditableD:
  assumes "auditable lim n D a"
  shows "domain_of D \<noteq> [] \<and> name_of D \<noteq> [] \<and> context_of D \<noteq> []" "version_of D \<noteq> 0"
    "\<exists>a'. count_fields D lim a = Inr a'"
    "length (domain_of D) \<le> u64_max \<and> length (name_of D) \<le> u64_max \<and> length (context_of D) \<le> u64_max"
    "fst a' = fst a + length (fields_of D) \<Longrightarrow> fields_auditable lim n [] (fields_of D) a'"
proof -
  have l: "expansion_limit lim \<le> u64_max" using assms by (simp add: auditable_def)
  show "domain_of D \<noteq> [] \<and> name_of D \<noteq> [] \<and> context_of D \<noteq> []" "version_of D \<noteq> 0"
    "length (domain_of D) \<le> u64_max \<and> length (name_of D) \<le> u64_max \<and> length (context_of D) \<le> u64_max"
    using assms unfolding auditable_def levels [of n] levels(3) [of _ n] levels(4) [of _ n]
    by (simp_all add: schema_valid_at_def strings_within_at_def)
  have e: "fst a + length (fields_of D) + sum_list (map (child_entries (below n entries)) (fields_of D)) \<le> expansion_limit lim"
    using assms unfolding auditable_def levels(2) [of n] by (simp add: entries_at_def add.assoc)
  moreover have "length (fields_of D) \<le> max_fields lim"
    using assms unfolding auditable_def levels(4) [of _ n] by (simp add: fields_within_at_def)
  ultimately show "\<exists>a'. count_fields D lim a = Inr a'" using l unfolding count_fields_Inr by auto
  show "fields_auditable lim n [] (fields_of D) a'" if "fst a' = fst a + length (fields_of D)"
    using assms e l that unfolding auditable_def levels(1) [of n] levels(3) [of _ n] levels(4) [of _ n]
    by (auto simp: fields_auditable_def schema_valid_at_def strings_within_at_def fields_within_at_def)
qed

lemma yields_validate_schema_descriptor:
  assumes "limits s = lim" "G \<Longrightarrow> auditable lim n D a"
  shows "yields s p (validate_schema_descriptor n D a) [] 0 0 (audited lim n D a) G"
  using assms
proof (induction n arbitrary: D a s rule: less_induct)
  case (less n)
  note d = auditableD [OF less.prems(2)]
  have fin: "audited lim n D a a3"
    if v: "\<not> (domain_of D = [] \<or> name_of D = [] \<or> context_of D = [])" "version_of D \<noteq> 0"
      and 1: "count_fields D lim a = Inr a1"
      and 2: "fst a2 = fst a1 \<and> (\<forall>b. snd (snd a2) \<le> b \<longleftrightarrow> snd (snd a1) \<le> b \<and>
          list_all (\<lambda>t. length (snd t) \<le> b) [(Domain, domain_of D), (Name, name_of D), (Context, context_of D)])"
      and 3: "fields_audited lim n [] (fields_of D) a2 a3" for a1 a2 a3
    using 1 2 3 v unfolding audited_def levels(1,2) [of n] levels(3) [of _ n] levels(4) [of _ n] count_fields_Inr
    by (auto simp: fields_audited_def schema_valid_at_def entries_at_def strings_within_at_def fields_within_at_def
        list_all_iff)
  show ?case
    unfolding levels(5) [of n] validate_descriptor_at_def
  proof (rule yields_checkpoint_then)
    fix s1 assume s1: "same_config s s1"
    show "yields s1 p (if domain_of D = [] \<or> name_of D = [] \<or> context_of D = []
        then refuse (InvalidSchemaDescriptor ''domain, schema name, and context must be non-empty'')
        else if version_of D = 0 then refuse (InvalidSchemaDescriptor ''semantic version zero is reserved'')
        else reading (\<lambda>self. and_then (ensuring (count_fields D (limits self) a)) (\<lambda>a.
          and_then (observe_terms [(Domain, domain_of D), (Name, name_of D), (Context, context_of D)] a)
            (validate_fields (below n validate_schema_descriptor) [] (fields_of D))))) [] 0 0 (audited lim n D a) G"
    proof (cases "(domain_of D = [] \<or> name_of D = [] \<or> context_of D = []) \<or> version_of D = 0")
      case True
      then have "\<not> G" using d(1,2) by blast
      then show ?thesis using True by (auto intro: yields_refuse)
    next
      case False
      then have v: "\<not> (domain_of D = [] \<or> name_of D = [] \<or> context_of D = [])" "version_of D \<noteq> 0" by auto
      have l1: "limits s1 = lim" using s1 less.prems(1) by (simp add: same_config_def)
      show ?thesis unfolding if_not_P [OF v(1)] if_not_P [OF v(2)]
      proof (rule yields_reading, unfold l1, rule yields_ensuring_then)
        fix a1 assume a1: "count_fields D lim a = Inr a1"
        show "yields s1 p (and_then (observe_terms [(Domain, domain_of D), (Name, name_of D), (Context, context_of D)] a1)
            (validate_fields (below n validate_schema_descriptor) [] (fields_of D))) [] 0 0 (audited lim n D a) G"
        proof (rule yields_check_then [OF yields_observe_terms])
          show "G \<Longrightarrow> list_all (\<lambda>t. length (snd t) \<le> u64_max)
              [(Domain, domain_of D), (Name, name_of D), (Context, context_of D)]" using d(4) by simp
          fix a2 :: audit and s2 assume a2: "fst a2 = fst a1 \<and> (\<forall>b. snd (snd a2) \<le> b \<longleftrightarrow> snd (snd a1) \<le> b \<and>
              list_all (\<lambda>t. length (snd t) \<le> b) [(Domain, domain_of D), (Name, name_of D), (Context, context_of D)])"
            and s2: "same_config s1 s2"
          have "fst a2 = fst a + length (fields_of D)" using a1 a2 by (simp add: count_fields_Inr)
          note fa = d(5) [OF _ this]
          have "yields s2 p (validate_fields (below n validate_schema_descriptor) [] (fields_of D) a2) [] 0 0
              (fields_audited lim n [] (fields_of D) a2) G"
            by (rule yields_validate_fields [OF less.IH])
              (use fa s2 l1 in \<open>auto simp: same_config_def\<close>)
          then show "yields s2 p (validate_fields (below n validate_schema_descriptor) [] (fields_of D) a2) [] 0 0
              (audited lim n D a) G"
            by (rule yields_weaken) (use fin [OF v a1 a2] in auto)
        qed
      qed (rule d(3))
    qed
  qed
qed

lemma yields_validate_schema:
  assumes "G \<Longrightarrow> schema_admissible (limits s) D"
  shows "yields s p (validate_schema D) [] 0 0 (\<lambda>_. schema_valid MAX_SCHEMA_CHILD_DEPTH D
     \<and> strings_within (max_field_bytes (limits s)) MAX_SCHEMA_CHILD_DEPTH D
     \<and> fields_within (max_fields (limits s)) MAX_SCHEMA_CHILD_DEPTH D) G"
  unfolding validate_schema_def
proof (rule yields_reading, rule yields_check_then [OF yields_validate_schema_descriptor])
  show "G \<Longrightarrow> auditable (limits s) MAX_SCHEMA_CHILD_DEPTH D (0, Domain, 0)"
    using assms by (simp add: schema_admissible_def auditable_def expansion_limit_def)
  fix a s1 assume a: "audited (limits s) MAX_SCHEMA_CHILD_DEPTH D (0, Domain, 0) a"
  have "enforce_floor a b = Inr () \<longleftrightarrow> snd (snd a) \<le> b" for b
    by (auto simp: enforce_floor_def split: prod.splits)
  moreover have "snd (snd a) \<le> b \<longleftrightarrow> strings_within b MAX_SCHEMA_CHILD_DEPTH D" for b
    using a by (simp add: audited_def)
  ultimately show "yields s1 p (ensuring (enforce_floor a (max_field_bytes (limits s)))) [] 0 0
      (\<lambda>_. schema_valid MAX_SCHEMA_CHILD_DEPTH D
        \<and> strings_within (max_field_bytes (limits s)) MAX_SCHEMA_CHILD_DEPTH D
        \<and> fields_within (max_fields (limits s)) MAX_SCHEMA_CHILD_DEPTH D) G"
    using a assms by (intro yields_ensuring) (auto simp: audited_def schema_admissible_def)
qed simp

end
