(* ===== verification/Identity_Calls.thy ===== *)
theory Identity_Calls
  imports Identity_Validation
begin

text \<open>Child fields, and one rule for every field call.\<close>

section \<open>Child descriptors\<close>

lemma length_child_descriptor:
  "length (child_descriptor r D) = 61 + length (domain_of D) + length (name_of D) + length (context_of D)"
  by (simp add: child_descriptor_def)

lemma typed_child_descriptor_len_Inr [simp]:
  "typed_child_descriptor_len D = Inr n \<longleftrightarrow> n = length (child_descriptor r D) \<and> n \<le> u64_max"
  by (auto simp: typed_child_descriptor_len_def length_child_descriptor)

lemma typed_child_len_Inr [simp]:
  "typed_child_len D = Inr n \<longleftrightarrow> n = length (child_descriptor r D) + 32 \<and> n \<le> u64_max"
  by (auto simp: typed_child_len_def typed_child_descriptor_len_Inr [of _ _ r] simp del: typed_child_descriptor_len_Inr)

lemma yields_append_typed_child_descriptor:
  assumes "G \<Longrightarrow> room (limits s) (length p + length (child_descriptor r D))"
  shows "yields s p (append_typed_child_descriptor r D (schema_id_of D)) (child_descriptor r D) 0 0 (\<lambda>_. True) G"
  unfolding append_typed_child_descriptor_def
  by (rule yields_seq yields_single room_append_bytes room_append_len_bytes
    | (use assms in \<open>auto simp: same_config_limits length_child_descriptor child_descriptor_def elim: room_mono; fail\<close>))+

section \<open>Accepted values\<close>

definition binding_accepts ::
  "(field_spec list \<Rightarrow> field_spec list \<Rightarrow> bool) \<Rightarrow> field_spec \<Rightarrow> identity_role \<Rightarrow> canonical_schema \<Rightarrow> bool" where
  "binding_accepts same spec r D \<longleftrightarrow> schema_valid MAX_SCHEMA_CHILD_DEPTH D
     \<and> validate_child_binding same spec r D = Inr ()"

fun value_ok :: "(field_spec list \<Rightarrow> field_spec list \<Rightarrow> bool) \<Rightarrow> field_spec \<Rightarrow> field_value \<Rightarrow> bool" where
  "value_ok same spec (VFloat b) \<longleftrightarrow> is_finite_bits b"
| "value_ok same spec (VSet vs) \<longleftrightarrow> sorted_wrt (<) vs"
| "value_ok same spec (VChild c) \<longleftrightarrow> binding_accepts same spec (id_role c) (id_schema c)"
| "value_ok same spec (VChildren r D ds) \<longleftrightarrow> binding_accepts same spec r D"
| "value_ok same spec _ \<longleftrightarrow> True"

definition accepted ::
  "(field_spec list \<Rightarrow> field_spec list \<Rightarrow> bool) \<Rightarrow> encoder \<Rightarrow> field \<Rightarrow> field_value \<Rightarrow> bool" where
  "accepted same s f v \<longleftrightarrow> (\<exists>spec. validate_field f (wire_of v) (presence_of v) s = Inr spec \<and> value_ok same spec v)"

text \<open>Typing facts of the source: digests are 32 bytes, and descriptors fit in memory.\<close>

fun call_typed :: "field_call \<Rightarrow> bool" where
  "call_typed (CallChild c) \<longleftrightarrow> length (id_digest c) = 32 \<and> addressable (id_schema c)"
| "call_typed (CallChildren n r D ds) \<longleftrightarrow> list_all (\<lambda>d. length d = 32) ds \<and> addressable D"
| "call_typed _ \<longleftrightarrow> True"

text \<open>Declared lengths and counts are the actual ones.\<close>

fun declared_ok :: "field_call \<Rightarrow> bool" where
  "declared_ok (CallBytesStream n chunks) \<longleftrightarrow> n = length (concat chunks)"
| "declared_ok (CallOrdered n vs) \<longleftrightarrow> n = length vs"
| "declared_ok (CallSet n vs) \<longleftrightarrow> n = length vs"
| "declared_ok (CallChildren n r D ds) \<longleftrightarrow> n = length ds"
| "declared_ok _ \<longleftrightarrow> True"

fun call_limits :: "canonical_limits \<Rightarrow> field_call \<Rightarrow> bool" where
  "call_limits lim (CallBytesStream n chunks) \<longleftrightarrow> length (concat chunks) \<le> max_field_bytes lim
     \<and> length chunks \<le> max_collection_items lim \<and> length chunks \<le> u64_max"
| "call_limits lim (CallChild c) \<longleftrightarrow> limits_admit lim (VChild c) \<and> schema_admissible lim (id_schema c)"
| "call_limits lim (CallChildren n r D ds) \<longleftrightarrow> limits_admit lim (VChildren r D ds) \<and> schema_admissible lim D"
| "call_limits lim c \<longleftrightarrow> limits_admit lim (value_of_call c)"

lemma accepted_selects: "accepted same s f v \<Longrightarrow> selects s f (wire_of v) (presence_of v)"
  by (auto simp: accepted_def selects_def)

lemma call_room_config:
  "call_room s p f v \<Longrightarrow> same_config s s' \<Longrightarrow> next_field s' = next_field s \<Longrightarrow>
   collection_items s' = collection_items s \<Longrightarrow> call_room s' p f v"
  by (simp add: call_room_def selects_config same_config_limits)

lemma validate_field_config:
  "same_config s s' \<Longrightarrow> next_field s' = next_field s \<Longrightarrow> validate_field f w pr s' = validate_field f w pr s"
  by (simp add: validate_field_def same_config_def)

section \<open>Child fields\<close>

text \<open>The checks both child methods make before framing the field.\<close>

lemma yields_child_checks:
  assumes cont: "\<And>s'. binding_accepts same spec r D \<Longrightarrow> same_config s s' \<Longrightarrow> next_field s' = next_field s \<Longrightarrow>
      collection_items s' = collection_items s \<Longrightarrow> yields s' p (k (schema_id_of D)) q n m P G"
    and adm: "G \<Longrightarrow> schema_admissible (limits s) D" and acc: "G \<Longrightarrow> binding_accepts same spec r D"
    and mem: "addressable D"
  shows "yields s p (and_then (validate_schema D) (\<lambda>_.
     and_then (ensuring (validate_child_binding same spec r D)) (\<lambda>_. and_then (compute_schema_id D) k))) q n m P G"
proof (rule yields_check_then [OF yields_validate_schema [OF adm]])
  fix s1 :: encoder
  assume v: "schema_valid MAX_SCHEMA_CHILD_DEPTH D
     \<and> strings_within (max_field_bytes (limits s)) MAX_SCHEMA_CHILD_DEPTH D
     \<and> fields_within (max_fields (limits s)) MAX_SCHEMA_CHILD_DEPTH D" and s1: "same_config s s1"
    "next_field s1 = next_field s" "collection_items s1 = collection_items s"
  show "yields s1 p (and_then (ensuring (validate_child_binding same spec r D))
      (\<lambda>_. and_then (compute_schema_id D) k)) q n m P G"
  proof (rule yields_ensuring_then)
    fix u assume "validate_child_binding same spec r D = Inr u"
    then have b: "binding_accepts same spec r D" using v by (simp add: binding_accepts_def)
    show "yields s1 p (and_then (compute_schema_id D) k) q n m P G"
    proof (rule yields_check_then [OF yields_compute_schema_id [OF mem]])
      fix x s2 assume "x = schema_id_of D" "same_config s1 s2" "next_field s2 = next_field s1"
        "collection_items s2 = collection_items s1"
      then show "yields s2 p (k x) q n m P G" using cont [OF b] s1 same_config_trans by metis
    qed
  qed (use acc in \<open>auto simp: binding_accepts_def\<close>)
qed

lemma yields_encode_child:
  assumes cr: "G \<Longrightarrow> call_room s p f (VChild c)" and la: "G \<Longrightarrow> limits_admit (limits s) (VChild c)"
    and adm: "G \<Longrightarrow> schema_admissible (limits s) (id_schema c)" and acc: "G \<Longrightarrow> accepted same s f (VChild c)"
    and ty: "length (id_digest c) = 32" "addressable (id_schema c)"
  shows "yields s p (encode_child same f c) (field_bytes f (VChild c)) 1 0 (\<lambda>_. accepted same s f (VChild c)) G"
  unfolding encode_child_def
proof (rule yields_validating)
  fix spec assume sel: "validate_field f Child Required s = Inr spec"
  let ?r = "id_role c" and ?D = "id_schema c"
  show "yields s p (and_then (validate_schema ?D) (\<lambda>_.
      and_then (ensuring (validate_child_binding same spec ?r ?D)) (\<lambda>_.
      and_then (compute_schema_id ?D) (\<lambda>child_schema_id.
      and_then (ensuring (typed_child_len ?D)) (\<lambda>child_len. in_order [ensure_field_bytes child_len,
        ensure_framed spec (Inr child_len), begin_field f Child Required, append_typed_child c child_schema_id,
        complete_field]))))) (field_bytes f (VChild c)) 1 0 (\<lambda>_. accepted same s f (VChild c)) G"
  proof (rule yields_child_checks [OF _ adm _ ty(2)])
    show "G \<Longrightarrow> binding_accepts same spec ?r ?D" using acc sel by (auto simp: accepted_def)
    fix s1 assume b: "binding_accepts same spec ?r ?D" and s1: "same_config s s1" "next_field s1 = next_field s"
      "collection_items s1 = collection_items s"
    have a: "accepted same s f (VChild c)" using sel b by (auto simp: accepted_def)
    have sel1: "validate_field f Child Required s1 = Inr spec"
      using sel s1 validate_field_config by metis
    have cr1: "G \<Longrightarrow> call_room s1 p f (VChild c)" using cr s1 call_room_config by metis
    show "yields s1 p (and_then (ensuring (typed_child_len ?D)) (\<lambda>child_len. in_order [ensure_field_bytes child_len,
        ensure_framed spec (Inr child_len), begin_field f Child Required, append_typed_child c (schema_id_of ?D),
        complete_field])) (field_bytes f (VChild c)) 1 0 (\<lambda>_. accepted same s f (VChild c)) G"
    proof (rule yields_ensuring_then)
      fix n assume "typed_child_len ?D = Inr n"
      then have n: "n = length (value_bytes (VChild c))" using ty(1) by (simp add: typed_child_len_Inr [of _ _ ?r])
      show "yields s1 p (in_order [ensure_field_bytes n, ensure_framed spec (Inr n), begin_field f Child Required,
          append_typed_child c (schema_id_of ?D), complete_field]) (field_bytes f (VChild c)) 1 0
          (\<lambda>_. accepted same s f (VChild c)) G"
      proof (rule yields_field_op [where q = "value_bytes (VChild c)" and A = True])
        fix s2 and p2 :: "u8 list" assume 2: "same_config s1 s2" "length p2 = length p + (15 + length (field_name f))"
        have r: "G \<Longrightarrow> room (limits s2) (length p2 + (length (child_descriptor ?r ?D) + 32))"
          using call_roomD(3) [OF cr1] 2 ty(1) by (auto simp: same_config_limits elim: room_mono)
        show "yields s2 p2 (append_typed_child c (schema_id_of ?D)) (value_bytes (VChild c)) 0 0 (\<lambda>_. True) G"
          unfolding append_typed_child_def
          by (rule yields_seq yields_single yields_append_typed_child_descriptor room_append_bytes
            | (use r ty(1) in \<open>auto simp: same_config_limits elim: room_mono; fail\<close>))+
      qed (use cr1 la n a sel1 s1 in \<open>auto simp: same_config_limits\<close>)
    qed (use call_roomD(4) [OF cr] ty(1) in \<open>auto simp: typed_child_len_Inr [of _ _ ?r]\<close>)
  qed
qed (use cr in \<open>auto intro: call_room_selects\<close>)

lemma yields_child_digests:
  assumes "G \<Longrightarrow> observed + length ds \<le> declared \<and> declared \<le> u64_max"
    and "G \<Longrightarrow> room (limits s) (length p + length (concat ds))"
  shows "yields s p (child_digests declared observed ds) (concat ds) 0 0 (\<lambda>r. r = observed + length ds) G"
  using assms
proof (induction ds arbitrary: observed s p)
  case Nil
  then show ?case by (simp add: yields_return)
next
  case (Cons d ds)
  have rec: "yields s' (p @ d) (child_digests declared (observed + 1) ds) (concat ds) 0 0
      (\<lambda>r. r = observed + length (d # ds)) G" if "limits s' = limits s" for s'
    by (rule yields_weaken [OF Cons.IH]) (use Cons.prems that in \<open>auto simp: add.assoc\<close>)
  show ?case unfolding child_digests.simps
    by (rule yields_count_item yields_then [OF room_append_bytes] rec
      | (simp add: same_config_limits; fail) | (use Cons.prems in \<open>auto simp: same_config_limits room_def; fail\<close>))+
qed

lemma length_concat_digests: "list_all (\<lambda>d. length d = 32) ds \<Longrightarrow> length (concat ds) = length ds * 32"
  by (induction ds) auto

lemma yields_encode_ordered_children:
  assumes cr: "G \<Longrightarrow> call_room s p f (VChildren r D ds)" and la: "G \<Longrightarrow> limits_admit (limits s) (VChildren r D ds)"
    and adm: "G \<Longrightarrow> schema_admissible (limits s) D" and acc: "G \<Longrightarrow> accepted same s f (VChildren r D ds)"
    and d: "G \<Longrightarrow> n = length ds"
    and ty: "list_all (\<lambda>d. length d = 32) ds" "addressable D"
  shows "yields s p (encode_ordered_children same f n r D ds) (field_bytes f (VChildren r D ds)) 1 (length ds)
     (\<lambda>_. accepted same s f (VChildren r D ds) \<and> n = length ds) G"
proof -
  let ?post = "\<lambda>_ :: unit. accepted same s f (VChildren r D ds) \<and> n = length ds"
  have len: "length (value_bytes (VChildren r D ds)) = 8 + length (child_descriptor r D) + length ds * 32"
    using length_concat_digests [OF ty(1)] by simp
  have G: "next_field s + 1 \<le> u32_max" "collection_items s + length ds \<le> u64_max"
    "room (limits s) (length p + (15 + length (field_name f) + (8 + length (child_descriptor r D) + length ds * 32)))"
    "8 + length (child_descriptor r D) + length ds * 32 \<le> u64_max" "length ds \<le> max_collection_items (limits s)"
    "8 + length (child_descriptor r D) + length ds * 32 \<le> max_field_bytes (limits s)"
    "selects s f OrderedChildren Required" if G
    using call_roomD [OF cr [OF that]] la [OF that] len by auto
  have "yields s p (encode_ordered_children same f n r D ds)
     (field_prefix f OrderedChildren Required @ le_bytes 8 n @ child_descriptor r D @ concat ds) 1 (length ds) ?post G"
    unfolding encode_ordered_children_def
  proof (rule yields_validating, rule yields_reading, rule yields_ensuring_then)
    fix spec assume sel: "validate_field f OrderedChildren Required s = Inr spec"
    then have name: "spec_name spec = field_name f" by (rule validate_field_name)
    show "yields s p (and_then (validate_schema D) (\<lambda>_.
        and_then (ensuring (validate_child_binding same spec r D)) (\<lambda>_.
        and_then (compute_schema_id D) (\<lambda>child_schema_id.
        and_then (ensuring (attempt (typed_child_descriptor_len D) (\<lambda>descriptor_len.
            attempt (case checked_mul u64_max n 32 of None \<Rightarrow> Inl LengthOverflow | Some v \<Rightarrow> Inr v)
              (\<lambda>digests. checked_sum [8, descriptor_len, digests])))) (\<lambda>payload_len.
        and_then (in_order [
          ensure_field_bytes payload_len,
          ensure_framed spec (Inr payload_len),
          begin_field f OrderedChildren Required,
          append_bytes (le_bytes 8 n),
          append_typed_child_descriptor r D child_schema_id]) (\<lambda>_.
        and_then (child_digests n 0 ds) (\<lambda>observed. in_order [
          require_declared n observed,
          add_collection_items observed,
          complete_field])))))))
      (field_prefix f OrderedChildren Required @ le_bytes 8 n @ child_descriptor r D @ concat ds) 1 (length ds) ?post G"
    proof (rule yields_child_checks [OF _ adm _ ty(2)])
      show "G \<Longrightarrow> binding_accepts same spec r D" using acc sel by (auto simp: accepted_def)
      fix s1 assume b: "binding_accepts same spec r D" and s1: "same_config s s1" "next_field s1 = next_field s"
        "collection_items s1 = collection_items s"
      have a: "accepted same s f (VChildren r D ds)" using sel b by (auto simp: accepted_def)
      have l1: "limits s1 = limits s" using s1 by (simp add: same_config_limits)
      have selects: "selects s2 f OrderedChildren Required" if "same_config s1 s2" "next_field s2 = next_field s1" for s2
        using sel s1 that same_config_trans validate_field_config unfolding selects_def by metis
      have frame: "yields s1 p (in_order [ensure_field_bytes k, ensure_framed spec (Inr k),
          begin_field f OrderedChildren Required, append_bytes (le_bytes 8 n),
          append_typed_child_descriptor r D (schema_id_of D)])
        (field_prefix f OrderedChildren Required @ le_bytes 8 n @ child_descriptor r D) 0 0 (\<lambda>_. True) G"
        if "G \<Longrightarrow> k = 8 + length (child_descriptor r D) + length ds * 32" for k
        by (rule yields_seq yields_single yields_ensure_field_bytes yields_ensure_framed yields_begin_field
            room_append_bytes yields_append_typed_child_descriptor
          | (simp; fail)
          | (use G that in \<open>auto simp: same_config_limits l1 name elim: room_mono intro!: selects
              intro: same_config_trans; fail\<close>))+
      show "yields s1 p (and_then (ensuring (attempt (typed_child_descriptor_len D) (\<lambda>descriptor_len.
            attempt (case checked_mul u64_max n 32 of None \<Rightarrow> Inl LengthOverflow | Some v \<Rightarrow> Inr v)
              (\<lambda>digests. checked_sum [8, descriptor_len, digests])))) (\<lambda>payload_len.
          and_then (in_order [ensure_field_bytes payload_len, ensure_framed spec (Inr payload_len),
            begin_field f OrderedChildren Required, append_bytes (le_bytes 8 n),
            append_typed_child_descriptor r D (schema_id_of D)]) (\<lambda>_.
          and_then (child_digests n 0 ds) (\<lambda>observed. in_order [require_declared n observed,
            add_collection_items observed, complete_field]))))
        (field_prefix f OrderedChildren Required @ le_bytes 8 n @ child_descriptor r D @ concat ds) 1 (length ds) ?post G"
      proof (rule yields_ensuring_then)
        fix k assume k: "attempt (typed_child_descriptor_len D) (\<lambda>descriptor_len.
            attempt (case checked_mul u64_max n 32 of None \<Rightarrow> Inl LengthOverflow | Some v \<Rightarrow> Inr v)
              (\<lambda>digests. checked_sum [8, descriptor_len, digests])) = Inr k"
        have k': "G \<Longrightarrow> k = 8 + length (child_descriptor r D) + length ds * 32"
          using k d by (auto simp: typed_child_descriptor_len_Inr [of _ _ r] split: option.splits)
        show "yields s1 p (and_then (in_order [ensure_field_bytes k, ensure_framed spec (Inr k),
            begin_field f OrderedChildren Required, append_bytes (le_bytes 8 n),
            append_typed_child_descriptor r D (schema_id_of D)]) (\<lambda>_.
          and_then (child_digests n 0 ds) (\<lambda>observed. in_order [require_declared n observed,
            add_collection_items observed, complete_field])))
        (field_prefix f OrderedChildren Required @ le_bytes 8 n @ child_descriptor r D @ concat ds) 1 (length ds) ?post G"
        proof (rule yields_then [OF frame [OF k'], where q' = "concat ds" and n' = 1 and m' = "length ds"])
          fix s2 assume s2: "same_config s1 s2" "next_field s2 = next_field s1 + 0"
            "collection_items s2 = collection_items s1 + 0"
          let ?p = "p @ field_prefix f OrderedChildren Required @ le_bytes 8 n @ child_descriptor r D"
          show "yields s2 ?p (and_then (child_digests n 0 ds) (\<lambda>observed. in_order [require_declared n observed,
              add_collection_items observed, complete_field])) (concat ds) 1 (length ds) ?post G"
          proof (rule yields_then [OF yields_child_digests, where q' = "[]" and n' = 1 and m' = "length ds"])
            fix j :: nat and s3 assume j: "j = 0 + length ds" and s3: "same_config s2 s3"
              "next_field s3 = next_field s2 + 0" "collection_items s3 = collection_items s2 + 0"
            have "yields s3 (?p @ concat ds) (in_order [require_declared n j, add_collection_items j, complete_field])
                [] 1 j (\<lambda>_. n = j) G"
              by (rule yields_end_collection) (use G d j s1 s2 s3 in auto)
            then show "yields s3 (?p @ concat ds) (in_order [require_declared n j, add_collection_items j,
                complete_field]) [] 1 (length ds) ?post G"
              using j a by (auto elim: yields_weaken)
          qed (use G d s2 l1 ty in \<open>auto simp: same_config_limits length_concat_digests elim: room_mono\<close>)
        qed simp_all
      next
        show "\<exists>k. attempt (typed_child_descriptor_len D) (\<lambda>descriptor_len.
            attempt (case checked_mul u64_max n 32 of None \<Rightarrow> Inl LengthOverflow | Some v \<Rightarrow> Inr v)
              (\<lambda>digests. checked_sum [8, descriptor_len, digests])) = Inr k" if G
          using G(4) [OF that] d [OF that] by (auto simp: typed_child_descriptor_len_Inr [of _ _ r] split: option.splits)
      qed
    qed
  qed (use G d in auto)
  then show ?thesis
    unfolding field_bytes_def value_bytes.simps wire_of.simps presence_of.simps by (rule yields_declared)
qed

section \<open>Every field call\<close>

lemma accepted_plain:
  assumes "\<And>same spec. value_ok same spec v"
  shows "accepted same s f v \<longleftrightarrow> selects s f (wire_of v) (presence_of v)"
  using assms by (auto simp: accepted_def selects_def)

text \<open>What success of a call needs.\<close>

definition call_ready ::
  "(field_spec list \<Rightarrow> field_spec list \<Rightarrow> bool) \<Rightarrow> encoder \<Rightarrow> u8 list \<Rightarrow> field \<Rightarrow> field_call \<Rightarrow> bool" where
  "call_ready same s p f c \<longleftrightarrow> call_room s p f (value_of_call c) \<and> call_limits (limits s) c
     \<and> accepted same s f (value_of_call c) \<and> declared_ok c"

lemma yields_conseq: "yields s p c q n m P G \<Longrightarrow> (\<And>x. P x \<Longrightarrow> Q x) \<Longrightarrow> yields s p c q n m Q G"
  by (rule yields_weaken)

lemma yields_run_call:
  assumes "call_typed c" and ready: "G \<Longrightarrow> call_ready same s p f c"
  shows "yields s p (run_call same (f, c)) (field_bytes f (value_of_call c)) 1 (items_of (value_of_call c))
     (\<lambda>_. accepted same s f (value_of_call c) \<and> declared_ok c) G"
proof (cases c)
  case (CallUtf8 b)
  show ?thesis unfolding CallUtf8 run_call.simps value_of_call.simps items_of.simps
    by (rule yields_conseq [OF yields_encode_utf8])
      (use ready in \<open>auto simp: CallUtf8 call_ready_def accepted_plain\<close>)
next
  case (CallBytes b)
  show ?thesis unfolding CallBytes run_call.simps value_of_call.simps items_of.simps
    by (rule yields_conseq [OF yields_encode_bytes])
      (use ready in \<open>auto simp: CallBytes call_ready_def accepted_plain\<close>)
next
  case (CallBytesStream n chunks)
  show ?thesis unfolding CallBytesStream run_call.simps value_of_call.simps items_of.simps
    by (rule yields_conseq [OF yields_encode_bytes_stream])
      (use ready in \<open>auto simp: CallBytesStream call_ready_def accepted_plain\<close>)
next
  case (CallU64 v)
  show ?thesis unfolding CallU64 run_call.simps value_of_call.simps items_of.simps encode_u64_def
    by (rule yields_conseq [OF yields_fixed_field [where v = "VU64 v", unfolded wire_of.simps value_bytes.simps]])
      (use ready in \<open>auto simp: CallU64 call_ready_def accepted_plain\<close>)
next
  case (CallI64 v)
  show ?thesis unfolding CallI64 run_call.simps value_of_call.simps items_of.simps encode_i64_def
    by (rule yields_conseq [OF yields_fixed_field [where v = "VI64 v", unfolded wire_of.simps value_bytes.simps]])
      (use ready in \<open>auto simp: CallI64 call_ready_def accepted_plain\<close>)
next
  case (CallFlag b)
  show ?thesis unfolding CallFlag run_call.simps value_of_call.simps items_of.simps encode_flag_def
    by (rule yields_conseq [OF yields_fixed_field [where v = "VFlag b", unfolded wire_of.simps value_bytes.simps]])
      (use ready in \<open>auto simp: CallFlag call_ready_def accepted_plain\<close>)
next
  case (CallFloat v)
  show ?thesis unfolding CallFloat run_call.simps value_of_call.simps items_of.simps
    by (rule yields_conseq [OF yields_encode_finite_f64])
      (use ready in \<open>auto simp: CallFloat call_ready_def accepted_def selects_def\<close>)
next
  case (CallOptional b)
  show ?thesis unfolding CallOptional run_call.simps value_of_call.simps items_of.simps
    by (rule yields_conseq [OF yields_encode_optional_bytes])
      (use ready in \<open>auto simp: CallOptional call_ready_def accepted_plain\<close>)
next
  case (CallVariant v b)
  show ?thesis unfolding CallVariant run_call.simps value_of_call.simps items_of.simps
    by (rule yields_conseq [OF yields_encode_variant])
      (use ready in \<open>auto simp: CallVariant call_ready_def accepted_plain\<close>)
next
  case (CallOrdered n vs)
  show ?thesis unfolding CallOrdered run_call.simps value_of_call.simps items_of.simps
    by (rule yields_conseq [OF yields_encode_ordered_bytes])
      (use ready in \<open>auto simp: CallOrdered call_ready_def accepted_plain\<close>)
next
  case (CallSet n vs)
  show ?thesis unfolding CallSet run_call.simps value_of_call.simps items_of.simps
    by (rule yields_conseq [OF yields_encode_canonical_set])
      (use ready in \<open>auto simp: CallSet call_ready_def accepted_def selects_def\<close>)
next
  case (CallChild x)
  show ?thesis unfolding CallChild run_call.simps value_of_call.simps items_of.simps
    by (rule yields_conseq [OF yields_encode_child])
      (use ready assms(1) in \<open>auto simp: CallChild call_ready_def\<close>)
next
  case (CallChildren n r D ds)
  show ?thesis unfolding CallChildren run_call.simps value_of_call.simps items_of.simps
    by (rule yields_conseq [OF yields_encode_ordered_children])
      (use ready assms(1) in \<open>auto simp: CallChildren call_ready_def\<close>)
qed

end
