(* ===== verification/Identity_Build.thy ===== *)
theory Identity_Build
  imports Identity_Calls
begin

text \<open>The construction of an identity from a new encoder to its published receipt.\<close>

section \<open>The header\<close>

lemma yields_in_order_map:
  assumes "\<And>x s' p'. x \<in> set xs \<Longrightarrow> limits s' = limits s \<Longrightarrow> (G \<Longrightarrow> room (limits s) (length p' + length (b x))) \<Longrightarrow>
      yields s' p' (h x) (b x) 0 0 (\<lambda>_. True) G"
    and "G \<Longrightarrow> room (limits s) (length p + length (concat (map b xs)))"
  shows "yields s p (in_order (map h xs)) (concat (map b xs)) 0 0 (\<lambda>_. True) G"
  using assms
proof (induction xs arbitrary: s p)
  case Nil
  then show ?case by (simp add: yields_in_order_Nil)
next
  case (Cons x xs)
  show ?case unfolding list.map
  proof (rule yields_in_order_Cons [where q = "b x" and n = 0 and m = 0])
    show "yields s p (h x) (b x) 0 0 (\<lambda>_. True) G"
      by (rule Cons.prems(1)) (use Cons.prems(2) in \<open>auto elim: room_mono\<close>)
    fix s' assume s': "same_config s s'"
    show "yields s' (p @ b x) (in_order (map h xs)) (concat (map b xs)) 0 0 (\<lambda>_. True) G"
      by (rule Cons.IH) (use Cons.prems s' in \<open>auto simp: same_config_limits add.assoc\<close>)
  qed simp_all
qed

lemma yields_append_u32:
  assumes "G \<Longrightarrow> k \<le> u32_max" "G \<Longrightarrow> room (limits s) (length p + 4)"
  shows "yields s p (and_then (ensuring (as_u32 k)) (\<lambda>n. append_bytes (le_bytes 4 n))) (le_bytes 4 k) 0 0 (\<lambda>_. True) G"
  by (rule yields_ensuring_then) (use assms in \<open>auto intro: room_append_bytes\<close>)

lemma yields_write_header_field:
  assumes "G \<Longrightarrow> room (limits s) (length p + length (header_field ix))" "G \<Longrightarrow> fst ix \<le> u32_max"
  shows "yields s p (write_header_field ix) (header_field ix) 0 0 (\<lambda>_. True) G"
proof (cases ix)
  case (Pair i f)
  show ?thesis unfolding Pair write_header_field_def header_field_def prod.case
    by (rule yields_seq yields_single yields_append_u32 room_append_bytes room_append_len_bytes
      | (use assms Pair in \<open>auto simp: same_config_limits header_field_def elim: room_mono; fail\<close>))+
qed

lemma length_header_field: "length (header_field (i, f)) = 14 + length (spec_name f)"
  by (simp add: header_field_def)

lemma length_header_bytes:
  "length (header_bytes r D) = 78 + length (domain_of D) + length (name_of D) + length (context_of D)
     + length (concat (map header_field (enumerate 0 (fields_of D))))"
  by (simp add: header_bytes_def CANONICAL_MAGIC_def str_bytes_def)

lemma length_header_fields: "length (concat (map header_field (enumerate k fs)))
    = sum_list (map (\<lambda>f. 14 + length (spec_name f)) fs)"
  by (induction fs arbitrary: k) (simp_all add: length_header_field)

lemma in_order_append_yields:
  assumes "yields s p (in_order xs) q 0 0 (\<lambda>_. True) G"
    and "\<And>s'. same_config s s' \<Longrightarrow> yields s' (p @ q) (in_order ys) q' 0 0 (\<lambda>_. True) G"
  shows "yields s p (in_order (xs @ ys)) (q @ q') 0 0 (\<lambda>_. True) G"
  unfolding in_order_append by (rule yields_then [OF assms(1)]) (use assms(2) in auto)

lemma yields_write_header:
  assumes "G \<Longrightarrow> room (limits s) (length p + length (header_bytes r D))" "G \<Longrightarrow> length (fields_of D) \<le> u32_max"
  shows "yields s p (write_header r D (schema_id_of D)) (header_bytes r D) 0 0 (\<lambda>_. True) G"
proof -
  let ?fs = "enumerate 0 (fields_of D)"
  have r: "G \<Longrightarrow> room (limits s) (length p + (78 + length (domain_of D) + length (name_of D) + length (context_of D)
     + length (concat (map header_field ?fs))))"
    using assms(1) unfolding length_header_bytes by blast
  let ?first = "CANONICAL_MAGIC @ le_bytes 4 (unat CANONICAL_FRAME_VERSION)
     @ [role_tag r, FLOAT_POLICY_FINITE_EXACT_BITS] @ len_bytes (domain_of D) @ len_bytes (name_of D)
     @ schema_id_of D @ le_bytes 4 (unat (version_of D)) @ len_bytes (context_of D)
     @ le_bytes 4 (length (fields_of D))"
  have magic: "length CANONICAL_MAGIC = 8" by (simp add: CANONICAL_MAGIC_def str_bytes_def)
  have first: "yields s p (in_order [append_bytes CANONICAL_MAGIC,
      append_bytes (le_bytes 4 (unat CANONICAL_FRAME_VERSION)),
      append_bytes [role_tag r, FLOAT_POLICY_FINITE_EXACT_BITS],
      append_len_bytes (domain_of D), append_len_bytes (name_of D), append_bytes (schema_id_of D),
      append_bytes (le_bytes 4 (unat (version_of D))), append_len_bytes (context_of D),
      and_then (ensuring (as_u32 (length (fields_of D)))) (\<lambda>n. append_bytes (le_bytes 4 n))]) ?first 0 0 (\<lambda>_. True) G"
    by (rule yields_seq yields_single yields_append_u32 room_append_bytes room_append_len_bytes
      | (use r assms(2) magic in \<open>auto simp: same_config_limits elim: room_mono; fail\<close>))+
  have fields: "yields s' p' (in_order (map write_header_field ?fs)) (concat (map header_field ?fs)) 0 0 (\<lambda>_. True) G"
    if "limits s' = limits s" "length p' = length p + length ?first" for s' p'
  proof (rule yields_in_order_map)
    show "G \<Longrightarrow> room (limits s') (length p' + length (concat (map header_field ?fs)))"
      using r that magic by (auto elim: room_mono)
    fix ix and s'' :: encoder and p'' :: "u8 list" assume ix: "ix \<in> set ?fs" and 2: "limits s'' = limits s'"
      "G \<Longrightarrow> room (limits s') (length p'' + length (header_field ix))"
    show "yields s'' p'' (write_header_field ix) (header_field ix) 0 0 (\<lambda>_. True) G"
      by (rule yields_write_header_field) (use ix 2 assms(2) in \<open>auto simp: in_set_enumerate_eq\<close>)
  qed
  have "yields s p (write_header r D (schema_id_of D)) (?first @ concat (map header_field ?fs)) 0 0 (\<lambda>_. True) G"
    unfolding write_header_def
    by (rule in_order_append_yields [OF first fields]) (simp_all add: same_config_limits)
  then show ?thesis by (simp add: header_bytes_def)
qed

lemma yields_header_fields_len:
  assumes "G \<Longrightarrow> len + sum_list (map (\<lambda>f. 14 + length (spec_name f)) fs) \<le> u64_max"
  shows "yields s p (header_fields_len fs len) [] 0 0
     (\<lambda>n. n = len + sum_list (map (\<lambda>f. 14 + length (spec_name f)) fs)) G"
  using assms
proof (induction fs arbitrary: len s)
  case Nil
  then show ?case by (simp add: yields_return)
next
  case (Cons f fs)
  show ?case unfolding header_fields_len.simps
  proof (rule yields_checkpoint_then, rule yields_ensuring_then)
    fix s1 n assume n: "attempt (as_u64 (length (spec_name f))) (\<lambda>n. attempt (checked_sum [4, 8, n, 2]) (add_u64 len)) = Inr n"
    show "yields s1 p (header_fields_len fs n) [] 0 0
       (\<lambda>k. k = len + sum_list (map (\<lambda>f. 14 + length (spec_name f)) (f # fs))) G"
      by (rule yields_conseq [OF Cons.IH]) (use n Cons.prems in auto)
  qed (use Cons.prems in auto)
qed

lemma yields_canonical_header_len:
  assumes "G \<Longrightarrow> length (header_bytes r D) \<le> u64_max"
  shows "yields s p (canonical_header_len D) [] 0 0 (\<lambda>n. n = length (header_bytes r D)) G"
proof -
  have g: "G \<Longrightarrow> 78 + length (domain_of D) + length (name_of D) + length (context_of D)
      + sum_list (map (\<lambda>f. 14 + length (spec_name f)) (fields_of D)) \<le> u64_max"
    using assms unfolding length_header_bytes length_header_fields by blast
  have magic: "length CANONICAL_MAGIC = 8" by (simp add: CANONICAL_MAGIC_def str_bytes_def)
  show ?thesis unfolding canonical_header_len_def length_header_bytes length_header_fields
  proof (rule yields_checkpoint_then, rule yields_ensuring_then)
    fix s1 k assume k: "attempt (as_u64 (length CANONICAL_MAGIC)) (\<lambda>magic.
       attempt (as_u64 (length (domain_of D))) (\<lambda>domain.
       attempt (as_u64 (length (name_of D))) (\<lambda>name.
       attempt (as_u64 (length (context_of D))) (\<lambda>context.
       checked_sum [magic, 4, 2, 8, domain, 8, name, 32, 4, 8, context, 4])))) = Inr k"
    show "yields s1 p (header_fields_len (fields_of D) k) [] 0 0 (\<lambda>n. n = 78 + length (domain_of D)
        + length (name_of D) + length (context_of D) + sum_list (map (\<lambda>f. 14 + length (spec_name f)) (fields_of D))) G"
      by (rule yields_conseq [OF yields_header_fields_len]) (use k g magic in auto)
  qed (use g magic in \<open>auto simp: u64_max_def\<close>)
qed

section \<open>The new encoder\<close>

definition startable :: "canonical_limits \<Rightarrow> identity_role \<Rightarrow> canonical_schema \<Rightarrow> bool" where
  "startable lim r D \<longleftrightarrow> schema_admissible lim D \<and> room lim (length (header_bytes r D))
     \<and> length (fields_of D) \<le> u32_max"

lemma prepare_encoder_eq:
  "prepare_encoder s = and_then (and_then (in_order [checkpoint, validate_schema (schema s),
       and_then (canonical_header_len (schema s)) (\<lambda>header_bytes.
         ensuring (enforce_limit CanonicalBytes header_bytes (max_canonical_bytes (limits s))))])
     (\<lambda>_. compute_schema_id (schema s)))
     (\<lambda>sid self. write_header (role self) (schema self) sid (self\<lparr>schema_id := sid\<rparr>)) s"
  by (auto simp: prepare_encoder_def reading_def in_order.simps and_then_def return_with_def
      split: prod.splits outcome.splits)

lemma prepare_encoder_result:
  assumes ok: "enc_ok s []" and mem: "addressable (schema s)"
  shows "case prepare_encoder s of
      (Ok _, s') \<Rightarrow> enc_ok s' (header_bytes (role s) (schema s)) \<and> schema_id s' = schema_id_of (schema s)
        \<and> schema s' = schema s \<and> role s' = role s \<and> limits s' = limits s \<and> cancellation s' = cancellation s
        \<and> quiet_between s s' \<and> next_field s' = next_field s \<and> collection_items s' = collection_items s
        \<and> schema_valid MAX_SCHEMA_CHILD_DEPTH (schema s)
    | (Err e, s') \<Rightarrow> \<not> (startable (limits s) (role s) (schema s) \<and> never_cancelled s)
    | (Panicked, s') \<Rightarrow> False"
proof -
  let ?D = "schema s" and ?r = "role s"
  let ?G = "startable (limits s) ?r ?D"
  let ?V = "schema_valid MAX_SCHEMA_CHILD_DEPTH ?D"
  let ?check = "and_then (canonical_header_len ?D) (\<lambda>header_bytes.
         ensuring (enforce_limit CanonicalBytes header_bytes (max_canonical_bytes (limits s))))"
  have check: "yields s' [] ?check [] 0 0 (\<lambda>_. True) ?G" for s'
    by (rule yields_check_then [OF yields_canonical_header_len [of _ ?r]], simp add: startable_def room_def,
        rule yields_ensuring) (auto simp: startable_def room_def)
  have valid: "yields s' [] (in_order [validate_schema ?D, ?check]) [] 0 0 (\<lambda>_. ?V) ?G" if "limits s' = limits s" for s'
  proof -
    have "yields s' [] (validate_schema ?D) [] 0 0 (\<lambda>_. ?V) ?G"
      by (rule yields_conseq [OF yields_validate_schema]) (use that in \<open>auto simp: startable_def\<close>)
    then show ?thesis
      by (rule yields_in_order_fact [where q = "[]" and q' = "[]" and n = 0 and n' = 0 and m = 0 and m' = 0
            and B = True]) (simp_all add: yields_single [OF check])
  qed
  have 1: "yields s [] (in_order [checkpoint, validate_schema ?D, ?check]) [] 0 0 (\<lambda>_. ?V) ?G"
    by (rule yields_in_order_Cons [OF yields_checkpoint, where q' = "[]" and n' = 0 and m' = 0])
      (auto intro!: valid simp: same_config_limits)
  have 2: "yields s [] (and_then (in_order [checkpoint, validate_schema ?D, ?check]) (\<lambda>_. compute_schema_id ?D))
      [] 0 0 (\<lambda>x. x = schema_id_of ?D \<and> ?V) ?G"
    by (rule yields_check_then [OF 1], rule yields_conseq [OF yields_compute_schema_id [OF mem]]) auto
  obtain r1 s1 where c1: "and_then (in_order [checkpoint, validate_schema ?D, ?check])
      (\<lambda>_. compute_schema_id ?D) s = (r1, s1)" by fastforce
  show ?thesis
  proof (cases r1)
    case (Err e)
    then show ?thesis using 2 ok c1 by (auto simp: prepare_encoder_eq and_then_def [of "and_then _ _"] yields_def)
  next
    case Panicked
    then show ?thesis using 2 ok c1 by (simp add: yields_def)
  next
    case (Ok sid)
    then have s1: "enc_ok s1 []" "same_config s s1" "quiet_between s s1" "next_field s1 = next_field s"
      "collection_items s1 = collection_items s" "sid = schema_id_of ?D" ?V
      using 2 ok c1 by (simp_all add: yields_def)
    let ?s1 = "s1\<lparr>schema_id := sid\<rparr>"
    have ok1: "enc_ok ?s1 []" using s1(1) by (simp add: enc_ok_def)
    have w: "yields ?s1 [] (write_header ?r ?D (schema_id_of ?D)) (header_bytes ?r ?D) 0 0 (\<lambda>_. True) ?G"
      by (rule yields_write_header) (use s1(2) in \<open>auto simp: startable_def same_config_def\<close>)
    obtain r2 s2 where c2: "write_header ?r ?D (schema_id_of ?D) ?s1 = (r2, s2)" by fastforce
    have p: "prepare_encoder s = (r2, s2)"
      using c1 Ok c2 s1(2,6) by (simp add: prepare_encoder_eq and_then_def [of "and_then _ _"] same_config_def)
    have nc: "never_cancelled ?s1 \<longleftrightarrow> never_cancelled s" using s1(2) by (simp add: never_cancelled_def same_config_def)
    have q: "quiet_between ?s1 s' \<Longrightarrow> quiet_between s s'" for s'
      using s1(2,3) by (auto simp: quiet_between_def same_config_def)
    show ?thesis
    proof (cases r2)
      case (Ok u)
      then show ?thesis using w c2 p s1 ok1 q by (auto simp: yields_def same_config_def)
    next
      case (Err e)
      then show ?thesis using w c2 p ok1 nc by (auto simp: yields_def)
    next
      case Panicked
      then show ?thesis using w c2 ok1 by (simp add: yields_def)
    qed
  qed
qed

section \<open>The calls and the end of the frame\<close>

definition accepts_at ::
  "(field_spec list \<Rightarrow> field_spec list \<Rightarrow> bool) \<Rightarrow> canonical_schema \<Rightarrow> nat \<Rightarrow> field \<times> field_call \<Rightarrow> bool" where
  "accepts_at same D i fc \<longleftrightarrow> i < length (fields_of D) \<and> fst fc = field_at (i, fields_of D ! i)
     \<and> spec_wire (fields_of D ! i) = wire_of (value_of_call (snd fc))
     \<and> spec_presence (fields_of D ! i) = presence_of (value_of_call (snd fc))
     \<and> value_ok same (fields_of D ! i) (value_of_call (snd fc)) \<and> declared_ok (snd fc)"

definition calls_bytes :: "(field \<times> field_call) list \<Rightarrow> u8 list" where
  "calls_bytes calls = concat (map (\<lambda>(f, c). field_bytes f (value_of_call c)) calls)"

definition calls_items :: "(field \<times> field_call) list \<Rightarrow> nat" where
  "calls_items calls = sum_list (map (\<lambda>(f, c). items_of (value_of_call c)) calls)"

primrec accepts_from ::
  "(field_spec list \<Rightarrow> field_spec list \<Rightarrow> bool) \<Rightarrow> canonical_schema \<Rightarrow> nat \<Rightarrow> (field \<times> field_call) list \<Rightarrow> bool" where
  "accepts_from same D i [] \<longleftrightarrow> True"
| "accepts_from same D i (fc # calls) \<longleftrightarrow> accepts_at same D i fc \<and> accepts_from same D (Suc i) calls"

lemma accepted_at:
  "accepted same s f (value_of_call c) \<and> declared_ok c \<longleftrightarrow> accepts_at same (schema s) (next_field s) (f, c)"
  by (cases f) (auto simp: accepted_def accepts_at_def validate_field_Inr field_at_def)

definition calls_ready :: "canonical_limits \<Rightarrow> (field \<times> field_call) list \<Rightarrow> bool" where
  "calls_ready lim calls \<longleftrightarrow> list_all (\<lambda>fc. call_limits lim (snd fc)) calls"

lemma yields_run_calls:
  assumes "list_all (\<lambda>fc. call_typed (snd fc)) calls"
    and "G \<Longrightarrow> calls_ready (limits s) calls" "G \<Longrightarrow> accepts_from same (schema s) (next_field s) calls"
    and "G \<Longrightarrow> room (limits s) (length p + length (calls_bytes calls))"
    and "G \<Longrightarrow> next_field s + length calls \<le> u32_max" "G \<Longrightarrow> collection_items s + calls_items calls \<le> u64_max"
  shows "yields s p (in_order (map (run_call same) calls)) (calls_bytes calls) (length calls) (calls_items calls)
     (\<lambda>_. accepts_from same (schema s) (next_field s) calls) G"
  using assms
proof (induction calls arbitrary: s p)
  case Nil
  then show ?case by (simp add: calls_bytes_def calls_items_def yields_in_order_Nil)
next
  case (Cons fc calls)
  obtain f c where fc: "fc = (f, c)" by fastforce
  let ?v = "value_of_call c"
  show ?case unfolding list.map
  proof (rule yields_in_order_fact [where A = "accepts_at same (schema s) (next_field s) fc"
        and B = "accepts_from same (schema s) (Suc (next_field s)) calls"
        and q = "field_bytes f ?v" and n = 1 and m = "items_of ?v"
        and q' = "calls_bytes calls" and n' = "length calls" and m' = "calls_items calls"])
    have "yields s p (run_call same (f, c)) (field_bytes f ?v) 1 (items_of ?v)
        (\<lambda>_. accepted same s f ?v \<and> declared_ok c) G"
    proof (rule yields_run_call)
      assume G
      then have "accepted same s f ?v \<and> declared_ok c" using Cons.prems(3) unfolding accepted_at fc by simp
      then show "call_ready same s p f c"
        using Cons.prems(2,4,5,6) [OF \<open>G\<close>] accepted_selects
        by (auto simp: call_ready_def call_room_def calls_ready_def fc calls_bytes_def calls_items_def elim: room_mono)
    qed (use Cons.prems(1) fc in simp)
    then show "yields s p (run_call same fc) (field_bytes f ?v) 1 (items_of ?v)
        (\<lambda>_. accepts_at same (schema s) (next_field s) fc) G" unfolding accepted_at fc .
    fix s' assume s': "same_config s s'" "next_field s' = next_field s + 1"
      "collection_items s' = collection_items s + items_of ?v"
    have cfg: "schema s' = schema s" "limits s' = limits s" using s'(1) by (simp_all add: same_config_def)
    have "yields s' (p @ field_bytes f ?v) (in_order (map (run_call same) calls)) (calls_bytes calls) (length calls)
        (calls_items calls) (\<lambda>_. accepts_from same (schema s') (next_field s') calls) G"
      by (rule Cons.IH)
        (use Cons.prems s' cfg fc in \<open>auto simp: calls_ready_def calls_bytes_def calls_items_def add.assoc\<close>)
    then show "yields s' (p @ field_bytes f ?v) (in_order (map (run_call same) calls)) (calls_bytes calls)
        (length calls) (calls_items calls) (\<lambda>_. accepts_from same (schema s) (Suc (next_field s)) calls) G"
      using s'(2) cfg by simp
  qed (simp_all add: fc calls_bytes_def calls_items_def)
qed

definition frame_end :: "nat \<Rightarrow> u8 list" where
  "frame_end n = [END_MARKER] @ le_bytes 4 n"

definition receipt_for :: "encoder \<Rightarrow> u8 list \<Rightarrow> identity_receipt" where
  "receipt_for s p = \<lparr>
     receipt_id = \<lparr>id_role = role s, id_schema = schema s,
       id_digest = finalize (after (domain_key CANONICAL_IDENTITY_HASH_DOMAIN) DERIVE_KEY_MATERIAL p)\<rparr>,
     receipt_canonical_preimage = finalize (after IV 0 p),
     receipt_schema_id = schema_id s,
     receipt_canonical_bytes = length p,
     receipt_field_count = next_field s,
     receipt_collection_items = collection_items s,
     receipt_limits = limits s\<rparr>"

lemma publish_ok: "enc_ok s p \<Longrightarrow> publish s = receipt_for s p"
  by (simp add: publish_def receipt_for_def enc_ok_def)

lemma yields_finish:
  assumes "G \<Longrightarrow> next_field s = length (fields_of (schema s)) \<and> next_field s \<le> u32_max"
    and "G \<Longrightarrow> room (limits s) (length p + 5)"
  shows "yields s p finish (frame_end (next_field s)) 0 0
     (\<lambda>rcpt. next_field s = length (fields_of (schema s)) \<and> rcpt = receipt_for s (p @ frame_end (next_field s))) G"
  unfolding finish_def
proof (rule yields_reading, rule yields_ensuring_then)
  fix k assume "as_u32 (length (fields_of (schema s))) = Inr k"
  then have k: "k = length (fields_of (schema s))" by simp
  show "yields s p (if next_field s \<noteq> k then refuse (MissingFields k (next_field s))
      else and_then (in_order [and_then (ensuring (checked_sum [1, 4])) ensure_additional, append_bytes [END_MARKER],
        append_bytes (le_bytes 4 (next_field s)), checkpoint])
        (\<lambda>_. reading (\<lambda>self. return_with (publish self)))) (frame_end (next_field s)) 0 0
     (\<lambda>rcpt. next_field s = length (fields_of (schema s)) \<and> rcpt = receipt_for s (p @ frame_end (next_field s))) G"
  proof (cases "next_field s = k")
    case False
    then show ?thesis using assms(1) k by (auto intro!: yields_refuse)
  next
    case True
    have 1: "yields s p (in_order [and_then (ensuring (checked_sum [1, 4])) ensure_additional, append_bytes [END_MARKER],
        append_bytes (le_bytes 4 (next_field s)), checkpoint]) (frame_end (next_field s)) 0 0 (\<lambda>_. True) G"
      by (rule yields_seq yields_single yields_ensuring_then yields_ensure_additional room_append_bytes yields_checkpoint
        | (use assms(2) in \<open>auto simp: same_config_limits frame_end_def u64_max_def elim: room_mono; fail\<close>))+
    have not: "\<not> next_field s \<noteq> k" using True by simp
    show ?thesis unfolding if_not_P [OF not]
    proof (rule yields_and_then [OF 1, where q' = "[]" and n' = 0 and m' = 0], rule yields_reading, rule yields_return)
      fix s' assume s': "enc_ok s' (p @ frame_end (next_field s))" "same_config s s'"
        "next_field s' = next_field s + 0" "collection_items s' = collection_items s + 0"
      show "next_field s = length (fields_of (schema s))
          \<and> publish s' = receipt_for s (p @ frame_end (next_field s))"
        unfolding publish_ok [OF s'(1)] using s' True k by (simp add: receipt_for_def same_config_def)
    qed simp_all
  qed
qed (use assms in auto)

lemma calls_bytes_frame:
  assumes "accepts_from same D i calls" "i + length calls = length (fields_of D)"
  shows "calls_bytes calls = body_bytes (enumerate i (drop i (fields_of D))) (map (\<lambda>fc. value_of_call (snd fc)) calls)"
  using assms
proof (induction calls arbitrary: i)
  case Nil
  then show ?case by (simp add: calls_bytes_def body_bytes_def)
next
  case (Cons fc calls)
  have i: "i < length (fields_of D)" and f: "fst fc = field_at (i, fields_of D ! i)"
    using Cons.prems(1) by (simp_all add: accepts_at_def)
  have "drop i (fields_of D) = fields_of D ! i # drop (Suc i) (fields_of D)"
    using i by (simp add: Cons_nth_drop_Suc)
  then show ?case using Cons.IH [of "Suc i"] Cons.prems f
    by (cases fc) (simp add: calls_bytes_def body_bytes_def)
qed

lemma calls_frame:
  assumes "accepts_from same D 0 calls" "length calls = length (fields_of D)"
  shows "header_bytes r D @ calls_bytes calls @ frame_end (length calls)
    = frame r D (map (\<lambda>fc. value_of_call (snd fc)) calls)"
  using calls_bytes_frame [of same D 0 calls] assms by (simp add: frame_def frame_end_def)

end
