(* ===== verification/Identity_Result.thy ===== *)
theory Identity_Result
  imports Identity_Build
begin

text \<open>
  The result of identity construction as a function: which refusal or which identity and receipt a sequence of
  field calls ends in, expressed through the frame. The guarantees in \<open>Identity_Properties\<close> rest on it.
\<close>

section \<open>The result of a construction\<close>

definition call_values :: "(field \<times> field_call) list \<Rightarrow> field_value list" where
  "call_values calls = map (\<lambda>fc. value_of_call (snd fc)) calls"

text \<open>The calls supply exactly the declared fields, in order, with acceptable values and true
  declared lengths.\<close>

definition conforming ::
  "(field_spec list \<Rightarrow> field_spec list \<Rightarrow> bool) \<Rightarrow> canonical_schema \<Rightarrow> (field \<times> field_call) list \<Rightarrow> bool" where
  "conforming same D calls \<longleftrightarrow> length calls = length (fields_of D) \<and> accepts_from same D 0 calls"

definition calls_typed :: "(field \<times> field_call) list \<Rightarrow> bool" where
  "calls_typed calls \<longleftrightarrow> list_all (\<lambda>fc. call_typed (snd fc)) calls"

definition publishable ::
  "(field_spec list \<Rightarrow> field_spec list \<Rightarrow> bool) \<Rightarrow> identity_role \<Rightarrow> canonical_schema \<Rightarrow> canonical_limits
    \<Rightarrow> (field \<times> field_call) list \<Rightarrow> bool" where
  "publishable same r D lim calls \<longleftrightarrow> cancellation_poll_bytes lim \<noteq> 0 \<and> schema_admissible lim D
     \<and> length (fields_of D) \<le> u32_max \<and> conforming same D calls \<and> calls_ready lim calls
     \<and> calls_items calls \<le> u64_max \<and> room lim (length (frame r D (call_values calls)))"

definition published ::
  "(field_spec list \<Rightarrow> field_spec list \<Rightarrow> bool) \<Rightarrow> identity_role \<Rightarrow> canonical_schema \<Rightarrow> canonical_limits
    \<Rightarrow> (nat \<Rightarrow> bool) \<Rightarrow> (field \<times> field_call) list \<Rightarrow> identity_receipt \<Rightarrow> encoder \<Rightarrow> bool" where
  "published same r D lim probe calls rcpt self \<longleftrightarrow>
     conforming same D calls \<and> schema_valid MAX_SCHEMA_CHILD_DEPTH D
   \<and> length (frame r D (call_values calls)) \<le> max_canonical_bytes lim
   \<and> length (frame r D (call_values calls)) \<le> u64_max
   \<and> rcpt = \<lparr>receipt_id = \<lparr>id_role = r, id_schema = D,
         id_digest = finalize (after (domain_key CANONICAL_IDENTITY_HASH_DOMAIN) DERIVE_KEY_MATERIAL
           (frame r D (call_values calls)))\<rparr>,
       receipt_canonical_preimage = finalize (after IV 0 (frame r D (call_values calls))),
       receipt_schema_id = schema_id_of D,
       receipt_canonical_bytes = length (frame r D (call_values calls)),
       receipt_field_count = length calls, receipt_collection_items = calls_items calls,
       receipt_limits = lim\<rparr>
   \<and> (\<forall>i < polls self. \<not> probe i)"

lemma yields_calls_and_finish:
  assumes "calls_typed calls" and z0: "next_field s = 0" "collection_items s = 0"
    and "G \<Longrightarrow> conforming same (schema s) calls" "G \<Longrightarrow> calls_ready (limits s) calls"
    and "G \<Longrightarrow> room (limits s) (length p + (length (calls_bytes calls) + 5))"
    and "G \<Longrightarrow> length calls \<le> u32_max" "G \<Longrightarrow> calls_items calls \<le> u64_max"
  shows "yields s p (and_then (in_order (map (run_call same) calls)) (\<lambda>_. finish))
     (calls_bytes calls @ frame_end (length calls)) (length calls) (calls_items calls)
     (\<lambda>rcpt. conforming same (schema s) calls \<and>
        rcpt = receipt_for (s\<lparr>next_field := length calls, collection_items := calls_items calls\<rparr>)
          (p @ calls_bytes calls @ frame_end (length calls))) G"
proof (rule yields_and_then [OF yields_run_calls, where q' = "frame_end (length calls)" and n' = 0 and m' = 0])
  fix u s1 assume a: "accepts_from same (schema s) (next_field s) calls" and s1: "same_config s s1"
    "next_field s1 = next_field s + length calls" "collection_items s1 = collection_items s + calls_items calls"
  have cfg: "schema s1 = schema s" "limits s1 = limits s" using s1(1) by (simp_all add: same_config_def)
  have f: "yields s1 (p @ calls_bytes calls) finish (frame_end (next_field s1)) 0 0
     (\<lambda>rcpt. next_field s1 = length (fields_of (schema s1))
        \<and> rcpt = receipt_for s1 ((p @ calls_bytes calls) @ frame_end (next_field s1))) G"
    by (rule yields_finish) (use assms s1 cfg in \<open>auto simp: conforming_def add.assoc\<close>)
  show "yields s1 (p @ calls_bytes calls) finish (frame_end (length calls)) 0 0
     (\<lambda>rcpt. conforming same (schema s) calls \<and>
        rcpt = receipt_for (s\<lparr>next_field := length calls, collection_items := calls_items calls\<rparr>)
          (p @ calls_bytes calls @ frame_end (length calls))) G"
    using f a s1 cfg z0
    by (auto simp: conforming_def receipt_for_def same_config_def elim: yields_conseq)
qed (use assms in \<open>auto simp: calls_typed_def conforming_def elim: room_mono\<close>)

lemma length_frame_parts:
  "conforming same D calls \<Longrightarrow>
   length (frame r D (call_values calls)) = length (header_bytes r D) + (length (calls_bytes calls) + 5)"
  using calls_frame [of same D calls r, symmetric]
  by (simp add: conforming_def call_values_def frame_end_def)

lemma build_result:
  assumes mem: "addressable D" and typed: "calls_typed calls"
  shows "case build same r D lim probe calls of
      Ok (rcpt, self) \<Rightarrow> published same r D lim probe calls rcpt self
    | Err e \<Rightarrow> \<not> (publishable same r D lim calls \<and> (\<forall>i. \<not> probe i))
    | Panicked \<Rightarrow> False"
proof (cases "cancellation_poll_bytes lim = 0")
  case True
  then show ?thesis by (simp add: build_def new_encoder_def validate_limits_def publishable_def)
next
  case False
  then have vl: "validate_limits lim = Inr ()" by (simp add: validate_limits_def)
  let ?s0 = "\<lparr>semantic_hasher = after (domain_key CANONICAL_IDENTITY_HASH_DOMAIN) DERIVE_KEY_MATERIAL [],
      preimage_hasher = blake3_new, schema = D, role = r, schema_id = replicate 32 0, limits = lim,
      cancellation = probe, polls = 0, canonical_bytes = 0, next_field = 0, collection_items = 0\<rparr>"
  have st: "start_encoder r D lim probe = Some ?s0"
    by (simp add: start_encoder_def derive_key_hasher_after [OF domains_fit(2)])
  have ok0: "enc_ok ?s0 []" using False by (simp add: enc_ok_def blake3_new_def after_Nil)
  let ?G = "publishable same r D lim calls"
  have start: "?G \<Longrightarrow> startable lim r D"
    using length_frame_parts [of same D calls r] by (auto simp: publishable_def startable_def elim: room_mono)
  obtain r1 s1 where p: "prepare_encoder ?s0 = (r1, s1)" by fastforce
  note prep = prepare_encoder_result [OF ok0, unfolded p, simplified, OF mem]
  show ?thesis
  proof (cases r1)
    case Panicked
    then show ?thesis using prep by simp
  next
    case (Err e)
    then have "build same r D lim probe calls = Err e"
      using p vl st by (simp add: build_def new_encoder_def)
    then show ?thesis using prep Err start by (auto simp: never_cancelled_def)
  next
    case (Ok u)
    then have s1: "enc_ok s1 (header_bytes r D)" "schema_id s1 = schema_id_of D" "schema s1 = D" "role s1 = r"
      "limits s1 = lim" "cancellation s1 = probe" "quiet_between ?s0 s1" "next_field s1 = 0"
      "collection_items s1 = 0" "schema_valid MAX_SCHEMA_CHILD_DEPTH D"
      using prep by simp_all
    let ?c = "and_then (in_order (map (run_call same) calls)) (\<lambda>_. finish)"
    let ?q = "calls_bytes calls @ frame_end (length calls)"
    have y: "yields s1 (header_bytes r D) ?c ?q (length calls) (calls_items calls)
        (\<lambda>rcpt. conforming same (schema s1) calls \<and>
          rcpt = receipt_for (s1\<lparr>next_field := length calls, collection_items := calls_items calls\<rparr>)
            (header_bytes r D @ calls_bytes calls @ frame_end (length calls))) ?G"
      by (rule yields_calls_and_finish [OF typed])
        (use s1 length_frame_parts [of same D calls r] in
          \<open>auto simp: publishable_def conforming_def call_values_def add.assoc\<close>)
    obtain r2 s2 where c: "?c s1 = (r2, s2)" by fastforce
    have b: "build same r D lim probe calls = (case r2 of Ok rcpt \<Rightarrow> Ok (rcpt, s2) | Err e \<Rightarrow> Err e | Panicked \<Rightarrow> Panicked)"
      using p Ok vl st c by (simp add: build_def new_encoder_def split: outcome.splits)
    show ?thesis
    proof (cases r2)
      case Panicked
      then show ?thesis using y s1(1) c by (simp add: yields_def)
    next
      case (Err e)
      then have "\<not> (?G \<and> never_cancelled s1)" using y s1(1) c by (simp add: yields_def)
      then show ?thesis unfolding b Err using s1(6) by (auto simp: never_cancelled_def)
    next
      case (Ok rcpt)
      then have 2: "enc_ok s2 (header_bytes r D @ ?q)" "same_config s1 s2" "quiet_between s1 s2"
        "conforming same D calls"
        "rcpt = receipt_for (s1\<lparr>next_field := length calls, collection_items := calls_items calls\<rparr>)
            (header_bytes r D @ calls_bytes calls @ frame_end (length calls))"
        using y s1(1,3) c by (simp_all add: yields_def)
      have fr: "header_bytes r D @ calls_bytes calls @ frame_end (length calls) = frame r D (call_values calls)"
        using calls_frame [of same D calls r] 2(4) by (simp add: conforming_def call_values_def)
      have quiet: "\<not> probe i" if "i < polls s2" for i
        using that s1(6,7) 2(2,3) by (auto simp: quiet_between_def same_config_def) (metis not_le)
      have "published same r D lim probe calls rcpt s2"
        unfolding published_def using 2 s1 fr quiet
        by (auto simp: receipt_for_def enc_ok_def same_config_def)
      then show ?thesis unfolding b Ok by simp
    qed
  qed
qed

end
