(* ===== verification/Identity_Canonical.thy ===== *)
theory Identity_Canonical
  imports Identity_Result
begin

text \<open>
  The canonical frame determines what it was built from: its role, the identity of its schema and,
  for a given schema, every field value.
\<close>

section \<open>Canonical sets\<close>

text \<open>The content of a field value: of a set only its elements count.\<close>

fun content_of :: "field_value \<Rightarrow> u8 list set + field_value" where
  "content_of (VSet vs) = Inl (set vs)"
| "content_of v = Inr v"

lemma content_of_inj:
  assumes "content_of v = content_of w" "value_ok same spec v" "value_ok same spec w"
  shows "v = w"
proof (cases v)
  case (VSet vs)
  then obtain ws where ws: "w = VSet ws" "set vs = set ws" using assms(1) by (cases w) auto
  then have "sorted_wrt (<) vs" "sorted_wrt (<) ws" using assms(2,3) VSet by simp_all
  then show ?thesis using VSet ws strict_sorted_equal by blast
qed (use assms(1) in \<open>cases w; simp\<close>)+

lemma contents_inj:
  "accepts_from same D i calls \<Longrightarrow> accepts_from same D i calls' \<Longrightarrow>
   map content_of (call_values calls) = map content_of (call_values calls') \<Longrightarrow>
   call_values calls = call_values calls'"
proof (induction calls arbitrary: i calls')
  case Nil
  then show ?case by (simp add: call_values_def)
next
  case (Cons fc calls)
  then obtain fc' rest where c: "calls' = fc' # rest" by (cases calls') (auto simp: call_values_def)
  have "value_of_call (snd fc) = value_of_call (snd fc')"
    by (rule content_of_inj [of _ _ same "fields_of D ! i"])
      (use Cons.prems c in \<open>simp_all add: call_values_def accepts_at_def\<close>)
  moreover have "call_values calls = call_values rest"
    by (rule Cons.IH) (use Cons.prems c in \<open>auto simp: call_values_def\<close>)
  ultimately show ?case by (simp add: c call_values_def)
qed

section \<open>Values are self-delimiting\<close>

text \<open>The schema of a child value is the one its field declares.\<close>

fun value_schema :: "field_value \<Rightarrow> canonical_schema option" where
  "value_schema (VChild c) = Some (id_schema c)"
| "value_schema (VChildren r D ds) = Some D"
| "value_schema v = None"

fun digests_ok :: "field_value \<Rightarrow> bool" where
  "digests_ok (VChild c) \<longleftrightarrow> length (id_digest c) = 32"
| "digests_ok (VChildren r D ds) \<longleftrightarrow> list_all (\<lambda>d. length d = 32) ds"
| "digests_ok v \<longleftrightarrow> True"

lemma length_in_concat: "b \<in> set bs \<Longrightarrow> length b \<le> length (concat (map len_bytes bs))"
  by (induction bs) (auto simp: len_bytes_def)

interpretation digest_frame: framing "\<lambda>d. d" "\<lambda>d. length d = 32"
  by unfold_locales simp

lemma unat_bytes: "unat (v :: u32) < 256 ^ 4" "unat (w :: u64) < 256 ^ 8"
  using unsigned_less [of v] unsigned_less [of w] by simp_all

lemma counted_delimited:
  assumes "le_bytes 8 (length vs) @ concat (map len_bytes vs) @ x = le_bytes 8 (length ws) @ concat (map len_bytes ws) @ y"
    and "length (concat (map len_bytes vs)) \<le> u64_max" "length (concat (map len_bytes ws)) \<le> u64_max"
  shows "vs = ws \<and> x = y"
proof -
  have "length vs \<le> u64_max" "length ws \<le> u64_max"
    using assms(2,3) length_vs_bytes [of vs] length_vs_bytes [of ws] by linarith+
  then have l: "length vs = length ws" and e: "concat (map len_bytes vs) @ x = concat (map len_bytes ws) @ y"
    using assms(1) le_frame.delimited u64_max_bytes by blast+
  have "list_all (\<lambda>b. length b \<le> u64_max) vs" "list_all (\<lambda>b. length b \<le> u64_max) ws"
    using assms(2,3) length_in_concat le_trans unfolding list_all_iff by blast+
  then show ?thesis using len_frame.delimited_list l e by blast
qed

lemma child_descriptor_delimited:
  assumes "child_descriptor r D @ x = child_descriptor r' D @ y"
  shows "r = r' \<and> x = y"
  using assms by (simp add: child_descriptor_def)

lemma value_delimited:
  assumes "wire_of v = wire_of w" "presence_of v = presence_of w" "value_schema v = value_schema w"
    and "length (value_bytes v) \<le> u64_max" "length (value_bytes w) \<le> u64_max" "digests_ok v" "digests_ok w"
    and "value_bytes v @ x = value_bytes w @ y"
  shows "v = w \<and> x = y"
proof -
  have len: "a = b \<and> x = y" if "len_bytes a @ x = len_bytes b @ y" "length (len_bytes a) \<le> u64_max"
    "length (len_bytes b) \<le> u64_max" for a b and x y :: "u8 list"
    using that len_frame.delimited [of a b x y] by (simp add: len_bytes_def)
  note le4 = le_frame.delimited [OF unat_bytes(1) unat_bytes(1)]
  note le8 = le_frame.delimited [OF unat_bytes(2) unat_bytes(2)]
  show ?thesis
  proof (cases v)
    case (VUtf8 b)
    then obtain c where c: "w = VUtf8 c" using assms(1,2) by (cases w) auto
    show ?thesis using assms(4,5,8) len [of b x c y] unfolding VUtf8 c by simp
  next
    case (VBytes b)
    then obtain c where c: "w = VBytes c" using assms(1,2) by (cases w) auto
    show ?thesis using assms(4,5,8) len [of b x c y] unfolding VBytes c by simp
  next
    case (VU64 b)
    then obtain c where c: "w = VU64 c" using assms(1,2) by (cases w) auto
    show ?thesis using assms(8) le8 [of b x c y] unfolding VU64 c by (simp add: word_unat_eq_iff)
  next
    case (VI64 b)
    then obtain c where c: "w = VI64 c" using assms(1,2) by (cases w) auto
    show ?thesis using assms(8) le8 [of b x c y] unfolding VI64 c by (simp add: word_unat_eq_iff)
  next
    case (VFlag b)
    then show ?thesis using assms by (cases w) (auto split: if_splits)
  next
    case (VFloat b)
    then obtain c where c: "w = VFloat c" using assms(1,2) by (cases w) auto
    show ?thesis using assms(8) le8 [of b x c y] unfolding VFloat c by (simp add: word_unat_eq_iff)
  next
    case (VOptional b)
    then obtain c where c: "w = VOptional c" using assms(1,2) by (cases w) auto
    show ?thesis
    proof (cases "b = None \<or> c = None")
      case True
      then show ?thesis using assms(8) unfolding VOptional c by (cases b; cases c) auto
    next
      case False
      then obtain b' c' where "b = Some b'" "c = Some c'" by auto
      then show ?thesis using assms(4,5,8) len [of b' x c' y] unfolding VOptional c by simp
    qed
  next
    case (VVariant n b)
    then obtain m c where c: "w = VVariant m c" using assms(1) by (cases w) auto
    have "le_bytes 4 (unat n) @ len_bytes b @ x = le_bytes 4 (unat m) @ len_bytes c @ y"
      using assms(8) unfolding VVariant c value_bytes.simps append_assoc .
    then have "unat n = unat m" "len_bytes b @ x = len_bytes c @ y" using le4 by blast+
    then have "n = m" "len_bytes b @ x = len_bytes c @ y" by (simp_all add: word_unat_eq_iff)
    then show ?thesis using len [of b x c y] assms(4,5) unfolding VVariant c by simp
  next
    case (VOrdered vs)
    then obtain ws where c: "w = VOrdered ws" using assms(1) by (cases w) auto
    show ?thesis using counted_delimited [of vs x ws y] assms(4,5,8) unfolding VOrdered c by simp
  next
    case (VSet vs)
    then obtain ws where c: "w = VSet ws" using assms(1) by (cases w) auto
    show ?thesis using counted_delimited [of vs x ws y] assms(4,5,8) unfolding VSet c by simp
  next
    case (VChild a)
    then obtain b where c: "w = VChild b" using assms(1) by (cases w) auto
    have "id_schema a = id_schema b" using assms(3) unfolding VChild c by simp
    then have "id_role a = id_role b" "id_digest a @ x = id_digest b @ y"
      using assms(8) child_descriptor_delimited unfolding VChild c by auto
    then show ?thesis using assms(3,6,7) unfolding VChild c by (auto intro!: strong_identity.equality)
  next
    case (VChildren r D ds)
    then obtain r' ds' where c: "w = VChildren r' D ds'" using assms(1,3) by (cases w) auto
    have e: "le_bytes 8 (length ds) @ child_descriptor r D @ concat ds @ x
        = le_bytes 8 (length ds') @ child_descriptor r' D @ concat ds' @ y"
      using assms(8) unfolding VChildren c by simp
    have "length ds \<le> u64_max" "length ds' \<le> u64_max"
      using assms(4-7) unfolding VChildren c by (auto simp: length_concat_digests)
    then have l: "length ds = length ds'" "child_descriptor r D @ concat ds @ x = child_descriptor r' D @ concat ds' @ y"
      using le_frame.delimited [OF u64_max_bytes u64_max_bytes e] by blast+
    then have "r = r'" "concat ds @ x = concat ds' @ y" using child_descriptor_delimited by blast+
    then show ?thesis
      using digest_frame.delimited_list [OF l(1)] assms(6,7) unfolding VChildren c by simp
  qed
qed

section \<open>Frames are injective\<close>

lemma bound_schema:
  assumes "\<And>a b. same a b \<Longrightarrow> a = b" "value_ok same spec v" "value_ok same spec w" "wire_of v = wire_of w"
  shows "value_schema v = value_schema w"
proof -
  have "spec_child spec = Some (child_for_identity r D)" if "binding_accepts same spec r D" for r D
    using that assms(1) child_matches_bound [of same]
    by (auto simp: binding_accepts_def validate_child_binding_def split: option.splits sum.splits)
  moreover have "D = D'" if "child_for_identity r D = child_for_identity r' D'" for r r' D D'
    using that by (auto simp: child_for_identity_def intro!: canonical_schema.equality)
  ultimately have "D = D'" if "binding_accepts same spec r D" "binding_accepts same spec r' D'" for r r' D D'
    using that by (metis option.inject)
  then show ?thesis using assms(2-4) by (cases v; cases w) auto
qed

lemma call_values_simps [simp]:
  "call_values [] = []" "call_values (fc # calls) = value_of_call (snd fc) # call_values calls"
  by (simp_all add: call_values_def)

lemma calls_bytes_Cons:
  "accepts_at same D i fc \<Longrightarrow> calls_bytes (fc # calls) =
    field_prefix (field_at (i, fields_of D ! i)) (spec_wire (fields_of D ! i)) (spec_presence (fields_of D ! i))
    @ value_bytes (value_of_call (snd fc)) @ calls_bytes calls"
  by (cases fc) (simp add: calls_bytes_def accepts_at_def field_bytes_def)

lemma calls_bytes_inj:
  assumes same: "\<And>a b. same a b \<Longrightarrow> a = b"
  shows "accepts_from same D i calls \<Longrightarrow> accepts_from same D i calls' \<Longrightarrow> length calls = length calls' \<Longrightarrow>
   list_all (digests_ok \<circ> value_of_call \<circ> snd) calls \<Longrightarrow> list_all (digests_ok \<circ> value_of_call \<circ> snd) calls' \<Longrightarrow>
   length (calls_bytes calls) \<le> u64_max \<Longrightarrow> length (calls_bytes calls') \<le> u64_max \<Longrightarrow>
   calls_bytes calls @ x = calls_bytes calls' @ x \<Longrightarrow> call_values calls = call_values calls'"
proof (induction calls arbitrary: i calls')
  case Nil
  then show ?case by simp
next
  case (Cons fc calls)
  then obtain fc' rest where c: "calls' = fc' # rest" by (cases calls') auto
  have a: "accepts_at same D i fc" "accepts_at same D i fc'" using Cons.prems(1,2) c by simp_all
  let ?v = "value_of_call (snd fc)" and ?w = "value_of_call (snd fc')"
  have l: "length (value_bytes ?v) \<le> u64_max" "length (calls_bytes calls) \<le> u64_max"
    "length (value_bytes ?w) \<le> u64_max" "length (calls_bytes rest) \<le> u64_max"
    using Cons.prems(6,7) unfolding c calls_bytes_Cons [OF a(1)] calls_bytes_Cons [OF a(2)] by simp_all
  have e: "value_bytes ?v @ calls_bytes calls @ x = value_bytes ?w @ calls_bytes rest @ x"
    using Cons.prems(8) unfolding c calls_bytes_Cons [OF a(1)] calls_bytes_Cons [OF a(2)] by simp
  have "value_schema ?v = value_schema ?w"
    by (rule bound_schema [OF same]) (use a in \<open>auto simp: accepts_at_def\<close>)
  then have "?v = ?w \<and> calls_bytes calls @ x = calls_bytes rest @ x"
    by (rule value_delimited [OF _ _ _ l(1,3) _ _ e, rotated 2])
      (use a Cons.prems(4,5) c in \<open>auto simp: accepts_at_def\<close>)
  moreover have "call_values calls = call_values rest"
    by (rule Cons.IH [of "Suc i"]) (use Cons.prems c l calculation in auto)
  ultimately show ?case by (simp add: c)
qed

lemma typed_digests: "calls_typed calls \<Longrightarrow> list_all (digests_ok \<circ> value_of_call \<circ> snd) calls"
proof -
  have "call_typed c \<Longrightarrow> digests_ok (value_of_call c)" for c by (cases c) auto
  then show "calls_typed calls \<Longrightarrow> ?thesis" by (auto simp: calls_typed_def list_all_iff)
qed

lemma frame_values_inj:
  assumes same: "\<And>a b. same a b \<Longrightarrow> a = b" and "conforming same D calls" "conforming same D calls'"
    and "calls_typed calls" "calls_typed calls'" "length (frame r D (call_values calls)) \<le> u64_max"
    and eq: "frame r D (call_values calls) = frame r D (call_values calls')"
  shows "call_values calls = call_values calls'"
proof -
  note split = calls_frame [of same D _ r, symmetric, folded call_values_def]
  have c: "accepts_from same D 0 calls" "accepts_from same D 0 calls'" "length calls = length (fields_of D)"
    "length calls' = length (fields_of D)" using assms(2,3) by (simp_all add: conforming_def)
  have e: "calls_bytes calls @ frame_end (length (fields_of D)) = calls_bytes calls' @ frame_end (length (fields_of D))"
    using eq unfolding split [OF c(1,3)] split [OF c(2,4)] c(3,4) by simp
  then have "length (calls_bytes calls) \<le> u64_max" "length (calls_bytes calls') \<le> u64_max"
    using assms(6) unfolding split [OF c(1,3)] by auto
  then show ?thesis
    using calls_bytes_inj [OF same c(1,2)] c(3,4) typed_digests [OF assms(4)] typed_digests [OF assms(5)] e by simp
qed

text \<open>What the header pins down of role and schema.\<close>

lemma header_delimited:
  assumes "header_bytes r D @ x = header_bytes r' D' @ y"
    and "length (header_bytes r D) \<le> u64_max" "length (header_bytes r' D') \<le> u64_max"
  shows "r = r' \<and> domain_of D = domain_of D' \<and> name_of D = name_of D' \<and> version_of D = version_of D'
    \<and> context_of D = context_of D' \<and> schema_id_of D = schema_id_of D'"
proof -
  have l: "length (domain_of E) \<le> u64_max \<and> length (name_of E) \<le> u64_max \<and> length (context_of E) \<le> u64_max"
    if "length (header_bytes s E) \<le> u64_max" for s E
    using that by (simp add: header_bytes_def len_bytes_def)
  note l = l [OF assms(2)] l [OF assms(3)]
  define tail where "tail E z = le_bytes 4 (length (fields_of E)) @ concat (map header_field (enumerate 0 (fields_of E))) @ z"
    for E :: canonical_schema and z
  have "role_tag r = role_tag r'" and "len_bytes (domain_of D) @ len_bytes (name_of D) @ schema_id_of D
      @ le_bytes 4 (unat (version_of D)) @ len_bytes (context_of D) @ tail D x
    = len_bytes (domain_of D') @ len_bytes (name_of D') @ schema_id_of D'
      @ le_bytes 4 (unat (version_of D')) @ len_bytes (context_of D') @ tail D' y"
    using assms(1) by (simp_all add: header_bytes_def tail_def)
  moreover from this have "domain_of D = domain_of D'" "name_of D = name_of D'"
    and "schema_id_of D @ le_bytes 4 (unat (version_of D)) @ len_bytes (context_of D) @ tail D x
      = schema_id_of D' @ le_bytes 4 (unat (version_of D')) @ len_bytes (context_of D') @ tail D' y"
    using l len_frame.delimited by blast+
  moreover from this(3) have "schema_id_of D = schema_id_of D'"
    "le_bytes 4 (unat (version_of D)) @ len_bytes (context_of D) @ tail D x
      = le_bytes 4 (unat (version_of D')) @ len_bytes (context_of D') @ tail D' y"
    by (simp_all add: same_length_append)
  moreover from this(2) have "unat (version_of D) = unat (version_of D')"
    "len_bytes (context_of D) @ tail D x = len_bytes (context_of D') @ tail D' y"
    using le_frame.delimited [OF unat_bytes(1) unat_bytes(1)] by blast+
  moreover from this(2) have "context_of D = context_of D'" using l len_frame.delimited by blast
  ultimately show ?thesis by (simp add: word_unat_eq_iff [of "version_of D"])
qed

end
