(* ===== verification/Identity_Properties.thy ===== *)
theory Identity_Properties
  imports Identity_Canonical
begin

text \<open>
  The guarantees of identity construction: what a published identity names, that construction
  never panics, that nothing is published once a cancellation was observed, that every admissible
  construction succeeds, and that an identity depends on the content alone and determines it.
\<close>

section \<open>An example\<close>

definition record_schema :: canonical_schema where
  "record_schema = \<lparr>domain_of = str_bytes ''org.example.record.v1'', name_of = str_bytes ''record'', version_of = 1,
     context_of = str_bytes ''example'', fields_of = [FieldSpec (str_bytes ''name'') Utf8 Required None,
       FieldSpec (str_bytes ''body'') Bytes Required None, FieldSpec (str_bytes ''tags'') CanonicalSet Required None]\<rparr>"

definition record_calls :: "field_call \<Rightarrow> (field \<times> field_call) list" where
  "record_calls body = [
     (\<lparr>ordinal = 0, field_name = str_bytes ''name''\<rparr>, CallUtf8 (str_bytes ''ab'')),
     (\<lparr>ordinal = 1, field_name = str_bytes ''body''\<rparr>, body),
     (\<lparr>ordinal = 2, field_name = str_bytes ''tags''\<rparr>, CallSet 2 [[1], [2, 0]])]"

definition small_limits :: canonical_limits where
  "small_limits = \<lparr>max_canonical_bytes = 4096, max_field_bytes = 64, max_fields = 8,
     max_collection_items = 4, cancellation_poll_bytes = 7\<rparr>"

abbreviation no_alias :: "field_spec list \<Rightarrow> field_spec list \<Rightarrow> bool" where
  "no_alias \<equiv> \<lambda>_ _. False"

lemma record_typed: "call_typed body \<Longrightarrow> calls_typed (record_calls body)"
  by (simp add: calls_typed_def record_calls_def)

lemma record_valid: "schema_valid n record_schema"
  by (cases n) (simp_all add: schema_valid_at_def record_schema_def binding_ok_def is_child_wire_def str_bytes_def)

lemma record_within:
  "21 \<le> b \<Longrightarrow> strings_within b n record_schema" "3 \<le> b \<Longrightarrow> fields_within b n record_schema"
  "entries n record_schema = 3"
  by (cases n; simp add: strings_within_at_def fields_within_at_def entries_at_def within_child_def
      child_entries_def record_schema_def str_bytes_def)+

lemma record_addressable: "addressable record_schema"
proof -
  have "length (concat (write_schema_descriptor_at n record_schema)) \<le> 2 ^ 64" for n
    by (cases n) (simp_all add: record_schema_def schema_descriptor_at_def field_descriptor_def hash_len_bytes_def
        SCHEMA_MAGIC_def str_bytes_def)
  then show ?thesis by (simp add: addressable_def write_schema_descriptor_def)
qed

lemma record_publishable:
  assumes "body = CallBytes [1, 2, 3] \<or> body = CallBytesStream 3 [[1], [2, 3]]"
    and "lim = default_limits \<or> lim = small_limits"
  shows "publishable no_alias Entity record_schema lim (record_calls body)"
proof -
  have b: "value_of_call body = VBytes [1, 2, 3]" "declared_ok body" using assms(1) by auto
  have f: "conforming no_alias record_schema (record_calls body)"
    using b by (simp add: conforming_def record_calls_def record_schema_def accepts_at_def field_at_def)
  have "length (calls_bytes (record_calls body)) \<le> 200"
    by (simp add: calls_bytes_def record_calls_def field_bytes_def field_prefix_def b len_bytes_def str_bytes_def)
  moreover have "length (header_bytes Entity record_schema) \<le> 200"
    by (simp add: header_bytes_def header_field_def record_schema_def len_bytes_def str_bytes_def schema_id_of_def
        CANONICAL_MAGIC_def)
  ultimately have "room lim (length (frame Entity record_schema (call_values (record_calls body))))"
    using assms(2) unfolding length_frame_parts [OF f]
    by (auto simp: room_def default_limits_def small_limits_def u64_max_def)
  moreover have "calls_ready lim (record_calls body)"
    using assms by (auto simp: calls_ready_def record_calls_def default_limits_def small_limits_def len_bytes_def
        str_bytes_def u64_max_def)
  moreover have "schema_admissible lim record_schema"
    using assms(2) record_valid
    by (auto simp: schema_admissible_def record_within default_limits_def small_limits_def u64_max_def
        MAX_SCHEMA_CHILD_DEPTH_def)
  ultimately show ?thesis
    using f assms(2) b
    by (auto simp: publishable_def default_limits_def small_limits_def record_schema_def u32_max_def u64_max_def
        calls_items_def record_calls_def)
qed

lemma record_publishes:
  assumes "body = CallBytes [1, 2, 3] \<or> body = CallBytesStream 3 [[1], [2, 3]]"
    and "lim = default_limits \<or> lim = small_limits"
  shows "\<exists>rcpt self. build no_alias Entity record_schema lim (\<lambda>_. False) (record_calls body) = Ok (rcpt, self)"
proof -
  have "calls_typed (record_calls body)" using assms(1) by (auto intro: record_typed)
  from build_result [OF record_addressable this, of no_alias Entity lim "\<lambda>_. False"] show ?thesis
    using record_publishable [OF assms] by (auto split: outcome.splits prod.splits)
qed

section \<open>What a published identity names\<close>

text \<open>C16. A published identity is the domain-separated hash of the canonical frame of the role, the schema and
  the supplied values, and the receipt tells the truth about it: preimage digest, schema id, frame
  length within the limit, field and item counts. The calls supplied exactly the declared fields
  in order, with values the field types admit.\<close>

theorem published_identity_names_frame:
  assumes "addressable D" "calls_typed calls" "build same r D lim probe calls = Ok (rcpt, self)"
  shows "hash_domain CANONICAL_IDENTITY_HASH_DOMAIN (frame r D (call_values calls)) = Some (id_digest (receipt_id rcpt))
    \<and> hash_bytes_blake3 (frame r D (call_values calls)) = Some (receipt_canonical_preimage rcpt)
    \<and> schema_id_for_schema D = Some (receipt_schema_id rcpt)
    \<and> id_role (receipt_id rcpt) = r \<and> id_schema (receipt_id rcpt) = D \<and> receipt_limits rcpt = lim
    \<and> receipt_canonical_bytes rcpt = length (frame r D (call_values calls))
    \<and> receipt_canonical_bytes rcpt \<le> max_canonical_bytes lim
    \<and> receipt_field_count rcpt = length (fields_of D) \<and> receipt_collection_items rcpt = calls_items calls
    \<and> conforming same D calls"
proof -
  have p: "published same r D lim probe calls rcpt self"
    using build_result [OF assms(1,2), of same r lim probe] assms(3) by simp
  then have l: "length (frame r D (call_values calls)) \<le> 2 ^ 64" by (simp add: published_def u64_max_def)
  show ?thesis
    using p hash_domain_after [OF domains_fit(2) l] hash_bytes_after [OF l] schema_id_for_schema_of [OF assms(1)]
    by (simp add: published_def conforming_def)
qed

theorem published_identity_names_frame_witness:
  "\<exists>rcpt self. build no_alias Entity record_schema small_limits (\<lambda>_. False) (record_calls (CallBytes [1, 2, 3]))
      = Ok (rcpt, self)
    \<and> hash_domain CANONICAL_IDENTITY_HASH_DOMAIN
        (frame Entity record_schema [VUtf8 (str_bytes ''ab''), VBytes [1, 2, 3], VSet [[1], [2, 0]]])
      = Some (id_digest (receipt_id rcpt))"
proof -
  obtain rcpt self where b: "build no_alias Entity record_schema small_limits (\<lambda>_. False)
      (record_calls (CallBytes [1, 2, 3])) = Ok (rcpt, self)"
    using record_publishes by blast
  have "call_values (record_calls (CallBytes [1, 2, 3])) = [VUtf8 (str_bytes ''ab''), VBytes [1, 2, 3], VSet [[1], [2, 0]]]"
    by (simp add: record_calls_def)
  then show ?thesis
    using published_identity_names_frame [OF record_addressable record_typed b] b by auto
qed

section \<open>Construction is total and transactional\<close>

text \<open>C20. Building an identity never panics, whatever schema, limits, cancellation answers and calls it is given.\<close>

theorem construction_never_panics:
  assumes "addressable D" "calls_typed calls"
  shows "build same r D lim probe calls \<noteq> Panicked"
  using build_result [OF assms, of same r lim probe] by auto

theorem construction_never_panics_witness:
  "build no_alias Entity record_schema small_limits (\<lambda>i. i = 5) (record_calls (CallBytesStream 9 [[1], [2, 3]])) \<noteq> Panicked"
  using construction_never_panics [OF record_addressable record_typed] by simp

text \<open>C21. Nothing is published after a cancellation was observed: every poll made on the way to a published
  identity was answered no.\<close>

theorem cancelled_never_publishes:
  assumes "addressable D" "calls_typed calls" "build same r D lim probe calls = Ok (rcpt, self)" "i < polls self"
  shows "\<not> probe i"
  using build_result [OF assms(1,2), of same r lim probe] assms(3,4) by (simp add: published_def)

theorem cancelled_never_publishes_witness:
  "\<exists>rcpt self. build no_alias Entity record_schema small_limits (\<lambda>_. False) (record_calls (CallBytes [1, 2, 3]))
      = Ok (rcpt, self) \<and> (\<forall>i < polls self. \<not> (\<lambda>_. False) i)"
proof -
  obtain rcpt self where b: "build no_alias Entity record_schema small_limits (\<lambda>_. False)
      (record_calls (CallBytes [1, 2, 3])) = Ok (rcpt, self)"
    using record_publishes by blast
  show ?thesis using cancelled_never_publishes [OF record_addressable record_typed b] b by auto
qed

text \<open>C19. Every admissible construction that is never cancelled succeeds: the conditions the limits and the
  schema impose are the only reasons to refuse.\<close>

theorem admissible_construction_succeeds:
  assumes "addressable D" "calls_typed calls" "publishable same r D lim calls" "\<forall>i. \<not> probe i"
  shows "\<exists>rcpt self. build same r D lim probe calls = Ok (rcpt, self)"
  using build_result [OF assms(1,2), of same r lim probe] assms(3,4) by (auto split: outcome.splits prod.splits)

theorem admissible_construction_succeeds_witness:
  "\<exists>rcpt self. build no_alias Entity record_schema default_limits (\<lambda>_. False)
     (record_calls (CallBytesStream 3 [[1], [2, 3]])) = Ok (rcpt, self)"
  by (rule admissible_construction_succeeds [OF record_addressable record_typed record_publishable]) simp_all

section \<open>An identity is its content\<close>

text \<open>C18. An identity depends on role, schema and content alone: two published constructions whose values agree,
  sets compared by their elements, have equal identities, preimage digests, lengths and counts,
  whatever their limits, their cancellation answers, and the chunks their byte streams came in.\<close>

theorem identity_depends_on_content:
  assumes "addressable D" "calls_typed calls" "calls_typed calls'"
    and "build same r D lim probe calls = Ok (rcpt, self)" "build same r D lim' probe' calls' = Ok (rcpt', self')"
    and "map content_of (call_values calls) = map content_of (call_values calls')"
  shows "rcpt' = rcpt\<lparr>receipt_limits := lim'\<rparr>"
proof -
  have p: "published same r D lim probe calls rcpt self" "published same r D lim' probe' calls' rcpt' self'"
    using build_result [OF assms(1,2), of same r lim probe] assms(4)
      build_result [OF assms(1,3), of same r lim' probe'] assms(5) by simp_all
  then have "call_values calls = call_values calls'"
    using assms(6) by (intro contents_inj [of same D 0]) (simp_all add: published_def conforming_def)
  moreover have "calls_items cs = sum_list (map items_of (call_values cs))" for cs
    unfolding calls_items_def call_values_def by (simp add: case_prod_beta' comp_def)
  moreover have "length calls = length calls'" using calculation(1) map_eq_imp_length_eq unfolding call_values_def by metis
  ultimately show ?thesis using p by (simp add: published_def)
qed

theorem identity_depends_on_content_witness:
  "\<exists>rcpt self rcpt' self'.
     build no_alias Entity record_schema small_limits (\<lambda>_. False) (record_calls (CallBytes [1, 2, 3])) = Ok (rcpt, self)
   \<and> build no_alias Entity record_schema default_limits (\<lambda>_. False) (record_calls (CallBytesStream 3 [[1], [2, 3]]))
      = Ok (rcpt', self')
   \<and> receipt_id rcpt' = receipt_id rcpt"
proof -
  obtain rcpt self rcpt' self' where
    b: "build no_alias Entity record_schema small_limits (\<lambda>_. False) (record_calls (CallBytes [1, 2, 3])) = Ok (rcpt, self)"
    and c: "build no_alias Entity record_schema default_limits (\<lambda>_. False)
      (record_calls (CallBytesStream 3 [[1], [2, 3]])) = Ok (rcpt', self')"
    using record_publishes [of "CallBytes [1, 2, 3]" small_limits]
      record_publishes [of "CallBytesStream 3 [[1], [2, 3]]" default_limits] by auto
  have "rcpt' = rcpt\<lparr>receipt_limits := default_limits\<rparr>"
    by (rule identity_depends_on_content [OF record_addressable record_typed record_typed b c])
      (simp_all add: record_calls_def)
  then show ?thesis using b c by auto
qed

text \<open>C17. The hashed frame determines the content: if two published constructions were hashed from the same
  frame, they have the same role, the same schema id, domain, name, version and context, and,
  for the same schema, the same field values.\<close>

theorem identity_frame_injective:
  assumes "\<And>a b. same a b \<Longrightarrow> a = b" "addressable D" "addressable D'" "calls_typed calls" "calls_typed calls'"
    and "build same r D lim probe calls = Ok (rcpt, self)" "build same r' D' lim' probe' calls' = Ok (rcpt', self')"
    and "frame r D (call_values calls) = frame r' D' (call_values calls')"
  shows "r = r' \<and> schema_id_of D = schema_id_of D' \<and> domain_of D = domain_of D' \<and> name_of D = name_of D'
    \<and> version_of D = version_of D' \<and> context_of D = context_of D'
    \<and> (D = D' \<longrightarrow> call_values calls = call_values calls')"
proof -
  have p: "published same r D lim probe calls rcpt self" "published same r' D' lim' probe' calls' rcpt' self'"
    using build_result [OF assms(2,4), of same r lim probe] assms(6)
      build_result [OF assms(3,5), of same r' lim' probe'] assms(7) by simp_all
  then have c: "conforming same D calls" "conforming same D' calls'"
    and l: "length (frame r D (call_values calls)) \<le> u64_max" "length (frame r' D' (call_values calls')) \<le> u64_max"
    by (simp_all add: published_def)
  have "header_bytes r D @ calls_bytes calls @ frame_end (length calls)
      = header_bytes r' D' @ calls_bytes calls' @ frame_end (length calls')"
    using c calls_frame [of same D calls r] calls_frame [of same D' calls' r'] assms(8)
    by (simp add: conforming_def call_values_def)
  moreover have "length (header_bytes r D) \<le> u64_max" "length (header_bytes r' D') \<le> u64_max"
    using l length_frame_parts [OF c(1), of r] length_frame_parts [OF c(2), of r'] by simp_all
  ultimately have h: "r = r' \<and> domain_of D = domain_of D' \<and> name_of D = name_of D' \<and> version_of D = version_of D'
    \<and> context_of D = context_of D' \<and> schema_id_of D = schema_id_of D'" by (rule header_delimited)
  then have "call_values calls = call_values calls'" if "D = D'"
    using frame_values_inj [of same D calls calls' r] that c assms(1,4,5,8) l(1) by simp
  with h show ?thesis by simp
qed

theorem identity_frame_injective_witness:
  "\<exists>rcpt self rcpt' self'.
     build no_alias Entity record_schema small_limits (\<lambda>_. False) (record_calls (CallBytes [1, 2, 3])) = Ok (rcpt, self)
   \<and> build no_alias Entity record_schema default_limits (\<lambda>_. False) (record_calls (CallBytesStream 3 [[1], [2, 3]]))
      = Ok (rcpt', self')
   \<and> call_values (record_calls (CallBytes [1, 2, 3])) = call_values (record_calls (CallBytesStream 3 [[1], [2, 3]]))"
proof -
  obtain rcpt self rcpt' self' where
    b: "build no_alias Entity record_schema small_limits (\<lambda>_. False) (record_calls (CallBytes [1, 2, 3])) = Ok (rcpt, self)"
    and c: "build no_alias Entity record_schema default_limits (\<lambda>_. False)
      (record_calls (CallBytesStream 3 [[1], [2, 3]])) = Ok (rcpt', self')"
    using record_publishes [of "CallBytes [1, 2, 3]" small_limits]
      record_publishes [of "CallBytesStream 3 [[1], [2, 3]]" default_limits] by auto
  show ?thesis
    using identity_frame_injective [OF _ record_addressable record_addressable record_typed record_typed b c] b c
    by (auto simp: record_calls_def)
qed

end
