(* ===== verification/Identity_Rows.thy ===== *)
theory Identity_Rows
  imports Identity_Result
begin

text \<open>
  Ordered-row streaming: a stream that succeeds leaves the encoder that encoding the produced rows
  in one call leaves, and a failed write decides the outcome even when the producer ignores it.
\<close>

section \<open>Outcomes of a stream\<close>

definition reaches :: "('e, unit) stream_outcome \<Rightarrow> (encoder \<Rightarrow> bool) \<Rightarrow> bool" where
  "reaches out Q \<longleftrightarrow> (case out of (Ok _, s) \<Rightarrow> Q s | (Err _, s) \<Rightarrow> True | (Panicked, s) \<Rightarrow> False)"

lemma reaches_Err [simp]: "reaches (Err e, s) Q"
  by (simp add: reaches_def)

lemma reaches_Ok [simp]: "reaches (Ok u, s) Q = Q s"
  by (simp add: reaches_def)

lemma reaches_canonically:
  assumes "yields s p c q n m P False" "enc_ok s p"
    and "\<And>x s'. P x \<Longrightarrow> enc_ok s' (p @ q) \<Longrightarrow> same_config s s' \<Longrightarrow> next_field s' = next_field s + n \<Longrightarrow>
      collection_items s' = collection_items s + m \<Longrightarrow> reaches (k x s') Q"
  shows "reaches (canonically f pr c k s) Q"
proof (cases "c s")
  case (Pair r s')
  show ?thesis
  proof (cases r)
    case (Ok x)
    then have "reaches (k x s') Q" using assms Pair by (intro assms(3)) (auto simp: yields_def)
    then show ?thesis using Ok Pair by (simp add: canonically_def)
  qed (use assms Pair in \<open>auto simp: canonically_def yields_def\<close>)
qed

section \<open>The bytes of a row\<close>

text \<open>What a producer writes when every write succeeds; \<open>written\<close> bytes precede.\<close>

primrec row_of :: "'e row_program \<Rightarrow> nat \<Rightarrow> u8 list" where
  "row_of (Return r) = (\<lambda>written. [])"
| "row_of (Write chunk continue) = (\<lambda>written.
     chunk @ row_of (continue (Inr ()) (written + length chunk)) (written + length chunk))"

lemma sink_write_result:
  assumes ok: "enc_ok s p" and "poisoned sink = None"
  shows "case sink_write chunk sink s of
      (Ok _, sink', s') \<Rightarrow> poisoned sink' = None \<and> written_bytes sink' = written_bytes sink + length chunk
        \<and> declared_bytes sink' = declared_bytes sink \<and> enc_ok s' (p @ chunk) \<and> same_config s s'
        \<and> next_field s' = next_field s \<and> collection_items s' = collection_items s
    | (Err e, sink', s') \<Rightarrow> poisoned sink' = Some e
    | (Panicked, sink', s') \<Rightarrow> False"
proof -
  obtain r1 s1 where c: "checkpoint s = (r1, s1)" by fastforce
  have y1: "yields s p checkpoint [] 0 0 (\<lambda>_. True) False" by (rule yields_checkpoint)
  obtain r2 s2 where a: "append_bytes chunk s1 = (r2, s2)" by fastforce
  have y2: "yields s1 p (append_bytes chunk) chunk 0 0 (\<lambda>_. True) False" by (rule room_append_bytes) simp
  show ?thesis
  proof (cases r1)
    case Panicked
    then show ?thesis using y1 ok c by (simp add: yields_def)
  next
    case (Err e)
    then show ?thesis using c assms(2) by (simp add: sink_write_def poison_def)
  next
    case (Ok u)
    then have 1: "enc_ok s1 p" "same_config s s1" "next_field s1 = next_field s"
      "collection_items s1 = collection_items s"
      using y1 ok c by (simp_all add: yields_def)
    have "r2 \<noteq> Panicked" using y2 1(1) a by (auto simp: yields_def)
    moreover have "canonical_bytes s1 \<le> canonical_bytes s2"
      using y2 1(1) a by (cases r2) (auto simp: yields_def enc_ok_def)
    moreover have "canonical_bytes s2 - canonical_bytes s1 = length chunk \<and> enc_ok s2 (p @ chunk) \<and> same_config s s2
        \<and> next_field s2 = next_field s \<and> collection_items s2 = collection_items s" if "r2 = Ok v" for v
      using y2 1 a that by (auto simp: yields_def enc_ok_def same_config_def)
    ultimately show ?thesis
      using c Ok a assms(2)
      by (cases r2) (auto simp: sink_write_def sink_absorb_def poison_def Let_def checked_sub_def
          split: sum.splits outcome.splits option.splits)
  qed
qed

lemma sink_write_poisoned: "poisoned sink = Some e \<Longrightarrow> sink_write chunk sink s = (Err e, sink, s)"
  by (simp add: sink_write_def)

lemma run_row_poisoned:
  "poisoned sink = Some e \<Longrightarrow> snd (run_row program sink s) = (sink, s) \<and> fst (run_row program sink s) \<noteq> Panicked"
proof (induction program)
  case (Return r)
  then show ?case by (simp split: sum.splits)
next
  case (Write chunk continue)
  show ?case using Write.IH [OF rangeI rangeI Write.prems] Write.prems by (simp add: sink_write_poisoned)
qed

lemma run_row_result:
  "enc_ok s p \<Longrightarrow> poisoned sink = None \<Longrightarrow> run_row program sink s = (r, sink', s') \<Longrightarrow>
   r \<noteq> Panicked \<and> (poisoned sink' = None \<longrightarrow>
     written_bytes sink' = written_bytes sink + length (row_of program (written_bytes sink))
     \<and> enc_ok s' (p @ row_of program (written_bytes sink)) \<and> same_config s s'
     \<and> next_field s' = next_field s \<and> collection_items s' = collection_items s)"
proof (induction program arbitrary: s p sink)
  case (Return x)
  then show ?case by (auto split: sum.splits)
next
  case (Write chunk continue)
  obtain r1 sink1 s1 where w: "sink_write chunk sink s = (r1, sink1, s1)" by (metis prod.collapse)
  note res = sink_write_result [OF Write.prems(1,2), of chunk, unfolded w]
  show ?case
  proof (cases r1)
    case (Ok u)
    then have 1: "poisoned sink1 = None" "written_bytes sink1 = written_bytes sink + length chunk"
      "enc_ok s1 (p @ chunk)" "same_config s s1" "next_field s1 = next_field s"
      "collection_items s1 = collection_items s"
      using res by simp_all
    have "run_row (continue (Inr ()) (written_bytes sink1)) sink1 s1 = (r, sink', s')"
      using Write.prems(3) w Ok by simp
    from Write.IH [OF rangeI rangeI 1(3,1) this] show ?thesis
      using 1 by (auto intro: same_config_trans)
  next
    case (Err e)
    then have p: "poisoned sink1 = Some e" using res by simp
    have "run_row (continue (Inl e) (written_bytes sink1)) sink1 s1 = (r, sink', s')"
      using Write.prems(3) w Err by simp
    then show ?thesis using run_row_poisoned [OF p, of "continue (Inl e) (written_bytes sink1)" s1] p by auto
  next
    case Panicked
    then show ?thesis using res by simp
  qed
qed

section \<open>The loop over the rows\<close>

lemma yields_begin_row_checked:
  "yields s p (begin_ordered_row payload n) (le_bytes 8 n) 0 0
     (\<lambda>r. r = payload + (8 + n) \<and> r \<le> max_field_bytes (limits s) \<and> n \<le> u64_max) False"
proof -
  have y: "yields s p (begin_ordered_row payload n) (le_bytes 8 n) 0 0 (\<lambda>r. r = payload + (8 + n)) False"
    by (rule yields_begin_ordered_row) simp_all
  have "fst (begin_ordered_row payload n s) = Ok r \<Longrightarrow> payload + (8 + n) \<le> max_field_bytes (limits s) \<and> n \<le> u64_max" for r
    by (auto simp: begin_ordered_row_def ensure_field_bytes_def reading_def ensuring_def in_order.simps and_then_def
        enforce_limit_def return_with_def refuse_def add_u64_def checked_add_def split: sum.splits if_splits option.splits)
  then show ?thesis using y
    by (auto simp: yields_def split: outcome.splits prod.splits)
qed

lemma reaches_stream_row:
  assumes ok: "enc_ok s p"
    and k: "\<And>progress' chunks' s'. row = row_of program 0 \<Longrightarrow> length row = declared_len \<Longrightarrow>
      declared_len \<le> u64_max \<Longrightarrow>
      payload + length (len_bytes row) \<le> max_field_bytes (limits s) \<Longrightarrow> enc_ok s' (p @ len_bytes row) \<Longrightarrow>
      same_config s s' \<Longrightarrow> next_field s' = next_field s \<Longrightarrow> collection_items s' = collection_items s \<Longrightarrow>
      completed_rows progress' = completed_rows progress + 1 \<Longrightarrow> declared_rows progress' = declared_rows progress \<Longrightarrow>
      reaches (k progress' (payload + length (len_bytes row)) chunks' s') Q"
    and row: "row = row_of program 0"
  shows "reaches (stream_row f program declared_len progress payload chunks k s) Q"
  unfolding stream_row_def Let_def
proof (rule reaches_canonically [OF yields_begin_row_checked ok])
  fix fp s1 assume fp: "fp = payload + (8 + declared_len) \<and> fp \<le> max_field_bytes (limits s) \<and> declared_len \<le> u64_max"
    and 1: "enc_ok s1 (p @ le_bytes 8 declared_len)" "same_config s s1" "next_field s1 = next_field s + 0"
      "collection_items s1 = collection_items s + 0"
  let ?sink = "\<lparr>declared_bytes = declared_len, written_bytes = 0, stream_chunks = chunks, poisoned = None\<rparr>"
  let ?p = "\<lambda>sink'. progress\<lparr>declared_row_bytes := Some declared_len, phase := RowAdmission,
      written_row_bytes := written_bytes sink', progress_chunks := stream_chunks sink'\<rparr>"
  obtain r sink2 s2 where run: "run_row program ?sink s1 = (r, sink2, s2)" by (metis prod.collapse)
  have res: "r \<noteq> Panicked \<and> (poisoned sink2 = None \<longrightarrow> written_bytes sink2 = length row
     \<and> enc_ok s2 ((p @ le_bytes 8 declared_len) @ row) \<and> same_config s1 s2
     \<and> next_field s2 = next_field s1 \<and> collection_items s2 = collection_items s1)"
    using run_row_result [OF 1(1) _ run] row by simp
  let ?rest = "\<lambda>progress. canonically f progress checkpoint (\<lambda>_.
        canonically f progress (ensuring (add_u64 (completed_rows progress) 1)) (\<lambda>completed.
        k (progress\<lparr>completed_rows := completed\<rparr>) fp (stream_chunks sink2)))"
  have rest: "reaches (?rest progress2 s2) Q"
    if "poisoned sink2 = None" "written_bytes sink2 = declared_len" "completed_rows progress2 = completed_rows progress"
      "declared_rows progress2 = declared_rows progress" for progress2
  proof -
    have 2: "length row = declared_len" "enc_ok s2 (p @ len_bytes row)" "same_config s1 s2"
      "next_field s2 = next_field s1" "collection_items s2 = collection_items s1"
      using res that(1,2) by (auto simp: len_bytes_def)
    have eq: "fp = payload + length (len_bytes row)" using fp 2(1) by simp
    show ?thesis
    proof (rule reaches_canonically [OF yields_checkpoint 2(2)])
      fix s3 assume 3: "enc_ok s3 ((p @ len_bytes row) @ [])" "same_config s2 s3" "next_field s3 = next_field s2 + 0"
        "collection_items s3 = collection_items s2 + 0"
      have y: "yields s3 ((p @ len_bytes row) @ []) (ensuring (add_u64 (completed_rows progress2) 1)) [] 0 0
          (\<lambda>x. x = completed_rows progress2 + 1) False" by (rule yields_ensuring) simp_all
      show "reaches (canonically f progress2 (ensuring (add_u64 (completed_rows progress2) 1)) (\<lambda>completed.
        k (progress2\<lparr>completed_rows := completed\<rparr>) fp (stream_chunks sink2)) s3) Q"
      proof (rule reaches_canonically [OF y 3(1)])
        fix x s4 assume 4: "x = completed_rows progress2 + 1" "enc_ok s4 (((p @ len_bytes row) @ []) @ [])"
          "same_config s3 s4" "next_field s4 = next_field s3 + 0" "collection_items s4 = collection_items s3 + 0"
        have "same_config s s4" using 1(2) 2(3) 3(2) 4(3) by (metis same_config_trans)
        then show "reaches (k (progress2\<lparr>completed_rows := x\<rparr>) fp (stream_chunks sink2) s4) Q"
          unfolding eq using 1 2 3 4 fp that(3,4) by (intro k) (simp_all add: row)
      qed
    qed
  qed
  show "reaches (case run_row program ?sink s1 of (produced, sink, self) \<Rightarrow>
      (case (produced, poisoned sink) of
         (Panicked, _) \<Rightarrow> (Panicked, self)
       | (_, Some source) \<Rightarrow> (Err (stream_canonical f ((?p sink)\<lparr>phase := RowChunk\<rparr>) source self), self)
       | (Err source, None) \<Rightarrow> (Err (stream_producer f ((?p sink)\<lparr>phase := RowProducer\<rparr>) source self), self)
       | (Ok _, None) \<Rightarrow>
           if written_bytes sink \<noteq> declared_len
           then (Err (stream_canonical f ((?p sink)\<lparr>phase := RowCompletion\<rparr>)
                  (DeclaredLengthMismatch declared_len (written_bytes sink)) self), self)
           else canonically f ((?p sink)\<lparr>phase := RowCompletion\<rparr>) checkpoint (\<lambda>_.
                canonically f ((?p sink)\<lparr>phase := RowCompletion\<rparr>)
                  (ensuring (add_u64 (completed_rows ((?p sink)\<lparr>phase := RowCompletion\<rparr>)) 1)) (\<lambda>completed.
                k ((?p sink)\<lparr>phase := RowCompletion, completed_rows := completed\<rparr>) fp (stream_chunks sink))) self)) Q"
    unfolding run prod.case
    using res rest [of "(?p sink2)\<lparr>phase := RowCompletion\<rparr>"]
    by (cases r; cases "poisoned sink2") auto
qed

lemma concat_len_bytes_Cons: "concat (map len_bytes (r # rs)) = len_bytes r @ concat (map len_bytes rs)"
  by simp

lemma reaches_stream_rows:
  assumes "enc_ok s p"
    and "\<And>rs lens' progress' chunks' s'. length rs = rows \<Longrightarrow> lengths = map (\<lambda>r. Inr (length r)) rs @ lens' \<Longrightarrow>
      (\<forall>i < rows. rs ! i = row_of (produce (row + i) (length (rs ! i))) 0) \<Longrightarrow>
      rs = [] \<or> payload + length (concat (map len_bytes rs)) \<le> max_field_bytes (limits s) \<Longrightarrow>
      enc_ok s' (p @ concat (map len_bytes rs)) \<Longrightarrow> same_config s s' \<Longrightarrow> next_field s' = next_field s \<Longrightarrow>
      collection_items s' = collection_items s \<Longrightarrow> completed_rows progress' = completed_rows progress + rows \<Longrightarrow>
      reaches (k lens' progress' chunks' s') Q"
  shows "reaches (stream_rows f produce k rows row lengths progress payload chunks s) Q"
  using assms
proof (induction rows arbitrary: row lengths progress payload chunks s p)
  case 0
  then show ?case using 0(2) [of "[]" lengths s progress chunks] by simp
next
  case (Suc rows)
  let ?pr = "progress\<lparr>phase := RowBoundary, row_index := Some row, declared_row_bytes := None,
      written_row_bytes := 0, progress_chunks := chunks, phase := RowDeclaration\<rparr>"
  have body: "reaches (case lengths of
             [] \<Rightarrow> (Err (stream_canonical f ?pr
                     (DeclaredLengthMismatch (declared_rows ?pr) (completed_rows ?pr)) s1), s1)
           | Inl source # _ \<Rightarrow> (Err (stream_producer f ?pr source s1), s1)
           | Inr declared_len # lengths \<Rightarrow>
               stream_row f (produce row declared_len) declared_len ?pr payload chunks
                 (stream_rows f produce k rows (row + 1) lengths) s1) Q"
    if 1: "enc_ok s1 p" "same_config s s1" "next_field s1 = next_field s" "collection_items s1 = collection_items s"
    for s1
  proof (cases lengths)
    case Nil
    then show ?thesis by simp
  next
    case (Cons l lens)
    show ?thesis
    proof (cases l)
      case (Inl e)
      then show ?thesis using Cons by simp
    next
      case (Inr n)
      have "reaches (stream_row f (produce row n) n ?pr payload chunks
          (stream_rows f produce k rows (row + 1) lens) s1) Q"
      proof (rule reaches_stream_row [OF 1(1) _ refl])
        let ?r = "row_of (produce row n) 0"
        fix progress2 :: stream_progress and chunks2 s2
        assume 2: "length ?r = n" "payload + length (len_bytes ?r) \<le> max_field_bytes (limits s1)"
          "enc_ok s2 (p @ len_bytes ?r)" "same_config s1 s2" "next_field s2 = next_field s1"
          "collection_items s2 = collection_items s1" "completed_rows progress2 = completed_rows ?pr + 1"
        have c2: "same_config s s2" using 1(2) 2(4) by (rule same_config_trans)
        show "reaches (stream_rows f produce k rows (row + 1) lens progress2 (payload + length (len_bytes ?r)) chunks2 s2) Q"
        proof (rule Suc.IH [OF 2(3)])
          fix rs lens' and progress3 :: stream_progress and chunks3 s3
          assume 3: "length rs = rows" "lens = map (\<lambda>r. Inr (length r)) rs @ lens'"
            "\<forall>i < rows. rs ! i = row_of (produce (row + 1 + i) (length (rs ! i))) 0"
            "rs = [] \<or> payload + length (len_bytes ?r) + length (concat (map len_bytes rs)) \<le> max_field_bytes (limits s2)"
            "enc_ok s3 ((p @ len_bytes ?r) @ concat (map len_bytes rs))" "same_config s2 s3"
            "next_field s3 = next_field s2" "collection_items s3 = collection_items s2"
            "completed_rows progress3 = completed_rows progress2 + rows"
          show "reaches (k lens' progress3 chunks3 s3) Q"
          proof (rule Suc.prems(2) [of "?r # rs"])
            show "\<forall>i < Suc rows. (?r # rs) ! i = row_of (produce (row + i) (length ((?r # rs) ! i))) 0"
              using 3(3) 2(1) by (auto simp: nth_Cons split: nat.split)
            show "same_config s s3" using c2 3(6) by (rule same_config_trans)
            show "?r # rs = [] \<or> payload + length (concat (map len_bytes (?r # rs))) \<le> max_field_bytes (limits s)"
              using 2(2) 3(4) 1(2) c2 by (auto simp: same_config_def)
          qed (use 1 2 3 Cons Inr in \<open>auto\<close>)
        qed
      qed
      then show ?thesis using Cons Inr by simp
    qed
  qed
  show ?case unfolding stream_rows.simps Let_def
    by (rule reaches_canonically [OF yields_checkpoint Suc.prems(1)], rule body) simp_all
qed

section \<open>The end of the collection\<close>

lemma yields_finish_checked:
  "yields s p (finish_ordered_bytes k) [] 1 k
     (\<lambda>_. next_field s + 1 \<le> u32_max \<and> collection_items s + k \<le> u64_max) False"
proof -
  have y: "yields s p (finish_ordered_bytes k) [] 1 k (\<lambda>_. True) False"
    unfolding finish_ordered_bytes_def by (rule yields_finish_ordered_bytes) simp_all
  have "fst (finish_ordered_bytes k s) = Ok r \<Longrightarrow> next_field s + 1 \<le> u32_max \<and> collection_items s + k \<le> u64_max" for r
    by (auto simp: finish_ordered_bytes_def in_order.simps and_then_def add_collection_items_def complete_field_def
        return_with_def add_u64_def checked_add_def split: sum.splits if_splits option.splits)
  then show ?thesis using y by (auto simp: yields_def split: outcome.splits prod.splits)
qed

lemma reaches_stream_end:
  assumes ok: "enc_ok s p"
    and Q: "\<And>s'. lengths = [] \<Longrightarrow> next_field s + 1 \<le> u32_max \<Longrightarrow>
      collection_items s + completed_rows progress \<le> u64_max \<Longrightarrow> enc_ok s' p \<Longrightarrow> same_config s s' \<Longrightarrow>
      next_field s' = next_field s + 1 \<Longrightarrow> collection_items s' = collection_items s + completed_rows progress \<Longrightarrow> Q s'"
  shows "reaches (stream_end f n lengths progress chunks s) Q"
proof -
  have tail: "reaches (canonically f pr checkpoint (\<lambda>_.
      canonically f pr (finish_ordered_bytes (completed_rows progress)) (\<lambda>_ self. (Ok (), self))) s1) Q"
    if "lengths = []" and 1: "enc_ok s1 p" "same_config s s1" "next_field s1 = next_field s"
      "collection_items s1 = collection_items s" for s1 pr
  proof (rule reaches_canonically [OF yields_checkpoint 1(1)])
    fix s2 assume 2: "enc_ok s2 (p @ [])" "same_config s1 s2" "next_field s2 = next_field s1 + 0"
      "collection_items s2 = collection_items s1 + 0"
    show "reaches (canonically f pr (finish_ordered_bytes (completed_rows progress)) (\<lambda>_ self. (Ok (), self)) s2) Q"
    proof (rule reaches_canonically [OF yields_finish_checked 2(1)])
      fix s3 assume 3: "next_field s2 + 1 \<le> u32_max \<and> collection_items s2 + completed_rows progress \<le> u64_max"
        "enc_ok s3 ((p @ []) @ [])" "same_config s2 s3" "next_field s3 = next_field s2 + 1"
        "collection_items s3 = collection_items s2 + completed_rows progress"
      have "same_config s s3" using 1(2) 2(2) 3(3) by (metis same_config_trans)
      then show "reaches (Ok (), s3) Q" using that(1) 1 2 3 by (simp add: Q)
    qed
  qed
  show ?thesis unfolding stream_end_def Let_def
  proof (rule reaches_canonically [OF yields_checkpoint ok])
    fix s1 assume 1: "enc_ok s1 (p @ [])" "same_config s s1" "next_field s1 = next_field s + 0"
      "collection_items s1 = collection_items s + 0"
    show "reaches (case lengths of
          [] \<Rightarrow> canonically f (progress\<lparr>phase := CollectionCompletion, row_index := None, declared_row_bytes := None,
                  written_row_bytes := 0, progress_chunks := chunks\<rparr>) checkpoint (\<lambda>_.
                canonically f (progress\<lparr>phase := CollectionCompletion, row_index := None, declared_row_bytes := None,
                  written_row_bytes := 0, progress_chunks := chunks\<rparr>)
                 (finish_ordered_bytes (completed_rows (progress\<lparr>phase := CollectionCompletion, row_index := None,
                   declared_row_bytes := None, written_row_bytes := 0, progress_chunks := chunks\<rparr>)))
                 (\<lambda>_ self. (Ok (), self))) s1
        | Inl source # _ \<Rightarrow>
            (Err (stream_producer f (progress\<lparr>phase := CollectionCompletion, row_index := None,
               declared_row_bytes := None, written_row_bytes := 0, progress_chunks := chunks,
               phase := RowDeclaration, row_index := Some n\<rparr>) source s1), s1)
        | Inr extra_len # _ \<Rightarrow>
             (case add_u64 n 1 of
                  Inl source \<Rightarrow> (Err (stream_canonical f (progress\<lparr>phase := CollectionCompletion, row_index := None,
               declared_row_bytes := None, written_row_bytes := 0, progress_chunks := chunks,
               row_index := Some n, declared_row_bytes := Some extra_len\<rparr>) source s1), s1)
                | Inr observed \<Rightarrow>
                    (Err (stream_canonical f (progress\<lparr>phase := CollectionCompletion, row_index := None,
               declared_row_bytes := None, written_row_bytes := 0, progress_chunks := chunks,
               row_index := Some n, declared_row_bytes := Some extra_len\<rparr>) (DeclaredLengthMismatch n observed) s1), s1))) Q"
      using 1 tail [of s1] by (auto split: list.splits sum.splits)
  qed
qed

section \<open>The stream\<close>

lemma yields_begin_checked:
  "yields s p (begin_ordered_bytes f d) (field_prefix f OrderedBytes Required @ le_bytes 8 d) 0 0
     (\<lambda>r. r = 8 \<and> selects s f OrderedBytes Required \<and> d \<le> max_collection_items (limits s)
        \<and> 8 \<le> max_field_bytes (limits s)) False"
proof -
  have y: "yields s p (begin_ordered_bytes f d) (field_prefix f OrderedBytes Required @ le_bytes 8 d) 0 0
     (\<lambda>r. r = 8 \<and> selects s f OrderedBytes Required) False"
    unfolding begin_ordered_bytes_def by (rule yields_begin_collection) simp_all
  have "fst (begin_ordered_bytes f d s) = Ok r \<Longrightarrow> d \<le> max_collection_items (limits s) \<and> 8 \<le> max_field_bytes (limits s)" for r
    by (auto simp: begin_ordered_bytes_def begin_collection_def validating_def ensure_field_bytes_def reading_def
        ensuring_def in_order.simps and_then_def enforce_limit_def return_with_def refuse_def
        split: sum.splits if_splits)
  then show ?thesis using y by (auto simp: yields_def split: outcome.splits prod.splits)
qed

lemma reaches_stream:
  assumes ok: "enc_ok s p"
    and Q: "\<And>rs s'. length rs = n \<Longrightarrow> lengths = map (\<lambda>r. Inr (length r)) rs \<Longrightarrow>
      (\<forall>i < n. rs ! i = row_of (produce i (length (rs ! i))) 0) \<Longrightarrow>
      selects s f OrderedBytes Required \<Longrightarrow> limits_admit (limits s) (VOrdered rs) \<Longrightarrow> next_field s + 1 \<le> u32_max \<Longrightarrow>
      collection_items s + n \<le> u64_max \<Longrightarrow> enc_ok s' (p @ field_bytes f (VOrdered rs)) \<Longrightarrow> same_config s s' \<Longrightarrow>
      next_field s' = next_field s + 1 \<Longrightarrow> collection_items s' = collection_items s + n \<Longrightarrow> Q s'"
  shows "reaches (encode_ordered_bytes_stream f n lengths produce s) Q"
  unfolding encode_ordered_bytes_stream_def Let_def
proof (rule reaches_canonically [OF yields_begin_checked ok], rule reaches_stream_rows)
  fix r s1 rs lens' and progress' :: stream_progress and chunks' s2
  assume 1: "r = 8 \<and> selects s f OrderedBytes Required \<and> n \<le> max_collection_items (limits s)
        \<and> 8 \<le> max_field_bytes (limits s)" "same_config s s1" "next_field s1 = next_field s + 0"
      "collection_items s1 = collection_items s + 0"
    and 2: "length rs = n" "lengths = map (\<lambda>r. Inr (length r)) rs @ lens'"
      "\<forall>i < n. rs ! i = row_of (produce (0 + i) (length (rs ! i))) 0"
      "rs = [] \<or> r + length (concat (map len_bytes rs)) \<le> max_field_bytes (limits s1)"
      "enc_ok s2 ((p @ field_prefix f OrderedBytes Required @ le_bytes 8 n) @ concat (map len_bytes rs))"
      "same_config s1 s2" "next_field s2 = next_field s1" "collection_items s2 = collection_items s1"
      "completed_rows progress' = completed_rows \<lparr>phase = FieldAdmission, row_index = None, declared_rows = n,
           completed_rows = 0, declared_row_bytes = None, written_row_bytes = 0,
           prior_collection_items = collection_items s, progress_chunks = 0\<rparr> + n"
  show "reaches (stream_end f n lens' progress' chunks' s2) Q"
  proof (rule reaches_stream_end [OF 2(5)])
    fix s3 assume 3: "lens' = []" "next_field s2 + 1 \<le> u32_max" "collection_items s2 + completed_rows progress' \<le> u64_max"
      "enc_ok s3 ((p @ field_prefix f OrderedBytes Required @ le_bytes 8 n) @ concat (map len_bytes rs))"
      "same_config s2 s3" "next_field s3 = next_field s2 + 1"
      "collection_items s3 = collection_items s2 + completed_rows progress'"
    have c: "same_config s s3" using 1(2) 2(6) 3(5) by (metis same_config_trans)
    have e: "enc_ok s3 (p @ field_bytes f (VOrdered rs))"
      using 3(4) unfolding field_bytes_def wire_of.simps presence_of.simps value_bytes.simps 2(1) append_assoc .
    have l: "limits_admit (limits s) (VOrdered rs)"
      using 1 2(1,4) by (auto simp: same_config_limits)
    show "Q s3" by (rule Q) (use 1 2 3 c e l in auto)
  qed
qed

text \<open>C22. A row stream never panics, and when it succeeds it declared exactly the rows its producer wrote,
  one length per row, and, unless the probe cancels, encoding those rows in one call succeeds too
  and leaves the same encoder up to the number of polls: chunks and streaming leave no trace.\<close>

theorem ordered_stream_is_ordered_bytes:
  assumes "enc_ok s p"
  shows "case encode_ordered_bytes_stream f n lengths produce s of
      (Ok _, s') \<Rightarrow> (\<exists>rs. length rs = n \<and> lengths = map (\<lambda>r. Inr (length r)) rs
         \<and> (\<forall>i < n. rs ! i = row_of (produce i (length (rs ! i))) 0)
         \<and> (never_cancelled s \<longrightarrow> (\<exists>t. encode_ordered_bytes f n rs s = (Ok (), t) \<and> s' = t\<lparr>polls := polls s'\<rparr>)))
    | (Err e, s') \<Rightarrow> True
    | (Panicked, s') \<Rightarrow> False"
proof -
  let ?Q = "\<lambda>s'. \<exists>rs. length rs = n \<and> lengths = map (\<lambda>r. Inr (length r)) rs
         \<and> (\<forall>i < n. rs ! i = row_of (produce i (length (rs ! i))) 0)
         \<and> (never_cancelled s \<longrightarrow> (\<exists>t. encode_ordered_bytes f n rs s = (Ok (), t) \<and> s' = t\<lparr>polls := polls s'\<rparr>))"
  have "reaches (encode_ordered_bytes_stream f n lengths produce s) ?Q"
  proof (rule reaches_stream [OF assms])
    fix rs s' assume 1: "length rs = n" "lengths = map (\<lambda>r. Inr (length r)) rs"
      "\<forall>i < n. rs ! i = row_of (produce i (length (rs ! i))) 0" "selects s f OrderedBytes Required"
      "limits_admit (limits s) (VOrdered rs)" "next_field s + 1 \<le> u32_max" "collection_items s + n \<le> u64_max"
      "enc_ok s' (p @ field_bytes f (VOrdered rs))" "same_config s s'" "next_field s' = next_field s + 1"
      "collection_items s' = collection_items s + n"
    then have "call_room s p f (VOrdered rs)"
      by (auto simp: call_room_def room_def enc_ok_def same_config_def)
    then have "yields s p (encode_ordered_bytes f n rs) (field_bytes f (VOrdered rs)) 1 (length rs) (\<lambda>_. True) True"
      using 1 by (intro yields_conseq [OF yields_encode_ordered_bytes]) auto
    note y = this
    have "\<exists>t. encode_ordered_bytes f n rs s = (Ok (), t) \<and> s' = t\<lparr>polls := polls s'\<rparr>" if "never_cancelled s"
    proof -
      obtain r t where run: "encode_ordered_bytes f n rs s = (r, t)" by fastforce
      then have "r = Ok ()" using y assms that by (cases r) (auto simp: yields_def)
      moreover have "s' = t\<lparr>polls := polls s'\<rparr>"
        using y assms 1(1,8-11) run calculation
        by (intro encoder.equality) (simp_all add: yields_def enc_ok_def same_config_def)
      ultimately show ?thesis using run by simp
    qed
    then show "?Q s'" using 1 by blast
  qed
  then show ?thesis by (simp add: reaches_def split: outcome.splits prod.splits)
qed

definition rows_schema :: canonical_schema where
  "rows_schema = \<lparr>domain_of = str_bytes ''org.example.rows.v1'', name_of = str_bytes ''rows'', version_of = 1,
     context_of = str_bytes ''example'', fields_of = [FieldSpec (str_bytes ''r'') OrderedBytes Required None]\<rparr>"

definition rows_encoder :: encoder where
  "rows_encoder = \<lparr>semantic_hasher = after (domain_key CANONICAL_IDENTITY_HASH_DOMAIN) DERIVE_KEY_MATERIAL [],
     preimage_hasher = after IV 0 [], schema = rows_schema, role = Entity, schema_id = replicate 32 0,
     limits = default_limits, cancellation = (\<lambda>_. False), polls = 0, canonical_bytes = 0, next_field = 0,
     collection_items = 0\<rparr>"

definition rows_field :: field where
  "rows_field = \<lparr>ordinal = 0, field_name = str_bytes ''r''\<rparr>"

definition split_row :: "nat \<Rightarrow> nat \<Rightarrow> unit row_program" where
  "split_row i n = Write [7] (\<lambda>_ _. Write [8, 9] (\<lambda>_ _. Return (Inr ())))"

lemma succeeds:
  assumes "yields s p c q n m P True" "enc_ok s p" "never_cancelled s"
  obtains x s' where "c s = (Ok x, s')" "P x" "enc_ok s' (p @ q)" "same_config s s'" "never_cancelled s'"
    "next_field s' = next_field s + n" "collection_items s' = collection_items s + m"
proof (cases "c s")
  case (Pair r s')
  then show ?thesis using assms that
    by (cases r) (auto simp: yields_def never_cancelled_config)
qed

lemma rows_example:
  assumes "enc_ok s p" "never_cancelled s" "selects s rows_field OrderedBytes Required" "limits s = default_limits"
    "next_field s = 0" "collection_items s = 0" "p = []"
  shows "fst (encode_ordered_bytes_stream rows_field 1 [Inr 3] split_row s) = Ok ()"
proof -
  have room: "room default_limits n" if "n \<le> 100" for n
    using that by (simp add: room_def default_limits_def u64_max_def)
  have name: "length (field_name rows_field) = 1" by (simp add: rows_field_def str_bytes_def)
  have "yields s p (begin_ordered_bytes rows_field 1) (field_prefix rows_field OrderedBytes Required @ le_bytes 8 1) 0 0
     (\<lambda>r. r = 8 \<and> selects s rows_field OrderedBytes Required) True"
    unfolding begin_ordered_bytes_def
    by (rule yields_begin_collection) (use assms name room in \<open>simp_all add: default_limits_def\<close>)
  from succeeds [OF this assms(1,2)] obtain s1 where 1: "begin_ordered_bytes rows_field 1 s = (Ok 8, s1)"
    "enc_ok s1 (p @ field_prefix rows_field OrderedBytes Required @ le_bytes 8 1)" "same_config s s1" "never_cancelled s1"
    "next_field s1 = 0" "collection_items s1 = 0" using assms(5,6) by auto
  define p1 where "p1 = p @ field_prefix rows_field OrderedBytes Required @ le_bytes 8 1"
  have p1: "length p1 = 24" by (simp add: p1_def assms(7) name)
  have l1: "limits s1 = default_limits" using 1(3) assms(4) by (simp add: same_config_def)
  note 1 = 1 [folded p1_def]
  from succeeds [OF yields_checkpoint 1(2,4)] obtain s2 where 2: "checkpoint s1 = (Ok (), s2)" "enc_ok s2 p1"
    "same_config s1 s2" "never_cancelled s2" "next_field s2 = 0" "collection_items s2 = 0" using 1(5,6) by auto
  have "yields s2 p1 (begin_ordered_row 8 3) (le_bytes 8 3) 0 0 (\<lambda>r. r = 8 + (8 + 3)) True"
    by (rule yields_begin_ordered_row) (use 2(3) l1 p1 room in \<open>simp_all add: same_config_def default_limits_def u64_max_def\<close>)
  from succeeds [OF this 2(2,4)] obtain s3 where 3: "begin_ordered_row 8 3 s2 = (Ok 19, s3)" "enc_ok s3 (p1 @ le_bytes 8 3)"
    "same_config s2 s3" "never_cancelled s3" "next_field s3 = 0" "collection_items s3 = 0" using 2(5,6) by auto
  have l3: "limits s3 = default_limits" using 2(3) 3(3) l1 by (simp add: same_config_def)
  have wr: "\<exists>s6. sink_write c \<lparr>declared_bytes = 3, written_bytes = w, stream_chunks = k, poisoned = None\<rparr> s4
      = (Ok (), \<lparr>declared_bytes = 3, written_bytes = w + length c, stream_chunks = k + 1, poisoned = None\<rparr>, s6)
      \<and> enc_ok s6 (p2 @ c) \<and> never_cancelled s6 \<and> limits s6 = default_limits \<and> next_field s6 = 0
      \<and> collection_items s6 = 0"
    if 4: "enc_ok s4 p2" "never_cancelled s4" "limits s4 = default_limits" "next_field s4 = 0" "collection_items s4 = 0"
      "w + length c \<le> 3" "k \<le> 3" "length p2 \<le> 40" for c w k s4 p2
  proof -
    from succeeds [OF yields_checkpoint 4(1,2)] obtain s5 where 5: "checkpoint s4 = (Ok (), s5)" "enc_ok s5 p2"
      "same_config s4 s5" "never_cancelled s5" "next_field s5 = 0" "collection_items s5 = 0" using 4(4,5) by auto
    have l5: "limits s5 = default_limits" using 4(3) 5(3) by (simp add: same_config_def)
    have "yields s5 p2 (append_bytes c) c 0 0 (\<lambda>_. True) True"
      by (rule room_append_bytes) (use l5 room 4(6,8) in simp)
    from succeeds [OF this 5(2,4)] obtain s6 where 6: "append_bytes c s5 = (Ok (), s6)" "enc_ok s6 (p2 @ c)"
      "same_config s5 s6" "never_cancelled s6" "next_field s6 = 0" "collection_items s6 = 0" using 5(5,6) by auto
    have "canonical_bytes s5 = length p2" "canonical_bytes s6 = length p2 + length c"
      using 5(2) 6(2) by (simp_all add: enc_ok_def)
    then show ?thesis using 4(6,7) 5(1) 6 l5
      by (simp add: sink_write_def sink_absorb_def add_u64_def checked_add_def checked_sub_def u64_max_def Let_def
          enforce_limit_def attempt_def as_u64_def default_limits_def same_config_def)
  qed
  obtain s4 where 4: "sink_write [7] \<lparr>declared_bytes = 3, written_bytes = 0, stream_chunks = 0, poisoned = None\<rparr> s3
      = (Ok (), \<lparr>declared_bytes = 3, written_bytes = 1, stream_chunks = 1, poisoned = None\<rparr>, s4)"
      "enc_ok s4 ((p1 @ le_bytes 8 3) @ [7])" "never_cancelled s4" "limits s4 = default_limits" "next_field s4 = 0"
      "collection_items s4 = 0"
    using wr [of s3 "p1 @ le_bytes 8 3" 0 "[7]" 0] 3 l3 p1 by auto
  obtain s5 where 5: "sink_write [8, 9] \<lparr>declared_bytes = 3, written_bytes = 1, stream_chunks = 1, poisoned = None\<rparr> s4
      = (Ok (), \<lparr>declared_bytes = 3, written_bytes = 3, stream_chunks = 2, poisoned = None\<rparr>, s5)"
      "enc_ok s5 (((p1 @ le_bytes 8 3) @ [7]) @ [8, 9])" "never_cancelled s5" "next_field s5 = 0" "collection_items s5 = 0"
    using wr [of s4 "(p1 @ le_bytes 8 3) @ [7]" 1 "[8, 9]" 1] 4(2-6) p1 by (auto simp: one_add_one)
  from succeeds [OF yields_checkpoint 5(2,3)] obtain s6 where 6: "checkpoint s5 = (Ok (), s6)"
    "enc_ok s6 (((p1 @ le_bytes 8 3) @ [7]) @ [8, 9])" "never_cancelled s6" "next_field s6 = 0" "collection_items s6 = 0"
    using 5(4,5) by auto
  from succeeds [OF yields_checkpoint 6(2,3)] obtain s7 where 7: "checkpoint s6 = (Ok (), s7)"
    "enc_ok s7 (((p1 @ le_bytes 8 3) @ [7]) @ [8, 9])" "never_cancelled s7" "next_field s7 = 0" "collection_items s7 = 0"
    using 6(4,5) by auto
  from succeeds [OF yields_checkpoint 7(2,3)] obtain s8 where 8: "checkpoint s7 = (Ok (), s8)"
    "next_field s8 = 0" "collection_items s8 = 0"
    using 7(4,5) by auto
  have "fst (finish_ordered_bytes 1 s8) = Ok ()"
    using 8 by (simp add: finish_ordered_bytes_def in_order.simps and_then_def add_collection_items_def complete_field_def
        add_u64_def checked_add_def u64_max_def u32_max_def return_with_def)
  then obtain s9 where 9: "finish_ordered_bytes 1 s8 = (Ok (), s9)" by (metis prod.collapse)
  show ?thesis
    using 1(1) 2(1) 3(1) 4(1) 5(1) 6(1) 7(1) 8(1) 9
    by (simp add: encode_ordered_bytes_stream_def Let_def canonically_def stream_row_def stream_end_def split_row_def
        ensuring_def return_with_def add_u64_def checked_add_def u64_max_def)
qed

theorem ordered_stream_is_ordered_bytes_witness:
  "fst (encode_ordered_bytes_stream rows_field 1 [Inr 3] split_row rows_encoder) = Ok ()
   \<and> (\<exists>t. encode_ordered_bytes rows_field 1 [[7, 8, 9]] rows_encoder = (Ok (), t))"
proof -
  have ok: "enc_ok rows_encoder []" by (simp add: enc_ok_def rows_encoder_def u64_max_def default_limits_def)
  have run: "fst (encode_ordered_bytes_stream rows_field 1 [Inr 3] split_row rows_encoder) = Ok ()"
    by (rule rows_example [OF ok])
      (simp_all add: rows_encoder_def never_cancelled_def selects_def validate_field_Inr rows_field_def rows_schema_def)
  moreover from run obtain s' where s': "encode_ordered_bytes_stream rows_field 1 [Inr 3] split_row rows_encoder = (Ok (), s')"
    by (metis prod.collapse)
  have "never_cancelled rows_encoder" by (simp add: never_cancelled_def rows_encoder_def)
  with ordered_stream_is_ordered_bytes [OF ok, where f = rows_field and n = 1 and lengths = "[Inr 3]" and produce = split_row] s'
  obtain rs t where rs: "length rs = 1" "rs ! 0 = row_of (split_row 0 (length (rs ! 0))) 0"
    and t: "encode_ordered_bytes rows_field 1 rs rows_encoder = (Ok (), t)"
    by auto
  have "rs = [[7, 8, 9]]" using rs by (cases rs) (auto simp: split_row_def)
  ultimately show ?thesis using t by blast
qed

end
