(* ===== verification/Receipt_Hash.thy ===== *)
theory Receipt_Hash
  imports Framing
begin

text \<open>
  The deterministic receipt hasher of \<open>crates/fs-alloc/src/lease.rs\<close> (\<open>ReceiptHasher\<close>): four
  64-bit lanes, a byte-absorbing step with lane cross-talk, length-prefixed byte strings, and
  a twelve-round finish. Every receipt root of the memory lease is a digest of this hasher.

  The hasher is not collision resistant and no theorem claims so. What is shown is the exact
  guarantee its arithmetic gives: every absorbing step and the finish are injective in the
  lanes, hence changing a single byte of the absorbed content always changes the digest.
\<close>

section \<open>The hasher\<close>

type_synonym lanes = "u64 list"

definition hash_byte :: "nat \<times> u8 \<Rightarrow> lanes \<Rightarrow> lanes" where
  "hash_byte ib lanes = (case ib of (index, byte) \<Rightarrow>
     let lane = index AND 3;
         v = word_rotl (13 + lane * 7) ((lanes ! lane XOR ucast byte) * 0x100000001b3);
         lanes = lanes[lane := v];
         nxt = (lane + 1) AND 3
     in lanes[nxt := lanes ! nxt XOR word_rotr 17 v])"

definition hash_raw_bytes :: "u8 list \<Rightarrow> lanes \<Rightarrow> lanes" where
  "hash_raw_bytes bs lanes = fold hash_byte (enumerate 0 bs) lanes"

definition hash_bytes :: "u8 list \<Rightarrow> lanes \<Rightarrow> lanes" where
  "hash_bytes bs lanes = hash_raw_bytes bs (hash_raw_bytes (le_bytes 16 (length bs)) lanes)"

definition hash_new :: "string \<Rightarrow> lanes" where
  "hash_new domain = hash_bytes (str_bytes domain)
     [0xcbf29ce484222325, 0x9e3779b97f4a7c15, 0x243f6a8885a308d3, 0x13198a2e03707344]"

definition hash_text :: "string \<Rightarrow> lanes \<Rightarrow> lanes" where
  "hash_text s = hash_bytes (str_bytes s)"

definition hash_boolean :: "bool \<Rightarrow> lanes \<Rightarrow> lanes" where
  "hash_boolean b = hash_bytes [if b then 1 else 0]"

definition hash_u16 :: "nat \<Rightarrow> lanes \<Rightarrow> lanes" where
  "hash_u16 v = hash_bytes (le_bytes 2 v)"

definition hash_u64 :: "nat \<Rightarrow> lanes \<Rightarrow> lanes" where
  "hash_u64 v = hash_bytes (le_bytes 8 v)"

definition hash_u128 :: "nat \<Rightarrow> lanes \<Rightarrow> lanes" where
  "hash_u128 v = hash_bytes (le_bytes 16 v)"

definition hash_usize :: "nat \<Rightarrow> lanes \<Rightarrow> lanes" where
  "hash_usize v = hash_u128 v"

definition hash_optional_text :: "string option \<Rightarrow> lanes \<Rightarrow> lanes" where
  "hash_optional_text value lanes = (case value of
     Some s \<Rightarrow> hash_text s (hash_boolean True lanes)
   | None \<Rightarrow> hash_boolean False lanes)"

definition finish_round :: "nat \<Rightarrow> lanes \<Rightarrow> lanes" where
  "finish_round round lanes =
    (let lane = round AND 3;
         nxt = (lane + 1) AND 3;
         v = word_rotl 23 ((lanes ! lane XOR word_rotl 19 (lanes ! nxt)) * 0x9e3779b185ebca87)
     in lanes[lane := v])"

definition hash_finish :: "lanes \<Rightarrow> u8 list" where
  "hash_finish lanes = concat (map (\<lambda>lane. le_bytes 8 (unat lane)) (fold finish_round [0..<12] lanes))"

text \<open>Running a sequence of absorbing calls, in the order the code makes them.\<close>

definition hash_calls :: "(lanes \<Rightarrow> lanes) list \<Rightarrow> lanes \<Rightarrow> lanes" where
  "hash_calls calls lanes = fold (\<lambda>call. call) calls lanes"

section \<open>What a digest is guaranteed to notice\<close>

lemma and3_cases: "(n :: nat) AND 3 = 0 \<or> n AND 3 = 1 \<or> n AND 3 = 2 \<or> n AND 3 = 3"
proof -
  have "n AND 3 = n mod 4"
    using take_bit_eq_mask [of 2 n] by (simp add: take_bit_eq_mod mask_numeral numeral_3_eq_3)
  then show ?thesis by auto
qed

lemma times_unit_inj:
  fixes k :: u64
  assumes "x * k = y * k" "k * k' = 1"
  shows "x = y"
proof -
  have "x * k * k' = y * k * k'" using assms(1) by simp
  then show ?thesis by (simp add: mult.assoc assms(2))
qed

lemma fnv_prime_unit: "(0x100000001b3 :: u64) * 0xce965057aff6957b = 1"
  by simp

lemma finish_prime_unit: "(0x9e3779b185ebca87 :: u64) * 0x887493432badb37 = 1"
  by simp

lemma rotl_inj [simp]: "word_rotl n (x :: u64) = word_rotl n y \<longleftrightarrow> x = y"
  by (metis word_rot_lr)

lemma xor_right_inj [simp]: "(x :: u64) XOR b = y XOR b \<longleftrightarrow> x = y"
  by (auto simp: bit_eq_iff bit_xor_iff)

lemma xor_left_inj [simp]: "(b :: u64) XOR x = b XOR y \<longleftrightarrow> x = y"
  by (metis xor.commute xor_right_inj)

lemma mix_inj: "(x * 0x100000001b3 :: u64) = y * 0x100000001b3 \<longleftrightarrow> x = y"
  using times_unit_inj [OF _ fnv_prime_unit] by blast

lemma finish_mix_inj: "(x * 0x9e3779b185ebca87 :: u64) = y * 0x9e3779b185ebca87 \<longleftrightarrow> x = y"
  using times_unit_inj [OF _ finish_prime_unit] by blast

lemma ucast_u8_inj: "(ucast (a :: u8) :: u64) = ucast b \<longleftrightarrow> a = b"
proof
  assume eq: "(ucast a :: u64) = ucast b"
  have u: "unat (ucast w :: u64) = unat w" for w :: u8
  proof -
    have "unat w < 2 ^ LENGTH(8)" by (rule unsigned_less)
    then show ?thesis by (simp add: unsigned_ucast_eq take_bit_nat_eq_self)
  qed
  from eq have "unat (ucast a :: u64) = unat (ucast b :: u64)" by simp
  then show "a = b" by (simp add: u word_unat_eq_iff)
qed simp

lemma length4: "length (l :: lanes) = 4 \<Longrightarrow> \<exists>a b c d. l = [a, b, c, d]"
  by (auto simp: length_Suc_conv numeral_eq_Suc)

lemma length_hash_byte [simp]: "length (hash_byte ib l) = length l"
  by (simp add: hash_byte_def Let_def split: prod.split)

lemma lane_numerals: "(0 :: nat) + 1 = 1" "(1 :: nat) + 1 = 2" "(2 :: nat) + 1 = 3" "(3 :: nat) + 1 = 4"
  "(1 :: nat) AND 3 = 1" "(2 :: nat) AND 3 = 2" "(3 :: nat) AND 3 = 3" "(4 :: nat) AND 3 = 0"
  by simp_all

lemma four_lanes:
  "[p, q, r, s] ! 0 = p" "[p, q, r, s] ! 1 = q" "[p, q, r, s] ! 2 = r" "[p, q, r, s] ! 3 = s"
  "[p, q, r, s][0 := v] = [v, q, r, s]" "[p, q, r, s][1 := v] = [p, v, r, s]"
  "[p, q, r, s][2 := v] = [p, q, v, s]" "[p, q, r, s][3 := v] = [p, q, r, v]"
  by (simp_all add: numeral_2_eq_2 numeral_3_eq_3)

lemma hash_byte_inj:
  assumes "hash_byte (i, b) l = hash_byte (i, b') l'" "length l = 4" "length l' = 4"
    and "b = b' \<or> l = l'"
  shows "b = b' \<and> l = l'"
proof -
  obtain p q r s p' q' r' s' where l: "l = [p, q, r, s]" "l' = [p', q', r', s']"
    using length4 assms(2,3) by metis
  show ?thesis
    using and3_cases [of i] assms(1,4) unfolding l hash_byte_def Let_def prod.case
    by (elim disjE; simp only: lane_numerals four_lanes)
      (auto simp: mix_inj ucast_u8_inj)
qed

lemma finish_round_inj:
  assumes "finish_round i l = finish_round i l'" "length l = 4" "length l' = 4"
  shows "l = l'"
proof -
  obtain p q r s p' q' r' s' where l: "l = [p, q, r, s]" "l' = [p', q', r', s']"
    using length4 assms(2,3) by metis
  show ?thesis
    using and3_cases [of i] assms(1) unfolding l finish_round_def Let_def
    by (elim disjE; simp only: lane_numerals four_lanes) (auto simp: finish_mix_inj)
qed

lemma length_finish_round [simp]: "length (finish_round i l) = length l"
  by (simp add: finish_round_def Let_def)

lemma fold_keeps_length: "(\<And>x l. length (f x l) = length l) \<Longrightarrow> length (fold f xs l) = length l"
  by (induction xs arbitrary: l) auto

lemma fold_inj:
  assumes "\<And>x l l'. f x l = f x l' \<Longrightarrow> length l = 4 \<Longrightarrow> length l' = 4 \<Longrightarrow> l = l'"
    and "\<And>x l. length (f x l) = length l"
  shows "fold f xs l = fold f xs l' \<Longrightarrow> length l = 4 \<Longrightarrow> length l' = 4 \<Longrightarrow> l = l'"
proof (induction xs arbitrary: l l')
  case (Cons x xs)
  then have "f x l = f x l'" by (simp add: assms(2))
  then show ?case using assms(1) Cons.prems by blast
qed simp

lemma length_hash_raw_bytes [simp]: "length (hash_raw_bytes bs l) = length l"
  by (simp add: hash_raw_bytes_def fold_keeps_length)

lemma length_hash_bytes [simp]: "length (hash_bytes bs l) = length l"
  by (simp add: hash_bytes_def)

lemma length_hash_new [simp]: "length (hash_new d) = 4"
  by (simp add: hash_new_def)

lemma hash_byte_lanes_inj:
  "hash_byte x l = hash_byte x l' \<Longrightarrow> length l = 4 \<Longrightarrow> length l' = 4 \<Longrightarrow> l = l'"
  using hash_byte_inj [of "fst x" "snd x" l "snd x" l'] by simp

lemma fold_hash_byte_inj:
  "fold hash_byte xs l = fold hash_byte xs l' \<Longrightarrow> length l = 4 \<Longrightarrow> length l' = 4 \<Longrightarrow> l = l'"
  using fold_inj [of hash_byte xs l l'] hash_byte_lanes_inj length_hash_byte by blast

lemma fold_finish_round_inj:
  "fold finish_round xs l = fold finish_round xs l' \<Longrightarrow> length l = 4 \<Longrightarrow> length l' = 4 \<Longrightarrow> l = l'"
  using fold_inj [of finish_round xs l l'] finish_round_inj length_finish_round by blast

lemma hash_raw_bytes_inj:
  "hash_raw_bytes bs l = hash_raw_bytes bs l' \<Longrightarrow> length l = 4 \<Longrightarrow> length l' = 4 \<Longrightarrow> l = l'"
  unfolding hash_raw_bytes_def
  by (rule fold_hash_byte_inj)

lemma enumerate_update:
  "i < length bs \<Longrightarrow> enumerate k (bs[i := b]) =
     take i (enumerate k bs) @ (k + i, b) # drop (Suc i) (enumerate k bs)"
proof (induction bs arbitrary: i k)
  case (Cons a bs)
  then show ?case by (cases i) auto
qed simp

lemma hash_raw_bytes_update:
  assumes "length l = 4" "i < length bs" "b \<noteq> bs ! i"
  shows "hash_raw_bytes (bs[i := b]) l \<noteq> hash_raw_bytes bs l"
proof
  assume eq: "hash_raw_bytes (bs[i := b]) l = hash_raw_bytes bs l"
  let ?m = "fold hash_byte (take i (enumerate 0 bs)) l"
  let ?rest = "drop (Suc i) (enumerate 0 bs)"
  have m: "length ?m = 4" using assms(1) by (simp add: fold_keeps_length)
  have split: "hash_raw_bytes (bs[i := c]) l = fold hash_byte ?rest (hash_byte (i, c) ?m)" for c
    using assms(2) by (simp add: hash_raw_bytes_def enumerate_update)
  have "fold hash_byte ?rest (hash_byte (i, b) ?m) = fold hash_byte ?rest (hash_byte (i, bs ! i) ?m)"
    using eq split [of b] split [of "bs ! i"] by simp
  then have "hash_byte (i, b) ?m = hash_byte (i, bs ! i) ?m"
    by (rule fold_hash_byte_inj) (simp_all add: m)
  with hash_byte_inj [of i b ?m "bs ! i" ?m] m assms(3) show False by simp
qed

text \<open>A call is lossless when it can be undone: the lanes after it determine those before.\<close>

definition lossless :: "(lanes \<Rightarrow> lanes) \<Rightarrow> bool" where
  "lossless f \<longleftrightarrow> (\<forall>l. length (f l) = length l) \<and>
     (\<forall>l l'. length l = 4 \<longrightarrow> length l' = 4 \<longrightarrow> f l = f l' \<longrightarrow> l = l')"

named_theorems lossless_calls "the absorbing calls of the receipt hasher lose nothing"

lemma lossless_hash_bytes [lossless_calls]: "lossless (hash_bytes bs)"
  unfolding lossless_def hash_bytes_def using hash_raw_bytes_inj
  by (metis length_hash_raw_bytes)

lemma lossless_hash_text [lossless_calls]: "lossless (hash_text s)"
  and lossless_hash_boolean [lossless_calls]: "lossless (hash_boolean b)"
  and lossless_hash_u16 [lossless_calls]: "lossless (hash_u16 v)"
  and lossless_hash_u64 [lossless_calls]: "lossless (hash_u64 v)"
  and lossless_hash_u128 [lossless_calls]: "lossless (hash_u128 v)"
  and lossless_hash_usize [lossless_calls]: "lossless (hash_usize v)"
  by (simp_all add: hash_text_def hash_boolean_def hash_u16_def hash_u64_def hash_u128_def
      hash_usize_def lossless_hash_bytes)

lemma lossless_comp: "lossless f \<Longrightarrow> lossless g \<Longrightarrow> lossless (\<lambda>l. f (g l))"
  unfolding lossless_def by metis

lemma lossless_hash_optional_text [lossless_calls]: "lossless (hash_optional_text v)"
  by (cases v) (auto simp: hash_optional_text_def [abs_def] intro: lossless_comp lossless_calls)

lemma hash_calls_simps [simp]:
  "hash_calls [] l = l" "hash_calls (c # cs) l = hash_calls cs (c l)"
  "hash_calls (cs @ ds) l = hash_calls ds (hash_calls cs l)"
  by (simp_all add: hash_calls_def)

lemma lossless_hash_calls: "\<forall>c\<in>set cs. lossless c \<Longrightarrow> lossless (hash_calls cs)"
proof (induction cs)
  case Nil
  then show ?case by (simp add: lossless_def)
next
  case (Cons c cs)
  then have "lossless (\<lambda>l. hash_calls cs (c l))" using lossless_comp [of "hash_calls cs" c] by simp
  then show ?case unfolding lossless_def hash_calls_simps .
qed

lemma le_bytes_8_inj: "le_bytes 8 (unat (a :: u64)) = le_bytes 8 (unat b) \<Longrightarrow> a = b"
proof -
  assume eq: "le_bytes 8 (unat a) = le_bytes 8 (unat b)"
  have "unat w < 256 ^ 8" for w :: u64
  proof -
    have "unat w < 2 ^ LENGTH(64)" by (rule unsigned_less)
    then show ?thesis by simp
  qed
  with le_bytes_inj [OF eq] show "a = b" by (simp add: word_unat_eq_iff)
qed

lemma hash_finish_inj:
  assumes "hash_finish l = hash_finish l'" "length l = 4" "length l' = 4"
  shows "l = l'"
proof -
  let ?f = "fold finish_round [0..<12]"
  have len: "length (?f l) = 4" "length (?f l') = 4"
    using assms(2,3) by (simp_all add: fold_keeps_length)
  obtain p q r s p' q' r' s' where "?f l = [p, q, r, s]" "?f l' = [p', q', r', s']"
    using length4 len by metis
  then have "?f l = ?f l'"
    using assms(1) by (auto simp: hash_finish_def dest!: le_bytes_8_inj)
  then show ?thesis
    by (rule fold_finish_round_inj) (simp_all add: assms(2,3))
qed

lemma finish_after_lossless:
  assumes "\<forall>c\<in>set cs. lossless c" "length l = 4" "length l' = 4" "l \<noteq> l'"
  shows "hash_finish (hash_calls cs l) \<noteq> hash_finish (hash_calls cs l')"
  using lossless_hash_calls [OF assms(1)] assms(2-4) hash_finish_inj
  unfolding lossless_def by metis

lemma hash_bytes_update:
  "length l = 4 \<Longrightarrow> i < length bs \<Longrightarrow> b \<noteq> bs ! i \<Longrightarrow> hash_bytes (bs[i := b]) l \<noteq> hash_bytes bs l"
  by (simp add: hash_bytes_def hash_raw_bytes_update)

text \<open>Changing any single byte of any absorbed byte string changes the digest: after any
  domain and any earlier byte strings, replacing one byte of one byte string and absorbing the
  same later byte strings gives a different 32-byte root.\<close>

theorem single_byte_change_detected:
  assumes "i < length bs" "b \<noteq> bs ! i"
  shows "hash_finish (hash_calls (map hash_bytes before @ hash_bytes (bs[i := b]) # map hash_bytes later)
           (hash_new domain)) \<noteq>
         hash_finish (hash_calls (map hash_bytes before @ hash_bytes bs # map hash_bytes later)
           (hash_new domain))"
proof -
  let ?l = "hash_calls (map hash_bytes before) (hash_new domain)"
  have "lossless (hash_calls (map hash_bytes before))"
    by (rule lossless_hash_calls) (auto intro: lossless_calls)
  then have "length ?l = 4" by (simp add: lossless_def)
  then have "hash_finish (hash_calls (map hash_bytes later) (hash_bytes (bs[i := b]) ?l)) \<noteq>
      hash_finish (hash_calls (map hash_bytes later) (hash_bytes bs ?l))"
    using assms by (intro finish_after_lossless) (auto intro: lossless_calls simp: hash_bytes_update)
  then show ?thesis by simp
qed

theorem single_byte_change_detected_witness:
  "hash_finish (hash_calls [hash_bytes [1, 9]] (hash_new ''root'')) \<noteq>
   hash_finish (hash_calls [hash_bytes [1, 2]] (hash_new ''root''))"
  using single_byte_change_detected [of 1 "[1, 2]" 9 "[]" "[]" "''root''"] by simp

lemma hash_boolean_flip: "length l = 4 \<Longrightarrow> hash_boolean (\<not> b) l \<noteq> hash_boolean b l"
  unfolding hash_boolean_def using hash_bytes_update [of l 0 "[if b then 1 else 0]" "if \<not> b then 1 else 0"]
  by (cases b) auto

end
