(* ===== verification/Lease_Identity.thy ===== *)
theory Lease_Identity
  imports Receipt_Hash "HOL-Library.List_Lexorder" "HOL-Library.Product_Lexorder"
begin

text \<open>
  The fixed-width identities of \<open>crates/fs-alloc/src/lease.rs\<close>: \<open>LeaseIdentity\<close> with its
  delegation path, the publication binding and byte envelope, their canonical encodings, their
  derived orders, and the admissible identifier strings.

  Byte arrays are byte lists whose width is part of the well-formedness predicates; the fields
  are private in the source, so every value comes from the constructors modelled here.
\<close>

definition LEASE_IDENTITY_DOMAIN_BYTES :: nat where "LEASE_IDENTITY_DOMAIN_BYTES = 8"
definition LEASE_IDENTITY_SUBJECT_BYTES :: nat where "LEASE_IDENTITY_SUBJECT_BYTES = 32"
definition LEASE_IDENTITY_MAX_PATH_COMPONENTS :: nat where "LEASE_IDENTITY_MAX_PATH_COMPONENTS = 16"
definition LEASE_IDENTITY_SCHEMA_VERSION :: nat where "LEASE_IDENTITY_SCHEMA_VERSION = 1"
definition LEASE_IDENTITY_ENCODED_BYTES :: nat where
  "LEASE_IDENTITY_ENCODED_BYTES = 2 + LEASE_IDENTITY_DOMAIN_BYTES + LEASE_IDENTITY_SUBJECT_BYTES
     + LEASE_IDENTITY_SUBJECT_BYTES + LEASE_IDENTITY_SUBJECT_BYTES + 1
     + LEASE_IDENTITY_MAX_PATH_COMPONENTS * 8"
definition PUBLISHED_TRANSFER_BINDING_SCHEMA_VERSION :: nat where
  "PUBLISHED_TRANSFER_BINDING_SCHEMA_VERSION = 1"
definition PUBLISHED_TRANSFER_BINDING_FIELD_BYTES :: nat where
  "PUBLISHED_TRANSFER_BINDING_FIELD_BYTES = 32"
definition PUBLISHED_TRANSFER_ENVELOPE_SCHEMA_VERSION :: nat where
  "PUBLISHED_TRANSFER_ENVELOPE_SCHEMA_VERSION = 1"
definition MAX_LOGICAL_ID_BYTES :: nat where "MAX_LOGICAL_ID_BYTES = 256"

lemmas lease_constants = LEASE_IDENTITY_DOMAIN_BYTES_def LEASE_IDENTITY_SUBJECT_BYTES_def
  LEASE_IDENTITY_MAX_PATH_COMPONENTS_def LEASE_IDENTITY_SCHEMA_VERSION_def
  LEASE_IDENTITY_ENCODED_BYTES_def PUBLISHED_TRANSFER_BINDING_SCHEMA_VERSION_def
  PUBLISHED_TRANSFER_BINDING_FIELD_BYTES_def PUBLISHED_TRANSFER_ENVELOPE_SCHEMA_VERSION_def
  MAX_LOGICAL_ID_BYTES_def

section \<open>Lease identities\<close>

datatype lease_identity = LeaseIdentity
  (id_domain: "u8 list") (root_subject: "u8 list") (parent_subject: "u8 list")
  (owner_subject: "u8 list") (path_len: nat) (path_words: "u64 list")

definition identity_root :: "u8 list \<Rightarrow> u8 list \<Rightarrow> lease_identity" where
  "identity_root domain subject =
     LeaseIdentity domain subject subject subject 0 (replicate LEASE_IDENTITY_MAX_PATH_COMPONENTS 0)"

datatype path_error = LeaseIdentityPathError (maximum_components: nat)

definition identity_child :: "lease_identity \<Rightarrow> u8 list \<Rightarrow> u64 \<Rightarrow> path_error + lease_identity" where
  "identity_child self owner component =
    (let index = path_len self
     in if LEASE_IDENTITY_MAX_PATH_COMPONENTS \<le> index
        then Inl (LeaseIdentityPathError LEASE_IDENTITY_MAX_PATH_COMPONENTS)
        else Inr (LeaseIdentity (id_domain self) (root_subject self) (owner_subject self) owner
                    (path_len self + 1) ((path_words self)[index := component])))"

definition identity_path :: "lease_identity \<Rightarrow> u64 list" where
  "identity_path self = take (path_len self) (path_words self)"

definition identity_bytes :: "lease_identity \<Rightarrow> u8 list" where
  "identity_bytes self =
     le_bytes 2 LEASE_IDENTITY_SCHEMA_VERSION @ id_domain self @ root_subject self
     @ parent_subject self @ owner_subject self @ [of_nat (path_len self)]
     @ concat (map (\<lambda>component. le_bytes 8 (unat component)) (path_words self))"

definition is_root :: "lease_identity \<Rightarrow> bool" where
  "is_root self \<longleftrightarrow> path_len self = 0 \<and> parent_subject self = root_subject self
     \<and> owner_subject self = root_subject self"

definition is_direct_child_of :: "lease_identity \<Rightarrow> lease_identity \<Rightarrow> bool" where
  "is_direct_child_of self parent =
    (if id_domain self \<noteq> id_domain parent
        \<or> root_subject self \<noteq> root_subject parent
        \<or> parent_subject self \<noteq> owner_subject parent
        \<or> path_len self \<noteq> path_len parent + 1
     then False
     else take (path_len parent) (path_words self) = take (path_len parent) (path_words parent))"

text \<open>The derived order compares the fields in declaration order.\<close>

definition identity_key ::
  "lease_identity \<Rightarrow> u8 list \<times> u8 list \<times> u8 list \<times> u8 list \<times> nat \<times> u64 list" where
  "identity_key i = (id_domain i, root_subject i, parent_subject i, owner_subject i,
     path_len i, path_words i)"

lemma identity_key_inj: "identity_key i = identity_key j \<Longrightarrow> i = j"
  by (cases i; cases j) (simp add: identity_key_def)

instantiation lease_identity :: linorder
begin

definition less_eq_lease_identity :: "lease_identity \<Rightarrow> lease_identity \<Rightarrow> bool" where
  "less_eq_lease_identity i j \<longleftrightarrow> identity_key i \<le> identity_key j"

definition less_lease_identity :: "lease_identity \<Rightarrow> lease_identity \<Rightarrow> bool" where
  "less_lease_identity i j \<longleftrightarrow> identity_key i < identity_key j"

instance
  by standard (auto simp: less_eq_lease_identity_def less_lease_identity_def intro: identity_key_inj)

end

definition identity_wf :: "lease_identity \<Rightarrow> bool" where
  "identity_wf i \<longleftrightarrow> length (id_domain i) = LEASE_IDENTITY_DOMAIN_BYTES
     \<and> length (root_subject i) = LEASE_IDENTITY_SUBJECT_BYTES
     \<and> length (parent_subject i) = LEASE_IDENTITY_SUBJECT_BYTES
     \<and> length (owner_subject i) = LEASE_IDENTITY_SUBJECT_BYTES
     \<and> path_len i \<le> LEASE_IDENTITY_MAX_PATH_COMPONENTS
     \<and> length (path_words i) = LEASE_IDENTITY_MAX_PATH_COMPONENTS"

section \<open>Publication bindings and envelopes\<close>

datatype transfer_binding = PublishedTransferBinding
  (plan_identity: "u8 list") (occurrence_identity: "u8 list")
  (output_identity: "u8 list") (destination_identity: "u8 list")

definition binding_bytes :: "transfer_binding \<Rightarrow> u8 list" where
  "binding_bytes self = le_bytes 2 PUBLISHED_TRANSFER_BINDING_SCHEMA_VERSION
     @ concat [plan_identity self, occurrence_identity self, output_identity self,
               destination_identity self]"

definition binding_key :: "transfer_binding \<Rightarrow> u8 list \<times> u8 list \<times> u8 list \<times> u8 list" where
  "binding_key b = (plan_identity b, occurrence_identity b, output_identity b, destination_identity b)"

lemma binding_key_inj: "binding_key a = binding_key b \<Longrightarrow> a = b"
  by (cases a; cases b) (simp add: binding_key_def)

instantiation transfer_binding :: linorder
begin

definition less_eq_transfer_binding :: "transfer_binding \<Rightarrow> transfer_binding \<Rightarrow> bool" where
  "less_eq_transfer_binding a b \<longleftrightarrow> binding_key a \<le> binding_key b"

definition less_transfer_binding :: "transfer_binding \<Rightarrow> transfer_binding \<Rightarrow> bool" where
  "less_transfer_binding a b \<longleftrightarrow> binding_key a < binding_key b"

instance
  by standard
    (auto simp: less_eq_transfer_binding_def less_transfer_binding_def intro: binding_key_inj)

end

definition binding_wf :: "transfer_binding \<Rightarrow> bool" where
  "binding_wf b \<longleftrightarrow> length (plan_identity b) = PUBLISHED_TRANSFER_BINDING_FIELD_BYTES
     \<and> length (occurrence_identity b) = PUBLISHED_TRANSFER_BINDING_FIELD_BYTES
     \<and> length (output_identity b) = PUBLISHED_TRANSFER_BINDING_FIELD_BYTES
     \<and> length (destination_identity b) = PUBLISHED_TRANSFER_BINDING_FIELD_BYTES"

datatype transfer_envelope = PublishedTransferEnvelope
  (payload_bytes: nat) (layout_bytes: nat) (overhead_bytes: nat)

definition payload_only :: "nat \<Rightarrow> transfer_envelope" where
  "payload_only bytes = PublishedTransferEnvelope bytes 0 0"

definition total_bytes :: "transfer_envelope \<Rightarrow> nat option" where
  "total_bytes self = (case checked_add u64_max (payload_bytes self) (layout_bytes self) of
     None \<Rightarrow> None
   | Some payload_and_layout \<Rightarrow> checked_add u64_max payload_and_layout (overhead_bytes self))"

definition envelope_bytes :: "transfer_envelope \<Rightarrow> u8 list" where
  "envelope_bytes self = le_bytes 2 PUBLISHED_TRANSFER_ENVELOPE_SCHEMA_VERSION
     @ concat (map (le_bytes 8) [payload_bytes self, layout_bytes self, overhead_bytes self])"

lemma total_bytes_Some:
  "total_bytes e = Some n \<longleftrightarrow>
     n = payload_bytes e + layout_bytes e + overhead_bytes e \<and> n \<le> u64_max"
  by (auto simp: total_bytes_def split: option.split)

section \<open>Absorbing identities\<close>

definition hash_identity :: "lease_identity \<Rightarrow> lanes \<Rightarrow> lanes" where
  "hash_identity value = hash_bytes (identity_bytes value)"

definition hash_optional_identity :: "lease_identity option \<Rightarrow> lanes \<Rightarrow> lanes" where
  "hash_optional_identity value lanes = (case value of
     Some i \<Rightarrow> hash_identity i (hash_boolean True lanes)
   | None \<Rightarrow> hash_boolean False lanes)"

definition hash_published_binding :: "transfer_binding \<Rightarrow> lanes \<Rightarrow> lanes" where
  "hash_published_binding value = hash_bytes (binding_bytes value)"

definition hash_published_envelope :: "transfer_envelope \<Rightarrow> lanes \<Rightarrow> lanes" where
  "hash_published_envelope value = hash_bytes (envelope_bytes value)"

lemma lossless_hash_identity [lossless_calls]: "lossless (hash_identity i)"
  and lossless_hash_published_binding [lossless_calls]: "lossless (hash_published_binding b)"
  and lossless_hash_published_envelope [lossless_calls]: "lossless (hash_published_envelope e)"
  by (simp_all add: hash_identity_def hash_published_binding_def hash_published_envelope_def
      lossless_hash_bytes)

lemma lossless_hash_optional_identity [lossless_calls]: "lossless (hash_optional_identity i)"
  by (cases i) (auto simp: hash_optional_identity_def [abs_def] intro: lossless_comp lossless_calls)

section \<open>Admissible identifiers\<close>

definition ascii_alphanumeric :: "char \<Rightarrow> bool" where
  "ascii_alphanumeric c = (let n = of_char c :: nat in
     48 \<le> n \<and> n \<le> 57 \<or> 65 \<le> n \<and> n \<le> 90 \<or> 97 \<le> n \<and> n \<le> 122)"

definition valid_identity_byte :: "char \<Rightarrow> bool" where
  "valid_identity_byte byte \<longleftrightarrow> ascii_alphanumeric byte \<or> byte \<in> {CHR ''.'', CHR ''_'', CHR ''-''}"

definition valid_root_id :: "string \<Rightarrow> bool" where
  "valid_root_id root_id \<longleftrightarrow> root_id \<noteq> [] \<and> length root_id \<le> MAX_LOGICAL_ID_BYTES
     \<and> CHR ''/'' \<notin> set root_id \<and> list_all valid_identity_byte root_id"

text \<open>\<open>str::split\<close>: the pieces between separators, empty pieces included.\<close>

fun split_on :: "char \<Rightarrow> string \<Rightarrow> string list" where
  "split_on sep [] = [[]]"
| "split_on sep (c # cs) =
    (if c = sep then [] # split_on sep cs
     else case split_on sep cs of [] \<Rightarrow> [[c]] | p # ps \<Rightarrow> (c # p) # ps)"

definition strip_prefix :: "string \<Rightarrow> string \<Rightarrow> string option" where
  "strip_prefix pre s = (if take (length pre) s = pre then Some (drop (length pre) s) else None)"

definition valid_logical_path :: "string \<Rightarrow> string option \<Rightarrow> string \<Rightarrow> bool" where
  "valid_logical_path root_id parent_path path =
    (if path = [] \<or> MAX_LOGICAL_ID_BYTES < length path \<or> hd path = CHR ''/'' \<or> last path = CHR ''/''
        \<or> list_ex (\<lambda>piece. piece = []) (split_on (CHR ''/'') path)
        \<or> \<not> list_all (\<lambda>byte. byte = CHR ''/'' \<or> valid_identity_byte byte) path
     then False
     else let prefix = (case parent_path of Some p \<Rightarrow> p | None \<Rightarrow> root_id)
          in case strip_prefix prefix path of
               None \<Rightarrow> False
             | Some suffix \<Rightarrow> take 1 suffix = ''/'' \<and> 1 < length suffix)"

section \<open>What identities promise\<close>

lemma identity_wf_root:
  "length d = LEASE_IDENTITY_DOMAIN_BYTES \<Longrightarrow> length s = LEASE_IDENTITY_SUBJECT_BYTES \<Longrightarrow>
   identity_wf (identity_root d s) \<and> is_root (identity_root d s)"
  by (simp add: identity_root_def identity_wf_def is_root_def)

lemma is_direct_child_of_iff:
  "is_direct_child_of c p \<longleftrightarrow> id_domain c = id_domain p \<and> root_subject c = root_subject p \<and>
     parent_subject c = owner_subject p \<and> path_len c = path_len p + 1 \<and>
     take (path_len p) (path_words c) = take (path_len p) (path_words p)"
  by (auto simp: is_direct_child_of_def)

lemma direct_child_not_root: "is_direct_child_of c p \<Longrightarrow> \<not> is_root c"
  by (simp add: is_direct_child_of_iff is_root_def)

lemma direct_child_irrefl: "\<not> is_direct_child_of c c"
  by (simp add: is_direct_child_of_iff)

lemma length_identity_bytes:
  "identity_wf i \<Longrightarrow> length (identity_bytes i) = LEASE_IDENTITY_ENCODED_BYTES"
  by (simp add: identity_wf_def identity_bytes_def lease_constants length_concat o_def
      sum_list_triv)

lemma concat_le_bytes_8_inj:
  "length xs = length ys \<Longrightarrow>
   concat (map (\<lambda>c. le_bytes 8 (unat c)) xs) = concat (map (\<lambda>c. le_bytes 8 (unat c)) ys) \<Longrightarrow>
   xs = (ys :: u64 list)"
  by (induction xs ys rule: list_induct2) (auto dest: le_bytes_8_inj)

text \<open>Deriving a child identity refuses exactly when the sixteen path components are used up;
  otherwise the child is a well-formed direct child of its parent, in the same domain and under
  the same root, never a root itself, and its path is the parent's path extended by the
  component.\<close>

theorem identity_child_sound:
  assumes "identity_wf i" "length owner = LEASE_IDENTITY_SUBJECT_BYTES"
  shows "case identity_child i owner c of
      Inl e \<Rightarrow> path_len i = LEASE_IDENTITY_MAX_PATH_COMPONENTS \<and>
               maximum_components e = LEASE_IDENTITY_MAX_PATH_COMPONENTS
    | Inr ch \<Rightarrow> path_len i < LEASE_IDENTITY_MAX_PATH_COMPONENTS \<and> identity_wf ch \<and>
        is_direct_child_of ch i \<and> \<not> is_root ch \<and> root_subject ch = root_subject i \<and>
        id_domain ch = id_domain i \<and> owner_subject ch = owner \<and>
        identity_path ch = identity_path i @ [c]"
  using assms
  by (auto simp: identity_child_def Let_def identity_wf_def is_direct_child_of_iff is_root_def
      identity_path_def take_Suc_conv_app_nth)

theorem identity_child_sound_witness:
  "identity_child (identity_root (replicate 8 1) (replicate 32 2)) (replicate 32 3) 7
     = Inr (LeaseIdentity (replicate 8 1) (replicate 32 2) (replicate 32 2) (replicate 32 3) 1
              (7 # replicate 15 0))
   \<and> identity_path (LeaseIdentity (replicate 8 1) (replicate 32 2) (replicate 32 2) (replicate 32 3) 1
              (7 # replicate 15 0)) = [7]"
proof -
  let ?r = "identity_root (replicate 8 1) (replicate 32 2)"
  have c: "identity_child ?r (replicate 32 3) 7 =
      Inr (LeaseIdentity (replicate 8 1) (replicate 32 2) (replicate 32 2) (replicate 32 3) 1
              (7 # replicate 15 0))"
    by (simp add: identity_child_def identity_root_def lease_constants numeral_eq_Suc)
  have "identity_wf ?r" by (simp add: identity_wf_def identity_root_def lease_constants)
  from identity_child_sound [OF this, of "replicate 32 3" 7] show ?thesis
    unfolding c by (simp add: lease_constants identity_path_def identity_root_def)
qed

text \<open>The canonical encoding of a well-formed lease identity is 235 bytes wide and injective:
  two identities with the same bytes are the same authority.\<close>

theorem identity_bytes_canonical:
  assumes "identity_wf i" "identity_wf j"
  shows "length (identity_bytes i) = LEASE_IDENTITY_ENCODED_BYTES \<and>
         (identity_bytes i = identity_bytes j \<longleftrightarrow> i = j)"
proof -
  have "i = j" if "identity_bytes i = identity_bytes j"
  proof -
    have n: "path_len i < 256" "path_len j < 256"
      using assms by (auto simp: identity_wf_def lease_constants)
    have "of_nat (path_len i) = (of_nat (path_len j) :: u8)"
      and w: "concat (map (\<lambda>c. le_bytes 8 (unat c)) (path_words i)) =
              concat (map (\<lambda>c. le_bytes 8 (unat c)) (path_words j))"
      and r: "id_domain i = id_domain j" "root_subject i = root_subject j"
        "parent_subject i = parent_subject j" "owner_subject i = owner_subject j"
      using that assms by (auto simp: identity_bytes_def identity_wf_def)
    then have "path_len i = path_len j"
      using n by (simp add: word_unat_eq_iff unsigned_of_nat take_bit_nat_eq_self)
    moreover have "path_words i = path_words j"
      using w assms by (intro concat_le_bytes_8_inj) (simp_all add: identity_wf_def)
    ultimately show ?thesis using r by (simp add: lease_identity.expand)
  qed
  then show ?thesis using assms length_identity_bytes by auto
qed

theorem identity_bytes_canonical_witness:
  "length (identity_bytes (identity_root (replicate 8 1) (replicate 32 2))) = 235"
proof -
  have "identity_wf (identity_root (replicate 8 1) (replicate 32 2))"
    by (simp add: identity_wf_def identity_root_def lease_constants)
  from identity_bytes_canonical [OF this this] show ?thesis by (simp add: lease_constants)
qed

lemma split_on_nonempty [simp]: "split_on sep s \<noteq> []"
  by (induction s) (auto split: list.splits)

lemma split_on_no_empty_pieces:
  "list_all (\<lambda>p. p \<noteq> []) (tl (split_on sep s)) \<Longrightarrow> i + 1 < length s \<Longrightarrow> s ! i = sep \<Longrightarrow>
   s ! (i + 1) \<noteq> sep"
proof (induction s arbitrary: i)
  case (Cons c cs)
  obtain p ps where p: "split_on sep cs = p # ps" by (cases "split_on sep cs") auto
  show ?case
  proof (cases i)
    case 0
    then show ?thesis using Cons.prems by (cases cs) (auto split: list.splits)
  next
    case (Suc j)
    then show ?thesis using Cons.IH [of j] Cons.prems p by (auto split: if_splits)
  qed
qed simp

text \<open>An accepted logical path is a strict descendant of its parent path (of the root id for a
  top-level child): the parent, a slash, and a nonempty remainder of admissible bytes that
  neither ends in a slash nor contains two slashes in a row.\<close>

theorem valid_logical_path_descends:
  assumes "valid_logical_path root_id parent path"
  shows "\<exists>rest. path = (case parent of Some p \<Rightarrow> p | None \<Rightarrow> root_id) @ ''/'' @ rest \<and> rest \<noteq> [] \<and>
      last path \<noteq> CHR ''/'' \<and> length path \<le> MAX_LOGICAL_ID_BYTES \<and>
      (\<forall>i. i + 1 < length path \<longrightarrow> path ! i = CHR ''/'' \<longrightarrow> path ! (i + 1) \<noteq> CHR ''/'') \<and>
      (\<forall>c\<in>set path. c = CHR ''/'' \<or> valid_identity_byte c)"
proof -
  let ?pre = "case parent of Some p \<Rightarrow> p | None \<Rightarrow> root_id"
  obtain suffix where s: "strip_prefix ?pre path = Some suffix" "take 1 suffix = ''/''" "1 < length suffix"
    and w: "last path \<noteq> CHR ''/''" "length path \<le> MAX_LOGICAL_ID_BYTES"
      "\<not> list_ex (\<lambda>piece. piece = []) (split_on (CHR ''/'') path)"
      "list_all (\<lambda>byte. byte = CHR ''/'' \<or> valid_identity_byte byte) path"
    using assms unfolding valid_logical_path_def Let_def by (auto split: if_splits option.splits)
  then obtain rest where rest: "suffix = CHR ''/'' # rest" "rest \<noteq> []" by (cases suffix) auto
  have path: "path = ?pre @ ''/'' @ rest"
    using s(1) rest(1) append_take_drop_id [of "length ?pre" path]
    unfolding strip_prefix_def by (auto split: if_splits simp del: append_take_drop_id)
  have "list_all (\<lambda>p. p \<noteq> []) (tl (split_on (CHR ''/'') path))"
    using w(3) by (cases "split_on (CHR ''/'') path") (auto simp: list_ex_iff list_all_iff)
  then have "\<forall>i. i + 1 < length path \<longrightarrow> path ! i = CHR ''/'' \<longrightarrow> path ! (i + 1) \<noteq> CHR ''/''"
    using split_on_no_empty_pieces by blast
  moreover have "\<forall>c\<in>set path. c = CHR ''/'' \<or> valid_identity_byte c"
    using w(4) by (simp add: list_all_iff)
  ultimately show ?thesis using path rest(2) w(1,2) by blast
qed

theorem valid_logical_path_descends_witness:
  "valid_logical_path ''run'' (Some ''run/a'') ''run/a/b''
   \<and> (\<exists>rest. ''run/a/b'' = ''run/a'' @ ''/'' @ rest \<and> rest \<noteq> [])"
proof -
  have v: "valid_logical_path ''run'' (Some ''run/a'') ''run/a/b''" by code_simp
  from valid_logical_path_descends [OF v] have "\<exists>rest. ''run/a/b'' = ''run/a'' @ ''/'' @ rest \<and> rest \<noteq> []"
    by auto
  with v show ?thesis by blast
qed

end
