(* ===== verification/Lease_State.thy ===== *)
theory Lease_State
  imports Lease_Identity
begin

text \<open>
  The data of the memory lease (\<open>crates/fs-alloc/src/lease.rs\<close>): refusal reasons and their
  stable codes, the four receipts with their roots and verification procedures, the
  delegation and publication records, and the root ledger \<open>LeaseState\<close> with the bookkeeping
  every transition shares.

  Counters are natural numbers; the width of a counter (\<open>u64\<close>, \<open>u128\<close>) appears in the
  \<open>checked_add\<close> that guards each of its additions. Record fields that occur in several structs
  carry the struct's initials as a prefix.
\<close>

definition VERIFIED_RECEIPT_SCHEMA_VERSION :: nat where "VERIFIED_RECEIPT_SCHEMA_VERSION = 2"
definition PUBLISHED_TRANSFER_RECEIPT_SCHEMA_VERSION :: nat where
  "PUBLISHED_TRANSFER_RECEIPT_SCHEMA_VERSION = 1"
definition MAX_DELEGATION_RECORDS :: nat where "MAX_DELEGATION_RECORDS = 4096"

section \<open>Reasons\<close>

datatype lease_refusal_reason = Root_Capacity | Root_Sealed | Root_CounterOverflow

datatype configuration_refusal_reason = Config_UnboundedRoot | Config_NotPristine
  | Config_AlreadyConfigured | Config_InvalidRootIdentity | Config_MetadataLimit
  | Config_MetadataAllocation | Config_Sealed

datatype delegation_refusal_reason = Deleg_UnboundedParent | Deleg_UnconfiguredRoot
  | Deleg_RootSealed | Deleg_InvalidIdentityRelationship | Deleg_InvalidLogicalPath
  | Deleg_DuplicateIdentity | Deleg_DuplicatePath | Deleg_MetadataExhausted | Deleg_Capacity
  | Deleg_ParentReturned | Deleg_CounterOverflow

datatype delegated_reservation_refusal_reason = Resv_RootSealed | Resv_ChildReturned
  | Resv_Capacity | Resv_CounterOverflow

datatype published_transfer_operation = Op_Prepare | Op_Publish | Op_Rollback | Op_CloseDestination

datatype published_transfer_refusal_reason = Pub_RootSealed | Pub_ChildReturned | Pub_ZeroBytes
  | Pub_EnvelopeMismatch | Pub_DuplicateBinding | Pub_MetadataExhausted | Pub_TransferUnavailable
  | Pub_ConservationMismatch | Pub_CounterOverflow

datatype close_refusal_reason = Close_LiveAllocation | Close_LiveChild | Close_AlreadyReturned
  | Close_ConservationMismatch | Close_CounterOverflow

datatype seal_refusal_reason = Seal_UnverifiedRoot | Seal_LiveCapacity | Seal_ConservationMismatch
  | Seal_ReleaseInvariant | Seal_CounterOverflow

fun reason_code_root_reservation :: "lease_refusal_reason \<Rightarrow> string" where
  "reason_code_root_reservation Root_Capacity = ''capacity''"
| "reason_code_root_reservation Root_Sealed = ''sealed''"
| "reason_code_root_reservation Root_CounterOverflow = ''counter_overflow''"

fun reason_code_configuration :: "configuration_refusal_reason \<Rightarrow> string" where
  "reason_code_configuration Config_UnboundedRoot = ''unbounded_root''"
| "reason_code_configuration Config_NotPristine = ''root_not_pristine''"
| "reason_code_configuration Config_AlreadyConfigured = ''already_configured''"
| "reason_code_configuration Config_InvalidRootIdentity = ''invalid_root_identity''"
| "reason_code_configuration Config_MetadataLimit = ''metadata_limit''"
| "reason_code_configuration Config_MetadataAllocation = ''metadata_allocation''"
| "reason_code_configuration Config_Sealed = ''sealed''"

fun reason_code_delegation :: "delegation_refusal_reason \<Rightarrow> string" where
  "reason_code_delegation Deleg_UnboundedParent = ''unbounded_parent''"
| "reason_code_delegation Deleg_UnconfiguredRoot = ''unconfigured_root''"
| "reason_code_delegation Deleg_RootSealed = ''root_sealed''"
| "reason_code_delegation Deleg_InvalidIdentityRelationship = ''invalid_identity_relationship''"
| "reason_code_delegation Deleg_InvalidLogicalPath = ''invalid_logical_path''"
| "reason_code_delegation Deleg_DuplicateIdentity = ''duplicate_identity''"
| "reason_code_delegation Deleg_DuplicatePath = ''duplicate_path''"
| "reason_code_delegation Deleg_MetadataExhausted = ''metadata_exhausted''"
| "reason_code_delegation Deleg_Capacity = ''capacity''"
| "reason_code_delegation Deleg_ParentReturned = ''parent_returned''"
| "reason_code_delegation Deleg_CounterOverflow = ''counter_overflow''"

fun reason_code_delegated_reservation :: "delegated_reservation_refusal_reason \<Rightarrow> string" where
  "reason_code_delegated_reservation Resv_RootSealed = ''root_sealed''"
| "reason_code_delegated_reservation Resv_ChildReturned = ''child_returned''"
| "reason_code_delegated_reservation Resv_Capacity = ''capacity''"
| "reason_code_delegated_reservation Resv_CounterOverflow = ''counter_overflow''"

fun reason_code_published_transfer :: "published_transfer_refusal_reason \<Rightarrow> string" where
  "reason_code_published_transfer Pub_RootSealed = ''root_sealed''"
| "reason_code_published_transfer Pub_ChildReturned = ''child_returned''"
| "reason_code_published_transfer Pub_ZeroBytes = ''zero_bytes''"
| "reason_code_published_transfer Pub_EnvelopeMismatch = ''envelope_mismatch''"
| "reason_code_published_transfer Pub_DuplicateBinding = ''duplicate_binding''"
| "reason_code_published_transfer Pub_MetadataExhausted = ''metadata_exhausted''"
| "reason_code_published_transfer Pub_TransferUnavailable = ''transfer_unavailable''"
| "reason_code_published_transfer Pub_ConservationMismatch = ''conservation_mismatch''"
| "reason_code_published_transfer Pub_CounterOverflow = ''counter_overflow''"

fun operation_code_published_transfer :: "published_transfer_operation \<Rightarrow> string" where
  "operation_code_published_transfer Op_Prepare = ''prepare_published_transfer''"
| "operation_code_published_transfer Op_Publish = ''publish_prepared_transfer''"
| "operation_code_published_transfer Op_Rollback = ''rollback_prepared_transfer''"
| "operation_code_published_transfer Op_CloseDestination = ''close_published_destination''"

fun reason_code_close :: "close_refusal_reason \<Rightarrow> string" where
  "reason_code_close Close_LiveAllocation = ''live_allocation''"
| "reason_code_close Close_LiveChild = ''live_child''"
| "reason_code_close Close_AlreadyReturned = ''already_returned''"
| "reason_code_close Close_ConservationMismatch = ''conservation_mismatch''"
| "reason_code_close Close_CounterOverflow = ''counter_overflow''"

fun reason_code_seal :: "seal_refusal_reason \<Rightarrow> string" where
  "reason_code_seal Seal_UnverifiedRoot = ''unverified_root''"
| "reason_code_seal Seal_LiveCapacity = ''live_capacity''"
| "reason_code_seal Seal_ConservationMismatch = ''conservation_mismatch''"
| "reason_code_seal Seal_ReleaseInvariant = ''release_invariant''"
| "reason_code_seal Seal_CounterOverflow = ''counter_overflow''"

section \<open>Refusals\<close>

record lease_refusal =
  lrf_what :: string
  lrf_requested_bytes :: nat
  lrf_used_bytes :: nat
  lrf_limit_bytes :: nat
  lrf_reason :: lease_refusal_reason
  lrf_sequence :: nat

record lease_configuration_refusal =
  lcr_root_identity :: lease_identity
  lcr_root_id :: string
  lcr_reason :: configuration_refusal_reason
  lcr_sequence :: nat

record lease_delegation_refusal =
  ldr_root_identity :: "lease_identity option"
  ldr_parent_identity :: "lease_identity option"
  ldr_identity :: lease_identity
  ldr_root_id :: "string option"
  ldr_parent_path :: "string option"
  ldr_logical_path :: string
  ldr_requested_bytes :: nat
  ldr_used_bytes :: nat
  ldr_limit_bytes :: "nat option"
  ldr_reason :: delegation_refusal_reason
  ldr_sequence :: nat

record delegated_lease_refusal =
  dlr_root_identity :: lease_identity
  dlr_identity :: lease_identity
  dlr_root_id :: string
  dlr_logical_path :: string
  dlr_site :: string
  dlr_requested_bytes :: nat
  dlr_used_bytes :: nat
  dlr_limit_bytes :: nat
  dlr_reason :: delegated_reservation_refusal_reason
  dlr_sequence :: nat

record published_transfer_refusal =
  ptf_root_identity :: lease_identity
  ptf_parent_identity :: "lease_identity option"
  ptf_child_identity :: lease_identity
  ptf_binding :: transfer_binding
  ptf_envelope :: transfer_envelope
  ptf_bytes :: nat
  ptf_operation :: published_transfer_operation
  ptf_reason :: published_transfer_refusal_reason
  ptf_sequence :: nat

record delegated_lease_close_refusal =
  dcf_identity :: lease_identity
  dcf_logical_path :: string
  dcf_reason :: close_refusal_reason
  dcf_used_bytes :: nat
  dcf_live_children :: nat
  dcf_sequence :: nat

record lease_seal_refusal =
  lsr_root_identity :: "lease_identity option"
  lsr_root_id :: "string option"
  lsr_reason :: seal_refusal_reason
  lsr_used_bytes :: nat
  lsr_active_delegations :: nat
  lsr_release_invariant_violations :: nat
  lsr_seal_sequence :: nat
  lsr_observation_sequence :: nat

text \<open>\<open>LeaseDelegationRefusal::available_bytes\<close> and \<open>DelegatedLeaseRefusal::available_bytes\<close>.\<close>

definition ldr_available_bytes :: "lease_delegation_refusal \<Rightarrow> nat option" where
  "ldr_available_bytes r = (case ldr_limit_bytes r of
     None \<Rightarrow> None | Some limit \<Rightarrow> checked_sub limit (ldr_used_bytes r))"

definition dlr_available_bytes :: "delegated_lease_refusal \<Rightarrow> nat option" where
  "dlr_available_bytes r = checked_sub (dlr_limit_bytes r) (dlr_used_bytes r)"

section \<open>Receipts\<close>

datatype verification_failure = LeaseReceiptVerificationError (failed_check: string)

definition verification_error :: "string \<Rightarrow> verification_failure + unit" where
  "verification_error reason = Inl (LeaseReceiptVerificationError reason)"

record lease_receipt =
  lr_limit_bytes :: "nat option"
  lr_requested_bytes :: nat
  lr_peak_bytes :: nat
  lr_used_bytes :: nat
  lr_refusals :: nat
  lr_release_invariant_violations :: nat
  lr_first_refusal :: "lease_refusal option"

record published_transfer_receipt =
  ptr_schema_version :: nat
  ptr_root_identity :: lease_identity
  ptr_parent_identity :: "lease_identity option"
  ptr_child_identity :: lease_identity
  ptr_binding :: transfer_binding
  ptr_envelope :: transfer_envelope
  ptr_bytes :: nat
  ptr_prepared_sequence :: nat
  ptr_published_sequence :: nat
  ptr_receipt_root :: "u8 list"

record published_transfer_rollback_receipt =
  prr_schema_version :: nat
  prr_root_identity :: lease_identity
  prr_parent_identity :: "lease_identity option"
  prr_child_identity :: lease_identity
  prr_binding :: transfer_binding
  prr_envelope :: transfer_envelope
  prr_bytes :: nat
  prr_prepared_sequence :: nat
  prr_rolled_back_sequence :: nat
  prr_implicit_rollback :: bool
  prr_receipt_root :: "u8 list"

record published_transfer_close_receipt =
  pcr_schema_version :: nat
  pcr_root_identity :: lease_identity
  pcr_parent_identity :: "lease_identity option"
  pcr_child_identity :: lease_identity
  pcr_binding :: transfer_binding
  pcr_envelope :: transfer_envelope
  pcr_bytes :: nat
  pcr_published_receipt_root :: "u8 list"
  pcr_published_sequence :: nat
  pcr_closed_sequence :: nat
  pcr_implicit_close :: bool
  pcr_receipt_root :: "u8 list"

record delegated_lease_close_receipt =
  dcr_schema_version :: nat
  dcr_root_identity :: lease_identity
  dcr_parent_identity :: "lease_identity option"
  dcr_identity :: lease_identity
  dcr_root_id :: string
  dcr_parent_path :: "string option"
  dcr_logical_path :: string
  dcr_capacity_bytes :: nat
  dcr_allocation_granted_bytes :: nat
  dcr_allocation_returned_bytes :: nat
  dcr_allocation_published_bytes :: nat
  dcr_delegated_bytes :: nat
  dcr_returned_delegated_bytes :: nat
  dcr_peak_used_bytes :: nat
  dcr_final_used_bytes :: nat
  dcr_refused_requests :: nat
  dcr_refused_bytes :: nat
  dcr_publication_record_count :: nat
  dcr_published_transfer_count :: nat
  dcr_rolled_back_transfer_count :: nat
  dcr_publication_root :: "u8 list"
  dcr_created_sequence :: nat
  dcr_returned_sequence :: nat
  dcr_implicit_return :: bool
  dcr_receipt_root :: "u8 list"

record sealed_lease_receipt =
  slr_schema_version :: nat
  slr_root_identity :: lease_identity
  slr_root_id :: string
  slr_limit_bytes :: nat
  slr_metadata_limit :: nat
  slr_delegation_count :: nat
  slr_direct_granted_bytes :: nat
  slr_direct_returned_bytes :: nat
  slr_delegated_bytes :: nat
  slr_returned_delegated_bytes :: nat
  slr_child_granted_bytes :: nat
  slr_child_returned_bytes :: nat
  slr_child_published_bytes :: nat
  slr_publication_record_count :: nat
  slr_published_transfer_count :: nat
  slr_rolled_back_transfer_count :: nat
  slr_refused_requests :: nat
  slr_refused_bytes :: nat
  slr_peak_used_bytes :: nat
  slr_final_used_bytes :: nat
  slr_active_delegations :: nat
  slr_release_invariant_violations :: nat
  slr_counter_overflowed :: bool
  slr_seal_sequence :: nat
  slr_close_sequence :: nat
  slr_refusal_root :: "u8 list"
  slr_delegation_root :: "u8 list"
  slr_publication_root :: "u8 list"
  slr_receipt_root :: "u8 list"
  slr_receipt :: lease_receipt

subsection \<open>Receipt roots\<close>

definition ptr_recompute_root :: "published_transfer_receipt \<Rightarrow> u8 list" where
  "ptr_recompute_root r = hash_finish (hash_calls
     [hash_u16 (ptr_schema_version r),
      hash_identity (ptr_root_identity r),
      hash_optional_identity (ptr_parent_identity r),
      hash_identity (ptr_child_identity r),
      hash_published_binding (ptr_binding r),
      hash_published_envelope (ptr_envelope r),
      hash_u64 (ptr_bytes r),
      hash_u128 (ptr_prepared_sequence r),
      hash_u128 (ptr_published_sequence r)]
     (hash_new ''fs-alloc-published-transfer-v1''))"

definition prr_recompute_root :: "published_transfer_rollback_receipt \<Rightarrow> u8 list" where
  "prr_recompute_root r = hash_finish (hash_calls
     [hash_u16 (prr_schema_version r),
      hash_identity (prr_root_identity r),
      hash_optional_identity (prr_parent_identity r),
      hash_identity (prr_child_identity r),
      hash_published_binding (prr_binding r),
      hash_published_envelope (prr_envelope r),
      hash_u64 (prr_bytes r),
      hash_u128 (prr_prepared_sequence r),
      hash_u128 (prr_rolled_back_sequence r),
      hash_boolean (prr_implicit_rollback r)]
     (hash_new ''fs-alloc-published-rollback-v1''))"

definition pcr_recompute_root :: "published_transfer_close_receipt \<Rightarrow> u8 list" where
  "pcr_recompute_root r = hash_finish (hash_calls
     [hash_u16 (pcr_schema_version r),
      hash_identity (pcr_root_identity r),
      hash_optional_identity (pcr_parent_identity r),
      hash_identity (pcr_child_identity r),
      hash_published_binding (pcr_binding r),
      hash_published_envelope (pcr_envelope r),
      hash_u64 (pcr_bytes r),
      hash_bytes (pcr_published_receipt_root r),
      hash_u128 (pcr_published_sequence r),
      hash_u128 (pcr_closed_sequence r),
      hash_boolean (pcr_implicit_close r)]
     (hash_new ''fs-alloc-published-close-v1''))"

definition dcr_recompute_root :: "delegated_lease_close_receipt \<Rightarrow> u8 list" where
  "dcr_recompute_root r = hash_finish (hash_calls
     [hash_u16 (dcr_schema_version r),
      hash_identity (dcr_root_identity r),
      hash_optional_identity (dcr_parent_identity r),
      hash_identity (dcr_identity r),
      hash_text (dcr_root_id r),
      hash_optional_text (dcr_parent_path r),
      hash_text (dcr_logical_path r),
      hash_u64 (dcr_capacity_bytes r),
      hash_u128 (dcr_allocation_granted_bytes r),
      hash_u128 (dcr_allocation_returned_bytes r),
      hash_u128 (dcr_allocation_published_bytes r),
      hash_u128 (dcr_delegated_bytes r),
      hash_u128 (dcr_returned_delegated_bytes r),
      hash_u64 (dcr_peak_used_bytes r),
      hash_u64 (dcr_final_used_bytes r),
      hash_u128 (dcr_refused_requests r),
      hash_u128 (dcr_refused_bytes r),
      hash_usize (dcr_publication_record_count r),
      hash_usize (dcr_published_transfer_count r),
      hash_usize (dcr_rolled_back_transfer_count r),
      hash_bytes (dcr_publication_root r),
      hash_u128 (dcr_created_sequence r),
      hash_u128 (dcr_returned_sequence r),
      hash_boolean (dcr_implicit_return r)]
     (hash_new ''fs-alloc-child-close-v2''))"

definition slr_recompute_root :: "sealed_lease_receipt \<Rightarrow> u8 list" where
  "slr_recompute_root r = hash_finish (hash_calls
     [hash_u16 (slr_schema_version r),
      hash_identity (slr_root_identity r),
      hash_text (slr_root_id r),
      hash_u64 (slr_limit_bytes r),
      hash_usize (slr_metadata_limit r),
      hash_usize (slr_delegation_count r),
      hash_u128 (slr_direct_granted_bytes r),
      hash_u128 (slr_direct_returned_bytes r),
      hash_u128 (slr_delegated_bytes r),
      hash_u128 (slr_returned_delegated_bytes r),
      hash_u128 (slr_child_granted_bytes r),
      hash_u128 (slr_child_returned_bytes r),
      hash_u128 (slr_child_published_bytes r),
      hash_usize (slr_publication_record_count r),
      hash_usize (slr_published_transfer_count r),
      hash_usize (slr_rolled_back_transfer_count r),
      hash_u128 (slr_refused_requests r),
      hash_u128 (slr_refused_bytes r),
      hash_u64 (slr_peak_used_bytes r),
      hash_u64 (slr_final_used_bytes r),
      hash_u64 (slr_active_delegations r),
      hash_u128 (slr_release_invariant_violations r),
      hash_boolean (slr_counter_overflowed r),
      hash_u128 (slr_seal_sequence r),
      hash_u128 (slr_close_sequence r),
      hash_bytes (slr_refusal_root r),
      hash_bytes (slr_delegation_root r),
      hash_bytes (slr_publication_root r)]
     (hash_new ''fs-alloc-root-close-v2''))"

subsection \<open>Verification\<close>

text \<open>\<open>identity_related\<close>: the staging child of a receipt descends directly from its parent, or
  from the root when it has none (the third check of three of the procedures).\<close>

definition identity_related :: "lease_identity \<Rightarrow> lease_identity option \<Rightarrow> lease_identity \<Rightarrow> bool" where
  "identity_related root parent child \<longleftrightarrow>
     is_root root
     \<and> \<not> (parent = None \<and> \<not> is_direct_child_of child root)
     \<and> \<not> (case parent of None \<Rightarrow> False | Some p \<Rightarrow> \<not> is_direct_child_of child p)"

definition ptr_verify_for :: "published_transfer_receipt \<Rightarrow> lease_identity \<Rightarrow> lease_identity option
    \<Rightarrow> lease_identity \<Rightarrow> transfer_binding \<Rightarrow> transfer_envelope \<Rightarrow> verification_failure + unit" where
  "ptr_verify_for r root parent child bind env =
    (if ptr_schema_version r \<noteq> PUBLISHED_TRANSFER_RECEIPT_SCHEMA_VERSION
     then verification_error ''schema_version''
     else if ptr_root_identity r \<noteq> root \<or> ptr_parent_identity r \<noteq> parent
       \<or> ptr_child_identity r \<noteq> child \<or> ptr_binding r \<noteq> bind \<or> ptr_envelope r \<noteq> env
     then verification_error ''identity''
     else if \<not> identity_related (ptr_root_identity r) (ptr_parent_identity r) (ptr_child_identity r)
     then verification_error ''identity_relationship''
     else if ptr_bytes r = 0 then verification_error ''zero_bytes''
     else if total_bytes (ptr_envelope r) \<noteq> Some (ptr_bytes r) then verification_error ''envelope''
     else if ptr_published_sequence r \<le> ptr_prepared_sequence r then verification_error ''sequence''
     else if ptr_recompute_root r \<noteq> ptr_receipt_root r then verification_error ''receipt_root''
     else Inr ())"

definition prr_verify_for :: "published_transfer_rollback_receipt \<Rightarrow> lease_identity
    \<Rightarrow> lease_identity option \<Rightarrow> lease_identity \<Rightarrow> transfer_binding \<Rightarrow> transfer_envelope
    \<Rightarrow> verification_failure + unit" where
  "prr_verify_for r root parent child bind env =
    (if prr_schema_version r \<noteq> PUBLISHED_TRANSFER_RECEIPT_SCHEMA_VERSION
     then verification_error ''schema_version''
     else if prr_root_identity r \<noteq> root \<or> prr_parent_identity r \<noteq> parent
       \<or> prr_child_identity r \<noteq> child \<or> prr_binding r \<noteq> bind \<or> prr_envelope r \<noteq> env
     then verification_error ''identity''
     else if \<not> identity_related (prr_root_identity r) (prr_parent_identity r) (prr_child_identity r)
     then verification_error ''identity_relationship''
     else if prr_bytes r = 0 then verification_error ''zero_bytes''
     else if total_bytes (prr_envelope r) \<noteq> Some (prr_bytes r) then verification_error ''envelope''
     else if prr_rolled_back_sequence r \<le> prr_prepared_sequence r then verification_error ''sequence''
     else if prr_recompute_root r \<noteq> prr_receipt_root r then verification_error ''receipt_root''
     else Inr ())"

definition pcr_verify_for :: "published_transfer_close_receipt \<Rightarrow> published_transfer_receipt
    \<Rightarrow> verification_failure + unit" where
  "pcr_verify_for r published =
    (case ptr_verify_for published (ptr_root_identity published) (ptr_parent_identity published)
        (ptr_child_identity published) (ptr_binding published) (ptr_envelope published) of
       Inl e \<Rightarrow> Inl e
     | Inr _ \<Rightarrow>
       if pcr_schema_version r \<noteq> PUBLISHED_TRANSFER_RECEIPT_SCHEMA_VERSION
       then verification_error ''schema_version''
       else if pcr_root_identity r \<noteq> ptr_root_identity published
         \<or> pcr_parent_identity r \<noteq> ptr_parent_identity published
         \<or> pcr_child_identity r \<noteq> ptr_child_identity published
         \<or> pcr_binding r \<noteq> ptr_binding published
         \<or> pcr_envelope r \<noteq> ptr_envelope published
         \<or> pcr_bytes r \<noteq> ptr_bytes published
         \<or> pcr_published_receipt_root r \<noteq> ptr_receipt_root published
       then verification_error ''identity''
       else if pcr_published_sequence r \<noteq> ptr_published_sequence published
         \<or> pcr_closed_sequence r \<le> pcr_published_sequence r
       then verification_error ''sequence''
       else if pcr_recompute_root r \<noteq> pcr_receipt_root r then verification_error ''receipt_root''
       else Inr ())"

definition dcr_verify_for :: "delegated_lease_close_receipt \<Rightarrow> lease_identity
    \<Rightarrow> lease_identity option \<Rightarrow> lease_identity \<Rightarrow> verification_failure + unit" where
  "dcr_verify_for r root parent child =
    (if dcr_schema_version r \<noteq> VERIFIED_RECEIPT_SCHEMA_VERSION
     then verification_error ''schema_version''
     else if dcr_root_identity r \<noteq> root \<or> dcr_parent_identity r \<noteq> parent \<or> dcr_identity r \<noteq> child
     then verification_error ''identity''
     else if root_subject (dcr_identity r) \<noteq> root_subject (dcr_root_identity r)
       \<or> id_domain (dcr_identity r) \<noteq> id_domain (dcr_root_identity r)
       \<or> \<not> identity_related (dcr_root_identity r) (dcr_parent_identity r) (dcr_identity r)
     then verification_error ''identity_relationship''
     else if dcr_final_used_bytes r \<noteq> 0 then verification_error ''live_capacity''
     else if checked_add u128_max (dcr_allocation_returned_bytes r) (dcr_allocation_published_bytes r)
         \<noteq> Some (dcr_allocation_granted_bytes r)
       \<or> dcr_delegated_bytes r \<noteq> dcr_returned_delegated_bytes r
     then verification_error ''conservation''
     else if checked_add u64_max (dcr_published_transfer_count r) (dcr_rolled_back_transfer_count r)
         \<noteq> Some (dcr_publication_record_count r)
     then verification_error ''publication_count''
     else if dcr_allocation_published_bytes r = 0 \<and> dcr_published_transfer_count r \<noteq> 0
       \<or> dcr_allocation_published_bytes r \<noteq> 0 \<and> dcr_published_transfer_count r = 0
     then verification_error ''publication_count''
     else if dcr_capacity_bytes r < dcr_peak_used_bytes r then verification_error ''peak''
     else if dcr_returned_sequence r \<le> dcr_created_sequence r then verification_error ''sequence''
     else if dcr_recompute_root r \<noteq> dcr_receipt_root r then verification_error ''receipt_root''
     else Inr ())"

definition slr_verify_for :: "sealed_lease_receipt \<Rightarrow> lease_identity \<Rightarrow> verification_failure + unit" where
  "slr_verify_for r root =
    (if slr_schema_version r \<noteq> VERIFIED_RECEIPT_SCHEMA_VERSION
     then verification_error ''schema_version''
     else if slr_root_identity r \<noteq> root \<or> \<not> is_root (slr_root_identity r)
     then verification_error ''identity''
     else if slr_final_used_bytes r \<noteq> 0 \<or> slr_active_delegations r \<noteq> 0
     then verification_error ''live_capacity''
     else if slr_direct_granted_bytes r \<noteq> slr_direct_returned_bytes r
       \<or> slr_delegated_bytes r \<noteq> slr_returned_delegated_bytes r
       \<or> checked_add u128_max (slr_child_returned_bytes r) (slr_child_published_bytes r)
           \<noteq> Some (slr_child_granted_bytes r)
     then verification_error ''conservation''
     else if checked_add u64_max (slr_published_transfer_count r) (slr_rolled_back_transfer_count r)
         \<noteq> Some (slr_publication_record_count r)
     then verification_error ''publication_count''
     else if slr_child_published_bytes r = 0 \<and> slr_published_transfer_count r \<noteq> 0
       \<or> slr_child_published_bytes r \<noteq> 0 \<and> slr_published_transfer_count r = 0
     then verification_error ''publication_count''
     else if slr_release_invariant_violations r \<noteq> 0 then verification_error ''release_invariant''
     else if slr_counter_overflowed r then verification_error ''counter_overflow''
     else if slr_limit_bytes r < slr_peak_used_bytes r then verification_error ''peak''
     else if slr_metadata_limit r < slr_delegation_count r
       \<or> slr_metadata_limit r < slr_publication_record_count r
     then verification_error ''metadata_limit''
     else if slr_close_sequence r < slr_seal_sequence r then verification_error ''sequence''
     else if slr_recompute_root r \<noteq> slr_receipt_root r then verification_error ''receipt_root''
     else Inr ())"

end
