(* ===== verification/Lease_Ledger.thy ===== *)
theory Lease_Ledger
  imports Lease_State
begin

text \<open>
  The root ledger of the memory lease (\<open>LeaseState\<close> in \<open>crates/fs-alloc/src/lease.rs\<close>), its
  delegation and publication records, the digests over them, and the bookkeeping that every
  transition performs: drawing the next sequence number, counting an invariant violation and
  recording a refusal. The simplification rules say which fields each of these touches.
\<close>

datatype delegation_disposition = Live | Returned

datatype publication_disposition = Prepared | Published | RolledBack

record publication_record =
  pub_parent_identity :: "lease_identity option"
  pub_child_identity :: lease_identity
  pub_binding :: transfer_binding
  pub_envelope :: transfer_envelope
  pub_bytes :: nat
  pub_prepared_sequence :: nat
  pub_resolved_sequence :: "nat option"
  pub_disposition :: publication_disposition
  pub_implicit_rollback :: bool
  pub_published_receipt_root :: "u8 list option"
  pub_destination_closed_sequence :: "nat option"
  pub_implicit_destination_close :: bool
  pub_destination_close_root :: "u8 list option"

record delegation_record =
  dr_parent_identity :: "lease_identity option"
  dr_identity :: lease_identity
  dr_parent_path :: "string option"
  dr_logical_path :: string
  dr_capacity_bytes :: nat
  dr_used_bytes :: nat
  dr_peak_used_bytes :: nat
  dr_allocation_granted_bytes :: nat
  dr_allocation_returned_bytes :: nat
  dr_allocation_published_bytes :: nat
  dr_delegated_bytes :: nat
  dr_returned_delegated_bytes :: nat
  dr_refused_requests :: nat
  dr_refused_bytes :: nat
  dr_live_children :: nat
  dr_created_sequence :: nat
  dr_returned_sequence :: "nat option"
  dr_implicit_return :: bool
  dr_close_root :: "u8 list option"
  dr_disposition :: delegation_disposition

record lease_state =
  used_bytes :: nat
  peak_bytes :: nat
  requested_bytes :: nat
  refusals :: nat
  release_invariant_violations :: nat
  first_refusal :: "lease_refusal option"
  sequence :: nat
  counter_overflowed :: bool
  sealed :: bool
  seal_sequence :: "nat option"
  terminal_receipt :: "sealed_lease_receipt option"
  root_identity :: "lease_identity option"
  root_id :: "string option"
  metadata_limit :: nat
  delegations :: "delegation_record list"
  publications :: "publication_record list"
  direct_granted_bytes :: nat
  direct_returned_bytes :: nat
  delegated_bytes :: nat
  returned_delegated_bytes :: nat
  child_granted_bytes :: nat
  child_returned_bytes :: nat
  child_published_bytes :: nat
  semantic_refusals :: nat
  semantic_refused_bytes :: nat
  refusal_root :: "u8 list"
  post_terminal_refusals :: nat

definition lease_state_new :: lease_state where
  "lease_state_new = \<lparr>
     used_bytes = 0, peak_bytes = 0, requested_bytes = 0, refusals = 0,
     release_invariant_violations = 0, first_refusal = None, sequence = 0,
     counter_overflowed = False, sealed = False, seal_sequence = None, terminal_receipt = None,
     root_identity = None, root_id = None, metadata_limit = 0, delegations = [],
     publications = [], direct_granted_bytes = 0, direct_returned_bytes = 0,
     delegated_bytes = 0, returned_delegated_bytes = 0, child_granted_bytes = 0,
     child_returned_bytes = 0, child_published_bytes = 0, semantic_refusals = 0,
     semantic_refused_bytes = 0,
     refusal_root = hash_finish (hash_new ''fs-alloc-refusals-v1''),
     post_terminal_refusals = 0 \<rparr>"

section \<open>Looking records up\<close>

text \<open>\<open>delegations.iter().position(|record| record.identity == identity)\<close> and the \<open>find\<close> that
  returns the record instead.\<close>

definition delegation_index :: "lease_state \<Rightarrow> lease_identity \<Rightarrow> nat option" where
  "delegation_index state identity = position (\<lambda>r. dr_identity r = identity) (delegations state)"

definition find_delegation :: "lease_state \<Rightarrow> lease_identity \<Rightarrow> delegation_record option" where
  "find_delegation state identity = find (\<lambda>r. dr_identity r = identity) (delegations state)"

definition update_delegation ::
  "nat \<Rightarrow> (delegation_record \<Rightarrow> delegation_record) \<Rightarrow> lease_state \<Rightarrow> lease_state" where
  "update_delegation index f state =
     state\<lparr>delegations := (delegations state)[index := f (delegations state ! index)]\<rparr>"

definition update_publication ::
  "nat \<Rightarrow> (publication_record \<Rightarrow> publication_record) \<Rightarrow> lease_state \<Rightarrow> lease_state" where
  "update_publication index f state =
     state\<lparr>publications := (publications state)[index := f (publications state ! index)]\<rparr>"

section \<open>Shared bookkeeping\<close>

definition next_sequence :: "lease_state \<Rightarrow> nat \<times> lease_state" where
  "next_sequence state = (case checked_add u128_max (sequence state) 1 of
     Some n \<Rightarrow> (n, state\<lparr>sequence := n\<rparr>)
   | None \<Rightarrow> (u128_max, state\<lparr>counter_overflowed := True\<rparr>))"

definition increment_invariant_violation :: "lease_state \<Rightarrow> lease_state" where
  "increment_invariant_violation state =
    (case checked_add u128_max (release_invariant_violations state) 1 of
       Some n \<Rightarrow> state\<lparr>release_invariant_violations := n\<rparr>
     | None \<Rightarrow> state\<lparr>counter_overflowed := True\<rparr>)"

definition record_semantic_refusal :: "string \<Rightarrow> lease_identity option \<Rightarrow> string \<Rightarrow> nat option
    \<Rightarrow> nat \<Rightarrow> nat \<Rightarrow> nat \<Rightarrow> lease_state \<Rightarrow> lease_state" where
  "record_semantic_refusal reason identity site requested observed_used observed_auxiliary sequence_no state =
    (if terminal_receipt state \<noteq> None
     then (case checked_add u128_max (post_terminal_refusals state) 1 of
             Some n \<Rightarrow> state\<lparr>post_terminal_refusals := n\<rparr>
           | None \<Rightarrow> state\<lparr>counter_overflowed := True\<rparr>)
     else
       let state = (case checked_add u128_max (semantic_refusals state) 1 of
                      Some n \<Rightarrow> state\<lparr>semantic_refusals := n\<rparr>
                    | None \<Rightarrow> state\<lparr>counter_overflowed := True\<rparr>);
           state = (case requested of
                      None \<Rightarrow> state
                    | Some bytes \<Rightarrow>
                        (case checked_add u128_max (semantic_refused_bytes state) bytes of
                           Some n \<Rightarrow> state\<lparr>semantic_refused_bytes := n\<rparr>
                         | None \<Rightarrow> state\<lparr>counter_overflowed := True\<rparr>));
           hash = hash_calls
             ([hash_bytes (refusal_root state), hash_text reason, hash_optional_identity identity,
               hash_text site]
              @ (case requested of
                   Some bytes \<Rightarrow> [hash_boolean True, hash_u64 bytes]
                 | None \<Rightarrow> [hash_boolean False])
              @ [hash_u64 observed_used, hash_u64 observed_auxiliary, hash_u128 sequence_no])
             (hash_new ''fs-alloc-refusal-event-v1'')
       in state\<lparr>refusal_root := hash_finish hash\<rparr>)"

definition record_root_refusal :: "nat option \<Rightarrow> string \<Rightarrow> nat \<Rightarrow> nat \<Rightarrow> lease_refusal_reason \<Rightarrow> nat
    \<Rightarrow> lease_state \<Rightarrow> lease_refusal \<times> lease_state" where
  "record_root_refusal limit_bytes what bytes used reason sequence_no state =
    (let refusal = \<lparr>lrf_what = what, lrf_requested_bytes = bytes, lrf_used_bytes = used,
           lrf_limit_bytes = (case limit_bytes of Some l \<Rightarrow> l | None \<Rightarrow> u64_max),
           lrf_reason = reason, lrf_sequence = sequence_no\<rparr>;
         s1 = (case checked_add u128_max (refusals state) 1 of
                 Some n \<Rightarrow> state\<lparr>refusals := n\<rparr>
               | None \<Rightarrow> state\<lparr>counter_overflowed := True\<rparr>);
         s2 = (if first_refusal s1 = None then s1\<lparr>first_refusal := Some refusal\<rparr> else s1)
     in (refusal,
         record_semantic_refusal (reason_code_root_reservation reason) (root_identity state) what
           (Some bytes) used (case limit_bytes of Some l \<Rightarrow> l | None \<Rightarrow> u64_max) sequence_no s2))"

definition record_published_transfer_refusal :: "lease_identity \<Rightarrow> lease_identity option
    \<Rightarrow> lease_identity \<Rightarrow> transfer_binding \<Rightarrow> transfer_envelope \<Rightarrow> nat \<Rightarrow> published_transfer_operation
    \<Rightarrow> published_transfer_refusal_reason \<Rightarrow> nat \<Rightarrow> lease_state
    \<Rightarrow> published_transfer_refusal \<times> lease_state" where
  "record_published_transfer_refusal root parent child bind env bytes operation reason sequence_no state =
    (let observed_used = (case find_delegation state child of None \<Rightarrow> 0 | Some r \<Rightarrow> dr_used_bytes r);
         publication_count = length (publications state);
         state = record_semantic_refusal (reason_code_published_transfer reason) (Some child)
           (operation_code_published_transfer operation) (Some bytes) observed_used
           publication_count sequence_no state
     in (\<lparr>ptf_root_identity = root, ptf_parent_identity = parent, ptf_child_identity = child,
          ptf_binding = bind, ptf_envelope = env, ptf_bytes = bytes, ptf_operation = operation,
          ptf_reason = reason, ptf_sequence = sequence_no\<rparr>, state))"

text \<open>
  The per-child refusal counters, which \<open>delegate_from\<close> and \<open>reserve_delegated_charge\<close> advance
  together or not at all.
\<close>

definition count_child_refusal :: "nat \<Rightarrow> nat \<Rightarrow> lease_state \<Rightarrow> lease_state" where
  "count_child_refusal index bytes state =
    (let record = delegations state ! index
     in case (checked_add u128_max (dr_refused_requests record) 1,
              checked_add u128_max (dr_refused_bytes record) bytes) of
          (Some requests, Some refused) \<Rightarrow>
            update_delegation index
              (\<lambda>r. r\<lparr>dr_refused_requests := requests, dr_refused_bytes := refused\<rparr>) state
        | _ \<Rightarrow> state\<lparr>counter_overflowed := True\<rparr>)"

definition count_live_delegations :: "lease_state \<Rightarrow> nat" where
  "count_live_delegations state = length (filter (\<lambda>r. dr_disposition r = Live) (delegations state))"

definition active_delegations :: "lease_state \<Rightarrow> nat" where
  "active_delegations state = length (filter (\<lambda>r. dr_disposition r = Live) (delegations state))"

definition lease_receipt_locked :: "nat option \<Rightarrow> lease_state \<Rightarrow> lease_receipt" where
  "lease_receipt_locked limit_bytes state =
    \<lparr>lr_limit_bytes = limit_bytes, lr_requested_bytes = requested_bytes state,
     lr_peak_bytes = peak_bytes state, lr_used_bytes = used_bytes state,
     lr_refusals = refusals state,
     lr_release_invariant_violations = release_invariant_violations state,
     lr_first_refusal = first_refusal state\<rparr>"

section \<open>Digests over the records\<close>

definition delegation_record_calls :: "delegation_record \<Rightarrow> (lanes \<Rightarrow> lanes) list" where
  "delegation_record_calls r =
     [hash_optional_identity (dr_parent_identity r), hash_identity (dr_identity r),
      hash_optional_text (dr_parent_path r), hash_text (dr_logical_path r),
      hash_u64 (dr_capacity_bytes r), hash_u64 (dr_peak_used_bytes r),
      hash_u128 (dr_allocation_granted_bytes r), hash_u128 (dr_allocation_returned_bytes r),
      hash_u128 (dr_allocation_published_bytes r), hash_u128 (dr_delegated_bytes r),
      hash_u128 (dr_returned_delegated_bytes r), hash_u128 (dr_refused_requests r),
      hash_u128 (dr_refused_bytes r), hash_u128 (dr_created_sequence r),
      hash_u128 (case dr_returned_sequence r of Some n \<Rightarrow> n | None \<Rightarrow> 0),
      hash_boolean (dr_implicit_return r),
      hash_bytes (case dr_close_root r of Some h \<Rightarrow> h | None \<Rightarrow> replicate 32 0)]"

definition delegation_root :: "delegation_record list \<Rightarrow> u8 list" where
  "delegation_root records = hash_finish (hash_calls
     (hash_usize (length records) # concat (map delegation_record_calls records))
     (hash_new ''fs-alloc-delegation-ledger-v2''))"

definition disposition_code :: "publication_disposition \<Rightarrow> nat" where
  "disposition_code d = (case d of Prepared \<Rightarrow> 0 | Published \<Rightarrow> 1 | RolledBack \<Rightarrow> 2)"

definition publication_record_calls :: "publication_record \<Rightarrow> (lanes \<Rightarrow> lanes) list" where
  "publication_record_calls r =
     [hash_optional_identity (pub_parent_identity r), hash_identity (pub_child_identity r),
      hash_published_binding (pub_binding r), hash_published_envelope (pub_envelope r),
      hash_u64 (pub_bytes r), hash_u128 (pub_prepared_sequence r),
      hash_u128 (case pub_resolved_sequence r of Some n \<Rightarrow> n | None \<Rightarrow> 0),
      hash_u16 (disposition_code (pub_disposition r)),
      hash_boolean (pub_implicit_rollback r),
      hash_bytes (case pub_published_receipt_root r of Some h \<Rightarrow> h | None \<Rightarrow> replicate 32 0)]"

definition publication_root_filtered ::
  "publication_record list \<Rightarrow> lease_identity option \<Rightarrow> u8 list" where
  "publication_root_filtered records child =
    (let kept = filter (\<lambda>r. case child of None \<Rightarrow> True | Some i \<Rightarrow> pub_child_identity r = i) records
     in hash_finish (hash_calls
          (hash_usize (length kept) # concat (map publication_record_calls kept))
          (hash_new ''fs-alloc-publication-ledger-v1'')))"

definition publication_root :: "publication_record list \<Rightarrow> u8 list" where
  "publication_root records = publication_root_filtered records None"

definition publication_root_for_child :: "publication_record list \<Rightarrow> lease_identity \<Rightarrow> u8 list" where
  "publication_root_for_child records child = publication_root_filtered records (Some child)"

text \<open>The key by which publications are sorted before they are digested.\<close>

definition publication_key ::
  "publication_record \<Rightarrow> transfer_binding \<times> lease_identity \<times> nat" where
  "publication_key r = (pub_binding r, pub_child_identity r, pub_prepared_sequence r)"

section \<open>Which fields the bookkeeping touches\<close>

lemmas bookkeeping_defs = next_sequence_def increment_invariant_violation_def
  record_semantic_refusal_def Let_def

text \<open>Two states that agree on everything but sequence numbers, refusal and violation counters.\<close>

definition same_accounts :: "lease_state \<Rightarrow> lease_state \<Rightarrow> bool" where
  "same_accounts s t \<longleftrightarrow>
     used_bytes t = used_bytes s \<and> peak_bytes t = peak_bytes s
     \<and> requested_bytes t = requested_bytes s
     \<and> sealed t = sealed s \<and> seal_sequence t = seal_sequence s
     \<and> terminal_receipt t = terminal_receipt s \<and> root_identity t = root_identity s
     \<and> root_id t = root_id s \<and> metadata_limit t = metadata_limit s
     \<and> publications t = publications s
     \<and> direct_granted_bytes t = direct_granted_bytes s
     \<and> direct_returned_bytes t = direct_returned_bytes s
     \<and> delegated_bytes t = delegated_bytes s
     \<and> returned_delegated_bytes t = returned_delegated_bytes s
     \<and> child_granted_bytes t = child_granted_bytes s
     \<and> child_returned_bytes t = child_returned_bytes s
     \<and> child_published_bytes t = child_published_bytes s
     \<and> sequence s \<le> sequence t \<and> (counter_overflowed s \<longrightarrow> counter_overflowed t)"

text \<open>... and on the delegation records as well.\<close>

definition same_ledger :: "lease_state \<Rightarrow> lease_state \<Rightarrow> bool" where
  "same_ledger s t \<longleftrightarrow> same_accounts s t \<and> delegations t = delegations s"

lemma same_ledger_refl [simp]: "same_ledger s s"
  by (simp add: same_ledger_def same_accounts_def)

lemma same_ledger_trans [trans]: "same_ledger s t \<Longrightarrow> same_ledger t u \<Longrightarrow> same_ledger s u"
  by (auto simp: same_ledger_def same_accounts_def)

lemma next_sequence_ledger: "next_sequence s = (n, t) \<Longrightarrow> same_ledger s t"
  by (auto simp: bookkeeping_defs same_ledger_def same_accounts_def split: option.splits)

lemma next_sequence_violations:
  "next_sequence s = (n, t) \<Longrightarrow> release_invariant_violations t = release_invariant_violations s"
  by (auto simp: bookkeeping_defs split: option.splits)

lemma next_sequence_fresh:
  "next_sequence s = (n, t) \<Longrightarrow> sequence s \<le> u128_max \<Longrightarrow>
   n \<le> u128_max \<and> sequence t \<le> n \<and> sequence s \<le> n \<and>
   (\<not> counter_overflowed t \<longrightarrow> n = sequence t \<and> sequence t = sequence s + 1)"
  by (auto simp: bookkeeping_defs split: option.splits)

lemma increment_invariant_violation_ledger [simp]: "same_ledger s (increment_invariant_violation s)"
  by (auto simp: bookkeeping_defs same_ledger_def same_accounts_def split: option.splits)

lemma record_semantic_refusal_ledger [simp]:
  "same_ledger s (record_semantic_refusal reason i site req used aux q s)"
  by (auto simp: bookkeeping_defs same_ledger_def same_accounts_def split: option.splits)

lemma record_semantic_refusal_violations [simp]:
  "release_invariant_violations (record_semantic_refusal reason i site req used aux q s) =
   release_invariant_violations s"
  by (auto simp: bookkeeping_defs split: option.splits)

end
