(* ===== verification/Lease_Root.thy ===== *)
theory Lease_Root
  imports Lease_Ledger
begin

text \<open>
  The root handle of the memory lease (\<open>OperationMemoryLease\<close> in
  \<open>crates/fs-alloc/src/lease.rs\<close>): enabling delegation, reserving and releasing direct bytes,
  the admission hint, and the seal.

  Every transition is a function of the lease's limit (\<open>None\<close> for an unbounded lease) and the
  state behind the mutex; a transition is atomic because the source holds the lock throughout.
\<close>

definition enable_delegation_reason ::
  "nat option \<Rightarrow> lease_identity \<Rightarrow> string \<Rightarrow> nat \<Rightarrow> lease_state \<Rightarrow> configuration_refusal_reason option" where
  "enable_delegation_reason limit_bytes root root_name limit state =
    (if limit_bytes = None then Some Config_UnboundedRoot
     else if sealed state then Some Config_Sealed
     else if root_identity state \<noteq> None then Some Config_AlreadyConfigured
     else if used_bytes state \<noteq> 0 \<or> requested_bytes state \<noteq> 0 \<or> refusals state \<noteq> 0
       \<or> release_invariant_violations state \<noteq> 0
     then Some Config_NotPristine
     else if \<not> is_root root \<or> \<not> valid_root_id root_name then Some Config_InvalidRootIdentity
     else if limit = 0 \<or> MAX_DELEGATION_RECORDS < limit then Some Config_MetadataLimit
     else None)"

text \<open>\<open>alloc_ok\<close> is the allocator's answer to the two \<open>try_reserve_exact\<close> calls.\<close>

definition enable_delegation :: "nat option \<Rightarrow> bool \<Rightarrow> lease_identity \<Rightarrow> string \<Rightarrow> nat \<Rightarrow> lease_state
    \<Rightarrow> (lease_configuration_refusal, unit) outcome \<times> lease_state" where
  "enable_delegation limit_bytes alloc_ok root root_name limit state =
    (case next_sequence state of (seq, state) \<Rightarrow>
     let refuse = (\<lambda>reason.
           (Err \<lparr>lcr_root_identity = root, lcr_root_id = root_name, lcr_reason = reason,
                 lcr_sequence = seq\<rparr>,
            record_semantic_refusal (reason_code_configuration reason) (Some root) root_name None
              0 0 seq state))
     in case enable_delegation_reason limit_bytes root root_name limit state of
          Some reason \<Rightarrow> refuse reason
        | None \<Rightarrow>
            if \<not> alloc_ok then refuse Config_MetadataAllocation
            else (Ok (), state\<lparr>root_identity := Some root, root_id := Some root_name,
                               metadata_limit := limit\<rparr>))"

definition reserve_reason :: "nat option \<Rightarrow> nat \<Rightarrow> lease_state \<Rightarrow> lease_refusal_reason option" where
  "reserve_reason limit_bytes bytes state =
    (if sealed state then Some Root_Sealed
     else if counter_overflowed state
       \<or> checked_add u128_max (requested_bytes state) bytes = None
       \<or> (root_id state \<noteq> None \<and> checked_add u128_max (direct_granted_bytes state) bytes = None)
     then Some Root_CounterOverflow
     else if (case checked_add u64_max (used_bytes state) bytes of
                None \<Rightarrow> True
              | Some next \<Rightarrow> (case limit_bytes of None \<Rightarrow> False | Some limit \<Rightarrow> limit < next))
     then Some Root_Capacity
     else None)"

text \<open>A granted charge is represented by its byte count (\<open>LeaseCharge\<close>).\<close>

definition reserve :: "nat option \<Rightarrow> string \<Rightarrow> nat \<Rightarrow> lease_state
    \<Rightarrow> (lease_refusal, nat) outcome \<times> lease_state" where
  "reserve limit_bytes what bytes state =
    (case next_sequence state of (seq, state) \<Rightarrow>
     let used = used_bytes state
     in case reserve_reason limit_bytes bytes state of
          Some reason \<Rightarrow>
            let state = (if reason = Root_CounterOverflow then state\<lparr>counter_overflowed := True\<rparr>
                         else state)
            in (case record_root_refusal limit_bytes what bytes used reason seq state of
                  (refusal, state) \<Rightarrow> (Err refusal, state))
        | None \<Rightarrow>
            let state = state\<lparr>used_bytes := used_bytes state + bytes\<rparr>;
                state = state\<lparr>peak_bytes := max (peak_bytes state) (used_bytes state)\<rparr>;
                state = state\<lparr>requested_bytes := requested_bytes state + bytes\<rparr>;
                state = (if root_id state \<noteq> None
                         then state\<lparr>direct_granted_bytes := direct_granted_bytes state + bytes\<rparr>
                         else state)
            in (Ok bytes, state))"

definition can_reserve_now :: "nat option \<Rightarrow> nat \<Rightarrow> lease_state \<Rightarrow> bool" where
  "can_reserve_now limit_bytes bytes state \<longleftrightarrow>
     \<not> sealed state \<and> \<not> counter_overflowed state
     \<and> (case checked_add u64_max (used_bytes state) bytes of
          None \<Rightarrow> False
        | Some next \<Rightarrow> (case limit_bytes of None \<Rightarrow> True | Some limit \<Rightarrow> next \<le> limit))"

definition release_raw :: "nat \<Rightarrow> lease_state \<Rightarrow> bool \<times> lease_state" where
  "release_raw bytes state =
    (case next_sequence state of (_, state) \<Rightarrow>
     case checked_sub (used_bytes state) bytes of
       None \<Rightarrow> (False, increment_invariant_violation state)
     | Some next_used \<Rightarrow>
         if root_id state \<noteq> None
         then (case checked_add u128_max (direct_returned_bytes state) bytes of
                 None \<Rightarrow> (False, increment_invariant_violation (state\<lparr>counter_overflowed := True\<rparr>))
               | Some next_returned \<Rightarrow>
                   (True, state\<lparr>used_bytes := next_used, direct_returned_bytes := next_returned\<rparr>))
         else (True, state\<lparr>used_bytes := next_used\<rparr>))"

text \<open>\<open>LeaseCharge::drop\<close>.\<close>

definition drop_charge :: "nat \<Rightarrow> lease_state \<Rightarrow> lease_state" where
  "drop_charge bytes state = (if 0 < bytes then snd (release_raw bytes state) else state)"

section \<open>The seal\<close>

definition record_settled :: "delegation_record \<Rightarrow> bool" where
  "record_settled r \<longleftrightarrow>
     \<not> (dr_disposition r \<noteq> Returned \<or> dr_used_bytes r \<noteq> 0 \<or> dr_live_children r \<noteq> 0
        \<or> checked_add u128_max (dr_allocation_returned_bytes r) (dr_allocation_published_bytes r)
            \<noteq> Some (dr_allocation_granted_bytes r)
        \<or> dr_delegated_bytes r \<noteq> dr_returned_delegated_bytes r)"

definition seal_reason :: "nat option \<Rightarrow> lease_state \<Rightarrow> seal_refusal_reason option" where
  "seal_reason limit_bytes state =
    (if root_identity state = None \<or> root_id state = None \<or> limit_bytes = None
     then Some Seal_UnverifiedRoot
     else if counter_overflowed state then Some Seal_CounterOverflow
     else if release_invariant_violations state \<noteq> 0 then Some Seal_ReleaseInvariant
     else if used_bytes state \<noteq> 0 \<or> count_live_delegations state \<noteq> 0 then Some Seal_LiveCapacity
     else if direct_granted_bytes state \<noteq> direct_returned_bytes state
       \<or> delegated_bytes state \<noteq> returned_delegated_bytes state
       \<or> checked_add u128_max (child_returned_bytes state) (child_published_bytes state)
           \<noteq> Some (child_granted_bytes state)
       \<or> (\<exists>r\<in>set (delegations state). \<not> record_settled r)
       \<or> (\<exists>r\<in>set (publications state). pub_disposition r = Prepared)
     then Some Seal_ConservationMismatch
     else None)"

definition terminal_of :: "nat option \<Rightarrow> nat \<Rightarrow> nat \<Rightarrow> lease_state \<Rightarrow> sealed_lease_receipt" where
  "terminal_of limit_bytes seal_seq observation_seq state = \<lparr>
     slr_schema_version = VERIFIED_RECEIPT_SCHEMA_VERSION,
     slr_root_identity = the (root_identity state),
     slr_root_id = the (root_id state),
     slr_limit_bytes = the limit_bytes,
     slr_metadata_limit = metadata_limit state,
     slr_delegation_count = length (delegations state),
     slr_direct_granted_bytes = direct_granted_bytes state,
     slr_direct_returned_bytes = direct_returned_bytes state,
     slr_delegated_bytes = delegated_bytes state,
     slr_returned_delegated_bytes = returned_delegated_bytes state,
     slr_child_granted_bytes = child_granted_bytes state,
     slr_child_returned_bytes = child_returned_bytes state,
     slr_child_published_bytes = child_published_bytes state,
     slr_publication_record_count = length (publications state),
     slr_published_transfer_count =
       length (filter (\<lambda>r. pub_disposition r = Published) (publications state)),
     slr_rolled_back_transfer_count =
       length (filter (\<lambda>r. pub_disposition r = RolledBack) (publications state)),
     slr_refused_requests = semantic_refusals state,
     slr_refused_bytes = semantic_refused_bytes state,
     slr_peak_used_bytes = peak_bytes state,
     slr_final_used_bytes = used_bytes state,
     slr_active_delegations = 0,
     slr_release_invariant_violations = release_invariant_violations state,
     slr_counter_overflowed = counter_overflowed state,
     slr_seal_sequence = seal_seq,
     slr_close_sequence = observation_seq,
     slr_refusal_root = refusal_root state,
     slr_delegation_root = delegation_root (delegations state),
     slr_publication_root = publication_root (publications state),
     slr_receipt_root = replicate 32 0,
     slr_receipt = lease_receipt_locked limit_bytes state \<rparr>"

definition seal :: "nat option \<Rightarrow> lease_state
    \<Rightarrow> (lease_seal_refusal, sealed_lease_receipt) outcome \<times> lease_state" where
  "seal limit_bytes state =
    (case terminal_receipt state of
       Some receipt \<Rightarrow> (Ok receipt, state)
     | None \<Rightarrow>
       (case next_sequence state of (observation_seq, state) \<Rightarrow>
        let seal_seq = (case seal_sequence state of Some s \<Rightarrow> s | None \<Rightarrow> observation_seq);
            state = state\<lparr>seal_sequence := Some seal_seq, sealed := True\<rparr>;
            active = count_live_delegations state
        in case seal_reason limit_bytes state of
             Some reason \<Rightarrow>
               let site = (case root_id state of Some name \<Rightarrow> name | None \<Rightarrow> ''unverified-root'');
                   used = used_bytes state;
                   state = record_semantic_refusal (reason_code_seal reason) (root_identity state)
                     site None used active observation_seq state
               in (Err \<lparr>lsr_root_identity = root_identity state, lsr_root_id = root_id state,
                        lsr_reason = reason, lsr_used_bytes = used,
                        lsr_active_delegations = active,
                        lsr_release_invariant_violations = release_invariant_violations state,
                        lsr_seal_sequence = seal_seq,
                        lsr_observation_sequence = observation_seq\<rparr>, state)
           | None \<Rightarrow>
               let state = state\<lparr>delegations := sort_key dr_identity (delegations state)\<rparr>;
                   state = state\<lparr>publications := sort_key publication_key (publications state)\<rparr>;
                   terminal = terminal_of limit_bytes seal_seq observation_seq state;
                   terminal = terminal\<lparr>slr_receipt_root := slr_recompute_root terminal\<rparr>
               in case slr_verify_for terminal (slr_root_identity terminal) of
                    Inl _ \<Rightarrow> (Panicked, state)
                  | Inr _ \<Rightarrow> (Ok terminal, state\<lparr>terminal_receipt := Some terminal\<rparr>)))"

end
