(* ===== verification/Lease_Delegation.thy ===== *)
theory Lease_Delegation
  imports Lease_Ledger
begin

text \<open>
  Delegated capacity (\<open>delegate_from\<close>, \<open>reserve_delegated_charge\<close>, \<open>release_delegated\<close>,
  \<open>return_delegation\<close> in \<open>crates/fs-alloc/src/lease.rs\<close>): transferring an envelope to a child
  under the root or under another child, charging allocations to it, and returning it with a
  verified receipt.
\<close>

section \<open>Transfer to a child\<close>

definition parent_usage ::
  "nat option \<Rightarrow> lease_identity option \<Rightarrow> lease_state \<Rightarrow> nat \<times> nat option" where
  "parent_usage limit_bytes parent state =
    (case Option.bind parent (find_delegation state) of
       Some r \<Rightarrow> (dr_used_bytes r, Some (dr_capacity_bytes r))
     | None \<Rightarrow> if parent \<noteq> None then (0, None) else (used_bytes state, limit_bytes))"

definition delegate_reason :: "nat option \<Rightarrow> lease_identity option \<Rightarrow> string option \<Rightarrow> lease_identity
    \<Rightarrow> string \<Rightarrow> nat \<Rightarrow> lease_state \<Rightarrow> delegation_refusal_reason option" where
  "delegate_reason limit_bytes parent parent_path identity logical_path capacity state =
    (let snapshot = Option.bind parent (find_delegation state);
         (used, limit) = parent_usage limit_bytes parent state
     in if limit_bytes = None then Some Deleg_UnboundedParent
        else if root_identity state = None \<or> root_id state = None then Some Deleg_UnconfiguredRoot
        else if sealed state then Some Deleg_RootSealed
        else if \<not> is_direct_child_of identity
              (case parent of Some p \<Rightarrow> p | None \<Rightarrow> the (root_identity state))
        then Some Deleg_InvalidIdentityRelationship
        else if \<not> valid_logical_path (the (root_id state)) parent_path logical_path
        then Some Deleg_InvalidLogicalPath
        else if \<exists>r\<in>set (delegations state). dr_identity r = identity
        then Some Deleg_DuplicateIdentity
        else if \<exists>r\<in>set (delegations state). dr_parent_identity r = parent
              \<and> identity_path (dr_identity r) = identity_path identity
        then Some Deleg_DuplicatePath
        else if metadata_limit state \<le> length (delegations state) then Some Deleg_MetadataExhausted
        else if parent \<noteq> None
              \<and> (case snapshot of None \<Rightarrow> True | Some r \<Rightarrow> dr_disposition r = Returned)
        then Some Deleg_ParentReturned
        else if (case checked_add u64_max used capacity of
                   None \<Rightarrow> True
                 | Some next \<Rightarrow> (case limit of None \<Rightarrow> True | Some l \<Rightarrow> l < next))
        then Some Deleg_Capacity
        else if counter_overflowed state
              \<or> checked_add u128_max (requested_bytes state) capacity = None
              \<or> (parent = None \<and> checked_add u128_max (delegated_bytes state) capacity = None)
              \<or> (case snapshot of
                   None \<Rightarrow> False
                 | Some r \<Rightarrow> checked_add u128_max (dr_delegated_bytes r) capacity = None
                           \<or> checked_add u64_max (dr_live_children r) 1 = None)
        then Some Deleg_CounterOverflow
        else None)"

definition new_delegation_record :: "lease_identity option \<Rightarrow> string option \<Rightarrow> lease_identity
    \<Rightarrow> string \<Rightarrow> nat \<Rightarrow> nat \<Rightarrow> delegation_record" where
  "new_delegation_record parent parent_path identity logical_path capacity seq = \<lparr>
     dr_parent_identity = parent, dr_identity = identity, dr_parent_path = parent_path,
     dr_logical_path = logical_path, dr_capacity_bytes = capacity, dr_used_bytes = 0,
     dr_peak_used_bytes = 0, dr_allocation_granted_bytes = 0, dr_allocation_returned_bytes = 0,
     dr_allocation_published_bytes = 0, dr_delegated_bytes = 0, dr_returned_delegated_bytes = 0,
     dr_refused_requests = 0, dr_refused_bytes = 0, dr_live_children = 0,
     dr_created_sequence = seq, dr_returned_sequence = None, dr_implicit_return = False,
     dr_close_root = None, dr_disposition = Live \<rparr>"

text \<open>The debit of the parent: a child record, or the root itself.\<close>

definition debit_child :: "nat \<Rightarrow> delegation_record \<Rightarrow> delegation_record" where
  "debit_child capacity r =
     r\<lparr>dr_used_bytes := dr_used_bytes r + capacity,
       dr_peak_used_bytes := max (dr_peak_used_bytes r) (dr_used_bytes r + capacity),
       dr_delegated_bytes := dr_delegated_bytes r + capacity,
       dr_live_children := dr_live_children r + 1\<rparr>"

definition debit_root :: "nat \<Rightarrow> lease_state \<Rightarrow> lease_state" where
  "debit_root capacity state =
     state\<lparr>used_bytes := used_bytes state + capacity,
           peak_bytes := max (peak_bytes state) (used_bytes state + capacity),
           requested_bytes := requested_bytes state + capacity,
           delegated_bytes := delegated_bytes state + capacity\<rparr>"

definition delegate_from :: "nat option \<Rightarrow> lease_identity option \<Rightarrow> string option \<Rightarrow> lease_identity
    \<Rightarrow> string \<Rightarrow> nat \<Rightarrow> lease_state \<Rightarrow> (lease_delegation_refusal, unit) outcome \<times> lease_state" where
  "delegate_from limit_bytes parent parent_path identity logical_path capacity state =
    (case next_sequence state of (seq, state) \<Rightarrow>
     let (used, limit) = parent_usage limit_bytes parent state
     in case delegate_reason limit_bytes parent parent_path identity logical_path capacity state of
          Some reason \<Rightarrow>
            let s1 = (if reason = Deleg_CounterOverflow then state\<lparr>counter_overflowed := True\<rparr>
                      else state);
                s2 = (case Option.bind parent (delegation_index s1) of
                        Some index \<Rightarrow> count_child_refusal index capacity s1
                      | None \<Rightarrow> s1);
                s3 = record_semantic_refusal (reason_code_delegation reason) (Some identity)
                       logical_path (Some capacity) used
                       (case limit of Some l \<Rightarrow> l | None \<Rightarrow> u64_max) seq s2
            in (Err \<lparr>ldr_root_identity = root_identity state, ldr_parent_identity = parent,
                     ldr_identity = identity, ldr_root_id = root_id state,
                     ldr_parent_path = parent_path, ldr_logical_path = logical_path,
                     ldr_requested_bytes = capacity, ldr_used_bytes = used,
                     ldr_limit_bytes = limit, ldr_reason = reason, ldr_sequence = seq\<rparr>, s3)
        | None \<Rightarrow>
            (case parent of
               None \<Rightarrow>
                 let s1 = debit_root capacity state
                 in (Ok (), s1\<lparr>delegations := delegations s1
                       @ [new_delegation_record parent parent_path identity logical_path capacity seq]\<rparr>)
             | Some p \<Rightarrow>
                 (case delegation_index state p of
                    None \<Rightarrow> (Panicked, state)
                  | Some index \<Rightarrow>
                      let s1 = update_delegation index (debit_child capacity) state
                      in (Ok (), s1\<lparr>delegations := delegations s1
                            @ [new_delegation_record parent parent_path identity logical_path
                                 capacity seq]\<rparr>))))"

section \<open>Charges inside an envelope\<close>

definition reserve_delegated_reason ::
  "nat \<Rightarrow> nat \<Rightarrow> delegation_record \<Rightarrow> lease_state \<Rightarrow> delegated_reservation_refusal_reason option" where
  "reserve_delegated_reason capacity bytes record state =
    (if sealed state then Some Resv_RootSealed
     else if dr_disposition record = Returned then Some Resv_ChildReturned
     else if counter_overflowed state
       \<or> checked_add u128_max (dr_allocation_granted_bytes record) bytes = None
       \<or> checked_add u128_max (child_granted_bytes state) bytes = None
     then Some Resv_CounterOverflow
     else if (case checked_add u64_max (dr_used_bytes record) bytes of
                None \<Rightarrow> True | Some next \<Rightarrow> capacity < next)
     then Some Resv_Capacity
     else None)"

definition grant_child :: "nat \<Rightarrow> delegation_record \<Rightarrow> delegation_record" where
  "grant_child bytes r =
     r\<lparr>dr_used_bytes := dr_used_bytes r + bytes,
       dr_peak_used_bytes := max (dr_peak_used_bytes r) (dr_used_bytes r + bytes),
       dr_allocation_granted_bytes := dr_allocation_granted_bytes r + bytes\<rparr>"

definition reserve_delegated_charge :: "lease_identity \<Rightarrow> nat \<Rightarrow> string \<Rightarrow> string \<Rightarrow> nat
    \<Rightarrow> lease_state \<Rightarrow> (delegated_lease_refusal, lease_identity \<times> nat) outcome \<times> lease_state" where
  "reserve_delegated_charge identity capacity logical_path site bytes state =
    (case next_sequence state of (seq, state) \<Rightarrow>
     case (root_identity state, root_id state, delegation_index state identity) of
       (Some root, Some root_name, Some index) \<Rightarrow>
         let record = delegations state ! index;
             used = dr_used_bytes record
         in (case reserve_delegated_reason capacity bytes record state of
               Some reason \<Rightarrow>
                 let s1 = (if reason = Resv_CounterOverflow then state\<lparr>counter_overflowed := True\<rparr>
                           else state);
                     s2 = count_child_refusal index bytes s1;
                     s3 = record_semantic_refusal (reason_code_delegated_reservation reason)
                            (Some identity) site (Some bytes) used capacity seq s2
                 in (Err \<lparr>dlr_root_identity = root, dlr_identity = identity,
                          dlr_root_id = root_name, dlr_logical_path = logical_path,
                          dlr_site = site, dlr_requested_bytes = bytes, dlr_used_bytes = used,
                          dlr_limit_bytes = capacity, dlr_reason = reason,
                          dlr_sequence = seq\<rparr>, s3)
             | None \<Rightarrow>
                 (Ok (identity, bytes),
                  update_delegation index (grant_child bytes)
                    (state\<lparr>child_granted_bytes := child_granted_bytes state + bytes\<rparr>)))
     | _ \<Rightarrow> (Panicked, state))"

definition release_delegated :: "lease_identity \<Rightarrow> nat \<Rightarrow> lease_state \<Rightarrow> lease_state" where
  "release_delegated identity bytes state =
    (case next_sequence state of (_, state) \<Rightarrow>
     case delegation_index state identity of
       None \<Rightarrow> increment_invariant_violation state
     | Some index \<Rightarrow>
         let record = delegations state ! index
         in if dr_disposition record \<noteq> Live \<or> dr_used_bytes record < bytes
            then increment_invariant_violation state
            else (case checked_add u128_max (dr_allocation_returned_bytes record) bytes of
                    None \<Rightarrow> increment_invariant_violation (state\<lparr>counter_overflowed := True\<rparr>)
                  | Some record_returned \<Rightarrow>
                      (case checked_add u128_max (child_returned_bytes state) bytes of
                         None \<Rightarrow> increment_invariant_violation (state\<lparr>counter_overflowed := True\<rparr>)
                       | Some global_returned \<Rightarrow>
                           update_delegation index
                             (\<lambda>r. r\<lparr>dr_used_bytes := dr_used_bytes r - bytes,
                                    dr_allocation_returned_bytes := record_returned\<rparr>)
                             (state\<lparr>child_returned_bytes := global_returned\<rparr>))))"

section \<open>Return of an envelope\<close>

definition close_reason :: "delegation_record \<Rightarrow> lease_state \<Rightarrow> close_refusal_reason option" where
  "close_reason record state =
    (if dr_disposition record = Returned then Some Close_AlreadyReturned
     else if dr_live_children record \<noteq> 0 then Some Close_LiveChild
     else if dr_used_bytes record \<noteq> 0 then Some Close_LiveAllocation
     else if checked_add u128_max (dr_allocation_returned_bytes record)
            (dr_allocation_published_bytes record) \<noteq> Some (dr_allocation_granted_bytes record)
       \<or> dr_delegated_bytes record \<noteq> dr_returned_delegated_bytes record
     then Some Close_ConservationMismatch
     else if counter_overflowed state then Some Close_CounterOverflow
     else None)"

definition close_refusal :: "lease_identity \<Rightarrow> delegation_record \<Rightarrow> close_refusal_reason \<Rightarrow> nat
    \<Rightarrow> delegated_lease_close_refusal" where
  "close_refusal identity record reason seq =
    \<lparr>dcf_identity = identity, dcf_logical_path = dr_logical_path record, dcf_reason = reason,
     dcf_used_bytes = dr_used_bytes record, dcf_live_children = dr_live_children record,
     dcf_sequence = seq\<rparr>"

definition close_receipt_of :: "lease_identity \<Rightarrow> string \<Rightarrow> delegation_record \<Rightarrow> nat \<Rightarrow> nat \<Rightarrow> nat
    \<Rightarrow> u8 list \<Rightarrow> nat \<Rightarrow> bool \<Rightarrow> delegated_lease_close_receipt" where
  "close_receipt_of root root_name snapshot record_count published rolled_back pub_root seq implicit = \<lparr>
     dcr_schema_version = VERIFIED_RECEIPT_SCHEMA_VERSION,
     dcr_root_identity = root,
     dcr_parent_identity = dr_parent_identity snapshot,
     dcr_identity = dr_identity snapshot,
     dcr_root_id = root_name,
     dcr_parent_path = dr_parent_path snapshot,
     dcr_logical_path = dr_logical_path snapshot,
     dcr_capacity_bytes = dr_capacity_bytes snapshot,
     dcr_allocation_granted_bytes = dr_allocation_granted_bytes snapshot,
     dcr_allocation_returned_bytes = dr_allocation_returned_bytes snapshot,
     dcr_allocation_published_bytes = dr_allocation_published_bytes snapshot,
     dcr_delegated_bytes = dr_delegated_bytes snapshot,
     dcr_returned_delegated_bytes = dr_returned_delegated_bytes snapshot,
     dcr_peak_used_bytes = dr_peak_used_bytes snapshot,
     dcr_final_used_bytes = dr_used_bytes snapshot,
     dcr_refused_requests = dr_refused_requests snapshot,
     dcr_refused_bytes = dr_refused_bytes snapshot,
     dcr_publication_record_count = record_count,
     dcr_published_transfer_count = published,
     dcr_rolled_back_transfer_count = rolled_back,
     dcr_publication_root = pub_root,
     dcr_created_sequence = dr_created_sequence snapshot,
     dcr_returned_sequence = seq,
     dcr_implicit_return = implicit,
     dcr_receipt_root = replicate 32 0 \<rparr>"

text \<open>Crediting the parent; \<open>None\<close> when the parent's books cannot take the capacity back.\<close>

definition credit_parent :: "lease_identity option \<Rightarrow> nat \<Rightarrow> lease_state
    \<Rightarrow> (unit, lease_state) outcome" where
  "credit_parent parent capacity state =
    (case parent of
       Some p \<Rightarrow>
         (case delegation_index state p of
            None \<Rightarrow> Panicked
          | Some parent_index \<Rightarrow>
              let r = delegations state ! parent_index
              in if dr_used_bytes r < capacity \<or> dr_live_children r = 0
                   \<or> checked_add u128_max (dr_returned_delegated_bytes r) capacity = None
                 then Err ()
                 else Ok (update_delegation parent_index
                   (\<lambda>r. r\<lparr>dr_used_bytes := dr_used_bytes r - capacity,
                          dr_live_children := dr_live_children r - 1,
                          dr_returned_delegated_bytes := dr_returned_delegated_bytes r + capacity\<rparr>)
                   state))
     | None \<Rightarrow>
         if used_bytes state < capacity
           \<or> checked_add u128_max (returned_delegated_bytes state) capacity = None
         then Err ()
         else Ok (state\<lparr>used_bytes := used_bytes state - capacity,
                        returned_delegated_bytes := returned_delegated_bytes state + capacity\<rparr>))"

definition return_delegation :: "lease_identity \<Rightarrow> bool \<Rightarrow> lease_state
    \<Rightarrow> (delegated_lease_close_refusal, delegated_lease_close_receipt) outcome \<times> lease_state" where
  "return_delegation identity implicit_return state =
    (case next_sequence state of (seq, state) \<Rightarrow>
     case (root_identity state, root_id state, delegation_index state identity) of
       (Some root, Some root_name, Some index) \<Rightarrow>
         let record = delegations state ! index
         in (case close_reason record state of
               Some reason \<Rightarrow>
                 let s1 = (if implicit_return then increment_invariant_violation state else state)
                 in (Err (close_refusal identity record reason seq),
                     record_semantic_refusal (reason_code_close reason) (Some identity)
                       (dr_logical_path record) None (dr_used_bytes record)
                       (dr_live_children record) seq s1)
             | None \<Rightarrow>
                 let state = state\<lparr>publications := sort_key publication_key (publications state)\<rparr>;
                     snapshot = delegations state ! index;
                     mine = filter (\<lambda>p. pub_child_identity p = identity) (publications state);
                     record_count = length mine;
                     published = length (filter (\<lambda>p. pub_child_identity p = identity
                                   \<and> pub_disposition p = Published) (publications state));
                     rolled_back = length (filter (\<lambda>p. pub_child_identity p = identity
                                   \<and> pub_disposition p = RolledBack) (publications state))
                 in if checked_add u64_max published rolled_back \<noteq> Some record_count
                    then (Err (close_refusal identity snapshot Close_ConservationMismatch seq),
                          increment_invariant_violation state)
                    else
                      let pub_root = publication_root_for_child (publications state) identity
                      in (case credit_parent (dr_parent_identity snapshot)
                                 (dr_capacity_bytes snapshot) state of
                            Panicked \<Rightarrow> (Panicked, state)
                          | Err _ \<Rightarrow>
                              (Err (close_refusal identity snapshot Close_ConservationMismatch seq),
                               increment_invariant_violation state)
                          | Ok state \<Rightarrow>
                              let receipt = close_receipt_of root root_name snapshot record_count
                                    published rolled_back pub_root seq implicit_return;
                                  receipt = receipt\<lparr>dcr_receipt_root := dcr_recompute_root receipt\<rparr>
                              in (case dcr_verify_for receipt root (dr_parent_identity snapshot) identity of
                                    Inl _ \<Rightarrow> (Panicked, state)
                                  | Inr _ \<Rightarrow>
                                      (Ok receipt, update_delegation index
                                        (\<lambda>r. r\<lparr>dr_disposition := Returned,
                                               dr_returned_sequence := Some seq,
                                               dr_implicit_return := implicit_return,
                                               dr_close_root := Some (dcr_receipt_root receipt)\<rparr>)
                                        state))))
     | _ \<Rightarrow> (Panicked, state))"

end
