(* ===== verification/Lease_Publication.thy ===== *)
theory Lease_Publication
  imports Lease_Ledger
begin

text \<open>
  The two-phase publication of staged bytes (\<open>prepare_published_transfer\<close>,
  \<open>publish_prepared_transfer\<close>, \<open>rollback_prepared_transfer\<close>, \<open>close_published_transfer\<close> in
  \<open>crates/fs-alloc/src/lease.rs\<close>): a charge becomes a prepared record, which resolves exactly
  once, by publication to its destination or by rollback to its child; the destination closes
  separately.
\<close>

record prepared_transfer =
  pt_child_identity :: lease_identity
  pt_binding :: transfer_binding
  pt_envelope :: transfer_envelope
  pt_bytes :: nat
  pt_prepared_sequence :: nat

definition prepare_reason :: "delegation_record \<Rightarrow> nat \<Rightarrow> transfer_binding \<Rightarrow> transfer_envelope
    \<Rightarrow> lease_state \<Rightarrow> published_transfer_refusal_reason option" where
  "prepare_reason child bytes bind env state =
    (if sealed state then Some Pub_RootSealed
     else if dr_disposition child \<noteq> Live then Some Pub_ChildReturned
     else if bytes = 0 then Some Pub_ZeroBytes
     else if total_bytes env \<noteq> Some bytes then Some Pub_EnvelopeMismatch
     else if \<exists>r\<in>set (publications state). pub_binding r = bind then Some Pub_DuplicateBinding
     else if metadata_limit state \<le> length (publications state) then Some Pub_MetadataExhausted
     else if dr_used_bytes child < bytes then Some Pub_ConservationMismatch
     else if counter_overflowed state then Some Pub_CounterOverflow
     else None)"

definition prepared_record :: "lease_identity option \<Rightarrow> prepared_transfer \<Rightarrow> publication_record" where
  "prepared_record parent t = \<lparr>
     pub_parent_identity = parent, pub_child_identity = pt_child_identity t,
     pub_binding = pt_binding t, pub_envelope = pt_envelope t, pub_bytes = pt_bytes t,
     pub_prepared_sequence = pt_prepared_sequence t, pub_resolved_sequence = None,
     pub_disposition = Prepared, pub_implicit_rollback = False,
     pub_published_receipt_root = None, pub_destination_closed_sequence = None,
     pub_implicit_destination_close = False, pub_destination_close_root = None \<rparr>"

definition prepare_published_transfer :: "lease_identity \<Rightarrow> nat \<Rightarrow> transfer_binding \<Rightarrow> transfer_envelope
    \<Rightarrow> lease_state \<Rightarrow> (published_transfer_refusal, nat) outcome \<times> lease_state" where
  "prepare_published_transfer child_identity bytes bind env state =
    (case next_sequence state of (seq, state) \<Rightarrow>
     case (root_identity state, delegation_index state child_identity) of
       (Some root, Some child_index) \<Rightarrow>
         let child = delegations state ! child_index;
             parent = dr_parent_identity child
         in (case prepare_reason child bytes bind env state of
               Some reason \<Rightarrow>
                 (case record_published_transfer_refusal root parent child_identity bind env bytes
                     Op_Prepare reason seq state of
                    (refusal, state) \<Rightarrow> (Err refusal, state))
             | None \<Rightarrow>
                 (Ok seq, state\<lparr>publications := publications state
                    @ [prepared_record parent \<lparr>pt_child_identity = child_identity,
                         pt_binding = bind, pt_envelope = env, pt_bytes = bytes,
                         pt_prepared_sequence = seq\<rparr>]\<rparr>))
     | _ \<Rightarrow> (Panicked, state))"

text \<open>The exact record a prepared handle stands for.\<close>

definition matches_prepared :: "prepared_transfer \<Rightarrow> publication_record \<Rightarrow> bool" where
  "matches_prepared t r \<longleftrightarrow>
     pub_child_identity r = pt_child_identity t \<and> pub_binding r = pt_binding t
     \<and> pub_envelope r = pt_envelope t \<and> pub_bytes r = pt_bytes t
     \<and> pub_prepared_sequence r = pt_prepared_sequence t"

definition publish_reason :: "prepared_transfer \<Rightarrow> delegation_record \<Rightarrow> nat option \<Rightarrow> lease_state
    \<Rightarrow> published_transfer_refusal_reason option" where
  "publish_reason t child publication_index state =
    (if dr_disposition child \<noteq> Live then Some Pub_ChildReturned
     else if (case publication_index of None \<Rightarrow> True
              | Some i \<Rightarrow> pub_disposition (publications state ! i) \<noteq> Prepared)
     then Some Pub_TransferUnavailable
     else if dr_used_bytes child < pt_bytes t then Some Pub_ConservationMismatch
     else if counter_overflowed state
       \<or> checked_add u128_max (dr_allocation_published_bytes child) (pt_bytes t) = None
       \<or> checked_add u128_max (child_published_bytes state) (pt_bytes t) = None
     then Some Pub_CounterOverflow
     else None)"

definition publish_receipt_of :: "lease_identity \<Rightarrow> lease_identity option \<Rightarrow> prepared_transfer \<Rightarrow> nat
    \<Rightarrow> published_transfer_receipt" where
  "publish_receipt_of root parent t seq = \<lparr>
     ptr_schema_version = PUBLISHED_TRANSFER_RECEIPT_SCHEMA_VERSION,
     ptr_root_identity = root, ptr_parent_identity = parent,
     ptr_child_identity = pt_child_identity t, ptr_binding = pt_binding t,
     ptr_envelope = pt_envelope t, ptr_bytes = pt_bytes t,
     ptr_prepared_sequence = pt_prepared_sequence t, ptr_published_sequence = seq,
     ptr_receipt_root = replicate 32 0 \<rparr>"

definition publish_prepared_transfer :: "prepared_transfer \<Rightarrow> lease_state
    \<Rightarrow> (published_transfer_refusal, published_transfer_receipt) outcome \<times> lease_state" where
  "publish_prepared_transfer t state =
    (case next_sequence state of (seq, state) \<Rightarrow>
     case (root_identity state, delegation_index state (pt_child_identity t)) of
       (Some root, Some child_index) \<Rightarrow>
         let child = delegations state ! child_index;
             parent = dr_parent_identity child;
             publication_index = position (matches_prepared t) (publications state)
         in (case publish_reason t child publication_index state of
               Some reason \<Rightarrow>
                 (case record_published_transfer_refusal root parent (pt_child_identity t)
                     (pt_binding t) (pt_envelope t) (pt_bytes t) Op_Publish reason seq state of
                    (refusal, state) \<Rightarrow> (Err refusal, state))
             | None \<Rightarrow>
                 let receipt = publish_receipt_of root parent t seq;
                     receipt = receipt\<lparr>ptr_receipt_root := ptr_recompute_root receipt\<rparr>
                 in (case ptr_verify_for receipt root parent (pt_child_identity t) (pt_binding t)
                        (pt_envelope t) of
                       Inl _ \<Rightarrow> (Panicked, state)
                     | Inr _ \<Rightarrow>
                         (Ok receipt,
                          update_publication (the publication_index)
                            (\<lambda>p. p\<lparr>pub_disposition := Published,
                                   pub_resolved_sequence := Some seq,
                                   pub_published_receipt_root := Some (ptr_receipt_root receipt)\<rparr>)
                            (update_delegation child_index
                              (\<lambda>r. r\<lparr>dr_used_bytes := dr_used_bytes r - pt_bytes t,
                                     dr_allocation_published_bytes :=
                                       dr_allocation_published_bytes r + pt_bytes t\<rparr>)
                              (state\<lparr>child_published_bytes :=
                                       child_published_bytes state + pt_bytes t\<rparr>)))))
     | _ \<Rightarrow> (Panicked, state))"

definition rollback_reason :: "prepared_transfer \<Rightarrow> delegation_record \<Rightarrow> nat option \<Rightarrow> lease_state
    \<Rightarrow> published_transfer_refusal_reason option" where
  "rollback_reason t child publication_index state =
    (if dr_disposition child \<noteq> Live then Some Pub_ChildReturned
     else if (case publication_index of None \<Rightarrow> True
              | Some i \<Rightarrow> pub_disposition (publications state ! i) \<noteq> Prepared)
     then Some Pub_TransferUnavailable
     else if dr_used_bytes child < pt_bytes t then Some Pub_ConservationMismatch
     else if counter_overflowed state
       \<or> checked_add u128_max (dr_allocation_returned_bytes child) (pt_bytes t) = None
       \<or> checked_add u128_max (child_returned_bytes state) (pt_bytes t) = None
     then Some Pub_CounterOverflow
     else None)"

definition rollback_receipt_of :: "lease_identity \<Rightarrow> lease_identity option \<Rightarrow> prepared_transfer \<Rightarrow> nat
    \<Rightarrow> bool \<Rightarrow> published_transfer_rollback_receipt" where
  "rollback_receipt_of root parent t seq implicit = \<lparr>
     prr_schema_version = PUBLISHED_TRANSFER_RECEIPT_SCHEMA_VERSION,
     prr_root_identity = root, prr_parent_identity = parent,
     prr_child_identity = pt_child_identity t, prr_binding = pt_binding t,
     prr_envelope = pt_envelope t, prr_bytes = pt_bytes t,
     prr_prepared_sequence = pt_prepared_sequence t, prr_rolled_back_sequence = seq,
     prr_implicit_rollback = implicit, prr_receipt_root = replicate 32 0 \<rparr>"

definition rollback_prepared_transfer :: "prepared_transfer \<Rightarrow> bool \<Rightarrow> lease_state
    \<Rightarrow> (published_transfer_refusal, published_transfer_rollback_receipt) outcome \<times> lease_state" where
  "rollback_prepared_transfer t implicit_rollback state =
    (case next_sequence state of (seq, state) \<Rightarrow>
     case (root_identity state, delegation_index state (pt_child_identity t)) of
       (Some root, Some child_index) \<Rightarrow>
         let child = delegations state ! child_index;
             parent = dr_parent_identity child;
             publication_index = position (matches_prepared t) (publications state)
         in (case rollback_reason t child publication_index state of
               Some reason \<Rightarrow>
                 let s1 = (if implicit_rollback then increment_invariant_violation state else state)
                 in (case record_published_transfer_refusal root parent (pt_child_identity t)
                     (pt_binding t) (pt_envelope t) (pt_bytes t) Op_Rollback reason seq s1 of
                    (refusal, state) \<Rightarrow> (Err refusal, state))
             | None \<Rightarrow>
                 let receipt = rollback_receipt_of root parent t seq implicit_rollback;
                     receipt = receipt\<lparr>prr_receipt_root := prr_recompute_root receipt\<rparr>
                 in (case prr_verify_for receipt root parent (pt_child_identity t) (pt_binding t)
                        (pt_envelope t) of
                       Inl _ \<Rightarrow> (Panicked, state)
                     | Inr _ \<Rightarrow>
                         (Ok receipt,
                          update_publication (the publication_index)
                            (\<lambda>p. p\<lparr>pub_disposition := RolledBack,
                                   pub_resolved_sequence := Some seq,
                                   pub_implicit_rollback := implicit_rollback\<rparr>)
                            (update_delegation child_index
                              (\<lambda>r. r\<lparr>dr_used_bytes := dr_used_bytes r - pt_bytes t,
                                     dr_allocation_returned_bytes :=
                                       dr_allocation_returned_bytes r + pt_bytes t\<rparr>)
                              (state\<lparr>child_returned_bytes :=
                                       child_returned_bytes state + pt_bytes t\<rparr>)))))
     | _ \<Rightarrow> (Panicked, state))"

section \<open>Closing a destination\<close>

definition matches_published :: "published_transfer_receipt \<Rightarrow> publication_record \<Rightarrow> bool" where
  "matches_published d r \<longleftrightarrow>
     pub_child_identity r = ptr_child_identity d \<and> pub_binding r = ptr_binding d
     \<and> pub_envelope r = ptr_envelope d \<and> pub_bytes r = ptr_bytes d
     \<and> pub_prepared_sequence r = ptr_prepared_sequence d"

definition close_published_reason :: "published_transfer_receipt \<Rightarrow> nat option \<Rightarrow> lease_state
    \<Rightarrow> published_transfer_refusal_reason option" where
  "close_published_reason published publication_index state =
    (if (case publication_index of None \<Rightarrow> True
         | Some i \<Rightarrow> let r = publications state ! i
             in pub_disposition r \<noteq> Published
                \<or> pub_resolved_sequence r \<noteq> Some (ptr_published_sequence published)
                \<or> pub_published_receipt_root r \<noteq> Some (ptr_receipt_root published)
                \<or> pub_destination_closed_sequence r \<noteq> None)
     then Some Pub_TransferUnavailable
     else if counter_overflowed state then Some Pub_CounterOverflow
     else None)"

definition destination_receipt_of :: "published_transfer_receipt \<Rightarrow> nat \<Rightarrow> bool
    \<Rightarrow> published_transfer_close_receipt" where
  "destination_receipt_of published seq implicit = \<lparr>
     pcr_schema_version = PUBLISHED_TRANSFER_RECEIPT_SCHEMA_VERSION,
     pcr_root_identity = ptr_root_identity published,
     pcr_parent_identity = ptr_parent_identity published,
     pcr_child_identity = ptr_child_identity published,
     pcr_binding = ptr_binding published, pcr_envelope = ptr_envelope published,
     pcr_bytes = ptr_bytes published,
     pcr_published_receipt_root = ptr_receipt_root published,
     pcr_published_sequence = ptr_published_sequence published,
     pcr_closed_sequence = seq, pcr_implicit_close = implicit,
     pcr_receipt_root = replicate 32 0 \<rparr>"

definition close_published_transfer :: "published_transfer_receipt \<Rightarrow> bool \<Rightarrow> lease_state
    \<Rightarrow> (published_transfer_refusal, published_transfer_close_receipt) outcome \<times> lease_state" where
  "close_published_transfer published implicit_close state =
    (case next_sequence state of (seq, state) \<Rightarrow>
     let publication_index = position (matches_published published) (publications state)
     in case close_published_reason published publication_index state of
          Some reason \<Rightarrow>
            let s1 = (if implicit_close then increment_invariant_violation state else state)
            in (case record_published_transfer_refusal (ptr_root_identity published)
                  (ptr_parent_identity published) (ptr_child_identity published)
                  (ptr_binding published) (ptr_envelope published) (ptr_bytes published)
                  Op_CloseDestination reason seq s1 of
                 (refusal, state) \<Rightarrow> (Err refusal, state))
        | None \<Rightarrow>
            let receipt = destination_receipt_of published seq implicit_close;
                receipt = receipt\<lparr>pcr_receipt_root := pcr_recompute_root receipt\<rparr>
            in (case pcr_verify_for receipt published of
                  Inl _ \<Rightarrow> (Panicked, state)
                | Inr _ \<Rightarrow>
                    (Ok receipt,
                     update_publication (the publication_index)
                       (\<lambda>p. p\<lparr>pub_destination_closed_sequence := Some seq,
                              pub_implicit_destination_close := implicit_close,
                              pub_destination_close_root := Some (pcr_receipt_root receipt)\<rparr>)
                       state)))"

end
