(* ===== verification/Lease_Invariant.thy ===== *)
theory Lease_Invariant
  imports Lease_Root Lease_Delegation Lease_Publication
begin

text \<open>
  The accounting invariant of the memory lease and its preservation by every transition.

  The invariant relates the ledger to the live owners outside it: the multiset of direct
  charges (\<open>cs\<close>, one byte count per live \<open>LeaseCharge\<close> or manually released reservation) and
  the charges inside children (\<open>sg\<close>, one pair per live \<open>DelegatedLeaseCharge\<close>). It says that
  every occupied byte is owned exactly once, that every level stays within its capacity, and
  that granted bytes are returned, published or still owned.
\<close>

section \<open>Shares of the records\<close>

definition live_capacity :: "lease_identity option \<Rightarrow> delegation_record \<Rightarrow> nat" where
  "live_capacity p r =
     (if dr_disposition r = Live \<and> dr_parent_identity r = p then dr_capacity_bytes r else 0)"

definition live_child :: "lease_identity option \<Rightarrow> delegation_record \<Rightarrow> nat" where
  "live_child p r = (if dr_disposition r = Live \<and> dr_parent_identity r = p then 1 else 0)"

definition prepared_bytes :: "lease_identity \<Rightarrow> publication_record \<Rightarrow> nat" where
  "prepared_bytes i p =
     (if pub_disposition p = Prepared \<and> pub_child_identity p = i then pub_bytes p else 0)"

definition published_bytes :: "lease_identity \<Rightarrow> publication_record \<Rightarrow> nat" where
  "published_bytes i p =
     (if pub_disposition p = Published \<and> pub_child_identity p = i then pub_bytes p else 0)"

definition staged_bytes :: "lease_identity \<Rightarrow> lease_identity \<times> nat \<Rightarrow> nat" where
  "staged_bytes i c = (if fst c = i then snd c else 0)"

lemmas shares = live_capacity_def live_child_def prepared_bytes_def published_bytes_def
  staged_bytes_def

section \<open>The invariant\<close>

definition account_inv :: "nat option \<Rightarrow> nat list \<Rightarrow> lease_state \<Rightarrow> bool" where
  "account_inv lim cs s \<longleftrightarrow>
     used_bytes s = sum_list cs + total (live_capacity None) (delegations s)
     \<and> used_bytes s \<le> peak_bytes s \<and> peak_bytes s \<le> u64_max
     \<and> (\<forall>l. lim = Some l \<longrightarrow> peak_bytes s \<le> l)
     \<and> (root_id s \<noteq> None \<longrightarrow> direct_granted_bytes s = direct_returned_bytes s + sum_list cs)
     \<and> (root_id s = None \<longrightarrow> direct_granted_bytes s = 0 \<and> direct_returned_bytes s = 0
          \<and> delegations s = [] \<and> publications s = [])
     \<and> delegated_bytes s = returned_delegated_bytes s + total (live_capacity None) (delegations s)
     \<and> child_granted_bytes s = total dr_allocation_granted_bytes (delegations s)
     \<and> child_returned_bytes s = total dr_allocation_returned_bytes (delegations s)
     \<and> child_published_bytes s = total dr_allocation_published_bytes (delegations s)
     \<and> direct_granted_bytes s \<le> u128_max \<and> delegated_bytes s \<le> u128_max
     \<and> child_granted_bytes s \<le> u128_max \<and> sequence s \<le> u128_max
     \<and> (root_identity s = None \<longleftrightarrow> root_id s = None)
     \<and> (root_id s \<noteq> None \<longrightarrow> is_root (the (root_identity s)) \<and> lim \<noteq> None)
     \<and> length (delegations s) \<le> metadata_limit s \<and> length (publications s) \<le> metadata_limit s
     \<and> metadata_limit s \<le> MAX_DELEGATION_RECORDS"

definition lineage_inv :: "lease_state \<Rightarrow> delegation_record \<Rightarrow> bool" where
  "lineage_inv s r \<longleftrightarrow>
     root_subject (dr_identity r) = root_subject (the (root_identity s))
     \<and> id_domain (dr_identity r) = id_domain (the (root_identity s))
     \<and> (case dr_parent_identity r of
          None \<Rightarrow> is_direct_child_of (dr_identity r) (the (root_identity s))
        | Some p \<Rightarrow> is_direct_child_of (dr_identity r) p \<and> p \<in> dr_identity ` set (delegations s))
     \<and> dr_created_sequence r \<le> sequence s"

definition record_inv :: "(lease_identity \<times> nat) list \<Rightarrow> lease_state \<Rightarrow> delegation_record \<Rightarrow> bool" where
  "record_inv sg s r \<longleftrightarrow>
     dr_used_bytes r = total (staged_bytes (dr_identity r)) sg
        + total (live_capacity (Some (dr_identity r))) (delegations s)
        + total (prepared_bytes (dr_identity r)) (publications s)
     \<and> dr_used_bytes r \<le> dr_peak_used_bytes r \<and> dr_peak_used_bytes r \<le> dr_capacity_bytes r
     \<and> dr_live_children r = total (live_child (Some (dr_identity r))) (delegations s)
     \<and> dr_allocation_granted_bytes r = dr_allocation_returned_bytes r
        + dr_allocation_published_bytes r + total (staged_bytes (dr_identity r)) sg
        + total (prepared_bytes (dr_identity r)) (publications s)
     \<and> dr_allocation_published_bytes r
        = total (published_bytes (dr_identity r)) (publications s)
     \<and> dr_delegated_bytes r = dr_returned_delegated_bytes r
        + total (live_capacity (Some (dr_identity r))) (delegations s)
     \<and> dr_allocation_granted_bytes r \<le> u128_max \<and> dr_delegated_bytes r \<le> u128_max
     \<and> (dr_disposition r = Returned \<longrightarrow> dr_used_bytes r = 0 \<and> dr_live_children r = 0)"

definition publication_inv :: "lease_state \<Rightarrow> publication_record \<Rightarrow> bool" where
  "publication_inv s p \<longleftrightarrow>
     0 < pub_bytes p \<and> total_bytes (pub_envelope p) = Some (pub_bytes p)
     \<and> pub_prepared_sequence p \<le> sequence s
     \<and> pub_child_identity p \<in> dr_identity ` set (delegations s)"

definition ledger_inv ::
  "nat option \<Rightarrow> nat list \<Rightarrow> (lease_identity \<times> nat) list \<Rightarrow> lease_state \<Rightarrow> bool" where
  "ledger_inv lim cs sg s \<longleftrightarrow>
     account_inv lim cs s \<and> distinct (map dr_identity (delegations s))
     \<and> distinct (map pub_binding (publications s))
     \<and> (\<forall>r\<in>set (delegations s). record_inv sg s r \<and> lineage_inv s r)
     \<and> (\<forall>p\<in>set (publications s). publication_inv s p)
     \<and> fst ` set sg \<subseteq> dr_identity ` set (delegations s)"

lemma ledger_invD:
  assumes "ledger_inv lim cs sg s"
  shows "account_inv lim cs s" "distinct (map dr_identity (delegations s))"
    "distinct (map pub_binding (publications s))"
    "r \<in> set (delegations s) \<Longrightarrow> record_inv sg s r"
    "r \<in> set (delegations s) \<Longrightarrow> lineage_inv s r"
    "p \<in> set (publications s) \<Longrightarrow> publication_inv s p"
    "fst ` set sg \<subseteq> dr_identity ` set (delegations s)"
  using assms by (auto simp: ledger_inv_def)

lemma ledger_invI:
  assumes "account_inv lim cs s" "distinct (map dr_identity (delegations s))"
    "distinct (map pub_binding (publications s))"
    "\<And>r. r \<in> set (delegations s) \<Longrightarrow> record_inv sg s r"
    "\<And>r. r \<in> set (delegations s) \<Longrightarrow> lineage_inv s r"
    "\<And>p. p \<in> set (publications s) \<Longrightarrow> publication_inv s p"
    "fst ` set sg \<subseteq> dr_identity ` set (delegations s)"
  shows "ledger_inv lim cs sg s"
  using assms by (auto simp: ledger_inv_def)

text \<open>A new lease satisfies it with no owners.\<close>

lemma ledger_inv_new: "ledger_inv lim [] [] lease_state_new"
  by (simp add: ledger_inv_def account_inv_def lease_state_new_def)

section \<open>Refusals keep the books\<close>

text \<open>A refused transition may count the refusal in a child's record; nothing else of it changes.\<close>

definition unrefused :: "delegation_record \<Rightarrow> delegation_record" where
  "unrefused r = r\<lparr>dr_refused_requests := 0, dr_refused_bytes := 0\<rparr>"

definition same_books :: "lease_state \<Rightarrow> lease_state \<Rightarrow> bool" where
  "same_books s t \<longleftrightarrow> same_accounts s t
     \<and> map unrefused (delegations t) = map unrefused (delegations s)"

lemma same_ledger_books: "same_ledger s t \<Longrightarrow> same_books s t"
  by (simp add: same_ledger_def same_books_def)

lemma same_books_trans [trans]: "same_books s t \<Longrightarrow> same_books t u \<Longrightarrow> same_books s u"
  by (auto simp: same_books_def same_accounts_def)

lemma count_child_refusal_books [simp]: "same_books s (count_child_refusal i b s)"
proof (cases "i < length (delegations s)")
  case True
  then show ?thesis
    by (auto simp: count_child_refusal_def update_delegation_def same_books_def same_accounts_def
        Let_def unrefused_def split: option.split)
next
  case False
  then show ?thesis
    by (auto simp: list_update_beyond count_child_refusal_def update_delegation_def same_books_def same_accounts_def
        Let_def split: option.split)
qed

lemma total_unrefused:
  assumes "map unrefused (delegations t) = map unrefused (delegations s)"
  shows "total (live_capacity p) (delegations t) = total (live_capacity p) (delegations s)"
    "total (live_child p) (delegations t) = total (live_child p) (delegations s)"
    "total dr_allocation_granted_bytes (delegations t) = total dr_allocation_granted_bytes (delegations s)"
    "total dr_allocation_returned_bytes (delegations t) = total dr_allocation_returned_bytes (delegations s)"
    "total dr_allocation_published_bytes (delegations t) = total dr_allocation_published_bytes (delegations s)"
  by (rule total_through [OF _ assms], simp add: shares unrefused_def)+

lemma map_identity_unrefused:
  assumes "map unrefused ds' = map unrefused ds"
  shows "map dr_identity ds' = map dr_identity ds"
proof -
  have "map dr_identity xs = map dr_identity (map unrefused xs)" for xs
    by (simp add: unrefused_def)
  then show ?thesis by (metis assms)
qed

lemma identities_unrefused:
  "map unrefused (delegations t) = map unrefused (delegations s) \<Longrightarrow>
   dr_identity ` set (delegations t) = dr_identity ` set (delegations s)"
  by (metis map_identity_unrefused set_map)

lemma record_inv_books:
  assumes "same_books s t" shows "record_inv sg t r = record_inv sg s r"
proof -
  have m: "map unrefused (delegations t) = map unrefused (delegations s)"
    and p: "publications t = publications s"
    using assms by (auto simp: same_books_def same_accounts_def)
  show ?thesis by (simp only: record_inv_def total_unrefused [OF m] p)
qed

lemma record_inv_unrefused: "record_inv sg s (unrefused r) = record_inv sg s r"
  by (simp add: record_inv_def unrefused_def)

lemma lineage_inv_unrefused: "lineage_inv s (unrefused r) = lineage_inv s r"
  by (simp add: lineage_inv_def unrefused_def split: option.split)

lemma lineage_inv_books:
  assumes "same_books s t" "lineage_inv s r" shows "lineage_inv t r"
  using assms identities_unrefused [of t s] unfolding same_books_def same_accounts_def
  by (auto simp: lineage_inv_def split: option.splits)

lemma ledger_inv_books:
  assumes "ledger_inv lim cs sg s" "same_books s t" "sequence t \<le> u128_max"
  shows "ledger_inv lim cs sg t"
proof -
  have m: "map unrefused (delegations t) = map unrefused (delegations s)"
    and a: "same_accounts s t" using assms(2) by (auto simp: same_books_def)
  have ids: "map dr_identity (delegations t) = map dr_identity (delegations s)"
    by (rule map_identity_unrefused [OF m])
  have len: "length (delegations t) = length (delegations s)"
    using m by (metis length_map)
  have "account_inv lim cs t"
    using ledger_invD(1) [OF assms(1)] a assms(3) len
    unfolding account_inv_def total_unrefused [OF m] same_accounts_def
    by (metis length_0_conv)
  moreover have "\<forall>r\<in>set (delegations t). record_inv sg t r"
    using ball_through [of "record_inv sg s" unrefused, OF record_inv_unrefused m]
      record_inv_books [OF assms(2)] ledger_invD(4) [OF assms(1)] by blast
  moreover have "\<forall>r\<in>set (delegations t). lineage_inv t r"
    using ball_through [of "lineage_inv s" unrefused, OF lineage_inv_unrefused m]
      lineage_inv_books [OF assms(2)] ledger_invD(5) [OF assms(1)] by blast
  moreover have "\<forall>p\<in>set (publications t). publication_inv t p"
    using ledger_invD(6) [OF assms(1)] a ids unfolding same_accounts_def
    by (metis (no_types, lifting) le_trans publication_inv_def set_map)
  ultimately show ?thesis
    using ledger_invD(2,3,7) [OF assms(1)] a ids identities_unrefused [OF m]
    by (simp add: ledger_inv_def same_accounts_def)
qed


text \<open>Every refusal path ends in a state with the same books and a bounded sequence.\<close>

definition refused :: "lease_state \<Rightarrow> lease_state \<Rightarrow> bool" where
  "refused s t \<longleftrightarrow> same_books s t \<and> sequence t \<le> max u128_max (sequence s)
     \<and> release_invariant_violations s \<le> release_invariant_violations t"

lemma refused_refl [simp]: "refused s s"
  by (simp add: refused_def same_books_def same_accounts_def)

lemma refused_trans: "refused s t \<Longrightarrow> refused t u \<Longrightarrow> refused s u"
  unfolding refused_def using same_books_trans by fastforce

lemma refused_next_sequence: "next_sequence s = (n, t) \<Longrightarrow> refused s t"
  using next_sequence_ledger [of s n t] next_sequence_violations [of s n t]
  by (auto simp: refused_def same_ledger_books next_sequence_def split: option.splits)

lemma refused_violation [simp]: "refused s (increment_invariant_violation s)"
  using same_ledger_books [OF increment_invariant_violation_ledger [of s]]
  by (auto simp: refused_def increment_invariant_violation_def split: option.splits)

lemma refused_semantic [simp]: "refused s (record_semantic_refusal reason i site req used aux q s)"
  using same_ledger_books [OF record_semantic_refusal_ledger [of s]]
  by (auto simp: refused_def record_semantic_refusal_def Let_def split: option.splits)

lemma refused_overflow [simp]: "refused s (s\<lparr>counter_overflowed := True\<rparr>)"
  by (simp add: refused_def same_books_def same_accounts_def)

lemma refused_count_child [simp]: "refused s (count_child_refusal i b s)"
  using count_child_refusal_books [of s i b]
  by (auto simp: refused_def count_child_refusal_def update_delegation_def Let_def
      split: option.splits)

lemma refused_root: "record_root_refusal lim what b used reason q s = (e, t) \<Longrightarrow> refused s t"
proof -
  assume "record_root_refusal lim what b used reason q s = (e, t)"
  then obtain s2 where t: "t = record_semantic_refusal (reason_code_root_reservation reason)
        (root_identity s) what (Some b) used (case lim of Some l \<Rightarrow> l | None \<Rightarrow> u64_max) q s2"
    and s2: "refused s s2"
    by (auto simp: record_root_refusal_def Let_def refused_def same_books_def same_accounts_def
        split: option.splits if_splits)
  show ?thesis unfolding t by (rule refused_trans [OF s2 refused_semantic])
qed

lemma refused_published:
  "record_published_transfer_refusal root p c bd env b opn reason q s = (e, t) \<Longrightarrow> refused s t"
  by (auto simp: record_published_transfer_refusal_def Let_def)

lemma ledger_inv_refused: "ledger_inv lim cs sg s \<Longrightarrow> refused s t \<Longrightarrow> ledger_inv lim cs sg t"
proof -
  assume inv: "ledger_inv lim cs sg s" and r: "refused s t"
  have "sequence s \<le> u128_max" using ledger_invD(1) [OF inv] by (simp add: account_inv_def)
  then show ?thesis using ledger_inv_books [OF inv] r by (simp add: refused_def max_def)
qed

section \<open>Root transitions\<close>

lemma enable_delegation_cases:
  assumes "enable_delegation lim ok root name limit s = (res, t)"
  obtains (refuse) e where "res = Err e" "refused s t"
  | (enable) u n where "next_sequence s = (n, u)" "res = Ok ()"
      "enable_delegation_reason lim root name limit u = None"
      "t = u\<lparr>root_identity := Some root, root_id := Some name, metadata_limit := limit\<rparr>"
proof -
  obtain n u where n: "next_sequence s = (n, u)" by (cases "next_sequence s")
  have r: "refused s (record_semantic_refusal a b c d e f g u)" for a b c d e f g
    by (rule refused_trans [OF refused_next_sequence [OF n] refused_semantic])
  show ?thesis
    using assms n r refuse enable
    by (auto simp: enable_delegation_def Let_def split: option.splits if_splits)
qed

lemma enable_delegation_inv:
  assumes inv: "ledger_inv lim cs sg s" and op: "enable_delegation lim ok root name limit s = (res, t)"
  shows "res \<noteq> Panicked \<and> ledger_inv lim cs sg t"
  using op
proof (cases rule: enable_delegation_cases)
  case refuse
  then show ?thesis using ledger_inv_refused [OF inv] by simp
next
  case (enable u n)
  have "ledger_inv lim cs sg u" using ledger_inv_refused [OF inv refused_next_sequence [OF enable(1)]] .
  then have "account_inv lim cs u" "fst ` set sg \<subseteq> dr_identity ` set (delegations u)"
    by (rule ledger_invD)+
  then show ?thesis using enable
    by (auto simp: ledger_inv_def account_inv_def enable_delegation_reason_def split: if_splits)
qed

lemma reserve_cases:
  assumes "reserve lim what b s = (res, t)"
  obtains (refuse) e where "res = Err e" "refused s t"
  | (grant) u n where "next_sequence s = (n, u)" "res = Ok b" "reserve_reason lim b u = None"
      "t = u\<lparr>used_bytes := used_bytes u + b, peak_bytes := max (peak_bytes u) (used_bytes u + b),
            requested_bytes := requested_bytes u + b,
            direct_granted_bytes :=
              (if root_id u \<noteq> None then direct_granted_bytes u + b else direct_granted_bytes u)\<rparr>"
proof -
  obtain n u where n: "next_sequence s = (n, u)" by (cases "next_sequence s")
  note su = refused_next_sequence [OF n]
  show ?thesis
  proof (cases "reserve_reason lim b u")
    case None
    then show ?thesis using assms n grant [OF n]
      by (auto simp: reserve_def Let_def split: if_splits)
  next
    case (Some reason)
    define v where "v = (if reason = Root_CounterOverflow then u\<lparr>counter_overflowed := True\<rparr> else u)"
    have v: "refused u v" by (simp add: v_def)
    obtain e where t: "record_root_refusal lim what b (used_bytes u) reason n v = (e, t)"
      and res: "res = Err e"
      using assms Some by (auto simp: reserve_def n Let_def v_def split: prod.splits)
    show ?thesis
      using refuse [OF res refused_trans [OF su refused_trans [OF v refused_root [OF t]]]] .
  qed
qed

lemma record_inv_cong:
  "delegations t = delegations s \<Longrightarrow> publications t = publications s \<Longrightarrow>
   record_inv sg t r = record_inv sg s r"
  by (simp add: record_inv_def)

lemma lineage_inv_cong:
  "delegations t = delegations s \<Longrightarrow> root_identity t = root_identity s \<Longrightarrow> sequence t = sequence s \<Longrightarrow>
   lineage_inv t r = lineage_inv s r"
  by (simp add: lineage_inv_def split: option.split)

lemma publication_inv_cong:
  "delegations t = delegations s \<Longrightarrow> sequence t = sequence s \<Longrightarrow> publication_inv t p = publication_inv s p"
  by (simp add: publication_inv_def)

text \<open>A transition that moves only the root's own counters.\<close>

lemma ledger_inv_root_only:
  assumes "ledger_inv lim cs sg s" "account_inv lim cs' t"
    and "delegations t = delegations s" "publications t = publications s"
      "root_identity t = root_identity s" "sequence t = sequence s"
  shows "ledger_inv lim cs' sg t"
  using assms unfolding ledger_inv_def
  by (simp add: record_inv_cong [OF assms(3,4)] lineage_inv_cong [OF assms(3,5,6)]
      publication_inv_cong [OF assms(3,6)])

lemma reserve_inv:
  assumes inv: "ledger_inv lim cs sg s" and op: "reserve lim what b s = (res, t)"
  shows "case res of Ok c \<Rightarrow> c = b \<and> ledger_inv lim (b # cs) sg t
         | Err _ \<Rightarrow> refused s t \<and> ledger_inv lim cs sg t | Panicked \<Rightarrow> False"
  using op
proof (cases rule: reserve_cases)
  case refuse
  then show ?thesis using ledger_inv_refused [OF inv] by simp
next
  case (grant u n)
  have u: "ledger_inv lim cs sg u" using ledger_inv_refused [OF inv refused_next_sequence [OF grant(1)]] .
  have "account_inv lim (b # cs) t"
    using ledger_invD(1) [OF u] grant(3,4)
    by (auto simp: account_inv_def reserve_reason_def split: if_splits option.splits)
  with u have "ledger_inv lim (b # cs) sg t"
    by (rule ledger_inv_root_only) (simp_all add: grant(4))
  then show ?thesis using grant(2) by simp
qed

lemma release_raw_inv:
  assumes inv: "ledger_inv lim cs sg s" and c: "b \<in> set cs" and op: "release_raw b s = (ok, t)"
  shows "ok \<and> ledger_inv lim (remove1 b cs) sg t
     \<and> release_invariant_violations t = release_invariant_violations s"
proof -
  obtain n u where n: "next_sequence s = (n, u)" by (cases "next_sequence s")
  have u: "ledger_inv lim cs sg u" using ledger_inv_refused [OF inv refused_next_sequence [OF n]] .
  have le: "b \<le> sum_list cs" using total_ge_mem [OF c, of id] by (simp add: total_def)
  have rm: "sum_list (remove1 b cs) = sum_list cs - b"
    using total_remove1 [OF c, of id] by (simp add: total_def)
  note acc = ledger_invD(1) [OF u, unfolded account_inv_def]
  have ub: "b \<le> used_bytes u" using acc le by linarith
  show ?thesis
  proof (cases "root_id u = None")
    case True
    then have t: "ok" "t = u\<lparr>used_bytes := used_bytes u - b\<rparr>"
      using op n ub by (auto simp: release_raw_def split: option.splits)
    have "account_inv lim (remove1 b cs) t"
      unfolding account_inv_def t(2) using acc True le by (auto simp: rm)
    with u have "ledger_inv lim (remove1 b cs) sg t"
      by (rule ledger_inv_root_only) (simp_all add: t)
    then show ?thesis using t next_sequence_violations [OF n] by simp
  next
    case False
    then have g: "direct_granted_bytes u = direct_returned_bytes u + sum_list cs"
      "direct_granted_bytes u \<le> u128_max" using acc by auto
    then have "direct_returned_bytes u + b \<le> u128_max" using le by linarith
    then have t: "ok" "t = u\<lparr>used_bytes := used_bytes u - b,
        direct_returned_bytes := direct_returned_bytes u + b\<rparr>"
      using op n ub False by (auto simp: release_raw_def split: option.splits)
    have "account_inv lim (remove1 b cs) t"
      unfolding account_inv_def t(2) using acc False le by (auto simp: rm)
    with u have "ledger_inv lim (remove1 b cs) sg t"
      by (rule ledger_inv_root_only) (simp_all add: t)
    then show ?thesis using t next_sequence_violations [OF n] by simp
  qed
qed

section \<open>Delegation\<close>

lemma delegation_indexD:
  "delegation_index s i = Some k \<Longrightarrow>
   k < length (delegations s) \<and> dr_identity (delegations s ! k) = i \<and> delegations s ! k \<in> set (delegations s)"
  by (auto simp: delegation_index_def dest: position_Some_D)

lemma delegation_index_mem:
  "i \<in> dr_identity ` set (delegations s) \<Longrightarrow> \<exists>k. delegation_index s i = Some k"
  unfolding delegation_index_def
  by (metis (mono_tags, lifting) imageE not_None_eq position_None)

lemma find_delegation_index:
  "find_delegation s i = map_option (\<lambda>k. delegations s ! k) (delegation_index s i)"
proof -
  have "find P xs = map_option (\<lambda>k. xs ! k) (position P xs)" for P and xs :: "delegation_record list"
    by (induction xs) (auto simp: option.map_comp o_def)
  then show ?thesis by (simp add: find_delegation_def delegation_index_def)
qed

lemma delegate_cases:
  assumes "delegate_from lim par ppath i lp cap s = (res, t)"
  obtains (refuse) e where "res = Err e" "refused s t"
  | (root) n u where "next_sequence s = (n, u)" "res = Ok ()" "par = None"
      "delegate_reason lim par ppath i lp cap u = None"
      "t = (debit_root cap u)\<lparr>delegations := delegations u
             @ [new_delegation_record par ppath i lp cap n]\<rparr>"
  | (child) n u p k where "next_sequence s = (n, u)" "res = Ok ()" "par = Some p"
      "delegate_reason lim par ppath i lp cap u = None" "delegation_index u p = Some k"
      "t = u\<lparr>delegations := (delegations u)[k := debit_child cap (delegations u ! k)]
             @ [new_delegation_record par ppath i lp cap n]\<rparr>"
proof -
  obtain n u where n: "next_sequence s = (n, u)" by (cases "next_sequence s")
  note su = refused_next_sequence [OF n]
  show ?thesis
  proof (cases "delegate_reason lim par ppath i lp cap u")
    case (Some reason)
    define v where "v = (if reason = Deleg_CounterOverflow then u\<lparr>counter_overflowed := True\<rparr> else u)"
    define w where "w = (case Option.bind par (delegation_index v) of
        Some k \<Rightarrow> count_child_refusal k cap v | None \<Rightarrow> v)"
    have v: "refused u v" by (simp add: v_def)
    have w: "refused v w" by (simp add: w_def split: option.split)
    obtain used limit where pu: "parent_usage lim par u = (used, limit)"
      by (cases "parent_usage lim par u")
    have t: "t = record_semantic_refusal (reason_code_delegation reason) (Some i) lp (Some cap) used
          (case limit of Some l \<Rightarrow> l | None \<Rightarrow> u64_max) n w"
      and res: "\<exists>e. res = Err e"
      using assms
      unfolding delegate_from_def n Let_def pu Some prod.case option.case v_def [symmetric] w_def [symmetric]
      by auto
    have "refused s t" unfolding t
      by (rule refused_trans [OF su refused_trans [OF v refused_trans [OF w refused_semantic]]])
    then show ?thesis using refuse res by blast
  next
    case None
    show ?thesis
    proof (cases par)
      case pn: None
      then show ?thesis using root [OF n] assms None
        by (auto simp: delegate_from_def n Let_def debit_root_def split: prod.splits)
    next
      case (Some p)
      then obtain k where k: "delegation_index u p = Some k"
        using None by (auto simp: delegate_reason_def Let_def find_delegation_index
            split: if_splits prod.splits option.splits)
      then show ?thesis using child [OF n _ Some None k] assms None Some
        by (auto simp: delegate_from_def n Let_def update_delegation_def split: prod.splits)
    qed
  qed
qed

lemma fresh_identity_shares:
  assumes inv: "ledger_inv lim cs sg s" and i: "i \<notin> dr_identity ` set (delegations s)"
  shows "total (staged_bytes i) sg = 0" "total (live_capacity (Some i)) (delegations s) = 0"
    "total (live_child (Some i)) (delegations s) = 0" "total (prepared_bytes i) (publications s) = 0"
    "total (published_bytes i) (publications s) = 0"
proof -
  show "total (staged_bytes i) sg = 0"
    using ledger_invD(7) [OF inv] i by (force simp: total_zero_iff staged_bytes_def)
  have "dr_parent_identity r \<noteq> Some i" if "r \<in> set (delegations s)" for r
    using ledger_invD(5) [OF inv that] i by (auto simp: lineage_inv_def)
  then show "total (live_capacity (Some i)) (delegations s) = 0"
    "total (live_child (Some i)) (delegations s) = 0"
    by (simp_all add: total_zero_iff shares)
  have "pub_child_identity p \<noteq> i" if "p \<in> set (publications s)" for p
    using ledger_invD(6) [OF inv that] i by (auto simp: publication_inv_def)
  then show "total (prepared_bytes i) (publications s) = 0" "total (published_bytes i) (publications s) = 0"
    by (simp_all add: total_zero_iff shares)
qed

lemma delegate_root_inv:
  assumes u: "ledger_inv lim cs sg u" and reason: "delegate_reason lim None ppath i lp cap u = None"
    and n: "n \<le> sequence u"
    and t: "t = (debit_root cap u)\<lparr>delegations := delegations u
             @ [new_delegation_record None ppath i lp cap n]\<rparr>"
  shows "ledger_inv lim cs sg t"
proof -
  note acc = ledger_invD(1) [OF u, unfolded account_inv_def]
  have new: "i \<notin> dr_identity ` set (delegations u)"
    and conf: "root_id u \<noteq> None" "root_identity u \<noteq> None" "lim \<noteq> None"
    and child: "is_direct_child_of i (the (root_identity u))"
    and room: "length (delegations u) < metadata_limit u"
    and cap: "used_bytes u + cap \<le> u64_max" "\<forall>l. lim = Some l \<longrightarrow> used_bytes u + cap \<le> l"
      "delegated_bytes u + cap \<le> u128_max"
    using reason by (auto simp: delegate_reason_def Let_def parent_usage_def image_iff
        split: if_splits option.splits)
  note fresh = fresh_identity_shares [OF u new]
  have acc': "account_inv lim cs t"
    using acc room cap unfolding account_inv_def t
    by (auto simp: debit_root_def new_delegation_record_def shares conf)
  have rec: "record_inv sg t r" if "r \<in> set (delegations t)" for r
  proof (cases "r \<in> set (delegations u)")
    case True
    then show ?thesis using ledger_invD(4) [OF u True]
      by (auto simp: t record_inv_def debit_root_def new_delegation_record_def live_capacity_def live_child_def)
  next
    case False
    then show ?thesis using that fresh
      by (simp add: t record_inv_def debit_root_def new_delegation_record_def live_capacity_def live_child_def)
  qed
  have lin: "lineage_inv t r" if "r \<in> set (delegations t)" for r
  proof (cases "r \<in> set (delegations u)")
    case True
    then show ?thesis using ledger_invD(5) [OF u True]
      by (auto simp: t lineage_inv_def debit_root_def split: option.split)
  next
    case False
    then show ?thesis using that n child
      by (simp add: t lineage_inv_def debit_root_def new_delegation_record_def is_direct_child_of_iff)
  qed
  have eq: "delegations t = delegations u @ [new_delegation_record None ppath i lp cap n]"
    "publications t = publications u" "sequence t = sequence u"
    by (simp_all add: t debit_root_def)
  show ?thesis
  proof (rule ledger_invI [OF acc' _ _ rec lin])
    show "distinct (map dr_identity (delegations t))"
      using ledger_invD(2) [OF u] new by (simp add: eq new_delegation_record_def)
    show "distinct (map pub_binding (publications t))" using ledger_invD(3) [OF u] by (simp add: eq)
    show "publication_inv t p" if "p \<in> set (publications t)" for p
      using ledger_invD(6) [OF u, of p] that by (auto simp: eq publication_inv_def)
    show "fst ` set sg \<subseteq> dr_identity ` set (delegations t)"
      using ledger_invD(7) [OF u] by (auto simp: eq)
  qed
qed

text \<open>Updating records without touching who they are keeps their lineage.\<close>

definition skeleton ::
  "delegation_record \<Rightarrow> lease_identity \<times> lease_identity option \<times> nat \<times> nat" where
  "skeleton r = (dr_identity r, dr_parent_identity r, dr_created_sequence r, dr_capacity_bytes r)"

lemma skeleton_ids:
  assumes "map skeleton ds' = map skeleton ds"
  shows "map dr_identity ds' = map dr_identity ds" "dr_identity ` set ds' = dr_identity ` set ds"
    "length ds' = length ds"
proof -
  have "map dr_identity xs = map fst (map skeleton xs)" for xs
    by (simp add: skeleton_def)
  then show a: "map dr_identity ds' = map dr_identity ds" by (metis assms)
  show "dr_identity ` set ds' = dr_identity ` set ds" using a by (metis set_map)
  show "length ds' = length ds" using assms by (metis length_map)
qed

lemma lineage_skeleton:
  assumes sk: "map skeleton (delegations t) = map skeleton (delegations s)"
    and root: "root_identity t = root_identity s" and seq: "sequence s \<le> sequence t"
    and lin: "\<And>r. r \<in> set (delegations s) \<Longrightarrow> lineage_inv s r" and r: "r \<in> set (delegations t)"
  shows "lineage_inv t r"
proof -
  have "skeleton r \<in> skeleton ` set (delegations s)" using r sk by (metis imageI set_map)
  then obtain q where q: "q \<in> set (delegations s)" "skeleton q = skeleton r" by auto
  from lin [OF q(1)] q(2) show ?thesis
    unfolding lineage_inv_def skeleton_ids(2) [OF sk] root
    using seq by (auto simp: skeleton_def split: option.splits)
qed

lemma publication_inv_ids:
  "publication_inv s p \<Longrightarrow> dr_identity ` set (delegations t) = dr_identity ` set (delegations s) \<Longrightarrow>
   sequence s \<le> sequence t \<Longrightarrow> publication_inv t p"
  by (auto simp: publication_inv_def)

text \<open>A record's invariant only looks at the shares that carry its own identity.\<close>

lemma record_inv_shares:
  assumes "record_inv sg s r"
    "total (staged_bytes (dr_identity r)) sg' = total (staged_bytes (dr_identity r)) sg"
    "total (live_capacity (Some (dr_identity r))) (delegations t) =
       total (live_capacity (Some (dr_identity r))) (delegations s)"
    "total (live_child (Some (dr_identity r))) (delegations t) =
       total (live_child (Some (dr_identity r))) (delegations s)"
    "total (prepared_bytes (dr_identity r)) (publications t) =
       total (prepared_bytes (dr_identity r)) (publications s)"
    "total (published_bytes (dr_identity r)) (publications t) =
       total (published_bytes (dr_identity r)) (publications s)"
  shows "record_inv sg' t r"
  using assms(1) unfolding record_inv_def assms(2-6) .

lemma records_update:
  assumes "distinct (map dr_identity ds)" "k < length ds" "record_inv sg t y"
    and "\<And>r. r \<in> set ds \<Longrightarrow> dr_identity r \<noteq> dr_identity (ds ! k) \<Longrightarrow> record_inv sg t r"
  shows "\<forall>r\<in>set (ds[k := y]). record_inv sg t r"
  using ball_keyed_update [of dr_identity ds k "record_inv sg t" y] assms by blast

lemma delegate_child_inv:
  assumes u: "ledger_inv lim cs sg u" and reason: "delegate_reason lim (Some p) ppath i lp cap u = None"
    and n: "n \<le> sequence u" and k: "delegation_index u p = Some k"
    and t: "t = u\<lparr>delegations := (delegations u)[k := debit_child cap (delegations u ! k)]
             @ [new_delegation_record (Some p) ppath i lp cap n]\<rparr>"
  shows "ledger_inv lim cs sg t"
proof -
  let ?q = "delegations u ! k" and ?new = "new_delegation_record (Some p) ppath i lp cap n"
  define ds where "ds = (delegations u)[k := debit_child cap ?q]"
  note kD = delegation_indexD [OF k]
  have kl: "k < length (delegations u)" and q: "?q \<in> set (delegations u)" and qi: "dr_identity ?q = p"
    using kD by auto
  note acc = ledger_invD(1) [OF u, unfolded account_inv_def]
  have new: "i \<notin> dr_identity ` set (delegations u)"
    and child: "is_direct_child_of i p" and conf: "root_id u \<noteq> None"
    and room: "length (delegations u) < metadata_limit u"
    and cap: "dr_used_bytes ?q + cap \<le> dr_capacity_bytes ?q" "dr_delegated_bytes ?q + cap \<le> u128_max"
    and live: "dr_disposition ?q = Live"
    using reason
    by (auto simp: delegate_reason_def Let_def parent_usage_def image_iff find_delegation_index k
        split: if_splits option.splits) (cases "dr_disposition ?q"; simp)
  have ip: "i \<noteq> p" using new q qi by force
  note fresh = fresh_identity_shares [OF u new]
  have tot [simp]: "total (live_capacity z) ds = total (live_capacity z) (delegations u)"
    "total (live_child z) ds = total (live_child z) (delegations u)"
    "total dr_allocation_granted_bytes ds = total dr_allocation_granted_bytes (delegations u)"
    "total dr_allocation_returned_bytes ds = total dr_allocation_returned_bytes (delegations u)"
    "total dr_allocation_published_bytes ds = total dr_allocation_published_bytes (delegations u)" for z
    unfolding ds_def by (rule total_update_same [OF kl], simp add: shares debit_child_def)+
  have len [simp]: "length ds = length (delegations u)" by (simp add: ds_def)
  have newtot [simp]: "live_capacity z ?new = (if z = Some p then cap else 0)"
    "live_child z ?new = (if z = Some p then 1 else 0)" "dr_identity ?new = i"
    "dr_allocation_granted_bytes ?new = 0" "dr_allocation_returned_bytes ?new = 0"
    "dr_allocation_published_bytes ?new = 0" for z
    by (auto simp: new_delegation_record_def shares)
  have td: "t = u\<lparr>delegations := ds @ [?new]\<rparr>" by (simp add: t ds_def)
  have acc': "account_inv lim cs t"
    using acc room conf unfolding account_inv_def td by auto
  have rq: "record_inv sg t (debit_child cap ?q)"
    using ledger_invD(4) [OF u q] cap live
    by (simp add: td record_inv_def debit_child_def qi)
  have ro: "record_inv sg t r" if "r \<in> set (delegations u)" "dr_identity r \<noteq> dr_identity ?q" for r
    by (rule record_inv_shares [OF ledger_invD(4) [OF u that(1)]]) (use that(2) qi in \<open>simp_all add: td\<close>)
  have "\<forall>r\<in>set ds. record_inv sg t r"
    unfolding ds_def by (rule records_update [OF ledger_invD(2) [OF u] kl rq ro])
  moreover have "record_inv sg t ?new"
    using fresh ip by (simp add: td record_inv_def) (simp add: new_delegation_record_def)
  ultimately have rec: "record_inv sg t r" if "r \<in> set (delegations t)" for r
    using that by (auto simp: td)
  define v where "v = u\<lparr>delegations := ds\<rparr>"
  have sk: "map skeleton (delegations v) = map skeleton (delegations u)"
    by (simp add: v_def ds_def kl skeleton_def debit_child_def)
  have lv: "lineage_inv v r" if "r \<in> set ds" for r
    using lineage_skeleton [OF sk _ _ ledger_invD(5) [OF u], of r] that by (simp add: v_def)
  have lin: "lineage_inv t r" if "r \<in> set (delegations t)" for r
  proof (cases "r = ?new")
    case True
    have "lineage_inv u ?q" by (rule ledger_invD(5) [OF u q])
    moreover have "p \<in> dr_identity ` set (delegations t)"
      using skeleton_ids(2) [OF sk] q qi by (auto simp: td v_def)
    ultimately show ?thesis using True n child qi
      by (simp add: td lineage_inv_def new_delegation_record_def is_direct_child_of_iff)
  next
    case False
    then have "r \<in> set ds" using that by (simp add: td)
    from lv [OF this] show ?thesis by (auto simp: lineage_inv_def td v_def split: option.split)
  qed
  show ?thesis
  proof (rule ledger_invI [OF acc' _ _ rec lin])
    show "distinct (map dr_identity (delegations t))"
      using ledger_invD(2) [OF u] new skeleton_ids [OF sk] by (simp add: td v_def)
    show "distinct (map pub_binding (publications t))" using ledger_invD(3) [OF u] by (simp add: td)
    show "publication_inv t p" if "p \<in> set (publications t)" for p
      using ledger_invD(6) [OF u, of p] that skeleton_ids [OF sk] by (auto simp: td v_def publication_inv_def)
    show "fst ` set sg \<subseteq> dr_identity ` set (delegations t)"
      using ledger_invD(7) [OF u] skeleton_ids [OF sk] by (auto simp: td v_def)
  qed
qed

lemma next_sequence_le: "next_sequence s = (n, u) \<Longrightarrow> \<not> counter_overflowed u \<Longrightarrow> n \<le> sequence u"
  by (auto simp: next_sequence_def split: option.splits)

lemma delegate_inv:
  assumes inv: "ledger_inv lim cs sg s" and op: "delegate_from lim par ppath i lp cap s = (res, t)"
  shows "res \<noteq> Panicked \<and> ledger_inv lim cs sg t \<and> ((\<exists>e. res = Err e) \<longrightarrow> refused s t)"
  using op
proof (cases rule: delegate_cases)
  case refuse
  then show ?thesis using ledger_inv_refused [OF inv] by simp
next
  case (root n u)
  have "n \<le> sequence u" using root(1,4)
    by (intro next_sequence_le) (auto simp: delegate_reason_def Let_def split: if_splits prod.splits)
  then show ?thesis
    using delegate_root_inv [OF ledger_inv_refused [OF inv refused_next_sequence [OF root(1)]]] root by simp
next
  case (child n u p k)
  have "n \<le> sequence u" using child(1,4)
    by (intro next_sequence_le) (auto simp: delegate_reason_def Let_def split: if_splits prod.splits)
  then show ?thesis
    using delegate_child_inv [OF ledger_inv_refused [OF inv refused_next_sequence [OF child(1)]]] child by simp
qed

end
