(* ===== verification/Lease_Charges.thy ===== *)
theory Lease_Charges
  imports Lease_Invariant
begin

text \<open>
  Preservation of the lease invariant by the transitions that move bytes inside one delegated
  envelope: granting and releasing a charge, preparing, publishing and rolling back a
  publication, and closing a destination. Each lemma also shows that the transition returns (no
  \<open>expect\<close> of the source fails) under the invariant.
\<close>

text \<open>The common shape: one record changes its byte counters, the owners change with it.\<close>

lemma ledger_inv_charge:
  assumes u: "ledger_inv lim cs sg u" and k: "delegation_index u i = Some k"
    and t: "delegations t = (delegations u)[k := r']" "root_identity t = root_identity u"
      "sequence t = sequence u"
    and same: "dr_identity r' = i" "dr_parent_identity r' = dr_parent_identity (delegations u ! k)"
      "dr_capacity_bytes r' = dr_capacity_bytes (delegations u ! k)"
      "dr_disposition r' = dr_disposition (delegations u ! k)"
      "dr_created_sequence r' = dr_created_sequence (delegations u ! k)"
    and others: "\<And>j. j \<noteq> i \<Longrightarrow> total (staged_bytes j) sg' = total (staged_bytes j) sg"
      "\<And>j. j \<noteq> i \<Longrightarrow> total (prepared_bytes j) (publications t) = total (prepared_bytes j) (publications u)"
      "\<And>j. j \<noteq> i \<Longrightarrow> total (published_bytes j) (publications t) = total (published_bytes j) (publications u)"
    and rec: "(\<And>z. total (live_capacity z) (delegations t) = total (live_capacity z) (delegations u)) \<Longrightarrow>
       (\<And>z. total (live_child z) (delegations t) = total (live_child z) (delegations u)) \<Longrightarrow>
       record_inv sg' t r'"
    and acc: "(\<And>z. total (live_capacity z) (delegations t) = total (live_capacity z) (delegations u)) \<Longrightarrow>
       account_inv lim cs t"
    and pubs: "distinct (map pub_binding (publications t))"
      "\<And>p. p \<in> set (publications t) \<Longrightarrow> publication_inv u p"
    and sg': "fst ` set sg' \<subseteq> dr_identity ` set (delegations u)"
  shows "ledger_inv lim cs sg' t"
proof -
  note kD = delegation_indexD [OF k]
  have tot: "total (live_capacity z) (delegations t) = total (live_capacity z) (delegations u)"
    "total (live_child z) (delegations t) = total (live_child z) (delegations u)" for z
    unfolding t(1) using kD same by (auto intro!: total_update_same simp: shares)
  have sk: "map skeleton (delegations t) = map skeleton (delegations u)"
    unfolding t(1) using kD same by (simp add: skeleton_def)
  note ids = skeleton_ids [OF sk]
  have ro: "record_inv sg' t r" if "r \<in> set (delegations u)" "dr_identity r \<noteq> dr_identity (delegations u ! k)" for r
    by (rule record_inv_shares [OF ledger_invD(4) [OF u that(1)]])
      (use that(2) kD tot others in auto)
  have "\<forall>r\<in>set (delegations t). record_inv sg' t r"
    unfolding t(1) by (rule records_update [OF ledger_invD(2) [OF u]]) (use kD rec [OF tot] ro in auto)
  moreover have "lineage_inv t r" if "r \<in> set (delegations t)" for r
    using lineage_skeleton [OF sk t(2) _ ledger_invD(5) [OF u] that] t(3) by simp
  moreover have "publication_inv t p" if "p \<in> set (publications t)" for p
    using pubs(2) [OF that] by (simp only: publication_inv_def ids t(3))
  ultimately show ?thesis
    using acc [OF tot(1)] pubs(1) ids ledger_invD(2) [OF u] sg'
    by (intro ledger_invI) auto
qed

lemma root_configured:
  assumes "ledger_inv lim cs sg s" "i \<in> dr_identity ` set (delegations s)"
  obtains root name l where "root_identity s = Some root" "root_id s = Some name" "lim = Some l"
    "is_root root"
  using ledger_invD(1) [OF assms(1)] assms(2) that by (auto simp: account_inv_def)

section \<open>Granting a charge\<close>

lemma reserve_delegated_inv:
  assumes inv: "ledger_inv lim cs sg s" and i: "i \<in> dr_identity ` set (delegations s)"
    and cap: "\<And>r. r \<in> set (delegations s) \<Longrightarrow> dr_identity r = i \<Longrightarrow> dr_capacity_bytes r = cap"
    and op: "reserve_delegated_charge i cap lp site b s = (res, t)"
  shows "case res of Ok c \<Rightarrow> c = (i, b) \<and> ledger_inv lim cs ((i, b) # sg) t
           \<and> release_invariant_violations t = release_invariant_violations s
         | Err _ \<Rightarrow> refused s t | Panicked \<Rightarrow> False"
proof -
  obtain n u where n: "next_sequence s = (n, u)" by (cases "next_sequence s")
  note su = refused_next_sequence [OF n]
  have u: "ledger_inv lim cs sg u" by (rule ledger_inv_refused [OF inv su])
  have ds: "delegations u = delegations s"
    using next_sequence_ledger [OF n] by (simp add: same_ledger_def)
  obtain k where k: "delegation_index u i = Some k" using delegation_index_mem i ds by metis
  obtain root name l where conf: "root_identity u = Some root" "root_id u = Some name" "lim = Some l"
    using root_configured [OF u] i ds by metis
  let ?q = "delegations u ! k"
  note kD = delegation_indexD [OF k]
  have rq: "record_inv sg u ?q" using ledger_invD(4) [OF u] kD by blast
  have capq: "dr_capacity_bytes ?q = cap" using cap kD ds by simp
  show ?thesis
  proof (cases "reserve_delegated_reason cap b ?q u")
    case (Some reason)
    define v where "v = (if reason = Resv_CounterOverflow then u\<lparr>counter_overflowed := True\<rparr> else u)"
    have v: "refused u v" by (simp add: v_def)
    have "\<exists>e. res = Err e" and t: "t = record_semantic_refusal (reason_code_delegated_reservation reason)
        (Some i) site (Some b) (dr_used_bytes ?q) cap n (count_child_refusal k b v)"
      using op unfolding reserve_delegated_charge_def n prod.case conf k Let_def Some option.case
        v_def [symmetric] by auto
    moreover have "refused s t" unfolding t
      by (rule refused_trans [OF su refused_trans [OF v refused_trans [OF refused_count_child refused_semantic]]])
    ultimately show ?thesis by auto
  next
    case None
    then have guard: "\<not> counter_overflowed u" "dr_disposition ?q = Live"
      "dr_allocation_granted_bytes ?q + b \<le> u128_max" "child_granted_bytes u + b \<le> u128_max"
      "dr_used_bytes ?q + b \<le> cap"
      by (auto simp: reserve_delegated_reason_def split: if_splits option.splits)
        (cases "dr_disposition ?q"; simp)
    have res: "res = Ok (i, b)"
      and t: "t = update_delegation k (grant_child b) (u\<lparr>child_granted_bytes := child_granted_bytes u + b\<rparr>)"
      using op by (simp_all add: reserve_delegated_charge_def n conf k Let_def None)
    have dst: "delegations t = (delegations u)[k := grant_child b ?q]" by (simp add: t update_delegation_def)
    have fields: "root_identity t = root_identity u" "sequence t = sequence u" "publications t = publications u"
      "child_granted_bytes t = child_granted_bytes u + b" "root_id t = root_id u"
      "used_bytes t = used_bytes u" "peak_bytes t = peak_bytes u" "direct_granted_bytes t = direct_granted_bytes u"
      "direct_returned_bytes t = direct_returned_bytes u" "delegated_bytes t = delegated_bytes u"
      "returned_delegated_bytes t = returned_delegated_bytes u" "child_returned_bytes t = child_returned_bytes u"
      "child_published_bytes t = child_published_bytes u" "metadata_limit t = metadata_limit u"
      "release_invariant_violations t = release_invariant_violations u"
      by (simp_all add: t update_delegation_def)
    have "ledger_inv lim cs ((i, b) # sg) t"
    proof (rule ledger_inv_charge [OF u k dst])
      assume tot: "\<And>z. total (live_capacity z) (delegations t) = total (live_capacity z) (delegations u)"
      show "account_inv lim cs t"
        using ledger_invD(1) [OF u] guard kD conf(2)
          total_update_add [of k "delegations u" dr_allocation_granted_bytes "grant_child b ?q" b]
          total_update_same [of k "delegations u" dr_allocation_returned_bytes "grant_child b ?q"]
          total_update_same [of k "delegations u" dr_allocation_published_bytes "grant_child b ?q"]
        unfolding account_inv_def fields tot by (simp add: dst grant_child_def)
      assume "\<And>z. total (live_child z) (delegations t) = total (live_child z) (delegations u)"
      with tot show "record_inv ((i, b) # sg) t (grant_child b ?q)"
        using rq kD guard capq
        unfolding record_inv_def fields by (auto simp: grant_child_def staged_bytes_def)
    qed (use kD ledger_invD(3,6,7) [OF u] in
        \<open>auto simp: fields grant_child_def staged_bytes_def\<close>)
    then show ?thesis using res fields next_sequence_violations [OF n] by simp
  qed
qed

section \<open>Releasing a charge\<close>

text \<open>Returned bytes never outgrow granted bytes, in one record or over all of them.\<close>

lemma returned_room:
  assumes u: "ledger_inv lim cs sg u" and k: "k < length (delegations u)"
    and b: "b \<le> total (staged_bytes (dr_identity (delegations u ! k))) sg
      + total (prepared_bytes (dr_identity (delegations u ! k))) (publications u)"
  shows "dr_allocation_returned_bytes (delegations u ! k) + b \<le> u128_max"
    "child_returned_bytes u + b \<le> u128_max"
    "dr_allocation_published_bytes (delegations u ! k) + b \<le> u128_max"
    "child_published_bytes u + b \<le> u128_max"
    "b \<le> dr_used_bytes (delegations u ! k)"
proof -
  have rec: "record_inv sg u r" if "r \<in> set (delegations u)" for r using ledger_invD(4) [OF u that] .
  have q: "record_inv sg u (delegations u ! k)" using rec k by simp
  note acc = ledger_invD(1) [OF u]
  have "total dr_allocation_returned_bytes (delegations u) + b \<le> total dr_allocation_granted_bytes (delegations u)"
    by (rule total_mono_at [OF _ k]) (use rec q b in \<open>auto simp: record_inv_def\<close>)
  then show "child_returned_bytes u + b \<le> u128_max" using acc by (simp add: account_inv_def)
  have "total dr_allocation_published_bytes (delegations u) + b \<le> total dr_allocation_granted_bytes (delegations u)"
    by (rule total_mono_at [OF _ k]) (use rec q b in \<open>auto simp: record_inv_def\<close>)
  then show "child_published_bytes u + b \<le> u128_max" using acc by (simp add: account_inv_def)
qed (use ledger_invD(4) [OF u, of "delegations u ! k"] k b in \<open>auto simp: record_inv_def\<close>)

lemma staged_remove1:
  "c \<in> set sg \<Longrightarrow> total (staged_bytes j) (remove1 c sg) = total (staged_bytes j) sg - staged_bytes j c"
  by (rule total_remove1)

lemma release_delegated_inv:
  assumes inv: "ledger_inv lim cs sg s" and c: "(i, b) \<in> set sg"
    and op: "t = release_delegated i b s"
  shows "ledger_inv lim cs (remove1 (i, b) sg) t
     \<and> ((\<forall>r\<in>set (delegations s). dr_identity r = i \<longrightarrow> dr_disposition r = Live) \<longrightarrow>
          release_invariant_violations t = release_invariant_violations s)"
proof -
  obtain n u where n: "next_sequence s = (n, u)" by (cases "next_sequence s")
  note su = refused_next_sequence [OF n]
  have u: "ledger_inv lim cs sg u" by (rule ledger_inv_refused [OF inv su])
  have ds: "delegations u = delegations s"
    using next_sequence_ledger [OF n] by (simp add: same_ledger_def)
  have "i \<in> dr_identity ` set (delegations u)" using ledger_invD(7) [OF u] c by force
  then obtain k where k: "delegation_index u i = Some k" using delegation_index_mem by metis
  let ?q = "delegations u ! k" and ?sg = "remove1 (i, b) sg"
  note kD = delegation_indexD [OF k]
  have b: "b \<le> total (staged_bytes i) sg" using total_ge_mem [OF c, of "staged_bytes i"] by (simp add: staged_bytes_def)
  have q: "record_inv sg u ?q" using ledger_invD(4) [OF u] kD by blast
  note room = returned_room [OF u, of k b]
  have rm: "total (staged_bytes i) ?sg = total (staged_bytes i) sg - b"
    "j \<noteq> i \<Longrightarrow> total (staged_bytes j) ?sg = total (staged_bytes j) sg" for j
    using staged_remove1 [OF c] by (auto simp: staged_bytes_def)
  have sub: "fst ` set ?sg \<subseteq> dr_identity ` set (delegations u)"
    using ledger_invD(7) [OF u] set_remove1_subset [of "(i, b)" sg] by blast
  show ?thesis
  proof (cases "dr_disposition ?q = Live")
    case False
    then have "dr_disposition ?q = Returned" by (cases "dr_disposition ?q") auto
    then have "b = 0" using q b kD by (auto simp: record_inv_def)
    have t: "t = increment_invariant_violation u"
      using op False by (simp add: release_delegated_def n k)
    have "ledger_inv lim cs ?sg u"
    proof (rule ledger_invI [OF ledger_invD(1,2,3) [OF u] _ ledger_invD(5,6) [OF u] sub])
      fix r assume "r \<in> set (delegations u)"
      have "total (staged_bytes j) ?sg = total (staged_bytes j) sg" for j
        using rm \<open>b = 0\<close> by (cases "j = i") auto
      then show "record_inv ?sg u r"
        by (intro record_inv_shares [OF ledger_invD(4) [OF u \<open>r \<in> set (delegations u)\<close>]]) simp_all
    qed
    then have "ledger_inv lim cs ?sg t" unfolding t by (rule ledger_inv_refused) simp
    then show ?thesis using False kD ds by metis
  next
    case True
    have "b \<le> total (staged_bytes (dr_identity ?q)) sg
      + total (prepared_bytes (dr_identity ?q)) (publications u)" using b kD by simp
    note room = returned_room [OF u _ this]
    have kl: "k < length (delegations u)" using kD by simp
    define r' where "r' = ?q\<lparr>dr_used_bytes := dr_used_bytes ?q - b,
          dr_allocation_returned_bytes := dr_allocation_returned_bytes ?q + b\<rparr>"
    have t: "t = u\<lparr>child_returned_bytes := child_returned_bytes u + b, delegations := (delegations u)[k := r']\<rparr>"
      using op True room [OF kl]
      by (auto simp: release_delegated_def n k Let_def update_delegation_def r'_def not_less split: option.splits)
    have dst: "delegations t = (delegations u)[k := r']" by (simp add: t)
    have "ledger_inv lim cs ?sg t"
    proof (rule ledger_inv_charge [OF u k dst])
      assume tot: "\<And>z. total (live_capacity z) (delegations t) = total (live_capacity z) (delegations u)"
      have "total dr_allocation_granted_bytes (delegations t) = total dr_allocation_granted_bytes (delegations u)"
        "total dr_allocation_published_bytes (delegations t) = total dr_allocation_published_bytes (delegations u)"
        "total dr_allocation_returned_bytes (delegations t) = total dr_allocation_returned_bytes (delegations u) + b"
        unfolding dst
        by (rule total_update_same [OF kl], simp add: r'_def,
            rule total_update_same [OF kl], simp add: r'_def,
            rule total_update_add [OF kl], simp add: r'_def)
      then show "account_inv lim cs t"
        using ledger_invD(1) [OF u] tot unfolding account_inv_def by (simp add: t)
      assume "\<And>z. total (live_child z) (delegations t) = total (live_child z) (delegations u)"
      with tot show "record_inv ?sg t r'"
        using q kD rm(1) b True unfolding record_inv_def by (simp add: t r'_def) auto
    qed (use kD rm ledger_invD(3,6) [OF u] sub in \<open>auto simp: t r'_def\<close>)
    then show ?thesis using next_sequence_violations [OF n] by (simp add: t)
  qed
qed

section \<open>Publication\<close>

text \<open>What every transition on a child of a configured root starts from.\<close>

lemma child_transition:
  assumes inv: "ledger_inv lim cs sg s" and i: "i \<in> dr_identity ` set (delegations s)"
  obtains n u k root name where "next_sequence s = (n, u)" "refused s u" "ledger_inv lim cs sg u"
    "delegations u = delegations s" "publications u = publications s"
    "delegation_index u i = Some k" "k < length (delegations u)" "dr_identity (delegations u ! k) = i"
    "delegations u ! k \<in> set (delegations u)" "record_inv sg u (delegations u ! k)"
    "lineage_inv u (delegations u ! k)" "root_identity u = Some root" "root_id u = Some name" "is_root root"
    "release_invariant_violations u = release_invariant_violations s"
    "\<not> counter_overflowed u \<longrightarrow> sequence s < n \<and> n = sequence u"
proof -
  obtain n u where n: "next_sequence s = (n, u)" by (cases "next_sequence s")
  note su = refused_next_sequence [OF n]
  have u: "ledger_inv lim cs sg u" by (rule ledger_inv_refused [OF inv su])
  have ds: "delegations u = delegations s" "publications u = publications s"
    using next_sequence_ledger [OF n] by (auto simp: same_ledger_def same_accounts_def)
  obtain k where k: "delegation_index u i = Some k" using delegation_index_mem i ds by metis
  obtain root name where conf: "root_identity u = Some root" "root_id u = Some name" "is_root root"
    using root_configured [OF u] i ds by metis
  have "sequence s \<le> u128_max" using ledger_invD(1) [OF inv] by (simp add: account_inv_def)
  note seq = next_sequence_fresh [OF n this]
  show ?thesis
    using that [OF n su u ds k] delegation_indexD [OF k] conf ledger_invD(4,5) [OF u]
      next_sequence_violations [OF n] seq by force
qed

lemma lineage_related:
  assumes "lineage_inv u q" "root_identity u = Some root" "is_root root"
  shows "identity_related root (dr_parent_identity q) (dr_identity q)"
  using assms by (auto simp: lineage_inv_def identity_related_def split: option.splits)

lemma prepare_inv:
  assumes inv: "ledger_inv lim cs sg s" and c: "(i, b) \<in> set sg"
    and op: "prepare_published_transfer i b bind env s = (res, t)"
  shows "case res of
      Ok n \<Rightarrow> ledger_inv lim cs (remove1 (i, b) sg) t
        \<and> release_invariant_violations t = release_invariant_violations s
        \<and> (\<exists>p. publications t = publications s @ [p] \<and> pub_disposition p = Prepared
             \<and> matches_prepared \<lparr>pt_child_identity = i, pt_binding = bind, pt_envelope = env,
                  pt_bytes = b, pt_prepared_sequence = n\<rparr> p)
        \<and> bind \<notin> pub_binding ` set (publications s)
        \<and> delegations t = delegations s
    | Err _ \<Rightarrow> refused s t \<and> release_invariant_violations t = release_invariant_violations s
    | Panicked \<Rightarrow> False"
proof -
  have "i \<in> dr_identity ` set (delegations s)" using ledger_invD(7) [OF inv] c by force
  then obtain n u k root name where n: "next_sequence s = (n, u)" and su: "refused s u"
    and u: "ledger_inv lim cs sg u" and ds: "delegations u = delegations s" "publications u = publications s"
    and k: "delegation_index u i = Some k"
    and kD: "k < length (delegations u)" "dr_identity (delegations u ! k) = i"
      "delegations u ! k \<in> set (delegations u)"
    and q: "record_inv sg u (delegations u ! k)"
    and conf: "root_identity u = Some root" "root_id u = Some name"
    and viol: "release_invariant_violations u = release_invariant_violations s"
    and seq: "\<not> counter_overflowed u \<longrightarrow> sequence s < n \<and> n = sequence u"
    using child_transition [OF inv] by metis
  let ?q = "delegations u ! k" and ?sg = "remove1 (i, b) sg"
  show ?thesis
  proof (cases "prepare_reason ?q b bind env u")
    case (Some reason)
    obtain e where e: "record_published_transfer_refusal root (dr_parent_identity ?q) i bind env b
        Op_Prepare reason n u = (e, t)" and res: "res = Err e"
      using op by (auto simp: prepare_published_transfer_def n conf k Let_def Some split: prod.splits)
    have "release_invariant_violations t = release_invariant_violations u"
      using e by (auto simp: record_published_transfer_refusal_def Let_def)
    then show ?thesis using refused_trans [OF su refused_published [OF e]] res viol by simp
  next
    case None
    let ?pt = "\<lparr>pt_child_identity = i, pt_binding = bind, pt_envelope = env, pt_bytes = b,
        pt_prepared_sequence = n\<rparr>"
    define p where "p = prepared_record (dr_parent_identity ?q) ?pt"
    have pf: "pub_disposition p = Prepared" "pub_child_identity p = i" "pub_bytes p = b"
      "pub_binding p = bind" "matches_prepared ?pt p" "pub_envelope p = env"
      "pub_prepared_sequence p = n"
      by (simp_all add: p_def prepared_record_def matches_prepared_def)
    have guard: "0 < b" "total_bytes env = Some b" "bind \<notin> pub_binding ` set (publications u)"
      "length (publications u) < metadata_limit u" "\<not> counter_overflowed u"
      using None by (auto simp: prepare_reason_def image_iff split: if_splits)
    have res: "res = Ok n" and t: "t = u\<lparr>publications := publications u @ [p]\<rparr>"
      using op by (auto simp: prepare_published_transfer_def n conf k Let_def None p_def)
    have dst: "delegations t = (delegations u)[k := ?q]" by (simp add: t)
    have rm: "total (staged_bytes i) ?sg = total (staged_bytes i) sg - b"
      "j \<noteq> i \<Longrightarrow> total (staged_bytes j) ?sg = total (staged_bytes j) sg" for j
      using staged_remove1 [OF c] by (auto simp: staged_bytes_def)
    have b: "b \<le> total (staged_bytes i) sg"
      using total_ge_mem [OF c, of "staged_bytes i"] by (simp add: staged_bytes_def)
    have sub: "fst ` set ?sg \<subseteq> dr_identity ` set (delegations u)"
      using ledger_invD(7) [OF u] set_remove1_subset [of "(i, b)" sg] by blast
    have newp: "publication_inv u p"
      using guard seq kD pf by (auto simp: publication_inv_def)
    have "ledger_inv lim cs ?sg t"
    proof (rule ledger_inv_charge [OF u k dst])
      show "account_inv lim cs t"
        using ledger_invD(1) [OF u] guard kD conf unfolding account_inv_def by (auto simp: t)
      show "record_inv ?sg t ?q"
        using q kD rm(1) b pf unfolding record_inv_def by (auto simp: t shares)
      show "publication_inv u x" if "x \<in> set (publications t)" for x
        using that newp ledger_invD(6) [OF u] by (auto simp: t)
    qed (use kD rm sub guard pf ledger_invD(3) [OF u] in \<open>auto simp: t shares\<close>)
    then show ?thesis using res viol pf guard ds by (auto simp: t)
  qed
qed

text \<open>Resolving a prepared record: its bytes leave the prepared share of the child.\<close>

lemma resolve_shares:
  assumes m: "m < length ps" "pub_disposition (ps ! m) = Prepared"
    and p': "pub_child_identity p' = pub_child_identity (ps ! m)" "pub_bytes p' = pub_bytes (ps ! m)"
      "pub_disposition p' \<noteq> Prepared"
  shows "total (prepared_bytes j) (ps[m := p']) = total (prepared_bytes j) ps
      - (if j = pub_child_identity (ps ! m) then pub_bytes (ps ! m) else 0)"
    "total (published_bytes j) (ps[m := p']) = total (published_bytes j) ps
      + (if j = pub_child_identity (ps ! m) \<and> pub_disposition p' = Published then pub_bytes (ps ! m) else 0)"
    "pub_bytes (ps ! m) \<le> total (prepared_bytes (pub_child_identity (ps ! m))) ps"
proof -
  show "total (prepared_bytes j) (ps[m := p']) = total (prepared_bytes j) ps
      - (if j = pub_child_identity (ps ! m) then pub_bytes (ps ! m) else 0)"
    by (rule total_update_sub [OF m(1)]) (use m(2) p' in \<open>auto simp: shares\<close>)
  show "total (published_bytes j) (ps[m := p']) = total (published_bytes j) ps
      + (if j = pub_child_identity (ps ! m) \<and> pub_disposition p' = Published then pub_bytes (ps ! m) else 0)"
    by (rule total_update_add [OF m(1)]) (use m(2) p' in \<open>auto simp: shares\<close>)
  show "pub_bytes (ps ! m) \<le> total (prepared_bytes (pub_child_identity (ps ! m))) ps"
    using total_ge_nth [OF m(1), of "prepared_bytes (pub_child_identity (ps ! m))"] m(2)
    by (simp add: prepared_bytes_def)
qed

lemma set_pubs_update:
  "x \<in> set (ps[m := p']) \<Longrightarrow> x = p' \<or> x \<in> set ps"
  using set_update_subset_insert by fastforce

text \<open>
  The ledger effect of resolving: \<open>f\<close> moves the bytes of the child record, \<open>p'\<close> is the resolved
  publication. Publication and rollback are the two instances.
\<close>

lemma resolve_inv:
  assumes u: "ledger_inv lim cs sg u" and k: "delegation_index u i = Some k"
    and m: "m < length (publications u)" "pub_disposition (publications u ! m) = Prepared"
      "pub_child_identity (publications u ! m) = i" "pub_bytes (publications u ! m) = b"
    and p': "pub_child_identity p' = i" "pub_bytes p' = b" "pub_disposition p' \<noteq> Prepared"
      "pub_binding p' = pub_binding (publications u ! m)"
      "pub_envelope p' = pub_envelope (publications u ! m)"
      "pub_prepared_sequence p' = pub_prepared_sequence (publications u ! m)"
    and live: "dr_disposition (delegations u ! k) = Live"
    and t: "delegations t = (delegations u)[k := r']" "publications t = (publications u)[m := p']"
      "child_published_bytes t = child_published_bytes u + (if pub_disposition p' = Published then b else 0)"
      "child_returned_bytes t = child_returned_bytes u + (if pub_disposition p' = Published then 0 else b)"
      "used_bytes t = used_bytes u" "peak_bytes t = peak_bytes u" "root_id t = root_id u"
      "root_identity t = root_identity u" "sequence t = sequence u"
      "direct_granted_bytes t = direct_granted_bytes u" "direct_returned_bytes t = direct_returned_bytes u"
      "delegated_bytes t = delegated_bytes u" "returned_delegated_bytes t = returned_delegated_bytes u"
      "child_granted_bytes t = child_granted_bytes u" "metadata_limit t = metadata_limit u"
    and r': "r' = (delegations u ! k)\<lparr>dr_used_bytes := dr_used_bytes (delegations u ! k) - b,
        dr_allocation_published_bytes := dr_allocation_published_bytes (delegations u ! k)
           + (if pub_disposition p' = Published then b else 0),
        dr_allocation_returned_bytes := dr_allocation_returned_bytes (delegations u ! k)
           + (if pub_disposition p' = Published then 0 else b)\<rparr>"
  shows "ledger_inv lim cs sg t"
proof -
  let ?q = "delegations u ! k"
  note kD = delegation_indexD [OF k]
  have q: "record_inv sg u ?q" using ledger_invD(4) [OF u] kD by blast
  have kl: "k < length (delegations u)" using kD by simp
  note res = resolve_shares [OF m(1,2), of p', unfolded m(3,4), OF p'(1,2,3)]
  note dst = t(1,2)
  have mem: "publications u ! m \<in> set (publications u)" using m(1) by simp
  show ?thesis
  proof (rule ledger_inv_charge [OF u k dst(1)])
    assume tot: "\<And>z. total (live_capacity z) (delegations t) = total (live_capacity z) (delegations u)"
    have "total dr_allocation_granted_bytes (delegations t) = total dr_allocation_granted_bytes (delegations u)"
      "total dr_allocation_published_bytes (delegations t) = total dr_allocation_published_bytes (delegations u)
         + (if pub_disposition p' = Published then b else 0)"
      "total dr_allocation_returned_bytes (delegations t) = total dr_allocation_returned_bytes (delegations u)
         + (if pub_disposition p' = Published then 0 else b)"
      unfolding dst
      by (rule total_update_same [OF kl], simp add: r',
          rule total_update_add [OF kl], simp add: r',
          rule total_update_add [OF kl], simp add: r')
    then show "account_inv lim cs t"
      using ledger_invD(1) [OF u] tot m(1) unfolding account_inv_def by (auto simp: t)
    assume "\<And>z. total (live_child z) (delegations t) = total (live_child z) (delegations u)"
    with tot show "record_inv sg t r'"
      using q kD res live unfolding record_inv_def dst(2) by (auto simp: r')
  next
    show "publication_inv u x" if "x \<in> set (publications t)" for x
      using set_pubs_update [of x "publications u" m p'] that ledger_invD(6) [OF u] mem
        ledger_invD(6) [OF u mem] p' m
      by (auto simp: dst publication_inv_def)
    show "distinct (map pub_binding (publications t))"
      using ledger_invD(3) [OF u] m(1) p' by (simp add: dst)
  qed (use kD res ledger_invD(7) [OF u] in \<open>auto simp: t r' dst\<close>)
qed

lemma matched_publication:
  assumes inv: "ledger_inv lim cs sg s" and m: "position (matches_prepared pt) (publications s) = Some m"
  shows "m < length (publications s)" "matches_prepared pt (publications s ! m)" "0 < pt_bytes pt"
    "total_bytes (pt_envelope pt) = Some (pt_bytes pt)" "pt_prepared_sequence pt \<le> sequence s"
  using position_Some_D [OF m] ledger_invD(6) [OF inv, of "publications s ! m"]
  by (auto simp: publication_inv_def matches_prepared_def)

definition publish_result :: "prepared_transfer \<Rightarrow> nat \<Rightarrow> publication_record \<Rightarrow> u8 list \<Rightarrow> publication_record" where
  "publish_result pt n p h = p\<lparr>pub_disposition := Published, pub_resolved_sequence := Some n,
     pub_published_receipt_root := Some h\<rparr>"

lemma publish_inv:
  assumes inv: "ledger_inv lim cs sg s" and i: "pt_child_identity pt \<in> dr_identity ` set (delegations s)"
    and op: "publish_prepared_transfer pt s = (res, t)"
  shows "case res of
      Ok d \<Rightarrow> ledger_inv lim cs sg t
        \<and> release_invariant_violations t = release_invariant_violations s
        \<and> ptr_verify_for d (ptr_root_identity d) (ptr_parent_identity d) (ptr_child_identity d)
             (ptr_binding d) (ptr_envelope d) = Inr ()
        \<and> ptr_published_sequence d \<le> sequence t \<and> sequence s < ptr_published_sequence d
        \<and> (\<exists>m. position (matches_prepared pt) (publications s) = Some m
             \<and> pub_disposition (publications s ! m) = Prepared
             \<and> matches_published d (publications s ! m)
             \<and> publications t = (publications s)[m := publish_result pt (ptr_published_sequence d)
                  (publications s ! m) (ptr_receipt_root d)])
        \<and> \<not> counter_overflowed t
        \<and> map (\<lambda>r. (skeleton r, dr_disposition r)) (delegations t)
            = map (\<lambda>r. (skeleton r, dr_disposition r)) (delegations s)
    | Err e \<Rightarrow> refused s t \<and> release_invariant_violations t = release_invariant_violations s
    | Panicked \<Rightarrow> False"
proof -
  obtain n u k root name where n: "next_sequence s = (n, u)" and su: "refused s u"
    and u: "ledger_inv lim cs sg u" and ds: "delegations u = delegations s" "publications u = publications s"
    and k: "delegation_index u (pt_child_identity pt) = Some k"
    and kD: "k < length (delegations u)" "dr_identity (delegations u ! k) = pt_child_identity pt"
      "delegations u ! k \<in> set (delegations u)"
    and lin: "lineage_inv u (delegations u ! k)"
    and conf: "root_identity u = Some root" "is_root root"
    and viol: "release_invariant_violations u = release_invariant_violations s"
    and seq: "\<not> counter_overflowed u \<longrightarrow> sequence s < n \<and> n = sequence u"
    using child_transition [OF inv i] by metis
  let ?q = "delegations u ! k"
  show ?thesis
  proof (cases "publish_reason pt ?q (position (matches_prepared pt) (publications u)) u")
    case (Some reason)
    obtain e where e: "record_published_transfer_refusal root (dr_parent_identity ?q) (pt_child_identity pt)
        (pt_binding pt) (pt_envelope pt) (pt_bytes pt) Op_Publish reason n u = (e, t)" and res: "res = Err e"
      using op by (auto simp: publish_prepared_transfer_def n conf k Let_def Some split: prod.splits)
    have "release_invariant_violations t = release_invariant_violations u"
      using e by (auto simp: record_published_transfer_refusal_def Let_def)
    then show ?thesis using refused_trans [OF su refused_published [OF e]] res viol by simp
  next
    case None
    then obtain m where m: "position (matches_prepared pt) (publications u) = Some m"
      "pub_disposition (publications u ! m) = Prepared" and live: "dr_disposition ?q = Live"
      and ov: "\<not> counter_overflowed u"
      by (auto simp: publish_reason_def split: if_splits option.splits)
    note match = matched_publication [OF u m(1)]
    have before: "pt_prepared_sequence pt < n"
      using matched_publication(5) [OF inv, of pt m] m(1) ds seq ov by simp
    define d0 where "d0 = publish_receipt_of root (dr_parent_identity ?q) pt n"
    define d where "d = d0\<lparr>ptr_receipt_root := ptr_recompute_root d0\<rparr>"
    have root_d: "ptr_recompute_root d = ptr_receipt_root d" by (simp add: d_def ptr_recompute_root_def)
    have df: "ptr_root_identity d = root" "ptr_parent_identity d = dr_parent_identity ?q"
      "ptr_child_identity d = pt_child_identity pt" "ptr_binding d = pt_binding pt"
      "ptr_envelope d = pt_envelope pt" "ptr_bytes d = pt_bytes pt"
      "ptr_prepared_sequence d = pt_prepared_sequence pt" "ptr_published_sequence d = n"
      "ptr_schema_version d = PUBLISHED_TRANSFER_RECEIPT_SCHEMA_VERSION"
      by (simp_all add: d_def d0_def publish_receipt_of_def)
    have rel: "identity_related root (dr_parent_identity ?q) (pt_child_identity pt)"
      using lineage_related [OF lin conf] kD by simp
    have ok: "ptr_verify_for d root (dr_parent_identity ?q) (pt_child_identity pt) (pt_binding pt)
        (pt_envelope pt) = Inr ()"
      unfolding ptr_verify_for_def df root_d using rel match before by simp
    have res: "res = Ok d"
      and t: "t = update_publication m (\<lambda>p. publish_result pt n p (ptr_receipt_root d))
         (update_delegation k (\<lambda>r. r\<lparr>dr_used_bytes := dr_used_bytes r - pt_bytes pt,
             dr_allocation_published_bytes := dr_allocation_published_bytes r + pt_bytes pt\<rparr>)
           (u\<lparr>child_published_bytes := child_published_bytes u + pt_bytes pt\<rparr>))"
      using op ok
      by (simp_all add: publish_prepared_transfer_def n conf k Let_def None [unfolded m(1)] d0_def [symmetric]
          d_def [symmetric] m publish_result_def)
    have "ledger_inv lim cs sg t"
    proof (rule resolve_inv [OF u k match(1) m(2), where b = "pt_bytes pt"
          and p' = "publish_result pt n (publications u ! m) (ptr_receipt_root d)"])
    qed (use match(2) live in \<open>simp_all add: t update_publication_def update_delegation_def
          publish_result_def matches_prepared_def\<close>)
    moreover have "matches_published d (publications u ! m)"
      using match(2) by (simp add: matches_published_def matches_prepared_def df)
    moreover have "map (\<lambda>r. (skeleton r, dr_disposition r)) (delegations t)
            = map (\<lambda>r. (skeleton r, dr_disposition r)) (delegations s)"
      using kD ds by (simp add: t update_publication_def update_delegation_def skeleton_def)
    ultimately show ?thesis
      using res ok df m seq ov viol ds
      by (auto simp: t update_publication_def update_delegation_def)
  qed
qed

definition rollback_result :: "nat \<Rightarrow> bool \<Rightarrow> publication_record \<Rightarrow> publication_record" where
  "rollback_result n implicit p = p\<lparr>pub_disposition := RolledBack, pub_resolved_sequence := Some n,
     pub_implicit_rollback := implicit\<rparr>"

lemma rollback_inv:
  assumes inv: "ledger_inv lim cs sg s" and i: "pt_child_identity pt \<in> dr_identity ` set (delegations s)"
    and op: "rollback_prepared_transfer pt implicit s = (res, t)"
  shows "case res of
      Ok d \<Rightarrow> ledger_inv lim cs sg t
        \<and> release_invariant_violations t = release_invariant_violations s
        \<and> prr_verify_for d (prr_root_identity d) (prr_parent_identity d) (prr_child_identity d)
             (prr_binding d) (prr_envelope d) = Inr ()
        \<and> prr_rolled_back_sequence d \<le> sequence t \<and> sequence s < prr_rolled_back_sequence d
        \<and> (\<exists>m. position (matches_prepared pt) (publications s) = Some m
             \<and> pub_disposition (publications s ! m) = Prepared
             \<and> publications t = (publications s)[m := rollback_result (prr_rolled_back_sequence d)
                  implicit (publications s ! m)])
        \<and> \<not> counter_overflowed t
        \<and> map (\<lambda>r. (skeleton r, dr_disposition r)) (delegations t)
            = map (\<lambda>r. (skeleton r, dr_disposition r)) (delegations s)
    | Err e \<Rightarrow> refused s t
        \<and> (\<not> implicit \<longrightarrow> release_invariant_violations t = release_invariant_violations s)
        \<and> (counter_overflowed t
             \<or> \<not> (\<exists>m. position (matches_prepared pt) (publications s) = Some m
                    \<and> pub_disposition (publications s ! m) = Prepared)
             \<or> (\<exists>r\<in>set (delegations s). dr_identity r = pt_child_identity pt \<and> dr_disposition r \<noteq> Live))
    | Panicked \<Rightarrow> False"
proof -
  obtain n u k root name where n: "next_sequence s = (n, u)" and su: "refused s u"
    and u: "ledger_inv lim cs sg u" and ds: "delegations u = delegations s" "publications u = publications s"
    and k: "delegation_index u (pt_child_identity pt) = Some k"
    and kD: "k < length (delegations u)" "dr_identity (delegations u ! k) = pt_child_identity pt"
      "delegations u ! k \<in> set (delegations u)"
    and lin: "lineage_inv u (delegations u ! k)"
    and conf: "root_identity u = Some root" "is_root root"
    and viol: "release_invariant_violations u = release_invariant_violations s"
    and seq: "\<not> counter_overflowed u \<longrightarrow> sequence s < n \<and> n = sequence u"
    using child_transition [OF inv i] by metis
  let ?q = "delegations u ! k"
  show ?thesis
  proof (cases "rollback_reason pt ?q (position (matches_prepared pt) (publications u)) u")
    case (Some reason)
    define v where "v = (if implicit then increment_invariant_violation u else u)"
    have v: "refused u v" by (simp add: v_def)
    obtain e where e: "record_published_transfer_refusal root (dr_parent_identity ?q) (pt_child_identity pt)
        (pt_binding pt) (pt_envelope pt) (pt_bytes pt) Op_Rollback reason n v = (e, t)" and res: "res = Err e"
      using op by (auto simp: rollback_prepared_transfer_def n conf k Let_def Some v_def split: prod.splits)
    have tv: "release_invariant_violations t = release_invariant_violations v" "same_ledger v t"
      using e by (auto simp: record_published_transfer_refusal_def Let_def)
    have "counter_overflowed t \<or> \<not> (\<exists>m. position (matches_prepared pt) (publications s) = Some m
                    \<and> pub_disposition (publications s ! m) = Prepared)
             \<or> (\<exists>r\<in>set (delegations s). dr_identity r = pt_child_identity pt \<and> dr_disposition r \<noteq> Live)"
    proof (rule ccontr)
      assume neg: "\<not> ?thesis"
      then obtain m where m: "position (matches_prepared pt) (publications u) = Some m"
        "pub_disposition (publications u ! m) = Prepared" using ds by auto
      have live: "dr_disposition ?q = Live" using neg kD ds by auto
      have "\<not> counter_overflowed v" using neg tv(2) by (auto simp: same_ledger_def same_accounts_def)
      then have ov: "\<not> counter_overflowed u"
        by (auto simp: v_def increment_invariant_violation_def split: if_splits option.splits)
      note match = matched_publication [OF u m(1)]
      have "pt_bytes pt \<le> total (prepared_bytes (pt_child_identity pt)) (publications u)"
        using resolve_shares(3) [OF match(1) m(2), of "(publications u ! m)\<lparr>pub_disposition := RolledBack\<rparr>"]
          match(2) by (simp add: matches_prepared_def)
      then have "pt_bytes pt \<le> total (staged_bytes (dr_identity ?q)) sg
          + total (prepared_bytes (dr_identity ?q)) (publications u)" using kD by simp
      from returned_room [OF u kD(1) this] have "rollback_reason pt ?q (Some m) u = None"
        using live m ov by (auto simp: rollback_reason_def)
      then show False using Some m by simp
    qed
    then show ?thesis
      using refused_trans [OF su refused_trans [OF v refused_published [OF e]]] res tv(1) viol
      by (auto simp: v_def)
  next
    case None
    then obtain m where m: "position (matches_prepared pt) (publications u) = Some m"
      "pub_disposition (publications u ! m) = Prepared" and live: "dr_disposition ?q = Live"
      and ov: "\<not> counter_overflowed u"
      by (auto simp: rollback_reason_def split: if_splits option.splits)
    note match = matched_publication [OF u m(1)]
    have before: "pt_prepared_sequence pt < n"
      using matched_publication(5) [OF inv, of pt m] m(1) ds seq ov by simp
    define d0 where "d0 = rollback_receipt_of root (dr_parent_identity ?q) pt n implicit"
    define d where "d = d0\<lparr>prr_receipt_root := prr_recompute_root d0\<rparr>"
    have root_d: "prr_recompute_root d = prr_receipt_root d" by (simp add: d_def prr_recompute_root_def)
    have df: "prr_root_identity d = root" "prr_parent_identity d = dr_parent_identity ?q"
      "prr_child_identity d = pt_child_identity pt" "prr_binding d = pt_binding pt"
      "prr_envelope d = pt_envelope pt" "prr_bytes d = pt_bytes pt"
      "prr_prepared_sequence d = pt_prepared_sequence pt"
      "prr_rolled_back_sequence d = n"
      "prr_schema_version d = PUBLISHED_TRANSFER_RECEIPT_SCHEMA_VERSION"
      by (simp_all add: d_def d0_def rollback_receipt_of_def)
    have rel: "identity_related root (dr_parent_identity ?q) (pt_child_identity pt)"
      using lineage_related [OF lin conf] kD by simp
    have ok: "prr_verify_for d root (dr_parent_identity ?q) (pt_child_identity pt) (pt_binding pt)
        (pt_envelope pt) = Inr ()"
      unfolding prr_verify_for_def df root_d using rel match before by simp
    have res: "res = Ok d"
      and t: "t = update_publication m (\<lambda>p. rollback_result n implicit p)
         (update_delegation k (\<lambda>r. r\<lparr>dr_used_bytes := dr_used_bytes r - pt_bytes pt,
             dr_allocation_returned_bytes := dr_allocation_returned_bytes r + pt_bytes pt\<rparr>)
           (u\<lparr>child_returned_bytes := child_returned_bytes u + pt_bytes pt\<rparr>))"
      using op ok
      by (simp_all add: rollback_prepared_transfer_def n conf k Let_def None [unfolded m(1)] d0_def [symmetric]
          d_def [symmetric] m rollback_result_def)
    have "ledger_inv lim cs sg t"
    proof (rule resolve_inv [OF u k match(1) m(2), where b = "pt_bytes pt"
          and p' = "rollback_result n implicit (publications u ! m)"])
    qed (use match(2) live in \<open>simp_all add: t update_publication_def update_delegation_def
          rollback_result_def matches_prepared_def\<close>)
    moreover have "map (\<lambda>r. (skeleton r, dr_disposition r)) (delegations t)
            = map (\<lambda>r. (skeleton r, dr_disposition r)) (delegations s)"
      using kD ds by (simp add: t update_publication_def update_delegation_def skeleton_def)
    ultimately show ?thesis
      using res ok df m seq ov viol ds
      by (auto simp: t update_publication_def update_delegation_def)
  qed
qed

section \<open>Closing a destination\<close>

lemma ledger_inv_publication_flags:
  assumes u: "ledger_inv lim cs sg u" and m: "m < length (publications u)"
    and p': "pub_child_identity p' = pub_child_identity (publications u ! m)"
      "pub_bytes p' = pub_bytes (publications u ! m)"
      "pub_disposition p' = pub_disposition (publications u ! m)"
      "pub_binding p' = pub_binding (publications u ! m)"
      "pub_envelope p' = pub_envelope (publications u ! m)"
      "pub_prepared_sequence p' = pub_prepared_sequence (publications u ! m)"
    and t: "t = u\<lparr>publications := (publications u)[m := p']\<rparr>"
  shows "ledger_inv lim cs sg t"
proof -
  have tot: "total (prepared_bytes j) (publications t) = total (prepared_bytes j) (publications u)"
    "total (published_bytes j) (publications t) = total (published_bytes j) (publications u)" for j
    unfolding t by (simp_all add: total_update_same [OF m] shares p')
  have mem: "publications u ! m \<in> set (publications u)" using m by simp
  show ?thesis
  proof (rule ledger_invI)
    show "account_inv lim cs t" using ledger_invD(1) [OF u] m unfolding account_inv_def by (auto simp: t)
    show "record_inv sg t r" if "r \<in> set (delegations t)" for r
      by (rule record_inv_shares [OF ledger_invD(4) [OF u]]) (use that tot in \<open>simp_all add: t\<close>)
    show "lineage_inv t r" if "r \<in> set (delegations t)" for r
      using ledger_invD(5) [OF u, of r] that by (auto simp: t lineage_inv_def split: option.split)
    show "publication_inv t x" if "x \<in> set (publications t)" for x
      using set_pubs_update [of x "publications u" m p'] that ledger_invD(6) [OF u, of x]
        ledger_invD(6) [OF u mem] p'
      by (auto simp: t publication_inv_def)
  qed (use ledger_invD(2,3,7) [OF u] m p' in \<open>auto simp: t\<close>)
qed

definition closed_result :: "nat \<Rightarrow> bool \<Rightarrow> u8 list \<Rightarrow> publication_record \<Rightarrow> publication_record" where
  "closed_result n implicit h p = p\<lparr>pub_destination_closed_sequence := Some n,
     pub_implicit_destination_close := implicit, pub_destination_close_root := Some h\<rparr>"

lemma close_published_inv:
  assumes inv: "ledger_inv lim cs sg s"
    and d: "ptr_verify_for d (ptr_root_identity d) (ptr_parent_identity d) (ptr_child_identity d)
             (ptr_binding d) (ptr_envelope d) = Inr ()" "ptr_published_sequence d \<le> sequence s"
    and op: "close_published_transfer d implicit s = (res, t)"
  shows "case res of
      Ok c \<Rightarrow> ledger_inv lim cs sg t
        \<and> release_invariant_violations t = release_invariant_violations s
        \<and> pcr_verify_for c d = Inr ()
        \<and> (\<exists>m. position (matches_published d) (publications s) = Some m
             \<and> publications t = (publications s)[m := closed_result (pcr_closed_sequence c) implicit
                  (pcr_receipt_root c) (publications s ! m)])
        \<and> \<not> counter_overflowed t \<and> delegations t = delegations s
    | Err e \<Rightarrow> refused s t
        \<and> (\<not> implicit \<longrightarrow> release_invariant_violations t = release_invariant_violations s)
        \<and> (counter_overflowed t
             \<or> \<not> (\<exists>m. position (matches_published d) (publications s) = Some m
                 \<and> pub_disposition (publications s ! m) = Published
                 \<and> pub_resolved_sequence (publications s ! m) = Some (ptr_published_sequence d)
                 \<and> pub_published_receipt_root (publications s ! m) = Some (ptr_receipt_root d)
                 \<and> pub_destination_closed_sequence (publications s ! m) = None))
    | Panicked \<Rightarrow> False"
proof -
  obtain n u where n: "next_sequence s = (n, u)" by (cases "next_sequence s")
  note su = refused_next_sequence [OF n]
  have u: "ledger_inv lim cs sg u" by (rule ledger_inv_refused [OF inv su])
  have ds: "delegations u = delegations s" "publications u = publications s"
    using next_sequence_ledger [OF n] by (auto simp: same_ledger_def same_accounts_def)
  note viol = next_sequence_violations [OF n]
  have "sequence s \<le> u128_max" using ledger_invD(1) [OF inv] by (simp add: account_inv_def)
  note seq = next_sequence_fresh [OF n this]
  show ?thesis
  proof (cases "close_published_reason d (position (matches_published d) (publications u)) u")
    case (Some reason)
    define v where "v = (if implicit then increment_invariant_violation u else u)"
    have v: "refused u v" by (simp add: v_def)
    obtain e where e: "record_published_transfer_refusal (ptr_root_identity d) (ptr_parent_identity d)
        (ptr_child_identity d) (ptr_binding d) (ptr_envelope d) (ptr_bytes d) Op_CloseDestination
        reason n v = (e, t)" and res: "res = Err e"
      using op by (auto simp: close_published_transfer_def n Let_def Some v_def split: prod.splits)
    have tv: "release_invariant_violations t = release_invariant_violations v" "same_ledger v t"
      using e by (auto simp: record_published_transfer_refusal_def Let_def)
    have ov: "counter_overflowed u \<Longrightarrow> counter_overflowed t"
      using tv(2) increment_invariant_violation_ledger [of u]
      by (auto simp: v_def same_ledger_def same_accounts_def split: if_splits)
    have "counter_overflowed u \<or> \<not> (\<exists>m. position (matches_published d) (publications u) = Some m
                 \<and> pub_disposition (publications u ! m) = Published
                 \<and> pub_resolved_sequence (publications u ! m) = Some (ptr_published_sequence d)
                 \<and> pub_published_receipt_root (publications u ! m) = Some (ptr_receipt_root d)
                 \<and> pub_destination_closed_sequence (publications u ! m) = None)"
    proof (rule ccontr)
      assume neg: "\<not> ?thesis"
      then obtain m where m: "position (matches_published d) (publications u) = Some m"
        "close_published_reason d (Some m) u = None"
        by (auto simp: close_published_reason_def Let_def)
      then show False using Some by simp
    qed
    then show ?thesis
      using refused_trans [OF su refused_trans [OF v refused_published [OF e]]] res tv(1) viol ov ds
      by (auto simp: v_def)
  next
    case None
    then obtain m where m: "position (matches_published d) (publications u) = Some m"
      and ov: "\<not> counter_overflowed u"
      by (auto simp: close_published_reason_def Let_def split: if_splits option.splits)
    define c0 where "c0 = destination_receipt_of d n implicit"
    define c where "c = c0\<lparr>pcr_receipt_root := pcr_recompute_root c0\<rparr>"
    have root_c: "pcr_recompute_root c = pcr_receipt_root c" by (simp add: c_def pcr_recompute_root_def)
    have ok: "pcr_verify_for c d = Inr ()"
      unfolding pcr_verify_for_def root_c d(1) using seq ov d(2)
      by (simp add: c_def c0_def destination_receipt_of_def)
    have cn: "pcr_closed_sequence c = n" by (simp add: c_def c0_def destination_receipt_of_def)
    have res: "res = Ok c"
      and t: "t = u\<lparr>publications := (publications u)[m := closed_result n implicit (pcr_receipt_root c)
                (publications u ! m)]\<rparr>"
      using op ok by (simp_all add: close_published_transfer_def n Let_def None [unfolded m] c0_def [symmetric]
          c_def [symmetric] m closed_result_def update_publication_def)
    have "ledger_inv lim cs sg t"
      by (rule ledger_inv_publication_flags [OF u _ _ _ _ _ _ _ t])
        (use position_Some_D [OF m] in \<open>auto simp: closed_result_def\<close>)
    then show ?thesis using res ok m cn ov viol ds by (auto simp: t)
  qed
qed

end
