(* ===== verification/Lease_Return.thy ===== *)
theory Lease_Return
  imports Lease_Charges
begin

text \<open>
  Preservation of the lease invariant by the return of an envelope and by the seal. Both build a
  receipt and check it before they commit; the lemmas show that the check always succeeds, so
  neither transition can panic.
\<close>

text \<open>What a return does to the returned record.\<close>

definition returned_record :: "nat \<Rightarrow> bool \<Rightarrow> u8 list \<Rightarrow> delegation_record \<Rightarrow> delegation_record" where
  "returned_record n implicit h r = r\<lparr>dr_disposition := Returned, dr_returned_sequence := Some n,
     dr_implicit_return := implicit, dr_close_root := Some h\<rparr>"

definition credit_child :: "nat \<Rightarrow> delegation_record \<Rightarrow> delegation_record" where
  "credit_child capacity r = r\<lparr>dr_used_bytes := dr_used_bytes r - capacity,
     dr_live_children := dr_live_children r - 1,
     dr_returned_delegated_bytes := dr_returned_delegated_bytes r + capacity\<rparr>"

lemma pubs_perm:
  assumes "mset ps' = mset ps"
  shows "total f ps' = total f ps" "set ps' = set ps" "length ps' = length ps"
    "distinct (map key ps') = distinct (map key ps)"
proof -
  show "total f ps' = total f ps" using assms by (rule total_perm)
  show "set ps' = set ps" using assms by (rule mset_eq_setD)
  show "length ps' = length ps" using assms by (rule mset_eq_length)
  have "mset (map key ps') = mset (map key ps)" by (simp add: assms)
  then show "distinct (map key ps') = distinct (map key ps)" by (rule mset_eq_imp_distinct_iff)
qed

lemma live_share_room:
  assumes "k < length ds" "dr_disposition (ds ! k) = Live" "dr_parent_identity (ds ! k) = z"
  shows "dr_capacity_bytes (ds ! k) \<le> total (live_capacity z) ds" "1 \<le> total (live_child z) ds"
  using total_ge_nth [OF assms(1), of "live_capacity z"] total_ge_nth [OF assms(1), of "live_child z"]
    assms(2,3) by (simp_all add: shares)

lemma return_root_inv:
  assumes u: "ledger_inv lim cs sg u" and k: "k < length (delegations u)"
    and q: "dr_parent_identity (delegations u ! k) = None" "dr_disposition (delegations u ! k) = Live"
      "dr_live_children (delegations u ! k) = 0" "dr_used_bytes (delegations u ! k) = 0"
    and t: "delegations t = (delegations u)[k := returned_record n im h (delegations u ! k)]"
      "mset (publications t) = mset (publications u)"
      "used_bytes t = used_bytes u - dr_capacity_bytes (delegations u ! k)"
      "returned_delegated_bytes t = returned_delegated_bytes u + dr_capacity_bytes (delegations u ! k)"
      "peak_bytes t = peak_bytes u" "root_id t = root_id u" "root_identity t = root_identity u"
      "sequence t = sequence u" "direct_granted_bytes t = direct_granted_bytes u"
      "direct_returned_bytes t = direct_returned_bytes u" "delegated_bytes t = delegated_bytes u"
      "child_granted_bytes t = child_granted_bytes u" "child_returned_bytes t = child_returned_bytes u"
      "child_published_bytes t = child_published_bytes u" "metadata_limit t = metadata_limit u"
  shows "ledger_inv lim cs sg t"
proof -
  let ?q = "delegations u ! k"
  note pp = pubs_perm [OF t(2)]
  note room = live_share_room [OF k q(2,1)]
  have tot: "total (live_capacity None) (delegations t) = total (live_capacity None) (delegations u) - dr_capacity_bytes ?q"
    "total (live_capacity (Some z)) (delegations t) = total (live_capacity (Some z)) (delegations u)"
    "total (live_child (Some z)) (delegations t) = total (live_child (Some z)) (delegations u)"
    "total dr_allocation_granted_bytes (delegations t) = total dr_allocation_granted_bytes (delegations u)"
    "total dr_allocation_returned_bytes (delegations t) = total dr_allocation_returned_bytes (delegations u)"
    "total dr_allocation_published_bytes (delegations t) = total dr_allocation_published_bytes (delegations u)" for z
    unfolding t(1)
    by (rule total_update_sub [OF k], simp_all add: returned_record_def shares q)
      (rule total_update_same [OF k], simp add: returned_record_def shares q)+
  have sk: "map skeleton (delegations t) = map skeleton (delegations u)"
    unfolding t(1) using k by (simp add: skeleton_def returned_record_def)
  note ids = skeleton_ids [OF sk]
  show ?thesis
  proof (rule ledger_invI)
    show "account_inv lim cs t"
      using ledger_invD(1) [OF u] room tot(1,4,5,6) k
      unfolding account_inv_def t(3-) ids(3) pp(3) by auto
    have rq: "record_inv sg t (returned_record n im h ?q)"
      using ledger_invD(4) [OF u, of ?q] k q unfolding record_inv_def pp(1) tot
      by (simp add: returned_record_def)
    have ro: "record_inv sg t r" if "r \<in> set (delegations u)" for r
      by (rule record_inv_shares [OF ledger_invD(4) [OF u that]]) (simp_all add: tot pp)
    have "\<forall>r\<in>set (delegations t). record_inv sg t r"
      unfolding t(1) by (rule records_update [OF ledger_invD(2) [OF u] k rq ro])
    then show "record_inv sg t r" if "r \<in> set (delegations t)" for r using that by blast
    show "lineage_inv t r" if "r \<in> set (delegations t)" for r
      using lineage_skeleton [OF sk t(7) _ ledger_invD(5) [OF u] that] t(8) by simp
    show "publication_inv t p" if "p \<in> set (publications t)" for p
      using ledger_invD(6) [OF u] that by (simp only: publication_inv_def ids t(8) pp)
  qed (use ledger_invD(2,3,7) [OF u] in \<open>simp_all only: ids pp\<close>)
qed

lemma return_child_inv:
  assumes u: "ledger_inv lim cs sg u" and k: "k < length (delegations u)"
    and q: "dr_parent_identity (delegations u ! k) = Some p" "dr_disposition (delegations u ! k) = Live"
      "dr_live_children (delegations u ! k) = 0" "dr_used_bytes (delegations u ! k) = 0"
    and j: "j < length (delegations u)" "dr_identity (delegations u ! j) = p"
    and t: "delegations t = (delegations u)[j := credit_child (dr_capacity_bytes (delegations u ! k)) (delegations u ! j),
              k := returned_record n im h (delegations u ! k)]"
      "mset (publications t) = mset (publications u)"
      "used_bytes t = used_bytes u" "returned_delegated_bytes t = returned_delegated_bytes u"
      "peak_bytes t = peak_bytes u" "root_id t = root_id u" "root_identity t = root_identity u"
      "sequence t = sequence u" "direct_granted_bytes t = direct_granted_bytes u"
      "direct_returned_bytes t = direct_returned_bytes u" "delegated_bytes t = delegated_bytes u"
      "child_granted_bytes t = child_granted_bytes u" "child_returned_bytes t = child_returned_bytes u"
      "child_published_bytes t = child_published_bytes u" "metadata_limit t = metadata_limit u"
  shows "ledger_inv lim cs sg t"
proof -
  let ?q = "delegations u ! k" and ?p = "delegations u ! j"
  define c where "c = dr_capacity_bytes ?q"
  define ds where "ds = (delegations u)[j := credit_child c ?p]"
  note pp = pubs_perm [OF t(2)]
  note room = live_share_room [OF k q(2,1), folded c_def]
  have "lineage_inv u ?q" using ledger_invD(5) [OF u] k by simp
  then have "dr_identity ?q \<noteq> p" using q(1) direct_child_irrefl by (auto simp: lineage_inv_def)
  then have jk: "j \<noteq> k" using j(2) by auto
  have kl: "k < length ds" and qk: "ds ! k = ?q" using k jk by (simp_all add: ds_def)
  have dst: "delegations t = ds[k := returned_record n im h ?q]" by (simp add: t(1) ds_def c_def)
  have tds: "total (live_capacity z) ds = total (live_capacity z) (delegations u)"
    "total (live_child z) ds = total (live_child z) (delegations u)"
    "total dr_allocation_granted_bytes ds = total dr_allocation_granted_bytes (delegations u)"
    "total dr_allocation_returned_bytes ds = total dr_allocation_returned_bytes (delegations u)"
    "total dr_allocation_published_bytes ds = total dr_allocation_published_bytes (delegations u)" for z
    unfolding ds_def by (rule total_update_same [OF j(1)], simp add: credit_child_def shares)+
  have tot: "total (live_capacity (Some p)) (delegations t) = total (live_capacity (Some p)) (delegations u) - c"
    "total (live_child (Some p)) (delegations t) = total (live_child (Some p)) (delegations u) - 1"
    unfolding dst tds [symmetric]
    by (rule total_update_sub [OF kl], simp_all add: returned_record_def shares q qk c_def)+
  have tot': "z \<noteq> Some p \<Longrightarrow> total (live_capacity z) (delegations t) = total (live_capacity z) (delegations u)"
    "z \<noteq> Some p \<Longrightarrow> total (live_child z) (delegations t) = total (live_child z) (delegations u)"
    "total dr_allocation_granted_bytes (delegations t) = total dr_allocation_granted_bytes (delegations u)"
    "total dr_allocation_returned_bytes (delegations t) = total dr_allocation_returned_bytes (delegations u)"
    "total dr_allocation_published_bytes (delegations t) = total dr_allocation_published_bytes (delegations u)" for z
    unfolding dst tds [symmetric]
    by (rule total_update_same [OF kl], simp add: returned_record_def shares q qk)+
  have sk: "map skeleton (delegations t) = map skeleton (delegations u)"
    unfolding dst ds_def using k j jk
    by (simp add: skeleton_def returned_record_def credit_child_def)
  note ids = skeleton_ids [OF sk]
  show ?thesis
  proof (rule ledger_invI)
    show "account_inv lim cs t"
      using ledger_invD(1) [OF u] tot'(1) [of None] tot'(3-5) k
      unfolding account_inv_def t(3-) ids(3) pp(3) by auto
    have rq: "record_inv sg t (returned_record n im h ?q)"
      using ledger_invD(4) [OF u, of ?q] k q \<open>dr_identity ?q \<noteq> p\<close> unfolding record_inv_def pp(1)
      by (simp add: returned_record_def tot')
    have rp: "record_inv sg t (credit_child c ?p)"
      using ledger_invD(4) [OF u, of ?p] j room unfolding record_inv_def pp(1)
      by (auto simp: credit_child_def tot)
    have ro: "record_inv sg t r" if "r \<in> set (delegations u)" "dr_identity r \<noteq> dr_identity ?p" for r
      by (rule record_inv_shares [OF ledger_invD(4) [OF u that(1)]]) (use that(2) j in \<open>simp_all add: tot' pp\<close>)
    have rds: "\<forall>r\<in>set ds. record_inv sg t r"
      unfolding ds_def by (rule records_update [OF ledger_invD(2) [OF u] j(1) rp ro])
    have "map dr_identity ds = map dr_identity (delegations u)"
      unfolding ds_def using j(1) by (simp add: credit_child_def)
    then have dd: "distinct (map dr_identity ds)" using ledger_invD(2) [OF u] by simp
    have "\<forall>r\<in>set (delegations t). record_inv sg t r"
      unfolding dst by (rule records_update [OF dd kl rq]) (use rds in blast)
    then show "record_inv sg t r" if "r \<in> set (delegations t)" for r using that by blast
    show "lineage_inv t r" if "r \<in> set (delegations t)" for r
      using lineage_skeleton [OF sk t(7) _ ledger_invD(5) [OF u] that] t(8) by simp
    show "publication_inv t p" if "p \<in> set (publications t)" for p
      using ledger_invD(6) [OF u] that by (simp only: publication_inv_def ids t(8) pp)
  qed (use ledger_invD(2,3,7) [OF u] in \<open>simp_all only: ids pp\<close>)
qed

section \<open>The close receipt verifies\<close>

lemma count_resolved:
  assumes "\<And>p. p \<in> set ps \<Longrightarrow> P p \<Longrightarrow> pub_disposition p \<noteq> Prepared"
  shows "length (filter (\<lambda>p. P p \<and> pub_disposition p = Published) ps)
       + length (filter (\<lambda>p. P p \<and> pub_disposition p = RolledBack) ps) = length (filter P ps)"
  using assms
proof (induction ps)
  case (Cons p ps)
  then show ?case by (cases "pub_disposition p") auto
qed simp

lemma count_published:
  assumes "\<And>p. p \<in> set ps \<Longrightarrow> 0 < pub_bytes p"
  shows "total (published_bytes i) ps = 0 \<longleftrightarrow>
     length (filter (\<lambda>p. pub_child_identity p = i \<and> pub_disposition p = Published) ps) = 0"
  using assms by (fastforce simp: total_zero_iff published_bytes_def filter_empty_conv)

lemma no_prepared:
  assumes "record_inv sg u q" "dr_used_bytes q = 0"
    and "\<And>p. p \<in> set (publications u) \<Longrightarrow> publication_inv u p" "p \<in> set (publications u)"
    "pub_child_identity p = dr_identity q"
  shows "pub_disposition p \<noteq> Prepared"
proof -
  have "total (prepared_bytes (dr_identity q)) (publications u) = 0"
    using assms(1,2) by (simp add: record_inv_def)
  then show ?thesis using assms(3) [OF assms(4)] assms(4,5)
    by (auto simp: total_zero_iff prepared_bytes_def publication_inv_def)
qed

lemma credit_parent_ok:
  assumes u: "ledger_inv lim cs sg u" and k: "k < length (delegations u)"
    and q: "dr_disposition (delegations u ! k) = Live"
  obtains (root) v where "dr_parent_identity (delegations u ! k) = None"
      "credit_parent (dr_parent_identity (delegations u ! k)) (dr_capacity_bytes (delegations u ! k)) u = Ok v"
      "v = u\<lparr>used_bytes := used_bytes u - dr_capacity_bytes (delegations u ! k),
             returned_delegated_bytes := returned_delegated_bytes u + dr_capacity_bytes (delegations u ! k)\<rparr>"
  | (child) v p j where "dr_parent_identity (delegations u ! k) = Some p"
      "delegation_index u p = Some j" "j < length (delegations u)" "dr_identity (delegations u ! j) = p"
      "credit_parent (dr_parent_identity (delegations u ! k)) (dr_capacity_bytes (delegations u ! k)) u = Ok v"
      "v = u\<lparr>delegations := (delegations u)[j := credit_child (dr_capacity_bytes (delegations u ! k)) (delegations u ! j)]\<rparr>"
proof (cases "dr_parent_identity (delegations u ! k)")
  case None
  note room = live_share_room [OF k q None]
  have "dr_capacity_bytes (delegations u ! k) \<le> used_bytes u"
    "returned_delegated_bytes u + dr_capacity_bytes (delegations u ! k) \<le> u128_max"
    using ledger_invD(1) [OF u] room by (auto simp: account_inv_def)
  then show ?thesis using root [OF None] None by (simp add: credit_parent_def)
next
  case (Some p)
  have "lineage_inv u (delegations u ! k)" using ledger_invD(5) [OF u] k by simp
  then have "p \<in> dr_identity ` set (delegations u)" using Some by (simp add: lineage_inv_def)
  then obtain j where j: "delegation_index u p = Some j" using delegation_index_mem by metis
  note jD = delegation_indexD [OF j]
  have "record_inv sg u (delegations u ! j)" using ledger_invD(4) [OF u] jD by simp
  then have "dr_capacity_bytes (delegations u ! k) \<le> dr_used_bytes (delegations u ! j)"
    "dr_live_children (delegations u ! j) \<noteq> 0"
    "dr_returned_delegated_bytes (delegations u ! j) + dr_capacity_bytes (delegations u ! k) \<le> u128_max"
    using live_share_room [OF k q Some] jD by (auto simp: record_inv_def)
  then show ?thesis using child [OF Some j] jD j Some
    by (simp add: credit_parent_def Let_def update_delegation_def credit_child_def)
qed

lemma return_delegation_inv:
  assumes inv: "ledger_inv lim cs sg s" and i: "i \<in> dr_identity ` set (delegations s)"
    and op: "return_delegation i implicit s = (res, t)"
  shows "case res of
      Ok c \<Rightarrow> ledger_inv lim cs sg t
        \<and> release_invariant_violations t = release_invariant_violations s
        \<and> dcr_verify_for c (dcr_root_identity c) (dcr_parent_identity c) i = Inr ()
        \<and> map skeleton (delegations t) = map skeleton (delegations s)
        \<and> map dr_disposition (delegations t)
            = map (\<lambda>r. if dr_identity r = i then Returned else dr_disposition r) (delegations s)
        \<and> mset (publications t) = mset (publications s) \<and> \<not> counter_overflowed t
        \<and> (\<exists>r\<in>set (delegations s). dr_identity r = i \<and> dr_disposition r = Live \<and> dr_used_bytes r = 0)
    | Err e \<Rightarrow> refused s t
        \<and> (\<not> implicit \<longrightarrow> release_invariant_violations t = release_invariant_violations s)
        \<and> (counter_overflowed t \<or> (\<exists>r\<in>set (delegations s). dr_identity r = i \<and>
             (dr_disposition r = Returned \<or> dr_live_children r \<noteq> 0 \<or> dr_used_bytes r \<noteq> 0)))
    | Panicked \<Rightarrow> False"
proof -
  obtain n u where n: "next_sequence s = (n, u)" by (cases "next_sequence s")
  note su = refused_next_sequence [OF n]
  have u: "ledger_inv lim cs sg u" by (rule ledger_inv_refused [OF inv su])
  have ds: "delegations u = delegations s" "publications u = publications s"
    using next_sequence_ledger [OF n] by (auto simp: same_ledger_def same_accounts_def)
  note viol = next_sequence_violations [OF n]
  have "sequence s \<le> u128_max" using ledger_invD(1) [OF inv] by (simp add: account_inv_def)
  note seq = next_sequence_fresh [OF n this]
  obtain k where k: "delegation_index u i = Some k" using delegation_index_mem i ds by metis
  obtain root name where conf: "root_identity u = Some root" "root_id u = Some name" "is_root root"
    using root_configured [OF u] i ds by metis
  let ?q = "delegations u ! k"
  have kl: "k < length (delegations u)" and qi: "dr_identity ?q = i" and qm: "?q \<in> set (delegations u)"
    using delegation_indexD [OF k] by auto
  have q: "record_inv sg u ?q" using ledger_invD(4) [OF u qm] .
  show ?thesis
  proof (cases "close_reason ?q u")
    case (Some reason)
    define v where "v = (if implicit then increment_invariant_violation u else u)"
    have v: "refused u v" by (simp add: v_def)
    have res: "\<exists>e. res = Err e" and t: "t = record_semantic_refusal (reason_code_close reason) (Some i)
        (dr_logical_path ?q) None (dr_used_bytes ?q) (dr_live_children ?q) n v"
      using op unfolding return_delegation_def n prod.case conf k Let_def Some option.case v_def [symmetric]
      by auto
    have ref: "refused s t" unfolding t by (rule refused_trans [OF su refused_trans [OF v refused_semantic]])
    have "counter_overflowed u \<Longrightarrow> counter_overflowed t"
      using same_ledger_trans [OF increment_invariant_violation_ledger record_semantic_refusal_ledger]
        record_semantic_refusal_ledger
      unfolding t v_def same_ledger_def same_accounts_def by metis
    moreover have "dr_allocation_returned_bytes ?q + dr_allocation_published_bytes ?q = dr_allocation_granted_bytes ?q
        \<and> dr_delegated_bytes ?q = dr_returned_delegated_bytes ?q" if "dr_used_bytes ?q = 0"
      using q that by (simp add: record_inv_def)
    then have "counter_overflowed u \<or> dr_disposition ?q = Returned \<or> dr_live_children ?q \<noteq> 0 \<or> dr_used_bytes ?q \<noteq> 0"
      using Some q by (auto simp: close_reason_def record_inv_def split: if_splits)
    ultimately have "counter_overflowed t \<or> (\<exists>r\<in>set (delegations s). dr_identity r = i \<and>
             (dr_disposition r = Returned \<or> dr_live_children r \<noteq> 0 \<or> dr_used_bytes r \<noteq> 0))"
      using qm qi ds by metis
    moreover have "\<not> implicit \<longrightarrow> release_invariant_violations t = release_invariant_violations s"
      using viol by (simp add: t v_def)
    ultimately show ?thesis using ref res by auto
  next
    case None
    then have guard: "dr_disposition ?q = Live" "dr_live_children ?q = 0" "dr_used_bytes ?q = 0"
      "dr_allocation_returned_bytes ?q + dr_allocation_published_bytes ?q = dr_allocation_granted_bytes ?q"
      "dr_allocation_granted_bytes ?q \<le> u128_max"
      "dr_delegated_bytes ?q = dr_returned_delegated_bytes ?q" "\<not> counter_overflowed u"
      by (auto simp: close_reason_def split: if_splits) (cases "dr_disposition ?q"; simp)
    define w where "w = u\<lparr>publications := sort_key publication_key (publications u)\<rparr>"
    have w: "delegations w = delegations u" "mset (publications w) = mset (publications u)"
      "delegation_index w p = delegation_index u p" for p
      by (simp_all add: w_def delegation_index_def)
    note pp = pubs_perm [OF w(2)]
    let ?rc = "length (filter (\<lambda>p. pub_child_identity p = i) (publications w))"
    let ?pc = "length (filter (\<lambda>p. pub_child_identity p = i \<and> pub_disposition p = Published) (publications w))"
    let ?bc = "length (filter (\<lambda>p. pub_child_identity p = i \<and> pub_disposition p = RolledBack) (publications w))"
    have pinv: "publication_inv u p" if "p \<in> set (publications u)" for p using ledger_invD(6) [OF u that] .
    have resolved: "pub_disposition p \<noteq> Prepared"
      if "p \<in> set (publications w)" "pub_child_identity p = i" for p
      by (rule no_prepared [OF q guard(3) pinv]) (use that qi pp(2) in simp_all)
    have cnt: "?pc + ?bc = ?rc"
      using count_resolved [of "publications w" "\<lambda>p. pub_child_identity p = i"] resolved by simp
    have "?rc \<le> length (publications u)" using length_filter_le pp(3) by metis
    also have "\<dots> \<le> u64_max"
      using ledger_invD(1) [OF u] by (simp add: account_inv_def MAX_DELEGATION_RECORDS_def u64_max_def)
    finally have cnt_ok: "checked_add u64_max ?pc ?bc = Some ?rc" using cnt by simp
    have pub0: "dr_allocation_published_bytes ?q = 0 \<longleftrightarrow> ?pc = 0"
    proof -
      have "0 < pub_bytes p" if "p \<in> set (publications w)" for p
        using pinv [of p] that pp(2) by (simp add: publication_inv_def)
      then have "total (published_bytes i) (publications w) = 0 \<longleftrightarrow> ?pc = 0" by (rule count_published)
      then show ?thesis using q qi pp(1) by (simp add: record_inv_def)
    qed
    define h where "h = publication_root_for_child (publications w) i"
    define c0 where "c0 = close_receipt_of root name ?q ?rc ?pc ?bc h n implicit"
    define c where "c = c0\<lparr>dcr_receipt_root := dcr_recompute_root c0\<rparr>"
    have root_c: "dcr_recompute_root c = dcr_receipt_root c" by (simp add: c_def dcr_recompute_root_def)
    have lin: "lineage_inv u ?q" using ledger_invD(5) [OF u qm] .
    have rel: "identity_related root (dr_parent_identity ?q) i"
      using lin conf qi by (auto simp: lineage_inv_def identity_related_def split: option.splits)
    have dom: "root_subject i = root_subject root" "id_domain i = id_domain root"
      using lin conf qi by (auto simp: lineage_inv_def)
    have before: "dr_created_sequence ?q < n"
      using ledger_invD(5) [OF inv, of ?q] qm ds seq guard(7) by (auto simp: lineage_inv_def)
    have cons: "checked_add u128_max (dr_allocation_returned_bytes ?q) (dr_allocation_published_bytes ?q)
        = Some (dr_allocation_granted_bytes ?q)" using guard(4,5) by simp
    have peak: "dr_peak_used_bytes ?q \<le> dr_capacity_bytes ?q" using q by (simp add: record_inv_def)
    have ok: "dcr_verify_for c root (dr_parent_identity ?q) i = Inr ()"
      unfolding dcr_verify_for_def root_c
      using rel dom before cnt_ok pub0 qi guard(3,6) cons peak
      by (simp add: c_def c0_def close_receipt_of_def)
    have cf: "dcr_root_identity c = root" "dcr_parent_identity c = dr_parent_identity ?q"
      by (simp_all add: c_def c0_def close_receipt_of_def)
    have wi: "ledger_inv lim cs sg u" by (rule u)
    have body: "(res, t) = (case credit_parent (dr_parent_identity ?q) (dr_capacity_bytes ?q) w of
            Panicked \<Rightarrow> (Panicked, w)
          | Err _ \<Rightarrow> (Err (close_refusal i ?q Close_ConservationMismatch n), increment_invariant_violation w)
          | Ok v \<Rightarrow> (Ok c, update_delegation k (returned_record n implicit (dcr_receipt_root c)) v))"
      unfolding op [symmetric] return_delegation_def n prod.case conf k Let_def None option.case
        w_def [symmetric] w(1) cnt_ok h_def [symmetric] c0_def [symmetric] c_def [symmetric] ok
      by (simp add: returned_record_def [abs_def] split: outcome.split)
    have cw: "ledger_inv lim cs sg w"
    proof -
      show ?thesis
      proof (rule ledger_invI)
        show "account_inv lim cs w"
          using ledger_invD(1) [OF u] pp(3) unfolding account_inv_def by (auto simp: w_def)
        show "record_inv sg w r" if "r \<in> set (delegations w)" for r
          by (rule record_inv_shares [OF ledger_invD(4) [OF u]]) (use that pp w in simp_all)
        show "lineage_inv w r" if "r \<in> set (delegations w)" for r
          using ledger_invD(5) [OF u, of r] that by (auto simp: w_def lineage_inv_def split: option.split)
        show "publication_inv w p" if "p \<in> set (publications w)" for p
          using pinv [of p] that pp(2) by (simp add: w_def publication_inv_def)
      qed (use ledger_invD(2,3,7) [OF u] in \<open>simp_all only: w(1) pp(4)\<close>)
    qed
    have klw: "k < length (delegations w)" and liv: "dr_disposition (delegations w ! k) = Live"
      using kl guard w by simp_all
    have disp: "map dr_disposition ((delegations u)[k := returned_record n implicit x ?q])
        = map (\<lambda>r. if dr_identity r = i then Returned else dr_disposition r) (delegations u)" for x
    proof (rule nth_equalityI)
      fix m assume "m < length (map dr_disposition ((delegations u)[k := returned_record n implicit x ?q]))"
      then show "map dr_disposition ((delegations u)[k := returned_record n implicit x ?q]) ! m
          = map (\<lambda>r. if dr_identity r = i then Returned else dr_disposition r) (delegations u) ! m"
        using ledger_invD(2) [OF u] kl qi
        by (cases "m = k") (auto simp: returned_record_def distinct_conv_nth)
    qed simp
    show ?thesis
      using cw klw liv
    proof (cases rule: credit_parent_ok)
      case (root v)
      have res: "res = Ok c"
        and t: "t = update_delegation k (returned_record n implicit (dcr_receipt_root c)) v"
        using body root w by simp_all
      have "ledger_inv lim cs sg t"
        by (rule return_root_inv [OF u kl _ guard(1,2,3)])
          (use root w in \<open>simp_all add: t update_delegation_def w_def\<close>)
      moreover have "map dr_disposition (delegations t)
            = map (\<lambda>r. if dr_identity r = i then Returned else dr_disposition r) (delegations s)"
        using disp [of "dcr_receipt_root c"] ds root(3) w by (simp add: t update_delegation_def)
      moreover have "map skeleton (delegations t) = map skeleton (delegations s)"
        using ds root(3) w kl by (simp add: t update_delegation_def skeleton_def returned_record_def)
      ultimately show ?thesis
        using res ok cf viol guard ds qm qi root(3) w
        by (auto simp: t update_delegation_def w_def)
    next
      case (child v p j)
      have jk: "j \<noteq> k"
        using lin child(1,4) w direct_child_irrefl by (auto simp: lineage_inv_def)
      have res: "res = Ok c"
        and t: "t = update_delegation k (returned_record n implicit (dcr_receipt_root c)) v"
        using body child w by simp_all
      have dt: "delegations t = (delegations u)[j := credit_child (dr_capacity_bytes ?q) (delegations u ! j),
          k := returned_record n implicit (dcr_receipt_root c) ?q]"
        using child(6) w jk by (simp add: t update_delegation_def)
      have "ledger_inv lim cs sg t"
        by (rule return_child_inv [OF u kl _ guard(1,2,3) _ _ dt, of p])
          (use child w in \<open>simp_all add: t update_delegation_def w_def\<close>)
      moreover have "map dr_disposition (delegations t)
            = map (\<lambda>r. if dr_identity r = i then Returned else dr_disposition r) (delegations s)"
      proof -
        have "map dr_disposition (delegations t)
            = map dr_disposition ((delegations u)[k := returned_record n implicit (dcr_receipt_root c) ?q])"
          unfolding dt using child(3) w jk
          by (subst list_update_swap [OF jk]) (simp add: credit_child_def)
        then show ?thesis using disp ds by simp
      qed
      moreover have "map skeleton (delegations t) = map skeleton (delegations s)"
        unfolding dt using ds child(3) w kl jk
        by (simp add: skeleton_def returned_record_def credit_child_def)
      ultimately show ?thesis
        using res ok cf viol guard ds qm qi child(6) w
        by (auto simp: t update_delegation_def w_def)
    qed
  qed
qed

section \<open>The seal\<close>

lemma ledger_inv_perm:
  assumes u: "ledger_inv lim cs sg u"
    and d: "mset (delegations t) = mset (delegations u)" and p: "mset (publications t) = mset (publications u)"
    and t: "used_bytes t = used_bytes u" "returned_delegated_bytes t = returned_delegated_bytes u"
      "peak_bytes t = peak_bytes u" "root_id t = root_id u" "root_identity t = root_identity u"
      "sequence t = sequence u" "direct_granted_bytes t = direct_granted_bytes u"
      "direct_returned_bytes t = direct_returned_bytes u" "delegated_bytes t = delegated_bytes u"
      "child_granted_bytes t = child_granted_bytes u" "child_returned_bytes t = child_returned_bytes u"
      "child_published_bytes t = child_published_bytes u" "metadata_limit t = metadata_limit u"
  shows "ledger_inv lim cs sg t"
proof -
  note pp = pubs_perm [OF p]
  have dtot: "total f (delegations t) = total f (delegations u)" for f using d by (rule total_perm)
  have dset: "set (delegations t) = set (delegations u)" using d by (rule mset_eq_setD)
  have dlen: "length (delegations t) = length (delegations u)" using d by (rule mset_eq_length)
  have "mset (map dr_identity (delegations t)) = mset (map dr_identity (delegations u))" by (simp add: d)
  then have ddis: "distinct (map dr_identity (delegations t))"
    using ledger_invD(2) [OF u] mset_eq_imp_distinct_iff by blast
  show ?thesis
  proof (rule ledger_invI [OF _ ddis])
    show "account_inv lim cs t"
      using ledger_invD(1) [OF u] d p unfolding account_inv_def t dtot dlen pp(3) by auto
    show "record_inv sg t r" if "r \<in> set (delegations t)" for r
      by (rule record_inv_shares [OF ledger_invD(4) [OF u]]) (use that pp dtot dset in simp_all)
    show "lineage_inv t r" if "r \<in> set (delegations t)" for r
      using ledger_invD(5) [OF u, of r] that by (auto simp: lineage_inv_def t dset split: option.split)
    show "publication_inv t x" if "x \<in> set (publications t)" for x
      using ledger_invD(6) [OF u, of x] that by (simp add: publication_inv_def t dset pp)
  qed (use ledger_invD(3,7) [OF u] in \<open>simp_all only: pp(4) dset\<close>)
qed

definition seal_inv :: "lease_state \<Rightarrow> bool" where
  "seal_inv s \<longleftrightarrow>
     (sealed s \<longleftrightarrow> seal_sequence s \<noteq> None)
     \<and> (\<forall>q. seal_sequence s = Some q \<longrightarrow> q \<le> sequence s)
     \<and> (\<forall>r. terminal_receipt s = Some r \<longrightarrow> sealed s
          \<and> slr_verify_for r (slr_root_identity r) = Inr () \<and> root_identity s = Some (slr_root_identity r))"

lemma seal_inv_new: "seal_inv lease_state_new"
  by (simp add: seal_inv_def lease_state_new_def)

lemma seal_inv_refused: "seal_inv s \<Longrightarrow> refused s t \<Longrightarrow> seal_inv t"
  by (auto simp: seal_inv_def refused_def same_books_def same_accounts_def intro: le_trans)

lemma published_total_zero:
  assumes u: "ledger_inv lim cs sg u"
  shows "child_published_bytes u = 0 \<longleftrightarrow>
     length (filter (\<lambda>r. pub_disposition r = Published) (publications u)) = 0"
proof -
  have "child_published_bytes u = 0 \<longleftrightarrow> (\<forall>r\<in>set (delegations u). dr_allocation_published_bytes r = 0)"
    using ledger_invD(1) [OF u] by (simp add: account_inv_def total_zero_iff)
  also have "\<dots> \<longleftrightarrow> (\<forall>r\<in>set (delegations u). \<forall>p\<in>set (publications u).
      published_bytes (dr_identity r) p = 0)"
    using ledger_invD(4) [OF u] by (simp add: record_inv_def total_zero_iff)
  also have "\<dots> \<longleftrightarrow> (\<forall>p\<in>set (publications u). pub_disposition p \<noteq> Published)"
    using ledger_invD(6) [OF u] by (fastforce simp: published_bytes_def publication_inv_def image_iff)
  finally show ?thesis by (auto simp: filter_empty_conv)
qed

lemma terminal_verifies:
  assumes u: "ledger_inv lim cs sg u" and reason: "seal_reason lim u = None" and q: "q \<le> n"
    and v: "mset (delegations v) = mset (delegations u)" "mset (publications v) = mset (publications u)"
      "v = u\<lparr>delegations := delegations v, publications := publications v\<rparr>"
    and r: "r = (terminal_of lim q n v)\<lparr>slr_receipt_root := slr_recompute_root (terminal_of lim q n v)\<rparr>"
  shows "slr_verify_for r (slr_root_identity r) = Inr ()" "root_identity v = Some (slr_root_identity r)"
proof -
  note pp = pubs_perm [OF v(2)]
  have dlen: "length (delegations v) = length (delegations u)" using v(1) by (rule mset_eq_length)
  note acc = ledger_invD(1) [OF u, unfolded account_inv_def]
  have guard: "root_identity u \<noteq> None" "root_id u \<noteq> None" "lim \<noteq> None" "\<not> counter_overflowed u"
    "release_invariant_violations u = 0" "used_bytes u = 0" "direct_granted_bytes u = direct_returned_bytes u"
    "delegated_bytes u = returned_delegated_bytes u"
    "checked_add u128_max (child_returned_bytes u) (child_published_bytes u) = Some (child_granted_bytes u)"
    "\<forall>p\<in>set (publications u). pub_disposition p \<noteq> Prepared"
    using reason by (auto simp: seal_reason_def simp del: checked_add_Some split: if_splits)
  let ?pc = "length (filter (\<lambda>r. pub_disposition r = Published) (publications v))"
  let ?bc = "length (filter (\<lambda>r. pub_disposition r = RolledBack) (publications v))"
  have cnt: "?pc + ?bc = length (publications v)"
    using count_resolved [of "publications v" "\<lambda>_. True"] guard(10) pp(2) by simp
  have "length (publications v) \<le> u64_max"
    using acc pp(3) by (simp add: MAX_DELEGATION_RECORDS_def u64_max_def)
  with cnt have cok: "checked_add u64_max ?pc ?bc = Some (length (publications v))" by simp
  have pub0: "child_published_bytes u = 0 \<longleftrightarrow> ?pc = 0"
    using published_total_zero [OF u] pp(2) by (auto simp: filter_empty_conv)
  have eq: "x v = x u" if "x \<in> {metadata_limit, direct_granted_bytes, direct_returned_bytes,
      delegated_bytes, returned_delegated_bytes, child_granted_bytes, child_returned_bytes,
      child_published_bytes, semantic_refusals, semantic_refused_bytes, peak_bytes, used_bytes,
      release_invariant_violations}" for x
    using that by (subst v(3)) auto
  have eq': "root_identity v = root_identity u" "counter_overflowed v = counter_overflowed u"
    by (subst v(3), simp)+
  have root_r: "slr_recompute_root r = slr_receipt_root r" by (simp add: r slr_recompute_root_def)
  show "root_identity v = Some (slr_root_identity r)"
    using guard eq' by (simp add: r terminal_of_def)
  have "is_root (the (root_identity v))" using acc guard eq' by auto
  then show "slr_verify_for r (slr_root_identity r) = Inr ()"
    unfolding slr_verify_for_def root_r using guard cok pub0 q acc dlen pp(3)
    by (auto simp: r terminal_of_def eq eq' simp del: checked_add_Some)
qed

lemma seal_op_inv:
  assumes inv: "ledger_inv lim cs sg s" and si: "seal_inv s" and op: "seal lim s = (res, t)"
  shows "res \<noteq> Panicked \<and> ledger_inv lim cs sg t \<and> seal_inv t \<and> sealed t
     \<and> release_invariant_violations t = release_invariant_violations s
     \<and> mset (delegations t) = mset (delegations s) \<and> mset (publications t) = mset (publications s)
     \<and> sequence s \<le> sequence t
     \<and> (counter_overflowed s \<longrightarrow> counter_overflowed t)
     \<and> (\<forall>r. res = Ok r \<longrightarrow> terminal_receipt t = Some r \<and> slr_verify_for r (slr_root_identity r) = Inr ()
          \<and> root_identity s = Some (slr_root_identity r))
     \<and> (\<forall>r. terminal_receipt s = Some r \<longrightarrow> res = Ok r \<and> t = s)"
proof (cases "terminal_receipt s")
  case (Some r)
  then have "res = Ok r" "t = s" using op by (simp_all add: seal_def)
  then show ?thesis using inv si Some by (auto simp: seal_inv_def)
next
  case None
  obtain n u where n: "next_sequence s = (n, u)" by (cases "next_sequence s")
  note su = refused_next_sequence [OF n]
  have u: "ledger_inv lim cs sg u" by (rule ledger_inv_refused [OF inv su])
  have us: "seal_inv u" by (rule seal_inv_refused [OF si su])
  have un: "sequence u \<le> n" "n \<le> sequence u" "terminal_receipt u = None"
    "delegations u = delegations s" "publications u = publications s" "root_identity u = root_identity s"
    "seal_sequence u = seal_sequence s" "sequence s \<le> sequence u"
    "counter_overflowed s \<longrightarrow> counter_overflowed u"
    "release_invariant_violations u = release_invariant_violations s"
    using n None ledger_invD(1) [OF inv] by (auto simp: next_sequence_def account_inv_def split: option.splits)
  define q where "q = (case seal_sequence u of Some x \<Rightarrow> x | None \<Rightarrow> n)"
  have qn: "q \<le> n" using us un by (auto simp: q_def seal_inv_def split: option.splits)
  define v where "v = u\<lparr>seal_sequence := Some q, sealed := True\<rparr>"
  have vinv: "ledger_inv lim cs sg v"
    by (rule ledger_inv_perm [OF u]) (simp_all add: v_def)
  have vs: "seal_inv v" using us un qn by (auto simp: seal_inv_def v_def)
  show ?thesis
  proof (cases "seal_reason lim v")
    case (Some reason)
    have res: "\<exists>e. res = Err e" and t: "t = record_semantic_refusal (reason_code_seal reason) (root_identity v)
        (case root_id v of Some name \<Rightarrow> name | None \<Rightarrow> ''unverified-root'') None (used_bytes v)
        (count_live_delegations v) n v"
      using op unfolding seal_def None n option.case prod.case Let_def q_def [symmetric] v_def [symmetric] Some
      by auto
    have vt: "refused v t" unfolding t by (rule refused_semantic)
    have "same_ledger v t" unfolding t by simp
    then have "delegations t = delegations u" "publications t = publications u" "sequence u \<le> sequence t"
      "counter_overflowed u \<longrightarrow> counter_overflowed t" "sealed t"
      by (auto simp: same_ledger_def same_accounts_def v_def)
    moreover have "release_invariant_violations t = release_invariant_violations u"
      by (simp add: t v_def)
    ultimately show ?thesis
      using ledger_inv_refused [OF vinv vt] seal_inv_refused [OF vs vt] res un None by auto
  next
    case ok: None
    define w where "w = v\<lparr>delegations := sort_key dr_identity (delegations v),
        publications := sort_key publication_key (publications v)\<rparr>"
    have w: "mset (delegations w) = mset (delegations v)" "mset (publications w) = mset (publications v)"
      "w = v\<lparr>delegations := delegations w, publications := publications w\<rparr>"
      by (simp_all add: w_def)
    define r where "r = (terminal_of lim q n w)\<lparr>slr_receipt_root := slr_recompute_root (terminal_of lim q n w)\<rparr>"
    note ver = terminal_verifies [OF vinv ok qn w r_def]
    have "(res, t) = (Ok r, w\<lparr>terminal_receipt := Some r\<rparr>)"
      unfolding op [symmetric] seal_def None n option.case prod.case Let_def q_def [symmetric]
        v_def [symmetric] ok
      using ver(1) by (simp add: w_def [simplified] r_def)
    then have res: "res = Ok r" and t: "t = w\<lparr>terminal_receipt := Some r\<rparr>" by simp_all
    have "ledger_inv lim cs sg t"
      by (rule ledger_inv_perm [OF u]) (simp_all add: t w_def v_def)
    moreover have "seal_inv t" "sealed t"
      using vs ver by (auto simp: t w_def v_def seal_inv_def)
    ultimately show ?thesis using res ver un None by (auto simp: t w_def v_def)
  qed
qed

end
