(* ===== verification/Lease_Frame.thy ===== *)
theory Lease_Frame
  imports Lease_Return
begin

text \<open>
  What no lease transition other than the seal changes: the seal and its terminal receipt stay,
  the root identity stays once configured, sequence numbers and violation counts never go back,
  and a counter overflow is never forgotten.
\<close>

definition frame :: "lease_state \<Rightarrow> lease_state \<Rightarrow> bool" where
  "frame s t \<longleftrightarrow>
     sequence s \<le> sequence t \<and> (counter_overflowed s \<longrightarrow> counter_overflowed t)
     \<and> release_invariant_violations s \<le> release_invariant_violations t
     \<and> sealed t = sealed s \<and> seal_sequence t = seal_sequence s
     \<and> terminal_receipt t = terminal_receipt s
     \<and> (root_identity s \<noteq> None \<longrightarrow> root_identity t = root_identity s)"

lemma frame_refl [simp]: "frame s s"
  by (simp add: frame_def)

lemma frame_trans: "frame s t \<Longrightarrow> frame t u \<Longrightarrow> frame s u"
  by (auto simp: frame_def)

lemma frame_refused: "refused s t \<Longrightarrow> frame s t"
  by (simp add: refused_def same_books_def same_accounts_def frame_def)

lemma frame_next_sequence: "next_sequence s = (n, u) \<Longrightarrow> frame s u"
  by (rule frame_refused [OF refused_next_sequence])

lemma frame_update_delegation [simp]: "frame s (update_delegation k f u) = frame s u"
  by (simp add: frame_def update_delegation_def)

lemma frame_update_publication [simp]: "frame s (update_publication k f u) = frame s u"
  by (simp add: frame_def update_publication_def)

text \<open>Updates of the accounts alone.\<close>

lemma frame_accounts [simp]:
  "frame s (u\<lparr>used_bytes := a\<rparr>) = frame s u" "frame s (u\<lparr>peak_bytes := a\<rparr>) = frame s u"
  "frame s (u\<lparr>requested_bytes := a\<rparr>) = frame s u"
  "frame s (u\<lparr>direct_granted_bytes := a\<rparr>) = frame s u"
  "frame s (u\<lparr>direct_returned_bytes := a\<rparr>) = frame s u"
  "frame s (u\<lparr>delegated_bytes := a\<rparr>) = frame s u"
  "frame s (u\<lparr>returned_delegated_bytes := a\<rparr>) = frame s u"
  "frame s (u\<lparr>child_granted_bytes := a\<rparr>) = frame s u"
  "frame s (u\<lparr>child_returned_bytes := a\<rparr>) = frame s u"
  "frame s (u\<lparr>child_published_bytes := a\<rparr>) = frame s u"
  "frame s (u\<lparr>delegations := ds\<rparr>) = frame s u"
  "frame s (u\<lparr>publications := ps\<rparr>) = frame s u"
  by (simp_all add: frame_def)

lemma frame_semantic [simp]:
  "frame s u \<Longrightarrow> frame s (record_semantic_refusal a b c d e f g u)"
  by (rule frame_trans [OF _ frame_refused [OF refused_semantic]])

lemma frame_violation [simp]: "frame s u \<Longrightarrow> frame s (increment_invariant_violation u)"
  by (rule frame_trans [OF _ frame_refused [OF refused_violation]])

lemma frame_overflow [simp]: "frame s u \<Longrightarrow> frame s (u\<lparr>counter_overflowed := True\<rparr>)"
  by (rule frame_trans [OF _ frame_refused [OF refused_overflow]])

lemma frame_published_refusal:
  "record_published_transfer_refusal r p c bd env b opn reason q u = (e, t) \<Longrightarrow> frame s u \<Longrightarrow> frame s t"
  by (auto simp: record_published_transfer_refusal_def Let_def)

lemma enable_delegation_frame: "enable_delegation lim ok root name limit s = (res, t) \<Longrightarrow> frame s t"
proof (erule enable_delegation_cases)
  fix u n
  assume "next_sequence s = (n, u)" "enable_delegation_reason lim root name limit u = None"
    "t = u\<lparr>root_identity := Some root, root_id := Some name, metadata_limit := limit\<rparr>"
  then show "frame s t"
    using frame_next_sequence [of s n u]
    by (auto simp: frame_def enable_delegation_reason_def split: if_splits)
qed (rule frame_refused)

lemma reserve_frame: "reserve lim what b s = (res, t) \<Longrightarrow> frame s t"
  by (erule reserve_cases) (simp_all add: frame_refused frame_next_sequence)

lemma release_raw_frame: "release_raw b s = (ok, t) \<Longrightarrow> frame s t"
  using frame_next_sequence [of s]
  by (auto simp: release_raw_def split: prod.splits option.splits if_splits)

lemma drop_charge_frame: "frame s (drop_charge b s)"
  using release_raw_frame [of b s "fst (release_raw b s)" "snd (release_raw b s)"]
  by (simp add: drop_charge_def)

lemma delegate_frame: "delegate_from lim par ppath i lp cap s = (res, t) \<Longrightarrow> frame s t"
  by (erule delegate_cases) (simp_all add: frame_refused frame_next_sequence debit_root_def)

lemma frame_count_child: "frame s u \<Longrightarrow> frame s (count_child_refusal k b u)"
  by (rule frame_trans [OF _ frame_refused [OF refused_count_child]])

lemma reserve_delegated_frame: "reserve_delegated_charge i cap lp site b s = (res, t) \<Longrightarrow> frame s t"
  using frame_next_sequence [of s]
  by (auto simp: reserve_delegated_charge_def Let_def frame_count_child
      split: prod.splits option.splits if_splits)

lemma release_delegated_frame: "frame s (release_delegated i b s)"
  using frame_next_sequence [of s]
  by (auto simp: release_delegated_def Let_def split: prod.splits option.splits if_splits)

lemma credit_parent_frame: "credit_parent p c (u\<lparr>publications := ps\<rparr>) = Ok v \<Longrightarrow> frame s u \<Longrightarrow> frame s v"
  by (auto simp: credit_parent_def Let_def split: option.splits if_splits)

lemma return_delegation_frame:
  assumes "return_delegation i im s = (res, t)" shows "frame s t"
proof -
  obtain n u where n: "next_sequence s = (n, u)" by (cases "next_sequence s")
  have u: "frame s u" by (rule frame_next_sequence [OF n])
  show ?thesis
    using assms u
    by (auto simp: return_delegation_def n Let_def split: prod.splits option.splits if_splits
        outcome.splits sum.splits dest: credit_parent_frame [OF _ u])
qed

lemma prepare_frame: "prepare_published_transfer i b bd env s = (res, t) \<Longrightarrow> frame s t"
  using frame_next_sequence [of s]
  by (auto simp: prepare_published_transfer_def Let_def split: prod.splits option.splits
      intro: frame_published_refusal)

lemma publish_frame: "publish_prepared_transfer pt s = (res, t) \<Longrightarrow> frame s t"
  using frame_next_sequence [of s]
  by (auto simp: publish_prepared_transfer_def Let_def split: prod.splits option.splits sum.splits
      intro: frame_published_refusal)

lemma rollback_frame: "rollback_prepared_transfer pt im s = (res, t) \<Longrightarrow> frame s t"
  using frame_next_sequence [of s]
  by (auto simp: rollback_prepared_transfer_def Let_def split: prod.splits option.splits sum.splits if_splits
      intro: frame_published_refusal)

lemma close_published_frame: "close_published_transfer d im s = (res, t) \<Longrightarrow> frame s t"
  using frame_next_sequence [of s]
  by (auto simp: close_published_transfer_def Let_def split: prod.splits option.splits sum.splits if_splits
      intro: frame_published_refusal)

lemma seal_inv_frame: "seal_inv s \<Longrightarrow> frame s t \<Longrightarrow> seal_inv t"
  by (fastforce simp: seal_inv_def frame_def)

section \<open>The shape of the records\<close>

text \<open>Who the records are and whether they are live: only delegation and return change that.\<close>

definition shape :: "delegation_record \<Rightarrow>
    (lease_identity \<times> lease_identity option \<times> nat \<times> nat) \<times> delegation_disposition" where
  "shape r = (skeleton r, dr_disposition r)"

definition same_shape :: "lease_state \<Rightarrow> lease_state \<Rightarrow> bool" where
  "same_shape s t \<longleftrightarrow> map shape (delegations t) = map shape (delegations s)"

lemma same_shape_trans: "same_shape s t \<Longrightarrow> same_shape t u \<Longrightarrow> same_shape s u"
  by (simp add: same_shape_def)

lemma same_shape_refused:
  assumes "refused s t" shows "same_shape s t"
proof -
  have "map unrefused (delegations t) = map unrefused (delegations s)"
    using assms by (simp add: refused_def same_books_def)
  moreover have "map shape xs = map shape (map unrefused xs)" for xs
    by (simp add: shape_def skeleton_def unrefused_def)
  ultimately show ?thesis unfolding same_shape_def by metis
qed

lemma same_shapeD:
  assumes "same_shape s t"
  shows "dr_identity ` set (delegations t) = dr_identity ` set (delegations s)"
    "r \<in> set (delegations s) \<Longrightarrow> \<exists>q\<in>set (delegations t). shape q = shape r"
    "r \<in> set (delegations t) \<Longrightarrow> \<exists>q\<in>set (delegations s). shape q = shape r"
proof -
  have m: "map shape (delegations t) = map shape (delegations s)" using assms by (simp add: same_shape_def)
  then have i: "shape ` set (delegations t) = shape ` set (delegations s)" by (metis set_map)
  have "dr_identity = (\<lambda>x. fst (fst x)) \<circ> shape" by (auto simp: shape_def skeleton_def)
  then show "dr_identity ` set (delegations t) = dr_identity ` set (delegations s)"
    using i by (metis image_comp)
  show "r \<in> set (delegations s) \<Longrightarrow> \<exists>q\<in>set (delegations t). shape q = shape r"
    "r \<in> set (delegations t) \<Longrightarrow> \<exists>q\<in>set (delegations s). shape q = shape r"
    using i by (metis imageE imageI)+
qed

lemma same_shape_update:
  "delegations u = delegations s \<Longrightarrow> (\<And>r. shape (f r) = shape r) \<Longrightarrow> same_shape s (update_delegation k f u)"
  by (cases "k < length (delegations s)")
    (simp_all add: same_shape_def update_delegation_def list_update_beyond)

lemma same_shape_eq: "delegations t = delegations s \<Longrightarrow> same_shape s t"
  by (simp add: same_shape_def)

lemma next_sequence_delegations: "next_sequence s = (n, u) \<Longrightarrow> delegations u = delegations s"
  using next_sequence_ledger by (simp add: same_ledger_def)

lemma violation_delegations [simp]: "delegations (increment_invariant_violation u) = delegations u"
  using increment_invariant_violation_ledger by (simp add: same_ledger_def)

lemma drop_charge_shape: "same_shape s (drop_charge b s)"
  using next_sequence_delegations [of s]
  by (auto simp: drop_charge_def release_raw_def intro!: same_shape_eq
      split: prod.splits option.splits)

lemma release_delegated_shape: "same_shape s (release_delegated i b s)"
  using next_sequence_delegations [of s]
  by (auto simp: release_delegated_def Let_def shape_def skeleton_def
      same_shape_eq same_shape_update split: prod.splits option.splits)

lemma reserve_delegated_shape:
  "reserve_delegated_charge i cap lp site b s = (Ok c, t) \<Longrightarrow> same_shape s t"
  using next_sequence_delegations [of s]
  by (auto simp: reserve_delegated_charge_def Let_def shape_def skeleton_def grant_child_def
      intro!: same_shape_update split: prod.splits option.splits)

end
