(* ===== verification/Lease_System.thy ===== *)
theory Lease_System
  imports Lease_Frame
begin

text \<open>
  A memory lease together with every live handle on it: root charges, delegated owners, charges
  inside owners, prepared publications and published destinations. The operations are the
  methods and destructors of those handles in \<open>crates/fs-alloc/src/lease.rs\<close>, including what a
  consuming method does with the handle when it is refused.

  \<open>lease_step\<close> allows any interleaving of them. With \<open>scoped = True\<close> an owner is closed only when
  nothing borrows it any more, which is what the lifetimes of the source enforce; with
  \<open>scoped = False\<close> handles may have been leaked (\<open>mem::forget\<close>) and the runtime checks are on
  their own. The safety results hold for both.

  A method holds the lock for its whole transition, except that a refused preparation or publication
  releases it before the handle it consumed is dropped, which takes the lock again. Both orders are
  steps: refusal and drop at once, or the refusal alone, after which other operations may come before
  the drop (\<open>unstage\<close> or \<open>abandon\<close> of the handle).
\<close>

record delegated_owner =
  do_identity :: lease_identity
  do_parent_identity :: "lease_identity option"
  do_logical_path :: string
  do_capacity_bytes :: nat

record lease_system =
  limit_bytes :: "nat option"
  ledger :: lease_state
  charges :: "nat list"
  owners :: "delegated_owner list"
  staged :: "(lease_identity \<times> nat) list"
  prepared :: "prepared_transfer list"
  destinations :: "published_transfer_receipt list"

definition lease_new :: "nat option \<Rightarrow> lease_system" where
  "lease_new limit = \<lparr>limit_bytes = limit, ledger = lease_state_new, charges = [], owners = [],
     staged = [], prepared = [], destinations = []\<rparr>"

section \<open>Root operations\<close>

definition sys_enable_delegation :: "bool \<Rightarrow> lease_identity \<Rightarrow> string \<Rightarrow> nat \<Rightarrow> lease_system
    \<Rightarrow> (lease_configuration_refusal, unit) outcome \<times> lease_system" where
  "sys_enable_delegation alloc_ok root name limit \<sigma> =
    (case enable_delegation (limit_bytes \<sigma>) alloc_ok root name limit (ledger \<sigma>) of
       (res, t) \<Rightarrow> (res, \<sigma>\<lparr>ledger := t\<rparr>))"

definition sys_reserve :: "string \<Rightarrow> nat \<Rightarrow> lease_system \<Rightarrow> (lease_refusal, nat) outcome \<times> lease_system" where
  "sys_reserve what bytes \<sigma> =
    (case reserve (limit_bytes \<sigma>) what bytes (ledger \<sigma>) of
       (Ok c, t) \<Rightarrow> (Ok c, \<sigma>\<lparr>ledger := t, charges := c # charges \<sigma>\<rparr>)
     | (res, t) \<Rightarrow> (res, \<sigma>\<lparr>ledger := t\<rparr>))"

definition sys_drop_charge :: "nat \<Rightarrow> lease_system \<Rightarrow> lease_system" where
  "sys_drop_charge bytes \<sigma> =
     \<sigma>\<lparr>ledger := drop_charge bytes (ledger \<sigma>), charges := remove1 bytes (charges \<sigma>)\<rparr>"

definition sys_seal :: "lease_system \<Rightarrow> (lease_seal_refusal, sealed_lease_receipt) outcome \<times> lease_system" where
  "sys_seal \<sigma> = (case seal (limit_bytes \<sigma>) (ledger \<sigma>) of (res, t) \<Rightarrow> (res, \<sigma>\<lparr>ledger := t\<rparr>))"

section \<open>Delegated owners\<close>

text \<open>\<open>OperationMemoryLease::delegate_capacity\<close> (no parent) and
  \<open>DelegatedMemoryLease::delegate_capacity\<close> (the owner is the parent).\<close>

definition delegate_capacity :: "delegated_owner option \<Rightarrow> lease_identity \<Rightarrow> string \<Rightarrow> nat \<Rightarrow> lease_system
    \<Rightarrow> (lease_delegation_refusal, unit) outcome \<times> lease_system" where
  "delegate_capacity parent identity logical_path capacity \<sigma> =
    (case delegate_from (limit_bytes \<sigma>) (map_option do_identity parent)
        (map_option do_logical_path parent) identity logical_path capacity (ledger \<sigma>) of
       (Ok u, t) \<Rightarrow> (Ok u, \<sigma>\<lparr>ledger := t, owners :=
          \<lparr>do_identity = identity, do_parent_identity = map_option do_identity parent,
           do_logical_path = logical_path, do_capacity_bytes = capacity\<rparr> # owners \<sigma>\<rparr>)
     | (res, t) \<Rightarrow> (res, \<sigma>\<lparr>ledger := t\<rparr>))"

definition owner_reserve :: "delegated_owner \<Rightarrow> string \<Rightarrow> nat \<Rightarrow> lease_system
    \<Rightarrow> (delegated_lease_refusal, lease_identity \<times> nat) outcome \<times> lease_system" where
  "owner_reserve owner site bytes \<sigma> =
    (case reserve_delegated_charge (do_identity owner) (do_capacity_bytes owner)
        (do_logical_path owner) site bytes (ledger \<sigma>) of
       (Ok c, t) \<Rightarrow> (Ok c, \<sigma>\<lparr>ledger := t, staged := c # staged \<sigma>\<rparr>)
     | (res, t) \<Rightarrow> (res, \<sigma>\<lparr>ledger := t\<rparr>))"

text \<open>\<open>close\<close> (explicit) and \<open>drop\<close> (implicit): either way the owner is gone.\<close>

definition owner_close :: "delegated_owner \<Rightarrow> bool \<Rightarrow> lease_system
    \<Rightarrow> (delegated_lease_close_refusal, delegated_lease_close_receipt) outcome \<times> lease_system" where
  "owner_close owner implicit \<sigma> =
    (case return_delegation (do_identity owner) implicit (ledger \<sigma>) of
       (res, t) \<Rightarrow> (res, \<sigma>\<lparr>ledger := t, owners := remove1 owner (owners \<sigma>)\<rparr>))"

section \<open>Staged charges and publications\<close>

definition drop_delegated_charge :: "lease_identity \<times> nat \<Rightarrow> lease_system \<Rightarrow> lease_system" where
  "drop_delegated_charge c \<sigma> =
     \<sigma>\<lparr>ledger := release_delegated (fst c) (snd c) (ledger \<sigma>), staged := remove1 c (staged \<sigma>)\<rparr>"

text \<open>A refused preparation drops the charge it consumed.\<close>

definition prepare_transfer :: "lease_identity \<times> nat \<Rightarrow> transfer_binding \<Rightarrow> transfer_envelope
    \<Rightarrow> lease_system \<Rightarrow> (published_transfer_refusal, nat) outcome \<times> lease_system" where
  "prepare_transfer c bind env \<sigma> =
    (case prepare_published_transfer (fst c) (snd c) bind env (ledger \<sigma>) of
       (Ok seq, t) \<Rightarrow> (Ok seq, \<sigma>\<lparr>ledger := t, staged := remove1 c (staged \<sigma>), prepared :=
          \<lparr>pt_child_identity = fst c, pt_binding = bind, pt_envelope = env, pt_bytes = snd c,
           pt_prepared_sequence = seq\<rparr> # prepared \<sigma>\<rparr>)
     | (Err e, t) \<Rightarrow> (Err e, drop_delegated_charge c (\<sigma>\<lparr>ledger := t\<rparr>))
     | (Panicked, t) \<Rightarrow> (Panicked, \<sigma>\<lparr>ledger := t\<rparr>))"

definition drop_prepared :: "prepared_transfer \<Rightarrow> lease_system
    \<Rightarrow> (published_transfer_refusal, published_transfer_rollback_receipt) outcome \<times> lease_system" where
  "drop_prepared pt \<sigma> =
    (case rollback_prepared_transfer pt True (ledger \<sigma>) of
       (res, t) \<Rightarrow> (res, \<sigma>\<lparr>ledger := t, prepared := remove1 pt (prepared \<sigma>)\<rparr>))"

definition rollback_prepared :: "prepared_transfer \<Rightarrow> lease_system
    \<Rightarrow> (published_transfer_refusal, published_transfer_rollback_receipt) outcome \<times> lease_system" where
  "rollback_prepared pt \<sigma> =
    (case rollback_prepared_transfer pt False (ledger \<sigma>) of
       (res, t) \<Rightarrow> (res, \<sigma>\<lparr>ledger := t, prepared := remove1 pt (prepared \<sigma>)\<rparr>))"

text \<open>A refused publication drops the prepared handle, which rolls back.\<close>

definition publish_prepared :: "prepared_transfer \<Rightarrow> lease_system
    \<Rightarrow> (published_transfer_refusal, published_transfer_receipt) outcome \<times> lease_system" where
  "publish_prepared pt \<sigma> =
    (case publish_prepared_transfer pt (ledger \<sigma>) of
       (Ok d, t) \<Rightarrow> (Ok d, \<sigma>\<lparr>ledger := t, prepared := remove1 pt (prepared \<sigma>),
                              destinations := d # destinations \<sigma>\<rparr>)
     | (Err e, t) \<Rightarrow> (Err e, snd (drop_prepared pt (\<sigma>\<lparr>ledger := t\<rparr>)))
     | (Panicked, t) \<Rightarrow> (Panicked, \<sigma>\<lparr>ledger := t\<rparr>))"

definition close_destination :: "published_transfer_receipt \<Rightarrow> bool \<Rightarrow> lease_system
    \<Rightarrow> (published_transfer_refusal, published_transfer_close_receipt) outcome \<times> lease_system" where
  "close_destination d implicit \<sigma> =
    (case close_published_transfer d implicit (ledger \<sigma>) of
       (res, t) \<Rightarrow> (res, \<sigma>\<lparr>ledger := t, destinations := remove1 d (destinations \<sigma>)\<rparr>))"

section \<open>Runs\<close>

text \<open>Nothing borrows the owner: no charge, prepared publication or nested owner of it is live.\<close>

definition unborrowed :: "delegated_owner \<Rightarrow> lease_system \<Rightarrow> bool" where
  "unborrowed owner \<sigma> \<longleftrightarrow>
     (\<forall>c\<in>set (staged \<sigma>). fst c \<noteq> do_identity owner)
     \<and> (\<forall>pt\<in>set (prepared \<sigma>). pt_child_identity pt \<noteq> do_identity owner)
     \<and> (\<forall>w\<in>set (owners \<sigma>). do_parent_identity w \<noteq> Some (do_identity owner))"

inductive lease_step :: "bool \<Rightarrow> lease_system \<Rightarrow> lease_system \<Rightarrow> bool" for scoped :: bool where
  enable: "lease_step scoped \<sigma> (snd (sys_enable_delegation ok root name limit \<sigma>))"
| root_reserve: "lease_step scoped \<sigma> (snd (sys_reserve what bytes \<sigma>))"
| root_release: "bytes \<in> set (charges \<sigma>) \<Longrightarrow> lease_step scoped \<sigma> (sys_drop_charge bytes \<sigma>)"
| seal_root: "lease_step scoped \<sigma> (snd (sys_seal \<sigma>))"
| delegate: "(\<forall>p. parent = Some p \<longrightarrow> p \<in> set (owners \<sigma>)) \<Longrightarrow>
    lease_step scoped \<sigma> (snd (delegate_capacity parent identity path capacity \<sigma>))"
| stage: "owner \<in> set (owners \<sigma>) \<Longrightarrow> lease_step scoped \<sigma> (snd (owner_reserve owner site bytes \<sigma>))"
| close_owner: "owner \<in> set (owners \<sigma>) \<Longrightarrow> scoped \<longrightarrow> unborrowed owner \<sigma> \<Longrightarrow>
    lease_step scoped \<sigma> (snd (owner_close owner implicit \<sigma>))"
| unstage: "c \<in> set (staged \<sigma>) \<Longrightarrow> lease_step scoped \<sigma> (drop_delegated_charge c \<sigma>)"
| prepare: "c \<in> set (staged \<sigma>) \<Longrightarrow> lease_step scoped \<sigma> (snd (prepare_transfer c bind env \<sigma>))"
| prepare_refused: "c \<in> set (staged \<sigma>) \<Longrightarrow>
    prepare_published_transfer (fst c) (snd c) bind env (ledger \<sigma>) = (Err e, t) \<Longrightarrow> lease_step scoped \<sigma> (\<sigma>\<lparr>ledger := t\<rparr>)"
| publish: "pt \<in> set (prepared \<sigma>) \<Longrightarrow> lease_step scoped \<sigma> (snd (publish_prepared pt \<sigma>))"
| publish_refused: "pt \<in> set (prepared \<sigma>) \<Longrightarrow> publish_prepared_transfer pt (ledger \<sigma>) = (Err e, t) \<Longrightarrow>
    lease_step scoped \<sigma> (\<sigma>\<lparr>ledger := t\<rparr>)"
| rollback: "pt \<in> set (prepared \<sigma>) \<Longrightarrow> lease_step scoped \<sigma> (snd (rollback_prepared pt \<sigma>))"
| abandon: "pt \<in> set (prepared \<sigma>) \<Longrightarrow> lease_step scoped \<sigma> (snd (drop_prepared pt \<sigma>))"
| close_dest: "d \<in> set (destinations \<sigma>) \<Longrightarrow>
    lease_step scoped \<sigma> (snd (close_destination d implicit \<sigma>))"

definition lease_run :: "bool \<Rightarrow> nat option \<Rightarrow> lease_system \<Rightarrow> bool" where
  "lease_run scoped limit \<sigma> \<longleftrightarrow> (lease_step scoped)\<^sup>*\<^sup>* (lease_new limit) \<sigma>"

inductive_cases lease_stepE: "lease_step scoped \<sigma> \<tau>"

section \<open>The invariant of a run\<close>

definition owner_ok :: "lease_state \<Rightarrow> delegated_owner \<Rightarrow> bool" where
  "owner_ok s w \<longleftrightarrow> (\<exists>r\<in>set (delegations s). dr_identity r = do_identity w
     \<and> dr_capacity_bytes r = do_capacity_bytes w \<and> dr_parent_identity r = do_parent_identity w)"

definition prepared_ok :: "lease_state \<Rightarrow> prepared_transfer \<Rightarrow> bool" where
  "prepared_ok s pt \<longleftrightarrow> pt_child_identity pt \<in> dr_identity ` set (delegations s)"

definition destination_ok :: "lease_state \<Rightarrow> published_transfer_receipt \<Rightarrow> bool" where
  "destination_ok s d \<longleftrightarrow>
     ptr_verify_for d (ptr_root_identity d) (ptr_parent_identity d) (ptr_child_identity d)
       (ptr_binding d) (ptr_envelope d) = Inr ()
     \<and> ptr_published_sequence d \<le> sequence s"

definition handles_inv :: "lease_system \<Rightarrow> bool" where
  "handles_inv \<sigma> \<longleftrightarrow> (\<forall>w\<in>set (owners \<sigma>). owner_ok (ledger \<sigma>) w)
     \<and> (\<forall>pt\<in>set (prepared \<sigma>). prepared_ok (ledger \<sigma>) pt)
     \<and> (\<forall>d\<in>set (destinations \<sigma>). destination_ok (ledger \<sigma>) d)"

definition sys_inv :: "lease_system \<Rightarrow> bool" where
  "sys_inv \<sigma> \<longleftrightarrow> ledger_inv (limit_bytes \<sigma>) (charges \<sigma>) (staged \<sigma>) (ledger \<sigma>)
     \<and> seal_inv (ledger \<sigma>) \<and> handles_inv \<sigma>"

lemma sys_inv_new: "sys_inv (lease_new limit)"
  by (simp add: sys_inv_def lease_new_def ledger_inv_new seal_inv_new handles_inv_def)

lemma map_skeleton_shape: "map shape (delegations t) = map shape (delegations s) \<Longrightarrow>
   map skeleton (delegations t) = map skeleton (delegations s)"
proof -
  have "map skeleton xs = map fst (map shape xs)" for xs by (simp add: shape_def)
  then show "map shape (delegations t) = map shape (delegations s) \<Longrightarrow> ?thesis" by metis
qed

lemma same_shape_skeleton: "same_shape s t \<Longrightarrow> map skeleton (delegations t) = map skeleton (delegations s)"
  using map_skeleton_shape by (simp add: same_shape_def)

lemma owner_ok_mono:
  assumes "owner_ok s w" "set (map skeleton (delegations s)) \<subseteq> set (map skeleton (delegations t))"
  shows "owner_ok t w"
proof -
  obtain x where x: "x \<in> set (delegations s)" "dr_identity x = do_identity w"
    "dr_capacity_bytes x = do_capacity_bytes w" "dr_parent_identity x = do_parent_identity w"
    using assms(1) by (auto simp: owner_ok_def)
  then have "skeleton x \<in> set (map skeleton (delegations t))" using assms(2) by auto
  then obtain q where "q \<in> set (delegations t)" "skeleton q = skeleton x" by auto
  then show ?thesis using x by (auto simp: owner_ok_def skeleton_def)
qed

lemma prepared_ok_mono:
  assumes "prepared_ok s pt" "set (map skeleton (delegations s)) \<subseteq> set (map skeleton (delegations t))"
  shows "prepared_ok t pt"
proof -
  obtain x where x: "x \<in> set (delegations s)" "dr_identity x = pt_child_identity pt"
    using assms(1) by (auto simp: prepared_ok_def)
  then have "skeleton x \<in> set (map skeleton (delegations t))" using assms(2) by auto
  then obtain q where "q \<in> set (delegations t)" "skeleton q = skeleton x" by auto
  then show ?thesis using x unfolding prepared_ok_def by (metis fst_conv imageI skeleton_def)
qed

lemma destination_ok_mono: "destination_ok s d \<Longrightarrow> sequence s \<le> sequence t \<Longrightarrow> destination_ok t d"
  by (auto simp: destination_ok_def)

lemma handles_inv_mono:
  assumes "handles_inv \<sigma>"
    and sk: "set (map skeleton (delegations (ledger \<sigma>))) \<subseteq> set (map skeleton (delegations (ledger \<tau>)))"
    and "sequence (ledger \<sigma>) \<le> sequence (ledger \<tau>)"
    and "set (owners \<tau>) \<subseteq> set (owners \<sigma>)" "set (prepared \<tau>) \<subseteq> set (prepared \<sigma>)"
      "set (destinations \<tau>) \<subseteq> set (destinations \<sigma>)"
  shows "handles_inv \<tau>"
  using assms(1,3-) owner_ok_mono [OF _ sk] prepared_ok_mono [OF _ sk] destination_ok_mono
  unfolding handles_inv_def by blast

text \<open>Facts about the owners' records that the ledger lemmas ask for.\<close>

lemma owner_record:
  assumes "sys_inv \<sigma>" "w \<in> set (owners \<sigma>)"
  shows "do_identity w \<in> dr_identity ` set (delegations (ledger \<sigma>))"
    "r \<in> set (delegations (ledger \<sigma>)) \<Longrightarrow> dr_identity r = do_identity w \<Longrightarrow>
       dr_capacity_bytes r = do_capacity_bytes w \<and> dr_parent_identity r = do_parent_identity w"
proof -
  obtain x where x: "x \<in> set (delegations (ledger \<sigma>))" "dr_identity x = do_identity w"
      "dr_capacity_bytes x = do_capacity_bytes w" "dr_parent_identity x = do_parent_identity w"
    using assms by (auto simp: sys_inv_def handles_inv_def owner_ok_def)
  then show "do_identity w \<in> dr_identity ` set (delegations (ledger \<sigma>))" by (metis imageI)
  have "distinct (map dr_identity (delegations (ledger \<sigma>)))"
    using assms(1) ledger_invD(2) unfolding sys_inv_def by blast
  then show "r \<in> set (delegations (ledger \<sigma>)) \<Longrightarrow> dr_identity r = do_identity w \<Longrightarrow>
       dr_capacity_bytes r = do_capacity_bytes w \<and> dr_parent_identity r = do_parent_identity w"
    using x by (metis eq_key_imp_eq_value distinct_map inj_onD)
qed

lemma ledger_inv_charges:
  "ledger_inv lim cs sg s \<Longrightarrow> sum_list cs' = sum_list cs \<Longrightarrow> ledger_inv lim cs' sg s"
  by (simp add: ledger_inv_def account_inv_def)

lemma drop_charge_inv:
  assumes "ledger_inv lim cs sg s" "b \<in> set cs"
  shows "ledger_inv lim (remove1 b cs) sg (drop_charge b s)
    \<and> release_invariant_violations (drop_charge b s) = release_invariant_violations s"
proof (cases "b = 0")
  case True
  have "sum_list (remove1 b cs) = sum_list cs"
    using total_remove1 [OF assms(2), of id] True by (simp add: total_def)
  then show ?thesis using ledger_inv_charges [OF assms(1)] True by (simp add: drop_charge_def)
next
  case False
  then show ?thesis
    using release_raw_inv [OF assms, of "fst (release_raw b s)" "snd (release_raw b s)"]
    by (simp add: drop_charge_def)
qed

lemma delegate_shape:
  assumes "delegate_from lim par ppath i lp cap s = (Ok x, t)"
  shows "\<exists>n. map shape (delegations t) = map shape (delegations s) @ [((i, par, n, cap), Live)]"
  using assms
proof (cases rule: delegate_cases)
  case (root n u)
  then show ?thesis using next_sequence_delegations [OF root(1)]
    by (auto simp: debit_root_def new_delegation_record_def shape_def skeleton_def)
next
  case (child n u p k)
  have "map shape ((delegations u)[k := debit_child cap (delegations u ! k)]) = map shape (delegations u)"
    using delegation_indexD [OF child(5)] by (simp add: shape_def skeleton_def debit_child_def)
  then show ?thesis using next_sequence_delegations [OF child(1)] child
    by (auto simp: new_delegation_record_def shape_def skeleton_def)
qed simp

section \<open>Every operation keeps the invariant and returns\<close>

lemma sys_invD:
  assumes "sys_inv \<sigma>"
  shows "ledger_inv (limit_bytes \<sigma>) (charges \<sigma>) (staged \<sigma>) (ledger \<sigma>)" "seal_inv (ledger \<sigma>)"
    "handles_inv \<sigma>"
  using assms by (auto simp: sys_inv_def)

text \<open>The common case: the seal is untouched, no record leaves, no handle appears.\<close>

lemma sys_invI:
  assumes "sys_inv \<sigma>" "ledger_inv (limit_bytes \<tau>) (charges \<tau>) (staged \<tau>) (ledger \<tau>)"
    and "frame (ledger \<sigma>) (ledger \<tau>)"
    and "map skeleton (delegations (ledger \<tau>)) = map skeleton (delegations (ledger \<sigma>))"
    and "set (owners \<tau>) \<subseteq> set (owners \<sigma>)" "set (prepared \<tau>) \<subseteq> set (prepared \<sigma>)"
      "set (destinations \<tau>) \<subseteq> set (destinations \<sigma>)"
  shows "sys_inv \<tau>"
  unfolding sys_inv_def
proof (intro conjI)
  show "seal_inv (ledger \<tau>)" using seal_inv_frame [OF sys_invD(2) [OF assms(1)] assms(3)] .
  have "sequence (ledger \<sigma>) \<le> sequence (ledger \<tau>)" using assms(3) by (simp add: frame_def)
  then show "handles_inv \<tau>"
    by (intro handles_inv_mono [OF sys_invD(3) [OF assms(1)]]) (use assms(4-) in simp_all)
qed (rule assms(2))

lemma refused_skeleton:
  "refused s t \<Longrightarrow> map skeleton (delegations t) = map skeleton (delegations s)"
  by (rule same_shape_skeleton [OF same_shape_refused])

lemma sys_inv_refused:
  assumes "sys_inv \<sigma>" "refused (ledger \<sigma>) t"
  shows "sys_inv (\<sigma>\<lparr>ledger := t\<rparr>)"
  using ledger_inv_refused [OF sys_invD(1) [OF assms(1)] assms(2)] frame_refused [OF assms(2)]
    refused_skeleton [OF assms(2)] by (intro sys_invI [OF assms(1)]) simp_all

lemma sys_enable_delegation_inv:
  assumes "sys_inv \<sigma>" "sys_enable_delegation ok root name limit \<sigma> = (res, \<tau>)"
  shows "res \<noteq> Panicked \<and> sys_inv \<tau>"
proof -
  obtain t where op: "enable_delegation (limit_bytes \<sigma>) ok root name limit (ledger \<sigma>) = (res, t)"
    and \<tau>: "\<tau> = \<sigma>\<lparr>ledger := t\<rparr>"
    using assms(2) by (auto simp: sys_enable_delegation_def split: prod.splits)
  note inv = enable_delegation_inv [OF sys_invD(1) [OF assms(1)] op]
  have "delegations t = delegations (ledger \<sigma>)
      \<or> map skeleton (delegations t) = map skeleton (delegations (ledger \<sigma>))"
    using op by (cases rule: enable_delegation_cases)
      (auto dest: refused_skeleton next_sequence_delegations)
  then show ?thesis
    using inv enable_delegation_frame [OF op]
    by (auto intro!: sys_invI [OF assms(1)] simp: \<tau>)
qed

lemma sys_reserve_inv:
  assumes "sys_inv \<sigma>" "sys_reserve what bytes \<sigma> = (res, \<tau>)"
  shows "res \<noteq> Panicked \<and> sys_inv \<tau>"
proof -
  obtain t where op: "reserve (limit_bytes \<sigma>) what bytes (ledger \<sigma>) = (res, t)"
    and \<tau>: "\<tau> = (case res of Ok c \<Rightarrow> \<sigma>\<lparr>ledger := t, charges := c # charges \<sigma>\<rparr> | _ \<Rightarrow> \<sigma>\<lparr>ledger := t\<rparr>)"
    using assms(2) by (auto simp: sys_reserve_def split: prod.splits outcome.splits)
  note inv = reserve_inv [OF sys_invD(1) [OF assms(1)] op]
  have "map skeleton (delegations t) = map skeleton (delegations (ledger \<sigma>))"
    using op by (cases rule: reserve_cases)
      (auto dest: refused_skeleton next_sequence_delegations)
  then show ?thesis
    using inv reserve_frame [OF op]
    by (auto intro!: sys_invI [OF assms(1)] simp: \<tau> split: outcome.splits)
qed

lemma sys_drop_charge_inv:
  assumes "sys_inv \<sigma>" "bytes \<in> set (charges \<sigma>)"
  shows "sys_inv (sys_drop_charge bytes \<sigma>)"
  using drop_charge_inv [OF sys_invD(1) [OF assms(1)] assms(2)]
  by (intro sys_invI [OF assms(1)])
    (simp_all add: sys_drop_charge_def drop_charge_frame same_shape_skeleton [OF drop_charge_shape])

lemma sys_seal_inv:
  assumes "sys_inv \<sigma>" "sys_seal \<sigma> = (res, \<tau>)"
  shows "res \<noteq> Panicked \<and> sys_inv \<tau>"
proof -
  obtain t where op: "seal (limit_bytes \<sigma>) (ledger \<sigma>) = (res, t)" and \<tau>: "\<tau> = \<sigma>\<lparr>ledger := t\<rparr>"
    using assms(2) by (auto simp: sys_seal_def split: prod.splits)
  note inv = seal_op_inv [OF sys_invD(1,2) [OF assms(1)] op]
  have "set (delegations t) = set (delegations (ledger \<sigma>))" using inv by (meson mset_eq_setD)
  then have "handles_inv \<tau>"
    using inv by (intro handles_inv_mono [OF sys_invD(3) [OF assms(1)]]) (simp_all add: \<tau>)
  then show ?thesis using inv by (simp add: sys_inv_def \<tau>)
qed

lemma delegate_capacity_inv:
  assumes "sys_inv \<sigma>" "\<forall>p. parent = Some p \<longrightarrow> p \<in> set (owners \<sigma>)"
    and "delegate_capacity parent identity path capacity \<sigma> = (res, \<tau>)"
  shows "res \<noteq> Panicked \<and> sys_inv \<tau>"
proof -
  let ?par = "map_option do_identity parent"
  let ?w = "\<lparr>do_identity = identity, do_parent_identity = ?par, do_logical_path = path,
      do_capacity_bytes = capacity\<rparr>"
  obtain t where op: "delegate_from (limit_bytes \<sigma>) ?par (map_option do_logical_path parent) identity path
      capacity (ledger \<sigma>) = (res, t)"
    and \<tau>: "\<tau> = (case res of Ok u \<Rightarrow> \<sigma>\<lparr>ledger := t, owners := ?w # owners \<sigma>\<rparr> | _ \<Rightarrow> \<sigma>\<lparr>ledger := t\<rparr>)"
    using assms(3) by (auto simp: delegate_capacity_def split: prod.splits outcome.splits)
  note inv = delegate_inv [OF sys_invD(1) [OF assms(1)] op] and fr = delegate_frame [OF op]
  show ?thesis
  proof (cases res)
    case (Ok u)
    then obtain n where sh: "map shape (delegations t) = map shape (delegations (ledger \<sigma>))
        @ [((identity, ?par, n, capacity), Live)]"
      using delegate_shape op by blast
    have m: "map skeleton xs = map fst (map shape xs)" for xs by (simp add: shape_def)
    have sk: "map skeleton (delegations t) = map skeleton (delegations (ledger \<sigma>))
        @ [(identity, ?par, n, capacity)]" unfolding m sh by simp
    then have "(identity, ?par, n, capacity) \<in> set (map skeleton (delegations t))" by simp
    then obtain q where "q \<in> set (delegations t)" "skeleton q = (identity, ?par, n, capacity)" by auto
    then have w: "owner_ok t ?w" by (auto simp: owner_ok_def skeleton_def)
    have "handles_inv (\<sigma>\<lparr>ledger := t\<rparr>)"
      by (rule handles_inv_mono [OF sys_invD(3) [OF assms(1)]]) (use sk fr in \<open>auto simp: frame_def\<close>)
    then show ?thesis
      using w inv Ok seal_inv_frame [OF sys_invD(2) [OF assms(1)] fr]
      by (simp add: sys_inv_def \<tau> handles_inv_def)
  next
    case (Err e)
    then show ?thesis using inv fr refused_skeleton [of "ledger \<sigma>" t]
      by (auto intro!: sys_invI [OF assms(1)] simp: \<tau>)
  qed (use inv in simp)
qed

lemma owner_reserve_inv:
  assumes "sys_inv \<sigma>" "owner \<in> set (owners \<sigma>)" "owner_reserve owner site bytes \<sigma> = (res, \<tau>)"
  shows "res \<noteq> Panicked \<and> sys_inv \<tau>"
proof -
  obtain t where op: "reserve_delegated_charge (do_identity owner) (do_capacity_bytes owner)
        (do_logical_path owner) site bytes (ledger \<sigma>) = (res, t)"
    and \<tau>: "\<tau> = (case res of Ok c \<Rightarrow> \<sigma>\<lparr>ledger := t, staged := c # staged \<sigma>\<rparr> | _ \<Rightarrow> \<sigma>\<lparr>ledger := t\<rparr>)"
    using assms(3) by (auto simp: owner_reserve_def split: prod.splits outcome.splits)
  note inv = reserve_delegated_inv [OF sys_invD(1) [OF assms(1)] owner_record(1) [OF assms(1,2)]
      conjunct1 [OF owner_record(2) [OF assms(1,2)]] op]
  have "map skeleton (delegations t) = map skeleton (delegations (ledger \<sigma>))"
    using inv op by (auto split: outcome.splits
        dest: refused_skeleton same_shape_skeleton [OF reserve_delegated_shape])
  then show ?thesis
    using inv reserve_delegated_frame [OF op] ledger_inv_refused [OF sys_invD(1) [OF assms(1)], of t]
    by (auto intro!: sys_invI [OF assms(1)] simp: \<tau> split: outcome.splits)
qed

lemma owner_close_inv:
  assumes "sys_inv \<sigma>" "owner \<in> set (owners \<sigma>)" "owner_close owner implicit \<sigma> = (res, \<tau>)"
  shows "res \<noteq> Panicked \<and> sys_inv \<tau>"
proof -
  obtain t where op: "return_delegation (do_identity owner) implicit (ledger \<sigma>) = (res, t)"
    and \<tau>: "\<tau> = \<sigma>\<lparr>ledger := t, owners := remove1 owner (owners \<sigma>)\<rparr>"
    using assms(3) by (auto simp: owner_close_def split: prod.splits)
  note inv = return_delegation_inv [OF sys_invD(1) [OF assms(1)] owner_record(1) [OF assms(1,2)] op]
  have "map skeleton (delegations t) = map skeleton (delegations (ledger \<sigma>))"
    using inv by (auto split: outcome.splits dest: refused_skeleton)
  then show ?thesis
    using inv return_delegation_frame [OF op] ledger_inv_refused [OF sys_invD(1) [OF assms(1)], of t]
      set_remove1_subset [of owner "owners \<sigma>"]
    by (auto intro!: sys_invI [OF assms(1)] simp: \<tau> split: outcome.splits)
qed

lemma drop_delegated_charge_inv:
  assumes "sys_inv \<sigma>" "c \<in> set (staged \<sigma>)"
  shows "sys_inv (drop_delegated_charge c \<sigma>)"
proof -
  have "(fst c, snd c) \<in> set (staged \<sigma>)" using assms(2) by simp
  from release_delegated_inv [OF sys_invD(1) [OF assms(1)] this refl]
  show ?thesis
    by (intro sys_invI [OF assms(1)])
      (simp_all add: drop_delegated_charge_def release_delegated_frame
        same_shape_skeleton [OF release_delegated_shape])
qed

lemma prepare_transfer_inv:
  assumes "sys_inv \<sigma>" "c \<in> set (staged \<sigma>)" "prepare_transfer c bind env \<sigma> = (res, \<tau>)"
  shows "res \<noteq> Panicked \<and> sys_inv \<tau>"
proof -
  obtain r t where op: "prepare_published_transfer (fst c) (snd c) bind env (ledger \<sigma>) = (r, t)"
    by (cases "prepare_published_transfer (fst c) (snd c) bind env (ledger \<sigma>)")
  have mem: "(fst c, snd c) \<in> set (staged \<sigma>)" using assms(2) by simp
  note inv = prepare_inv [OF sys_invD(1) [OF assms(1)] mem op] and fr = prepare_frame [OF op]
  show ?thesis
  proof (cases r)
    case (Ok n)
    let ?pt = "\<lparr>pt_child_identity = fst c, pt_binding = bind, pt_envelope = env, pt_bytes = snd c,
           pt_prepared_sequence = n\<rparr>"
    have res: "res = Ok n" and \<tau>: "\<tau> = \<sigma>\<lparr>ledger := t, staged := remove1 c (staged \<sigma>),
        prepared := ?pt # prepared \<sigma>\<rparr>"
      using assms(3) by (simp_all add: prepare_transfer_def op Ok)
    have d: "delegations t = delegations (ledger \<sigma>)" and l: "ledger_inv (limit_bytes \<sigma>) (charges \<sigma>)
        (remove1 c (staged \<sigma>)) t"
      using inv Ok by simp_all
    have "handles_inv (\<sigma>\<lparr>ledger := t\<rparr>)"
      by (rule handles_inv_mono [OF sys_invD(3) [OF assms(1)]]) (use d fr in \<open>simp_all add: frame_def\<close>)
    moreover have "prepared_ok t ?pt"
      using ledger_invD(7) [OF sys_invD(1) [OF assms(1)]] mem by (force simp: prepared_ok_def d)
    ultimately show ?thesis
      using res l seal_inv_frame [OF sys_invD(2) [OF assms(1)] fr]
      by (simp add: sys_inv_def \<tau> handles_inv_def)
  next
    case (Err e)
    have "sys_inv (\<sigma>\<lparr>ledger := t\<rparr>)" using inv Err by (simp add: sys_inv_refused [OF assms(1)])
    then show ?thesis
      using drop_delegated_charge_inv [of "\<sigma>\<lparr>ledger := t\<rparr>" c] assms(2,3)
      by (auto simp: prepare_transfer_def op Err)
  qed (use inv in simp)
qed

lemma shape_pairs: "(\<lambda>r. (skeleton r, dr_disposition r)) = shape"
  by (simp add: shape_def [abs_def])

lemma prepared_child:
  assumes "sys_inv \<sigma>" "pt \<in> set (prepared \<sigma>)"
  shows "pt_child_identity pt \<in> dr_identity ` set (delegations (ledger \<sigma>))"
  using sys_invD(3) [OF assms(1)] assms(2) by (simp add: handles_inv_def prepared_ok_def)

lemma rollback_any_inv:
  assumes "sys_inv \<sigma>" "pt \<in> set (prepared \<sigma>)"
    and "rollback_prepared_transfer pt implicit (ledger \<sigma>) = (res, t)"
  shows "res \<noteq> Panicked \<and> sys_inv (\<sigma>\<lparr>ledger := t, prepared := remove1 pt (prepared \<sigma>)\<rparr>)"
proof -
  note inv = rollback_inv [OF sys_invD(1) [OF assms(1)] prepared_child [OF assms(1,2)] assms(3)]
  have "map skeleton (delegations t) = map skeleton (delegations (ledger \<sigma>))"
    using inv by (auto split: outcome.splits dest: refused_skeleton map_skeleton_shape
        simp: shape_pairs)
  moreover have "ledger_inv (limit_bytes \<sigma>) (charges \<sigma>) (staged \<sigma>) t"
    using inv by (auto split: outcome.splits dest: ledger_inv_refused [OF sys_invD(1) [OF assms(1)]])
  ultimately show ?thesis
    using inv rollback_frame [OF assms(3)] set_remove1_subset [of pt "prepared \<sigma>"]
    by (auto intro!: sys_invI [OF assms(1)])
qed

lemma rollback_prepared_inv:
  assumes "sys_inv \<sigma>" "pt \<in> set (prepared \<sigma>)" "rollback_prepared pt \<sigma> = (res, \<tau>)"
  shows "res \<noteq> Panicked \<and> sys_inv \<tau>"
  using rollback_any_inv [OF assms(1,2)] assms(3)
  by (auto simp: rollback_prepared_def split: prod.splits)

lemma drop_prepared_inv:
  assumes "sys_inv \<sigma>" "pt \<in> set (prepared \<sigma>)" "drop_prepared pt \<sigma> = (res, \<tau>)"
  shows "res \<noteq> Panicked \<and> sys_inv \<tau>"
  using rollback_any_inv [OF assms(1,2)] assms(3)
  by (auto simp: drop_prepared_def split: prod.splits)

lemma publish_prepared_inv:
  assumes "sys_inv \<sigma>" "pt \<in> set (prepared \<sigma>)" "publish_prepared pt \<sigma> = (res, \<tau>)"
  shows "res \<noteq> Panicked \<and> sys_inv \<tau>"
proof -
  obtain r t where op: "publish_prepared_transfer pt (ledger \<sigma>) = (r, t)"
    by (cases "publish_prepared_transfer pt (ledger \<sigma>)")
  note inv = publish_inv [OF sys_invD(1) [OF assms(1)] prepared_child [OF assms(1,2)] op]
    and fr = publish_frame [OF op]
  show ?thesis
  proof (cases r)
    case (Ok d)
    have res: "res = Ok d" and \<tau>: "\<tau> = \<sigma>\<lparr>ledger := t, prepared := remove1 pt (prepared \<sigma>),
        destinations := d # destinations \<sigma>\<rparr>"
      using assms(3) by (simp_all add: publish_prepared_def op Ok)
    have sh: "map shape (delegations t) = map shape (delegations (ledger \<sigma>))"
      using inv Ok by (simp add: shape_def [abs_def])
    have d: "destination_ok t d" and l: "ledger_inv (limit_bytes \<sigma>) (charges \<sigma>) (staged \<sigma>) t"
      using inv Ok by (simp_all add: destination_ok_def)
    have "handles_inv (\<sigma>\<lparr>ledger := t, prepared := remove1 pt (prepared \<sigma>)\<rparr>)"
      by (rule handles_inv_mono [OF sys_invD(3) [OF assms(1)]])
        (use map_skeleton_shape [OF sh] fr set_remove1_subset [of pt "prepared \<sigma>"] in
          \<open>simp_all add: frame_def\<close>)
    then show ?thesis
      using d res l seal_inv_frame [OF sys_invD(2) [OF assms(1)] fr]
      by (simp add: sys_inv_def \<tau> handles_inv_def)
  next
    case (Err e)
    have s: "sys_inv (\<sigma>\<lparr>ledger := t\<rparr>)" using inv Err by (simp add: sys_inv_refused [OF assms(1)])
    obtain r2 \<tau>2 where d: "drop_prepared pt (\<sigma>\<lparr>ledger := t\<rparr>) = (r2, \<tau>2)"
      by (cases "drop_prepared pt (\<sigma>\<lparr>ledger := t\<rparr>)")
    show ?thesis
      using drop_prepared_inv [OF s _ d] assms(2,3)
      by (auto simp: publish_prepared_def op Err d)
  qed (use inv in simp)
qed

text \<open>A refused preparation or publication, before its handle is dropped.\<close>

lemma prepare_refused_ledger:
  assumes "sys_inv \<sigma>" "c \<in> set (staged \<sigma>)" "prepare_published_transfer (fst c) (snd c) bind env (ledger \<sigma>) = (Err e, t)"
  shows "refused (ledger \<sigma>) t" "release_invariant_violations t = release_invariant_violations (ledger \<sigma>)"
  using prepare_inv [OF sys_invD(1) [OF assms(1)] _ assms(3)] assms(2) by simp_all

lemma publish_refused_ledger:
  assumes "sys_inv \<sigma>" "pt \<in> set (prepared \<sigma>)" "publish_prepared_transfer pt (ledger \<sigma>) = (Err e, t)"
  shows "refused (ledger \<sigma>) t" "release_invariant_violations t = release_invariant_violations (ledger \<sigma>)"
  using publish_inv [OF sys_invD(1) [OF assms(1)] prepared_child [OF assms(1,2)] assms(3)] by simp_all

lemma close_destination_inv:
  assumes "sys_inv \<sigma>" "d \<in> set (destinations \<sigma>)" "close_destination d implicit \<sigma> = (res, \<tau>)"
  shows "res \<noteq> Panicked \<and> sys_inv \<tau>"
proof -
  obtain t where op: "close_published_transfer d implicit (ledger \<sigma>) = (res, t)"
    and \<tau>: "\<tau> = \<sigma>\<lparr>ledger := t, destinations := remove1 d (destinations \<sigma>)\<rparr>"
    using assms(3) by (auto simp: close_destination_def split: prod.splits)
  have "destination_ok (ledger \<sigma>) d"
    using sys_invD(3) [OF assms(1)] assms(2) by (simp add: handles_inv_def)
  then have inv: "case res of
      Ok c \<Rightarrow> ledger_inv (limit_bytes \<sigma>) (charges \<sigma>) (staged \<sigma>) t \<and> delegations t = delegations (ledger \<sigma>)
    | Err e \<Rightarrow> refused (ledger \<sigma>) t | Panicked \<Rightarrow> False"
    using close_published_inv [OF sys_invD(1) [OF assms(1)] _ _ op]
    by (auto simp: destination_ok_def split: outcome.splits)
  have "map skeleton (delegations t) = map skeleton (delegations (ledger \<sigma>))"
    using inv by (auto split: outcome.splits dest: refused_skeleton)
  moreover have "ledger_inv (limit_bytes \<sigma>) (charges \<sigma>) (staged \<sigma>) t"
    using inv by (auto split: outcome.splits dest: ledger_inv_refused [OF sys_invD(1) [OF assms(1)]])
  ultimately show ?thesis
    using inv close_published_frame [OF op] set_remove1_subset [of d "destinations \<sigma>"]
    by (auto intro!: sys_invI [OF assms(1)] simp: \<tau>)
qed

lemma sys_inv_step: "lease_step scoped \<sigma> \<tau> \<Longrightarrow> sys_inv \<sigma> \<Longrightarrow> sys_inv \<tau>"
proof (induction rule: lease_step.induct)
  case (enable \<sigma> ok root name limit)
  then show ?case using sys_enable_delegation_inv [OF _ prod.collapse [symmetric]] by blast
next
  case (root_reserve \<sigma> what bytes)
  then show ?case using sys_reserve_inv [OF _ prod.collapse [symmetric]] by blast
next
  case (root_release bytes \<sigma>)
  then show ?case using sys_drop_charge_inv by blast
next
  case (seal_root \<sigma>)
  then show ?case using sys_seal_inv [OF _ prod.collapse [symmetric]] by blast
next
  case (delegate parent \<sigma> identity path capacity)
  then show ?case using delegate_capacity_inv [OF _ _ prod.collapse [symmetric]] by blast
next
  case (stage owner \<sigma> site bytes)
  then show ?case using owner_reserve_inv [OF _ _ prod.collapse [symmetric]] by blast
next
  case (close_owner owner \<sigma> implicit)
  then show ?case using owner_close_inv [OF _ _ prod.collapse [symmetric]] by blast
next
  case (unstage c \<sigma>)
  then show ?case using drop_delegated_charge_inv by blast
next
  case (prepare c \<sigma> bind env)
  then show ?case using prepare_transfer_inv [OF _ _ prod.collapse [symmetric]] by blast
next
  case (prepare_refused c \<sigma> bind env e t)
  then show ?case using sys_inv_refused prepare_refused_ledger(1) by blast
next
  case (publish_refused pt \<sigma> e t)
  then show ?case using sys_inv_refused publish_refused_ledger(1) by blast
next
  case (publish pt \<sigma>)
  then show ?case using publish_prepared_inv [OF _ _ prod.collapse [symmetric]] by blast
next
  case (rollback pt \<sigma>)
  then show ?case using rollback_prepared_inv [OF _ _ prod.collapse [symmetric]] by blast
next
  case (abandon pt \<sigma>)
  then show ?case using drop_prepared_inv [OF _ _ prod.collapse [symmetric]] by blast
next
  case (close_dest d \<sigma> implicit)
  then show ?case using close_destination_inv [OF _ _ prod.collapse [symmetric]] by blast
qed

lemma step_limit: "lease_step scoped \<sigma> \<tau> \<Longrightarrow> limit_bytes \<tau> = limit_bytes \<sigma>"
  by (induction rule: lease_step.induct)
    (auto simp: sys_enable_delegation_def sys_reserve_def sys_drop_charge_def sys_seal_def
      delegate_capacity_def owner_reserve_def owner_close_def drop_delegated_charge_def
      prepare_transfer_def publish_prepared_def rollback_prepared_def drop_prepared_def
      close_destination_def split: prod.splits outcome.splits)

lemma run_inv: "lease_run scoped limit \<sigma> \<Longrightarrow> sys_inv \<sigma> \<and> limit_bytes \<sigma> = limit"
  unfolding lease_run_def
proof (induction rule: rtranclp_induct)
  case base
  then show ?case by (simp add: sys_inv_new) (simp add: lease_new_def)
next
  case (step \<sigma> \<tau>)
  then show ?case using sys_inv_step step_limit by metis
qed

end
