(* ===== verification/Lease_Scoped.thy ===== *)
theory Lease_Scoped
  imports Lease_System
begin

text \<open>
  Runs in which owners are closed only when nothing borrows them, the runs safe Rust allows
  unless a handle is leaked. In such a run no counter other than by an overflow goes wrong: the
  live records are exactly those with a live owner, every prepared record has its handle, and
  no release is ever found inconsistent.
\<close>

section \<open>Transitions that leave publications and violations alone\<close>

definition calm :: "lease_state \<Rightarrow> lease_state \<Rightarrow> bool" where
  "calm s t \<longleftrightarrow> publications t = publications s
     \<and> release_invariant_violations t = release_invariant_violations s"

lemma calm_refl [simp]: "calm s s"
  by (simp add: calm_def)

lemma calm_next_sequence: "next_sequence s = (n, u) \<Longrightarrow> calm s u"
  using next_sequence_ledger [of s n u] next_sequence_violations [of s n u]
  by (simp add: calm_def same_ledger_def same_accounts_def)

lemma calm_semantic [simp]: "calm s (record_semantic_refusal a b c d e f g u) = calm s u"
  using record_semantic_refusal_ledger [of u a b c d e f g]
  by (simp add: calm_def same_ledger_def same_accounts_def)

lemma calm_count_child [simp]: "calm s (count_child_refusal k b u) = calm s u"
  by (auto simp: calm_def count_child_refusal_def update_delegation_def Let_def split: option.split)

lemma calm_root_refusal: "record_root_refusal l w b u r q s = (e, t) \<Longrightarrow> calm v s \<Longrightarrow> calm v t"
  by (auto simp: record_root_refusal_def Let_def calm_def [of v s] split: option.splits if_splits)
    (auto simp: calm_def)

lemma calm_updates [simp]:
  "calm s (u\<lparr>counter_overflowed := b\<rparr>) = calm s u"
  "calm s (u\<lparr>delegations := ds\<rparr>) = calm s u"
  "calm s (update_delegation k f u) = calm s u"
  "calm s (u\<lparr>child_granted_bytes := c\<rparr>) = calm s u"
  by (simp_all add: calm_def update_delegation_def)

lemma reserve_calm: "reserve lim what b s = (res, t) \<Longrightarrow> calm s t"
  using calm_next_sequence [of s]
  by (auto simp: reserve_def Let_def split: prod.splits option.splits if_splits intro: calm_root_refusal)
    (auto simp: calm_def)

lemma delegate_calm: "delegate_from lim par ppath i lp cap s = (res, t) \<Longrightarrow> calm s t"
  using calm_next_sequence [of s]
  by (auto simp: delegate_from_def Let_def split: prod.splits option.splits if_splits)
    (auto simp: calm_def debit_root_def)

lemma reserve_delegated_calm: "reserve_delegated_charge i cap lp site b s = (res, t) \<Longrightarrow> calm s t"
  using calm_next_sequence [of s]
  by (auto simp: reserve_delegated_charge_def Let_def split: prod.splits option.splits if_splits)

lemma enable_delegation_calm: "enable_delegation lim ok root name limit s = (res, t) \<Longrightarrow> calm s t"
  using calm_next_sequence [of s]
  by (auto simp: enable_delegation_def Let_def split: prod.splits option.splits if_splits)
    (auto simp: calm_def)

lemma release_delegated_pubs: "publications (release_delegated i b s) = publications s"
proof -
  obtain n u where n: "next_sequence s = (n, u)" by (cases "next_sequence s")
  have "publications (increment_invariant_violation v) = publications v" for v
    using increment_invariant_violation_ledger [of v] by (simp add: same_ledger_def same_accounts_def)
  then show ?thesis
    using calm_next_sequence [OF n]
    by (auto simp: release_delegated_def n Let_def calm_def update_delegation_def split: option.splits)
qed

lemma drop_charge_pubs: "publications (drop_charge b s) = publications s"
proof -
  obtain n u where n: "next_sequence s = (n, u)" by (cases "next_sequence s")
  have "publications (increment_invariant_violation v) = publications v" for v
    using increment_invariant_violation_ledger [of v] by (simp add: same_ledger_def same_accounts_def)
  then show ?thesis
    using calm_next_sequence [OF n]
    by (auto simp: drop_charge_def release_raw_def n Let_def calm_def split: option.splits)
qed

section \<open>The invariant of scoped runs\<close>

definition owner_ids :: "lease_system \<Rightarrow> lease_identity set" where
  "owner_ids \<sigma> = do_identity ` set (owners \<sigma>)"

definition published_for :: "publication_record list \<Rightarrow> published_transfer_receipt \<Rightarrow> bool" where
  "published_for ps d \<longleftrightarrow> (\<exists>p\<in>set ps. matches_published d p \<and> pub_disposition p = Published
     \<and> pub_resolved_sequence p = Some (ptr_published_sequence d)
     \<and> pub_published_receipt_root p = Some (ptr_receipt_root d)
     \<and> pub_destination_closed_sequence p = None)"

definition owners_scoped :: "lease_system \<Rightarrow> bool" where
  "owners_scoped \<sigma> \<longleftrightarrow>
     distinct (map do_identity (owners \<sigma>))
     \<and> (\<forall>r\<in>set (delegations (ledger \<sigma>)). dr_disposition r = Live \<longleftrightarrow> dr_identity r \<in> owner_ids \<sigma>)
     \<and> (\<forall>w\<in>set (owners \<sigma>). \<forall>p. do_parent_identity w = Some p \<longrightarrow> p \<in> owner_ids \<sigma>)
     \<and> (\<forall>c\<in>set (staged \<sigma>). fst c \<in> owner_ids \<sigma>)
     \<and> (\<forall>pt\<in>set (prepared \<sigma>). pt_child_identity pt \<in> owner_ids \<sigma>)"

definition publications_scoped :: "lease_system \<Rightarrow> bool" where
  "publications_scoped \<sigma> \<longleftrightarrow>
     distinct (map pt_binding (prepared \<sigma>)) \<and> distinct (map ptr_binding (destinations \<sigma>))
     \<and> (\<forall>pt\<in>set (prepared \<sigma>). \<exists>p\<in>set (publications (ledger \<sigma>)).
          matches_prepared pt p \<and> pub_disposition p = Prepared)
     \<and> (\<forall>p\<in>set (publications (ledger \<sigma>)). pub_disposition p = Prepared \<longrightarrow>
          pub_destination_closed_sequence p = None \<and> (\<exists>pt\<in>set (prepared \<sigma>). matches_prepared pt p))
     \<and> (\<forall>d\<in>set (destinations \<sigma>). published_for (publications (ledger \<sigma>)) d)"

definition scoped_inv :: "lease_system \<Rightarrow> bool" where
  "scoped_inv \<sigma> \<longleftrightarrow> (\<not> counter_overflowed (ledger \<sigma>) \<longrightarrow>
     release_invariant_violations (ledger \<sigma>) = 0 \<and> owners_scoped \<sigma> \<and> publications_scoped \<sigma>)"

lemma scoped_inv_new: "scoped_inv (lease_new limit)"
  by (simp add: scoped_inv_def owners_scoped_def publications_scoped_def lease_new_def lease_state_new_def
      owner_ids_def)

text \<open>Updates that keep the shape of the records and lose no owner.\<close>

lemma owners_scoped_same:
  assumes "owners_scoped \<sigma>" "same_shape (ledger \<sigma>) (ledger \<tau>)" "owners \<tau> = owners \<sigma>"
    and "\<forall>c\<in>set (staged \<tau>). fst c \<in> owner_ids \<sigma>"
    and "\<forall>pt\<in>set (prepared \<tau>). pt_child_identity pt \<in> owner_ids \<sigma>"
  shows "owners_scoped \<tau>"
proof -
  have o: "owner_ids \<tau> = owner_ids \<sigma>" by (simp add: owner_ids_def assms(3))
  have "dr_disposition r = Live \<longleftrightarrow> dr_identity r \<in> owner_ids \<sigma>"
    if r: "r \<in> set (delegations (ledger \<tau>))" for r
  proof -
    obtain q where "q \<in> set (delegations (ledger \<sigma>))" "shape q = shape r"
      using same_shapeD(3) [OF assms(2) r] by blast
    then show ?thesis using assms(1) by (auto simp: owners_scoped_def shape_def skeleton_def)
  qed
  then show ?thesis using assms o by (simp add: owners_scoped_def)
qed

lemma publications_scoped_same:
  assumes "publications_scoped \<sigma>" "mset (publications (ledger \<tau>)) = mset (publications (ledger \<sigma>))"
    and "prepared \<tau> = prepared \<sigma>" "destinations \<tau> = destinations \<sigma>"
  shows "publications_scoped \<tau>"
proof -
  have "set (publications (ledger \<tau>)) = set (publications (ledger \<sigma>))"
    using assms(2) by (rule mset_eq_setD)
  then show ?thesis using assms(1,3,4) by (simp add: publications_scoped_def published_for_def)
qed

lemma scoped_calm:
  assumes "scoped_inv \<sigma>" "calm (ledger \<sigma>) (ledger \<tau>)" "frame (ledger \<sigma>) (ledger \<tau>)"
    "same_shape (ledger \<sigma>) (ledger \<tau>)" "owners \<tau> = owners \<sigma>" "prepared \<tau> = prepared \<sigma>"
    "destinations \<tau> = destinations \<sigma>"
    "owners_scoped \<sigma> \<Longrightarrow> \<forall>c\<in>set (staged \<tau>). fst c \<in> owner_ids \<sigma>"
  shows "scoped_inv \<tau>"
proof -
  have "\<not> counter_overflowed (ledger \<tau>) \<Longrightarrow> \<not> counter_overflowed (ledger \<sigma>)"
    using assms(3) by (auto simp: frame_def)
  moreover have "owners_scoped \<sigma> \<Longrightarrow> owners_scoped \<tau>"
    by (rule owners_scoped_same [OF _ assms(4,5)])
      (use assms(6,8) in \<open>auto simp: owners_scoped_def\<close>)
  moreover have "publications_scoped \<sigma> \<Longrightarrow> publications_scoped \<tau>"
    by (rule publications_scoped_same [OF _ _ assms(6,7)]) (use assms(2) in \<open>simp_all add: calm_def\<close>)
  ultimately show ?thesis using assms(1,2) by (auto simp: scoped_inv_def calm_def)
qed

lemma publications_scopedD:
  assumes "publications_scoped \<sigma>"
  shows "distinct (map pt_binding (prepared \<sigma>))" "distinct (map ptr_binding (destinations \<sigma>))"
    "pt \<in> set (prepared \<sigma>) \<Longrightarrow> \<exists>p\<in>set (publications (ledger \<sigma>)). matches_prepared pt p \<and> pub_disposition p = Prepared"
    "p \<in> set (publications (ledger \<sigma>)) \<Longrightarrow> pub_disposition p = Prepared \<Longrightarrow>
       pub_destination_closed_sequence p = None \<and> (\<exists>pt\<in>set (prepared \<sigma>). matches_prepared pt p)"
    "d \<in> set (destinations \<sigma>) \<Longrightarrow> published_for (publications (ledger \<sigma>)) d"
  using assms by (simp_all add: publications_scoped_def)

lemma published_forE:
  assumes "published_for ps d"
  obtains p where "p \<in> set ps" "matches_published d p" "pub_disposition p = Published"
    "pub_resolved_sequence p = Some (ptr_published_sequence d)"
    "pub_published_receipt_root p = Some (ptr_receipt_root d)"
    "pub_destination_closed_sequence p = None"
  using assms by (auto simp: published_for_def)

lemma publications_scopedI:
  assumes "distinct (map pt_binding (prepared \<sigma>))" "distinct (map ptr_binding (destinations \<sigma>))"
    "\<And>pt. pt \<in> set (prepared \<sigma>) \<Longrightarrow> \<exists>p\<in>set (publications (ledger \<sigma>)). matches_prepared pt p \<and> pub_disposition p = Prepared"
    "\<And>p. p \<in> set (publications (ledger \<sigma>)) \<Longrightarrow> pub_disposition p = Prepared \<Longrightarrow>
       pub_destination_closed_sequence p = None \<and> (\<exists>pt\<in>set (prepared \<sigma>). matches_prepared pt p)"
    "\<And>d. d \<in> set (destinations \<sigma>) \<Longrightarrow> published_for (publications (ledger \<sigma>)) d"
  shows "publications_scoped \<sigma>"
  using assms by (simp add: publications_scoped_def)

text \<open>The unique record of a binding.\<close>

lemma position_unique:
  assumes "distinct (map pub_binding ps)" "p \<in> set ps" "P p" "\<And>q. P q \<Longrightarrow> pub_binding q = pub_binding p"
  shows "\<exists>m. position P ps = Some m \<and> m < length ps \<and> ps ! m = p"
proof -
  obtain m where m: "position P ps = Some m" using assms(2,3) position_None [of P ps] by fastforce
  note mD = position_Some_D [OF m]
  then have "pub_binding (ps ! m) = pub_binding p" using assms(4) by blast
  moreover obtain k where "k < length ps" "ps ! k = p" using assms(2) by (auto simp: in_set_conv_nth)
  ultimately have "ps ! m = p" using assms(1) mD by (auto simp: distinct_conv_nth)
  then show ?thesis using m mD by blast
qed

lemma prepared_position:
  assumes "sys_inv \<sigma>" "publications_scoped \<sigma>" "pt \<in> set (prepared \<sigma>)"
  obtains m where "position (matches_prepared pt) (publications (ledger \<sigma>)) = Some m"
    "m < length (publications (ledger \<sigma>))" "pub_disposition (publications (ledger \<sigma>) ! m) = Prepared"
    "matches_prepared pt (publications (ledger \<sigma>) ! m)"
proof -
  obtain p where p: "p \<in> set (publications (ledger \<sigma>))" "matches_prepared pt p" "pub_disposition p = Prepared"
    using assms(2,3) by (auto simp: publications_scoped_def)
  have "\<exists>m. position (matches_prepared pt) (publications (ledger \<sigma>)) = Some m
      \<and> m < length (publications (ledger \<sigma>)) \<and> publications (ledger \<sigma>) ! m = p"
    by (rule position_unique [where P = "matches_prepared pt", OF ledger_invD(3) [OF sys_invD(1) [OF assms(1)]] p(1,2)])
      (use p(2) in \<open>auto simp: matches_prepared_def\<close>)
  then show ?thesis using that p by blast
qed

lemma destination_position:
  assumes "sys_inv \<sigma>" "publications_scoped \<sigma>" "d \<in> set (destinations \<sigma>)"
  obtains m where "position (matches_published d) (publications (ledger \<sigma>)) = Some m"
    "m < length (publications (ledger \<sigma>))" "pub_disposition (publications (ledger \<sigma>) ! m) = Published"
    "pub_resolved_sequence (publications (ledger \<sigma>) ! m) = Some (ptr_published_sequence d)"
    "pub_published_receipt_root (publications (ledger \<sigma>) ! m) = Some (ptr_receipt_root d)"
    "pub_destination_closed_sequence (publications (ledger \<sigma>) ! m) = None"
    "matches_published d (publications (ledger \<sigma>) ! m)"
proof -
  obtain p where p: "p \<in> set (publications (ledger \<sigma>))" "matches_published d p" "pub_disposition p = Published"
    "pub_resolved_sequence p = Some (ptr_published_sequence d)"
    "pub_published_receipt_root p = Some (ptr_receipt_root d)" "pub_destination_closed_sequence p = None"
    by (rule published_forE [OF publications_scopedD(5) [OF assms(2,3)]])
  have "\<exists>m. position (matches_published d) (publications (ledger \<sigma>)) = Some m
      \<and> m < length (publications (ledger \<sigma>)) \<and> publications (ledger \<sigma>) ! m = p"
    by (rule position_unique [where P = "matches_published d", OF ledger_invD(3) [OF sys_invD(1) [OF assms(1)]] p(1,2)])
      (use p(2) in \<open>auto simp: matches_published_def\<close>)
  then show ?thesis using that p by blast
qed

section \<open>Every scoped step keeps it\<close>

lemma enable_delegation_shape: "enable_delegation lim ok root name limit s = (res, t) \<Longrightarrow> same_shape s t"
  by (erule enable_delegation_cases)
    (auto dest: next_sequence_delegations intro: same_shape_refused simp: same_shape_eq)

lemma reserve_shape: "reserve lim what b s = (res, t) \<Longrightarrow> same_shape s t"
  by (erule reserve_cases)
    (auto dest: next_sequence_delegations intro: same_shape_refused simp: same_shape_eq)

lemma scoped_enable:
  assumes "scoped_inv \<sigma>" "sys_enable_delegation ok root name limit \<sigma> = (res, \<tau>)"
  shows "scoped_inv \<tau>"
proof -
  obtain t where op: "enable_delegation (limit_bytes \<sigma>) ok root name limit (ledger \<sigma>) = (res, t)"
    and \<tau>: "\<tau> = \<sigma>\<lparr>ledger := t\<rparr>"
    using assms(2) by (auto simp: sys_enable_delegation_def split: prod.splits)
  have "same_shape (ledger \<sigma>) t"
    by (rule enable_delegation_shape [OF op])
  then show ?thesis
    by (intro scoped_calm [OF assms(1)])
      (simp_all add: \<tau> enable_delegation_calm [OF op] enable_delegation_frame [OF op] owners_scoped_def)
qed

lemma scoped_reserve:
  assumes "scoped_inv \<sigma>" "sys_reserve what bytes \<sigma> = (res, \<tau>)"
  shows "scoped_inv \<tau>"
proof -
  obtain t where op: "reserve (limit_bytes \<sigma>) what bytes (ledger \<sigma>) = (res, t)"
    and \<tau>: "\<tau> = (case res of Ok c \<Rightarrow> \<sigma>\<lparr>ledger := t, charges := c # charges \<sigma>\<rparr> | _ \<Rightarrow> \<sigma>\<lparr>ledger := t\<rparr>)"
    using assms(2) by (auto simp: sys_reserve_def split: prod.splits outcome.splits)
  have "same_shape (ledger \<sigma>) t"
    by (rule reserve_shape [OF op])
  then show ?thesis
    by (intro scoped_calm [OF assms(1)])
      (auto simp: \<tau> reserve_calm [OF op] reserve_frame [OF op] owners_scoped_def split: outcome.split)
qed

lemma scoped_drop_charge:
  assumes "sys_inv \<sigma>" "scoped_inv \<sigma>" "bytes \<in> set (charges \<sigma>)"
  shows "scoped_inv (sys_drop_charge bytes \<sigma>)"
  using drop_charge_inv [OF sys_invD(1) [OF assms(1)] assms(3)]
  by (intro scoped_calm [OF assms(2)])
    (simp_all add: sys_drop_charge_def calm_def drop_charge_pubs drop_charge_frame drop_charge_shape
      owners_scoped_def)

lemma scoped_seal:
  assumes "sys_inv \<sigma>" "scoped_inv \<sigma>" "sys_seal \<sigma> = (res, \<tau>)"
  shows "scoped_inv \<tau>"
proof -
  obtain t where op: "seal (limit_bytes \<sigma>) (ledger \<sigma>) = (res, t)" and \<tau>: "\<tau> = \<sigma>\<lparr>ledger := t\<rparr>"
    using assms(3) by (auto simp: sys_seal_def split: prod.splits)
  note inv = seal_op_inv [OF sys_invD(1,2) [OF assms(1)] op]
  have "set (delegations t) = set (delegations (ledger \<sigma>))" using inv by (meson mset_eq_setD)
  then have "owners_scoped \<sigma> \<Longrightarrow> owners_scoped \<tau>" by (simp add: \<tau> owners_scoped_def owner_ids_def)
  moreover have "mset (publications t) = mset (publications (ledger \<sigma>))" using inv by blast
  then have "publications_scoped \<sigma> \<Longrightarrow> publications_scoped \<tau>"
    by (elim publications_scoped_same) (simp_all add: \<tau>)
  ultimately show ?thesis using assms(2) inv by (auto simp: scoped_inv_def \<tau>)
qed

lemma scoped_owner_reserve:
  assumes "sys_inv \<sigma>" "scoped_inv \<sigma>" "owner \<in> set (owners \<sigma>)"
    and "owner_reserve owner site bytes \<sigma> = (res, \<tau>)"
  shows "scoped_inv \<tau>"
proof -
  obtain t where op: "reserve_delegated_charge (do_identity owner) (do_capacity_bytes owner)
        (do_logical_path owner) site bytes (ledger \<sigma>) = (res, t)"
    and \<tau>: "\<tau> = (case res of Ok c \<Rightarrow> \<sigma>\<lparr>ledger := t, staged := c # staged \<sigma>\<rparr> | _ \<Rightarrow> \<sigma>\<lparr>ledger := t\<rparr>)"
    using assms(4) by (auto simp: owner_reserve_def split: prod.splits outcome.splits)
  note inv = reserve_delegated_inv [OF sys_invD(1) [OF assms(1)] owner_record(1) [OF assms(1,3)]
      conjunct1 [OF owner_record(2) [OF assms(1,3)]] op]
  have sh: "same_shape (ledger \<sigma>) t"
    using inv op by (auto split: outcome.splits dest: same_shape_refused reserve_delegated_shape)
  show ?thesis
    by (intro scoped_calm [OF assms(2)])
      (use inv sh assms(3) in \<open>auto simp: \<tau> reserve_delegated_calm [OF op]
        reserve_delegated_frame [OF op] owners_scoped_def owner_ids_def split: outcome.splits\<close>)
qed

lemma scoped_drop_delegated:
  assumes "sys_inv \<sigma>" "scoped_inv \<sigma>" "c \<in> set (staged \<sigma>)"
  shows "scoped_inv (drop_delegated_charge c \<sigma>)"
proof (cases "counter_overflowed (ledger \<sigma>)")
  case True
  then have "counter_overflowed (ledger (drop_delegated_charge c \<sigma>))"
    using release_delegated_frame [of "ledger \<sigma>"] by (auto simp: drop_delegated_charge_def frame_def)
  then show ?thesis by (simp add: scoped_inv_def)
next
  case False
  then have "owners_scoped \<sigma>" using assms(2) by (simp add: scoped_inv_def)
  then have "\<forall>r\<in>set (delegations (ledger \<sigma>)). dr_identity r = fst c \<longrightarrow> dr_disposition r = Live"
    using assms(3) by (auto simp: owners_scoped_def)
  moreover have "(fst c, snd c) \<in> set (staged \<sigma>)" using assms(3) by simp
  ultimately have "calm (ledger \<sigma>) (release_delegated (fst c) (snd c) (ledger \<sigma>))"
    using release_delegated_inv [OF sys_invD(1) [OF assms(1)] _ refl]
    by (simp add: calm_def release_delegated_pubs)
  then show ?thesis
    by (intro scoped_calm [OF assms(2)])
      (use set_remove1_subset [of c "staged \<sigma>"] in
        \<open>auto simp: drop_delegated_charge_def release_delegated_frame release_delegated_shape owners_scoped_def\<close>)
qed

lemma owner_ids_records:
  assumes "sys_inv \<sigma>" shows "owner_ids \<sigma> \<subseteq> dr_identity ` set (delegations (ledger \<sigma>))"
  using owner_record(1) [OF assms] by (auto simp: owner_ids_def)

lemma scoped_delegate:
  assumes si: "sys_inv \<sigma>" and sc: "scoped_inv \<sigma>" and par: "\<forall>p. parent = Some p \<longrightarrow> p \<in> set (owners \<sigma>)"
    and d: "delegate_capacity parent identity path capacity \<sigma> = (res, \<tau>)"
  shows "scoped_inv \<tau>"
proof -
  let ?par = "map_option do_identity parent"
  let ?w = "\<lparr>do_identity = identity, do_parent_identity = ?par, do_logical_path = path,
      do_capacity_bytes = capacity\<rparr>"
  obtain t where op: "delegate_from (limit_bytes \<sigma>) ?par (map_option do_logical_path parent) identity path
      capacity (ledger \<sigma>) = (res, t)"
    and \<tau>: "\<tau> = (case res of Ok u \<Rightarrow> \<sigma>\<lparr>ledger := t, owners := ?w # owners \<sigma>\<rparr> | _ \<Rightarrow> \<sigma>\<lparr>ledger := t\<rparr>)"
    using d by (auto simp: delegate_capacity_def split: prod.splits outcome.splits)
  note inv = delegate_inv [OF sys_invD(1) [OF si] op] and fr = delegate_frame [OF op]
    and calm = delegate_calm [OF op]
  show ?thesis
  proof (cases res)
    case (Ok u)
    have ov: "\<not> counter_overflowed t \<Longrightarrow> \<not> counter_overflowed (ledger \<sigma>)" using fr by (auto simp: frame_def)
    obtain n where sh: "map shape (delegations t) = map shape (delegations (ledger \<sigma>))
        @ [((identity, ?par, n, capacity), Live)]"
      using delegate_shape op Ok by blast
    have idm: "map dr_identity xs = map (\<lambda>x. fst (fst x)) (map shape xs)" for xs
      by (simp add: shape_def skeleton_def)
    have "distinct (map dr_identity (delegations t))" using inv ledger_invD(2) by blast
    then have new: "identity \<notin> dr_identity ` set (delegations (ledger \<sigma>))"
      unfolding idm sh by (auto simp: shape_def skeleton_def)
    have no: "identity \<notin> owner_ids \<sigma>" using new owner_ids_records [OF si] by blast
    have oi: "owner_ids \<tau> = insert identity (owner_ids \<sigma>)" by (simp add: owner_ids_def \<tau> Ok)
    have "owners_scoped \<tau>" if os: "owners_scoped \<sigma>"
      unfolding owners_scoped_def oi
    proof (intro conjI)
      show "distinct (map do_identity (owners \<tau>))"
        using os no by (simp add: owners_scoped_def \<tau> Ok owner_ids_def)
      show "\<forall>r\<in>set (delegations (ledger \<tau>)). (dr_disposition r = Live) = (dr_identity r \<in> insert identity (owner_ids \<sigma>))"
      proof
        fix r assume "r \<in> set (delegations (ledger \<tau>))"
        then have "shape r \<in> set (map shape (delegations t))" by (simp add: \<tau> Ok)
        then consider "shape r = ((identity, ?par, n, capacity), Live)"
          | q where "q \<in> set (delegations (ledger \<sigma>))" "shape r = shape q"
          unfolding sh by auto
        then show "(dr_disposition r = Live) = (dr_identity r \<in> insert identity (owner_ids \<sigma>))"
        proof cases
          case 1
          then show ?thesis by (simp add: shape_def skeleton_def)
        next
          case 2
          then show ?thesis using os new by (auto simp: owners_scoped_def shape_def skeleton_def)
        qed
      qed
    qed (use os par in \<open>auto simp: owners_scoped_def \<tau> Ok owner_ids_def\<close>)
    moreover have "publications_scoped \<sigma> \<Longrightarrow> publications_scoped \<tau>"
      by (rule publications_scoped_same) (use calm in \<open>simp_all add: \<tau> Ok calm_def\<close>)
    ultimately show ?thesis using sc ov calm by (auto simp: scoped_inv_def \<tau> Ok calm_def)
  next
    case (Err e)
    then show ?thesis
      using inv calm fr same_shape_refused [of "ledger \<sigma>" t]
      by (intro scoped_calm [OF sc]) (auto simp: \<tau> owners_scoped_def)
  qed (use inv in simp)
qed

section \<open>Resolving a publication\<close>

lemma distinct_map_remove1:
  assumes "distinct (map f xs)" "x \<in> set xs"
  shows "distinct (map f (remove1 x xs))" "set (remove1 x xs) = {y \<in> set xs. f y \<noteq> f x}"
proof -
  have d: "distinct xs" and i: "inj_on f (set xs)" using assms(1) by (simp_all add: distinct_map)
  have "set (remove1 x xs) = set xs - {x}" using d by simp
  then show "set (remove1 x xs) = {y \<in> set xs. f y \<noteq> f x}" using i assms(2) by (auto dest: inj_onD)
  show "distinct (map f (remove1 x xs))"
    using d inj_on_subset [OF i set_remove1_subset] by (simp add: distinct_map)
qed

lemma set_update_keyed:
  assumes "distinct (map f xs)" "m < length xs"
  shows "set (xs[m := y]) = insert y {x \<in> set xs. f x \<noteq> f (xs ! m)}"
proof -
  have "{x \<in> set xs. f x \<noteq> f (xs ! m)} = set xs - {xs ! m}"
    using assms by (auto simp: distinct_map dest: inj_onD)
  then show ?thesis using assms by (simp add: set_update_distinct distinct_map)
qed

lemma matches_binding:
  "matches_prepared pt p \<Longrightarrow> pub_binding p = pt_binding pt"
  "matches_published d p \<Longrightarrow> pub_binding p = ptr_binding d"
  by (simp_all add: matches_prepared_def matches_published_def)

text \<open>A prepared record leaves the prepared set together with its handle.\<close>

lemma publications_resolve:
  assumes ps: "publications_scoped \<sigma>" and db: "distinct (map pub_binding (publications (ledger \<sigma>)))"
    and pt: "pt \<in> set (prepared \<sigma>)" and m: "m < length (publications (ledger \<sigma>))"
      "matches_prepared pt (publications (ledger \<sigma>) ! m)"
    and q: "pub_disposition (publications (ledger \<sigma>) ! m) = Prepared"
    and y: "pub_disposition y \<noteq> Prepared" "pub_binding y = pt_binding pt"
    and \<tau>: "publications (ledger \<tau>) = (publications (ledger \<sigma>))[m := y]"
      "prepared \<tau> = remove1 pt (prepared \<sigma>)"
    and dst: "destinations \<tau> = destinations \<sigma> \<or> (\<exists>d. destinations \<tau> = d # destinations \<sigma>
      \<and> ptr_binding d = pt_binding pt \<and> published_for [y] d)"
  shows "publications_scoped \<tau>"
proof -
  let ?ps = "publications (ledger \<sigma>)"
  have b: "pub_binding (?ps ! m) = pt_binding pt" using m(2) by (rule matches_binding)
  have set_ps: "set (publications (ledger \<tau>)) = insert y {p \<in> set ?ps. pub_binding p \<noteq> pt_binding pt}"
    unfolding \<tau> set_update_keyed [OF db m(1)] b ..
  have dp: "distinct (map pt_binding (prepared \<sigma>))" using ps by (simp add: publications_scoped_def)
  note rem = distinct_map_remove1 [OF dp pt]
  have old: "published_for (publications (ledger \<tau>)) d \<and> ptr_binding d \<noteq> pt_binding pt"
    if dm: "d \<in> set (destinations \<sigma>)" for d
  proof -
    obtain p where p: "p \<in> set ?ps" "matches_published d p" "pub_disposition p = Published"
      "pub_resolved_sequence p = Some (ptr_published_sequence d)"
      "pub_published_receipt_root p = Some (ptr_receipt_root d)"
      "pub_destination_closed_sequence p = None"
      by (rule published_forE [OF publications_scopedD(5) [OF ps dm]])
    have "pub_binding p \<noteq> pt_binding pt"
    proof
      assume "pub_binding p = pt_binding pt"
      then have "p = ?ps ! m"
        using inj_onD [of pub_binding "set ?ps" p "?ps ! m"] b db p(1) m(1) by (simp add: distinct_map)
      then show False using q p(3) by simp
    qed
    then show ?thesis using p set_ps matches_binding(2) [OF p(2)] unfolding published_for_def by auto
  qed
  have "\<exists>p\<in>set (publications (ledger \<tau>)). matches_prepared x p \<and> pub_disposition p = Prepared"
    if "x \<in> set (prepared \<tau>)" for x
  proof -
    have "x \<in> set (prepared \<sigma>)" "pt_binding x \<noteq> pt_binding pt" using that rem \<tau>(2) by auto
    then obtain p where "p \<in> set ?ps" "matches_prepared x p" "pub_disposition p = Prepared"
      using ps by (auto simp: publications_scoped_def)
    then show ?thesis using set_ps matches_binding(1) [of x p] \<open>pt_binding x \<noteq> pt_binding pt\<close> by auto
  qed
  moreover have "pub_destination_closed_sequence p = None \<and> (\<exists>x\<in>set (prepared \<tau>). matches_prepared x p)"
    if pp: "p \<in> set (publications (ledger \<tau>))" "pub_disposition p = Prepared" for p
  proof -
    have p: "p \<in> set ?ps" "pub_binding p \<noteq> pt_binding pt" using pp y set_ps by auto
    then obtain x where "x \<in> set (prepared \<sigma>)" "matches_prepared x p" "pub_destination_closed_sequence p = None"
      using publications_scopedD(4) [OF ps _ pp(2)] by blast
    then show ?thesis using p matches_binding(1) [of x p] rem \<tau>(2) by auto
  qed
  moreover have "distinct (map ptr_binding (destinations \<tau>))
    \<and> (\<forall>d\<in>set (destinations \<tau>). published_for (publications (ledger \<tau>)) d)"
    using dst
  proof (elim disjE exE conjE)
    assume "destinations \<tau> = destinations \<sigma>"
    then show ?thesis using ps old by (simp add: publications_scoped_def)
  next
    fix d assume d: "destinations \<tau> = d # destinations \<sigma>" "ptr_binding d = pt_binding pt"
      "published_for [y] d"
    have "published_for (publications (ledger \<tau>)) d" using d(3) set_ps by (auto simp: published_for_def)
    moreover have "ptr_binding d \<notin> ptr_binding ` set (destinations \<sigma>)" using old d(2) by fastforce
    ultimately show ?thesis using ps old d(1) by (simp add: publications_scoped_def)
  qed
  ultimately show ?thesis using rem(1) \<tau>(2) by (intro publications_scopedI) simp_all
qed

section \<open>Preparation, publication, rollback\<close>

lemma scoped_refused:
  assumes "sys_inv \<sigma>" "scoped_inv \<sigma>" "refused (ledger \<sigma>) t"
    "release_invariant_violations t = release_invariant_violations (ledger \<sigma>)"
  shows "sys_inv (\<sigma>\<lparr>ledger := t\<rparr>)" "scoped_inv (\<sigma>\<lparr>ledger := t\<rparr>)"
proof -
  show "sys_inv (\<sigma>\<lparr>ledger := t\<rparr>)" by (rule sys_inv_refused [OF assms(1,3)])
  have "publications t = publications (ledger \<sigma>)"
    using assms(3) by (simp add: refused_def same_books_def same_accounts_def)
  then have "calm (ledger \<sigma>) t" using assms(4) by (simp add: calm_def)
  then show "scoped_inv (\<sigma>\<lparr>ledger := t\<rparr>)"
    by (intro scoped_calm [OF assms(2)])
      (simp_all add: frame_refused [OF assms(3)] same_shape_refused [OF assms(3)] owners_scoped_def)
qed

lemma scoped_invI:
  assumes "scoped_inv \<sigma>" "frame (ledger \<sigma>) (ledger \<tau>)"
    and "release_invariant_violations (ledger \<tau>) = release_invariant_violations (ledger \<sigma>)"
    and "owners_scoped \<sigma> \<Longrightarrow> publications_scoped \<sigma> \<Longrightarrow> owners_scoped \<tau>"
    and "owners_scoped \<sigma> \<Longrightarrow> publications_scoped \<sigma> \<Longrightarrow> publications_scoped \<tau>"
  shows "scoped_inv \<tau>"
  using assms unfolding scoped_inv_def frame_def by auto

lemma prepare_record:
  assumes "prepare_published_transfer i b bind env s = (Ok n, t)"
  shows "\<exists>par. publications t = publications s @ [prepared_record par
     \<lparr>pt_child_identity = i, pt_binding = bind, pt_envelope = env, pt_bytes = b, pt_prepared_sequence = n\<rparr>]"
proof -
  obtain q u where q: "next_sequence s = (q, u)" by (cases "next_sequence s")
  have "publications u = publications s" using calm_next_sequence [OF q] by (simp add: calm_def)
  then show ?thesis using assms
    by (auto simp: prepare_published_transfer_def q Let_def split: option.splits prod.splits)
qed

lemma scoped_prepare:
  assumes si: "sys_inv \<sigma>" and sc: "scoped_inv \<sigma>" and c: "c \<in> set (staged \<sigma>)"
    and op': "prepare_transfer c bind env \<sigma> = (res, \<tau>)"
  shows "scoped_inv \<tau>"
proof -
  obtain r t where op: "prepare_published_transfer (fst c) (snd c) bind env (ledger \<sigma>) = (r, t)"
    by (cases "prepare_published_transfer (fst c) (snd c) bind env (ledger \<sigma>)")
  have mem: "(fst c, snd c) \<in> set (staged \<sigma>)" using c by simp
  note inv = prepare_inv [OF sys_invD(1) [OF si] mem op] and fr = prepare_frame [OF op]
  show ?thesis
  proof (cases r)
    case (Ok n)
    define pt where "pt = \<lparr>pt_child_identity = fst c, pt_binding = bind, pt_envelope = env,
        pt_bytes = snd c, pt_prepared_sequence = n\<rparr>"
    have \<tau>: "\<tau> = \<sigma>\<lparr>ledger := t, staged := remove1 c (staged \<sigma>), prepared := pt # prepared \<sigma>\<rparr>"
      using op' by (simp add: prepare_transfer_def op Ok pt_def)
    obtain p where p: "publications t = publications (ledger \<sigma>) @ [p]" "pub_disposition p = Prepared"
      "matches_prepared pt p" and fresh: "bind \<notin> pub_binding ` set (publications (ledger \<sigma>))"
      and d: "delegations t = delegations (ledger \<sigma>)"
      and v: "release_invariant_violations t = release_invariant_violations (ledger \<sigma>)"
      using inv by (auto simp: Ok pt_def)
    have pc: "pub_destination_closed_sequence p = None"
      using prepare_record [OF op [unfolded Ok]] p(1) by (auto simp: prepared_record_def)
    have ptb: "pt_binding pt = bind" "pt_child_identity pt = fst c" by (simp_all add: pt_def)
    show ?thesis
    proof (rule scoped_invI [OF sc])
      assume os: "owners_scoped \<sigma>"
      show "owners_scoped \<tau>"
        by (rule owners_scoped_same [OF os])
          (use os c set_remove1_subset [of c "staged \<sigma>"] in
            \<open>auto simp: \<tau> d ptb same_shape_eq owners_scoped_def\<close>)
    next
      assume ps: "publications_scoped \<sigma>"
      have "bind \<notin> pt_binding ` set (prepared \<sigma>)"
      proof
        assume "bind \<in> pt_binding ` set (prepared \<sigma>)"
        then obtain x where x: "x \<in> set (prepared \<sigma>)" "pt_binding x = bind" by auto
        then obtain p' where "p' \<in> set (publications (ledger \<sigma>))" "matches_prepared x p'"
          using ps unfolding publications_scoped_def by blast
        then show False using fresh x matches_binding(1) [of x p'] by (metis imageI)
      qed
      then show "publications_scoped \<tau>"
        using ps p pc unfolding publications_scoped_def by (auto simp: \<tau> ptb published_for_def)
    qed (simp_all add: \<tau> fr v)
  next
    case (Err e)
    then show ?thesis
      using scoped_refused [OF si sc] inv scoped_drop_delegated [of "\<sigma>\<lparr>ledger := t\<rparr>" c] c op'
      by (auto simp: prepare_transfer_def op)
  qed (use inv in simp)
qed

lemma rollback_scoped:
  assumes si: "sys_inv \<sigma>" and sc: "scoped_inv \<sigma>" and pt: "pt \<in> set (prepared \<sigma>)"
    and op: "rollback_prepared_transfer pt implicit (ledger \<sigma>) = (res, t)"
  shows "scoped_inv (\<sigma>\<lparr>ledger := t, prepared := remove1 pt (prepared \<sigma>)\<rparr>)"
proof -
  define \<tau> where "\<tau> = \<sigma>\<lparr>ledger := t, prepared := remove1 pt (prepared \<sigma>)\<rparr>"
  note inv = rollback_inv [OF sys_invD(1) [OF si] prepared_child [OF si pt] op]
    and fr = rollback_frame [OF op]
  have sub: "set (remove1 pt (prepared \<sigma>)) \<subseteq> set (prepared \<sigma>)" by (rule set_remove1_subset)
  have "scoped_inv \<tau>"
  proof (cases res)
    case (Ok d)
    obtain m where m: "position (matches_prepared pt) (publications (ledger \<sigma>)) = Some m"
      "pub_disposition (publications (ledger \<sigma>) ! m) = Prepared"
      "publications t = (publications (ledger \<sigma>))[m := rollback_result (prr_rolled_back_sequence d)
                  implicit (publications (ledger \<sigma>) ! m)]"
      using inv by (auto simp: Ok)
    note mD = position_Some_D [OF m(1)]
    have sh: "same_shape (ledger \<sigma>) t" and v: "release_invariant_violations t =
        release_invariant_violations (ledger \<sigma>)"
      using inv by (simp_all add: Ok same_shape_def shape_pairs)
    show ?thesis
    proof (rule scoped_invI [OF sc])
      assume os: "owners_scoped \<sigma>"
      show "owners_scoped \<tau>"
        by (rule owners_scoped_same [OF os]) (use os sub sh in \<open>auto simp: \<tau>_def owners_scoped_def\<close>)
    next
      assume ps: "publications_scoped \<sigma>"
      show "publications_scoped \<tau>"
        by (rule publications_resolve [OF ps ledger_invD(3) [OF sys_invD(1) [OF si]] pt _ _ m(2)])
          (use mD matches_binding(1) [of pt] in \<open>auto simp: \<tau>_def m(3) rollback_result_def\<close>)
    qed (simp_all add: \<tau>_def fr v)
  next
    case (Err e)
    show ?thesis
    proof (cases "counter_overflowed t")
      case True
      then show ?thesis by (simp add: scoped_inv_def \<tau>_def)
    next
      case False
      then have nov: "\<not> counter_overflowed (ledger \<sigma>)" using fr by (auto simp: frame_def)
      then have s: "owners_scoped \<sigma>" "publications_scoped \<sigma>" using sc by (simp_all add: scoped_inv_def)
      obtain m where "position (matches_prepared pt) (publications (ledger \<sigma>)) = Some m"
        "pub_disposition (publications (ledger \<sigma>) ! m) = Prepared"
        using prepared_position [OF si s(2) pt] by blast
      then have "\<exists>r\<in>set (delegations (ledger \<sigma>)). dr_identity r = pt_child_identity pt \<and> dr_disposition r \<noteq> Live"
        using inv False by (simp add: Err)
      then show ?thesis using s(1) pt by (auto simp: owners_scoped_def)
    qed
  qed (use inv in simp)
  then show ?thesis by (simp add: \<tau>_def)
qed

lemma scoped_publish:
  assumes si: "sys_inv \<sigma>" and sc: "scoped_inv \<sigma>" and pt: "pt \<in> set (prepared \<sigma>)"
    and op': "publish_prepared pt \<sigma> = (res, \<tau>)"
  shows "scoped_inv \<tau>"
proof -
  obtain r t where op: "publish_prepared_transfer pt (ledger \<sigma>) = (r, t)"
    by (cases "publish_prepared_transfer pt (ledger \<sigma>)")
  note inv = publish_inv [OF sys_invD(1) [OF si] prepared_child [OF si pt] op] and fr = publish_frame [OF op]
  have sub: "set (remove1 pt (prepared \<sigma>)) \<subseteq> set (prepared \<sigma>)" by (rule set_remove1_subset)
  show ?thesis
  proof (cases r)
    case (Ok d)
    have \<tau>: "\<tau> = \<sigma>\<lparr>ledger := t, prepared := remove1 pt (prepared \<sigma>), destinations := d # destinations \<sigma>\<rparr>"
      using op' by (simp add: publish_prepared_def op Ok)
    obtain m where m: "position (matches_prepared pt) (publications (ledger \<sigma>)) = Some m"
      "pub_disposition (publications (ledger \<sigma>) ! m) = Prepared"
      "matches_published d (publications (ledger \<sigma>) ! m)"
      "publications t = (publications (ledger \<sigma>))[m := publish_result pt (ptr_published_sequence d)
                  (publications (ledger \<sigma>) ! m) (ptr_receipt_root d)]"
      using inv by (auto simp: Ok)
    note mD = position_Some_D [OF m(1)]
    have sh: "same_shape (ledger \<sigma>) t" and v: "release_invariant_violations t =
        release_invariant_violations (ledger \<sigma>)"
      using inv by (simp_all add: Ok same_shape_def shape_pairs)
    have db: "ptr_binding d = pt_binding pt" using mD m(3) matches_binding by metis
    show ?thesis
    proof (rule scoped_invI [OF sc])
      assume os: "owners_scoped \<sigma>"
      show "owners_scoped \<tau>"
        by (rule owners_scoped_same [OF os]) (use os sub sh in \<open>auto simp: \<tau> owners_scoped_def\<close>)
    next
      assume ps: "publications_scoped \<sigma>"
      show "publications_scoped \<tau>"
        by (rule publications_resolve [OF ps ledger_invD(3) [OF sys_invD(1) [OF si]] pt _ _ m(2)])
          (use mD m(3) matches_binding(1) [of pt] db publications_scopedD(4) [OF ps nth_mem m(2)] in
            \<open>auto simp: \<tau> m(4) publish_result_def
            published_for_def matches_published_def\<close>)
    qed (simp_all add: \<tau> fr v)
  next
    case (Err e)
    obtain r2 t2 where rb: "rollback_prepared_transfer pt True t = (r2, t2)"
      by (cases "rollback_prepared_transfer pt True t")
    note s = scoped_refused [OF si sc, of t]
    have "scoped_inv ((\<sigma>\<lparr>ledger := t\<rparr>)\<lparr>ledger := t2, prepared := remove1 pt (prepared (\<sigma>\<lparr>ledger := t\<rparr>))\<rparr>)"
      by (rule rollback_scoped [OF s]) (use inv pt rb in \<open>simp_all add: Err\<close>)
    then show ?thesis using op' by (auto simp: publish_prepared_def op Err drop_prepared_def rb)
  qed (use inv in simp)
qed

section \<open>Closing a destination, closing an owner\<close>

lemma publications_close:
  assumes ps: "publications_scoped \<sigma>" and db: "distinct (map pub_binding (publications (ledger \<sigma>)))"
    and d: "d \<in> set (destinations \<sigma>)" and m: "m < length (publications (ledger \<sigma>))"
      "matches_published d (publications (ledger \<sigma>) ! m)"
    and y: "pub_disposition y \<noteq> Prepared" "pub_binding y = ptr_binding d"
    and q: "pub_disposition (publications (ledger \<sigma>) ! m) = Published"
    and \<tau>: "publications (ledger \<tau>) = (publications (ledger \<sigma>))[m := y]"
      "prepared \<tau> = prepared \<sigma>" "destinations \<tau> = remove1 d (destinations \<sigma>)"
  shows "publications_scoped \<tau>"
proof -
  let ?ps = "publications (ledger \<sigma>)"
  have b: "pub_binding (?ps ! m) = ptr_binding d" using m(2) by (rule matches_binding)
  have set_ps: "set (publications (ledger \<tau>)) = insert y {p \<in> set ?ps. pub_binding p \<noteq> ptr_binding d}"
    unfolding \<tau> set_update_keyed [OF db m(1)] b ..
  have only: "p = ?ps ! m" if "p \<in> set ?ps" "pub_binding p = ptr_binding d" for p
    using inj_onD [of pub_binding "set ?ps" p "?ps ! m"] that b db m(1) by (simp add: distinct_map)
  note rem = distinct_map_remove1 [OF publications_scopedD(2) [OF ps] d]
  show ?thesis
  proof (rule publications_scopedI)
    show "distinct (map pt_binding (prepared \<tau>))" using publications_scopedD(1) [OF ps] \<tau> by simp
    show "distinct (map ptr_binding (destinations \<tau>))" using rem \<tau> by simp
    show "\<exists>p\<in>set (publications (ledger \<tau>)). matches_prepared pt p \<and> pub_disposition p = Prepared"
      if pt: "pt \<in> set (prepared \<tau>)" for pt
    proof -
      obtain p where p: "p \<in> set ?ps" "matches_prepared pt p" "pub_disposition p = Prepared"
        using publications_scopedD(3) [OF ps, of pt] pt \<tau> by auto
      then have "pub_binding p \<noteq> ptr_binding d" using only q by auto
      then show ?thesis using p set_ps by auto
    qed
    show "pub_destination_closed_sequence p = None \<and> (\<exists>pt\<in>set (prepared \<tau>). matches_prepared pt p)"
      if "p \<in> set (publications (ledger \<tau>))" "pub_disposition p = Prepared" for p
      using that set_ps y publications_scopedD(4) [OF ps _ that(2)] \<tau> by auto
    show "published_for (publications (ledger \<tau>)) x" if "x \<in> set (destinations \<tau>)" for x
    proof -
      have x: "x \<in> set (destinations \<sigma>)" "ptr_binding x \<noteq> ptr_binding d" using that rem \<tau> by auto
      obtain p where p: "p \<in> set ?ps" "matches_published x p" "pub_disposition p = Published"
        "pub_resolved_sequence p = Some (ptr_published_sequence x)"
        "pub_published_receipt_root p = Some (ptr_receipt_root x)"
        "pub_destination_closed_sequence p = None"
        by (rule published_forE [OF publications_scopedD(5) [OF ps x(1)]])
      then show ?thesis using x set_ps matches_binding(2) [OF p(2)] unfolding published_for_def by auto
    qed
  qed
qed

lemma scoped_close_destination:
  assumes si: "sys_inv \<sigma>" and sc: "scoped_inv \<sigma>" and d: "d \<in> set (destinations \<sigma>)"
    and op': "close_destination d implicit \<sigma> = (res, \<tau>)"
  shows "scoped_inv \<tau>"
proof -
  obtain t where op: "close_published_transfer d implicit (ledger \<sigma>) = (res, t)"
    and \<tau>: "\<tau> = \<sigma>\<lparr>ledger := t, destinations := remove1 d (destinations \<sigma>)\<rparr>"
    using op' by (auto simp: close_destination_def split: prod.splits)
  have "destination_ok (ledger \<sigma>) d" using sys_invD(3) [OF si] d by (simp add: handles_inv_def)
  then have dv: "ptr_verify_for d (ptr_root_identity d) (ptr_parent_identity d) (ptr_child_identity d)
             (ptr_binding d) (ptr_envelope d) = Inr ()" "ptr_published_sequence d \<le> sequence (ledger \<sigma>)"
    by (simp_all add: destination_ok_def)
  note inv = close_published_inv [OF sys_invD(1) [OF si] dv op] and fr = close_published_frame [OF op]
  show ?thesis
  proof (cases "counter_overflowed t")
    case True
    then show ?thesis by (simp add: scoped_inv_def \<tau>)
  next
    case False
    then have "\<not> counter_overflowed (ledger \<sigma>)" using fr by (auto simp: frame_def)
    then have s: "owners_scoped \<sigma>" "publications_scoped \<sigma>" using sc by (simp_all add: scoped_inv_def)
    obtain m where m: "position (matches_published d) (publications (ledger \<sigma>)) = Some m"
      "m < length (publications (ledger \<sigma>))" "pub_disposition (publications (ledger \<sigma>) ! m) = Published"
      "pub_resolved_sequence (publications (ledger \<sigma>) ! m) = Some (ptr_published_sequence d)"
      "pub_published_receipt_root (publications (ledger \<sigma>) ! m) = Some (ptr_receipt_root d)"
      "pub_destination_closed_sequence (publications (ledger \<sigma>) ! m) = None"
      "matches_published d (publications (ledger \<sigma>) ! m)"
      by (rule destination_position [OF si s(2) d])
    then obtain c where c: "res = Ok c" using inv False by (cases res) auto
    have t: "publications t = (publications (ledger \<sigma>))[m := closed_result (pcr_closed_sequence c) implicit
         (pcr_receipt_root c) (publications (ledger \<sigma>) ! m)]" "delegations t = delegations (ledger \<sigma>)"
      and v: "release_invariant_violations t = release_invariant_violations (ledger \<sigma>)"
      using inv m(1) by (simp_all add: c)
    show ?thesis
    proof (rule scoped_invI [OF sc])
      show "owners_scoped \<tau>"
        by (rule owners_scoped_same [OF s(1)])
          (use s(1) in \<open>auto simp: \<tau> t same_shape_eq owners_scoped_def\<close>)
      show "publications_scoped \<tau>"
        by (rule publications_close [OF s(2) ledger_invD(3) [OF sys_invD(1) [OF si]] d m(2) m(7) _ _ m(3)])
          (use m(3) matches_binding(2) [OF m(7)] in \<open>simp_all add: \<tau> t closed_result_def\<close>)
    qed (simp_all add: \<tau> fr v)
  qed
qed

text \<open>An owner that nothing borrows has no live child and no used bytes, so it closes.\<close>

lemma unborrowed_settled:
  assumes si: "sys_inv \<sigma>" and s: "owners_scoped \<sigma>" "publications_scoped \<sigma>"
    and w: "w \<in> set (owners \<sigma>)" "unborrowed w \<sigma>"
    and r: "r \<in> set (delegations (ledger \<sigma>))" "dr_identity r = do_identity w"
  shows "dr_disposition r = Live" "dr_live_children r = 0" "dr_used_bytes r = 0"
proof -
  let ?i = "do_identity w"
  show "dr_disposition r = Live" using s(1) w(1) r by (auto simp: owners_scoped_def owner_ids_def)
  have ri: "record_inv (staged \<sigma>) (ledger \<sigma>) r" using ledger_invD(4) [OF sys_invD(1) [OF si] r(1)] .
  have nochild: "\<not> (dr_disposition q = Live \<and> dr_parent_identity q = Some ?i)"
    if q: "q \<in> set (delegations (ledger \<sigma>))" for q
  proof (intro notI, elim conjE)
    assume a: "dr_disposition q = Live" "dr_parent_identity q = Some ?i"
    then have "dr_identity q \<in> owner_ids \<sigma>" using s(1) q by (simp add: owners_scoped_def)
    then obtain x where x: "x \<in> set (owners \<sigma>)" "dr_identity q = do_identity x" by (auto simp: owner_ids_def)
    then have "do_parent_identity x = Some ?i" using owner_record(2) [OF si x(1) q] a(2) by simp
    then show False using w(2) x(1) by (simp add: unborrowed_def)
  qed
  then have ch: "total (live_capacity (Some ?i)) (delegations (ledger \<sigma>)) = 0"
      "total (live_child (Some ?i)) (delegations (ledger \<sigma>)) = 0"
    by (auto simp: total_zero_iff shares)
  have st: "total (staged_bytes ?i) (staged \<sigma>) = 0"
    using w(2) by (auto simp: total_zero_iff shares unborrowed_def)
  have "\<not> (pub_disposition p = Prepared \<and> pub_child_identity p = ?i)"
    if p: "p \<in> set (publications (ledger \<sigma>))" for p
  proof (intro notI, elim conjE)
    assume a: "pub_disposition p = Prepared" "pub_child_identity p = ?i"
    then obtain pt where "pt \<in> set (prepared \<sigma>)" "matches_prepared pt p"
      using publications_scopedD(4) [OF s(2) p] by blast
    then show False using w(2) a(2) by (auto simp: unborrowed_def matches_prepared_def)
  qed
  then have "total (prepared_bytes ?i) (publications (ledger \<sigma>)) = 0"
    by (auto simp: total_zero_iff shares)
  then show "dr_live_children r = 0" "dr_used_bytes r = 0"
    using ri ch st r(2) by (simp_all add: record_inv_def)
qed

lemma scoped_owner_close:
  assumes si: "sys_inv \<sigma>" and sc: "scoped_inv \<sigma>" and w: "w \<in> set (owners \<sigma>)" "unborrowed w \<sigma>"
    and op': "owner_close w implicit \<sigma> = (res, \<tau>)"
  shows "scoped_inv \<tau> \<and> (\<not> counter_overflowed (ledger \<tau>) \<longrightarrow> (\<exists>c. res = Ok c))"
proof -
  obtain t where op: "return_delegation (do_identity w) implicit (ledger \<sigma>) = (res, t)"
    and \<tau>: "\<tau> = \<sigma>\<lparr>ledger := t, owners := remove1 w (owners \<sigma>)\<rparr>"
    using op' by (auto simp: owner_close_def split: prod.splits)
  let ?i = "do_identity w"
  note inv = return_delegation_inv [OF sys_invD(1) [OF si] owner_record(1) [OF si w(1)] op]
    and fr = return_delegation_frame [OF op]
  show ?thesis
  proof (cases "counter_overflowed t")
    case True
    then show ?thesis by (simp add: scoped_inv_def \<tau>)
  next
    case False
    then have "\<not> counter_overflowed (ledger \<sigma>)" using fr by (auto simp: frame_def)
    then have s: "owners_scoped \<sigma>" "publications_scoped \<sigma>" using sc by (simp_all add: scoped_inv_def)
    have "\<not> (\<exists>r\<in>set (delegations (ledger \<sigma>)). dr_identity r = ?i \<and>
             (dr_disposition r = Returned \<or> dr_live_children r \<noteq> 0 \<or> dr_used_bytes r \<noteq> 0))"
      using unborrowed_settled [OF si s w] by auto
    then obtain c where c: "res = Ok c" using inv False by (cases res) auto
    have sk: "map skeleton (delegations t) = map skeleton (delegations (ledger \<sigma>))"
      and dp: "map dr_disposition (delegations t)
         = map (\<lambda>r. if dr_identity r = ?i then Returned else dr_disposition r) (delegations (ledger \<sigma>))"
      and pb: "mset (publications t) = mset (publications (ledger \<sigma>))"
      and v: "release_invariant_violations t = release_invariant_violations (ledger \<sigma>)"
      using inv by (simp_all add: c)
    have dw: "distinct (map do_identity (owners \<sigma>))" using s(1) by (simp add: owners_scoped_def)
    note rem = distinct_map_remove1 [OF dw w(1)]
    have oi: "owner_ids \<tau> = owner_ids \<sigma> - {?i}" using rem by (auto simp: owner_ids_def \<tau>)
    have rec: "(dr_disposition r = Live) = (dr_identity r \<in> owner_ids \<tau>)"
      if r: "r \<in> set (delegations t)" for r
    proof -
      obtain k where k: "k < length (delegations t)" "r = delegations t ! k"
        using r by (auto simp: in_set_conv_nth)
      have len: "length (delegations t) = length (delegations (ledger \<sigma>))" using sk by (metis length_map)
      define q where "q = delegations (ledger \<sigma>) ! k"
      have q: "q \<in> set (delegations (ledger \<sigma>))" using k len by (simp add: q_def)
      have "skeleton r = skeleton q" using sk k len by (metis nth_map q_def)
      then have i: "dr_identity r = dr_identity q" by (simp add: skeleton_def)
      have "dr_disposition r = (if dr_identity q = ?i then Returned else dr_disposition q)"
        using arg_cong [OF dp, of "\<lambda>xs. xs ! k"] k len by (simp add: q_def)
      then show ?thesis using s(1) q i oi by (auto simp: owners_scoped_def)
    qed
    have "scoped_inv \<tau>"
    proof (rule scoped_invI [OF sc])
      show "owners_scoped \<tau>"
        using s(1) w(2) rem rec unfolding owners_scoped_def oi unborrowed_def by (auto simp: \<tau> oi [unfolded \<tau>])
      show "publications_scoped \<tau>"
        by (rule publications_scoped_same [OF s(2)]) (simp_all add: \<tau> pb)
    qed (simp_all add: \<tau> fr v)
    then show ?thesis using c by simp
  qed
qed

section \<open>Scoped runs\<close>

lemma scoped_inv_step:
  "lease_step True \<sigma> \<tau> \<Longrightarrow> sys_inv \<sigma> \<Longrightarrow> scoped_inv \<sigma> \<Longrightarrow> scoped_inv \<tau>"
proof (induction rule: lease_step.induct)
  case (enable \<sigma> ok root name limit)
  then show ?case using scoped_enable [OF _ prod.collapse [symmetric]] by blast
next
  case (root_reserve \<sigma> what bytes)
  then show ?case using scoped_reserve [OF _ prod.collapse [symmetric]] by blast
next
  case (root_release bytes \<sigma>)
  then show ?case using scoped_drop_charge by blast
next
  case (seal_root \<sigma>)
  then show ?case using scoped_seal [OF _ _ prod.collapse [symmetric]] by blast
next
  case (delegate parent \<sigma> identity path capacity)
  then show ?case using scoped_delegate [OF _ _ _ prod.collapse [symmetric]] by blast
next
  case (stage owner \<sigma> site bytes)
  then show ?case using scoped_owner_reserve [OF _ _ _ prod.collapse [symmetric]] by blast
next
  case (close_owner owner \<sigma> implicit)
  then show ?case using scoped_owner_close [OF _ _ _ _ prod.collapse [symmetric]] by blast
next
  case (unstage c \<sigma>)
  then show ?case using scoped_drop_delegated by blast
next
  case (prepare c \<sigma> bind env)
  then show ?case using scoped_prepare [OF _ _ _ prod.collapse [symmetric]] by blast
next
  case (prepare_refused c \<sigma> bind env e t)
  then show ?case using scoped_refused(2) prepare_refused_ledger by blast
next
  case (publish_refused pt \<sigma> e t)
  then show ?case using scoped_refused(2) publish_refused_ledger by blast
next
  case (publish pt \<sigma>)
  then show ?case using scoped_publish [OF _ _ _ prod.collapse [symmetric]] by blast
next
  case (rollback pt \<sigma>)
  then show ?case using rollback_scoped
    by (auto simp: rollback_prepared_def split: prod.split)
next
  case (abandon pt \<sigma>)
  then show ?case using rollback_scoped
    by (auto simp: drop_prepared_def split: prod.split)
next
  case (close_dest d \<sigma> implicit)
  then show ?case using scoped_close_destination [OF _ _ _ prod.collapse [symmetric]] by blast
qed

lemma run_scoped_inv: "lease_run True limit \<sigma> \<Longrightarrow> scoped_inv \<sigma>"
  unfolding lease_run_def
proof (induction rule: rtranclp_induct)
  case base
  show ?case by (rule scoped_inv_new)
next
  case (step \<sigma> \<tau>)
  have "sys_inv \<sigma>" using run_inv [of True limit \<sigma>] step(1) by (simp add: lease_run_def)
  then show ?case using scoped_inv_step step by blast
qed

end
