(* ===== verification/Lease_Demo.thy ===== *)
theory Lease_Demo
  imports Lease_Scoped
begin

text \<open>
  One concrete run of the lease, used to show that the hypotheses of the properties can hold: a
  lease of 1000 bytes is configured, charged directly, delegated to one child, staged into,
  prepared and published.
\<close>

definition demo_root :: lease_identity where
  "demo_root = identity_root (replicate 8 1) (replicate 32 2)"

definition demo_child :: lease_identity where
  "demo_child = LeaseIdentity (replicate 8 1) (replicate 32 2) (replicate 32 2) (replicate 32 3) 1
     (5 # replicate 15 0)"

definition demo_bind :: transfer_binding where
  "demo_bind = PublishedTransferBinding (replicate 32 1) (replicate 32 2) (replicate 32 3) (replicate 32 4)"

definition demo_owner :: delegated_owner where
  "demo_owner = \<lparr>do_identity = demo_child, do_parent_identity = None, do_logical_path = ''root/c'',
     do_capacity_bytes = 400\<rparr>"

lemmas demo_ops = lease_new_def sys_enable_delegation_def enable_delegation_def
  enable_delegation_reason_def sys_reserve_def reserve_def reserve_reason_def
  delegate_capacity_def delegate_from_def delegate_reason_def parent_usage_def
  next_sequence_def width_defs checked_add_def

definition demo1 :: lease_system where
  "demo1 = snd (sys_enable_delegation True demo_root ''root'' 4 (lease_new (Some 1000)))"

definition demo2 :: lease_system where
  "demo2 = snd (sys_reserve ''direct'' 100 demo1)"

definition demo3 :: lease_system where
  "demo3 = snd (delegate_capacity None demo_child ''root/c'' 400 demo2)"

definition demo4 :: lease_system where
  "demo4 = snd (owner_reserve demo_owner ''site'' 50 demo3)"

lemma demo_path: "valid_logical_path ''root'' None ''root/c''" "valid_root_id ''root''"
  by code_simp+

lemma demo_ids: "is_root demo_root" "is_direct_child_of demo_child demo_root"
  by code_simp+

lemma demo1_eq: "demo1 = (lease_new (Some 1000))\<lparr>ledger := lease_state_new\<lparr>sequence := 1,
   root_identity := Some demo_root, root_id := Some ''root'', metadata_limit := 4\<rparr>\<rparr>"
  by (simp add: demo1_def demo_ops demo_path demo_ids lease_state_new_def MAX_DELEGATION_RECORDS_def)

lemma demo2_eq: "demo2 = demo1\<lparr>charges := [100], ledger := (ledger demo1)\<lparr>sequence := 2,
   used_bytes := 100, peak_bytes := 100, requested_bytes := 100, direct_granted_bytes := 100\<rparr>\<rparr>"
  by (simp add: demo2_def demo1_eq demo_ops lease_state_new_def)

lemma demo3_eq: "demo3 = demo2\<lparr>owners := [demo_owner], ledger := (ledger demo2)\<lparr>sequence := 3,
   used_bytes := 500, peak_bytes := 500, requested_bytes := 500, delegated_bytes := 400,
   delegations := [new_delegation_record None None demo_child ''root/c'' 400 3]\<rparr>\<rparr>"
  by (simp add: demo3_def demo2_eq demo1_eq demo_ops lease_state_new_def demo_path demo_ids debit_root_def
      demo_owner_def)

lemma demo4_eq: "demo4 = demo3\<lparr>staged := [(demo_child, 50)], ledger := (ledger demo3)\<lparr>sequence := 4,
   child_granted_bytes := 50,
   delegations := [grant_child 50 (new_delegation_record None None demo_child ''root/c'' 400 3)]\<rparr>\<rparr>"
  by (simp add: demo4_def demo3_eq demo2_eq demo1_eq owner_reserve_def reserve_delegated_charge_def
      reserve_delegated_reason_def demo_ops lease_state_new_def demo_owner_def
      delegation_index_def new_delegation_record_def update_delegation_def)

definition demo_prepared :: prepared_transfer where
  "demo_prepared = \<lparr>pt_child_identity = demo_child, pt_binding = demo_bind,
     pt_envelope = payload_only 50, pt_bytes = 50, pt_prepared_sequence = 5\<rparr>"

definition demo5 :: lease_system where
  "demo5 = snd (prepare_transfer (demo_child, 50) demo_bind (payload_only 50) demo4)"

definition demo6 :: lease_system where
  "demo6 = snd (publish_prepared demo_prepared demo5)"

lemma demo5_eq: "demo5 = demo4\<lparr>staged := [], prepared := [demo_prepared], ledger := (ledger demo4)\<lparr>
   sequence := 5, publications := [prepared_record None demo_prepared]\<rparr>\<rparr>"
  by (simp add: demo5_def demo4_eq demo3_eq demo2_eq demo1_eq prepare_transfer_def
      prepare_published_transfer_def prepare_reason_def demo_ops lease_state_new_def demo_prepared_def
      delegation_index_def new_delegation_record_def grant_child_def total_bytes_def payload_only_def)

definition demo_destination :: published_transfer_receipt where
  "demo_destination = (let r = publish_receipt_of demo_root None demo_prepared 6
     in r\<lparr>ptr_receipt_root := ptr_recompute_root r\<rparr>)"

lemma ptr_recompute_root_update [simp]:
  "ptr_recompute_root (r\<lparr>ptr_receipt_root := h\<rparr>) = ptr_recompute_root r"
  by (simp add: ptr_recompute_root_def)

lemma demo_related: "identity_related demo_root None demo_child"
  by code_simp

lemma publish_receipt_fields:
  "ptr_schema_version (publish_receipt_of r p t n) = PUBLISHED_TRANSFER_RECEIPT_SCHEMA_VERSION"
  "ptr_root_identity (publish_receipt_of r p t n) = r"
  "ptr_parent_identity (publish_receipt_of r p t n) = p"
  "ptr_child_identity (publish_receipt_of r p t n) = pt_child_identity t"
  "ptr_binding (publish_receipt_of r p t n) = pt_binding t"
  "ptr_envelope (publish_receipt_of r p t n) = pt_envelope t"
  "ptr_bytes (publish_receipt_of r p t n) = pt_bytes t"
  "ptr_prepared_sequence (publish_receipt_of r p t n) = pt_prepared_sequence t"
  "ptr_published_sequence (publish_receipt_of r p t n) = n"
  by (simp_all add: publish_receipt_of_def)

lemma demo_destination_verifies:
  "ptr_verify_for demo_destination demo_root None demo_child demo_bind (payload_only 50) = Inr ()"
  unfolding demo_destination_def Let_def ptr_verify_for_def
  by (simp add: publish_receipt_fields ptr_recompute_root_update)
    (simp add: demo_prepared_def demo_related total_bytes_def payload_only_def width_defs checked_add_def)

lemma demo_publish_result: "publish_prepared demo_prepared demo5 = (Ok demo_destination, demo5\<lparr>prepared := [], destinations := [demo_destination], ledger := (ledger demo5)\<lparr>
   sequence := 6, child_published_bytes := 50,
   publications := [publish_result demo_prepared 6 (prepared_record None demo_prepared)
      (ptr_receipt_root demo_destination)],
   delegations := [(grant_child 50 (new_delegation_record None None demo_child ''root/c'' 400 3))
      \<lparr>dr_used_bytes := 0, dr_allocation_published_bytes := 50\<rparr>]\<rparr>\<rparr>)"
proof -
  have d: "demo_destination = (publish_receipt_of demo_root None demo_prepared 6)
     \<lparr>ptr_receipt_root := ptr_recompute_root (publish_receipt_of demo_root None demo_prepared 6)\<rparr>"
    by (simp add: demo_destination_def Let_def)
  have b: "pt_binding demo_prepared = demo_bind" "pt_envelope demo_prepared = payload_only 50"
    "pt_child_identity demo_prepared = demo_child" by (simp_all add: demo_prepared_def)
  note v = demo_destination_verifies [unfolded d]
  show ?thesis
    using v
    by (simp add: demo5_eq demo4_eq demo3_eq demo2_eq demo1_eq publish_prepared_def b
        publish_prepared_transfer_def publish_reason_def demo_ops lease_state_new_def
        matches_prepared_def prepared_record_def delegation_index_def new_delegation_record_def
        grant_child_def update_publication_def update_delegation_def publish_result_def Let_def
        d [symmetric])
       (simp add: demo_prepared_def)
qed

lemmas demo6_eq = demo6_def [unfolded demo_publish_result snd_conv]

lemmas demo_eqs = demo6_eq demo5_eq demo4_eq demo3_eq demo2_eq demo1_eq

lemma run_new: "lease_run s lim (lease_new lim)"
  by (simp add: lease_run_def)

lemma run_step: "lease_run s lim \<sigma> \<Longrightarrow> lease_step s \<sigma> \<tau> \<Longrightarrow> lease_run s lim \<tau>"
  unfolding lease_run_def by (rule rtranclp.rtrancl_into_rtrancl)

lemma demo_run4: "lease_run True (Some 1000) demo4"
proof -
  have "lease_run True (Some 1000) demo1"
    unfolding demo1_def by (rule run_step [OF run_new]) (rule lease_step.enable)
  then have "lease_run True (Some 1000) demo2"
    unfolding demo2_def by (rule run_step) (rule root_reserve)
  then have "lease_run True (Some 1000) demo3"
    unfolding demo3_def by (rule run_step) (rule delegate, simp)
  then show ?thesis unfolding demo4_def by (rule run_step) (rule stage, simp add: demo3_eq)
qed

lemma demo_publishes: "lease_step s demo5 demo6"
  unfolding demo6_def by (rule publish) (simp add: demo5_eq)

lemma demo_run5: "lease_run True (Some 1000) demo5"
  unfolding demo5_def by (rule run_step [OF demo_run4]) (rule prepare, simp add: demo4_eq)

lemma demo_run6: "lease_run True (Some 1000) demo6"
  by (rule run_step [OF demo_run5 demo_publishes])

end
