(* ===== verification/Lease_Properties.thy ===== *)
theory Lease_Properties
  imports Lease_Demo
begin

text \<open>
  What the memory lease guarantees, stated over arbitrary runs. Results about \<open>lease_run scoped\<close>
  with \<open>scoped\<close> free also cover runs in which handles were leaked.
\<close>

section \<open>Capacity\<close>

lemma total_filter: "total (\<lambda>x. if P x then f x else 0) xs = sum_list (map f (filter P xs))"
  by (induction xs) simp_all

definition live_children_of :: "lease_identity option \<Rightarrow> lease_state \<Rightarrow> delegation_record list" where
  "live_children_of parent s =
     filter (\<lambda>r. dr_disposition r = Live \<and> dr_parent_identity r = parent) (delegations s)"

definition prepared_for :: "lease_identity \<Rightarrow> lease_state \<Rightarrow> publication_record list" where
  "prepared_for i s = filter (\<lambda>p. pub_disposition p = Prepared \<and> pub_child_identity p = i) (publications s)"

lemma shares_as_lists:
  "total (live_capacity p) (delegations s) = sum_list (map dr_capacity_bytes (live_children_of p s))"
  "total (prepared_bytes i) (publications s) = sum_list (map pub_bytes (prepared_for i s))"
  "total (staged_bytes i) sg = sum_list (map snd (filter (\<lambda>c. fst c = i) sg))"
  using total_filter [of "\<lambda>r. dr_disposition r = Live \<and> dr_parent_identity r = p" dr_capacity_bytes "delegations s"]
    total_filter [of "\<lambda>q. pub_disposition q = Prepared \<and> pub_child_identity q = i" pub_bytes "publications s"]
    total_filter [of "\<lambda>c. fst c = i" snd sg]
  by (simp_all add: shares [abs_def] live_children_of_def prepared_for_def)

text \<open>C1. The lease is never overcommitted: in every run the root's used bytes are exactly the live
  direct charges plus the capacities of the live top-level children, and neither the current nor
  the peak use ever exceeds the limit.\<close>

theorem root_never_overcommitted:
  assumes "lease_run scoped limit \<sigma>"
  shows "used_bytes (ledger \<sigma>) = sum_list (charges \<sigma>)
       + sum_list (map dr_capacity_bytes (live_children_of None (ledger \<sigma>)))
     \<and> used_bytes (ledger \<sigma>) \<le> peak_bytes (ledger \<sigma>)
     \<and> peak_bytes (ledger \<sigma>) \<le> (case limit of Some l \<Rightarrow> min l u64_max | None \<Rightarrow> u64_max)"
proof -
  have a: "account_inv limit (charges \<sigma>) (ledger \<sigma>)"
    using run_inv [OF assms] ledger_invD(1) [OF sys_invD(1)] by blast
  then have "peak_bytes (ledger \<sigma>) \<le> u64_max" "\<And>l. limit = Some l \<Longrightarrow> peak_bytes (ledger \<sigma>) \<le> l"
    unfolding account_inv_def by blast+
  then have "peak_bytes (ledger \<sigma>) \<le> (case limit of Some l \<Rightarrow> min l u64_max | None \<Rightarrow> u64_max)"
    by (simp split: option.split)
  with a show ?thesis unfolding account_inv_def shares_as_lists by blast
qed

theorem root_never_overcommitted_witness:
  "used_bytes (ledger demo4) = 500 \<and> used_bytes (ledger demo4) \<le> peak_bytes (ledger demo4)
   \<and> peak_bytes (ledger demo4) \<le> min 1000 u64_max"
  using root_never_overcommitted [OF demo_run4] by (simp add: demo_eqs)

text \<open>C2. The same holds at every level of the hierarchy: what a child has in use is exactly its
  staged charges, the capacities of its own live children and its prepared publications, and its
  peak never exceeds the capacity it was delegated.\<close>

theorem children_never_overcommitted:
  assumes "lease_run scoped limit \<sigma>" "r \<in> set (delegations (ledger \<sigma>))"
  shows "dr_used_bytes r = sum_list (map snd (filter (\<lambda>c. fst c = dr_identity r) (staged \<sigma>)))
       + sum_list (map dr_capacity_bytes (live_children_of (Some (dr_identity r)) (ledger \<sigma>)))
       + sum_list (map pub_bytes (prepared_for (dr_identity r) (ledger \<sigma>)))
     \<and> dr_used_bytes r \<le> dr_peak_used_bytes r \<and> dr_peak_used_bytes r \<le> dr_capacity_bytes r
     \<and> dr_live_children r = length (live_children_of (Some (dr_identity r)) (ledger \<sigma>))"
proof -
  have "record_inv (staged \<sigma>) (ledger \<sigma>) r"
    using run_inv [OF assms(1)] ledger_invD(4) [OF sys_invD(1) assms(2)] by blast
  moreover have "total (live_child p) ds
      = length (filter (\<lambda>r. dr_disposition r = Live \<and> dr_parent_identity r = p) ds)" for p ds
    by (induction ds) (simp_all add: shares)
  ultimately show ?thesis by (simp add: record_inv_def shares_as_lists live_children_of_def)
qed

theorem children_never_overcommitted_witness:
  "\<exists>r. r \<in> set (delegations (ledger demo4)) \<and> dr_used_bytes r = 50
     \<and> dr_peak_used_bytes r \<le> dr_capacity_bytes r"
proof -
  let ?r = "grant_child 50 (new_delegation_record None None demo_child ''root/c'' 400 3)"
  have m: "?r \<in> set (delegations (ledger demo4))" by (simp add: demo_eqs)
  show ?thesis
    using children_never_overcommitted [OF demo_run4 m] m
    by (intro exI [of _ ?r]) (simp add: grant_child_def new_delegation_record_def)
qed



section \<open>Outcomes\<close>

text \<open>C12. No operation panics in any run: every lookup and every self-verification that the source
  guards with \<open>expect\<close> or \<open>unreachable\<close> succeeds, whatever the arguments.\<close>

theorem no_operation_panics:
  assumes "lease_run scoped limit \<sigma>"
  shows "fst (sys_enable_delegation ok root name lim \<sigma>) \<noteq> Panicked
     \<and> fst (sys_reserve what bytes \<sigma>) \<noteq> Panicked \<and> fst (sys_seal \<sigma>) \<noteq> Panicked
     \<and> fst (delegate_capacity None identity path capacity \<sigma>) \<noteq> Panicked
     \<and> (\<forall>w\<in>set (owners \<sigma>). fst (delegate_capacity (Some w) identity path capacity \<sigma>) \<noteq> Panicked
         \<and> fst (owner_reserve w what bytes \<sigma>) \<noteq> Panicked \<and> fst (owner_close w implicit \<sigma>) \<noteq> Panicked)
     \<and> (\<forall>c\<in>set (staged \<sigma>). fst (prepare_transfer c bind env \<sigma>) \<noteq> Panicked)
     \<and> (\<forall>pt\<in>set (prepared \<sigma>). fst (publish_prepared pt \<sigma>) \<noteq> Panicked
         \<and> fst (rollback_prepared pt \<sigma>) \<noteq> Panicked \<and> fst (drop_prepared pt \<sigma>) \<noteq> Panicked)
     \<and> (\<forall>d\<in>set (destinations \<sigma>). fst (close_destination d implicit \<sigma>) \<noteq> Panicked)"
proof -
  have inv: "sys_inv \<sigma>" using run_inv [OF assms] by blast
  note c = prod.collapse [symmetric]
  show ?thesis
    using sys_enable_delegation_inv [OF inv c] sys_reserve_inv [OF inv c] sys_seal_inv [OF inv c]
      delegate_capacity_inv [OF inv _ c] owner_reserve_inv [OF inv _ c] owner_close_inv [OF inv _ c]
      prepare_transfer_inv [OF inv _ c] publish_prepared_inv [OF inv _ c]
      rollback_prepared_inv [OF inv _ c] drop_prepared_inv [OF inv _ c] close_destination_inv [OF inv _ c]
    by simp
qed

theorem no_operation_panics_witness:
  "fst (sys_seal demo6) \<noteq> Panicked \<and> demo_destination \<in> set (destinations demo6)
   \<and> fst (close_destination demo_destination True demo6) \<noteq> Panicked"
  using no_operation_panics [OF demo_run6] by (simp add: demo6_eq)

text \<open>Every receipt an operation hands out passes its own verifier: the close receipt of a child
  for that child, the receipts of publication, rollback and destination close for their transfer,
  and the seal receipt for the configured root.\<close>

theorem receipts_verify:
  assumes "lease_run scoped limit \<sigma>"
  shows "(\<forall>r. fst (sys_seal \<sigma>) = Ok r \<longrightarrow>
         root_identity (ledger \<sigma>) = Some (slr_root_identity r) \<and> slr_verify_for r (slr_root_identity r) = Inr ())
     \<and> (\<forall>w\<in>set (owners \<sigma>). \<forall>c. fst (owner_close w implicit \<sigma>) = Ok c \<longrightarrow>
         dcr_verify_for c (dcr_root_identity c) (dcr_parent_identity c) (do_identity w) = Inr ())
     \<and> (\<forall>pt\<in>set (prepared \<sigma>). \<forall>d. fst (publish_prepared pt \<sigma>) = Ok d \<longrightarrow>
         ptr_verify_for d (ptr_root_identity d) (ptr_parent_identity d) (ptr_child_identity d)
           (ptr_binding d) (ptr_envelope d) = Inr ())
     \<and> (\<forall>pt\<in>set (prepared \<sigma>). \<forall>b. fst (rollback_prepared pt \<sigma>) = Ok b \<longrightarrow>
         prr_verify_for b (prr_root_identity b) (prr_parent_identity b) (prr_child_identity b)
           (prr_binding b) (prr_envelope b) = Inr ())
     \<and> (\<forall>d\<in>set (destinations \<sigma>). \<forall>c. fst (close_destination d implicit \<sigma>) = Ok c \<longrightarrow>
         pcr_verify_for c d = Inr ())"
proof (intro conjI ballI allI impI)
  have inv: "sys_inv \<sigma>" using run_inv [OF assms] by blast
  note led = sys_invD(1) [OF inv]
  show "root_identity (ledger \<sigma>) = Some (slr_root_identity r)"
    "slr_verify_for r (slr_root_identity r) = Inr ()" if "fst (sys_seal \<sigma>) = Ok r" for r
    using that seal_op_inv [OF led sys_invD(2) [OF inv] prod.collapse [symmetric]]
    by (simp_all add: sys_seal_def split: prod.splits)
  show "dcr_verify_for c (dcr_root_identity c) (dcr_parent_identity c) (do_identity w) = Inr ()"
    if w: "w \<in> set (owners \<sigma>)" "fst (owner_close w implicit \<sigma>) = Ok c" for w c
  proof -
    obtain t where op: "return_delegation (do_identity w) implicit (ledger \<sigma>) = (Ok c, t)"
      using w(2) by (auto simp: owner_close_def split: prod.splits)
    show ?thesis using return_delegation_inv [OF led owner_record(1) [OF inv w(1)] op] by simp
  qed
  show "ptr_verify_for d (ptr_root_identity d) (ptr_parent_identity d) (ptr_child_identity d)
           (ptr_binding d) (ptr_envelope d) = Inr ()"
    if pt: "pt \<in> set (prepared \<sigma>)" "fst (publish_prepared pt \<sigma>) = Ok d" for pt d
  proof -
    obtain t where op: "publish_prepared_transfer pt (ledger \<sigma>) = (Ok d, t)"
      using pt(2) by (auto simp: publish_prepared_def split: prod.splits outcome.splits)
    show ?thesis using publish_inv [OF led prepared_child [OF inv pt(1)] op] by simp
  qed
  show "prr_verify_for b (prr_root_identity b) (prr_parent_identity b) (prr_child_identity b)
           (prr_binding b) (prr_envelope b) = Inr ()"
    if pt: "pt \<in> set (prepared \<sigma>)" "fst (rollback_prepared pt \<sigma>) = Ok b" for pt b
  proof -
    obtain t where op: "rollback_prepared_transfer pt False (ledger \<sigma>) = (Ok b, t)"
      using pt(2) by (auto simp: rollback_prepared_def split: prod.splits)
    show ?thesis using rollback_inv [OF led prepared_child [OF inv pt(1)] op] by simp
  qed
  show "pcr_verify_for c d = Inr ()"
    if d: "d \<in> set (destinations \<sigma>)" "fst (close_destination d implicit \<sigma>) = Ok c" for d c
  proof -
    obtain t where op: "close_published_transfer d implicit (ledger \<sigma>) = (Ok c, t)"
      using d(2) by (auto simp: close_destination_def split: prod.splits)
    have "destination_ok (ledger \<sigma>) d" using sys_invD(3) [OF inv] d by (simp add: handles_inv_def)
    then show ?thesis using close_published_inv [OF led _ _ op] by (simp add: destination_ok_def)
  qed
qed

theorem receipts_verify_witness:
  "fst (publish_prepared demo_prepared demo5) = Ok demo_destination
   \<and> ptr_verify_for demo_destination demo_root None demo_child demo_bind (payload_only 50) = Inr ()"
proof -
  have f: "ptr_root_identity demo_destination = demo_root" "ptr_parent_identity demo_destination = None"
    "ptr_child_identity demo_destination = demo_child" "ptr_binding demo_destination = demo_bind"
    "ptr_envelope demo_destination = payload_only 50"
    by (simp_all add: demo_destination_def publish_receipt_fields Let_def demo_prepared_def)
  have "demo_prepared \<in> set (prepared demo5)" by (simp add: demo5_eq)
  moreover have r: "fst (publish_prepared demo_prepared demo5) = Ok demo_destination"
    by (simp add: demo_publish_result)
  ultimately have "ptr_verify_for demo_destination (ptr_root_identity demo_destination)
      (ptr_parent_identity demo_destination) (ptr_child_identity demo_destination)
      (ptr_binding demo_destination) (ptr_envelope demo_destination) = Inr ()"
    using receipts_verify [OF demo_run5, of True] by blast
  then show ?thesis using r unfolding f by blast
qed














end
