(* ===== verification/Lease_Outcomes.thy ===== *)
theory Lease_Outcomes
  imports Lease_Properties
begin

text \<open>
  How a lease ends: which runs can be sealed, what the seal forbids, and what can never change
  again once it has been resolved.
\<close>

section \<open>Scoped runs\<close>

text \<open>C13. Unless a counter overflows, a run that closes owners only when nothing borrows them records no
  release violation, its live child records are exactly those with a live owner, and its prepared
  publications are exactly those with a live handle.\<close>

theorem scoped_runs_release_cleanly:
  assumes "lease_run True limit \<sigma>" "\<not> counter_overflowed (ledger \<sigma>)"
  shows "release_invariant_violations (ledger \<sigma>) = 0
     \<and> dr_identity ` {r \<in> set (delegations (ledger \<sigma>)). dr_disposition r = Live}
         = do_identity ` set (owners \<sigma>)
     \<and> pub_binding ` {p \<in> set (publications (ledger \<sigma>)). pub_disposition p = Prepared}
         = pt_binding ` set (prepared \<sigma>)"
proof -
  have si: "sys_inv \<sigma>" using run_inv [OF assms(1)] by blast
  have s: "release_invariant_violations (ledger \<sigma>) = 0" "owners_scoped \<sigma>" "publications_scoped \<sigma>"
    using run_scoped_inv [OF assms(1)] assms(2) by (simp_all add: scoped_inv_def)
  have "owner_ids \<sigma> \<subseteq> dr_identity ` set (delegations (ledger \<sigma>))" by (rule owner_ids_records [OF si])
  then have "dr_identity ` {r \<in> set (delegations (ledger \<sigma>)). dr_disposition r = Live} = owner_ids \<sigma>"
    using s(2) by (auto simp: owners_scoped_def)
  moreover have "pub_binding ` {p \<in> set (publications (ledger \<sigma>)). pub_disposition p = Prepared}
         = pt_binding ` set (prepared \<sigma>)"
  proof (intro set_eqI iffI)
    fix b assume "b \<in> pub_binding ` {p \<in> set (publications (ledger \<sigma>)). pub_disposition p = Prepared}"
    then obtain p where p: "p \<in> set (publications (ledger \<sigma>))" "pub_disposition p = Prepared" "b = pub_binding p"
      by blast
    then obtain pt where "pt \<in> set (prepared \<sigma>)" "matches_prepared pt p"
      using publications_scopedD(4) [OF s(3)] by blast
    then show "b \<in> pt_binding ` set (prepared \<sigma>)" using matches_binding(1) p(3) by (metis imageI)
  next
    fix b assume "b \<in> pt_binding ` set (prepared \<sigma>)"
    then obtain pt where pt: "pt \<in> set (prepared \<sigma>)" "b = pt_binding pt" by blast
    then obtain p where "p \<in> set (publications (ledger \<sigma>))" "matches_prepared pt p" "pub_disposition p = Prepared"
      using publications_scopedD(3) [OF s(3)] by blast
    then show "b \<in> pub_binding ` {p \<in> set (publications (ledger \<sigma>)). pub_disposition p = Prepared}"
      using matches_binding(1) [of pt p] pt(2) by force
  qed
  ultimately show ?thesis using s(1) by (simp add: owner_ids_def)
qed

theorem scoped_runs_release_cleanly_witness:
  "release_invariant_violations (ledger demo6) = 0 \<and> do_identity ` set (owners demo6) = {demo_child}"
proof -
  have "\<not> counter_overflowed (ledger demo6)" by (simp add: demo_eqs lease_new_def lease_state_new_def)
  then have "release_invariant_violations (ledger demo6) = 0" using scoped_runs_release_cleanly [OF demo_run6] by blast
  then show ?thesis by (simp add: demo_eqs demo_owner_def)
qed

lemma drained_seal_reason:
  assumes "sys_inv \<sigma>" "owners_scoped \<sigma>" "publications_scoped \<sigma>"
    and v: "release_invariant_violations (ledger \<sigma>) = 0" and ov: "\<not> counter_overflowed (ledger \<sigma>)"
    and root: "root_identity (ledger \<sigma>) \<noteq> None"
    and drained: "charges \<sigma> = []" "owners \<sigma> = []"
  shows "seal_reason (limit_bytes \<sigma>) (ledger \<sigma>) = None"
proof -
  let ?s = "ledger \<sigma>"
  note led = sys_invD(1) [OF assms(1)]
  note acc = ledger_invD(1) [OF led, unfolded account_inv_def]
  have "owner_ids \<sigma> = {}" using drained by (simp add: owner_ids_def)
  then have "c \<notin> set (staged \<sigma>)" "pt \<notin> set (prepared \<sigma>)" for c pt
    using assms(2) unfolding owners_scoped_def by blast+
  then have st: "staged \<sigma> = []" "prepared \<sigma> = []"
    using last_in_set by blast+
  have live: "\<forall>r\<in>set (delegations ?s). dr_disposition r = Returned"
    using assms(2) drained delegation_disposition.exhaust by (auto simp: owners_scoped_def owner_ids_def)
  have prep: "\<forall>p\<in>set (publications ?s). pub_disposition p \<noteq> Prepared"
    using publications_scopedD(4) [OF assms(3)] st by auto
  have z: "total (live_capacity i) (delegations ?s) = 0" "total (prepared_bytes j) (publications ?s) = 0" for i j
    using live prep by (auto simp: total_zero_iff shares)
  have settled: "record_settled r" if r: "r \<in> set (delegations ?s)" for r
    using ledger_invD(4) [OF led r] r live z st
    by (simp add: record_settled_def record_inv_def)
  have "total dr_allocation_granted_bytes ds = total dr_allocation_returned_bytes ds
       + total dr_allocation_published_bytes ds"
    if "\<forall>r\<in>set ds. record_settled r" for ds
    using that by (induction ds) (auto simp: record_settled_def)
  then have child: "child_granted_bytes ?s = child_returned_bytes ?s + child_published_bytes ?s"
    using acc settled by simp
  have "count_live_delegations ?s = 0"
    using live by (simp add: count_live_delegations_def filter_empty_conv)
  moreover have "root_id ?s \<noteq> None" "limit_bytes \<sigma> \<noteq> None" using acc root by auto
  ultimately show ?thesis
    using acc child settled prep v ov root drained z by (auto simp: seal_reason_def)
qed

lemma seal_reason_fields [simp]:
  "seal_reason lim (u\<lparr>sealed := b\<rparr>) = seal_reason lim u"
  "seal_reason lim (u\<lparr>seal_sequence := q\<rparr>) = seal_reason lim u"
  "seal_reason lim (u\<lparr>sequence := n\<rparr>) = seal_reason lim u"
  by (simp_all add: seal_reason_def count_live_delegations_def)

text \<open>C10. Once the charges and owners of such a run have been dropped, and with them every other handle that
  borrows them, sealing a configured lease succeeds, with a receipt that verifies for its root, provided that no counter
  has overflowed and the sequence counter is below its 128-bit end: the code refuses to seal on either.\<close>

theorem drained_lease_seals:
  assumes "lease_run True limit \<sigma>" "root_identity (ledger \<sigma>) \<noteq> None"
    and "\<not> counter_overflowed (ledger \<sigma>)" "sequence (ledger \<sigma>) < u128_max"
    and "charges \<sigma> = []" "owners \<sigma> = []"
  shows "\<exists>r. fst (sys_seal \<sigma>) = Ok r \<and> slr_verify_for r (the (root_identity (ledger \<sigma>))) = Inr ()"
proof -
  have si: "sys_inv \<sigma>" using run_inv [OF assms(1)] by blast
  have s: "release_invariant_violations (ledger \<sigma>) = 0" "owners_scoped \<sigma>" "publications_scoped \<sigma>"
    using run_scoped_inv [OF assms(1)] assms(3) by (simp_all add: scoped_inv_def)
  obtain res t where op: "seal (limit_bytes \<sigma>) (ledger \<sigma>) = (res, t)" by (cases "seal (limit_bytes \<sigma>) (ledger \<sigma>)")
  note inv = seal_op_inv [OF sys_invD(1,2) [OF si] op]
  have "\<nexists>e. res = Err e"
  proof (cases "terminal_receipt (ledger \<sigma>)")
    case (Some r)
    then show ?thesis using inv by simp
  next
    case None
    let ?u = "(ledger \<sigma>)\<lparr>sequence := sequence (ledger \<sigma>) + 1\<rparr>"
    have "next_sequence (ledger \<sigma>) = (sequence (ledger \<sigma>) + 1, ?u)"
      using assms(4) by (simp add: next_sequence_def checked_add_def)
    moreover have "seal_reason (limit_bytes \<sigma>) (?u\<lparr>seal_sequence := a, sealed := b\<rparr>) = None" for a b
      using drained_seal_reason [OF si s(2,3,1) assms(3,2,5,6)] by simp
    ultimately show ?thesis using op
      by (auto simp: seal_def None Let_def split: sum.splits)
  qed
  then obtain r where "res = Ok r" using inv by (cases res) auto
  then show ?thesis using inv op by (auto simp: sys_seal_def)
qed

theorem drained_lease_seals_witness:
  "\<exists>r. fst (sys_seal demo1) = Ok r \<and> slr_verify_for r demo_root = Inr ()"
proof -
  have "lease_run True (Some 1000) demo1"
    unfolding demo1_def by (rule run_step [OF run_new]) (rule lease_step.enable)
  from drained_lease_seals [OF this] show ?thesis
    by (simp add: demo1_eq lease_new_def lease_state_new_def width_defs)
qed

section \<open>The seal\<close>

text \<open>A seal, even a refused one, freezes the lease: afterwards no bytes can be reserved, delegated,
  staged or prepared, the lease cannot be configured, and each of these is refused without
  touching the books. Releases, rollbacks and returns stay possible.\<close>

theorem sealed_lease_refuses:
  assumes "lease_run scoped limit \<sigma>" "sealed (ledger \<sigma>)"
  shows "(\<exists>e. fst (sys_enable_delegation ok root name lim \<sigma>) = Err e)
     \<and> (\<exists>e. fst (sys_reserve what bytes \<sigma>) = Err e \<and> lrf_reason e = Root_Sealed)
     \<and> (\<exists>e. fst (delegate_capacity None identity path capacity \<sigma>) = Err e)
     \<and> (\<forall>w\<in>set (owners \<sigma>). (\<exists>e. fst (delegate_capacity (Some w) identity path capacity \<sigma>) = Err e)
         \<and> (\<exists>e. fst (owner_reserve w what bytes \<sigma>) = Err e))
     \<and> (\<forall>c\<in>set (staged \<sigma>). \<exists>e. fst (prepare_transfer c bind env \<sigma>) = Err e)"
proof -
  obtain n u where n: "next_sequence (ledger \<sigma>) = (n, u)" by (cases "next_sequence (ledger \<sigma>)")
  have su: "sealed u" using frame_next_sequence [OF n] assms(2) by (simp add: frame_def)
  note np = no_operation_panics [OF assms(1), of ok root name lim what bytes identity path capacity _ bind env]
  have err: "(\<exists>e. r = Err e) \<longleftrightarrow> r \<noteq> Panicked \<and> (\<nexists>v. r = Ok v)" for r :: "('e, 'v) outcome"
    by (cases r) auto
  have enable: "fst (sys_enable_delegation ok root name lim \<sigma>) \<noteq> Ok v" for v
    by (auto simp: sys_enable_delegation_def enable_delegation_def enable_delegation_reason_def n su Let_def
        split: prod.splits if_splits)
  have deleg: "fst (delegate_capacity p identity path capacity \<sigma>) \<noteq> Ok v" for p v
    by (auto simp: delegate_capacity_def delegate_from_def delegate_reason_def n su Let_def
        split: prod.splits if_splits outcome.splits option.splits)
  have stage: "fst (owner_reserve w what bytes \<sigma>) \<noteq> Ok v" for w v
    by (auto simp: owner_reserve_def reserve_delegated_charge_def reserve_delegated_reason_def n su Let_def
        split: prod.splits if_splits outcome.splits option.splits)
  have prep: "fst (prepare_transfer c bind env \<sigma>) \<noteq> Ok v" for c v
    by (auto simp: prepare_transfer_def prepare_published_transfer_def prepare_reason_def n su Let_def
        split: prod.splits if_splits outcome.splits option.splits)
  have "\<exists>e. fst (sys_reserve what bytes \<sigma>) = Err e \<and> lrf_reason e = Root_Sealed"
    by (simp add: sys_reserve_def reserve_def reserve_reason_def n su Let_def record_root_refusal_def)
  then show ?thesis using np enable deleg stage prep unfolding err by blast
qed

lemma demo_sealed_run: "lease_run True (Some 1000) (snd (sys_seal demo4))"
  by (rule run_step [OF demo_run4 seal_root])

lemma demo_sealed: "sealed (ledger (snd (sys_seal demo4)))"
proof -
  have si: "sys_inv demo4" using run_inv [OF demo_run4] by blast
  obtain r t where "seal (limit_bytes demo4) (ledger demo4) = (r, t)"
    by (cases "seal (limit_bytes demo4) (ledger demo4)")
  then show ?thesis using seal_op_inv [OF sys_invD(1,2) [OF si]] by (simp add: sys_seal_def)
qed

theorem sealed_lease_refuses_witness:
  "\<exists>e. fst (sys_reserve ''late'' 1 (snd (sys_seal demo4))) = Err e \<and> lrf_reason e = Root_Sealed"
  using sealed_lease_refuses [OF demo_sealed_run demo_sealed] by blast

lemma step_terminal:
  assumes "lease_step scoped \<sigma> \<tau>" "sys_inv \<sigma>" "terminal_receipt (ledger \<sigma>) = Some r"
  shows "terminal_receipt (ledger \<tau>) = Some r"
proof -
  have fr: "terminal_receipt t = Some r" if "frame s t" "terminal_receipt s = Some r" for s t
    using that by (simp add: frame_def)
  note c = prod.collapse [symmetric]
  show ?thesis
    using assms
  proof (induction rule: lease_step.induct)
    case (enable \<sigma> ok root name limit)
    then show ?case using fr [OF enable_delegation_frame [OF c]]
      by (auto simp: sys_enable_delegation_def case_prod_unfold)
  next
    case (root_reserve \<sigma> what bytes)
    then show ?case using fr [OF reserve_frame [OF c]]
      by (auto simp: sys_reserve_def case_prod_unfold split: outcome.split)
  next
    case (root_release bytes \<sigma>)
    then show ?case using fr [OF drop_charge_frame] by (simp add: sys_drop_charge_def)
  next
    case (seal_root \<sigma>)
    then show ?case by (simp add: sys_seal_def seal_def)
  next
    case (delegate parent \<sigma> identity path capacity)
    then show ?case using fr [OF delegate_frame [OF c]]
      by (auto simp: delegate_capacity_def case_prod_unfold split: outcome.split)
  next
    case (stage owner \<sigma> site bytes)
    then show ?case using fr [OF reserve_delegated_frame [OF c]]
      by (auto simp: owner_reserve_def case_prod_unfold split: outcome.split)
  next
    case (close_owner owner \<sigma> implicit)
    then show ?case using fr [OF return_delegation_frame [OF c]]
      by (auto simp: owner_close_def case_prod_unfold)
  next
    case (unstage x \<sigma>)
    then show ?case using fr [OF release_delegated_frame] by (simp add: drop_delegated_charge_def)
  next
    case (prepare x \<sigma> bind env)
    then show ?case using fr [OF prepare_frame [OF c]] fr [OF release_delegated_frame]
      by (auto simp: prepare_transfer_def drop_delegated_charge_def case_prod_unfold split: outcome.split)
  next
    case (prepare_refused x \<sigma> bind env e t)
    then show ?case using fr [OF prepare_frame] by simp
  next
    case (publish_refused pt \<sigma> e t)
    then show ?case using fr [OF publish_frame] by simp
  next
    case (publish pt \<sigma>)
    then show ?case using fr [OF publish_frame [OF c]] fr [OF rollback_frame [OF c]]
      by (auto simp: publish_prepared_def drop_prepared_def case_prod_unfold split: outcome.split)
  next
    case (rollback pt \<sigma>)
    then show ?case using fr [OF rollback_frame [OF c]]
      by (auto simp: rollback_prepared_def case_prod_unfold)
  next
    case (abandon pt \<sigma>)
    then show ?case using fr [OF rollback_frame [OF c]]
      by (auto simp: drop_prepared_def case_prod_unfold)
  next
    case (close_dest d \<sigma> implicit)
    then show ?case using fr [OF close_published_frame [OF c]]
      by (auto simp: close_destination_def case_prod_unfold)
  qed
qed

text \<open>C24. The terminal receipt is final: however the run goes on, the lease keeps exactly that receipt,
  and sealing again returns it and changes nothing.\<close>

theorem terminal_receipt_final:
  assumes "lease_run scoped limit \<sigma>" "terminal_receipt (ledger \<sigma>) = Some r"
    and "(lease_step scoped)\<^sup>*\<^sup>* \<sigma> \<tau>"
  shows "terminal_receipt (ledger \<tau>) = Some r \<and> sys_seal \<tau> = (Ok r, \<tau>)"
proof -
  have "terminal_receipt (ledger \<tau>) = Some r \<and> sys_inv \<tau>"
    using assms(3)
  proof (induction rule: rtranclp_induct)
    case base
    then show ?case using run_inv [OF assms(1)] assms(2) by blast
  next
    case (step \<rho> \<tau>)
    then show ?case using step_terminal sys_inv_step by blast
  qed
  then show ?thesis by (simp add: sys_seal_def seal_def)
qed

text \<open>The demo run, drained and sealed.\<close>

lemma demo1_seals: "\<exists>r. terminal_receipt (ledger (snd (sys_seal demo1))) = Some r"
proof -
  have run: "lease_run True (Some 1000) demo1"
    unfolding demo1_def by (rule run_step [OF run_new]) (rule lease_step.enable)
  have si: "sys_inv demo1" using run_inv [OF run] by blast
  obtain res t where op: "seal (limit_bytes demo1) (ledger demo1) = (res, t)"
    by (cases "seal (limit_bytes demo1) (ledger demo1)")
  have "\<exists>r. res = Ok r"
    using seal_op_inv [OF sys_invD(1,2) [OF si] op] op
    by (cases res) (auto simp: demo1_eq lease_new_def lease_state_new_def seal_def next_sequence_def width_defs
        checked_add_def Let_def seal_reason_def count_live_delegations_def split: sum.splits)
  then show ?thesis using seal_op_inv [OF sys_invD(1,2) [OF si] op] op by (auto simp: sys_seal_def)
qed

theorem terminal_receipt_final_witness:
  "\<exists>r. sys_seal (snd (sys_reserve ''late'' 7 (snd (sys_seal demo1))))
     = (Ok r, snd (sys_reserve ''late'' 7 (snd (sys_seal demo1))))"
proof -
  have run: "lease_run True (Some 1000) (snd (sys_seal demo1))"
    unfolding demo1_def by (rule run_step [OF run_step [OF run_new]]) (rule lease_step.enable, rule seal_root)
  obtain r where r: "terminal_receipt (ledger (snd (sys_seal demo1))) = Some r" using demo1_seals by blast
  have "(lease_step True)\<^sup>*\<^sup>* (snd (sys_seal demo1)) (snd (sys_reserve ''late'' 7 (snd (sys_seal demo1))))"
    by (rule r_into_rtranclp) (rule root_reserve)
  then show ?thesis using terminal_receipt_final [OF run r] by blast
qed

end
