(* ===== verification/Lease_Resolution.thy ===== *)
theory Lease_Resolution
  imports Lease_Outcomes
begin

text \<open>
  What can never change once a publication is resolved, the admission hint, and the detection of
  an altered receipt.
\<close>

section \<open>Resolution is final\<close>

text \<open>Two publication records that differ at most in an open destination having been closed.\<close>

definition settled_as :: "publication_record \<Rightarrow> publication_record \<Rightarrow> bool" where
  "settled_as p q \<longleftrightarrow>
     pub_binding q = pub_binding p \<and> pub_child_identity q = pub_child_identity p
     \<and> pub_envelope q = pub_envelope p \<and> pub_bytes q = pub_bytes p
     \<and> pub_disposition q = pub_disposition p \<and> pub_resolved_sequence q = pub_resolved_sequence p
     \<and> pub_implicit_rollback q = pub_implicit_rollback p
     \<and> pub_published_receipt_root q = pub_published_receipt_root p
     \<and> (pub_destination_closed_sequence p \<noteq> None \<longrightarrow> q = p)"

lemma settled_as_refl [simp]: "settled_as p p"
  by (simp add: settled_as_def)

lemma settled_as_trans: "settled_as p q \<Longrightarrow> settled_as q r \<Longrightarrow> settled_as p r"
  by (auto simp: settled_as_def)

definition settled_stay :: "publication_record list \<Rightarrow> publication_record list \<Rightarrow> bool" where
  "settled_stay ps qs \<longleftrightarrow>
     (\<forall>p\<in>set ps. pub_disposition p \<noteq> Prepared \<longrightarrow> (\<exists>q\<in>set qs. settled_as p q))"

lemma settled_stay_subset: "set ps \<subseteq> set qs \<Longrightarrow> settled_stay ps qs"
  unfolding settled_stay_def using settled_as_refl by blast

lemma settled_stay_trans:
  assumes "settled_stay ps qs" "settled_stay qs rs" shows "settled_stay ps rs"
  unfolding settled_stay_def
proof (intro ballI impI)
  fix p assume p: "p \<in> set ps" "pub_disposition p \<noteq> Prepared"
  then obtain q where q: "q \<in> set qs" "settled_as p q" using assms(1) by (auto simp: settled_stay_def)
  then have "pub_disposition q \<noteq> Prepared" using p(2) by (simp add: settled_as_def)
  then obtain r where "r \<in> set rs" "settled_as q r" using assms(2) q(1) by (auto simp: settled_stay_def)
  then show "\<exists>r\<in>set rs. settled_as p r" using settled_as_trans q(2) by blast
qed

lemma settled_stay_update:
  assumes "m < length ps" "pub_disposition (ps ! m) \<noteq> Prepared \<Longrightarrow> settled_as (ps ! m) y"
  shows "settled_stay ps (ps[m := y])"
  unfolding settled_stay_def
proof (intro ballI impI)
  fix p assume p: "p \<in> set ps" "pub_disposition p \<noteq> Prepared"
  then obtain k where k: "k < length ps" "p = ps ! k" by (auto simp: in_set_conv_nth)
  show "\<exists>q\<in>set (ps[m := y]). settled_as p q"
  proof (cases "k = m")
    case True
    then show ?thesis using assms p(2) k by (auto intro: set_update_memI)
  next
    case False
    then have "p \<in> set (ps[m := y])" using k by (metis length_list_update nth_list_update_neq nth_mem)
    then show ?thesis using settled_as_refl by blast
  qed
qed

lemma settled_stay_perm: "mset qs = mset ps \<Longrightarrow> settled_stay ps qs"
  by (rule settled_stay_subset) (metis mset_eq_setD order_refl)

lemma refused_pubs: "refused s t \<Longrightarrow> publications t = publications s"
  by (simp add: refused_def same_books_def same_accounts_def)

lemma rollback_settled:
  assumes "sys_inv \<sigma>" "pt \<in> set (prepared \<sigma>)"
    and op: "rollback_prepared_transfer pt implicit (ledger \<sigma>) = (res, t)"
  shows "settled_stay (publications (ledger \<sigma>)) (publications t)"
proof (cases res)
  case (Ok d)
  then show ?thesis
    using rollback_inv [OF sys_invD(1) [OF assms(1)] prepared_child [OF assms(1,2)] op]
    by (auto dest!: position_Some_D intro: settled_stay_update)
next
  case (Err e)
  then show ?thesis
    using rollback_inv [OF sys_invD(1) [OF assms(1)] prepared_child [OF assms(1,2)] op]
    by (auto simp: refused_pubs settled_stay_subset)
qed (use rollback_inv [OF sys_invD(1) [OF assms(1)] prepared_child [OF assms(1,2)] op] in simp)

lemma close_guard:
  assumes "close_published_transfer d implicit s = (Ok c, t)" "position (matches_published d) (publications s) = Some m"
  shows "pub_destination_closed_sequence (publications s ! m) = None"
proof -
  obtain n u where n: "next_sequence s = (n, u)" by (cases "next_sequence s")
  have "publications u = publications s" using calm_next_sequence [OF n] by (simp add: calm_def)
  then show ?thesis using assms
    by (auto simp: close_published_transfer_def close_published_reason_def n Let_def
        split: if_splits option.splits prod.splits sum.splits)
qed

lemma close_settled:
  assumes si: "sys_inv \<sigma>" and d: "d \<in> set (destinations \<sigma>)"
    and op: "close_published_transfer d implicit (ledger \<sigma>) = (res, t)"
  shows "settled_stay (publications (ledger \<sigma>)) (publications t)"
proof -
  have "destination_ok (ledger \<sigma>) d" using sys_invD(3) [OF si] d by (simp add: handles_inv_def)
  then have inv: "case res of
        Ok c \<Rightarrow> \<exists>m. position (matches_published d) (publications (ledger \<sigma>)) = Some m
             \<and> publications t = (publications (ledger \<sigma>))[m := closed_result (pcr_closed_sequence c) implicit
                  (pcr_receipt_root c) (publications (ledger \<sigma>) ! m)]
      | Err e \<Rightarrow> refused (ledger \<sigma>) t | Panicked \<Rightarrow> False"
    using close_published_inv [OF sys_invD(1) [OF si] _ _ op]
    by (auto simp: destination_ok_def split: outcome.splits)
  show ?thesis
  proof (cases res)
    case (Ok c)
    then obtain m where m: "position (matches_published d) (publications (ledger \<sigma>)) = Some m"
      "publications t = (publications (ledger \<sigma>))[m := closed_result (pcr_closed_sequence c) implicit
                  (pcr_receipt_root c) (publications (ledger \<sigma>) ! m)]" using inv by auto
    have "pub_destination_closed_sequence (publications (ledger \<sigma>) ! m) = None"
      by (rule close_guard [OF op [unfolded Ok] m(1)])
    then show ?thesis using position_Some_D [OF m(1)] unfolding m(2)
      by (intro settled_stay_update) (auto simp: settled_as_def closed_result_def)
  next
    case (Err e)
    then show ?thesis using inv by (simp add: refused_pubs settled_stay_subset)
  qed (use inv in simp)
qed

lemma publish_settled:
  assumes si: "sys_inv \<sigma>" and pt: "pt \<in> set (prepared \<sigma>)"
  shows "settled_stay (publications (ledger \<sigma>)) (publications (ledger (snd (publish_prepared pt \<sigma>))))"
proof -
  obtain r t where op: "publish_prepared_transfer pt (ledger \<sigma>) = (r, t)"
    by (cases "publish_prepared_transfer pt (ledger \<sigma>)")
  note inv = publish_inv [OF sys_invD(1) [OF si] prepared_child [OF si pt] op]
  show ?thesis
  proof (cases r)
    case (Ok d)
    then have "settled_stay (publications (ledger \<sigma>)) (publications t)"
      using inv by (auto dest!: position_Some_D intro: settled_stay_update)
    then show ?thesis by (simp add: publish_prepared_def op Ok)
  next
    case (Err e)
    then have ref: "refused (ledger \<sigma>) t" using inv by simp
    have s: "sys_inv (\<sigma>\<lparr>ledger := t\<rparr>)" by (rule sys_inv_refused [OF si ref])
    obtain r2 t2 where rb: "rollback_prepared_transfer pt True t = (r2, t2)"
      by (cases "rollback_prepared_transfer pt True t")
    have "settled_stay (publications t) (publications t2)"
      using rollback_settled [OF s, of pt True r2 t2] pt rb by simp
    then show ?thesis by (simp add: publish_prepared_def drop_prepared_def op Err rb refused_pubs [OF ref])
  qed (use inv in simp)
qed

lemma prepare_settled:
  assumes si: "sys_inv \<sigma>" and c: "c \<in> set (staged \<sigma>)"
  shows "settled_stay (publications (ledger \<sigma>)) (publications (ledger (snd (prepare_transfer c bind env \<sigma>))))"
proof -
  obtain r t where op: "prepare_published_transfer (fst c) (snd c) bind env (ledger \<sigma>) = (r, t)"
    by (cases "prepare_published_transfer (fst c) (snd c) bind env (ledger \<sigma>)")
  have mem: "(fst c, snd c) \<in> set (staged \<sigma>)" using c by simp
  note inv = prepare_inv [OF sys_invD(1) [OF si] mem op]
  show ?thesis
  proof (cases r)
    case (Ok n)
    then show ?thesis using inv by (auto simp: prepare_transfer_def op intro!: settled_stay_subset)
  next
    case (Err e)
    then show ?thesis using inv
      by (auto simp: prepare_transfer_def op drop_delegated_charge_def release_delegated_pubs refused_pubs
          intro!: settled_stay_subset)
  qed (use inv in simp)
qed

lemma step_settled:
  "lease_step scoped \<sigma> \<tau> \<Longrightarrow> sys_inv \<sigma> \<Longrightarrow>
   settled_stay (publications (ledger \<sigma>)) (publications (ledger \<tau>))"
proof (induction rule: lease_step.induct)
  case (enable \<sigma> ok root name limit)
  show ?case using enable_delegation_calm [OF prod.collapse [symmetric], of "ledger \<sigma>" "limit_bytes \<sigma>" ok root name limit]
    by (auto simp: sys_enable_delegation_def case_prod_unfold calm_def intro: settled_stay_subset)
next
  case (root_reserve \<sigma> what bytes)
  show ?case using reserve_calm [OF prod.collapse [symmetric], of "ledger \<sigma>" "limit_bytes \<sigma>" what bytes]
    by (auto simp: sys_reserve_def case_prod_unfold calm_def intro: settled_stay_subset split: outcome.split)
next
  case (root_release bytes \<sigma>)
  show ?case by (simp add: sys_drop_charge_def drop_charge_pubs settled_stay_subset)
next
  case (seal_root \<sigma>)
  have "mset (publications (snd (seal (limit_bytes \<sigma>) (ledger \<sigma>)))) = mset (publications (ledger \<sigma>))"
    using seal_op_inv [OF sys_invD(1,2) [OF seal_root] prod.collapse [symmetric]] by blast
  then show ?case by (simp add: sys_seal_def case_prod_unfold settled_stay_perm)
next
  case (delegate parent \<sigma> identity path capacity)
  show ?case using delegate_calm [OF prod.collapse [symmetric], of "ledger \<sigma>" "limit_bytes \<sigma>" _ _ identity path capacity]
    by (auto simp: delegate_capacity_def case_prod_unfold calm_def intro: settled_stay_subset split: outcome.split)
next
  case (stage owner \<sigma> site bytes)
  show ?case using reserve_delegated_calm [OF prod.collapse [symmetric], of "ledger \<sigma>" "do_identity owner" _ _ site bytes]
    by (auto simp: owner_reserve_def case_prod_unfold calm_def intro: settled_stay_subset split: outcome.split)
next
  case (close_owner owner \<sigma> implicit)
  have "mset (publications (snd (return_delegation (do_identity owner) implicit (ledger \<sigma>)))) = mset (publications (ledger \<sigma>))"
    using return_delegation_inv [OF sys_invD(1) [OF close_owner(3)] owner_record(1) [OF close_owner(3,1)] prod.collapse [symmetric], of implicit]
    by (auto split: outcome.splits dest: refused_pubs)
  then show ?case by (simp add: owner_close_def case_prod_unfold settled_stay_perm)
next
  case (unstage c \<sigma>)
  show ?case by (simp add: drop_delegated_charge_def release_delegated_pubs settled_stay_subset)
next
  case (prepare c \<sigma> bind env)
  then show ?case using prepare_settled by blast
next
  case (prepare_refused c \<sigma> bind env e t)
  then show ?case using refused_pubs [OF prepare_refused_ledger(1)] by (simp add: settled_stay_subset)
next
  case (publish_refused pt \<sigma> e t)
  then show ?case using refused_pubs [OF publish_refused_ledger(1)] by (simp add: settled_stay_subset)
next
  case (publish pt \<sigma>)
  then show ?case using publish_settled by blast
next
  case (rollback pt \<sigma>)
  then show ?case using rollback_settled [OF _ _ prod.collapse [symmetric]]
    by (simp add: rollback_prepared_def case_prod_unfold)
next
  case (abandon pt \<sigma>)
  then show ?case using rollback_settled [OF _ _ prod.collapse [symmetric]]
    by (simp add: drop_prepared_def case_prod_unfold)
next
  case (close_dest d \<sigma> implicit)
  then show ?case using close_settled [OF _ _ prod.collapse [symmetric]]
    by (simp add: close_destination_def case_prod_unfold)
qed

text \<open>C11. Every binding is used at most once and resolves at most once: a published or rolled-back
  record keeps its binding, child, bytes, disposition and receipt for the rest of the run, a
  closed destination stays exactly as it was closed, and no second record ever has its binding.\<close>

theorem resolution_is_final:
  assumes "lease_run scoped limit \<sigma>" "(lease_step scoped)\<^sup>*\<^sup>* \<sigma> \<tau>"
    and "p \<in> set (publications (ledger \<sigma>))" "pub_disposition p \<noteq> Prepared"
  shows "\<exists>q\<in>set (publications (ledger \<tau>)). settled_as p q
     \<and> (\<forall>x\<in>set (publications (ledger \<tau>)). pub_binding x = pub_binding p \<longrightarrow> x = q)"
proof -
  have "settled_stay (publications (ledger \<sigma>)) (publications (ledger \<tau>)) \<and> sys_inv \<tau>"
    using assms(2)
  proof (induction rule: rtranclp_induct)
    case base
    then show ?case using run_inv [OF assms(1)] by (simp add: settled_stay_subset)
  next
    case (step \<rho> \<tau>)
    then show ?case using step_settled sys_inv_step settled_stay_trans by metis
  qed
  then obtain q where q: "q \<in> set (publications (ledger \<tau>))" "settled_as p q" and si: "sys_inv \<tau>"
    using assms(3,4) by (auto simp: settled_stay_def)
  have "inj_on pub_binding (set (publications (ledger \<tau>)))"
    using ledger_invD(3) [OF sys_invD(1) [OF si]] by (simp add: distinct_map)
  then have "x = q" if "x \<in> set (publications (ledger \<tau>))" "pub_binding x = pub_binding p" for x
    using q that by (auto simp: settled_as_def intro: inj_onD)
  then show ?thesis using q by blast
qed

theorem resolution_is_final_witness:
  "\<exists>q\<in>set (publications (ledger (snd (sys_seal demo6)))). pub_disposition q = Published \<and> pub_bytes q = 50"
proof -
  let ?p = "publish_result demo_prepared 6 (prepared_record None demo_prepared) (ptr_receipt_root demo_destination)"
  have p: "?p \<in> set (publications (ledger demo6))" "pub_disposition ?p \<noteq> Prepared"
    "pub_disposition ?p = Published" "pub_bytes ?p = 50"
    by (simp_all add: demo6_eq publish_result_def prepared_record_def demo_prepared_def)
  have "(lease_step True)\<^sup>*\<^sup>* demo6 (snd (sys_seal demo6))" by (rule r_into_rtranclp) (rule seal_root)
  from resolution_is_final [OF demo_run6 this p(1,2)] show ?thesis
    using p(3,4) by (auto simp: settled_as_def)
qed

section \<open>The admission hint\<close>

text \<open>The admission hint agrees with the reservation it predicts: away from the ends of the 128-bit
  counters, \<open>can_reserve_now\<close> answers true exactly when reserving the same bytes would succeed.\<close>

theorem admission_hint_exact:
  assumes "sequence s < u128_max" "requested_bytes s + bytes \<le> u128_max"
    "direct_granted_bytes s + bytes \<le> u128_max"
  shows "can_reserve_now limit bytes s \<longleftrightarrow> fst (reserve limit what bytes s) = Ok bytes"
  using assms
  by (auto simp: can_reserve_now_def reserve_def reserve_reason_def next_sequence_def checked_add_def Let_def
      split: option.splits if_splits prod.splits)

theorem admission_hint_exact_witness:
  "can_reserve_now (Some 1000) 500 (ledger demo4) \<longleftrightarrow>
   fst (reserve (Some 1000) ''next'' 500 (ledger demo4)) = Ok 500"
  by (rule admission_hint_exact) (simp_all add: demo_eqs lease_new_def lease_state_new_def width_defs)

section \<open>Altered receipts\<close>

text \<open>The implicit-return flag of a verified close receipt cannot be flipped: the altered receipt
  fails verification on its digest, so a dropped owner cannot pass for an explicitly closed one.\<close>

theorem implicit_return_flag_protected:
  assumes "dcr_verify_for r root parent child = Inr ()"
  shows "dcr_verify_for (r\<lparr>dcr_implicit_return := \<not> dcr_implicit_return r\<rparr>) root parent child
    = Inl (LeaseReceiptVerificationError ''receipt_root'')"
proof -
  let ?r = "r\<lparr>dcr_implicit_return := \<not> dcr_implicit_return r\<rparr>"
  let ?pre = "[hash_u16 (dcr_schema_version r), hash_identity (dcr_root_identity r),
      hash_optional_identity (dcr_parent_identity r), hash_identity (dcr_identity r),
      hash_text (dcr_root_id r), hash_optional_text (dcr_parent_path r), hash_text (dcr_logical_path r),
      hash_u64 (dcr_capacity_bytes r), hash_u128 (dcr_allocation_granted_bytes r),
      hash_u128 (dcr_allocation_returned_bytes r), hash_u128 (dcr_allocation_published_bytes r),
      hash_u128 (dcr_delegated_bytes r), hash_u128 (dcr_returned_delegated_bytes r),
      hash_u64 (dcr_peak_used_bytes r), hash_u64 (dcr_final_used_bytes r),
      hash_u128 (dcr_refused_requests r), hash_u128 (dcr_refused_bytes r),
      hash_usize (dcr_publication_record_count r), hash_usize (dcr_published_transfer_count r),
      hash_usize (dcr_rolled_back_transfer_count r), hash_bytes (dcr_publication_root r),
      hash_u128 (dcr_created_sequence r), hash_u128 (dcr_returned_sequence r)]"
  define l where "l = hash_calls ?pre (hash_new ''fs-alloc-child-close-v2'')"
  have "lossless (hash_calls ?pre)" by (rule lossless_hash_calls) (auto intro: lossless_calls)
  then have len: "length l = 4" by (simp add: l_def lossless_def del: hash_calls_simps)
  have roots: "dcr_recompute_root r = hash_finish (hash_calls [] (hash_boolean (dcr_implicit_return r) l))"
    "dcr_recompute_root ?r = hash_finish (hash_calls [] (hash_boolean (\<not> dcr_implicit_return r) l))"
    by (simp_all add: dcr_recompute_root_def l_def)
  have "dcr_recompute_root ?r \<noteq> dcr_recompute_root r"
    unfolding roots
    by (rule finish_after_lossless)
      (use hash_boolean_flip [OF len] len lossless_hash_boolean in \<open>auto simp: lossless_def\<close>)
  moreover have "dcr_recompute_root r = dcr_receipt_root r"
    using assms by (auto simp: dcr_verify_for_def verification_error_def split: if_splits)
  ultimately have "dcr_recompute_root ?r \<noteq> dcr_receipt_root ?r" by simp
  then show ?thesis using assms
    by (auto simp: dcr_verify_for_def verification_error_def split: if_splits)
qed

theorem implicit_return_flag_protected_witness:
  "\<exists>r. dcr_verify_for r demo_root None demo_child = Inr ()
     \<and> dcr_verify_for (r\<lparr>dcr_implicit_return := True\<rparr>) demo_root None demo_child
         = Inl (LeaseReceiptVerificationError ''receipt_root'')"
proof -
  define r0 where "r0 = close_receipt_of demo_root ''root''
     (new_delegation_record None None demo_child ''root/c'' 400 3) 0 0 0 (replicate 32 0) 9 False"
  define r where "r = r0\<lparr>dcr_receipt_root := dcr_recompute_root r0\<rparr>"
  have f: "dcr_schema_version r = VERIFIED_RECEIPT_SCHEMA_VERSION" "dcr_root_identity r = demo_root"
    "dcr_parent_identity r = None" "dcr_identity r = demo_child" "dcr_final_used_bytes r = 0"
    "dcr_allocation_returned_bytes r = 0" "dcr_allocation_published_bytes r = 0"
    "dcr_allocation_granted_bytes r = 0" "dcr_delegated_bytes r = 0" "dcr_returned_delegated_bytes r = 0"
    "dcr_published_transfer_count r = 0" "dcr_rolled_back_transfer_count r = 0"
    "dcr_publication_record_count r = 0" "dcr_capacity_bytes r = 400" "dcr_peak_used_bytes r = 0"
    "dcr_returned_sequence r = 9" "dcr_created_sequence r = 3" "dcr_implicit_return r = False"
    by (simp_all add: r_def r0_def close_receipt_of_def new_delegation_record_def)
  have "dcr_recompute_root r = dcr_receipt_root r" by (simp add: r_def dcr_recompute_root_def)
  moreover have "root_subject demo_child = root_subject demo_root" "id_domain demo_child = id_domain demo_root"
    by code_simp+
  ultimately have "dcr_verify_for r demo_root None demo_child = Inr ()"
    by (simp add: dcr_verify_for_def f demo_related)
  then show ?thesis using implicit_return_flag_protected [of r demo_root None demo_child] f(18)
    by (intro exI [of _ r]) simp
qed

end
