(* ===== verification/Limb_Kernel.thy ===== *)
theory Limb_Kernel
  imports Prelude
begin

text \<open>
  The resumable microprograms of exact arithmetic (\<open>crates/fs-rand/src/cbc_limb.rs\<close>): multiply-add
  over little-endian limbs of 32 bits, one mutated cell at a time under a budget, comparison and
  normalisation. Positions and lengths (\<open>usize\<close>) are natural numbers; limbs, the carry and the
  64-bit intermediate keep their width. An index out of bounds is a panic.
\<close>

section \<open>Cursors\<close>

definition LIMB_CURSOR_VERSION :: u32 where "LIMB_CURSOR_VERSION = 1"

datatype exact_op_kind = ZeroFill | AddMultiplyCell | AddMultiplyDrain

record limb_cursor =
  version :: u32
  kind :: exact_op_kind
  src_pos :: nat
  factor_pos :: nat
  dst_pos :: nat
  fill_to :: nat
  cursor_limit :: nat
  carry :: u64

definition begin_add_multiply :: "nat \<Rightarrow> nat \<Rightarrow> nat \<Rightarrow> limb_cursor" where
  "begin_add_multiply dst_len fill grow_to = \<lparr>version = LIMB_CURSOR_VERSION,
     kind = (if dst_len < fill then ZeroFill else AddMultiplyCell),
     src_pos = 0, factor_pos = 0, dst_pos = dst_len, fill_to = fill, cursor_limit = grow_to, carry = 0\<rparr>"

datatype step_outcome = Advanced nat | Complete nat | Refused

section \<open>Factors\<close>

function factor_loop :: "u128 \<Rightarrow> u32 list \<Rightarrow> nat \<Rightarrow> u32 list \<times> nat" where
  "factor_loop remaining words len =
    (if remaining = 0 then (words, len)
     else factor_loop (drop_bit 32 remaining) (words[len := ucast (remaining AND 0xffffffff)]) (len + 1))"
  by pat_completeness auto
termination
proof (relation "measure (\<lambda>(remaining, words, len). unat remaining)", goal_cases)
  case (2 remaining words len)
  then have "unat remaining div 2 ^ 32 < unat remaining" by (simp add: div_less_dividend unat_gt_0)
  then have "unat (drop_bit 32 remaining) < unat remaining" unfolding unat_drop_bit_eq by (simp only: drop_bit_eq_div)
  then show ?case by simp
qed simp

definition factor_limbs_u32 :: "u128 \<Rightarrow> u32 list \<times> nat" where
  "factor_limbs_u32 factor = factor_loop factor (replicate 4 0) 0"

section \<open>One pass of the multiply-add loop\<close>

text \<open>A pass either only moves the cursor, or mutates one cell, or ends the call. The destination and
  the cursor it leaves come with it.\<close>

datatype cell_pass = Moved "u32 list" limb_cursor | Mutated "u32 list" limb_cursor
  | Committed "u32 list" limb_cursor | OutOfRoom "u32 list" limb_cursor | OutOfBounds

definition low32 :: "u64 \<Rightarrow> u32" where
  "low32 wide = ucast (wide AND 0xffffffff)"

definition zero_fill_pass :: "u32 list \<Rightarrow> limb_cursor \<Rightarrow> cell_pass" where
  "zero_fill_pass dst cursor =
    (if fill_to cursor \<le> dst_pos cursor then Moved dst (cursor\<lparr>kind := AddMultiplyCell, dst_pos := 0\<rparr>)
     else if dst_pos cursor = length dst
     then Mutated (dst @ [0]) (cursor\<lparr>dst_pos := dst_pos cursor + 1\<rparr>)
     else if dst_pos cursor < length dst
     then Mutated (dst[dst_pos cursor := 0]) (cursor\<lparr>dst_pos := dst_pos cursor + 1\<rparr>)
     else OutOfBounds)"

text \<open>\<open>grow_at\<close> pushes a zero when the index is at the end; \<open>None\<close> when the bound forbids it.\<close>

definition grow_at :: "nat \<Rightarrow> nat \<Rightarrow> u32 list \<Rightarrow> u32 list option" where
  "grow_at i bound dst = (if length dst \<le> i then if bound \<le> i then None else Some (dst @ [0]) else Some dst)"

definition multiply_pass :: "u32 list \<Rightarrow> u32 list \<Rightarrow> nat \<Rightarrow> u32 list \<Rightarrow> limb_cursor \<Rightarrow> cell_pass" where
  "multiply_pass src words flen dst cursor =
    (if flen \<le> factor_pos cursor
     then Moved dst (cursor\<lparr>kind := AddMultiplyDrain, dst_pos := src_pos cursor + flen\<rparr>)
     else
       (let destination = src_pos cursor + factor_pos cursor
        in case grow_at destination (cursor_limit cursor) dst of
             None \<Rightarrow> OutOfRoom dst cursor
           | Some dst \<Rightarrow>
               if length src \<le> src_pos cursor \<or> length words \<le> factor_pos cursor \<or> length dst \<le> destination
               then OutOfBounds
               else
                 (let wide = ucast (src ! src_pos cursor) * ucast (words ! factor_pos cursor)
                        + ucast (dst ! destination) + carry cursor
                  in Mutated (dst[destination := low32 wide])
                       (cursor\<lparr>carry := drop_bit 32 wide, factor_pos := factor_pos cursor + 1\<rparr>))))"

definition drain_pass :: "u32 list \<Rightarrow> u32 list \<Rightarrow> limb_cursor \<Rightarrow> cell_pass" where
  "drain_pass src dst cursor =
    (if length src \<le> src_pos cursor then Committed dst cursor
     else if carry cursor = 0
     then
       (let cursor = cursor\<lparr>src_pos := src_pos cursor + 1, factor_pos := 0, carry := 0\<rparr>
        in if length src \<le> src_pos cursor then Committed dst cursor
           else Moved dst (cursor\<lparr>kind := AddMultiplyCell\<rparr>))
     else
       (let d = dst_pos cursor
        in case grow_at d (cursor_limit cursor) dst of
             None \<Rightarrow> OutOfRoom dst cursor
           | Some dst \<Rightarrow>
               if length dst \<le> d then OutOfBounds
               else
                 (let wide = ucast (dst ! d) + carry cursor
                  in Mutated (dst[d := low32 wide]) (cursor\<lparr>carry := drop_bit 32 wide, dst_pos := d + 1\<rparr>))))"

definition add_multiply_pass :: "u32 list \<Rightarrow> u32 list \<Rightarrow> nat \<Rightarrow> u32 list \<Rightarrow> limb_cursor \<Rightarrow> cell_pass" where
  "add_multiply_pass src words flen dst cursor =
    (case kind cursor of
       ZeroFill \<Rightarrow> zero_fill_pass dst cursor
     | AddMultiplyCell \<Rightarrow> multiply_pass src words flen dst cursor
     | AddMultiplyDrain \<Rightarrow> drain_pass src dst cursor)"

section \<open>Stepping under a budget\<close>

text \<open>A pass that only moves the cursor leaves fewer source rows, or the same rows in a later phase.\<close>

definition phases_left :: "limb_cursor \<Rightarrow> nat" where
  "phases_left cursor = (case kind cursor of ZeroFill \<Rightarrow> 2 | AddMultiplyCell \<Rightarrow> 1 | AddMultiplyDrain \<Rightarrow> 0)"

lemma moved_progress:
  assumes "add_multiply_pass src words flen dst cursor = Moved dst' cursor'"
  shows "length src - src_pos cursor' < length src - src_pos cursor \<or>
    length src - src_pos cursor' = length src - src_pos cursor \<and> phases_left cursor' < phases_left cursor"
  using assms
  by (auto simp: add_multiply_pass_def zero_fill_pass_def multiply_pass_def drain_pass_def phases_left_def Let_def
      split: exact_op_kind.splits if_splits option.splits)

function cell_loop ::
  "u32 list \<Rightarrow> u32 list \<Rightarrow> nat \<Rightarrow> nat \<Rightarrow> nat \<Rightarrow> u32 list \<Rightarrow> limb_cursor
    \<Rightarrow> (unit, (step_outcome \<times> nat) \<times> u32 list \<times> limb_cursor) outcome" where
  "cell_loop src words flen budget used dst cursor =
    (if used < budget
     then case add_multiply_pass src words flen dst cursor of
            Moved dst cursor \<Rightarrow> cell_loop src words flen budget used dst cursor
          | Mutated dst cursor \<Rightarrow> cell_loop src words flen budget (used + 1) dst cursor
          | Committed dst cursor \<Rightarrow> Ok ((Complete used, used), dst, cursor)
          | OutOfRoom dst cursor \<Rightarrow> Ok ((Refused, used), dst, cursor)
          | OutOfBounds \<Rightarrow> Panicked
     else Ok ((Advanced used, used), dst, cursor))"
  by pat_completeness auto
termination
  by (relation "measures [\<lambda>(src, words, flen, budget, used, dst, cursor). budget - used,
       \<lambda>(src, words, flen, budget, used, dst, cursor). length src - src_pos cursor,
       \<lambda>(src, words, flen, budget, used, dst, cursor). phases_left cursor]")
    (use moved_progress in fastforce)+

declare cell_loop.simps [simp del]

definition step_add_multiply ::
  "u32 list \<Rightarrow> u32 list \<Rightarrow> u32 list \<Rightarrow> nat \<Rightarrow> limb_cursor \<Rightarrow> nat
    \<Rightarrow> (unit, (step_outcome \<times> nat) \<times> u32 list \<times> limb_cursor) outcome" where
  "step_add_multiply dst src words flen cursor budget =
    (if version cursor \<noteq> LIMB_CURSOR_VERSION \<or> length src < src_pos cursor \<or> flen < factor_pos cursor
        \<or> cursor_limit cursor < dst_pos cursor \<or> cursor_limit cursor < fill_to cursor
     then Ok ((Refused, 0), dst, cursor)
     else if src = [] \<or> flen = 0 then Ok ((Complete 0, 0), dst, cursor)
     else cell_loop src words flen budget 0 dst cursor)"

definition add_multiply_committed :: "limb_cursor \<Rightarrow> nat \<Rightarrow> bool" where
  "add_multiply_committed cursor src_len \<longleftrightarrow>
     src_len \<le> src_pos cursor \<and> kind cursor = AddMultiplyDrain \<and> carry cursor = 0"

section \<open>Comparison and normalisation\<close>

datatype limb_ordering = LimbLess | LimbEqual | LimbGreater

definition compare_limbs :: "'a::linorder \<Rightarrow> 'a \<Rightarrow> limb_ordering" where
  "compare_limbs a b = (if a < b then LimbLess else if b < a then LimbGreater else LimbEqual)"

text \<open>The loop over the observations; it returns the outcome and the position it leaves.\<close>

fun compare_loop :: "u32 list \<Rightarrow> u32 list \<Rightarrow> nat \<Rightarrow> nat \<Rightarrow> limb_ordering option \<times> nat" where
  "compare_loop a b pos budget =
    (if 0 < pos \<and> 0 < budget
     then let pos = pos - 1
          in case compare_limbs (a ! pos) (b ! pos) of
               LimbEqual \<Rightarrow> compare_loop a b pos (budget - 1)
             | other \<Rightarrow> (Some other, pos)
     else (if pos = 0 then Some LimbEqual else None, pos))"

declare compare_loop.simps [simp del]

definition step_compare :: "u32 list \<Rightarrow> u32 list \<Rightarrow> nat \<Rightarrow> nat \<Rightarrow> (unit, limb_ordering option \<times> nat) outcome" where
  "step_compare a b pos budget =
    (case compare_limbs (length a) (length b) of
       LimbEqual \<Rightarrow> if length a < pos \<and> 0 < budget then Panicked else Ok (compare_loop a b pos budget)
     | other \<Rightarrow> Ok (Some other, pos))"

fun normalize_loop :: "u32 list \<Rightarrow> nat \<Rightarrow> nat \<Rightarrow> nat \<times> u32 list" where
  "normalize_loop dst budget popped =
    (if popped < budget \<and> dst \<noteq> [] \<and> last dst = 0 then normalize_loop (butlast dst) budget (popped + 1)
     else (popped, dst))"

declare normalize_loop.simps [simp del]

definition step_normalize :: "u32 list \<Rightarrow> nat \<Rightarrow> nat \<times> u32 list" where
  "step_normalize dst budget = normalize_loop dst budget 0"

end
