(* ===== verification/Limb_Exact.thy ===== *)
theory Limb_Exact
  imports Limb_Kernel
begin

text \<open>
  What the limb microprograms compute: the invariant of the multiply-add cursor ties limbs, carry
  and the rows still to come to the exact result, so a completed run holds it, and slicing a run
  over any budgets changes nothing.
\<close>

section \<open>The number limbs stand for\<close>

definition base :: nat where "base = 2 ^ 32"

primrec limbs_value :: "u32 list \<Rightarrow> nat" where
  "limbs_value [] = 0"
| "limbs_value (x # xs) = unat x + base * limbs_value xs"

lemma unat_limb: "unat (x :: u32) < base"
  using unsigned_less [of x] by (simp add: base_def)

lemma base_pos [simp]: "0 < base"
  by (simp add: base_def)

lemma limbs_value_append: "limbs_value (xs @ ys) = limbs_value xs + base ^ length xs * limbs_value ys"
  by (induction xs) (simp_all add: algebra_simps)

lemma limbs_value_zero [simp]: "limbs_value (xs @ [0]) = limbs_value xs"
  by (simp add: limbs_value_append)

lemma limbs_value_less: "limbs_value xs < base ^ length xs"
proof (induction xs)
  case (Cons x xs)
  have "unat x + base * limbs_value xs < base + base * limbs_value xs" using unat_limb [of x] by simp
  also have "\<dots> = base * (limbs_value xs + 1)" by simp
  also have "\<dots> \<le> base * base ^ length xs" using Cons by (intro mult_le_mono) simp_all
  finally show ?case by simp
qed simp

lemma limbs_value_update:
  "i < length xs \<Longrightarrow> limbs_value (xs[i := v]) + unat (xs ! i) * base ^ i = limbs_value xs + unat v * base ^ i"
proof (induction xs arbitrary: i)
  case (Cons x xs)
  show ?case
  proof (cases i)
    case (Suc j)
    then have "limbs_value (xs[j := v]) + unat (xs ! j) * base ^ j = limbs_value xs + unat v * base ^ j"
      using Cons by simp
    from arg_cong [OF this, of "\<lambda>n. base * n"] show ?thesis using Suc by (simp add: algebra_simps)
  qed simp
qed simp

lemma limbs_value_drop:
  "i < length xs \<Longrightarrow> limbs_value (drop i xs) = unat (xs ! i) + base * limbs_value (drop (Suc i) xs)"
  by (simp flip: Cons_nth_drop_Suc)

section \<open>The 64-bit intermediate\<close>

lemma unat_ucast_limb [simp]: "unat (ucast (x :: u32) :: u64) = unat x"
  using unat_limb [of x] by (simp add: unsigned_ucast_eq take_bit_nat_eq_self base_def)

lemma low32_split: "unat (low32 w) + base * unat (drop_bit 32 w) = unat w"
proof -
  have "unat (low32 w) = unat w mod 2 ^ 32"
  proof -
    have "(0xffffffff :: u64) = mask 32" by (simp add: mask_eq_exp_minus_1)
    then have "w AND 0xffffffff = take_bit 32 w" by (simp add: take_bit_eq_mask)
    then have "unat (low32 w) = take_bit 32 (take_bit 32 (unat w))"
      unfolding low32_def by (simp only: unsigned_ucast_eq unsigned_take_bit_eq) simp
    then show ?thesis by (simp add: take_bit_eq_mod)
  qed
  moreover have "unat (drop_bit 32 w) = unat w div 2 ^ 32" unfolding unat_drop_bit_eq by (simp only: drop_bit_eq_div)
  ultimately show ?thesis by (simp add: base_def)
qed

lemma unat_wide:
  assumes "unat (c :: u64) < base"
  shows "unat (ucast (s :: u32) * ucast (w :: u32) + ucast (d :: u32) + c :: u64) = unat s * unat w + unat d + unat c"
proof -
  have le: "unat s \<le> base - 1" "unat w \<le> base - 1" "unat d \<le> base - 1" "unat c \<le> base - 1"
    using unat_limb [of s] unat_limb [of w] unat_limb [of d] assms by simp_all
  have "unat s * unat w \<le> (base - 1) * (base - 1)" using le by (intro mult_le_mono)
  moreover have "(base - 1) * (base - 1) + (base - 1) + (base - 1) < 2 ^ 64" by (simp add: base_def)
  ultimately have fit: "unat s * unat w + unat d + unat c < 2 ^ 64" using le by linarith
  have "unat (ucast s * ucast w :: u64) = unat s * unat w"
    using fit by (simp add: unat_word_ariths)
  then show ?thesis using fit by (simp add: unat_word_ariths)
qed

lemma carry_bound:
  assumes "unat w < base * base"
  shows "unat (drop_bit 32 (w :: u64)) < base"
proof -
  have "base * unat (drop_bit 32 w) \<le> unat w" using low32_split [of w] by linarith
  then have "base * unat (drop_bit 32 w) < base * base" using assms by linarith
  then show ?thesis by simp
qed

lemma drop_bit_carry: "unat (drop_bit 32 (w :: u64)) < base"
  by (rule carry_bound) (use unsigned_less [of w] in \<open>simp add: base_def\<close>)

section \<open>The invariant of a run\<close>

text \<open>\<open>exact\<close> is the number the completed run leaves in the destination.\<close>

definition row_tail :: "u32 list \<Rightarrow> u32 list \<Rightarrow> nat \<Rightarrow> nat" where
  "row_tail src ws i = base ^ i * (limbs_value (drop i src) * limbs_value ws)"

definition phase_exact :: "u32 list \<Rightarrow> u32 list \<Rightarrow> u32 list \<Rightarrow> limb_cursor \<Rightarrow> nat \<Rightarrow> bool" where
  "phase_exact src ws dst c exact \<longleftrightarrow>
    (case kind c of
       ZeroFill \<Rightarrow> src_pos c = 0 \<and> factor_pos c = 0 \<and> carry c = 0 \<and> dst_pos c = length dst
         \<and> limbs_value dst + row_tail src ws 0 = exact
     | AddMultiplyCell \<Rightarrow> src_pos c < length src \<and> src_pos c + factor_pos c \<le> length dst
         \<and> limbs_value dst + unat (carry c) * base ^ (src_pos c + factor_pos c)
           + base ^ (src_pos c + factor_pos c) * (unat (src ! src_pos c) * limbs_value (drop (factor_pos c) ws))
           + row_tail src ws (Suc (src_pos c)) = exact
     | AddMultiplyDrain \<Rightarrow>
         if src_pos c < length src
         then dst_pos c \<le> length dst \<and> src_pos c + length ws \<le> dst_pos c
           \<and> limbs_value dst + unat (carry c) * base ^ dst_pos c + row_tail src ws (Suc (src_pos c)) = exact
         else carry c = 0 \<and> limbs_value dst = exact)"

definition cursor_inv :: "u32 list \<Rightarrow> u32 list \<Rightarrow> nat \<Rightarrow> u32 list \<Rightarrow> limb_cursor \<Rightarrow> nat \<Rightarrow> bool" where
  "cursor_inv src ws bound dst c exact \<longleftrightarrow> version c = LIMB_CURSOR_VERSION \<and> cursor_limit c = bound
     \<and> fill_to c \<le> bound \<and> length dst \<le> bound \<and> src_pos c \<le> length src \<and> factor_pos c \<le> length ws
     \<and> dst_pos c \<le> bound \<and> unat (carry c) < base \<and> phase_exact src ws dst c exact"

text \<open>An upper bound on the cells a run still mutates.\<close>

definition cells_left :: "u32 list \<Rightarrow> u32 list \<Rightarrow> limb_cursor \<Rightarrow> nat" where
  "cells_left src ws c =
    (let row = length ws + cursor_limit c; later = length src - Suc (src_pos c)
     in case kind c of
          ZeroFill \<Rightarrow> (fill_to c - dst_pos c) + length src * row
        | AddMultiplyCell \<Rightarrow> (length ws - factor_pos c) + cursor_limit c + later * row
        | AddMultiplyDrain \<Rightarrow> if src_pos c < length src then (cursor_limit c - dst_pos c) + later * row else 0)"

lemma row_tail_step:
  "i < length src \<Longrightarrow>
   row_tail src ws i = base ^ i * (unat (src ! i) * limbs_value ws) + row_tail src ws (Suc i)"
  by (simp add: row_tail_def limbs_value_drop algebra_simps)

lemma row_tail_end [simp]: "length src \<le> i \<Longrightarrow> row_tail src ws i = 0"
  by (simp add: row_tail_def)

lemma grow_at_Some:
  assumes "grow_at i bound dst = Some dst'" "i \<le> length dst" "length dst \<le> bound"
  shows "i < length dst'" "length dst' \<le> bound" "limbs_value dst' = limbs_value dst" "length dst \<le> length dst'" "i < bound"
  using assms by (auto simp: grow_at_def split: if_splits)

lemma grow_at_None: "grow_at i bound dst = None \<longleftrightarrow> length dst \<le> i \<and> bound \<le> i"
  by (auto simp: grow_at_def)

text \<open>Writing a 64-bit sum at a position leaves its low half there and carries the high half.\<close>

lemma write_wide:
  assumes "i < length dst"
  shows "limbs_value (dst[i := low32 wide]) + unat (drop_bit 32 wide) * base ^ Suc i + unat (dst ! i) * base ^ i
    = limbs_value dst + unat wide * base ^ i"
proof -
  have "unat wide * base ^ i = unat (low32 wide) * base ^ i + unat (drop_bit 32 wide) * base ^ Suc i"
    unfolding low32_split [of wide, symmetric] by (simp add: algebra_simps)
  then show ?thesis using limbs_value_update [OF assms, of "low32 wide"] by linarith
qed

definition out_of_room :: "u32 list \<Rightarrow> u32 list \<Rightarrow> nat \<Rightarrow> nat \<Rightarrow> bool" where
  "out_of_room src ws bound exact \<longleftrightarrow> bound < length src + length ws \<or> base ^ bound \<le> exact"

definition pass_ok :: "u32 list \<Rightarrow> u32 list \<Rightarrow> nat \<Rightarrow> limb_cursor \<Rightarrow> nat \<Rightarrow> cell_pass \<Rightarrow> bool" where
  "pass_ok src ws bound c exact p \<longleftrightarrow>
    (case p of
       Moved dst' c' \<Rightarrow> cursor_inv src ws bound dst' c' exact \<and> cells_left src ws c' \<le> cells_left src ws c
     | Mutated dst' c' \<Rightarrow> cursor_inv src ws bound dst' c' exact \<and> cells_left src ws c' < cells_left src ws c
     | Committed dst' c' \<Rightarrow> cursor_inv src ws bound dst' c' exact \<and> add_multiply_committed c' (length src)
         \<and> limbs_value dst' = exact
     | OutOfRoom dst' c' \<Rightarrow> out_of_room src ws bound exact
     | OutOfBounds \<Rightarrow> False)"

lemma zero_fill_pass_ok:
  assumes "cursor_inv src ws bound dst c exact" "kind c = ZeroFill" "src \<noteq> []" "ws \<noteq> []"
  shows "pass_ok src ws bound c exact (zero_fill_pass dst c)"
proof -
  have e: "row_tail src ws 0 = base ^ 0 * (unat (src ! 0) * limbs_value ws) + row_tail src ws (Suc 0)"
    using assms(3) by (intro row_tail_step) simp
  obtain x xs where src: "src = x # xs" using assms(3) by (cases src) auto
  show ?thesis
    using assms e
    by (auto simp: pass_ok_def zero_fill_pass_def cursor_inv_def phase_exact_def cells_left_def Let_def src)
qed

lemma multiply_pass_ok:
  assumes inv: "cursor_inv src ws bound dst c exact" and k: "kind c = AddMultiplyCell"
    and ws: "ws = take flen words" "flen \<le> length words" "ws \<noteq> []"
  shows "pass_ok src ws bound c exact (multiply_pass src words flen dst c)"
proof -
  let ?i = "src_pos c" and ?j = "factor_pos c"
  have flen: "flen = length ws" using ws by simp
  have i: "?i < length src" "?i + ?j \<le> length dst" "?j \<le> flen" "length dst \<le> bound" "cursor_limit c = bound"
    "unat (carry c) < base"
    and ex: "limbs_value dst + unat (carry c) * base ^ (?i + ?j)
           + base ^ (?i + ?j) * (unat (src ! ?i) * limbs_value (drop ?j ws)) + row_tail src ws (Suc ?i) = exact"
    using inv k flen by (simp_all add: cursor_inv_def phase_exact_def)
  show ?thesis
  proof (cases "flen \<le> ?j")
    case True
    then have j: "?j = length ws" using i(3) flen by simp
    show ?thesis using True inv k i ex j flen
      by (auto simp: pass_ok_def multiply_pass_def cursor_inv_def phase_exact_def cells_left_def Let_def)
  next
    case False
    show ?thesis
    proof (cases "grow_at (?i + ?j) bound dst")
      case None
      then have "bound \<le> ?i + ?j" by (simp add: grow_at_None)
      then have "bound < length src + length ws" using i(1) False flen by simp
      then show ?thesis using False None i(5) by (simp add: pass_ok_def multiply_pass_def out_of_room_def)
    next
      case (Some dst1)
      note g = grow_at_Some [OF Some i(2,4)]
      have w: "words ! ?j = ws ! ?j" using False by (simp add: ws(1))
      have j: "?j < length ws" "?j < length words" using False flen ws(2) by simp_all
      define wide :: u64 where "wide = ucast (src ! ?i) * ucast (words ! ?j) + ucast (dst1 ! (?i + ?j)) + carry c"
      have uw: "unat wide = unat (src ! ?i) * unat (ws ! ?j) + unat (dst1 ! (?i + ?j)) + unat (carry c)"
        unfolding wide_def w by (rule unat_wide [OF i(6)])
      have p: "multiply_pass src words flen dst c = Mutated (dst1[?i + ?j := low32 wide])
          (c\<lparr>carry := drop_bit 32 wide, factor_pos := ?j + 1\<rparr>)"
        using False Some i(1,5) g(1) j(2) by (simp add: multiply_pass_def wide_def Let_def)
      have "limbs_value (dst1[?i + ?j := low32 wide]) + unat (drop_bit 32 wide) * base ^ Suc (?i + ?j)
          = limbs_value dst + (unat (src ! ?i) * unat (ws ! ?j) + unat (carry c)) * base ^ (?i + ?j)"
        using write_wide [OF g(1), of wide] g(3) uw by (simp add: algebra_simps)
      moreover have "limbs_value (drop ?j ws) = unat (ws ! ?j) + base * limbs_value (drop (Suc ?j) ws)"
        using j(1) by (rule limbs_value_drop)
      ultimately have "limbs_value (dst1[?i + ?j := low32 wide]) + unat (drop_bit 32 wide) * base ^ Suc (?i + ?j)
          + base ^ Suc (?i + ?j) * (unat (src ! ?i) * limbs_value (drop (Suc ?j) ws)) + row_tail src ws (Suc ?i) = exact"
        using ex by (simp add: algebra_simps)
      then have "cursor_inv src ws bound (dst1[?i + ?j := low32 wide])
          (c\<lparr>carry := drop_bit 32 wide, factor_pos := ?j + 1\<rparr>) exact"
        using inv k i g j(1) flen drop_bit_carry [of wide] by (simp add: cursor_inv_def phase_exact_def)
      moreover have "cells_left src ws (c\<lparr>carry := drop_bit 32 wide, factor_pos := ?j + 1\<rparr>) < cells_left src ws c"
        using k j(1) by (simp add: cells_left_def Let_def)
      ultimately show ?thesis by (simp add: p pass_ok_def)
    qed
  qed
qed

lemma drain_pass_ok:
  assumes inv: "cursor_inv src ws bound dst c exact" and k: "kind c = AddMultiplyDrain" and ws: "ws \<noteq> []"
  shows "pass_ok src ws bound c exact (drain_pass src dst c)"
proof (cases "src_pos c < length src")
  case False
  then show ?thesis using inv k
    by (auto simp: pass_ok_def drain_pass_def cursor_inv_def phase_exact_def add_multiply_committed_def)
next
  case True
  let ?i = "src_pos c" and ?d = "dst_pos c"
  have i: "?d \<le> length dst" "?i + length ws \<le> ?d" "length dst \<le> bound" "cursor_limit c = bound" "unat (carry c) < base"
    and ex: "limbs_value dst + unat (carry c) * base ^ ?d + row_tail src ws (Suc ?i) = exact"
    using inv k True by (simp_all add: cursor_inv_def phase_exact_def)
  show ?thesis
  proof (cases "carry c = 0")
    case zero: True
    show ?thesis
    proof (cases "Suc ?i < length src")
      case True
      have "0 < length ws" using ws by simp
      then have "Suc ?i \<le> length dst" using i(1,2) by linarith
      moreover have "length src - Suc ?i = Suc (length src - Suc (Suc ?i))" using True by simp
      ultimately show ?thesis using inv k True zero ex row_tail_step [OF True, of ws]
        by (auto simp: pass_ok_def drain_pass_def cursor_inv_def phase_exact_def cells_left_def Let_def)
    next
      case False
      then show ?thesis using inv k True zero ex
        by (auto simp: pass_ok_def drain_pass_def cursor_inv_def phase_exact_def add_multiply_committed_def Let_def)
    qed
  next
    case False
    show ?thesis
    proof (cases "grow_at ?d bound dst")
      case None
      then have "bound \<le> ?d" by (simp add: grow_at_None)
      then have "base ^ bound \<le> base ^ ?d" by (intro power_increasing) (simp_all add: base_def)
      also have "\<dots> \<le> unat (carry c) * base ^ ?d" using False by (simp add: Suc_le_eq unat_gt_0)
      also have "\<dots> \<le> exact" using ex by linarith
      finally show ?thesis using None False True i(4) by (simp add: pass_ok_def drain_pass_def out_of_room_def)
    next
      case (Some dst1)
      note g = grow_at_Some [OF Some i(1,3)]
      define wide :: u64 where "wide = ucast (dst1 ! ?d) + carry c"
      have uw: "unat wide = unat (dst1 ! ?d) + unat (carry c)"
        using unat_wide [OF i(5), of 0 0 "dst1 ! ?d"] by (simp add: wide_def)
      have p: "drain_pass src dst c = Mutated (dst1[?d := low32 wide]) (c\<lparr>carry := drop_bit 32 wide, dst_pos := ?d + 1\<rparr>)"
        using False True Some i(4) g(1) by (simp add: drain_pass_def wide_def Let_def)
      have "limbs_value (dst1[?d := low32 wide]) + unat (drop_bit 32 wide) * base ^ Suc ?d + row_tail src ws (Suc ?i) = exact"
        using write_wide [OF g(1), of wide] g(3) uw ex by (simp add: algebra_simps)
      then have "cursor_inv src ws bound (dst1[?d := low32 wide]) (c\<lparr>carry := drop_bit 32 wide, dst_pos := ?d + 1\<rparr>) exact"
        using inv k True i g drop_bit_carry [of wide] by (simp add: cursor_inv_def phase_exact_def)
      moreover have "cells_left src ws (c\<lparr>carry := drop_bit 32 wide, dst_pos := ?d + 1\<rparr>) < cells_left src ws c"
        using k True g(5) i(4) by (simp add: cells_left_def Let_def)
      ultimately show ?thesis by (simp add: p pass_ok_def)
    qed
  qed
qed

section \<open>The loop\<close>

lemma pass_ok_step:
  assumes "cursor_inv src ws bound dst c exact" "src \<noteq> []" "ws \<noteq> []" "ws = take flen words" "flen \<le> length words"
  shows "pass_ok src ws bound c exact (add_multiply_pass src words flen dst c)"
  using zero_fill_pass_ok [OF assms(1)] multiply_pass_ok [OF assms(1) _ assms(4,5,3)] drain_pass_ok [OF assms(1)] assms(2,3)
  by (cases "kind c") (simp_all add: add_multiply_pass_def)

definition loop_ok ::
  "u32 list \<Rightarrow> u32 list \<Rightarrow> nat \<Rightarrow> nat \<Rightarrow> nat \<Rightarrow> limb_cursor \<Rightarrow> nat
    \<Rightarrow> (unit, (step_outcome \<times> nat) \<times> u32 list \<times> limb_cursor) outcome \<Rightarrow> bool" where
  "loop_ok src ws bound budget used c exact r \<longleftrightarrow>
    (case r of
       Ok ((out, used'), dst', c') \<Rightarrow> used \<le> used' \<and> (used \<le> budget \<longrightarrow> used' \<le> budget)
         \<and> (case out of
              Advanced n \<Rightarrow> n = used' \<and> budget \<le> used' \<and> cursor_inv src ws bound dst' c' exact
                \<and> used' + cells_left src ws c' \<le> used + cells_left src ws c
            | Complete n \<Rightarrow> n = used' \<and> used' \<le> used + cells_left src ws c \<and> cursor_inv src ws bound dst' c' exact \<and> add_multiply_committed c' (length src)
                \<and> limbs_value dst' = exact
            | Refused \<Rightarrow> out_of_room src ws bound exact)
     | _ \<Rightarrow> False)"

lemma cell_loop_ok:
  assumes "src \<noteq> []" "ws \<noteq> []" "ws = take flen words" "flen \<le> length words"
  shows "cursor_inv src ws bound dst c exact \<Longrightarrow>
    loop_ok src ws bound budget used c exact (cell_loop src words flen budget used dst c)"
  using assms
proof (induction src words flen budget used dst c rule: cell_loop.induct)
  case (1 src words flen budget used dst c)
  note step = pass_ok_step [OF "1.prems"(1-5)]
  show ?case
  proof (cases "used < budget")
    case False
    then show ?thesis using "1.prems"(1) by (simp add: cell_loop.simps loop_ok_def)
  next
    case True
    show ?thesis
    proof (cases "add_multiply_pass src words flen dst c")
      case (Moved dst' c')
      have i: "cursor_inv src ws bound dst' c' exact" "cells_left src ws c' \<le> cells_left src ws c"
        using step Moved by (simp_all add: pass_ok_def)
      have "loop_ok src ws bound budget used c' exact (cell_loop src words flen budget used dst' c')"
        by (rule "1.IH"(1) [OF True Moved i(1) "1.prems"(2-5)])
      then show ?thesis using True Moved i(2)
        by (auto simp: cell_loop.simps [of src words flen budget used dst c] loop_ok_def
            split: outcome.splits step_outcome.splits)
    next
      case (Mutated dst' c')
      have i: "cursor_inv src ws bound dst' c' exact" "cells_left src ws c' < cells_left src ws c"
        using step Mutated by (simp_all add: pass_ok_def)
      have "loop_ok src ws bound budget (used + 1) c' exact (cell_loop src words flen budget (used + 1) dst' c')"
        by (rule "1.IH"(2) [OF True Mutated i(1) "1.prems"(2-5)])
      then show ?thesis using True Mutated i(2)
        by (auto simp: cell_loop.simps [of src words flen budget used dst c] loop_ok_def
            split: outcome.splits step_outcome.splits)
    next
      case (Committed dst' c')
      then show ?thesis using True step
        by (simp add: cell_loop.simps [of src words flen budget used dst c] loop_ok_def pass_ok_def)
    next
      case (OutOfRoom dst' c')
      then show ?thesis using True step
        by (simp add: cell_loop.simps [of src words flen budget used dst c] loop_ok_def pass_ok_def)
    next
      case OutOfBounds
      then show ?thesis using step by (simp add: pass_ok_def)
    qed
  qed
qed

section \<open>A fresh cursor\<close>

lemma cursor_inv_begin:
  assumes "length dst \<le> bound" "fill \<le> bound" "src \<noteq> []"
  shows "cursor_inv src ws bound dst (begin_add_multiply (length dst) fill bound)
     (limbs_value dst + limbs_value src * limbs_value ws)"
proof -
  have "row_tail src ws 0 = limbs_value src * limbs_value ws" by (simp add: row_tail_def)
  moreover have "row_tail src ws 0 = unat (src ! 0) * limbs_value ws + row_tail src ws (Suc 0)"
    using assms(3) row_tail_step [of 0 src ws] by simp
  ultimately show ?thesis using assms
    by (simp add: cursor_inv_def phase_exact_def begin_add_multiply_def)
qed

lemma cells_left_begin:
  "src \<noteq> [] \<Longrightarrow> cells_left src ws (begin_add_multiply dst_len fill bound) \<le> fill + length src * (length ws + bound)"
  by (cases src) (auto simp: cells_left_def begin_add_multiply_def Let_def)

lemma step_passes_guard:
  assumes "cursor_inv src ws bound dst c exact" "length ws = flen" "src \<noteq> []" "ws \<noteq> []"
  shows "step_add_multiply dst src words flen c budget = cell_loop src words flen budget 0 dst c"
proof -
  have "flen \<noteq> 0" using assms(2,4) by auto
  then show ?thesis using assms by (auto simp: step_add_multiply_def cursor_inv_def)
qed

section \<open>Exactness\<close>

text \<open>C29. A multiply-add whose growth bound covers the operands and the exact result always commits within
  its bound on cells, never panics or refuses, and leaves exactly destination plus source times
  factor; a committed cursor makes every further step a no-op.\<close>

theorem multiply_add_exact:
  assumes "length words = 4" "flen \<le> 4" "length dst \<le> bound" "fill \<le> bound" "length src + flen \<le> bound"
    and "limbs_value dst + limbs_value src * limbs_value (take flen words) < base ^ bound"
    and "fill + length src * (flen + bound) < budget"
  shows "\<exists>used dst' c. step_add_multiply dst src words flen (begin_add_multiply (length dst) fill bound) budget
        = Ok ((Complete used, used), dst', c)
      \<and> limbs_value dst' = limbs_value dst + limbs_value src * limbs_value (take flen words)
      \<and> length dst' \<le> bound \<and> used \<le> fill + length src * (flen + bound)
      \<and> (\<forall>more. 0 < more \<longrightarrow> step_add_multiply dst' src words flen c more = Ok ((Complete 0, 0), dst', c))"
proof (cases "src = [] \<or> flen = 0")
  case True
  then show ?thesis using assms(3-7)
    by (auto simp: step_add_multiply_def begin_add_multiply_def)
next
  case False
  let ?ws = "take flen words" and ?c = "begin_add_multiply (length dst) fill bound"
  let ?exact = "limbs_value dst + limbs_value src * limbs_value ?ws"
  have w: "src \<noteq> []" "?ws \<noteq> []" "length ?ws = flen" using False assms(1,2) by auto
  have inv: "cursor_inv src ?ws bound dst ?c ?exact" using assms(3,4) w(1) by (rule cursor_inv_begin)
  have ok: "loop_ok src ?ws bound budget 0 ?c ?exact (cell_loop src words flen budget 0 dst ?c)"
    by (rule cell_loop_ok [OF w(1,2) refl _ inv]) (use assms(1,2) in simp)
  have cells: "cells_left src ?ws ?c \<le> fill + length src * (flen + bound)"
    using cells_left_begin [OF w(1), of ?ws "length dst" fill bound] w(3) by simp
  have room: "\<not> out_of_room src ?ws bound ?exact" using assms(5,6) w(3) by (simp add: out_of_room_def)
  obtain out used dst' c where run: "cell_loop src words flen budget 0 dst ?c = Ok ((out, used), dst', c)"
    using ok by (auto simp: loop_ok_def split: outcome.splits)
  then have fin: "out = Complete used" "cursor_inv src ?ws bound dst' c ?exact" "add_multiply_committed c (length src)"
    "limbs_value dst' = ?exact" "used \<le> fill + length src * (flen + bound)"
    using ok room cells assms(7) by (auto simp: loop_ok_def split: step_outcome.splits)
  have "step_add_multiply dst src words flen ?c budget = Ok ((Complete used, used), dst', c)"
    using step_passes_guard [OF inv w(3,1,2)] run fin(1) by simp
  moreover have "step_add_multiply dst' src words flen c more = Ok ((Complete 0, 0), dst', c)" if "0 < more" for more
    using step_passes_guard [OF fin(2) w(3,1,2)] fin(3) that
    by (simp add: cell_loop.simps add_multiply_pass_def drain_pass_def add_multiply_committed_def)
  moreover have "length dst' \<le> bound" using fin(2) by (simp add: cursor_inv_def)
  ultimately show ?thesis using fin(4,5) by blast
qed

theorem multiply_add_exact_witness:
  "\<exists>used dst' c. step_add_multiply [0xfffffffe, 0xffffffff, 5] [2] [1, 0, 0, 0] 1
        (begin_add_multiply (length [0xfffffffe, 0xffffffff, 5 :: u32]) 3 3) 9
      = Ok ((Complete used, used), dst', c) \<and> limbs_value dst' = limbs_value [0, 0, 6]"
proof -
  have "limbs_value [0xfffffffe, 0xffffffff, 5] + limbs_value [2] * limbs_value (take 1 [1, 0, 0, 0])
      = limbs_value [0, 0, 6]" by (simp add: base_def)
  moreover have "limbs_value [0, 0, 6] < base ^ 3" by (simp add: base_def)
  ultimately show ?thesis
    using multiply_add_exact [of "[1, 0, 0, 0]" 1 "[0xfffffffe, 0xffffffff, 5]" 3 3 "[2]" 9] by fastforce
qed

section \<open>Slicing\<close>

fun add_cells :: "nat \<Rightarrow> step_outcome \<Rightarrow> step_outcome" where
  "add_cells n (Advanced k) = Advanced (n + k)"
| "add_cells n (Complete k) = Complete (n + k)"
| "add_cells n Refused = Refused"

text \<open>A run in slices: each budget resumes the cursor the last left; cells are counted over the run.\<close>

fun run_slices ::
  "u32 list \<Rightarrow> u32 list \<Rightarrow> nat \<Rightarrow> nat list \<Rightarrow> u32 list \<Rightarrow> limb_cursor
    \<Rightarrow> (unit, (step_outcome \<times> nat) \<times> u32 list \<times> limb_cursor) outcome" where
  "run_slices src words flen [] dst c = Ok ((Advanced 0, 0), dst, c)"
| "run_slices src words flen (b # bs) dst c =
    (case step_add_multiply dst src words flen c b of
       Ok ((Advanced n, used), dst, c) \<Rightarrow>
         (case run_slices src words flen bs dst c of
            Ok ((out, used'), dst, c) \<Rightarrow> Ok ((add_cells n out, used + used'), dst, c)
          | r \<Rightarrow> r)
     | r \<Rightarrow> r)"

lemma cell_loop_resume:
  "used \<le> a \<Longrightarrow> a \<le> b \<Longrightarrow> cell_loop src words flen b used dst c =
    (case cell_loop src words flen a used dst c of
       Ok ((Advanced n, used'), dst', c') \<Rightarrow> cell_loop src words flen b used' dst' c'
     | r \<Rightarrow> r)"
proof (induction src words flen a used dst c rule: cell_loop.induct)
  case (1 src words flen a used dst c)
  show ?case
  proof (cases "used < a")
    case False
    then show ?thesis by (simp add: cell_loop.simps [of _ _ _ a])
  next
    case True
    then have b: "used < b" using "1.prems" by simp
    show ?thesis
    proof (cases "add_multiply_pass src words flen dst c")
      case (Moved dst' c')
      then show ?thesis using "1.IH"(1) [OF True Moved "1.prems"] True b
        by (simp add: cell_loop.simps [of _ _ _ _ used dst])
    next
      case (Mutated dst' c')
      then show ?thesis using "1.IH"(2) [OF True Mutated] "1.prems" True b
        by (simp add: cell_loop.simps [of _ _ _ _ used dst])
    qed (use True b in \<open>simp_all add: cell_loop.simps [of _ _ _ _ used dst]\<close>)
  qed
qed

fun shift_used ::
  "nat \<Rightarrow> (unit, (step_outcome \<times> nat) \<times> 'b) outcome \<Rightarrow> (unit, (step_outcome \<times> nat) \<times> 'b) outcome" where
  "shift_used k (Ok ((out, used), r)) = Ok ((add_cells k out, k + used), r)"
| "shift_used k (Err e) = Err e"
| "shift_used k Panicked = Panicked"

lemma cell_loop_shift:
  "cell_loop src words flen (k + b) (k + used) dst c = shift_used k (cell_loop src words flen b used dst c)"
proof (induction src words flen b used dst c rule: cell_loop.induct)
  case (1 src words flen b used dst c)
  show ?case
  proof (cases "used < b")
    case False
    then show ?thesis by (simp add: cell_loop.simps)
  next
    case True
    then have k: "k + used < k + b" by simp
    show ?thesis
    proof (cases "add_multiply_pass src words flen dst c")
      case (Moved dst' c')
      then show ?thesis using "1.IH"(1) [OF True Moved] True k
        by (simp add: cell_loop.simps [of _ _ _ _ used dst] cell_loop.simps [of _ _ _ _ "k + used" dst])
    next
      case (Mutated dst' c')
      then show ?thesis using "1.IH"(2) [OF True Mutated] True k
        by (simp add: cell_loop.simps [of _ _ _ _ used dst] cell_loop.simps [of _ _ _ _ "k + used" dst])
    qed (use True k in \<open>simp_all add: cell_loop.simps [of _ _ _ _ used dst] cell_loop.simps [of _ _ _ _ "k + used" dst]\<close>)
  qed
qed

lemma run_slices_loop:
  assumes "src \<noteq> []" "ws \<noteq> []" "ws = take flen words" "flen \<le> length words"
  shows "cursor_inv src ws bound dst c exact \<Longrightarrow>
    run_slices src words flen bs dst c = cell_loop src words flen (sum_list bs) 0 dst c"
proof (induction bs arbitrary: dst c)
  case Nil
  then show ?case by (simp add: cell_loop.simps)
next
  case (Cons b bs)
  have w: "length ws = flen" using assms(3,4) by simp
  have ok: "loop_ok src ws bound b 0 c exact (cell_loop src words flen b 0 dst c)"
    by (rule cell_loop_ok [OF assms Cons.prems])
  note resume = cell_loop_resume [of 0 b "sum_list (b # bs)" src words flen dst c]
  obtain out n dst' c' where run: "cell_loop src words flen b 0 dst c = Ok ((out, n), dst', c')"
    using ok by (auto simp: loop_ok_def split: outcome.splits)
  have step: "step_add_multiply dst src words flen c b = Ok ((out, n), dst', c')"
    using step_passes_guard [OF Cons.prems w assms(1,2)] run by simp
  show ?case
  proof (cases out)
    case (Advanced k)
    then have k: "k = n" "n = b" "cursor_inv src ws bound dst' c' exact"
      using ok run by (simp_all add: loop_ok_def)
    have "cell_loop src words flen (b + sum_list bs) b dst' c'
        = shift_used b (cell_loop src words flen (sum_list bs) 0 dst' c')"
      using cell_loop_shift [of src words flen b "sum_list bs" 0 dst' c'] by simp
    moreover have "run_slices src words flen bs dst' c' = cell_loop src words flen (sum_list bs) 0 dst' c'"
      by (rule Cons.IH [OF k(3)])
    moreover obtain out2 m dst2 c2 where "cell_loop src words flen (sum_list bs) 0 dst' c' = Ok ((out2, m), dst2, c2)"
      using cell_loop_ok [OF assms k(3), of "sum_list bs" 0] by (auto simp: loop_ok_def split: outcome.splits)
    ultimately show ?thesis using step resume run Advanced k by simp
  next
    case (Complete k)
    then show ?thesis using step resume run by simp
  next
    case Refused
    then show ?thesis using step resume run by simp
  qed
qed

text \<open>Slicing is invisible: running a multiply-add in slices of any budgets leaves the destination, the
  cursor, the outcome and the number of cells of one run with the summed budget.\<close>

theorem slices_equal_one_run:
  assumes "length words = 4" "flen \<le> 4" "length dst \<le> bound" "fill \<le> bound" "bs \<noteq> []"
  shows "run_slices src words flen bs dst (begin_add_multiply (length dst) fill bound)
    = step_add_multiply dst src words flen (begin_add_multiply (length dst) fill bound) (sum_list bs)"
proof (cases "src = [] \<or> flen = 0")
  case True
  then show ?thesis using assms(3-5) by (cases bs) (auto simp: step_add_multiply_def begin_add_multiply_def)
next
  case False
  have w: "src \<noteq> []" "take flen words \<noteq> []" "flen \<le> length words" "length (take flen words) = flen"
    using False assms(1,2) by auto
  note inv = cursor_inv_begin [OF assms(3,4) w(1), of "take flen words"]
  show ?thesis
    unfolding run_slices_loop [OF w(1,2) refl w(3) inv] step_passes_guard [OF inv w(4,1,2)] ..
qed

theorem slices_equal_one_run_witness:
  "run_slices [2] [1, 0, 0, 0] 1 [1, 1, 2, 1] [0xfffffffe, 0xffffffff, 5]
      (begin_add_multiply (length [0xfffffffe, 0xffffffff, 5 :: u32]) 3 3)
    = step_add_multiply [0xfffffffe, 0xffffffff, 5] [2] [1, 0, 0, 0] 1
      (begin_add_multiply (length [0xfffffffe, 0xffffffff, 5 :: u32]) 3 3) (sum_list [1, 1, 2, 1])"
  by (rule slices_equal_one_run) simp_all

end
