(* ===== verification/Exact_Nat.thy ===== *)
theory Exact_Nat
  imports Limb_Exact
begin

text \<open>
  Exact natural numbers in limbs (\<open>ExactNat\<close> of \<open>crates/fs-rand/src/qmc.rs\<close>) and the integer kernel
  the candidate ranking sums. The monolithic multiply-add drives the limb microprogram without a
  budget of its own; its loop is a partial function, and the theorems show that it returns.
\<close>

section \<open>Numbers\<close>

record exact_nat =
  limbs :: "u32 list"

definition zero :: exact_nat where "zero = \<lparr>limbs = []\<rparr>"

definition one :: exact_nat where "one = \<lparr>limbs = [1]\<rparr>"

function strip_zeros :: "u32 list \<Rightarrow> u32 list" where
  "strip_zeros xs = (if xs \<noteq> [] \<and> last xs = 0 then strip_zeros (butlast xs) else xs)"
  by pat_completeness auto
termination by (relation "measure length") auto

declare strip_zeros.simps [simp del]

definition normalize :: "exact_nat \<Rightarrow> exact_nat" where
  "normalize self = self\<lparr>limbs := strip_zeros (limbs self)\<rparr>"

text \<open>\<open>Iterator::cmp\<close>.\<close>

fun lexicographic :: "u32 list \<Rightarrow> u32 list \<Rightarrow> limb_ordering" where
  "lexicographic [] [] = LimbEqual"
| "lexicographic [] (y # ys) = LimbLess"
| "lexicographic (x # xs) [] = LimbGreater"
| "lexicographic (x # xs) (y # ys) =
    (case compare_limbs x y of LimbEqual \<Rightarrow> lexicographic xs ys | other \<Rightarrow> other)"

definition magnitude_cmp :: "exact_nat \<Rightarrow> exact_nat \<Rightarrow> limb_ordering" where
  "magnitude_cmp self other =
    (case compare_limbs (length (limbs self)) (length (limbs other)) of
       LimbEqual \<Rightarrow> lexicographic (rev (limbs self)) (rev (limbs other))
     | ord \<Rightarrow> ord)"

section \<open>Sequencing\<close>

text \<open>Results of code that may not return: \<open>None\<close> is a run without end.\<close>

definition try_then ::
  "('e, 'a) outcome option \<Rightarrow> ('a \<Rightarrow> ('e, 'b) outcome option) \<Rightarrow> ('e, 'b) outcome option" where
  "try_then m k =
    (case m of
       None \<Rightarrow> None
     | Some (Ok a) \<Rightarrow> k a
     | Some (Err e) \<Rightarrow> Some (Err e)
     | Some Panicked \<Rightarrow> Some Panicked)"

lemma try_then_simps [simp]:
  "try_then (Some (Ok a)) k = k a" "try_then (Some (Err e)) k = Some (Err e)"
  "try_then (Some Panicked) k = Some Panicked" "try_then None k = None"
  by (simp_all add: try_then_def)

section \<open>Multiply-add\<close>

partial_function (option) drive_add_multiply ::
  "u32 list \<Rightarrow> u32 list \<Rightarrow> nat \<Rightarrow> u32 list \<Rightarrow> limb_cursor \<Rightarrow> ('e, u32 list) outcome option" where
  [code]: "drive_add_multiply src words flen dst cursor =
    (case step_add_multiply dst src words flen cursor u64_max of
       Ok ((out, used), dst, cursor) \<Rightarrow>
         (case out of
            Advanced n \<Rightarrow> drive_add_multiply src words flen dst cursor
          | Complete n \<Rightarrow> Some (Ok dst)
          | Refused \<Rightarrow> Some Panicked)
     | _ \<Rightarrow> Some Panicked)"

definition add_mul_slice_factor :: "exact_nat \<Rightarrow> u32 list \<Rightarrow> u128 \<Rightarrow> ('e, exact_nat) outcome option" where
  "add_mul_slice_factor self src factor =
    (if factor = 0 \<or> src = [] then Some (Ok self)
     else
       (let (factor_limbs, factor_len) = factor_limbs_u32 factor
        in case Option.bind (checked_add u64_max (length src) factor_len) (\<lambda>n. checked_add u64_max n 1) of
             None \<Rightarrow> Some Panicked
           | Some needed \<Rightarrow>
               try_then
                 (drive_add_multiply src factor_limbs factor_len (limbs self)
                   (begin_add_multiply (length (limbs self)) needed u64_max))
                 (\<lambda>dst. Some (Ok (self\<lparr>limbs := dst\<rparr>)))))"

definition add_mul_factor :: "exact_nat \<Rightarrow> exact_nat \<Rightarrow> u128 \<Rightarrow> ('e, exact_nat) outcome option" where
  "add_mul_factor self multiplicand factor = add_mul_slice_factor self (limbs multiplicand) factor"

definition mul_assign_factor :: "exact_nat \<Rightarrow> u128 \<Rightarrow> ('e, exact_nat) outcome option" where
  "mul_assign_factor self factor =
    (let multiplicand = \<lparr>limbs = limbs self\<rparr>; self = self\<lparr>limbs := []\<rparr>
     in try_then (add_mul_slice_factor self (limbs multiplicand) factor) (\<lambda>self. Some (Ok (normalize self))))"

function factor_limb_loop :: "u128 \<Rightarrow> nat \<Rightarrow> nat" where
  "factor_limb_loop factor n = (if factor \<noteq> 0 then factor_limb_loop (drop_bit 32 factor) (n + 1) else n)"
  by pat_completeness auto
termination
proof (relation "measure (\<lambda>(factor, n). unat factor)", goal_cases)
  case (2 factor n)
  then have "unat factor div 2 ^ 32 < unat factor" by (simp add: div_less_dividend unat_gt_0)
  then have "unat (drop_bit 32 factor) < unat factor" unfolding unat_drop_bit_eq by (simp only: drop_bit_eq_div)
  then show ?case by simp
qed simp

declare factor_limb_loop.simps [simp del]

definition factor_limb_count :: "u128 \<Rightarrow> nat" where
  "factor_limb_count factor = factor_limb_loop factor 0"

text \<open>The capacities of the two buffers are arguments, for they are the allocator's. A refusal carries
  the number of limbs it wants; the value of \<open>self\<close> and of the scratch buffer is returned either way.\<close>

definition mul_assign_factor_scratch ::
  "exact_nat \<Rightarrow> nat \<Rightarrow> u128 \<Rightarrow> nat \<Rightarrow> u32 list \<Rightarrow> nat
    \<Rightarrow> ((nat \<times> exact_nat \<times> u32 list, exact_nat \<times> u32 list) outcome) option" where
  "mul_assign_factor_scratch self self_capacity factor capacity_limbs scratch scratch_capacity =
    (if factor = 0 \<or> limbs self = [] then Some (Ok (self\<lparr>limbs := []\<rparr>, scratch))
     else if scratch_capacity < length (limbs self) then Some (Err (length (limbs self), self, scratch))
     else case Option.bind (checked_add u64_max (length (limbs self)) (factor_limb_count factor))
                 (\<lambda>n. checked_add u64_max n 1) of
            None \<Rightarrow> Some Panicked
          | Some required \<Rightarrow>
              if max capacity_limbs self_capacity < required then Some (Err (required, self, scratch))
              else
                (let scratch = limbs self; self = self\<lparr>limbs := []\<rparr>
                 in try_then (add_mul_slice_factor self scratch factor) (\<lambda>self. Some (Ok (normalize self, scratch)))))"

section \<open>Factors\<close>

lemma limbs_value_snoc: "limbs_value (xs @ [x]) = limbs_value xs + unat x * base ^ length xs"
  by (simp add: limbs_value_append)

lemma take_update_snoc: "n < length xs \<Longrightarrow> take (Suc n) (xs[n := x]) = take n xs @ [x]"
  by (simp add: take_Suc_conv_app_nth)

lemma low_limb: "unat (ucast (f AND 0xffffffff :: u128) :: u32) = unat f mod base"
proof -
  have "(0xffffffff :: u128) = mask 32" by (simp add: mask_eq_exp_minus_1)
  then have "f AND 0xffffffff = take_bit 32 f" by (simp add: take_bit_eq_mask)
  then have "unat (ucast (f AND 0xffffffff) :: u32) = take_bit 32 (take_bit 32 (unat f))"
    by (simp only: unsigned_ucast_eq unsigned_take_bit_eq) simp
  then show ?thesis by (simp add: take_bit_eq_mod base_def)
qed

lemma high_limbs: "unat (drop_bit 32 (f :: u128)) = unat f div base"
  unfolding unat_drop_bit_eq by (simp add: drop_bit_eq_div base_def)

declare factor_loop.simps [simp del]

lemma split_power: "(n :: nat) = r + b * q \<Longrightarrow> b ^ k * n = r * b ^ k + b ^ (k + 1) * q"
  by (simp add: algebra_simps)

lemma factor_loop_value:
  assumes "unat f < base ^ k" "length words = 4" "len + k \<le> 4"
  shows "case factor_loop f words len of (ws, n) \<Rightarrow> length ws = 4 \<and> len \<le> n \<and> n \<le> len + k
    \<and> limbs_value (take n ws) = limbs_value (take len words) + base ^ len * unat f \<and> (f \<noteq> 0 \<longrightarrow> len < n)"
  using assms
proof (induction k arbitrary: f words len)
  case 0
  then have "f = 0" by (simp add: unat_eq_zero)
  then show ?case using 0 by (simp add: factor_loop.simps)
next
  case (Suc k)
  show ?case
  proof (cases "f = 0")
    case True
    then show ?thesis using Suc.prems by (simp add: factor_loop.simps)
  next
    case False
    let ?w = "words[len := ucast (f AND 0xffffffff)]"
    have "unat (drop_bit 32 f) < base ^ k"
      using Suc.prems(1) by (simp add: high_limbs less_mult_imp_div_less mult.commute)
    then have "case factor_loop (drop_bit 32 f) ?w (len + 1) of (ws, n) \<Rightarrow> length ws = 4 \<and> len + 1 \<le> n
        \<and> n \<le> len + 1 + k \<and> limbs_value (take n ws) = limbs_value (take (len + 1) ?w) + base ^ (len + 1) * unat (drop_bit 32 f)
        \<and> (drop_bit 32 f \<noteq> 0 \<longrightarrow> len + 1 < n)"
      using Suc.prems by (intro Suc.IH) simp_all
    moreover have "limbs_value (take (len + 1) ?w) + base ^ (len + 1) * unat (drop_bit 32 f)
        = limbs_value (take len words) + base ^ len * unat f"
    proof -
      have "limbs_value (take (len + 1) ?w) = limbs_value (take len words) + (unat f mod base) * base ^ len"
        using Suc.prems by (simp add: take_update_snoc limbs_value_snoc low_limb)
      moreover have "base ^ len * unat f = (unat f mod base) * base ^ len + base ^ (len + 1) * (unat f div base)"
        by (rule split_power [OF mod_mult_div_eq [symmetric]])
      ultimately show ?thesis by (simp add: high_limbs)
    qed
    ultimately show ?thesis using False by (simp add: factor_loop.simps [of f] split: prod.splits)
  qed
qed

lemma factor_limbs_value:
  obtains ws n where "factor_limbs_u32 f = (ws, n)" "length ws = 4" "n \<le> 4" "limbs_value (take n ws) = unat f"
    "f \<noteq> 0 \<longrightarrow> 0 < n" "length (take n ws) = n"
proof -
  have "unat f < base ^ 4" using unsigned_less [of f] by (simp add: base_def)
  from factor_loop_value [OF this, of "replicate 4 0" 0] that show thesis
    by (auto simp: factor_limbs_u32_def split: prod.splits)
qed

section \<open>The driver\<close>

text \<open>Whatever the growth bound, a run touches only limbs the operands or the exact result need.\<close>

definition pass_within :: "nat \<Rightarrow> cell_pass \<Rightarrow> bool" where
  "pass_within B p \<longleftrightarrow>
    (case p of Moved dst c \<Rightarrow> length dst \<le> B \<and> fill_to c \<le> B
     | Mutated dst c \<Rightarrow> length dst \<le> B \<and> fill_to c \<le> B
     | Committed dst c \<Rightarrow> length dst \<le> B
     | _ \<Rightarrow> True)"

lemma grow_at_length: "grow_at i bound dst = Some dst' \<Longrightarrow> length dst \<le> B \<Longrightarrow> i < B \<Longrightarrow> i \<le> length dst \<Longrightarrow> length dst' \<le> B"
  by (auto simp: grow_at_def split: if_splits)

lemma drain_position:
  assumes inv: "cursor_inv src ws bound dst c exact" and k: "kind c = AddMultiplyDrain"
    and more: "src_pos c < length src" "carry c \<noteq> 0" and ex: "exact < base ^ B"
  shows "dst_pos c < B" "dst_pos c \<le> length dst"
proof -
  have e: "dst_pos c \<le> length dst" "limbs_value dst + unat (carry c) * base ^ dst_pos c + row_tail src ws (Suc (src_pos c)) = exact"
    using inv k more by (simp_all add: cursor_inv_def phase_exact_def)
  have "base ^ dst_pos c \<le> unat (carry c) * base ^ dst_pos c" using more by (simp add: Suc_le_eq unat_gt_0)
  also have "\<dots> < base ^ B" using e ex by linarith
  finally show "dst_pos c < B" by (rule power_less_imp_less_exp [rotated]) (simp add: base_def)
  show "dst_pos c \<le> length dst" by (rule e)
qed

lemma pass_stays_within:
  assumes inv: "cursor_inv src ws bound dst c exact"
    and B: "exact < base ^ B" "length src + flen \<le> B" "fill_to c \<le> B" "length dst \<le> B"
  shows "pass_within B (add_multiply_pass src words flen dst c)"
proof (cases "kind c")
  case ZeroFill
  then show ?thesis using inv B
    by (auto simp: pass_within_def add_multiply_pass_def zero_fill_pass_def cursor_inv_def phase_exact_def)
next
  case AddMultiplyCell
  then have i: "src_pos c < length src" "src_pos c + factor_pos c \<le> length dst"
    using inv by (simp_all add: cursor_inv_def phase_exact_def)
  show ?thesis
  proof (cases "flen \<le> factor_pos c")
    case True
    then show ?thesis using AddMultiplyCell B by (simp add: pass_within_def add_multiply_pass_def multiply_pass_def)
  next
    case False
    then have "src_pos c + factor_pos c < B" using i B by linarith
    then show ?thesis using False AddMultiplyCell B i grow_at_length
      by (auto simp: pass_within_def add_multiply_pass_def multiply_pass_def Let_def split: option.split)
  qed
next
  case AddMultiplyDrain
  show ?thesis
  proof (cases "length src \<le> src_pos c \<or> carry c = 0")
    case True
    then show ?thesis using AddMultiplyDrain B
      by (auto simp: pass_within_def add_multiply_pass_def drain_pass_def Let_def)
  next
    case False
    then have "dst_pos c < B" "dst_pos c \<le> length dst" using drain_position [OF inv AddMultiplyDrain _ _ B(1)] by simp_all
    then show ?thesis using False AddMultiplyDrain B grow_at_length
      by (auto simp: pass_within_def add_multiply_pass_def drain_pass_def Let_def split: option.split)
  qed
qed

lemma loop_stays_within:
  assumes "src \<noteq> []" "ws \<noteq> []" "ws = take flen words" "flen \<le> length words" "exact < base ^ B" "length src + flen \<le> B"
  shows "cursor_inv src ws bound dst c exact \<Longrightarrow> fill_to c \<le> B \<Longrightarrow> length dst \<le> B \<Longrightarrow>
    case cell_loop src words flen budget used dst c of
      Ok ((out, n), dst', c') \<Rightarrow> (out = Refused \<or> length dst' \<le> B \<and> fill_to c' \<le> B) | _ \<Rightarrow> True"
  using assms
proof (induction src words flen budget used dst c rule: cell_loop.induct)
  case (1 src words flen budget used dst c)
  note step = pass_ok_step [OF "1.prems"(1,4-7)]
  note within = pass_stays_within [OF "1.prems"(1,8,9,2,3), of words]
  note unfold = cell_loop.simps [of src words flen budget used dst c]
  show ?case
  proof (cases "used < budget")
    case False
    then show ?thesis using "1.prems"(2,3) by (simp add: unfold)
  next
    case True
    show ?thesis
    proof (cases "add_multiply_pass src words flen dst c")
      case (Moved dst' c')
      have i: "cursor_inv src ws bound dst' c' exact" "fill_to c' \<le> B" "length dst' \<le> B"
        using step within Moved by (simp_all add: pass_ok_def pass_within_def)
      show ?thesis using "1.IH"(1) [OF True Moved i "1.prems"(4-9)] by (simp add: unfold True Moved)
    next
      case (Mutated dst' c')
      have i: "cursor_inv src ws bound dst' c' exact" "fill_to c' \<le> B" "length dst' \<le> B"
        using step within Mutated by (simp_all add: pass_ok_def pass_within_def)
      show ?thesis using "1.IH"(2) [OF True Mutated i "1.prems"(4-9)] by (simp add: unfold True Mutated)
    next
      case (Committed dst' c')
      then show ?thesis using True within step "1.prems"(2)
        by (auto simp: unfold pass_within_def pass_ok_def add_multiply_pass_def zero_fill_pass_def multiply_pass_def drain_pass_def
            Let_def split: if_splits exact_op_kind.splits option.splits)
    qed (use True in \<open>simp_all add: unfold\<close>)
  qed
qed

lemma drive_exact:
  assumes w: "src \<noteq> []" "ws \<noteq> []" "ws = take flen words" "flen \<le> length words"
    and B: "exact < base ^ B" "length src + flen \<le> B" "B \<le> u64_max"
  shows "cursor_inv src ws u64_max dst c exact \<Longrightarrow> fill_to c \<le> B \<Longrightarrow> length dst \<le> B \<Longrightarrow>
    \<exists>dst'. drive_add_multiply src words flen dst c = Some (Ok dst') \<and> limbs_value dst' = exact \<and> length dst' \<le> B"
proof (induction "cells_left src ws c" arbitrary: dst c rule: less_induct)
  case less
  have len: "length ws = flen" using w by simp
  have "base ^ B \<le> base ^ u64_max" using B(3) by (intro power_increasing) (simp_all add: base_def)
  then have room: "\<not> out_of_room src ws u64_max exact" using B len by (simp add: out_of_room_def)
  note ok = cell_loop_ok [OF w less.prems(1), of u64_max 0]
  note within = loop_stays_within [OF w B(1,2) less.prems, of u64_max 0]
  have step: "step_add_multiply dst src words flen c u64_max = cell_loop src words flen u64_max 0 dst c"
    by (rule step_passes_guard [OF less.prems(1) len w(1,2)])
  have pos: "0 < u64_max" by (simp add: u64_max_def)
  obtain out n dst' c' where r: "cell_loop src words flen u64_max 0 dst c = Ok ((out, n), dst', c')"
    using ok by (auto simp: loop_ok_def split: outcome.splits)
  show ?case
  proof (cases out)
    case (Advanced k)
    then have "cursor_inv src ws u64_max dst' c' exact" "fill_to c' \<le> B" "length dst' \<le> B"
      and "cells_left src ws c' < cells_left src ws c"
      using ok within r pos by (simp_all add: loop_ok_def)
    from less.hyps [OF this(4,1-3)] show ?thesis
      by (simp add: drive_add_multiply.simps [of src words flen dst c] step r Advanced)
  next
    case (Complete k)
    then show ?thesis using ok within r
      by (simp add: drive_add_multiply.simps [of src words flen dst c] step loop_ok_def)
  next
    case Refused
    then show ?thesis using ok r room by (simp add: loop_ok_def)
  qed
qed

section \<open>Exact arithmetic\<close>

definition exact_value :: "exact_nat \<Rightarrow> nat" where
  "exact_value x = limbs_value (limbs x)"

lemma add_mul_slice_exact:
  assumes B: "length (limbs self) \<le> B" "length src + 5 \<le> B" "B \<le> u64_max"
    and exact: "exact_value self + limbs_value src * unat factor < base ^ B"
  shows "\<exists>r. add_mul_slice_factor self src factor = Some (Ok r)
    \<and> exact_value r = exact_value self + limbs_value src * unat factor \<and> length (limbs r) \<le> B"
proof (cases "factor = 0 \<or> src = []")
  case True
  then show ?thesis using assms by (auto simp: add_mul_slice_factor_def)
next
  case False
  obtain ws n where f: "factor_limbs_u32 factor = (ws, n)" "length ws = 4" "n \<le> 4" "limbs_value (take n ws) = unat factor"
    "factor \<noteq> 0 \<longrightarrow> 0 < n" "length (take n ws) = n" by (rule factor_limbs_value)
  have w: "src \<noteq> []" "take n ws \<noteq> []" "n \<le> length ws" using False f by auto
  have room: "length (limbs self) \<le> u64_max" "length src + n + 1 \<le> u64_max" "length src + n \<le> B" "length src + n + 1 \<le> B"
    using B f(3) by linarith+
  note inv = cursor_inv_begin [OF room(1,2) w(1), of "take n ws", unfolded f(4)]
  have "\<exists>dst'. drive_add_multiply src ws n (limbs self) (begin_add_multiply (length (limbs self)) (length src + n + 1) u64_max)
        = Some (Ok dst') \<and> limbs_value dst' = limbs_value (limbs self) + limbs_value src * unat factor \<and> length dst' \<le> B"
    by (rule drive_exact [OF w(1,2) refl w(3) _ room(3) B(3) inv])
      (use exact B(1) room(4) in \<open>simp_all add: exact_value_def begin_add_multiply_def\<close>)
  then obtain dst' where d: "drive_add_multiply src ws n (limbs self)
       (begin_add_multiply (length (limbs self)) (length src + n + 1) u64_max) = Some (Ok dst' :: ('a, _) outcome)"
    "limbs_value dst' = limbs_value (limbs self) + limbs_value src * unat factor" "length dst' \<le> B" by blast
  have "Option.bind (checked_add u64_max (length src) n) (\<lambda>n. checked_add u64_max n 1) = Some (length src + n + 1)"
    using room(2) by (simp add: checked_add_def)
  then show ?thesis using False f(1) d by (simp add: add_mul_slice_factor_def exact_value_def)
qed

subsection \<open>Normalisation and comparison\<close>

definition normalized :: "exact_nat \<Rightarrow> bool" where
  "normalized x \<longleftrightarrow> limbs x = [] \<or> last (limbs x) \<noteq> 0"

lemma strip_zeros_value: "limbs_value (strip_zeros xs) = limbs_value xs"
proof (induction xs rule: strip_zeros.induct)
  case (1 xs)
  show ?case
  proof (cases "xs \<noteq> [] \<and> last xs = 0")
    case True
    then have "xs = butlast xs @ [0]" using append_butlast_last_id [of xs] by simp
    then have "limbs_value xs = limbs_value (butlast xs)" by (metis limbs_value_zero)
    then show ?thesis using 1 [OF True] True by (simp add: strip_zeros.simps [of xs])
  next
    case False
    then have "strip_zeros xs = xs" by (auto simp: strip_zeros.simps [of xs])
    then show ?thesis by simp
  qed
qed

lemma strip_zeros_last: "strip_zeros xs = [] \<or> last (strip_zeros xs) \<noteq> 0"
  by (induction xs rule: strip_zeros.induct) (subst (1 2) strip_zeros.simps, auto)

lemma normalize_value [simp]: "exact_value (normalize x) = exact_value x"
  by (simp add: normalize_def exact_value_def strip_zeros_value)

lemma normalized_normalize [simp]: "normalized (normalize x)"
  using strip_zeros_last by (simp add: normalized_def normalize_def)

lemma last_limb: "xs \<noteq> [] \<Longrightarrow> limbs_value xs = limbs_value (butlast xs) + unat (last xs) * base ^ (length xs - 1)"
  by (metis append_butlast_last_id length_butlast limbs_value_snoc)

lemma normalized_lower:
  assumes "normalized x" "limbs x \<noteq> []"
  shows "base ^ (length (limbs x) - 1) \<le> exact_value x"
proof -
  have "1 \<le> unat (last (limbs x))" using assms by (simp add: normalized_def Suc_le_eq unat_gt_0)
  then have "base ^ (length (limbs x) - 1) \<le> unat (last (limbs x)) * base ^ (length (limbs x) - 1)" by simp
  then show ?thesis unfolding exact_value_def last_limb [OF assms(2)] by (rule trans_le_add2)
qed

lemma exact_value_less: "exact_value x < base ^ length (limbs x)"
  by (simp add: exact_value_def limbs_value_less)

lemma power_less_cancel: "base ^ i < base ^ j \<Longrightarrow> i < j"
  by (rule power_less_imp_less_exp [of base]) (simp_all add: base_def)

lemma normalized_length:
  assumes "normalized x" "exact_value x < base ^ k"
  shows "length (limbs x) \<le> k"
proof (cases "limbs x = []")
  case False
  then have "base ^ (length (limbs x) - 1) < base ^ k" using normalized_lower assms by (meson le_less_trans)
  then have "length (limbs x) - 1 < k" by (rule power_less_cancel)
  then show ?thesis by linarith
qed simp

lemma lexicographic_snoc_rev:
  assumes "length xs = length ys"
  shows "lexicographic (rev xs) (rev ys) = compare_limbs (limbs_value xs) (limbs_value ys)"
  using assms
proof (induction xs ys rule: rev_induct2)
  case (4 x xs y ys)
  then have len: "length xs = length ys" by simp
  have lt: "limbs_value xs < base ^ length ys" "limbs_value ys < base ^ length ys"
    using limbs_value_less [of xs] limbs_value_less [of ys] len by simp_all
  have less: "limbs_value us + unat u * base ^ k < limbs_value vs + unat v * base ^ k"
    if "limbs_value us < base ^ k" "u < v" for us vs :: "u32 list" and u v :: u32 and k
  proof -
    have "Suc (unat u) \<le> unat v" using that by (simp add: word_less_nat_alt)
    then have "Suc (unat u) * base ^ k \<le> unat v * base ^ k" by (rule mult_le_mono1)
    then show ?thesis using that(1) by simp
  qed
  show ?case using 4 less [OF lt(1), of x y ys] less [OF lt(2), of y x xs] len
    by (auto simp: limbs_value_snoc compare_limbs_def)
qed (simp_all add: compare_limbs_def)

lemma compare_limbs_flip [simp]:
  "compare_limbs a b = LimbEqual \<longleftrightarrow> a = b" "compare_limbs a b = LimbLess \<longleftrightarrow> a < b"
  "compare_limbs a b = LimbGreater \<longleftrightarrow> b < a"
  by (auto simp: compare_limbs_def)

lemma compare_limbs_refl [simp]: "compare_limbs a a = LimbEqual"
  by simp

lemma shorter_is_less:
  assumes "normalized y" "length (limbs x) < length (limbs y)"
  shows "exact_value x < exact_value y"
proof -
  have "exact_value x < base ^ length (limbs x)" by (rule exact_value_less)
  also have "\<dots> \<le> base ^ (length (limbs y) - 1)" using assms(2) by (intro power_increasing) (simp_all add: base_def)
  also have "\<dots> \<le> exact_value y" using assms by (intro normalized_lower) auto
  finally show ?thesis .
qed

lemma magnitude_cmp_exact:
  assumes "normalized x" "normalized y"
  shows "magnitude_cmp x y = compare_limbs (exact_value x) (exact_value y)"
proof (cases "length (limbs x)" "length (limbs y)" rule: linorder_cases)
  case less
  then show ?thesis using shorter_is_less [OF assms(2)] by (simp add: magnitude_cmp_def compare_limbs_def)
next
  case equal
  then show ?thesis by (simp add: magnitude_cmp_def exact_value_def lexicographic_snoc_rev)
next
  case greater
  then show ?thesis using shorter_is_less [OF assms(1), of y] by (simp add: magnitude_cmp_def compare_limbs_def)
qed

lemma lexicographic_equal: "length xs = length ys \<Longrightarrow> lexicographic xs ys = LimbEqual \<Longrightarrow> xs = ys"
  by (induction xs ys rule: lexicographic.induct) (simp_all split: limb_ordering.splits)

lemma normalized_unique:
  assumes "normalized x" "normalized y" "exact_value x = exact_value y"
  shows "limbs x = limbs y"
proof -
  have "magnitude_cmp x y = LimbEqual" using magnitude_cmp_exact [OF assms(1,2)] assms(3) by simp
  moreover from this have "length (limbs x) = length (limbs y)"
    by (auto simp: magnitude_cmp_def split: limb_ordering.splits)
  ultimately have "rev (limbs x) = rev (limbs y)" by (intro lexicographic_equal) (simp_all add: magnitude_cmp_def)
  then show ?thesis by simp
qed

subsection \<open>Multiplication\<close>

lemma mul_value_bound:
  assumes "length src + 4 < B"
  shows "limbs_value src * unat (factor :: u128) < base ^ B"
proof -
  have "unat factor < base ^ 4" using unsigned_less [of factor] by (simp add: base_def)
  then have "limbs_value src * unat factor < base ^ length src * base ^ 4"
    using limbs_value_less [of src] by (intro mult_strict_mono) simp_all
  also have "\<dots> = base ^ (length src + 4)" by (simp add: power_add)
  also have "\<dots> \<le> base ^ B" using assms by (intro power_increasing) (simp_all add: base_def)
  finally show ?thesis .
qed

lemma fresh_product:
  assumes "length (limbs self) + 5 \<le> u64_max"
  obtains r where "add_mul_slice_factor (self\<lparr>limbs := []\<rparr>) (limbs self) factor = Some (Ok r :: ('e, exact_nat) outcome)"
    "exact_value r = exact_value self * unat factor"
proof -
  have "limbs_value (limbs self) * unat factor < base ^ u64_max" using assms by (intro mul_value_bound) simp
  then have "\<exists>r. add_mul_slice_factor (self\<lparr>limbs := []\<rparr>) (limbs self) factor = Some (Ok r :: ('e, exact_nat) outcome)
     \<and> exact_value r = exact_value (self\<lparr>limbs := []\<rparr>) + limbs_value (limbs self) * unat factor \<and> length (limbs r) \<le> u64_max"
    using assms by (intro add_mul_slice_exact) (simp_all add: exact_value_def)
  then show thesis using that by (auto simp: exact_value_def)
qed

lemma mul_assign_exact:
  assumes "length (limbs self) + 5 \<le> u64_max"
  shows "\<exists>r. mul_assign_factor self factor = Some (Ok r :: ('e, exact_nat) outcome)
    \<and> exact_value r = exact_value self * unat factor \<and> normalized r"
proof -
  obtain r where "add_mul_slice_factor (self\<lparr>limbs := []\<rparr>) (limbs self) factor = Some (Ok r :: ('e, exact_nat) outcome)"
    "exact_value r = exact_value self * unat factor" using assms by (rule fresh_product)
  then show ?thesis by (simp add: mul_assign_factor_def Let_def)
qed

lemma factor_limb_count_loop:
  "factor_limb_loop f len = snd (factor_loop f words len)"
  by (induction f words len rule: factor_loop.induct) (subst factor_limb_loop.simps, subst factor_loop.simps, simp)

lemma factor_limb_count_snd: "factor_limb_count f = snd (factor_limbs_u32 f)"
  by (simp add: factor_limb_count_def factor_limbs_u32_def factor_limb_count_loop)

lemma mul_assign_scratch_exact:
  assumes "length (limbs self) + 5 \<le> u64_max"
  shows "let n = length (limbs self); required = n + factor_limb_count factor + 1;
      r = mul_assign_factor_scratch self self_capacity factor capacity_limbs scratch scratch_capacity
    in (if factor = 0 \<or> limbs self = [] then r = Some (Ok (\<lparr>limbs = []\<rparr>, scratch))
        else if scratch_capacity < n then r = Some (Err (n, self, scratch))
        else if max capacity_limbs self_capacity < required then r = Some (Err (required, self, scratch))
        else \<exists>product. r = Some (Ok (product, limbs self)) \<and> exact_value product = exact_value self * unat factor
          \<and> normalized product \<and> length (limbs product) < required)"
proof -
  obtain ws n where f: "factor_limbs_u32 factor = (ws, n)" "length ws = 4" "n \<le> 4" "limbs_value (take n ws) = unat factor"
    "factor \<noteq> 0 \<longrightarrow> 0 < n" "length (take n ws) = n" by (rule factor_limbs_value)
  have cnt: "factor_limb_count factor = n" using f(1) by (simp add: factor_limb_count_snd)
  have need: "Option.bind (checked_add u64_max (length (limbs self)) n) (\<lambda>n. checked_add u64_max n 1)
      = Some (length (limbs self) + n + 1)"
    using assms f(3) by (simp add: checked_add_def)
  obtain r where r: "add_mul_slice_factor (self\<lparr>limbs := []\<rparr>) (limbs self) factor
      = Some (Ok r :: (nat \<times> exact_nat \<times> u32 list, exact_nat) outcome)" "exact_value r = exact_value self * unat factor"
    using assms by (rule fresh_product)
  have "exact_value self * unat factor < base ^ (length (limbs self) + n)"
  proof -
    have "unat factor < base ^ n" using limbs_value_less [of "take n ws"] f(4,6) by simp
    then show ?thesis using exact_value_less [of self] by (simp add: power_add mult_strict_mono)
  qed
  then have len: "length (limbs (normalize r)) < length (limbs self) + n + 1"
    using r(2) normalized_length [of "normalize r" "length (limbs self) + n"] by simp
  show ?thesis
  proof (cases "factor = 0 \<or> limbs self = [] \<or> scratch_capacity < length (limbs self)
      \<or> max capacity_limbs self_capacity < length (limbs self) + n + 1")
    case True
    then show ?thesis unfolding mul_assign_factor_scratch_def cnt need Let_def by auto
  next
    case False
    then show ?thesis using r len unfolding mul_assign_factor_scratch_def cnt need Let_def by simp
  qed
qed

text \<open>Multiplication in place through the scratch buffer decides before it touches anything: it refuses exactly
  when the scratch buffer is too short, or the product's worst width exceeds both the schema's and the
  number's own capacity, naming the limbs wanted and leaving both buffers as they were; otherwise it
  returns, and the number is the exact product, normalised, within the width the check admitted.\<close>

theorem mul_assign_factor_scratch_exact:
  assumes "length (limbs self) + 5 \<le> u64_max"
  shows "let n = length (limbs self); required = n + factor_limb_count factor + 1;
      r = mul_assign_factor_scratch self self_capacity factor capacity_limbs scratch scratch_capacity
    in (if factor = 0 \<or> limbs self = [] then r = Some (Ok (\<lparr>limbs = []\<rparr>, scratch))
        else if scratch_capacity < n then r = Some (Err (n, self, scratch))
        else if max capacity_limbs self_capacity < required then r = Some (Err (required, self, scratch))
        else \<exists>product. r = Some (Ok (product, limbs self)) \<and> exact_value product = exact_value self * unat factor
          \<and> normalized product \<and> length (limbs product) < required)"
  using assms by (rule mul_assign_scratch_exact)

theorem mul_assign_factor_scratch_exact_witness:
  "\<exists>product. mul_assign_factor_scratch \<lparr>limbs = [0xffffffff, 1]\<rparr> 0 3 4 [9] 2 = Some (Ok (product, [0xffffffff, 1]))
    \<and> exact_value product = exact_value \<lparr>limbs = [0xffffffff, 1]\<rparr> * unat (3 :: u128) \<and> normalized product
    \<and> length (limbs product) < length [0xffffffff :: u32, 1] + 1 + 1"
proof -
  have c: "factor_limb_count 3 = 1" by (simp add: factor_limb_count_def factor_limb_loop.simps)
  have "length (limbs \<lparr>limbs = [0xffffffff, 1 :: u32]\<rparr>) + 5 \<le> u64_max" by (simp add: u64_max_def)
  from mul_assign_factor_scratch_exact [OF this, of 3 0 4 "[9]" 2] show ?thesis by (simp add: c Let_def)
qed

section \<open>Sliced comparison and normalisation\<close>

lemma decide_at:
  assumes "length a = length b" "i < length a" "drop (Suc i) a = drop (Suc i) b" "a ! i < b ! i"
  shows "limbs_value a < limbs_value b"
proof -
  have split: "limbs_value xs = limbs_value (take i xs) + base ^ i * unat (xs ! i) + base ^ Suc i * limbs_value (drop (Suc i) xs)"
    if "i < length xs" for xs :: "u32 list"
    using that arg_cong [OF id_take_nth_drop [OF that], of limbs_value] by (simp add: limbs_value_append algebra_simps)
  have "limbs_value (take i a) < base ^ i" using limbs_value_less [of "take i a"] assms(2) by simp
  moreover have "base ^ i * Suc (unat (a ! i)) \<le> base ^ i * unat (b ! i)"
    using assms(4) by (intro mult_le_mono2) (simp add: word_less_nat_alt)
  ultimately show ?thesis using split [of a] split [of b] assms(1-3) by simp
qed

lemma compare_loop_exact:
  assumes "length a = length b" "pos \<le> length a" "drop pos a = drop pos b"
  shows "case compare_loop a b pos budget of
      (Some decision, _) \<Rightarrow> decision = compare_limbs (limbs_value a) (limbs_value b)
    | (None, pos') \<Rightarrow> pos' + budget = pos \<and> drop pos' a = drop pos' b"
  using assms(2,3)
proof (induction pos arbitrary: budget)
  case 0
  then show ?case by (simp add: compare_loop.simps)
next
  case (Suc p)
  have p: "p < length a" "p < length b" using Suc.prems assms(1) by simp_all
  show ?case
  proof (cases "budget = 0")
    case True
    then show ?thesis using Suc.prems by (simp add: compare_loop.simps)
  next
    case False
    show ?thesis
    proof (cases "a ! p" "b ! p" rule: linorder_cases)
      case less
      then show ?thesis using False decide_at [OF assms(1) p(1) Suc.prems(2)]
        by (simp add: compare_loop.simps compare_limbs_def)
    next
      case equal
      then have "drop p a = drop p b" using Suc.prems(2) p by (simp flip: Cons_nth_drop_Suc)
      then show ?thesis using False equal p Suc.IH [of "budget - 1"]
        by (auto simp: compare_loop.simps [of a b "Suc p"] split: prod.splits option.splits)
    next
      case greater
      then show ?thesis using False decide_at [of b a p] assms(1) p Suc.prems(2)
        by (simp add: compare_loop.simps compare_limbs_def)
    qed
  qed
qed

text \<open>A comparison in slices agrees with the numbers: from any position above which the operands agree,
  a call with any budget either decides, and then as the values of the two normalised numbers compare
  and as the monolithic comparison does, or it uses its whole budget on equal limbs and leaves a
  position from which the same holds; a budget of the position always decides.\<close>

theorem step_compare_exact:
  assumes "normalized x" "normalized y"
    and "length (limbs x) = length (limbs y) \<longrightarrow> pos \<le> length (limbs x) \<and> drop pos (limbs x) = drop pos (limbs y)"
  shows "\<exists>decision pos'. step_compare (limbs x) (limbs y) pos budget = Ok (decision, pos')
    \<and> (case decision of
         Some order \<Rightarrow> order = compare_limbs (exact_value x) (exact_value y) \<and> order = magnitude_cmp x y
       | None \<Rightarrow> pos' + budget = pos \<and> drop pos' (limbs x) = drop pos' (limbs y))"
proof (cases "length (limbs x) = length (limbs y)")
  case False
  then have "step_compare (limbs x) (limbs y) pos budget = Ok (Some (compare_limbs (length (limbs x)) (length (limbs y))), pos)"
    and "compare_limbs (length (limbs x)) (length (limbs y)) = magnitude_cmp x y"
    by (auto simp: step_compare_def magnitude_cmp_def compare_limbs_def)
  then show ?thesis using magnitude_cmp_exact [OF assms(1,2)] by simp
next
  case True
  then have step: "step_compare (limbs x) (limbs y) pos budget = Ok (compare_loop (limbs x) (limbs y) pos budget)"
    using assms(3) by (simp add: step_compare_def)
  show ?thesis
    using compare_loop_exact [OF True, of pos budget] assms(3) True magnitude_cmp_exact [OF assms(1,2)]
    unfolding step by (auto simp: exact_value_def split: prod.splits option.splits)
qed

theorem step_compare_exact_witness:
  "\<exists>decision pos'. step_compare (limbs \<lparr>limbs = [5, 7, 9]\<rparr>) (limbs \<lparr>limbs = [6, 7, 9]\<rparr>) 3 1 = Ok (decision, pos')
    \<and> (case decision of
         Some order \<Rightarrow> order = compare_limbs (exact_value \<lparr>limbs = [5, 7, 9]\<rparr>) (exact_value \<lparr>limbs = [6, 7, 9]\<rparr>)
           \<and> order = magnitude_cmp \<lparr>limbs = [5, 7, 9]\<rparr> \<lparr>limbs = [6, 7, 9]\<rparr>
       | None \<Rightarrow> pos' + 1 = 3 \<and> drop pos' (limbs \<lparr>limbs = [5, 7, 9]\<rparr>) = drop pos' (limbs \<lparr>limbs = [6, 7, 9]\<rparr>))"
  by (rule step_compare_exact) (simp_all add: normalized_def)

lemma normalize_loop_value:
  "case normalize_loop dst budget popped of
     (n, dst') \<Rightarrow> limbs_value dst' = limbs_value dst \<and> popped \<le> n \<and> n + length dst' = popped + length dst
       \<and> (n < budget \<longrightarrow> dst' = [] \<or> last dst' \<noteq> 0)"
proof (induction dst budget popped rule: normalize_loop.induct)
  case (1 dst budget popped)
  show ?case
  proof (cases "popped < budget \<and> dst \<noteq> [] \<and> last dst = 0")
    case True
    then have "dst = butlast dst @ [0]" using append_butlast_last_id [of dst] by simp
    then have "limbs_value dst = limbs_value (butlast dst)" by (metis limbs_value_zero)
    then show ?thesis using 1 [OF True] True by (auto simp: normalize_loop.simps [of dst] split: prod.splits)
  next
    case False
    then have "normalize_loop dst budget popped = (popped, dst)" by (auto simp: normalize_loop.simps [of dst])
    then show ?thesis using False by auto
  qed
qed

end
