(* ===== verification/Cbc_Kernel.thy ===== *)
theory Cbc_Kernel
  imports Exact_Nat Complex_Main
begin

text \<open>
  The integer kernel of the lattice objective and the residues it is taken at
  (\<open>exact_kernel_numerator\<close>, \<open>lattice_residue\<close> and \<open>gcd\<close> of \<open>crates/fs-rand/src/qmc.rs\<close>).
\<close>

section \<open>The kernel\<close>

definition exact_kernel_numerator :: "u32 \<Rightarrow> u32 \<Rightarrow> ('e, u128) outcome" where
  "exact_kernel_numerator n residue =
    (let n = ucast n :: u128; residue = ucast residue :: u128;
         positive = 7 * n * n + 6 * residue * residue
     in if 6 * residue * n \<le> positive then Ok (positive - 6 * residue * n) else Panicked)"

text \<open>A product past 64 bits would panic in a checked build and a modulus of zero in any; a lattice index
  is below 32 bits.\<close>

definition lattice_residue :: "nat \<Rightarrow> u32 \<Rightarrow> u32 \<Rightarrow> ('e, u32) outcome" where
  "lattice_residue point generator n =
    (if u64_max < point then Panicked
     else
       case checked_mul u64_max point (unat generator) of
         None \<Rightarrow> Panicked
       | Some product \<Rightarrow>
           if n = 0 then Panicked
           else
             (let r = product mod unat n
              in if r \<le> u32_max then Ok (of_nat r) else Panicked))"

section \<open>The kernel\<close>

definition kernel :: "nat \<Rightarrow> nat \<Rightarrow> nat" where
  "kernel n r = 7 * n * n + 6 * r * r - 6 * r * n"

lemma kernel_ge: "6 * r * n \<le> 7 * n * n + 6 * r * (r :: nat)"
proof (cases "r \<le> n")
  case True
  then have "6 * r \<le> 7 * n" by linarith
  then have "6 * r * n \<le> 7 * n * n" by (rule mult_le_mono1)
  then show ?thesis by (rule trans_le_add1)
next
  case False
  then have "6 * r * n \<le> 6 * r * r" by (intro mult_le_mono) simp_all
  then show ?thesis by (rule trans_le_add2)
qed

lemma exact_kernel_value:
  "\<exists>k. exact_kernel_numerator n r = Ok k \<and> unat k = kernel (unat n) (unat r)"
proof -
  have le: "unat n \<le> 2 ^ 32 - 1" "unat r \<le> 2 ^ 32 - 1" using unat_limb [of n] unat_limb [of r] by (simp_all add: base_def)
  have sq: "unat n * unat n \<le> (2 ^ 32 - 1) * (2 ^ 32 - 1)" "unat r * unat r \<le> (2 ^ 32 - 1) * (2 ^ 32 - 1)"
    "unat r * unat n \<le> (2 ^ 32 - 1) * (2 ^ 32 - 1)"
    using le by (intro mult_le_mono; simp)+
  have u: "unat (ucast n :: u128) = unat n" "unat (ucast r :: u128) = unat r"
    using le by (simp_all add: unsigned_ucast_eq take_bit_nat_eq_self)
  have w: "unat (7 * ucast n * ucast n + 6 * ucast r * ucast r :: u128) = 7 * unat n * unat n + 6 * unat r * unat r"
    "unat (6 * ucast r * ucast n :: u128) = 6 * unat r * unat n"
  proof -
    have "6 * (unat r * unat n) \<le> 6 * ((2 ^ 32 - 1) * (2 ^ 32 - 1))" using sq(3) by (rule mult_le_mono2)
    also have "\<dots> < 2 ^ 128" by simp
    finally have fit: "6 * unat r * unat n < 2 ^ 128" by (simp only: mult.assoc)
    have "unat (6 * ucast r :: u128) = 6 * unat r" using le by (simp add: unat_word_ariths u)
    then show "unat (6 * ucast r * ucast n :: u128) = 6 * unat r * unat n"
      using fit iffD1 [OF unat_mult_lem, of "6 * ucast r :: u128" "ucast n"] by (simp add: u)
  qed (use sq le in \<open>simp add: unat_word_ariths u mult.assoc\<close>)
  then have "(6 * ucast r * ucast n :: u128) \<le> 7 * ucast n * ucast n + 6 * ucast r * ucast r"
    using kernel_ge by (simp add: word_le_nat_alt)
  moreover from this have "unat (7 * ucast n * ucast n + 6 * ucast r * ucast r - 6 * ucast r * ucast n :: u128) = kernel (unat n) (unat r)"
    by (simp add: unat_sub w kernel_def)
  ultimately show ?thesis by (simp add: exact_kernel_numerator_def Let_def)
qed



text \<open>The integer numerator is the Bernoulli kernel over its dropped denominator: \<open>1 + B\<^sub>2(r/n)\<close> times
  \<open>6 n\<^sup>2\<close>, for every pair of 32-bit integers, without overflow and with a subtraction that never fails;
  at a residue it is positive and at most \<open>7 n\<^sup>2\<close>, hence below 67 bits.\<close>

theorem exact_kernel_is_bernoulli:
  "n \<noteq> 0 \<Longrightarrow> \<exists>k. exact_kernel_numerator n r = (Ok k :: ('e, u128) outcome)
     \<and> real (unat k) = 6 * real (unat n) ^ 2
         * (1 + ((real (unat r) / real (unat n)) ^ 2 - real (unat r) / real (unat n) + 1 / 6))
     \<and> (r < n \<longrightarrow> 0 < unat k \<and> unat k \<le> 7 * unat n * unat n \<and> unat k < 2 ^ 67)"
proof -
  assume n: "n \<noteq> 0"
  obtain k where k: "exact_kernel_numerator n r = (Ok k :: ('e, u128) outcome)" "unat k = kernel (unat n) (unat r)"
    using exact_kernel_value by blast
  have "0 < unat n" using n by (simp add: unat_gt_0)
  then have pos: "0 < real (unat n)" by (simp only: of_nat_0_less_iff)
  have "real (kernel (unat n) (unat r)) = 7 * real (unat n) * real (unat n) + 6 * real (unat r) * real (unat r)
      - 6 * real (unat r) * real (unat n)"
    unfolding kernel_def of_nat_diff [OF kernel_ge] by simp
  also have "\<dots> = 6 * real (unat n) ^ 2
      * (1 + ((real (unat r) / real (unat n)) ^ 2 - real (unat r) / real (unat n) + 1 / 6))"
    using pos by (simp add: field_simps power2_eq_square)
  finally have e: "real (unat k) = \<dots>" by (simp add: k(2))
  have small: "0 < unat k \<and> unat k \<le> 7 * unat n * unat n \<and> unat k < 2 ^ 67" if r: "r < n"
  proof -
    have le: "unat r \<le> unat n" "unat r < unat n" using r by (simp_all add: word_less_nat_alt)
    have "6 * unat r * unat r \<le> 6 * unat r * unat n" using le by (intro mult_le_mono) simp_all
    then have up: "unat k \<le> 7 * unat n * unat n" unfolding k(2) kernel_def by linarith
    have "unat n \<le> 2 ^ 32 - 1" using unat_limb [of n] by (simp add: base_def)
    then have "unat n * unat n \<le> (2 ^ 32 - 1) * (2 ^ 32 - 1)" by (intro mult_le_mono)
    then have "7 * unat n * unat n < 2 ^ 67" by simp
    moreover have "6 * unat r * unat n \<le> 6 * unat n * unat n" "0 < unat n * unat n" using le by simp_all
    then have "6 * unat r * unat n < 7 * unat n * unat n" by linarith
    then have "0 < unat k" unfolding k(2) kernel_def by linarith
    ultimately show ?thesis using up by linarith
  qed
  show ?thesis using k(1) e small by blast
qed

theorem exact_kernel_is_bernoulli_witness:
  "\<exists>k. exact_kernel_numerator 8 3 = (Ok k :: (unit, u128) outcome) \<and> real (unat k) = 6 * 8 ^ 2 * (1 + ((3 / 8) ^ 2 - 3 / 8 + 1 / 6))"
  using exact_kernel_is_bernoulli [of 8 3] by auto

lemma lattice_residue_value:
  assumes "point < 2 ^ 32" "n \<noteq> 0"
  shows "\<exists>r. lattice_residue point generator n = Ok r \<and> unat r = point * unat generator mod unat n"
proof -
  have n: "0 < unat n" "unat n \<le> 2 ^ 32 - 1" "unat generator \<le> 2 ^ 32 - 1"
    using assms(2) unat_limb [of n] unat_limb [of generator] by (simp_all add: unat_gt_0 base_def)
  have "point * unat generator \<le> (2 ^ 32 - 1) * (2 ^ 32 - 1)" using assms(1) n by (intro mult_le_mono) simp_all
  then have fit: "point * unat generator \<le> u64_max" by (simp add: u64_max_def)
  have r: "point * unat generator mod unat n < unat n" using n by simp
  then have "point * unat generator mod unat n \<le> u32_max" using n(2) unfolding u32_max_def by linarith
  moreover have "unat (of_nat (point * unat generator mod unat n) :: u32) = point * unat generator mod unat n"
    using less_le_trans [OF r n(2)] by (simp add: unat_of_nat)
  ultimately show ?thesis using assms fit by (simp add: lattice_residue_def checked_mul_def u64_max_def)
qed

section \<open>Greatest common divisors\<close>

function gcd_u32 :: "u32 \<Rightarrow> u32 \<Rightarrow> u32" where
  "gcd_u32 a b = (if b = 0 then a else gcd_u32 b (a mod b))"
  by pat_completeness auto
termination
  by (relation "measure (\<lambda>(a, b). unat b)") (auto simp: unat_mod unat_gt_0)

declare gcd_u32.simps [simp del]

lemma gcd_u32_value: "unat (gcd_u32 a b) = gcd (unat a) (unat b)"
proof (induction a b rule: gcd_u32.induct)
  case (1 a b)
  show ?case
  proof (cases "b = 0")
    case True
    then show ?thesis by (simp add: gcd_u32.simps)
  next
    case False
    then show ?thesis using 1
      by (simp add: gcd_u32.simps [of a b] unat_mod gcd_red_nat [of "unat a" "unat b"])
  qed
qed

end
