(* ===== verification/Cbc_Certificate.thy ===== *)
theory Cbc_Certificate
  imports Cbc_Kernel
begin

text \<open>
  Certificates of exact lattice construction and their checker
  (\<open>crates/fs-rand/src/cbc_cert.rs\<close>): the record, its structural checks, the exact scores rebuilt from
  the declared prefix, the consistency check and the audit by exhaustion. An exact operation may fail
  to return in the model, so results are optional; the theorems show that they never do.
\<close>

section \<open>Certificates\<close>

definition TIE_RULE_LOWEST_CANDIDATE :: string where
  "TIE_RULE_LOWEST_CANDIDATE = ''lowest-candidate-wins''"

definition ADMISSIBLE_RULE_UNITS :: string where
  "ADMISSIBLE_RULE_UNITS = ''units-modulo-n''"

record cbc_prefix_certificate =
  point_count :: u32
  prefix :: "u32 list"
  winning_score_limbs :: "u32 list"
  tie_class :: "u32 list"
  runner_up :: "(u32 list \<times> u32) option"
  denominator_exponent :: u32
  tie_rule :: string
  admissible_rule :: string

datatype cbc_cert_error =
    AdmissionMismatch
  | AdmissionEnvelopeExceeded string nat nat
  | MalformedPrefix
  | InadmissiblePrefix
  | UnknownRule
  | DenominatorMismatch
  | NonCanonicalScoreLimbs string
  | MalformedTieClass
  | TieClassScoreMismatch u32
  | RunnerUpMismatch
  | NotMinimal u32
  | TieClassIncomplete

text \<open>\<open>chosen\<close> panics on an empty prefix; its caller has refused one.\<close>

definition chosen :: "cbc_prefix_certificate \<Rightarrow> (cbc_cert_error, u32) outcome" where
  "chosen self = (if prefix self = [] then Panicked else Ok (last (prefix self)))"

section \<open>Structural checks\<close>

definition inadmissible :: "u32 \<Rightarrow> u32 \<Rightarrow> bool" where
  "inadmissible n component \<longleftrightarrow> component = 0 \<or> n \<le> component \<or> gcd_u32 component n \<noteq> 1"

definition ends_in_zero :: "u32 list \<Rightarrow> bool" where
  "ends_in_zero xs \<longleftrightarrow> xs \<noteq> [] \<and> last xs = 0"

definition structural :: "cbc_prefix_certificate \<Rightarrow> (cbc_cert_error, u32 list) outcome" where
  "structural certificate =
    (let n = point_count certificate; components = prefix certificate
     in if n < 3 then Err InadmissiblePrefix
        else if length components < 2 then Err MalformedPrefix
        else if tie_rule certificate \<noteq> TIE_RULE_LOWEST_CANDIDATE \<or> admissible_rule certificate \<noteq> ADMISSIBLE_RULE_UNITS
        then Err UnknownRule
        else if u32_max < length components then Err MalformedPrefix
        else if denominator_exponent certificate \<noteq> of_nat (length components) then Err DenominatorMismatch
        else if ends_in_zero (winning_score_limbs certificate) then Err (NonCanonicalScoreLimbs ''winning score'')
        else if (case runner_up certificate of Some (words, _) \<Rightarrow> ends_in_zero words | None \<Rightarrow> False)
        then Err (NonCanonicalScoreLimbs ''runner-up score'')
        else if list_ex (inadmissible n) components then Err InadmissiblePrefix
        else
          (case chosen certificate of
             Ok winner \<Rightarrow>
               if tie_class certificate = [] \<or> hd (tie_class certificate) \<noteq> winner
                 \<or> \<not> successively (<) (tie_class certificate) \<or> list_ex (inadmissible n) (tie_class certificate)
               then Err MalformedTieClass
               else
                 (case runner_up certificate of
                    Some (_, runner) \<Rightarrow>
                      if inadmissible n runner then Err RunnerUpMismatch
                      else if runner \<in> set (tie_class certificate) then Err RunnerUpMismatch
                      else Ok (butlast components)
                  | None \<Rightarrow> Ok (butlast components))
           | _ \<Rightarrow> Panicked))"

section \<open>Scores rebuilt from the prefix\<close>

text \<open>The kernel at a point, for one component.\<close>

definition kernel_at :: "u32 \<Rightarrow> nat \<Rightarrow> u32 \<Rightarrow> (cbc_cert_error, u128) outcome option" where
  "kernel_at n point component =
    try_then (Some (lattice_residue point component n)) (\<lambda>residue. Some (exact_kernel_numerator n residue))"

fun scale_products ::
  "u32 \<Rightarrow> u32 \<Rightarrow> nat \<Rightarrow> exact_nat list \<Rightarrow> (cbc_cert_error, exact_nat list) outcome option" where
  "scale_products n component point [] = Some (Ok [])"
| "scale_products n component point (product # products) =
    try_then (kernel_at n point component) (\<lambda>factor.
    try_then (mul_assign_factor product factor) (\<lambda>product.
    try_then (scale_products n component (point + 1) products) (\<lambda>products.
    Some (Ok (product # products)))))"

fun products_loop :: "u32 \<Rightarrow> u32 list \<Rightarrow> exact_nat list \<Rightarrow> (cbc_cert_error, exact_nat list) outcome option" where
  "products_loop n [] products = Some (Ok products)"
| "products_loop n (component # components) products =
    try_then (scale_products n component 0 products) (products_loop n components)"

definition products_for :: "u32 \<Rightarrow> u32 list \<Rightarrow> (cbc_cert_error, exact_nat list) outcome option" where
  "products_for n components = products_loop n components (replicate (unat n) one)"

fun score_loop ::
  "u32 \<Rightarrow> u32 \<Rightarrow> nat \<Rightarrow> exact_nat list \<Rightarrow> exact_nat \<Rightarrow> (cbc_cert_error, exact_nat) outcome option" where
  "score_loop n candidate point [] score = Some (Ok (normalize score))"
| "score_loop n candidate point (product # products) score =
    try_then (kernel_at n point candidate) (\<lambda>factor.
    try_then (add_mul_factor score product factor) (\<lambda>score.
    score_loop n candidate (point + 1) products score))"

definition score_for :: "u32 \<Rightarrow> exact_nat list \<Rightarrow> u32 \<Rightarrow> (cbc_cert_error, exact_nat) outcome option" where
  "score_for n products candidate = score_loop n candidate 0 products zero"

text \<open>Declared limbs, shifted into place one base factor at a time.\<close>

fun shift_term :: "nat \<Rightarrow> exact_nat \<Rightarrow> (cbc_cert_error, exact_nat) outcome option" where
  "shift_term 0 shifted = Some (Ok shifted)"
| "shift_term (Suc i) shifted = try_then (mul_assign_factor shifted (push_bit 32 1)) (shift_term i)"

fun from_limbs_loop :: "nat \<Rightarrow> u32 list \<Rightarrow> exact_nat \<Rightarrow> (cbc_cert_error, exact_nat) outcome option" where
  "from_limbs_loop index [] acc = Some (Ok (normalize acc))"
| "from_limbs_loop index (limb # words) acc =
    (if limb = 0 then from_limbs_loop (index + 1) words acc
     else
       try_then (shift_term index one) (\<lambda>shifted.
       try_then (mul_assign_factor shifted (ucast limb)) (\<lambda>shifted.
       try_then (add_mul_factor acc shifted 1) (\<lambda>acc.
       from_limbs_loop (index + 1) words acc))))"

definition exact_from_limbs :: "u32 list \<Rightarrow> (cbc_cert_error, exact_nat) outcome option" where
  "exact_from_limbs words = from_limbs_loop 0 words zero"

section \<open>The consistency check\<close>

fun check_ties :: "u32 \<Rightarrow> exact_nat list \<Rightarrow> u32 list \<Rightarrow> u32 list \<Rightarrow> (cbc_cert_error, unit) outcome option" where
  "check_ties n products winning [] = Some (Ok ())"
| "check_ties n products winning (candidate # candidates) =
    try_then (score_for n products candidate) (\<lambda>score.
    if limbs score \<noteq> winning then Some (Err (TieClassScoreMismatch candidate))
    else check_ties n products winning candidates)"

definition verify_consistency :: "cbc_prefix_certificate \<Rightarrow> (cbc_cert_error, unit) outcome option" where
  "verify_consistency certificate =
    try_then (Some (structural certificate)) (\<lambda>scan_prefix.
    let n = point_count certificate in
    try_then (products_for n scan_prefix) (\<lambda>products.
    try_then (check_ties n products (winning_score_limbs certificate) (tie_class certificate)) (\<lambda>_.
    case runner_up certificate of
      Some (declared_limbs, runner) \<Rightarrow>
        try_then (score_for n products runner) (\<lambda>score.
        if limbs score \<noteq> declared_limbs then Some (Err RunnerUpMismatch)
        else
          try_then (exact_from_limbs (winning_score_limbs certificate)) (\<lambda>declared.
          try_then (add_mul_factor zero declared 1) (\<lambda>winning.
          if magnitude_cmp score (normalize winning) \<noteq> LimbGreater then Some (Err RunnerUpMismatch)
          else Some (Ok ()))))
    | None \<Rightarrow> Some (Ok ()))))"

section \<open>The audit by exhaustion\<close>

fun audit_loop ::
  "u32 \<Rightarrow> exact_nat list \<Rightarrow> exact_nat \<Rightarrow> u32 list \<Rightarrow> u32 list \<Rightarrow> (exact_nat \<times> u32) option
    \<Rightarrow> (cbc_cert_error, u32 list \<times> (exact_nat \<times> u32) option) outcome option" where
  "audit_loop n products winning [] true_ties true_runner = Some (Ok (true_ties, true_runner))"
| "audit_loop n products winning (candidate # candidates) true_ties true_runner =
    (if gcd_u32 candidate n \<noteq> 1 then audit_loop n products winning candidates true_ties true_runner
     else
       try_then (score_for n products candidate) (\<lambda>score.
       case magnitude_cmp score winning of
         LimbLess \<Rightarrow> Some (Err (NotMinimal candidate))
       | LimbEqual \<Rightarrow> audit_loop n products winning candidates (true_ties @ [candidate]) true_runner
       | LimbGreater \<Rightarrow>
           audit_loop n products winning candidates true_ties
             (case true_runner of
                None \<Rightarrow> Some (score, candidate)
              | Some (best_above, _) \<Rightarrow>
                  if magnitude_cmp score best_above = LimbLess then Some (score, candidate) else true_runner)))"

text \<open>\<open>1..n\<close>\<close>

definition candidates_below :: "u32 \<Rightarrow> u32 list" where
  "candidates_below n = map of_nat [1..<unat n]"

definition audit_minimality :: "cbc_prefix_certificate \<Rightarrow> (cbc_cert_error, unit) outcome option" where
  "audit_minimality certificate =
    try_then (Some (structural certificate)) (\<lambda>scan_prefix.
    let n = point_count certificate in
    try_then (products_for n scan_prefix) (\<lambda>products.
    try_then (exact_from_limbs (winning_score_limbs certificate)) (\<lambda>winning.
    try_then (audit_loop n products winning (candidates_below n) [] None) (\<lambda>(true_ties, true_runner).
    if true_ties \<noteq> tie_class certificate then Some (Err TieClassIncomplete)
    else
      case (runner_up certificate, true_runner) of
        (None, None) \<Rightarrow> Some (Ok ())
      | (Some (declared_limbs, declared_candidate), Some (true_score, true_candidate)) \<Rightarrow>
          if limbs true_score = declared_limbs \<and> declared_candidate = true_candidate then Some (Ok ())
          else Some (Err RunnerUpMismatch)
      | _ \<Rightarrow> Some (Err RunnerUpMismatch)))))"

end
