(* ===== verification/Cbc_Scores.thy ===== *)
theory Cbc_Scores
  imports Cbc_Certificate
begin

text \<open>
  What the checker's exact operations compute: every product is the kernel product of its point, a
  score is the sum over the points, declared limbs are rebuilt to the number they write, and none of
  them refuses, panics or runs forever.
\<close>

section \<open>The objective\<close>

text \<open>The numerators of the objective: over \<open>n\<close> points, the product of the kernels of the components.\<close>

definition point_product :: "nat \<Rightarrow> nat list \<Rightarrow> nat \<Rightarrow> nat" where
  "point_product n gs p = prod_list (map (\<lambda>c. kernel n (p * c mod n)) gs)"

definition exact_score :: "nat \<Rightarrow> nat list \<Rightarrow> nat" where
  "exact_score n gs = (\<Sum>p<n. point_product n gs p)"

lemma point_product_snoc [simp]: "point_product n (gs @ [c]) p = point_product n gs p * kernel n (p * c mod n)"
  by (simp add: point_product_def)

lemma point_product_Nil [simp]: "point_product n [] p = 1"
  by (simp add: point_product_def)

lemma kernel_small:
  assumes "r < n" "n < base"
  shows "kernel n r < base ^ 3"
proof -
  have "6 * r * r \<le> 6 * r * n" using assms(1) by (intro mult_le_mono) simp_all
  then have "kernel n r \<le> 7 * n * n" unfolding kernel_def by linarith
  moreover have "n * n \<le> (2 ^ 32 - 1) * (2 ^ 32 - 1)" using assms(2) by (intro mult_le_mono) (simp_all add: base_def)
  then have "7 * n * n < 2 ^ 96" by simp
  ultimately show ?thesis by (simp add: base_def)
qed

lemma point_product_small:
  assumes "0 < n" "n < base"
  shows "point_product n gs p \<le> base ^ (3 * length gs)"
proof (induction gs rule: rev_induct)
  case (snoc c gs)
  have "kernel n (p * c mod n) \<le> base ^ 3" using kernel_small [of "p * c mod n" n] assms by simp
  then have "point_product n gs p * kernel n (p * c mod n) \<le> base ^ (3 * length gs) * base ^ 3"
    using snoc by (intro mult_le_mono)
  then show ?case by (simp add: power_add mult.commute)
qed simp

lemma point_product_less:
  assumes "0 < n" "n < base"
  shows "point_product n gs p < base ^ (3 * length gs + 1)"
  by (rule le_less_trans [OF point_product_small [OF assms]]) (simp add: base_def)

section \<open>Products\<close>

lemma kernel_at_value:
  assumes "point < unat n"
  shows "\<exists>k. kernel_at n point c = Some (Ok k) \<and> unat k = kernel (unat n) (point * unat c mod unat n)"
proof -
  have "point < 2 ^ 32" "n \<noteq> 0" using assms unat_limb [of n] by (auto simp: base_def)
  then obtain r where r: "lattice_residue point c n = (Ok r :: (cbc_cert_error, u32) outcome)"
    "unat r = point * unat c mod unat n"
    using lattice_residue_value [of point n c] by blast
  obtain k where "exact_kernel_numerator n r = (Ok k :: (cbc_cert_error, u128) outcome)" "unat k = kernel (unat n) (unat r)"
    using exact_kernel_value [of n r] by blast
  then show ?thesis using r by (simp add: kernel_at_def)
qed

lemma scale_products_value:
  assumes "p + length ps \<le> unat n" "\<forall>x \<in> set ps. length (limbs x) + 5 \<le> u64_max"
  shows "\<exists>qs. scale_products n c p ps = Some (Ok qs) \<and> length qs = length ps
    \<and> (\<forall>i < length ps. normalized (qs ! i) \<and> exact_value (qs ! i) = exact_value (ps ! i) * kernel (unat n) ((p + i) * unat c mod unat n))"
  using assms
proof (induction ps arbitrary: p)
  case (Cons x ps)
  obtain k where k: "kernel_at n p c = Some (Ok k)" "unat k = kernel (unat n) (p * unat c mod unat n)"
    using kernel_at_value [of p n c] Cons.prems(1) by auto
  obtain y where y: "mul_assign_factor x k = Some (Ok y :: (cbc_cert_error, exact_nat) outcome)"
    "exact_value y = exact_value x * unat k" "normalized y"
    using mul_assign_exact [of x k] Cons.prems(2) by auto
  obtain qs where q: "scale_products n c (p + 1) ps = Some (Ok qs)" "length qs = length ps"
    "\<forall>i < length ps. normalized (qs ! i) \<and> exact_value (qs ! i) = exact_value (ps ! i) * kernel (unat n) ((p + 1 + i) * unat c mod unat n)"
    using Cons.IH [of "p + 1"] Cons.prems by auto
  have "normalized ((y # qs) ! i) \<and> exact_value ((y # qs) ! i)
      = exact_value ((x # ps) ! i) * kernel (unat n) ((p + i) * unat c mod unat n)" if "i < length (x # ps)" for i
    using that q(3) y k(2) by (cases i) simp_all
  then show ?case using k(1) y(1) q(1,2) by (auto intro!: exI [of _ "y # qs"])
qed simp

definition products_are :: "u32 \<Rightarrow> u32 list \<Rightarrow> exact_nat list \<Rightarrow> bool" where
  "products_are n gs ps \<longleftrightarrow> length ps = unat n
     \<and> (\<forall>p < unat n. normalized (ps ! p) \<and> exact_value (ps ! p) = point_product (unat n) (map unat gs) p)"

lemma products_are_length:
  assumes "products_are n gs ps" "x \<in> set ps"
  shows "length (limbs x) \<le> 3 * length gs + 1"
proof -
  obtain p where p: "p < unat n" "x = ps ! p" using assms by (auto simp: products_are_def in_set_conv_nth)
  then have "exact_value x < base ^ (3 * length gs + 1)"
    using point_product_less [of "unat n" "map unat gs" p] assms(1) unat_limb [of n] by (simp add: products_are_def)
  then show ?thesis using assms(1) p by (intro normalized_length) (auto simp: products_are_def)
qed

lemma products_loop_value:
  assumes "products_are n gs ps" "3 * (length gs + length cs) + 6 \<le> u64_max"
  shows "\<exists>qs. products_loop n cs ps = Some (Ok qs) \<and> products_are n (gs @ cs) qs"
  using assms
proof (induction cs arbitrary: gs ps)
  case (Cons c cs)
  have "\<forall>x \<in> set ps. length (limbs x) + 5 \<le> u64_max"
    using products_are_length [OF Cons.prems(1)] Cons.prems(2) by force
  then obtain qs where q: "scale_products n c 0 ps = Some (Ok qs)" "length qs = length ps"
    "\<forall>i < length ps. normalized (qs ! i) \<and> exact_value (qs ! i) = exact_value (ps ! i) * kernel (unat n) ((0 + i) * unat c mod unat n)"
    using scale_products_value [of 0 ps n c] Cons.prems(1) by (auto simp: products_are_def)
  then have "products_are n (gs @ [c]) qs" using Cons.prems(1) by (simp add: products_are_def)
  from Cons.IH [OF this] show ?case using q(1) Cons.prems(2) by simp
qed simp

lemma one_value: "exact_value one = 1" "normalized one" "limbs one = [1]"
  by (simp_all add: one_def exact_value_def normalized_def)

lemma zero_value: "exact_value zero = 0" "limbs zero = []"
  by (simp_all add: zero_def exact_value_def)

lemma products_for_value:
  assumes "3 * length cs + 6 \<le> u64_max"
  shows "\<exists>qs. products_for n cs = Some (Ok qs) \<and> products_are n cs qs"
proof -
  have "products_are n [] (replicate (unat n) one)" by (simp add: products_are_def one_value)
  from products_loop_value [OF this, of cs] show ?thesis using assms by (simp add: products_for_def)
qed

section \<open>Scores\<close>

lemma score_loop_value:
  assumes "p + length ps \<le> unat n" "\<forall>x \<in> set ps. length (limbs x) + 5 \<le> B"
    "length (limbs score) \<le> B" "B \<le> u64_max"
    "exact_value score + (\<Sum>i<length ps. exact_value (ps ! i) * kernel (unat n) ((p + i) * unat c mod unat n)) < base ^ B"
  shows "\<exists>s. score_loop n c p ps score = Some (Ok s) \<and> normalized s
    \<and> exact_value s = exact_value score + (\<Sum>i<length ps. exact_value (ps ! i) * kernel (unat n) ((p + i) * unat c mod unat n))"
  using assms
proof (induction ps arbitrary: p score)
  case (Cons x ps)
  let ?rest = "\<Sum>i<length ps. exact_value (ps ! i) * kernel (unat n) ((p + 1 + i) * unat c mod unat n)"
  have sum: "(\<Sum>i<length (x # ps). exact_value ((x # ps) ! i) * kernel (unat n) ((p + i) * unat c mod unat n))
      = exact_value x * kernel (unat n) (p * unat c mod unat n) + ?rest"
    by (simp add: sum.lessThan_Suc_shift ac_simps del: sum.lessThan_Suc)
  obtain k where k: "kernel_at n p c = Some (Ok k)" "unat k = kernel (unat n) (p * unat c mod unat n)"
    using kernel_at_value [of p n c] Cons.prems(1) by auto
  have fit: "exact_value score + exact_value x * unat k + ?rest < base ^ B" using Cons.prems(5) unfolding sum k(2) by (simp only: add.assoc)
  then have "exact_value score + limbs_value (limbs x) * unat k < base ^ B" by (simp add: exact_value_def)
  then obtain y where y: "add_mul_factor score x k = Some (Ok y :: (cbc_cert_error, exact_nat) outcome)"
    "exact_value y = exact_value score + exact_value x * unat k" "length (limbs y) \<le> B"
    using add_mul_slice_exact [of score B "limbs x" k] Cons.prems(2-4) by (auto simp: add_mul_factor_def exact_value_def)
  have "\<exists>s. score_loop n c (p + 1) ps y = Some (Ok s) \<and> normalized s \<and> exact_value s = exact_value y + ?rest"
    by (rule Cons.IH) (use Cons.prems y(2,3) fit in simp_all)
  then show ?case unfolding sum using k y by (simp add: add.assoc)
qed simp

lemma score_for_value:
  assumes "products_are n gs ps" "3 * length gs + 6 \<le> u64_max"
  shows "\<exists>s. score_for n ps c = Some (Ok s) \<and> normalized s
    \<and> exact_value s = exact_score (unat n) (map unat (gs @ [c]))"
proof -
  let ?n = "unat n" and ?B = "3 * length gs + 6"
  have n: "?n < base" by (rule unat_limb)
  have len: "length ps = ?n" and val: "\<And>p. p < ?n \<Longrightarrow> exact_value (ps ! p) = point_product ?n (map unat gs) p"
    using assms(1) by (simp_all add: products_are_def)
  have sum: "(\<Sum>i<length ps. exact_value (ps ! i) * kernel ?n ((0 + i) * unat c mod ?n)) = exact_score ?n (map unat (gs @ [c]))"
    by (simp add: exact_score_def len val)
  have "exact_score ?n (map unat (gs @ [c])) \<le> (\<Sum>p<?n. base ^ (3 * length gs + 3))"
    unfolding exact_score_def
    by (rule sum_mono) (use point_product_small [of ?n "map unat (gs @ [c])"] n in \<open>simp add: algebra_simps\<close>)
  also have "\<dots> \<le> base * base ^ (3 * length gs + 3)" using n by simp
  also have "\<dots> < base ^ ?B"
    using power_strict_increasing [of "3 * length gs + 4" ?B base] by (simp add: base_def flip: power_Suc)
  finally have fit: "exact_score ?n (map unat (gs @ [c])) < base ^ ?B" .
  have "\<exists>s. score_loop n c 0 ps zero = Some (Ok s) \<and> normalized s
    \<and> exact_value s = exact_value zero + (\<Sum>i<length ps. exact_value (ps ! i) * kernel ?n ((0 + i) * unat c mod ?n))"
    by (rule score_loop_value [where B = ?B])
      (use len assms(2) products_are_length [OF assms(1)] fit sum in \<open>auto simp: zero_value\<close>)
  then show ?thesis unfolding score_for_def sum by (simp add: zero_value)
qed

section \<open>Declared limbs\<close>

lemma base_word: "unat (push_bit 32 1 :: u128) = base"
  by (simp add: base_def push_bit_eq_mult)

lemma shift_term_value:
  assumes "normalized x" "exact_value x = base ^ k" "k + i + 6 \<le> u64_max"
  shows "\<exists>y. shift_term i x = Some (Ok y) \<and> normalized y \<and> exact_value y = base ^ (k + i)"
  using assms
proof (induction i arbitrary: x k)
  case (Suc i)
  have "exact_value x < base ^ (k + 1)" using Suc.prems(2) by (simp add: base_def)
  then have "length (limbs x) \<le> k + 1" using Suc.prems(1) by (intro normalized_length)
  then obtain y where y: "mul_assign_factor x (push_bit 32 1) = Some (Ok y :: (cbc_cert_error, exact_nat) outcome)"
    "exact_value y = exact_value x * unat (push_bit 32 1 :: u128)" "normalized y"
    using mul_assign_exact [of x "push_bit 32 1"] Suc.prems(3) by auto
  have "exact_value y = base ^ (k + 1)" using y(2) Suc.prems(2) unfolding base_word by simp
  from Suc.IH [OF y(3) this] show ?case using Suc.prems(3) y(1) by simp
qed simp

lemma from_limbs_loop_value:
  assumes "i + length words + 8 \<le> B" "B \<le> u64_max" "length (limbs x) \<le> B"
    "exact_value x + base ^ i * limbs_value words < base ^ B"
  shows "\<exists>y. from_limbs_loop i words x = Some (Ok y) \<and> normalized y
    \<and> exact_value y = exact_value x + base ^ i * limbs_value words"
  using assms
proof (induction words arbitrary: i x)
  case (Cons w words)
  have step: "base ^ i * limbs_value (w # words) = base ^ i * unat w + base ^ (i + 1) * limbs_value words"
    by (simp add: algebra_simps)
  show ?case
  proof (cases "w = 0")
    case True
    then have e: "base ^ i * limbs_value (w # words) = base ^ (i + 1) * limbs_value words" using step by simp
    show ?thesis unfolding e using Cons.IH [of "i + 1" x] Cons.prems(1-3) Cons.prems(4) [unfolded e] True by simp
  next
    case False
    obtain t where t: "shift_term i one = Some (Ok t)" "normalized t" "exact_value t = base ^ i"
      using shift_term_value [of one 0 i] Cons.prems(1,2) by (auto simp: one_value)
    have "exact_value t < base ^ (i + 1)" using t(3) by (simp add: base_def)
    then have "length (limbs t) \<le> i + 1" using t(2) by (intro normalized_length)
    then obtain u where u: "mul_assign_factor t (ucast w) = Some (Ok u :: (cbc_cert_error, exact_nat) outcome)"
      "exact_value u = exact_value t * unat (ucast w :: u128)" "normalized u"
      using mul_assign_exact [of t "ucast w"] Cons.prems(1,2) by auto
    have w: "unat (ucast w :: u128) = unat w" using unat_limb [of w] by (simp add: unsigned_ucast_eq take_bit_nat_eq_self base_def)
    have uv: "exact_value u = base ^ i * unat w" using u(2) t(3) w by simp
    have "exact_value u < base ^ (i + 1)" using uv unat_limb [of w] by simp
    then have lu: "length (limbs u) \<le> i + 1" using u(3) by (intro normalized_length)
    have fit: "exact_value x + limbs_value (limbs u) * unat (1 :: u128) < base ^ B"
      using Cons.prems(4) step uv by (simp add: exact_value_def)
    obtain y where y: "add_mul_factor x u 1 = Some (Ok y :: (cbc_cert_error, exact_nat) outcome)"
      "exact_value y = exact_value x + base ^ i * unat w" "length (limbs y) \<le> B"
      using add_mul_slice_exact [OF Cons.prems(3) _ Cons.prems(2) fit] lu Cons.prems(1) uv
      by (auto simp: add_mul_factor_def exact_value_def)
    have "\<exists>z. from_limbs_loop (i + 1) words y = Some (Ok z) \<and> normalized z
        \<and> exact_value z = exact_value y + base ^ (i + 1) * limbs_value words"
      by (rule Cons.IH) (use Cons.prems y step in simp_all)
    then show ?thesis using False t u y step by (simp add: algebra_simps)
  qed
qed simp

lemma exact_from_limbs_value:
  assumes "length words + 8 \<le> u64_max"
  shows "\<exists>x. exact_from_limbs words = Some (Ok x) \<and> normalized x \<and> exact_value x = limbs_value words"
proof -
  have "limbs_value words < base ^ u64_max"
    by (rule less_le_trans [OF limbs_value_less]) (use assms in \<open>simp add: power_increasing base_def\<close>)
  then show ?thesis using from_limbs_loop_value [of 0 words u64_max zero] assms
    by (simp add: exact_from_limbs_def zero_value)
qed

end
