(* ===== verification/Cbc_Audit.thy ===== *)
theory Cbc_Audit
  imports Cbc_Scores
begin

text \<open>
  What the checker's verdicts mean: a specification of exact certificates over natural numbers, and
  the proofs that the audit accepts exactly those, that the consistency check accepts exactly the
  certificates whose declared candidates score as claimed, and that both always return.
\<close>

section \<open>The specification\<close>

definition unit_mod :: "u32 \<Rightarrow> u32 \<Rightarrow> bool" where
  "unit_mod n c \<longleftrightarrow> c \<noteq> 0 \<and> c < n \<and> coprime (unat c) (unat n)"

text \<open>The score of a candidate at the certified prefix.\<close>

definition candidate_score :: "cbc_prefix_certificate \<Rightarrow> u32 \<Rightarrow> nat" where
  "candidate_score cert c = exact_score (unat (point_count cert)) (map unat (butlast (prefix cert) @ [c]))"

definition well_declared :: "cbc_prefix_certificate \<Rightarrow> bool" where
  "well_declared cert \<longleftrightarrow> 3 \<le> point_count cert \<and> 2 \<le> length (prefix cert) \<and> length (prefix cert) \<le> u32_max
     \<and> tie_rule cert = TIE_RULE_LOWEST_CANDIDATE \<and> admissible_rule cert = ADMISSIBLE_RULE_UNITS
     \<and> unat (denominator_exponent cert) = length (prefix cert)
     \<and> \<not> ends_in_zero (winning_score_limbs cert) \<and> (\<forall>words r. runner_up cert = Some (words, r) \<longrightarrow> \<not> ends_in_zero words)
     \<and> (\<forall>c \<in> set (prefix cert). unit_mod (point_count cert) c)"

text \<open>The chosen component is the lowest minimiser, the declared scores, ties and runner-up are the true ones.\<close>

definition exactly_minimal :: "cbc_prefix_certificate \<Rightarrow> bool" where
  "exactly_minimal cert \<longleftrightarrow>
    (let n = point_count cert; s = candidate_score cert; w = last (prefix cert)
     in limbs_value (winning_score_limbs cert) = s w
        \<and> (\<forall>c. unit_mod n c \<longrightarrow> s w \<le> s c \<and> (s c = s w \<longrightarrow> w \<le> c))
        \<and> sorted_wrt (<) (tie_class cert) \<and> set (tie_class cert) = {c. unit_mod n c \<and> s c = s w}
        \<and> (case runner_up cert of
             None \<Rightarrow> (\<forall>c. unit_mod n c \<longrightarrow> s c = s w)
           | Some (words, r) \<Rightarrow> unit_mod n r \<and> limbs_value words = s r \<and> s w < s r
               \<and> (\<forall>c. unit_mod n c \<and> s w < s c \<longrightarrow> s r \<le> s c \<and> (s c = s r \<longrightarrow> r \<le> c))))"

section \<open>Structure\<close>

lemma inadmissible_unit [simp]: "inadmissible n c \<longleftrightarrow> \<not> unit_mod n c"
proof -
  have "gcd_u32 c n = 1 \<longleftrightarrow> coprime (unat c) (unat n)"
    by (simp add: word_unat_eq_iff gcd_u32_value coprime_iff_gcd_eq_1)
  then show ?thesis by (auto simp: inadmissible_def unit_mod_def not_le)
qed

lemma unit_gcd: "c \<noteq> 0 \<Longrightarrow> c < n \<Longrightarrow> gcd_u32 c n = 1 \<longleftrightarrow> unit_mod n c"
  using inadmissible_unit [of n c] unfolding inadmissible_def by (metis linorder_not_le)

definition ties_declared :: "cbc_prefix_certificate \<Rightarrow> bool" where
  "ties_declared cert \<longleftrightarrow> tie_class cert \<noteq> [] \<and> hd (tie_class cert) = last (prefix cert)
     \<and> sorted_wrt (<) (tie_class cert) \<and> (\<forall>c \<in> set (tie_class cert). unit_mod (point_count cert) c)
     \<and> (\<forall>words r. runner_up cert = Some (words, r) \<longrightarrow> unit_mod (point_count cert) r \<and> r \<notin> set (tie_class cert))"

lemma exponent_matches: "k \<le> u32_max \<Longrightarrow> (e :: u32) = of_nat k \<longleftrightarrow> unat e = k"
  by (auto simp: unat_of_nat u32_max_def word_unat_eq_iff)

lemma structural_Ok:
  "structural cert = Ok P \<longleftrightarrow> well_declared cert \<and> ties_declared cert \<and> P = butlast (prefix cert)"
proof -
  have asc: "successively (<) (tie_class cert) \<longleftrightarrow> sorted_wrt (<) (tie_class cert)"
    by (rule successively_conv_sorted_wrt) (simp add: transp_def)
  show ?thesis
    unfolding structural_def well_declared_def ties_declared_def chosen_def Let_def asc
    by (auto simp: list_ex_iff exponent_matches not_le not_less split: option.splits)
qed

lemma structural_no_panic: "structural cert \<noteq> Panicked"
  by (auto simp: structural_def chosen_def Let_def split: option.splits)

section \<open>Candidates\<close>

lemma candidates_below_set: "set (candidates_below n) = {c. c \<noteq> 0 \<and> c < n}"
proof -
  have "c \<in> set (candidates_below n)" if "c \<noteq> 0" "c < n" for c
  proof -
    have "unat c \<in> set [1..<unat n]" using that by (simp add: word_less_nat_alt Suc_le_eq unat_gt_0)
    then have "of_nat (unat c) \<in> set (candidates_below n)" unfolding candidates_below_def set_map by (rule imageI)
    then show ?thesis by simp
  qed
  moreover have "c \<noteq> 0 \<and> c < n" if c: "c \<in> set (candidates_below n)" for c
  proof -
    obtain k where k: "c = of_nat k" "1 \<le> k" "k < unat n" using c by (auto simp: candidates_below_def)
    then have "unat c = k" using unat_limb [of n] by (simp add: unat_of_nat base_def)
    then show ?thesis using k by (auto simp: word_less_nat_alt)
  qed
  ultimately show ?thesis by blast
qed

lemma candidates_below_sorted: "sorted_wrt (<) (candidates_below n)"
  unfolding candidates_below_def sorted_wrt_map
proof (rule sorted_wrt_mono_rel [of _ "(<)"])
  fix i j :: nat
  assume "i \<in> set [1..<unat n]" "j \<in> set [1..<unat n]" "i < j"
  then show "(of_nat i :: u32) < of_nat j"
    using unat_limb [of n] by (simp add: word_less_nat_alt unat_of_nat base_def)
qed (rule sorted_wrt_upt)

section \<open>The lowest minimiser of a list\<close>

definition keep_lower :: "(u32 \<Rightarrow> nat) \<Rightarrow> u32 option \<Rightarrow> u32 \<Rightarrow> u32 option" where
  "keep_lower s best c = (case best of None \<Rightarrow> Some c | Some b \<Rightarrow> if s c < s b then Some c else best)"

definition lowest :: "(u32 \<Rightarrow> nat) \<Rightarrow> u32 list \<Rightarrow> u32 option" where
  "lowest s cs = foldl (keep_lower s) None cs"

lemma lowest_snoc [simp]: "lowest s [] = None" "lowest s (cs @ [c]) = keep_lower s (lowest s cs) c"
  by (simp_all add: lowest_def)

lemma lowest_None [simp]: "lowest s cs = None \<longleftrightarrow> cs = []"
  by (induction cs rule: rev_induct) (auto simp: keep_lower_def split: option.splits)

lemma lowest_Some:
  assumes "sorted_wrt (<) cs" "lowest s cs = Some d"
  shows "d \<in> set cs \<and> (\<forall>c \<in> set cs. s d \<le> s c \<and> (s c = s d \<longrightarrow> d \<le> c))"
  using assms
proof (induction cs arbitrary: d rule: rev_induct)
  case (snoc c cs)
  have sorted: "sorted_wrt (<) cs" "\<forall>x \<in> set cs. x < c" using snoc.prems(1) by (auto simp: sorted_wrt_append)
  show ?case
  proof (cases "lowest s cs")
    case None
    then have "cs = []" by simp
    then show ?thesis using snoc.prems by (simp add: lowest_def keep_lower_def)
  next
    case (Some b)
    note IH = snoc.IH [OF sorted(1) Some]
    then show ?thesis using snoc.prems(2) Some sorted(2)
      by (fastforce simp: keep_lower_def split: if_splits)
  qed
qed simp

lemma lowest_unique:
  assumes "sorted_wrt (<) cs" "d \<in> set cs" "\<forall>c \<in> set cs. s d \<le> s c \<and> (s c = s d \<longrightarrow> d \<le> c)"
  shows "lowest s cs = Some d"
proof -
  obtain b where b: "lowest s cs = Some b" using assms(2) by (cases "lowest s cs") auto
  note l = lowest_Some [OF assms(1) b]
  have "b = d" using l assms(2,3) by (metis order_antisym)
  then show ?thesis using b by simp
qed

section \<open>The exhaustive loop\<close>

lemma audit_loop_spec:
  assumes win: "normalized winning"
    and sc: "\<And>c. \<exists>x. score_for n ps c = Some (Ok x) \<and> normalized x \<and> exact_value x = s c"
  defines "num \<equiv> \<lambda>c. the_ok (the (score_for n ps c))"
  assumes "\<forall>c \<in> set cs. c \<noteq> 0 \<and> c < n" "runner = map_option (\<lambda>d. (num d, d)) best"
  shows "audit_loop n ps winning cs ties runner =
    (case filter (\<lambda>c. unit_mod n c \<and> s c < exact_value winning) cs of
       c # _ \<Rightarrow> Some (Err (NotMinimal c))
     | [] \<Rightarrow> Some (Ok (ties @ filter (\<lambda>c. unit_mod n c \<and> s c = exact_value winning) cs,
         map_option (\<lambda>d. (num d, d))
           (foldl (keep_lower s) best (filter (\<lambda>c. unit_mod n c \<and> exact_value winning < s c) cs)))))"
proof -
  have num: "score_for n ps c = Some (Ok (num c))" "normalized (num c)" "exact_value (num c) = s c" for c
    using sc [of c] by (auto simp: num_def)
  have cmp: "magnitude_cmp (num c) winning = compare_limbs (s c) (exact_value winning)"
    "magnitude_cmp (num c) (num d) = compare_limbs (s c) (s d)" for c d
    using magnitude_cmp_exact [OF num(2) win] magnitude_cmp_exact [OF num(2) num(2)] by (simp_all add: num(3))
  show ?thesis using assms(4,5)
  proof (induction cs arbitrary: ties runner best)
    case (Cons c cs)
    have g: "gcd_u32 c n = 1 \<longleftrightarrow> unit_mod n c" using Cons.prems(1) by (intro unit_gcd) simp_all
    show ?case
    proof (cases "unit_mod n c")
      case False
      moreover from this have "gcd_u32 c n \<noteq> 1" using g by simp
      ultimately show ?thesis using Cons.IH [OF _ Cons.prems(2)] Cons.prems(1)
        by (simp split: list.split)
    next
      case True
      then have g: "gcd_u32 c n = 1" using g by simp
      show ?thesis
      proof (cases "s c" "exact_value winning" rule: linorder_cases)
        case less
        then show ?thesis using True g num(1) cmp(1) by (simp add: compare_limbs_def)
      next
        case equal
        then show ?thesis using True g num(1) cmp(1) Cons.IH [OF _ Cons.prems(2), of "ties @ [c]"] Cons.prems(1)
          by (simp split: list.split)
      next
        case greater
        let ?best = "keep_lower s best c"
        have "(case runner of None \<Rightarrow> Some (num c, c)
            | Some (best_above, _) \<Rightarrow> if magnitude_cmp (num c) best_above = LimbLess then Some (num c, c) else runner)
          = map_option (\<lambda>d. (num d, d)) ?best"
          using Cons.prems(2) by (cases best) (simp_all add: keep_lower_def cmp(2))
        then show ?thesis using greater True g num(1) cmp(1) Cons.IH [of _ ?best ties] Cons.prems(1)
          by (simp add: compare_limbs_def split: list.split)
      qed
    qed
  qed simp
qed

section \<open>The verdicts\<close>

lemma canonical_limbs:
  assumes "\<not> ends_in_zero words" "normalized x"
  shows "limbs x = words \<longleftrightarrow> exact_value x = limbs_value words"
  using normalized_unique [of x "\<lparr>limbs = words\<rparr>"] assms
  by (auto simp: normalized_def ends_in_zero_def exact_value_def)

lemma prefix_fits: "well_declared cert \<Longrightarrow> 3 * length (butlast (prefix cert)) + 6 \<le> u64_max"
  unfolding well_declared_def u32_max_def u64_max_def by (elim conjE) simp

lemma scores_exact:
  assumes "well_declared cert"
  obtains ps where "products_for (point_count cert) (butlast (prefix cert)) = Some (Ok ps)"
    "\<And>c. \<exists>x. score_for (point_count cert) ps c = Some (Ok x) \<and> normalized x \<and> exact_value x = candidate_score cert c"
proof -
  note fits = prefix_fits [OF assms]
  obtain ps where ps: "products_for (point_count cert) (butlast (prefix cert)) = Some (Ok ps)"
    "products_are (point_count cert) (butlast (prefix cert)) ps"
    using products_for_value [OF fits] by blast
  show thesis
    by (rule that [OF ps(1)]) (use score_for_value [OF ps(2) fits] in \<open>simp add: candidate_score_def\<close>)
qed

text \<open>The candidates scoring below, at and above the declared winning score, in the order of the scan.\<close>

definition beating :: "cbc_prefix_certificate \<Rightarrow> u32 list" where
  "beating cert = filter (\<lambda>c. unit_mod (point_count cert) c \<and> candidate_score cert c < limbs_value (winning_score_limbs cert))
     (candidates_below (point_count cert))"

definition tying :: "cbc_prefix_certificate \<Rightarrow> u32 list" where
  "tying cert = filter (\<lambda>c. unit_mod (point_count cert) c \<and> candidate_score cert c = limbs_value (winning_score_limbs cert))
     (candidates_below (point_count cert))"

definition trailing :: "cbc_prefix_certificate \<Rightarrow> u32 list" where
  "trailing cert = filter (\<lambda>c. unit_mod (point_count cert) c \<and> limbs_value (winning_score_limbs cert) < candidate_score cert c)
     (candidates_below (point_count cert))"

definition runner_matches :: "cbc_prefix_certificate \<Rightarrow> bool" where
  "runner_matches cert \<longleftrightarrow>
    (case (runner_up cert, lowest (candidate_score cert) (trailing cert)) of
       (None, None) \<Rightarrow> True
     | (Some (words, r), Some d) \<Rightarrow> limbs_value words = candidate_score cert d \<and> r = d
     | _ \<Rightarrow> False)"

lemma audit_verdict:
  assumes struct: "structural cert = Ok P" and fits: "length (winning_score_limbs cert) + 8 \<le> u64_max"
  shows "audit_minimality cert =
    (case beating cert of
       c # _ \<Rightarrow> Some (Err (NotMinimal c))
     | [] \<Rightarrow> if tying cert \<noteq> tie_class cert then Some (Err TieClassIncomplete)
             else if runner_matches cert then Some (Ok ()) else Some (Err RunnerUpMismatch))"
proof -
  have wd: "well_declared cert" and P: "P = butlast (prefix cert)" using struct by (simp_all add: structural_Ok)
  obtain ps where ps: "products_for (point_count cert) P = Some (Ok ps)"
    "\<And>c. \<exists>x. score_for (point_count cert) ps c = Some (Ok x) \<and> normalized x \<and> exact_value x = candidate_score cert c"
    using scores_exact [OF wd] unfolding P by blast
  obtain w where w: "exact_from_limbs (winning_score_limbs cert) = Some (Ok w)" "normalized w"
    "exact_value w = limbs_value (winning_score_limbs cert)"
    using exact_from_limbs_value [OF fits] by blast
  let ?num = "\<lambda>c. the_ok (the (score_for (point_count cert) ps c))"
  have num: "normalized (?num c)" "exact_value (?num c) = candidate_score cert c" for c
    using ps(2) [of c] by auto
  have loop: "audit_loop (point_count cert) ps w (candidates_below (point_count cert)) [] None =
    (case beating cert of
       c # _ \<Rightarrow> Some (Err (NotMinimal c))
     | [] \<Rightarrow> Some (Ok (tying cert, map_option (\<lambda>d. (?num d, d)) (lowest (candidate_score cert) (trailing cert)))))"
    using audit_loop_spec [OF w(2) ps(2), where cs = "candidates_below (point_count cert)" and best = None and ties = "[]"
        and runner = None] candidates_below_set [of "point_count cert"]
    unfolding beating_def tying_def trailing_def lowest_def w(3) option.map append_Nil by blast
  have canon: "limbs (?num d) = words \<longleftrightarrow> limbs_value words = candidate_score cert d"
    if "runner_up cert = Some (words, r)" for words r d
    using canonical_limbs [OF _ num(1)] num(2) wd that by (auto simp: well_declared_def)
  show ?thesis
    using ps(1) w(1) loop canon
    by (auto simp: audit_minimality_def struct runner_matches_def Let_def split: list.split option.split)
qed

lemma strictly_sorted_unique:
  "sorted_wrt (<) xs \<Longrightarrow> sorted_wrt (<) ys \<Longrightarrow> set xs = set ys \<Longrightarrow> xs = (ys :: u32 list)"
  by (simp add: sorted_distinct_set_unique strict_sorted_iff)

lemma scan_sets:
  "set (beating cert) = {c. unit_mod (point_count cert) c \<and> candidate_score cert c < limbs_value (winning_score_limbs cert)}"
  "set (tying cert) = {c. unit_mod (point_count cert) c \<and> candidate_score cert c = limbs_value (winning_score_limbs cert)}"
  "set (trailing cert) = {c. unit_mod (point_count cert) c \<and> limbs_value (winning_score_limbs cert) < candidate_score cert c}"
  "sorted_wrt (<) (tying cert)" "sorted_wrt (<) (trailing cert)"
  by (auto simp: beating_def tying_def trailing_def candidates_below_set unit_mod_def
      intro: sorted_wrt_filter candidates_below_sorted)

lemma last_unit: "well_declared cert \<Longrightarrow> unit_mod (point_count cert) (last (prefix cert))"
proof -
  assume wd: "well_declared cert"
  then have "prefix cert \<noteq> []" by (auto simp: well_declared_def)
  then have "last (prefix cert) \<in> set (prefix cert)" by (rule last_in_set)
  then show ?thesis using wd by (simp add: well_declared_def)
qed

lemma sorted_hd_least: "sorted_wrt (<) xs \<Longrightarrow> c \<in> set xs \<Longrightarrow> hd xs \<le> (c :: u32)"
  by (cases xs) auto

lemma runner_matches_iff:
  assumes "limbs_value (winning_score_limbs cert) = candidate_score cert (last (prefix cert))" "beating cert = []"
  shows "runner_matches cert \<longleftrightarrow>
    (case runner_up cert of
       None \<Rightarrow> (\<forall>c. unit_mod (point_count cert) c \<longrightarrow> candidate_score cert c = candidate_score cert (last (prefix cert)))
     | Some (words, r) \<Rightarrow> unit_mod (point_count cert) r \<and> limbs_value words = candidate_score cert r
         \<and> candidate_score cert (last (prefix cert)) < candidate_score cert r
         \<and> (\<forall>c. unit_mod (point_count cert) c \<and> candidate_score cert (last (prefix cert)) < candidate_score cert c
             \<longrightarrow> candidate_score cert r \<le> candidate_score cert c
               \<and> (candidate_score cert c = candidate_score cert r \<longrightarrow> r \<le> c)))"
proof (cases "lowest (candidate_score cert) (trailing cert)")
  case None
  have "set (trailing cert) = {}" using None by simp
  then have "\<not> candidate_score cert (last (prefix cert)) < candidate_score cert c" if "unit_mod (point_count cert) c" for c
    using that assms(1) by (auto simp: scan_sets)
  moreover have "\<not> candidate_score cert c < candidate_score cert (last (prefix cert))" if "unit_mod (point_count cert) c" for c
    using that assms scan_sets(1) [of cert] by auto
  ultimately show ?thesis using None by (auto simp: runner_matches_def split: option.split) (metis linorder_neqE_nat)
next
  case (Some d)
  note low = lowest_Some [OF scan_sets(5) Some]
  have d: "unit_mod (point_count cert) d" "candidate_score cert (last (prefix cert)) < candidate_score cert d"
    using low assms(1) by (auto simp: scan_sets)
  have below: "candidate_score cert d \<le> candidate_score cert c \<and> (candidate_score cert c = candidate_score cert d \<longrightarrow> d \<le> c)"
    if "unit_mod (point_count cert) c" "candidate_score cert (last (prefix cert)) < candidate_score cert c" for c
    using low that assms(1) by (auto simp: scan_sets)
  show ?thesis
  proof (cases "runner_up cert")
    case None
    then show ?thesis using Some d by (auto simp: runner_matches_def)
  next
    case (Some p)
    obtain words r where p: "p = (words, r)" by (cases p)
    have "r = d" if "unit_mod (point_count cert) r" "candidate_score cert (last (prefix cert)) < candidate_score cert r"
      "\<forall>c. unit_mod (point_count cert) c \<and> candidate_score cert (last (prefix cert)) < candidate_score cert c
         \<longrightarrow> candidate_score cert r \<le> candidate_score cert c \<and> (candidate_score cert c = candidate_score cert r \<longrightarrow> r \<le> c)"
      using that below [OF that(1,2)] d by (metis order_antisym)
    then show ?thesis using Some \<open>lowest _ _ = Some d\<close> p d below by (auto simp: runner_matches_def)
  qed
qed

lemma audit_sound:
  assumes fits: "length (winning_score_limbs cert) + 8 \<le> u64_max" and acc: "audit_minimality cert = Some (Ok ())"
  shows "well_declared cert \<and> exactly_minimal cert"
proof -
  let ?s = "candidate_score cert" and ?w = "last (prefix cert)"
  obtain P where struct: "structural cert = Ok P"
    using acc by (cases "structural cert") (auto simp: audit_minimality_def)
  then have wd: "well_declared cert" and td: "ties_declared cert" by (simp_all add: structural_Ok)
  have none: "beating cert = []" and tie: "tying cert = tie_class cert" and run: "runner_matches cert"
    using acc unfolding audit_verdict [OF struct fits] by (auto split: list.splits if_splits)
  have "?w \<in> set (tie_class cert)" using td by (metis hd_in_set ties_declared_def)
  then have w: "limbs_value (winning_score_limbs cert) = ?s ?w" using tie [symmetric] by (simp add: scan_sets)
  have "?s ?w \<le> ?s c \<and> (?s c = ?s ?w \<longrightarrow> ?w \<le> c)" if "unit_mod (point_count cert) c" for c
  proof
    show "?s ?w \<le> ?s c" using that none scan_sets(1) [of cert] w by (auto simp: not_le [symmetric])
    show "?s c = ?s ?w \<longrightarrow> ?w \<le> c"
    proof
      assume "?s c = ?s ?w"
      then have "c \<in> set (tie_class cert)" using that w tie [symmetric] by (simp add: scan_sets)
      then show "?w \<le> c" using td sorted_hd_least [of "tie_class cert" c] by (simp add: ties_declared_def)
    qed
  qed
  moreover have "set (tie_class cert) = {c. unit_mod (point_count cert) c \<and> ?s c = ?s ?w}" "sorted_wrt (<) (tie_class cert)"
    using scan_sets(2,4) [of cert] by (simp_all add: tie w)
  ultimately have "exactly_minimal cert"
    using w run unfolding runner_matches_iff [OF w none] exactly_minimal_def Let_def by blast
  then show "well_declared cert \<and> exactly_minimal cert" using wd by blast
qed

lemma audit_complete:
  assumes fits: "length (winning_score_limbs cert) + 8 \<le> u64_max"
    and wd: "well_declared cert" and minimal: "exactly_minimal cert"
  shows "audit_minimality cert = Some (Ok ())"
proof -
  let ?s = "candidate_score cert" and ?w = "last (prefix cert)" and ?n = "point_count cert"
  have w: "limbs_value (winning_score_limbs cert) = ?s ?w"
    and min: "\<And>c. unit_mod ?n c \<Longrightarrow> ?s ?w \<le> ?s c \<and> (?s c = ?s ?w \<longrightarrow> ?w \<le> c)"
    and ties: "sorted_wrt (<) (tie_class cert)" "set (tie_class cert) = {c. unit_mod ?n c \<and> ?s c = ?s ?w}"
    and run: "case runner_up cert of None \<Rightarrow> (\<forall>c. unit_mod ?n c \<longrightarrow> ?s c = ?s ?w)
           | Some (words, r) \<Rightarrow> unit_mod ?n r \<and> limbs_value words = ?s r \<and> ?s ?w < ?s r
               \<and> (\<forall>c. unit_mod ?n c \<and> ?s ?w < ?s c \<longrightarrow> ?s r \<le> ?s c \<and> (?s c = ?s r \<longrightarrow> r \<le> c))"
    using minimal by (auto simp: exactly_minimal_def Let_def)
  have win: "?w \<in> set (tie_class cert)" using last_unit [OF wd] ties(2) by simp
  then have ne: "tie_class cert \<noteq> []" by auto
  then have "hd (tie_class cert) \<in> set (tie_class cert)" by simp
  then have "?w \<le> hd (tie_class cert)" using min ties(2) by auto
  then have "hd (tie_class cert) = ?w" using sorted_hd_least [OF ties(1) win] by simp
  then have "ties_declared cert" using ne ties run by (auto simp: ties_declared_def split: option.splits)
  then have struct: "structural cert = Ok (butlast (prefix cert))" using wd by (simp add: structural_Ok)
  have none: "beating cert = []"
  proof -
    have "\<not> (unit_mod ?n c \<and> ?s c < limbs_value (winning_score_limbs cert))" for c using min [of c] w by auto
    then have "set (beating cert) = {}" unfolding scan_sets by blast
    then show ?thesis by simp
  qed
  have tie: "tying cert = tie_class cert"
    by (rule strictly_sorted_unique [OF scan_sets(4) ties(1)]) (simp add: scan_sets(2) ties(2) w)
  have "runner_matches cert" unfolding runner_matches_iff [OF w none] by (rule run)
  then show "audit_minimality cert = Some (Ok ())" unfolding audit_verdict [OF struct fits] by (simp add: none tie)
qed

text \<open>C28. The exhaustive audit accepts exactly the certificates that tell the truth: a well-formed declaration
  whose chosen component is the lowest candidate coprime to the point count with minimal exact score
  at its prefix, whose winning score is that score, whose tie class lists in ascending order every
  candidate with it, and whose runner-up is the lowest candidate of the next score with its score,
  or absent when there is none.\<close>

theorem audit_accepts_exactly_minimal:
  assumes "length (winning_score_limbs cert) + 8 \<le> u64_max"
  shows "audit_minimality cert = Some (Ok ()) \<longleftrightarrow> well_declared cert \<and> exactly_minimal cert"
  using audit_sound [OF assms] audit_complete [OF assms] by blast

definition five_points :: cbc_prefix_certificate where
  "five_points = \<lparr>point_count = 5, prefix = [1, 2], winning_score_limbs = [114581], tie_class = [2, 3],
     runner_up = Some ([114869], 1), denominator_exponent = 2, tie_rule = TIE_RULE_LOWEST_CANDIDATE,
     admissible_rule = ADMISSIBLE_RULE_UNITS\<rparr>"

lemma units_of_five: "unit_mod 5 c \<longleftrightarrow> c \<in> {1, 2, 3, 4}"
proof -
  have below: "c \<noteq> 0 \<and> c < 5 \<longleftrightarrow> c \<in> {1, 2, 3, 4}"
    using candidates_below_set [of 5] by (auto simp: candidates_below_def upt_rec)
  have "gcd_u32 1 5 = 1" "gcd_u32 2 5 = 1" "gcd_u32 3 5 = 1" "gcd_u32 4 5 = 1" by code_simp+
  then have "unit_mod 5 1" "unit_mod 5 2" "unit_mod 5 3" "unit_mod 5 4"
    using unit_gcd [of 1 5] unit_gcd [of 2 5] unit_gcd [of 3 5] unit_gcd [of 4 5] by simp_all
  then show ?thesis using below by (auto simp: unit_mod_def)
qed

lemma five_points_fields:
  "point_count five_points = 5" "last (prefix five_points) = 2" "tie_class five_points = [2, 3]"
  "winning_score_limbs five_points = [114581]" "runner_up five_points = Some ([114869], 1)"
  by (simp_all add: five_points_def)

lemma five_points_scores:
  "candidate_score five_points 1 = 114869" "candidate_score five_points 2 = 114581"
  "candidate_score five_points 3 = 114581" "candidate_score five_points 4 = 114869"
  by (simp_all add: candidate_score_def five_points_def exact_score_def point_product_def kernel_def lessThan_nat_numeral)

lemma five_points_minimal: "well_declared five_points" "exactly_minimal five_points"
  "length (winning_score_limbs five_points) + 8 \<le> u64_max"
proof -
  show "well_declared five_points"
    by (simp add: well_declared_def five_points_def units_of_five ends_in_zero_def u32_max_def)
  show "exactly_minimal five_points"
    by (auto simp: exactly_minimal_def five_points_fields five_points_scores Let_def units_of_five)
  show "length (winning_score_limbs five_points) + 8 \<le> u64_max" by (simp add: five_points_def u64_max_def)
qed

lemma five_points_audited: "audit_minimality five_points = Some (Ok ())"
  by (rule audit_complete [OF five_points_minimal(3,1,2)])

theorem audit_accepts_exactly_minimal_witness: "audit_minimality five_points = Some (Ok ())"
  using audit_accepts_exactly_minimal [of five_points] five_points_minimal by blast

section \<open>The consistency check\<close>

lemma check_ties_spec:
  assumes sc: "\<And>c. \<exists>x. score_for n ps c = Some (Ok x) \<and> normalized x \<and> exact_value x = s c" and canon: "\<not> ends_in_zero winning"
  shows "check_ties n ps winning cs =
    (case filter (\<lambda>c. s c \<noteq> limbs_value winning) cs of
       c # _ \<Rightarrow> Some (Err (TieClassScoreMismatch c)) | [] \<Rightarrow> Some (Ok ()))"
proof (induction cs)
  case (Cons c cs)
  obtain x where x: "score_for n ps c = Some (Ok x)" "normalized x" "exact_value x = s c" using sc by blast
  then show ?case using Cons canonical_limbs [OF canon x(2)] by simp
qed simp

definition runner_consistent :: "cbc_prefix_certificate \<Rightarrow> bool" where
  "runner_consistent cert \<longleftrightarrow>
    (case runner_up cert of
       None \<Rightarrow> True
     | Some (words, r) \<Rightarrow> limbs_value words = candidate_score cert r
         \<and> limbs_value (winning_score_limbs cert) < limbs_value words)"

lemma consistency_verdict:
  assumes struct: "structural cert = Ok P" and fits: "length (winning_score_limbs cert) + 8 \<le> u64_max"
  shows "verify_consistency cert =
    (case filter (\<lambda>c. candidate_score cert c \<noteq> limbs_value (winning_score_limbs cert)) (tie_class cert) of
       c # _ \<Rightarrow> Some (Err (TieClassScoreMismatch c))
     | [] \<Rightarrow> if runner_consistent cert then Some (Ok ()) else Some (Err RunnerUpMismatch))"
proof -
  have wd: "well_declared cert" and P: "P = butlast (prefix cert)" using struct by (simp_all add: structural_Ok)
  obtain ps where ps: "products_for (point_count cert) P = Some (Ok ps)"
    "\<And>c. \<exists>x. score_for (point_count cert) ps c = Some (Ok x) \<and> normalized x \<and> exact_value x = candidate_score cert c"
    using scores_exact [OF wd] unfolding P by blast
  let ?W = "limbs_value (winning_score_limbs cert)"
  have canon: "\<not> ends_in_zero (winning_score_limbs cert)" using wd by (simp add: well_declared_def)
  note ties = check_ties_spec [OF ps(2) canon, of "tie_class cert"]
  obtain w where w: "exact_from_limbs (winning_score_limbs cert) = Some (Ok w)" "normalized w" "exact_value w = ?W"
    using exact_from_limbs_value [OF fits] by blast
  have "length (limbs w) \<le> length (winning_score_limbs cert)"
    using w(2,3) by (intro normalized_length) (simp_all add: limbs_value_less)
  moreover have "limbs_value (limbs w) < base ^ u64_max"
    using w(3) less_le_trans [OF limbs_value_less [of "winning_score_limbs cert"] power_increasing [of _ u64_max base]] fits
    by (simp add: exact_value_def Suc_le_eq)
  ultimately obtain v where v: "add_mul_factor zero w 1 = Some (Ok v :: (cbc_cert_error, exact_nat) outcome)" "exact_value v = ?W"
    using add_mul_slice_exact [of zero u64_max "limbs w" 1] fits w(3)
    by (auto simp: add_mul_factor_def zero_value exact_value_def)
  have runner: "try_then (score_for (point_count cert) ps r) (\<lambda>score.
      if limbs score \<noteq> words then Some (Err RunnerUpMismatch)
      else try_then (exact_from_limbs (winning_score_limbs cert)) (\<lambda>declared.
        try_then (add_mul_factor zero declared 1) (\<lambda>winning.
        if magnitude_cmp score (normalize winning) \<noteq> LimbGreater then Some (Err RunnerUpMismatch)
        else Some (Ok ()))))
    = (if runner_consistent cert then Some (Ok ()) else Some (Err RunnerUpMismatch))"
    if run: "runner_up cert = Some (words, r)" for words r
  proof -
    obtain x where x: "score_for (point_count cert) ps r = Some (Ok x)" "normalized x" "exact_value x = candidate_score cert r"
      using ps(2) by blast
    have "\<not> ends_in_zero words" using wd run by (auto simp: well_declared_def)
    then have "limbs x = words \<longleftrightarrow> candidate_score cert r = limbs_value words" using canonical_limbs x(2,3) by simp
    moreover have "magnitude_cmp x (normalize v) = compare_limbs (candidate_score cert r) ?W"
      using magnitude_cmp_exact [OF x(2), of "normalize v"] x(3) v(2) by simp
    ultimately show ?thesis using x(1) w(1) v(1) run by (auto simp: runner_consistent_def)
  qed
  have check: "check_ties (point_count cert) ps (winning_score_limbs cert) (tie_class cert) =
    (case filter (\<lambda>c. candidate_score cert c \<noteq> ?W) (tie_class cert) of
       c # _ \<Rightarrow> Some (Err (TieClassScoreMismatch c)) | [] \<Rightarrow> Some (Ok ()))"
    by (rule ties)
  show ?thesis
  proof (cases "runner_up cert")
    case None
    then show ?thesis using ps(1) check
      by (auto simp: verify_consistency_def struct Let_def runner_consistent_def split: list.split)
  next
    case (Some p)
    obtain words r where p: "p = (words, r)" by (cases p)
    have "runner_up cert = Some (words, r)" using Some p by simp
    note run = runner [OF this]
    show ?thesis using ps(1) check run Some p
      by (auto simp: verify_consistency_def struct Let_def split: list.split)
  qed
qed

text \<open>The compact check accepts exactly the well-formed certificates whose declared candidates score as
  declared: every member of the tie class has the winning score, and the runner-up has its own,
  above it. It says nothing of the other candidates; and what the exhaustive audit accepts, it accepts.\<close>

theorem verify_consistency_accepts:
  assumes "length (winning_score_limbs cert) + 8 \<le> u64_max"
  shows "(verify_consistency cert = Some (Ok ()) \<longleftrightarrow> well_declared cert \<and> ties_declared cert
      \<and> (\<forall>c \<in> set (tie_class cert). candidate_score cert c = limbs_value (winning_score_limbs cert)) \<and> runner_consistent cert)
    \<and> (audit_minimality cert = Some (Ok ()) \<longrightarrow> verify_consistency cert = Some (Ok ()))"
proof (intro conjI impI)
  show iff: "verify_consistency cert = Some (Ok ()) \<longleftrightarrow> well_declared cert \<and> ties_declared cert
      \<and> (\<forall>c \<in> set (tie_class cert). candidate_score cert c = limbs_value (winning_score_limbs cert)) \<and> runner_consistent cert"
  proof (cases "structural cert")
    case (Ok P)
    then have "well_declared cert" "ties_declared cert" by (simp_all add: structural_Ok)
    moreover have "filter (\<lambda>c. candidate_score cert c \<noteq> limbs_value (winning_score_limbs cert)) (tie_class cert) = []
        \<longleftrightarrow> (\<forall>c \<in> set (tie_class cert). candidate_score cert c = limbs_value (winning_score_limbs cert))"
      by (simp add: filter_empty_conv)
    ultimately show ?thesis unfolding consistency_verdict [OF Ok assms] by (auto simp del: filter_empty_conv split: list.splits)
  next
    case (Err e)
    then have "\<not> (well_declared cert \<and> ties_declared cert)" using structural_Ok [of cert "butlast (prefix cert)"] by simp
    moreover have "verify_consistency cert = Some (Err e)" using Err by (simp add: verify_consistency_def)
    ultimately show ?thesis by auto
  qed (use structural_no_panic in blast)
  assume acc: "audit_minimality cert = Some (Ok ())"
  then obtain P where struct: "structural cert = Ok P" by (cases "structural cert") (auto simp: audit_minimality_def)
  note m = audit_sound [OF assms acc]
  have "runner_consistent cert" using m by (auto simp: exactly_minimal_def runner_consistent_def Let_def split: option.splits)
  then show "verify_consistency cert = Some (Ok ())" unfolding iff
    using m struct by (auto simp: structural_Ok exactly_minimal_def Let_def)
qed

theorem verify_consistency_accepts_witness: "verify_consistency five_points = Some (Ok ())"
proof -
  have "length (winning_score_limbs five_points) + 8 \<le> u64_max" by (simp add: five_points_def u64_max_def)
  then show ?thesis using verify_consistency_accepts [of five_points] five_points_audited by blast
qed

lemma checkers_answer:
  assumes "length (winning_score_limbs cert) + 8 \<le> u64_max"
  shows "(\<exists>r. audit_minimality cert = Some r \<and> r \<noteq> Panicked) \<and> (\<exists>r. verify_consistency cert = Some r \<and> r \<noteq> Panicked)"
proof (cases "structural cert")
  case (Ok P)
  then show ?thesis
    unfolding consistency_verdict [OF Ok assms] using audit_verdict [OF Ok assms] by (auto split: list.splits if_splits)
next
  case (Err e)
  then show ?thesis by (simp add: audit_minimality_def verify_consistency_def)
qed (use structural_no_panic in blast)

text \<open>Both checkers return on every certificate, without panicking, however hostile its contents; and when
  the audit names a candidate that beats the declared winner, that candidate is coprime to the point
  count, scores below the declaration, and is the lowest to do so.\<close>

theorem checkers_always_answer:
  assumes "length (winning_score_limbs cert) + 8 \<le> u64_max"
  shows "(\<exists>r. audit_minimality cert = Some r \<and> r \<noteq> Panicked) \<and> (\<exists>r. verify_consistency cert = Some r \<and> r \<noteq> Panicked)
    \<and> (audit_minimality cert = Some (Err (NotMinimal c)) \<longrightarrow>
        unit_mod (point_count cert) c \<and> candidate_score cert c < limbs_value (winning_score_limbs cert)
        \<and> (\<forall>d. unit_mod (point_count cert) d \<and> candidate_score cert d < limbs_value (winning_score_limbs cert) \<longrightarrow> c \<le> d))"
proof (cases "structural cert")
  case (Ok P)
  have sorted: "sorted_wrt (<) (beating cert)"
    by (auto simp: beating_def intro: sorted_wrt_filter candidates_below_sorted)
  have "hd (beating cert) = c \<and> beating cert \<noteq> []" if "audit_minimality cert = Some (Err (NotMinimal c))"
    using that unfolding audit_verdict [OF Ok assms] by (auto split: list.splits if_splits)
  then have "c \<in> set (beating cert) \<and> (\<forall>d \<in> set (beating cert). c \<le> d)" if "audit_minimality cert = Some (Err (NotMinimal c))"
    using that sorted_hd_least [OF sorted] by fastforce
  then show ?thesis using checkers_answer [OF assms] by (simp add: scan_sets)
next
  case (Err e)
  have "e \<noteq> NotMinimal c" using Err by (auto simp: structural_def chosen_def Let_def split: if_splits option.splits)
  then show ?thesis using Err checkers_answer [OF assms] by (simp add: audit_minimality_def)
qed (use structural_no_panic in blast)

theorem checkers_always_answer_witness:
  "\<exists>r. audit_minimality five_points = Some r \<and> r \<noteq> Panicked"
  using checkers_always_answer [of five_points 1] by (simp add: five_points_def u64_max_def)

end
