(* ===== verification/Cbc_Admission.thy ===== *)
theory Cbc_Admission
  imports Cbc_Audit
begin

text \<open>
  Budget-first admission of exact lattice construction (\<open>crates/fs-rand/src/cbc.rs\<close>): the checked
  estimate of work and storage, the schedule of debits sealed into it, and the receipt the executor
  requires. Quantities are the code's \<open>u128\<close> with every check written out; the sizes the compiler
  gives the three owners are an argument, and the target is the 64-bit one.
\<close>

section \<open>Constants and refusals\<close>

definition CBC_ADMISSION_SCHEMA_VERSION :: u32 where "CBC_ADMISSION_SCHEMA_VERSION = 4"
definition CBC_EXECUTOR_SCHEMA_VERSION :: u32 where "CBC_EXECUTOR_SCHEMA_VERSION = 3"
definition CBC_CERTIFICATE_SCHEMA_VERSION :: u32 where "CBC_CERTIFICATE_SCHEMA_VERSION = 2"

definition LIMB_BYTES :: nat where "LIMB_BYTES = 4"
definition FACTOR_SCRATCH_BYTES :: nat where "FACTOR_SCRATCH_BYTES = 4 * LIMB_BYTES"
definition SCALAR_UNITS_PER_LATTICE_VISIT :: nat where "SCALAR_UNITS_PER_LATTICE_VISIT = 20"
definition SCALAR_UNITS_PER_FACTOR :: nat where "SCALAR_UNITS_PER_FACTOR = 1"
definition SCALAR_UNITS_PER_FACTOR_LIMB :: nat where "SCALAR_UNITS_PER_FACTOR_LIMB = 8"
definition SCALAR_UNITS_PER_GCD_STEP :: nat where "SCALAR_UNITS_PER_GCD_STEP = 3"
definition SCALAR_UNITS_PER_CANDIDATE :: nat where "SCALAR_UNITS_PER_CANDIDATE = 16"
definition SCALAR_UNITS_PER_DIMENSION :: nat where "SCALAR_UNITS_PER_DIMENSION = 8"
definition CERTIFICATE_UNITS_PER_CANDIDATE :: nat where "CERTIFICATE_UNITS_PER_CANDIDATE = 1"
definition CERTIFICATE_FIXED_UNITS_PER_PREFIX :: nat where "CERTIFICATE_FIXED_UNITS_PER_PREFIX = 6"

datatype cbc_execution_mode = Construction | Certified

datatype cbc_admission_error =
    InvalidPointCount u32
  | InvalidDimension nat
  | EstimateOverflow string
  | TargetCapacityExceeded string nat nat
  | WorkBudgetExceeded nat nat
  | MemoryBudgetExceeded nat nat

text \<open>\<open>ok_or_else\<close> of an overflow followed by \<open>?\<close>; \<open>target_bound\<close> followed by \<open>?\<close>; and \<open>?\<close> itself.\<close>

definition need ::
  "string \<Rightarrow> 'a option \<Rightarrow> ('a \<Rightarrow> (cbc_admission_error, 'b) outcome) \<Rightarrow> (cbc_admission_error, 'b) outcome" where
  "need quantity checked k = (case checked of None \<Rightarrow> Err (EstimateOverflow quantity) | Some v \<Rightarrow> k v)"

definition target_bound ::
  "string \<Rightarrow> nat \<Rightarrow> nat \<Rightarrow> (cbc_admission_error, 'b) outcome \<Rightarrow> (cbc_admission_error, 'b) outcome" where
  "target_bound quantity required limit k =
    (if limit < required then Err (TargetCapacityExceeded quantity required limit) else k)"

definition try_ok ::
  "('e, 'a) outcome \<Rightarrow> ('a \<Rightarrow> ('e, 'b) outcome) \<Rightarrow> ('e, 'b) outcome" where
  "try_ok r k = (case r of Ok v \<Rightarrow> k v | Err e \<Rightarrow> Err e | Panicked \<Rightarrow> Panicked)"

definition add128 :: "nat \<Rightarrow> nat \<Rightarrow> nat option" where "add128 = checked_add u128_max"
definition mul128 :: "nat \<Rightarrow> nat \<Rightarrow> nat option" where "mul128 = checked_mul u128_max"

section \<open>Integer helpers\<close>

text \<open>\<open>bits - leading_zeros\<close>.\<close>

fun bit_width :: "nat \<Rightarrow> nat" where
  "bit_width v = (if v = 0 then 0 else Suc (bit_width (v div 2)))"

declare bit_width.simps [simp del]

definition ceil_log2 :: "nat \<Rightarrow> nat" where
  "ceil_log2 v = bit_width (v - 1)"

definition limbs_for_bits :: "nat \<Rightarrow> nat option" where
  "limbs_for_bits bits = map_option (\<lambda>rounded. rounded div 32) (add128 bits 31)"

definition checked_triangular :: "nat \<Rightarrow> (cbc_admission_error, nat) outcome" where
  "checked_triangular v =
    need ''triangular successor'' (add128 v 1) (\<lambda>successor.
    need ''triangular product''
      (if v mod 2 = 0 then mul128 (v div 2) successor else mul128 v (successor div 2)) Ok)"

text \<open>The inner loop of the totient; its factor is at least two and its value at least one.\<close>

function strip_factor :: "nat \<Rightarrow> nat \<Rightarrow> nat" where
  "strip_factor v factor =
    (if 2 \<le> factor \<and> 0 < v \<and> v mod factor = 0 then strip_factor (v div factor) factor else v)"
  by pat_completeness auto
termination by (relation "measure fst") (auto intro: div_less_dividend)

declare strip_factor.simps [simp del]

lemma strip_factor_le: "strip_factor v factor \<le> v"
proof (induction v factor rule: strip_factor.induct)
  case (1 v factor)
  show ?case
  proof (cases "2 \<le> factor \<and> 0 < v \<and> v mod factor = 0")
    case True
    have "strip_factor (v div factor) factor \<le> v div factor" by (rule 1 [OF True])
    also have "\<dots> \<le> v" by (rule div_le_dividend)
    finally show ?thesis using True by (simp add: strip_factor.simps [of v])
  qed (auto simp: strip_factor.simps [of v])
qed

function totient_loop :: "nat \<Rightarrow> nat \<Rightarrow> nat \<Rightarrow> nat \<times> nat" where
  "totient_loop v result factor =
    (if factor \<le> v div factor
     then
       (let next_factor = (if factor = 2 then 3 else factor + 2)
        in if v mod factor = 0
           then totient_loop (strip_factor v factor) (result - result div factor) next_factor
           else totient_loop v result next_factor)
     else (v, result))"
  by pat_completeness auto
termination
proof (relation "measure (\<lambda>(v, result, factor). v + 3 - factor)", goal_cases)
  case (2 v result factor next_factor)
  have "factor \<le> v" using 2(1) div_le_dividend le_trans by blast
  then show ?case using strip_factor_le [of v factor] 2(2) by auto
next
  case (3 v result factor next_factor)
  have "factor \<le> v" using 3(1) div_le_dividend le_trans by blast
  then show ?case using 3(2) by auto
qed simp

declare totient_loop.simps [simp del]

definition euler_totient :: "nat \<Rightarrow> nat" where
  "euler_totient v =
    (let (rest, result) = totient_loop v v 2
     in if 1 < rest then result - result div rest else result)"

section \<open>The schedule\<close>

record cbc_execution_schedule =
  candidate_visit :: nat
  candidate_control :: nat
  product_update_visit :: nat
  initialization_visit :: nat
  prefix_control :: nat
  candidate_visit_limb :: nat
  candidate_visit_scalar :: nat
  candidate_control_limb :: nat
  candidate_control_scalar :: nat
  product_update_limb :: nat
  product_update_scalar :: nat
  certificate_candidate :: nat
  certificate_score_copy_limb :: nat
  certificate_fixed_prefix :: nat

definition checked_schedule ::
  "nat \<Rightarrow> nat \<Rightarrow> nat \<Rightarrow> nat \<Rightarrow> nat \<Rightarrow> nat \<Rightarrow> (cbc_admission_error, cbc_execution_schedule) outcome" where
  "checked_schedule points kernel_factor_limbs max_source_product_limbs score_capacity product_capacity max_score_limbs =
    need ''execution visit limb work''
      (Option.bind (mul128 max_source_product_limbs kernel_factor_limbs) (\<lambda>multiply_add.
       Option.bind (mul128 max_source_product_limbs score_capacity) (\<lambda>carry. add128 multiply_add carry))) (\<lambda>visit_limb_units.
    need ''execution visit scalar work''
      (Option.bind (mul128 kernel_factor_limbs SCALAR_UNITS_PER_FACTOR_LIMB) (\<lambda>factor_limbs.
       Option.bind (add128 SCALAR_UNITS_PER_LATTICE_VISIT SCALAR_UNITS_PER_FACTOR) (\<lambda>fixed.
       add128 fixed factor_limbs))) (\<lambda>visit_scalar_units.
    need ''execution candidate visit work'' (add128 visit_limb_units visit_scalar_units) (\<lambda>candidate_visit_units.
    need ''execution GCD step bound'' (Option.bind (mul128 (ceil_log2 points) 2) (\<lambda>steps. add128 steps 1)) (\<lambda>gcd_step_upper_bound.
    need ''execution candidate scalar control work''
      (Option.bind (mul128 gcd_step_upper_bound SCALAR_UNITS_PER_GCD_STEP)
        (\<lambda>gcd_units. add128 gcd_units SCALAR_UNITS_PER_CANDIDATE)) (\<lambda>candidate_control_scalar_units.
    need ''execution candidate limb control work''
      (Option.bind (mul128 score_capacity 2) (\<lambda>score_units. add128 score_units max_score_limbs)) (\<lambda>candidate_control_limb_units.
    need ''execution candidate control work''
      (add128 candidate_control_scalar_units candidate_control_limb_units) (\<lambda>candidate_control_units.
    need ''execution product-update limb work''
      (Option.bind (mul128 product_capacity 2) (\<lambda>product_units. add128 visit_limb_units product_units)) (\<lambda>product_update_limb_units.
    need ''execution product-update work'' (add128 product_update_limb_units visit_scalar_units) (\<lambda>product_update_visit_units.
    need ''execution initialization work'' (add128 product_update_visit_units 1) (\<lambda>initialization_visit_units.
    need ''execution prefix control work'' (add128 SCALAR_UNITS_PER_DIMENSION 1) (\<lambda>prefix_control_units.
    need ''certificate score-copy work'' (mul128 score_capacity 2) (\<lambda>score_copy.
    Ok \<lparr>candidate_visit = candidate_visit_units, candidate_control = candidate_control_units,
      product_update_visit = product_update_visit_units, initialization_visit = initialization_visit_units,
      prefix_control = prefix_control_units, candidate_visit_limb = visit_limb_units,
      candidate_visit_scalar = visit_scalar_units, candidate_control_limb = candidate_control_limb_units,
      candidate_control_scalar = candidate_control_scalar_units, product_update_limb = product_update_limb_units,
      product_update_scalar = visit_scalar_units, certificate_candidate = CERTIFICATE_UNITS_PER_CANDIDATE,
      certificate_score_copy_limb = score_copy, certificate_fixed_prefix = CERTIFICATE_FIXED_UNITS_PER_PREFIX\<rparr>))))))))))))"

text \<open>Sums of counts at their charges.\<close>

definition add_product :: "nat \<Rightarrow> nat \<Rightarrow> nat option \<Rightarrow> nat option" where
  "add_product count_of charge so_far =
    Option.bind so_far (\<lambda>units. Option.bind (mul128 count_of charge) (\<lambda>control. add128 units control))"

definition checked_upper_bound :: "cbc_execution_schedule \<Rightarrow> nat \<Rightarrow> nat \<Rightarrow> nat \<Rightarrow> nat \<Rightarrow> nat \<Rightarrow> nat option" where
  "checked_upper_bound self candidate_visits candidate_count product_update_visits initialization_points prefixes =
    add_product prefixes (prefix_control self)
      (Option.bind
        (add_product product_update_visits (product_update_visit self)
          (add_product candidate_count (candidate_control self) (mul128 candidate_visits (candidate_visit self))))
        (\<lambda>units. add128 units initialization_points))"

definition checked_certificate_upper_bound :: "cbc_execution_schedule \<Rightarrow> nat \<Rightarrow> nat \<Rightarrow> nat \<Rightarrow> nat option" where
  "checked_certificate_upper_bound self candidate_count scanned_prefixes prefix_payload_words =
    Option.bind (mul128 candidate_count (certificate_candidate self)) (\<lambda>units.
    Option.bind (add128 (certificate_score_copy_limb self) (certificate_fixed_prefix self)) (\<lambda>per_prefix.
    Option.bind (mul128 scanned_prefixes per_prefix) (\<lambda>prefix_units.
    Option.bind (add128 units prefix_units) (\<lambda>units.
    add128 units prefix_payload_words))))"

definition checked_limb_upper_bound :: "cbc_execution_schedule \<Rightarrow> nat \<Rightarrow> nat \<Rightarrow> nat \<Rightarrow> nat option" where
  "checked_limb_upper_bound self candidate_visits candidate_count product_update_visits =
    add_product product_update_visits (product_update_limb self)
      (add_product candidate_count (candidate_control_limb self) (mul128 candidate_visits (candidate_visit_limb self)))"

definition checked_scalar_upper_bound :: "cbc_execution_schedule \<Rightarrow> nat \<Rightarrow> nat \<Rightarrow> nat \<Rightarrow> nat \<Rightarrow> nat \<Rightarrow> nat option" where
  "checked_scalar_upper_bound self candidate_visits candidate_count product_update_visits initialization_points prefixes =
    add_product prefixes (prefix_control self)
      (Option.bind
        (add_product product_update_visits (product_update_scalar self)
          (add_product candidate_count (candidate_control_scalar self) (mul128 candidate_visits (candidate_visit_scalar self))))
        (\<lambda>units. add128 units initialization_points))"

definition certificate_prefix_units :: "cbc_execution_schedule \<Rightarrow> nat \<Rightarrow> nat option" where
  "certificate_prefix_units self prefix_len =
    Option.bind (add128 prefix_len (certificate_score_copy_limb self)) (\<lambda>units. add128 units (certificate_fixed_prefix self))"

section \<open>Problems and estimates\<close>

record cbc_problem =
  problem_point_count :: u32
  problem_dimension :: nat

definition cbc_problem_new :: "u32 \<Rightarrow> nat \<Rightarrow> (cbc_admission_error, cbc_problem) outcome" where
  "cbc_problem_new points dimension =
    (if points < 3 then Err (InvalidPointCount points)
     else if dimension = 0 then Err (InvalidDimension dimension)
     else Ok \<lparr>problem_point_count = points, problem_dimension = dimension\<rparr>)"

text \<open>\<open>size_of\<close> of the executor, of one exact number and of one certificate.\<close>

record owner_sizes =
  exact_nat_size :: nat
  executor_size :: nat
  certificate_size :: nat

record cbc_estimate =
  estimate_mode :: cbc_execution_mode
  executor_schema_version :: u32
  certificate_schema_version :: u32
  target_pointer_width_bits :: nat
  candidate_upper_bound :: nat
  candidate_count :: nat
  admissible_candidates_per_prefix :: nat
  admissible_candidate_count :: nat
  candidate_visits :: nat
  kernel_numerator_upper :: nat
  kernel_numerator_bits :: nat
  kernel_factor_limbs :: nat
  max_product_bits :: nat
  max_product_limbs :: nat
  max_source_product_limbs :: nat
  max_score_bits :: nat
  max_score_limbs :: nat
  score_capacity_limbs :: nat
  product_capacity_limbs :: nat
  previous_product_capacity_limbs :: nat
  lattice_visits :: nat
  product_update_visits :: nat
  comparison_count :: nat
  construction_limb_work_units :: nat
  construction_scalar_work_units :: nat
  construction_work_units :: nat
  certificate_work_units :: nat
  limb_work_units :: nat
  scalar_work_units :: nat
  work_units :: nat
  executor_inline_bytes :: nat
  product_owner_array_bytes :: nat
  resident_product_payload_bytes :: nat
  product_overlap_bytes :: nat
  certificate_owner_bytes :: nat
  certificate_prefix_payload_bytes :: nat
  certificate_score_payload_bytes :: nat
  certificate_tie_payload_bytes :: nat
  certificate_retained_bytes :: nat
  candidate_phase_bytes :: nat
  update_phase_bytes :: nat
  logical_state_bytes :: nat
  execution_schedule :: cbc_execution_schedule

text \<open>The widths of the operands, from the problem.\<close>

record cbc_widths =
  w_kernel_upper :: nat
  w_kernel_bits :: nat
  w_kernel_limbs :: nat
  w_product_bits :: nat
  w_product_limbs :: nat
  w_source_limbs :: nat
  w_score_bits :: nat
  w_score_limbs :: nat
  w_product_capacity :: nat
  w_score_capacity :: nat

definition operand_widths :: "nat \<Rightarrow> nat \<Rightarrow> nat \<Rightarrow> (cbc_admission_error, cbc_widths) outcome" where
  "operand_widths points dimension later_dimensions =
    need ''point-count square'' (mul128 points points) (\<lambda>point_square.
    need ''kernel numerator'' (mul128 7 point_square) (\<lambda>kernel_upper.
    let kernel_bits = bit_width kernel_upper in
    need ''limb rounding'' (limbs_for_bits kernel_bits) (\<lambda>kernel_limbs.
    need ''product bit width'' (mul128 kernel_bits dimension) (\<lambda>product_bits.
    need ''limb rounding'' (limbs_for_bits product_bits) (\<lambda>product_limbs.
    need ''source-product bit width'' (mul128 kernel_bits later_dimensions) (\<lambda>source_bits.
    need ''limb rounding'' (limbs_for_bits source_bits) (\<lambda>source_limbs.
    let source_limbs = max source_limbs 1 in
    need ''score bit width'' (add128 product_bits (ceil_log2 points)) (\<lambda>score_bits.
    need ''limb rounding'' (limbs_for_bits score_bits) (\<lambda>score_limbs.
    need ''product limb capacity''
      (Option.bind (add128 source_limbs kernel_limbs) (\<lambda>capacity. add128 capacity 1)) (\<lambda>product_capacity.
    Ok \<lparr>w_kernel_upper = kernel_upper, w_kernel_bits = kernel_bits, w_kernel_limbs = kernel_limbs,
      w_product_bits = product_bits, w_product_limbs = product_limbs, w_source_limbs = source_limbs,
      w_score_bits = score_bits, w_score_limbs = score_limbs, w_product_capacity = product_capacity,
      w_score_capacity = max product_capacity score_limbs\<rparr>))))))))))"

text \<open>The counts of the schedule.\<close>

record cbc_counts =
  n_candidates :: nat
  n_admissible :: nat
  n_candidate_visits :: nat
  n_update_visits :: nat
  n_lattice_visits :: nat
  n_prefix_words :: nat

definition prefix_payload :: "cbc_execution_mode \<Rightarrow> nat \<Rightarrow> nat \<Rightarrow> (cbc_admission_error, nat) outcome" where
  "prefix_payload mode dimension later_dimensions =
    (case mode of
       Construction \<Rightarrow> Ok 0
     | Certified \<Rightarrow>
         if later_dimensions = 0 then Ok 0
         else try_ok (checked_triangular dimension) (\<lambda>t. need ''certificate prefix payload'' (checked_sub t 1) Ok))"

definition schedule_counts ::
  "cbc_execution_mode \<Rightarrow> nat \<Rightarrow> nat \<Rightarrow> nat \<Rightarrow> nat \<Rightarrow> nat \<Rightarrow> (cbc_admission_error, cbc_counts) outcome" where
  "schedule_counts mode points dimension later_dimensions candidates admissible =
    need ''candidate count'' (mul128 later_dimensions candidates) (\<lambda>candidate_total.
    need ''admissible candidate count'' (mul128 later_dimensions admissible) (\<lambda>admissible_total.
    need ''candidate lattice visits''
      (Option.bind (mul128 later_dimensions points) (\<lambda>visits. mul128 visits admissible)) (\<lambda>visits.
    need ''product-update visits'' (mul128 dimension points) (\<lambda>updates.
    need ''total lattice visits'' (add128 visits updates) (\<lambda>lattice.
    try_ok (prefix_payload mode dimension later_dimensions) (\<lambda>words.
    Ok \<lparr>n_candidates = candidate_total, n_admissible = admissible_total, n_candidate_visits = visits,
      n_update_visits = updates, n_lattice_visits = lattice, n_prefix_words = words\<rparr>))))))"

text \<open>The modelled state, in bytes.\<close>

record cbc_bytes =
  b_owner_array :: nat
  b_generator :: nat
  b_resident :: nat
  b_overlap :: nat
  b_score :: nat
  b_certificates :: nat
  b_certificate_owner :: nat
  b_certificate_prefix :: nat
  b_certificate_score :: nat
  b_certificate_tie :: nat
  b_certificate_retained :: nat
  b_candidate_phase :: nat
  b_update_phase :: nat
  b_logical_state :: nat

definition state_bytes ::
  "owner_sizes \<Rightarrow> cbc_execution_mode \<Rightarrow> nat \<Rightarrow> nat \<Rightarrow> nat \<Rightarrow> nat \<Rightarrow> cbc_widths \<Rightarrow> cbc_counts
    \<Rightarrow> (cbc_admission_error, cbc_bytes) outcome" where
  "state_bytes sizes mode points dimension later_dimensions admissible w counts =
    need ''product owner array'' (mul128 points (exact_nat_size sizes)) (\<lambda>owner_array.
    need ''generator payload'' (mul128 dimension LIMB_BYTES) (\<lambda>generator.
    need ''resident product payload''
      (Option.bind (mul128 points (w_product_capacity w)) (\<lambda>limbs. mul128 limbs LIMB_BYTES)) (\<lambda>resident.
    need ''product-update overlap'' (mul128 (w_product_capacity w) LIMB_BYTES) (\<lambda>overlap.
    need ''score payload'' (mul128 (w_score_capacity w) LIMB_BYTES) (\<lambda>score.
    let certificates = (case mode of Construction \<Rightarrow> 0 | Certified \<Rightarrow> later_dimensions) in
    need ''certificate owner array'' (mul128 certificates (certificate_size sizes)) (\<lambda>certificate_owner.
    need ''certificate prefix payload bytes''
      (case mode of Construction \<Rightarrow> Some 0 | Certified \<Rightarrow> mul128 (n_prefix_words counts) LIMB_BYTES) (\<lambda>certificate_prefix.
    need ''certificate score payload bytes''
      (Option.bind (mul128 certificates 2) (\<lambda>scores. mul128 scores score)) (\<lambda>certificate_score.
    need ''certificate tie payload bytes''
      (Option.bind (mul128 certificates admissible) (\<lambda>words. mul128 words LIMB_BYTES)) (\<lambda>certificate_tie.
    need ''certificate retained state''
      (Option.bind (add128 certificate_owner certificate_prefix) (\<lambda>bytes.
       Option.bind (add128 bytes certificate_score) (\<lambda>bytes. add128 bytes certificate_tie))) (\<lambda>retained.
    need ''common logical state''
      (Option.bind (add128 (executor_size sizes) owner_array) (\<lambda>bytes.
       Option.bind (add128 bytes resident) (\<lambda>bytes.
       Option.bind (add128 bytes generator) (\<lambda>bytes.
       Option.bind (add128 bytes FACTOR_SCRATCH_BYTES) (\<lambda>bytes. add128 bytes retained))))) (\<lambda>common.
    try_ok
      (if n_candidates counts = 0 then Ok 0
       else
         need ''candidate score payloads'' (mul128 (case mode of Construction \<Rightarrow> 2 | Certified \<Rightarrow> 3) score) (\<lambda>live.
         need ''candidate-phase logical state'' (add128 common live) Ok)) (\<lambda>candidate_phase.
    need ''update-phase logical state'' (add128 common overlap) (\<lambda>update_phase.
    Ok \<lparr>b_owner_array = owner_array, b_generator = generator, b_resident = resident, b_overlap = overlap,
      b_score = score, b_certificates = certificates, b_certificate_owner = certificate_owner,
      b_certificate_prefix = certificate_prefix, b_certificate_score = certificate_score,
      b_certificate_tie = certificate_tie, b_certificate_retained = retained,
      b_candidate_phase = candidate_phase, b_update_phase = update_phase,
      b_logical_state = max candidate_phase update_phase\<rparr>)))))))))))))"

text \<open>What a 64-bit target can represent.\<close>

definition USIZE_BITS :: nat where "USIZE_BITS = 64"
definition isize_max :: nat where "isize_max = 2 ^ 63 - 1"

definition target_bounds ::
  "cbc_execution_mode \<Rightarrow> nat \<Rightarrow> nat \<Rightarrow> nat \<Rightarrow> cbc_widths \<Rightarrow> cbc_bytes \<Rightarrow> (cbc_admission_error, unit) outcome" where
  "target_bounds mode points dimension admissible w bytes =
    target_bound ''point-count element count'' points u64_max (
    target_bound ''product owner-array bytes'' (b_owner_array bytes) isize_max (
    target_bound ''generator element count'' dimension u64_max (
    target_bound ''generator allocation bytes'' (b_generator bytes) isize_max (
    target_bound ''product element capacity'' (w_product_capacity w) u64_max (
    need ''product allocation'' (mul128 (w_product_capacity w) LIMB_BYTES) (\<lambda>allocation.
    target_bound ''product allocation bytes'' allocation isize_max (
    target_bound ''previous-product element capacity'' (w_product_capacity w) u64_max (
    target_bound ''previous-product allocation bytes'' (b_overlap bytes) isize_max (
    target_bound ''score element capacity'' (w_score_capacity w) u64_max (
    target_bound ''score allocation bytes'' (b_score bytes) isize_max (
    try_ok
      (case mode of
         Construction \<Rightarrow> Ok ()
       | Certified \<Rightarrow>
           target_bound ''certificate denominator exponent'' dimension u32_max (
           target_bound ''certificate owner-array bytes'' (b_certificate_owner bytes) isize_max (
           target_bound ''certificate tie element capacity'' admissible u64_max (
           need ''certificate tie allocation'' (mul128 admissible LIMB_BYTES) (\<lambda>ties.
           target_bound ''certificate tie allocation bytes'' ties isize_max (Ok ())))))) (\<lambda>_.
    target_bound ''logical-state address-space bytes'' (b_logical_state bytes) (u64_max + 1) (Ok ()))))))))))))) "

text \<open>The work of the schedule.\<close>

record cbc_work =
  k_construction_limb :: nat
  k_construction_scalar :: nat
  k_construction :: nat
  k_certificate :: nat
  k_limb :: nat
  k_scalar :: nat
  k_total :: nat

definition scheduled_work ::
  "cbc_execution_mode \<Rightarrow> cbc_execution_schedule \<Rightarrow> nat \<Rightarrow> nat \<Rightarrow> nat \<Rightarrow> nat \<Rightarrow> cbc_counts
    \<Rightarrow> (cbc_admission_error, cbc_work) outcome" where
  "scheduled_work mode schedule points dimension later_dimensions certificates counts =
    need ''execution limb schedule upper bound''
      (checked_limb_upper_bound schedule (n_candidate_visits counts) (n_candidates counts) (n_update_visits counts)) (\<lambda>limb.
    need ''execution scalar schedule upper bound''
      (checked_scalar_upper_bound schedule (n_candidate_visits counts) (n_candidates counts) (n_update_visits counts)
        points dimension) (\<lambda>scalar.
    need ''construction work'' (add128 limb scalar) (\<lambda>construction.
    need ''execution schedule upper bound''
      (checked_upper_bound schedule (n_candidate_visits counts) (n_candidates counts) (n_update_visits counts)
        points dimension) (\<lambda>scheduled.
    try_ok
      (case mode of
         Construction \<Rightarrow> Ok 0
       | Certified \<Rightarrow>
           need ''certificate execution schedule''
             (checked_certificate_upper_bound schedule (n_candidates counts) later_dimensions (n_prefix_words counts)) Ok)
      (\<lambda>certificate.
    need ''certificate limb work'' (mul128 certificates (certificate_score_copy_limb schedule)) (\<lambda>certificate_limb.
    need ''certificate scalar work'' (checked_sub certificate certificate_limb) (\<lambda>certificate_scalar.
    need ''total limb work'' (add128 limb certificate_limb) (\<lambda>limb_total.
    need ''total scalar work'' (add128 scalar certificate_scalar) (\<lambda>scalar_total.
    need ''total work'' (add128 construction certificate) (\<lambda>work.
    Ok \<lparr>k_construction_limb = limb, k_construction_scalar = scalar, k_construction = construction,
      k_certificate = certificate, k_limb = limb_total, k_scalar = scalar_total, k_total = work\<rparr>))))))))))"

definition estimate_for :: "owner_sizes \<Rightarrow> cbc_problem \<Rightarrow> cbc_execution_mode \<Rightarrow> (cbc_admission_error, cbc_estimate) outcome" where
  "estimate_for sizes self mode =
    (let points = unat (problem_point_count self); dimension = problem_dimension self in
    need ''later dimensions'' (checked_sub dimension 1) (\<lambda>later_dimensions.
    let candidates = points - 1; admissible = euler_totient points in
    try_ok (operand_widths points dimension later_dimensions) (\<lambda>w.
    try_ok (checked_schedule points (w_kernel_limbs w) (w_source_limbs w) (w_score_capacity w) (w_product_capacity w)
        (w_score_limbs w)) (\<lambda>schedule.
    try_ok (schedule_counts mode points dimension later_dimensions candidates admissible) (\<lambda>counts.
    try_ok (state_bytes sizes mode points dimension later_dimensions admissible w counts) (\<lambda>bytes.
    try_ok (target_bounds mode points dimension admissible w bytes) (\<lambda>_.
    try_ok (scheduled_work mode schedule points dimension later_dimensions (b_certificates bytes) counts) (\<lambda>work.
    Ok \<lparr>estimate_mode = mode, executor_schema_version = CBC_EXECUTOR_SCHEMA_VERSION,
      certificate_schema_version = (case mode of Construction \<Rightarrow> 0 | Certified \<Rightarrow> CBC_CERTIFICATE_SCHEMA_VERSION),
      target_pointer_width_bits = USIZE_BITS, candidate_upper_bound = candidates,
      candidate_count = n_candidates counts, admissible_candidates_per_prefix = admissible,
      admissible_candidate_count = n_admissible counts, candidate_visits = n_candidate_visits counts,
      kernel_numerator_upper = w_kernel_upper w, kernel_numerator_bits = w_kernel_bits w,
      kernel_factor_limbs = w_kernel_limbs w, max_product_bits = w_product_bits w,
      max_product_limbs = w_product_limbs w, max_source_product_limbs = w_source_limbs w,
      max_score_bits = w_score_bits w, max_score_limbs = w_score_limbs w,
      score_capacity_limbs = w_score_capacity w, product_capacity_limbs = w_product_capacity w,
      previous_product_capacity_limbs = w_product_capacity w, lattice_visits = n_lattice_visits counts,
      product_update_visits = n_update_visits counts, comparison_count = n_candidates counts,
      construction_limb_work_units = k_construction_limb work,
      construction_scalar_work_units = k_construction_scalar work,
      construction_work_units = k_construction work, certificate_work_units = k_certificate work,
      limb_work_units = k_limb work, scalar_work_units = k_scalar work, work_units = k_total work,
      executor_inline_bytes = executor_size sizes, product_owner_array_bytes = b_owner_array bytes,
      resident_product_payload_bytes = b_resident bytes, product_overlap_bytes = b_overlap bytes,
      certificate_owner_bytes = b_certificate_owner bytes,
      certificate_prefix_payload_bytes = b_certificate_prefix bytes,
      certificate_score_payload_bytes = b_certificate_score bytes,
      certificate_tie_payload_bytes = b_certificate_tie bytes,
      certificate_retained_bytes = b_certificate_retained bytes,
      candidate_phase_bytes = b_candidate_phase bytes, update_phase_bytes = b_update_phase bytes,
      logical_state_bytes = b_logical_state bytes, execution_schedule = schedule\<rparr>))))))))"

section \<open>Admission\<close>

record cbc_budget =
  max_work_units :: nat
  max_memory_bytes :: nat

record cbc_admission =
  admission_schema_version :: u32
  admission_mode :: cbc_execution_mode
  admission_problem :: cbc_problem
  admission_budget :: cbc_budget
  admission_estimate :: cbc_estimate

definition admit_for ::
  "owner_sizes \<Rightarrow> cbc_problem \<Rightarrow> cbc_execution_mode \<Rightarrow> cbc_budget \<Rightarrow> (cbc_admission_error, cbc_admission) outcome" where
  "admit_for sizes self mode budget =
    try_ok (estimate_for sizes self mode) (\<lambda>estimate.
    if max_work_units budget < work_units estimate
    then Err (WorkBudgetExceeded (work_units estimate) (max_work_units budget))
    else if max_memory_bytes budget < logical_state_bytes estimate
    then Err (MemoryBudgetExceeded (logical_state_bytes estimate) (max_memory_bytes budget))
    else Ok \<lparr>admission_schema_version = CBC_ADMISSION_SCHEMA_VERSION, admission_mode = mode, admission_problem = self,
      admission_budget = budget, admission_estimate = estimate\<rparr>)"

definition has_current_authority :: "owner_sizes \<Rightarrow> cbc_admission \<Rightarrow> bool" where
  "has_current_authority sizes self \<longleftrightarrow>
    admission_schema_version self = CBC_ADMISSION_SCHEMA_VERSION
    \<and> admission_mode self = estimate_mode (admission_estimate self)
    \<and> estimate_for sizes (admission_problem self) (admission_mode self) = Ok (admission_estimate self)
    \<and> work_units (admission_estimate self) \<le> max_work_units (admission_budget self)
    \<and> logical_state_bytes (admission_estimate self) \<le> max_memory_bytes (admission_budget self)"

end
