(* ===== verification/Cbc_Executor.thy ===== *)
theory Cbc_Executor
  imports Cbc_Admission
begin

text \<open>
  The tiled, resumable executor of exact lattice construction (\<open>crates/fs-rand/src/cbc_exec.rs\<close>):
  its state and phases, strict debits, the scan of one candidate at a time down to mutation cells,
  the tiles of each phase, and runs under polls and an allowance.

  The allocator is an argument: which reservations succeed in a tile, by class, cursor and size, and
  the capacity it reports for a reservation. An unwound panic carries a reason, also an argument.
  Point indices and tile counters are natural numbers, generator components are words.
\<close>

section \<open>Outcomes and refusals\<close>

datatype cbc_boundary = Entry | PointBlock | CandidateBlock | Prefix | LimbBlock

datatype cbc_run_status =
    Completed
  | Cancelled cbc_boundary
  | AllowanceExhausted cbc_boundary
  | NeedAllowance cbc_boundary nat

datatype cbc_storage_class =
    ProductOwnerArray | ProductLimbs | ZPrefix | CertificateRecords | CertificatePrefixScratch
  | CertificateScoreScratch | CertificateTieScratch | ScoreAccumulator | MultiplyScratch

datatype cbc_phase_kind = AtConstruction | AtInit | AtScan | AtUpdate | AtCertificateEmission

record cbc_storage_refusal =
  storage_class :: cbc_storage_class
  storage_phase :: cbc_phase_kind
  storage_cursor :: nat
  requested :: nat
  admitted :: nat
  observed :: nat

datatype cbc_exec_error =
    AdmissionAuthorityMismatch
  | InvalidTileShape u32 u32
  | AllowanceShort nat cbc_boundary
  | InvalidLimbBlock u32
  | ScheduleOverrun nat nat
  | StorageScheduleOverrun nat nat
  | AlreadyComplete
  | Storage cbc_storage_refusal
  | CertificatesAfterStart
  | CertificatesNotAdmitted
  | PoisonedBy string

record cbc_tile_shape =
  candidate_block :: u32
  point_block :: u32
  limb_block :: u32

definition DEFAULT_LIMB_BLOCK :: u32 where "DEFAULT_LIMB_BLOCK = 64"

definition with_limbs :: "u32 \<Rightarrow> u32 \<Rightarrow> u32 \<Rightarrow> (cbc_exec_error, cbc_tile_shape) outcome" where
  "with_limbs candidates points cells =
    (if candidates = 0 \<or> points = 0 then Err (InvalidTileShape candidates points)
     else if cells = 0 then Err (InvalidLimbBlock cells)
     else Ok \<lparr>candidate_block = candidates, point_block = points, limb_block = cells\<rparr>)"

definition tile_shape_new :: "u32 \<Rightarrow> u32 \<Rightarrow> (cbc_exec_error, cbc_tile_shape) outcome" where
  "tile_shape_new candidates points = with_limbs candidates points DEFAULT_LIMB_BLOCK"

text \<open>The allocator of a tile: which reservations it grants, and the capacity it reports.\<close>

record allocator =
  grants :: "cbc_storage_class \<Rightarrow> nat \<Rightarrow> nat \<Rightarrow> bool"
  granted_capacity :: "nat \<Rightarrow> nat"

section \<open>The executor\<close>

text \<open>\<open>score_reserved\<close> and its like are the capacities of the vectors, fixed when they were reserved.\<close>

record scan_accum =
  score :: exact_nat
  score_reserved :: nat
  next_point :: nat
  micro :: "limb_cursor option"
  micro_point :: nat

record scan_state =
  candidate :: u32
  tile_candidates :: nat
  accum :: "scan_accum option"
  best :: "(exact_nat \<times> u32) option"
  runner :: "(exact_nat \<times> u32) option"
  ties :: "u32 list"

datatype cbc_phase =
    Init nat
  | Scan scan_state
  | Update u32 nat
  | Done
  | Poisoned string

record cbc_executor =
  problem :: cbc_problem
  admitted_work :: nat
  schedule :: cbc_execution_schedule
  score_capacity :: nat
  product_capacity :: nat
  admissible_candidates :: nat
  products :: "exact_nat list"
  zs :: "u32 list"
  product_reserved :: nat
  scratch :: "u32 list"
  scratch_reserved :: nat
  phase :: cbc_phase
  work_spent :: nat
  run_transitions :: nat
  certifying :: bool
  certificates_admitted :: bool
  certificates :: "cbc_prefix_certificate list"

abbreviation exec_n :: "cbc_executor \<Rightarrow> u32" where
  "exec_n self \<equiv> problem_point_count (problem self)"

definition refusal :: "cbc_storage_class \<Rightarrow> cbc_phase_kind \<Rightarrow> nat \<Rightarrow> nat \<Rightarrow> nat \<Rightarrow> cbc_exec_error" where
  "refusal cls phase_kind cursor wanted seen = Storage \<lparr>storage_class = cls, storage_phase = phase_kind,
     storage_cursor = cursor, requested = wanted, admitted = wanted, observed = seen\<rparr>"

text \<open>An empty vector has capacity zero, which is what a refused first reservation observes.\<close>

definition cbc_executor_new :: "owner_sizes \<Rightarrow> allocator \<Rightarrow> cbc_admission \<Rightarrow> (cbc_exec_error, cbc_executor) outcome" where
  "cbc_executor_new sizes alloc admission =
    (if \<not> has_current_authority sizes admission then Err AdmissionAuthorityMismatch
     else
       (let problem = admission_problem admission; estimate = admission_estimate admission;
            points = unat (problem_point_count problem);
            product_limbs = product_capacity_limbs estimate;
            certificate_capacity = problem_dimension problem - 1;
            certified = (admission_mode admission = Certified)
        in if \<not> grants alloc ProductOwnerArray 0 points then Err (refusal ProductOwnerArray AtConstruction 0 points 0)
           else
             (case List.find (\<lambda>p. \<not> grants alloc ProductLimbs p product_limbs) [0..<points] of
                Some p \<Rightarrow> Err (refusal ProductLimbs AtConstruction p product_limbs 0)
              | None \<Rightarrow>
                  if \<not> grants alloc ZPrefix 0 (problem_dimension problem)
                  then Err (refusal ZPrefix AtConstruction 0 (problem_dimension problem) 0)
                  else if \<not> grants alloc MultiplyScratch 0 product_limbs
                  then Err (refusal MultiplyScratch AtConstruction 0 product_limbs 0)
                  else if certified \<and> \<not> grants alloc CertificateRecords 0 certificate_capacity
                  then Err (refusal CertificateRecords AtConstruction 0 certificate_capacity 0)
                  else Ok \<lparr>problem = problem, admitted_work = work_units estimate,
                    schedule = execution_schedule estimate, score_capacity = score_capacity_limbs estimate,
                    product_capacity = product_limbs,
                    admissible_candidates = admissible_candidates_per_prefix estimate,
                    products = replicate points one, zs = [],
                    product_reserved = granted_capacity alloc product_limbs, scratch = [],
                    scratch_reserved = granted_capacity alloc product_limbs, phase = Init 0, work_spent = 0,
                    run_transitions = 0, certifying = False, certificates_admitted = certified, certificates = []\<rparr>)))"

definition enable_certificates :: "cbc_executor \<Rightarrow> (cbc_exec_error, cbc_executor) outcome" where
  "enable_certificates self =
    (if \<not> certificates_admitted self then Err CertificatesNotAdmitted
     else if work_spent self \<noteq> 0 then Err CertificatesAfterStart
     else Ok (self\<lparr>certifying := True\<rparr>))"

definition is_complete :: "cbc_executor \<Rightarrow> bool" where
  "is_complete self \<longleftrightarrow> phase self = Done"

text \<open>\<open>Some (n, z)\<close> exactly when complete.\<close>

definition into_lattice :: "cbc_executor \<Rightarrow> (u32 \<times> u32 list) option" where
  "into_lattice self = (if phase self = Done then Some (exec_n self, zs self) else None)"

section \<open>Debits\<close>

text \<open>The counters a tile advances: schedule units spent, committed transitions, allowance left.\<close>

record meter =
  spent :: nat
  transitions :: nat
  remaining :: nat

definition gate_allowance :: "nat \<Rightarrow> nat \<Rightarrow> cbc_boundary \<Rightarrow> (cbc_exec_error, unit) outcome" where
  "gate_allowance left units boundary = (if left < units then Err (AllowanceShort units boundary) else Ok ())"

definition debit :: "meter \<Rightarrow> nat \<Rightarrow> nat \<Rightarrow> cbc_boundary \<Rightarrow> (cbc_exec_error, meter) outcome" where
  "debit m limit units boundary =
    (case gate_allowance (remaining m) units boundary of
       Ok _ \<Rightarrow>
         (case checked_add u128_max (spent m) units of
            None \<Rightarrow> Err (ScheduleOverrun u128_max limit)
          | Some new_spent \<Rightarrow>
              if limit < new_spent then Err (ScheduleOverrun new_spent limit)
              else
                (case checked_sub (remaining m) units of
                   None \<Rightarrow> Err (AllowanceShort units boundary)
                 | Some left \<Rightarrow>
                     Ok \<lparr>spent = new_spent, transitions = saturating_add u64_max (transitions m) 1, remaining = left\<rparr>))
     | Err e \<Rightarrow> Err e
     | Panicked \<Rightarrow> Panicked)"

record tile_charges =
  charge_n :: u32
  charge_certifying :: bool
  charge_score_capacity :: nat
  charge_admitted :: nat
  visit_units :: nat
  control_units :: nat
  charge_tile :: cbc_tile_shape

text \<open>\<open>TileCharges::sealed\<close>; its one sum is a checked addition that the admission proved to fit.\<close>

definition tile_charges_sealed :: "cbc_executor \<Rightarrow> cbc_tile_shape \<Rightarrow> (cbc_exec_error, tile_charges) outcome" where
  "tile_charges_sealed self tile =
    (case checked_add u128_max (candidate_control (schedule self))
            (if certifying self then certificate_candidate (schedule self) else 0) of
       None \<Rightarrow> Panicked
     | Some control \<Rightarrow>
         Ok \<lparr>charge_n = exec_n self, charge_certifying = certifying self, charge_score_capacity = score_capacity self,
           charge_admitted = admitted_work self, visit_units = candidate_visit (schedule self),
           control_units = control, charge_tile = tile\<rparr>)"

section \<open>The scan of a candidate\<close>

datatype advance_scan = BoundaryReached cbc_boundary | Accumulating | CandidateFinished

definition kernel_factor :: "u32 \<Rightarrow> nat \<Rightarrow> u32 \<Rightarrow> (cbc_exec_error, u128) outcome" where
  "kernel_factor n point component =
    (case lattice_residue point component n of
       Ok residue \<Rightarrow> exact_kernel_numerator n residue
     | Err e \<Rightarrow> Err e
     | Panicked \<Rightarrow> Panicked)"

text \<open>The first half of \<open>advance_scan_candidate\<close>: the next candidate's accumulator, when none is open.
  \<open>None\<close> goes on to accumulate.\<close>

definition open_candidate ::
  "allocator \<Rightarrow> tile_charges \<Rightarrow> scan_state \<Rightarrow> meter
    \<Rightarrow> (scan_state \<times> meter) \<times> (cbc_exec_error, advance_scan option) outcome" where
  "open_candidate alloc charges s m =
    (if accum s \<noteq> None then ((s, m), Ok None)
     else if tile_candidates s = unat (candidate_block (charge_tile charges))
     then ((s\<lparr>tile_candidates := 0\<rparr>, m), Ok (Some (BoundaryReached CandidateBlock)))
     else if tile_candidates s = u32_max then ((s, m), Panicked)
     else
       (let s = s\<lparr>tile_candidates := tile_candidates s + 1\<rparr>
        in case gate_allowance (remaining m) (control_units charges) CandidateBlock of
             Err e \<Rightarrow> ((s, m), Err e)
           | Panicked \<Rightarrow> ((s, m), Panicked)
           | Ok _ \<Rightarrow>
               (let coprime = (gcd_u32 (candidate s) (charge_n charges) = 1); cap = charge_score_capacity charges
                in if \<not> grants alloc ScoreAccumulator (unat (candidate s)) cap
                   then ((s, m), Err (refusal ScoreAccumulator AtScan (unat (candidate s)) cap 0))
                   else
                     (let s = (if coprime
                               then s\<lparr>accum := Some \<lparr>score = zero, score_reserved = granted_capacity alloc cap,
                                        next_point = 0, micro = None, micro_point = 0\<rparr>\<rparr>
                               else s)
                      in case debit m (charge_admitted charges) (control_units charges) CandidateBlock of
                           Err e \<Rightarrow> ((s, m), Err e)
                         | Panicked \<Rightarrow> ((s, m), Panicked)
                         | Ok m \<Rightarrow>
                             if coprime then ((s, m), Ok None)
                             else if candidate s = - 1 then ((s, m), Panicked)
                             else ((s\<lparr>candidate := candidate s + 1\<rparr>, m), Ok (Some Accumulating))))))"

text \<open>Begin and prepay the visit of a point.\<close>

definition begin_visit ::
  "tile_charges \<Rightarrow> nat \<Rightarrow> nat \<Rightarrow> nat \<Rightarrow> scan_accum \<Rightarrow> meter \<Rightarrow> (cbc_exec_error, scan_accum \<times> meter) outcome" where
  "begin_visit charges point src_len factor_len running m =
    (case Option.bind (checked_add u64_max src_len factor_len) (\<lambda>n. checked_add u64_max n 1) of
       None \<Rightarrow> Panicked
     | Some required \<Rightarrow>
         if max (charge_score_capacity charges) (length (limbs (score running))) < required
         then Err (StorageScheduleOverrun required (charge_score_capacity charges))
         else
           (case gate_allowance (remaining m) (visit_units charges) PointBlock of
              Err e \<Rightarrow> Err e
            | Panicked \<Rightarrow> Panicked
            | Ok _ \<Rightarrow>
                (case debit m (charge_admitted charges) (visit_units charges) PointBlock of
                   Err e \<Rightarrow> Err e
                 | Panicked \<Rightarrow> Panicked
                 | Ok m \<Rightarrow>
                     Ok (running\<lparr>micro := Some (begin_add_multiply (length (limbs (score running))) required (score_reserved running)),
                           micro_point := point\<rparr>, m))))"

definition count_cells :: "nat \<Rightarrow> meter \<Rightarrow> meter" where
  "count_cells cells m = m\<lparr>transitions := saturating_add u64_max (transitions m) cells\<rparr>"

text \<open>One pass of the point loop: it completes the point, or ends the call.\<close>

datatype point_pass =
    PointComplete scan_accum meter
  | PointEnds scan_accum meter "(cbc_exec_error, cbc_boundary) outcome"

definition drive_cells :: "tile_charges \<Rightarrow> exact_nat list \<Rightarrow> nat \<Rightarrow> u128 \<Rightarrow> scan_accum \<Rightarrow> meter \<Rightarrow> point_pass" where
  "drive_cells charges ps point factor running m =
    (case micro running of
       None \<Rightarrow> PointEnds running m Panicked
     | Some cursor \<Rightarrow>
         (case step_add_multiply (limbs (score running)) (limbs (ps ! point)) (fst (factor_limbs_u32 factor))
                 (snd (factor_limbs_u32 factor)) cursor (unat (limb_block (charge_tile charges))) of
            Ok ((out, used), dst, cursor) \<Rightarrow>
              (let running = running\<lparr>score := (score running)\<lparr>limbs := dst\<rparr>\<rparr>
               in case out of
                    Refused \<Rightarrow>
                      PointEnds running m (Err (StorageScheduleOverrun (cursor_limit cursor + 1) (charge_score_capacity charges)))
                  | Advanced cells \<Rightarrow>
                      PointEnds (running\<lparr>micro := Some cursor, micro_point := point\<rparr>) (count_cells cells m) (Ok LimbBlock)
                  | Complete cells \<Rightarrow> PointComplete (running\<lparr>micro := None\<rparr>) (count_cells (max cells 1) m))
          | _ \<Rightarrow> PointEnds running m Panicked))"

definition visit_point :: "tile_charges \<Rightarrow> exact_nat list \<Rightarrow> u32 \<Rightarrow> nat \<Rightarrow> scan_accum \<Rightarrow> meter \<Rightarrow> point_pass" where
  "visit_point charges ps cand point running m =
    (let running = running\<lparr>next_point := point\<rparr>
     in if length ps \<le> point then PointEnds running m Panicked
        else
          (case kernel_factor (charge_n charges) point cand of
             Err e \<Rightarrow> PointEnds running m (Err e)
           | Panicked \<Rightarrow> PointEnds running m Panicked
           | Ok factor \<Rightarrow>
               (case (case micro running of
                        Some cursor \<Rightarrow> Ok (running, m)
                      | None \<Rightarrow>
                          begin_visit charges point (length (limbs (ps ! point))) (snd (factor_limbs_u32 factor)) running m) of
                  Err e \<Rightarrow> PointEnds running m (Err e)
                | Panicked \<Rightarrow> PointEnds running m Panicked
                | Ok (running, m) \<Rightarrow> drive_cells charges ps point factor running m)))"

function scan_points ::
  "tile_charges \<Rightarrow> exact_nat list \<Rightarrow> u32 \<Rightarrow> nat \<Rightarrow> nat \<Rightarrow> scan_accum \<Rightarrow> meter
    \<Rightarrow> (scan_accum \<times> meter) \<times> (cbc_exec_error, cbc_boundary option) outcome" where
  "scan_points charges ps cand last_point point running m =
    (if point < last_point
     then
       (case visit_point charges ps cand point running m of
          PointComplete running m \<Rightarrow> scan_points charges ps cand last_point (point + 1) running m
        | PointEnds running m r \<Rightarrow>
            ((running, m), (case r of Ok boundary \<Rightarrow> Ok (Some boundary) | Err e \<Rightarrow> Err e | Panicked \<Rightarrow> Panicked)))
     else ((running\<lparr>next_point := last_point\<rparr>, m), Ok None))"
  by pat_completeness auto
termination by (relation "measure (\<lambda>(charges, ps, cand, last_point, point, running, m). last_point - point)") auto

declare scan_points.simps [simp del]

text \<open>The second half: one block of points of the open accumulator.\<close>

definition accumulate_block ::
  "tile_charges \<Rightarrow> exact_nat list \<Rightarrow> scan_state \<Rightarrow> meter
    \<Rightarrow> (scan_state \<times> meter) \<times> (cbc_exec_error, advance_scan) outcome" where
  "accumulate_block charges ps s m =
    (case accum s of
       None \<Rightarrow> ((s, m), Panicked)
     | Some running \<Rightarrow>
         (let n = unat (charge_n charges);
              last_point = min (saturating_add u32_max (next_point running) (unat (point_block (charge_tile charges)))) n;
              point = (if micro running \<noteq> None then micro_point running else next_point running)
          in case scan_points charges ps (candidate s) last_point point running m of
               ((running, m), r) \<Rightarrow>
                 ((s\<lparr>accum := Some running\<rparr>, m),
                  (case r of
                     Err e \<Rightarrow> Err e
                   | Panicked \<Rightarrow> Panicked
                   | Ok (Some boundary) \<Rightarrow> Ok (BoundaryReached boundary)
                   | Ok None \<Rightarrow> if last_point < n then Ok (BoundaryReached PointBlock) else Ok CandidateFinished))))"

definition advance_scan_candidate ::
  "allocator \<Rightarrow> tile_charges \<Rightarrow> exact_nat list \<Rightarrow> scan_state \<Rightarrow> meter
    \<Rightarrow> (scan_state \<times> meter) \<times> (cbc_exec_error, advance_scan) outcome" where
  "advance_scan_candidate alloc charges ps s m =
    (case open_candidate alloc charges s m of
       ((s, m), Err e) \<Rightarrow> ((s, m), Err e)
     | ((s, m), Panicked) \<Rightarrow> ((s, m), Panicked)
     | ((s, m), Ok (Some step)) \<Rightarrow> ((s, m), Ok step)
     | ((s, m), Ok None) \<Rightarrow> accumulate_block charges ps s m)"

section \<open>Verdicts\<close>

datatype verdict = NewBest | Tie | Above

definition verdict_of :: "(exact_nat \<times> u32) option \<Rightarrow> exact_nat \<Rightarrow> verdict" where
  "verdict_of best_so_far new_score =
    (case best_so_far of
       None \<Rightarrow> NewBest
     | Some (best_score, _) \<Rightarrow>
         (case magnitude_cmp new_score best_score of LimbLess \<Rightarrow> NewBest | LimbEqual \<Rightarrow> Tie | LimbGreater \<Rightarrow> Above))"

definition apply_scan_verdict :: "bool \<Rightarrow> exact_nat \<Rightarrow> scan_state \<Rightarrow> scan_state" where
  "apply_scan_verdict certify new_score s =
    (case verdict_of (best s) new_score of
       NewBest \<Rightarrow>
         (let displaced = best s; s = s\<lparr>best := Some (new_score, candidate s)\<rparr>
          in if certify then s\<lparr>runner := displaced, ties := [candidate s]\<rparr> else s)
     | Tie \<Rightarrow> if certify then s\<lparr>ties := ties s @ [candidate s]\<rparr> else s
     | Above \<Rightarrow>
         if certify
         then
           (let replace_runner =
                  (case runner s of
                     None \<Rightarrow> True
                   | Some (runner_score, _) \<Rightarrow> magnitude_cmp new_score runner_score = LimbLess)
            in if replace_runner then s\<lparr>runner := Some (new_score, candidate s)\<rparr> else s)
         else s)"

definition build_prefix_certificate ::
  "allocator \<Rightarrow> u32 list \<Rightarrow> exact_nat \<Rightarrow> u32 \<Rightarrow> (exact_nat \<times> u32) option \<Rightarrow> u32 list \<Rightarrow> nat \<Rightarrow> u32
    \<Rightarrow> (cbc_exec_error, cbc_prefix_certificate) outcome" where
  "build_prefix_certificate alloc z winning_score chosen_component runner_so_far tie_words prefix_len n =
    (let refuse = (\<lambda>cls wanted. refusal cls AtCertificateEmission prefix_len wanted 0);
         winning_len = length (limbs winning_score)
     in if \<not> grants alloc CertificatePrefixScratch prefix_len prefix_len then Err (refuse CertificatePrefixScratch prefix_len)
        else if \<not> grants alloc CertificateScoreScratch prefix_len winning_len then Err (refuse CertificateScoreScratch winning_len)
        else
          (case (case runner_so_far of
                   None \<Rightarrow> Ok None
                 | Some (runner_score, who) \<Rightarrow>
                     if \<not> grants alloc CertificateScoreScratch prefix_len (length (limbs runner_score))
                     then Err (refuse CertificateScoreScratch (length (limbs runner_score)))
                     else Ok (Some (limbs runner_score, who))) of
             Err e \<Rightarrow> Err e
           | Panicked \<Rightarrow> Panicked
           | Ok runner_limbs \<Rightarrow>
               if \<not> grants alloc CertificateTieScratch prefix_len (length tie_words)
               then Err (refuse CertificateTieScratch (length tie_words))
               else if u32_max < length (z @ [chosen_component]) then Panicked
               else Ok \<lparr>point_count = n, prefix = z @ [chosen_component], winning_score_limbs = limbs winning_score,
                 tie_class = tie_words, runner_up = runner_limbs,
                 denominator_exponent = of_nat (length (z @ [chosen_component])),
                 tie_rule = TIE_RULE_LOWEST_CANDIDATE, admissible_rule = ADMISSIBLE_RULE_UNITS\<rparr>))"

section \<open>Tiles\<close>

definition exec_meter :: "cbc_executor \<Rightarrow> nat \<Rightarrow> meter" where
  "exec_meter self left = \<lparr>spent = work_spent self, transitions = run_transitions self, remaining = left\<rparr>"

definition with_meter :: "cbc_executor \<Rightarrow> meter \<Rightarrow> cbc_executor" where
  "with_meter self m = self\<lparr>work_spent := spent m, run_transitions := transitions m\<rparr>"

text \<open>The end of a scan: the winner is taken, its certificate built, paid for and published, and the update
  of the products begins.\<close>

definition finish_scan ::
  "allocator \<Rightarrow> tile_charges \<Rightarrow> cbc_executor \<Rightarrow> scan_state \<Rightarrow> meter
    \<Rightarrow> (cbc_executor \<times> meter) \<times> (cbc_exec_error, cbc_boundary) outcome" where
  "finish_scan alloc charges self s m =
    (case best s of
       None \<Rightarrow> ((self\<lparr>phase := Scan s\<rparr>, m), Panicked)
     | Some (winning_score, winner) \<Rightarrow>
         (let s = s\<lparr>best := None\<rparr>; open_phase = self\<lparr>phase := Scan s\<rparr>
          in if \<not> charge_certifying charges
             then ((self\<lparr>phase := Update winner 0\<rparr>, m), Ok CandidateBlock)
             else
               (case Option.bind (checked_add u64_max (length (zs self)) 1)
                       (\<lambda>len. map_option (\<lambda>units. (len, units)) (certificate_prefix_units (schedule self) len)) of
                  None \<Rightarrow> ((open_phase, m), Panicked)
                | Some (prefix_len, units) \<Rightarrow>
                    (case build_prefix_certificate alloc (zs self) winning_score winner (runner s) (ties s) prefix_len
                            (charge_n charges) of
                       Err e \<Rightarrow> ((open_phase, m), Err e)
                     | Panicked \<Rightarrow> ((open_phase, m), Panicked)
                     | Ok certificate \<Rightarrow>
                         (case gate_allowance (remaining m) units CandidateBlock of
                            Err e \<Rightarrow> ((open_phase, m), Err e)
                          | Panicked \<Rightarrow> ((open_phase, m), Panicked)
                          | Ok _ \<Rightarrow>
                              (case debit m (charge_admitted charges) units CandidateBlock of
                                 Err e \<Rightarrow> ((open_phase, m), Err e)
                               | Panicked \<Rightarrow> ((open_phase, m), Panicked)
                               | Ok m \<Rightarrow>
                                   ((self\<lparr>certificates := certificates self @ [certificate], phase := Update winner 0\<rparr>, m),
                                     Ok CandidateBlock)))))))"

text \<open>A step of the scan that goes on has moved to the next candidate.\<close>

lemma accumulate_block_result:
  assumes "accumulate_block charges ps s m = ((s', m'), r)"
  shows "candidate s' = candidate s" "r \<noteq> Ok Accumulating"
  using assms by (auto simp: accumulate_block_def Let_def split: option.splits prod.splits outcome.splits if_splits)

lemma open_candidate_result:
  assumes "open_candidate alloc charges s m = ((s', m'), r)"
  shows "r = Ok (Some Accumulating) \<longrightarrow> candidate s \<noteq> - 1 \<and> candidate s' = candidate s + 1"
    "r \<noteq> Ok (Some Accumulating) \<longrightarrow> candidate s' = candidate s" "r \<noteq> Ok (Some CandidateFinished)"
  using assms by (auto simp: open_candidate_def Let_def split: if_splits outcome.splits)

lemma advance_candidate:
  assumes "advance_scan_candidate alloc charges ps s m = ((s', m'), r)"
  shows "r = Ok Accumulating \<longrightarrow> candidate s \<noteq> - 1 \<and> candidate s' = candidate s + 1"
    "r \<noteq> Ok Accumulating \<longrightarrow> candidate s' = candidate s"
proof -
  obtain s1 m1 r1 where o: "open_candidate alloc charges s m = ((s1, m1), r1)" by (metis prod.exhaust)
  note open_candidate_result [OF o]
  with assms o show "r = Ok Accumulating \<longrightarrow> candidate s \<noteq> - 1 \<and> candidate s' = candidate s + 1"
    "r \<noteq> Ok Accumulating \<longrightarrow> candidate s' = candidate s"
    by (auto simp: advance_scan_candidate_def dest: accumulate_block_result split: outcome.splits option.splits)
qed

lemma apply_scan_verdict_candidate [simp]: "candidate (apply_scan_verdict certify x s) = candidate s"
  by (simp add: apply_scan_verdict_def Let_def split: verdict.split option.split)

lemma unat_Suc_word:
  assumes "(c :: u32) \<noteq> - 1"
  shows "unat (c + 1) = unat c + 1"
proof -
  have "1 + c \<noteq> 0" using assms by (metis add_eq_0_iff)
  then show ?thesis using unatSuc [of c] by (simp add: add.commute)
qed

lemma advance_accumulating:
  "((s', m'), Ok Accumulating) = advance_scan_candidate alloc charges ps s m \<Longrightarrow>
    candidate s \<noteq> - 1 \<and> candidate s' = candidate s + 1"
  using advance_candidate(1) [OF sym] by blast

lemma advance_finished:
  "((s', m'), Ok CandidateFinished) = advance_scan_candidate alloc charges ps s m \<Longrightarrow> candidate s' = candidate s"
  using advance_candidate(2) [OF sym] by blast

function scan_loop ::
  "allocator \<Rightarrow> tile_charges \<Rightarrow> cbc_executor \<Rightarrow> scan_state \<Rightarrow> meter
    \<Rightarrow> (cbc_executor \<times> meter) \<times> (cbc_exec_error, cbc_boundary) outcome" where
  "scan_loop alloc charges self s m =
    (if candidate s = charge_n charges then finish_scan alloc charges self s m
     else
       (case advance_scan_candidate alloc charges (products self) s m of
          ((s', m'), Err e) \<Rightarrow> ((self\<lparr>phase := Scan s'\<rparr>, m'), Err e)
        | ((s', m'), Panicked) \<Rightarrow> ((self\<lparr>phase := Scan s'\<rparr>, m'), Panicked)
        | ((s', m'), Ok (BoundaryReached boundary)) \<Rightarrow> ((self\<lparr>phase := Scan s'\<rparr>, m'), Ok boundary)
        | ((s', m'), Ok Accumulating) \<Rightarrow> scan_loop alloc charges self s' m'
        | ((s', m'), Ok CandidateFinished) \<Rightarrow>
            (case accum s' of
               None \<Rightarrow> ((self\<lparr>phase := Scan s'\<rparr>, m'), Panicked)
             | Some finished \<Rightarrow>
                 (let s2 = apply_scan_verdict (charge_certifying charges) (normalize (score finished)) (s'\<lparr>accum := None\<rparr>)
                  in if candidate s2 = - 1 then ((self\<lparr>phase := Scan s2\<rparr>, m'), Panicked)
                     else
                       (let s3 = s2\<lparr>candidate := candidate s2 + 1\<rparr>
                        in if remaining m' = 0 then ((self\<lparr>phase := Scan s3\<rparr>, m'), Ok CandidateBlock)
                           else scan_loop alloc charges self s3 m')))))"
  by pat_completeness auto
termination
proof -
  have less: "2 ^ 32 - unat (c + 1) < 2 ^ 32 - unat c" if "c \<noteq> - 1" for c :: u32
    using that unat_limb [of c] by (simp add: unat_Suc_word base_def)
  show ?thesis
    by (relation "measure (\<lambda>(alloc, charges, self, s, m). 2 ^ 32 - unat (candidate s))")
      (use less in \<open>auto dest!: advance_accumulating advance_finished\<close>)
qed

declare scan_loop.simps [simp del]

definition run_scan_tile ::
  "allocator \<Rightarrow> tile_charges \<Rightarrow> cbc_executor \<Rightarrow> scan_state \<Rightarrow> nat
    \<Rightarrow> (cbc_executor \<times> nat) \<times> (cbc_exec_error, cbc_boundary) outcome" where
  "run_scan_tile alloc charges self s left =
    (case scan_loop alloc charges self s (exec_meter self left) of
       ((self, m), r) \<Rightarrow> ((with_meter self m, remaining m), r))"

subsection \<open>Folding a component into the products\<close>

definition exec_debit :: "cbc_executor \<Rightarrow> nat \<Rightarrow> nat \<Rightarrow> cbc_boundary \<Rightarrow> (cbc_exec_error, cbc_executor \<times> nat) outcome" where
  "exec_debit self left units boundary =
    (case debit (exec_meter self left) (admitted_work self) units boundary of
       Ok m \<Rightarrow> Ok (with_meter self m, remaining m)
     | Err e \<Rightarrow> Err e
     | Panicked \<Rightarrow> Panicked)"

text \<open>The loop the initialisation and the update share: \<open>persist\<close> is the phase that persists the cursor.\<close>

function fold_points ::
  "(nat \<Rightarrow> cbc_phase) \<Rightarrow> u32 \<Rightarrow> nat \<Rightarrow> nat \<Rightarrow> nat \<Rightarrow> cbc_executor \<Rightarrow> nat
    \<Rightarrow> ((cbc_executor \<times> nat) \<times> (cbc_exec_error, unit) outcome) option" where
  "fold_points persist component units last_point point self left =
    (if point < last_point
     then
       (let self = self\<lparr>phase := persist point\<rparr>;
            boundary = (if point + 1 = last_point \<and> last_point = unat (exec_n self) then Prefix else PointBlock)
        in case kernel_factor (exec_n self) point component of
             Err e \<Rightarrow> Some ((self, left), Err e)
           | Panicked \<Rightarrow> Some ((self, left), Panicked)
           | Ok factor \<Rightarrow>
               (case gate_allowance left units boundary of
                  Err e \<Rightarrow> Some ((self, left), Err e)
                | Panicked \<Rightarrow> Some ((self, left), Panicked)
                | Ok _ \<Rightarrow>
                    if length (products self) \<le> point then Some ((self, left), Panicked)
                    else
                      (case mul_assign_factor_scratch (products self ! point) (product_reserved self) factor
                              (product_capacity self) (scratch self) (scratch_reserved self) of
                         None \<Rightarrow> None
                       | Some (Ok (product, buffer)) \<Rightarrow>
                           (let self = self\<lparr>products := (products self)[point := product], scratch := buffer\<rparr>
                            in case exec_debit self left units boundary of
                                 Err e \<Rightarrow> Some ((self, left), Err e)
                               | Panicked \<Rightarrow> Some ((self, left), Panicked)
                               | Ok (self, left) \<Rightarrow> fold_points persist component units last_point (point + 1) self left)
                       | Some (Err (required_limbs, product, buffer)) \<Rightarrow>
                           Some ((self\<lparr>products := (products self)[point := product], scratch := buffer\<rparr>, left),
                             Err (StorageScheduleOverrun required_limbs (product_capacity self)))
                       | Some Panicked \<Rightarrow> Some ((self, left), Panicked))))
     else Some ((self, left), Ok ()))"
  by pat_completeness auto
termination by (relation "measure (\<lambda>(persist, component, units, last_point, point, self, left). last_point - point)") auto

declare fold_points.simps [simp del]

definition try_reserve_tie_class :: "allocator \<Rightarrow> bool \<Rightarrow> nat \<Rightarrow> nat \<Rightarrow> (cbc_exec_error, u32 list) outcome" where
  "try_reserve_tie_class alloc certify wanted cand =
    (if certify \<and> \<not> grants alloc CertificateTieScratch cand wanted
     then Err (refusal CertificateTieScratch AtScan cand wanted 0) else Ok [])"

definition fresh_scan :: "u32 list \<Rightarrow> scan_state" where
  "fresh_scan tie_words = \<lparr>candidate = 1, tile_candidates = 0, accum = None, best = None, runner = None, ties = tie_words\<rparr>"

text \<open>The end of a fold: the prefix control is paid, the component pushed, and the next phase entered; the tie
  class of the next scan is reserved after the push.\<close>

definition seal_prefix ::
  "allocator \<Rightarrow> (cbc_executor \<Rightarrow> bool) \<Rightarrow> u32 \<Rightarrow> cbc_executor \<Rightarrow> nat
    \<Rightarrow> (cbc_executor \<times> nat) \<times> (cbc_exec_error, cbc_boundary) outcome" where
  "seal_prefix alloc last_component component self left =
    (case gate_allowance left (prefix_control (schedule self)) Prefix of
       Err e \<Rightarrow> ((self, left), Err e)
     | Panicked \<Rightarrow> ((self, left), Panicked)
     | Ok _ \<Rightarrow>
         (case exec_debit self left (prefix_control (schedule self)) Prefix of
            Err e \<Rightarrow> ((self, left), Err e)
          | Panicked \<Rightarrow> ((self, left), Panicked)
          | Ok (self, left) \<Rightarrow>
              (let self = self\<lparr>zs := zs self @ [component]\<rparr>
               in if last_component self then ((self\<lparr>phase := Done\<rparr>, left), Ok Prefix)
                  else
                    (case try_reserve_tie_class alloc (certifying self) (admissible_candidates self) 1 of
                       Err e \<Rightarrow> ((self, left), Err e)
                     | Panicked \<Rightarrow> ((self, left), Panicked)
                     | Ok tie_words \<Rightarrow> ((self\<lparr>phase := Scan (fresh_scan tie_words)\<rparr>, left), Ok Prefix)))))"

definition fold_tile ::
  "allocator \<Rightarrow> (nat \<Rightarrow> cbc_phase) \<Rightarrow> u32 \<Rightarrow> nat \<Rightarrow> (cbc_executor \<Rightarrow> bool) \<Rightarrow> nat \<Rightarrow> nat \<Rightarrow> cbc_executor \<Rightarrow> nat
    \<Rightarrow> ((cbc_executor \<times> nat) \<times> (cbc_exec_error, cbc_boundary) outcome) option" where
  "fold_tile alloc persist component units last_component next_at points self left =
    (let n = unat (exec_n self); last_point = min (saturating_add u32_max next_at points) n
     in case fold_points persist component units last_point next_at self left of
          None \<Rightarrow> None
        | Some ((self, left), Err e) \<Rightarrow> Some ((self, left), Err e)
        | Some ((self, left), Panicked) \<Rightarrow> Some ((self, left), Panicked)
        | Some ((self, left), Ok _) \<Rightarrow>
            (let self = self\<lparr>phase := persist last_point\<rparr>
             in if last_point = n then Some (seal_prefix alloc last_component component self left)
                else Some ((self, left), Ok PointBlock)))"

definition run_init_tile ::
  "allocator \<Rightarrow> nat \<Rightarrow> nat \<Rightarrow> cbc_executor \<Rightarrow> nat
    \<Rightarrow> ((cbc_executor \<times> nat) \<times> (cbc_exec_error, cbc_boundary) outcome) option" where
  "run_init_tile alloc next_at points self left =
    fold_tile alloc Init 1 (initialization_visit (schedule self)) (\<lambda>self. problem_dimension (problem self) = 1)
      next_at points self left"

definition run_update_tile ::
  "allocator \<Rightarrow> u32 \<Rightarrow> nat \<Rightarrow> nat \<Rightarrow> cbc_executor \<Rightarrow> nat
    \<Rightarrow> ((cbc_executor \<times> nat) \<times> (cbc_exec_error, cbc_boundary) outcome) option" where
  "run_update_tile alloc component next_at points self left =
    fold_tile alloc (Update component) component (product_update_visit (schedule self))
      (\<lambda>self. length (zs self) = problem_dimension (problem self)) next_at points self left"

definition execute_tile ::
  "allocator \<Rightarrow> cbc_tile_shape \<Rightarrow> cbc_executor \<Rightarrow> nat
    \<Rightarrow> ((cbc_executor \<times> nat) \<times> (cbc_exec_error, cbc_boundary) outcome) option" where
  "execute_tile alloc tile self left =
    (case phase self of
       Poisoned reason \<Rightarrow> Some ((self, left), Err (PoisonedBy reason))
     | ph \<Rightarrow>
         (case tile_charges_sealed self tile of
            Err e \<Rightarrow> Some ((self, left), Err e)
          | Panicked \<Rightarrow> Some ((self, left), Panicked)
          | Ok charges \<Rightarrow>
              (case ph of
                 Init next_at \<Rightarrow> run_init_tile alloc next_at (unat (point_block tile)) self left
               | Update component next_at \<Rightarrow> run_update_tile alloc component next_at (unat (point_block tile)) self left
               | Scan s \<Rightarrow> Some (run_scan_tile alloc charges self s left)
               | _ \<Rightarrow> Some ((self, left), Ok Prefix))))"

end
