(* ===== verification/Cbc_Run.thy ===== *)
theory Cbc_Run
  imports Cbc_Executor
begin

text \<open>
  Runs of the executor (\<open>run_with_receipt\<close>, \<open>run\<close> and \<open>state_root\<close> of
  \<open>crates/fs-rand/src/cbc_exec.rs\<close>, and the facade \<open>try_cbc\<close> of \<open>qmc.rs\<close>): the entry protocol, the tile loop that
  polls at every boundary, the receipt, and the hash that identifies a state. The answers of the poll
  and the allocator of each tile are a function of how many came before; a run may go on forever, so
  its loop is a partial function.
\<close>

section \<open>State roots\<close>

definition fnv_mix :: "u64 \<Rightarrow> u8 \<Rightarrow> u64" where
  "fnv_mix h byte = (h XOR ucast byte) * 0x100000001b3"

definition word_bytes :: "u32 \<Rightarrow> u8 list" where
  "word_bytes w = [ucast w, ucast (drop_bit 8 w), ucast (drop_bit 16 w), ucast (drop_bit 24 w)]"

text \<open>Little-endian bytes of a number at a width.\<close>

primrec number_bytes :: "nat \<Rightarrow> nat \<Rightarrow> u8 list" where
  "number_bytes 0 v = []"
| "number_bytes (Suc k) v = of_nat v # number_bytes k (v div 256)"

definition phase_discriminant :: "cbc_phase \<Rightarrow> nat" where
  "phase_discriminant ph =
    (case ph of
       Init next_at \<Rightarrow> 1
     | Scan s \<Rightarrow> 2 + unat (candidate s) * 4 + (if accum s \<noteq> None then 1 else 0)
     | Update component next_at \<Rightarrow> 3 + unat component * 8 + next_at
     | Done \<Rightarrow> 4
     | Poisoned reason \<Rightarrow> 5)"

definition state_root :: "cbc_executor \<Rightarrow> u64" where
  "state_root self =
    foldl fnv_mix 0xcbf29ce484222325
      (concat (map word_bytes (zs self)) @ number_bytes 16 (work_spent self)
        @ number_bytes 8 (phase_discriminant (phase self)) @ [of_nat (length (certificates self))]
        @ concat (map (\<lambda>c. map ucast (prefix c)) (certificates self)))"

section \<open>Runs\<close>

definition RUN_PROTOCOL_VERSION :: u32 where "RUN_PROTOCOL_VERSION = 1"

record cbc_run_receipt =
  protocol_version :: u32
  receipt_executor_version :: u32
  allowance_requested :: nat
  allowance_used :: nat
  allowance_remaining :: nat
  committed_transitions :: nat
  last_boundary :: "cbc_boundary option"
  receipt_polls :: nat
  finalized :: bool
  state_root_before :: u64
  state_root_after :: u64

text \<open>What a run meets: whether the poll cancels, the allocator of each tile, and the reason a panic carries.\<close>

record run_env =
  cancels :: "nat \<Rightarrow> bool"
  tile_allocator :: "nat \<Rightarrow> allocator"
  panic_reason :: string

text \<open>The terminal of a run, with the executor, the allowance left and the number of polls it leaves.\<close>

partial_function (option) run_loop ::
  "run_env \<Rightarrow> cbc_tile_shape \<Rightarrow> nat \<Rightarrow> nat \<Rightarrow> cbc_executor \<Rightarrow> nat
    \<Rightarrow> (cbc_executor \<times> nat \<times> nat \<times> (cbc_exec_error, cbc_run_status) outcome) option" where
  [code]: "run_loop env tile tiles polls self left =
    Option.bind (execute_tile (tile_allocator env tiles) tile self left) (\<lambda>((self, left), r).
      case r of
        Panicked \<Rightarrow> Some (self\<lparr>phase := Poisoned (panic_reason env)\<rparr>, left, polls, Err (PoisonedBy (panic_reason env)))
      | Err (AllowanceShort least boundary) \<Rightarrow> Some (self, left, polls, Ok (NeedAllowance boundary least))
      | Err e \<Rightarrow> Some (self, left, polls, Err e)
      | Ok boundary \<Rightarrow>
          if (case phase self of Done \<Rightarrow> True | Poisoned reason \<Rightarrow> True | _ \<Rightarrow> False)
          then Some (self, left, polls, Ok Completed)
          else if polls = u32_max then Some (self, left, polls, Panicked)
          else if cancels env polls then Some (self, left, polls + 1, Ok (Cancelled boundary))
          else if left = 0 then Some (self, left, polls + 1, Ok (AllowanceExhausted boundary))
          else run_loop env tile (tiles + 1) (polls + 1) self left)"

definition status_boundary :: "cbc_run_status \<Rightarrow> cbc_boundary option" where
  "status_boundary status =
    (case status of
       Completed \<Rightarrow> None | Cancelled b \<Rightarrow> Some b | AllowanceExhausted b \<Rightarrow> Some b | NeedAllowance b least \<Rightarrow> Some b)"

definition entry_receipt :: "cbc_executor \<Rightarrow> nat \<Rightarrow> u64 \<Rightarrow> cbc_run_receipt" where
  "entry_receipt self allowance root_before =
    \<lparr>protocol_version = RUN_PROTOCOL_VERSION, receipt_executor_version = CBC_EXECUTOR_SCHEMA_VERSION,
     allowance_requested = allowance, allowance_used = 0, allowance_remaining = 0, committed_transitions = 0,
     last_boundary = Some Entry, receipt_polls = 1, finalized = True, state_root_before = root_before,
     state_root_after = state_root self\<rparr>"

definition run_with_receipt ::
  "run_env \<Rightarrow> cbc_tile_shape \<Rightarrow> nat \<Rightarrow> cbc_executor
    \<Rightarrow> (cbc_executor \<times> (cbc_exec_error, cbc_run_status \<times> cbc_run_receipt) outcome) option" where
  "run_with_receipt env tile allowance self =
    (case phase self of
       Poisoned reason \<Rightarrow> Some (self, Err (PoisonedBy reason))
     | Done \<Rightarrow> Some (self, Err AlreadyComplete)
     | _ \<Rightarrow>
         (let root_before = state_root self; used_before = work_spent self; self = self\<lparr>run_transitions := 0\<rparr>
          in if cancels env 0 then Some (self, Ok (Cancelled Entry, entry_receipt self allowance root_before))
             else if allowance = 0 then Some (self, Ok (AllowanceExhausted Entry, entry_receipt self allowance root_before))
             else
               map_option (\<lambda>(self, left, polls, r).
                   (self,
                    (case r of
                       Err e \<Rightarrow> Err e
                     | Panicked \<Rightarrow> Panicked
                     | Ok status \<Rightarrow>
                         Ok (status,
                           \<lparr>protocol_version = RUN_PROTOCOL_VERSION, receipt_executor_version = CBC_EXECUTOR_SCHEMA_VERSION,
                            allowance_requested = allowance, allowance_used = work_spent self - used_before,
                            allowance_remaining = left, committed_transitions = run_transitions self,
                            last_boundary = status_boundary status, receipt_polls = polls, finalized = True,
                            state_root_before = root_before, state_root_after = state_root self\<rparr>))))
                 (run_loop env tile 0 1 self allowance)))"

definition run ::
  "run_env \<Rightarrow> cbc_tile_shape \<Rightarrow> nat \<Rightarrow> cbc_executor
    \<Rightarrow> (cbc_executor \<times> (cbc_exec_error, cbc_run_status) outcome) option" where
  "run env tile allowance self =
    map_option (\<lambda>(self, r). (self, (case r of Ok (status, receipt) \<Rightarrow> Ok status | Err e \<Rightarrow> Err e | Panicked \<Rightarrow> Panicked)))
      (run_with_receipt env tile allowance self)"

section \<open>The synchronous facade\<close>

datatype cbc_lattice_error =
    Admission cbc_admission_error
  | Execution cbc_exec_error
  | UnexpectedRunStatus cbc_run_status
  | MissingCompletedLattice

definition CBC_FACADE_CANDIDATE_BLOCK :: u32 where "CBC_FACADE_CANDIDATE_BLOCK = 64"
definition CBC_FACADE_POINT_BLOCK :: u32 where "CBC_FACADE_POINT_BLOCK = 64"

text \<open>The facade never asks to cancel; the allocators and the panic reason are those of the environment.\<close>

definition try_cbc ::
  "owner_sizes \<Rightarrow> run_env \<Rightarrow> allocator \<Rightarrow> u32 \<Rightarrow> nat \<Rightarrow> cbc_budget
    \<Rightarrow> (cbc_lattice_error, u32 \<times> u32 list) outcome option" where
  "try_cbc sizes env alloc n dimension budget =
    (case cbc_problem_new n dimension of
       Err e \<Rightarrow> Some (Err (Admission e))
     | Panicked \<Rightarrow> Some Panicked
     | Ok p \<Rightarrow>
         (case admit_for sizes p Construction budget of
            Err e \<Rightarrow> Some (Err (Admission e))
          | Panicked \<Rightarrow> Some Panicked
          | Ok admission \<Rightarrow>
              (case cbc_executor_new sizes alloc admission of
                 Err e \<Rightarrow> Some (Err (Execution e))
               | Panicked \<Rightarrow> Some Panicked
               | Ok executor \<Rightarrow>
                   (case tile_shape_new CBC_FACADE_CANDIDATE_BLOCK CBC_FACADE_POINT_BLOCK of
                      Err e \<Rightarrow> Some (Err (Execution e))
                    | Panicked \<Rightarrow> Some Panicked
                    | Ok tile \<Rightarrow>
                        map_option (\<lambda>(executor, r).
                            case r of
                              Err e \<Rightarrow> Err (Execution e)
                            | Panicked \<Rightarrow> Panicked
                            | Ok status \<Rightarrow>
                                if status \<noteq> Completed then Err (UnexpectedRunStatus status)
                                else (case into_lattice executor of None \<Rightarrow> Err MissingCompletedLattice | Some l \<Rightarrow> Ok l))
                          (run (env\<lparr>cancels := \<lambda>_. False\<rparr>) tile (work_units (admission_estimate admission)) executor)))))"

end
