(* ===== verification/Cbc_Totient.thy ===== *)
theory Cbc_Totient
  imports Cbc_Admission
begin

text \<open>
  The totient the admission schedules candidates by is the number of candidates coprime to the point
  count: trial division removes one prime at a time, and each removal divides the count of the numbers
  coprime to what has been removed.
\<close>

section \<open>Counting numbers coprime to a modulus\<close>

definition coprime_count :: "nat \<Rightarrow> nat \<Rightarrow> nat" where
  "coprime_count m N = card {c. 1 \<le> c \<and> c \<le> N \<and> coprime c m}"

lemma finite_coprimes [simp]: "finite {c :: nat. 1 \<le> c \<and> c \<le> N \<and> P c}"
  by (rule finite_subset [of _ "{..N}"]) auto

lemma coprime_count_step:
  assumes "m dvd L"
  shows "coprime_count m (k * L + L) = coprime_count m (k * L) + coprime_count m L"
proof -
  let ?low = "{c. 1 \<le> c \<and> c \<le> k * L \<and> coprime c m}" and ?high = "(\<lambda>c. k * L + c) ` {c. 1 \<le> c \<and> c \<le> L \<and> coprime c m}"
  have shift: "coprime (k * L + c) m \<longleftrightarrow> coprime c m" for c
  proof -
    obtain j where "L = m * j" using assms by (elim dvdE)
    then have "k * L + c = (k * j) * m + c" by (simp add: algebra_simps)
    then have "gcd m (k * L + c) = gcd m c" by (simp only: gcd_add_mult)
    then show ?thesis by (simp add: coprime_iff_gcd_eq_1 gcd.commute)
  qed
  have "{c. 1 \<le> c \<and> c \<le> k * L + L \<and> coprime c m} = ?low \<union> ?high"
  proof (intro equalityI subsetI)
    fix c assume c: "c \<in> {c. 1 \<le> c \<and> c \<le> k * L + L \<and> coprime c m}"
    show "c \<in> ?low \<union> ?high"
    proof (cases "c \<le> k * L")
      case False
      then have "c = k * L + (c - k * L)" "1 \<le> c - k * L" "c - k * L \<le> L" using c by auto
      then show ?thesis using c shift [of "c - k * L"] by (intro UnI2 image_eqI [of _ _ "c - k * L"]) auto
    qed (use c in auto)
  qed (use shift in auto)
  moreover have "?low \<inter> ?high = {}" by auto
  ultimately show ?thesis
    by (simp add: coprime_count_def card_Un_disjoint card_image inj_on_def)
qed

lemma coprime_count_periodic: "m dvd L \<Longrightarrow> coprime_count m (k * L) = k * coprime_count m L"
proof (induction k)
  case 0
  have "{c :: nat. 1 \<le> c \<and> c \<le> 0 \<and> coprime c m} = {}" by auto
  then show ?case by (simp add: coprime_count_def)
next
  case (Suc k)
  then show ?case using coprime_count_step [of m L k] by (simp add: add.commute)
qed

definition no_divisor :: "nat \<Rightarrow> bool" where
  "no_divisor p \<longleftrightarrow> 2 \<le> p \<and> (\<forall>d. 2 \<le> d \<and> d < p \<longrightarrow> \<not> d dvd p)"

lemma no_divisor_coprime: "no_divisor p \<Longrightarrow> coprime c p \<longleftrightarrow> \<not> p dvd c"
proof -
  assume p: "no_divisor p"
  have p2: "2 \<le> p" and small: "\<And>d. 2 \<le> d \<Longrightarrow> d < p \<Longrightarrow> \<not> d dvd p" using p by (auto simp: no_divisor_def)
  have le: "gcd c p \<le> p" "gcd c p \<noteq> 0" using p2 by (auto intro: dvd_imp_le)
  have "\<not> (2 \<le> gcd c p \<and> gcd c p < p)" using small by auto
  then consider "gcd c p = 1" | "gcd c p = p" using le by linarith
  then show ?thesis
  proof cases
    case 1
    have "\<not> p dvd c"
    proof
      assume "p dvd c"
      then have "p dvd gcd c p" by simp
      then show False using 1 p2 by simp
    qed
    then show ?thesis using 1 by (simp add: coprime_iff_gcd_eq_1)
  next
    case 2
    then have "p dvd c" by (metis gcd_dvd1)
    then show ?thesis using 2 p2 by (simp add: coprime_iff_gcd_eq_1)
  qed
qed

lemma remove_prime:
  assumes p: "no_divisor p" and m: "coprime m p" and N: "m * p dvd N" and pos: "0 < N"
  shows "coprime_count (m * p) N = coprime_count m N - coprime_count m N div p"
proof -
  obtain j where j: "N = m * p * j" using N by (elim dvdE)
  have p0: "0 < p" using p by (simp add: no_divisor_def)
  let ?L = "m * j"
  have N': "N = p * ?L" by (simp add: j mult.commute mult.left_commute)
  let ?all = "{c. 1 \<le> c \<and> c \<le> N \<and> coprime c m}" and ?multiples = "(\<lambda>c. p * c) ` {c. 1 \<le> c \<and> c \<le> ?L \<and> coprime c m}"
  have "{c. 1 \<le> c \<and> c \<le> N \<and> coprime c (m * p)} = ?all - ?multiples"
  proof (intro equalityI subsetI)
    fix c assume c: "c \<in> {c. 1 \<le> c \<and> c \<le> N \<and> coprime c (m * p)}"
    then have "coprime c m" "\<not> p dvd c" using no_divisor_coprime [OF p, of c] by auto
    then show "c \<in> ?all - ?multiples" using c by auto
  next
    fix c assume c: "c \<in> ?all - ?multiples"
    have "\<not> p dvd c"
    proof
      assume "p dvd c"
      then obtain k where k: "c = p * k" by (elim dvdE)
      then have "1 \<le> k" "k \<le> ?L" "coprime k m" using c p0 N' by auto
      then show False using c k by auto
    qed
    then show "c \<in> {c. 1 \<le> c \<and> c \<le> N \<and> coprime c (m * p)}" using c no_divisor_coprime [OF p, of c] by auto
  qed
  moreover have "?multiples \<subseteq> ?all"
    using p0 m N' by (auto simp: coprime_commute)
  moreover have "card ?multiples = coprime_count m ?L" using p0 by (simp add: coprime_count_def card_image inj_on_def)
  ultimately have "coprime_count (m * p) N = coprime_count m N - coprime_count m ?L"
    by (simp add: coprime_count_def card_Diff_subset)
  moreover have "coprime_count m N = p * coprime_count m ?L"
    unfolding N' by (rule coprime_count_periodic) simp
  ultimately show ?thesis using p0 by simp
qed

section \<open>Trial division\<close>

text \<open>After some primes with product \<open>m\<close> are removed from \<open>N\<close>, leaving \<open>v\<close> without divisors below the factor.\<close>

definition trial :: "nat \<Rightarrow> nat \<Rightarrow> nat \<Rightarrow> nat \<Rightarrow> nat \<Rightarrow> bool" where
  "trial N m v r f \<longleftrightarrow> 0 < v \<and> 2 \<le> f \<and> (f = 2 \<or> odd f) \<and> r = coprime_count m N \<and> m * v dvd N \<and> coprime m v
     \<and> (\<forall>c. coprime c N \<longleftrightarrow> coprime c (m * v)) \<and> (\<forall>d. 2 \<le> d \<and> d < f \<longrightarrow> \<not> d dvd v)"

lemma strip_factor_split:
  assumes "2 \<le> f" "0 < v" "f dvd v"
  shows "\<exists>e. v = f ^ Suc e * strip_factor v f \<and> \<not> f dvd strip_factor v f \<and> 0 < strip_factor v f"
proof -
  have "\<exists>e. v = f ^ e * strip_factor v f \<and> \<not> f dvd strip_factor v f \<and> 0 < strip_factor v f"
    if "2 \<le> f" "0 < v" for v
    using that
  proof (induction v f rule: strip_factor.induct)
    case (1 v f)
    show ?case
    proof (cases "v mod f = 0")
      case True
      have "0 < v div f" using True 1(2,3) by (metis div_mult_mod_eq gr0I mult_is_0 add.right_neutral)
      then obtain e where e: "v div f = f ^ e * strip_factor (v div f) f" "\<not> f dvd strip_factor (v div f) f"
        "0 < strip_factor (v div f) f" using 1 True by auto
      have s: "strip_factor v f = strip_factor (v div f) f" using True 1(2,3) by (simp add: strip_factor.simps [of v f])
      have "v = f * (v div f)" using True by auto
      then have "v = f ^ Suc e * strip_factor v f" using e(1) s by (metis mult.assoc power_Suc)
      then show ?thesis using e(2,3) s by (intro exI [of _ "Suc e"]) simp
    next
      case False
      then have "strip_factor v f = v" by (simp add: strip_factor.simps [of v f])
      then show ?thesis using False 1(3) by (intro exI [of _ 0]) auto
    qed
  qed
  then obtain e where e: "v = f ^ e * strip_factor v f" "\<not> f dvd strip_factor v f" "0 < strip_factor v f"
    using assms by blast
  have "e \<noteq> 0"
  proof
    assume "e = 0"
    then show False using e assms(3) by simp
  qed
  then show ?thesis using e by (metis not0_implies_Suc)
qed

lemma next_factor:
  fixes f :: nat
  assumes "2 \<le> f" "f = 2 \<or> odd f" "\<forall>d. 2 \<le> d \<and> d < f \<longrightarrow> \<not> d dvd v" "\<not> f dvd v"
    and "g = (if f = 2 then 3 else f + 2)"
  shows "2 \<le> g" "g = 2 \<or> odd g" "\<forall>d. 2 \<le> d \<and> d < g \<longrightarrow> \<not> d dvd v"
proof -
  show "2 \<le> g" "g = 2 \<or> odd g" using assms(1,2,5) by auto
  show "\<forall>d. 2 \<le> d \<and> d < g \<longrightarrow> \<not> d dvd v"
  proof (intro allI impI)
    fix d assume d: "2 \<le> d \<and> d < g"
    consider "d < f" | "d = f" | "f \<noteq> 2" "d = f + 1" using d assms(5) by (cases "f = 2"; simp; linarith)
    then show "\<not> d dvd v"
    proof cases
      case 3
      then have "even d" "2 < f" using assms(1,2) by auto
      then have "\<not> 2 dvd v" using assms(3) by auto
      then show ?thesis using \<open>even d\<close> dvd_trans by blast
    qed (use assms d in auto)
  qed
qed

lemma trial_found:
  assumes t: "trial N m v r f" and dvd: "f dvd v" and N: "0 < N" and g: "g = (if f = 2 then 3 else f + 2)"
  shows "trial N (m * f) (strip_factor v f) (r - r div f) g"
proof -
  let ?v = "strip_factor v f"
  have f: "2 \<le> f" "0 < v" "f = 2 \<or> odd f" "r = coprime_count m N" "m * v dvd N" "coprime m v"
    and cop: "\<forall>c. coprime c N \<longleftrightarrow> coprime c (m * v)" and small: "\<forall>d. 2 \<le> d \<and> d < f \<longrightarrow> \<not> d dvd v"
    using t by (simp_all add: trial_def)
  obtain e where e: "v = f ^ Suc e * ?v" "\<not> f dvd ?v" "0 < ?v" using strip_factor_split [OF f(1,2) dvd] by blast
  have p: "no_divisor f" using f(1) small dvd dvd_trans unfolding no_divisor_def by blast
  have mf: "coprime m f" using f(6) dvd by (metis coprime_divisors dvd_refl)
  have "m * f dvd N"
    using f(5) dvd by (meson dvd_trans mult_dvd_mono dvd_refl)
  then have count: "r - r div f = coprime_count (m * f) N" unfolding f(4) by (rule remove_prime [OF p mf _ N, symmetric])
  have "m * f * ?v dvd m * v" by (subst (2) e(1)) (simp add: mult.assoc)
  then have div: "m * f * ?v dvd N" using f(5) dvd_trans by blast
  have "coprime m ?v" using f(6) e(1) by (metis coprime_mult_right_iff)
  moreover have "coprime f ?v" using no_divisor_coprime [OF p, of ?v] e(2) by (simp add: coprime_commute)
  ultimately have copv: "coprime (m * f) ?v" by simp
  have same: "coprime c N \<longleftrightarrow> coprime c (m * f * ?v)" for c
  proof -
    have "coprime c v \<longleftrightarrow> coprime c f \<and> coprime c ?v" by (subst e(1)) (simp del: power_Suc)
    then show ?thesis using cop by simp
  qed
  have "\<forall>d. 2 \<le> d \<and> d < f \<longrightarrow> \<not> d dvd ?v" using small e(1) by (metis dvd_mult)
  from next_factor [OF f(1,3) this e(2) g] show ?thesis
    using e(3) count div copv same by (simp add: trial_def)
qed

lemma trial_loop:
  "trial N m v r f \<Longrightarrow> 0 < N \<Longrightarrow> \<exists>m' f'. (case totient_loop v r f of (v', r') \<Rightarrow> trial N m' v' r' f' \<and> v' < f' * f')"
proof (induction v r f arbitrary: m rule: totient_loop.induct)
  case (1 v r f)
  show ?case
  proof (cases "f \<le> v div f")
    case True
    let ?g = "if f = 2 then 3 else f + 2"
    show ?thesis
    proof (cases "v mod f = 0")
      case dvd: True
      then have "trial N (m * f) (strip_factor v f) (r - r div f) ?g" using 1(3,4) by (intro trial_found) auto
      from 1(1) [OF True refl dvd this 1(4)] show ?thesis using True dvd by (simp add: totient_loop.simps [of v r f])
    next
      case False
      then have "\<not> f dvd v" by (simp add: dvd_eq_mod_eq_0)
      moreover have "2 \<le> f" "f = 2 \<or> odd f" "\<forall>d. 2 \<le> d \<and> d < f \<longrightarrow> \<not> d dvd v" using 1(3) unfolding trial_def by blast+
      ultimately have g: "2 \<le> ?g" "?g = 2 \<or> odd ?g" "\<forall>d. 2 \<le> d \<and> d < ?g \<longrightarrow> \<not> d dvd v"
        using next_factor [of f v ?g] by blast+
      have "trial N m v r ?g" using 1(3) g unfolding trial_def by blast
      from 1(2) [OF True refl False this 1(4)] show ?thesis using True False by (simp add: totient_loop.simps [of v r f])
    qed
  next
    case False
    have "v < f * f" using False less_eq_div_iff_mult_less_eq [of f f v] 1(3) by (simp add: trial_def)
    then show ?thesis using False 1(3) by (intro exI [of _ m] exI [of _ f]) (simp add: totient_loop.simps [of v r f])
  qed
qed

theorem euler_totient_counts:
  assumes "0 < n"
  shows "euler_totient n = card {c. 1 \<le> c \<and> c \<le> n \<and> coprime c n}"
proof -
  have one: "coprime_count 1 n = n"
  proof -
    have "{c. 1 \<le> c \<and> c \<le> n \<and> coprime c 1} = {1..n}" by auto
    then show ?thesis by (simp add: coprime_count_def)
  qed
  have "trial n 1 n n 2" using assms one by (auto simp: trial_def)
  then obtain m v r f where loop: "totient_loop n n 2 = (v, r)" and t: "trial n m v r f" "v < f * f"
    using trial_loop [of n 1 n n 2] assms by (cases "totient_loop n n 2") auto
  have goal: "coprime_count n n = card {c. 1 \<le> c \<and> c \<le> n \<and> coprime c n}" by (simp add: coprime_count_def)
  have cop: "\<forall>c. coprime c n \<longleftrightarrow> coprime c (m * v)" and r: "r = coprime_count m n" using t(1) by (simp_all add: trial_def)
  have same: "coprime_count n n = coprime_count (m * v) n" using cop by (simp add: coprime_count_def)
  show ?thesis
  proof (cases "1 < v")
    case True
    have "\<not> d dvd v" if d: "2 \<le> d" "d < v" for d
    proof
      assume dvd: "d dvd v"
      then obtain k where k: "v = d * k" by (elim dvdE)
      have small: "\<not> x dvd v" if "2 \<le> x" "x < f" for x using that t(1) by (simp add: trial_def)
      have "f \<le> d" using small dvd d(1) by (meson linorder_not_le)
      moreover have "2 \<le> k"
      proof (rule ccontr)
        assume "\<not> 2 \<le> k"
        then have "k = 0 \<or> k = 1" by linarith
        then show False using k d True by auto
      qed
      then have "f \<le> k" using small [of k] k by (metis dvd_triv_right linorder_not_le)
      ultimately have "f * f \<le> v" unfolding k by (rule mult_le_mono)
      then show False using t(2) by simp
    qed
    then have "no_divisor v" using True by (simp add: no_divisor_def)
    then have "coprime_count (m * v) n = r - r div v"
      unfolding r using t(1) assms by (intro remove_prime) (simp_all add: trial_def)
    then show ?thesis using loop True same goal by (simp add: euler_totient_def)
  next
    case False
    then have "v = 1" using t(1) by (simp add: trial_def)
    then show ?thesis using loop same goal r by (simp add: euler_totient_def)
  qed
qed

end
