(* ===== verification/Cbc_Budget.thy ===== *)
theory Cbc_Budget
  imports Cbc_Run Cbc_Totient
begin

text \<open>
  What an admission guarantees: the widths it reserves hold every operand of the computation, and the
  work it admits is the sum of the charges the executor debits.
\<close>

section \<open>Elimination of checks\<close>

lemma need_Ok [simp]: "need q v k = Ok x \<longleftrightarrow> (\<exists>w. v = Some w \<and> k w = Ok x)"
  by (cases v) (simp_all add: need_def)

lemma try_ok_Ok [simp]: "try_ok r k = Ok x \<longleftrightarrow> (\<exists>w. r = Ok w \<and> k w = Ok x)"
  by (cases r) (simp_all add: try_ok_def)

lemma target_bound_Ok [simp]: "target_bound q required limit k = Ok x \<longleftrightarrow> required \<le> limit \<and> k = Ok x"
  by (simp add: target_bound_def)

lemma add128_Some [simp]: "add128 a b = Some c \<longleftrightarrow> c = a + b \<and> a + b \<le> u128_max"
  by (simp add: add128_def)

lemma mul128_Some [simp]: "mul128 a b = Some c \<longleftrightarrow> c = a * b \<and> a * b \<le> u128_max"
  by (simp add: mul128_def)

lemma bind_Some [simp]: "Option.bind m k = Some x \<longleftrightarrow> (\<exists>v. m = Some v \<and> k v = Some x)"
  by (cases m) simp_all

section \<open>Widths\<close>

lemma bit_width_bound: "v < 2 ^ bit_width v"
proof (induction v rule: bit_width.induct)
  case (1 v)
  show ?case
  proof (cases "v = 0")
    case False
    have "v < 2 * 2 ^ bit_width (v div 2)" using 1 [OF False] by linarith
    then show ?thesis using False by (simp add: bit_width.simps [of v])
  qed (simp add: bit_width.simps)
qed

lemma ceil_log2_bound: "v \<le> 2 ^ ceil_log2 v"
  using bit_width_bound [of "v - 1"] by (simp add: ceil_log2_def)

lemma limbs_cover: "2 ^ bits \<le> base ^ ((bits + 31) div 32)"
proof -
  have "bits \<le> 32 * ((bits + 31) div 32)" by linarith
  then have "(2 :: nat) ^ bits \<le> 2 ^ (32 * ((bits + 31) div 32))" by (intro power_increasing) simp_all
  then show ?thesis by (simp add: base_def power_mult)
qed

definition kernel_bits :: "nat \<Rightarrow> nat" where
  "kernel_bits n = bit_width (7 * (n * n))"

lemma operand_widths_Ok:
  assumes "operand_widths n d later = Ok w"
  shows "w_kernel_limbs w = (kernel_bits n + 31) div 32"
    "w_source_limbs w = max ((kernel_bits n * later + 31) div 32) 1"
    "w_score_limbs w = (kernel_bits n * d + ceil_log2 n + 31) div 32"
    "w_product_capacity w = w_source_limbs w + w_kernel_limbs w + 1"
    "w_score_capacity w = max (w_product_capacity w) (w_score_limbs w)"
  using assms by (auto simp: operand_widths_def limbs_for_bits_def kernel_bits_def Let_def)

lemma kernel_le:
  assumes "r < n"
  shows "kernel n r \<le> 7 * (n * n)"
proof -
  have "r * r \<le> r * n" using assms by (intro mult_le_mono) simp_all
  then show ?thesis unfolding kernel_def mult.assoc by linarith
qed

lemma point_product_bits:
  assumes "0 < n"
  shows "point_product n gs p \<le> 2 ^ (kernel_bits n * length gs)"
proof (induction gs rule: rev_induct)
  case (snoc c gs)
  have "kernel n (p * c mod n) \<le> 7 * (n * n)" using assms by (intro kernel_le) simp
  also have "\<dots> \<le> 2 ^ kernel_bits n" unfolding kernel_bits_def using bit_width_bound by (rule less_imp_le)
  finally have "point_product n gs p * kernel n (p * c mod n) \<le> 2 ^ (kernel_bits n * length gs) * 2 ^ kernel_bits n"
    using snoc by (intro mult_le_mono)
  then show ?case by (simp add: power_add mult.commute)
qed simp

lemma kernel_less_bits: "r < n \<Longrightarrow> kernel n r < 2 ^ kernel_bits n"
  using kernel_le [of r n] bit_width_bound [of "7 * (n * n)"] by (simp add: kernel_bits_def)

lemma point_product_strict:
  assumes "0 < n"
  shows "point_product n (gs @ [c]) p < 2 ^ (kernel_bits n * Suc (length gs))"
proof -
  have "kernel n (p * c mod n) < 2 ^ kernel_bits n" using assms by (intro kernel_less_bits) simp
  moreover have "point_product n gs p \<le> 2 ^ (kernel_bits n * length gs)" using assms by (rule point_product_bits)
  ultimately have "point_product n gs p * kernel n (p * c mod n) < 2 ^ (kernel_bits n * length gs) * 2 ^ kernel_bits n"
    by (meson le_less_trans mult_le_mono1 mult_strict_left_mono zero_less_numeral zero_less_power)
  then show ?thesis by (simp add: power_add mult.commute)
qed

text \<open>A score at a prefix of fewer than \<open>d\<close> components fits the score width, partial sums with it.\<close>

lemma score_fits:
  assumes "0 < n" "length gs < d"
  shows "(\<Sum>p<n. point_product n (gs @ [c]) p) < base ^ ((kernel_bits n * d + ceil_log2 n + 31) div 32)"
proof -
  have "(\<Sum>p<n. point_product n (gs @ [c]) p) < (\<Sum>p<n. 2 ^ (kernel_bits n * Suc (length gs)))"
    using assms(1) by (intro sum_strict_mono point_product_strict) auto
  also have "\<dots> = n * 2 ^ (kernel_bits n * Suc (length gs))" by simp
  also have "\<dots> \<le> 2 ^ ceil_log2 n * 2 ^ (kernel_bits n * d)"
    using assms(2) by (intro mult_le_mono ceil_log2_bound power_increasing) simp_all
  also have "\<dots> = 2 ^ (kernel_bits n * d + ceil_log2 n)" by (simp add: power_add mult.commute)
  also have "\<dots> \<le> base ^ ((kernel_bits n * d + ceil_log2 n + 31) div 32)" by (rule limbs_cover)
  finally show ?thesis .
qed

text \<open>A product of fewer than \<open>d\<close> components fits the source width.\<close>

lemma source_fits:
  assumes "0 < n" "length gs < d"
  shows "point_product n gs p < base ^ max ((kernel_bits n * (d - 1) + 31) div 32) 1"
proof (cases gs rule: rev_cases)
  case Nil
  have "(1 :: nat) < base ^ 1" by (simp add: base_def)
  also have "\<dots> \<le> base ^ max ((kernel_bits n * (d - 1) + 31) div 32) 1"
    by (intro power_increasing) (simp_all add: base_def)
  finally show ?thesis using Nil by simp
next
  case (snoc hs c)
  have "point_product n gs p < 2 ^ (kernel_bits n * Suc (length hs))" unfolding snoc by (rule point_product_strict [OF assms(1)])
  also have "\<dots> \<le> 2 ^ (kernel_bits n * (d - 1))" using assms(2) snoc by (intro power_increasing mult_le_mono) simp_all
  also have "\<dots> \<le> base ^ ((kernel_bits n * (d - 1) + 31) div 32)" by (rule limbs_cover)
  also have "\<dots> \<le> base ^ max ((kernel_bits n * (d - 1) + 31) div 32) 1"
    by (intro power_increasing) (simp_all add: base_def)
  finally show ?thesis .
qed

lemma factor_len_bound:
  assumes "unat f < base ^ k" "k \<le> 4"
  shows "snd (factor_limbs_u32 f) \<le> k"
  using factor_loop_value [OF assms(1), of "replicate 4 0" 0] assms(2)
  by (auto simp: factor_limbs_u32_def split: prod.splits)

section \<open>The admitted estimate\<close>

definition unit_count :: "nat \<Rightarrow> nat" where
  "unit_count n = card {c. 1 \<le> c \<and> c \<le> n \<and> coprime c n}"

text \<open>The parts of an estimate that was not refused.\<close>

definition estimate_from ::
  "owner_sizes \<Rightarrow> cbc_problem \<Rightarrow> cbc_execution_mode \<Rightarrow> cbc_estimate \<Rightarrow> cbc_widths \<Rightarrow> cbc_counts \<Rightarrow> cbc_bytes \<Rightarrow> cbc_work \<Rightarrow> bool" where
  "estimate_from sizes p mode est w counts bytes work \<longleftrightarrow>
    (let n = unat (problem_point_count p); d = problem_dimension p; sched = execution_schedule est; adm = euler_totient n
     in operand_widths n d (d - 1) = Ok w
       \<and> checked_schedule n (w_kernel_limbs w) (w_source_limbs w) (w_score_capacity w) (w_product_capacity w) (w_score_limbs w) = Ok sched
       \<and> schedule_counts mode n d (d - 1) (n - 1) adm = Ok counts
       \<and> state_bytes sizes mode n d (d - 1) adm w counts = Ok bytes
       \<and> target_bounds mode n d adm w bytes = Ok ()
       \<and> scheduled_work mode sched n d (d - 1) (b_certificates bytes) counts = Ok work
       \<and> 1 \<le> d \<and> work_units est = k_total work \<and> construction_work_units est = k_construction work
       \<and> score_capacity_limbs est = w_score_capacity w \<and> product_capacity_limbs est = w_product_capacity w
       \<and> admissible_candidates_per_prefix est = adm \<and> estimate_mode est = mode
       \<and> certificate_schema_version est = (case mode of Construction \<Rightarrow> 0 | Certified \<Rightarrow> CBC_CERTIFICATE_SCHEMA_VERSION))"

lemma estimate_parts:
  assumes "estimate_for sizes p mode = Ok est"
  obtains w counts bytes work where "estimate_from sizes p mode est w counts bytes work"
  using assms unfolding estimate_for_def estimate_from_def Let_def
  by (clarsimp simp: checked_sub_def split: if_splits)

lemma schedule_parts:
  assumes "checked_schedule n kernel_limbs source_limbs score_cap product_cap score_limbs = Ok sched"
  shows "candidate_visit sched = candidate_visit_limb sched + candidate_visit_scalar sched"
    "candidate_control sched = candidate_control_limb sched + candidate_control_scalar sched"
    "product_update_visit sched = product_update_limb sched + product_update_scalar sched"
    "initialization_visit sched = product_update_visit sched + 1" "0 < initialization_visit sched"
    "certificate_score_copy_limb sched = 2 * score_cap" "certificate_candidate sched = 1"
    "0 < candidate_visit sched" "0 < candidate_control sched" "0 < product_update_visit sched" "0 < prefix_control sched"
  using assms by (auto simp: checked_schedule_def SCALAR_UNITS_PER_FACTOR_def SCALAR_UNITS_PER_LATTICE_VISIT_def
      SCALAR_UNITS_PER_CANDIDATE_def SCALAR_UNITS_PER_DIMENSION_def CERTIFICATE_UNITS_PER_CANDIDATE_def)

lemma triangular_value:
  assumes "checked_triangular d = Ok t"
  shows "t = d * (d + 1) div 2"
proof (cases "d mod 2 = 0")
  case True
  then obtain k where "d = 2 * k" by (metis mod_0_imp_dvd dvdE)
  then show ?thesis using assms by (simp add: checked_triangular_def mult.assoc)
next
  case False
  then obtain k where k: "d = 2 * k + 1" by (metis mod2_eq_if odd_iff_mod_2_eq_one oddE)
  then have "d * (d + 1) = 2 * (d * (k + 1))" "(d + 1) div 2 = k + 1" by simp_all
  then show ?thesis using assms False by (simp add: checked_triangular_def)
qed

lemma counts_parts:
  assumes "schedule_counts mode n d later cands adm = Ok counts"
  shows "n_candidates counts = later * cands" "n_candidate_visits counts = later * n * adm" "n_update_visits counts = d * n"
    "mode = Certified \<and> later \<noteq> 0 \<longrightarrow> n_prefix_words counts = d * (d + 1) div 2 - 1"
    "mode = Certified \<and> later = 0 \<longrightarrow> n_prefix_words counts = 0"
proof -
  obtain words where w: "prefix_payload mode d later = Ok words" and c: "n_candidates counts = later * cands"
    "n_candidate_visits counts = later * n * adm" "n_update_visits counts = d * n" "n_prefix_words counts = words"
    using assms unfolding schedule_counts_def by clarsimp
  show "n_candidates counts = later * cands" "n_candidate_visits counts = later * n * adm" "n_update_visits counts = d * n"
    by (rule c)+
  show "mode = Certified \<and> later \<noteq> 0 \<longrightarrow> n_prefix_words counts = d * (d + 1) div 2 - 1"
    "mode = Certified \<and> later = 0 \<longrightarrow> n_prefix_words counts = 0"
    using w c(4) triangular_value [of d] unfolding prefix_payload_def by (auto simp: checked_sub_def split: if_splits)
qed

text \<open>The admitted work, as counts at their charges.\<close>

definition construction_total :: "cbc_execution_schedule \<Rightarrow> nat \<Rightarrow> nat \<Rightarrow> nat" where
  "construction_total sched n d =
    (d - 1) * n * unit_count n * candidate_visit sched + (d - 1) * (n - 1) * candidate_control sched
      + d * n * product_update_visit sched + n + d * prefix_control sched"

definition certificate_total :: "cbc_execution_schedule \<Rightarrow> nat \<Rightarrow> nat \<Rightarrow> nat" where
  "certificate_total sched n d =
    (d - 1) * (n - 1) * certificate_candidate sched
      + (d - 1) * (certificate_score_copy_limb sched + certificate_fixed_prefix sched) + (d * (d + 1) div 2 - 1)"

lemma add_product_Some:
  "add_product count_of charge so_far = Some x \<longleftrightarrow>
    (\<exists>u. so_far = Some u \<and> x = u + count_of * charge \<and> count_of * charge \<le> u128_max \<and> x \<le> u128_max)"
  by (auto simp: add_product_def)

lemma limb_total_Some:
  "checked_limb_upper_bound sched cv cc uv = Some x \<Longrightarrow>
    x = cv * candidate_visit_limb sched + cc * candidate_control_limb sched + uv * product_update_limb sched"
  unfolding checked_limb_upper_bound_def add_product_Some mul128_Some by clarsimp

lemma scalar_total_Some:
  "checked_scalar_upper_bound sched cv cc uv n d = Some x \<Longrightarrow>
    x = cv * candidate_visit_scalar sched + cc * candidate_control_scalar sched + uv * product_update_scalar sched
      + n + d * prefix_control sched"
  unfolding checked_scalar_upper_bound_def add_product_Some bind_Some mul128_Some add128_Some by clarsimp

lemma certificate_total_Some:
  "checked_certificate_upper_bound sched cc later words = Some x \<Longrightarrow>
    x = cc * certificate_candidate sched + later * (certificate_score_copy_limb sched + certificate_fixed_prefix sched) + words"
  unfolding checked_certificate_upper_bound_def bind_Some mul128_Some add128_Some by clarsimp

lemma scheduled_work_Ok:
  assumes "scheduled_work mode sched n d later certs counts = Ok work"
  obtains limb scalar where
    "checked_limb_upper_bound sched (n_candidate_visits counts) (n_candidates counts) (n_update_visits counts) = Some limb"
    "checked_scalar_upper_bound sched (n_candidate_visits counts) (n_candidates counts) (n_update_visits counts) n d = Some scalar"
    "k_construction work = limb + scalar" "k_total work = k_construction work + k_certificate work"
    "mode = Construction \<longrightarrow> k_certificate work = 0"
    "mode = Certified \<longrightarrow>
      checked_certificate_upper_bound sched (n_candidates counts) later (n_prefix_words counts) = Some (k_certificate work)"
  using assms unfolding scheduled_work_def by (cases mode) clarsimp+

lemma admitted_work_total:
  assumes "estimate_for sizes p mode = Ok est" "problem_point_count p \<noteq> 0"
  shows "construction_work_units est = construction_total (execution_schedule est) (unat (problem_point_count p)) (problem_dimension p)"
    "work_units est = construction_work_units est
       + (case mode of Construction \<Rightarrow> 0
          | Certified \<Rightarrow> certificate_total (execution_schedule est) (unat (problem_point_count p)) (problem_dimension p))"
proof -
  let ?n = "unat (problem_point_count p)" and ?d = "problem_dimension p"
  let ?sched = "execution_schedule est"
  obtain w counts bytes work where parts: "estimate_from sizes p mode est w counts bytes work"
    using assms(1) by (rule estimate_parts)
  have e:
    "checked_schedule ?n (w_kernel_limbs w) (w_source_limbs w) (w_score_capacity w) (w_product_capacity w) (w_score_limbs w) = Ok ?sched"
    "schedule_counts mode ?n ?d (?d - 1) (?n - 1) (euler_totient ?n) = Ok counts"
    "scheduled_work mode ?sched ?n ?d (?d - 1) (b_certificates bytes) counts = Ok work"
    "1 \<le> ?d" "work_units est = k_total work" "construction_work_units est = k_construction work"
    using parts unfolding estimate_from_def Let_def by blast+
  have tot: "euler_totient ?n = unit_count ?n" using assms(2) by (simp add: unit_count_def euler_totient_counts unat_gt_0)
  note s = schedule_parts [OF e(1)] and c = counts_parts [OF e(2), unfolded tot]
  obtain limb scalar where k:
    "checked_limb_upper_bound ?sched (n_candidate_visits counts) (n_candidates counts) (n_update_visits counts) = Some limb"
    "checked_scalar_upper_bound ?sched (n_candidate_visits counts) (n_candidates counts) (n_update_visits counts) ?n ?d = Some scalar"
    "k_construction work = limb + scalar" "k_total work = k_construction work + k_certificate work"
    "mode = Construction \<longrightarrow> k_certificate work = 0"
    "mode = Certified \<longrightarrow>
      checked_certificate_upper_bound ?sched (n_candidates counts) (?d - 1) (n_prefix_words counts) = Some (k_certificate work)"
    using e(3) by (rule scheduled_work_Ok)
  have "k_construction work = construction_total ?sched ?n ?d"
    unfolding k(3) limb_total_Some [OF k(1)] scalar_total_Some [OF k(2)] construction_total_def c(1-3) s(1-3)
    by (simp only: add_mult_distrib2 ac_simps)
  then show "construction_work_units est = construction_total ?sched ?n ?d" using e(6) by simp
  have "k_certificate work = (case mode of Construction \<Rightarrow> 0 | Certified \<Rightarrow> certificate_total ?sched ?n ?d)"
  proof (cases mode)
    case Certified
    have "n_prefix_words counts = ?d * (?d + 1) div 2 - 1"
    proof (cases "?d - 1 = 0")
      case True
      then have "?d = 1" using e(4) by simp
      then show ?thesis using c(5) Certified by simp
    qed (use c(4) Certified in simp)
    then show ?thesis using certificate_total_Some [OF k(6) [rule_format, OF Certified]] c(1) Certified
      by (simp add: certificate_total_def)
  qed (use k(5) in simp)
  then show "work_units est = construction_work_units est
       + (case mode of Construction \<Rightarrow> 0 | Certified \<Rightarrow> certificate_total ?sched ?n ?d)"
    using e(5,6) k(4) by simp
qed

section \<open>What an admission fixes for the executor\<close>

text \<open>The facts of an admitted problem the executor's proofs rest on.\<close>

definition admitted_facts ::
  "u32 \<Rightarrow> nat \<Rightarrow> cbc_execution_mode \<Rightarrow> cbc_execution_schedule \<Rightarrow> nat \<Rightarrow> nat \<Rightarrow> nat \<Rightarrow> bool" where
  "admitted_facts n d mode sched work score_cap product_cap \<longleftrightarrow>
    3 \<le> n \<and> 1 \<le> d \<and> 4 * d \<le> u64_max \<and> (mode = Certified \<longrightarrow> d \<le> u32_max)
    \<and> work = construction_total sched (unat n) d
        + (case mode of Construction \<Rightarrow> 0 | Certified \<Rightarrow> certificate_total sched (unat n) d)
    \<and> work \<le> u128_max
    \<and> initialization_visit sched = product_update_visit sched + 1 \<and> certificate_candidate sched = 1
    \<and> 0 < candidate_visit sched \<and> 0 < candidate_control sched \<and> 0 < product_update_visit sched \<and> 0 < prefix_control sched
    \<and> product_cap = max ((kernel_bits (unat n) * (d - 1) + 31) div 32) 1 + (kernel_bits (unat n) + 31) div 32 + 1
    \<and> product_cap \<le> score_cap \<and> (kernel_bits (unat n) * d + ceil_log2 (unat n) + 31) div 32 \<le> score_cap
    \<and> 4 * score_cap \<le> u64_max"

lemma state_bytes_Ok:
  assumes "state_bytes sizes mode n d later adm w counts = Ok bytes"
  shows "b_generator bytes = d * LIMB_BYTES \<and> b_score bytes = w_score_capacity w * LIMB_BYTES"
  using assms unfolding state_bytes_def Let_def need_Ok try_ok_Ok outcome.inject mul128_Some
  by (elim exE conjE) (drule sym [of _ bytes], hypsubst, simp only: cbc_bytes.simps simp_thms)

lemma target_bounds_Ok:
  assumes "target_bounds mode n d adm w bytes = Ok ()"
  shows "b_generator bytes \<le> isize_max \<and> b_score bytes \<le> isize_max \<and> (mode = Certified \<longrightarrow> d \<le> u32_max)"
  using assms unfolding target_bounds_def need_Ok try_ok_Ok target_bound_Ok
  by (cases mode) auto

lemma admission_gives:
  assumes "estimate_for sizes p mode = Ok est" "3 \<le> problem_point_count p"
  shows "admitted_facts (problem_point_count p) (problem_dimension p) mode (execution_schedule est) (work_units est)
    (score_capacity_limbs est) (product_capacity_limbs est)"
proof -
  obtain w counts bytes work where parts: "estimate_from sizes p mode est w counts bytes work"
    using assms(1) by (rule estimate_parts)
  have e: "operand_widths (unat (problem_point_count p)) (problem_dimension p) (problem_dimension p - 1) = Ok w"
    "checked_schedule (unat (problem_point_count p)) (w_kernel_limbs w) (w_source_limbs w) (w_score_capacity w)
       (w_product_capacity w) (w_score_limbs w) = Ok (execution_schedule est)"
    "state_bytes sizes mode (unat (problem_point_count p)) (problem_dimension p) (problem_dimension p - 1)
       (euler_totient (unat (problem_point_count p))) w counts = Ok bytes"
    "target_bounds mode (unat (problem_point_count p)) (problem_dimension p)
       (euler_totient (unat (problem_point_count p))) w bytes = Ok ()"
    "scheduled_work mode (execution_schedule est) (unat (problem_point_count p)) (problem_dimension p) (problem_dimension p - 1)
       (b_certificates bytes) counts = Ok work"
    "1 \<le> problem_dimension p" "work_units est = k_total work"
    "score_capacity_limbs est = w_score_capacity w" "product_capacity_limbs est = w_product_capacity w"
    using parts unfolding estimate_from_def Let_def by blast+
  note state_bytes_Ok [OF e(3)] target_bounds_Ok [OF e(4)]
  moreover have "isize_max \<le> u64_max" by (simp add: isize_max_def u64_max_def)
  ultimately have sizes: "4 * problem_dimension p \<le> u64_max" "4 * w_score_capacity w \<le> u64_max"
    "mode = Certified \<longrightarrow> problem_dimension p \<le> u32_max"
    by (simp_all add: LIMB_BYTES_def)
  have total: "k_total work \<le> u128_max" using e(5) unfolding scheduled_work_def need_Ok try_ok_Ok add128_Some outcome.inject
    by (elim exE conjE) (drule sym [of _ work], hypsubst, simp only: cbc_work.simps)
  have nz: "problem_point_count p \<noteq> 0" using assms(2) by auto
  note wd = operand_widths_Ok [OF e(1)] and s = schedule_parts [OF e(2)] and at = admitted_work_total [OF assms(1) nz]
  show ?thesis
    unfolding admitted_facts_def
  proof (intro conjI)
    show "3 \<le> problem_point_count p" "1 \<le> problem_dimension p" "4 * problem_dimension p \<le> u64_max"
      "4 * score_capacity_limbs est \<le> u64_max"
      by (simp_all only: assms(2) e(6,8) sizes)
    show "mode = Certified \<longrightarrow> problem_dimension p \<le> u32_max" by (rule sizes)
    show "work_units est = construction_total (execution_schedule est) (unat (problem_point_count p)) (problem_dimension p)
        + (case mode of Construction \<Rightarrow> 0
           | Certified \<Rightarrow> certificate_total (execution_schedule est) (unat (problem_point_count p)) (problem_dimension p))"
      using at by (simp only:)
    show "work_units est \<le> u128_max" using total by (simp only: e(7))
    show "initialization_visit (execution_schedule est) = product_update_visit (execution_schedule est) + 1"
      "certificate_candidate (execution_schedule est) = 1" "0 < candidate_visit (execution_schedule est)"
      "0 < candidate_control (execution_schedule est)" "0 < product_update_visit (execution_schedule est)"
      "0 < prefix_control (execution_schedule est)"
      by (rule s)+
    show "product_capacity_limbs est = max ((kernel_bits (unat (problem_point_count p)) * (problem_dimension p - 1) + 31) div 32) 1
        + (kernel_bits (unat (problem_point_count p)) + 31) div 32 + 1"
      by (simp only: e(9) wd)
    show "product_capacity_limbs est \<le> score_capacity_limbs est"
      "(kernel_bits (unat (problem_point_count p)) * problem_dimension p + ceil_log2 (unat (problem_point_count p)) + 31) div 32
        \<le> score_capacity_limbs est"
      unfolding e(8,9) wd(5) wd(3) by (rule max.cobounded1 max.cobounded2)+
  qed
qed

end
