(* ===== verification/Cbc_Gate.thy ===== *)
theory Cbc_Gate
  imports Cbc_Budget
begin

text \<open>
  The admission-gated checkers (\<open>validate_admission\<close>, \<open>envelope_bound\<close>, \<open>verify_consistency_admitted\<close> and
  \<open>audit_minimality_admitted\<close> of \<open>crates/fs-rand/src/cbc_cert.rs\<close>): a certificate is checked only under a
  current certified receipt for its point count, which bounds each of its vectors.
\<close>

section \<open>The gate\<close>

definition envelope_bound :: "string \<Rightarrow> nat \<Rightarrow> nat \<Rightarrow> (cbc_cert_error, unit) outcome" where
  "envelope_bound storage required limit =
    (if limit < required then Err (AdmissionEnvelopeExceeded storage required limit) else Ok ())"

text \<open>A capacity of the estimate, as an element count of the target.\<close>

definition admitted_count :: "nat \<Rightarrow> (cbc_cert_error, nat) outcome" where
  "admitted_count v = (if v \<le> u64_max then Ok v else Err AdmissionMismatch)"

definition validate_admission :: "owner_sizes \<Rightarrow> cbc_admission \<Rightarrow> cbc_prefix_certificate \<Rightarrow> (cbc_cert_error, unit) outcome" where
  "validate_admission sizes admission cert =
    (let estimate = admission_estimate admission in
     if \<not> has_current_authority sizes admission \<or> admission_mode admission \<noteq> Certified
       \<or> problem_point_count (admission_problem admission) \<noteq> point_count cert
       \<or> certificate_schema_version estimate \<noteq> CBC_CERTIFICATE_SCHEMA_VERSION
     then Err AdmissionMismatch
     else
       try_ok (envelope_bound ''prefix words'' (length (prefix cert)) (problem_dimension (admission_problem admission))) (\<lambda>_.
       try_ok (admitted_count (score_capacity_limbs estimate)) (\<lambda>score_words.
       try_ok (envelope_bound ''winning score limbs'' (length (winning_score_limbs cert)) score_words) (\<lambda>_.
       try_ok (admitted_count (admissible_candidates_per_prefix estimate)) (\<lambda>candidates.
       try_ok (envelope_bound ''tie-class words'' (length (tie_class cert)) candidates) (\<lambda>_.
       case runner_up cert of
         None \<Rightarrow> Ok ()
       | Some (runner_limbs, _) \<Rightarrow>
           try_ok (admitted_count (score_capacity_limbs estimate)) (\<lambda>score_words.
           envelope_bound ''runner-up score limbs'' (length runner_limbs) score_words)))))))"

definition verify_consistency_admitted ::
  "owner_sizes \<Rightarrow> cbc_admission \<Rightarrow> cbc_prefix_certificate \<Rightarrow> (cbc_cert_error, unit) outcome option" where
  "verify_consistency_admitted sizes admission cert =
    try_then (Some (validate_admission sizes admission cert)) (\<lambda>_. verify_consistency cert)"

definition audit_minimality_admitted ::
  "owner_sizes \<Rightarrow> cbc_admission \<Rightarrow> cbc_prefix_certificate \<Rightarrow> (cbc_cert_error, unit) outcome option" where
  "audit_minimality_admitted sizes admission cert =
    try_then (Some (validate_admission sizes admission cert)) (\<lambda>_. audit_minimality cert)"

section \<open>What the gate lets through\<close>

text \<open>A certificate inside the envelope of a receipt.\<close>

definition within_receipt :: "owner_sizes \<Rightarrow> cbc_admission \<Rightarrow> cbc_prefix_certificate \<Rightarrow> bool" where
  "within_receipt sizes admission cert \<longleftrightarrow> has_current_authority sizes admission \<and> admission_mode admission = Certified
     \<and> problem_point_count (admission_problem admission) = point_count cert
     \<and> length (prefix cert) \<le> problem_dimension (admission_problem admission)
     \<and> length (winning_score_limbs cert) \<le> score_capacity_limbs (admission_estimate admission)
     \<and> length (tie_class cert) \<le> euler_totient (unat (point_count cert))
     \<and> (case runner_up cert of None \<Rightarrow> True
        | Some (words, _) \<Rightarrow> length words \<le> score_capacity_limbs (admission_estimate admission))"

lemma envelope_bound_Ok [simp]: "envelope_bound c r a = Ok u \<longleftrightarrow> r \<le> a"
  by (simp add: envelope_bound_def)

lemma admitted_count_Ok [simp]: "admitted_count v = Ok w \<longleftrightarrow> w = v \<and> v \<le> u64_max"
  by (auto simp: admitted_count_def)

lemma euler_totient_u64: "euler_totient (unat (n :: u32)) \<le> u64_max"
proof (cases "n = 0")
  case True
  then show ?thesis by (simp add: euler_totient_def totient_loop.simps)
next
  case False
  then have "0 < unat n" by (simp add: unat_gt_0)
  then have "euler_totient (unat n) = card {c. 1 \<le> c \<and> c \<le> unat n \<and> coprime c (unat n)}" by (rule euler_totient_counts)
  also have "\<dots> \<le> card {1..unat n}" by (intro card_mono) auto
  also have "\<dots> < base" using unat_limb [of n] by simp
  finally show ?thesis by (simp add: base_def u64_max_def)
qed

lemma authority_estimate:
  assumes "has_current_authority sizes admission" "admission_mode admission = Certified"
  shows "certificate_schema_version (admission_estimate admission) = CBC_CERTIFICATE_SCHEMA_VERSION"
    "admissible_candidates_per_prefix (admission_estimate admission) = euler_totient (unat (problem_point_count (admission_problem admission)))"
    "score_capacity_limbs (admission_estimate admission) + 8 \<le> u64_max"
proof -
  have est: "estimate_for sizes (admission_problem admission) Certified = Ok (admission_estimate admission)"
    using assms by (simp add: has_current_authority_def)
  obtain w counts bytes work where "estimate_from sizes (admission_problem admission) Certified (admission_estimate admission) w counts bytes work"
    using est by (rule estimate_parts)
  then have parts: "state_bytes sizes Certified (unat (problem_point_count (admission_problem admission)))
      (problem_dimension (admission_problem admission)) (problem_dimension (admission_problem admission) - 1)
      (euler_totient (unat (problem_point_count (admission_problem admission)))) w counts = Ok bytes"
    "target_bounds Certified (unat (problem_point_count (admission_problem admission))) (problem_dimension (admission_problem admission))
      (euler_totient (unat (problem_point_count (admission_problem admission)))) w bytes = Ok ()"
    "score_capacity_limbs (admission_estimate admission) = w_score_capacity w"
    "admissible_candidates_per_prefix (admission_estimate admission) = euler_totient (unat (problem_point_count (admission_problem admission)))"
    "certificate_schema_version (admission_estimate admission) = CBC_CERTIFICATE_SCHEMA_VERSION"
    unfolding estimate_from_def Let_def by simp_all
  show "certificate_schema_version (admission_estimate admission) = CBC_CERTIFICATE_SCHEMA_VERSION"
    "admissible_candidates_per_prefix (admission_estimate admission) = euler_totient (unat (problem_point_count (admission_problem admission)))"
    by (fact parts)+
  show "score_capacity_limbs (admission_estimate admission) + 8 \<le> u64_max"
    using state_bytes_Ok [OF parts(1)] target_bounds_Ok [OF parts(2)] parts(3)
    by (simp add: LIMB_BYTES_def isize_max_def u64_max_def)
qed

lemma validate_admission_Ok: "validate_admission sizes admission cert = Ok () \<longleftrightarrow> within_receipt sizes admission cert"
proof (cases "has_current_authority sizes admission \<and> admission_mode admission = Certified
    \<and> problem_point_count (admission_problem admission) = point_count cert")
  case True
  then show ?thesis using authority_estimate [of sizes admission] euler_totient_u64 [of "point_count cert"]
    by (cases "runner_up cert") (auto simp: validate_admission_def within_receipt_def Let_def)
qed (auto simp: validate_admission_def within_receipt_def Let_def)

lemma validate_admission_gates:
  "validate_admission sizes admission cert \<in> {Ok (), Err AdmissionMismatch} \<union> range (\<lambda>(s, r, a). Err (AdmissionEnvelopeExceeded s r a))"
  by (auto simp: validate_admission_def envelope_bound_def admitted_count_def try_ok_def Let_def image_iff split: option.split)

text \<open>C27. Under any admission receipt, forged or stale ones included, the gated audit accepts exactly the
  certificates that fit a current certified receipt for their point count and are exactly minimal;
  the gated consistency check accepts what fits and passes the plain one; and both always answer
  without panicking, whatever the certificate holds.\<close>

theorem gated_audit_accepts:
  "(audit_minimality_admitted sizes admission cert = Some (Ok ()) \<longleftrightarrow>
      within_receipt sizes admission cert \<and> well_declared cert \<and> exactly_minimal cert)
    \<and> (verify_consistency_admitted sizes admission cert = Some (Ok ()) \<longleftrightarrow>
      within_receipt sizes admission cert \<and> verify_consistency cert = Some (Ok ()))
    \<and> (\<exists>r. audit_minimality_admitted sizes admission cert = Some r \<and> r \<noteq> Panicked)
    \<and> (\<exists>r. verify_consistency_admitted sizes admission cert = Some r \<and> r \<noteq> Panicked)"
proof (cases "within_receipt sizes admission cert")
  case True
  then have v: "validate_admission sizes admission cert = Ok ()" by (simp add: validate_admission_Ok)
  have fits: "length (winning_score_limbs cert) + 8 \<le> u64_max"
    using True authority_estimate(3) [of sizes admission] by (simp add: within_receipt_def)
  have gates: "audit_minimality_admitted sizes admission cert = audit_minimality cert"
    "verify_consistency_admitted sizes admission cert = verify_consistency cert"
    by (simp_all add: audit_minimality_admitted_def verify_consistency_admitted_def v try_then_def)
  have "audit_minimality cert = Some (Ok ()) \<longleftrightarrow> well_declared cert \<and> exactly_minimal cert"
    using audit_sound [OF fits] audit_complete [OF fits] by blast
  moreover have "(\<exists>r. audit_minimality cert = Some r \<and> r \<noteq> Panicked) \<and> (\<exists>r. verify_consistency cert = Some r \<and> r \<noteq> Panicked)"
    by (rule checkers_answer [OF fits])
  ultimately show ?thesis unfolding gates using True by blast
next
  case False
  then obtain e where "validate_admission sizes admission cert = Err e"
    using validate_admission_gates [of sizes admission cert] validate_admission_Ok [of sizes admission cert] by auto
  then show ?thesis using False by (simp add: audit_minimality_admitted_def verify_consistency_admitted_def try_then_def)
qed

end
