(* ===== verification/Cbc_Points.thy ===== *)
theory Cbc_Points
  imports Cbc_Budget
begin

text \<open>
  The accumulation of one candidate's score. The running score is exactly the sum over the points
  passed, or a multiply-add cursor is under way to the sum that includes the next; every visit is
  prepaid once; and within admitted widths no step refuses, panics or changes anything else.
\<close>

section \<open>Kernel factors\<close>

lemma kernel_factor_value:
  assumes "point < unat n"
  shows "\<exists>f. kernel_factor n point c = Ok f \<and> unat f = kernel (unat n) (point * unat c mod unat n)"
proof -
  have "point < 2 ^ 32" "n \<noteq> 0" using assms unat_limb [of n] by (auto simp: base_def)
  then obtain r where r: "lattice_residue point c n = (Ok r :: (cbc_exec_error, u32) outcome)"
    "unat r = point * unat c mod unat n"
    using lattice_residue_value [of point n c] by blast
  obtain k where "exact_kernel_numerator n r = (Ok k :: (cbc_exec_error, u128) outcome)" "unat k = kernel (unat n) (unat r)"
    using exact_kernel_value [of n r] by blast
  then show ?thesis using r by (simp add: kernel_factor_def)
qed

lemma kernel_pos: "0 < n \<Longrightarrow> 0 < kernel n r"
proof -
  assume n: "0 < n"
  have "6 * (r * n) < 7 * (n * n) + 6 * (r * r)"
  proof (cases "r \<le> n")
    case True
    then have "r * n \<le> n * n" "0 < n * n" using n by (simp_all add: mult_le_mono1)
    then show ?thesis by linarith
  next
    case False
    then have "r * n \<le> r * r" "0 < n * n" using n by (simp_all add: mult_le_mono2)
    then show ?thesis by linarith
  qed
  then show ?thesis by (simp add: kernel_def mult.assoc)
qed

lemma point_product_pos: "0 < n \<Longrightarrow> 0 < point_product n gs p"
  by (induction gs rule: rev_induct) (simp_all add: kernel_pos)

section \<open>Partial scores\<close>

definition partial_score :: "u32 \<Rightarrow> u32 list \<Rightarrow> u32 \<Rightarrow> nat \<Rightarrow> nat" where
  "partial_score n gs c p = (\<Sum>i<p. point_product (unat n) (map unat (gs @ [c])) i)"

definition score_of :: "u32 \<Rightarrow> u32 list \<Rightarrow> u32 \<Rightarrow> nat" where
  "score_of n gs c = exact_score (unat n) (map unat (gs @ [c]))"

lemma partial_score_all: "partial_score n gs c (unat n) = score_of n gs c"
  by (simp add: partial_score_def score_of_def exact_score_def)

lemma partial_score_Suc:
  "partial_score n gs c (Suc p) = partial_score n gs c p + point_product (unat n) (map unat gs) p * kernel (unat n) (p * unat c mod unat n)"
  by (simp add: partial_score_def)

lemma partial_score_le: "p \<le> unat n \<Longrightarrow> partial_score n gs c p \<le> score_of n gs c"
  unfolding partial_score_all [symmetric] partial_score_def by (rule sum_mono2) auto

text \<open>The widths of a scan: sources, factors and the score they add up to.\<close>

definition roomy :: "u32 \<Rightarrow> u32 list \<Rightarrow> exact_nat list \<Rightarrow> nat \<Rightarrow> bool" where
  "roomy n gs ps cap \<longleftrightarrow> products_are n gs ps \<and> cap \<le> u64_max
     \<and> (\<forall>p < unat n. \<forall>c f. kernel_factor n p c = Ok f \<longrightarrow> length (limbs (ps ! p)) + snd (factor_limbs_u32 f) + 1 \<le> cap)
     \<and> (\<forall>c. score_of n gs c < base ^ cap)"

lemma kernel_limbs_le:
  assumes "0 < n" "n < base"
  shows "(kernel_bits n + 31) div 32 \<le> 4"
proof -
  have "n * n \<le> (2 ^ 32 - 1) * (2 ^ 32 - 1)" using assms by (intro mult_le_mono) (simp_all add: base_def)
  then have small: "7 * (n * n) < 2 ^ 97" by simp
  have "bit_width v \<le> k" if "v < 2 ^ k" for v k
    using that
  proof (induction v arbitrary: k rule: bit_width.induct)
    case (1 v)
    show ?case
    proof (cases "v = 0")
      case False
      then obtain j where j: "k = Suc j" using 1(2) by (cases k) auto
      then have "v div 2 < 2 ^ j" using 1(2) by simp
      then show ?thesis using 1(1) [OF False] False j by (simp add: bit_width.simps [of v])
    qed (simp add: bit_width.simps)
  qed
  from this [OF small] show ?thesis by (simp add: kernel_bits_def)
qed

lemma roomy_admitted:
  assumes adm: "admitted_facts n d mode sched work cap product_cap" and ps: "products_are n gs ps" and len: "length gs < d"
  shows "roomy n gs ps cap" "\<forall>p < unat n. length (limbs (ps ! p)) + (kernel_bits (unat n) + 31) div 32 + 1 \<le> product_cap"
proof -
  let ?n = "unat n" and ?K = "(kernel_bits (unat n) + 31) div 32"
  have n: "0 < ?n" "?n < base" using adm unat_limb [of n] by (auto simp: admitted_facts_def unat_gt_0)
  have caps: "product_cap = max ((kernel_bits ?n * (d - 1) + 31) div 32) 1 + ?K + 1" "product_cap \<le> cap"
    "(kernel_bits ?n * d + ceil_log2 ?n + 31) div 32 \<le> cap" "cap \<le> u64_max"
    using adm by (simp_all add: admitted_facts_def)
  have src: "length (limbs (ps ! p)) \<le> max ((kernel_bits ?n * (d - 1) + 31) div 32) 1" if "p < ?n" for p
    using that ps source_fits [OF n(1), of "map unat gs" d p] len
    by (intro normalized_length) (auto simp: products_are_def)
  then show "\<forall>p < ?n. length (limbs (ps ! p)) + ?K + 1 \<le> product_cap" unfolding caps(1) by auto
  have fac: "snd (factor_limbs_u32 f) \<le> ?K" if "p < ?n" "kernel_factor n p c = Ok f" for p c f
  proof (rule factor_len_bound [OF _ kernel_limbs_le [OF n]])
    have "unat f = kernel ?n (p * unat c mod ?n)" using kernel_factor_value [OF that(1), of c] that(2) by auto
    also have "\<dots> < 2 ^ kernel_bits ?n" using n(1) by (intro kernel_less_bits) simp
    also have "\<dots> \<le> base ^ ?K" by (rule limbs_cover)
    finally show "unat f < base ^ ?K" .
  qed
  have "score_of n gs c < base ^ cap" for c
  proof -
    have "score_of n gs c < base ^ ((kernel_bits ?n * d + ceil_log2 ?n + 31) div 32)"
      using score_fits [OF n(1), of "map unat gs" d "unat c"] len by (simp add: score_of_def exact_score_def)
    also have "\<dots> \<le> base ^ cap" using caps(3) by (intro power_increasing) (simp_all add: base_def)
    finally show ?thesis .
  qed
  moreover have "length (limbs (ps ! p)) + snd (factor_limbs_u32 f) + 1 \<le> cap" if "p < ?n" "kernel_factor n p c = Ok f" for p c f
    using src [OF that(1)] fac [OF that] caps(1,2) by linarith
  ultimately show "roomy n gs ps cap" using ps caps(4) by (simp add: roomy_def)
qed

section \<open>The accumulator\<close>

definition micro_inv :: "u32 \<Rightarrow> u32 list \<Rightarrow> exact_nat list \<Rightarrow> u32 \<Rightarrow> nat \<Rightarrow> nat \<Rightarrow> u32 list \<Rightarrow> limb_cursor \<Rightarrow> bool" where
  "micro_inv n gs ps c p reserved dst cursor \<longleftrightarrow>
    (\<forall>f. kernel_factor n p c = Ok f \<longrightarrow>
      (let (words, len) = factor_limbs_u32 f
       in length (limbs (ps ! p)) + len \<le> reserved
          \<and> cursor_inv (limbs (ps ! p)) (take len words) reserved dst cursor (partial_score n gs c (Suc p))))"

definition accum_at :: "u32 \<Rightarrow> u32 list \<Rightarrow> exact_nat list \<Rightarrow> nat \<Rightarrow> u32 \<Rightarrow> nat \<Rightarrow> scan_accum \<Rightarrow> bool" where
  "accum_at n gs ps cap c p a \<longleftrightarrow> cap \<le> score_reserved a
     \<and> (case micro a of
          None \<Rightarrow> exact_value (score a) = partial_score n gs c p \<and> length (limbs (score a)) \<le> score_reserved a
        | Some cursor \<Rightarrow> micro_point a = p \<and> p < unat n
            \<and> micro_inv n gs ps c p (score_reserved a) (limbs (score a)) cursor)"

text \<open>A bound on the cells an operation under way still mutates.\<close>

definition cells_pending :: "u32 \<Rightarrow> exact_nat list \<Rightarrow> u32 \<Rightarrow> scan_accum \<Rightarrow> nat" where
  "cells_pending n ps c a =
    (case micro a of
       None \<Rightarrow> 0
     | Some cursor \<Rightarrow>
         (case kernel_factor n (micro_point a) c of
            Ok f \<Rightarrow> (let (words, len) = factor_limbs_u32 f in cells_left (limbs (ps ! micro_point a)) (take len words) cursor)
          | _ \<Rightarrow> 0))"

text \<open>Visits begun, and so paid for, by an accumulator at a point.\<close>

definition begun :: "scan_accum \<Rightarrow> nat \<Rightarrow> nat" where
  "begun a p = p + (if micro a \<noteq> None then 1 else 0)"

text \<open>A tile's meters only move units from the allowance to the work spent.\<close>

definition paid :: "meter \<Rightarrow> meter \<Rightarrow> nat \<Rightarrow> bool" where
  "paid m m' units \<longleftrightarrow> spent m' = spent m + units \<and> remaining m' + units = remaining m"

lemma paid_refl [simp]: "paid m m 0" by (simp add: paid_def)

lemma paid_cells [simp]: "paid m (count_cells k m') units \<longleftrightarrow> paid m m' units"
  by (simp add: paid_def count_cells_def)

lemma paid_trans: "paid m m' a \<Longrightarrow> paid m' m'' b \<Longrightarrow> paid m m'' (a + b)"
  by (simp add: paid_def)

lemma debit_cases:
  assumes "limit \<le> u128_max" "spent m + units \<le> limit"
  shows "remaining m < units \<and> debit m limit units b = Err (AllowanceShort units b)
    \<or> units \<le> remaining m \<and> (\<exists>m'. debit m limit units b = Ok m' \<and> paid m m' units)"
  using assms by (auto simp: debit_def gate_allowance_def checked_add_def checked_sub_def paid_def)

lemma debit_paid:
  assumes "limit \<le> u128_max" "spent m + units \<le> limit" "units \<le> remaining m"
  obtains m' where "debit m limit units b = Ok m'" "paid m m' units"
  using debit_cases [OF assms(1,2), of b] assms(3) by auto

section \<open>One point\<close>

lemma roomy_width:
  "roomy n gs ps cap \<Longrightarrow> p < unat n \<Longrightarrow> kernel_factor n p c = Ok f \<Longrightarrow>
    length (limbs (ps ! p)) + snd (factor_limbs_u32 f) + 1 \<le> cap"
  unfolding roomy_def by blast

lemma begin_visit_cases:
  assumes roomy: "roomy n gs ps cap" and p: "p < unat n" and at: "accum_at n gs ps cap c p a" "micro a = None"
    and f: "kernel_factor n p c = Ok f" and ch: "charge_score_capacity charges = cap" "charge_admitted charges \<le> u128_max"
    and fits: "spent m + visit_units charges \<le> charge_admitted charges"
  shows "remaining m < visit_units charges
      \<and> begin_visit charges p (length (limbs (ps ! p))) (snd (factor_limbs_u32 f)) a m = Err (AllowanceShort (visit_units charges) PointBlock)
    \<or> (\<exists>a' m'. begin_visit charges p (length (limbs (ps ! p))) (snd (factor_limbs_u32 f)) a m = Ok (a', m')
         \<and> accum_at n gs ps cap c p a' \<and> micro a' \<noteq> None \<and> next_point a' = next_point a \<and> paid m m' (visit_units charges))"
proof -
  obtain words len where fl: "factor_limbs_u32 f = (words, len)" by (cases "factor_limbs_u32 f")
  let ?src = "limbs (ps ! p)"
  have w: "length ?src + len + 1 \<le> cap" "cap \<le> u64_max" using roomy_width [OF roomy p f] fl roomy by (simp_all add: roomy_def)
  have a: "exact_value (score a) = partial_score n gs c p" "length (limbs (score a)) \<le> score_reserved a" "cap \<le> score_reserved a"
    using at by (auto simp: accum_at_def)
  have need: "Option.bind (checked_add u64_max (length ?src) len) (\<lambda>n. checked_add u64_max n 1) = Some (length ?src + len + 1)"
    using w by (simp add: checked_add_def)
  have chk: "\<not> max (charge_score_capacity charges) (length (limbs (score a))) < length ?src + len + 1" using w ch by simp
  let ?cur = "begin_add_multiply (length (limbs (score a))) (length ?src + len + 1) (score_reserved a)"
  have src: "?src \<noteq> []"
  proof
    assume "?src = []"
    then have "exact_value (ps ! p) = 0" by (simp add: exact_value_def)
    then show False using roomy p point_product_pos [of "unat n" "map unat gs" p] by (simp add: roomy_def products_are_def)
  qed
  have len4: "len \<le> 4" and val: "limbs_value (take len words) = unat f" using factor_limbs_value [of f] fl by auto
  have ex: "partial_score n gs c (Suc p) = limbs_value (limbs (score a)) + limbs_value ?src * limbs_value (take len words)"
    using a(1) roomy p kernel_factor_value [OF p, of c] f val
    by (simp add: partial_score_Suc exact_value_def roomy_def products_are_def)
  have inv: "cursor_inv ?src (take len words) (score_reserved a) (limbs (score a)) ?cur (partial_score n gs c (Suc p))"
    unfolding ex using w a src by (intro cursor_inv_begin) simp_all
  have micro: "micro_inv n gs ps c p (score_reserved a) (limbs (score a)) ?cur"
    using inv w a f fl by (simp add: micro_inv_def)
  show ?thesis
  proof (cases "remaining m < visit_units charges")
    case True
    then have "begin_visit charges p (length ?src) (snd (factor_limbs_u32 f)) a m = Err (AllowanceShort (visit_units charges) PointBlock)"
      unfolding begin_visit_def fl snd_conv need option.case if_not_P [OF chk] by (simp add: gate_allowance_def)
    then show ?thesis using True by blast
  next
    case False
    obtain m' where d: "debit m (charge_admitted charges) (visit_units charges) PointBlock = Ok m'" "paid m m' (visit_units charges)"
      using debit_paid [OF ch(2) fits] False by (metis not_less)
    have "begin_visit charges p (length ?src) (snd (factor_limbs_u32 f)) a m = Ok (a\<lparr>micro := Some ?cur, micro_point := p\<rparr>, m')"
      unfolding begin_visit_def fl snd_conv need option.case if_not_P [OF chk] using False d(1) by (simp add: gate_allowance_def)
    moreover have "accum_at n gs ps cap c p (a\<lparr>micro := Some ?cur, micro_point := p\<rparr>)"
      using micro a p by (simp add: accum_at_def)
    ultimately show ?thesis using d(2) by fastforce
  qed
qed

lemma factor_nonzero:
  assumes "p < unat n" "kernel_factor n p c = Ok f"
  shows "f \<noteq> 0"
proof -
  have "unat f \<noteq> 0" using kernel_factor_value [OF assms(1), of c] assms kernel_pos [of "unat n"] by auto
  then show ?thesis by auto
qed

lemma drive_cells_cases:
  assumes roomy: "roomy n gs ps cap" and p: "p < unat n" and at: "accum_at n gs ps cap c p a" "micro a \<noteq> None"
    and f: "kernel_factor n p c = Ok f"
  shows "(\<exists>a' m'. drive_cells charges ps p f a m = PointComplete a' m' \<and> accum_at n gs ps cap c (Suc p) a' \<and> micro a' = None \<and> paid m m' 0)
    \<or> (\<exists>a' m'. drive_cells charges ps p f a m = PointEnds a' m' (Ok LimbBlock) \<and> accum_at n gs ps cap c p a' \<and> micro a' \<noteq> None
         \<and> next_point a' = next_point a \<and> paid m m' 0
         \<and> (limb_block (charge_tile charges) \<noteq> 0 \<longrightarrow> cells_pending n ps c a' < cells_pending n ps c a))"
proof -
  obtain cur where cur: "micro a = Some cur" using at(2) by auto
  obtain words len where fl: "factor_limbs_u32 f = (words, len)" by (cases "factor_limbs_u32 f")
  let ?src = "limbs (ps ! p)" and ?ws = "take len words" and ?dst = "limbs (score a)" and ?exact = "partial_score n gs c (Suc p)"
  let ?budget = "unat (limb_block (charge_tile charges))"
  have inv: "cursor_inv ?src ?ws (score_reserved a) ?dst cur ?exact" and room: "length ?src + len \<le> score_reserved a"
    and cap: "cap \<le> score_reserved a"
    using at cur f fl by (auto simp: accum_at_def micro_inv_def)
  have words: "length words = 4" "len \<le> 4" "0 < len" using factor_limbs_value [of f] fl factor_nonzero [OF p f] by auto
  then have ws: "?ws \<noteq> []" "length ?ws = len" by auto
  have src: "?src \<noteq> []"
  proof
    assume "?src = []"
    then have "exact_value (ps ! p) = 0" by (simp add: exact_value_def)
    then show False using roomy p point_product_pos [of "unat n" "map unat gs" p] by (simp add: roomy_def products_are_def)
  qed
  have step: "step_add_multiply ?dst ?src words len cur ?budget = cell_loop ?src words len ?budget 0 ?dst cur"
    by (rule step_passes_guard [OF inv ws(2) src ws(1)])
  have ok: "loop_ok ?src ?ws (score_reserved a) ?budget 0 cur ?exact (cell_loop ?src words len ?budget 0 ?dst cur)"
    by (rule cell_loop_ok [OF src ws(1) refl _ inv]) (use words in simp)
  have "?exact \<le> score_of n gs c" using p by (intro partial_score_le) simp
  also have "\<dots> < base ^ cap" using roomy by (simp add: roomy_def)
  also have "\<dots> \<le> base ^ score_reserved a" using cap by (intro power_increasing) (simp_all add: base_def)
  finally have fits: "?exact < base ^ score_reserved a" .
  have noroom: "\<not> out_of_room ?src ?ws (score_reserved a) ?exact" using fits room ws(2) by (simp add: out_of_room_def)
  obtain out used dst' cur' where r: "cell_loop ?src words len ?budget 0 ?dst cur = Ok ((out, used), dst', cur')"
    using ok by (auto simp: loop_ok_def split: outcome.splits)
  show ?thesis
  proof (cases out)
    case (Advanced k)
    then have i: "cursor_inv ?src ?ws (score_reserved a) dst' cur' ?exact" using ok r by (simp add: loop_ok_def)
    let ?a = "a\<lparr>score := (score a)\<lparr>limbs := dst'\<rparr>, micro := Some cur', micro_point := p\<rparr>"
    have "accum_at n gs ps cap c p ?a" using i p f fl room cap by (auto simp: accum_at_def micro_inv_def)
    moreover have "micro_point a = p" using at cur by (auto simp: accum_at_def)
    then have "limb_block (charge_tile charges) \<noteq> 0 \<longrightarrow> cells_pending n ps c ?a < cells_pending n ps c a"
      using ok r Advanced cur f fl unat_gt_0 [of "limb_block (charge_tile charges)"] by (auto simp: loop_ok_def cells_pending_def)
    moreover have "drive_cells charges ps p f a m = PointEnds ?a (count_cells k m) (Ok LimbBlock)"
      using cur fl step r Advanced by (simp add: drive_cells_def)
    ultimately show ?thesis by fastforce
  next
    case (Complete k)
    then have i: "limbs_value dst' = ?exact" "cursor_inv ?src ?ws (score_reserved a) dst' cur' ?exact" using ok r by (simp_all add: loop_ok_def)
    let ?a = "a\<lparr>score := (score a)\<lparr>limbs := dst'\<rparr>, micro := None\<rparr>"
    have "accum_at n gs ps cap c (Suc p) ?a" using i cap by (simp add: accum_at_def exact_value_def cursor_inv_def)
    moreover have "drive_cells charges ps p f a m = PointComplete ?a (count_cells (max k 1) m)"
      using cur fl step r Complete by (simp add: drive_cells_def)
    ultimately show ?thesis by fastforce
  next
    case Refused
    then show ?thesis using ok r noroom by (simp add: loop_ok_def)
  qed
qed

lemma accum_at_next [simp]: "accum_at n gs ps cap c p (a\<lparr>next_point := q\<rparr>) = accum_at n gs ps cap c p a"
  by (simp add: accum_at_def split: option.split)

lemma visit_point_cases:
  assumes roomy: "roomy n gs ps cap" and p: "p < unat n" and at: "accum_at n gs ps cap c p a"
    and ch: "charge_n charges = n" "charge_score_capacity charges = cap" "charge_admitted charges \<le> u128_max"
    and fits: "spent m + (Suc p - begun a p) * visit_units charges \<le> charge_admitted charges"
  shows "(\<exists>a' m'. visit_point charges ps c p a m = PointComplete a' m' \<and> accum_at n gs ps cap c (Suc p) a' \<and> micro a' = None
        \<and> paid m m' ((Suc p - begun a p) * visit_units charges))
    \<or> (\<exists>a' m'. visit_point charges ps c p a m = PointEnds a' m' (Ok LimbBlock) \<and> accum_at n gs ps cap c p a' \<and> micro a' \<noteq> None
        \<and> next_point a' = p \<and> paid m m' ((Suc p - begun a p) * visit_units charges)
        \<and> (limb_block (charge_tile charges) \<noteq> 0 \<longrightarrow> micro a = None \<or> cells_pending n ps c a' < cells_pending n ps c a))
    \<or> (visit_point charges ps c p a m = PointEnds (a\<lparr>next_point := p\<rparr>) m (Err (AllowanceShort (visit_units charges) PointBlock))
        \<and> micro a = None \<and> remaining m < visit_units charges)"
proof -
  let ?a = "a\<lparr>next_point := p\<rparr>" and ?v = "visit_units charges"
  obtain f where f: "kernel_factor n p c = Ok f" using kernel_factor_value [OF p] by blast
  have len: "\<not> length ps \<le> p" using roomy p by (simp add: roomy_def products_are_def)
  have at': "accum_at n gs ps cap c p ?a" using at by simp
  show ?thesis
  proof (cases "micro a")
    case (Some cur)
    then have v: "visit_point charges ps c p a m = drive_cells charges ps p f ?a m"
      using f len ch(1) by (simp add: visit_point_def Let_def)
    have "cells_pending n ps c ?a = cells_pending n ps c a" by (simp add: cells_pending_def cong: option.case_cong outcome.case_cong)
    then show ?thesis using drive_cells_cases [OF roomy p at' _ f, of charges m] Some unfolding v by (auto simp: begun_def)
  next
    case None
    have fits': "spent m + ?v \<le> charge_admitted charges" using fits None by (simp add: begun_def)
    have m: "micro ?a = None" using None by simp
    consider "begin_visit charges p (length (limbs (ps ! p))) (snd (factor_limbs_u32 f)) ?a m = Err (AllowanceShort ?v PointBlock)"
        "remaining m < ?v"
      | a' m' where "begin_visit charges p (length (limbs (ps ! p))) (snd (factor_limbs_u32 f)) ?a m = Ok (a', m')"
        "accum_at n gs ps cap c p a'" "micro a' \<noteq> None" "next_point a' = p" "paid m m' ?v"
      using begin_visit_cases [OF roomy p at' m f ch(2,3) fits'] by auto
    then show ?thesis
    proof cases
      case 1
      then show ?thesis using None f len ch(1) by (simp add: visit_point_def Let_def)
    next
      case 2
      then have v: "visit_point charges ps c p a m = drive_cells charges ps p f a' m'"
        using None f len ch(1) by (simp add: visit_point_def Let_def)
      have cost: "(Suc p - begun a p) * ?v = ?v + 0" using None by (simp add: begun_def)
      show ?thesis unfolding v cost using drive_cells_cases [OF roomy p 2(2,3) f, of charges m'] paid_trans [OF 2(5)] 2(4) None by metis
    qed
  qed
qed

section \<open>A block of points\<close>

definition scan_result ::
  "tile_charges \<Rightarrow> nat \<Rightarrow> (cbc_exec_error, cbc_boundary option) outcome \<Rightarrow> scan_accum \<Rightarrow> nat \<Rightarrow> meter \<Rightarrow> bool" where
  "scan_result charges last_point r a q m \<longleftrightarrow>
     r = Ok None \<and> q = last_point \<and> micro a = None
     \<or> r = Ok (Some LimbBlock) \<and> q < last_point
     \<or> r = Err (AllowanceShort (visit_units charges) PointBlock) \<and> q < last_point
         \<and> remaining m < visit_units charges \<and> spent m + visit_units charges \<le> charge_admitted charges"

lemma scan_points_cases:
  assumes roomy: "roomy n gs ps cap"
    and ch: "charge_n charges = n" "charge_score_capacity charges = cap" "charge_admitted charges \<le> u128_max"
    and last: "last_point \<le> unat n"
  shows "p \<le> last_point \<Longrightarrow> (micro a \<noteq> None \<longrightarrow> p < last_point) \<Longrightarrow> accum_at n gs ps cap c p a \<Longrightarrow>
    spent m + (last_point - begun a p) * visit_units charges \<le> charge_admitted charges \<Longrightarrow>
    \<exists>a' m' r q. scan_points charges ps c last_point p a m = ((a', m'), r) \<and> p \<le> q \<and> q \<le> last_point
      \<and> accum_at n gs ps cap c q a' \<and> next_point a' = q \<and> begun a p \<le> begun a' q
      \<and> paid m m' ((begun a' q - begun a p) * visit_units charges) \<and> scan_result charges last_point r a' q m'
      \<and> (limb_block (charge_tile charges) \<noteq> 0 \<longrightarrow> r = Ok (Some LimbBlock) \<longrightarrow>
           begun a p < begun a' q \<or> micro a \<noteq> None \<and> cells_pending n ps c a' < cells_pending n ps c a)"
proof (induction "last_point - p" arbitrary: p a m)
  case 0
  then have "p = last_point" "micro a = None" by auto
  then show ?case using "0.prems"
    by (intro exI [of _ "a\<lparr>next_point := last_point\<rparr>"] exI [of _ m] exI [of _ "Ok None"] exI [of _ last_point])
      (simp add: scan_points.simps begun_def scan_result_def)
next
  case (Suc k)
  let ?v = "visit_units charges"
  have k: "k = last_point - Suc p" using Suc.hyps(2) by linarith
  have p: "p < last_point" "p < unat n" using Suc.hyps(2) last by linarith+
  have b: "begun a p \<le> Suc p" by (simp add: begun_def)
  have split: "(last_point - begun a p) * ?v = (Suc p - begun a p) * ?v + (last_point - Suc p) * ?v"
    using b p(1) by (simp add: begun_def add_mult_distrib [symmetric])
  have fits: "spent m + (Suc p - begun a p) * ?v \<le> charge_admitted charges" using Suc.prems(4) split by linarith
  consider (complete) a1 m1 where "visit_point charges ps c p a m = PointComplete a1 m1" "accum_at n gs ps cap c (Suc p) a1"
      "micro a1 = None" "paid m m1 ((Suc p - begun a p) * ?v)"
    | (limb) a1 m1 where "visit_point charges ps c p a m = PointEnds a1 m1 (Ok LimbBlock)" "accum_at n gs ps cap c p a1"
      "micro a1 \<noteq> None" "next_point a1 = p" "paid m m1 ((Suc p - begun a p) * ?v)"
      "limb_block (charge_tile charges) \<noteq> 0 \<longrightarrow> micro a = None \<or> cells_pending n ps c a1 < cells_pending n ps c a"
    | (short) "visit_point charges ps c p a m = PointEnds (a\<lparr>next_point := p\<rparr>) m (Err (AllowanceShort ?v PointBlock))" "micro a = None"
      "remaining m < ?v"
    using visit_point_cases [OF roomy p(2) Suc.prems(3) ch fits] by (elim disjE exE conjE) blast+
  then show ?case
  proof cases
    case complete
    have b1: "begun a1 (Suc p) = Suc p" using complete(3) by (simp add: begun_def)
    have fits1: "spent m1 + (last_point - begun a1 (Suc p)) * ?v \<le> charge_admitted charges"
      using complete(4) Suc.prems(4) split b1 by (simp add: paid_def)
    obtain a' m' r q where r: "scan_points charges ps c last_point (Suc p) a1 m1 = ((a', m'), r)" "Suc p \<le> q" "q \<le> last_point"
      "accum_at n gs ps cap c q a'" "next_point a' = q" "begun a1 (Suc p) \<le> begun a' q"
      "paid m1 m' ((begun a' q - begun a1 (Suc p)) * ?v)" "scan_result charges last_point r a' q m'"
      "limb_block (charge_tile charges) \<noteq> 0 \<longrightarrow> r = Ok (Some LimbBlock) \<longrightarrow>
         begun a1 (Suc p) < begun a' q \<or> micro a1 \<noteq> None \<and> cells_pending n ps c a' < cells_pending n ps c a1"
      using Suc.hyps(1) [of "Suc p" a1 m1] k p(1) complete(2,3) fits1 by auto
    have "(Suc p - begun a p) * ?v + (begun a' q - begun a1 (Suc p)) * ?v = (begun a' q - begun a p) * ?v"
      using b b1 r(6) by (simp add: add_mult_distrib [symmetric])
    then have "paid m m' ((begun a' q - begun a p) * ?v)" using paid_trans [OF complete(4) r(7)] by simp
    moreover have "scan_points charges ps c last_point p a m = ((a', m'), r)"
      using p(1) complete(1) r(1) by (simp add: scan_points.simps [of charges ps c last_point p])
    moreover have "begun a p \<le> begun a' q" using b b1 r(6) by linarith
    moreover have "p \<le> q" using r(2) by simp
    moreover have "limb_block (charge_tile charges) \<noteq> 0 \<longrightarrow> r = Ok (Some LimbBlock) \<longrightarrow> begun a p < begun a' q"
      using r(9) b b1 complete(3) by auto
    ultimately show ?thesis using r(3,4,5,8) by blast
  next
    case limb
    have b1: "begun a1 p = Suc p" using limb(3) by (simp add: begun_def)
    have "micro a = None \<longrightarrow> begun a p < begun a1 p" unfolding b1 by (simp add: begun_def)
    then have "limb_block (charge_tile charges) \<noteq> 0 \<longrightarrow>
        begun a p < begun a1 p \<or> micro a \<noteq> None \<and> cells_pending n ps c a1 < cells_pending n ps c a"
      using limb(6) by (cases "micro a") simp_all
    then show ?thesis using p(1) limb(1-5) b b1
      by (intro exI [of _ a1] exI [of _ m1] exI [of _ "Ok (Some LimbBlock)"] exI [of _ p])
        (simp add: scan_points.simps [of charges ps c last_point p] scan_result_def)
  next
    case short
    have "spent m + ?v \<le> charge_admitted charges" using fits short(2) by (simp add: begun_def)
    then show ?thesis using p(1) Suc.prems(3) short
      by (intro exI [of _ "a\<lparr>next_point := p\<rparr>"] exI [of _ m] exI [of _ "Err (AllowanceShort ?v PointBlock)"] exI [of _ p])
        (simp add: scan_points.simps [of charges ps c last_point p] scan_result_def begun_def)
  qed
qed

end
