(* ===== verification/Cbc_Scan.thy ===== *)
theory Cbc_Scan
  imports Cbc_Points
begin

text \<open>
  The scan of a prefix: candidates ascend, the verdicts keep the lowest minimiser, its ties and the
  runner-up of the candidates passed, and a scan that ends hands over the greedy choice with, when
  certificates are produced, one the checker accepts.
\<close>

section \<open>Candidates passed\<close>

definition unit_candidates :: "u32 \<Rightarrow> u32 \<Rightarrow> u32 list" where
  "unit_candidates n c = filter (unit_mod n) (candidates_below c)"

lemma candidates_below_Suc:
  assumes "c \<noteq> 0" "c \<noteq> - 1"
  shows "candidates_below (c + 1) = candidates_below c @ [c]"
proof -
  have "1 \<le> unat c" using assms(1) by (simp add: Suc_le_eq unat_gt_0)
  then show ?thesis by (simp add: candidates_below_def unat_Suc_word [OF assms(2)])
qed

lemma unit_candidates_Suc:
  "c \<noteq> 0 \<Longrightarrow> c \<noteq> - 1 \<Longrightarrow> unit_candidates n (c + 1) = unit_candidates n c @ (if unit_mod n c then [c] else [])"
  by (simp add: unit_candidates_def candidates_below_Suc)

lemma unit_candidates_sorted [simp]: "sorted_wrt (<) (unit_candidates n c)"
  unfolding unit_candidates_def by (intro sorted_wrt_filter candidates_below_sorted)

lemma unit_candidates_set: "set (unit_candidates n c) = {d. unit_mod n d \<and> d < c}"
  by (auto simp: unit_candidates_def candidates_below_set unit_mod_def)

lemma unit_candidates_distinct: "distinct (unit_candidates n c)"
  using strict_sorted_iff [of "unit_candidates n c"] by simp

lemma unit_candidates_length: "length (unit_candidates n c) = card {d. unit_mod n d \<and> d < c}"
  using distinct_card [OF unit_candidates_distinct, of n c] by (simp add: unit_candidates_set)

lemma unit_candidates_more:
  assumes "unit_mod n c"
  shows "Suc (length (unit_candidates n c)) \<le> length (unit_candidates n n)"
proof -
  have "insert c {d. unit_mod n d \<and> d < c} \<subseteq> {d. unit_mod n d \<and> d < n}" using assms by (auto simp: unit_mod_def)
  from card_mono [OF _ this] show ?thesis by (simp add: unit_candidates_length)
qed

lemma unit_candidates_count: "3 \<le> n \<Longrightarrow> length (unit_candidates n n) = unit_count (unat n)"
proof -
  assume n: "3 \<le> n"
  then have "unat n \<ge> 3" by (simp add: word_le_nat_alt)
  then have ne: "\<not> coprime (unat n) (unat n)" by simp
  have "inj_on unat {d. unit_mod n d \<and> d < n}" by (rule inj_onI) (simp add: word_unat_eq_iff)
  then have "length (unit_candidates n n) = card (unat ` {d. unit_mod n d \<and> d < n})"
    by (simp add: unit_candidates_length card_image)
  also have "unat ` {d. unit_mod n d \<and> d < n} = {c. 1 \<le> c \<and> c \<le> unat n \<and> coprime c (unat n)}"
  proof (intro equalityI subsetI)
    fix c assume c: "c \<in> {c. 1 \<le> c \<and> c \<le> unat n \<and> coprime c (unat n)}"
    then have lt: "c < unat n" using ne by (cases "c = unat n") auto
    then have u: "unat (of_nat c :: u32) = c" using unat_limb [of n] by (simp add: unat_of_nat base_def)
    then have "unit_mod n (of_nat c)" using c lt by (auto simp: unit_mod_def word_less_nat_alt)
    then show "c \<in> unat ` {d. unit_mod n d \<and> d < n}" using u by (intro image_eqI [of _ _ "of_nat c"]) (auto simp: unit_mod_def)
  qed (auto simp: unit_mod_def word_less_nat_alt Suc_le_eq unat_gt_0)
  finally show ?thesis by (simp add: unit_count_def)
qed

section \<open>Verdicts\<close>

definition greedy_choice :: "u32 \<Rightarrow> u32 list \<Rightarrow> u32 \<Rightarrow> bool" where
  "greedy_choice n gs c \<longleftrightarrow> unit_mod n c
     \<and> (\<forall>d. unit_mod n d \<longrightarrow> score_of n gs c \<le> score_of n gs d \<and> (score_of n gs d = score_of n gs c \<longrightarrow> c \<le> d))"

definition scored :: "u32 \<Rightarrow> u32 list \<Rightarrow> (exact_nat \<times> u32) option \<Rightarrow> u32 option \<Rightarrow> bool" where
  "scored n gs r d \<longleftrightarrow>
    (case d of
       None \<Rightarrow> r = None
     | Some d \<Rightarrow> (\<exists>x. r = Some (x, d) \<and> normalized x \<and> exact_value x = score_of n gs d))"

definition verdict_inv :: "u32 \<Rightarrow> u32 list \<Rightarrow> bool \<Rightarrow> scan_state \<Rightarrow> u32 list \<Rightarrow> bool" where
  "verdict_inv n gs cert s L \<longleftrightarrow> scored n gs (best s) (lowest (score_of n gs) L)
     \<and> (cert \<longrightarrow>
         (case lowest (score_of n gs) L of
            None \<Rightarrow> runner s = None
          | Some b \<Rightarrow> ties s = filter (\<lambda>d. score_of n gs d = score_of n gs b) L
              \<and> scored n gs (runner s) (lowest (score_of n gs) (filter (\<lambda>d. score_of n gs b < score_of n gs d) L))))"

lemma verdict_inv_fields:
  "best s' = best s \<Longrightarrow> runner s' = runner s \<Longrightarrow> ties s' = ties s \<Longrightarrow> verdict_inv n gs cert s' L = verdict_inv n gs cert s L"
  unfolding verdict_inv_def by (simp split: option.split)

lemma verdict_inv_updates [simp]:
  "verdict_inv n gs cert (s\<lparr>tile_candidates := k\<rparr>) L = verdict_inv n gs cert s L"
  "verdict_inv n gs cert (s\<lparr>accum := a\<rparr>) L = verdict_inv n gs cert s L"
  "verdict_inv n gs cert (s\<lparr>candidate := c\<rparr>) L = verdict_inv n gs cert s L"
  by (rule verdict_inv_fields; simp)+

lemma lowest_single [simp]: "lowest f [c] = Some c"
  using lowest_snoc(2) [of f "[]" c] by (simp add: keep_lower_def)

lemma filter_none: "(\<And>x. x \<in> set xs \<Longrightarrow> \<not> P x) \<Longrightarrow> filter P xs = []"
  by (induction xs) auto

lemma filter_all: "(\<And>x. x \<in> set xs \<Longrightarrow> P x) \<Longrightarrow> filter P xs = xs"
  by (induction xs) auto

lemma verdict_step:
  assumes inv: "verdict_inv n gs cert s L" and L: "sorted_wrt (<) L"
    and x: "normalized x" "exact_value x = score_of n gs (candidate s)"
  shows "verdict_inv n gs cert (apply_scan_verdict cert x s) (L @ [candidate s])"
proof (cases "lowest (score_of n gs) L")
  case None
  then have e: "L = []" "best s = None" using inv by (simp_all add: verdict_inv_def scored_def)
  then show ?thesis using inv x
    by (auto simp: verdict_inv_def scored_def apply_scan_verdict_def verdict_of_def lowest_def keep_lower_def Let_def)
next
  case (Some b)
  let ?S = "score_of n gs" and ?c = "candidate s"
  obtain y where y: "best s = Some (y, b)" "normalized y" "exact_value y = ?S b"
    using inv Some by (auto simp: verdict_inv_def scored_def)
  have cmp: "magnitude_cmp x y = compare_limbs (?S ?c) (?S b)" using magnitude_cmp_exact [OF x(1) y(2)] x(2) y(3) by simp
  have low: "?S b \<le> ?S d" if "d \<in> set L" for d using lowest_Some [OF L Some] that by blast
  have bin: "b \<in> set L" using lowest_Some [OF L Some] by blast
  show ?thesis
  proof (cases "?S ?c" "?S b" rule: linorder_cases)
    case less
    have v: "verdict_of (best s) x = NewBest" using y(1) cmp less by (simp add: verdict_of_def compare_limbs_def)
    have above: "filter (\<lambda>d. ?S ?c < ?S d) L = L" using low less by (intro filter_all) (meson less_le_trans)
    have none: "filter (\<lambda>d. ?S d = ?S ?c) L = []" using low less by (intro filter_none) fastforce
    show ?thesis using v Some less x y above none
      by (auto simp: verdict_inv_def scored_def apply_scan_verdict_def keep_lower_def Let_def)
  next
    case equal
    have v: "verdict_of (best s) x = Tie" using y(1) cmp equal by (simp add: verdict_of_def compare_limbs_def)
    show ?thesis using v Some equal y inv
      by (auto simp: verdict_inv_def scored_def apply_scan_verdict_def keep_lower_def)
  next
    case greater
    have v: "verdict_of (best s) x = Above" using y(1) cmp greater by (simp add: verdict_of_def compare_limbs_def)
    let ?above = "filter (\<lambda>d. ?S b < ?S d) L"
    show ?thesis
    proof (cases cert)
      case False
      then show ?thesis using v Some greater y by (simp add: verdict_inv_def scored_def apply_scan_verdict_def keep_lower_def)
    next
      case True
      then have t: "ties s = filter (\<lambda>d. ?S d = ?S b) L" and r: "scored n gs (runner s) (lowest ?S ?above)"
        using inv Some by (simp_all add: verdict_inv_def)
      show ?thesis
      proof (cases "lowest ?S ?above")
        case none: None
        then have "runner s = None" using r by (simp add: scored_def)
        then show ?thesis using True v Some greater y t x none
          by (simp add: verdict_inv_def scored_def apply_scan_verdict_def keep_lower_def Let_def)
      next
        case some: (Some e)
        then obtain z where z: "runner s = Some (z, e)" "normalized z" "exact_value z = ?S e"
          using r by (auto simp: scored_def)
        have "magnitude_cmp x z = LimbLess \<longleftrightarrow> ?S ?c < ?S e"
          using magnitude_cmp_exact [OF x(1) z(2)] x(2) z(3) by simp
        then show ?thesis using True v Some greater y t x some z
          by (simp add: verdict_inv_def scored_def apply_scan_verdict_def keep_lower_def Let_def)
      qed
    qed
  qed
qed

section \<open>The state of a scan\<close>

definition scan_inv :: "u32 \<Rightarrow> u32 list \<Rightarrow> exact_nat list \<Rightarrow> nat \<Rightarrow> bool \<Rightarrow> scan_state \<Rightarrow> bool" where
  "scan_inv n gs ps cap cert s \<longleftrightarrow> candidate s \<noteq> 0 \<and> candidate s \<le> n
     \<and> verdict_inv n gs cert s (unit_candidates n (candidate s))
     \<and> (\<forall>a. accum s = Some a \<longrightarrow> unit_mod n (candidate s) \<and> next_point a < unat n
           \<and> accum_at n gs ps cap (candidate s) (next_point a) a)"

text \<open>The units a scan has been charged when it stands in a state, and when it ends.\<close>

definition scan_paid :: "tile_charges \<Rightarrow> scan_state \<Rightarrow> nat" where
  "scan_paid charges s =
    (unat (candidate s) - 1) * control_units charges
      + length (unit_candidates (charge_n charges) (candidate s)) * (unat (charge_n charges) * visit_units charges)
      + (case accum s of None \<Rightarrow> 0 | Some a \<Rightarrow> control_units charges + begun a (next_point a) * visit_units charges)"

definition scan_total :: "tile_charges \<Rightarrow> nat" where
  "scan_total charges =
    (unat (charge_n charges) - 1) * control_units charges
      + length (unit_candidates (charge_n charges) (charge_n charges)) * (unat (charge_n charges) * visit_units charges)"

definition charges_ok :: "u32 \<Rightarrow> nat \<Rightarrow> bool \<Rightarrow> tile_charges \<Rightarrow> bool" where
  "charges_ok n cap cert charges \<longleftrightarrow> 3 \<le> n \<and> charge_n charges = n \<and> charge_score_capacity charges = cap
     \<and> charge_certifying charges = cert \<and> charge_admitted charges \<le> u128_max
     \<and> point_block (charge_tile charges) \<noteq> 0 \<and> candidate_block (charge_tile charges) \<noteq> 0 \<and> limb_block (charge_tile charges) \<noteq> 0
     \<and> 0 < visit_units charges \<and> 0 < control_units charges"

text \<open>A reservation gives at least the capacity asked for; \<open>grants_all\<close> never refuses one.\<close>

definition allocator_ok :: "allocator \<Rightarrow> bool" where
  "allocator_ok alloc \<longleftrightarrow> (\<forall>k. k \<le> granted_capacity alloc k)"

definition grants_all :: "allocator \<Rightarrow> bool" where
  "grants_all alloc \<longleftrightarrow> (\<forall>cls cursor k. grants alloc cls cursor k)"

lemma candidate_steps:
  assumes "c \<noteq> (0 :: u32)" "c < n"
  shows "c \<noteq> - 1" "unat (c + 1) = unat c + 1" "c + 1 \<le> n" "c + 1 \<noteq> 0" "1 \<le> unat c" "unat c + 1 \<le> unat n"
proof -
  show m: "c \<noteq> - 1" using assms(2) by (metis linorder_not_le word_order.extremum)
  show s: "unat (c + 1) = unat c + 1" by (rule unat_Suc_word [OF m])
  show "1 \<le> unat c" using assms(1) by (simp add: Suc_le_eq unat_gt_0)
  show "unat c + 1 \<le> unat n" using assms(2) by (simp add: word_less_nat_alt)
  then show "c + 1 \<le> n" using s by (simp add: word_le_nat_alt)
  show "c + 1 \<noteq> 0" using s by (metis add_is_0 one_neq_zero unat_0)
qed

lemma control_le_total:
  assumes "c \<noteq> 0" "c < charge_n charges"
  shows "(unat c - 1) * control_units charges + length (unit_candidates (charge_n charges) c) * (unat (charge_n charges) * visit_units charges)
    + (control_units charges + (if unit_mod (charge_n charges) c then unat (charge_n charges) * visit_units charges else 0))
    \<le> scan_total charges"
proof -
  note st = candidate_steps [OF assms]
  obtain k where k: "unat c = Suc k" using st(5) by (cases "unat c") simp_all
  have "(unat c - 1) * control_units charges + control_units charges = unat c * control_units charges"
    unfolding k by simp
  also have "\<dots> \<le> (unat (charge_n charges) - 1) * control_units charges" using st(6) by (intro mult_le_mono1) linarith
  finally have ctl: "(unat c - 1) * control_units charges + control_units charges \<le> (unat (charge_n charges) - 1) * control_units charges" .
  let ?v = "unat (charge_n charges) * visit_units charges"
  have "length (unit_candidates (charge_n charges) c) * ?v + (if unit_mod (charge_n charges) c then ?v else 0)
      \<le> length (unit_candidates (charge_n charges) (charge_n charges)) * ?v"
  proof (cases "unit_mod (charge_n charges) c")
    case True
    from mult_le_mono1 [OF unit_candidates_more [OF True], of ?v] show ?thesis using True by simp
  next
    case False
    have "card {d. unit_mod (charge_n charges) d \<and> d < c} \<le> card {d. unit_mod (charge_n charges) d \<and> d < charge_n charges}"
      using assms(2) by (intro card_mono) auto
    from mult_le_mono1 [OF this, of ?v] show ?thesis using False by (simp add: unit_candidates_length)
  qed
  with ctl show ?thesis unfolding scan_total_def by linarith
qed

section \<open>Steps\<close>

text \<open>The two errors that end a tile and leave the scan to be resumed.\<close>

definition stops_short :: "allocator \<Rightarrow> nat \<Rightarrow> meter \<Rightarrow> cbc_exec_error \<Rightarrow> bool" where
  "stops_short alloc limit m e \<longleftrightarrow>
     (\<exists>units b. e = AllowanceShort units b \<and> remaining m < units \<and> spent m + units \<le> limit)
     \<or> (\<exists>r. e = Storage r) \<and> \<not> grants_all alloc"

text \<open>What a step of the scan leaves, when it does not panic.\<close>

definition within_block :: "tile_charges \<Rightarrow> scan_state \<Rightarrow> bool" where
  "within_block charges s \<longleftrightarrow> tile_candidates s \<le> unat (candidate_block (charge_tile charges))"

definition step_ok :: "u32 \<Rightarrow> u32 list \<Rightarrow> exact_nat list \<Rightarrow> nat \<Rightarrow> bool \<Rightarrow> tile_charges \<Rightarrow> scan_state \<Rightarrow> meter \<Rightarrow> scan_state \<Rightarrow> meter \<Rightarrow> bool" where
  "step_ok n gs ps cap cert charges s m s' m' \<longleftrightarrow> scan_inv n gs ps cap cert s' \<and> scan_paid charges s \<le> scan_paid charges s'
     \<and> paid m m' (scan_paid charges s' - scan_paid charges s) \<and> (within_block charges s \<longrightarrow> within_block charges s')"

text \<open>A step that pays nothing moves to a later stage of the candidate, or mutates cells.\<close>

definition scan_stage :: "scan_state \<Rightarrow> nat" where
  "scan_stage s =
    (case accum s of
       Some a \<Rightarrow> if micro a = None then 2 else 3
     | None \<Rightarrow> if tile_candidates s = 0 then 1 else 2)"

definition scan_cells :: "u32 \<Rightarrow> exact_nat list \<Rightarrow> scan_state \<Rightarrow> nat" where
  "scan_cells n ps s = (case accum s of None \<Rightarrow> 0 | Some a \<Rightarrow> cells_pending n ps (candidate s) a)"

definition advances :: "u32 \<Rightarrow> exact_nat list \<Rightarrow> scan_state \<Rightarrow> meter \<Rightarrow> scan_state \<Rightarrow> meter \<Rightarrow> bool" where
  "advances n ps s m s' m' \<longleftrightarrow> spent m < spent m'
     \<or> spent m = spent m' \<and> (scan_stage s' < scan_stage s \<or> scan_stage s' = scan_stage s \<and> scan_cells n ps s' < scan_cells n ps s)"

lemma advances_trans: "advances n ps s m s' m' \<Longrightarrow> advances n ps s' m' s'' m'' \<Longrightarrow> advances n ps s m s'' m''"
  unfolding advances_def by linarith

lemma paid_advances: "paid m m' k \<Longrightarrow> 0 < k \<Longrightarrow> advances n ps s m s' m'"
  by (simp add: paid_def advances_def)

lemma step_ok_trans:
  "step_ok n gs ps cap cert charges s m s' m' \<Longrightarrow> step_ok n gs ps cap cert charges s' m' s'' m'' \<Longrightarrow>
    step_ok n gs ps cap cert charges s m s'' m''"
  by (auto simp: step_ok_def paid_def)

lemma step_ok_refl: "scan_inv n gs ps cap cert s \<Longrightarrow> step_ok n gs ps cap cert charges s m s m"
  by (simp add: step_ok_def)

lemma scan_inv_tile [simp]: "scan_inv n gs ps cap cert (s\<lparr>tile_candidates := k\<rparr>) = scan_inv n gs ps cap cert s"
  by (simp add: scan_inv_def)

lemma scan_paid_tile [simp]: "scan_paid charges (s\<lparr>tile_candidates := k\<rparr>) = scan_paid charges s"
  by (simp add: scan_paid_def)

section \<open>Opening a candidate\<close>

text \<open>The outcomes of \<open>open_candidate\<close>: already open, the block consumed, stopped short, opened, or skipped.\<close>

datatype open_case = Open | BlockEnd | Stopped cbc_exec_error | Opened | Skipped

definition case_result :: "open_case \<Rightarrow> (cbc_exec_error, advance_scan option) outcome" where
  "case_result w =
    (case w of
       Open \<Rightarrow> Ok None
     | BlockEnd \<Rightarrow> Ok (Some (BoundaryReached CandidateBlock))
     | Stopped e \<Rightarrow> Err e
     | Opened \<Rightarrow> Ok None
     | Skipped \<Rightarrow> Ok (Some Accumulating))"

definition case_ok :: "allocator \<Rightarrow> tile_charges \<Rightarrow> scan_state \<Rightarrow> meter \<Rightarrow> scan_state \<Rightarrow> meter \<Rightarrow> open_case \<Rightarrow> bool" where
  "case_ok alloc charges s m s' m' w \<longleftrightarrow>
    (case w of
       Open \<Rightarrow> s' = s \<and> m' = m \<and> accum s \<noteq> None
     | BlockEnd \<Rightarrow> s' = s\<lparr>tile_candidates := 0\<rparr> \<and> m' = m \<and> accum s = None \<and> tile_candidates s \<noteq> 0
     | Stopped e \<Rightarrow> accum s' = None \<and> stops_short alloc (charge_admitted charges) m' e
     | Opened \<Rightarrow> accum s' \<noteq> None \<and> candidate s' = candidate s \<and> spent m < spent m'
     | Skipped \<Rightarrow> accum s' = None \<and> candidate s' = candidate s + 1 \<and> spent m < spent m')"

lemma open_candidate_cases:
  assumes ch: "charges_ok n cap cert charges" and alloc: "allocator_ok alloc"
    and inv: "scan_inv n gs ps cap cert s" and c: "candidate s < n"
    and B: "spent m = B + scan_paid charges s" "B + scan_total charges \<le> charge_admitted charges"
  shows "(\<exists>s' m'. open_candidate alloc charges s m = ((s', m'), Panicked) \<and> \<not> within_block charges s)
    \<or> (\<exists>s' m' w. open_candidate alloc charges s m = ((s', m'), case_result w)
         \<and> step_ok n gs ps cap cert charges s m s' m' \<and> case_ok alloc charges s m s' m' w)"
proof (cases "accum s")
  case (Some a)
  then have "open_candidate alloc charges s m = ((s, m), case_result Open)" by (simp add: open_candidate_def case_result_def)
  moreover have "case_ok alloc charges s m s m Open" using Some by (simp add: case_ok_def)
  ultimately show ?thesis using step_ok_refl [OF inv] by blast
next
  case None
  let ?s = "s\<lparr>tile_candidates := tile_candidates s + 1\<rparr>" and ?ctl = "control_units charges"
  let ?block = "unat (candidate_block (charge_tile charges))"
  have n: "charge_n charges = n" "charge_score_capacity charges = cap" "charge_admitted charges \<le> u128_max"
    and pos: "0 < ?ctl" "0 < ?block"
    using ch by (simp_all add: charges_ok_def unat_gt_0)
  have c0: "candidate s \<noteq> 0" using inv by (simp add: scan_inv_def)
  note st = candidate_steps [OF c0 c]
  have u: "gcd_u32 (candidate s) n = 1 \<longleftrightarrow> unit_mod n (candidate s)" by (rule unit_gcd [OF c0 c])
  have fits: "spent m + ?ctl \<le> charge_admitted charges"
    using B control_le_total [of "candidate s" charges] c0 c n(1) None unfolding scan_paid_def by simp
  consider (reset) "tile_candidates s = ?block" | (wrap) "tile_candidates s \<noteq> ?block" "tile_candidates s = u32_max"
    | (go) "tile_candidates s \<noteq> ?block" "tile_candidates s \<noteq> u32_max"
    by blast
  then show ?thesis
  proof cases
    case reset
    then have "open_candidate alloc charges s m = ((s\<lparr>tile_candidates := 0\<rparr>, m), case_result BlockEnd)"
      using None by (simp add: open_candidate_def case_result_def)
    moreover have "case_ok alloc charges s m (s\<lparr>tile_candidates := 0\<rparr>) m BlockEnd"
      using None reset pos(2) by (simp add: case_ok_def)
    moreover have "step_ok n gs ps cap cert charges s m (s\<lparr>tile_candidates := 0\<rparr>) m"
      using inv by (simp add: step_ok_def within_block_def)
    ultimately show ?thesis by blast
  next
    case wrap
    have "?block \<le> u32_max" using unat_limb [of "candidate_block (charge_tile charges)"] by (simp add: u32_max_def base_def)
    then have "\<not> within_block charges s" using wrap by (simp add: within_block_def)
    then show ?thesis using None wrap by (simp add: open_candidate_def)
  next
    case go
    have kept: "within_block charges s \<longrightarrow> within_block charges ?s" using go by (simp add: within_block_def)
    show ?thesis
    proof (cases "remaining m < ?ctl \<or> \<not> grants alloc ScoreAccumulator (unat (candidate s)) cap")
      case True
      have "\<exists>e. open_candidate alloc charges s m = ((?s, m), Err e) \<and> stops_short alloc (charge_admitted charges) m e"
      proof (cases "remaining m < ?ctl")
        case True
        then have "open_candidate alloc charges s m = ((?s, m), Err (AllowanceShort ?ctl CandidateBlock))"
          using None go by (simp add: open_candidate_def gate_allowance_def Let_def)
        then show ?thesis using True fits by (auto simp: stops_short_def)
      next
        case False
        then have no: "\<not> grants alloc ScoreAccumulator (unat (candidate s)) cap" using True by simp
        then have "open_candidate alloc charges s m = ((?s, m), Err (refusal ScoreAccumulator AtScan (unat (candidate s)) cap 0))"
          using None go False n by (simp add: open_candidate_def gate_allowance_def Let_def)
        then show ?thesis using no by (auto simp: stops_short_def refusal_def grants_all_def)
      qed
      then obtain e where e: "open_candidate alloc charges s m = ((?s, m), Err e)" "stops_short alloc (charge_admitted charges) m e"
        by blast
      have "case_ok alloc charges s m ?s m (Stopped e)" using e(2) None by (simp add: case_ok_def)
      moreover have "step_ok n gs ps cap cert charges s m ?s m" using inv kept by (simp add: step_ok_def)
      ultimately show ?thesis using e(1) unfolding case_result_def
        by (intro disjI2 exI [of _ ?s] exI [of _ m] exI [of _ "Stopped e"]) simp
    next
      case False
      then obtain m' where d: "debit m (charge_admitted charges) ?ctl CandidateBlock = Ok m'" "paid m m' ?ctl"
        using debit_paid [OF n(3) fits] by (metis not_less)
      have more: "spent m < spent m'" using d(2) pos by (simp add: paid_def)
      show ?thesis
      proof (cases "unit_mod n (candidate s)")
        case True
        let ?a = "\<lparr>score = zero, score_reserved = granted_capacity alloc cap, next_point = 0, micro = None, micro_point = 0\<rparr>"
        let ?t = "?s\<lparr>accum := Some ?a\<rparr>"
        have at: "accum_at n gs ps cap (candidate s) 0 ?a"
          using alloc by (simp add: accum_at_def allocator_ok_def zero_value partial_score_def)
        have r: "open_candidate alloc charges s m = ((?t, m'), case_result Opened)"
          using None False go n u True d(1) by (simp add: open_candidate_def gate_allowance_def case_result_def Let_def)
        have "0 < unat n" using st(6) by simp
        then have inv': "scan_inv n gs ps cap cert ?t" using inv at True c by (simp add: scan_inv_def)
        have "scan_paid charges ?t = scan_paid charges s + ?ctl" using None by (simp add: scan_paid_def begun_def)
        then have "step_ok n gs ps cap cert charges s m ?t m'" using inv' d(2) kept by (simp add: step_ok_def within_block_def)
        moreover have "case_ok alloc charges s m ?t m' Opened" using more by (simp add: case_ok_def)
        ultimately show ?thesis using r by blast
      next
        case nu: False
        let ?t = "?s\<lparr>candidate := candidate s + 1\<rparr>"
        have r: "open_candidate alloc charges s m = ((?t, m'), case_result Skipped)"
          using None False go n u nu d(1) st(1) by (simp add: open_candidate_def gate_allowance_def case_result_def Let_def)
        have L: "unit_candidates n (candidate s + 1) = unit_candidates n (candidate s)"
          using unit_candidates_Suc [OF c0 st(1), of n] nu by simp
        have "scan_inv n gs ps cap cert ?t" using inv None st(3,4) L by (simp add: scan_inv_def)
        moreover have "scan_paid charges ?t = scan_paid charges s + ?ctl"
          using None L st(2,5) n(1) by (simp add: scan_paid_def mult_eq_if)
        ultimately have "step_ok n gs ps cap cert charges s m ?t m'" using d(2) kept by (simp add: step_ok_def within_block_def)
        moreover have "case_ok alloc charges s m ?t m' Skipped" using more None by (simp add: case_ok_def)
        ultimately show ?thesis using r by blast
      qed
    qed
  qed
qed

end
