(* ===== verification/Cbc_Scan_Loop.thy ===== *)
theory Cbc_Scan_Loop
  imports Cbc_Scan
begin

text \<open>
  A scan from any of its states: a block of points, the verdict on a candidate, the certificate of a
  completed scan, and the loop that drives them to the end of the tile.
\<close>

section \<open>Units of a candidate\<close>

definition scan_base :: "tile_charges \<Rightarrow> u32 \<Rightarrow> nat" where
  "scan_base charges c =
    (unat c - 1) * control_units charges
      + length (unit_candidates (charge_n charges) c) * (unat (charge_n charges) * visit_units charges)"

lemma scan_paid_base:
  "scan_paid charges s = scan_base charges (candidate s)
     + (case accum s of None \<Rightarrow> 0 | Some a \<Rightarrow> control_units charges + begun a (next_point a) * visit_units charges)"
  by (simp add: scan_paid_def scan_base_def)

lemma scan_base_all: "scan_base charges (charge_n charges) = scan_total charges"
  by (simp add: scan_base_def scan_total_def)

lemma scan_base_step:
  assumes "c \<noteq> 0" "c < charge_n charges" "unit_mod (charge_n charges) c"
  shows "scan_base charges (c + 1) = scan_base charges c + control_units charges + unat (charge_n charges) * visit_units charges"
proof -
  note st = candidate_steps [OF assms(1,2)]
  obtain k where k: "unat c = Suc k" using st(5) by (cases "unat c") simp_all
  have "length (unit_candidates (charge_n charges) (c + 1)) = Suc (length (unit_candidates (charge_n charges) c))"
    using assms(3) by (simp add: unit_candidates_Suc [OF assms(1) st(1)])
  then show ?thesis unfolding scan_base_def st(2) k by (simp add: algebra_simps)
qed

lemma scan_base_le:
  assumes "c \<noteq> 0" "c < charge_n charges" "unit_mod (charge_n charges) c"
  shows "scan_base charges c + control_units charges + unat (charge_n charges) * visit_units charges \<le> scan_total charges"
  using control_le_total [OF assms(1,2)] assms(3) by (simp add: scan_base_def)

section \<open>A block of points\<close>

text \<open>The outcomes of \<open>accumulate_block\<close>: a boundary, a stop, or a finished score.\<close>

definition block_ok ::
  "u32 \<Rightarrow> u32 list \<Rightarrow> exact_nat list \<Rightarrow> nat \<Rightarrow> bool \<Rightarrow> allocator \<Rightarrow> tile_charges \<Rightarrow> scan_state \<Rightarrow> meter \<Rightarrow> scan_state \<Rightarrow> meter
    \<Rightarrow> (cbc_exec_error, advance_scan) outcome \<Rightarrow> bool" where
  "block_ok n gs ps cap cert alloc charges s m s' m' r \<longleftrightarrow>
    (case r of
       Ok CandidateFinished \<Rightarrow>
         (\<exists>a a'. accum s = Some a \<and> s' = s\<lparr>accum := Some a'\<rparr> \<and> exact_value (score a') = score_of n gs (candidate s)
            \<and> unit_mod n (candidate s) \<and> begun a (next_point a) \<le> unat n
            \<and> paid m m' ((unat n - begun a (next_point a)) * visit_units charges) \<and> (micro a = None \<longrightarrow> spent m < spent m'))
     | Ok (BoundaryReached b) \<Rightarrow> step_ok n gs ps cap cert charges s m s' m' \<and> advances n ps s m s' m'
     | Ok Accumulating \<Rightarrow> False
     | Err e \<Rightarrow> step_ok n gs ps cap cert charges s m s' m' \<and> stops_short alloc (charge_admitted charges) m' e
     | Panicked \<Rightarrow> False)"

lemma accumulate_block_cases:
  assumes roomy: "roomy n gs ps cap" and ch: "charges_ok n cap cert charges"
    and inv: "scan_inv n gs ps cap cert s" and a: "accum s = Some a" and c: "candidate s < n"
    and B: "spent m = B + scan_paid charges s" "B + scan_total charges \<le> charge_admitted charges"
  shows "\<exists>s' m' r. accumulate_block charges ps s m = ((s', m'), r) \<and> block_ok n gs ps cap cert alloc charges s m s' m' r"
proof -
  let ?N = "unat n" and ?p = "next_point a" and ?v = "visit_units charges"
  let ?last = "min (saturating_add u32_max ?p (unat (point_block (charge_tile charges)))) ?N"
  have n: "charge_n charges = n" "charge_score_capacity charges = cap" "charge_admitted charges \<le> u128_max"
    "0 < unat (point_block (charge_tile charges))" "0 < ?v" "limb_block (charge_tile charges) \<noteq> 0"
    using ch by (simp_all add: charges_ok_def unat_gt_0)
  have i: "candidate s \<noteq> 0" "unit_mod n (candidate s)" "?p < ?N" "accum_at n gs ps cap (candidate s) ?p a"
    using inv a by (simp_all add: scan_inv_def)
  have nmax: "?N \<le> u32_max" using unat_limb [of n] by (simp add: u32_max_def base_def)
  have last: "?p < ?last" "?last \<le> ?N" using i(3) n(4) nmax by (auto simp: saturating_add_def)
  have b: "begun a ?p \<le> ?N" "begun a ?p \<le> ?last" using i(3) last by (simp_all add: begun_def)
  have paid0: "scan_paid charges s = scan_base charges (candidate s) + control_units charges + begun a ?p * ?v"
    using a by (simp add: scan_paid_base)
  have "(?last - begun a ?p) * ?v + begun a ?p * ?v = ?last * ?v" using b(2) by (simp add: add_mult_distrib [symmetric])
  also have "\<dots> \<le> ?N * ?v" using last(2) by (intro mult_le_mono1)
  finally have fits: "spent m + (?last - begun a ?p) * ?v \<le> charge_admitted charges"
    using B paid0 scan_base_le [of "candidate s" charges] i(1,2) c n(1) by simp
  have point: "(if micro a \<noteq> None then micro_point a else ?p) = ?p" using i(4) by (auto simp: accum_at_def)
  obtain a' m' r q where r: "scan_points charges ps (candidate s) ?last ?p a m = ((a', m'), r)" "?p \<le> q" "q \<le> ?last"
    "accum_at n gs ps cap (candidate s) q a'" "next_point a' = q" "begun a ?p \<le> begun a' q"
    "paid m m' ((begun a' q - begun a ?p) * ?v)" "scan_result charges ?last r a' q m'"
    "r = Ok (Some LimbBlock) \<longrightarrow> begun a ?p < begun a' q \<or> micro a \<noteq> None \<and> cells_pending n ps (candidate s) a' < cells_pending n ps (candidate s) a"
    using scan_points_cases [OF roomy n(1-3) last(2), of ?p a "candidate s" m] last(1) i(4) fits n(6) by auto
  let ?s = "s\<lparr>accum := Some a'\<rparr>"
  have block: "accumulate_block charges ps s m = ((?s, m'),
      (case r of Err e \<Rightarrow> Err e | Panicked \<Rightarrow> Panicked | Ok (Some boundary) \<Rightarrow> Ok (BoundaryReached boundary)
       | Ok None \<Rightarrow> if ?last < ?N then Ok (BoundaryReached PointBlock) else Ok CandidateFinished))"
    using a point r(1) n(1) by (simp add: accumulate_block_def Let_def)
  have step: "step_ok n gs ps cap cert charges s m ?s m'" if q: "q < ?N"
  proof -
    have "scan_paid charges ?s = scan_base charges (candidate s) + control_units charges + begun a' q * ?v"
      using r(5) by (simp add: scan_paid_base)
    then have "scan_paid charges s \<le> scan_paid charges ?s" "scan_paid charges ?s - scan_paid charges s = (begun a' q - begun a ?p) * ?v"
      using paid0 r(6) by (simp_all add: diff_mult_distrib mult_le_mono1)
    moreover have "scan_inv n gs ps cap cert ?s" using inv i(2) q r(4,5) by (simp add: scan_inv_def)
    ultimately show ?thesis using r(7) by (simp add: step_ok_def within_block_def)
  qed
  have pays: "spent m < spent m'" if "begun a ?p < begun a' q"
    using r(7) that n(5) by (simp add: paid_def)
  have stage: "scan_stage s = (if micro a = None then 2 else 3)" "scan_cells n ps s = cells_pending n ps (candidate s) a"
    "scan_stage ?s = (if micro a' = None then 2 else 3)" "scan_cells n ps ?s = cells_pending n ps (candidate s) a'"
    using a by (simp_all add: scan_stage_def scan_cells_def)
  consider (all) "r = Ok None" "q = ?last" "micro a' = None" | (limb) "r = Ok (Some LimbBlock)" "q < ?last"
    | (short) "r = Err (AllowanceShort ?v PointBlock)" "q < ?last" "remaining m' < ?v" "spent m' + ?v \<le> charge_admitted charges"
    using r(8) unfolding scan_result_def by (elim disjE conjE) metis+
  then show ?thesis
  proof cases
    case all
    have b': "begun a' q = ?last" using all by (simp add: begun_def)
    show ?thesis
    proof (cases "?last < ?N")
      case True
      have "advances n ps s m ?s m'"
      proof (cases "begun a ?p < begun a' q")
        case False
        have "micro a \<noteq> None"
        proof
          assume "micro a = None"
          then have "begun a ?p = ?p" by (simp add: begun_def)
          then show False using False last(1) unfolding b' by simp
        qed
        moreover have "spent m' = spent m" using r(6,7) False by (simp add: paid_def)
        ultimately show ?thesis using stage all(3) by (auto simp: advances_def)
      qed (simp add: advances_def pays)
      moreover have "accumulate_block charges ps s m = ((?s, m'), Ok (BoundaryReached PointBlock))"
        using block unfolding all(1) outcome.case option.case if_P [OF True] .
      moreover have "q < ?N" using all(2) True by (simp only:)
      ultimately show ?thesis using step by (simp add: block_ok_def)
    next
      case False
      then have e: "?last = ?N" using last(2) by simp
      have v: "exact_value (score a') = score_of n gs (candidate s)"
        using r(4) all e by (simp add: accum_at_def partial_score_all)
      have "micro a = None \<longrightarrow> spent m < spent m'" using pays b' last(1) by (simp add: begun_def)
      moreover have "accumulate_block charges ps s m = ((?s, m'), Ok CandidateFinished)"
        using block unfolding all(1) outcome.case option.case if_not_P [OF False] .
      moreover have "paid m m' ((?N - begun a ?p) * ?v)" using r(7) unfolding b' e .
      ultimately show ?thesis using v a i(2) b(1) by (auto simp: block_ok_def)
    qed
  next
    case limb
    have "advances n ps s m ?s m'"
    proof (cases "begun a ?p < begun a' q")
      case False
      then have less: "micro a \<noteq> None" "cells_pending n ps (candidate s) a' < cells_pending n ps (candidate s) a"
        using r(9) limb(1) by auto
      have "spent m' = spent m" using r(6,7) False by (simp add: paid_def)
      then show ?thesis using stage less by (auto simp: advances_def)
    qed (simp add: advances_def pays)
    then show ?thesis using block limb step last(2) by (simp add: block_ok_def)
  next
    case short
    then have "stops_short alloc (charge_admitted charges) m' (AllowanceShort ?v PointBlock)" by (simp add: stops_short_def)
    then show ?thesis using block short step last(2) by (simp add: block_ok_def)
  qed
qed

section \<open>The verdict on a finished candidate\<close>

lemma apply_scan_verdict_kept [simp]:
  "accum (apply_scan_verdict cert x s) = accum s"
  "tile_candidates (apply_scan_verdict cert x s) = tile_candidates s"
  by (simp_all add: apply_scan_verdict_def Let_def split: verdict.split option.split)

definition after_verdict :: "bool \<Rightarrow> exact_nat \<Rightarrow> scan_state \<Rightarrow> scan_state" where
  "after_verdict cert x s = apply_scan_verdict cert (normalize x) (s\<lparr>accum := None\<rparr>)\<lparr>candidate := candidate s + 1\<rparr>"

lemma finish_candidate:
  assumes ch: "charges_ok n cap cert charges"
    and inv: "scan_inv n gs ps cap cert s" and c: "candidate s < n"
    and fin: "block_ok n gs ps cap cert alloc charges s m s' m' (Ok CandidateFinished)"
  obtains a' where "accum s' = Some a'" "candidate s' = candidate s"
    "step_ok n gs ps cap cert charges s m (after_verdict cert (score a') s') m'"
    "advances n ps s m (after_verdict cert (score a') s') m'"
proof -
  obtain a a' where a: "accum s = Some a" "s' = s\<lparr>accum := Some a'\<rparr>" "exact_value (score a') = score_of n gs (candidate s)"
    "unit_mod n (candidate s)" "begun a (next_point a) \<le> unat n"
    "paid m m' ((unat n - begun a (next_point a)) * visit_units charges)" "micro a = None \<longrightarrow> spent m < spent m'"
    using fin by (auto simp: block_ok_def)
  have n: "charge_n charges = n" using ch by (simp add: charges_ok_def)
  have c0: "candidate s \<noteq> 0" using inv by (simp add: scan_inv_def)
  note st = candidate_steps [OF c0 c]
  let ?t = "s'\<lparr>accum := None\<rparr>" and ?s = "after_verdict cert (score a') s'"
  have kept: "candidate ?s = candidate s + 1" "accum ?s = None" "tile_candidates ?s = tile_candidates s"
    using a(2) by (simp_all add: after_verdict_def)
  have "verdict_inv n gs cert ?t (unit_candidates n (candidate s))" using inv a(2) by (simp add: scan_inv_def)
  then have "verdict_inv n gs cert (apply_scan_verdict cert (normalize (score a')) ?t) (unit_candidates n (candidate s) @ [candidate ?t])"
    by (rule verdict_step) (use a(2,3) in simp_all)
  then have "verdict_inv n gs cert ?s (unit_candidates n (candidate ?s))"
    using a(2,4) kept(1) unit_candidates_Suc [OF c0 st(1), of n] by (simp add: after_verdict_def)
  then have inv': "scan_inv n gs ps cap cert ?s" using kept st(3,4) by (simp add: scan_inv_def)
  have "scan_paid charges ?s = scan_base charges (candidate s) + control_units charges + unat n * visit_units charges"
    using kept scan_base_step [of "candidate s" charges] c0 c a(4) n by (simp add: scan_paid_base)
  moreover have "scan_paid charges s = scan_base charges (candidate s) + control_units charges + begun a (next_point a) * visit_units charges"
    using a(1) by (simp add: scan_paid_base)
  ultimately have "scan_paid charges s \<le> scan_paid charges ?s"
    "scan_paid charges ?s - scan_paid charges s = (unat n - begun a (next_point a)) * visit_units charges"
    using a(5) by (simp_all add: diff_mult_distrib mult_le_mono1)
  then have step: "step_ok n gs ps cap cert charges s m ?s m'"
    using inv' a(6) kept(3) by (simp add: step_ok_def within_block_def)
  have "advances n ps s m ?s m'"
  proof (cases "spent m < spent m'")
    case False
    then have "micro a \<noteq> None" "spent m = spent m'" using a(6,7) by (auto simp: paid_def)
    then show ?thesis using a(1) kept(2) by (auto simp: advances_def scan_stage_def)
  qed (simp add: advances_def)
  from that [OF _ _ step this] a(2) show thesis by simp
qed

section \<open>Certificates of a completed scan\<close>

definition certified_for :: "u32 \<Rightarrow> u32 list \<Rightarrow> cbc_prefix_certificate \<Rightarrow> bool" where
  "certified_for n gs cert \<longleftrightarrow> point_count cert = n \<and> prefix cert = gs \<and> length (winning_score_limbs cert) + 8 \<le> u64_max
     \<and> well_declared cert \<and> exactly_minimal cert"

lemma certified_audit: "certified_for n gs cert \<Longrightarrow> audit_minimality cert = Some (Ok ())"
  using audit_complete by (simp add: certified_for_def)

text \<open>Every component of a prefix is a unit.\<close>

definition unit_prefix :: "u32 \<Rightarrow> u32 list \<Rightarrow> bool" where
  "unit_prefix n gs \<longleftrightarrow> (\<forall>c \<in> set gs. unit_mod n c)"

lemma all_units: "set (unit_candidates n n) = {d. unit_mod n d}"
  by (auto simp: unit_candidates_set unit_mod_def)

lemma one_is_unit: "3 \<le> n \<Longrightarrow> unit_mod n 1"
proof -
  assume "3 \<le> n"
  then have "3 \<le> unat n" by (simp add: word_le_nat_alt)
  then show "unit_mod n 1" by (auto simp: unit_mod_def word_less_nat_alt)
qed

lemma scan_complete:
  assumes inv: "verdict_inv n gs cert s (unit_candidates n n)" and n: "3 \<le> n"
  obtains x w where "best s = Some (x, w)" "normalized x" "exact_value x = score_of n gs w"
    "greedy_choice n gs w" "lowest (score_of n gs) (unit_candidates n n) = Some w"
proof -
  let ?S = "score_of n gs" and ?L = "unit_candidates n n"
  have "?L \<noteq> []" using one_is_unit [OF n] all_units [of n] by auto
  then obtain w where w: "lowest ?S ?L = Some w" using lowest_None [of ?S ?L] by (cases "lowest ?S ?L") simp_all
  then have low: "w \<in> set ?L" "\<forall>c \<in> set ?L. ?S w \<le> ?S c \<and> (?S c = ?S w \<longrightarrow> w \<le> c)"
    using lowest_Some [OF unit_candidates_sorted w] by blast+
  then have "greedy_choice n gs w" by (simp add: greedy_choice_def all_units)
  moreover obtain x where "best s = Some (x, w)" "normalized x" "exact_value x = ?S w"
    using inv w by (auto simp: verdict_inv_def scored_def)
  ultimately show thesis using that w by blast
qed

lemma emitted_certificate:
  assumes inv: "verdict_inv n gs True s (unit_candidates n n)" and n: "3 \<le> n"
    and x: "normalized x" "exact_value x = score_of n gs w" "score_of n gs w < base ^ cap" "cap + 8 \<le> u64_max"
    and w: "lowest (score_of n gs) (unit_candidates n n) = Some w" "greedy_choice n gs w"
    and gs: "gs \<noteq> []" "unit_prefix n gs" "length gs + 1 \<le> u32_max"
    and ok: "build_prefix_certificate alloc gs x w (runner s) (ties s) (length gs + 1) n = Ok cert"
  shows "certified_for n (gs @ [w]) cert"
proof -
  let ?S = "score_of n gs" and ?L = "unit_candidates n n"
  let ?above = "filter (\<lambda>d. ?S w < ?S d) ?L"
  have t: "ties s = filter (\<lambda>d. ?S d = ?S w) ?L" and r: "scored n gs (runner s) (lowest ?S ?above)"
    using inv w(1) by (simp_all add: verdict_inv_def)
  have c: "point_count cert = n" "prefix cert = gs @ [w]" "winning_score_limbs cert = limbs x" "tie_class cert = ties s"
    "runner_up cert = map_option (\<lambda>(y, r). (limbs y, r)) (runner s)" "denominator_exponent cert = of_nat (length gs + 1)"
    "tie_rule cert = TIE_RULE_LOWEST_CANDIDATE" "admissible_rule cert = ADMISSIBLE_RULE_UNITS"
    using ok by (auto simp: build_prefix_certificate_def Let_def split: if_splits option.splits)
  have e: "unat (denominator_exponent cert) = length gs + 1"
    using exponent_matches [OF gs(3), of "denominator_exponent cert"] c(6) by simp
  have score: "candidate_score cert d = ?S d" for d using c(1,2) by (simp add: candidate_score_def score_of_def)
  have len: "length (winning_score_limbs cert) + 8 \<le> u64_max"
    using normalized_length [OF x(1), of cap] x(2-4) c(3) by simp
  have canon: "normalized y \<Longrightarrow> \<not> ends_in_zero (limbs y)" for y by (simp add: normalized_def ends_in_zero_def)
  have runner_score: "runner s = Some (y, r) \<Longrightarrow> normalized y \<and> exact_value y = ?S r" for y r
    using r by (auto simp: scored_def split: option.splits)
  have wd: "well_declared cert"
    unfolding well_declared_def
  proof (intro conjI)
    show "\<forall>words r. runner_up cert = Some (words, r) \<longrightarrow> \<not> ends_in_zero words"
      using runner_score canon unfolding c(5) by (cases "runner s") auto
    show "\<forall>d \<in> set (prefix cert). unit_mod (point_count cert) d"
      using gs(2) w(2) c(1,2) by (auto simp: unit_prefix_def greedy_choice_def)
  qed (use n gs c(1-5,7,8) e canon [OF x(1)] in \<open>simp_all add: Suc_le_eq\<close>)
  have up: "case runner_up cert of
      None \<Rightarrow> (\<forall>c. unit_mod n c \<longrightarrow> ?S c = ?S w)
    | Some (words, r) \<Rightarrow> unit_mod n r \<and> limbs_value words = ?S r \<and> ?S w < ?S r
        \<and> (\<forall>c. unit_mod n c \<and> ?S w < ?S c \<longrightarrow> ?S r \<le> ?S c \<and> (?S c = ?S r \<longrightarrow> r \<le> c))"
  proof (cases "lowest ?S ?above")
    case None
    then have "runner s = None" using r by (simp add: scored_def)
    moreover have "\<not> ?S w < ?S d" if "unit_mod n d" for d
      using None that by (auto simp: filter_empty_conv all_units)
    ultimately show ?thesis using w(2) c(5) by (force simp: greedy_choice_def)
  next
    case (Some e)
    then obtain y where y: "runner s = Some (y, e)" "exact_value y = ?S e" using r by (auto simp: scored_def)
    have "e \<in> set ?above \<and> (\<forall>c \<in> set ?above. ?S e \<le> ?S c \<and> (?S c = ?S e \<longrightarrow> e \<le> c))"
      by (rule lowest_Some [OF _ Some]) (intro sorted_wrt_filter unit_candidates_sorted)
    then show ?thesis using y c(5) by (auto simp: all_units exact_value_def)
  qed
  have "sorted_wrt (<) (ties s)" unfolding t by (intro sorted_wrt_filter unit_candidates_sorted)
  moreover have "set (ties s) = {d. unit_mod n d \<and> ?S d = ?S w}" unfolding t by (auto simp: all_units)
  moreover have "last (prefix cert) = w" using c(2) by simp
  moreover have "limbs_value (winning_score_limbs cert) = ?S w" using x(2) c(3) by (simp add: exact_value_def)
  ultimately have "exactly_minimal cert"
    using w(2) up unfolding exactly_minimal_def Let_def score c(1,4) greedy_choice_def by blast
  then show ?thesis using c(1,2) len wd by (simp add: certified_for_def)
qed

section \<open>The end of a scan\<close>

lemma no_unit_above: "\<not> unit_mod n n"
  by (simp add: unit_mod_def)

lemma scan_paid_end: "scan_inv n gs ps cap cert s \<Longrightarrow> charge_n charges = n \<Longrightarrow> candidate s = n \<Longrightarrow> scan_paid charges s = scan_total charges"
  using no_unit_above [of n] scan_base_all [of charges]
  by (cases "accum s") (auto simp: scan_paid_base scan_inv_def)

lemma scan_paid_le:
  assumes inv: "scan_inv n gs ps cap cert s" and n: "charge_n charges = n"
  shows "scan_paid charges s \<le> scan_total charges"
proof (cases "candidate s = n")
  case True
  then show ?thesis using scan_paid_end [OF inv n] by simp
next
  case False
  then have c: "candidate s \<noteq> 0" "candidate s < n" using inv by (auto simp: scan_inv_def)
  show ?thesis
  proof (cases "accum s")
    case None
    then show ?thesis using control_le_total [of "candidate s" charges] c n by (simp add: scan_paid_base scan_base_def)
  next
    case (Some a)
    then have a: "unit_mod n (candidate s)" "next_point a < unat n" using inv by (simp_all add: scan_inv_def)
    have "begun a (next_point a) * visit_units charges \<le> unat n * visit_units charges"
      using a(2) by (intro mult_le_mono1) (simp add: begun_def)
    then have "scan_base charges (candidate s) + (control_units charges + begun a (next_point a) * visit_units charges) \<le> scan_total charges"
      using scan_base_le [of "candidate s" charges, unfolded n, OF c a(1)] by linarith
    then show ?thesis using Some by (simp add: scan_paid_base)
  qed
qed

text \<open>A scan whose winner was taken before its certificate was paid for or granted.\<close>

definition broken :: "u32 \<Rightarrow> scan_state \<Rightarrow> bool" where
  "broken n s \<longleftrightarrow> candidate s = n \<and> best s = None"

text \<open>What a certifying scan needs of the executor it stands in.\<close>

definition certifiable :: "u32 \<Rightarrow> u32 list \<Rightarrow> nat \<Rightarrow> cbc_executor \<Rightarrow> nat \<Rightarrow> bool" where
  "certifiable n gs cap self units \<longleftrightarrow> certificate_prefix_units (schedule self) (length gs + 1) = Some units
     \<and> gs \<noteq> [] \<and> unit_prefix n gs \<and> length gs + 1 \<le> u32_max \<and> cap + 8 \<le> u64_max"

definition chooses ::
  "u32 \<Rightarrow> u32 list \<Rightarrow> bool \<Rightarrow> nat \<Rightarrow> cbc_executor \<Rightarrow> cbc_executor \<Rightarrow> meter \<Rightarrow> meter \<Rightarrow> nat \<Rightarrow> bool" where
  "chooses n gs cert units self self' m m' cost \<longleftrightarrow>
    (\<exists>w. greedy_choice n gs w
       \<and> (if cert
          then \<exists>c. certified_for n (gs @ [w]) c \<and> self' = self\<lparr>certificates := certificates self @ [c], phase := Update w 0\<rparr>
                 \<and> paid m m' (cost + units)
          else self' = self\<lparr>phase := Update w 0\<rparr> \<and> paid m m' cost))"

lemma build_only_refuses:
  assumes "length gs + 1 \<le> u32_max"
  shows "build_prefix_certificate alloc gs x w next_best tie_words (length gs + 1) n \<noteq> Panicked"
    "build_prefix_certificate alloc gs x w next_best tie_words (length gs + 1) n = Err e \<Longrightarrow> (\<exists>r. e = Storage r) \<and> \<not> grants_all alloc"
proof -
  let ?build = "build_prefix_certificate alloc gs x w next_best tie_words (length gs + 1) n"
  have err: "?build = Err e \<Longrightarrow> \<exists>r. e = Storage r" "?build \<noteq> Panicked"
    using assms by (auto simp: build_prefix_certificate_def refusal_def Let_def split: option.splits if_splits)
  have ok: "grants_all alloc \<Longrightarrow> \<exists>c. ?build = Ok c"
    using assms by (auto simp: build_prefix_certificate_def grants_all_def Let_def split: option.split)
  show "?build \<noteq> Panicked" by (rule err(2))
  show "?build = Err e \<Longrightarrow> (\<exists>r. e = Storage r) \<and> \<not> grants_all alloc" using err(1) ok by auto
qed

lemma finish_scan_cases:
  assumes roomy: "roomy n gs ps cap" and ch: "charges_ok n cap cert charges"
    and inv: "scan_inv n gs ps cap cert s" and c: "candidate s = n" and gs: "zs self = gs"
    and cert: "cert \<longrightarrow> certifiable n gs cap self units \<and> spent m + units \<le> charge_admitted charges"
  shows "\<exists>self' m' r. finish_scan alloc charges self s m = ((self', m'), r)
    \<and> (r = Ok CandidateBlock \<and> chooses n gs cert units self self' m m' 0
       \<or> cert \<and> (\<exists>e. r = Err e \<and> stops_short alloc (charge_admitted charges) m e) \<and> m' = m
           \<and> self' = self\<lparr>phase := Scan (s\<lparr>best := None\<rparr>)\<rparr>)"
proof -
  have n: "3 \<le> n" "charge_n charges = n" "charge_certifying charges = cert" "charge_admitted charges \<le> u128_max"
    using ch by (simp_all add: charges_ok_def)
  have v: "verdict_inv n gs cert s (unit_candidates n n)" using inv c by (simp add: scan_inv_def)
  obtain x w where x: "best s = Some (x, w)" "normalized x" "exact_value x = score_of n gs w" "greedy_choice n gs w"
    "lowest (score_of n gs) (unit_candidates n n) = Some w"
    using scan_complete [OF v n(1)] by blast
  have fits: "score_of n gs w < base ^ cap" using roomy by (simp add: roomy_def)
  show ?thesis
  proof (cases cert)
    case False
    then have "finish_scan alloc charges self s m = ((self\<lparr>phase := Update w 0\<rparr>, m), Ok CandidateBlock)"
      using x(1) n(3) by (simp add: finish_scan_def Let_def)
    then show ?thesis using False x(4) by (auto simp: chooses_def)
  next
    case True
    then have C: "certificate_prefix_units (schedule self) (length gs + 1) = Some units" "gs \<noteq> []" "unit_prefix n gs"
      "length gs + 1 \<le> u32_max" "cap + 8 \<le> u64_max" "spent m + units \<le> charge_admitted charges"
      using cert by (simp_all add: certifiable_def)
    have "length gs + 1 \<le> u64_max" using C(4) by (simp add: u32_max_def u64_max_def)
    then have len: "Option.bind (checked_add u64_max (length gs) 1)
        (\<lambda>len. map_option (\<lambda>units. (len, units)) (certificate_prefix_units (schedule self) len)) = Some (length gs + 1, units)"
      using C(1) by (simp add: checked_add_def)
    let ?open = "self\<lparr>phase := Scan (s\<lparr>best := None\<rparr>)\<rparr>"
    let ?build = "build_prefix_certificate alloc gs x w (runner s) (ties s) (length gs + 1) n"
    have finish: "finish_scan alloc charges self s m =
        (case ?build of
           Err e \<Rightarrow> ((?open, m), Err e)
         | Panicked \<Rightarrow> ((?open, m), Panicked)
         | Ok certificate \<Rightarrow>
             (case gate_allowance (remaining m) units CandidateBlock of
                Err e \<Rightarrow> ((?open, m), Err e)
              | Panicked \<Rightarrow> ((?open, m), Panicked)
              | Ok _ \<Rightarrow>
                  (case debit m (charge_admitted charges) units CandidateBlock of
                     Err e \<Rightarrow> ((?open, m), Err e)
                   | Panicked \<Rightarrow> ((?open, m), Panicked)
                   | Ok m \<Rightarrow> ((self\<lparr>certificates := certificates self @ [certificate], phase := Update w 0\<rparr>, m), Ok CandidateBlock))))"
      unfolding finish_scan_def x(1) option.case prod.case Let_def len n(2,3) gs using True by simp
    note noPanic = build_only_refuses [OF C(4), of alloc x w "runner s" "ties s" n]
    show ?thesis
    proof (cases ?build)
      case (Err e)
      then have "stops_short alloc (charge_admitted charges) m e" using noPanic(2) by (simp add: stops_short_def)
      then show ?thesis using finish Err True by simp
    next
      case (Ok certificate)
      have cf: "certified_for n (gs @ [w]) certificate"
        by (rule emitted_certificate [OF _ n(1) x(2,3) fits C(5) x(5,4) C(2-4) Ok]) (use v True in simp)
      show ?thesis
      proof (cases "remaining m < units")
        case True
        then have "stops_short alloc (charge_admitted charges) m (AllowanceShort units CandidateBlock)"
          using C(6) by (simp add: stops_short_def)
        then show ?thesis using finish Ok True \<open>cert\<close> by (simp add: gate_allowance_def)
      next
        case False
        obtain m' where d: "debit m (charge_admitted charges) units CandidateBlock = Ok m'" "paid m m' units"
          using debit_paid [OF n(4) C(6)] False by (metis not_less)
        then have "finish_scan alloc charges self s m =
            ((self\<lparr>certificates := certificates self @ [certificate], phase := Update w 0\<rparr>, m'), Ok CandidateBlock)"
          using finish Ok False by (simp add: gate_allowance_def)
        then show ?thesis using cf d(2) x(4) \<open>cert\<close> by (auto simp: chooses_def)
      qed
    qed (use noPanic in simp)
  qed
qed

section \<open>The scan of a tile\<close>

text \<open>What a tile leaves of a scan, when the candidate count stays in its block: the scan, to be resumed after a
  boundary or a stop; the scan without its winner; or the update with the chosen component.\<close>

definition scan_tile_ok ::
  "u32 \<Rightarrow> u32 list \<Rightarrow> exact_nat list \<Rightarrow> nat \<Rightarrow> bool \<Rightarrow> nat \<Rightarrow> allocator \<Rightarrow> tile_charges \<Rightarrow> cbc_executor \<Rightarrow> scan_state \<Rightarrow> meter
    \<Rightarrow> cbc_executor \<Rightarrow> meter \<Rightarrow> (cbc_exec_error, cbc_boundary) outcome \<Rightarrow> bool" where
  "scan_tile_ok n gs ps cap cert units alloc charges self s m self' m' r \<longleftrightarrow>
     r = Panicked \<and> \<not> within_block charges s
     \<or> (\<exists>s'. self' = self\<lparr>phase := Scan s'\<rparr> \<and> step_ok n gs ps cap cert charges s m s' m'
          \<and> ((\<exists>b. r = Ok b) \<and> advances n ps s m s' m' \<or> (\<exists>e. r = Err e \<and> stops_short alloc (charge_admitted charges) m' e)))
     \<or> cert \<and> (\<exists>s' e. self' = self\<lparr>phase := Scan s'\<rparr> \<and> broken n s' \<and> paid m m' (scan_total charges - scan_paid charges s)
          \<and> r = Err e \<and> stops_short alloc (charge_admitted charges) m' e)
     \<or> r = Ok CandidateBlock \<and> chooses n gs cert units self self' m m' (scan_total charges - scan_paid charges s)"

lemma scan_tile_later:
  assumes first: "step_ok n gs ps cap cert charges s m s1 m1" "advances n ps s m s1 m1" and n: "charge_n charges = n"
    and rest: "scan_tile_ok n gs ps cap cert units alloc charges self s1 m1 self' m' r"
  shows "scan_tile_ok n gs ps cap cert units alloc charges self s m self' m' r"
proof -
  have le: "scan_paid charges s \<le> scan_paid charges s1" "scan_paid charges s1 \<le> scan_total charges"
    and paid1: "paid m m1 (scan_paid charges s1 - scan_paid charges s)"
    and blk: "within_block charges s \<longrightarrow> within_block charges s1"
    using first(1) scan_paid_le [OF _ n, of gs ps cap cert s1] by (simp_all add: step_ok_def)
  have total: "paid m m' (scan_total charges - scan_paid charges s + k)"
    if "paid m1 m' (scan_total charges - scan_paid charges s1 + k)" for k
  proof -
    have e: "(scan_paid charges s1 - scan_paid charges s) + (scan_total charges - scan_paid charges s1 + k)
        = scan_total charges - scan_paid charges s + k" using le by simp
    show ?thesis using paid_trans [OF paid1 that] unfolding e .
  qed
  have total0: "paid m m' (scan_total charges - scan_paid charges s)" if "paid m1 m' (scan_total charges - scan_paid charges s1)"
    using total [of 0] that by simp
  have choose: "chooses n gs cert units self self' m m' (scan_total charges - scan_paid charges s)"
    if "chooses n gs cert units self self' m1 m' (scan_total charges - scan_paid charges s1)"
    using that total [of units] total0 unfolding chooses_def by (cases cert) auto
  consider (panic) "r = Panicked" "\<not> within_block charges s1"
    | (scan) s' where "self' = self\<lparr>phase := Scan s'\<rparr>" "step_ok n gs ps cap cert charges s1 m1 s' m'"
        "(\<exists>b. r = Ok b) \<and> advances n ps s1 m1 s' m' \<or> (\<exists>e. r = Err e \<and> stops_short alloc (charge_admitted charges) m' e)"
    | (broken) s' e where "cert" "self' = self\<lparr>phase := Scan s'\<rparr>" "broken n s'" "paid m1 m' (scan_total charges - scan_paid charges s1)"
        "r = Err e" "stops_short alloc (charge_admitted charges) m' e"
    | (choice) "r = Ok CandidateBlock" "chooses n gs cert units self self' m1 m' (scan_total charges - scan_paid charges s1)"
    using rest unfolding scan_tile_ok_def by (elim disjE exE conjE) blast+
  then show ?thesis
  proof cases
    case panic
    then show ?thesis using blk by (simp add: scan_tile_ok_def)
  next
    case scan
    from step_ok_trans [OF first(1) scan(2)] advances_trans [OF first(2)] scan(1,3) show ?thesis
      unfolding scan_tile_ok_def by blast
  next
    case broken
    then show ?thesis using total0 unfolding scan_tile_ok_def by blast
  next
    case choice
    then show ?thesis using choose unfolding scan_tile_ok_def by blast
  qed
qed

lemma scan_loop_cases:
  assumes roomy: "roomy n gs (products self) cap" and ch: "charges_ok n cap cert charges" and alloc: "allocator_ok alloc"
    and gs: "zs self = gs" and units: "cert \<longrightarrow> certifiable n gs cap self units"
    and total: "B + scan_total charges + (if cert then units else 0) \<le> charge_admitted charges"
  shows "scan_inv n gs (products self) cap cert s \<Longrightarrow> spent m = B + scan_paid charges s \<Longrightarrow>
    \<exists>self' m' r. scan_loop alloc charges self s m = ((self', m'), r)
      \<and> scan_tile_ok n gs (products self) cap cert units alloc charges self s m self' m' r"
proof (induction "unat n - unat (candidate s)" arbitrary: s m rule: less_induct)
  case less
  let ?ps = "products self"
  have n: "charge_n charges = n" "charge_certifying charges = cert" using ch by (simp_all add: charges_ok_def)
  have room: "B + scan_total charges \<le> charge_admitted charges" using total by simp
  note inv = less.prems(1)
  show ?case
  proof (cases "candidate s = n")
    case True
    have p: "scan_paid charges s = scan_total charges" by (rule scan_paid_end [OF inv n(1) True])
    have fits: "cert \<longrightarrow> certifiable n gs cap self units \<and> spent m + units \<le> charge_admitted charges"
      using units total less.prems(2) p by (cases cert) simp_all
    obtain self' m' r where fin: "finish_scan alloc charges self s m = ((self', m'), r)"
      "r = Ok CandidateBlock \<and> chooses n gs cert units self self' m m' 0
       \<or> cert \<and> (\<exists>e. r = Err e \<and> stops_short alloc (charge_admitted charges) m e) \<and> m' = m
           \<and> self' = self\<lparr>phase := Scan (s\<lparr>best := None\<rparr>)\<rparr>"
      using finish_scan_cases [OF roomy ch inv True gs fits, of alloc] by (elim exE conjE) (rule that)
    have "scan_loop alloc charges self s m = ((self', m'), r)"
      using fin(1) True n(1) by (simp add: scan_loop.simps [of alloc charges self s])
    moreover have "scan_tile_ok n gs ?ps cap cert units alloc charges self s m self' m' r"
      using fin(2)
    proof
      assume "r = Ok CandidateBlock \<and> chooses n gs cert units self self' m m' 0"
      then show ?thesis using p by (simp add: scan_tile_ok_def)
    next
      assume b: "cert \<and> (\<exists>e. r = Err e \<and> stops_short alloc (charge_admitted charges) m e) \<and> m' = m
           \<and> self' = self\<lparr>phase := Scan (s\<lparr>best := None\<rparr>)\<rparr>"
      have "broken n (s\<lparr>best := None\<rparr>)" using True by (simp add: broken_def)
      then show ?thesis using b p unfolding scan_tile_ok_def by auto
    qed
    ultimately show ?thesis by blast
  next
    case False
    then have c: "candidate s < n" using inv by (auto simp: scan_inv_def)
    have ne: "candidate s \<noteq> charge_n charges" using False n(1) by simp
    note loop = scan_loop.simps [of alloc charges self s m, unfolded if_not_P [OF ne]]
    have smaller: "unat n - unat c' < unat n - unat (candidate s)" if "c' = candidate s + 1" for c'
      using candidate_steps(2,6) [of "candidate s" n] inv c that by (simp add: scan_inv_def)
    consider (panic) s1 m1 where "open_candidate alloc charges s m = ((s1, m1), Panicked)" "\<not> within_block charges s"
      | (opened) s1 m1 w where "open_candidate alloc charges s m = ((s1, m1), case_result w)"
          "step_ok n gs ?ps cap cert charges s m s1 m1" "case_ok alloc charges s m s1 m1 w"
      using open_candidate_cases [OF ch alloc inv c less.prems(2) room] by blast
    then show ?thesis
    proof cases
      case panic
      then have "scan_loop alloc charges self s m = ((self\<lparr>phase := Scan s1\<rparr>, m1), Panicked)"
        by (simp add: loop advance_scan_candidate_def)
      then show ?thesis using panic(2) by (simp add: scan_tile_ok_def)
    next
      case opened
      have inv1: "scan_inv n gs ?ps cap cert s1" and m1: "spent m1 = B + scan_paid charges s1"
        using opened(2) less.prems(2) by (simp_all add: step_ok_def paid_def)
      show ?thesis
      proof (cases "accum s1")
        case None
        then consider (b) "w = BlockEnd" | (e) e where "w = Stopped e" | (skip) "w = Skipped"
          using opened(3) by (cases w) (auto simp: case_ok_def)
        then show ?thesis
        proof cases
          case b
          then have "scan_loop alloc charges self s m = ((self\<lparr>phase := Scan s1\<rparr>, m1), Ok CandidateBlock)"
            using opened(1) by (simp add: loop advance_scan_candidate_def case_result_def)
          moreover have "advances n ?ps s m s1 m1" using opened(3) b
            by (simp add: case_ok_def advances_def scan_stage_def)
          ultimately show ?thesis using opened(2) unfolding scan_tile_ok_def by blast
        next
          case e
          then have "scan_loop alloc charges self s m = ((self\<lparr>phase := Scan s1\<rparr>, m1), Err e)"
            using opened(1) by (simp add: loop advance_scan_candidate_def case_result_def)
          moreover have "stops_short alloc (charge_admitted charges) m1 e" using opened(3) e by (simp add: case_ok_def)
          ultimately show ?thesis using opened(2) unfolding scan_tile_ok_def by blast
        next
          case skip
          then have k: "scan_loop alloc charges self s m = scan_loop alloc charges self s1 m1" "candidate s1 = candidate s + 1"
            "spent m < spent m1"
            using opened(1,3) by (simp_all add: loop advance_scan_candidate_def case_result_def case_ok_def)
          obtain self' m' r where r: "scan_loop alloc charges self s1 m1 = ((self', m'), r)"
            "scan_tile_ok n gs ?ps cap cert units alloc charges self s1 m1 self' m' r"
            using less.hyps [OF smaller [OF k(2)] inv1 m1] by blast
          have "advances n ?ps s m s1 m1" using k(3) by (simp add: advances_def)
          from scan_tile_later [OF opened(2) this n(1) r(2)] k(1) r(1) show ?thesis by auto
        qed
      next
        case (Some a)
        then have go: "advance_scan_candidate alloc charges ?ps s m = accumulate_block charges ?ps s1 m1"
          and same: "candidate s1 = candidate s" "s1 = s \<and> m1 = m \<or> advances n ?ps s m s1 m1"
          using opened(1,3) inv by (cases w; auto simp: advance_scan_candidate_def case_result_def case_ok_def advances_def scan_inv_def)+
        obtain s2 m2 r2 where acc: "accumulate_block charges ?ps s1 m1 = ((s2, m2), r2)"
          "block_ok n gs ?ps cap cert alloc charges s1 m1 s2 m2 r2"
          using accumulate_block_cases [OF roomy ch inv1 Some c [folded same(1)] m1 room, of alloc]
          by (elim exE conjE) (rule that)
        have via: "step_ok n gs ?ps cap cert charges s m s' m' \<and> advances n ?ps s m s' m'"
          if "step_ok n gs ?ps cap cert charges s1 m1 s' m'" "advances n ?ps s1 m1 s' m'" for s' m'
          using step_ok_trans [OF opened(2) that(1)] same(2) advances_trans [OF _ that(2)] that(2) by auto
        consider (b) b where "r2 = Ok (BoundaryReached b)" | (fin) "r2 = Ok CandidateFinished" | (e) e where "r2 = Err e"
          using acc(2) by (auto simp: block_ok_def split: outcome.splits advance_scan.splits)
        then show ?thesis
        proof cases
          case b
          then have "scan_loop alloc charges self s m = ((self\<lparr>phase := Scan s2\<rparr>, m2), Ok b)"
            using go acc(1) by (simp add: loop)
          then show ?thesis using via [of s2 m2] acc(2) b unfolding scan_tile_ok_def block_ok_def by auto
        next
          case e
          then have "scan_loop alloc charges self s m = ((self\<lparr>phase := Scan s2\<rparr>, m2), Err e)"
            using go acc(1) by (simp add: loop)
          moreover have "step_ok n gs ?ps cap cert charges s m s2 m2" "stops_short alloc (charge_admitted charges) m2 e"
            using acc(2) e step_ok_trans [OF opened(2)] by (simp_all add: block_ok_def)
          ultimately show ?thesis unfolding scan_tile_ok_def by blast
        next
          case fin
          have c1: "candidate s1 < n" using same(1) c by simp
          obtain a' where a': "accum s2 = Some a'" "candidate s2 = candidate s1"
            "step_ok n gs ?ps cap cert charges s1 m1 (after_verdict cert (score a') s2) m2"
            "advances n ?ps s1 m1 (after_verdict cert (score a') s2) m2"
            using finish_candidate [OF ch inv1 c1 acc(2) [unfolded fin]] by blast
          let ?t = "after_verdict cert (score a') s2"
          have ok: "step_ok n gs ?ps cap cert charges s m ?t m2" "advances n ?ps s m ?t m2" using via [OF a'(3,4)] by simp_all
          have nz: "candidate s2 \<noteq> - 1"
            using candidate_steps(1) [of "candidate s" n] inv c a'(2) same(1) by (simp add: scan_inv_def)
          have cont: "scan_loop alloc charges self s m =
              (if remaining m2 = 0 then ((self\<lparr>phase := Scan ?t\<rparr>, m2), Ok CandidateBlock) else scan_loop alloc charges self ?t m2)"
            using go acc(1) fin a'(1) nz n(2) by (simp add: loop after_verdict_def Let_def)
          show ?thesis
          proof (cases "remaining m2 = 0")
            case True
            then show ?thesis using cont ok unfolding scan_tile_ok_def by auto
          next
            case False
            have t: "scan_inv n gs ?ps cap cert ?t" "spent m2 = B + scan_paid charges ?t" "candidate ?t = candidate s + 1"
              using ok(1) less.prems(2) a'(2) same(1) by (simp_all add: step_ok_def paid_def after_verdict_def)
            obtain self' m' r where r: "scan_loop alloc charges self ?t m2 = ((self', m'), r)"
              "scan_tile_ok n gs ?ps cap cert units alloc charges self ?t m2 self' m' r"
              using less.hyps [OF smaller [OF t(3)] t(1,2)] by blast
            from scan_tile_later [OF ok n(1) r(2)] cont False r(1) show ?thesis by auto
          qed
        qed
      qed
    qed
  qed
qed

end
