(* ===== verification/Cbc_Fold.thy ===== *)
theory Cbc_Fold
  imports Cbc_Scan_Loop
begin

text \<open>
  The initialisation and the updates of the products: every point is paid for and multiplied once, so a
  fold cut short anywhere resumes at its point, and a completed fold leaves the products of the longer
  prefix.
\<close>

section \<open>Products under way\<close>

definition folding :: "u32 \<Rightarrow> u32 list \<Rightarrow> u32 \<Rightarrow> nat \<Rightarrow> exact_nat list \<Rightarrow> bool" where
  "folding n gs c p ps \<longleftrightarrow> length ps = unat n
     \<and> (\<forall>i < unat n. normalized (ps ! i)
          \<and> exact_value (ps ! i) = point_product (unat n) (map unat (if i < p then gs @ [c] else gs)) i)"

lemma folding_start: "folding n gs c 0 ps \<longleftrightarrow> products_are n gs ps"
  by (simp add: folding_def products_are_def)

lemma folding_end: "folding n gs c (unat n) ps \<longleftrightarrow> products_are n (gs @ [c]) ps"
  by (simp add: folding_def products_are_def)

lemma folding_step:
  assumes "folding n gs c p ps" "p < unat n" "normalized x"
    and "exact_value x = point_product (unat n) (map unat (gs @ [c])) p"
  shows "folding n gs c (Suc p) (ps[p := x])"
  using assms by (auto simp: folding_def nth_list_update less_Suc_eq)

text \<open>What an executor keeps from its admission on.\<close>

definition same_plan :: "cbc_executor \<Rightarrow> cbc_executor \<Rightarrow> bool" where
  "same_plan a b \<longleftrightarrow> problem b = problem a \<and> admitted_work b = admitted_work a \<and> schedule b = schedule a
     \<and> score_capacity b = score_capacity a \<and> product_capacity b = product_capacity a
     \<and> admissible_candidates b = admissible_candidates a \<and> product_reserved b = product_reserved a
     \<and> scratch_reserved b = scratch_reserved a \<and> certifying b = certifying a
     \<and> certificates_admitted b = certificates_admitted a"

lemma same_plan_refl [simp]: "same_plan a a"
  by (simp add: same_plan_def)

lemma same_plan_trans: "same_plan a b \<Longrightarrow> same_plan b c \<Longrightarrow> same_plan a c"
  by (simp add: same_plan_def)

lemma same_plan_updates [simp]:
  "same_plan a (b\<lparr>phase := ph\<rparr>) = same_plan a b" "same_plan a (b\<lparr>products := ps\<rparr>) = same_plan a b"
  "same_plan a (b\<lparr>scratch := sc\<rparr>) = same_plan a b" "same_plan a (b\<lparr>zs := z\<rparr>) = same_plan a b"
  "same_plan a (b\<lparr>work_spent := w\<rparr>) = same_plan a b" "same_plan a (b\<lparr>run_transitions := k\<rparr>) = same_plan a b"
  "same_plan a (b\<lparr>certificates := cs\<rparr>) = same_plan a b"
  by (simp_all add: same_plan_def)

definition planned :: "cbc_execution_mode \<Rightarrow> cbc_executor \<Rightarrow> bool" where
  "planned mode self \<longleftrightarrow>
     admitted_facts (exec_n self) (problem_dimension (problem self)) mode (schedule self) (admitted_work self)
       (score_capacity self) (product_capacity self)
     \<and> product_capacity self \<le> scratch_reserved self \<and> candidate_control (schedule self) < u128_max
     \<and> (certificates_admitted self \<longleftrightarrow> mode = Certified) \<and> (certifying self \<longrightarrow> certificates_admitted self)"

lemma planned_same: "same_plan a b \<Longrightarrow> planned mode b = planned mode a"
  by (simp add: same_plan_def planned_def)

lemma planned_facts:
  assumes "planned mode self"
  shows "3 \<le> exec_n self" "1 \<le> problem_dimension (problem self)" "admitted_work self \<le> u128_max"
    "score_capacity self + 8 \<le> u64_max" "0 < unat (exec_n self)"
    "0 < product_update_visit (schedule self)" "0 < initialization_visit (schedule self)"
    "0 < prefix_control (schedule self)" "0 < candidate_visit (schedule self)" "0 < candidate_control (schedule self)"
    "candidate_control (schedule self) + 1 \<le> u128_max" "certificate_candidate (schedule self) = 1"
proof -
  show n: "3 \<le> exec_n self" and "1 \<le> problem_dimension (problem self)" "admitted_work self \<le> u128_max"
    "0 < product_update_visit (schedule self)" "0 < initialization_visit (schedule self)"
    "0 < prefix_control (schedule self)" "0 < candidate_visit (schedule self)" "0 < candidate_control (schedule self)"
    "candidate_control (schedule self) + 1 \<le> u128_max" "certificate_candidate (schedule self) = 1"
    using assms by (simp_all add: planned_def admitted_facts_def)
  have "4 * score_capacity self \<le> u64_max" using assms by (simp add: planned_def admitted_facts_def)
  then show "score_capacity self + 8 \<le> u64_max" by (simp add: u64_max_def)
  have "3 \<le> unat (exec_n self)" using n by (simp add: word_le_nat_alt)
  then show "0 < unat (exec_n self)" by simp
qed

section \<open>One product\<close>

lemma product_step:
  assumes plan: "planned mode self" and gs: "length gs < problem_dimension (problem self)"
    and fold: "folding (exec_n self) gs c p (products self)" and p: "p < unat (exec_n self)"
  obtains f product where "kernel_factor (exec_n self) p c = Ok f"
    "mul_assign_factor_scratch (products self ! p) (product_reserved self) f (product_capacity self) (scratch self) (scratch_reserved self)
       = Some (Ok (product, limbs (products self ! p)))"
    "folding (exec_n self) gs c (Suc p) ((products self)[p := product])"
proof -
  let ?n = "exec_n self" and ?x = "products self ! p" and ?cap = "product_capacity self"
  let ?d = "problem_dimension (problem self)" and ?K = "(kernel_bits (unat (exec_n self)) + 31) div 32"
  have adm: "admitted_facts ?n ?d mode (schedule self) (admitted_work self) (score_capacity self) ?cap"
    "?cap \<le> scratch_reserved self"
    using plan by (auto simp: planned_def)
  have n: "0 < unat ?n" "unat ?n < base" using planned_facts(5) [OF plan] unat_limb [of ?n] by simp_all
  have x: "normalized ?x" "exact_value ?x = point_product (unat ?n) (map unat gs) p"
    using fold p by (simp_all add: folding_def)
  obtain f where f: "kernel_factor ?n p c = Ok f" "unat f = kernel (unat ?n) (p * unat c mod unat ?n)"
    using kernel_factor_value [OF p] by blast
  have "unat f < 2 ^ kernel_bits (unat ?n)" unfolding f(2) using n(1) by (intro kernel_less_bits) simp
  also have "\<dots> \<le> base ^ ?K" by (rule limbs_cover)
  finally have K: "factor_limb_count f \<le> ?K"
    unfolding factor_limb_count_snd by (rule factor_len_bound [OF _ kernel_limbs_le [OF n]])
  have "exact_value ?x < base ^ max ((kernel_bits (unat ?n) * (?d - 1) + 31) div 32) 1"
    unfolding x(2) using n(1) gs by (intro source_fits) simp_all
  then have len: "length (limbs ?x) \<le> max ((kernel_bits (unat ?n) * (?d - 1) + 31) div 32) 1"
    by (rule normalized_length [OF x(1)])
  have cap: "?cap = max ((kernel_bits (unat ?n) * (?d - 1) + 31) div 32) 1 + ?K + 1" "?cap \<le> score_capacity self"
    using adm(1) by (simp_all add: admitted_facts_def)
  have fits: "length (limbs ?x) + factor_limb_count f + 1 \<le> ?cap" using len K cap(1) by linarith
  then have room: "length (limbs ?x) + 5 \<le> u64_max" "\<not> scratch_reserved self < length (limbs ?x)"
    "\<not> max ?cap (product_reserved self) < length (limbs ?x) + factor_limb_count f + 1"
    using cap(2) adm(2) planned_facts(4) [OF plan] by simp_all
  have "0 < exact_value ?x" unfolding x(2) by (rule point_product_pos [OF n(1)])
  then have "f \<noteq> 0" "limbs ?x \<noteq> []" using factor_nonzero [OF p f(1)] by (auto simp: exact_value_def)
  then obtain product where prod: "mul_assign_factor_scratch ?x (product_reserved self) f ?cap (scratch self) (scratch_reserved self)
      = Some (Ok (product, limbs ?x))" "exact_value product = exact_value ?x * unat f" "normalized product"
    using mul_assign_scratch_exact [OF room(1), of f "product_reserved self" ?cap "scratch self" "scratch_reserved self"] room(2,3)
    by (auto simp: Let_def)
  have "folding ?n gs c (Suc p) ((products self)[p := product])"
    by (rule folding_step [OF fold p prod(3)]) (simp add: prod(2) x(2) f(2))
  from that [OF f(1) prod(1) this] show thesis .
qed

section \<open>A block of points\<close>

definition folded :: "u32 list \<Rightarrow> u32 \<Rightarrow> nat \<Rightarrow> cbc_executor \<Rightarrow> nat \<Rightarrow> nat \<Rightarrow> cbc_executor \<Rightarrow> nat \<Rightarrow> nat \<Rightarrow> bool" where
  "folded gs c units self left p self' left' q \<longleftrightarrow> p \<le> q \<and> same_plan self self' \<and> zs self' = zs self
     \<and> certificates self' = certificates self \<and> folding (exec_n self) gs c q (products self')
     \<and> work_spent self' = work_spent self + (q - p) * units \<and> left' + (q - p) * units = left"

lemma exec_debit_paid:
  assumes "admitted_work self \<le> u128_max" "work_spent self + units \<le> admitted_work self" "units \<le> left"
  obtains k where "exec_debit self left units b
    = Ok (self\<lparr>work_spent := work_spent self + units, run_transitions := k\<rparr>, left - units)"
proof -
  have "spent (exec_meter self left) + units \<le> admitted_work self" "units \<le> remaining (exec_meter self left)"
    using assms by (simp_all add: exec_meter_def)
  then obtain m' where m': "debit (exec_meter self left) (admitted_work self) units b = Ok m'" "paid (exec_meter self left) m' units"
    using debit_paid [OF assms(1)] by blast
  then have "spent m' = work_spent self + units" "remaining m' = left - units" by (auto simp: paid_def exec_meter_def)
  then show thesis using that m'(1) by (simp add: exec_debit_def with_meter_def)
qed

lemma folded_trans:
  assumes "folded gs c units self left p a la q" "folded gs c units a la q b lb r"
  shows "folded gs c units self left p b lb r"
proof -
  have qr: "p \<le> q" "q \<le> r" using assms by (simp_all add: folded_def)
  then have "(r - p) * units = (q - p) * units + (r - q) * units" by (simp add: add_mult_distrib [symmetric])
  then show ?thesis using assms qr same_plan_trans [of self a b] by (auto simp: folded_def same_plan_def)
qed

lemma fold_points_cases:
  assumes plan: "planned mode self" and gs: "length gs < problem_dimension (problem self)"
    and last: "last_point \<le> unat (exec_n self)"
  shows "p \<le> last_point \<Longrightarrow> folding (exec_n self) gs c p (products self) \<Longrightarrow>
    work_spent self + (last_point - p) * units \<le> admitted_work self \<Longrightarrow>
    \<exists>self' left' r q. fold_points persist c units last_point p self left = Some ((self', left'), r)
      \<and> q \<le> last_point \<and> folded gs c units self left p self' left' q
      \<and> (r = Ok () \<and> q = last_point
         \<or> (\<exists>b. r = Err (AllowanceShort units b)) \<and> q < last_point \<and> left' < units \<and> phase self' = persist q)"
  using plan gs last
proof (induction "last_point - p" arbitrary: p self left)
  case 0
  then have "p = last_point" by simp
  then show ?case using "0.prems"
    by (intro exI [of _ self] exI [of _ left] exI [of _ "Ok ()"] exI [of _ last_point])
      (simp add: fold_points.simps folded_def)
next
  case (Suc k)
  note plan = Suc.prems(4) and gs = Suc.prems(5) and last = Suc.prems(6)
  have p: "p < last_point" "p < unat (exec_n self)" using Suc.hyps(2) last by linarith+
  obtain f product where step: "kernel_factor (exec_n self) p c = Ok f"
    "mul_assign_factor_scratch (products self ! p) (product_reserved self) f (product_capacity self) (scratch self) (scratch_reserved self)
       = Some (Ok (product, limbs (products self ! p)))"
    "folding (exec_n self) gs c (Suc p) ((products self)[p := product])"
    by (rule product_step [OF plan gs Suc.prems(2) p(2)])
  have len: "\<not> length (products self) \<le> p" using Suc.prems(2) p(2) by (simp add: folding_def)
  let ?b = "if p + 1 = last_point \<and> last_point = unat (exec_n self) then Prefix else PointBlock"
  let ?open = "self\<lparr>phase := persist p\<rparr>"
  show ?case
  proof (cases "left < units")
    case True
    have "fold_points persist c units last_point p self left = Some ((?open, left), Err (AllowanceShort units ?b))"
      using p(1) step(1) True by (simp add: fold_points.simps [of persist c units last_point p] gate_allowance_def Let_def)
    moreover have "folded gs c units self left p ?open left p" using Suc.prems(2) by (simp add: folded_def)
    ultimately show ?thesis using True p(1)
      by (intro exI [of _ ?open] exI [of _ left] exI [of _ "Err (AllowanceShort units ?b)"] exI [of _ p]) auto
  next
    case False
    let ?mid = "?open\<lparr>products := (products self)[p := product], scratch := limbs (products self ! p)\<rparr>"
    have split: "(last_point - p) * units = units + (last_point - Suc p) * units"
      using p(1) by (metis Suc_diff_Suc mult_Suc)
    have fits: "work_spent ?mid + units \<le> admitted_work ?mid" using Suc.prems(3) split by simp
    obtain j where d: "exec_debit ?mid left units ?b
        = Ok (?mid\<lparr>work_spent := work_spent ?mid + units, run_transitions := j\<rparr>, left - units)"
      by (rule exec_debit_paid [OF _ fits, of left ?b]) (use False planned_facts(3) [OF plan] in auto)
    let ?next = "?mid\<lparr>work_spent := work_spent ?mid + units, run_transitions := j\<rparr>"
    have go: "fold_points persist c units last_point p self left = fold_points persist c units last_point (Suc p) ?next (left - units)"
      using p(1) step(1,2) False len d by (simp add: fold_points.simps [of persist c units last_point p] gate_allowance_def Let_def)
    have k: "k = last_point - Suc p" "Suc p \<le> last_point" using Suc.hyps(2) p(1) by linarith+
    have same: "same_plan self ?next" by simp
    have one: "folded gs c units self left p ?next (left - units) (Suc p)"
      using step(3) False same by (simp add: folded_def)
    have plan': "planned mode ?next" using planned_same [OF same] plan by simp
    obtain self' left' r q where r: "fold_points persist c units last_point (Suc p) ?next (left - units) = Some ((self', left'), r)"
      "q \<le> last_point" "folded gs c units ?next (left - units) (Suc p) self' left' q"
      "r = Ok () \<and> q = last_point
         \<or> (\<exists>b. r = Err (AllowanceShort units b)) \<and> q < last_point \<and> left' < units \<and> phase self' = persist q"
      using Suc.hyps(1) [OF k(1,2) _ _ plan', of "left - units"] step(3) Suc.prems(3) split gs last by auto
    from folded_trans [OF one r(3)] go r(1,2,4) show ?thesis by auto
  qed
qed

end
