(* ===== verification/Cbc_Invariant.thy ===== *)
theory Cbc_Invariant
  imports Cbc_Fold
begin

text \<open>
  What every state of an executor keeps between tiles: the components chosen so far are the greedy ones, the
  products are theirs, each certificate is one the checker accepts, and the units spent are exactly the units
  of the work done.
\<close>

section \<open>Units of a prefix\<close>

definition scan_units :: "cbc_executor \<Rightarrow> nat" where
  "scan_units self =
    (unat (exec_n self) - 1) * (candidate_control (schedule self) + (if certifying self then certificate_candidate (schedule self) else 0))
      + unit_count (unat (exec_n self)) * (unat (exec_n self) * candidate_visit (schedule self))"

definition emission_units :: "cbc_executor \<Rightarrow> nat \<Rightarrow> nat" where
  "emission_units self len =
    (if certifying self then len + certificate_score_copy_limb (schedule self) + certificate_fixed_prefix (schedule self) else 0)"

definition update_units :: "cbc_executor \<Rightarrow> nat" where
  "update_units self = unat (exec_n self) * product_update_visit (schedule self)"

definition first_units :: "cbc_executor \<Rightarrow> nat" where
  "first_units self = unat (exec_n self) * initialization_visit (schedule self) + prefix_control (schedule self)"

text \<open>The units of the first component, and of the \<open>k\<close> that follow it.\<close>

primrec later_cost :: "cbc_executor \<Rightarrow> nat \<Rightarrow> nat" where
  "later_cost self 0 = first_units self"
| "later_cost self (Suc k) = later_cost self k + scan_units self + emission_units self (k + 2) + update_units self
     + prefix_control (schedule self)"

definition prefix_cost :: "cbc_executor \<Rightarrow> nat \<Rightarrow> nat" where
  "prefix_cost self k = later_cost self (k - 1)"

lemma later_cost_total:
  "later_cost self k = first_units self
     + k * (scan_units self + update_units self + prefix_control (schedule self)
         + (if certifying self then certificate_score_copy_limb (schedule self) + certificate_fixed_prefix (schedule self) else 0))
     + (if certifying self then k * (k + 3) div 2 else 0)"
proof (induction k)
  case (Suc k)
  have "Suc k * (Suc k + 3) = k * (k + 3) + 2 * (k + 2)" by (simp add: algebra_simps)
  then have "Suc k * (Suc k + 3) div 2 = k * (k + 3) div 2 + (k + 2)" by simp
  then show ?case using Suc unfolding later_cost.simps emission_units_def by (auto simp: algebra_simps)
qed simp

lemma later_cost_mono: "j \<le> k \<Longrightarrow> later_cost self j \<le> later_cost self k"
  by (rule lift_Suc_mono_le [where f = "later_cost self"]) simp_all

lemma planned_cost:
  assumes plan: "planned mode self"
  shows "prefix_cost self (problem_dimension (problem self)) \<le> admitted_work self"
    "certifying self \<or> mode = Construction \<Longrightarrow> prefix_cost self (problem_dimension (problem self)) = admitted_work self"
proof -
  let ?n = "unat (exec_n self)" and ?d = "problem_dimension (problem self)" and ?s = "schedule self"
  have d: "1 \<le> ?d" and init: "initialization_visit ?s = product_update_visit ?s + 1" and one: "certificate_candidate ?s = 1"
    and work: "admitted_work self = construction_total ?s ?n ?d
        + (case mode of Construction \<Rightarrow> 0 | Certified \<Rightarrow> certificate_total ?s ?n ?d)"
    and only: "certifying self \<longrightarrow> mode = Certified"
    using plan by (auto simp: planned_def admitted_facts_def)
  obtain k where k: "?d = Suc k" using d by (cases ?d) simp_all
  have "construction_total ?s ?n (Suc k) = ?n * initialization_visit ?s + prefix_control ?s
      + k * ((?n - 1) * candidate_control ?s + unit_count ?n * (?n * candidate_visit ?s) + ?n * product_update_visit ?s + prefix_control ?s)"
    unfolding construction_total_def init by (simp add: algebra_simps)
  moreover have "certificate_total ?s ?n (Suc k) = k * (?n - 1)
      + k * (certificate_score_copy_limb ?s + certificate_fixed_prefix ?s) + k * (k + 3) div 2"
  proof -
    have "Suc k * (Suc k + 1) = k * (k + 3) + 2" by (simp add: algebra_simps)
    then have "Suc k * (Suc k + 1) div 2 - 1 = k * (k + 3) div 2" by simp
    then show ?thesis unfolding certificate_total_def one by simp
  qed
  ultimately have e: "prefix_cost self ?d = construction_total ?s ?n ?d + (if certifying self then certificate_total ?s ?n ?d else 0)"
    unfolding prefix_cost_def later_cost_total k by (simp add: scan_units_def update_units_def first_units_def one algebra_simps)
  show "prefix_cost self ?d \<le> admitted_work self" using e work only by (cases mode) auto
  show "certifying self \<or> mode = Construction \<Longrightarrow> prefix_cost self ?d = admitted_work self"
    using e work only by (cases mode) auto
qed

lemma prefix_cost_Suc:
  assumes "1 \<le> k"
  shows "prefix_cost self (k + 1) = prefix_cost self k + scan_units self + emission_units self (k + 1) + update_units self
    + prefix_control (schedule self)"
  using assms by (cases k) (simp_all add: prefix_cost_def)

lemma later_prefix_fits:
  assumes plan: "planned mode self" and k: "1 \<le> k" "k < problem_dimension (problem self)"
  shows "prefix_cost self k + scan_units self + emission_units self (k + 1) + update_units self + prefix_control (schedule self)
    \<le> admitted_work self"
proof -
  have "prefix_cost self (k + 1) \<le> prefix_cost self (problem_dimension (problem self))"
    unfolding prefix_cost_def using k by (intro later_cost_mono) simp
  also have "\<dots> \<le> admitted_work self" by (rule planned_cost(1) [OF plan])
  finally show ?thesis unfolding prefix_cost_Suc [OF k(1)] .
qed

lemma first_fits:
  assumes plan: "planned mode self"
  shows "first_units self \<le> admitted_work self"
proof -
  have "first_units self \<le> prefix_cost self (problem_dimension (problem self))"
    unfolding prefix_cost_def using later_cost_mono [of 0 "problem_dimension (problem self) - 1" self] by simp
  also have "\<dots> \<le> admitted_work self" by (rule planned_cost(1) [OF plan])
  finally show ?thesis .
qed

lemma same_units:
  assumes "same_plan a b"
  shows "scan_units b = scan_units a" "emission_units b len = emission_units a len" "update_units b = update_units a"
    "first_units b = first_units a" "prefix_cost b k = prefix_cost a k"
proof -
  have e: "problem b = problem a" "schedule b = schedule a" "certifying b = certifying a" using assms by (simp_all add: same_plan_def)
  show "scan_units b = scan_units a" "emission_units b len = emission_units a len" "update_units b = update_units a"
    "first_units b = first_units a" "prefix_cost b k = prefix_cost a k"
    unfolding prefix_cost_def later_cost_total by (simp_all add: e scan_units_def emission_units_def update_units_def first_units_def)
qed

section \<open>The charges of a tile\<close>

definition sealed_charges :: "cbc_executor \<Rightarrow> cbc_tile_shape \<Rightarrow> tile_charges" where
  "sealed_charges self tile =
    \<lparr>charge_n = exec_n self, charge_certifying = certifying self, charge_score_capacity = score_capacity self,
     charge_admitted = admitted_work self, visit_units = candidate_visit (schedule self),
     control_units = candidate_control (schedule self) + (if certifying self then certificate_candidate (schedule self) else 0),
     charge_tile = tile\<rparr>"

definition tile_ok :: "cbc_tile_shape \<Rightarrow> bool" where
  "tile_ok tile \<longleftrightarrow> candidate_block tile \<noteq> 0 \<and> point_block tile \<noteq> 0 \<and> limb_block tile \<noteq> 0"

lemma with_limbs_ok: "with_limbs c p l = Ok tile \<Longrightarrow> tile_ok tile"
  by (auto simp: with_limbs_def tile_ok_def split: if_splits)

lemma tile_charges_are: "planned mode self \<Longrightarrow> tile_charges_sealed self tile = Ok (sealed_charges self tile)"
  using planned_facts(11,12) [of mode self] by (simp add: tile_charges_sealed_def sealed_charges_def checked_add_def)

lemma sealed_charges_ok:
  assumes "planned mode self" "tile_ok tile"
  shows "charges_ok (exec_n self) (score_capacity self) (certifying self) (sealed_charges self tile)"
  using planned_facts(1,3,9,10) [OF assms(1)] assms(2) by (simp add: charges_ok_def sealed_charges_def tile_ok_def)

lemma scan_total_units:
  assumes "planned mode self"
  shows "scan_total (sealed_charges self tile) = scan_units self"
  using unit_candidates_count [OF planned_facts(1) [OF assms]] by (simp add: scan_total_def scan_units_def sealed_charges_def)

text \<open>The units of a scan do not depend on the shape of the tile.\<close>

definition scan_due :: "cbc_executor \<Rightarrow> scan_state \<Rightarrow> nat" where
  "scan_due self s = scan_paid (sealed_charges self \<lparr>candidate_block = 1, point_block = 1, limb_block = 1\<rparr>) s"

lemma scan_due_paid: "scan_paid (sealed_charges self tile) s = scan_due self s"
  by (simp add: scan_due_def scan_paid_def sealed_charges_def split: option.split)

lemma scan_due_le:
  assumes "planned mode self" "scan_inv (exec_n self) gs ps cap cert s"
  shows "scan_due self s \<le> scan_units self"
proof -
  let ?charges = "sealed_charges self \<lparr>candidate_block = 1, point_block = 1, limb_block = 1\<rparr>"
  have "scan_paid ?charges s \<le> scan_total ?charges" by (rule scan_paid_le [OF assms(2)]) (simp add: sealed_charges_def)
  then show ?thesis by (simp only: scan_due_def scan_total_units [OF assms(1)])
qed

lemma scan_due_same: "same_plan a b \<Longrightarrow> scan_due b s = scan_due a s"
  by (simp add: scan_due_def same_plan_def sealed_charges_def)

section \<open>Components chosen\<close>

definition greedy_prefix :: "u32 \<Rightarrow> u32 list \<Rightarrow> bool" where
  "greedy_prefix n z \<longleftrightarrow> z \<noteq> [] \<and> hd z = 1 \<and> (\<forall>k. 0 < k \<and> k < length z \<longrightarrow> greedy_choice n (take k z) (z ! k))"

lemma greedy_prefix_first: "greedy_prefix n [1]"
  by (simp add: greedy_prefix_def)

lemma greedy_prefix_snoc: "greedy_prefix n z \<Longrightarrow> greedy_choice n z w \<Longrightarrow> greedy_prefix n (z @ [w])"
  by (auto simp: greedy_prefix_def nth_append less_Suc_eq)

lemma greedy_prefix_units:
  assumes "greedy_prefix n z" "3 \<le> n"
  shows "unit_prefix n z"
proof -
  have "unit_mod n (z ! k)" if "k < length z" for k
    using assms that one_is_unit [OF assms(2)] by (cases k) (auto simp: greedy_prefix_def greedy_choice_def hd_conv_nth)
  then show ?thesis by (auto simp: unit_prefix_def in_set_conv_nth)
qed

text \<open>The certificates published for a prefix: one for each component after the first.\<close>

definition emitted :: "u32 \<Rightarrow> bool \<Rightarrow> u32 list \<Rightarrow> cbc_prefix_certificate list \<Rightarrow> bool" where
  "emitted n cert z cs \<longleftrightarrow>
    (if cert then length cs + 1 = length z \<and> (\<forall>i < length cs. certified_for n (take (i + 2) z) (cs ! i)) else cs = [])"

lemma emitted_snoc: "emitted n True z cs \<Longrightarrow> certified_for n (z @ [w]) c \<Longrightarrow> emitted n True (z @ [w]) (cs @ [c])"
  by (auto simp: emitted_def nth_append less_Suc_eq)

definition chosen :: "cbc_executor \<Rightarrow> u32 list \<Rightarrow> bool" where
  "chosen self z \<longleftrightarrow> greedy_prefix (exec_n self) z \<and> emitted (exec_n self) (certifying self) z (certificates self)"

section \<open>The invariant\<close>

definition scanning :: "cbc_executor \<Rightarrow> scan_state \<Rightarrow> bool" where
  "scanning self s \<longleftrightarrow> scan_inv (exec_n self) (zs self) (products self) (score_capacity self) (certifying self) s
     \<and> work_spent self = prefix_cost self (length (zs self)) + scan_due self s"

text \<open>A certifying scan that lost its winner has done all its work.\<close>

definition winner_lost :: "cbc_executor \<Rightarrow> scan_state \<Rightarrow> bool" where
  "winner_lost self s \<longleftrightarrow> certifying self \<and> broken (exec_n self) s
     \<and> work_spent self = prefix_cost self (length (zs self)) + scan_units self"

definition phase_inv :: "cbc_executor \<Rightarrow> bool" where
  "phase_inv self \<longleftrightarrow>
    (case phase self of
       Init p \<Rightarrow> zs self = [] \<and> certificates self = [] \<and> p \<le> unat (exec_n self) \<and> folding (exec_n self) [] 1 p (products self)
           \<and> work_spent self = p * initialization_visit (schedule self)
     | Scan s \<Rightarrow> chosen self (zs self) \<and> length (zs self) < problem_dimension (problem self)
           \<and> products_are (exec_n self) (zs self) (products self) \<and> (scanning self s \<or> winner_lost self s)
     | Update w p \<Rightarrow> greedy_prefix (exec_n self) (zs self) \<and> chosen self (zs self @ [w])
           \<and> length (zs self) < problem_dimension (problem self)
           \<and> p \<le> unat (exec_n self) \<and> folding (exec_n self) (zs self) w p (products self)
           \<and> work_spent self = prefix_cost self (length (zs self)) + scan_units self + emission_units self (length (zs self) + 1)
               + p * product_update_visit (schedule self)
     | Done \<Rightarrow> chosen self (zs self) \<and> length (zs self) = problem_dimension (problem self)
           \<and> work_spent self = prefix_cost self (problem_dimension (problem self))
     | Poisoned reason \<Rightarrow> True)"

definition exec_inv :: "cbc_execution_mode \<Rightarrow> cbc_executor \<Rightarrow> bool" where
  "exec_inv mode self \<longleftrightarrow> (\<exists>reason. phase self = Poisoned reason) \<or> planned mode self \<and> phase_inv self"

text \<open>Within the block of the tile, a candidate count cannot run past it.\<close>

definition in_block :: "cbc_tile_shape \<Rightarrow> cbc_executor \<Rightarrow> bool" where
  "in_block tile self \<longleftrightarrow> (\<forall>s. phase self = Scan s \<longrightarrow> tile_candidates s \<le> unat (candidate_block tile))"

definition lost :: "cbc_executor \<Rightarrow> bool" where
  "lost self \<longleftrightarrow> (\<exists>s. phase self = Scan s \<and> winner_lost self s)"

text \<open>The reservation of a tie class, which only a certifying executor makes.\<close>

definition reserves_ties :: "allocator \<Rightarrow> cbc_executor \<Rightarrow> bool" where
  "reserves_ties alloc self \<longleftrightarrow> (certifying self \<longrightarrow> grants alloc CertificateTieScratch 1 (admissible_candidates self))"

lemma greedy_prefix_length: "greedy_prefix n z \<Longrightarrow> 1 \<le> length z"
  by (cases z) (auto simp: greedy_prefix_def)

lemma phase_work:
  assumes plan: "planned mode self" and inv: "phase_inv self" and np: "\<forall>reason. phase self \<noteq> Poisoned reason"
  shows "work_spent self \<le> admitted_work self"
proof (cases "phase self")
  case (Init p)
  then have "work_spent self \<le> first_units self" using inv
    by (auto simp: phase_inv_def first_units_def intro: trans_le_add1 [OF mult_le_mono1])
  with first_fits [OF plan] show ?thesis by simp
next
  case (Scan s)
  then have z: "greedy_prefix (exec_n self) (zs self)" "length (zs self) < problem_dimension (problem self)"
    and w: "scanning self s \<or> winner_lost self s"
    using inv by (simp_all add: phase_inv_def chosen_def)
  have "work_spent self \<le> prefix_cost self (length (zs self)) + scan_units self"
    using w scan_due_le [OF plan] by (auto simp: scanning_def winner_lost_def)
  with later_prefix_fits [OF plan greedy_prefix_length [OF z(1)] z(2)] show ?thesis by simp
next
  case (Update w p)
  then have z: "greedy_prefix (exec_n self) (zs self)" "length (zs self) < problem_dimension (problem self)"
    "work_spent self = prefix_cost self (length (zs self)) + scan_units self + emission_units self (length (zs self) + 1)
               + p * product_update_visit (schedule self)" "p \<le> unat (exec_n self)"
    using inv by (simp_all add: phase_inv_def)
  have "p * product_update_visit (schedule self) \<le> update_units self" using z(4) by (simp add: update_units_def)
  with later_prefix_fits [OF plan greedy_prefix_length [OF z(1)] z(2)] z(3) show ?thesis by linarith
next
  case Done
  then show ?thesis using inv planned_cost(1) [OF plan] by (simp add: phase_inv_def)
qed (use np in simp)

end
