(* ===== verification/Cbc_Tile.thy ===== *)
theory Cbc_Tile
  imports Cbc_Invariant
begin

text \<open>
  One tile of each phase: it keeps the invariant, spends from the allowance exactly what it adds to the work,
  and goes on: it pays, or moves to a later stage of the scan. The end of a fold pays the prefix control, pushes
  the component and enters the next phase.
\<close>

section \<open>The end of a fold\<close>

definition sealed :: "u32 list \<Rightarrow> u32 \<Rightarrow> nat \<Rightarrow> cbc_executor \<Rightarrow> nat \<Rightarrow> cbc_executor \<Rightarrow> nat \<Rightarrow> bool" where
  "sealed gs c cost self left self' left' \<longleftrightarrow> same_plan self self' \<and> zs self' = gs @ [c] \<and> certificates self' = certificates self
     \<and> products_are (exec_n self) (gs @ [c]) (products self')
     \<and> work_spent self' = work_spent self + cost \<and> left' + cost = left"

text \<open>An allowance too short for the next charge, which the admission covers.\<close>

definition runs_short :: "cbc_executor \<Rightarrow> nat \<Rightarrow> cbc_exec_error \<Rightarrow> bool" where
  "runs_short self left e \<longleftrightarrow> (\<exists>units b. e = AllowanceShort units b \<and> left < units \<and> work_spent self + units \<le> admitted_work self)"

lemma seal_prefix_cases:
  assumes plan: "planned mode self" and ties: "reserves_ties alloc self" and gs: "zs self = gs"
    and prods: "products_are (exec_n self) (gs @ [c]) (products self)"
    and fits: "work_spent self + prefix_control (schedule self) \<le> admitted_work self"
    and fin: "\<forall>a. same_plan self a \<and> zs a = gs @ [c] \<longrightarrow> last_component a = fin"
  shows "(\<exists>e. seal_prefix alloc last_component c self left = ((self, left), Err e) \<and> runs_short self left e)
    \<or> (\<exists>self' left'. seal_prefix alloc last_component c self left = ((self', left'), Ok Prefix)
         \<and> sealed gs c (prefix_control (schedule self)) self left self' left'
         \<and> phase self' = (if fin then Done else Scan (fresh_scan [])))"
proof (cases "left < prefix_control (schedule self)")
  case True
  then have "seal_prefix alloc last_component c self left
      = ((self, left), Err (AllowanceShort (prefix_control (schedule self)) Prefix))"
    by (simp add: seal_prefix_def gate_allowance_def)
  then show ?thesis using True fits by (auto simp: runs_short_def)
next
  case False
  let ?u = "prefix_control (schedule self)"
  obtain k where d: "exec_debit self left ?u Prefix = Ok (self\<lparr>work_spent := work_spent self + ?u, run_transitions := k\<rparr>, left - ?u)"
    by (rule exec_debit_paid [OF planned_facts(3) [OF plan] fits, of left Prefix]) (use False in auto)
  let ?a = "self\<lparr>work_spent := work_spent self + ?u, run_transitions := k, zs := gs @ [c]\<rparr>"
  have last: "last_component ?a = fin" by (rule fin [rule_format]) simp
  have tie: "try_reserve_tie_class alloc (certifying ?a) (admissible_candidates ?a) 1 = Ok []"
    using ties by (simp add: try_reserve_tie_class_def reserves_ties_def)
  have "seal_prefix alloc last_component c self left
      = ((?a\<lparr>phase := (if fin then Done else Scan (fresh_scan []))\<rparr>, left - ?u), Ok Prefix)"
    using False d last tie gs by (cases fin) (simp_all add: seal_prefix_def gate_allowance_def Let_def)
  moreover have "sealed gs c ?u self left (?a\<lparr>phase := (if fin then Done else Scan (fresh_scan []))\<rparr>) (left - ?u)"
    using False prods by (simp add: sealed_def)
  ultimately show ?thesis by auto
qed

definition fold_ok ::
  "(nat \<Rightarrow> cbc_phase) \<Rightarrow> u32 list \<Rightarrow> u32 \<Rightarrow> nat \<Rightarrow> bool \<Rightarrow> nat \<Rightarrow> cbc_executor \<Rightarrow> nat \<Rightarrow> cbc_executor \<Rightarrow> nat
    \<Rightarrow> (cbc_exec_error, cbc_boundary) outcome \<Rightarrow> bool" where
  "fold_ok persist gs c units fin p self left self' left' r \<longleftrightarrow>
    (\<exists>q. q \<le> unat (exec_n self) \<and> folded gs c units self left p self' left' q \<and> phase self' = persist q
       \<and> ((\<exists>b. r = Ok b) \<and> p < q \<or> (\<exists>e. r = Err e \<and> runs_short self' left' e)))
    \<or> (\<exists>b. r = Ok b) \<and> sealed gs c ((unat (exec_n self) - p) * units + prefix_control (schedule self)) self left self' left'
        \<and> phase self' = (if fin then Done else Scan (fresh_scan []))"

lemma fold_tile_cases:
  assumes plan: "planned mode self" and ties: "reserves_ties alloc self" and gs: "zs self = gs"
    and len: "length gs < problem_dimension (problem self)" and p: "p \<le> unat (exec_n self)"
    and fold: "folding (exec_n self) gs c p (products self)" and pts: "0 < points"
    and fits: "work_spent self + (unat (exec_n self) - p) * units + prefix_control (schedule self) \<le> admitted_work self"
    and fin: "\<forall>a. same_plan self a \<and> zs a = gs @ [c] \<longrightarrow> last_component a = fin"
  shows "\<exists>self' left' r. fold_tile alloc persist c units last_component p points self left = Some ((self', left'), r)
    \<and> fold_ok persist gs c units fin p self left self' left' r"
proof -
  let ?N = "unat (exec_n self)"
  let ?last = "min (saturating_add u32_max p points) ?N"
  have nmax: "?N \<le> u32_max" using unat_limb [of "exec_n self"] by (simp add: u32_max_def base_def)
  have last: "p \<le> ?last" "?last \<le> ?N" "p < ?N \<Longrightarrow> p < ?last" using p pts nmax by (auto simp: saturating_add_def)
  have "(?last - p) * units \<le> (?N - p) * units" using last(2) by (intro mult_le_mono1) simp
  then have room: "work_spent self + (?last - p) * units \<le> admitted_work self" using fits by linarith
  obtain a la r q where r: "fold_points persist c units ?last p self left = Some ((a, la), r)" "q \<le> ?last"
    "folded gs c units self left p a la q"
    "r = Ok () \<and> q = ?last \<or> (\<exists>b. r = Err (AllowanceShort units b)) \<and> q < ?last \<and> la < units \<and> phase a = persist q"
    using fold_points_cases [OF plan len last(2,1) fold room] by blast
  note a = r(3) [unfolded folded_def]
  show ?thesis
  proof (cases r)
    case (Err e)
    then obtain b where e: "e = AllowanceShort units b" "q < ?last" "la < units" "phase a = persist q" using r(4) by auto
    have "Suc q \<le> ?N" using e(2) last(2) by simp
    then have "(Suc q - p) * units \<le> (?N - p) * units" by (intro mult_le_mono1) simp
    moreover have "(Suc q - p) * units = (q - p) * units + units" using a by (simp add: Suc_diff_le)
    ultimately have "work_spent a + units \<le> admitted_work a" using a fits by (simp add: same_plan_def)
    then have "runs_short a la e" using e by (simp add: runs_short_def)
    moreover have "fold_tile alloc persist c units last_component p points self left = Some ((a, la), Err e)"
      using r(1) Err by (simp add: fold_tile_def Let_def)
    ultimately show ?thesis using r(3) e(2,4) last(2) unfolding fold_ok_def by fastforce
  next
    case (Ok u)
    then have q: "q = ?last" using r(4) by auto
    define b where "b = a\<lparr>phase := persist ?last\<rparr>"
    have b: "folded gs c units self left p b la ?last" "phase b = persist ?last" "exec_n a = exec_n self"
      using r(3) q by (simp_all add: b_def folded_def same_plan_def)
    have same: "same_plan self b" "zs b = gs" using b(1) gs by (simp_all add: folded_def)
    show ?thesis
    proof (cases "?last = ?N")
      case False
      then have "fold_tile alloc persist c units last_component p points self left = Some ((b, la), Ok PointBlock)"
        unfolding fold_tile_def Let_def r(1) Ok by (simp only: option.case prod.case outcome.case if_False b_def)
      moreover have "p < ?last" using False last p by (cases "p = ?N") auto
      ultimately show ?thesis using b last(2) unfolding fold_ok_def by fastforce
    next
      case True
      have sch: "schedule b = schedule self" "exec_n b = exec_n self" "admitted_work b = admitted_work self"
        using same(1) by (simp_all add: same_plan_def)
      have go: "fold_tile alloc persist c units last_component p points self left = Some (seal_prefix alloc last_component c b la)"
        unfolding fold_tile_def Let_def r(1) Ok by (simp only: option.case prod.case outcome.case True simp_thms if_True b_def)
      have bplan: "planned mode b" "reserves_ties alloc b"
        using plan planned_same [OF same(1)] ties same(1) by (simp_all add: reserves_ties_def same_plan_def)
      have work: "work_spent b = work_spent self + (?N - p) * units" "la + (?N - p) * units = left"
        using b(1) True by (simp_all add: folded_def)
      have prods: "products_are (exec_n b) (gs @ [c]) (products b)"
        using b(1) True unfolding folded_def sch by (simp add: folding_end)
      have bfin: "\<forall>x. same_plan b x \<and> zs x = gs @ [c] \<longrightarrow> last_component x = fin"
        using fin same_plan_trans [OF same(1)] by blast
      have bfits: "work_spent b + prefix_control (schedule b) \<le> admitted_work b" using fits work(1) unfolding sch by simp
      consider (short) e where "seal_prefix alloc last_component c b la = ((b, la), Err e)" "runs_short b la e"
        | (sealed) self' left' where "seal_prefix alloc last_component c b la = ((self', left'), Ok Prefix)"
            "sealed gs c (prefix_control (schedule b)) b la self' left'" "phase self' = (if fin then Done else Scan (fresh_scan []))"
        using seal_prefix_cases [OF bplan same(2) prods bfits bfin, where left = la] by (elim disjE exE conjE) blast+
      then show ?thesis
      proof cases
        case short
        then show ?thesis using go b True unfolding fold_ok_def
          by (intro exI [of _ b] exI [of _ la] exI [of _ "Err e"]) auto
      next
        case sealed
        have "sealed gs c ((?N - p) * units + prefix_control (schedule self)) self left self' left'"
          using sealed(2) work b(1) same_plan_trans [OF same(1)] unfolding sealed_def folded_def sch by auto
        then show ?thesis using go sealed(1,3) unfolding fold_ok_def by auto
      qed
    qed
  qed (use r(4) in auto)
qed

section \<open>A tile\<close>

text \<open>A scan with its winner still at hand.\<close>

definition sound :: "cbc_executor \<Rightarrow> bool" where
  "sound self \<longleftrightarrow> (\<forall>s. phase self = Scan s \<longrightarrow> scanning self s)"

definition tile_rank :: "cbc_executor \<Rightarrow> nat" where
  "tile_rank self = (case phase self of Scan s \<Rightarrow> scan_stage s | _ \<Rightarrow> 0)"

definition tile_cells :: "cbc_executor \<Rightarrow> nat" where
  "tile_cells self = (case phase self of Scan s \<Rightarrow> scan_cells (exec_n self) (products self) s | _ \<Rightarrow> 0)"

definition progresses :: "cbc_executor \<Rightarrow> cbc_executor \<Rightarrow> bool" where
  "progresses self self' \<longleftrightarrow> work_spent self < work_spent self'
     \<or> work_spent self = work_spent self' \<and> (tile_rank self' < tile_rank self
         \<or> tile_rank self' = tile_rank self \<and> tile_cells self' < tile_cells self)"

text \<open>What is kept from one executor to the next: the plan, the invariant, and the account of the allowance.\<close>

definition accounts :: "cbc_execution_mode \<Rightarrow> cbc_executor \<Rightarrow> nat \<Rightarrow> cbc_executor \<Rightarrow> nat \<Rightarrow> bool" where
  "accounts mode self left self' left' \<longleftrightarrow> same_plan self self' \<and> planned mode self' \<and> phase_inv self'
     \<and> (\<forall>reason. phase self' \<noteq> Poisoned reason)
     \<and> work_spent self \<le> work_spent self' \<and> left' + work_spent self' = left + work_spent self"

definition keeps_block :: "cbc_tile_shape \<Rightarrow> cbc_executor \<Rightarrow> cbc_executor \<Rightarrow> bool" where
  "keeps_block tile self self' \<longleftrightarrow> sound self' \<and> (in_block tile self \<longrightarrow> in_block tile self')"

definition tile_step ::
  "cbc_execution_mode \<Rightarrow> allocator \<Rightarrow> cbc_tile_shape \<Rightarrow> cbc_executor \<Rightarrow> nat \<Rightarrow> cbc_executor \<Rightarrow> nat
    \<Rightarrow> (cbc_exec_error, cbc_boundary) outcome \<Rightarrow> bool" where
  "tile_step mode alloc tile self left self' left' r \<longleftrightarrow>
    (case r of
       Ok b \<Rightarrow> accounts mode self left self' left' \<and> progresses self self' \<and> keeps_block tile self self'
     | Err e \<Rightarrow> accounts mode self left self' left' \<and> (keeps_block tile self self' \<or> certifying self)
         \<and> (runs_short self' left' e \<or> (\<exists>q. e = Storage q) \<and> \<not> grants_all alloc)
     | Panicked \<Rightarrow> \<not> in_block tile self \<or> \<not> sound self)"

lemma unit_candidates_first [simp]: "unit_candidates n 1 = []"
  by (simp add: unit_candidates_def candidates_below_def)

lemma fresh_scan_inv: "3 \<le> n \<Longrightarrow> scan_inv n gs ps cap cert (fresh_scan [])"
  by (simp add: scan_inv_def fresh_scan_def verdict_inv_def scored_def word_le_nat_alt)

lemma fresh_scan_due: "scan_due self (fresh_scan ts) = 0"
  by (simp add: scan_due_def scan_paid_def fresh_scan_def sealed_charges_def)

text \<open>A fold interrupted at a point, and a fold that reached the next phase.\<close>

lemma fold_step:
  assumes plan: "planned mode self" and units: "0 < units" and p: "p \<le> unat (exec_n self)"
    and ok: "fold_ok persist gs c units fin p self left self' left' r"
    and here: "phase self = persist p" "\<And>q. persist q = Init q \<or> persist q = Update c q"
    and goes: "\<And>q. q \<le> unat (exec_n self) \<Longrightarrow> folded gs c units self left p self' left' q \<Longrightarrow> phase self' = persist q \<Longrightarrow> phase_inv self'"
    and fit: "\<not> fin \<Longrightarrow> length gs + 1 < problem_dimension (problem self)" "fin \<Longrightarrow> length gs + 1 = problem_dimension (problem self)"
    and next_chosen: "chosen self (gs @ [c])"
    and cost: "work_spent self + (unat (exec_n self) - p) * units + prefix_control (schedule self) = prefix_cost self (length gs + 1)"
  shows "tile_step mode alloc tile self left self' left' r"
proof -
  consider (mid) q where "q \<le> unat (exec_n self)" "folded gs c units self left p self' left' q" "phase self' = persist q"
      "(\<exists>b. r = Ok b) \<and> p < q \<or> (\<exists>e. r = Err e \<and> runs_short self' left' e)"
    | (sealed) b where "r = Ok b" "phase self' = (if fin then Done else Scan (fresh_scan []))"
        "sealed gs c ((unat (exec_n self) - p) * units + prefix_control (schedule self)) self left self' left'"
    using ok unfolding fold_ok_def by blast
  then show ?thesis
  proof cases
    case (mid q)
    note q = mid(1-3) and r = mid(4)
    have ph: "phase self' = Init q \<or> phase self' = Update c q" using q(3) here(2) by simp
    have acc: "accounts mode self left self' left'"
      using q(2) goes [OF q] planned_same [of self self' mode] plan ph
      by (auto simp: accounts_def folded_def)
    have s: "keeps_block tile self self'" using ph by (auto simp: keeps_block_def sound_def in_block_def)
    have "p < q \<Longrightarrow> progresses self self'" using q(2) units by (simp add: progresses_def folded_def)
    then show ?thesis using acc s r unfolding tile_step_def by auto
  next
    case (sealed b)
    note r = sealed(1) and ph = sealed(2) and s = sealed(3)
    have same: "same_plan self self'" using s by (simp add: sealed_def)
    have e: "problem self' = problem self" "certifying self' = certifying self" "certificates self' = certificates self"
      "zs self' = gs @ [c]"
      using s by (simp_all add: sealed_def same_plan_def)
    have work: "work_spent self' = prefix_cost self' (length gs + 1)"
      unfolding same_units(5) [OF same] using s cost by (simp add: sealed_def)
    have ch: "chosen self' (zs self')" using next_chosen e by (simp add: chosen_def)
    have scan: "scanning self' (fresh_scan [])"
      using fresh_scan_inv [OF planned_facts(1) [OF plan]] e work by (simp add: scanning_def fresh_scan_due)
    have inv: "phase_inv self'"
      using ph ch scan e work fit s by (cases fin) (simp_all add: phase_inv_def sealed_def)
    have pc: "0 < prefix_control (schedule self)" by (rule planned_facts(8) [OF plan])
    have "accounts mode self left self' left'"
      using s same inv planned_same [OF same] plan ph by (auto simp: accounts_def sealed_def)
    moreover have "progresses self self'" using s pc by (simp add: progresses_def sealed_def)
    moreover have "keeps_block tile self self'" using ph scan
      by (auto simp: keeps_block_def sound_def in_block_def fresh_scan_def)
    ultimately show ?thesis using r by (simp add: tile_step_def)
  qed
qed

lemma init_tile_step:
  assumes plan: "planned mode self" and ties: "reserves_ties alloc self" and inv: "phase_inv self" and ph: "phase self = Init p"
    and pts: "0 < points"
  shows "\<exists>self' left' r. run_init_tile alloc p points self left = Some ((self', left'), r)
    \<and> tile_step mode alloc tile self left self' left' r"
proof -
  let ?n = "exec_n self" and ?u = "initialization_visit (schedule self)" and ?fin = "problem_dimension (problem self) = 1"
  have z: "zs self = []" "certificates self = []" "p \<le> unat ?n" "folding ?n [] 1 p (products self)" "work_spent self = p * ?u"
    using inv ph by (simp_all add: phase_inv_def)
  have d: "1 \<le> problem_dimension (problem self)" by (rule planned_facts(2) [OF plan])
  have "p * ?u + (unat ?n - p) * ?u = unat ?n * ?u" using z(3) by (simp add: add_mult_distrib [symmetric])
  then have cost: "work_spent self + (unat ?n - p) * ?u + prefix_control (schedule self) = prefix_cost self (length ([] :: u32 list) + 1)"
    using z(5) by (simp add: prefix_cost_def first_units_def)
  then have fits: "work_spent self + (unat ?n - p) * ?u + prefix_control (schedule self) \<le> admitted_work self"
    using first_fits [OF plan] by (simp add: prefix_cost_def)
  have "length ([] :: u32 list) < problem_dimension (problem self)" using d by simp
  have last: "\<forall>a. same_plan self a \<and> zs a = [] @ [1] \<longrightarrow> (problem_dimension (problem a) = 1) = ?fin"
    by (simp add: same_plan_def)
  obtain self' left' r where r: "run_init_tile alloc p points self left = Some ((self', left'), r)"
    "fold_ok Init [] 1 ?u ?fin p self left self' left' r"
    using fold_tile_cases [OF plan ties z(1) \<open>length [] < _\<close> z(3,4) pts fits last, of Init left, folded run_init_tile_def]
    by (elim exE conjE) (rule that)
  have "tile_step mode alloc tile self left self' left' r"
  proof (rule fold_step [OF plan planned_facts(7) [OF plan] z(3) r(2) ph])
    show "phase_inv self'" if "q \<le> unat ?n" "folded [] 1 ?u self left p self' left' q" "phase self' = Init q" for q
      using that z by (simp add: phase_inv_def folded_def same_plan_def add_mult_distrib [symmetric])
    show "chosen self ([] @ [1])" using z(2) by (simp add: chosen_def greedy_prefix_first emitted_def)
  qed (use d cost in auto)
  then show ?thesis using r(1) by blast
qed

lemma update_tile_step:
  assumes plan: "planned mode self" and ties: "reserves_ties alloc self" and inv: "phase_inv self" and ph: "phase self = Update w p"
    and pts: "0 < points"
  shows "\<exists>self' left' r. run_update_tile alloc w p points self left = Some ((self', left'), r)
    \<and> tile_step mode alloc tile self left self' left' r"
proof -
  let ?n = "exec_n self" and ?u = "product_update_visit (schedule self)" and ?gs = "zs self"
  let ?d = "problem_dimension (problem self)" and ?fin = "length ?gs + 1 = problem_dimension (problem self)"
  have z: "greedy_prefix ?n ?gs" "chosen self (?gs @ [w])" "length ?gs < ?d" "p \<le> unat ?n" "folding ?n ?gs w p (products self)"
    "work_spent self = prefix_cost self (length ?gs) + scan_units self + emission_units self (length ?gs + 1) + p * ?u"
    using inv ph by (simp_all add: phase_inv_def)
  have len: "1 \<le> length ?gs" by (rule greedy_prefix_length [OF z(1)])
  have "p * ?u + (unat ?n - p) * ?u = update_units self" using z(4) by (simp add: update_units_def add_mult_distrib [symmetric])
  then have cost: "work_spent self + (unat ?n - p) * ?u + prefix_control (schedule self) = prefix_cost self (length ?gs + 1)"
    using z(6) unfolding prefix_cost_Suc [OF len] by linarith
  then have fits: "work_spent self + (unat ?n - p) * ?u + prefix_control (schedule self) \<le> admitted_work self"
    using later_prefix_fits [OF plan len z(3)] unfolding prefix_cost_Suc [OF len] by linarith
  have last: "\<forall>a. same_plan self a \<and> zs a = ?gs @ [w] \<longrightarrow> (length (zs a) = problem_dimension (problem a)) = ?fin"
    by (simp add: same_plan_def)
  obtain self' left' r where r: "run_update_tile alloc w p points self left = Some ((self', left'), r)"
    "fold_ok (Update w) ?gs w ?u ?fin p self left self' left' r"
    using fold_tile_cases [OF plan ties refl z(3,4,5) pts fits last, of "Update w" left, folded run_update_tile_def]
    by (elim exE conjE) (rule that)
  have "tile_step mode alloc tile self left self' left' r"
  proof (rule fold_step [OF plan planned_facts(6) [OF plan] z(4) r(2) ph])
    show "phase_inv self'" if q: "q \<le> unat ?n" "folded ?gs w ?u self left p self' left' q" "phase self' = Update w q" for q
    proof -
      have s: "same_plan self self'" "p \<le> q" "zs self' = ?gs" "certificates self' = certificates self"
        "folding ?n ?gs w q (products self')" "work_spent self' = work_spent self + (q - p) * ?u"
        using q(2) by (simp_all add: folded_def)
      have "p * ?u + (q - p) * ?u = q * ?u" using s(2) by (simp add: add_mult_distrib [symmetric])
      then have "work_spent self' = prefix_cost self (length ?gs) + scan_units self + emission_units self (length ?gs + 1) + q * ?u"
        using s(6) z(6) by simp
      moreover have "problem self' = problem self" "certifying self' = certifying self" "schedule self' = schedule self"
        using s(1) by (simp_all add: same_plan_def)
      ultimately show ?thesis using q z(1-3) s by (simp add: phase_inv_def chosen_def same_units)
    qed
  qed (use z cost in auto)
  then show ?thesis using r(1) by blast
qed

lemma with_meter_fields [simp]:
  "phase (with_meter self m) = phase self" "zs (with_meter self m) = zs self" "products (with_meter self m) = products self"
  "certificates (with_meter self m) = certificates self" "work_spent (with_meter self m) = spent m"
  "same_plan a (with_meter self m) = same_plan a self" "problem (with_meter self m) = problem self"
  "score_capacity (with_meter self m) = score_capacity self" "certifying (with_meter self m) = certifying self"
  "admitted_work (with_meter self m) = admitted_work self"
  by (simp_all add: with_meter_def same_plan_def)

lemma emits:
  assumes plan: "planned mode self" and cert: "certifying self" and z: "greedy_prefix (exec_n self) (zs self)"
    and len: "length (zs self) < problem_dimension (problem self)"
  shows "certifiable (exec_n self) (zs self) (score_capacity self) self (emission_units self (length (zs self) + 1))"
proof -
  let ?k = "length (zs self) + 1"
  have d: "problem_dimension (problem self) \<le> u32_max"
    using plan cert by (auto simp: planned_def admitted_facts_def)
  have "emission_units self ?k \<le> admitted_work self"
    using later_prefix_fits [OF plan greedy_prefix_length [OF z] len] by simp
  also have "\<dots> \<le> u128_max" by (rule planned_facts(3) [OF plan])
  finally have "certificate_prefix_units (schedule self) ?k = Some (emission_units self ?k)"
    using cert by (simp add: certificate_prefix_units_def add128_def checked_add_def emission_units_def)
  then show ?thesis
    using z greedy_prefix_units [OF z planned_facts(1) [OF plan]] len d planned_facts(4) [OF plan]
    by (simp add: certifiable_def greedy_prefix_def)
qed

text \<open>The executor after the loop, at the phase the loop leaves it in.\<close>

lemma scan_accounts:
  assumes plan: "planned mode self" and a: "same_plan self a" "\<forall>reason. phase a \<noteq> Poisoned reason"
    and inv: "phase_inv (with_meter a m)" and paid: "paid (exec_meter self left) m k"
  shows "accounts mode self left (with_meter a m) (remaining m)"
proof -
  have same: "same_plan self (with_meter a m)" using a(1) by simp
  have p: "planned mode (with_meter a m)" using planned_same [OF same] plan by simp
  have w: "spent m = work_spent self + k" "remaining m + k = left" using paid by (simp_all add: paid_def exec_meter_def)
  have l: "work_spent self \<le> spent m" "remaining m + spent m = left + work_spent self" using w by linarith+
  show ?thesis unfolding accounts_def with_meter_fields by (intro conjI a p inv l)
qed

lemma scan_step:
  assumes plan: "planned mode self" and ph: "phase self = Scan s" and scan: "scanning self s"
    and z: "chosen self (zs self)" "length (zs self) < problem_dimension (problem self)"
      "products_are (exec_n self) (zs self) (products self)"
    and ok: "scan_tile_ok (exec_n self) (zs self) (products self) (score_capacity self) (certifying self)
      (emission_units self (length (zs self) + 1)) alloc (sealed_charges self tile) self s (exec_meter self left) a m r"
  shows "tile_step mode alloc tile self left (with_meter a m) (remaining m) r"
proof -
  let ?charges = "sealed_charges self tile" and ?m = "exec_meter self left" and ?k = "length (zs self)"
  let ?E = "with_meter a m"
  have due: "work_spent self = prefix_cost self ?k + scan_due self s" using scan by (simp add: scanning_def)
  have i: "scan_inv (exec_n self) (zs self) (products self) (score_capacity self) (certifying self) s"
    using scan by (simp add: scanning_def)
  have le: "scan_due self s \<le> scan_units self" by (rule scan_due_le [OF plan i])
  have adm: "charge_admitted ?charges = admitted_work self" by (simp add: sealed_charges_def)
  have blk: "within_block ?charges t \<longleftrightarrow> tile_candidates t \<le> unat (candidate_block tile)" for t
    by (simp add: within_block_def sealed_charges_def)
  consider (panic) "r = Panicked" "\<not> within_block ?charges s"
    | (scan) s' where "a = self\<lparr>phase := Scan s'\<rparr>"
        "step_ok (exec_n self) (zs self) (products self) (score_capacity self) (certifying self) ?charges s ?m s' m"
        "(\<exists>b. r = Ok b) \<and> advances (exec_n self) (products self) s ?m s' m
         \<or> (\<exists>e. r = Err e \<and> stops_short alloc (admitted_work self) m e)"
    | (broken) s' e where "certifying self" "a = self\<lparr>phase := Scan s'\<rparr>" "broken (exec_n self) s'"
        "paid ?m m (scan_units self - scan_due self s)" "r = Err e" "stops_short alloc (admitted_work self) m e"
    | (choice) "r = Ok CandidateBlock" "chooses (exec_n self) (zs self) (certifying self) (emission_units self (?k + 1)) self a ?m m
        (scan_units self - scan_due self s)"
    using ok unfolding scan_tile_ok_def scan_total_units [OF plan] scan_due_paid adm by (elim disjE exE conjE) blast+
  then show ?thesis
  proof cases
    case panic
    then show ?thesis using ph by (auto simp: tile_step_def in_block_def blk)
  next
    case (scan s')
    have st: "scan_inv (exec_n self) (zs self) (products self) (score_capacity self) (certifying self) s'"
      "scan_due self s \<le> scan_due self s'" "paid ?m m (scan_due self s' - scan_due self s)"
      "within_block ?charges s \<longrightarrow> within_block ?charges s'"
      using scan(2) by (simp_all add: step_ok_def scan_due_paid)
    have same: "same_plan self ?E" using scan(1) by simp
    have spent: "spent m = prefix_cost self ?k + scan_due self s'"
      using st(2,3) due by (simp add: paid_def exec_meter_def)
    have sc: "scanning ?E s'"
      using st(1) spent scan(1) same_units(5) [OF same] scan_due_same [OF same] by (simp add: scanning_def)
    have inv: "phase_inv ?E" using z sc scan(1) by (simp add: phase_inv_def chosen_def)
    have acc: "accounts mode self left ?E (remaining m)"
      by (rule scan_accounts [OF plan _ _ inv st(3)]) (simp_all add: scan(1))
    have so: "keeps_block tile self ?E" using sc scan(1) st(4) ph by (simp add: keeps_block_def sound_def in_block_def blk)
    have "advances (exec_n self) (products self) s ?m s' m \<Longrightarrow> progresses self ?E"
      using ph scan(1) by (simp add: advances_def progresses_def tile_rank_def tile_cells_def exec_meter_def)
    then show ?thesis using scan(1,3) acc so by (auto simp: tile_step_def runs_short_def stops_short_def)
  next
    case (broken s' e)
    have same: "same_plan self ?E" using broken(2) by simp
    have "spent m = prefix_cost self ?k + scan_units self"
      using broken(4) due le by (simp add: paid_def exec_meter_def)
    then have "winner_lost ?E s'"
      using broken(1-3) same_units(1,5) [OF same] by (simp add: winner_lost_def)
    then have inv: "phase_inv ?E" using z broken(2) by (simp add: phase_inv_def chosen_def)
    have "accounts mode self left ?E (remaining m)"
      by (rule scan_accounts [OF plan _ _ inv broken(4)]) (simp_all add: broken(2))
    then show ?thesis using broken by (auto simp: tile_step_def runs_short_def stops_short_def)
  next
    case choice
    then obtain w where w: "greedy_choice (exec_n self) (zs self) w"
      "if certifying self
       then \<exists>c. certified_for (exec_n self) (zs self @ [w]) c
              \<and> a = self\<lparr>certificates := certificates self @ [c], phase := Update w 0\<rparr>
              \<and> paid ?m m (scan_units self - scan_due self s + emission_units self (?k + 1))
       else a = self\<lparr>phase := Update w 0\<rparr> \<and> paid ?m m (scan_units self - scan_due self s)"
      unfolding chooses_def by blast
    obtain cs where cs: "emitted (exec_n self) (certifying self) (zs self @ [w]) cs"
      "a = self\<lparr>certificates := cs, phase := Update w 0\<rparr>"
      "paid ?m m (scan_units self - scan_due self s + emission_units self (?k + 1))"
    proof (cases "certifying self")
      case True
      then obtain c where c: "certified_for (exec_n self) (zs self @ [w]) c"
        "a = self\<lparr>certificates := certificates self @ [c], phase := Update w 0\<rparr>"
        "paid ?m m (scan_units self - scan_due self s + emission_units self (?k + 1))"
        using w(2) unfolding if_P [OF True] by (elim exE conjE) (rule that)
      have "emitted (exec_n self) True (zs self) (certificates self)" using z(1) True by (simp add: chosen_def)
      from emitted_snoc [OF this c(1)] show thesis using that [OF _ c(2,3)] True by simp
    next
      case False
      then have "paid ?m m (scan_units self - scan_due self s + emission_units self (?k + 1))"
        "a = self\<lparr>certificates := certificates self, phase := Update w 0\<rparr>"
        using w(2) by (simp_all add: emission_units_def)
      then show thesis using False z(1) that by (simp add: chosen_def emitted_def)
    qed
    have same: "same_plan self ?E" using cs(2) by simp
    have spent: "spent m = prefix_cost self ?k + scan_units self + emission_units self (?k + 1)"
      using cs(3) due le by (simp add: paid_def exec_meter_def)
    have g: "greedy_prefix (exec_n self) (zs self)" using z(1) by (simp add: chosen_def)
    have inv: "phase_inv ?E"
      using cs(1,2) spent g greedy_prefix_snoc [OF g w(1)] z same_units(1,2,5) [OF same]
      by (simp add: phase_inv_def chosen_def folding_start)
    have acc: "accounts mode self left ?E (remaining m)"
      by (rule scan_accounts [OF plan _ _ inv cs(3)]) (simp_all add: cs(2))
    have "progresses self ?E"
    proof -
      have "0 < scan_stage s" by (simp add: scan_stage_def split: option.split)
      then have "tile_rank ?E < tile_rank self" using cs(2) ph by (simp add: tile_rank_def)
      moreover have "work_spent self \<le> work_spent ?E" using cs(3) by (simp add: paid_def exec_meter_def)
      ultimately show ?thesis unfolding progresses_def by linarith
    qed
    then show ?thesis using choice(1) acc cs(2) by (simp add: tile_step_def keeps_block_def sound_def in_block_def)
  qed
qed

lemma scan_tile_step:
  assumes plan: "planned mode self" and inv: "phase_inv self" and ph: "phase self = Scan s"
    and tile: "tile_ok tile" and alloc: "allocator_ok alloc"
  shows "\<exists>self' left' r. run_scan_tile alloc (sealed_charges self tile) self s left = ((self', left'), r)
    \<and> tile_step mode alloc tile self left self' left' r"
proof (cases "scanning self s")
  case False
  then have "broken (exec_n self) s" using inv ph by (simp add: phase_inv_def winner_lost_def)
  then have "snd (run_scan_tile alloc (sealed_charges self tile) self s left) = Panicked"
    by (simp add: broken_def run_scan_tile_def scan_loop.simps [of alloc _ self s] sealed_charges_def finish_scan_def)
  moreover have "\<not> sound self" using False ph by (simp add: sound_def)
  ultimately show ?thesis
    by (cases "run_scan_tile alloc (sealed_charges self tile) self s left") (auto simp: tile_step_def)
next
  case True
  let ?n = "exec_n self" and ?gs = "zs self" and ?ps = "products self" and ?cap = "score_capacity self" and ?cert = "certifying self"
  let ?charges = "sealed_charges self tile" and ?m = "exec_meter self left" and ?units = "emission_units self (length (zs self) + 1)"
  let ?B = "prefix_cost self (length ?gs)"
  have z: "greedy_prefix ?n ?gs" "chosen self ?gs" "length ?gs < problem_dimension (problem self)" "products_are ?n ?gs ?ps"
    using inv ph by (simp_all add: phase_inv_def chosen_def)
  have i: "scan_inv ?n ?gs ?ps ?cap ?cert s" "spent ?m = ?B + scan_paid ?charges s"
    using True by (simp_all add: scanning_def exec_meter_def scan_due_paid)
  have adm: "admitted_facts ?n (problem_dimension (problem self)) mode (schedule self) (admitted_work self) ?cap (product_capacity self)"
    using plan by (simp add: planned_def)
  have "charge_admitted ?charges = admitted_work self" by (simp add: sealed_charges_def)
  moreover have "?B + scan_units self + ?units \<le> admitted_work self"
    using later_prefix_fits [OF plan greedy_prefix_length [OF z(1)] z(3)] by linarith
  moreover have "(if ?cert then ?units else 0) \<le> ?units" by simp
  ultimately have total: "?B + scan_total ?charges + (if ?cert then ?units else 0) \<le> charge_admitted ?charges"
    unfolding scan_total_units [OF plan] by linarith
  have cert: "?cert \<longrightarrow> certifiable ?n ?gs ?cap self ?units" using emits [OF plan _ z(1,3)] by blast
  obtain a m r where r: "scan_loop alloc ?charges self s ?m = ((a, m), r)"
    "scan_tile_ok ?n ?gs ?ps ?cap ?cert ?units alloc ?charges self s ?m a m r"
    using scan_loop_cases [OF roomy_admitted(1) [OF adm z(4,3)] sealed_charges_ok [OF plan tile] alloc refl cert total i]
    by (elim exE conjE) (rule that)
  have "tile_step mode alloc tile self left (with_meter a m) (remaining m) r"
    using scan_step [OF plan ph True z(2-4) r(2)] .
  then show ?thesis using r(1) by (simp add: run_scan_tile_def)
qed

text \<open>A tile of an executor that is neither done nor poisoned.\<close>

lemma execute_tile_step:
  assumes plan: "planned mode self" and inv: "phase_inv self" and tile: "tile_ok tile"
    and alloc: "allocator_ok alloc" "reserves_ties alloc self"
    and busy: "phase self \<noteq> Done" "\<forall>reason. phase self \<noteq> Poisoned reason"
  shows "\<exists>self' left' r. execute_tile alloc tile self left = Some ((self', left'), r)
    \<and> tile_step mode alloc tile self left self' left' r"
proof -
  have pts: "0 < unat (point_block tile)" using tile by (simp add: tile_ok_def unat_gt_0)
  note sealed = tile_charges_are [OF plan, of tile]
  show ?thesis
  proof (cases "phase self")
    case (Init p)
    from init_tile_step [OF plan alloc(2) inv Init pts, of left tile] show ?thesis
      by (simp add: execute_tile_def sealed Init)
  next
    case (Scan s)
    from scan_tile_step [OF plan inv Scan tile alloc(1), of left] show ?thesis
      by (simp add: execute_tile_def sealed Scan)
  next
    case (Update w p)
    from update_tile_step [OF plan alloc(2) inv Update pts, of left tile] show ?thesis
      by (simp add: execute_tile_def sealed Update)
  qed (use busy in simp_all)
qed

end
