(* ===== verification/Cbc_Completion.thy ===== *)
theory Cbc_Completion
  imports Cbc_Tile
begin

text \<open>
  Runs: the loop over tiles always returns, keeps the invariant and the account of the allowance, and each
  terminal means what it says; a completed run holds the greedy lattice, whatever tiles, polls and allowances
  led to it.
\<close>

section \<open>The loop\<close>

text \<open>The allocators of a run report what they granted, and reserve the tie classes.\<close>

definition env_ok :: "run_env \<Rightarrow> cbc_executor \<Rightarrow> bool" where
  "env_ok env self \<longleftrightarrow> (\<forall>k. allocator_ok (tile_allocator env k) \<and> reserves_ties (tile_allocator env k) self)"

lemma env_ok_same: "same_plan a b \<Longrightarrow> env_ok env b = env_ok env a"
  by (simp add: env_ok_def reserves_ties_def same_plan_def)

definition busy :: "cbc_executor \<Rightarrow> bool" where
  "busy self \<longleftrightarrow> phase self \<noteq> Done \<and> (\<forall>reason. phase self \<noteq> Poisoned reason)"

text \<open>What each terminal of the loop says of the executor and of the allowance.\<close>

definition terminal_ok ::
  "run_env \<Rightarrow> cbc_executor \<Rightarrow> nat \<Rightarrow> nat \<Rightarrow> (cbc_exec_error, cbc_run_status) outcome \<Rightarrow> bool" where
  "terminal_ok env self left polls r \<longleftrightarrow>
    (case r of
       Ok Completed \<Rightarrow> phase self = Done
     | Ok (Cancelled b) \<Rightarrow> 0 < polls \<and> cancels env (polls - 1) \<and> busy self
     | Ok (AllowanceExhausted b) \<Rightarrow> left = 0 \<and> busy self
     | Ok (NeedAllowance b units) \<Rightarrow> left < units \<and> work_spent self + units \<le> admitted_work self
     | Err e \<Rightarrow> (\<exists>q. e = Storage q) \<and> (\<exists>k. \<not> grants_all (tile_allocator env k))
     | Panicked \<Rightarrow> polls = u32_max)"

definition resumable :: "(cbc_exec_error, cbc_run_status) outcome \<Rightarrow> bool" where
  "resumable r \<longleftrightarrow> r = Ok Completed \<or> (\<exists>b. r = Ok (Cancelled b)) \<or> (\<exists>b. r = Ok (AllowanceExhausted b))"

text \<open>A run that reached a boundary is closer to its end.\<close>

definition tile_order :: "cbc_executor rel" where
  "tile_order = inv_image (less_than <*lex*> less_than <*lex*> less_than)
     (\<lambda>self. (admitted_work self - work_spent self, tile_rank self, tile_cells self))"

lemma tile_order_wf: "wf tile_order"
  unfolding tile_order_def by (intro wf_inv_image wf_lex_prod wf_less_than)

lemma tile_order_trans: "(c, b) \<in> tile_order \<Longrightarrow> (b, a) \<in> tile_order \<Longrightarrow> (c, a) \<in> tile_order"
  by (auto simp: tile_order_def)

lemma accounts_order:
  assumes "accounts mode self left a la" "progresses self a"
  shows "(a, self) \<in> tile_order"
proof -
  have "work_spent a \<le> admitted_work a" using assms(1) phase_work by (auto simp: accounts_def)
  moreover have "admitted_work a = admitted_work self" using assms(1) by (simp add: accounts_def same_plan_def)
  ultimately show ?thesis using assms(2) by (auto simp: progresses_def tile_order_def)
qed

definition loop_result ::
  "cbc_execution_mode \<Rightarrow> cbc_tile_shape \<Rightarrow> run_env \<Rightarrow> cbc_executor \<Rightarrow> nat \<Rightarrow> nat \<Rightarrow> cbc_executor \<Rightarrow> nat \<Rightarrow> nat
    \<Rightarrow> (cbc_exec_error, cbc_run_status) outcome \<Rightarrow> bool" where
  "loop_result mode tile env self left polls self' left' polls' r \<longleftrightarrow>
     r = Err (PoisonedBy (panic_reason env)) \<and> phase self' = Poisoned (panic_reason env) \<and> (\<not> in_block tile self \<or> \<not> sound self)
     \<or> accounts mode self left self' left' \<and> terminal_ok env self' left' polls' r
        \<and> (resumable r \<or> \<not> certifying self \<longrightarrow> keeps_block tile self self')
        \<and> (resumable r \<longrightarrow> (self', self) \<in> tile_order)
        \<and> polls \<le> polls' \<and> (\<forall>k. polls \<le> k \<and> k + 1 < polls' \<longrightarrow> \<not> cancels env k)"

lemma accounts_trans:
  "accounts mode self left a la \<Longrightarrow> accounts mode a la b lb \<Longrightarrow> accounts mode self left b lb"
  unfolding accounts_def using same_plan_trans [of self a b] by auto

lemma loop_result_later:
  assumes acc: "accounts mode self left a la" and order: "(a, self) \<in> tile_order" and kept: "keeps_block tile self a"
    and no: "\<not> cancels env polls"
    and rest: "loop_result mode tile env a la (polls + 1) self' left' polls' r"
  shows "loop_result mode tile env self left polls self' left' polls' r"
proof -
  have cert: "certifying a = certifying self" using acc by (simp add: accounts_def same_plan_def)
  have k: "keeps_block tile a self' \<Longrightarrow> keeps_block tile self self'" "\<not> in_block tile a \<or> \<not> sound a \<Longrightarrow> \<not> in_block tile self"
    using kept by (auto simp: keeps_block_def)
  have "\<not> cancels env j" if "\<forall>k. polls + 1 \<le> k \<and> k + 1 < polls' \<longrightarrow> \<not> cancels env k" "polls \<le> j" "j + 1 < polls'" for j
    using that no by (cases "j = polls") auto
  then show ?thesis using rest k accounts_trans [OF acc] cert tile_order_trans [OF _ order] unfolding loop_result_def by fastforce
qed

lemma run_loop_result:
  assumes tile: "tile_ok tile"
  shows "planned mode self \<Longrightarrow> phase_inv self \<Longrightarrow> busy self \<Longrightarrow> env_ok env self \<Longrightarrow>
    \<exists>self' left' polls' r. run_loop env tile tiles polls self left = Some (self', left', polls', r)
      \<and> loop_result mode tile env self left polls self' left' polls' r"
  using tile_order_wf
proof (induction self arbitrary: tiles polls left rule: wf_induct_rule)
  case (less self)
  note plan = less.prems(1) and inv = less.prems(2) and busy = less.prems(3) and env = less.prems(4)
  let ?alloc = "tile_allocator env tiles"
  have alloc: "allocator_ok ?alloc" "reserves_ties ?alloc self" using env by (simp_all add: env_ok_def)
  obtain a la r where t: "execute_tile ?alloc tile self left = Some ((a, la), r)" "tile_step mode ?alloc tile self left a la r"
    using execute_tile_step [OF plan inv tile alloc, of left] busy by (auto simp: busy_def)
  note loop = run_loop.simps [of env tile tiles polls self left, unfolded t(1) Option.bind.bind_lunit prod.case]
  show ?case
  proof (cases r)
    case Panicked
    then show ?thesis using t(2) by (simp add: loop loop_result_def tile_step_def)
  next
    case (Err e)
    then have e: "accounts mode self left a la" "keeps_block tile self a \<or> certifying self"
      "runs_short a la e \<or> (\<exists>q. e = Storage q) \<and> \<not> grants_all ?alloc"
      using t(2) by (simp_all add: tile_step_def)
    from e(3) show ?thesis
    proof
      assume "runs_short a la e"
      then obtain units b where s: "e = AllowanceShort units b" "la < units" "work_spent a + units \<le> admitted_work a"
        by (auto simp: runs_short_def)
      then show ?thesis using Err e(1,2) by (auto simp: loop loop_result_def terminal_ok_def resumable_def)
    next
      assume "(\<exists>q. e = Storage q) \<and> \<not> grants_all ?alloc"
      then show ?thesis using Err e(1,2) by (auto simp: loop loop_result_def terminal_ok_def resumable_def)
    qed
  next
    case (Ok b)
    then have a: "accounts mode self left a la" "progresses self a" "keeps_block tile self a"
      using t(2) by (simp_all add: tile_step_def)
    have order: "(a, self) \<in> tile_order" by (rule accounts_order [OF a(1,2)])
    have np: "phase a \<noteq> Poisoned reason" for reason using a(1) by (simp add: accounts_def)
    show ?thesis
    proof (cases "phase a = Done")
      case True
      then show ?thesis using Ok a order by (auto simp: loop loop_result_def terminal_ok_def)
    next
      case False
      have b: "busy a" using False np by (simp add: busy_def)
      have go: "(case phase a of Done \<Rightarrow> True | Poisoned reason \<Rightarrow> True | _ \<Rightarrow> False) = False"
        using False np by (simp split: cbc_phase.split)
      show ?thesis
      proof (cases "polls = u32_max \<or> cancels env polls \<or> la = 0")
        case True
        then show ?thesis using a b order by (auto simp: loop Ok go loop_result_def terminal_ok_def)
      next
        case False
        then have step: "run_loop env tile tiles polls self left = run_loop env tile (tiles + 1) (polls + 1) a la"
          by (simp add: loop Ok go)
        have next_ok: "planned mode a" "phase_inv a" "env_ok env a"
          using a(1) env_ok_same [of self a env] env by (simp_all add: accounts_def)
        obtain self' left' polls' r' where "run_loop env tile (tiles + 1) (polls + 1) a la = Some (self', left', polls', r')"
          "loop_result mode tile env a la (polls + 1) self' left' polls' r'"
          using less.IH [OF order next_ok(1,2) b next_ok(3)] by blast
        then show ?thesis using step loop_result_later [OF a(1) order a(3)] False by auto
      qed
    qed
  qed
qed

section \<open>Completion\<close>

lemma phase_work_strict:
  assumes plan: "planned mode self" and inv: "phase_inv self" and busy: "busy self" and sound: "sound self"
  shows "work_spent self < admitted_work self"
proof -
  have pc: "0 < prefix_control (schedule self)" by (rule planned_facts(8) [OF plan])
  show ?thesis
  proof (cases "phase self")
    case (Init p)
    then have "work_spent self + prefix_control (schedule self) \<le> first_units self" using inv
      by (auto simp: phase_inv_def first_units_def)
    with first_fits [OF plan] pc show ?thesis by simp
  next
    case (Scan s)
    then have z: "greedy_prefix (exec_n self) (zs self)" "length (zs self) < problem_dimension (problem self)"
      and w: "scanning self s" using inv sound by (simp_all add: phase_inv_def chosen_def sound_def)
    have "work_spent self \<le> prefix_cost self (length (zs self)) + scan_units self"
      using w scan_due_le [OF plan] by (auto simp: scanning_def)
    with later_prefix_fits [OF plan greedy_prefix_length [OF z(1)] z(2)] pc show ?thesis by simp
  next
    case (Update w p)
    then have z: "greedy_prefix (exec_n self) (zs self)" "length (zs self) < problem_dimension (problem self)"
      "work_spent self = prefix_cost self (length (zs self)) + scan_units self + emission_units self (length (zs self) + 1)
                 + p * product_update_visit (schedule self)" "p \<le> unat (exec_n self)"
      using inv by (simp_all add: phase_inv_def)
    have "p * product_update_visit (schedule self) \<le> update_units self" using z(4) by (simp add: update_units_def)
    with later_prefix_fits [OF plan greedy_prefix_length [OF z(1)] z(2)] z(3) pc show ?thesis by linarith
  qed (use busy in \<open>simp_all add: busy_def\<close>)
qed

text \<open>The lattice of greedy components is unique.\<close>

lemma greedy_choice_unique: "greedy_choice n gs c \<Longrightarrow> greedy_choice n gs d \<Longrightarrow> c = d"
  by (metis greedy_choice_def order.antisym)

lemma greedy_prefix_unique:
  assumes "greedy_prefix n a" "greedy_prefix n b" "length a = length b"
  shows "a = b"
proof -
  have "k \<le> length a \<Longrightarrow> take k a = take k b" for k
  proof (induction k)
    case (Suc k)
    have "a ! k = b ! k"
    proof (cases k)
      case 0
      then show ?thesis using assms unfolding greedy_prefix_def by (metis hd_conv_nth)
    next
      case (Suc j)
      then have k: "0 < k" "k < length a" "k < length b" "take k a = take k b" using Suc.prems Suc.IH assms(3) by simp_all
      then have "greedy_choice n (take k a) (a ! k)" "greedy_choice n (take k a) (b ! k)"
        using assms(1,2) unfolding greedy_prefix_def by auto
      then show ?thesis by (rule greedy_choice_unique)
    qed
    then show ?case using Suc assms(3) by (simp add: take_Suc_conv_app_nth)
  qed simp
  from this [of "length a"] show ?thesis using assms(3) by simp
qed

section \<open>Runs with a receipt\<close>

definition receipt_of :: "cbc_executor \<Rightarrow> cbc_executor \<Rightarrow> nat \<Rightarrow> nat \<Rightarrow> nat \<Rightarrow> cbc_run_status \<Rightarrow> cbc_run_receipt" where
  "receipt_of self self' allowance left polls status =
    \<lparr>protocol_version = RUN_PROTOCOL_VERSION, receipt_executor_version = CBC_EXECUTOR_SCHEMA_VERSION,
     allowance_requested = allowance, allowance_used = work_spent self' - work_spent self,
     allowance_remaining = left, committed_transitions = run_transitions self',
     last_boundary = status_boundary status, receipt_polls = polls, finalized = True,
     state_root_before = state_root self, state_root_after = state_root self'\<rparr>"

definition with_receipt ::
  "cbc_executor \<Rightarrow> cbc_executor \<Rightarrow> nat \<Rightarrow> nat \<Rightarrow> nat \<Rightarrow> (cbc_exec_error, cbc_run_status) outcome
    \<Rightarrow> (cbc_exec_error, cbc_run_status \<times> cbc_run_receipt) outcome" where
  "with_receipt self self' allowance left polls r =
    (case r of Ok status \<Rightarrow> Ok (status, receipt_of self self' allowance left polls status) | Err e \<Rightarrow> Err e | Panicked \<Rightarrow> Panicked)"

lemma reset_transitions:
  "planned mode (self\<lparr>run_transitions := k\<rparr>) = planned mode self" "phase_inv (self\<lparr>run_transitions := k\<rparr>) = phase_inv self"
  "busy (self\<lparr>run_transitions := k\<rparr>) = busy self" "env_ok env (self\<lparr>run_transitions := k\<rparr>) = env_ok env self"
  "sound (self\<lparr>run_transitions := k\<rparr>) = sound self" "in_block tile (self\<lparr>run_transitions := k\<rparr>) = in_block tile self"
proof -
  let ?a = "self\<lparr>run_transitions := k\<rparr>"
  have same: "same_plan self ?a" by simp
  note u = same_units [OF same] scan_due_same [OF same]
  have s: "scanning ?a s = scanning self s" "winner_lost ?a s = winner_lost self s" for s
    by (simp_all add: scanning_def winner_lost_def u)
  show "phase_inv ?a = phase_inv self" unfolding phase_inv_def by (simp add: s u chosen_def split: cbc_phase.split)
  show "planned mode ?a = planned mode self" "env_ok env ?a = env_ok env self"
    by (rule planned_same [OF same] env_ok_same [OF same])+
  show "busy ?a = busy self" "sound ?a = sound self" "in_block tile ?a = in_block tile self"
    by (simp_all add: busy_def sound_def s in_block_def)
qed

text \<open>A run that is not stopped at its entry is its loop.\<close>

lemma run_enters:
  assumes tile: "tile_ok tile" and plan: "planned mode self" "phase_inv self" and busy: "busy self" and env: "env_ok env self"
    and entry: "\<not> cancels env 0" "0 < allowance"
  obtains self' left' polls' r where
    "run_with_receipt env tile allowance self = Some (self', with_receipt self self' allowance left' polls' r)"
    "loop_result mode tile env (self\<lparr>run_transitions := 0\<rparr>) allowance 1 self' left' polls' r"
    "run_loop env tile 0 1 (self\<lparr>run_transitions := 0\<rparr>) allowance = Some (self', left', polls', r)"
proof -
  let ?a = "self\<lparr>run_transitions := 0\<rparr>"
  obtain self' left' polls' r where r: "run_loop env tile 0 1 ?a allowance = Some (self', left', polls', r)"
    "loop_result mode tile env ?a allowance 1 self' left' polls' r"
    using run_loop_result [OF tile, of mode ?a env 0 1 allowance] plan busy env by (auto simp: reset_transitions)
  have "run_with_receipt env tile allowance self = Some (self', with_receipt self self' allowance left' polls' r)"
    using busy entry r(1)
    by (cases r) (simp_all add: run_with_receipt_def with_receipt_def receipt_of_def busy_def Let_def split: cbc_phase.split)
  with that r(2,1) show thesis by blast
qed

lemma run_stopped:
  assumes "busy self" "cancels env 0 \<or> allowance = 0"
  shows "run_with_receipt env tile allowance self =
    (let a = self\<lparr>run_transitions := 0\<rparr>
     in Some (a, Ok (if cancels env 0 then Cancelled Entry else AllowanceExhausted Entry, entry_receipt a allowance (state_root self))))"
  using assms by (cases "cancels env 0") (auto simp: run_with_receipt_def busy_def Let_def split: cbc_phase.split)

end
