(* ===== verification/Cbc_Ties.thy ===== *)
theory Cbc_Ties
  imports Cbc_Completion
begin

text \<open>
  Refused tie classes. The invariant of the executor is proved for tiles whose allocator reserves the tie class
  of the next scan. Here a run under any allocator is simulated by the run under the allocator that differs
  in granting every such reservation: the two agree, or the first one ended with the refusal
  of a tie class. So what is proved of the one holds of every run that reports no such refusal.
\<close>

section \<open>Allocators that reserve tie classes\<close>

text \<open>The tie class of a scan is reserved at its first candidate; certificates are emitted at a prefix of
  two components or more.\<close>

definition granting :: "allocator \<Rightarrow> allocator" where
  "granting alloc = alloc\<lparr>grants := \<lambda>cls cursor k. cls = CertificateTieScratch \<and> cursor = 1 \<or> grants alloc cls cursor k\<rparr>"

definition granting_env :: "run_env \<Rightarrow> run_env" where
  "granting_env env = env\<lparr>tile_allocator := \<lambda>k. granting (tile_allocator env k)\<rparr>"

definition tie_refused :: "cbc_storage_refusal \<Rightarrow> bool" where
  "tie_refused q \<longleftrightarrow> storage_class q = CertificateTieScratch \<and> storage_cursor q = 1"

definition ties_refused :: "(cbc_exec_error, 'a) outcome \<Rightarrow> bool" where
  "ties_refused r \<longleftrightarrow> (\<exists>q. r = Err (Storage q) \<and> tie_refused q)"

lemma ties_refused_simps [simp]: "\<not> ties_refused (Ok x)" "\<not> ties_refused Panicked" "ties_refused (Err (Storage q)) \<longleftrightarrow> tie_refused q"
  by (simp_all add: ties_refused_def)

lemma refusal_is_tie [simp]:
  "ties_refused (Err (refusal cls phase_kind cursor wanted seen)) \<longleftrightarrow> cls = CertificateTieScratch \<and> cursor = 1"
  by (simp add: ties_refused_def refusal_def tie_refused_def)

lemma granting_simps [simp]:
  "granted_capacity (granting alloc) = granted_capacity alloc"
  "cls \<noteq> CertificateTieScratch \<Longrightarrow> grants (granting alloc) cls cursor k = grants alloc cls cursor k"
  "grants (granting alloc) CertificateTieScratch cursor k \<longleftrightarrow> cursor = 1 \<or> grants alloc CertificateTieScratch cursor k"
  by (simp_all add: granting_def)

lemma granting_scores: "grants (granting alloc) ScoreAccumulator = grants alloc ScoreAccumulator"
  by (simp add: fun_eq_iff)

lemma granting_env_simps [simp]:
  "cancels (granting_env env) = cancels env" "panic_reason (granting_env env) = panic_reason env"
  "tile_allocator (granting_env env) k = granting (tile_allocator env k)"
  by (simp_all add: granting_env_def)

lemma granting_env_ok: "(\<And>k. allocator_ok (tile_allocator env k)) \<Longrightarrow> env_ok (granting_env env) self"
  by (simp add: env_ok_def allocator_ok_def reserves_ties_def)

lemma granting_refuses: "\<not> grants_all (granting alloc) \<Longrightarrow> \<not> grants_all alloc"
  by (auto simp: grants_all_def granting_def)

section \<open>Tiles\<close>

text \<open>A call under the granting allocator does what it does under the given one, or that one refused a tie class.\<close>

definition simulated :: "'s \<times> (cbc_exec_error, 'a) outcome \<Rightarrow> 's \<times> (cbc_exec_error, 'a) outcome \<Rightarrow> bool" where
  "simulated x y \<longleftrightarrow> y = x \<or> ties_refused (snd x)"

lemma simulated_refl [simp]: "simulated x x"
  by (simp add: simulated_def)

lemma open_candidate_granting [simp]: "open_candidate (granting alloc) charges s m = open_candidate alloc charges s m"
  unfolding open_candidate_def granting_scores granting_simps by (rule refl)

lemma advance_granting [simp]:
  "advance_scan_candidate (granting alloc) charges ps s m = advance_scan_candidate alloc charges ps s m"
  by (simp add: advance_scan_candidate_def)

lemma build_granting:
  "build_prefix_certificate (granting alloc) z winning winner r t len n = build_prefix_certificate alloc z winning winner r t len n
   \<or> ties_refused (build_prefix_certificate alloc z winning winner r t len n)"
  by (cases "grants alloc CertificateTieScratch len (length t)")
    (auto simp: build_prefix_certificate_def Let_def split: option.split)

lemma finish_granting: "simulated (finish_scan alloc charges self s m) (finish_scan (granting alloc) charges self s m)"
proof (cases "best s")
  case (Some w)
  then obtain winning winner where w: "best s = Some (winning, winner)" by (cases w) simp
  show ?thesis
  proof (cases "Option.bind (checked_add u64_max (length (zs self)) 1)
      (\<lambda>len. map_option (\<lambda>units. (len, units)) (certificate_prefix_units (schedule self) len))")
    case None
    then show ?thesis unfolding finish_scan_def w Let_def None option.case prod.case by simp
  next
    case (Some lu)
    obtain len units where lu: "lu = (len, units)" by (cases lu) simp
    consider "build_prefix_certificate (granting alloc) (zs self) winning winner (runner s) (ties s) len (charge_n charges)
        = build_prefix_certificate alloc (zs self) winning winner (runner s) (ties s) len (charge_n charges)"
      | e where "build_prefix_certificate alloc (zs self) winning winner (runner s) (ties s) len (charge_n charges) = Err e"
        "ties_refused (Err e :: (cbc_exec_error, cbc_boundary) outcome)"
      using build_granting [of alloc "zs self" winning winner "runner s" "ties s" len "charge_n charges"]
      by (auto simp: ties_refused_def)
    then show ?thesis unfolding finish_scan_def w Let_def Some lu option.case prod.case
      by cases (simp_all add: simulated_def)
  qed
qed (simp add: finish_scan_def)

lemma scan_loop_granting: "simulated (scan_loop alloc charges self s m) (scan_loop (granting alloc) charges self s m)"
proof (induction alloc charges self s m rule: scan_loop.induct)
  case (1 alloc charges self s m)
  note go = scan_loop.simps [of _ charges self s m]
  show ?case
  proof (cases "candidate s = charge_n charges")
    case True
    then show ?thesis using finish_granting [of alloc charges self s m] by (simp add: go)
  next
    case False
    obtain s' m' r where a: "advance_scan_candidate alloc charges (products self) s m = ((s', m'), r)" by (metis prod.exhaust)
    show ?thesis
    proof (cases r)
      case (Ok step)
      then show ?thesis using 1 False a by (cases step) (auto simp: go Let_def split: option.split)
    qed (use False a in \<open>simp_all add: go\<close>)
  qed
qed

lemma run_scan_granting: "simulated (run_scan_tile alloc charges self s left) (run_scan_tile (granting alloc) charges self s left)"
  using scan_loop_granting [of alloc charges self s "exec_meter self left"]
  by (auto simp: simulated_def run_scan_tile_def split: prod.split)

lemma reserve_granting:
  "try_reserve_tie_class (granting alloc) certify wanted 1 = try_reserve_tie_class alloc certify wanted 1
   \<or> ties_refused (try_reserve_tie_class alloc certify wanted 1)"
  by (simp add: try_reserve_tie_class_def)

lemma seal_granting: "simulated (seal_prefix alloc last_component c self left) (seal_prefix (granting alloc) last_component c self left)"
proof (cases "gate_allowance left (prefix_control (schedule self)) Prefix")
  case gate: (Ok u)
  show ?thesis
  proof (cases "exec_debit self left (prefix_control (schedule self)) Prefix")
    case (Ok paid)
    then obtain a la where "paid = (a, la)" by (cases paid) simp
    then show ?thesis using Ok gate reserve_granting [of alloc "certifying a" "admissible_candidates a"]
      by (auto simp: simulated_def seal_prefix_def Let_def ties_refused_def)
  qed (simp_all add: seal_prefix_def gate)
qed (simp_all add: seal_prefix_def)

text \<open>A tile that answers under one allocator answers under the other.\<close>

definition tile_simulated :: "('s \<times> (cbc_exec_error, 'a) outcome) option \<Rightarrow> ('s \<times> (cbc_exec_error, 'a) outcome) option \<Rightarrow> bool" where
  "tile_simulated x y \<longleftrightarrow> x = y \<or> (\<exists>a b. x = Some a \<and> y = Some b \<and> simulated a b)"

lemma tile_simulated_simps [simp]: "tile_simulated x x" "tile_simulated (Some a) (Some b) \<longleftrightarrow> simulated a b"
  by (auto simp: tile_simulated_def)

lemma fold_granting:
  "tile_simulated (fold_tile alloc persist c units last_component p k self left)
     (fold_tile (granting alloc) persist c units last_component p k self left)"
proof (cases "fold_points persist c units (min (saturating_add u32_max p k) (unat (exec_n self))) p self left")
  case (Some x)
  obtain a la r where x: "x = ((a, la), r)" by (metis prod.exhaust)
  show ?thesis unfolding fold_tile_def Let_def Some x option.case prod.case
    by (cases r) (simp_all add: seal_granting)
qed (simp add: fold_tile_def)

lemma execute_granting:
  "tile_simulated (execute_tile alloc tile self left) (execute_tile (granting alloc) tile self left)"
proof (cases "tile_charges_sealed self tile")
  case (Ok charges)
  then show ?thesis
    by (cases "phase self") (simp_all add: execute_tile_def run_init_tile_def run_update_tile_def fold_granting run_scan_granting)
qed (cases "phase self"; simp add: execute_tile_def)+

section \<open>Runs\<close>

text \<open>A run under the granting allocators is the run under the given ones, or that one ended with a refused tie class.\<close>

lemma run_loop_granting:
  assumes "run_loop (granting_env env) tile tiles polls self left = Some out"
  shows "run_loop env tile tiles polls self left = Some out
    \<or> (\<exists>self' left' polls' r. run_loop env tile tiles polls self left = Some (self', left', polls', r) \<and> ties_refused r)"
proof -
  let ?goal = "\<lambda>env' tile tiles polls self left out. env' = granting_env env \<longrightarrow> run_loop env tile tiles polls self left = Some out
    \<or> (\<exists>self' left' polls' r. run_loop env tile tiles polls self left = Some (self', left', polls', r) \<and> ties_refused r)"
  have "?goal (granting_env env) tile tiles polls self left out"
  proof (rule run_loop.raw_induct [where P = ?goal, OF _ assms], rule impI)
    fix rl env' tile tiles polls self left out
    assume ih: "\<And>env' tile tiles polls self left out. rl env' tile tiles polls self left = Some out \<Longrightarrow>
        ?goal env' tile tiles polls self left out"
      and body: "Option.bind (execute_tile (tile_allocator env' tiles) tile self left) (\<lambda>((self, left), r).
      case r of
        Panicked \<Rightarrow> Some (self\<lparr>phase := Poisoned (panic_reason env')\<rparr>, left, polls, Err (PoisonedBy (panic_reason env')))
      | Err (AllowanceShort least boundary) \<Rightarrow> Some (self, left, polls, Ok (NeedAllowance boundary least))
      | Err e \<Rightarrow> Some (self, left, polls, Err e)
      | Ok boundary \<Rightarrow>
          if (case phase self of Done \<Rightarrow> True | Poisoned reason \<Rightarrow> True | _ \<Rightarrow> False)
          then Some (self, left, polls, Ok Completed)
          else if polls = u32_max then Some (self, left, polls, Panicked)
          else if cancels env' polls then Some (self, left, polls + 1, Ok (Cancelled boundary))
          else if left = 0 then Some (self, left, polls + 1, Ok (AllowanceExhausted boundary))
          else rl env' tile (tiles + 1) (polls + 1) self left) = Some out"
      and env': "env' = granting_env env"
    show "run_loop env tile tiles polls self left = Some out
      \<or> (\<exists>self' left' polls' r. run_loop env tile tiles polls self left = Some (self', left', polls', r) \<and> ties_refused r)"
    proof -
      let ?alloc = "tile_allocator env tiles"
      have alloc: "tile_allocator env' tiles = granting ?alloc" by (simp add: env')
      obtain y where y: "execute_tile (granting ?alloc) tile self left = Some y"
        using body unfolding alloc by (cases "execute_tile (granting ?alloc) tile self left") simp_all
      with execute_granting [of ?alloc tile self left]
      consider "execute_tile ?alloc tile self left = Some y"
        | x where "execute_tile ?alloc tile self left = Some x" "ties_refused (snd x)"
        by (auto simp: tile_simulated_def simulated_def)
      then show ?thesis
      proof cases
        case 1
        note go = run_loop.simps [of env tile tiles polls self left, unfolded 1 Option.bind.bind_lunit]
        have same: "panic_reason env' = panic_reason env" "cancels env' = cancels env" by (simp_all add: env')
        obtain a la r where yd: "y = ((a, la), r)" by (metis prod.exhaust)
        note rest = ih [of env' tile "tiles + 1" "polls + 1" a la out]
        show ?thesis using body rest unfolding alloc y go yd Option.bind.bind_lunit prod.case same
          by (cases r; cases "phase a") (auto simp: env' split: cbc_exec_error.split if_splits)
      next
        case (2 x)
        obtain a la r where x: "x = ((a, la), r)" by (metis prod.exhaust)
        then obtain q where "r = Err (Storage q)" "tie_refused q" using 2(2) by (auto simp: ties_refused_def)
        then show ?thesis by (simp add: run_loop.simps [of env tile tiles] 2(1) x)
      qed
    qed
  qed
  then show ?thesis by simp
qed

text \<open>What the invariant gives of a run, if it started within it and no tie class was refused to it.\<close>

lemma run_enters_granting:
  assumes tile: "tile_ok tile" and plan: "planned mode self" "phase_inv self" and busy: "busy self"
    and alloc: "\<And>k. allocator_ok (tile_allocator env k)" and entry: "\<not> cancels env 0" "0 < allowance"
  obtains (refused) self' r where "run_with_receipt env tile allowance self = Some (self', r)" "ties_refused r"
  | (runs) self' left' polls' r where
    "run_with_receipt env tile allowance self = Some (self', with_receipt self self' allowance left' polls' r)"
    "loop_result mode tile (granting_env env) (self\<lparr>run_transitions := 0\<rparr>) allowance 1 self' left' polls' r"
    "run_loop env tile 0 1 (self\<lparr>run_transitions := 0\<rparr>) allowance = Some (self', left', polls', r)"
proof -
  let ?a = "self\<lparr>run_transitions := 0\<rparr>"
  have to_run: "run_with_receipt env tile allowance self = Some (self', with_receipt self self' allowance left' polls' r)"
    if "run_loop env tile 0 1 ?a allowance = Some (self', left', polls', r)" for self' left' polls' r
    using busy entry that
    by (cases r) (simp_all add: run_with_receipt_def with_receipt_def receipt_of_def busy_def Let_def split: cbc_phase.split)
  have env: "env_ok (granting_env env) self" using granting_env_ok alloc by blast
  obtain self' left' polls' r where g: "run_loop (granting_env env) tile 0 1 ?a allowance = Some (self', left', polls', r)"
    "loop_result mode tile (granting_env env) ?a allowance 1 self' left' polls' r"
    using run_loop_result [OF tile, of mode ?a "granting_env env" 0 1 allowance] plan busy env by (auto simp: reset_transitions)
  from run_loop_granting [OF g(1)] show thesis
  proof
    assume "run_loop env tile 0 1 ?a allowance = Some (self', left', polls', r)"
    then show thesis using runs [OF to_run g(2)] by blast
  next
    assume "\<exists>self' left' polls' r. run_loop env tile 0 1 ?a allowance = Some (self', left', polls', r) \<and> ties_refused r"
    then obtain b lb pb rb where "run_loop env tile 0 1 ?a allowance = Some (b, lb, pb, rb)" "ties_refused rb" by blast
    then show thesis using refused [OF to_run] by (auto simp: with_receipt_def ties_refused_def)
  qed
qed

text \<open>The terminals mean the same of the given allocators.\<close>

lemma terminal_granting: "terminal_ok (granting_env env) self left polls r \<Longrightarrow> terminal_ok env self left polls r"
  using granting_refuses by (auto simp: terminal_ok_def split: outcome.splits cbc_run_status.splits)

end
