(* ===== verification/Cbc_Results.thy ===== *)
theory Cbc_Results
  imports Cbc_Ties
begin

text \<open>
  What runs give: an admitted executor starts within the invariant, and the properties of its runs and of the
  synchronous facade.
\<close>

section \<open>The start\<close>

lemma schedule_control:
  "checked_schedule n kernel_limbs source_limbs score_cap product_cap score_limbs = Ok sched \<Longrightarrow>
    candidate_control sched = (ceil_log2 n * 2 + 1) * 3 + 16 + (score_cap * 2 + score_limbs)"
  by (auto simp: checked_schedule_def SCALAR_UNITS_PER_GCD_STEP_def SCALAR_UNITS_PER_CANDIDATE_def)

lemma candidate_control_bound:
  assumes "estimate_for sizes p mode = Ok est" "3 \<le> problem_point_count p"
  shows "candidate_control (execution_schedule est) < u128_max"
proof -
  let ?n = "unat (problem_point_count p)" and ?d = "problem_dimension p"
  obtain w counts bytes work where parts: "estimate_from sizes p mode est w counts bytes work"
    using assms(1) by (rule estimate_parts)
  have e: "operand_widths ?n ?d (?d - 1) = Ok w"
    "checked_schedule ?n (w_kernel_limbs w) (w_source_limbs w) (w_score_capacity w) (w_product_capacity w) (w_score_limbs w)
      = Ok (execution_schedule est)"
    "score_capacity_limbs est = w_score_capacity w"
    using parts unfolding estimate_from_def Let_def by blast+
  have "4 * score_capacity_limbs est \<le> u64_max" using admission_gives [OF assms] by (simp add: admitted_facts_def)
  then have cap: "4 * w_score_capacity w \<le> u64_max" using e(3) by simp
  note wd = operand_widths_Ok [OF e(1)]
  have "w_score_limbs w \<le> w_score_capacity w" unfolding wd(5) by simp
  moreover have "ceil_log2 ?n \<le> 32 * w_score_limbs w" unfolding wd(3) by simp
  moreover have "candidate_control (execution_schedule est)
      = (ceil_log2 ?n * 2 + 1) * 3 + 16 + (w_score_capacity w * 2 + w_score_limbs w)"
    by (rule schedule_control [OF e(2)])
  ultimately have "candidate_control (execution_schedule est) \<le> 195 * w_score_capacity w + 19" by simp
  also have "\<dots> < u128_max" using cap by (simp add: u64_max_def u128_max_def)
  finally show ?thesis .
qed

text \<open>An executor with its invariant, ready to run under a tile shape.\<close>

definition ready :: "cbc_execution_mode \<Rightarrow> cbc_tile_shape \<Rightarrow> cbc_executor \<Rightarrow> bool" where
  "ready mode tile self \<longleftrightarrow> planned mode self \<and> phase_inv self \<and> busy self \<and> sound self \<and> in_block tile self"

lemma certifying_ready:
  assumes "ready mode tile self" "work_spent self = 0" "certificates_admitted self" "phase self = Init p"
  shows "ready mode tile (self\<lparr>certifying := True\<rparr>)"
  using assms by (auto simp: ready_def planned_def phase_inv_def busy_def sound_def in_block_def)

lemma executor_starts:
  assumes new: "cbc_executor_new sizes alloc admission = Ok self" and alloc: "allocator_ok alloc"
    and n: "3 \<le> problem_point_count (admission_problem admission)"
  shows "ready (admission_mode admission) tile self" "problem self = admission_problem admission" "work_spent self = 0"
    "admitted_work self = work_units (admission_estimate admission)" "\<not> certifying self" "phase self = Init 0"
    "certificates_admitted self \<longleftrightarrow> admission_mode admission = Certified" "zs self = []" "run_transitions self = 0"
proof -
  let ?p = "admission_problem admission" and ?est = "admission_estimate admission" and ?mode = "admission_mode admission"
  have auth: "has_current_authority sizes admission"
    using new by (simp add: cbc_executor_new_def split: if_splits)
  then have est: "estimate_for sizes ?p ?mode = Ok ?est" unfolding has_current_authority_def by blast
  have self: "self = \<lparr>problem = ?p, admitted_work = work_units ?est, schedule = execution_schedule ?est,
      score_capacity = score_capacity_limbs ?est, product_capacity = product_capacity_limbs ?est,
      admissible_candidates = admissible_candidates_per_prefix ?est,
      products = replicate (unat (problem_point_count ?p)) one, zs = [],
      product_reserved = granted_capacity alloc (product_capacity_limbs ?est), scratch = [],
      scratch_reserved = granted_capacity alloc (product_capacity_limbs ?est), phase = Init 0, work_spent = 0,
      run_transitions = 0, certifying = False, certificates_admitted = (?mode = Certified), certificates = []\<rparr>"
    using new auth by (simp add: cbc_executor_new_def Let_def split: if_splits option.splits)
  show "problem self = ?p" "work_spent self = 0" "admitted_work self = work_units ?est" "\<not> certifying self" "phase self = Init 0"
    "certificates_admitted self \<longleftrightarrow> ?mode = Certified" "zs self = []" "run_transitions self = 0"
    unfolding self by simp_all
  have plan: "planned ?mode self"
    using admission_gives [OF est n] candidate_control_bound [OF est n] alloc
    unfolding self by (simp add: planned_def allocator_ok_def)
  have "folding (exec_n self) [] 1 0 (products self)"
    unfolding self folding_start by (simp add: products_are_def one_value point_product_def)
  then show "ready ?mode tile self"
    using plan unfolding self by (simp add: ready_def phase_inv_def busy_def sound_def in_block_def)
qed

lemma reset_accounts: "accounts mode (self\<lparr>run_transitions := k\<rparr>) left self' left' = accounts mode self left self' left'"
  by (simp add: accounts_def same_plan_def)

lemma reset_order: "(self', self\<lparr>run_transitions := k\<rparr>) \<in> tile_order \<longleftrightarrow> (self', self) \<in> tile_order"
proof -
  have "tile_rank (self\<lparr>run_transitions := k\<rparr>) = tile_rank self" "tile_cells (self\<lparr>run_transitions := k\<rparr>) = tile_cells self"
    by (simp_all add: tile_rank_def tile_cells_def split: cbc_phase.split)
  then show ?thesis by (simp add: tile_order_def)
qed

lemma ready_loop:
  assumes "ready mode tile self" "loop_result mode tile env (self\<lparr>run_transitions := 0\<rparr>) allowance 1 self' left' polls' r"
  shows "accounts mode self allowance self' left'" "terminal_ok env self' left' polls' r"
    "resumable r \<or> \<not> certifying self \<longrightarrow> sound self' \<and> in_block tile self'" "resumable r \<longrightarrow> (self', self) \<in> tile_order"
    "\<forall>k. 1 \<le> k \<and> k + 1 < polls' \<longrightarrow> \<not> cancels env k"
proof -
  have rd: "sound self" "in_block tile self" using assms(1) by (simp_all add: ready_def)
  show "accounts mode self allowance self' left'" "terminal_ok env self' left' polls' r"
    "resumable r \<or> \<not> certifying self \<longrightarrow> sound self' \<and> in_block tile self'" "resumable r \<longrightarrow> (self', self) \<in> tile_order"
    "\<forall>k. 1 \<le> k \<and> k + 1 < polls' \<longrightarrow> \<not> cancels env k"
    using assms(2) rd unfolding loop_result_def reset_transitions keeps_block_def reset_accounts reset_order by auto
qed

lemma ready_run:
  assumes ready: "ready mode tile self" and tile: "tile_ok tile" and env: "env_ok env self" and entry: "\<not> cancels env 0" "0 < allowance"
  obtains self' left' polls' r where
    "run_with_receipt env tile allowance self = Some (self', with_receipt self self' allowance left' polls' r)"
    "accounts mode self allowance self' left'" "terminal_ok env self' left' polls' r"
    "resumable r \<or> \<not> certifying self \<longrightarrow> sound self' \<and> in_block tile self'" "resumable r \<longrightarrow> (self', self) \<in> tile_order"
    "\<forall>k. 1 \<le> k \<and> k + 1 < polls' \<longrightarrow> \<not> cancels env k"
    "run_loop env tile 0 1 (self\<lparr>run_transitions := 0\<rparr>) allowance = Some (self', left', polls', r)"
proof -
  have rd: "planned mode self" "phase_inv self" "busy self" using ready by (simp_all add: ready_def)
  obtain self' left' polls' r where
    r: "run_with_receipt env tile allowance self = Some (self', with_receipt self self' allowance left' polls' r)"
    "loop_result mode tile env (self\<lparr>run_transitions := 0\<rparr>) allowance 1 self' left' polls' r"
    "run_loop env tile 0 1 (self\<lparr>run_transitions := 0\<rparr>) allowance = Some (self', left', polls', r)"
    by (rule run_enters [OF tile rd env entry])
  show thesis by (rule that [OF r(1) ready_loop [OF ready r(2)] r(3)])
qed

lemma accounts_ready:
  "accounts mode self left self' left' \<Longrightarrow> sound self' \<Longrightarrow> in_block tile self' \<Longrightarrow> phase self' = Done \<or> ready mode tile self'"
  by (auto simp: accounts_def ready_def busy_def)

section \<open>Sessions\<close>

text \<open>What can be done with an executor: it is admitted and created, asked for certificates, and run, under any
  poll answers, tile shapes, allowances and allocators, as often as one likes. The one thing left out is to go on
  after a run that reported a refused tie class: that refusal does not leave a state to resume from (the last
  section shows what it leaves).\<close>

inductive session :: "cbc_execution_mode \<Rightarrow> cbc_problem \<Rightarrow> cbc_executor \<Rightarrow> bool" for mode p where
  created: "cbc_executor_new sizes alloc admission = Ok self \<Longrightarrow> allocator_ok alloc \<Longrightarrow> admission_mode admission = mode \<Longrightarrow>
    admission_problem admission = p \<Longrightarrow> session mode p self"
| certified: "session mode p self \<Longrightarrow> enable_certificates self = Ok self' \<Longrightarrow> session mode p self'"
| ran: "session mode p self \<Longrightarrow> tile_ok tile \<Longrightarrow> (\<And>k. allocator_ok (tile_allocator env k)) \<Longrightarrow>
    run_with_receipt env tile allowance self = Some (self', r) \<Longrightarrow> \<not> ties_refused r \<Longrightarrow> session mode p self'"

lemma loop_exec_inv:
  assumes "loop_result mode tile env self left polls self' left' polls' r"
  shows "exec_inv mode self'" "problem self' = problem self \<or> (\<exists>reason. phase self' = Poisoned reason)"
  using assms by (auto simp: loop_result_def exec_inv_def accounts_def same_plan_def)

lemma enable_inv:
  assumes inv: "exec_inv mode self" and on: "enable_certificates self = Ok self'"
  shows "exec_inv mode self'" "problem self' = problem self"
proof -
  have self': "self' = self\<lparr>certifying := True\<rparr>" "work_spent self = 0" "certificates_admitted self"
    using on by (auto simp: enable_certificates_def split: if_splits)
  show "problem self' = problem self" by (simp add: self')
  show "exec_inv mode self'"
  proof (cases "\<exists>reason. phase self = Poisoned reason")
    case True
    then show ?thesis by (simp add: exec_inv_def self')
  next
    case False
    then have plan: "planned mode self" and pi: "phase_inv self" using inv by (auto simp: exec_inv_def)
    have pos: "0 < prefix_cost self k" for k
      using planned_facts(8) [OF plan] by (induction "k - 1") (auto simp: prefix_cost_def later_cost_total first_units_def)
    have "\<exists>p. phase self = Init p"
      using pi False pos [of "length (zs self)"] pos [of "problem_dimension (problem self)"] self'(2)
      by (cases "phase self") (auto simp: phase_inv_def scanning_def winner_lost_def)
    then obtain p where "phase self = Init p" by blast
    then show ?thesis using plan pi self' by (auto simp: exec_inv_def planned_def phase_inv_def)
  qed
qed

lemma session_inv:
  assumes "session mode p self" "3 \<le> problem_point_count p"
  shows "exec_inv mode self \<and> (problem self = p \<or> (\<exists>reason. phase self = Poisoned reason))"
  using assms(1)
proof (induction rule: session.induct)
  case (created sizes alloc admission self)
  then show ?case
    using executor_starts(1) [OF created(1,2)] executor_starts(2) [OF created(1,2)] assms(2)
    by (auto simp: exec_inv_def ready_def)
next
  case (certified self self')
  then show ?case using enable_inv [of mode self self'] by (auto simp: enable_certificates_def split: if_splits)
next
  case (ran self tile env allowance self' r)
  show ?case
  proof (cases "busy self")
    case False
    then have "self' = self" using ran(4) by (auto simp: busy_def run_with_receipt_def)
    then show ?thesis using ran by simp
  next
    case busy: True
    then have plan: "planned mode self" "phase_inv self" "problem self = p"
      using ran(6) by (auto simp: exec_inv_def busy_def)
    show ?thesis
    proof (cases "cancels env 0 \<or> allowance = 0")
      case True
      then have "self' = self\<lparr>run_transitions := 0\<rparr>"
        using run_stopped [OF busy True, of tile] ran(4) by (simp add: Let_def)
      then show ?thesis using plan by (simp add: exec_inv_def reset_transitions)
    next
      case False
      then have go: "\<not> cancels env 0" "0 < allowance" by simp_all
      obtain left' polls' r' where
        "loop_result mode tile (granting_env env) (self\<lparr>run_transitions := 0\<rparr>) allowance 1 self' left' polls' r'"
        by (rule run_enters_granting [OF ran(2) plan(1,2) busy ran(3) go]) (use ran(4,5) in auto)
      from loop_exec_inv [OF this] show ?thesis using plan(3) by simp
    qed
  qed
qed

lemma done_lattice:
  assumes "session mode p self" "3 \<le> problem_point_count p" "into_lattice self = Some l"
  shows "l = (problem_point_count p, zs self)" "greedy_prefix (problem_point_count p) (zs self)"
    "length (zs self) = problem_dimension p" "emitted (problem_point_count p) (certifying self) (zs self) (certificates self)"
    "work_spent self = prefix_cost self (problem_dimension p)" "planned mode self" "problem self = p"
  using session_inv [OF assms(1,2)] assms(3)
  by (auto simp: into_lattice_def exec_inv_def phase_inv_def chosen_def split: if_splits)

lemma done_work:
  assumes "session mode p self" "3 \<le> problem_point_count p" "into_lattice self = Some l"
  shows "work_spent self \<le> admitted_work self"
  using session_inv [OF assms(1,2)] assms(3) phase_work [of mode self]
  by (auto simp: into_lattice_def exec_inv_def split: if_splits)

section \<open>Completion a tile at a time\<close>

text \<open>An executor with an ample allowance and allocators that grant all, run a tile at a time, completes.\<close>

definition one_tile_env :: run_env where
  "one_tile_env = \<lparr>cancels = \<lambda>k. k \<noteq> 0,
     tile_allocator = \<lambda>_. \<lparr>grants = \<lambda>_ _ _. True, granted_capacity = id\<rparr>, panic_reason = []\<rparr>"

lemma one_tile_env_ok: "env_ok one_tile_env self" "grants_all (tile_allocator one_tile_env k)"
  by (simp_all add: one_tile_env_def env_ok_def allocator_ok_def reserves_ties_def grants_all_def)

lemma one_tile_allocators: "allocator_ok (tile_allocator one_tile_env k)"
  using one_tile_env_ok(1) by (simp add: env_ok_def)

lemma ample_terminal:
  assumes acc: "accounts mode self allowance self' left'" and t: "terminal_ok env self' left' polls' r"
    and ample: "admitted_work self \<le> work_spent self + allowance" and grants: "\<And>k. grants_all (tile_allocator env k)"
  shows "resumable r \<or> r = Panicked \<and> polls' = u32_max"
proof -
  have e: "admitted_work self' = admitted_work self" "left' + work_spent self' = allowance + work_spent self"
    using acc by (simp_all add: accounts_def same_plan_def)
  show ?thesis
  proof (cases r)
    case (Ok status)
    then show ?thesis using t e ample by (cases status) (auto simp: terminal_ok_def resumable_def)
  qed (use t grants in \<open>auto simp: terminal_ok_def\<close>)
qed

lemma one_tile_run:
  assumes ready: "ready mode tile self" and tile: "tile_ok tile"
  obtains self' status receipt where
    "run_with_receipt one_tile_env tile (admitted_work self) self = Some (self', Ok (status, receipt))"
    "phase self' = Done \<or> ready mode tile self'" "(self', self) \<in> tile_order" "certifying self' = certifying self"
    "0 < admitted_work self"
proof -
  have work: "work_spent self < admitted_work self" using ready unfolding ready_def by (blast intro: phase_work_strict)
  have entry: "\<not> cancels one_tile_env 0" "0 < admitted_work self" using work by (simp_all add: one_tile_env_def)
  obtain self' left' polls' r where
    r: "run_with_receipt one_tile_env tile (admitted_work self) self
        = Some (self', with_receipt self self' (admitted_work self) left' polls' r)"
    "accounts mode self (admitted_work self) self' left'" "terminal_ok one_tile_env self' left' polls' r"
    "resumable r \<or> \<not> certifying self \<longrightarrow> sound self' \<and> in_block tile self'" "resumable r \<longrightarrow> (self', self) \<in> tile_order"
    "\<forall>k. 1 \<le> k \<and> k + 1 < polls' \<longrightarrow> \<not> cancels one_tile_env k"
    by (rule ready_run [OF ready tile one_tile_env_ok(1) entry])
  have "polls' \<noteq> u32_max" using spec [OF r(6), of 1] by (auto simp: one_tile_env_def u32_max_def)
  then have res: "resumable r" using ample_terminal [OF r(2,3)] one_tile_env_ok(2) by auto
  then obtain status where "r = Ok status" by (auto simp: resumable_def)
  then have "run_with_receipt one_tile_env tile (admitted_work self) self
      = Some (self', Ok (status, receipt_of self self' (admitted_work self) left' polls' status))"
    using r(1) by (simp add: with_receipt_def)
  moreover have "certifying self' = certifying self" using r(2) by (simp add: accounts_def same_plan_def)
  moreover have "phase self' = Done \<or> ready mode tile self'" using accounts_ready [OF r(2)] r(4) res by blast
  ultimately show thesis using that r(5) res entry(2) by blast
qed

lemma session_completes:
  "session mode p self \<Longrightarrow> ready mode tile self \<Longrightarrow> tile_ok tile \<Longrightarrow>
    \<exists>self'. session mode p self' \<and> phase self' = Done \<and> certifying self' = certifying self"
  using tile_order_wf
proof (induction self rule: wf_induct_rule)
  case (less self)
  obtain self' status receipt where
    r: "run_with_receipt one_tile_env tile (admitted_work self) self = Some (self', Ok (status, receipt))"
    "phase self' = Done \<or> ready mode tile self'" "(self', self) \<in> tile_order" "certifying self' = certifying self"
    by (rule one_tile_run [OF less.prems(2,3)])
  have s: "session mode p self'" by (rule session.ran [OF less.prems(1,3) one_tile_allocators r(1)]) simp
  show ?case
  proof (cases "phase self' = Done")
    case True
    then show ?thesis using s r(4) by blast
  next
    case False
    then show ?thesis using less.IH [OF r(3) s _ less.prems(3)] r(2,4) by auto
  qed
qed

section \<open>Series of runs\<close>

text \<open>The executor after the first runs of a series, each with its own polls, allocators and allowance.\<close>

primrec rerun :: "(nat \<Rightarrow> run_env) \<Rightarrow> cbc_tile_shape \<Rightarrow> (nat \<Rightarrow> nat) \<Rightarrow> cbc_executor \<Rightarrow> nat \<Rightarrow> cbc_executor option" where
  "rerun envs tile allowances self 0 = Some self"
| "rerun envs tile allowances self (Suc i) =
    Option.bind (rerun envs tile allowances self i)
      (\<lambda>self. map_option fst (run_with_receipt (envs i) tile (allowances i) self))"

definition interrupted :: "(cbc_exec_error, cbc_run_status \<times> cbc_run_receipt) outcome \<Rightarrow> bool" where
  "interrupted r \<longleftrightarrow> (\<exists>b receipt. r = Ok (Cancelled b, receipt) \<or> r = Ok (AllowanceExhausted b, receipt))"

text \<open>How a run ends that is not interrupted: it completes, or needs more than an allowance below the admitted
  work, or was refused storage, or had no cancellation among the polls its 32-bit counter can count.\<close>

definition ends_run :: "run_env \<Rightarrow> nat \<Rightarrow> nat \<Rightarrow> cbc_executor \<Rightarrow> (cbc_exec_error, cbc_run_status \<times> cbc_run_receipt) outcome \<Rightarrow> bool" where
  "ends_run env allowance units self' r \<longleftrightarrow>
    (\<exists>receipt. r = Ok (Completed, receipt)) \<and> is_complete self'
    \<or> (\<exists>b least receipt. r = Ok (NeedAllowance b least, receipt)) \<and> allowance < units
    \<or> (\<exists>q. r = Err (Storage q)) \<and> (\<exists>k. \<not> grants_all (tile_allocator env k))
    \<or> r = Panicked \<and> (\<forall>k. 0 < k \<and> k + 1 < u32_max \<longrightarrow> \<not> cancels env k)"

lemma next_run:
  assumes ready: "ready mode tile self" and tile: "tile_ok tile" and alloc: "\<And>k. allocator_ok (tile_allocator env k)"
    and entry: "\<not> cancels env 0" "0 < allowance"
  obtains self' r where "run_with_receipt env tile allowance self = Some (self', r)"
    "interrupted r \<and> ready mode tile self' \<and> (self', self) \<in> tile_order \<and> admitted_work self' = admitted_work self
     \<or> ends_run env allowance (admitted_work self) self' r"
proof -
  have rd: "planned mode self" "phase_inv self" "busy self" using ready by (simp_all add: ready_def)
  show thesis
  proof (rule run_enters_granting [OF tile rd alloc entry])
    fix a r assume a: "run_with_receipt env tile allowance self = Some (a, r)" "ties_refused r"
    have "\<exists>k. \<not> grants_all (tile_allocator env k)"
    proof (rule ccontr)
      assume "\<not> ?thesis"
      then have all: "\<And>k. grants_all (tile_allocator env k)" by blast
      then have "env_ok env self" using alloc by (simp add: env_ok_def reserves_ties_def grants_all_def)
      then obtain b left' polls' r' where "run_with_receipt env tile allowance self = Some (b, with_receipt self b allowance left' polls' r')"
        "terminal_ok env b left' polls' r'"
        by (rule ready_run [OF ready tile _ entry])
      then show False using a all by (cases r') (auto simp: with_receipt_def terminal_ok_def)
    qed
    then show thesis using that [OF a(1)] a(2) by (auto simp: ends_run_def ties_refused_def)
  next
    fix a left' polls' r
    assume run: "run_with_receipt env tile allowance self = Some (a, with_receipt self a allowance left' polls' r)"
      and res: "loop_result mode tile (granting_env env) (self\<lparr>run_transitions := 0\<rparr>) allowance 1 a left' polls' r"
    note l = ready_loop [OF ready res]
    have t: "terminal_ok env a left' polls' r" by (rule terminal_granting [OF l(2)])
    have e: "admitted_work a = admitted_work self" "left' + work_spent a = allowance + work_spent self"
      using l(1) by (simp_all add: accounts_def same_plan_def)
    have goes: "interrupted (with_receipt self a allowance left' polls' r) \<and> ready mode tile a \<and> (a, self) \<in> tile_order
        \<and> admitted_work a = admitted_work self"
      if "resumable r" "busy a"
      using that accounts_ready [OF l(1)] l(3,4) t e(1)
      by (auto simp: resumable_def interrupted_def with_receipt_def busy_def terminal_ok_def)
    have "resumable r \<and> busy a \<or> ends_run env allowance (admitted_work self) a (with_receipt self a allowance left' polls' r)"
    proof (cases r)
      case (Ok status)
      then show ?thesis using t e
        by (cases status) (auto simp: resumable_def ends_run_def with_receipt_def terminal_ok_def is_complete_def)
    next
      case (Err x)
      then show ?thesis using t by (simp add: ends_run_def with_receipt_def terminal_ok_def)
    next
      case Panicked
      then show ?thesis using t l(5) by (simp add: ends_run_def with_receipt_def terminal_ok_def Suc_le_eq)
    qed
    with goes that [OF run] show thesis by blast
  qed
qed

lemma run_busy: "run_with_receipt env tile allowance self = Some (self', r) \<Longrightarrow> interrupted r \<Longrightarrow> busy self"
  by (cases "phase self") (auto simp: run_with_receipt_def busy_def interrupted_def)

lemma rerun_shift:
  assumes "run_with_receipt (envs 0) tile (allowances 0) self = Some (self', r)"
  shows "rerun envs tile allowances self (Suc i) = rerun (\<lambda>j. envs (Suc j)) tile (\<lambda>j. allowances (Suc j)) self' i"
  by (induction i) (simp_all add: assms)

text \<open>A series of runs of an executor that is ready to run: all interrupted, up to one that is not.\<close>

definition series_ends :: "(nat \<Rightarrow> run_env) \<Rightarrow> cbc_tile_shape \<Rightarrow> (nat \<Rightarrow> nat) \<Rightarrow> cbc_executor \<Rightarrow> bool" where
  "series_ends envs tile allowances self \<longleftrightarrow>
    (\<exists>i a self' r. rerun envs tile allowances self i = Some a \<and> run_with_receipt (envs i) tile (allowances i) a = Some (self', r)
      \<and> ends_run (envs i) (allowances i) (admitted_work self) self' r
      \<and> (\<forall>j < i. \<exists>b b' r'. rerun envs tile allowances self j = Some b
           \<and> run_with_receipt (envs j) tile (allowances j) b = Some (b', r') \<and> interrupted r'))"

lemma series_ends_later:
  assumes run: "run_with_receipt (envs 0) tile (allowances 0) self = Some (self', r)" and stop: "interrupted r"
    and units: "admitted_work self' = admitted_work self"
    and rest: "series_ends (\<lambda>j. envs (Suc j)) tile (\<lambda>j. allowances (Suc j)) self'"
  shows "series_ends envs tile allowances self"
proof -
  note shift = rerun_shift [of envs tile allowances self self' r, OF run]
  obtain i a b q where i: "rerun (\<lambda>j. envs (Suc j)) tile (\<lambda>j. allowances (Suc j)) self' i = Some a"
    "run_with_receipt (envs (Suc i)) tile (allowances (Suc i)) a = Some (b, q)"
    "ends_run (envs (Suc i)) (allowances (Suc i)) (admitted_work self) b q"
    "\<forall>j < i. \<exists>c c' r'. rerun (\<lambda>j. envs (Suc j)) tile (\<lambda>j. allowances (Suc j)) self' j = Some c
       \<and> run_with_receipt (envs (Suc j)) tile (allowances (Suc j)) c = Some (c', r') \<and> interrupted r'"
    using rest unfolding series_ends_def units by blast
  have before: "\<exists>c c' r'. rerun envs tile allowances self j = Some c
      \<and> run_with_receipt (envs j) tile (allowances j) c = Some (c', r') \<and> interrupted r'" if "j < Suc i" for j
  proof (cases j)
    case 0
    then show ?thesis using run stop by auto
  next
    case (Suc k)
    then show ?thesis using i(4) that unfolding Suc shift by simp
  qed
  show ?thesis unfolding series_ends_def
    by (intro exI [of _ "Suc i"] exI [of _ a] exI [of _ b] exI [of _ q] conjI allI impI before; (assumption)?)
      (simp_all only: shift i)
qed

lemma ready_series_ends:
  "ready mode tile self \<Longrightarrow> tile_ok tile \<Longrightarrow> (\<forall>i k. allocator_ok (tile_allocator (envs i) k)) \<Longrightarrow>
    (\<forall>i. \<not> cancels (envs i) 0 \<and> 0 < allowances i) \<Longrightarrow> series_ends envs tile allowances self"
  using tile_order_wf
proof (induction self arbitrary: envs allowances rule: wf_induct_rule)
  case (less self)
  note tile = less.prems(2)
  have env: "\<And>k. allocator_ok (tile_allocator (envs 0) k)" "\<not> cancels (envs 0) 0" "0 < allowances 0"
    using less.prems(3,4) by simp_all
  obtain self' r where run: "run_with_receipt (envs 0) tile (allowances 0) self = Some (self', r)"
    "interrupted r \<and> ready mode tile self' \<and> (self', self) \<in> tile_order \<and> admitted_work self' = admitted_work self
     \<or> ends_run (envs 0) (allowances 0) (admitted_work self) self' r"
    by (rule next_run [OF less.prems(1) tile env])
  from run(2) show ?case
  proof
    assume on: "interrupted r \<and> ready mode tile self' \<and> (self', self) \<in> tile_order \<and> admitted_work self' = admitted_work self"
    then have "series_ends (\<lambda>j. envs (Suc j)) tile (\<lambda>j. allowances (Suc j)) self'"
      using less.IH [of self'] tile less.prems(3,4) by simp
    with on series_ends_later [of envs tile allowances self self' r, OF run(1)] show ?thesis by blast
  next
    assume "ends_run (envs 0) (allowances 0) (admitted_work self) self' r"
    then show ?thesis using run(1) unfolding series_ends_def by (intro exI [of _ 0]) auto
  qed
qed

section \<open>Admission, creation and the run of the facade\<close>

text \<open>Admission refuses, but does not panic.\<close>

lemma need_no_panic: "(\<And>x. v = Some x \<Longrightarrow> k x \<noteq> Panicked) \<Longrightarrow> need q v k \<noteq> Panicked"
  by (simp add: need_def split: option.split)

lemma try_no_panic: "r \<noteq> Panicked \<Longrightarrow> (\<And>x. k x \<noteq> Panicked) \<Longrightarrow> try_ok r k \<noteq> Panicked"
  by (cases r) (simp_all add: try_ok_def)

lemma bound_no_panic: "k \<noteq> Panicked \<Longrightarrow> target_bound q required limit k \<noteq> Panicked"
  by (simp add: target_bound_def)

lemma Ok_no_panic: "Ok x \<noteq> Panicked"
  by simp

lemma estimate_no_panic: "estimate_for sizes p mode \<noteq> Panicked"
  unfolding estimate_for_def operand_widths_def checked_schedule_def schedule_counts_def prefix_payload_def checked_triangular_def
    state_bytes_def target_bounds_def scheduled_work_def Let_def
  by (cases mode; simp only: cbc_execution_mode.case; intro need_no_panic try_no_panic bound_no_panic Ok_no_panic;
      simp add: need_no_panic try_no_panic)

lemma admit_cases:
  "(\<exists>e. admit_for sizes p mode budget = Err e)
   \<or> (\<exists>a. admit_for sizes p mode budget = Ok a \<and> has_current_authority sizes a \<and> admission_mode a = mode \<and> admission_problem a = p)"
proof (cases "estimate_for sizes p mode")
  case (Ok est)
  then obtain w counts bytes work where "estimate_from sizes p mode est w counts bytes work"
    by (rule estimate_parts)
  then have "estimate_mode est = mode" unfolding estimate_from_def Let_def by blast
  then show ?thesis using Ok by (auto simp: admit_for_def try_ok_def has_current_authority_def)
qed (use estimate_no_panic [of sizes p mode] in \<open>simp_all add: admit_for_def try_ok_def\<close>)

lemma new_executor_cases:
  assumes "has_current_authority sizes admission"
  shows "(\<exists>self. cbc_executor_new sizes alloc admission = Ok self)
    \<or> (\<exists>q. cbc_executor_new sizes alloc admission = Err (Storage q)) \<and> \<not> grants_all alloc"
  using assms
  by (auto simp: cbc_executor_new_def refusal_def grants_all_def Let_def find_Some_iff split: option.split)

lemma problem_new_points: "cbc_problem_new n d = Ok p \<Longrightarrow> 3 \<le> n \<and> p = \<lparr>problem_point_count = n, problem_dimension = d\<rparr>"
  by (auto simp: cbc_problem_new_def not_less split: if_splits)

definition facade_tile :: cbc_tile_shape where
  "facade_tile = \<lparr>candidate_block = 64, point_block = 64, limb_block = 64\<rparr>"

lemma facade_tile_shape: "tile_shape_new CBC_FACADE_CANDIDATE_BLOCK CBC_FACADE_POINT_BLOCK = Ok facade_tile" "tile_ok facade_tile"
  by (simp_all add: tile_shape_new_def with_limbs_def DEFAULT_LIMB_BLOCK_def CBC_FACADE_CANDIDATE_BLOCK_def
      CBC_FACADE_POINT_BLOCK_def facade_tile_def tile_ok_def)

text \<open>The run of the facade, from the executor it creates.\<close>

lemma facade_run:
  assumes ready: "ready Construction facade_tile self" and off: "\<not> certifying self" and w: "work_spent self = 0" "admitted_work self = units"
    and alloc: "\<And>k. allocator_ok (tile_allocator env k)"
  obtains self' r where "run (env\<lparr>cancels := \<lambda>_. False\<rparr>) facade_tile units self = Some (self', r)"
    "r = Ok Completed \<and> phase self' = Done \<and> phase_inv self' \<and> problem self' = problem self
     \<or> (\<exists>q. r = Err (Storage q)) \<and> (\<exists>k. \<not> grants_all (tile_allocator env k))
     \<or> r = Panicked \<and> (\<exists>left. run_loop (env\<lparr>cancels := \<lambda>_. False\<rparr>) facade_tile 0 1 (self\<lparr>run_transitions := 0\<rparr>) units
         = Some (self', left, u32_max, Panicked))"
proof -
  let ?env = "env\<lparr>cancels := \<lambda>_. False\<rparr>"
  have env: "env_ok ?env self" using alloc off by (simp add: env_ok_def reserves_ties_def)
  have "work_spent self < admitted_work self" using ready unfolding ready_def by (blast intro: phase_work_strict)
  then have entry: "\<not> cancels ?env 0" "0 < units" using w by simp_all
  obtain self' left' polls' r where
    r: "run_with_receipt ?env facade_tile units self = Some (self', with_receipt self self' units left' polls' r)"
    "accounts Construction self units self' left'" "terminal_ok ?env self' left' polls' r"
    "resumable r \<or> \<not> certifying self \<longrightarrow> sound self' \<and> in_block facade_tile self'"
    "run_loop ?env facade_tile 0 1 (self\<lparr>run_transitions := 0\<rparr>) units = Some (self', left', polls', r)"
    by (rule ready_run [OF ready facade_tile_shape(2) env entry])
  have e: "admitted_work self' = units" "left' + work_spent self' = units" "planned Construction self'" "phase_inv self'" "sound self'"
    "problem self' = problem self"
    using r(2,4) w off by (simp_all add: accounts_def same_plan_def)
  have out: "run ?env facade_tile units self = Some (self', r)"
    using r(1) by (cases r) (simp_all add: run_def with_receipt_def)
  have "r = Ok Completed \<and> phase self' = Done \<or> (\<exists>q. r = Err (Storage q)) \<and> (\<exists>k. \<not> grants_all (tile_allocator env k))
      \<or> r = Panicked \<and> polls' = u32_max"
  proof (cases r)
    case (Ok status)
    have "work_spent self' < units" if "busy self'" using phase_work_strict [OF e(3,4) that e(5)] e(1) by simp
    then show ?thesis using Ok r(3) e(1,2) by (cases status) (auto simp: terminal_ok_def)
  qed (use r(3) in \<open>auto simp: terminal_ok_def\<close>)
  with that [OF out] r(5) e show thesis by blast
qed

section \<open>A small problem\<close>

text \<open>Three points in two dimensions, on which the properties are applied.\<close>

definition small_sizes :: owner_sizes where
  "small_sizes = \<lparr>exact_nat_size = 24, executor_size = 512, certificate_size = 128\<rparr>"

definition small_problem :: cbc_problem where
  "small_problem = \<lparr>problem_point_count = 3, problem_dimension = 2\<rparr>"

definition small_budget :: cbc_budget where
  "small_budget = \<lparr>max_work_units = 100000, max_memory_bytes = 100000\<rparr>"

lemmas small_arith = need_def try_ok_def target_bound_def mul128_def add128_def checked_mul_def checked_add_def checked_sub_def
  u128_max_def u64_max_def u32_max_def isize_max_def Let_def

lemma small_widths: "operand_widths 3 2 1 = Ok \<lparr>w_kernel_upper = 63, w_kernel_bits = 6, w_kernel_limbs = 1, w_product_bits = 12,
    w_product_limbs = 1, w_source_limbs = 1, w_score_bits = 14, w_score_limbs = 1, w_product_capacity = 3, w_score_capacity = 3\<rparr>"
  by (simp add: operand_widths_def small_arith limbs_for_bits_def ceil_log2_def bit_width.simps)

lemma small_totient: "euler_totient 3 = 2"
  by (simp add: euler_totient_def totient_loop.simps)

lemma small_admitted: "\<exists>a. admit_for small_sizes small_problem mode small_budget = Ok a"
  unfolding admit_for_def estimate_for_def small_problem_def small_budget_def small_sizes_def
  by (cases mode) (simp_all add: small_widths [unfolded One_nat_def] small_totient small_arith checked_schedule_def schedule_counts_def state_bytes_def
      target_bounds_def scheduled_work_def prefix_payload_def checked_triangular_def checked_limb_upper_bound_def
      checked_scalar_upper_bound_def checked_upper_bound_def checked_certificate_upper_bound_def add_product_def
      ceil_log2_def bit_width.simps SCALAR_UNITS_PER_LATTICE_VISIT_def SCALAR_UNITS_PER_FACTOR_def SCALAR_UNITS_PER_FACTOR_LIMB_def
      SCALAR_UNITS_PER_GCD_STEP_def SCALAR_UNITS_PER_CANDIDATE_def SCALAR_UNITS_PER_DIMENSION_def CERTIFICATE_UNITS_PER_CANDIDATE_def
      CERTIFICATE_FIXED_UNITS_PER_PREFIX_def LIMB_BYTES_def FACTOR_SCRATCH_BYTES_def)

lemma small_executor:
  "\<exists>alloc a self. admit_for small_sizes small_problem mode small_budget = Ok a \<and> allocator_ok alloc
     \<and> cbc_executor_new small_sizes alloc a = Ok self \<and> admission_mode a = mode \<and> admission_problem a = small_problem"
proof -
  let ?alloc = "tile_allocator one_tile_env 0"
  obtain a where a: "admit_for small_sizes small_problem mode small_budget = Ok a" using small_admitted by blast
  then have "has_current_authority small_sizes a" "admission_mode a = mode" "admission_problem a = small_problem"
    using admit_cases [of small_sizes small_problem mode small_budget] by auto
  moreover have "allocator_ok ?alloc" using one_tile_env_ok(1) by (simp add: env_ok_def)
  ultimately show ?thesis using a new_executor_cases [of small_sizes a ?alloc] one_tile_env_ok(2) by blast
qed

lemma small_points: "3 \<le> problem_point_count small_problem" "problem_dimension small_problem = 2" "problem_point_count small_problem = 3"
  by (simp_all add: small_problem_def)

lemma small_ready:
  "\<exists>self. session mode small_problem self \<and> ready mode facade_tile self \<and> work_spent self = 0 \<and> phase self = Init 0
     \<and> certifying self = (mode = Certified)"
proof -
  obtain alloc a self where s: "allocator_ok alloc" "cbc_executor_new small_sizes alloc a = Ok self"
    "admission_mode a = mode" "admission_problem a = small_problem"
    using small_executor by blast
  have n: "3 \<le> problem_point_count (admission_problem a)" using s(4) small_points by simp
  note st = executor_starts [OF s(2,1) n]
  have new: "session mode small_problem self" by (rule session.created [OF s(2,1,3,4)])
  have rd: "ready mode facade_tile self" using st(1) s(3) by simp
  show ?thesis
  proof (cases mode)
    case Construction
    then show ?thesis using new rd st by auto
  next
    case Certified
    let ?on = "self\<lparr>certifying := True\<rparr>"
    have adm: "certificates_admitted self" using st(7) s(3) Certified by simp
    then have "enable_certificates self = Ok ?on" using st(3) by (simp add: enable_certificates_def)
    then have "session mode small_problem ?on" by (rule session.certified [OF new])
    moreover have "ready mode facade_tile ?on" by (rule certifying_ready [OF rd st(3) adm st(6)])
    ultimately show ?thesis using st(3,6) Certified by auto
  qed
qed

lemma small_completes:
  obtains self z where "session mode small_problem self" "into_lattice self = Some (3, z)" "certifying self = (mode = Certified)"
proof -
  obtain self where s: "session mode small_problem self" "ready mode facade_tile self" "certifying self = (mode = Certified)"
    using small_ready by blast
  obtain a where a: "session mode small_problem a" "phase a = Done" "certifying a = certifying self"
    using session_completes [OF s(1,2) facade_tile_shape(2)] by blast
  have l: "into_lattice a = Some (exec_n a, zs a)" using a(2) by (simp add: into_lattice_def)
  have "into_lattice a = Some (3, zs a)" using l done_lattice(1) [OF a(1) small_points(1) l] small_points(3) by simp
  with that a(1,3) s(3) show thesis by simp
qed

section \<open>Properties\<close>

text \<open>C4. An executor of a problem of three points or more (what the constructor of problems demands) is created,
  asked for certificates or not, and run any number of times, under any polls, tile shapes, allowances and allocators,
  and not run again once a run of it reported that the tie class of a scan, which only a certifying executor reserves,
  was refused. If it completes, it holds one component per dimension: the first is one, and each later one is
  the lowest of the units that minimise the exact score of the prefix it extends.\<close>

theorem completed_lattice_is_greedy:
  assumes "session mode p self" "3 \<le> problem_point_count p" "into_lattice self = Some (n, z)"
  shows "n = problem_point_count p \<and> length z = problem_dimension p \<and> z \<noteq> [] \<and> hd z = 1
    \<and> (\<forall>k. 0 < k \<and> k < length z \<longrightarrow> unit_mod n (z ! k)
         \<and> (\<forall>d. unit_mod n d \<longrightarrow> score_of n (take k z) (z ! k) \<le> score_of n (take k z) d
              \<and> (score_of n (take k z) d = score_of n (take k z) (z ! k) \<longrightarrow> z ! k \<le> d)))"
  using done_lattice(1-3) [OF assms] by (simp add: greedy_prefix_def greedy_choice_def)

theorem completed_lattice_is_greedy_witness:
  "\<exists>self. session Construction small_problem self \<and> into_lattice self = Some (3, [1, 1])"
proof -
  obtain self z where s: "session Construction small_problem self" "into_lattice self = Some (3, z)"
    by (rule small_completes [of Construction])
  note t = completed_lattice_is_greedy [OF s(1) small_points(1) s(2), unfolded small_points]
  then have z: "length z = 2" "hd z = 1" by blast+
  then obtain c where c: "z = [1, c]" by (cases z; cases "tl z") auto
  have "unit_mod 3 (z ! 1)" "unit_mod 3 1 \<longrightarrow> score_of 3 (take 1 z) (z ! 1) \<le> score_of 3 (take 1 z) 1
      \<and> (score_of 3 (take 1 z) 1 = score_of 3 (take 1 z) (z ! 1) \<longrightarrow> z ! 1 \<le> 1)"
    using t z(1) by auto
  then have g: "unit_mod 3 c" "unit_mod 3 1" "score_of 3 [1] 1 = score_of 3 [1] c \<longrightarrow> c \<le> 1"
    using one_is_unit [of 3] by (simp_all add: c)
  then have "0 < unat c" "unat c < 3" by (simp_all add: unit_mod_def word_less_nat_alt unat_gt_0)
  then have "unat c = 1 \<or> unat c = 2" by arith
  then have "c = 1 \<or> c = 2" by (simp add: word_unat_eq_iff)
  moreover have "score_of 3 [1] 1 = score_of 3 [1] 2"
  proof -
    have "exact_score 3 [1, 1] = exact_score 3 [1, 2]"
      by (simp add: exact_score_def point_product_def kernel_def lessThan_nat_numeral lessThan_Suc)
    then show ?thesis by (simp add: score_of_def)
  qed
  ultimately have "c = 1" using g(3) by (auto simp: word_le_nat_alt)
  then show ?thesis using s c by blast
qed

text \<open>C5. A certifying executor of three points or more that completes, in a session as before (not
  resumed after a refused tie class), has published one certificate for each component after the first, each of
  the prefix that ends in it, and the checker accepts every one of them.\<close>

theorem completed_certificates_accepted:
  assumes "session mode p self" "3 \<le> problem_point_count p" "into_lattice self = Some (n, z)" "certifying self"
  shows "length (certificates self) + 1 = length z
    \<and> (\<forall>i < length (certificates self). prefix (certificates self ! i) = take (i + 2) z
         \<and> point_count (certificates self ! i) = n \<and> audit_minimality (certificates self ! i) = Some (Ok ()))"
proof -
  note d = done_lattice [OF assms(1-3)]
  have z: "z = zs self" "n = problem_point_count p" using d(1) by simp_all
  have "length (certificates self) + 1 = length z
      \<and> (\<forall>i < length (certificates self). certified_for n (take (i + 2) z) (certificates self ! i))"
    using d(4) unfolding z emitted_def if_P [OF assms(4)] .
  then show ?thesis using certified_audit by (auto simp: certified_for_def)
qed

theorem completed_certificates_accepted_witness:
  "\<exists>self cert. session Certified small_problem self \<and> certificates self = [cert] \<and> audit_minimality cert = Some (Ok ())"
proof -
  obtain self z where s: "session Certified small_problem self" "into_lattice self = Some (3, z)" "certifying self"
    using small_completes [of Certified] by metis
  note t = completed_certificates_accepted [OF s(1) small_points(1) s(2,3)]
  have "length z = 2" using done_lattice(1,3) [OF s(1) small_points(1) s(2)] small_points(2) by simp
  then have len: "length (certificates self) = 1" using t by simp
  then obtain c where "certificates self = [c]" by (cases "certificates self") auto
  then show ?thesis using t s(1) by auto
qed

text \<open>C6. The lattice does not depend on how the construction was run: any two executors of a problem
  of three points or more that complete, each in a session as before (not resumed after a refused tie class), hold the
  same one, whether they produced certificates or not. One that completes has spent at most the work admitted
  for it, and all of it if it was admitted without certificates, or was admitted for certificates and made them.\<close>

theorem schedules_agree:
  assumes "session mode p a" "session mode' p b" "3 \<le> problem_point_count p"
    and "into_lattice a = Some l" "into_lattice b = Some l'"
  shows "l = l' \<and> work_spent a \<le> admitted_work a
    \<and> (mode = Construction \<or> certifying a \<longrightarrow> work_spent a = admitted_work a)"
proof -
  note a = done_lattice [OF assms(1,3,4)] and b = done_lattice [OF assms(2,3,5)]
  have "zs a = zs b" using greedy_prefix_unique [OF a(2) b(2)] a(3) b(3) by simp
  moreover have "mode = Construction \<or> certifying a \<longrightarrow> certifying a = (mode = Certified)"
    using a(6) by (cases mode) (auto simp: planned_def)
  then have "mode = Construction \<or> certifying a \<longrightarrow> work_spent a = admitted_work a"
    using planned_cost(2) [OF a(6)] a(5,7) by (cases mode) auto
  moreover have "work_spent a \<le> admitted_work a" by (rule done_work [OF assms(1,3,4)])
  ultimately show ?thesis using a(1) b(1) by simp
qed

theorem schedules_agree_witness:
  "\<exists>a b l. session Construction small_problem a \<and> session Certified small_problem b
     \<and> into_lattice a = Some l \<and> into_lattice b = Some l \<and> work_spent a = admitted_work a"
proof -
  obtain a z where a: "session Construction small_problem a" "into_lattice a = Some (3, z)" "\<not> certifying a"
    using small_completes [of Construction] by (metis cbc_execution_mode.distinct(1))
  obtain b z' where b: "session Certified small_problem b" "into_lattice b = Some (3, z')"
    using small_completes [of Certified] by metis
  from schedules_agree [OF a(1) b(1) small_points(1) a(2) b(2)] a b show ?thesis by auto
qed

text \<open>C8. No series of interrupted runs is endless. An executor of three points or more is created and, if it was
  admitted for certificates, possibly asked for them; then it is run over and over under one tile shape with no zero
  block, each run with its own polls, allocators (which report at least what they granted) and allowance. As long as
  no run is cancelled at its entry or given no allowance, finitely many runs are cancelled or exhaust their
  allowance, and the next one ends otherwise: it completes the executor; or it needs more allowance, which happens
  only to a run given less than the admitted work; or its storage was refused by an allocator that does not
  grant all; or it panics, which happens only if no poll a 32-bit counter can count, past the entry, cancels.\<close>

theorem interrupted_runs_end:
  assumes "cbc_executor_new sizes alloc admission = Ok created" "allocator_ok alloc"
    and "3 \<le> problem_point_count (admission_problem admission)"
    and "self = created \<or> enable_certificates created = Ok self"
    and "tile_ok tile" "\<And>i k. allocator_ok (tile_allocator (envs i) k)"
    and "\<And>i. \<not> cancels (envs i) 0" "\<And>i. 0 < allowances i"
  shows "\<exists>i a self' r. rerun envs tile allowances self i = Some a
    \<and> run_with_receipt (envs i) tile (allowances i) a = Some (self', r)
    \<and> ends_run (envs i) (allowances i) (admitted_work self) self' r
    \<and> (\<forall>j < i. \<exists>b b' r'. rerun envs tile allowances self j = Some b
         \<and> run_with_receipt (envs j) tile (allowances j) b = Some (b', r') \<and> interrupted r')"
proof -
  note st = executor_starts [OF assms(1,2,3)]
  have "ready (admission_mode admission) tile self"
    using assms(4) st(1) certifying_ready [OF st(1,3) _ st(6)]
    by (auto simp: enable_certificates_def split: if_splits)
  then show ?thesis using ready_series_ends [of _ tile self envs allowances] assms(5-8) unfolding series_ends_def by blast
qed

theorem interrupted_runs_end_witness:
  "\<exists>sizes alloc a self created i b self' receipt. cbc_executor_new sizes alloc a = Ok created
     \<and> enable_certificates created = Ok self
     \<and> rerun (\<lambda>_. one_tile_env) facade_tile (\<lambda>_. admitted_work self) self i = Some b
     \<and> run_with_receipt one_tile_env facade_tile (admitted_work self) b = Some (self', Ok (Completed, receipt))
     \<and> is_complete self'"
proof -
  obtain alloc a created where c: "allocator_ok alloc" "cbc_executor_new small_sizes alloc a = Ok created"
    "admission_mode a = Certified" "admission_problem a = small_problem"
    using small_executor by blast
  have n: "3 \<le> problem_point_count (admission_problem a)" using c(4) small_points by simp
  note st = executor_starts [OF c(2,1) n]
  let ?self = "created\<lparr>certifying := True\<rparr>"
  have adm: "certificates_admitted created" using st(7) c(3) by simp
  then have on: "enable_certificates created = Ok ?self" using st(3) by (simp add: enable_certificates_def)
  have "ready Certified facade_tile created" using st(1) c(3) by simp
  then have "0 < admitted_work ?self" using one_tile_run [OF _ facade_tile_shape(2)] by fastforce
  moreover have "\<not> cancels one_tile_env 0" "cancels one_tile_env 1" by (simp_all add: one_tile_env_def)
  ultimately obtain i b self' r where r: "rerun (\<lambda>_. one_tile_env) facade_tile (\<lambda>_. admitted_work ?self) ?self i = Some b"
    "run_with_receipt one_tile_env facade_tile (admitted_work ?self) b = Some (self', r)"
    "ends_run one_tile_env (admitted_work ?self) (admitted_work ?self) self' r"
    using interrupted_runs_end [OF c(2,1) n disjI2 [OF on] facade_tile_shape(2),
        where envs = "\<lambda>_. one_tile_env" and allowances = "\<lambda>_. admitted_work ?self"] one_tile_allocators
    by blast
  have "\<exists>k. 0 < k \<and> k + 1 < u32_max \<and> cancels one_tile_env k"
    by (rule exI [of _ 1]) (simp add: one_tile_env_def u32_max_def)
  then obtain receipt where "r = Ok (Completed, receipt)" "is_complete self'"
    using r(3) one_tile_env_ok(2) unfolding ends_run_def by blast
  then show ?thesis using c(2) on r by blast
qed

text \<open>C7. The account of a run that answers with a receipt, in a session as before, for a tile shape with no zero
  block and allocators that report at least what they granted. The executor's work has grown by exactly what
  the receipt says was used, and stays within the admitted work. A run stopped at its entry, cancelled there
  or given no allowance, says so, changed nothing but the reset transition count, and reports nothing used and
  nothing remaining, whatever it was given. In any other run what was used and what remains make up the
  allowance asked for, and the terminal says why it stopped: complete, cancelled by its last poll and by no earlier
  one, nothing left, or less left than the next charge, which the admission covers.\<close>

theorem receipt_accounts_for_allowance:
  assumes "session mode p self" "3 \<le> problem_point_count p" "tile_ok tile" "\<And>k. allocator_ok (tile_allocator env k)"
    and "run_with_receipt env tile allowance self = Some (self', Ok (status, receipt))"
  shows "allowance_requested receipt = allowance
    \<and> work_spent self' = work_spent self + allowance_used receipt \<and> work_spent self' \<le> admitted_work self
    \<and> (if cancels env 0 \<or> allowance = 0
       then status = (if cancels env 0 then Cancelled Entry else AllowanceExhausted Entry)
         \<and> allowance_used receipt = 0 \<and> allowance_remaining receipt = 0 \<and> self' = self\<lparr>run_transitions := 0\<rparr>
       else allowance_used receipt + allowance_remaining receipt = allowance
         \<and> (status = Completed \<longrightarrow> is_complete self')
         \<and> (\<forall>b. status = Cancelled b \<longrightarrow> cancels env (receipt_polls receipt - 1))
         \<and> (\<forall>k. 0 < k \<and> k + 1 < receipt_polls receipt \<longrightarrow> \<not> cancels env k)
         \<and> (\<forall>b. status = AllowanceExhausted b \<longrightarrow> allowance_remaining receipt = 0)
         \<and> (\<forall>b units. status = NeedAllowance b units \<longrightarrow>
              allowance_remaining receipt < units \<and> work_spent self' + units \<le> admitted_work self))"
proof -
  have busy: "busy self" using assms(5) by (cases "phase self") (auto simp: run_with_receipt_def busy_def)
  have plan: "planned mode self" "phase_inv self" using session_inv [OF assms(1,2)] busy by (auto simp: exec_inv_def busy_def)
  show ?thesis
  proof (cases "cancels env 0 \<or> allowance = 0")
    case True
    have "work_spent self \<le> admitted_work self" using phase_work [OF plan] busy by (simp add: busy_def)
    then show ?thesis using run_stopped [OF busy True, of tile] assms(5) True
      by (auto simp: Let_def entry_receipt_def)
  next
    case False
    then have go: "\<not> cancels env 0" "0 < allowance" by simp_all
    obtain left' polls' r where a: "Ok (status, receipt) = with_receipt self self' allowance left' polls' r"
      "loop_result mode tile (granting_env env) (self\<lparr>run_transitions := 0\<rparr>) allowance 1 self' left' polls' r"
      by (rule run_enters_granting [OF assms(3) plan busy assms(4) go]) (use assms(5) in auto)
    then have r: "r = Ok status" "receipt = receipt_of self self' allowance left' polls' status"
      by (auto simp: with_receipt_def split: outcome.splits)
    have l: "accounts mode self allowance self' left'" "terminal_ok env self' left' polls' (Ok status)"
      "\<forall>k. 1 \<le> k \<and> k + 1 < polls' \<longrightarrow> \<not> cancels env k"
      using a(2) terminal_granting unfolding r loop_result_def by (auto simp: accounts_def same_plan_def)
    have w: "work_spent self' \<le> admitted_work self"
      using l(1) phase_work [of mode self'] by (simp add: accounts_def same_plan_def)
    have e: "admitted_work self' = admitted_work self" "work_spent self \<le> work_spent self'"
      "left' + work_spent self' = allowance + work_spent self"
      using l(1) by (simp_all add: accounts_def same_plan_def)
    show ?thesis using l(2,3) w e go by (auto simp: r(2) receipt_of_def terminal_ok_def is_complete_def Suc_le_eq)
  qed
qed

theorem receipt_accounts_for_allowance_witness:
  "\<exists>self self' status receipt entry. session Certified small_problem self \<and> 0 < admitted_work self
     \<and> run_with_receipt one_tile_env facade_tile (admitted_work self) self = Some (self', Ok (status, receipt))
     \<and> allowance_used receipt + allowance_remaining receipt = admitted_work self
     \<and> run_with_receipt one_tile_env facade_tile 0 self = Some (self\<lparr>run_transitions := 0\<rparr>, Ok (AllowanceExhausted Entry, entry))
     \<and> allowance_used entry = 0"
proof -
  obtain self where s: "session Certified small_problem self" "ready Certified facade_tile self"
    using small_ready by blast
  obtain self' status receipt where
    r: "run_with_receipt one_tile_env facade_tile (admitted_work self) self = Some (self', Ok (status, receipt))" "0 < admitted_work self"
    by (rule one_tile_run [OF s(2) facade_tile_shape(2)])
  have go: "\<not> cancels one_tile_env 0" by (simp add: one_tile_env_def)
  have "busy self" using s(2) by (simp add: ready_def)
  from run_stopped [OF this, of one_tile_env 0 facade_tile] go obtain entry where
    stopped: "run_with_receipt one_tile_env facade_tile 0 self = Some (self\<lparr>run_transitions := 0\<rparr>, Ok (AllowanceExhausted Entry, entry))"
    by (auto simp: Let_def)
  note account = receipt_accounts_for_allowance [OF s(1) small_points(1) facade_tile_shape(2) one_tile_allocators]
  from account [OF r(1)] account [OF stopped] show ?thesis using s(1) r stopped go by auto
qed

text \<open>The facade, from the executor it creates on.\<close>

lemma facade_runs:
  assumes p: "cbc_problem_new n d = Ok p" and adm: "admit_for sizes p Construction budget = Ok a"
    and new: "cbc_executor_new sizes alloc a = Ok self"
    and alloc: "allocator_ok alloc" "\<And>k. allocator_ok (tile_allocator env k)"
  obtains r where "try_cbc sizes env alloc n d budget = Some r"
    "(\<exists>z. r = Ok (n, z) \<and> length z = d \<and> greedy_prefix n z)
     \<or> (\<exists>q. r = Err (Execution (Storage q))) \<and> (\<exists>k. \<not> grants_all (tile_allocator env k))
     \<or> r = Panicked \<and> (\<exists>self' left. run_loop (env\<lparr>cancels := \<lambda>_. False\<rparr>) facade_tile 0 1 self (work_units (admission_estimate a))
          = Some (self', left, u32_max, Panicked))"
proof -
  note np = problem_new_points [OF p]
  have a: "admission_mode a = Construction" "admission_problem a = p"
    using adm admit_cases [of sizes p Construction budget] by auto
  have n3: "3 \<le> problem_point_count (admission_problem a)" using a(2) np by simp
  note st = executor_starts [OF new alloc(1) n3]
  have ready: "ready Construction facade_tile self" using st(1) a(1) by simp
  have reset: "self\<lparr>run_transitions := 0\<rparr> = self" using st(9) by simp
  obtain self' r where r: "run (env\<lparr>cancels := \<lambda>_. False\<rparr>) facade_tile (work_units (admission_estimate a)) self = Some (self', r)"
    "r = Ok Completed \<and> phase self' = Done \<and> phase_inv self' \<and> problem self' = problem self
     \<or> (\<exists>q. r = Err (Storage q)) \<and> (\<exists>k. \<not> grants_all (tile_allocator env k))
     \<or> r = Panicked \<and> (\<exists>left. run_loop (env\<lparr>cancels := \<lambda>_. False\<rparr>) facade_tile 0 1 (self\<lparr>run_transitions := 0\<rparr>)
         (work_units (admission_estimate a)) = Some (self', left, u32_max, Panicked))"
    by (rule facade_run [OF ready st(5,3,4) alloc(2)])
  have go: "try_cbc sizes env alloc n d budget = Some (case r of
       Err e \<Rightarrow> Err (Execution e)
     | Panicked \<Rightarrow> Panicked
     | Ok status \<Rightarrow>
         if status \<noteq> Completed then Err (UnexpectedRunStatus status)
         else (case into_lattice self' of None \<Rightarrow> Err MissingCompletedLattice | Some l \<Rightarrow> Ok l))"
    using p adm new r(1) by (simp add: try_cbc_def facade_tile_shape(1))
  have "problem self' = p" if "problem self' = problem self" using that st(2) a(2) by simp
  then have "phase self' = Done \<Longrightarrow> phase_inv self' \<Longrightarrow> problem self' = problem self \<Longrightarrow>
      into_lattice self' = Some (n, zs self') \<and> length (zs self') = d \<and> greedy_prefix n (zs self')"
    using np by (simp add: into_lattice_def phase_inv_def chosen_def)
  then show thesis using that [OF go] r(2) unfolding reset by fastforce
qed

text \<open>C9. The synchronous facade answers for every input, given allocators that report at least what they granted.
  It refuses with an admission error exactly when the problem or its admission is refused, and then with that
  error, which the problem and its admission determine. A lattice it returns is the greedy one of
  the problem asked for. It refuses with a storage refusal only when some allocator does not grant all; no other
  error occurs. It panics only after its problem was admitted, its executor created, and its run had spent all the polls
  that a 32-bit counter holds.\<close>

theorem facade_answers:
  assumes "allocator_ok alloc" "\<And>k. allocator_ok (tile_allocator env k)"
  shows "\<exists>r. try_cbc sizes env alloc n d budget = Some r
    \<and> (case r of
         Ok (m, z) \<Rightarrow> m = n \<and> length z = d \<and> greedy_prefix n z
       | Err (Admission e) \<Rightarrow> cbc_problem_new n d = Err e
           \<or> (\<exists>p. cbc_problem_new n d = Ok p \<and> admit_for sizes p Construction budget = Err e)
       | Err (Execution e) \<Rightarrow> (\<exists>q. e = Storage q) \<and> \<not> (grants_all alloc \<and> (\<forall>k. grants_all (tile_allocator env k)))
       | Err _ \<Rightarrow> False
       | Panicked \<Rightarrow> \<exists>p a self. cbc_problem_new n d = Ok p \<and> admit_for sizes p Construction budget = Ok a
           \<and> cbc_executor_new sizes alloc a = Ok self
           \<and> (\<exists>self' left. run_loop (env\<lparr>cancels := \<lambda>_. False\<rparr>) facade_tile 0 1 self (work_units (admission_estimate a))
                = Some (self', left, u32_max, Panicked)))
    \<and> (\<forall>e. cbc_problem_new n d = Err e \<longrightarrow> r = Err (Admission e))
    \<and> (\<forall>p e. cbc_problem_new n d = Ok p \<and> admit_for sizes p Construction budget = Err e \<longrightarrow> r = Err (Admission e))"
proof (cases "cbc_problem_new n d")
  case (Ok p)
  consider (refused) e where "admit_for sizes p Construction budget = Err e"
    | (denied) a q where "admit_for sizes p Construction budget = Ok a"
        "cbc_executor_new sizes alloc a = Err (Storage q)" "\<not> grants_all alloc"
    | (runs) a self where "admit_for sizes p Construction budget = Ok a" "cbc_executor_new sizes alloc a = Ok self"
    using admit_cases [of sizes p Construction budget] new_executor_cases [of sizes _ alloc] by metis
  then show ?thesis
  proof cases
    case (runs a self)
    obtain r where r: "try_cbc sizes env alloc n d budget = Some r"
      "(\<exists>z. r = Ok (n, z) \<and> length z = d \<and> greedy_prefix n z)
       \<or> (\<exists>q. r = Err (Execution (Storage q))) \<and> (\<exists>k. \<not> grants_all (tile_allocator env k))
       \<or> r = Panicked \<and> (\<exists>self' left. run_loop (env\<lparr>cancels := \<lambda>_. False\<rparr>) facade_tile 0 1 self (work_units (admission_estimate a))
            = Some (self', left, u32_max, Panicked))"
      by (rule facade_runs [OF Ok runs assms])
    then show ?thesis using Ok runs by auto
  qed (use Ok in \<open>simp_all add: try_cbc_def\<close>)
qed (auto simp: try_cbc_def cbc_problem_new_def split: if_splits)

theorem facade_answers_witness:
  "((\<exists>c. try_cbc small_sizes one_tile_env (tile_allocator one_tile_env 0) 3 2 small_budget = Some (Ok (3, [1, c])))
     \<or> try_cbc small_sizes one_tile_env (tile_allocator one_tile_env 0) 3 2 small_budget = Some Panicked)
   \<and> (\<exists>e. try_cbc small_sizes one_tile_env (tile_allocator one_tile_env 0) 2 2 small_budget = Some (Err (Admission e)))"
proof -
  let ?alloc = "tile_allocator one_tile_env 0"
  have ok: "\<And>k. allocator_ok (tile_allocator one_tile_env k)" using one_tile_env_ok(1) by (simp add: env_ok_def)
  have p: "cbc_problem_new 3 2 = Ok small_problem" by (simp add: cbc_problem_new_def small_problem_def)
  obtain a where "admit_for small_sizes small_problem Construction small_budget = Ok a" using small_admitted by blast
  then have adm: "\<And>e. admit_for small_sizes small_problem Construction small_budget \<noteq> Err e" by simp
  obtain r where r: "try_cbc small_sizes one_tile_env ?alloc 3 2 small_budget = Some r"
    "case r of
         Ok (m, z) \<Rightarrow> m = 3 \<and> length z = 2 \<and> greedy_prefix 3 z
       | Err (Admission e) \<Rightarrow> cbc_problem_new 3 2 = Err e
           \<or> (\<exists>p. cbc_problem_new 3 2 = Ok p \<and> admit_for small_sizes p Construction small_budget = Err e)
       | Err (Execution e) \<Rightarrow> (\<exists>q. e = Storage q) \<and> \<not> (grants_all ?alloc \<and> (\<forall>k. grants_all (tile_allocator one_tile_env k)))
       | Err _ \<Rightarrow> False
       | Panicked \<Rightarrow> True"
    using facade_answers [where alloc = ?alloc and env = one_tile_env and sizes = small_sizes and n = 3 and d = 2 and budget = small_budget,
        OF ok ok] by (elim exE conjE) (rule that, assumption, auto split: outcome.splits cbc_lattice_error.splits)
  have "(\<exists>c. r = Ok (3, [1, c])) \<or> r = Panicked"
  proof (cases r)
    case (Ok l)
    then obtain z where z: "l = (3, z)" "length z = 2" "greedy_prefix 3 z" using r(2) by (cases l) auto
    then obtain c where "z = [1, c]" by (cases z; cases "tl z") (auto simp: greedy_prefix_def)
    then show ?thesis using Ok z(1) by simp
  next
    case (Err e)
    then show ?thesis using r(2) p adm one_tile_env_ok(2) by (cases e) simp_all
  qed simp
  then have "(\<exists>c. try_cbc small_sizes one_tile_env ?alloc 3 2 small_budget = Some (Ok (3, [1, c])))
      \<or> try_cbc small_sizes one_tile_env ?alloc 3 2 small_budget = Some Panicked"
    using r(1) by auto
  moreover have "\<exists>e. try_cbc small_sizes one_tile_env ?alloc 2 2 small_budget = Some (Err (Admission e))"
    by (simp add: try_cbc_def cbc_problem_new_def)
  ultimately show ?thesis by auto
qed

section \<open>Interruptions the state does not survive\<close>

text \<open>A refusal while a certificate is emitted, of its storage or for want of allowance, leaves the scan without its
  winner, which was taken first: every later tile panics.\<close>

theorem refused_emission_loses_winner:
  assumes "finish_scan alloc charges self s m = ((self', m'), Err e)" "candidate s = charge_n charges" "exec_n self = charge_n charges"
  shows "\<exists>after. execute_tile alloc' tile self' left = Some (after, Panicked)"
proof -
  have lost: "self' = self\<lparr>phase := Scan (s\<lparr>best := None\<rparr>)\<rparr>"
    using assms(1) by (auto simp: finish_scan_def Let_def split: option.splits prod.splits outcome.splits if_splits)
  show ?thesis
  proof (cases "tile_charges_sealed self' tile")
    case (Ok later)
    then have n: "charge_n later = exec_n self'" by (auto simp: tile_charges_sealed_def split: option.splits)
    let ?s = "s\<lparr>best := None\<rparr>"
    have "candidate ?s = charge_n later" using n assms(2,3) by (simp add: lost)
    then have "scan_loop alloc' later self' ?s (exec_meter self' left) = ((self'\<lparr>phase := Scan ?s\<rparr>, exec_meter self' left), Panicked)"
      by (simp add: scan_loop.simps [of alloc' later self' ?s] finish_scan_def)
    then show ?thesis using Ok by (simp add: execute_tile_def run_scan_tile_def lost)
  next
    case (Err e')
    then show ?thesis by (auto simp: tile_charges_sealed_def split: option.splits)
  next
    case Panicked
    then show ?thesis by (simp add: execute_tile_def lost)
  qed
qed

text \<open>A refused reservation of a tie class comes after the component was paid for and pushed, in the phase that
  pays for it and pushes it: the retry does both again.\<close>

theorem refused_ties_keep_component:
  assumes "seal_prefix alloc last_component c self left = ((self', left'), Err (Storage q))"
  shows "zs self' = zs self @ [c] \<and> phase self' = phase self \<and> left' + prefix_control (schedule self) = left"
  using assms
  by (auto simp: seal_prefix_def exec_debit_def debit_def gate_allowance_def exec_meter_def with_meter_def Let_def checked_sub_def
      split: outcome.splits option.splits if_splits)

end
