(* ===== verification/Philox.thy ===== *)
theory Philox
  imports Prelude
begin

text \<open>
  The counter-based generator (\<open>crates/fs-rand/src/philox.rs\<close>): ten rounds of Philox 4x32 on a 128-bit counter
  under a 64-bit key, and the batched form that runs the rounds over lanes. Under a fixed key the block
  function is a bijection of counters.
\<close>

section \<open>The block function\<close>

definition M0 :: u32 where "M0 = 0xD2511F53"
definition M1 :: u32 where "M1 = 0xCD9E8D57"
definition W0 :: u32 where "W0 = 0x9E3779B9"
definition W1 :: u32 where "W1 = 0xBB67AE85"

type_synonym philox_counter = "u32 \<times> u32 \<times> u32 \<times> u32"
type_synonym philox_key = "u32 \<times> u32"

definition mulhilo :: "u32 \<Rightarrow> u32 \<Rightarrow> u32 \<times> u32" where
  "mulhilo a b = (let wide = (ucast a :: u64) * ucast b in (ucast (drop_bit 32 wide), ucast wide))"

fun philox_round :: "philox_counter \<Rightarrow> philox_key \<Rightarrow> philox_counter" where
  "philox_round (c0, c1, c2, c3) (k0, k1) =
    (let (hi0, lo0) = mulhilo M0 c0; (hi1, lo1) = mulhilo M1 c2
     in (hi1 XOR c1 XOR k0, lo1, hi0 XOR c3 XOR k1, lo0))"

fun next_key :: "nat \<Rightarrow> philox_key \<Rightarrow> philox_key" where
  "next_key i (k0, k1) = (if 0 < i then (k0 + W0, k1 + W1) else (k0, k1))"

definition philox4x32_10 :: "philox_counter \<Rightarrow> philox_key \<Rightarrow> philox_counter" where
  "philox4x32_10 ctr key =
    fst (fold (\<lambda>i (ctr, key). let key = next_key i key in (philox_round ctr key, key)) [0..<10] (ctr, key))"

section \<open>The batched block function\<close>

text \<open>The counters word by word, one list of lanes each.\<close>

type_synonym philox_lanes = "u32 list \<times> u32 list \<times> u32 list \<times> u32 list"

fun lane_round :: "philox_key \<Rightarrow> nat \<Rightarrow> philox_lanes \<Rightarrow> philox_lanes" where
  "lane_round (k0, k1) lane (c0, c1, c2, c3) =
    (let (hi0, lo0) = mulhilo M0 (c0 ! lane); (hi1, lo1) = mulhilo M1 (c2 ! lane);
         n0 = hi1 XOR c1 ! lane XOR k0; n2 = hi0 XOR c3 ! lane XOR k1
     in (c0[lane := n0], c1[lane := lo1], c2[lane := n2], c3[lane := lo0]))"

definition philox4x32_10_batch :: "philox_counter list \<Rightarrow> philox_key \<Rightarrow> philox_counter list" where
  "philox4x32_10_batch ctrs key =
    (let lanes = [0..<length ctrs];
         c = (map (\<lambda>(w, _). w) ctrs, map (\<lambda>(_, w, _). w) ctrs, map (\<lambda>(_, _, w, _). w) ctrs, map (\<lambda>(_, _, _, w). w) ctrs);
         (c0, c1, c2, c3) = fst (fold (\<lambda>r (c, key). let key = next_key r key in (fold (lane_round key) lanes c, key)) [0..<10] (c, key))
     in map (\<lambda>lane. (c0 ! lane, c1 ! lane, c2 ! lane, c3 ! lane)) lanes)"

section \<open>The batch computes the blocks\<close>

definition lanes_of :: "philox_counter list \<Rightarrow> philox_lanes" where
  "lanes_of ctrs = (map (\<lambda>(w, _). w) ctrs, map (\<lambda>(_, w, _). w) ctrs, map (\<lambda>(_, _, w, _). w) ctrs, map (\<lambda>(_, _, _, w). w) ctrs)"

lemma lane_round_step:
  assumes "lane < length ctrs"
  shows "lane_round key lane (lanes_of ctrs) = lanes_of (ctrs[lane := philox_round (ctrs ! lane) key])"
  using assms
  by (cases key; cases "ctrs ! lane") (simp add: lanes_of_def map_update Let_def split: prod.splits)

lemma lane_round_all:
  "k \<le> length ctrs \<Longrightarrow> fold (lane_round key) [0..<k] (lanes_of ctrs)
    = lanes_of (map (\<lambda>c. philox_round c key) (take k ctrs) @ drop k ctrs)"
proof (induction k)
  case (Suc k)
  then have k: "k < length ctrs" by simp
  let ?mid = "map (\<lambda>c. philox_round c key) (take k ctrs) @ drop k ctrs"
  have at: "?mid ! k = ctrs ! k" "k < length ?mid" using k by (simp_all add: nth_append)
  have "fold (lane_round key) [0..<Suc k] (lanes_of ctrs) = lane_round key k (lanes_of ?mid)" using Suc k by simp
  also have "\<dots> = lanes_of (?mid[k := philox_round (ctrs ! k) key])" using lane_round_step [OF at(2)] at(1) by simp
  also have "?mid[k := philox_round (ctrs ! k) key] = map (\<lambda>c. philox_round c key) (take (Suc k) ctrs) @ drop (Suc k) ctrs"
    using k by (intro nth_equalityI) (auto simp: nth_append nth_list_update take_Suc_conv_app_nth)
  finally show ?case .
qed simp

lemma lanes_read:
  "(case lanes_of ctrs of (c0, c1, c2, c3) \<Rightarrow> map (\<lambda>lane. (c0 ! lane, c1 ! lane, c2 ! lane, c3 ! lane)) [0..<length ctrs]) = ctrs"
  unfolding lanes_of_def prod.case by (intro nth_equalityI) (simp_all add: case_prod_unfold)

lemma batch_is_map: "philox4x32_10_batch ctrs key = map (\<lambda>c. philox4x32_10 c key) ctrs"
proof -
  let ?step = "\<lambda>i (ctr, key). let key = next_key i key in (philox_round ctr key, key)"
  let ?batch = "\<lambda>r (c, key). let key = next_key r key in (fold (lane_round key) [0..<length ctrs] c, key)"
  have "fold ?batch rs (lanes_of cs, key) = (lanes_of (map (\<lambda>c. fst (fold ?step rs (c, key))) cs), snd (fold ?step rs (c', key)))"
    if "length cs = length ctrs" for rs cs key c'
    using that
  proof (induction rs arbitrary: cs key c')
    case (Cons r rs)
    have "fold (lane_round (next_key r key)) [0..<length ctrs] (lanes_of cs) = lanes_of (map (\<lambda>c. philox_round c (next_key r key)) cs)"
      using lane_round_all [of "length cs" cs "next_key r key"] Cons.prems by simp
    then show ?case
      using Cons.IH [of "map (\<lambda>c. philox_round c (next_key r key)) cs" "next_key r key" "philox_round c' (next_key r key)"] Cons.prems
      by (simp add: Let_def comp_def)
  qed simp
  from this [of ctrs "[0..<10]" key "(0, 0, 0, 0)"]
  have "fst (fold ?batch [0..<10] (lanes_of ctrs, key)) = lanes_of (map (\<lambda>c. philox4x32_10 c key) ctrs)"
    by (simp add: philox4x32_10_def)
  note blocks = this
  have "philox4x32_10_batch ctrs key = (case fst (fold ?batch [0..<10] (lanes_of ctrs, key)) of
      (c0, c1, c2, c3) \<Rightarrow> map (\<lambda>lane. (c0 ! lane, c1 ! lane, c2 ! lane, c3 ! lane)) [0..<length ctrs])"
    by (simp only: philox4x32_10_batch_def Let_def lanes_of_def)
  also have "\<dots> = map (\<lambda>c. philox4x32_10 c key) ctrs"
    unfolding blocks using lanes_read [of "map (\<lambda>c. philox4x32_10 c key) ctrs"] by (simp only: length_map)
  finally show ?thesis .
qed

section \<open>The block function is invertible\<close>

lemma mulhilo_low: "snd (mulhilo a b) = a * b"
proof -
  have "unat (snd (mulhilo a b)) = (unat a * unat b) mod 2 ^ 64 mod 2 ^ 32"
    by (simp add: mulhilo_def Let_def unsigned_ucast_eq take_bit_eq_mod unat_word_ariths mod_mult_eq)
  also have "\<dots> = (unat a * unat b) mod 2 ^ 32" by (rule mod_mod_cancel) (simp add: le_imp_power_dvd)
  finally show ?thesis by (simp add: word_unat_eq_iff unat_word_ariths)
qed

definition M0_inverse :: u32 where "M0_inverse = 0x991A7CDB"
definition M1_inverse :: u32 where "M1_inverse = 0x6D7CAE67"

lemma multipliers_invertible: "M0 * M0_inverse = 1" "M1 * M1_inverse = 1"
  by (simp_all add: M0_def M0_inverse_def M1_def M1_inverse_def)

fun philox_unround :: "philox_counter \<Rightarrow> philox_key \<Rightarrow> philox_counter" where
  "philox_unround (c0, c1, c2, c3) (k0, k1) =
    (let x0 = M0_inverse * c3; x2 = M1_inverse * c1
     in (x0, c0 XOR fst (mulhilo M1 x2) XOR k0, x2, c2 XOR fst (mulhilo M0 x0) XOR k1))"

lemma unround_round: "philox_unround (philox_round ctr key) key = ctr"
proof -
  obtain c0 c1 c2 c3 k0 k1 where c: "ctr = (c0, c1, c2, c3)" "key = (k0, k1)" by (metis prod.exhaust)
  have x: "M0_inverse * (M0 * c0) = c0" "M1_inverse * (M1 * c2) = c2"
    using multipliers_invertible by (simp_all add: mult.assoc [symmetric] mult.commute [of M0_inverse] mult.commute [of M1_inverse])
  show ?thesis
    using mulhilo_low [of M0 c0] mulhilo_low [of M1 c2] x
    by (cases "mulhilo M0 c0"; cases "mulhilo M1 c2") (simp add: c Let_def ac_simps)
qed

lemma round_inj: "inj (\<lambda>ctr. philox_round ctr key)"
  by (rule inj_on_inverseI [where g = "\<lambda>ctr. philox_unround ctr key"]) (simp add: unround_round)

lemma philox_inj: "inj (\<lambda>ctr. philox4x32_10 ctr key)"
proof -
  let ?step = "\<lambda>i (ctr, key). let key = next_key i key in (philox_round ctr key, key)"
  have "fst (fold ?step is (a, key)) = fst (fold ?step is (b, key)) \<Longrightarrow> a = b" for "is" a b key
  proof (induction "is" arbitrary: a b key)
    case (Cons i "is")
    have "philox_round a (next_key i key) = philox_round b (next_key i key)"
      by (rule Cons.IH [of _ "next_key i key"]) (use Cons.prems in \<open>simp add: Let_def\<close>)
    then show ?case using round_inj by (blast dest: injD)
  qed simp
  then show ?thesis by (auto simp: inj_def philox4x32_10_def)
qed

text \<open>The known answers of the generator's distribution.\<close>

lemma philox_zero: "philox4x32_10 (0, 0, 0, 0) (0, 0) = (0x6627e8d5, 0xe169c58d, 0xbc57ac4c, 0x9b00dbd8)"
  by code_simp

end
