(* ===== verification/Rand_Stream.thy ===== *)
theory Rand_Stream
  imports Philox Framing
begin

text \<open>
  Streams over the counter-based generator (\<open>crates/fs-rand/src/lib.rs\<close>): logical keys, the position of a block,
  versioned checkpoints and their canonical bytes, sequential and bulk draws, and bounded draws by rejection.
  Rejection may go on for ever, so it is a partial function.
\<close>

section \<open>Keys and positions\<close>

record stream_key =
  stream_seed :: u64
  stream_kernel :: u32
  stream_tile :: u32

datatype exec_key_bridge_error =
    KernelOverflow u64
  | TileOverflow u64
  | IterationUnrepresentable u64

definition from_exec_parts :: "u64 \<Rightarrow> u64 \<Rightarrow> u64 \<Rightarrow> u64 \<Rightarrow> (exec_key_bridge_error, stream_key) outcome" where
  "from_exec_parts seed kernel_id tile iteration =
    (if u32_max < unat kernel_id then Err (KernelOverflow kernel_id)
     else if u32_max < unat tile then Err (TileOverflow tile)
     else if iteration \<noteq> 0 then Err (IterationUnrepresentable iteration)
     else Ok \<lparr>stream_seed = seed, stream_kernel = ucast kernel_id, stream_tile = ucast tile\<rparr>)"

definition encode_stream_position :: "stream_key \<Rightarrow> u64 \<Rightarrow> philox_counter \<times> philox_key" where
  "encode_stream_position key index =
    ((ucast index, ucast (drop_bit 32 index), stream_tile key, stream_kernel key),
     (ucast (stream_seed key), ucast (drop_bit 32 (stream_seed key))))"

definition stream_at :: "stream_key \<Rightarrow> u64 \<Rightarrow> philox_counter" where
  "stream_at key index = (let (counter, key_words) = encode_stream_position key index in philox4x32_10 counter key_words)"

section \<open>Checkpoints\<close>

definition STREAM_SEMANTICS_VERSION :: u32 where "STREAM_SEMANTICS_VERSION = 1"
definition STREAM_CHECKPOINT_VERSION :: u32 where "STREAM_CHECKPOINT_VERSION = 1"

definition STREAM_CHECKPOINT_MAGIC :: "u8 list" where
  "STREAM_CHECKPOINT_MAGIC = str_bytes ''FSRCKPT'' @ [0]"

definition STREAM_CHECKPOINT_IDENTITY_DOMAIN :: "u8 list" where
  "STREAM_CHECKPOINT_IDENTITY_DOMAIN = str_bytes ''org.frankensim.fs-rand.stream-checkpoint.v1''"

definition STREAM_CHECKPOINT_CANONICAL_LEN :: nat where
  "STREAM_CHECKPOINT_CANONICAL_LEN = length STREAM_CHECKPOINT_MAGIC + length STREAM_CHECKPOINT_IDENTITY_DOMAIN + 4 * 4 + 8 * 2"

record stream_checkpoint =
  checkpoint_version :: u32
  stream_semantics_version :: u32
  checkpoint_key :: stream_key
  checkpoint_index :: u64

definition current_checkpoint :: "stream_key \<Rightarrow> u64 \<Rightarrow> stream_checkpoint" where
  "current_checkpoint key index = \<lparr>checkpoint_version = STREAM_CHECKPOINT_VERSION,
     stream_semantics_version = STREAM_SEMANTICS_VERSION, checkpoint_key = key, checkpoint_index = index\<rparr>"

definition to_canonical_le_bytes :: "stream_checkpoint \<Rightarrow> u8 list" where
  "to_canonical_le_bytes self =
    STREAM_CHECKPOINT_MAGIC @ STREAM_CHECKPOINT_IDENTITY_DOMAIN
      @ le_bytes 4 (unat (checkpoint_version self)) @ le_bytes 4 (unat (stream_semantics_version self))
      @ le_bytes 8 (unat (stream_seed (checkpoint_key self))) @ le_bytes 4 (unat (stream_kernel (checkpoint_key self)))
      @ le_bytes 4 (unat (stream_tile (checkpoint_key self))) @ le_bytes 8 (unat (checkpoint_index self))"

datatype stream_replay_error =
    InvalidCheckpointLength nat nat
  | InvalidCheckpointMagic
  | InvalidCheckpointDomain
  | UnknownCheckpointVersion u32 u32
  | UnknownStreamSemanticsVersion u32 u32

definition validate_versions :: "stream_checkpoint \<Rightarrow> (stream_replay_error, unit) outcome" where
  "validate_versions self =
    (if checkpoint_version self \<noteq> STREAM_CHECKPOINT_VERSION
     then Err (UnknownCheckpointVersion (checkpoint_version self) STREAM_CHECKPOINT_VERSION)
     else if stream_semantics_version self \<noteq> STREAM_SEMANTICS_VERSION
     then Err (UnknownStreamSemanticsVersion (stream_semantics_version self) STREAM_SEMANTICS_VERSION)
     else Ok ())"

text \<open>\<open>from_le_bytes\<close>, and the slice between two offsets.\<close>

primrec le_value :: "u8 list \<Rightarrow> nat" where
  "le_value [] = 0"
| "le_value (b # bs) = unat b + 256 * le_value bs"

definition slice_of :: "nat \<Rightarrow> nat \<Rightarrow> 'a list \<Rightarrow> 'a list" where
  "slice_of from_at to_at xs = take (to_at - from_at) (drop from_at xs)"

definition from_canonical_le_bytes :: "u8 list \<Rightarrow> (stream_replay_error, stream_checkpoint) outcome" where
  "from_canonical_le_bytes bytes =
    (let magic_end = length STREAM_CHECKPOINT_MAGIC;
         domain_end = magic_end + length STREAM_CHECKPOINT_IDENTITY_DOMAIN;
         checkpoint_version_end = domain_end + 4;
         stream_version_end = checkpoint_version_end + 4;
         seed_end = stream_version_end + 8;
         kernel_end = seed_end + 4;
         tile_end = kernel_end + 4
     in if length bytes \<noteq> STREAM_CHECKPOINT_CANONICAL_LEN
        then Err (InvalidCheckpointLength (length bytes) STREAM_CHECKPOINT_CANONICAL_LEN)
        else if take magic_end bytes \<noteq> STREAM_CHECKPOINT_MAGIC then Err InvalidCheckpointMagic
        else if slice_of magic_end domain_end bytes \<noteq> STREAM_CHECKPOINT_IDENTITY_DOMAIN then Err InvalidCheckpointDomain
        else
          (let checkpoint =
             \<lparr>checkpoint_version = of_nat (le_value (slice_of domain_end checkpoint_version_end bytes)),
              stream_semantics_version = of_nat (le_value (slice_of checkpoint_version_end stream_version_end bytes)),
              checkpoint_key =
                \<lparr>stream_seed = of_nat (le_value (slice_of stream_version_end seed_end bytes)),
                 stream_kernel = of_nat (le_value (slice_of seed_end kernel_end bytes)),
                 stream_tile = of_nat (le_value (slice_of kernel_end tile_end bytes))\<rparr>,
              checkpoint_index = of_nat (le_value (drop tile_end bytes))\<rparr>
           in case validate_versions checkpoint of Ok _ \<Rightarrow> Ok checkpoint | Err e \<Rightarrow> Err e | Panicked \<Rightarrow> Panicked))"

section \<open>Streams\<close>

record stream =
  position_key :: stream_key
  position_index :: u64

definition open_stream :: "stream_key \<Rightarrow> stream" where
  "open_stream key = \<lparr>position_key = key, position_index = 0\<rparr>"

definition stream_checkpoint_of :: "stream \<Rightarrow> stream_checkpoint" where
  "stream_checkpoint_of self = current_checkpoint (position_key self) (position_index self)"

definition stream_resume :: "stream_checkpoint \<Rightarrow> (stream_replay_error, stream) outcome" where
  "stream_resume checkpoint =
    (case validate_versions checkpoint of
       Ok _ \<Rightarrow> Ok \<lparr>position_key = checkpoint_key checkpoint, position_index = checkpoint_index checkpoint\<rparr>
     | Err e \<Rightarrow> Err e
     | Panicked \<Rightarrow> Panicked)"

definition resume_retained :: "u8 list \<Rightarrow> (stream_replay_error, stream) outcome" where
  "resume_retained bytes =
    (case from_canonical_le_bytes bytes of Ok checkpoint \<Rightarrow> stream_resume checkpoint | Err e \<Rightarrow> Err e | Panicked \<Rightarrow> Panicked)"

text \<open>The 64 bits a draw takes from a block.\<close>

definition block_word :: "philox_counter \<Rightarrow> u64" where
  "block_word block = (case block of (b0, b1, _, _) \<Rightarrow> push_bit 32 (ucast b1) OR ucast b0)"

definition next_u64 :: "stream \<Rightarrow> u64 \<times> stream" where
  "next_u64 self =
    (block_word (stream_at (position_key self) (position_index self)), self\<lparr>position_index := position_index self + 1\<rparr>)"

text \<open>Bounded draws, by widening multiplication and rejection; the bound is asserted to be positive.\<close>

definition wide_product :: "u64 \<Rightarrow> u64 \<Rightarrow> u128" where
  "wide_product x n = ucast x * ucast n"

definition below_accepts :: "u64 \<Rightarrow> u64 \<Rightarrow> bool" where
  "below_accepts n x \<longleftrightarrow> (- n) mod n \<le> (ucast (wide_product x n) :: u64)"

definition below_value :: "u64 \<Rightarrow> u64 \<Rightarrow> u64" where
  "below_value n x = ucast (drop_bit 64 (wide_product x n))"

partial_function (option) below_loop :: "u64 \<Rightarrow> stream \<Rightarrow> (u64 \<times> stream) option" where
  "below_loop n self =
    (let (x, self) = next_u64 self
     in if below_accepts n x then Some (below_value n x, self) else below_loop n self)"

definition next_below :: "u64 \<Rightarrow> stream \<Rightarrow> ('e, u64 \<times> stream) outcome option" where
  "next_below n self = (if n = 0 then Some Panicked else map_option Ok (below_loop n self))"

section \<open>Bulk draws\<close>

definition blocks_from :: "nat \<Rightarrow> stream \<Rightarrow> u64 \<Rightarrow> philox_counter list" where
  "blocks_from lanes self base_index =
    philox4x32_10_batch (map (\<lambda>l. fst (encode_stream_position (position_key self) (base_index + of_nat l))) [0..<lanes])
      (snd (encode_stream_position (position_key self) base_index))"

text \<open>Whole chunks of eight, then the tail: the words written to a slice of a length.\<close>

definition FILL_LANES :: nat where "FILL_LANES = 8"

primrec fill_chunks :: "nat \<Rightarrow> stream \<Rightarrow> u64 list \<times> stream" where
  "fill_chunks 0 self = ([], self)"
| "fill_chunks (Suc k) self =
    (let blocks = blocks_from FILL_LANES self (position_index self);
         (rest, last) = fill_chunks k (self\<lparr>position_index := position_index self + of_nat FILL_LANES\<rparr>)
     in (map block_word blocks @ rest, last))"

primrec draw_words :: "nat \<Rightarrow> stream \<Rightarrow> u64 list \<times> stream" where
  "draw_words 0 self = ([], self)"
| "draw_words (Suc k) self =
    (let (x, self) = next_u64 self; (rest, last) = draw_words k self in (x # rest, last))"

definition fill_u64 :: "nat \<Rightarrow> stream \<Rightarrow> u64 list \<times> stream" where
  "fill_u64 len self =
    (let (chunks, self) = fill_chunks (len div FILL_LANES) self; (tail, self) = draw_words (len mod FILL_LANES) self
     in (chunks @ tail, self))"

section \<open>Sequential and bulk draws\<close>

definition word_at :: "stream_key \<Rightarrow> u64 \<Rightarrow> u64" where
  "word_at key index = block_word (stream_at key index)"

lemma draw_words_are:
  "draw_words k self = (map (\<lambda>i. word_at (position_key self) (position_index self + of_nat i)) [0..<k],
     self\<lparr>position_index := position_index self + of_nat k\<rparr>)"
proof (induction k arbitrary: self)
  case (Suc k)
  have "[0..<Suc k] = 0 # map Suc [0..<k]" by (simp add: map_Suc_upt upt_conv_Cons del: upt_Suc)
  then show ?case
    by (simp add: Suc next_u64_def word_at_def comp_def add.assoc del: upt_Suc)
qed simp

lemma draw_words_add:
  "draw_words (a + b) self = (fst (draw_words a self) @ fst (draw_words b (snd (draw_words a self))), snd (draw_words b (snd (draw_words a self))))"
proof -
  have "[0..<a + b] = [0..<a] @ map (\<lambda>i. i + a) [0..<b]" 
    by (simp only: upt_add_eq_append [OF le0] map_add_upt add.commute)
  then show ?thesis unfolding draw_words_are by (simp add: comp_def ac_simps)
qed

lemma blocks_from_are:
  "blocks_from lanes self base_index = map (\<lambda>l. stream_at (position_key self) (base_index + of_nat l)) [0..<lanes]"
  unfolding blocks_from_def batch_is_map by (simp add: stream_at_def encode_stream_position_def comp_def)

lemma fill_chunks_draws: "fill_chunks k self = draw_words (k * FILL_LANES) self"
proof (induction k arbitrary: self)
  case (Suc k)
  have "map block_word (blocks_from FILL_LANES self (position_index self)) = fst (draw_words FILL_LANES self)"
    "self\<lparr>position_index := position_index self + of_nat FILL_LANES\<rparr> = snd (draw_words FILL_LANES self)"
    unfolding blocks_from_are draw_words_are by (simp_all add: word_at_def)
  then show ?case unfolding fill_chunks.simps Let_def Suc mult_Suc draw_words_add by (simp add: case_prod_unfold)
qed simp

section \<open>Canonical bytes\<close>

lemma le_value_bytes: "le_value (le_bytes k v) = v mod 256 ^ k"
proof (induction k arbitrary: v)
  case (Suc k)
  have "unat (of_nat v :: u8) = v mod 256" by (simp add: unat_of_nat)
  then show ?case by (simp add: Suc mod_mult2_eq)
qed simp

lemma le_bytes_value: "le_bytes (length bs) (le_value bs) = bs"
proof (induction bs)
  case (Cons b bs)
  have "unat b < 256" using unsigned_less [of b, where ?'a = nat] by simp
  then have "(unat b + 256 * le_value bs) div 256 = le_value bs" "(unat b + 256 * le_value bs) mod 2 ^ 8 = unat b" by simp_all
  moreover from this(2) have "(of_nat (unat b + 256 * le_value bs) :: u8) = b"
    by (simp only: word_unat_eq_iff unat_of_nat) simp
  ultimately show ?case using Cons by simp
qed simp

lemma le_value_less: "le_value bs < 256 ^ length bs"
proof (induction bs)
  case (Cons b bs)
  have "unat b < 256" using unsigned_less [of b, where ?'a = nat] by simp
  moreover have "Suc (le_value bs) \<le> 256 ^ length bs" using Cons by simp
  then have "256 * Suc (le_value bs) \<le> 256 * 256 ^ length bs" by (rule mult_le_mono2)
  ultimately show ?case by simp
qed simp

lemma word_bytes_back:
  "of_nat (le_value (le_bytes 4 (unat (w :: u32)))) = w" "of_nat (le_value (le_bytes 8 (unat (v :: u64)))) = v"
  unfolding le_value_bytes using unsigned_less [of w, where ?'a = nat] unsigned_less [of v, where ?'a = nat] by simp_all

lemma bytes_word_back:
  "length bs = 4 \<Longrightarrow> le_bytes 4 (unat (of_nat (le_value bs) :: u32)) = bs"
  "length cs = 8 \<Longrightarrow> le_bytes 8 (unat (of_nat (le_value cs) :: u64)) = cs"
  using le_value_less [of bs] le_bytes_value [of bs] le_value_less [of cs] le_bytes_value [of cs] by (simp_all add: unat_of_nat)

lemma frame_lengths: "length STREAM_CHECKPOINT_MAGIC = 8" "length STREAM_CHECKPOINT_IDENTITY_DOMAIN = 43"
  by (simp_all add: STREAM_CHECKPOINT_MAGIC_def STREAM_CHECKPOINT_IDENTITY_DOMAIN_def str_bytes_def)

lemma versions_Ok: "validate_versions c = Ok () \<longleftrightarrow> c = current_checkpoint (checkpoint_key c) (checkpoint_index c)"
  by (cases c) (auto simp: validate_versions_def current_checkpoint_def)

lemma checkpoint_decode_encode:
  assumes "c = current_checkpoint (checkpoint_key c) (checkpoint_index c)"
  shows "from_canonical_le_bytes (to_canonical_le_bytes c) = Ok c"
proof -
  have len: "length (to_canonical_le_bytes c) = STREAM_CHECKPOINT_CANONICAL_LEN"
    by (simp add: to_canonical_le_bytes_def STREAM_CHECKPOINT_CANONICAL_LEN_def)
  have v: "validate_versions c = Ok ()" using assms by (simp only: versions_Ok)
  let ?bytes = "to_canonical_le_bytes c"
  have parts: "take 8 ?bytes = STREAM_CHECKPOINT_MAGIC" "take 43 (drop 8 ?bytes) = STREAM_CHECKPOINT_IDENTITY_DOMAIN"
    "take 4 (drop 51 ?bytes) = le_bytes 4 (unat (checkpoint_version c))"
    "take 4 (drop 55 ?bytes) = le_bytes 4 (unat (stream_semantics_version c))"
    "take 8 (drop 59 ?bytes) = le_bytes 8 (unat (stream_seed (checkpoint_key c)))"
    "take 4 (drop 67 ?bytes) = le_bytes 4 (unat (stream_kernel (checkpoint_key c)))"
    "take 4 (drop 71 ?bytes) = le_bytes 4 (unat (stream_tile (checkpoint_key c)))"
    "drop 75 ?bytes = le_bytes 8 (unat (checkpoint_index c))"
    by (simp_all add: to_canonical_le_bytes_def frame_lengths)
  have same: "\<lparr>checkpoint_version = checkpoint_version c, stream_semantics_version = stream_semantics_version c,
      checkpoint_key = \<lparr>stream_seed = stream_seed (checkpoint_key c), stream_kernel = stream_kernel (checkpoint_key c),
        stream_tile = stream_tile (checkpoint_key c)\<rparr>, checkpoint_index = checkpoint_index c\<rparr> = c"
    by (cases c; cases "checkpoint_key c") simp
  show ?thesis
    by (simp add: from_canonical_le_bytes_def len Let_def slice_of_def frame_lengths parts word_bytes_back same v)
qed

lemma checkpoint_encode_decode:
  assumes ok: "from_canonical_le_bytes bytes = Ok c"
  shows "bytes = to_canonical_le_bytes c" "c = current_checkpoint (checkpoint_key c) (checkpoint_index c)"
proof -
  have len: "length bytes = 83" and magic: "take 8 bytes = STREAM_CHECKPOINT_MAGIC"
    and domain: "take 43 (drop 8 bytes) = STREAM_CHECKPOINT_IDENTITY_DOMAIN"
    using ok by (auto simp: from_canonical_le_bytes_def STREAM_CHECKPOINT_CANONICAL_LEN_def frame_lengths slice_of_def Let_def split: if_splits)
  have c: "c = \<lparr>checkpoint_version = of_nat (le_value (take 4 (drop 51 bytes))),
      stream_semantics_version = of_nat (le_value (take 4 (drop 55 bytes))),
      checkpoint_key = \<lparr>stream_seed = of_nat (le_value (take 8 (drop 59 bytes))),
        stream_kernel = of_nat (le_value (take 4 (drop 67 bytes))), stream_tile = of_nat (le_value (take 4 (drop 71 bytes)))\<rparr>,
      checkpoint_index = of_nat (le_value (drop 75 bytes))\<rparr>" and v: "validate_versions c = Ok ()"
    using ok by (auto simp: from_canonical_le_bytes_def frame_lengths slice_of_def Let_def split: if_splits outcome.splits)
  show "c = current_checkpoint (checkpoint_key c) (checkpoint_index c)" using v by (simp only: versions_Ok)
  have cut: "drop i bytes = take k (drop i bytes) @ drop (i + k) bytes" for i k
    by (metis append_take_drop_id drop_drop add.commute)
  have "bytes = take 8 bytes @ take 43 (drop 8 bytes) @ take 4 (drop 51 bytes) @ take 4 (drop 55 bytes) @ take 8 (drop 59 bytes)
      @ take 4 (drop 67 bytes) @ take 4 (drop 71 bytes) @ drop 75 bytes"
    using cut [of 0 8] cut [of 8 43] cut [of 51 4] cut [of 55 4] cut [of 59 8] cut [of 67 4] cut [of 71 4] by simp
  then show "bytes = to_canonical_le_bytes c"
    using len unfolding to_canonical_le_bytes_def c by (simp add: bytes_word_back magic domain)
qed

section \<open>Positions\<close>

lemma position_words_inj:
  "encode_stream_position key index = encode_stream_position key' index' \<longleftrightarrow> key = key' \<and> index = index'"
proof
  have halves: "v = w" if "ucast v = (ucast w :: u32)" "ucast (drop_bit 32 v) = (ucast (drop_bit 32 w) :: u32)" for v w :: u64
  proof (rule bit_word_eqI)
    fix i assume "i < LENGTH(64)"
    then have "i < 32 \<or> i = 32 + (i - 32) \<and> i - 32 < 32" by auto
    then consider "i < 32" | j where "i = 32 + j" "j < 32" by blast
    then show "bit v i = bit w i"
    proof cases
      case 1
      then show ?thesis using arg_cong [OF that(1), of "\<lambda>u. bit u i"] by (simp add: bit_ucast_iff)
    next
      case 2
      then show ?thesis using arg_cong [OF that(2), of "\<lambda>u. bit u j"] by (simp add: bit_ucast_iff bit_drop_bit_eq)
    qed
  qed
  assume "encode_stream_position key index = encode_stream_position key' index'"
  then have "stream_tile key = stream_tile key'" "stream_kernel key = stream_kernel key'"
    and words: "(ucast index :: u32) = ucast index'" "(ucast (drop_bit 32 index) :: u32) = ucast (drop_bit 32 index')"
    and seeds: "(ucast (stream_seed key) :: u32) = ucast (stream_seed key')"
      "(ucast (drop_bit 32 (stream_seed key)) :: u32) = ucast (drop_bit 32 (stream_seed key'))"
    by (simp_all add: encode_stream_position_def)
  then show "key = key' \<and> index = index'" using halves [OF words] halves [OF seeds] by (cases key; cases key') simp
qed simp

lemma blocks_under_one_seed:
  assumes "stream_seed key = stream_seed key'"
  shows "stream_at key index = stream_at key' index' \<longleftrightarrow> key = key' \<and> index = index'"
proof -
  have words: "snd (encode_stream_position key index) = snd (encode_stream_position key' index')"
    using assms by (simp add: encode_stream_position_def)
  have "stream_at key index = stream_at key' index' \<longleftrightarrow> fst (encode_stream_position key index) = fst (encode_stream_position key' index')"
    unfolding stream_at_def Let_def case_prod_unfold words using inj_eq [OF philox_inj] by blast
  also have "\<dots> \<longleftrightarrow> key = key' \<and> index = index'" using words position_words_inj by (metis prod_eq_iff)
  finally show ?thesis .
qed

lemma from_exec_parts_Ok:
  "from_exec_parts seed kernel_id tile iteration = Ok key \<longleftrightarrow>
    unat kernel_id \<le> u32_max \<and> unat tile \<le> u32_max \<and> iteration = 0
    \<and> key = \<lparr>stream_seed = seed, stream_kernel = ucast kernel_id, stream_tile = ucast tile\<rparr>"
  by (auto simp: from_exec_parts_def)

lemma narrow_inj:
  assumes "unat (a :: u64) \<le> u32_max" "unat b \<le> u32_max"
  shows "(ucast a :: u32) = ucast b \<longleftrightarrow> a = b"
proof -
  have "unat (ucast w :: u32) = unat w" if "unat (w :: u64) \<le> u32_max" for w
    using that by (simp add: unsigned_ucast_eq take_bit_eq_mod u32_max_def)
  then show ?thesis using assms by (metis word_unat_eq_iff)
qed

section \<open>Bounded draws\<close>

lemma below_loop_some:
  assumes "\<forall>j<k. \<not> below_accepts n (word_at (position_key self) (position_index self + of_nat j))"
    and "below_accepts n (word_at (position_key self) (position_index self + of_nat k))"
  shows "below_loop n self = Some (below_value n (word_at (position_key self) (position_index self + of_nat k)),
    self\<lparr>position_index := position_index self + of_nat k + 1\<rparr>)"
  using assms
proof (induction k arbitrary: self)
  case 0
  then show ?case by (subst below_loop.simps) (simp add: next_u64_def word_at_def)
next
  case (Suc k)
  let ?later = "self\<lparr>position_index := position_index self + 1\<rparr>"
  have "\<not> below_accepts n (word_at (position_key self) (position_index self))" using Suc.prems(1) by force
  then have "below_loop n self = below_loop n ?later" by (subst below_loop.simps) (simp add: next_u64_def word_at_def)
  also have "\<dots> = Some (below_value n (word_at (position_key ?later) (position_index ?later + of_nat k)),
      ?later\<lparr>position_index := position_index ?later + of_nat k + 1\<rparr>)"
  proof (rule Suc.IH)
    show "\<forall>j<k. \<not> below_accepts n (word_at (position_key ?later) (position_index ?later + of_nat j))"
    proof (intro allI impI)
      fix j assume "j < k"
      then show "\<not> below_accepts n (word_at (position_key ?later) (position_index ?later + of_nat j))"
        using Suc.prems(1) [rule_format, of "Suc j"] by (simp add: add.assoc)
    qed
    show "below_accepts n (word_at (position_key ?later) (position_index ?later + of_nat k))"
      using Suc.prems(2) by (simp add: add.assoc)
  qed
  finally show ?case by (simp add: ac_simps)
qed

lemma below_loop_returns:
  assumes "below_loop n self = Some out"
  shows "\<exists>k. below_accepts n (word_at (position_key self) (position_index self + of_nat k))"
proof (rule below_loop.raw_induct [where P = "\<lambda>n self out.
    \<exists>k. below_accepts n (word_at (position_key self) (position_index self + of_nat k))", OF _ assms])
  fix loop n self and out :: "u64 \<times> stream"
  assume later: "\<And>n self out. loop n self = Some out \<Longrightarrow>
      \<exists>k. below_accepts n (word_at (position_key self) (position_index self + of_nat k))"
    and this_turn: "(let (x, self) = next_u64 self in if below_accepts n x then Some (below_value n x, self) else loop n self) = Some out"
  show "\<exists>k. below_accepts n (word_at (position_key self) (position_index self + of_nat k))"
  proof (cases "below_accepts n (word_at (position_key self) (position_index self))")
    case True
    then show ?thesis by (intro exI [where x = "0 :: nat"]) simp
  next
    case False
    then have "loop n (self\<lparr>position_index := position_index self + 1\<rparr>) = Some out"
      using this_turn by (simp add: next_u64_def word_at_def)
    from later [OF this] have "\<exists>k. below_accepts n (word_at (position_key self) (position_index self + 1 + of_nat k))" by simp
    then obtain k where "below_accepts n (word_at (position_key self) (position_index self + 1 + of_nat k))" by blast
    then show ?thesis by (intro exI [of _ "Suc k"]) (simp add: add.assoc)
  qed
qed

lemma first_accepted:
  assumes "below_accepts n (word_at (position_key self) (position_index self + of_nat k))"
  obtains m where "\<forall>j<m. \<not> below_accepts n (word_at (position_key self) (position_index self + of_nat j))"
    "below_accepts n (word_at (position_key self) (position_index self + of_nat m))"
  using assms exists_least_iff [of "\<lambda>k. below_accepts n (word_at (position_key self) (position_index self + of_nat k))"] by blast

lemma below_loop_stuck:
  assumes "below_loop n self = None"
  shows "\<not> below_accepts n (word_at (position_key self) (position_index self + of_nat k))"
proof
  assume "below_accepts n (word_at (position_key self) (position_index self + of_nat k))"
  then obtain m where "below_loop n self = Some (below_value n (word_at (position_key self) (position_index self + of_nat m)),
      self\<lparr>position_index := position_index self + of_nat m + 1\<rparr>)"
    by (rule first_accepted) (blast dest: below_loop_some)
  then show False using assms by simp
qed

text \<open>The words accepted for one value: as many as there are multiples of the bound in an interval of its own length.\<close>

lemma u64_less: "unat (w :: u64) < 18446744073709551616"
  using unsigned_less [of w, where ?'a = nat] by (simp del: unsigned_less)

lemma below_readings:
  "unat (ucast (wide_product x n) :: u64) = unat x * unat n mod 2 ^ 64" "unat (below_value n x) = unat x * unat n div 2 ^ 64"
proof -
  have "unat x * unat n < 2 ^ 64 * 2 ^ 64"
    using unsigned_less [of x, where ?'a = nat] unsigned_less [of n, where ?'a = nat] by (intro mult_strict_mono') simp_all
  then have less: "unat x * unat n < 2 ^ 128" by simp
  moreover have "unat x < 2 ^ 128" "unat n < 2 ^ 128"
    using unsigned_less [of x, where ?'a = nat] unsigned_less [of n, where ?'a = nat] by simp_all
  ultimately have wide: "unat (wide_product x n) = unat x * unat n"
    by (simp add: wide_product_def unat_word_ariths unsigned_ucast_eq take_bit_eq_mod)
  then show "unat (ucast (wide_product x n) :: u64) = unat x * unat n mod 2 ^ 64" by (simp add: unsigned_ucast_eq take_bit_eq_mod)
  have "unat x * unat n div 2 ^ 64 < 2 ^ 64" using less by (intro less_mult_imp_div_less) simp
  then show "unat (below_value n x) = unat x * unat n div 2 ^ 64"
    by (simp add: below_value_def unsigned_ucast_eq take_bit_eq_mod drop_bit_eq_div unat_div wide)
qed

lemma below_value_less:
  assumes "n \<noteq> 0"
  shows "below_value n x < n"
proof -
  have "unat x * unat n < 2 ^ 64 * unat n" using assms unsigned_less [of x, where ?'a = nat] by (simp add: unat_gt_0)
  then have "unat x * unat n div 2 ^ 64 < unat n" by (intro less_mult_imp_div_less) (simp add: mult.commute)
  then show ?thesis by (simp only: word_less_nat_alt below_readings)
qed

lemma below_threshold:
  fixes n :: u64
  assumes "n \<noteq> 0"
  shows "unat ((- n) mod n) = 2 ^ 64 mod unat n"
proof -
  have "unat n < 2 ^ 64" "0 < unat n" using assms u64_less [of n] by (simp_all add: unat_gt_0)
  then have "unat (- n) = 2 ^ 64 - unat n" using of_nat_inverse [of "2 ^ 64 - unat n" "- n"] by (simp add: of_nat_diff)
  then have "unat (- n) + unat n = 2 ^ 64" using \<open>unat n < 2 ^ 64\<close> by simp
  then show ?thesis by (metis mod_add_self2 unat_mod)
qed

lemma multiples_in_interval:
  fixes n q start :: nat
  assumes "0 < n"
  shows "{k. start \<le> k * n \<and> k * n < start + q * n} = {(start + n - 1) div n ..< (start + n - 1) div n + q}"
proof -
  have "start \<le> k * n \<longleftrightarrow> (start + n - 1) div n \<le> k" for k start
  proof -
    have "(start + n - 1) div n \<le> k \<longleftrightarrow> (start + n - 1) div n < Suc k" by auto
    also have "\<dots> \<longleftrightarrow> start + n - 1 < Suc k * n" using assms by (simp add: div_less_iff_less_mult)
    also have "\<dots> \<longleftrightarrow> start \<le> k * n" using assms by auto
    finally show ?thesis by simp
  qed
  from this [of start] this [of "start + q * n"] have bounds: "start \<le> k * n \<longleftrightarrow> (start + n - 1) div n \<le> k"
    "k * n < start + q * n \<longleftrightarrow> \<not> (start + q * n + n - 1) div n \<le> k" for k
    by (simp_all add: not_le [symmetric])
  have "start + q * n + n - 1 = start + n - 1 + q * n" using assms by simp
  then have "(start + q * n + n - 1) div n = (start + n - 1) div n + q" 
    using assms by (simp only: div_mult_self1 add.commute [of q] neq0_conv simp_thms)
  with bounds show ?thesis by auto
qed

lemma card_words: "card {x :: 'a :: len word. holds (unat x)} = card {k. k < 2 ^ LENGTH('a) \<and> holds k}"
proof -
  have "unat ` {x :: 'a word. holds (unat x)} = {k. k < 2 ^ LENGTH('a) \<and> holds k}"
  proof (intro equalityI subsetI)
    fix k assume "k \<in> {k. k < 2 ^ LENGTH('a) \<and> holds k}"
    then show "k \<in> unat ` {x :: 'a word. holds (unat x)}"
      by (intro image_eqI [where x = "of_nat k"]) (simp_all add: unat_of_nat)
  qed auto
  moreover have "inj_on unat {x :: 'a word. holds (unat x)}" by (simp add: inj_on_def word_unat_eq_iff)
  ultimately show ?thesis using card_image by metis
qed

lemma len_num_64: "LENGTH(64) = 64" by simp

lemma reading_in_range:
  fixes low m r width :: nat
  assumes "low < width"
  shows "low \<le> m mod width \<and> m div width = r \<longleftrightarrow> r * width + low \<le> m \<and> m < Suc r * width"
proof
  assume m: "low \<le> m mod width \<and> m div width = r"
  then have "m = r * width + m mod width" "m mod width < width"
    using div_mult_mod_eq [of m width] mod_less_divisor [of width m] assms by (metis, linarith)
  with m show "r * width + low \<le> m \<and> m < Suc r * width" by (metis add_le_cancel_left add_less_cancel_left add.commute mult_Suc)
next
  assume "r * width + low \<le> m \<and> m < Suc r * width"
  then have "m = r * width + (m - r * width)" "low \<le> m - r * width" "m - r * width < width" by auto
  then show "low \<le> m mod width \<and> m div width = r"
    by (metis add.right_neutral assms div_less div_mult_self3 less_nat_zero_code mod_less mod_mult_self3)
qed

lemma accepted_with_value:
  assumes n: "n \<noteq> 0" and r: "r < n"
  shows "card {x. below_accepts n x \<and> below_value n x = r} = 2 ^ 64 div unat n"
proof -
  define N R T :: nat where "N = unat n" and "R = unat r" and "T = 2 ^ 64 mod unat n"
  have N: "0 < N" "R < N" using assms by (simp_all add: N_def R_def unat_gt_0 word_less_nat_alt)
  have split: "2 ^ 64 = T + 2 ^ 64 div N * N" by (simp add: T_def N_def)
  have reading: "below_accepts n x \<and> below_value n x = r \<longleftrightarrow> T \<le> unat x * N mod 2 ^ 64 \<and> unat x * N div 2 ^ 64 = R" for x
    unfolding below_accepts_def word_le_nat_alt below_threshold [OF n] word_unat_eq_iff below_readings N_def R_def T_def ..
  have placed: "k < 2 ^ 64 \<and> T \<le> k * N mod 2 ^ 64 \<and> k * N div 2 ^ 64 = R
      \<longleftrightarrow> R * 2 ^ 64 + T \<le> k * N \<and> k * N < (R * 2 ^ 64 + T) + 2 ^ 64 div N * N" for k
  proof -
    have top: "(R * 2 ^ 64 + T) + 2 ^ 64 div N * N = Suc R * 2 ^ 64" using split by simp
    have "k < 2 ^ 64" if "k * N < Suc R * 2 ^ 64"
    proof -
      have "Suc R * 2 ^ 64 \<le> N * 2 ^ 64" using N(2) by (intro mult_le_mono1) simp
      with that have "k * N < 2 ^ 64 * N" by (simp only: mult.commute [of "2 ^ 64"])
      then show ?thesis using N by simp
    qed
    moreover have "T \<le> m mod 2 ^ 64 \<and> m div 2 ^ 64 = R \<longleftrightarrow> R * 2 ^ 64 + T \<le> m \<and> m < Suc R * 2 ^ 64" for m :: nat
    proof -
      have "T < N" using N(1) by (simp add: T_def N_def)
      then have "T < 2 ^ 64" using u64_less [of n] by (simp add: N_def)
      then show ?thesis by (rule reading_in_range)
    qed
    ultimately show ?thesis unfolding top by blast
  qed
  have "card {x. below_accepts n x \<and> below_value n x = r} = card {k. R * 2 ^ 64 + T \<le> k * N \<and> k * N < (R * 2 ^ 64 + T) + 2 ^ 64 div N * N}"
    using card_words [where ?'a = 64, of "\<lambda>k. T \<le> k * N mod 2 ^ 64 \<and> k * N div 2 ^ 64 = R"]
    by (simp only: reading placed len_num_64)
  also have "\<dots> = 2 ^ 64 div N" unfolding multiples_in_interval [OF N(1)] by simp
  finally show ?thesis by (simp only: N_def)
qed

section \<open>Properties\<close>

text \<open>C38. Bulk filling writes what as many sequential draws give, and leaves the stream where they leave it.\<close>

theorem bulk_fill_is_sequential: "fill_u64 len self = draw_words len self"
proof -
  have "draw_words len self = draw_words (len div FILL_LANES * FILL_LANES + len mod FILL_LANES) self" by simp
  then show ?thesis
    unfolding fill_u64_def fill_chunks_draws by (simp only: draw_words_add case_prod_unfold Let_def)
qed

text \<open>C36. Under one seed, two logical positions that the bridge accepts read the same block only when kernel, tile and index agree.\<close>

theorem stream_positions_distinct:
  assumes "from_exec_parts seed kernel_id tile iteration = Ok key" "from_exec_parts seed kernel_id' tile' iteration' = Ok key'"
  shows "stream_at key index = stream_at key' index' \<longleftrightarrow> kernel_id = kernel_id' \<and> tile = tile' \<and> index = index'"
  using assms narrow_inj [of kernel_id kernel_id'] narrow_inj [of tile tile']
  by (auto simp: from_exec_parts_Ok blocks_under_one_seed)

theorem stream_positions_distinct_witness:
  "stream_at \<lparr>stream_seed = 7, stream_kernel = 1, stream_tile = 2\<rparr> 5 \<noteq> stream_at \<lparr>stream_seed = 7, stream_kernel = 1, stream_tile = 3\<rparr> 5"
  using stream_positions_distinct [of 7 1 2 0 "\<lparr>stream_seed = 7, stream_kernel = 1, stream_tile = 2\<rparr>" 1 3 0
      "\<lparr>stream_seed = 7, stream_kernel = 1, stream_tile = 3\<rparr>" 5 5]
  by (simp add: from_exec_parts_def u32_max_def)

text \<open>C37. A checkpoint decodes from exactly the canonical bytes of a current checkpoint, and a stream resumed from the bytes
  retained after some draws draws on as the uninterrupted stream does.\<close>

theorem checkpoints_resume_exactly:
  "(from_canonical_le_bytes bytes = Ok c \<longleftrightarrow>
      bytes = to_canonical_le_bytes c \<and> c = current_checkpoint (checkpoint_key c) (checkpoint_index c))
    \<and> map_outcome id (draw_words b) (resume_retained (to_canonical_le_bytes (stream_checkpoint_of (snd (draw_words a self)))))
        = Ok (drop a (fst (draw_words (a + b) self)), snd (draw_words (a + b) self))"
proof
  show "from_canonical_le_bytes bytes = Ok c \<longleftrightarrow>
      bytes = to_canonical_le_bytes c \<and> c = current_checkpoint (checkpoint_key c) (checkpoint_index c)"
    using checkpoint_encode_decode [of bytes c] checkpoint_decode_encode [of c] by auto
  define s where "s = snd (draw_words a self)"
  have "resume_retained (to_canonical_le_bytes (stream_checkpoint_of s)) = Ok s"
    using checkpoint_decode_encode [of "stream_checkpoint_of s"]
    by (simp add: resume_retained_def stream_resume_def stream_checkpoint_of_def current_checkpoint_def validate_versions_def)
  moreover have "length (fst (draw_words a self)) = a" by (simp add: draw_words_are)
  ultimately show "map_outcome id (draw_words b) (resume_retained (to_canonical_le_bytes (stream_checkpoint_of (snd (draw_words a self)))))
      = Ok (drop a (fst (draw_words (a + b) self)), snd (draw_words (a + b) self))"
    unfolding draw_words_add [of a b] s_def [symmetric] by simp
qed

text \<open>C35. A bounded draw panics on the zero bound; otherwise it returns exactly when some later word is accepted, with the value
  of the first accepted one and the stream just after it, and that value is below the bound.\<close>

theorem bounded_draw_first_accepted:
  "next_below n self = Some (Ok (v, self')) \<longleftrightarrow>
     n \<noteq> 0 \<and> v < n \<and> (\<exists>k. (\<forall>j<k. \<not> below_accepts n (word_at (position_key self) (position_index self + of_nat j)))
       \<and> below_accepts n (word_at (position_key self) (position_index self + of_nat k))
       \<and> v = below_value n (word_at (position_key self) (position_index self + of_nat k))
       \<and> self' = self\<lparr>position_index := position_index self + of_nat k + 1\<rparr>)"
    (is "_ \<longleftrightarrow> ?first")
proof
  assume "next_below n self = Some (Ok (v, self'))"
  then have n: "n \<noteq> 0" and out: "below_loop n self = Some (v, self')" by (auto simp: next_below_def split: if_splits)
  from below_loop_returns [OF out] obtain k where "below_accepts n (word_at (position_key self) (position_index self + of_nat k))" by blast
  then obtain m where m: "\<forall>j<m. \<not> below_accepts n (word_at (position_key self) (position_index self + of_nat j))"
    "below_accepts n (word_at (position_key self) (position_index self + of_nat m))" by (rule first_accepted)
  with out have "v = below_value n (word_at (position_key self) (position_index self + of_nat m))"
    "self' = self\<lparr>position_index := position_index self + of_nat m + 1\<rparr>" by (simp_all add: below_loop_some)
  with n m below_value_less [OF n] show ?first by blast
next
  assume ?first
  then show "next_below n self = Some (Ok (v, self'))" by (auto simp: next_below_def below_loop_some)
qed

theorem bounded_draw_first_accepted_witness:
  "next_below 6 (open_stream \<lparr>stream_seed = 0, stream_kernel = 0, stream_tile = 0\<rparr>)
    = Some (Ok (5, \<lparr>position_key = \<lparr>stream_seed = 0, stream_kernel = 0, stream_tile = 0\<rparr>, position_index = 1\<rparr>))"
proof -
  have word: "word_at \<lparr>stream_seed = 0, stream_kernel = 0, stream_tile = 0\<rparr> 0 = 0xe169c58d6627e8d5" by code_simp
  show ?thesis
    unfolding bounded_draw_first_accepted open_stream_def
    by (intro conjI exI [where x = "0 :: nat"]) (simp_all add: word below_accepts_def below_value_def wide_product_def)
qed

text \<open>C34. Rejection leaves a bounded draw unbiased: of all words, equally many are accepted for every value below the bound,
  as many as the bound goes whole into the range of a word.\<close>

theorem bounded_draws_unbiased:
  assumes "n \<noteq> 0" "r < n"
  shows "card {x. below_accepts n x \<and> below_value n x = r} = 2 ^ 64 div unat n"
  using assms by (rule accepted_with_value)

theorem bounded_draws_unbiased_witness:
  "card {x. below_accepts 6 x \<and> below_value 6 x = 5} = 3074457345618258602"
  using bounded_draws_unbiased [of 6 5] by simp

end
