(* ===== verification/Sobol.thy ===== *)
theory Sobol
  imports Rand_Stream
begin

text \<open>
  Sobol points and their Owen scrambling (\<open>crates/fs-rand/src/qmc.rs\<close>): the direction vectors of the embedded table,
  the Gray-code points, and the lazily drawn tree of flips. A coordinate is the exact quotient of a 32-bit word
  by \<open>2 ^ 32\<close>; the model keeps the word.
\<close>

section \<open>Direction vectors\<close>

definition MAX_SOBOL_DIM :: nat where "MAX_SOBOL_DIM = 10"
definition BITS :: nat where "BITS = 32"

definition JOE_KUO :: "(nat \<times> u32 \<times> u32 list) list" where
  "JOE_KUO =
    [(1, 0, [1]), (2, 1, [1, 3]), (3, 1, [1, 3, 1]), (3, 2, [1, 1, 1]), (4, 1, [1, 1, 3, 3]), (4, 4, [1, 3, 5, 13]),
     (5, 2, [1, 1, 5, 5, 17]), (5, 4, [1, 1, 5, 5, 5]), (5, 7, [1, 1, 7, 11, 19])]"

definition van_der_corput :: "u32 list" where
  "van_der_corput = map (\<lambda>k. push_bit (31 - k) 1) [0..<BITS]"

definition initial_admitted :: "u32 list \<Rightarrow> bool" where
  "initial_admitted m = list_all (\<lambda>(k, mk). mk mod 2 = 1 \<and> mk < push_bit k 2) (zip [0..<length m] m)"

definition recurrence_terms :: "nat \<Rightarrow> u32 \<Rightarrow> u32 list \<Rightarrow> nat \<Rightarrow> u32 \<Rightarrow> u32" where
  "recurrence_terms s a v k =
    fold (\<lambda>i val. if drop_bit (s - 1 - i) a AND 1 = 1 then val XOR v ! (k - i) else val) [1..<s]"

definition direction_step :: "nat \<Rightarrow> u32 \<Rightarrow> u32 list \<Rightarrow> nat \<Rightarrow> u32 list \<Rightarrow> u32 list" where
  "direction_step s a m k v =
    (if k < s then v[k := push_bit (31 - k) (m ! k)]
     else v[k := recurrence_terms s a v k (v ! (k - s) XOR drop_bit s (v ! (k - s)))])"

definition direction_row :: "nat \<times> u32 \<times> u32 list \<Rightarrow> u32 list" where
  "direction_row = (\<lambda>(s, a, m). fold (direction_step s a m) [0..<BITS] (replicate BITS 0))"

record sobol =
  directions :: "u32 list list"
  scramble :: "u64 option"

definition sobol_new :: "nat \<Rightarrow> ('e, sobol) outcome" where
  "sobol_new dimension =
    (if dimension < 1 \<or> MAX_SOBOL_DIM < dimension then Panicked
     else if \<not> list_all (\<lambda>(_, _, m). initial_admitted m) (take (dimension - 1) JOE_KUO) then Panicked
     else Ok \<lparr>directions = van_der_corput # map direction_row (take (dimension - 1) JOE_KUO), scramble = None\<rparr>)"

definition scrambled :: "nat \<Rightarrow> u64 \<Rightarrow> ('e, sobol) outcome" where
  "scrambled dimension seed = map_outcome id (\<lambda>s. s\<lparr>scramble := Some seed\<rparr>) (sobol_new dimension)"

section \<open>Points\<close>

text \<open>The flips of a digit string, from the most significant digit on: each is drawn for the digits above it.\<close>

definition flip_at :: "u64 \<Rightarrow> u32 \<Rightarrow> nat \<Rightarrow> u32 \<Rightarrow> u32" where
  "flip_at seed dimension b prefix_digits =
    (case stream_at \<lparr>stream_seed = seed, stream_kernel = 0x0E11, stream_tile = dimension\<rparr>
        (push_bit 32 (of_nat b) OR ucast prefix_digits) of (w, _, _, _) \<Rightarrow> w AND 1)"

definition owen_step :: "u32 \<Rightarrow> u64 \<Rightarrow> u32 \<Rightarrow> nat \<Rightarrow> u32 \<Rightarrow> u32" where
  "owen_step x seed dimension b y =
    (let bit_pos = 31 - b;
         prefix_digits = if b = 0 then 0 else drop_bit (bit_pos + 1) x;
         digit = (drop_bit bit_pos x AND 1) XOR flip_at seed dimension b prefix_digits
     in y OR push_bit bit_pos digit)"

definition owen_scramble :: "u32 \<Rightarrow> u64 \<Rightarrow> u32 \<Rightarrow> u32" where
  "owen_scramble x seed dimension = fold (owen_step x seed dimension) [0..<BITS] 0"

definition gray_code :: "u32 \<Rightarrow> u32" where
  "gray_code n = n XOR drop_bit 1 n"

definition digits_of :: "u32 list \<Rightarrow> u32 \<Rightarrow> u32" where
  "digits_of row gray = fold (\<lambda>k x. if drop_bit k gray AND 1 = 1 then x XOR row ! k else x) [0..<BITS] 0"

definition coordinate :: "sobol \<Rightarrow> u64 option \<Rightarrow> u32 \<Rightarrow> nat \<Rightarrow> u32" where
  "coordinate self scrambling n d =
    (let x = digits_of (directions self ! d) (gray_code n)
     in case scrambling of None \<Rightarrow> x | Some seed \<Rightarrow> owen_scramble x seed (of_nat d))"

definition point_with_optional_owen_scramble :: "sobol \<Rightarrow> u32 \<Rightarrow> u64 option \<Rightarrow> u32 list" where
  "point_with_optional_owen_scramble self n scrambling = map (coordinate self scrambling n) [0..<length (directions self)]"

text \<open>The output slice is asserted to have one place per dimension.\<close>

definition sobol_point :: "sobol \<Rightarrow> u32 \<Rightarrow> nat \<Rightarrow> ('e, u32 list) outcome" where
  "sobol_point self n out_len =
    (if out_len \<noteq> length (directions self) then Panicked else Ok (point_with_optional_owen_scramble self n (scramble self)))"

definition point_with_owen_scramble :: "sobol \<Rightarrow> u32 \<Rightarrow> nat \<Rightarrow> u64 \<Rightarrow> ('e, u32 list) outcome" where
  "point_with_owen_scramble self n out_len seed =
    (if out_len \<noteq> length (directions self) then Panicked else Ok (point_with_optional_owen_scramble self n (Some seed)))"

definition sobol_points :: "sobol \<Rightarrow> u32 \<Rightarrow> u32 list" where
  "sobol_points self n = concat (map (\<lambda>i. point_with_optional_owen_scramble self (of_nat i) (scramble self)) [0..<unat n])"

section \<open>Direction vectors are triangular\<close>

text \<open>The lowest digit of the vector at \<open>k\<close> is the digit \<open>31 - k\<close>.\<close>

definition lowest_digit :: "u32 \<Rightarrow> nat \<Rightarrow> bool" where
  "lowest_digit w j \<longleftrightarrow> bit w j \<and> (\<forall>i<j. \<not> bit w i)"

definition triangular :: "u32 list \<Rightarrow> bool" where
  "triangular row \<longleftrightarrow> length row = 32 \<and> (\<forall>k<32. lowest_digit (row ! k) (31 - k))"

lemma and_1_bit: "drop_bit k (w :: 'a :: len word) AND 1 = 1 \<longleftrightarrow> bit w k"
  by (simp add: and_one_eq bit_iff_odd_drop_bit odd_iff_mod_2_eq_one)

lemma van_der_corput_triangular: "triangular van_der_corput"
  by (auto simp: triangular_def lowest_digit_def van_der_corput_def BITS_def bit_exp_iff)

lemma push_odd_lowest:
  assumes "(w :: u32) mod 2 = 1" "k < 32"
  shows "lowest_digit (push_bit (31 - k) w) (31 - k)"
  using assms by (auto simp: lowest_digit_def bit_push_bit_iff bit_0 odd_iff_mod_2_eq_one)

lemma recurrence_keeps_lowest:
  assumes row: "\<And>i. i < k \<Longrightarrow> lowest_digit (v ! i) (31 - i)" and k: "s \<le> k" "k < 32" and val: "lowest_digit val (31 - k)"
  shows "lowest_digit (recurrence_terms s a v k val) (31 - k)"
proof -
  let ?turn = "\<lambda>i val. if drop_bit (s - 1 - i) a AND 1 = 1 then val XOR v ! (k - i) else val"
  have "lowest_digit (fold ?turn is val) (31 - k)" if "\<forall>i\<in>set is. 0 < i \<and> i < s" for "is"
    using that val
  proof (induction "is" arbitrary: val)
    case (Cons i "is")
    have "lowest_digit (v ! (k - i)) (31 - (k - i))" using row [of "k - i"] Cons.prems(1) k by simp
    moreover have "31 - k < 31 - (k - i)" using Cons.prems(1) k by auto
    ultimately have "lowest_digit (?turn i val) (31 - k)" using Cons.prems(2) by (auto simp: lowest_digit_def bit_xor_iff)
    then show ?case using Cons by simp
  qed simp
  then show ?thesis unfolding recurrence_terms_def by (simp add: Suc_le_eq)
qed

lemma direction_rows_triangular:
  assumes admitted: "initial_admitted m" and s: "0 < s" "length m = s"
  shows "triangular (direction_row (s, a, m))"
proof -
  have odd: "m ! k mod 2 = 1" if "k < s" for k
    using admitted that s(2) by (auto simp: initial_admitted_def list_all_length)
  have "length (fold (direction_step s a m) [0..<r] (replicate BITS 0)) = 32
      \<and> (\<forall>k<r. lowest_digit (fold (direction_step s a m) [0..<r] (replicate BITS 0) ! k) (31 - k))" if "r \<le> 32" for r
    using that
  proof (induction r)
    case (Suc r)
    define v where "v = fold (direction_step s a m) [0..<r] (replicate BITS 0)"
    have v: "length v = 32" "\<forall>k<r. lowest_digit (v ! k) (31 - k)" and r: "r < 32" using Suc by (simp_all add: v_def)
    have "lowest_digit (direction_step s a m r v ! r) (31 - r)"
    proof (cases "r < s")
      case True
      then show ?thesis using push_odd_lowest [OF odd [OF True] r] v(1) r by (simp add: direction_step_def)
    next
      case False
      then have earlier: "lowest_digit (v ! (r - s)) (31 - (r - s))" using v(2) [rule_format, of "r - s"] s by simp
      have place: "31 - (r - s) = s + (31 - r)" using False r by simp
      have "lowest_digit (v ! (r - s) XOR drop_bit s (v ! (r - s))) (31 - r)"
        using earlier s(1) unfolding place by (auto simp: lowest_digit_def bit_xor_iff bit_drop_bit_eq)
      then have "lowest_digit (recurrence_terms s a v r (v ! (r - s) XOR drop_bit s (v ! (r - s)))) (31 - r)"
        using v(2) False r by (intro recurrence_keeps_lowest) auto
      then show ?thesis using False v(1) r by (simp add: direction_step_def)
    qed
    moreover have "length (direction_step s a m r v) = 32" "\<forall>k<r. direction_step s a m r v ! k = v ! k"
      using v(1) by (simp_all add: direction_step_def)
    ultimately show ?case using v(2) by (auto simp: v_def less_Suc_eq)
  qed (simp add: BITS_def)
  from this [of 32] show ?thesis by (simp add: triangular_def direction_row_def BITS_def)
qed

lemma table_admitted: "list_all (\<lambda>(s, _, m). initial_admitted m \<and> 0 < s \<and> length m = s) JOE_KUO"
  by (simp add: JOE_KUO_def initial_admitted_def upt_rec)

lemma table_rows_triangular:
  "length (take (dimension - 1) JOE_KUO) = min 9 (dimension - 1)" "list_all (\<lambda>(_, _, m). initial_admitted m) (take r JOE_KUO)"
  "\<forall>row\<in>set (map direction_row (take r JOE_KUO)). triangular row"
proof -
  have rows: "list_all (\<lambda>(s, _, m). initial_admitted m \<and> 0 < s \<and> length m = s) (take r JOE_KUO)"
    using table_admitted by (auto simp: list_all_iff dest: in_set_takeD)
  then show "list_all (\<lambda>(_, _, m). initial_admitted m) (take r JOE_KUO)" by (auto simp: list_all_iff)
  have "triangular (direction_row row)" if "row \<in> set (take r JOE_KUO)" for row
    using rows that by (cases row) (auto simp: list_all_iff intro!: direction_rows_triangular)
  then show "\<forall>row\<in>set (map direction_row (take r JOE_KUO)). triangular row" by auto
qed (simp add: JOE_KUO_def)

lemma sobol_new_rows:
  assumes "1 \<le> dimension" "dimension \<le> MAX_SOBOL_DIM"
  obtains self where "sobol_new dimension = Ok self" "scramble self = None" "length (directions self) = dimension"
    "\<forall>d<dimension. triangular (directions self ! d)"
proof
  let ?rows = "van_der_corput # map direction_row (take (dimension - 1) JOE_KUO)"
  show "sobol_new dimension = Ok \<lparr>directions = ?rows, scramble = None\<rparr>"
    using assms table_rows_triangular(2) by (simp add: sobol_new_def)
  have count: "length ?rows = dimension"
    using table_rows_triangular(1) [of dimension] assms unfolding length_map list.size by (simp add: MAX_SOBOL_DIM_def del: length_take)
  then show "length (directions \<lparr>directions = ?rows, scramble = None\<rparr>) = dimension" by (simp only: sobol.simps)
  have "\<forall>row\<in>set ?rows. triangular row" using table_rows_triangular(3) van_der_corput_triangular by simp
  then show "\<forall>d<dimension. triangular (directions \<lparr>directions = ?rows, scramble = None\<rparr> ! d)"
    using count nth_mem [of _ ?rows] by (simp only: sobol.simps) blast
qed simp

section \<open>Points of a block\<close>

text \<open>A point is linear in its Gray code.\<close>

lemma digits_bit:
  "bit (fold (\<lambda>k x. if drop_bit k (g :: u32) AND 1 = 1 then x XOR row ! k else x) ks x) j
    = (bit x j \<noteq> odd (length (filter (\<lambda>k. bit g k \<and> bit (row ! k :: u32) j) ks)))"
  unfolding and_1_bit
proof (induction ks arbitrary: x)
  case (Cons k ks)
  then show ?case by (cases "bit g k"; cases "bit (row ! k) j") (auto simp: bit_xor_iff)
qed simp

lemma digits_linear: "digits_of row (g XOR h) = digits_of row g XOR digits_of row h"
proof (rule bit_word_eqI)
  fix j
  have "odd (length (filter (\<lambda>k. bit (g XOR h) k \<and> bit (row ! k) j) ks))
      = (odd (length (filter (\<lambda>k. bit g k \<and> bit (row ! k) j) ks)) \<noteq> odd (length (filter (\<lambda>k. bit h k \<and> bit (row ! k) j) ks)))" for ks
    by (induction ks) (auto simp: bit_xor_iff)
  then show "bit (digits_of row (g XOR h)) j = bit (digits_of row g XOR digits_of row h) j"
    unfolding digits_of_def bit_xor_iff [of "fold _ _ _"] digits_bit by simp
qed

lemma gray_linear: "gray_code (m XOR n) = gray_code m XOR gray_code n"
  by (rule bit_word_eqI) (auto simp: gray_code_def bit_xor_iff bit_drop_bit_eq)

text \<open>The highest digit of a word.\<close>

lemma highest_digit:
  assumes "(w :: u32) \<noteq> 0"
  obtains m where "m < 32" "bit w m" "\<forall>i>m. \<not> bit w i"
proof -
  define m where "m = Max {i. bit w i}"
  have fin: "finite {i. bit w i}" by (rule finite_subset [of _ "{..<32}"]) (auto dest: bit_imp_le_length)
  moreover have "{i. bit w i} \<noteq> {}" using assms by (auto simp: bit_eq_iff)
  ultimately have "m \<in> {i. bit w i}" unfolding m_def by (rule Max_in)
  then have m: "bit w m" by simp
  moreover from m have "m < 32" by (auto dest: bit_imp_le_length)
  moreover have "\<forall>i>m. \<not> bit w i" using Max_ge [OF fin] unfolding m_def [symmetric] by (metis mem_Collect_eq not_le)
  ultimately show thesis using that by blast
qed

lemma digits_highest:
  assumes row: "triangular row" and m: "m < 32" "bit g m" "\<forall>i>m. \<not> bit g i"
  shows "bit (digits_of row g) (31 - m)"
proof -
  have digit: "bit g k \<and> bit (row ! k) (31 - m) \<longleftrightarrow> k = m" if "k < 32" for k
  proof -
    consider "k < m" | "k = m" | "m < k" by (rule linorder_cases)
    then show ?thesis using row m that by cases (auto simp: triangular_def lowest_digit_def)
  qed
  have "filter (\<lambda>k. bit g k \<and> bit (row ! k) (31 - m)) [0..<32] = filter (\<lambda>k. k = m) [0..<32]"
    using digit by (intro filter_cong) auto
  moreover have "length (filter (\<lambda>k. k = m) [0..<r]) = (if m < r then 1 else 0)" for r by (induction r) auto
  ultimately show ?thesis using m(1) unfolding digits_of_def digits_bit BITS_def by simp
qed

lemma block_points_distinct:
  assumes row: "triangular row" and k: "k \<le> 32" and block: "drop_bit k n = drop_bit k n'"
    and same: "drop_bit (32 - k) (digits_of row (gray_code n)) = drop_bit (32 - k) (digits_of row (gray_code n'))"
  shows "n = n'"
proof (rule ccontr)
  assume "n \<noteq> n'"
  then have "n XOR n' \<noteq> 0" by (auto simp: bit_eq_iff bit_xor_iff)
  then obtain m where m: "m < 32" "bit (n XOR n') m" "\<forall>i>m. \<not> bit (n XOR n') i" by (rule highest_digit)
  have "m < k"
  proof (rule ccontr)
    assume "\<not> m < k"
    then show False using arg_cong [OF block, of "\<lambda>w. bit w (m - k)"] m(2) by (simp add: bit_drop_bit_eq bit_xor_iff)
  qed
  have "bit (gray_code (n XOR n')) m" "\<forall>i>m. \<not> bit (gray_code (n XOR n')) i"
    using m by (auto simp: gray_code_def bit_xor_iff bit_drop_bit_eq)
  from digits_highest [OF row m(1) this] have "bit (digits_of row (gray_code n) XOR digits_of row (gray_code n')) (31 - m)"
    by (simp only: gray_linear digits_linear)
  moreover have "31 - m = (32 - k) + (k - 1 - m)" using \<open>m < k\<close> k by simp
  ultimately show False
    using arg_cong [OF same, of "\<lambda>w. bit w (k - 1 - m)"] by (simp add: bit_drop_bit_eq bit_xor_iff)
qed

section \<open>Scrambling permutes the digit tree\<close>

definition flipped :: "u64 \<Rightarrow> u32 \<Rightarrow> nat \<Rightarrow> u32 \<Rightarrow> bool" where
  "flipped seed dimension b prefix_digits \<longleftrightarrow> bit (flip_at seed dimension b prefix_digits) 0"

lemma flip_digit: "bit (flip_at seed dimension b prefix_digits) i \<longleftrightarrow> i = 0 \<and> flipped seed dimension b prefix_digits"
  by (cases "stream_at \<lparr>stream_seed = seed, stream_kernel = 0x0E11, stream_tile = dimension\<rparr> (push_bit 32 (of_nat b) OR ucast prefix_digits)")
    (auto simp: flipped_def flip_at_def bit_and_iff bit_1_iff)

lemma owen_step_digit:
  assumes "b < 32"
  shows "bit (owen_step x seed dimension b y) p \<longleftrightarrow>
    bit y p \<or> p = 31 - b \<and> (bit x p \<noteq> flipped seed dimension b (drop_bit (Suc p) x))"
proof -
  have above: "(if b = 0 then 0 else drop_bit (31 - b + 1) x) = drop_bit (Suc (31 - b)) x"
    by (cases "b = 0") (simp, auto simp: bit_eq_iff [of 0] bit_drop_bit_eq dest: bit_imp_le_length)
  define digit where "digit = (drop_bit (31 - b) x AND 1) XOR flip_at seed dimension b (drop_bit (Suc (31 - b)) x)"
  have digit: "bit digit i \<longleftrightarrow> i = 0 \<and> (bit x (31 - b) \<noteq> flipped seed dimension b (drop_bit (Suc (31 - b)) x))" for i
    by (auto simp: digit_def bit_xor_iff bit_and_iff bit_drop_bit_eq bit_1_iff flip_digit)
  have "owen_step x seed dimension b y = y OR push_bit (31 - b) digit"
    unfolding owen_step_def Let_def above digit_def ..
  then show ?thesis by (auto simp: bit_or_iff bit_push_bit_iff digit)
qed

lemma owen_digit:
  assumes "p < 32"
  shows "bit (owen_scramble x seed dimension) p \<longleftrightarrow> bit x p \<noteq> flipped seed dimension (31 - p) (drop_bit (Suc p) x)"
proof -
  have "bit (fold (owen_step x seed dimension) [0..<r] 0) p \<longleftrightarrow>
      31 - p < r \<and> (bit x p \<noteq> flipped seed dimension (31 - p) (drop_bit (Suc p) x))" if "r \<le> 32" for r
    using that
  proof (induction r)
    case (Suc r)
    have "p = 31 - r \<longleftrightarrow> 31 - p = r" using assms Suc.prems by auto
    then show ?case using Suc by (auto simp: owen_step_digit less_Suc_eq)
  qed simp
  moreover have "31 - p < 32" by simp
  ultimately show ?thesis unfolding owen_scramble_def BITS_def by blast
qed

lemma same_above:
  assumes "drop_bit k (x :: u32) = drop_bit k y" "k \<le> p"
  shows "bit x p = bit y p" "drop_bit (Suc p) x = drop_bit (Suc p) y"
proof -
  have "bit x q = bit y q" if "k \<le> q" for q
    using arg_cong [OF assms(1), of "\<lambda>w. bit w (q - k)"] that by (simp add: bit_drop_bit_eq)
  then show "bit x p = bit y p" "drop_bit (Suc p) x = drop_bit (Suc p) y" using assms(2) by (auto simp: bit_eq_iff bit_drop_bit_eq)
qed

lemma scramble_keeps_prefixes:
  "drop_bit k (owen_scramble x seed dimension) = drop_bit k (owen_scramble y seed dimension) \<longleftrightarrow> drop_bit k x = drop_bit k y"
proof
  assume same: "drop_bit k (owen_scramble x seed dimension) = drop_bit k (owen_scramble y seed dimension)"
  show "drop_bit k x = drop_bit k y"
  proof (rule ccontr)
    assume "drop_bit k x \<noteq> drop_bit k y"
    then have "drop_bit k x XOR drop_bit k y \<noteq> 0" by (auto simp: bit_eq_iff bit_xor_iff)
    then obtain m where m: "bit (drop_bit k x XOR drop_bit k y) m" "\<forall>i>m. \<not> bit (drop_bit k x XOR drop_bit k y) i"
      by (rule highest_digit) blast
    then have differ: "bit x (k + m) \<noteq> bit y (k + m)" by (simp add: bit_xor_iff bit_drop_bit_eq)
    have "drop_bit (Suc (k + m)) x = drop_bit (Suc (k + m)) y"
    proof (rule bit_word_eqI)
      fix i
      show "bit (drop_bit (Suc (k + m)) x) i = bit (drop_bit (Suc (k + m)) y) i"
        using m(2) [rule_format, of "m + Suc i"] by (simp add: bit_xor_iff bit_drop_bit_eq add.assoc)
    qed
    moreover have "k + m < 32" using differ by (auto dest: bit_imp_le_length)
    ultimately have "bit (owen_scramble x seed dimension) (k + m) \<noteq> bit (owen_scramble y seed dimension) (k + m)"
      using differ by (simp add: owen_digit)
    then show False using same_above(1) [OF same, of "k + m"] by simp
  qed
next
  assume same: "drop_bit k x = drop_bit k y"
  show "drop_bit k (owen_scramble x seed dimension) = drop_bit k (owen_scramble y seed dimension)"
  proof (rule bit_word_eqI)
    fix i
    show "bit (drop_bit k (owen_scramble x seed dimension)) i = bit (drop_bit k (owen_scramble y seed dimension)) i"
      using same_above [OF same, of "k + i"] by (cases "k + i < 32") (auto simp: bit_drop_bit_eq owen_digit dest: bit_imp_le_length)
  qed
qed

lemma coordinates_distinct:
  assumes "triangular (directions self ! d)" "k \<le> 32" "drop_bit k n = drop_bit k n'"
    and "drop_bit (32 - k) (coordinate self scrambling n d) = drop_bit (32 - k) (coordinate self scrambling n' d)"
  shows "n = n'"
  using assms block_points_distinct [OF assms(1-3)]
  by (cases scrambling) (simp_all add: coordinate_def scramble_keeps_prefixes)

section \<open>Counting a block\<close>

lemma unat_drop: "unat (drop_bit k (w :: u32)) = unat w div 2 ^ k"
proof -
  have "unat w < 4294967296" using unsigned_less [of w, where ?'a = nat] by (simp del: unsigned_less)
  then show ?thesis unfolding unsigned_drop_bit_eq by (simp add: drop_bit_eq_div take_bit_eq_mod)
qed

lemma block_card:
  assumes "k \<le> 32"
  shows "card {n :: u32. drop_bit k n = drop_bit k n0} = 2 ^ k"
proof -
  let ?c = "unat n0 div 2 ^ k"
  have "drop_bit k n = drop_bit k n0 \<longleftrightarrow> unat n div 2 ^ k = ?c" for n
    by (simp only: word_unat_eq_iff unat_drop)
  then have "card {n :: u32. drop_bit k n = drop_bit k n0} = card {m. m < 2 ^ 32 \<and> m div 2 ^ k = ?c}"
    using card_words [where ?'a = 32, of "\<lambda>m. m div 2 ^ k = ?c"] by simp
  also have "{m. m < 2 ^ 32 \<and> m div 2 ^ k = ?c} = {?c * 2 ^ k ..< Suc ?c * 2 ^ k}"
  proof -
    have split: "(2 :: nat) ^ 32 = 2 ^ (32 - k) * 2 ^ k" using assms by (simp flip: power_add)
    have "unat n0 < 2 ^ (32 - k) * 2 ^ k" unfolding split [symmetric] using unsigned_less [of n0, where ?'a = nat] by simp
    then have "?c < 2 ^ (32 - k)" by (simp add: less_mult_imp_div_less)
    then have "Suc ?c * 2 ^ k \<le> 2 ^ (32 - k) * 2 ^ k" by (intro mult_le_mono1) simp
    then have top: "Suc ?c * 2 ^ k \<le> 2 ^ 32" unfolding split .
    have "m div 2 ^ k = ?c \<longleftrightarrow> ?c * 2 ^ k \<le> m \<and> m < Suc ?c * 2 ^ k" for m
      using reading_in_range [of 0 "2 ^ k" m ?c] by simp
    moreover have "{m. m < top \<and> low \<le> m \<and> m < high} = {low ..< high}" if "high \<le> top" for low high top :: nat
      using that by auto
    ultimately show ?thesis by (simp only: top)
  qed
  finally show ?thesis by simp
qed

lemma drop_prefix_less:
  assumes "k \<le> 32"
  shows "unat (drop_bit (32 - k) (w :: u32)) < 2 ^ k"
proof -
  have "(2 :: nat) ^ 32 = 2 ^ k * 2 ^ (32 - k)" using assms by (simp flip: power_add)
  then have "unat w < 2 ^ k * 2 ^ (32 - k)" using unsigned_less [of w, where ?'a = nat] by simp
  then have "unat w div 2 ^ (32 - k) < 2 ^ k" by (rule less_mult_imp_div_less)
  then show ?thesis by (simp only: unat_drop)
qed

lemma prefixes_card:
  assumes "k \<le> 32"
  shows "card {w :: u32. unat w < 2 ^ k} = 2 ^ k"
proof -
  have "(2 :: nat) ^ k \<le> 2 ^ LENGTH(32)" using assms by (intro power_increasing) simp_all
  then have "m < 2 ^ LENGTH(32) \<and> m < 2 ^ k \<longleftrightarrow> m < (2 :: nat) ^ k" for m by (meson less_le_trans)
  then show ?thesis using card_words [where ?'a = 32, of "\<lambda>m. m < 2 ^ k"] by (simp only: card_Collect_less_nat)
qed

section \<open>Properties\<close>

text \<open>C39. Every dimension of the table opens, and in each coordinate, scrambled or not, every aligned block of \<open>2 ^ k\<close> points
  meets every one of the \<open>2 ^ k\<close> dyadic intervals of its width exactly once.\<close>

theorem blocks_stratify:
  assumes "1 \<le> dimension" "dimension \<le> MAX_SOBOL_DIM" "d < dimension" "k \<le> 32"
  shows "\<exists>self. sobol_new dimension = (Ok self :: ('e, sobol) outcome) \<and> length (directions self) = dimension
    \<and> bij_betw (\<lambda>n. drop_bit (32 - k) (point_with_optional_owen_scramble self n scrambling ! d))
        {n. drop_bit k n = drop_bit k n0} {w. unat w < 2 ^ k}"
proof -
  from assms(1,2) obtain self where self: "sobol_new dimension = (Ok self :: ('e, sobol) outcome)" "length (directions self) = dimension"
    "\<forall>d<dimension. triangular (directions self ! d)" by (rule sobol_new_rows) blast
  let ?digits = "\<lambda>n. drop_bit (32 - k) (point_with_optional_owen_scramble self n scrambling ! d)"
  let ?block = "{n. drop_bit k n = drop_bit k n0}" and ?all = "{w :: u32. unat w < 2 ^ k}"
  have inj: "inj_on ?digits ?block"
    using self assms(3,4) by (intro inj_onI) (auto simp: point_with_optional_owen_scramble_def intro: coordinates_distinct)
  have "?digits ` ?block \<subseteq> ?all" using assms(4) by (auto simp: drop_prefix_less)
  moreover have "card (?digits ` ?block) = card ?all" using inj assms(4) by (simp add: card_image block_card prefixes_card)
  ultimately have "?digits ` ?block = ?all" by (intro card_subset_eq) simp_all
  with inj have "bij_betw ?digits ?block ?all" by (simp only: bij_betw_def)
  with self show ?thesis by blast
qed

theorem blocks_stratify_witness:
  "\<exists>self. sobol_new 10 = (Ok self :: (nat, sobol) outcome)
    \<and> bij_betw (\<lambda>n. drop_bit 30 (point_with_optional_owen_scramble self n (Some 7) ! 9)) {n. drop_bit 2 n = drop_bit 2 5} {w. unat w < 4}"
  using blocks_stratify [of 10 9 2 "Some 7" 5, where ?'e = nat] by (auto simp: MAX_SOBOL_DIM_def)

text \<open>C40. Owen scrambling permutes the words, and it permutes the digit tree: two words share a prefix exactly when their
  scrambled words share the prefix of that length.\<close>

theorem owen_scramble_nested:
  "bij (\<lambda>x. owen_scramble x seed dimension)
    \<and> (drop_bit k (owen_scramble x seed dimension) = drop_bit k (owen_scramble y seed dimension) \<longleftrightarrow> drop_bit k x = drop_bit k y)"
proof
  have "inj (\<lambda>x. owen_scramble x seed dimension)"
    using scramble_keeps_prefixes [of 0] by (intro injI) simp
  then show "bij (\<lambda>x. owen_scramble x seed dimension)"
    by (simp add: bij_def finite_UNIV_inj_surj)
qed (rule scramble_keeps_prefixes)

end
