(* ===== verification/Budget_Accountant.thy ===== *)
theory Budget_Accountant
  imports Prelude
begin

text \<open>
  The accountant of an admitted budget (\<open>crates/fs-exec/src/budget_accountant.rs\<close>): admission under a deadline and a cost
  quota, the checks at tile boundaries, the charges, and the refusal that latches. The runtime's clock and the context's
  cancellation flag are outside: every operation takes what it would observe of them, and times are their nanoseconds.
\<close>

section \<open>The contract and its accountant\<close>

record work_budget =
  deadline :: "u64 option"
  poll_quota :: u32
  cost_quota :: "u64 option"

datatype budget_refusal =
    DeadlineExpiredAtAdmission u64 u64
  | DeadlineWithoutClock u64
  | CostPlanExceedsQuota u64 u64
  | BudgetCancelled string
  | DeadlineExpired string u64 u64
  | PollsExhausted string u32
  | CostExhausted string u64 u64 u64

record admitted_budget =
  admitted_contract :: work_budget
  has_clock :: bool
  planned_cost :: u64
  polls_used :: u32
  cost_charged :: u64
  latched_refusal :: "budget_refusal option"

definition admit_with :: "work_budget \<Rightarrow> u64 \<Rightarrow> bool \<Rightarrow> u64 \<Rightarrow> (budget_refusal, admitted_budget) outcome" where
  "admit_with contract planned clocked now_ns =
    (let admitted = Ok \<lparr>admitted_contract = contract, has_clock = clocked, planned_cost = planned, polls_used = 0,
           cost_charged = 0, latched_refusal = None\<rparr>;
         costed = (case cost_quota contract of
             Some quota \<Rightarrow> if quota < planned then Err (CostPlanExceedsQuota planned quota) else admitted
           | None \<Rightarrow> admitted)
     in case deadline contract of
          Some limit \<Rightarrow> if clocked \<and> limit \<le> now_ns then Err (DeadlineExpiredAtAdmission limit now_ns) else costed
        | None \<Rightarrow> costed)"

definition admit_ambient :: "work_budget \<Rightarrow> u64 \<Rightarrow> bool \<Rightarrow> u64 \<Rightarrow> (budget_refusal, admitted_budget) outcome" where
  "admit_ambient contract planned clocked now_ns =
    (case deadline contract of
       Some limit \<Rightarrow> if \<not> clocked then Err (DeadlineWithoutClock limit) else admit_with contract planned clocked now_ns
     | None \<Rightarrow> admit_with contract planned clocked now_ns)"

definition latch :: "budget_refusal \<Rightarrow> admitted_budget \<Rightarrow> (budget_refusal, unit) outcome \<times> admitted_budget" where
  "latch r self = (Err r, self\<lparr>latched_refusal := Some r\<rparr>)"

definition observe_deadline ::
    "string \<Rightarrow> bool \<Rightarrow> u64 \<Rightarrow> admitted_budget \<Rightarrow> (budget_refusal, unit) outcome \<times> admitted_budget" where
  "observe_deadline phase cancelled now_ns self =
    (case latched_refusal self of
       Some r \<Rightarrow> (Err r, self)
     | None \<Rightarrow>
         if cancelled then latch (BudgetCancelled phase) self
         else case deadline (admitted_contract self) of
             Some limit \<Rightarrow>
               if has_clock self \<and> limit \<le> now_ns then latch (DeadlineExpired phase limit now_ns) self else (Ok (), self)
           | None \<Rightarrow> (Ok (), self))"

definition spend_poll :: "string \<Rightarrow> admitted_budget \<Rightarrow> (budget_refusal, unit) outcome \<times> admitted_budget" where
  "spend_poll phase self =
    (let quota = poll_quota (admitted_contract self)
     in if quota \<noteq> of_nat u32_max
        then if quota \<le> polls_used self then latch (PollsExhausted phase quota) self
             else (Ok (), self\<lparr>polls_used := polls_used self + 1\<rparr>)
        else (Ok (), self))"

definition budget_checkpoint ::
    "string \<Rightarrow> bool \<Rightarrow> u64 \<Rightarrow> admitted_budget \<Rightarrow> (budget_refusal, unit) outcome \<times> admitted_budget" where
  "budget_checkpoint phase cancelled now_ns self =
    (case observe_deadline phase cancelled now_ns self of
       (Ok _, self) \<Rightarrow> spend_poll phase self
     | refused \<Rightarrow> refused)"

definition charge_cost :: "string \<Rightarrow> u64 \<Rightarrow> admitted_budget \<Rightarrow> (budget_refusal, unit) outcome \<times> admitted_budget" where
  "charge_cost phase units self =
    (case latched_refusal self of
       Some r \<Rightarrow> (Err r, self)
     | None \<Rightarrow>
         let quota = (case cost_quota (admitted_contract self) of Some q \<Rightarrow> q | None \<Rightarrow> of_nat u64_max);
             refused = (\<lambda>remaining. latch (CostExhausted phase units remaining quota) self)
         in if u64_max < unat (cost_charged self) + unat units
            then refused (if cost_charged self \<le> quota then quota - cost_charged self else 0)
            else if cost_quota (admitted_contract self) \<noteq> None \<and> quota < cost_charged self + units
            then (if quota < cost_charged self then (Panicked, self) else refused (quota - cost_charged self))
            else (Ok (), self\<lparr>cost_charged := cost_charged self + units\<rparr>))"

definition tile_boundary ::
    "string \<Rightarrow> bool \<Rightarrow> u64 \<Rightarrow> u64 \<Rightarrow> admitted_budget \<Rightarrow> (budget_refusal, unit) outcome \<times> admitted_budget" where
  "tile_boundary phase cancelled now_ns tile_cost self =
    (case budget_checkpoint phase cancelled now_ns self of
       (Ok _, self) \<Rightarrow> charge_cost phase tile_cost self
     | refused \<Rightarrow> refused)"

record budget_consumption =
  consumed_contract :: work_budget
  consumed_planned_cost :: u64
  consumed_polls_used :: u32
  consumed_cost_charged :: u64
  consumed_refusal :: "budget_refusal option"

definition consumption :: "admitted_budget \<Rightarrow> budget_consumption" where
  "consumption self = \<lparr>consumed_contract = admitted_contract self, consumed_planned_cost = planned_cost self,
    consumed_polls_used = polls_used self, consumed_cost_charged = cost_charged self, consumed_refusal = latched_refusal self\<rparr>"

section \<open>Runs\<close>

text \<open>The calls of a workflow, with what each observes.\<close>

datatype budget_call =
    Call_Checkpoint string bool u64
  | Call_Observe string bool u64
  | Call_Charge string u64
  | Call_Tile string bool u64 u64

fun budget_step :: "budget_call \<Rightarrow> admitted_budget \<Rightarrow> (budget_refusal, unit) outcome \<times> admitted_budget" where
  "budget_step (Call_Checkpoint phase cancelled now_ns) self = budget_checkpoint phase cancelled now_ns self"
| "budget_step (Call_Observe phase cancelled now_ns) self = observe_deadline phase cancelled now_ns self"
| "budget_step (Call_Charge phase units) self = charge_cost phase units self"
| "budget_step (Call_Tile phase cancelled now_ns tile_cost) self = tile_boundary phase cancelled now_ns tile_cost self"

primrec budget_run :: "budget_call list \<Rightarrow> admitted_budget \<Rightarrow> (budget_refusal, unit) outcome list \<times> admitted_budget" where
  "budget_run [] self = ([], self)"
| "budget_run (c # cs) self = (let (out, self) = budget_step c self; (outs, self) = budget_run cs self in (out # outs, self))"

section \<open>What the contract allows\<close>

fun call_polls :: "budget_call \<Rightarrow> nat" where
  "call_polls (Call_Checkpoint _ _ _) = 1"
| "call_polls (Call_Tile _ _ _ _) = 1"
| "call_polls _ = 0"

fun call_cost :: "budget_call \<Rightarrow> nat" where
  "call_cost (Call_Charge _ units) = unat units"
| "call_cost (Call_Tile _ _ _ units) = unat units"
| "call_cost _ = 0"

fun call_in_time :: "u64 option \<Rightarrow> budget_call \<Rightarrow> bool" where
  "call_in_time limit (Call_Charge _ _) = True"
| "call_in_time limit (Call_Checkpoint _ cancelled now_ns) = (\<not> cancelled \<and> (case limit of Some t \<Rightarrow> now_ns < t | None \<Rightarrow> True))"
| "call_in_time limit (Call_Observe _ cancelled now_ns) = (\<not> cancelled \<and> (case limit of Some t \<Rightarrow> now_ns < t | None \<Rightarrow> True))"
| "call_in_time limit (Call_Tile _ cancelled now_ns _) = (\<not> cancelled \<and> (case limit of Some t \<Rightarrow> now_ns < t | None \<Rightarrow> True))"

definition total_polls :: "budget_call list \<Rightarrow> nat" where "total_polls cs = sum_list (map call_polls cs)"
definition total_cost :: "budget_call list \<Rightarrow> nat" where "total_cost cs = sum_list (map call_cost cs)"

definition enforced_deadline :: "work_budget \<Rightarrow> bool \<Rightarrow> u64 option" where
  "enforced_deadline contract clocked = (if clocked then deadline contract else None)"

definition cost_limit :: "work_budget \<Rightarrow> nat" where
  "cost_limit contract = (case cost_quota contract of Some q \<Rightarrow> unat q | None \<Rightarrow> u64_max)"

definition allowed :: "work_budget \<Rightarrow> bool \<Rightarrow> budget_call list \<Rightarrow> bool" where
  "allowed contract clocked cs \<longleftrightarrow> list_all (call_in_time (enforced_deadline contract clocked)) cs
    \<and> (unat (poll_quota contract) = u32_max \<or> total_polls cs \<le> unat (poll_quota contract))
    \<and> total_cost cs \<le> cost_limit contract"

section \<open>Steps\<close>

definition budget_accounts :: "work_budget \<Rightarrow> bool \<Rightarrow> budget_call list \<Rightarrow> admitted_budget \<Rightarrow> bool" where
  "budget_accounts contract clocked cs self \<longleftrightarrow> admitted_contract self = contract \<and> has_clock self = clocked \<and> latched_refusal self = None
    \<and> unat (polls_used self) = (if unat (poll_quota contract) = u32_max then 0 else total_polls cs)
    \<and> unat (cost_charged self) = total_cost cs"

lemma latched_step:
  "latched_refusal self = Some r \<Longrightarrow> budget_step c self = (Err r, self)"
  by (cases c) (simp_all add: budget_checkpoint_def observe_deadline_def charge_cost_def tile_boundary_def)

lemma latched_run:
  "latched_refusal self = Some r \<Longrightarrow> budget_run cs self = (replicate (length cs) (Err r), self)"
  by (induction cs) (simp_all add: latched_step)

lemma observe_exact:
  assumes "budget_accounts contract clocked cs self" "self' = snd (observe_deadline phase cancelled now_ns self)"
  shows "(fst (observe_deadline phase cancelled now_ns self) = Ok () \<and> self' = self
      \<and> call_in_time (enforced_deadline contract clocked) (Call_Observe phase cancelled now_ns))
    \<or> (\<exists>r. fst (observe_deadline phase cancelled now_ns self) = Err r \<and> self' = self\<lparr>latched_refusal := Some r\<rparr>
      \<and> \<not> call_in_time (enforced_deadline contract clocked) (Call_Observe phase cancelled now_ns))"
  using assms by (auto simp: budget_accounts_def observe_deadline_def latch_def enforced_deadline_def not_le split: option.splits)

lemma word_less_succ: "(w :: u32) < q \<Longrightarrow> unat (w + 1) = Suc (unat w)"
proof -
  assume "w < q"
  then have "unat w < unat q" by (simp add: word_less_nat_alt)
  moreover have "unat q < 4294967296" using unsigned_less [of q, where ?'a = nat] by (simp del: unsigned_less)
  ultimately show ?thesis by (simp add: unat_word_ariths)
qed

lemma spend_exact:
  assumes "budget_accounts contract clocked cs self" "self' = snd (spend_poll phase self)"
  shows "(fst (spend_poll phase self) = Ok () \<and> budget_accounts contract clocked (cs @ [Call_Checkpoint phase cancelled now_ns]) self'
      \<and> (unat (poll_quota contract) = u32_max \<or> Suc (total_polls cs) \<le> unat (poll_quota contract)))
    \<or> (\<exists>r. fst (spend_poll phase self) = Err r \<and> self' = self\<lparr>latched_refusal := Some r\<rparr>
      \<and> \<not> (unat (poll_quota contract) = u32_max \<or> Suc (total_polls cs) \<le> unat (poll_quota contract)))"
proof (cases "unat (poll_quota contract) = u32_max")
  case True
  then have "poll_quota contract = of_nat u32_max" by (simp add: u32_max_def word_unat_eq_iff)
  with True assms show ?thesis by (simp add: spend_poll_def budget_accounts_def total_polls_def total_cost_def Let_def)
next
  case False
  then have quota: "poll_quota contract \<noteq> of_nat u32_max" by (auto simp: u32_max_def word_unat_eq_iff)
  have used: "unat (polls_used self) = total_polls cs" and same: "admitted_contract self = contract"
    using assms(1) False by (simp_all add: budget_accounts_def)
  show ?thesis
  proof (cases "poll_quota contract \<le> polls_used self")
    case True
    then show ?thesis using quota used same False assms(2) by (simp add: spend_poll_def Let_def latch_def word_le_nat_alt)
  next
    case below: False
    then have "unat (polls_used self + 1) = Suc (total_polls cs)" using used word_less_succ [of "polls_used self"] by (simp add: not_le)
    then show ?thesis
      using quota used same False below assms
      by (simp add: spend_poll_def Let_def budget_accounts_def total_polls_def total_cost_def word_le_nat_alt)
  qed
qed

lemma unat_u64_max: "unat (w :: u64) \<le> u64_max"
  using unsigned_less [of w, where ?'a = nat] by (simp add: u64_max_def del: unsigned_less)

lemma charge_exact:
  assumes "budget_accounts contract clocked cs self" "total_cost cs \<le> cost_limit contract" "self' = snd (charge_cost phase units self)"
  shows "(fst (charge_cost phase units self) = Ok () \<and> budget_accounts contract clocked (cs @ [Call_Charge phase units]) self'
      \<and> total_cost cs + unat units \<le> cost_limit contract)
    \<or> (\<exists>r. fst (charge_cost phase units self) = Err r \<and> self' = self\<lparr>latched_refusal := Some r\<rparr>
      \<and> \<not> total_cost cs + unat units \<le> cost_limit contract)"
proof -
  have self: "latched_refusal self = None" "admitted_contract self = contract" "unat (cost_charged self) = total_cost cs"
    using assms(1) by (simp_all add: budget_accounts_def)
  have limit: "cost_limit contract \<le> u64_max"
    using unat_u64_max by (auto simp: cost_limit_def split: option.split)
  show ?thesis
  proof (cases "u64_max < total_cost cs + unat units")
    case True
    then show ?thesis using limit assms(3) by (auto simp: charge_cost_def self latch_def Let_def split: option.splits)
  next
    case False
    then have sum: "unat (cost_charged self + units) = total_cost cs + unat units"
      by (simp add: unat_word_ariths self u64_max_def)
    have kept: "budget_accounts contract clocked (cs @ [Call_Charge phase units]) (self\<lparr>cost_charged := cost_charged self + units\<rparr>)"
      using assms(1) sum by (simp add: budget_accounts_def total_polls_def total_cost_def)
    show ?thesis
    proof (cases "cost_quota contract")
      case None
      then show ?thesis using False kept assms(3) by (simp add: charge_cost_def self cost_limit_def)
    next
      case (Some quota)
      then have "\<not> quota < cost_charged self" "quota < cost_charged self + units \<longleftrightarrow> \<not> total_cost cs + unat units \<le> cost_limit contract"
        using assms(2) by (auto simp: word_less_nat_alt self sum cost_limit_def)
      then show ?thesis using False kept assms(3) Some by (auto simp: charge_cost_def self latch_def Let_def)
    qed
  qed
qed

text \<open>A refused call latches its refusal and charges nothing; the polls stay within their quota.\<close>

definition refused_at :: "work_budget \<Rightarrow> admitted_budget \<Rightarrow> (budget_refusal, unit) outcome \<times> admitted_budget \<Rightarrow> bool" where
  "refused_at contract self result \<longleftrightarrow> (\<exists>r. fst result = Err r \<and> latched_refusal (snd result) = Some r
    \<and> cost_charged (snd result) = cost_charged self \<and> polls_used (snd result) \<le> poll_quota contract)"

lemma accounts_polls:
  "budget_accounts contract clocked cs self \<Longrightarrow> allowed contract clocked cs \<Longrightarrow> polls_used self \<le> poll_quota contract"
  by (auto simp: budget_accounts_def allowed_def word_le_nat_alt split: if_splits)

lemma allowed_snoc:
  "allowed contract clocked (cs @ [c]) \<longleftrightarrow> allowed contract clocked cs \<and> call_in_time (enforced_deadline contract clocked) c
    \<and> (unat (poll_quota contract) = u32_max \<or> total_polls cs + call_polls c \<le> unat (poll_quota contract))
    \<and> total_cost cs + call_cost c \<le> cost_limit contract"
  by (auto simp: allowed_def total_polls_def total_cost_def)

lemma observe_step:
  assumes "budget_accounts contract clocked cs self" "allowed contract clocked cs"
  shows "observe_deadline phase cancelled now_ns self = (Ok (), self)
      \<and> call_in_time (enforced_deadline contract clocked) (Call_Observe phase cancelled now_ns)
    \<or> refused_at contract self (observe_deadline phase cancelled now_ns self)
      \<and> \<not> call_in_time (enforced_deadline contract clocked) (Call_Observe phase cancelled now_ns)"
  using observe_exact [OF assms(1) refl, of phase cancelled now_ns] accounts_polls [OF assms]
  by (auto simp: refused_at_def prod_eq_iff)

lemma checkpoint_step:
  assumes "budget_accounts contract clocked cs self" "allowed contract clocked cs"
  shows "(\<exists>self'. budget_checkpoint phase cancelled now_ns self = (Ok (), self') \<and> cost_charged self' = cost_charged self
      \<and> budget_accounts contract clocked (cs @ [Call_Checkpoint phase cancelled now_ns]) self'
      \<and> allowed contract clocked (cs @ [Call_Checkpoint phase cancelled now_ns]))
    \<or> refused_at contract self (budget_checkpoint phase cancelled now_ns self)
      \<and> \<not> allowed contract clocked (cs @ [Call_Checkpoint phase cancelled now_ns])"
  using observe_step [OF assms, of phase cancelled now_ns]
proof (elim disjE conjE)
  assume observed: "observe_deadline phase cancelled now_ns self = (Ok (), self)"
    and in_time: "call_in_time (enforced_deadline contract clocked) (Call_Observe phase cancelled now_ns)"
  have same: "budget_checkpoint phase cancelled now_ns self = spend_poll phase self" by (simp add: budget_checkpoint_def observed)
  have cost: "cost_charged (snd (spend_poll phase self)) = cost_charged self" by (simp add: spend_poll_def latch_def Let_def)
  have within: "total_cost cs \<le> cost_limit contract" using assms(2) by (simp add: allowed_def)
  show ?thesis
    using spend_exact [OF assms(1) refl, of phase cancelled now_ns] in_time cost within accounts_polls [OF assms] assms(2)
    unfolding same allowed_snoc by (auto simp: refused_at_def prod_eq_iff)
next
  assume "refused_at contract self (observe_deadline phase cancelled now_ns self)"
    and "\<not> call_in_time (enforced_deadline contract clocked) (Call_Observe phase cancelled now_ns)"
  then show ?thesis
    by (auto simp: budget_checkpoint_def refused_at_def allowed_snoc split: prod.splits outcome.splits)
qed

lemma charge_step:
  assumes "budget_accounts contract clocked cs self" "allowed contract clocked cs"
  shows "(\<exists>self'. charge_cost phase units self = (Ok (), self') \<and> budget_accounts contract clocked (cs @ [Call_Charge phase units]) self'
      \<and> allowed contract clocked (cs @ [Call_Charge phase units]))
    \<or> refused_at contract self (charge_cost phase units self) \<and> \<not> allowed contract clocked (cs @ [Call_Charge phase units])"
proof -
  have within: "total_cost cs \<le> cost_limit contract" using assms(2) by (simp add: allowed_def)
  show ?thesis
    using charge_exact [OF assms(1) within refl, of phase units] accounts_polls [OF assms] assms(2)
    unfolding allowed_snoc by (auto simp: refused_at_def prod_eq_iff allowed_def)
qed

lemma tile_as_calls:
  "budget_accounts contract clocked (cs @ [Call_Checkpoint phase cancelled now_ns] @ [Call_Charge phase units]) self
    = budget_accounts contract clocked (cs @ [Call_Tile phase cancelled now_ns units]) self"
  "allowed contract clocked (cs @ [Call_Checkpoint phase cancelled now_ns] @ [Call_Charge phase units])
    = allowed contract clocked (cs @ [Call_Tile phase cancelled now_ns units])"
  by (simp_all add: budget_accounts_def allowed_def total_polls_def total_cost_def)

lemma budget_tile_step:
  assumes "budget_accounts contract clocked cs self" "allowed contract clocked cs"
  shows "(\<exists>self'. tile_boundary phase cancelled now_ns units self = (Ok (), self')
      \<and> budget_accounts contract clocked (cs @ [Call_Tile phase cancelled now_ns units]) self'
      \<and> allowed contract clocked (cs @ [Call_Tile phase cancelled now_ns units]))
    \<or> refused_at contract self (tile_boundary phase cancelled now_ns units self)
      \<and> \<not> allowed contract clocked (cs @ [Call_Tile phase cancelled now_ns units])"
  using checkpoint_step [OF assms, of phase cancelled now_ns]
proof (elim disjE conjE exE)
  fix self'
  assume checked: "budget_checkpoint phase cancelled now_ns self = (Ok (), self')" and cost: "cost_charged self' = cost_charged self"
    and later: "budget_accounts contract clocked (cs @ [Call_Checkpoint phase cancelled now_ns]) self'"
      "allowed contract clocked (cs @ [Call_Checkpoint phase cancelled now_ns])"
  have "tile_boundary phase cancelled now_ns units self = charge_cost phase units self'" by (simp add: tile_boundary_def checked)
  then show ?thesis
    using charge_step [OF later, of phase units] cost unfolding append_assoc tile_as_calls by (simp add: refused_at_def)
next
  assume "refused_at contract self (budget_checkpoint phase cancelled now_ns self)"
    and "\<not> allowed contract clocked (cs @ [Call_Checkpoint phase cancelled now_ns])"
  then show ?thesis
    by (auto simp: tile_boundary_def refused_at_def allowed_snoc split: prod.splits outcome.splits)
qed

lemma budget_step_exact:
  assumes "budget_accounts contract clocked cs self" "allowed contract clocked cs"
  shows "(\<exists>self'. budget_step c self = (Ok (), self') \<and> budget_accounts contract clocked (cs @ [c]) self' \<and> allowed contract clocked (cs @ [c]))
    \<or> refused_at contract self (budget_step c self) \<and> \<not> allowed contract clocked (cs @ [c])"
proof (cases c)
  case (Call_Checkpoint phase cancelled now_ns)
  then show ?thesis using checkpoint_step [OF assms, of phase cancelled now_ns] by auto
next
  case (Call_Observe phase cancelled now_ns)
  have "budget_accounts contract clocked (cs @ [Call_Observe phase cancelled now_ns]) self"
    using assms(1) by (simp add: budget_accounts_def total_polls_def total_cost_def)
  moreover have "allowed contract clocked (cs @ [Call_Observe phase cancelled now_ns])
      \<longleftrightarrow> call_in_time (enforced_deadline contract clocked) (Call_Observe phase cancelled now_ns)"
    using assms(2) by (auto simp: allowed_snoc) (auto simp: allowed_def)
  ultimately show ?thesis using observe_step [OF assms, of phase cancelled now_ns] Call_Observe by auto
next
  case (Call_Charge phase units)
  then show ?thesis using charge_step [OF assms, of phase units] by simp
next
  case (Call_Tile phase cancelled now_ns units)
  then show ?thesis using budget_tile_step [OF assms, of phase cancelled now_ns units] by simp
qed

lemma run_exact:
  assumes "budget_accounts contract clocked done_calls self" "allowed contract clocked done_calls" "budget_run cs self = (outs, self')"
  shows "\<exists>k r. k \<le> length cs \<and> outs = replicate k (Ok ()) @ replicate (length cs - k) (Err r)
    \<and> allowed contract clocked (done_calls @ take k cs)
    \<and> (k < length cs \<longrightarrow> \<not> allowed contract clocked (done_calls @ take (Suc k) cs))
    \<and> latched_refusal self' = (if k < length cs then Some r else None)
    \<and> unat (cost_charged self') = total_cost (done_calls @ take k cs) \<and> polls_used self' \<le> poll_quota contract"
  using assms
proof (induction cs arbitrary: done_calls self outs)
  case Nil
  then show ?case using accounts_polls [OF Nil.prems(1,2)] by (auto simp: budget_accounts_def)
next
  case (Cons c cs)
  obtain out mid rest where step: "budget_step c self = (out, mid)" and rest: "budget_run cs mid = (rest, self')" "outs = out # rest"
    using Cons.prems(3) by (auto simp: Let_def split: prod.splits)
  from budget_step_exact [OF Cons.prems(1,2), of c] show ?case
  proof (elim disjE conjE exE)
    fix self'' assume ok: "budget_step c self = (Ok (), self'')" and now: "budget_accounts contract clocked (done_calls @ [c]) self''"
      "allowed contract clocked (done_calls @ [c])"
    with step have mid: "out = Ok ()" "mid = self''" by simp_all
    from Cons.IH [OF now] rest(1) mid(2) obtain k r where k: "k \<le> length cs"
      "rest = replicate k (Ok ()) @ replicate (length cs - k) (Err r)" "allowed contract clocked (done_calls @ c # take k cs)"
      "k < length cs \<longrightarrow> \<not> allowed contract clocked (done_calls @ c # take (Suc k) cs)"
      "latched_refusal self' = (if k < length cs then Some r else None)"
      "unat (cost_charged self') = total_cost (done_calls @ c # take k cs)" "polls_used self' \<le> poll_quota contract" by auto
    show ?case
      by (rule exI [of _ "Suc k"], rule exI [of _ r]) (use k mid(1) rest(2) in simp)
  next
    assume "refused_at contract self (budget_step c self)" and stop: "\<not> allowed contract clocked (done_calls @ [c])"
    then obtain r where r: "out = Err r" "latched_refusal mid = Some r" "cost_charged mid = cost_charged self"
      "polls_used mid \<le> poll_quota contract" by (auto simp: refused_at_def step)
    have "self' = mid" "rest = replicate (length cs) (Err r)" using latched_run [OF r(2), of cs] rest(1) by simp_all
    then show ?case
      using r rest(2) stop Cons.prems(1,2) by (intro exI [of _ 0] exI [of _ r]) (simp add: budget_accounts_def)
  qed
qed

section \<open>Properties\<close>

text \<open>C30. However a workflow calls an admitted accountant, the accepted calls are its longest prefix within the contract (no
  cancellation, every reading before the deadline, polls and costs within their quotas); each later call gets the refusal that
  latched, and the consumption shows exactly the cost of the accepted calls.\<close>

theorem contract_enforced:
  assumes "admit_with contract planned clocked now_ns = Ok self" "budget_run cs self = (outs, self')"
  shows "\<exists>k r. k \<le> length cs \<and> outs = replicate k (Ok ()) @ replicate (length cs - k) (Err r)
    \<and> allowed contract clocked (take k cs) \<and> (k < length cs \<longrightarrow> \<not> allowed contract clocked (take (Suc k) cs))
    \<and> consumed_refusal (consumption self') = (if k < length cs then Some r else None)
    \<and> unat (consumed_cost_charged (consumption self')) = total_cost (take k cs)
    \<and> consumed_polls_used (consumption self') \<le> poll_quota contract"
proof -
  have "self = \<lparr>admitted_contract = contract, has_clock = clocked, planned_cost = planned, polls_used = 0, cost_charged = 0,
      latched_refusal = None\<rparr>"
    using assms(1) by (simp add: admit_with_def Let_def split: option.splits if_splits)
  then have opened: "budget_accounts contract clocked [] self" by (simp add: budget_accounts_def total_polls_def total_cost_def)
  have "allowed contract clocked []" by (simp add: allowed_def total_polls_def total_cost_def)
  from run_exact [OF opened this assms(2)] show ?thesis
    unfolding append_Nil consumption_def budget_consumption.simps .
qed

definition sample_contract :: work_budget where
  "sample_contract = \<lparr>deadline = Some 100, poll_quota = 2, cost_quota = Some 10\<rparr>"

definition sample_calls :: "budget_call list" where
  "sample_calls = [Call_Tile ''a'' False 8 6, Call_Tile ''a'' False 9 6, Call_Charge ''b'' 1]"

theorem contract_enforced_witness:
  "\<exists>k r. k \<le> 3 \<and> [Ok (), Err (CostExhausted ''a'' 6 4 10), Err (CostExhausted ''a'' 6 4 10)]
      = replicate k (Ok ()) @ replicate (3 - k) (Err r) \<and> allowed sample_contract True (take k sample_calls)"
proof -
  let ?self = "\<lparr>admitted_contract = sample_contract, has_clock = True, planned_cost = 5, polls_used = 0, cost_charged = 0,
    latched_refusal = None\<rparr>"
  have opened: "admit_with sample_contract 5 True 7 = Ok ?self" by (simp add: admit_with_def sample_contract_def Let_def)
  have outs: "budget_run sample_calls ?self = ([Ok (), Err (CostExhausted ''a'' 6 4 10), Err (CostExhausted ''a'' 6 4 10)],
      ?self\<lparr>polls_used := 2, cost_charged := 6, latched_refusal := Some (CostExhausted ''a'' 6 4 10)\<rparr>)"
    by (simp add: sample_calls_def sample_contract_def tile_boundary_def budget_checkpoint_def observe_deadline_def spend_poll_def
        charge_cost_def latch_def Let_def u32_max_def u64_max_def)
      (simp add: word_le_nat_alt)
  have "length sample_calls = 3" by (simp add: sample_calls_def)
  with contract_enforced [OF opened outs] show ?thesis by (elim exE conjE) (rule exI, rule exI, simp)
qed

end
