(* ===== verification/Exec_Drain.thy ===== *)
theory Exec_Drain
  imports Blake3_Hash Framing
begin

text \<open>
  Cancellation and drain of a run (\<open>crates/fs-exec/src/cx.rs\<close>): the gate, whose request is two atomic operations, and the
  tracker that attests a drained run only after the request and the release of every registered worker. Elapsed times
  are arguments; a run of the system is any interleaving of requests, registrations, releases and finalizations.
\<close>

section \<open>The gate\<close>

record cancel_gate =
  gate_requested :: bool
  gate_monotonic :: bool
  gate_requested_at_ns :: u64

definition gate_new :: "bool \<Rightarrow> cancel_gate" where
  "gate_new monotonic = \<lparr>gate_requested = False, gate_monotonic = monotonic, gate_requested_at_ns = 0\<rparr>"

text \<open>The two atomic operations of a request: the stamp is exchanged for an unset one, then the flag is stored.\<close>

definition gate_mark :: "u64 \<Rightarrow> cancel_gate \<Rightarrow> cancel_gate" where
  "gate_mark elapsed_ns gate =
    (let now = (if gate_monotonic gate then max elapsed_ns 1 else 1)
     in if gate_requested_at_ns gate = 0 then gate\<lparr>gate_requested_at_ns := now\<rparr> else gate)"

definition gate_publish :: "cancel_gate \<Rightarrow> cancel_gate" where
  "gate_publish gate = gate\<lparr>gate_requested := True\<rparr>"

definition gate_request :: "u64 \<Rightarrow> cancel_gate \<Rightarrow> cancel_gate" where
  "gate_request elapsed_ns gate = gate_publish (gate_mark elapsed_ns gate)"

definition requested_at :: "cancel_gate \<Rightarrow> u64 option" where
  "requested_at gate =
    (if \<not> gate_monotonic gate then None else if gate_requested_at_ns gate = 0 then None else Some (gate_requested_at_ns gate))"

section \<open>The drain report\<close>

definition DRAIN_FINALIZE_REPORT_IDENTITY_VERSION :: nat where "DRAIN_FINALIZE_REPORT_IDENTITY_VERSION = 1"

definition DRAIN_FINALIZE_REPORT_IDENTITY_DOMAIN :: "u8 list" where
  "DRAIN_FINALIZE_REPORT_IDENTITY_DOMAIN = str_bytes ''org.frankensim.fs-exec.drain-finalize-report.v1''"

definition encode_drain_finalize_report_identity_preimage :: "u64 \<Rightarrow> u64 \<Rightarrow> u64 \<Rightarrow> u8 list" where
  "encode_drain_finalize_report_identity_preimage run_id registered drained =
    le_bytes 4 DRAIN_FINALIZE_REPORT_IDENTITY_VERSION @ le_bytes 8 (unat run_id) @ le_bytes 8 (unat registered) @ le_bytes 8 (unat drained)"

definition drain_finalize_report_content :: "u64 \<Rightarrow> u64 \<Rightarrow> u64 \<Rightarrow> u8 list option" where
  "drain_finalize_report_content run_id registered drained =
    hash_domain DRAIN_FINALIZE_REPORT_IDENTITY_DOMAIN (encode_drain_finalize_report_identity_preimage run_id registered drained)"

record drain_finalize_report =
  report_run :: u64
  report_registered_workers :: u64
  report_drained_workers :: u64
  report_content_hash :: "u8 list"

section \<open>The tracker\<close>

record drain_state =
  registered_workers :: u64
  active_workers :: u64
  drained_workers :: u64
  drain_report :: "drain_finalize_report option"

datatype drain_finalize_error =
    CancellationNotRequested
  | NoRegisteredWorkers
  | WorkersStillRunning u64
  | RegistrationClosed
  | WorkerCountOverflow

definition drain_state_new :: drain_state where
  "drain_state_new = \<lparr>registered_workers = 0, active_workers = 0, drained_workers = 0, drain_report = None\<rparr>"

definition register_worker :: "drain_state \<Rightarrow> (drain_finalize_error, unit) outcome \<times> drain_state" where
  "register_worker state =
    (if drain_report state \<noteq> None then (Err RegistrationClosed, state)
     else if u64_max < unat (registered_workers state) + 1 then (Err WorkerCountOverflow, state)
     else if u64_max < unat (active_workers state) + 1 then (Err WorkerCountOverflow, state)
     else (Ok (), state\<lparr>registered_workers := registered_workers state + 1, active_workers := active_workers state + 1\<rparr>))"

text \<open>Dropping a guard that was not released.\<close>

definition drop_worker :: "drain_state \<Rightarrow> drain_state" where
  "drop_worker state =
    (if active_workers state \<noteq> 0
     then state\<lparr>active_workers := active_workers state - 1, drained_workers := drained_workers state + 1\<rparr> else state)"

definition drain_finalize ::
    "u64 \<Rightarrow> cancel_gate \<Rightarrow> drain_state \<Rightarrow> (drain_finalize_error, drain_finalize_report) outcome \<times> drain_state" where
  "drain_finalize run_id gate state =
    (case drain_report state of
       Some report \<Rightarrow> (Ok report, state)
     | None \<Rightarrow>
         if \<not> gate_requested gate then (Err CancellationNotRequested, state)
         else if registered_workers state = 0 then (Err NoRegisteredWorkers, state)
         else if active_workers state \<noteq> 0 \<or> drained_workers state \<noteq> registered_workers state
         then (Err (WorkersStillRunning (active_workers state)), state)
         else
           (case drain_finalize_report_content run_id (registered_workers state) (drained_workers state) of
              None \<Rightarrow> (Panicked, state)
            | Some content \<Rightarrow>
                let report = \<lparr>report_run = run_id, report_registered_workers = registered_workers state,
                      report_drained_workers = drained_workers state, report_content_hash = content\<rparr>
                in (Ok report, state\<lparr>drain_report := Some report\<rparr>)))"

section \<open>Runs\<close>

text \<open>The tracker under its mutex, the gate, the requests between their two operations, and the guards handed out, with
  whether each was released; a guard may also be leaked.\<close>

record drain_system =
  sys_gate :: cancel_gate
  sys_requests :: nat
  sys_tracker :: drain_state
  sys_guards :: "bool list"

definition drain_start :: "bool \<Rightarrow> drain_system" where
  "drain_start monotonic = \<lparr>sys_gate = gate_new monotonic, sys_requests = 0, sys_tracker = drain_state_new, sys_guards = []\<rparr>"

inductive drain_step :: "u64 \<Rightarrow> drain_system \<Rightarrow> drain_system \<Rightarrow> bool" for run_id where
  Mark: "drain_step run_id s (s\<lparr>sys_gate := gate_mark elapsed_ns (sys_gate s), sys_requests := Suc (sys_requests s)\<rparr>)"
| Publish: "sys_requests s = Suc k \<Longrightarrow> drain_step run_id s (s\<lparr>sys_gate := gate_publish (sys_gate s), sys_requests := k\<rparr>)"
| Register: "register_worker (sys_tracker s) = (Ok (), tracker) \<Longrightarrow>
    drain_step run_id s (s\<lparr>sys_tracker := tracker, sys_guards := sys_guards s @ [False]\<rparr>)"
| Refuse: "register_worker (sys_tracker s) = (Err e, tracker) \<Longrightarrow> drain_step run_id s (s\<lparr>sys_tracker := tracker\<rparr>)"
| Release: "\<lbrakk>i < length (sys_guards s); \<not> sys_guards s ! i\<rbrakk> \<Longrightarrow>
    drain_step run_id s (s\<lparr>sys_tracker := drop_worker (sys_tracker s), sys_guards := (sys_guards s)[i := True]\<rparr>)"
| Finalize: "drain_finalize run_id (sys_gate s) (sys_tracker s) = (out, tracker) \<Longrightarrow> drain_step run_id s (s\<lparr>sys_tracker := tracker\<rparr>)"

inductive drain_steps :: "u64 \<Rightarrow> drain_system \<Rightarrow> drain_system \<Rightarrow> bool" for run_id where
  Stop: "drain_steps run_id s s"
| Step: "\<lbrakk>drain_steps run_id s t; drain_step run_id t u\<rbrakk> \<Longrightarrow> drain_steps run_id s u"

section \<open>The invariant\<close>

definition released :: "bool list \<Rightarrow> nat" where "released gs = length (filter id gs)"
definition unreleased :: "bool list \<Rightarrow> nat" where "unreleased gs = length (filter Not gs)"

definition report_for :: "u64 \<Rightarrow> nat \<Rightarrow> drain_finalize_report \<Rightarrow> bool" where
  "report_for run_id workers r \<longleftrightarrow> report_run r = run_id \<and> unat (report_registered_workers r) = workers
    \<and> report_drained_workers r = report_registered_workers r
    \<and> hash_domain DRAIN_FINALIZE_REPORT_IDENTITY_DOMAIN
        (encode_drain_finalize_report_identity_preimage run_id (of_nat workers) (of_nat workers)) = Some (report_content_hash r)"

definition drain_invariant :: "u64 \<Rightarrow> drain_system \<Rightarrow> bool" where
  "drain_invariant run_id s \<longleftrightarrow> unat (registered_workers (sys_tracker s)) = length (sys_guards s)
    \<and> unat (active_workers (sys_tracker s)) = unreleased (sys_guards s)
    \<and> unat (drained_workers (sys_tracker s)) = released (sys_guards s)
    \<and> (gate_requested (sys_gate s) \<or> 0 < sys_requests s \<longrightarrow> gate_requested_at_ns (sys_gate s) \<noteq> 0)
    \<and> (case drain_report (sys_tracker s) of None \<Rightarrow> True
       | Some r \<Rightarrow> gate_requested (sys_gate s) \<and> sys_guards s \<noteq> [] \<and> list_all id (sys_guards s) \<and> report_for run_id (length (sys_guards s)) r)"

lemma guards_split: "released gs + unreleased gs = length gs"
  unfolding released_def unreleased_def using sum_length_filter_compl [of id gs] by (simp add: comp_def)

lemma release_counts:
  "\<lbrakk>i < length gs; \<not> gs ! i\<rbrakk> \<Longrightarrow>
    released (gs[i := True]) = Suc (released gs) \<and> unreleased gs = Suc (unreleased (gs[i := True]))"
proof (induction gs arbitrary: i)
  case (Cons g gs)
  then show ?case by (cases i) (auto simp: released_def unreleased_def)
qed simp

lemma all_released: "unreleased gs = 0 \<longleftrightarrow> list_all id gs"
  by (induction gs) (auto simp: unreleased_def)

lemma content_defined: "drain_finalize_report_content run_id registered drained \<noteq> None"
proof -
  define preimage where "preimage = encode_drain_finalize_report_identity_preimage run_id registered drained"
  have "length preimage = 28" by (simp add: preimage_def encode_drain_finalize_report_identity_preimage_def)
  moreover have "length DRAIN_FINALIZE_REPORT_IDENTITY_DOMAIN = 47"
    by (simp add: DRAIN_FINALIZE_REPORT_IDENTITY_DOMAIN_def str_bytes_def)
  ultimately show ?thesis
    using domain_hasher_new_state [of DRAIN_FINALIZE_REPORT_IDENTITY_DOMAIN] domain.upd_state [of "[]" preimage]
    by (simp add: drain_finalize_report_content_def hash_domain_def preimage_def)
qed

lemma plus_one_unat: "unat (w :: u64) < u64_max \<Longrightarrow> unat (w + 1) = Suc (unat w)"
  by (simp add: unat_word_ariths u64_max_def)

lemma minus_one_unat: "unat (w :: u64) = Suc k \<Longrightarrow> unat (w - 1) = k"
  by (metis diff_Suc_1 nat.simps(3) unat_0 unat_minus_one)

lemma unat_top: "unat (w :: u64) \<le> u64_max"
  using unsigned_less [of w, where ?'a = nat] by (simp add: u64_max_def del: unsigned_less)

lemma gate_stamped:
  "gate_requested_at_ns (gate_mark elapsed_ns gate) \<noteq> 0" "gate_requested (gate_mark elapsed_ns gate) = gate_requested gate"
  "gate_requested_at_ns gate \<noteq> 0 \<Longrightarrow> gate_mark elapsed_ns gate = gate"
  by (auto simp: gate_mark_def Let_def max_def)

lemma register_keeps:
  assumes "drain_invariant run_id s" "register_worker (sys_tracker s) = (Ok (), tracker)"
  shows "drain_invariant run_id (s\<lparr>sys_tracker := tracker, sys_guards := sys_guards s @ [False]\<rparr>)"
  using assms
  by (auto simp: drain_invariant_def register_worker_def plus_one_unat not_le not_less Suc_le_eq released_def unreleased_def split: if_splits)

lemma release_keeps:
  assumes "drain_invariant run_id s" "i < length (sys_guards s)" "\<not> sys_guards s ! i"
  shows "drain_invariant run_id (s\<lparr>sys_tracker := drop_worker (sys_tracker s), sys_guards := (sys_guards s)[i := True]\<rparr>)"
proof -
  note inv = assms(1) [unfolded drain_invariant_def]
  have counts: "released ((sys_guards s)[i := True]) = Suc (released (sys_guards s))"
    "unreleased (sys_guards s) = Suc (unreleased ((sys_guards s)[i := True]))" using release_counts [OF assms(2,3)] by simp_all
  then have active: "unat (active_workers (sys_tracker s)) = Suc (unreleased ((sys_guards s)[i := True]))" using inv by simp
  then have "active_workers (sys_tracker s) \<noteq> 0" by auto
  then have drop: "drop_worker (sys_tracker s) = (sys_tracker s)\<lparr>active_workers := active_workers (sys_tracker s) - 1,
      drained_workers := drained_workers (sys_tracker s) + 1\<rparr>" by (simp add: drop_worker_def)
  have "released (sys_guards s) < length (sys_guards s)" using guards_split [of "sys_guards s"] counts(2) by simp
  then have "unat (drained_workers (sys_tracker s)) < u64_max"
    using inv unat_top [of "registered_workers (sys_tracker s)"] by linarith
  then have "unat (drained_workers (sys_tracker s) + 1) = Suc (released (sys_guards s))" using inv by (simp add: plus_one_unat)
  moreover have "drain_report (sys_tracker s) = None"
    using inv counts(2) all_released [of "sys_guards s"] by (cases "drain_report (sys_tracker s)") simp_all
  ultimately show ?thesis using inv counts minus_one_unat [OF active] by (simp add: drain_invariant_def drop)
qed

lemma finalize_cases:
  assumes "drain_invariant run_id s"
  obtains (known) r where "drain_report (sys_tracker s) = Some r" "drain_finalize run_id (sys_gate s) (sys_tracker s) = (Ok r, sys_tracker s)"
  | (refused) e where "drain_report (sys_tracker s) = None"
      "drain_finalize run_id (sys_gate s) (sys_tracker s) = (Err e, sys_tracker s)"
      "\<not> (gate_requested (sys_gate s) \<and> sys_guards s \<noteq> [] \<and> list_all id (sys_guards s))"
  | (minted) r where "drain_report (sys_tracker s) = None"
      "drain_finalize run_id (sys_gate s) (sys_tracker s) = (Ok r, (sys_tracker s)\<lparr>drain_report := Some r\<rparr>)"
      "gate_requested (sys_gate s)" "sys_guards s \<noteq> []" "list_all id (sys_guards s)" "report_for run_id (length (sys_guards s)) r"
proof (cases "drain_report (sys_tracker s)")
  case (Some r)
  then show thesis by (intro known) (simp_all add: drain_finalize_def)
next
  case None
  note inv = assms [unfolded drain_invariant_def]
  have guards: "registered_workers (sys_tracker s) = 0 \<longleftrightarrow> sys_guards s = []" using inv by (metis length_0_conv unat_eq_zero)
  have done_all: "active_workers (sys_tracker s) = 0 \<longleftrightarrow> list_all id (sys_guards s)"
    using inv all_released [of "sys_guards s"] by (metis unat_eq_zero)
  have equal: "drained_workers (sys_tracker s) = registered_workers (sys_tracker s)" if "list_all id (sys_guards s)"
    using inv guards_split [of "sys_guards s"] that unfolding all_released [symmetric] by (simp add: word_unat_eq_iff)
  show thesis
  proof (cases "gate_requested (sys_gate s) \<and> sys_guards s \<noteq> [] \<and> list_all id (sys_guards s)")
    case True
    obtain content where content: "drain_finalize_report_content run_id (registered_workers (sys_tracker s))
        (registered_workers (sys_tracker s)) = Some content" using content_defined by blast
    have "of_nat (length (sys_guards s)) = registered_workers (sys_tracker s)" by (simp flip: inv [THEN conjunct1])
    then show thesis
      using True None guards done_all equal content inv
      by (intro minted [of "\<lparr>report_run = run_id, report_registered_workers = registered_workers (sys_tracker s),
            report_drained_workers = registered_workers (sys_tracker s), report_content_hash = content\<rparr>"])
        (simp_all add: drain_finalize_def report_for_def drain_finalize_report_content_def Let_def)
  next
    case False
    then have "\<exists>e. drain_finalize run_id (sys_gate s) (sys_tracker s) = (Err e, sys_tracker s)"
      using None guards done_all
      by (cases "gate_requested (sys_gate s)"; cases "registered_workers (sys_tracker s) = 0"; cases "active_workers (sys_tracker s) = 0")
        (simp_all add: drain_finalize_def)
    then obtain e where "drain_finalize run_id (sys_gate s) (sys_tracker s) = (Err e, sys_tracker s)" by blast
    with None show thesis using False by (rule refused)
  qed
qed

lemma step_keeps: "drain_step run_id s t \<Longrightarrow> drain_invariant run_id s \<Longrightarrow> drain_invariant run_id t"
proof (induction rule: drain_step.induct)
  case (Mark s elapsed_ns)
  then show ?case by (auto simp: drain_invariant_def gate_stamped split: option.splits)
next
  case (Publish s k)
  then show ?case by (auto simp: drain_invariant_def gate_publish_def split: option.splits)
next
  case (Register s tracker)
  then show ?case by (intro register_keeps)
next
  case (Refuse s e tracker)
  then have "tracker = sys_tracker s" by (auto simp: register_worker_def split: if_splits)
  then show ?case using Refuse.prems by simp
next
  case (Release s i)
  then show ?case by (intro release_keeps)
next
  case (Finalize s out tracker)
  from Finalize.prems show ?case
    by (rule finalize_cases) (use Finalize in \<open>auto simp: drain_invariant_def\<close>)
qed

lemma reachable_invariant: "drain_steps run_id s t \<Longrightarrow> drain_invariant run_id s \<Longrightarrow> drain_invariant run_id t"
  by (induction rule: drain_steps.induct) (auto intro: step_keeps)

lemma start_invariant: "drain_invariant run_id (drain_start monotonic)"
  by (simp add: drain_invariant_def drain_start_def gate_new_def drain_state_new_def released_def unreleased_def)

lemma report_kept:
  "drain_step run_id s t \<Longrightarrow> drain_invariant run_id s \<Longrightarrow> drain_report (sys_tracker s) = Some r \<Longrightarrow>
    drain_report (sys_tracker t) = Some r \<and> sys_guards t = sys_guards s"
proof (induction rule: drain_step.induct)
  case (Release s i)
  then show ?case by (auto simp: drain_invariant_def list_all_length)
qed (auto simp: register_worker_def drain_finalize_def)

lemma report_kept_steps:
  "drain_steps run_id s t \<Longrightarrow> drain_invariant run_id s \<Longrightarrow> drain_report (sys_tracker s) = Some r \<Longrightarrow>
    drain_report (sys_tracker t) = Some r \<and> sys_guards t = sys_guards s"
proof (induction rule: drain_steps.induct)
  case (Step s t u)
  then show ?case using report_kept [of run_id t u r] reachable_invariant [OF Step.hyps(1)] by simp
qed simp

section \<open>A drained run\<close>

definition sample_drain :: "nat \<Rightarrow> drain_system" where
  "sample_drain k =
    [drain_start True,
     (drain_start True)\<lparr>sys_tracker := snd (register_worker drain_state_new), sys_guards := [False]\<rparr>,
     \<lparr>sys_gate = gate_mark 9 (gate_new True), sys_requests = 1, sys_tracker = snd (register_worker drain_state_new), sys_guards = [False]\<rparr>,
     \<lparr>sys_gate = gate_request 9 (gate_new True), sys_requests = 0, sys_tracker = snd (register_worker drain_state_new), sys_guards = [False]\<rparr>,
     \<lparr>sys_gate = gate_request 9 (gate_new True), sys_requests = 0, sys_tracker = drop_worker (snd (register_worker drain_state_new)),
       sys_guards = [True]\<rparr>] ! k"

lemma sample_drained: "drain_steps 7 (drain_start True) (sample_drain 4)"
proof -
  have reg: "register_worker drain_state_new = (Ok (), snd (register_worker drain_state_new))"
    by (simp add: register_worker_def drain_state_new_def u64_max_def)
  have "drain_step 7 (sample_drain 0) (sample_drain 1)"
    using drain_step.Register [of "drain_start True" "snd (register_worker drain_state_new)" 7] reg by (simp add: sample_drain_def drain_start_def)
  moreover have "drain_step 7 (sample_drain 1) (sample_drain 2)"
    using drain_step.Mark [of 7 "sample_drain 1" 9] by (simp add: sample_drain_def drain_start_def eval_nat_numeral)
  moreover have "drain_step 7 (sample_drain 2) (sample_drain 3)"
    using drain_step.Publish [of "sample_drain 2" 0 7] by (simp add: sample_drain_def gate_request_def eval_nat_numeral)
  moreover have "drain_step 7 (sample_drain 3) (sample_drain 4)"
    using drain_step.Release [of 0 "sample_drain 3" 7] by (simp add: sample_drain_def eval_nat_numeral)
  moreover have "drain_steps 7 (drain_start True) (sample_drain 0)" by (simp add: sample_drain_def drain_steps.Stop)
  ultimately show ?thesis by (meson drain_steps.Step)
qed

section \<open>Properties\<close>

text \<open>C32. In every interleaving, finalization succeeds exactly when the gate was requested, a worker was registered and every
  guard was released, and otherwise refuses, leaving the tracker as it was; it never panics.\<close>

theorem finalize_exactly_when_drained:
  assumes "drain_steps run_id (drain_start monotonic) s"
  shows "if gate_requested (sys_gate s) \<and> sys_guards s \<noteq> [] \<and> list_all id (sys_guards s)
    then \<exists>r. drain_finalize run_id (sys_gate s) (sys_tracker s) = (Ok r, (sys_tracker s)\<lparr>drain_report := Some r\<rparr>)
      \<and> report_for run_id (length (sys_guards s)) r
    else \<exists>e. drain_finalize run_id (sys_gate s) (sys_tracker s) = (Err e, sys_tracker s)"
proof -
  have inv: "drain_invariant run_id s" using reachable_invariant [OF assms start_invariant] .
  then show ?thesis
  proof (cases rule: finalize_cases)
    case (known r)
    then have "sys_tracker s = (sys_tracker s)\<lparr>drain_report := Some r\<rparr>" by (cases "sys_tracker s") simp
    with known inv show ?thesis by (auto simp: drain_invariant_def)
  qed auto
qed

theorem finalize_exactly_when_drained_witness:
  "\<exists>r. drain_finalize 7 (sys_gate (sample_drain 4)) (sys_tracker (sample_drain 4))
      = (Ok r, (sys_tracker (sample_drain 4))\<lparr>drain_report := Some r\<rparr>) \<and> report_for 7 1 r"
proof -
  have "gate_requested (sys_gate (sample_drain 4)) \<and> sys_guards (sample_drain 4) = [True]"
    by (simp add: sample_drain_def gate_request_def gate_publish_def eval_nat_numeral)
  then show ?thesis using finalize_exactly_when_drained [OF sample_drained] by simp
qed

text \<open>C31. A report, once there, attests that the gate was requested and that all workers ever registered, at least one, were
  released; in every later state the report is the same and no worker was added.\<close>

theorem drain_report_final:
  assumes "drain_steps run_id (drain_start monotonic) s" "drain_report (sys_tracker s) = Some r" "drain_steps run_id s t"
  shows "gate_requested (sys_gate s) \<and> sys_guards s \<noteq> [] \<and> list_all id (sys_guards s)
    \<and> report_for run_id (length (sys_guards s)) r \<and> drain_report (sys_tracker t) = Some r \<and> sys_guards t = sys_guards s"
proof -
  have inv: "drain_invariant run_id s" using reachable_invariant [OF assms(1) start_invariant] .
  with report_kept_steps [OF assms(3) inv assms(2)] assms(2) show ?thesis by (simp add: drain_invariant_def)
qed

theorem drain_report_final_witness:
  "\<exists>(s :: drain_system) r. drain_report (sys_tracker s) = Some r \<and> sys_guards s = [True] \<and> report_for 7 1 r"
proof -
  let ?s = "sample_drain 4"
  have inv: "drain_invariant 7 ?s" using reachable_invariant [OF sample_drained start_invariant] .
  have requested: "gate_requested (sys_gate ?s)" "sys_guards ?s = [True]" "drain_report (sys_tracker ?s) = None"
    by (simp_all add: sample_drain_def gate_request_def gate_publish_def eval_nat_numeral drop_worker_def register_worker_def drain_state_new_def)
  from inv obtain r where r: "drain_finalize 7 (sys_gate ?s) (sys_tracker ?s) = (Ok r, (sys_tracker ?s)\<lparr>drain_report := Some r\<rparr>)"
    by (rule finalize_cases) (use requested in auto)
  let ?t = "?s\<lparr>sys_tracker := (sys_tracker ?s)\<lparr>drain_report := Some r\<rparr>\<rparr>"
  have "drain_steps 7 (drain_start True) ?t" using drain_steps.Step [OF sample_drained drain_step.Finalize [OF r]] .
  from drain_report_final [OF this _ drain_steps.Stop, of r]
  have "drain_report (sys_tracker ?t) = Some r \<and> sys_guards ?t = [True] \<and> report_for 7 1 r" using requested(2) by simp
  then show ?thesis by blast
qed

end
