(* ===== verification/Exec_Reduce.thy ===== *)
theory Exec_Reduce
  imports Prelude
begin

text \<open>
  The deterministic reduction (\<open>crates/fs-exec/src/reduce.rs\<close>): items are folded up a pairwise tree whose shape is fixed by
  their number. The identity and the merge of the caller's reduction are arguments.
\<close>

section \<open>The fold\<close>

fun bit_length :: "nat \<Rightarrow> nat" where
  "bit_length m = (if m = 0 then 0 else Suc (bit_length (m div 2)))"

declare bit_length.simps [simp del]

definition leading_zeros :: "nat \<Rightarrow> nat" where
  "leading_zeros m = 64 - bit_length m"

definition largest_pow2_below :: "nat \<Rightarrow> nat" where
  "largest_pow2_below n = (let p = 64 - leading_zeros (n - 1) - 1 in 2 ^ p)"

lemma bit_length_bounds:
  assumes "0 < m"
  shows "0 < bit_length m" "2 ^ (bit_length m - 1) \<le> m" "m < 2 ^ bit_length m"
proof -
  have "0 < bit_length m \<and> 2 ^ (bit_length m - 1) \<le> m \<and> m < 2 ^ bit_length m"
    using assms
  proof (induction m rule: less_induct)
    case (less m)
    have len: "bit_length m = Suc (bit_length (m div 2))" using less.prems by (subst bit_length.simps) simp
    show ?case
    proof (cases "m = 1")
      case True
      then show ?thesis by (simp add: len bit_length.simps)
    next
      case False
      then have "0 < m div 2" "m div 2 < m" using less.prems by auto
      with less.IH have half: "0 < bit_length (m div 2)" "2 ^ (bit_length (m div 2) - 1) \<le> m div 2" "m div 2 < 2 ^ bit_length (m div 2)"
        by blast+
      then obtain b where b: "bit_length (m div 2) = Suc b" by (cases "bit_length (m div 2)") simp_all
      have "2 * 2 ^ b \<le> m" "m < 2 * (2 * 2 ^ b)" using half(2,3) by (auto simp: b)
      then show ?thesis by (simp add: len b)
    qed
  qed
  then show "0 < bit_length m" "2 ^ (bit_length m - 1) \<le> m" "m < 2 ^ bit_length m" by simp_all
qed

lemma split_bounds:
  assumes "2 \<le> n"
  shows "0 < largest_pow2_below n" "largest_pow2_below n < n"
proof -
  have "(2 :: nat) ^ (64 - leading_zeros (n - 1) - 1) \<le> 2 ^ (bit_length (n - 1) - 1)"
    by (intro power_increasing) (simp_all add: leading_zeros_def)
  also have "\<dots> \<le> n - 1" using bit_length_bounds(2) [of "n - 1"] assms by simp
  finally have "largest_pow2_below n \<le> n - 1" by (simp only: largest_pow2_below_def Let_def)
  then show "0 < largest_pow2_below n" "largest_pow2_below n < n" using assms by (simp_all add: largest_pow2_below_def Let_def)
qed

lemma split_is_power:
  assumes "2 \<le> n" "n \<le> 2 ^ 64"
  obtains p where "largest_pow2_below n = 2 ^ p" "2 ^ p < n" "n \<le> 2 ^ Suc p"
proof
  have pos: "0 < bit_length (n - 1)" "n - 1 < 2 ^ bit_length (n - 1)" using bit_length_bounds [of "n - 1"] assms(1) by simp_all
  have "bit_length (n - 1) \<le> 64"
  proof (rule ccontr)
    assume "\<not> bit_length (n - 1) \<le> 64"
    then have "(2 :: nat) ^ 64 \<le> 2 ^ (bit_length (n - 1) - 1)" by (intro power_increasing) simp_all
    then show False using bit_length_bounds(2) [of "n - 1"] assms by simp
  qed
  then show split: "largest_pow2_below n = 2 ^ (bit_length (n - 1) - 1)"
    by (simp add: largest_pow2_below_def leading_zeros_def Let_def)
  show "2 ^ (bit_length (n - 1) - 1) < n" using split_bounds(2) [OF assms(1)] by (simp add: split)
  show "n \<le> 2 ^ Suc (bit_length (n - 1) - 1)" using pos by simp
qed

function pairwise_fold :: "'a \<Rightarrow> ('a \<Rightarrow> 'a \<Rightarrow> 'a) \<Rightarrow> 'a list \<Rightarrow> 'a" where
  "pairwise_fold identity merge items =
    (if length items = 0 then identity
     else if length items = 1 then last items
     else (let split = largest_pow2_below (length items)
           in merge (pairwise_fold identity merge (take split items)) (pairwise_fold identity merge (drop split items))))"
  by pat_completeness auto
termination
proof (relation "measure (\<lambda>(_, _, items). length items)")
  fix items :: "'a list" and split
  assume "length items \<noteq> 0" "length items \<noteq> 1" and split: "split = largest_pow2_below (length items)"
  then have "2 \<le> length items" by linarith
  from split_bounds [OF this]
  show "((identity, merge, take split items), (identity, merge, items)) \<in> measure (\<lambda>(_, _, items). length items)"
    "((identity, merge, drop split items), (identity, merge, items)) \<in> measure (\<lambda>(_, _, items). length items)"
    for identity and merge :: "'a \<Rightarrow> 'a \<Rightarrow> 'a" by (simp_all add: split)
qed simp

declare pairwise_fold.simps [simp del]

section \<open>The shape\<close>

datatype reduction_shape = Item nat | Merge reduction_shape reduction_shape

primrec shape_items :: "reduction_shape \<Rightarrow> nat list" where
  "shape_items (Item i) = [i]"
| "shape_items (Merge l r) = shape_items l @ shape_items r"

primrec shape_depth :: "reduction_shape \<Rightarrow> nat" where
  "shape_depth (Item i) = 0"
| "shape_depth (Merge l r) = Suc (max (shape_depth l) (shape_depth r))"

primrec reduce_shape :: "('a \<Rightarrow> 'a \<Rightarrow> 'a) \<Rightarrow> 'a list \<Rightarrow> reduction_shape \<Rightarrow> 'a" where
  "reduce_shape merge items (Item i) = items ! i"
| "reduce_shape merge items (Merge l r) = merge (reduce_shape merge items l) (reduce_shape merge items r)"

text \<open>The shape of some items of a longer sequence, from an offset on.\<close>

function shape_from :: "nat \<Rightarrow> nat \<Rightarrow> reduction_shape" where
  "shape_from offset n =
    (if n < 2 then Item offset
     else Merge (shape_from offset (largest_pow2_below n)) (shape_from (offset + largest_pow2_below n) (n - largest_pow2_below n)))"
  by pat_completeness auto
termination by (relation "measure snd") (auto simp: not_less split_bounds)

declare shape_from.simps [simp del]

lemma shape_from_cases:
  "shape_from offset (Suc 0) = Item offset"
  "2 \<le> n \<Longrightarrow> shape_from offset n =
    Merge (shape_from offset (largest_pow2_below n)) (shape_from (offset + largest_pow2_below n) (n - largest_pow2_below n))"
  by (subst shape_from.simps; simp)+

lemma shape_covers: "0 < n \<Longrightarrow> shape_items (shape_from offset n) = [offset ..< offset + n]"
proof (induction offset n rule: shape_from.induct)
  case (1 offset n)
  show ?case
  proof (cases "n < 2")
    case True
    then have "n = Suc 0" using "1.prems" by simp
    then show ?thesis by (simp add: shape_from_cases(1))
  next
    case False
    then have n: "2 \<le> n" by simp
    from split_bounds [OF this] "1.IH" [OF False] show ?thesis
      using upt_add_eq_append [of offset "offset + largest_pow2_below n" "n - largest_pow2_below n"]
      by (simp add: shape_from_cases(2) [OF n])
  qed
qed

lemma shape_balanced: "\<lbrakk>0 < n; n \<le> 2 ^ k; k \<le> 64\<rbrakk> \<Longrightarrow> shape_depth (shape_from offset n) \<le> k"
proof (induction k arbitrary: offset n)
  case 0
  then have "n = Suc 0" by simp
  then show ?case by (simp add: shape_from_cases(1))
next
  case (Suc k)
  show ?case
  proof (cases "n < 2")
    case True
    then have "n = Suc 0" using Suc.prems by simp
    then show ?thesis by (simp add: shape_from_cases(1))
  next
    case False
    have "(2 :: nat) ^ Suc k \<le> 2 ^ 64" by (rule power_increasing) (use Suc.prems in simp_all)
    then obtain p where p: "largest_pow2_below n = 2 ^ p" "2 ^ p < n" "n \<le> 2 ^ Suc p"
      using split_is_power [of n] False Suc.prems by (metis le_trans not_less)
    have "(2 :: nat) ^ p < 2 ^ Suc k" using p(2) Suc.prems(2) by linarith
    then have "p \<le> k" by (simp add: power_strict_increasing_iff flip: power_Suc)
    then have "(2 :: nat) ^ p \<le> 2 ^ k" by (intro power_increasing) simp_all
    moreover have "p \<le> k" by fact
    moreover have "n - 2 ^ p \<le> 2 ^ k" using \<open>2 ^ p \<le> 2 ^ k\<close> p(3) unfolding power_Suc by linarith
    ultimately show ?thesis
      using p Suc.IH [of "2 ^ p" offset] Suc.IH [of "n - 2 ^ p" "offset + 2 ^ p"] Suc.prems False
      by (simp add: shape_from_cases(2))
  qed
qed

lemma fold_reduces_shape:
  "items \<noteq> [] \<Longrightarrow> drop offset whole = items @ rest \<Longrightarrow> pairwise_fold identity merge items = reduce_shape merge whole (shape_from offset (length items))"
proof (induction identity merge items arbitrary: offset rest rule: pairwise_fold.induct)
  case (1 identity merge items)
  show ?case
  proof (cases "length items = 1")
    case True
    then obtain x where x: "items = [x]" by (auto simp: length_Suc_conv)
    then have "whole ! offset = x" using "1.prems"(2) by (metis append_Cons drop_eq_Nil2 hd_drop_conv_nth leI list.distinct(1) list.sel(1))
    then show ?thesis by (simp add: x pairwise_fold.simps shape_from_cases(1))
  next
    case False
    define split where "split = largest_pow2_below (length items)"
    have two: "2 \<le> length items" using False "1.prems"(1) by (cases items) (auto simp: Suc_le_eq)
    then have split: "0 < split" "split < length items" using split_bounds by (simp_all add: split_def)
    have left: "drop offset whole = take split items @ (drop split items @ rest)" using "1.prems"(2) by simp
    have right: "drop (offset + split) whole = drop split items @ rest"
      using split(2) by (simp add: drop_drop [symmetric, of split offset] add.commute [of offset] "1.prems"(2) del: drop_drop)
    have "pairwise_fold identity merge items
        = merge (pairwise_fold identity merge (take split items)) (pairwise_fold identity merge (drop split items))"
      using False "1.prems"(1) by (subst pairwise_fold.simps) (simp add: split_def Let_def)
    also have "\<dots> = merge (reduce_shape merge whole (shape_from offset (length (take split items))))
        (reduce_shape merge whole (shape_from (offset + split) (length (drop split items))))"
      using "1.IH"(1) [OF _ False split_def _ left] "1.IH"(2) [OF _ False split_def _ right] "1.prems"(1) split by simp
    finally show ?thesis using split by (simp add: shape_from_cases(2) [OF two] split_def)
  qed
qed

section \<open>Properties\<close>

text \<open>C33. The reduction tree is a function of the number of items alone: for every number there is one tree, with the items in
  ascending order at its leaves and the least possible depth, up which every merge folds every sequence of that length.\<close>

theorem reduction_shape_fixed:
  "\<exists>shape. shape_items shape = [0..<Suc n] \<and> (\<forall>k\<le>64. Suc n \<le> 2 ^ k \<longrightarrow> shape_depth shape \<le> k)
    \<and> (\<forall>identity (merge :: 'a \<Rightarrow> 'a \<Rightarrow> 'a) items. length items = Suc n \<longrightarrow> pairwise_fold identity merge items = reduce_shape merge items shape)"
proof (intro exI conjI allI impI)
  show "shape_items (shape_from 0 (Suc n)) = [0..<Suc n]" using shape_covers [of "Suc n" 0] by simp
  show "shape_depth (shape_from 0 (Suc n)) \<le> k" if "k \<le> 64" "Suc n \<le> 2 ^ k" for k
    using shape_balanced [of "Suc n" k 0] that by simp
  show "pairwise_fold identity merge items = reduce_shape merge items (shape_from 0 (Suc n))" if "length items = Suc n"
    for identity and merge :: "'a \<Rightarrow> 'a \<Rightarrow> 'a" and items
    using fold_reduces_shape [of items 0 items "[]"] that by (cases items) simp_all
qed

theorem reduction_shape_fixed_witness:
  "\<exists>shape. shape_items shape = [0, 1, 2, 3, 4] \<and> shape_depth shape \<le> 3
    \<and> pairwise_fold 0 (-) [9, 2, 3, 4, 5] = reduce_shape (-) [9, 2, 3, 4, 5 :: int] shape"
proof -
  obtain shape where shape: "shape_items shape = [0..<Suc 4]" "\<forall>k\<le>64. Suc 4 \<le> 2 ^ k \<longrightarrow> shape_depth shape \<le> k"
    "\<forall>identity (merge :: int \<Rightarrow> int \<Rightarrow> int) items. length items = Suc 4 \<longrightarrow> pairwise_fold identity merge items = reduce_shape merge items shape"
    by (rule exE [OF reduction_shape_fixed [of 4, where ?'a = int]]) (elim conjE, rule that)
  have "[0..<Suc 4] = [0, 1, 2, 3, 4]" by (simp add: eval_nat_numeral)
  moreover have "shape_depth shape \<le> 3" using shape(2) [rule_format, of 3] by simp
  moreover have "pairwise_fold 0 (-) [9, 2, 3, 4, 5] = reduce_shape (-) [9, 2, 3, 4, 5 :: int] shape"
    by (rule shape(3) [rule_format]) simp
  ultimately have "shape_items shape = [0, 1, 2, 3, 4] \<and> shape_depth shape \<le> 3
      \<and> pairwise_fold 0 (-) [9, 2, 3, 4, 5] = reduce_shape (-) [9, 2, 3, 4, 5 :: int] shape"
    by (simp only: shape(1) simp_thms)
  then show ?thesis ..
qed

end
