(* ===== verification/Spec2Isabelle.thy ===== *)
theory Spec2Isabelle
  imports Prelude Morton Identity_Properties Identity_Rows Lease_Resolution Cbc_Gate Cbc_Results Sobol Budget_Accountant
    Exec_Drain Exec_Reduce
begin

text \<open>
  A verification development of the exact substrate of FrankenSim: the parts of the workspace whose
  results other parts name, budget or certify, and which compute on integers and bytes only.

  \<^bold>\<open>The parts and how they interact.\<close>

  \<^item> \<open>crates/fs-blake3/src/lib.rs\<close>: the in-house BLAKE3 hasher and content hashes. Everything that is named
    by content is named through it. \<open>Blake3\<close> holds the compression function, the chunk and tree state and the
    streaming hasher; \<open>Blake3_Tree\<close> the recursive specification it refines; \<open>Blake3_Hash\<close> the domain hasher and
    the hexadecimal form.
  \<^item> \<open>crates/fs-blake3/src/identity.rs\<close>, lines 1--2999: strong identities. A typed value is framed field by field
    by a transactional encoder, under limits and cancellation polls, and named by the domain hash of the
    frame. \<open>Identity_Schema\<close> holds static schemas and child bindings, \<open>Identity_Encoder\<close> and \<open>Identity_Fields\<close> the
    encoder and its field methods, \<open>Identity_Stream\<close> the ordered-row stream. \<open>Identity_Logic\<close> is a program logic for
    encoder computations, with its rules in \<open>Identity_Rules\<close>, \<open>Identity_Validation\<close>, \<open>Identity_Fields_Rules\<close>,
    \<open>Identity_Collections\<close> and \<open>Identity_Calls\<close>; \<open>Identity_Frame\<close> is the frame as a function and
    \<open>Identity_Canonical\<close> its injectivity. \<open>Identity_Build\<close>, \<open>Identity_Result\<close>, \<open>Identity_Properties\<close>,
    \<open>Identity_Rows\<close> and \<open>Identity_Binding\<close> hold the guarantees.
  \<^item> \<open>crates/fs-alloc/src/lease.rs\<close>: the operation memory lease, a tree of byte budgets with delegation,
    two-phase publication of staged bytes, terminal seals and hashed receipts. \<open>Receipt_Hash\<close> and
    \<open>Lease_Identity\<close> hold the receipt hasher and the fixed-width identities; \<open>Lease_State\<close> and \<open>Lease_Ledger\<close> the
    data, refusal reasons and receipts; \<open>Lease_Root\<close>, \<open>Lease_Delegation\<close> and \<open>Lease_Publication\<close> the transitions
    behind the mutex; \<open>Lease_System\<close> the handles on the ledger with their destructors, and the step relation
    of a whole run. \<open>Lease_Invariant\<close>, \<open>Lease_Charges\<close> and \<open>Lease_Return\<close> prove the accounting invariant preserved,
    \<open>Lease_Frame\<close> what never changes, \<open>Lease_Scoped\<close> what safe runs add; \<open>Lease_Properties\<close>, \<open>Lease_Outcomes\<close> and
    \<open>Lease_Resolution\<close> hold the guarantees, and \<open>Lease_Demo\<close> the run their witnesses use.
  \<^item> \<open>crates/fs-rand/src/{cbc_limb,qmc,cbc_cert,cbc,cbc_exec}.rs\<close>: exact component-by-component construction of
    rank-1 lattices. Scores of candidate components are arbitrary-precision integers computed by resumable
    limb microprograms (\<open>Limb_Kernel\<close>, \<open>Limb_Exact\<close>, \<open>Exact_Nat\<close>, \<open>Cbc_Kernel\<close>); an admission fixes widths,
    bytes and work before anything runs (\<open>Cbc_Admission\<close>, \<open>Cbc_Totient\<close>, \<open>Cbc_Budget\<close>); a tiled executor that can
    stop at any boundary scans candidates and folds the winner into the products (\<open>Cbc_Executor\<close>, \<open>Cbc_Run\<close>);
    and a checker accepts or refutes the certificates it emits (\<open>Cbc_Certificate\<close>, \<open>Cbc_Scores\<close>, \<open>Cbc_Audit\<close>,
    \<open>Cbc_Gate\<close>). What the executor computes is proved from the inside out: one candidate and one scan
    (\<open>Cbc_Points\<close>, \<open>Cbc_Scan\<close>, \<open>Cbc_Scan_Loop\<close>), the folds of the initial and update tiles (\<open>Cbc_Fold\<close>), the invariant
    of a resumable executor with the unit cost of its position (\<open>Cbc_Invariant\<close>), one tile (\<open>Cbc_Tile\<close>), whole runs
    (\<open>Cbc_Completion\<close>), the simulation that separates off refused reservations of tie classes, after which
    the executor is not to be run on (\<open>Cbc_Ties\<close>), and sessions of interrupted runs, series of runs and the
    facade (\<open>Cbc_Results\<close>).
  \<^item> \<open>crates/fs-rand/src/{philox,lib}.rs\<close>: the counter-based generator. \<open>Philox\<close> holds the block function, its batched
    form and the proofs that they agree and that blocks never collide under a key; \<open>Rand_Stream\<close> the keyed streams,
    versioned checkpoints with their canonical bytes, sequential, bulk and bounded draws.
  \<^item> \<open>crates/fs-rand/src/qmc.rs\<close>, lines 31--217: Sobol points over the embedded direction table and their Owen
    scrambling by flips drawn from the generator (\<open>Sobol\<close>).
  \<^item> \<open>crates/fs-exec/src/{budget_accountant,cx,reduce}.rs\<close>: the accountant that enforces an admitted budget at tile
    boundaries (\<open>Budget_Accountant\<close>), the cancellation gate and the tracker that attests a drained run
    (\<open>Exec_Drain\<close>, a step relation over all interleavings), and the fixed-shape reduction (\<open>Exec_Reduce\<close>).
  \<^item> \<open>crates/fs-substrate/src/morton\<close>: the 3D Morton codec, portable and BMI2 (\<open>Morton\<close>).

  \<^bold>\<open>Shared theories and interfaces.\<close> \<open>Prelude\<close> holds Rust's checked and saturating arithmetic, results with an
  error side (\<open>outcome\<close>: \<open>Ok\<close>, \<open>Err\<close>, or \<open>Panicked\<close> for an unwinding panic) and the lemmas on lists and sums the
  parts share. Three interfaces are locales, each interpreted on the model's own definitions: \<open>framing\<close> (byte
  encodings that can be read back one after the other; interpreted on little-endian integers, length
  prefixes, digests and schema descriptors), \<open>streaming_hash\<close> (an incremental hasher is a function of the
  concatenated input; interpreted on the BLAKE3 state and the domain hasher, and used by the encoder), and
  \<open>space_curve\<close> (a bijective codec; interpreted on the Morton codec).

  \<^bold>\<open>Conventions.\<close> Code that works on bits uses words (\<open>u32\<close>, \<open>u64\<close>, \<open>u128\<close>); accounting code, whose additions are
  checked, uses natural numbers with the checks written out at their width. \<open>usize\<close> is 64 bits. Debug
  assertions are not modelled; an \<open>expect\<close>, an index out of bounds or a failed debug-mode increment is \<open>Panicked\<close>,
  and theorems show where it cannot happen. A mutex makes each lease transition one step; where a
  refused call takes the lock twice, to refuse and to drop its handle, the two are steps of their own as well. Closures that code
  receives (row producers, cancellation polls, the allocator, clock readings, the reason of a panic) are arguments: functions of
  how often they were asked, or interaction trees. Loops that need not end are partial functions into \<open>option\<close>;
  wherever a property speaks of their result, that they return is part of what is proved. No fuel is used.

  \<^bold>\<open>Bounds.\<close> A hashed input is below \<open>2^64\<close> bytes, as the chunk counter requires; a certificate's limb vector is
  short of the 64-bit length limit by eight; both limits are those of the machine. The polling stride, the
  depth cap of child schemas and the path limit are the source's constants.

  \<^bold>\<open>Not modelled.\<close> The audit, authority and promotion records of \<open>identity.rs\<close> (lines 2999 on) and the
  typed allocations of \<open>lease.rs\<close> (lines 4466--4900); JSON, Debug and Display output; read-only getters; the
  floating-point draws, normals and other distributions of \<open>fs-rand\<close>, the floating-point point and error functions of
  \<open>Lattice\<close> (a Sobol coordinate is kept as the word whose exact quotient by \<open>2^32\<close> the code writes), and the
  compensated sums of \<open>reduce.rs\<close>. The pool, the tuner and the solver of \<open>fs-exec\<close> are threads and wall clocks. The rest of the workspace
  is floating-point numerics, geometry, rendering, I/O, the command line, build tasks and their evidence
  files, which need a model of IEEE arithmetic or of the outside world rather than of this logic.
\<close>

end
